(* ===== verification/Chap_Prelude.thy ===== *)
theory Chap_Prelude
  imports Main "HOL-Library.Word"
begin

text \<open>
  Shared vocabulary of the development: the machine types of the 64-bit instantiation of chap's
  templates, the collections of facts the component theories extend, and the lemmas on words and
  lists that several components use.
\<close>

section \<open>Machine types\<close>

text \<open>
  chap's classes are templates over \<open>Offset\<close>.  Unless a theory says otherwise the development
  models the instantiation for 64-bit cores, where \<open>Offset\<close> is \<open>uint64_t\<close>.
\<close>

type_synonym addr = "64 word"
type_synonym byte = "8 word"

abbreviation (input) sizeof_Offset :: addr where
  "sizeof_Offset \<equiv> 8"

section \<open>Collections of facts\<close>

named_theorems interval_simps \<open>half-open address intervals\<close>
named_theorems store_laws \<open>laws of the range stores and of the index stores\<close>

section \<open>Words\<close>

lemma word_sub_less [interval_simps]:
  fixes l s :: "'a::len word"
  assumes "0 < s" "s \<le> l"
  shows "l - s < l"
  using assms by (simp add: word_less_nat_alt word_le_nat_alt unat_sub)

lemma word_sub_le_self:
  fixes l s :: "'a::len word"
  assumes "s \<le> l"
  shows "l - s \<le> l"
  using assms by (simp add: word_le_nat_alt unat_sub)

lemma no_wrap_unat:
  fixes b s :: "'a::len word"
  assumes "b \<le> b + s"
  shows "unat (b + s) = unat b + unat s"
  using assms no_olen_add_nat unat_plus_simple by blast

lemma no_wrap_size_le:
  fixes b s :: "'a::len word"
  assumes "b \<le> b + s"
  shows "s \<le> b + s"
  using no_wrap_unat [OF assms] by (simp add: word_le_nat_alt)

lemma no_wrap_less:
  fixes b s :: "'a::len word"
  assumes "b \<le> b + s" "0 < s"
  shows "b < b + s"
  using no_wrap_unat [OF assms(1)] assms(2) by (simp add: word_less_nat_alt)

lemma word_sub_sub_self:
  fixes l s :: "'a::len word"
  shows "l - (l - s) = s"
  by simp

lemma word_less_sub:
  fixes a b :: "'a::len word"
  assumes "a < b"
  shows "0 < b - a" "b - a \<le> b"
  using assms by (simp_all add: word_less_nat_alt word_le_nat_alt unat_sub)

lemma unat_add_of_nat:
  fixes a :: "'a::len word"
  assumes "unat a + k < 2 ^ LENGTH('a)"
  shows "unat (a + of_nat k) = unat a + k"
  using assms by (simp add: unat_word_ariths unat_of_nat)

lemma unat_of_nat_addr: "n < 2 ^ 64 \<Longrightarrow> unat (of_nat n :: addr) = n"
  by (simp add: unat_of_nat take_bit_eq_mod)

lemma unat_Suc_word:
  fixes x :: "'a::len word"
  assumes "unat x + 1 < 2 ^ LENGTH('a)"
  shows "unat (x + 1) = unat x + 1"
  using unat_add_of_nat [of x 1] assms by simp

lemma unat_sub_le:
  fixes a b :: "'a::len word"
  assumes "b \<le> a"
  shows "unat (a - b) = unat a - unat b"
  using assms by (simp add: unat_sub word_le_nat_alt)

unbundle bit_operations_syntax

lemma bit_AND_exp: "(w AND 2 ^ n \<noteq> 0) = bit w n" if "n < 64" for w :: "64 word"
proof -
  have "w AND 2 ^ n = (if bit w n then 2 ^ n else 0)"
    by (rule bit_word_eqI) (auto simp: bit_simps)
  moreover have "bit (2 ^ n :: 64 word) n" using that by (simp add: bit_exp_iff)
  then have "(2 :: 64 word) ^ n \<noteq> 0" by (metis bit_0_eq bot_apply bot_bool_def)
  ultimately show ?thesis by simp
qed

text \<open>Rounding down to a power of two.\<close>

lemma unat_two_power:
  assumes "k < LENGTH('a)"
  shows "unat ((2 :: 'a::len word) ^ k) = 2 ^ k"
proof -
  have "(2 :: 'a word) ^ k = of_nat (2 ^ k)" by simp
  then show ?thesis using assms by (simp only: unat_of_nat) (simp add: power_strict_increasing)
qed

lemma unat_AND_NOT_mask:
  fixes n :: "'a::len word"
  assumes "k < LENGTH('a)"
  shows "unat (n AND NOT (mask k)) = unat n - unat n mod 2 ^ k"
proof -
  have "n AND NOT (mask k) = push_bit k (drop_bit k n)"
    by (rule bit_word_eqI) (auto simp: bit_simps)
  also have "\<dots> = n div 2 ^ k * 2 ^ k" by (simp add: push_bit_eq_mult drop_bit_eq_div)
  also have "\<dots> = n - n mod 2 ^ k" using div_mult_mod_eq [of n "2 ^ k"] by (metis add_diff_cancel_right')
  finally have "unat (n AND NOT (mask k)) = unat (n - n mod 2 ^ k)" by simp
  moreover have "unat (n - n mod 2 ^ k) = unat n - unat n mod 2 ^ k"
    using unat_two_power [OF assms] by (simp add: unat_sub_le word_le_nat_alt unat_mod)
  ultimately show ?thesis by simp
qed

section \<open>Lists\<close>

lemma find_Some_split:
  assumes "find P xs = Some x"
  obtains ys zs where "xs = ys @ x # zs" "P x" "\<forall>y\<in>set ys. \<not> P y"
proof -
  from assms obtain i where i: "i < length xs" "P (xs ! i)" "x = xs ! i" "\<forall>j<i. \<not> P (xs ! j)"
    by (auto simp: find_Some_iff)
  have "xs = take i xs @ x # drop (Suc i) xs"
    using i by (simp add: id_take_nth_drop)
  moreover have "\<forall>y\<in>set (take i xs). \<not> P y"
    using i by (auto simp: in_set_conv_nth)
  ultimately show ?thesis using i that by blast
qed

lemma Bex_set_nth: "(\<exists>x\<in>set xs. P x) \<longleftrightarrow> (\<exists>i<length xs. P (xs ! i))"
  by (metis in_set_conv_nth)

lemma takeWhile_nth_holds: "i < length (takeWhile P xs) \<Longrightarrow> P (takeWhile P xs ! i)"
  by (meson nth_mem set_takeWhileD)

lemma takeWhile_take_le: "length (takeWhile P (take n xs)) \<le> n"
  using length_takeWhile_le [of P "take n xs"] by simp

text \<open>Marking an entry of a list of flags that was not marked.\<close>

lemma filter_Not_update:
  "i < length xs \<Longrightarrow> \<not> xs ! i \<Longrightarrow> Suc (length (filter Not (xs[i := True]))) = length (filter Not xs)"
proof (induction xs arbitrary: i)
  case (Cons x xs)
  then show ?case by (cases i) auto
qed simp

section \<open>Loops over the words of a range\<close>

definition word_addrs :: "addr \<Rightarrow> addr \<Rightarrow> addr list" where
  "word_addrs base limit = map (\<lambda>j. base + 8 * of_nat j) [0..<(unat limit - unat base + 7) div 8]"

lemma word_addrs_Nil: "\<not> base < limit \<Longrightarrow> word_addrs base limit = []"
  by (simp add: word_addrs_def word_less_nat_alt)

lemma word_addrs_Cons:
  assumes "base < limit" "unat limit + 8 \<le> 2 ^ 64"
  shows "word_addrs base limit = base # word_addrs (base + 8) limit" "unat (base + 8) = unat base + 8"
proof -
  have lt: "unat base < unat limit" using assms(1) by (simp add: word_less_nat_alt)
  then show u: "unat (base + 8) = unat base + 8"
    using assms(2) unat_add_of_nat [of base 8] by simp
  define k where "k = (unat limit - unat base + 7) div 8"
  have "k = Suc ((unat limit - (unat base + 8) + 7) div 8)"
    using lt unfolding k_def by (cases "unat limit - unat base \<le> 8") (auto simp: le_Suc_eq, linarith?)
  then have "[0..<k] = 0 # map Suc [0..<(unat limit - unat (base + 8) + 7) div 8]"
    unfolding u by (simp only: map_Suc_upt) (simp add: upt_conv_Cons)
  moreover have "word_addrs base limit = map (\<lambda>j. base + 8 * of_nat j) [0..<k]"
    by (simp add: word_addrs_def k_def)
  ultimately have "word_addrs base limit =
      map (\<lambda>j. base + 8 * of_nat j) (0 # map Suc [0..<(unat limit - unat (base + 8) + 7) div 8])"
    by (simp only:)
  then show "word_addrs base limit = base # word_addrs (base + 8) limit"
    by (simp add: word_addrs_def algebra_simps)
qed

end
