(* ===== verification/Std_Map.thy ===== *)
theory Std_Map
  imports Chap_Prelude
begin

text \<open>
  The part of \<open>std::map\<close> that chap uses, on association lists kept in increasing order of key.
  An iterator is an entry (or the key of one); \<open>end()\<close> is \<open>None\<close>.  This is the language's own
  library, so nothing here maps to a line of chap.
\<close>

section \<open>Operations\<close>

type_synonym ('k, 'v) std_map = "('k \<times> 'v) list"

definition sm_lower_bound :: "('k::linorder, 'v) std_map \<Rightarrow> 'k \<Rightarrow> ('k \<times> 'v) option" where
  "sm_lower_bound m k = find (\<lambda>e. k \<le> fst e) m"

definition sm_upper_bound :: "('k::linorder, 'v) std_map \<Rightarrow> 'k \<Rightarrow> ('k \<times> 'v) option" where
  "sm_upper_bound m k = find (\<lambda>e. k < fst e) m"

definition sm_find :: "('k, 'v) std_map \<Rightarrow> 'k \<Rightarrow> 'v option" where
  "sm_find m k = map_of m k"

text \<open>\<open>m[k] = v\<close>\<close>

fun sm_assign :: "'k::linorder \<Rightarrow> 'v \<Rightarrow> ('k, 'v) std_map \<Rightarrow> ('k, 'v) std_map" where
  "sm_assign k v [] = [(k, v)]"
| "sm_assign k v ((k', v') # m) =
     (if k < k' then (k, v) # (k', v') # m
      else if k = k' then (k, v) # m
      else (k', v') # sm_assign k v m)"

text \<open>\<open>m.emplace(k, v)\<close> and \<open>m.try_emplace(k, v)\<close>: nothing happens where the key is present.\<close>

definition sm_emplace :: "'k::linorder \<Rightarrow> 'v \<Rightarrow> ('k, 'v) std_map \<Rightarrow> ('k, 'v) std_map \<times> bool" where
  "sm_emplace k v m =
     (case sm_find m k of Some _ \<Rightarrow> (m, False) | None \<Rightarrow> (sm_assign k v m, True))"

text \<open>\<open>m.erase(k)\<close>\<close>

fun sm_erase :: "'k \<Rightarrow> ('k, 'v) std_map \<Rightarrow> ('k, 'v) std_map" where
  "sm_erase k [] = []"
| "sm_erase k ((k', v') # m) = (if k = k' then m else (k', v') # sm_erase k m)"

abbreviation sm_sorted :: "('k::linorder, 'v) std_map \<Rightarrow> bool" where
  "sm_sorted m \<equiv> sorted_wrt (<) (map fst m)"

section \<open>Laws\<close>

lemma sm_find_Nil [simp]: "sm_find [] k = None"
  by (simp add: sm_find_def)

lemma Ball_sm_assign [simp]:
  "(\<forall>e\<in>set (sm_assign k v m). P (fst e)) \<longleftrightarrow> P k \<and> (\<forall>e\<in>set m. P (fst e))"
  by (induction k v m rule: sm_assign.induct) auto

lemma sm_assign_sorted [simp]: "sm_sorted m \<Longrightarrow> sm_sorted (sm_assign k v m)"
  by (induction k v m rule: sm_assign.induct) auto

lemma map_of_sm_assign [simp]: "sm_sorted m \<Longrightarrow> map_of (sm_assign k v m) = (map_of m)(k \<mapsto> v)"
proof (induction m)
  case (Cons e m)
  obtain k' v' where e: "e = (k', v')" by (cases e)
  have "k < k' \<Longrightarrow> map_of m k = None"
    using Cons.prems e by (force simp: map_of_eq_None_iff)
  then show ?case using Cons e by (auto simp: fun_eq_iff)
qed simp

lemma sm_find_assign [store_laws, simp]:
  "sm_sorted m \<Longrightarrow> sm_find (sm_assign k v m) k' = (if k' = k then Some v else sm_find m k')"
  by (simp add: sm_find_def)

lemma set_sm_erase: "set (sm_erase k m) \<subseteq> set m"
  by (induction k m rule: sm_erase.induct) auto

lemma sm_erase_sorted [simp]: "sm_sorted m \<Longrightarrow> sm_sorted (sm_erase k m)"
proof (induction m)
  case (Cons e m)
  then show ?case using set_sm_erase [of k m] by (cases e) auto
qed simp

lemma sm_find_erase [store_laws, simp]:
  "sm_sorted m \<Longrightarrow> sm_find (sm_erase k m) k' = (if k' = k then None else sm_find m k')"
proof (induction m)
  case (Cons e m)
  obtain k0 v0 where e: "e = (k0, v0)" by (cases e)
  have "map_of m k0 = None"
    using Cons.prems e by (force simp: map_of_eq_None_iff)
  then show ?case using Cons e by (auto simp: sm_find_def)
qed (simp add: sm_find_def)

lemma sm_emplace_sorted [simp]: "sm_sorted m \<Longrightarrow> sm_sorted (fst (sm_emplace k v m))"
  by (simp add: sm_emplace_def split: option.split)

lemma sm_find_emplace [store_laws]:
  "sm_sorted m \<Longrightarrow> sm_find (fst (sm_emplace k v m)) k' =
     (if k' = k then Some (case sm_find m k of None \<Rightarrow> v | Some v0 \<Rightarrow> v0) else sm_find m k')"
  by (auto simp: sm_emplace_def split: option.split)

lemma sm_find_in_set: "sm_sorted m \<Longrightarrow> sm_find m k = Some v \<longleftrightarrow> (k, v) \<in> set m"
proof -
  assume "sm_sorted m"
  then have "distinct (map fst m)"
    by (simp add: strict_sorted_iff)
  then show ?thesis
    by (simp add: sm_find_def)
qed

section \<open>Sorting by position: appending in the middle\<close>

lemma sm_assign_append_before:
  "\<forall>e\<in>set ys. fst e < k \<Longrightarrow> sm_assign k v (ys @ zs) = ys @ sm_assign k v zs"
  by (induction ys) auto

lemma sm_erase_append:
  "\<forall>e\<in>set ys. fst e \<noteq> k \<Longrightarrow> sm_erase k (ys @ zs) = ys @ sm_erase k zs"
  by (induction ys) auto

end
