(* ===== verification/Range_Store.thy ===== *)
theory Range_Store
  imports Chap_Prelude
begin

text \<open>
  The contract of a store of disjoint address ranges, as its clients (the virtual address map, the
  partition of virtual memory, the stack registry, the directory of file mapped ranges) use it: which
  insertions it accepts, and what a lookup returns after an insertion, a removal or neither.
\<close>

abbreviation wrange :: "'o::len word \<Rightarrow> 'o word \<Rightarrow> 'o word set" where
  "wrange b s \<equiv> {b..<b + s}"

locale range_store =
  fixes inv :: "'m \<Rightarrow> bool"
    and lookup :: "'m \<Rightarrow> 'o::len word \<Rightarrow> 'v option"
    and insert_range :: "'m \<Rightarrow> 'o word \<Rightarrow> 'o word \<Rightarrow> 'v \<Rightarrow> 'm"
    and accepts :: "'m \<Rightarrow> 'o word \<Rightarrow> 'o word \<Rightarrow> 'v \<Rightarrow> bool"
    and remove_range :: "'m \<Rightarrow> 'o word \<Rightarrow> 'o word \<Rightarrow> 'm"
    and find_range :: "'m \<Rightarrow> 'o word \<Rightarrow> ('o word \<times> 'o word \<times> 'v) option"
    and new_store :: 'm
  assumes inv_new: "inv new_store"
    and lookup_new: "lookup new_store = (\<lambda>a. None)"
    and inv_insert: "inv m \<Longrightarrow> b \<le> b + s \<Longrightarrow> inv (insert_range m b s v)"
    and accepts_iff: "inv m \<Longrightarrow> b \<le> b + s \<Longrightarrow>
          accepts m b s v \<longleftrightarrow> (\<forall>a\<in>wrange b s. lookup m a = None)"
    and lookup_insert: "inv m \<Longrightarrow> b \<le> b + s \<Longrightarrow>
          lookup (insert_range m b s v) a =
            (if accepts m b s v \<and> a \<in> wrange b s then Some v else lookup m a)"
    and inv_remove: "inv m \<Longrightarrow> b \<le> b + s \<Longrightarrow> inv (remove_range m b s)"
    and lookup_remove: "inv m \<Longrightarrow> b \<le> b + s \<Longrightarrow>
          lookup (remove_range m b s) a = (if a \<in> wrange b s then None else lookup m a)"
    and find_Some: "inv m \<Longrightarrow> find_range m a = Some (b, s, v) \<Longrightarrow>
          b \<le> b + s \<and> a \<in> wrange b s \<and> (\<forall>a'\<in>wrange b s. lookup m a' = Some v)"
    and find_None: "inv m \<Longrightarrow> find_range m a = None \<longleftrightarrow> lookup m a = None"
begin

lemmas inv_laws = inv_new inv_insert inv_remove
lemmas lookup_laws = lookup_new lookup_insert lookup_remove

definition covered :: "'m \<Rightarrow> 'o word set" where
  "covered m = {a. lookup m a \<noteq> None}"

lemma covered_new: "covered new_store = {}"
  by (simp add: covered_def lookup_new)

lemma accepts_covered: "inv m \<Longrightarrow> b \<le> b + s \<Longrightarrow> accepts m b s v \<longleftrightarrow> wrange b s \<inter> covered m = {}"
  by (auto simp: accepts_iff covered_def)

lemma covered_insert:
  "inv m \<Longrightarrow> b \<le> b + s \<Longrightarrow>
   covered (insert_range m b s v) = (if accepts m b s v then covered m \<union> wrange b s else covered m)"
  by (auto simp: covered_def lookup_insert)

lemma covered_remove: "inv m \<Longrightarrow> b \<le> b + s \<Longrightarrow> covered (remove_range m b s) = covered m - wrange b s"
  by (auto simp: covered_def lookup_remove)

lemma find_lookup: "inv m \<Longrightarrow> map_option (\<lambda>(b, s, v). v) (find_range m a) = lookup m a"
  using find_Some [of m a] find_None [of m a] by (cases "find_range m a") auto

lemma insert_then_remove:
  assumes "inv m" "b \<le> b + s" "accepts m b s v"
  shows "lookup (remove_range (insert_range m b s v) b s) = lookup m"
  using assms by (auto simp: fun_eq_iff lookup_remove lookup_insert inv_insert accepts_iff)

text \<open>Inserting a list of ranges, as the loops over the ranges of another store do.\<close>

definition insert_all :: "'m \<Rightarrow> ('o word \<times> 'o word \<times> 'v) list \<Rightarrow> 'm" where
  "insert_all m rs = foldl (\<lambda>m (b, s, v). insert_range m b s v) m rs"

lemma insert_all_simps [simp]:
  "insert_all m [] = m"
  "insert_all m ((b, s, v) # rs) = insert_all (insert_range m b s v) rs"
  by (simp_all add: insert_all_def)

lemma insert_all_outcome:
  assumes "inv m" "\<forall>(b, s, v)\<in>set rs. b \<le> b + s \<and> wrange b s \<inter> covered m = {}"
    and "sorted_wrt (\<lambda>(b, s, v) (b', s', v'). wrange b s \<inter> wrange b' s' = {}) rs"
  shows "inv (insert_all m rs)"
    and "lookup (insert_all m rs) a =
           (case find (\<lambda>(b, s, v). a \<in> wrange b s) rs of Some (b, s, v) \<Rightarrow> Some v | None \<Rightarrow> lookup m a)"
proof -
  have "inv (insert_all m rs) \<and> lookup (insert_all m rs) a =
           (case find (\<lambda>(b, s, v). a \<in> wrange b s) rs of Some (b, s, v) \<Rightarrow> Some v | None \<Rightarrow> lookup m a)"
    using assms
  proof (induction rs arbitrary: m)
    case (Cons r rs)
    obtain b s v where r: "r = (b, s, v)" by (cases r)
    let ?m = "insert_range m b s v"
    have le: "b \<le> b + s" and acc: "accepts m b s v"
      using Cons.prems r by (auto simp: accepts_covered)
    have inv: "inv ?m" using Cons.prems(1) le by (rule inv_insert)
    have cov: "covered ?m = covered m \<union> wrange b s"
      using Cons.prems(1) le acc by (simp add: covered_insert)
    have "inv (insert_all ?m rs) \<and> lookup (insert_all ?m rs) a =
        (case find (\<lambda>(b, s, v). a \<in> wrange b s) rs of Some (b, s, v) \<Rightarrow> Some v | None \<Rightarrow> lookup ?m a)"
    proof (rule Cons.IH [OF inv])
      show "\<forall>(b, s, v)\<in>set rs. b \<le> b + s \<and> wrange b s \<inter> covered ?m = {}"
        using Cons.prems(2,3) unfolding cov r by fastforce
      show "sorted_wrt (\<lambda>(b, s, v) (b', s', v'). wrange b s \<inter> wrange b' s' = {}) rs"
        using Cons.prems(3) by simp
    qed
    moreover have "find (\<lambda>(b, s, v). a \<in> wrange b s) rs = None" if "a \<in> wrange b s"
      using Cons.prems(3) that unfolding find_None_iff r by fastforce
    ultimately show ?case
      using Cons.prems(1) le acc
      by (cases "a \<in> wrange b s") (auto simp: r lookup_insert split: option.split)
  qed simp
  then show "inv (insert_all m rs)" "lookup (insert_all m rs) a =
           (case find (\<lambda>(b, s, v). a \<in> wrange b s) rs of Some (b, s, v) \<Rightarrow> Some v | None \<Rightarrow> lookup m a)"
    by blast+
qed

end

end
