(* ===== verification/Range_Mapper.thy ===== *)
theory Range_Mapper
  imports Std_Map Range_Store
begin

unbundle bit_operations_syntax

text \<open>
  The template \<open>RangeMapper<Off, T>\<close> of RangeMapper.h: a map from disjoint half-open address ranges
  to values, kept as a \<open>std::map\<close> from the limit of a range to its size and value.  The model is
  generic in the width of \<open>Offset\<close> and in the value type.  The abstraction of a mapper is the partial
  function from addresses to values (\<open>rm_lookup\<close>); every operation refines its counterpart on it.
\<close>

section \<open>State\<close>

type_synonym ('o, 'v) rm_entry = "'o word \<times> ('o word \<times> 'v)"
type_synonym ('o, 'v) rm_entries = "('o, 'v) rm_entry list"

record (overloaded) ('o, 'v) range_mapper =
  rm_map :: "('o, 'v) rm_entries"
  rm_coallesce :: bool

record (overloaded) ('o, 'v) Range =
  r_limit :: "'o word"
  r_size :: "'o word"
  r_value :: 'v
  r_base :: "'o word"

definition RangeMapper_new :: "bool \<Rightarrow> ('o::len, 'v) range_mapper" where
  "RangeMapper_new c = \<lparr>rm_map = [], rm_coallesce = c\<rparr>"

text \<open>\<open>Range::Set\<close>, called by both dereferencing operators of \<open>RangeIterator\<close>.\<close>

definition Range_Set :: "'o::len word \<Rightarrow> 'o word \<Rightarrow> 'v \<Rightarrow> ('o, 'v) Range" where
  "Range_Set limit sz val = \<lparr>r_limit = limit, r_size = sz, r_value = val, r_base = limit - sz\<rparr>"

fun RangeIterator_deref :: "('o::len, 'v) rm_entry \<Rightarrow> ('o, 'v) Range" where
  "RangeIterator_deref (limit, sz, val) = Range_Set limit sz val"

section \<open>Operations\<close>

text \<open>
  An iterator into the mapper is the entry it points to, \<open>None\<close> for \<open>end()\<close>.  \<open>itNext\<close> is the entry
  after \<open>it\<close> in key order.
\<close>

definition rm_next :: "('o::len, 'v) rm_entries \<Rightarrow> 'o word \<Rightarrow> ('o, 'v) rm_entry option" where
  "rm_next m limit = sm_upper_bound m limit"

definition rm_emplace_result ::
  "('o::len, 'v) range_mapper \<Rightarrow> ('o, 'v) rm_entries \<Rightarrow> 'o word \<Rightarrow> 'o word \<Rightarrow> 'v
   \<Rightarrow> ('o, 'v) range_mapper \<times> 'o word option \<times> bool" where
  "rm_emplace_result rm m rangeLimit rangeSize val =
     (rm\<lparr>rm_map := fst (sm_emplace rangeLimit (rangeSize, val) m)\<rparr>, Some rangeLimit, True)"

definition MapRange ::
  "('o::len, 'v) range_mapper \<Rightarrow> 'o word \<Rightarrow> 'o word \<Rightarrow> 'v
   \<Rightarrow> ('o, 'v) range_mapper \<times> 'o word option \<times> bool" where
  "MapRange rm rangeBase rangeSize val =
     (if rangeSize = 0 then (rm, None, True)
      else
        let rangeLimit = rangeBase + rangeSize; m = rm_map rm in
        case sm_lower_bound m rangeBase of
          None \<Rightarrow> rm_emplace_result rm m rangeLimit rangeSize val
        | Some (itLimit, itSize, itValue) \<Rightarrow>
            if itLimit - itSize \<le> rangeLimit then
              if itLimit - itSize = rangeLimit then
                if itValue = val \<and> rm_coallesce rm then
                  (rm\<lparr>rm_map := sm_assign itLimit (itSize + rangeSize, itValue) m\<rparr>, Some itLimit, True)
                else rm_emplace_result rm m rangeLimit rangeSize val
              else if itLimit = rangeBase then
                (case rm_next m itLimit of
                   Some (nLimit, nSize, nValue) \<Rightarrow>
                     if nLimit - nSize < rangeLimit then (rm, Some nLimit, False)
                     else if itValue = val \<and> rm_coallesce rm then
                       rm_emplace_result rm (sm_erase itLimit m) rangeLimit (rangeSize + itSize) val
                     else rm_emplace_result rm m rangeLimit rangeSize val
                 | None \<Rightarrow>
                     if itValue = val \<and> rm_coallesce rm then
                       rm_emplace_result rm (sm_erase itLimit m) rangeLimit (rangeSize + itSize) val
                     else rm_emplace_result rm m rangeLimit rangeSize val)
              else (rm, Some itLimit, False)
            else rm_emplace_result rm m rangeLimit rangeSize val)"

text \<open>
  The loop of \<open>UnmapRange\<close>.  Its first list holds the entries from \<open>it\<close> on: the body only adds an
  entry below \<open>it\<close> and only erases or shortens the entry at \<open>it\<close>, so those entries are what the
  iterator still has to see.
\<close>

fun UnmapRange_loop ::
  "'o::len word \<Rightarrow> 'o word \<Rightarrow> ('o, 'v) rm_entries \<Rightarrow> ('o, 'v) rm_entries \<Rightarrow> ('o, 'v) rm_entries" where
  "UnmapRange_loop rangeBase rangeLimit [] m = m"
| "UnmapRange_loop rangeBase rangeLimit ((limit, sz, val) # its) m =
     (if limit - sz < rangeLimit then
        if limit = rangeBase then UnmapRange_loop rangeBase rangeLimit its m
        else
          let base = limit - sz;
              m1 = (if base < rangeBase then sm_assign rangeBase (rangeBase - base, val) m else m)
          in if limit \<le> rangeLimit then UnmapRange_loop rangeBase rangeLimit its (sm_erase limit m1)
             else sm_assign limit (limit - rangeLimit, val) m1
      else m)"

definition UnmapRange ::
  "('o::len, 'v) range_mapper \<Rightarrow> 'o word \<Rightarrow> 'o word \<Rightarrow> ('o, 'v) range_mapper" where
  "UnmapRange rm rangeBase rangeSize =
     (if rangeSize = 0 then rm
      else
        let rangeLimit = rangeBase + rangeSize; m = rm_map rm in
        rm\<lparr>rm_map := UnmapRange_loop rangeBase rangeLimit (dropWhile (\<lambda>e. fst e < rangeBase) m) m\<rparr>)"

definition rm_find :: "('o::len, 'v) range_mapper \<Rightarrow> 'o word \<Rightarrow> ('o, 'v) rm_entry option" where
  "rm_find rm member =
     (case sm_upper_bound (rm_map rm) member of
        None \<Rightarrow> None
      | Some (limit, sz, val) \<Rightarrow> if member < limit - sz then None else Some (limit, sz, val))"

definition rm_upper_bound :: "('o::len, 'v) range_mapper \<Rightarrow> 'o word \<Rightarrow> ('o, 'v) rm_entry option" where
  "rm_upper_bound rm member = sm_upper_bound (rm_map rm) member"

definition rm_clear :: "('o::len, 'v) range_mapper \<Rightarrow> ('o, 'v) range_mapper" where
  "rm_clear rm = rm\<lparr>rm_map := []\<rparr>"

definition rm_empty :: "('o::len, 'v) range_mapper \<Rightarrow> bool" where
  "rm_empty rm = (rm_map rm = [])"

text \<open>\<open>None\<close> is the result \<open>false\<close>, which leaves the out-parameters untouched.\<close>

definition FindRange ::
  "('o::len, 'v) range_mapper \<Rightarrow> 'o word \<Rightarrow> ('o word \<times> 'o word \<times> 'v) option" where
  "FindRange rm member =
     (case sm_upper_bound (rm_map rm) member of
        None \<Rightarrow> None
      | Some (limit, foundRangeSize, val) \<Rightarrow>
          let foundRangeBase = limit - foundRangeSize in
          if foundRangeBase \<le> member then Some (foundRangeBase, foundRangeSize, val) else None)"

text \<open>
  A visitor is a state transformer that says whether to stop.  The traversal returns whether a visit
  stopped it, and the visitor's final state.
\<close>

fun VisitRanges_loop ::
  "('o::len word \<Rightarrow> 'o word \<Rightarrow> 'v \<Rightarrow> 's \<Rightarrow> bool \<times> 's) \<Rightarrow> ('o, 'v) rm_entries \<Rightarrow> 's \<Rightarrow> bool \<times> 's" where
  "VisitRanges_loop visitor [] st = (False, st)"
| "VisitRanges_loop visitor ((limit, sz, val) # its) st =
     (case visitor (limit - sz) sz val st of
        (True, st') \<Rightarrow> (True, st')
      | (False, st') \<Rightarrow> VisitRanges_loop visitor its st')"

definition VisitRanges ::
  "('o::len, 'v) range_mapper \<Rightarrow> ('o word \<Rightarrow> 'o word \<Rightarrow> 'v \<Rightarrow> 's \<Rightarrow> bool \<times> 's) \<Rightarrow> 's \<Rightarrow> bool \<times> 's" where
  "VisitRanges rm visitor st = VisitRanges_loop visitor (rm_map rm) st"

definition VisitRangesBackwards ::
  "('o::len, 'v) range_mapper \<Rightarrow> ('o word \<Rightarrow> 'o word \<Rightarrow> 'v \<Rightarrow> 's \<Rightarrow> bool \<times> 's) \<Rightarrow> 's \<Rightarrow> bool \<times> 's" where
  "VisitRangesBackwards rm visitor st = VisitRanges_loop visitor (rev (rm_map rm)) st"

text \<open>The ranges a range-based \<open>for\<close> over the mapper sees, in order.\<close>

definition rm_ranges :: "('o::len, 'v) range_mapper \<Rightarrow> ('o, 'v) Range list" where
  "rm_ranges rm = map RangeIterator_deref (rm_map rm)"

section \<open>Invariant and abstraction\<close>

text \<open>
  \<open>rm_wf lo m\<close>: the entries are sorted by limit, every size is positive and no larger than its limit,
  and the ranges are pairwise disjoint and start at \<open>lo\<close> or above.
\<close>

fun rm_wf :: "'o::len word \<Rightarrow> ('o, 'v) rm_entries \<Rightarrow> bool" where
  "rm_wf lo [] = True"
| "rm_wf lo ((limit, sz, val) # m) = (0 < sz \<and> sz \<le> limit \<and> lo \<le> limit - sz \<and> rm_wf limit m)"

definition rm_inv :: "('o::len, 'v) range_mapper \<Rightarrow> bool" where
  "rm_inv rm = rm_wf 0 (rm_map rm)"

fun entries_lookup :: "('o::len, 'v) rm_entries \<Rightarrow> 'o word \<Rightarrow> 'v option" where
  "entries_lookup [] a = None"
| "entries_lookup ((limit, sz, val) # m) a =
     (if limit - sz \<le> a \<and> a < limit then Some val else entries_lookup m a)"

definition rm_lookup :: "('o::len, 'v) range_mapper \<Rightarrow> 'o word \<Rightarrow> 'v option" where
  "rm_lookup rm = entries_lookup (rm_map rm)"

section \<open>The invariant on lists of entries\<close>

definition last_limit :: "'o::len word \<Rightarrow> ('o, 'v) rm_entries \<Rightarrow> 'o word" where
  "last_limit lo m = (if m = [] then lo else fst (last m))"

lemma last_limit_simps [simp]:
  "last_limit lo [] = lo"
  "last_limit lo (e # m) = last_limit (fst e) m"
  by (simp_all add: last_limit_def)

lemma rm_wf_mono: "rm_wf lo m \<Longrightarrow> lo' \<le> lo \<Longrightarrow> rm_wf lo' m"
  by (cases m) auto

lemma rm_wf_append [simp]: "rm_wf lo (xs @ ys) \<longleftrightarrow> rm_wf lo xs \<and> rm_wf (last_limit lo xs) ys"
  by (induction lo xs rule: rm_wf.induct) auto

lemma rm_wf_keys: "rm_wf lo m \<Longrightarrow> e \<in> set m \<Longrightarrow> lo < fst e"
proof (induction lo m rule: rm_wf.induct)
  case (2 lo limit sz val m)
  have "lo < limit"
    using "2.prems"(1) word_sub_less [of sz limit] by auto
  with 2 show ?case by fastforce
qed simp

lemma rm_wf_sorted: "rm_wf lo m \<Longrightarrow> sm_sorted m"
proof (induction lo m rule: rm_wf.induct)
  case (2 lo limit sz val m)
  then show ?case using rm_wf_keys [of limit m] by auto
qed simp

lemma rm_wf_last_limit: "rm_wf lo m \<Longrightarrow> lo \<le> last_limit lo m"
  using rm_wf_keys [of lo m "last m"] by (auto simp: last_limit_def)

lemma rm_wf_keys_le: "rm_wf lo m \<Longrightarrow> e \<in> set m \<Longrightarrow> fst e \<le> last_limit lo m"
proof (induction lo m rule: rm_wf.induct)
  case (2 lo limit sz val m)
  then show ?case using rm_wf_last_limit [of limit m] by auto
qed simp

lemma last_limit_le: "\<forall>e\<in>set m. fst e \<le> k \<Longrightarrow> lo \<le> k \<Longrightarrow> last_limit lo m \<le> k"
  by (auto simp: last_limit_def)

lemma entries_lookup_append [simp]:
  "entries_lookup (xs @ ys) a =
     (case entries_lookup xs a of None \<Rightarrow> entries_lookup ys a | Some v \<Rightarrow> Some v)"
  by (induction xs a rule: entries_lookup.induct) auto

lemma entries_lookup_below: "rm_wf lo m \<Longrightarrow> a < lo \<Longrightarrow> entries_lookup m a = None"
proof (induction lo m rule: rm_wf.induct)
  case (2 lo limit sz val m)
  have "lo < limit"
    using "2.prems"(1) word_sub_less [of sz limit] by auto
  with 2 show ?case by auto
qed simp

lemma entries_lookup_above: "\<forall>e\<in>set m. fst e \<le> a \<Longrightarrow> entries_lookup m a = None"
  by (induction m a rule: entries_lookup.induct) auto

lemma entries_lookup_mem: "entries_lookup m a = Some v \<Longrightarrow>
    \<exists>limit sz. (limit, sz, v) \<in> set m \<and> limit - sz \<le> a \<and> a < limit"
  by (induction m a rule: entries_lookup.induct) (auto split: if_splits)

lemma entries_lookup_entry:
  "rm_wf lo m \<Longrightarrow> (limit, sz, v) \<in> set m \<Longrightarrow> limit - sz \<le> a \<Longrightarrow> a < limit \<Longrightarrow>
   entries_lookup m a = Some v"
proof (induction lo m rule: rm_wf.induct)
  case (2 lo limit' sz' val m)
  show ?case
  proof (cases "(limit, sz, v) \<in> set m")
    case True
    then have "limit' \<le> a"
    proof -
      have *: "rm_wf limit' m" using "2.prems"(1) by simp
      from True obtain xs ys where m: "m = xs @ (limit, sz, v) # ys" by (meson split_list)
      have "limit' \<le> last_limit limit' xs" "last_limit limit' xs \<le> limit - sz"
        using * rm_wf_last_limit [of limit' xs] by (auto simp: m)
      then show ?thesis using "2.prems"(3) by order
    qed
    with True 2 show ?thesis by auto
  next
    case False
    then show ?thesis using "2.prems" by auto
  qed
qed simp

text \<open>Every list of entries splits at an address into the entries that end below it and the rest.\<close>

lemma rm_split:
  obtains xs rest where "m = xs @ rest" "\<forall>e\<in>set xs. fst e < k" "dropWhile (\<lambda>e. fst e < k) m = rest"
    "\<forall>e es. rest = e # es \<longrightarrow> k \<le> fst e" "sm_lower_bound m k = (case rest of [] \<Rightarrow> None | e # _ \<Rightarrow> Some e)"
proof -
  let ?xs = "takeWhile (\<lambda>e. fst e < k) m" and ?rest = "dropWhile (\<lambda>e. fst e < k) m"
  have "m = ?xs @ ?rest" by simp
  moreover have "\<forall>e\<in>set ?xs. fst e < k" by (meson set_takeWhileD)
  moreover have "\<forall>e es. ?rest = e # es \<longrightarrow> k \<le> fst e"
    by (auto simp: dropWhile_eq_Cons_conv)
  moreover have "sm_lower_bound m k = (case ?rest of [] \<Rightarrow> None | e # _ \<Rightarrow> Some e)"
    unfolding sm_lower_bound_def by (induction m) (auto simp: not_less)
  ultimately show ?thesis using that by blast
qed

section \<open>MapRange\<close>

text \<open>Inserting an entry between two parts of the list.\<close>

lemma rm_emplace_result_middle:
  assumes "\<forall>e\<in>set xs. fst e < k" "\<And>e es. rest = e # es \<Longrightarrow> k < fst e" "sm_sorted (xs @ rest)"
  shows "rm_emplace_result rm (xs @ rest) k sz v =
           (rm\<lparr>rm_map := xs @ (k, sz, v) # rest\<rparr>, Some k, True)"
proof -
  have "\<forall>e\<in>set rest. k < fst e"
    using assms(2,3) by (cases rest) (auto simp: sorted_wrt_append dest: order.strict_trans)
  then have "sm_find (xs @ rest) k = None"
    using assms(1) by (force simp: sm_find_def map_of_eq_None_iff)
  moreover have "sm_assign k (sz, v) rest = (k, sz, v) # rest"
    using assms(2) by (cases rest) auto
  ultimately show ?thesis
    using assms(1) by (simp add: rm_emplace_result_def sm_emplace_def sm_assign_append_before)
qed

lemma rm_next_middle:
  assumes "\<forall>e\<in>set xs. fst e < k" "rm_wf k ys"
  shows "rm_next (xs @ (k, sv) # ys) k = (case ys of [] \<Rightarrow> None | e # _ \<Rightarrow> Some e)"
proof -
  have "find (\<lambda>e. k < fst e) (xs @ (k, sv) # ys) = find (\<lambda>e. k < fst e) ys"
    using assms(1) by (induction xs) auto
  also have "\<dots> = (case ys of [] \<Rightarrow> None | e # _ \<Rightarrow> Some e)"
    using rm_wf_keys [OF assms(2)] by (cases ys) auto
  finally show ?thesis by (simp add: rm_next_def sm_upper_bound_def)
qed

text \<open>The branches of \<open>MapRange\<close> where \<open>lower_bound\<close> finds an entry.\<close>

lemma MapRange_branches:
  assumes s: "s \<noteq> 0" and lb: "sm_lower_bound (rm_map rm) b = Some (L, S, V)"
  shows "b + s < L - S \<Longrightarrow> MapRange rm b s v = rm_emplace_result rm (rm_map rm) (b + s) s v"
    and "L - S = b + s \<Longrightarrow> V = v \<and> rm_coallesce rm \<Longrightarrow>
      MapRange rm b s v = (rm\<lparr>rm_map := sm_assign L (S + s, V) (rm_map rm)\<rparr>, Some L, True)"
    and "L - S = b + s \<Longrightarrow> \<not> (V = v \<and> rm_coallesce rm) \<Longrightarrow>
      MapRange rm b s v = rm_emplace_result rm (rm_map rm) (b + s) s v"
    and "L - S < b + s \<Longrightarrow> L \<noteq> b \<Longrightarrow> MapRange rm b s v = (rm, Some L, False)"
    and "L - S < b + s \<Longrightarrow> L = b \<Longrightarrow> rm_next (rm_map rm) L = Some (nL, nS, nV) \<Longrightarrow> nL - nS < b + s \<Longrightarrow>
      MapRange rm b s v = (rm, Some nL, False)"
    and "L - S < b + s \<Longrightarrow> L = b \<Longrightarrow> rm_next (rm_map rm) L = nxt \<Longrightarrow>
      (\<And>nL nS nV. nxt = Some (nL, nS, nV) \<Longrightarrow> \<not> nL - nS < b + s) \<Longrightarrow>
      MapRange rm b s v =
        (if V = v \<and> rm_coallesce rm
         then rm_emplace_result rm (sm_erase L (rm_map rm)) (b + s) (s + S) v
         else rm_emplace_result rm (rm_map rm) (b + s) s v)"
proof -
  note defs = MapRange_def Let_def lb s
  show "MapRange rm b s v = rm_emplace_result rm (rm_map rm) (b + s) s v" if "b + s < L - S"
    unfolding defs using that [unfolded not_le [symmetric]] s by simp
  show "MapRange rm b s v = (rm\<lparr>rm_map := sm_assign L (S + s, V) (rm_map rm)\<rparr>, Some L, True)"
    if "L - S = b + s" "V = v \<and> rm_coallesce rm"
    unfolding defs using that s by simp
  show "MapRange rm b s v = rm_emplace_result rm (rm_map rm) (b + s) s v"
    if "L - S = b + s" "\<not> (V = v \<and> rm_coallesce rm)"
    unfolding defs using that s by auto
  have ne: "L - S \<noteq> b + s" "L - S \<le> b + s" if "L - S < b + s" using that by auto
  show "MapRange rm b s v = (rm, Some L, False)" if "L - S < b + s" "L \<noteq> b"
    unfolding defs using ne [OF that(1)] that(2) s by simp
  show "MapRange rm b s v = (rm, Some nL, False)"
    if "L - S < b + s" "L = b" "rm_next (rm_map rm) L = Some (nL, nS, nV)" "nL - nS < b + s"
    unfolding defs using ne [OF that(1)] that(2-4) s by simp
  show "MapRange rm b s v = (if V = v \<and> rm_coallesce rm
         then rm_emplace_result rm (sm_erase L (rm_map rm)) (b + s) (s + S) v
         else rm_emplace_result rm (rm_map rm) (b + s) s v)"
    if "L - S < b + s" "L = b" "rm_next (rm_map rm) L = nxt"
      "\<And>nL nS nV. nxt = Some (nL, nS, nV) \<Longrightarrow> \<not> nL - nS < b + s"
    unfolding defs using ne [OF that(1)] that(2-4) s by (cases nxt) auto
qed

text \<open>
  What \<open>MapRange\<close> does to the list, by cases.  \<open>xs\<close> are the entries that end below the new range.
\<close>

lemma MapRange_cases:
  assumes wf: "rm_wf 0 (xs @ rest)" and xs: "\<forall>e\<in>set xs. fst e < b"
    and rest: "\<forall>e es. rest = e # es \<longrightarrow> b \<le> fst e" and m: "rm_map rm = xs @ rest"
    and lb: "sm_lower_bound (rm_map rm) b = (case rest of [] \<Rightarrow> None | e # _ \<Rightarrow> Some e)"
    and nowrap: "b \<le> b + s" and s: "0 < s"
  obtains
    (fresh) "MapRange rm b s v = (rm\<lparr>rm_map := xs @ (b + s, s, v) # rest\<rparr>, Some (b + s), True)"
      "\<And>L S V ys. rest = (L, S, V) # ys \<Longrightarrow> b + s \<le> L - S"
  | (grow_next) L S V ys where "rest = (L, S, V) # ys" "L - S = b + s" "V = v"
      "MapRange rm b s v = (rm\<lparr>rm_map := xs @ (L, S + s, v) # ys\<rparr>, Some L, True)"
  | (after_touching) S V ys where "rest = (b, S, V) # ys" "rm_wf (b + s) ys"
      "MapRange rm b s v = (rm\<lparr>rm_map := xs @ (b, S, V) # (b + s, s, v) # ys\<rparr>, Some (b + s), True)"
  | (grow_prev) S ys where "rest = (b, S, v) # ys" "rm_wf (b + s) ys"
      "MapRange rm b s v = (rm\<lparr>rm_map := xs @ (b + s, s + S, v) # ys\<rparr>, Some (b + s), True)"
  | (overlap) L S V where "(L, S, V) \<in> set rest" "L - S < b + s" "b < L"
      "MapRange rm b s v = (rm, Some L, False)"
proof -
  have sorted: "sm_sorted (xs @ rest)" using wf by (rule rm_wf_sorted)
  have blt: "b < b + s" using no_wrap_less [OF nowrap s] .
  have xs': "\<forall>e\<in>set xs. fst e < b + s" using xs blt by force
  have s0: "s \<noteq> 0" using s by auto
  show ?thesis
  proof (cases rest)
    case Nil
    have "MapRange rm b s v = rm_emplace_result rm (rm_map rm) (b + s) s v"
      using s0 lb by (simp add: MapRange_def Let_def Nil)
    with rm_emplace_result_middle [OF xs' _ sorted] m Nil show ?thesis
      by (intro fresh) auto
  next
    case (Cons e ys)
    obtain L S V where e: "e = (L, S, V)" by (cases e)
    note br = MapRange_branches [OF s0, of rm b L S V]
    have lb': "sm_lower_bound (rm_map rm) b = Some (L, S, V)" using lb Cons e by simp
    have bL: "b \<le> L" using rest Cons e by auto
    have LS: "0 < S" "S \<le> L" "rm_wf L ys" using wf Cons e by auto
    consider "b + s < L - S" | "L - S = b + s" "V = v \<and> rm_coallesce rm"
      | "L - S = b + s" "\<not> (V = v \<and> rm_coallesce rm)"
      | "L - S < b + s" "L = b" | "L - S < b + s" "b < L"
      using bL by (metis antisym_conv3 order_le_less)
    then show ?thesis
    proof cases
      case 1
      then have "MapRange rm b s v = rm_emplace_result rm (rm_map rm) (b + s) s v"
        by (rule br(1) [OF lb'])
      moreover have "b + s < L" using 1 word_sub_less [OF LS(1,2)] by order
      ultimately show ?thesis
        using rm_emplace_result_middle [OF xs' _ sorted] m Cons e 1 by (intro fresh) auto
    next
      case 2
      have "MapRange rm b s v = (rm\<lparr>rm_map := sm_assign L (S + s, V) (rm_map rm)\<rparr>, Some L, True)"
        by (rule br(2) [OF lb' 2])
      moreover have "\<forall>e\<in>set xs. fst e < L" using xs bL by force
      ultimately show ?thesis
        using 2 Cons e m by (intro grow_next) (auto simp: sm_assign_append_before)
    next
      case 3
      then have "MapRange rm b s v = rm_emplace_result rm (rm_map rm) (b + s) s v"
        by (intro br(3) [OF lb'])
      moreover have "b + s < L" using 3 word_sub_less [OF LS(1,2)] by simp
      ultimately show ?thesis
        using rm_emplace_result_middle [OF xs' _ sorted] m Cons e 3 by (intro fresh) auto
    next
      case 5
      then have "MapRange rm b s v = (rm, Some L, False)"
        by (intro br(4) [OF lb']) auto
      with 5 show ?thesis using Cons e by (intro overlap) auto
    next
      case 4
      have nxt: "rm_next (rm_map rm) L = (case ys of [] \<Rightarrow> None | e # _ \<Rightarrow> Some e)"
        using rm_next_middle [OF _ LS(3)] xs 4 Cons e m by simp
      show ?thesis
      proof (cases "\<exists>nL nS nV zs. ys = (nL, nS, nV) # zs \<and> nL - nS < b + s")
        case True
        then obtain nL nS nV zs where ys: "ys = (nL, nS, nV) # zs" "nL - nS < b + s" by auto
        have "MapRange rm b s v = (rm, Some nL, False)"
          using br(5) [OF lb' 4, of nL nS nV] ys nxt by simp
        moreover have "b < nL"
          using rm_wf_keys [OF LS(3), of "(nL, nS, nV)"] ys 4 by simp
        ultimately show ?thesis using Cons ys by (intro overlap [of nL nS nV]) auto
      next
        case False
        have wfys: "rm_wf (b + s) ys"
          using False LS(3) by (cases ys) (auto simp: not_less)
        have bs_notkey: "\<And>e es. ys = e # es \<Longrightarrow> b + s < fst e"
          using rm_wf_keys [OF wfys] by simp
        have sortedys: "sm_sorted (xs @ ys)" "sm_sorted ((xs @ [e]) @ ys)"
          using sorted Cons by (auto simp: sorted_wrt_append)
        have *: "MapRange rm b s v =
            (if V = v \<and> rm_coallesce rm
             then rm_emplace_result rm (sm_erase L (rm_map rm)) (b + s) (s + S) v
             else rm_emplace_result rm (rm_map rm) (b + s) s v)"
          using False by (intro br(6) [OF lb' 4 nxt]) (auto split: list.splits)
        show ?thesis
        proof (cases "V = v \<and> rm_coallesce rm")
          case True
          have "sm_erase L (rm_map rm) = xs @ ys"
            using sm_erase_append [of xs L rest] xs 4 Cons e m by auto
          then have "MapRange rm b s v = rm_emplace_result rm (xs @ ys) (b + s) (s + S) v"
            using * True by simp
          also have "\<dots> = (rm\<lparr>rm_map := xs @ (b + s, s + S, v) # ys\<rparr>, Some (b + s), True)"
            by (rule rm_emplace_result_middle [OF xs' bs_notkey sortedys(1)])
          finally show ?thesis using 4 True Cons e wfys by (intro grow_prev) auto
        next
          case no: False
          have "MapRange rm b s v = rm_emplace_result rm ((xs @ [e]) @ ys) (b + s) s v"
            using * no m Cons by simp
          also have "\<dots> = (rm\<lparr>rm_map := (xs @ [e]) @ (b + s, s, v) # ys\<rparr>, Some (b + s), True)"
            by (rule rm_emplace_result_middle [OF _ bs_notkey sortedys(2)]) (use xs' 4 e blt in auto)
          finally show ?thesis using 4 Cons e wfys by (intro after_touching) auto
        qed
      qed
    qed
  qed
qed


text \<open>The outcome of a call, on the invariant and on the abstraction.\<close>

definition range_free :: "('o::len, 'v) range_mapper \<Rightarrow> 'o word \<Rightarrow> 'o word \<Rightarrow> bool" where
  "range_free rm b s \<longleftrightarrow> (\<forall>a\<in>wrange b s. rm_lookup rm a = None)"

lemma MapRange_outcome:
  assumes inv: "rm_inv rm" and nowrap: "b \<le> b + s"
  obtains (mapped) rm' it where "MapRange rm b s v = (rm', it, True)" "rm_inv rm'" "range_free rm b s"
      "rm_lookup rm' = (\<lambda>a. if a \<in> wrange b s then Some v else rm_lookup rm a)"
      "rm_coallesce rm' = rm_coallesce rm"
    | (rejected) L S V where "MapRange rm b s v = (rm, Some L, False)" "(L, S, V) \<in> set (rm_map rm)"
      "L - S < b + s" "b < L" "\<not> range_free rm b s"
proof (cases "s = 0")
  case True
  show ?thesis
    by (rule mapped [of rm None]) (use True inv in \<open>auto simp: MapRange_def range_free_def fun_eq_iff\<close>)
next
  case False
  then have s: "0 < s" by (simp add: word_neq_0_conv)
  have blt: "b < b + s" using no_wrap_less [OF nowrap s] .
  obtain xs rest where sp: "rm_map rm = xs @ rest" "\<forall>e\<in>set xs. fst e < b"
      "\<forall>e es. rest = e # es \<longrightarrow> b \<le> fst e"
      "sm_lower_bound (rm_map rm) b = (case rest of [] \<Rightarrow> None | e # _ \<Rightarrow> Some e)"
    using rm_split [of "rm_map rm" b] by metis
  have wf: "rm_wf 0 (xs @ rest)" using inv sp by (simp add: rm_inv_def)
  have xsb: "last_limit 0 xs \<le> b"
    using sp(2) by (intro last_limit_le) (auto simp: less_imp_le)
  have xsnone: "entries_lookup xs a = None" if "b \<le> a" for a
    using sp(2) that by (intro entries_lookup_above) force
  show ?thesis
  proof (rule MapRange_cases [OF wf sp(2,3,1,4) nowrap s, where v = v], goal_cases)
    case 1
    note fresh = 1
    have wfrest: "rm_wf (b + s) rest" using wf fresh(2) by (cases rest) auto
    have none: "entries_lookup rest a = None" if "a < b + s" for a
      using entries_lookup_below [OF wfrest that] .
    show ?thesis
      by (rule mapped [OF fresh(1)])
        (use s wf xsb wfrest none xsnone no_wrap_size_le [OF nowrap] in
          \<open>auto simp: rm_inv_def rm_lookup_def sp(1) range_free_def fun_eq_iff split: option.splits\<close>)
  next
    case (2 L S V ys)
    note grow_next = 2
    have "S + s = L - b" using grow_next(2) by (simp add: algebra_simps)
    moreover have "b < L" "b + s < L"
      using grow_next(1,2) wf word_sub_less [of S L] blt by auto
    ultimately have ent: "0 < S + s" "S + s \<le> L" "L - (S + s) = b"
      using word_less_sub [of b L] by auto
    have xsL: "entries_lookup (xs @ e # ys) a =
        (if a < b then entries_lookup xs a else entries_lookup (e # ys) a)" if "\<And>a. a < b \<Longrightarrow> entries_lookup (e # ys) a = None" for a e
      using that xsnone [of a] by (cases "a < b") (auto split: option.split)
    have ys: "entries_lookup ys a = None" if "a < L" for a
      using wf grow_next(1) that entries_lookup_below [of L ys] by auto
    have "entries_lookup (xs @ (L, S + s, v) # ys) a =
        (if b \<le> a \<and> a < b + s then Some v else entries_lookup (xs @ rest) a)" for a
      unfolding grow_next(1)
      by (subst (1 2) xsL) (use ent ys grow_next(2,3) \<open>b < L\<close> \<open>b + s < L\<close> blt in auto)
    moreover have "entries_lookup (xs @ rest) a = None" if "b \<le> a" "a < b + s" for a
      using that xsnone [of a] grow_next(1,2) ys \<open>b + s < L\<close> by auto
    moreover have "rm_wf 0 (xs @ (L, S + s, v) # ys)" using wf xsb ent grow_next(1) by auto
    ultimately show ?thesis
      by (intro mapped [OF grow_next(4)])
        (auto simp: rm_inv_def rm_lookup_def sp(1) range_free_def fun_eq_iff simp del: entries_lookup_append rm_wf_append)
  next
    case (3 S V ys)
    note after_touching = 3
    have none: "entries_lookup ys a = None" if "a < b + s" for a
      using entries_lookup_below [OF after_touching(2) that] .
    show ?thesis
      by (rule mapped [OF after_touching(3)])
        (use s wf none xsnone after_touching(1,2) no_wrap_size_le [OF nowrap] in
          \<open>auto simp: rm_inv_def rm_lookup_def sp(1) range_free_def fun_eq_iff split: option.splits\<close>)
  next
    case (4 S ys)
    note grow_prev = 4
    have S: "0 < S" "S \<le> b" "last_limit 0 xs \<le> b - S" using wf grow_prev(1) by auto
    have eq: "b + s - (s + S) = b - S" by simp
    have "b - S < b" using word_sub_less [OF S(1,2)] .
    then have "b - S < b + s" using blt by order
    then have ent: "0 < s + S" "s + S \<le> b + s"
      using word_less_sub [of "b - S" "b + s"] by (auto simp: algebra_simps)
    have none: "entries_lookup ys a = None" if "a < b + s" for a
      using entries_lookup_below [OF grow_prev(2) that] .
    show ?thesis
      by (rule mapped [OF grow_prev(3)])
        (use wf ent S none xsnone grow_prev(1,2) \<open>b - S < b\<close> blt in
          \<open>auto simp: rm_inv_def rm_lookup_def sp(1) range_free_def fun_eq_iff eq split: option.splits\<close>)
  next
    case (5 L S V)
    note overlap = 5
    have mem: "(L, S, V) \<in> set (rm_map rm)" using overlap(1) sp(1) by simp
    have SL: "L - S < L" using inv mem
      by (auto simp: rm_inv_def dest!: split_list intro: word_sub_less)
    define a where "a = max b (L - S)"
    have "b \<le> a" "a < b + s" "L - S \<le> a" "a < L"
      using overlap(2,3) SL blt by (auto simp: a_def)
    then have "\<not> range_free rm b s"
      using entries_lookup_entry [of 0 "rm_map rm" L S V a] inv mem
      by (auto simp: range_free_def rm_lookup_def rm_inv_def)
    with overlap(2-4) mem show ?thesis by (intro rejected) auto
  qed
qed


section \<open>UnmapRange\<close>

text \<open>
  One iteration that meets an overlapping range: the entries below it gain the part of that range
  that precedes the range to remove.
\<close>

definition unmap_keep :: "'o::len word \<Rightarrow> ('o, 'v) rm_entry \<Rightarrow> ('o, 'v) rm_entries" where
  "unmap_keep rb e = (let base = fst e - fst (snd e) in
     if base < rb then [(rb, rb - base, snd (snd e))] else [])"

lemma unmap_keep_props:
  assumes wf: "rm_wf 0 (xs @ (L, S, V) # ys)" and "rb < L" and xs: "\<forall>e\<in>set xs. fst e \<le> rb"
  shows "(if L - S < rb then sm_assign rb (rb - (L - S), V) (xs @ (L, S, V) # ys) else xs @ (L, S, V) # ys)
           = (xs @ unmap_keep rb (L, S, V)) @ (L, S, V) # ys"
    and "rm_wf 0 (xs @ unmap_keep rb (L, S, V))"
    and "\<forall>e\<in>set (xs @ unmap_keep rb (L, S, V)). fst e \<le> rb"
    and "last_limit 0 (xs @ unmap_keep rb (L, S, V)) \<le> max rb (L - S)"
    and "entries_lookup (xs @ unmap_keep rb (L, S, V)) a =
           (if a < rb then entries_lookup (xs @ (L, S, V) # ys) a else None)"
proof -
  have S: "0 < S" "S \<le> L" "last_limit 0 xs \<le> L - S" "rm_wf L ys" "rm_wf 0 xs" using wf by auto
  have keys: "fst e \<le> L - S" if "e \<in> set xs" for e
    using rm_wf_keys_le [OF S(5) that] S(3) by order
  have "\<forall>e\<in>set xs. fst e < rb" if "L - S < rb" using keys that by force
  then show "(if L - S < rb then sm_assign rb (rb - (L - S), V) (xs @ (L, S, V) # ys) else xs @ (L, S, V) # ys)
           = (xs @ unmap_keep rb (L, S, V)) @ (L, S, V) # ys"
    using \<open>rb < L\<close> by (simp add: unmap_keep_def sm_assign_append_before)
  show "rm_wf 0 (xs @ unmap_keep rb (L, S, V))"
    using S word_less_sub [of "L - S" rb] by (auto simp: unmap_keep_def Let_def)
  show "\<forall>e\<in>set (xs @ unmap_keep rb (L, S, V)). fst e \<le> rb"
    using xs by (auto simp: unmap_keep_def Let_def)
  show "last_limit 0 (xs @ unmap_keep rb (L, S, V)) \<le> max rb (L - S)"
    using S(3) by (auto simp: unmap_keep_def Let_def last_limit_def)
  have "entries_lookup xs a = None" if "rb \<le> a \<or> L - S \<le> a"
    using that xs keys by (intro entries_lookup_above) force
  moreover have "entries_lookup ys a = None" if "a < rb"
    using entries_lookup_below [OF S(4)] that \<open>rb < L\<close> by simp
  moreover have "rb \<le> a \<longleftrightarrow> \<not> a < rb" by auto
  ultimately show "entries_lookup (xs @ unmap_keep rb (L, S, V)) a =
           (if a < rb then entries_lookup (xs @ (L, S, V) # ys) a else None)"
    using \<open>rb < L\<close> by (cases "a < rb") (auto simp: unmap_keep_def Let_def split: option.split)
qed

lemma UnmapRange_loop_correct:
  assumes "rm_wf 0 (xs @ its)" "\<forall>e\<in>set xs. fst e \<le> rb" "\<forall>e\<in>set its. rb \<le> fst e" "rb < rl"
  shows "rm_wf 0 (UnmapRange_loop rb rl its (xs @ its)) \<and>
         entries_lookup (UnmapRange_loop rb rl its (xs @ its)) a =
           (if rb \<le> a \<and> a < rl then None else entries_lookup (xs @ its) a)"
  using assms
proof (induction its arbitrary: xs)
  case Nil
  have "entries_lookup xs a = None" if "rb \<le> a"
    using that Nil(2) by (intro entries_lookup_above) force
  then show ?case using Nil by auto
next
  case (Cons e ys)
  obtain L S V where e: "e = (L, S, V)" by (cases e)
  have S: "0 < S" "S \<le> L" "last_limit 0 xs \<le> L - S" "rm_wf L ys" using Cons.prems(1) e by auto
  have ysnone: "entries_lookup ys a = None" if "a < L" using entries_lookup_below [OF S(4) that] .
  have xsnone: "entries_lookup xs a = None" if "rb \<le> a"
    using that Cons.prems(2) by (intro entries_lookup_above) force
  consider "\<not> L - S < rl" | "L - S < rl" "L = rb" | "L - S < rl" "rb < L"
    using Cons.prems(3) e by force
  then show ?case
  proof cases
    case 1
    then have "UnmapRange_loop rb rl (e # ys) (xs @ e # ys) = xs @ e # ys" using e by simp
    moreover have "entries_lookup (xs @ e # ys) a = None" if "rb \<le> a" "a < rl"
      using that 1 xsnone ysnone e word_sub_less [OF S(1,2)] by auto
    ultimately show ?thesis using Cons.prems(1) by auto
  next
    case 2
    then have "UnmapRange_loop rb rl (e # ys) (xs @ e # ys) = UnmapRange_loop rb rl ys ((xs @ [e]) @ ys)"
      using e by simp
    then show ?thesis using Cons.IH [of "xs @ [e]"] Cons.prems 2 e by simp
  next
    case 3
    let ?xs1 = "xs @ unmap_keep rb (L, S, V)"
    note keep = unmap_keep_props [OF Cons.prems(1) [unfolded e] 3(2) Cons.prems(2)]
    have ysk: "rm_wf (max rb (L - S)) ys"
      using 3 word_sub_less [OF S(1,2)] by (intro rm_wf_mono [OF S(4)]) auto
    have xsL: "\<forall>e\<in>set ?xs1. fst e < L" using keep(3) 3(2) by force
    show ?thesis
    proof (cases "L \<le> rl")
      case True
      have "sm_erase L (?xs1 @ (L, S, V) # ys) = ?xs1 @ ys"
        using xsL by (subst sm_erase_append) auto
      then have eq: "UnmapRange_loop rb rl (e # ys) (xs @ e # ys) = UnmapRange_loop rb rl ys (?xs1 @ ys)"
        using 3 e True keep(1) by (simp add: Let_def less_imp_neq [symmetric])
      have "rm_wf 0 (?xs1 @ ys)"
        unfolding rm_wf_append [of 0 ?xs1] using keep(2) rm_wf_mono [OF ysk keep(4)] by blast
      note IH = Cons.IH [OF this keep(3) _ Cons.prems(4)]
      have "entries_lookup (?xs1 @ ys) a = entries_lookup (xs @ e # ys) a" if "\<not> (rb \<le> a \<and> a < rl)"
        unfolding entries_lookup_append [of ?xs1 ys] keep(5)
        using that True ysnone xsnone 3 e not_le [of rb a]
        by (cases "a < rb") (auto split: option.split)
      then show ?thesis using IH Cons.prems(3) eq by auto
    next
      case False
      have "UnmapRange_loop rb rl (e # ys) (xs @ e # ys) = sm_assign L (L - rl, V) (?xs1 @ (L, S, V) # ys)"
        using 3 e False keep(1) by (simp add: Let_def less_imp_neq [symmetric])
      also have "\<dots> = ?xs1 @ (L, L - rl, V) # ys"
        using xsL by (simp add: sm_assign_append_before)
      finally have eq: "UnmapRange_loop rb rl (e # ys) (xs @ e # ys) = ?xs1 @ (L, L - rl, V) # ys" .
      have "max rb (L - S) \<le> rl" using 3 Cons.prems(4) by (simp add: less_imp_le)
      then have "last_limit 0 ?xs1 \<le> rl" by (rule order_trans [OF keep(4)])
      then have "rm_wf 0 (?xs1 @ (L, L - rl, V) # ys)"
        unfolding rm_wf_append [of 0 ?xs1]
        using keep(2) False word_less_sub [of rl L] S(4) by (simp add: not_le)
      moreover have "entries_lookup (?xs1 @ (L, L - rl, V) # ys) a =
          (if rb \<le> a \<and> a < rl then None else entries_lookup (xs @ e # ys) a)"
        unfolding entries_lookup_append [of ?xs1 "(L, L - rl, V) # ys"] keep(5)
        using False ysnone xsnone 3 e Cons.prems(4) not_le [of rb a]
        by (cases "a < rb") (auto split: option.split)
      ultimately show ?thesis using eq by simp
    qed
  qed
qed


section \<open>Refinement of the abstract range map\<close>

lemma UnmapRange_outcome:
  assumes "rm_inv rm" "b \<le> b + s"
  shows "rm_inv (UnmapRange rm b s)"
    and "rm_lookup (UnmapRange rm b s) a = (if a \<in> wrange b s then None else rm_lookup rm a)"
    and "rm_coallesce (UnmapRange rm b s) = rm_coallesce rm"
proof -
  have "rm_inv (UnmapRange rm b s) \<and>
    rm_lookup (UnmapRange rm b s) a = (if a \<in> wrange b s then None else rm_lookup rm a)"
  proof (cases "s = 0")
    case True
    then show ?thesis using assms by (simp add: UnmapRange_def)
  next
    case False
    then have "0 < s" by (simp add: word_neq_0_conv)
    then have blt: "b < b + s" using no_wrap_less [OF assms(2)] by simp
    obtain xs rest where sp: "rm_map rm = xs @ rest" "\<forall>e\<in>set xs. fst e < b"
        "dropWhile (\<lambda>e. fst e < b) (rm_map rm) = rest" "\<forall>e es. rest = e # es \<longrightarrow> b \<le> fst e"
      using rm_split [of "rm_map rm" b] by metis
    have wf: "rm_wf 0 (xs @ rest)" using assms(1) sp by (simp add: rm_inv_def)
    then have "rm_wf (last_limit 0 xs) rest" by simp
    then have "\<forall>e\<in>set rest. b \<le> fst e"
      using sp(4) by (cases rest) (fastforce dest: rm_wf_keys)+
    then show ?thesis
      using UnmapRange_loop_correct [OF wf, of b "b + s" a] sp blt False
      by (auto simp: UnmapRange_def Let_def rm_inv_def rm_lookup_def less_imp_le)
  qed
  then show "rm_inv (UnmapRange rm b s)"
    "rm_lookup (UnmapRange rm b s) a = (if a \<in> wrange b s then None else rm_lookup rm a)" by auto
  show "rm_coallesce (UnmapRange rm b s) = rm_coallesce rm"
    by (simp add: UnmapRange_def Let_def)
qed

section \<open>Lookup\<close>

lemma upper_bound_lookup:
  assumes "rm_wf lo m" "lo \<le> a"
  shows "(case sm_upper_bound m a of
            None \<Rightarrow> entries_lookup m a = None
          | Some (L, S, V) \<Rightarrow> (L, S, V) \<in> set m \<and> a < L \<and> 0 < S \<and> S \<le> L \<and>
              entries_lookup m a = (if L - S \<le> a then Some V else None))"
  using assms
proof (induction lo m rule: rm_wf.induct)
  case (2 lo limit sz val m)
  show ?case
  proof (cases "a < limit")
    case True
    then show ?thesis
      using 2 entries_lookup_below [of limit m a] by (auto simp: sm_upper_bound_def)
  next
    case False
    then have "sm_upper_bound ((limit, sz, val) # m) a = sm_upper_bound m a"
      by (simp add: sm_upper_bound_def)
    then show ?thesis
      using 2 False by (auto simp: not_less split: option.splits)
  qed
qed (simp add: sm_upper_bound_def)

lemma FindRange_outcome:
  assumes "rm_inv rm"
  shows "FindRange rm a = Some (b, s, v) \<Longrightarrow>
      (b + s, s, v) \<in> set (rm_map rm) \<and> b \<le> b + s \<and> a \<in> wrange b s \<and>
      (\<forall>a'\<in>wrange b s. rm_lookup rm a' = Some v)"
    and "FindRange rm a = None \<longleftrightarrow> rm_lookup rm a = None"
proof -
  have wf: "rm_wf 0 (rm_map rm)" using assms by (simp add: rm_inv_def)
  note ub = upper_bound_lookup [OF wf word_zero_le, of a]
  show "FindRange rm a = None \<longleftrightarrow> rm_lookup rm a = None"
    using ub by (auto simp: FindRange_def rm_lookup_def Let_def split: option.splits if_splits)
  assume f: "FindRange rm a = Some (b, s, v)"
  then obtain L where L: "sm_upper_bound (rm_map rm) a = Some (L, s, v)" "b = L - s" "L - s \<le> a"
    by (auto simp: FindRange_def Let_def split: option.splits if_splits)
  with ub have "(L, s, v) \<in> set (rm_map rm)" "a < L" "s \<le> L" by auto
  moreover have "\<forall>a'. L - s \<le> a' \<and> a' < L \<longrightarrow> rm_lookup rm a' = Some v"
    using entries_lookup_entry [OF wf \<open>(L, s, v) \<in> set (rm_map rm)\<close>] by (simp add: rm_lookup_def)
  ultimately show "(b + s, s, v) \<in> set (rm_map rm) \<and> b \<le> b + s \<and> a \<in> wrange b s \<and>
      (\<forall>a'\<in>wrange b s. rm_lookup rm a' = Some v)"
    using L by (simp add: word_sub_le_self)
qed

lemma rm_find_FindRange:
  "FindRange rm a = map_option (\<lambda>(L, S, V). (L - S, S, V)) (rm_find rm a)"
  by (auto simp: FindRange_def rm_find_def Let_def not_le split: option.splits)

text \<open>\<open>find\<close> by the entry it returns.\<close>

lemma rm_find_entry:
  assumes "rm_inv rm" "(L, S, V) \<in> set (rm_map rm)" "L - S \<le> a" "a < L"
  shows "rm_find rm a = Some (L, S, V)"
proof -
  have wf: "rm_wf 0 (rm_map rm)" using assms(1) by (simp add: rm_inv_def)
  obtain xs ys where m: "rm_map rm = xs @ (L, S, V) # ys" using assms(2) by (meson split_list)
  have "fst e \<le> a" if "e \<in> set xs" for e
    using wf m that rm_wf_keys_le [of 0 xs e] assms(3) by auto
  then have "find (\<lambda>e. a < fst e) (xs @ (L, S, V) # ys) = Some (L, S, V)"
    using assms(4) by (induction xs) (auto simp: not_less [symmetric])
  then show ?thesis
    using assms(3) by (auto simp: rm_find_def sm_upper_bound_def m not_less)
qed

lemma rm_find_SomeD:
  assumes "rm_inv rm" "rm_find rm a = Some (L, S, V)"
  shows "(L, S, V) \<in> set (rm_map rm)" "L - S \<le> a" "a < L" "0 < S" "S \<le> L" "rm_lookup rm a = Some V"
  using upper_bound_lookup [of 0 "rm_map rm" a] assms
  by (auto simp: rm_inv_def rm_find_def rm_lookup_def not_less word_neq_0_conv split: option.splits if_splits)

lemma rm_find_None: "rm_inv rm \<Longrightarrow> rm_find rm a = None \<longleftrightarrow> rm_lookup rm a = None"
  using FindRange_outcome(2) [of rm a] by (simp add: rm_find_FindRange)

section \<open>Traversal\<close>

lemma VisitRanges_loop_collect:
  "VisitRanges_loop (\<lambda>b s v acc. (False, acc @ [(b, s, v)])) its acc =
     (False, acc @ map (\<lambda>(L, S, V). (L - S, S, V)) its)"
  by (induction its arbitrary: acc) auto


section \<open>The mapper provides the range store\<close>

definition rm_insert :: "('o::len, 'v) range_mapper \<Rightarrow> 'o word \<Rightarrow> 'o word \<Rightarrow> 'v \<Rightarrow> ('o, 'v) range_mapper" where
  "rm_insert rm b s v = fst (MapRange rm b s v)"

definition rm_accepts :: "('o::len, 'v) range_mapper \<Rightarrow> 'o word \<Rightarrow> 'o word \<Rightarrow> 'v \<Rightarrow> bool" where
  "rm_accepts rm b s v = snd (snd (MapRange rm b s v))"

lemma MapRange_unfold: "\<exists>it. MapRange rm b s v = (rm_insert rm b s v, it, rm_accepts rm b s v)"
  by (cases "MapRange rm b s v") (simp add: rm_insert_def rm_accepts_def)

interpretation rs: range_store rm_inv rm_lookup rm_insert rm_accepts UnmapRange FindRange "RangeMapper_new c"
  for c
proof (unfold_locales, goal_cases)
  case 1
  show ?case by (simp add: rm_inv_def RangeMapper_new_def)
next
  case 2
  show ?case by (simp add: rm_lookup_def RangeMapper_new_def fun_eq_iff)
next
  case (3 m b s v)
  then show ?case
    by (rule MapRange_outcome [of m b s v]) (use 3(1) in \<open>auto simp: rm_insert_def\<close>)
next
  case (4 m b s v)
  then show ?case
    by (rule MapRange_outcome [of m b s v]) (auto simp: rm_accepts_def range_free_def)
next
  case (5 m b s v a)
  then show ?case
    by (rule MapRange_outcome [of m b s v]) (auto simp: rm_insert_def rm_accepts_def)
next
  case (6 m b s)
  then show ?case by (rule UnmapRange_outcome)
next
  case (7 m b s a)
  then show ?case by (rule UnmapRange_outcome)
next
  case (8 m a b s v)
  show ?case using FindRange_outcome(1) [OF 8] by simp
next
  case (9 m a)
  then show ?case by (rule FindRange_outcome(2))
qed


section \<open>Properties\<close>

text \<open>
  C1: \<open>MapRange\<close> refines insertion into a map of disjoint ranges.  On a well-formed mapper, and for
  a range that does not wrap around the address space, the call reports success exactly when the range
  overlaps no mapped range; on success every address of the range is mapped to the value and no other
  address changes (whether or not neighbouring ranges were coalesced); on failure the mapper is
  unchanged and the returned iterator denotes a mapped range that overlaps the new one.  The
  representation invariant (sorted by limit, positive sizes, disjoint) is kept.
\<close>

theorem MapRange_refines:
  assumes "rm_inv rm" "b \<le> b + s"
  shows "case MapRange rm b s v of (rm', it, ok) \<Rightarrow>
           rm_inv rm' \<and>
           ok = (\<forall>a\<in>wrange b s. rm_lookup rm a = None) \<and>
           (ok \<longrightarrow> rm_lookup rm' = (\<lambda>a. if a \<in> wrange b s then Some v else rm_lookup rm a)) \<and>
           (\<not> ok \<longrightarrow> rm' = rm \<and>
              (\<exists>L S V. it = Some L \<and> (L, S, V) \<in> set (rm_map rm) \<and> {L - S..<L} \<inter> wrange b s \<noteq> {}))"
proof (rule MapRange_outcome [OF assms, of v])
  fix rm' it
  assume "MapRange rm b s v = (rm', it, True)" "rm_inv rm'" "range_free rm b s"
    "rm_lookup rm' = (\<lambda>a. if a \<in> wrange b s then Some v else rm_lookup rm a)"
  then show ?thesis by (simp add: range_free_def)
next
  fix L S V
  assume *: "MapRange rm b s v = (rm, Some L, False)" "(L, S, V) \<in> set (rm_map rm)"
    "L - S < b + s" "b < L" "\<not> range_free rm b s"
  have "L - S < L"
    using assms(1) *(2) by (auto simp: rm_inv_def dest!: split_list intro: word_sub_less)
  moreover have "b < b + s"
  proof (rule no_wrap_less [OF assms(2)])
    show "0 < s" using *(5) by (auto simp: range_free_def word_neq_0_conv [symmetric])
  qed
  ultimately have "max b (L - S) \<in> {L - S..<L} \<inter> wrange b s" using *(3,4) by simp
  then show ?thesis using * assms(1) by (auto simp: range_free_def)
qed

theorem MapRange_refines_witness:
  "rm_inv \<lparr>rm_map = [(0x10::64 word, 0x8, 7::nat)], rm_coallesce = True\<rparr> \<and> (0x10::64 word) \<le> 0x10 + 0x10 \<and>
   MapRange \<lparr>rm_map = [(0x10, 0x8, 7)], rm_coallesce = True\<rparr> (0x10::64 word) 0x10 (7::nat) =
     (\<lparr>rm_map = [(0x20, 0x18, 7)], rm_coallesce = True\<rparr>, Some 0x20, True) \<and>
   rm_inv \<lparr>rm_map = [(0x20::64 word, 0x18, 7::nat)], rm_coallesce = True\<rparr>"
proof -
  let ?m = "\<lparr>rm_map = [(0x10, 0x8, 7)], rm_coallesce = True\<rparr> :: (64, nat) range_mapper"
  have inv: "rm_inv ?m" by (simp add: rm_inv_def)
  have le: "(0x10::64 word) \<le> 0x10 + 0x10" by simp
  have ev: "MapRange ?m 0x10 0x10 7 = (\<lparr>rm_map = [(0x20, 0x18, 7)], rm_coallesce = True\<rparr>, Some 0x20, True)"
    by (simp add: MapRange_def sm_lower_bound_def rm_next_def sm_upper_bound_def rm_emplace_result_def
        sm_emplace_def)
  from MapRange_refines [OF inv le, of 7] show ?thesis using inv le ev by simp
qed

text \<open>
  \<open>UnmapRange\<close> refines removal.  It keeps the representation invariant, unmaps every address of
  the range to remove, and leaves every other address with the value it had, including the parts of
  a range that stick out below and above the removed one.
\<close>

theorem UnmapRange_refines:
  assumes "rm_inv rm" "b \<le> b + s"
  shows "rm_inv (UnmapRange rm b s) \<and>
         rm_lookup (UnmapRange rm b s) = (\<lambda>a. if a \<in> wrange b s then None else rm_lookup rm a)"
  using UnmapRange_outcome [OF assms] by (auto simp: fun_eq_iff)

theorem UnmapRange_refines_witness:
  "rm_inv (rm_insert (RangeMapper_new True) 0x1000 0x3000 (7::nat) :: (64, nat) range_mapper) \<and>
   rm_lookup (UnmapRange (rm_insert (RangeMapper_new True) (0x1000::64 word) 0x3000 (7::nat)) 0x2000 0x1000) 0x3800 = Some 7 \<and>
   rm_lookup (UnmapRange (rm_insert (RangeMapper_new True) (0x1000::64 word) 0x3000 (7::nat)) 0x2000 0x1000) 0x2800 = None"
proof -
  let ?m = "rm_insert (RangeMapper_new True) (0x1000::64 word) 0x3000 (7::nat)"
  have m: "?m = \<lparr>rm_map = [(0x4000, 0x3000, 7)], rm_coallesce = True\<rparr>"
    by (simp add: rm_insert_def MapRange_def RangeMapper_new_def sm_lower_bound_def rm_emplace_result_def
        sm_emplace_def)
  have inv: "rm_inv ?m" by (simp add: m rm_inv_def)
  have le: "(0x2000::64 word) \<le> 0x2000 + 0x1000" by simp
  show ?thesis using UnmapRange_refines [OF inv le] inv by (simp add: m rm_lookup_def)
qed

text \<open>
  \<open>FindRange\<close> (and with it \<open>find\<close>) returns the mapped range that holds an address: when it
  succeeds the address lies in the reported range, the range does not wrap, and all of it is mapped to
  the reported value; it fails exactly for the addresses that are not mapped.
\<close>

theorem FindRange_correct:
  assumes "rm_inv rm"
  shows "(FindRange rm a = None \<longleftrightarrow> rm_lookup rm a = None) \<and>
         (\<forall>b s v. FindRange rm a = Some (b, s, v) \<longrightarrow>
            b \<le> b + s \<and> a \<in> wrange b s \<and> (\<forall>a'\<in>wrange b s. rm_lookup rm a' = Some v))"
  using FindRange_outcome [OF assms, of a] by blast

theorem FindRange_correct_witness:
  "FindRange \<lparr>rm_map = [(0x4000, 0x3000, 7)], rm_coallesce = True\<rparr> (0x1234::64 word) = Some (0x1000, 0x3000, 7::nat) \<and>
   rm_lookup \<lparr>rm_map = [(0x4000, 0x3000, 7)], rm_coallesce = True\<rparr> (0x3fff::64 word) = Some (7::nat)"
proof -
  let ?m = "\<lparr>rm_map = [(0x4000, 0x3000, 7)], rm_coallesce = True\<rparr> :: (64, nat) range_mapper"
  have inv: "rm_inv ?m" by (simp add: rm_inv_def)
  have f: "FindRange ?m 0x1234 = Some (0x1000, 0x3000, 7)"
    by (simp add: FindRange_def sm_upper_bound_def)
  show ?thesis using FindRange_correct [OF inv, of "0x1234"] f by simp
qed

end
