(* ===== verification/Virtual_Address_Map.thy ===== *)
theory Virtual_Address_Map
  imports Range_Mapper
begin

text \<open>
  The class \<open>VirtualAddressMap<uint64_t>\<close> of VirtualAddressMap.h and its nested \<open>Reader\<close>.  The map
  sends address ranges to an adjustment that turns an address into an offset in the core file and to
  flags; the reader reads integers and strings through it and caches the last range it used.  The
  core file, which \<open>FileImage\<close> maps into memory, is a list of bytes; a pointer into it is an offset.
  A read outside those bytes, which C++ leaves undefined, is the explicit result \<open>OutsideFile\<close>.
\<close>

section \<open>State\<close>

record RangeAttributes =
  adjustToFileOffset :: addr
  flags :: "32 word"

definition IS_READABLE :: "32 word" where "IS_READABLE = 0x01"
definition IS_WRITABLE :: "32 word" where "IS_WRITABLE = 0x02"
definition IS_EXECUTABLE :: "32 word" where "IS_EXECUTABLE = 0x04"
definition HAS_KNOWN_PERMISSIONS :: "32 word" where "HAS_KNOWN_PERMISSIONS = 0x08"
definition IS_MAPPED :: "32 word" where "IS_MAPPED = 0x10"
definition IS_TRUNCATED :: "32 word" where "IS_TRUNCATED = 0x20"

lemmas flag_defs = IS_READABLE_def IS_WRITABLE_def IS_EXECUTABLE_def HAS_KNOWN_PERMISSIONS_def
  IS_MAPPED_def IS_TRUNCATED_def

type_synonym vam_iterator = "(64, RangeAttributes) rm_entry"

record VirtualAddressMap =
  fileImage :: "byte list"
  fileSize :: addr
  ranges :: "(64, RangeAttributes) range_mapper"

definition VirtualAddressMap_new :: "byte list \<Rightarrow> VirtualAddressMap" where
  "VirtualAddressMap_new file =
     \<lparr>fileImage = file, fileSize = of_nat (length file), ranges = RangeMapper_new True\<rparr>"

lemma VirtualAddressMap_new_image: "fileImage (VirtualAddressMap_new file) = file"
  by (simp add: VirtualAddressMap_new_def)

section \<open>Iterators\<close>

fun it_Limit :: "vam_iterator \<Rightarrow> addr" where "it_Limit (limit, sz, attrs) = limit"
fun it_Size :: "vam_iterator \<Rightarrow> addr" where "it_Size (limit, sz, attrs) = sz"
fun it_Base :: "vam_iterator \<Rightarrow> addr" where "it_Base (limit, sz, attrs) = limit - sz"
fun it_Flags :: "vam_iterator \<Rightarrow> 32 word" where "it_Flags (limit, sz, attrs) = flags attrs"

text \<open>Whether the bytes of a range are in the core file, and where they start in it.\<close>

definition has_image :: "RangeAttributes \<Rightarrow> bool" where
  "has_image attrs \<longleftrightarrow> flags attrs AND (IS_MAPPED OR IS_TRUNCATED) = IS_MAPPED"

fun GetImage :: "vam_iterator \<Rightarrow> addr option" where
  "GetImage (limit, sz, attrs) =
     (if flags attrs AND (IS_MAPPED OR IS_TRUNCATED) \<noteq> IS_MAPPED then None
      else Some ((limit - sz) + adjustToFileOffset attrs))"

definition vam_find :: "VirtualAddressMap \<Rightarrow> addr \<Rightarrow> vam_iterator option" where
  "vam_find m a = rm_find (ranges m) a"

definition vam_upper_bound :: "VirtualAddressMap \<Rightarrow> addr \<Rightarrow> vam_iterator option" where
  "vam_upper_bound m a = rm_upper_bound (ranges m) a"

definition vam_iterators :: "VirtualAddressMap \<Rightarrow> vam_iterator list" where
  "vam_iterators m = rm_map (ranges m)"

definition FindMappedMemoryImage :: "VirtualAddressMap \<Rightarrow> addr \<Rightarrow> addr \<times> addr option" where
  "FindMappedMemoryImage m a =
     (case vam_find m a of
        Some it \<Rightarrow>
          (case GetImage it of
             Some rangeImage \<Rightarrow>
               let discard = a - it_Base it in (it_Size it - discard, Some (rangeImage + discard))
           | None \<Rightarrow> (0, None))
      | None \<Rightarrow> (0, None))"

section \<open>Adding a range\<close>

definition AddRange_flags :: "bool \<Rightarrow> bool \<Rightarrow> bool \<Rightarrow> bool \<Rightarrow> bool \<Rightarrow> 32 word" where
  "AddRange_flags isMapped hasKnownPermissions readable writable executable =
     (let f0 = 0;
          f1 = (if isMapped then f0 OR IS_MAPPED else f0)
      in if hasKnownPermissions then
           let f2 = f1 OR HAS_KNOWN_PERMISSIONS;
               f3 = (if readable then f2 OR IS_READABLE else f2);
               f4 = (if writable then f3 OR IS_WRITABLE else f3)
           in (if executable then f4 OR IS_EXECUTABLE else f4)
         else f1)"

definition AddRange ::
  "VirtualAddressMap \<Rightarrow> addr \<Rightarrow> addr \<Rightarrow> addr \<Rightarrow> bool \<Rightarrow> bool \<Rightarrow> bool \<Rightarrow> bool \<Rightarrow> bool
   \<Rightarrow> VirtualAddressMap" where
  "AddRange m rangeAddr rangeSize adjust isMapped hasKnownPermissions readable writable executable =
     (let fl = AddRange_flags isMapped hasKnownPermissions readable writable executable;
          limit = rangeAddr + rangeSize + adjust
      in if \<not> isMapped \<or> fileSize m \<ge> limit then
           m\<lparr>ranges := fst (MapRange (ranges m) rangeAddr rangeSize
                              \<lparr>adjustToFileOffset = adjust, flags = fl\<rparr>)\<rparr>
         else if fileSize m \<le> rangeAddr + adjust then
           m\<lparr>ranges := fst (MapRange (ranges m) rangeAddr rangeSize
                              \<lparr>adjustToFileOffset = adjust, flags = fl OR IS_TRUNCATED\<rparr>)\<rparr>
         else
           let missing = limit - fileSize m;
               present = rangeSize - missing;
               r1 = fst (MapRange (ranges m) rangeAddr present
                           \<lparr>adjustToFileOffset = adjust, flags = fl\<rparr>);
               r2 = fst (MapRange r1 (rangeAddr + present) missing
                           \<lparr>adjustToFileOffset = adjust, flags = fl OR IS_TRUNCATED\<rparr>)
           in m\<lparr>ranges := r2\<rparr>)"

section \<open>The reader\<close>

datatype 'a read_result = Value 'a | NotMapped addr | OutsideFile

text \<open>The iterators the C++ object also holds are assigned before every use and are not state.\<close>

record Reader =
  rd_image :: "addr option"
  rd_base :: addr
  rd_limit :: addr

definition Reader_new :: Reader where
  "Reader_new = \<lparr>rd_image = None, rd_base = 0, rd_limit = 0\<rparr>"

text \<open>\<open>n\<close> bytes of the file from an offset on, if the file has them.\<close>

definition file_bytes :: "byte list \<Rightarrow> addr \<Rightarrow> nat \<Rightarrow> byte list read_result" where
  "file_bytes file off n =
     (if unat off + n \<le> length file then Value (take n (drop (unat off) file)) else OutsideFile)"

text \<open>
  The part every read shares: refresh the cached range where it does not hold the bytes to read.  The
  flag says whether the read goes ahead.
\<close>

definition reader_locate :: "VirtualAddressMap \<Rightarrow> Reader \<Rightarrow> addr \<Rightarrow> addr \<Rightarrow> Reader \<times> bool" where
  "reader_locate m rd address readLimit =
     (if rd_base rd > address \<or> rd_limit rd < readLimit then
        (case vam_find m address of
           Some it \<Rightarrow>
             (case GetImage it of
                Some img \<Rightarrow>
                  let rd' = \<lparr>rd_image = Some img, rd_base = it_Base it, rd_limit = it_Limit it\<rparr>
                  in (rd', \<not> readLimit > rd_limit rd')
              | None \<Rightarrow> (Reader_new, False))
         | None \<Rightarrow> (Reader_new, \<not> readLimit > rd_limit Reader_new))
      else (rd, True))"

definition reader_deref :: "VirtualAddressMap \<Rightarrow> Reader \<Rightarrow> addr \<Rightarrow> nat \<Rightarrow> byte list read_result" where
  "reader_deref m rd address n =
     (case rd_image rd of
        Some img \<Rightarrow> file_bytes (fileImage m) (img + (address - rd_base rd)) n
      | None \<Rightarrow> OutsideFile)"

definition reader_read ::
  "VirtualAddressMap \<Rightarrow> Reader \<Rightarrow> addr \<Rightarrow> nat \<Rightarrow> Reader \<times> byte list read_result" where
  "reader_read m rd address n =
     (let readLimit = address + of_nat n in
      if readLimit < address then (rd, NotMapped address)
      else case reader_locate m rd address readLimit of
             (rd', False) \<Rightarrow> (rd', NotMapped address)
           | (rd', True) \<Rightarrow> (rd', reader_deref m rd' address n))"

fun le_value :: "byte list \<Rightarrow> nat" where
  "le_value [] = 0"
| "le_value (b # bs) = unat b + 256 * le_value bs"

fun decode_read :: "byte list read_result \<Rightarrow> 'n::len word read_result" where
  "decode_read (Value bs) = Value (of_nat (le_value bs))"
| "decode_read (NotMapped a) = NotMapped a"
| "decode_read OutsideFile = OutsideFile"

fun or_default :: "'a \<Rightarrow> 'a read_result \<Rightarrow> 'a read_result" where
  "or_default d (NotMapped a) = Value d"
| "or_default d r = r"

definition ReadOffset :: "VirtualAddressMap \<Rightarrow> Reader \<Rightarrow> addr \<Rightarrow> Reader \<times> addr read_result" where
  "ReadOffset m rd a = map_prod id decode_read (reader_read m rd a 8)"

definition ReadOffset_default :: "VirtualAddressMap \<Rightarrow> Reader \<Rightarrow> addr \<Rightarrow> addr \<Rightarrow> Reader \<times> addr read_result" where
  "ReadOffset_default m rd a d = map_prod id (or_default d \<circ> decode_read) (reader_read m rd a 8)"

definition ReadU16 :: "VirtualAddressMap \<Rightarrow> Reader \<Rightarrow> addr \<Rightarrow> Reader \<times> 16 word read_result" where
  "ReadU16 m rd a = map_prod id decode_read (reader_read m rd a 2)"

definition ReadU16_default :: "VirtualAddressMap \<Rightarrow> Reader \<Rightarrow> addr \<Rightarrow> 16 word \<Rightarrow> Reader \<times> 16 word read_result" where
  "ReadU16_default m rd a d = map_prod id (or_default d \<circ> decode_read) (reader_read m rd a 2)"

definition ReadU32 :: "VirtualAddressMap \<Rightarrow> Reader \<Rightarrow> addr \<Rightarrow> Reader \<times> 32 word read_result" where
  "ReadU32 m rd a = map_prod id decode_read (reader_read m rd a 4)"

definition ReadU32_default :: "VirtualAddressMap \<Rightarrow> Reader \<Rightarrow> addr \<Rightarrow> 32 word \<Rightarrow> Reader \<times> 32 word read_result" where
  "ReadU32_default m rd a d = map_prod id (or_default d \<circ> decode_read) (reader_read m rd a 4)"

text \<open>\<open>Read32\<close> returns an \<open>int32_t\<close>: the signed reading of the same 32 bits.\<close>

definition Read32_default :: "VirtualAddressMap \<Rightarrow> Reader \<Rightarrow> addr \<Rightarrow> int \<Rightarrow> Reader \<times> int read_result" where
  "Read32_default m rd a d =
     map_prod id (or_default d \<circ> map_read_result sint \<circ> (decode_read :: _ \<Rightarrow> 32 word read_result))
       (reader_read m rd a 4)"

definition ReadU64 :: "VirtualAddressMap \<Rightarrow> Reader \<Rightarrow> addr \<Rightarrow> Reader \<times> 64 word read_result" where
  "ReadU64 m rd a = map_prod id decode_read (reader_read m rd a 8)"

definition ReadU64_default :: "VirtualAddressMap \<Rightarrow> Reader \<Rightarrow> addr \<Rightarrow> 64 word \<Rightarrow> Reader \<times> 64 word read_result" where
  "ReadU64_default m rd a d = map_prod id (or_default d \<circ> decode_read) (reader_read m rd a 8)"

definition ReadU8 :: "VirtualAddressMap \<Rightarrow> Reader \<Rightarrow> addr \<Rightarrow> Reader \<times> 8 word read_result" where
  "ReadU8 m rd a = map_prod id decode_read (reader_read m rd a 1)"

definition ReadU8_default :: "VirtualAddressMap \<Rightarrow> Reader \<Rightarrow> addr \<Rightarrow> 8 word \<Rightarrow> Reader \<times> 8 word read_result" where
  "ReadU8_default m rd a d = map_prod id (or_default d \<circ> decode_read) (reader_read m rd a 1)"

text \<open>
  \<open>strnlen\<close> scans for a null byte among at most \<open>n\<close> bytes; it leaves the file only where there is
  none before the end.  \<open>ReadCString\<close> returns the bytes it copies into the caller's buffer; the returned length is theirs.
  The limit of the scan is what remains of the range where the buffer reaches past it.
\<close>

definition file_strnlen :: "byte list \<Rightarrow> addr \<Rightarrow> nat \<Rightarrow> byte list read_result" where
  "file_strnlen file off n =
     (let avail = drop (unat off) file; str = takeWhile (\<lambda>b. b \<noteq> 0) (take n avail) in
      if unat off + n \<le> length file \<or> length str < length avail then Value str else OutsideFile)"

definition reader_strnlen :: "VirtualAddressMap \<Rightarrow> Reader \<Rightarrow> addr \<Rightarrow> nat \<Rightarrow> byte list read_result" where
  "reader_strnlen m rd address n =
     (case rd_image rd of
        Some img \<Rightarrow> file_strnlen (fileImage m) (img + (address - rd_base rd)) n
      | None \<Rightarrow> OutsideFile)"

definition ReadCString ::
  "VirtualAddressMap \<Rightarrow> Reader \<Rightarrow> addr \<Rightarrow> addr \<Rightarrow> Reader \<times> byte list read_result" where
  "ReadCString m rd address bufferSize =
     (let located =
        (if rd_base rd > address \<or> rd_limit rd \<le> address then
           (case vam_find m address of
              None \<Rightarrow> (Reader_new, False)
            | Some it \<Rightarrow>
                (case GetImage it of
                   None \<Rightarrow> (Reader_new, False)
                 | Some img \<Rightarrow> (\<lparr>rd_image = Some img, rd_base = it_Base it, rd_limit = it_Limit it\<rparr>, True)))
         else (rd, True))
      in case located of
           (rd', False) \<Rightarrow> (rd', Value [])
         | (rd', True) \<Rightarrow>
             let maxStringLenPlus1 =
               (if address + bufferSize > rd_limit rd' \<or> address + bufferSize < address
                then rd_limit rd' - address else bufferSize)
             in (rd', reader_strnlen m rd' address (unat maxStringLenPlus1)))"

text \<open>The template \<open>Read<T>\<close>, for a type of \<open>n\<close> bytes: it has no check that the address wraps.\<close>

definition Read_T :: "VirtualAddressMap \<Rightarrow> Reader \<Rightarrow> addr \<Rightarrow> nat \<Rightarrow> Reader \<times> byte list read_result" where
  "Read_T m rd address n =
     (case reader_locate m rd address (address + of_nat n) of
        (rd', False) \<Rightarrow> (rd', NotMapped address)
      | (rd', True) \<Rightarrow> (rd', reader_deref m rd' address n))"

section \<open>Well-formed maps\<close>

text \<open>
  Every address whose bytes are said to be in the core file has an offset inside the file.
\<close>

definition vam_ok :: "VirtualAddressMap \<Rightarrow> bool" where
  "vam_ok m \<longleftrightarrow> rm_inv (ranges m) \<and> length (fileImage m) < 2 ^ 64 \<and>
     fileSize m = of_nat (length (fileImage m)) \<and>
     (\<forall>a attrs. rm_lookup (ranges m) a = Some attrs \<and> has_image attrs \<longrightarrow>
        unat (a + adjustToFileOffset attrs) < length (fileImage m))"

lemma vam_okD:
  assumes "vam_ok m"
  shows "rm_inv (ranges m)" "length (fileImage m) < 2 ^ 64" "unat (fileSize m) = length (fileImage m)"
    "rm_lookup (ranges m) a = Some attrs \<Longrightarrow> has_image attrs \<Longrightarrow>
       unat (a + adjustToFileOffset attrs) < length (fileImage m)"
  using assms by (auto simp: vam_ok_def unat_of_nat)

lemma vam_ok_new: "length file < 2 ^ 64 \<Longrightarrow> vam_ok (VirtualAddressMap_new file)"
  by (simp add: vam_ok_def VirtualAddressMap_new_def rs.inv_new rs.lookup_new)

lemma GetImage_eq:
  "GetImage (L, S, V) = (if has_image V then Some (L - S + adjustToFileOffset V) else None)"
  by (simp add: has_image_def)

declare GetImage.simps [simp del]

text \<open>Consecutive addresses of a mapped range are consecutive bytes of the file.\<close>

lemma offsets_consecutive:
  fixes B adj :: addr
  assumes small: "\<And>j. j < n \<Longrightarrow> unat (B + of_nat j + adj) < len" and len: "len < 2 ^ 64" and "k < n"
  shows "unat (B + of_nat k + adj) = unat (B + adj) + k"
  using \<open>k < n\<close>
proof (induction k)
  case (Suc k)
  let ?x = "B + of_nat k + adj"
  have x: "unat ?x = unat (B + adj) + k" using Suc by simp
  have "unat ?x < len" using Suc.prems small [of k] by simp
  then have "unat (?x + 1) = unat ?x + 1" using len by (intro unat_Suc_word) simp
  moreover have eq: "B + of_nat (Suc k) + adj = ?x + 1" by (simp add: algebra_simps)
  ultimately show ?case unfolding eq using x by simp
qed simp

lemma entry_in_file:
  assumes ok: "vam_ok m" and mem: "(L, S, V) \<in> set (rm_map (ranges m))" and img: "has_image V"
  shows "unat (L - S + adjustToFileOffset V) + unat S \<le> length (fileImage m)"
    and "L - S \<le> a \<Longrightarrow> a < L \<Longrightarrow>
      unat (a + adjustToFileOffset V) = unat (L - S + adjustToFileOffset V) + unat (a - (L - S))"
proof -
  define B where "B = L - S"
  let ?B = B and ?adj = "adjustToFileOffset V"
  note okD = vam_okD [OF ok]
  have wf: "rm_wf 0 (rm_map (ranges m))" using okD(1) by (simp add: rm_inv_def)
  have S: "0 < S" "S \<le> L" using wf mem by (auto dest!: split_list)
  have LB: "unat L = unat ?B + unat S" using S(2) by (simp add: B_def unat_sub word_le_nat_alt)
  have small: "unat (?B + of_nat j + ?adj) < length (fileImage m)" if "j < unat S" for j
  proof -
    have "unat ?B + j < 2 ^ LENGTH(64)" using that LB unsigned_less [where 'a = nat, of L] by simp
    then have uj: "unat (?B + of_nat j) = unat ?B + j"
      by (rule unat_add_of_nat)
    then have "?B \<le> ?B + of_nat j" "?B + of_nat j < L"
      using that LB by (auto simp: word_le_nat_alt word_less_nat_alt)
    then have "rm_lookup (ranges m) (?B + of_nat j) = Some V"
      using entries_lookup_entry [OF wf mem] by (simp add: rm_lookup_def B_def)
    from okD(4) [OF this img] show ?thesis .
  qed
  note consec = offsets_consecutive [OF small okD(2)]
  have "unat S - 1 < unat S" using S(1) by (simp add: word_less_nat_alt)
  from consec [OF _ this] small [OF this] S(1)
  show "unat (L - S + ?adj) + unat S \<le> length (fileImage m)"
    unfolding B_def [symmetric] by (simp add: word_less_nat_alt)
  assume a: "L - S \<le> a" "a < L"
  have "unat (a - B) < unat S"
    using a LB by (simp add: B_def [symmetric] word_le_nat_alt word_less_nat_alt unat_sub)
  from consec [OF _ this] have "unat (B + of_nat (unat (a - B)) + ?adj) = unat (B + ?adj) + unat (a - B)" .
  moreover have "B + of_nat (unat (a - B)) = a" by simp
  ultimately show "unat (a + ?adj) = unat (L - S + ?adj) + unat (a - (L - S))"
    unfolding B_def [symmetric] by metis
qed


section \<open>What a read should return\<close>

text \<open>One byte of the process image.\<close>

definition mem_byte :: "VirtualAddressMap \<Rightarrow> addr \<Rightarrow> byte option" where
  "mem_byte m a =
     (case rm_lookup (ranges m) a of
        Some V \<Rightarrow> if has_image V then Some (fileImage m ! unat (a + adjustToFileOffset V)) else None
      | None \<Rightarrow> None)"

text \<open>\<open>n\<close> bytes from one range that has an image.\<close>

definition read_spec :: "VirtualAddressMap \<Rightarrow> addr \<Rightarrow> nat \<Rightarrow> byte list option" where
  "read_spec m a n =
     (if a + of_nat n < a then None
      else case vam_find m a of
             Some (L, S, V) \<Rightarrow>
               if has_image V \<and> a + of_nat n \<le> L
               then Some (take n (drop (unat (a + adjustToFileOffset V)) (fileImage m))) else None
           | None \<Rightarrow> None)"

definition reader_ok :: "VirtualAddressMap \<Rightarrow> Reader \<Rightarrow> bool" where
  "reader_ok m rd \<longleftrightarrow> rd = Reader_new \<or>
     (\<exists>L S V. (L, S, V) \<in> set (rm_map (ranges m)) \<and> has_image V \<and>
        rd = \<lparr>rd_image = Some (L - S + adjustToFileOffset V), rd_base = L - S, rd_limit = L\<rparr>)"

lemma reader_ok_new [simp]: "reader_ok m Reader_new"
  by (simp add: reader_ok_def)

lemma bytes_in_entry:
  assumes ok: "vam_ok m" and mem: "(L, S, V) \<in> set (rm_map (ranges m))" and img: "has_image V"
    and a: "L - S \<le> a" "a < L" and n: "n \<le> unat L - unat a"
  shows "unat (a + adjustToFileOffset V) + n \<le> length (fileImage m)"
proof -
  have "S \<le> L" using vam_okD(1) [OF ok] mem by (auto simp: rm_inv_def dest!: split_list)
  then have "unat (L - S) = unat L - unat S" "unat S \<le> unat L" by (simp_all add: unat_sub_le word_le_nat_alt)
  moreover have "unat (a - (L - S)) = unat a - unat (L - S)" "unat (L - S) \<le> unat a" "unat a < unat L"
    using a by (simp_all add: unat_sub_le word_le_nat_alt word_less_nat_alt)
  ultimately have "unat (a - (L - S)) + n \<le> unat S" using n by linarith
  then show ?thesis using entry_in_file(1) [OF ok mem img] entry_in_file(2) [OF ok mem img a] by simp
qed

lemma no_wrap_span:
  fixes a L :: addr
  assumes "\<not> a + of_nat n < a" "a + of_nat n \<le> L" "n < 2 ^ 64"
  shows "n \<le> unat L - unat a"
proof -
  have "unat (of_nat n :: addr) = n" using assms(3) by (simp add: unat_of_nat)
  then have "unat (a + of_nat n) = unat a + n"
    using no_wrap_unat [of a "of_nat n"] assms(1) by (simp add: not_less)
  then show ?thesis using assms(2) by (simp add: word_le_nat_alt)
qed

lemma reader_locate_entry:
  assumes ok: "vam_ok m" and rd: "reader_ok m rd"
    and "\<not> readLimit < a" "a < readLimit" "reader_locate m rd a readLimit = (rd', go)"
  shows "reader_ok m rd'"
    and "go \<longleftrightarrow> (\<exists>L S V. vam_find m a = Some (L, S, V) \<and> has_image V \<and> readLimit \<le> L)"
    and "go \<Longrightarrow> \<exists>L S V. vam_find m a = Some (L, S, V) \<and> has_image V \<and> readLimit \<le> L \<and>
           rd' = \<lparr>rd_image = Some (L - S + adjustToFileOffset V), rd_base = L - S, rd_limit = L\<rparr>"
proof -
  note inv = vam_okD(1) [OF ok]
  have *: "reader_ok m rd' \<and> (go \<longleftrightarrow> (\<exists>L S V. vam_find m a = Some (L, S, V) \<and> has_image V \<and> readLimit \<le> L)) \<and>
    (go \<longrightarrow> (\<exists>L S V. vam_find m a = Some (L, S, V) \<and> has_image V \<and> readLimit \<le> L \<and>
           rd' = \<lparr>rd_image = Some (L - S + adjustToFileOffset V), rd_base = L - S, rd_limit = L\<rparr>))"
  proof (cases "rd_base rd > a \<or> rd_limit rd < readLimit")
    case True
    show ?thesis
    proof (cases "vam_find m a")
      case None
      then show ?thesis using order.strict_trans1 [OF word_zero_le assms(4)] assms(5) True
        by (auto simp: reader_locate_def Reader_new_def reader_ok_def)
    next
      case (Some it)
      obtain L S V where it: "it = (L, S, V)" by (cases it)
      then have "(L, S, V) \<in> set (rm_map (ranges m))"
        using rm_find_SomeD(1) [OF inv] Some by (auto simp: vam_find_def)
      then show ?thesis using assms(5) True Some it
        by (auto simp: reader_locate_def GetImage_eq reader_ok_def split: if_splits)
    qed
  next
    case False
    then have "rd \<noteq> Reader_new"
      using order.strict_trans1 [OF word_zero_le assms(4)] by (auto simp: Reader_new_def)
    then obtain L S V where e: "(L, S, V) \<in> set (rm_map (ranges m))" "has_image V"
        "rd = \<lparr>rd_image = Some (L - S + adjustToFileOffset V), rd_base = L - S, rd_limit = L\<rparr>"
      using rd by (auto simp: reader_ok_def)
    then have "vam_find m a = Some (L, S, V)"
      using False assms(4) by (auto simp: vam_find_def not_less intro: rm_find_entry [OF inv])
    then show ?thesis using e False assms(5) rd by (auto simp: reader_locate_def)
  qed
  then show "reader_ok m rd'" by simp
  from * show "go \<longleftrightarrow> (\<exists>L S V. vam_find m a = Some (L, S, V) \<and> has_image V \<and> readLimit \<le> L)" by simp
  from * show "\<exists>L S V. vam_find m a = Some (L, S, V) \<and> has_image V \<and> readLimit \<le> L \<and>
       rd' = \<lparr>rd_image = Some (L - S + adjustToFileOffset V), rd_base = L - S, rd_limit = L\<rparr>" if go
    using that by simp
qed

lemma reader_read_spec:
  assumes ok: "vam_ok m" and rd: "reader_ok m rd" and n: "0 < n" "n < 2 ^ 64"
    and r: "reader_read m rd a n = (rd', r)"
  shows "reader_ok m rd'" "r = (case read_spec m a n of Some bs \<Rightarrow> Value bs | None \<Rightarrow> NotMapped a)"
proof -
  let ?l = "a + of_nat n"
  have "reader_ok m rd' \<and> r = (case read_spec m a n of Some bs \<Rightarrow> Value bs | None \<Rightarrow> NotMapped a)"
  proof (cases "?l < a")
    case True
    then show ?thesis using r rd by (simp add: reader_read_def read_spec_def)
  next
    case False
    have "unat (of_nat n :: addr) = n" using n by (simp add: unat_of_nat)
    then have "(of_nat n :: addr) \<noteq> 0" using n(1) by auto
    then have lt: "a < ?l" using no_wrap_less [of a "of_nat n"] False by (simp add: not_less word_neq_0_conv)
    obtain rd1 go where loc: "reader_locate m rd a ?l = (rd1, go)" by (meson surj_pair)
    note L = reader_locate_entry [OF ok rd False lt loc]
    show ?thesis
    proof (cases go)
      case False': False
      then have "read_spec m a n = None" using L(2) by (auto simp: read_spec_def split: option.split)
      then show ?thesis using r loc False False' L(1) by (auto simp: reader_read_def)
    next
      case True
      then obtain L' S V where f: "vam_find m a = Some (L', S, V)" "has_image V" "?l \<le> L'"
          "rd1 = \<lparr>rd_image = Some (L' - S + adjustToFileOffset V), rd_base = L' - S, rd_limit = L'\<rparr>"
        using L(3) by blast
      note D = rm_find_SomeD [OF vam_okD(1) [OF ok] f(1) [unfolded vam_find_def]]
      have "unat (a + adjustToFileOffset V) + n \<le> length (fileImage m)"
        using bytes_in_entry [OF ok D(1) f(2) D(2,3)] no_wrap_span [OF False f(3) n(2)] by blast
      moreover have "L' - S + adjustToFileOffset V + (a - (L' - S)) = a + adjustToFileOffset V" by simp
      ultimately have "reader_deref m rd1 a n = Value (take n (drop (unat (a + adjustToFileOffset V)) (fileImage m)))"
        unfolding reader_deref_def f(4) by (simp add: file_bytes_def add.commute [of a])
      then show ?thesis using r loc False True L(1) f by (auto simp: reader_read_def read_spec_def)
    qed
  qed
  then show "reader_ok m rd'" "r = (case read_spec m a n of Some bs \<Rightarrow> Value bs | None \<Rightarrow> NotMapped a)" by auto
qed

lemma read_spec_bytes:
  assumes ok: "vam_ok m" and n: "n < 2 ^ 64" and bs: "read_spec m a n = Some bs"
  shows "length bs = n" "i < n \<Longrightarrow> mem_byte m (a + of_nat i) = Some (bs ! i)"
proof -
  obtain L S V where f: "vam_find m a = Some (L, S, V)" "has_image V" "a + of_nat n \<le> L" "\<not> a + of_nat n < a"
      and b: "bs = take n (drop (unat (a + adjustToFileOffset V)) (fileImage m))"
    using bs by (auto simp: read_spec_def split: option.splits if_splits)
  note inv = vam_okD(1) [OF ok]
  note D = rm_find_SomeD [OF inv f(1) [unfolded vam_find_def]]
  have span: "n \<le> unat L - unat a" using no_wrap_span [OF f(4,3) n] .
  have inb: "unat (a + adjustToFileOffset V) + n \<le> length (fileImage m)"
    using bytes_in_entry [OF ok D(1) f(2) D(2,3) span] .
  then show "length bs = n" using b by simp
  assume i: "i < n"
  have "unat a + i < 2 ^ LENGTH(64)" using i span unsigned_less [where 'a = nat, of L] by simp
  then have ui: "unat (a + of_nat i) = unat a + i" by (rule unat_add_of_nat)
  have ai: "L - S \<le> a + of_nat i" "a + of_nat i < L"
    using D(2,3) ui i span by (auto simp: word_le_nat_alt word_less_nat_alt)
  have "rm_find (ranges m) (a + of_nat i) = Some (L, S, V)"
    using rm_find_entry [OF inv D(1) ai] .
  then have look: "rm_lookup (ranges m) (a + of_nat i) = Some V" using rm_find_SomeD(6) [OF inv] by blast
  have "unat (a + of_nat i + adjustToFileOffset V) = unat (a + adjustToFileOffset V) + i"
  proof -
    have "unat (a + adjustToFileOffset V) + i < 2 ^ LENGTH(64)" using inb i vam_okD(2) [OF ok] by simp
    then have "unat (a + adjustToFileOffset V + of_nat i) = unat (a + adjustToFileOffset V) + i"
      by (rule unat_add_of_nat)
    then show ?thesis by (simp add: algebra_simps)
  qed
  then show "mem_byte m (a + of_nat i) = Some (bs ! i)"
    using look f(2) b i inb by (simp add: mem_byte_def)
qed


section \<open>AddRange\<close>

text \<open>The conditions under which a call adds all of its range.\<close>

definition addable :: "VirtualAddressMap \<Rightarrow> addr \<Rightarrow> addr \<Rightarrow> addr \<Rightarrow> bool" where
  "addable m b s adj \<longleftrightarrow> b \<le> b + s \<and> unat (b + adj) + unat s < 2 ^ 64 \<and>
     (\<forall>a\<in>wrange b s. rm_lookup (ranges m) a = None)"

lemma AddRange_flags_image:
  "AddRange_flags mp kp r w x AND (IS_MAPPED OR IS_TRUNCATED) = (if mp then IS_MAPPED else 0)"
  "(AddRange_flags mp kp r w x OR IS_TRUNCATED) AND (IS_MAPPED OR IS_TRUNCATED) \<noteq> IS_MAPPED"
  by (cases mp; cases kp; cases r; cases w; cases x; simp add: AddRange_flags_def flag_defs)+

lemma has_image_AddRange_flags:
  "has_image \<lparr>adjustToFileOffset = adj, flags = AddRange_flags mp kp r w x\<rparr> = mp"
  "\<not> has_image \<lparr>adjustToFileOffset = adj, flags = AddRange_flags mp kp r w x OR IS_TRUNCATED\<rparr>"
  using AddRange_flags_image by (simp_all add: has_image_def IS_MAPPED_def)

lemma file_offset_in_range:
  assumes "addable m b s adj" "a \<in> wrange b s"
  shows "unat (a + adj) = unat (b + adj) + unat (a - b)" "unat (a - b) < unat s"
proof -
  have "unat (b + s) = unat b + unat s" using assms(1) by (intro no_wrap_unat) (simp add: addable_def)
  then show lt: "unat (a - b) < unat s"
    using assms(2) by (auto simp: unat_sub_le word_le_nat_alt word_less_nat_alt)
  have "unat (b + adj + of_nat (unat (a - b))) = unat (b + adj) + unat (a - b)"
    using assms(1) lt by (intro unat_add_of_nat) (simp add: addable_def)
  then show "unat (a + adj) = unat (b + adj) + unat (a - b)" by (simp add: algebra_simps)
qed

lemma MapRange_free:
  assumes "rm_inv rm" "b \<le> b + s" "\<forall>a\<in>wrange b s. rm_lookup rm a = None"
  shows "rm_inv (fst (MapRange rm b s v))"
    and "rm_lookup (fst (MapRange rm b s v)) a = (if a \<in> wrange b s then Some v else rm_lookup rm a)"
  using MapRange_outcome [OF assms(1,2), of v] assms(3)
  by (metis fst_conv range_free_def)+

text \<open>
  The three cases of the code agree on one description: the bytes of an address are in the file when
  the range is mapped and the offset of that address lies inside the file.
\<close>

lemma AddRange_lookup:
  assumes ok: "vam_ok m" and add: "addable m b s adj"
  shows "rm_inv (ranges (AddRange m b s adj mp kp r w x)) \<and>
    rm_lookup (ranges (AddRange m b s adj mp kp r w x)) a =
      (if a \<in> wrange b s then
         Some \<lparr>adjustToFileOffset = adj,
               flags = (if mp \<and> length (fileImage m) \<le> unat (a + adj)
                        then AddRange_flags mp kp r w x OR IS_TRUNCATED else AddRange_flags mp kp r w x)\<rparr>
       else rm_lookup (ranges m) a)"
proof -
  let ?fl = "AddRange_flags mp kp r w x" and ?limit = "b + s + adj" and ?fo = "unat (b + adj)"
  let ?len = "length (fileImage m)"
  note okD = vam_okD [OF ok]
  have nw: "b \<le> b + s" "?fo + unat s < 2 ^ 64" "\<forall>a\<in>wrange b s. rm_lookup (ranges m) a = None"
    using add by (auto simp: addable_def)
  have "?limit = b + adj + of_nat (unat s)" by (simp add: ac_simps)
  moreover have "unat (b + adj + of_nat (unat s)) = ?fo + unat s"
    by (rule unat_add_of_nat) (use nw(2) in simp)
  ultimately have lim: "unat ?limit = ?fo + unat s" by metis
  note off = file_offset_in_range [OF add]
  note free = MapRange_free [OF okD(1) nw(1,3)]
  consider (whole) "\<not> mp \<or> fileSize m \<ge> ?limit"
    | (none) "mp" "fileSize m < ?limit" "fileSize m \<le> b + adj"
    | (part) "mp" "fileSize m < ?limit" "b + adj < fileSize m" by (meson not_le)
  then show ?thesis
  proof cases
    case whole
    have "unat (a + adj) < ?len" if "a \<in> wrange b s" mp
      using off [OF that(1)] whole that(2) lim okD(3) by (simp add: word_le_nat_alt)
    then show ?thesis using whole free by (auto simp: AddRange_def Let_def not_less)
  next
    case none
    have "?len \<le> unat (a + adj)" if "a \<in> wrange b s"
      using off [OF that] none lim okD(3) by (simp add: word_le_nat_alt)
    then show ?thesis using none free by (auto simp: AddRange_def Let_def)
  next
    case part
    define missing where "missing = ?limit - fileSize m"
    define present where "present = s - missing"
    have um: "unat missing = ?fo + unat s - ?len"
      using part lim okD(3) by (simp add: missing_def unat_sub_le)
    have up: "unat present = ?len - ?fo" "unat present < unat s"
      using part lim okD(3) um by (auto simp: present_def unat_sub_le word_le_nat_alt word_less_nat_alt)
    have us: "unat (b + s) = unat b + unat s" using nw(1) by (rule no_wrap_unat)
    have ub: "unat (b + present) = unat b + unat present"
      using unat_add_of_nat [of b "unat present"] up(2) us unsigned_less [where 'a = nat, of "b + s"] by simp
    have sum: "b + present + missing = b + s" by (simp add: present_def)
    have le: "b \<le> b + present" "b + present \<le> b + present + missing"
      using ub us up(2) by (simp_all add: word_le_nat_alt sum)
    have sub: "\<forall>a\<in>wrange b present. rm_lookup (ranges m) a = None"
      using nw(3) le(2) sum by auto
    let ?r1 = "fst (MapRange (ranges m) b present \<lparr>adjustToFileOffset = adj, flags = ?fl\<rparr>)"
    note r1 = MapRange_free [OF okD(1) le(1) sub]
    have sub2: "\<forall>a\<in>wrange (b + present) missing. rm_lookup ?r1 a = None"
    proof
      fix a assume "a \<in> wrange (b + present) missing"
      then have "b + present \<le> a" "a < b + s" by (simp_all add: sum)
      then have "b \<le> a" "a < b + s" "\<not> a < b + present" using le(1) by auto
      then show "rm_lookup ?r1 a = None" using nw(3) by (simp add: r1(2))
    qed
    note r2 = MapRange_free [OF r1(1) le(2) sub2]
    have ev: "ranges (AddRange m b s adj mp kp r w x) =
        fst (MapRange ?r1 (b + present) missing \<lparr>adjustToFileOffset = adj, flags = ?fl OR IS_TRUNCATED\<rparr>)"
      using part by (simp add: AddRange_def Let_def missing_def present_def not_le)
    have "?len \<le> unat (a + adj) \<longleftrightarrow> b + present \<le> a" if "a \<in> wrange b s"
      using off [OF that] that ub up(1) part okD(3)
      by (auto simp: word_le_nat_alt word_less_nat_alt unat_sub_le)
    then show ?thesis unfolding ev r2(2) sum r1(2) using r2(1) part(1) le(1) le(2) [unfolded sum] by (auto simp: not_le)
  qed
qed

lemma AddRange_simps [simp]:
  "fileImage (AddRange m b s adj mp kp r w x) = fileImage m"
  "fileSize (AddRange m b s adj mp kp r w x) = fileSize m"
  by (simp_all add: AddRange_def Let_def)

lemma AddRange_ok:
  assumes ok: "vam_ok m" and add: "addable m b s adj"
  shows "vam_ok (AddRange m b s adj mp kp r w x)"
  using AddRange_lookup [OF ok add] vam_okD [OF ok] ok
  by (auto simp: vam_ok_def has_image_AddRange_flags not_le split: if_splits)


section \<open>ReadCString\<close>

lemma file_strnlen_in_file:
  "unat off + n \<le> length file \<Longrightarrow>
   file_strnlen file off n = Value (takeWhile (\<lambda>b. b \<noteq> 0) (take n (drop (unat off) file)))"
  by (simp add: file_strnlen_def Let_def)

text \<open>The number of bytes of the range from an address on, cut at the size of the buffer.\<close>

definition scan_length :: "addr \<Rightarrow> addr \<Rightarrow> addr \<Rightarrow> nat" where
  "scan_length L a bufferSize = min (unat bufferSize) (unat L - unat a)"

lemma scan_length_code:
  assumes "a < L"
  shows "unat (if a + n > L \<or> a + n < a then L - a else n) = scan_length L a n"
proof (cases "a + n < a")
  case True
  have "\<not> unat a + unat n < 2 ^ LENGTH(64)"
    using True no_wrap_unat by (metis le_add1 leD unat_add_lem word_le_nat_alt)
  then have "unat L \<le> unat a + unat n"
    using unsigned_less [where 'a = nat, of L] by simp
  then show ?thesis using True assms by (simp add: scan_length_def unat_sub_le less_imp_le)
next
  case False
  then have "unat (a + n) = unat a + unat n" by (intro no_wrap_unat) simp
  then show ?thesis using False assms
    by (auto simp: scan_length_def unat_sub_le less_imp_le word_less_nat_alt)
qed

text \<open>The result of \<open>ReadCString\<close> does not depend on what the reader has cached.\<close>

definition cstring_spec :: "VirtualAddressMap \<Rightarrow> addr \<Rightarrow> addr \<Rightarrow> byte list" where
  "cstring_spec m a bufferSize =
     (case vam_find m a of
        Some (L, S, V) \<Rightarrow>
          if has_image V
          then takeWhile (\<lambda>b. b \<noteq> 0)
                 (take (scan_length L a bufferSize) (drop (unat (a + adjustToFileOffset V)) (fileImage m)))
          else []
      | None \<Rightarrow> [])"

lemma cstring_spec_length: "length (cstring_spec m a n) \<le> unat n"
proof -
  have "length (takeWhile P (take (scan_length L a n) xs)) \<le> unat n" for P L and xs :: "byte list"
    using takeWhile_take_le [of P "scan_length L a n" xs] by (simp add: scan_length_def)
  then show ?thesis by (simp add: cstring_spec_def split: option.split)
qed

lemma ReadCString_spec:
  assumes ok: "vam_ok m" and rd: "reader_ok m rd" and r: "ReadCString m rd a n = (rd', r)"
  shows "reader_ok m rd'" "r = Value (cstring_spec m a n)"
proof -
  note inv = vam_okD(1) [OF ok]
  let ?go = "\<lambda>L S V. (\<lparr>rd_image = Some (L - S + adjustToFileOffset V), rd_base = L - S, rd_limit = L\<rparr>,
      reader_strnlen m \<lparr>rd_image = Some (L - S + adjustToFileOffset V), rd_base = L - S, rd_limit = L\<rparr> a
        (scan_length L a n))"
  have hit: "?go L S V = (rd1, Value (cstring_spec m a n)) \<and> reader_ok m rd1"
    if f: "vam_find m a = Some (L, S, V)" "has_image V"
      and rd1: "rd1 = \<lparr>rd_image = Some (L - S + adjustToFileOffset V), rd_base = L - S, rd_limit = L\<rparr>"
    for L S V rd1
  proof -
    note D = rm_find_SomeD [OF inv f(1) [unfolded vam_find_def]]
    have "scan_length L a n \<le> unat L - unat a" by (simp add: scan_length_def)
    note inb = bytes_in_entry [OF ok D(1) f(2) D(2,3) this]
    have "L - S + adjustToFileOffset V + (a - (L - S)) = a + adjustToFileOffset V" by simp
    then show ?thesis using inb f D(1)
      by (auto simp: rd1 reader_strnlen_def file_strnlen_in_file cstring_spec_def reader_ok_def add.commute [of a])
  qed
  have "reader_ok m rd' \<and> r = Value (cstring_spec m a n)"
  proof (cases "rd_base rd > a \<or> rd_limit rd \<le> a")
    case True
    show ?thesis
    proof (cases "vam_find m a")
      case None
      then show ?thesis using r True by (auto simp: ReadCString_def cstring_spec_def)
    next
      case (Some it)
      obtain L S V where it: "it = (L, S, V)" by (cases it)
      note aL = rm_find_SomeD(3) [OF inv, of a L S V]
      show ?thesis
      proof (cases "has_image V")
        case False
        then show ?thesis using r True Some it by (auto simp: ReadCString_def cstring_spec_def GetImage_eq)
      next
        case img: True
        have "a < L" using aL Some it by (simp add: vam_find_def)
        then show ?thesis
          using r True Some it img scan_length_code [of a L n] hit [OF Some [unfolded it] img refl]
          by (auto simp: ReadCString_def GetImage_eq Let_def)
      qed
    qed
  next
    case False
    then have "rd \<noteq> Reader_new" by (auto simp: Reader_new_def)
    then obtain L S V where e: "(L, S, V) \<in> set (rm_map (ranges m))" "has_image V"
        "rd = \<lparr>rd_image = Some (L - S + adjustToFileOffset V), rd_base = L - S, rd_limit = L\<rparr>"
      using rd by (auto simp: reader_ok_def)
    have aL: "L - S \<le> a" "a < L" using False e(3) by auto
    have "vam_find m a = Some (L, S, V)"
      using rm_find_entry [OF inv e(1) aL] by (simp add: vam_find_def)
    from hit [OF this e(2,3)] scan_length_code [OF aL(2), of n] False r e(3) show ?thesis
      by (auto simp: ReadCString_def Let_def)
  qed
  then show "reader_ok m rd'" "r = Value (cstring_spec m a n)" by auto
qed

lemma cstring_spec_bytes:
  assumes ok: "vam_ok m" and i: "i < length (cstring_spec m a n)"
  shows "mem_byte m (a + of_nat i) = Some (cstring_spec m a n ! i)" "cstring_spec m a n ! i \<noteq> 0"
proof -
  note inv = vam_okD(1) [OF ok]
  obtain L S V where f: "vam_find m a = Some (L, S, V)" "has_image V"
      and cs: "cstring_spec m a n = takeWhile (\<lambda>b. b \<noteq> 0)
            (take (scan_length L a n) (drop (unat (a + adjustToFileOffset V)) (fileImage m)))"
    using i by (auto simp: cstring_spec_def split: option.splits if_splits)
  let ?k = "scan_length L a n"
  note D = rm_find_SomeD [OF inv f(1) [unfolded vam_find_def]]
  have k: "unat a + ?k \<le> unat L" "?k < 2 ^ 64"
    using D(3) unsigned_less [where 'a = nat, of L] by (auto simp: scan_length_def word_less_nat_alt)
  have "unat (a + of_nat ?k) = unat a + ?k"
    using k(1) unsigned_less [where 'a = nat, of L] by (intro unat_add_of_nat) simp
  then have "read_spec m a ?k = Some (take ?k (drop (unat (a + adjustToFileOffset V)) (fileImage m)))"
    using f k by (simp add: read_spec_def word_less_nat_alt word_le_nat_alt)
  note bytes = read_spec_bytes [OF ok k(2) this]
  have ik: "i < ?k" using i takeWhile_take_le unfolding cs by (rule less_le_trans)
  have nth: "cstring_spec m a n ! i = take ?k (drop (unat (a + adjustToFileOffset V)) (fileImage m)) ! i"
    using i unfolding cs by (rule takeWhile_nth)
  show "mem_byte m (a + of_nat i) = Some (cstring_spec m a n ! i)"
    using bytes(2) [OF ik] nth by simp
  show "cstring_spec m a n ! i \<noteq> 0"
    using i unfolding cs by (rule takeWhile_nth_holds)
qed


section \<open>Locating an image\<close>

lemma FindMappedMemoryImage_spec:
  assumes ok: "vam_ok m"
  shows "FindMappedMemoryImage m a = (n, img) \<Longrightarrow>
    (case img of
       None \<Rightarrow> n = 0 \<and> mem_byte m a = None
     | Some off \<Rightarrow> 0 < n \<and> off < off + n \<and> unat off + unat n \<le> length (fileImage m) \<and>
         mem_byte m a = Some (fileImage m ! unat off))"
proof -
  note inv = vam_okD(1) [OF ok]
  assume r: "FindMappedMemoryImage m a = (n, img)"
  show ?thesis
  proof (cases "vam_find m a")
    case None
    then have "rm_lookup (ranges m) a = None" using rm_find_None [OF inv] by (simp add: vam_find_def)
    then show ?thesis using r None by (auto simp: FindMappedMemoryImage_def mem_byte_def)
  next
    case (Some it)
    obtain L S V where it: "it = (L, S, V)" by (cases it)
    note D = rm_find_SomeD [OF inv Some [unfolded it vam_find_def]]
    show ?thesis
    proof (cases "has_image V")
      case False
      then show ?thesis using r Some it D(6) by (auto simp: FindMappedMemoryImage_def GetImage_eq mem_byte_def)
    next
      case True
      have "L - S + adjustToFileOffset V + (a - (L - S)) = a + adjustToFileOffset V" by simp
      then have img: "img = Some (a + adjustToFileOffset V)"
        using r Some it True by (auto simp: FindMappedMemoryImage_def GetImage_eq Let_def)
      have n: "n = L - a" using r Some it True by (auto simp: FindMappedMemoryImage_def GetImage_eq Let_def)
      have un: "unat n = unat L - unat a" using D(3) by (simp add: n unat_sub_le less_imp_le)
      then have inb: "unat (a + adjustToFileOffset V) + unat n \<le> length (fileImage m)"
        using bytes_in_entry [OF ok D(1) True D(2,3)] by simp
      have "0 < unat n" using un D(3) by (simp add: word_less_nat_alt)
      moreover have "unat (a + adjustToFileOffset V + n) = unat (a + adjustToFileOffset V) + unat n"
        using unat_add_of_nat [of "a + adjustToFileOffset V" "unat n"] inb vam_okD(2) [OF ok] by simp
      ultimately show ?thesis using img inb D(6) True by (simp add: mem_byte_def word_less_nat_alt)
    qed
  qed
qed

section \<open>Properties\<close>

text \<open>
  C2: the reader is transparent and memory safe.  Over a well-formed map, a read of \<open>n\<close> bytes through
  a reader in any state the reader can be in gives the same result as looking the address up afresh: the
  \<open>n\<close> bytes of the process image at that address when they lie in one range that has an image and the
  read does not wrap, \<open>NotMapped\<close> otherwise.  It never reads outside the file, and the reader's cache
  stays valid.
\<close>

theorem reader_read_refines:
  assumes "vam_ok m" "reader_ok m rd" "0 < n" "n < 2 ^ 64"
  shows "reader_ok m (fst (reader_read m rd a n)) \<and>
         snd (reader_read m rd a n) =
           (case read_spec m a n of Some bs \<Rightarrow> Value bs | None \<Rightarrow> NotMapped a) \<and>
         (\<forall>bs. read_spec m a n = Some bs \<longrightarrow>
            length bs = n \<and> (\<forall>i<n. mem_byte m (a + of_nat i) = Some (bs ! i)))"
  using reader_read_spec [OF assms, of a "fst (reader_read m rd a n)" "snd (reader_read m rd a n)"]
    read_spec_bytes [OF assms(1,4), of a] by simp

definition example_map :: VirtualAddressMap where
  "example_map = AddRange (VirtualAddressMap_new [1, 2, 3, 0, 5, 6]) 0x1000 8 (0 - 0x1000) True True True False False"

lemma addable_example: "addable (VirtualAddressMap_new [1, 2, 3, 0, 5, 6]) 0x1000 8 (0 - 0x1000)"
  by (simp add: addable_def VirtualAddressMap_new_def rs.lookup_new)

lemma example_map_ok: "vam_ok example_map"
  unfolding example_map_def by (rule AddRange_ok [OF vam_ok_new addable_example]) simp

lemma example_map_entries:
  "rm_map (ranges example_map) =
     [(0x1006, 6, \<lparr>adjustToFileOffset = 0 - 0x1000, flags = 0x19\<rparr>),
      (0x1008, 2, \<lparr>adjustToFileOffset = 0 - 0x1000, flags = 0x39\<rparr>)]"
  "fileImage example_map = [1, 2, 3, 0, 5, 6]"
  by (simp_all add: example_map_def AddRange_def VirtualAddressMap_new_def AddRange_flags_def flag_defs
      MapRange_def RangeMapper_new_def sm_lower_bound_def rm_emplace_result_def sm_emplace_def
      rm_next_def sm_upper_bound_def sm_find_def)

theorem reader_read_refines_witness:
  "vam_ok example_map \<and> read_spec example_map 0x1001 4 = Some [2, 3, 0, 5] \<and>
   snd (reader_read example_map Reader_new 0x1001 4) = Value [2, 3, 0, 5] \<and>
   snd (reader_read example_map Reader_new 0x1004 4) = NotMapped 0x1004"
proof -
  have "read_spec example_map 0x1001 4 = Some [2, 3, 0, 5]" "read_spec example_map 0x1004 4 = None"
    by (simp_all add: read_spec_def vam_find_def rm_find_def sm_upper_bound_def example_map_entries
        has_image_def flag_defs)
  then show ?thesis
    using reader_read_refines [OF example_map_ok reader_ok_new, of 4 "0x1001"]
      reader_read_refines [OF example_map_ok reader_ok_new, of 4 "0x1004"] example_map_ok by simp
qed

text \<open>
  \<open>AddRange\<close> splits a range at the end of a truncated core.  For a range that does not wrap (as
  addresses or as file offsets) and overlaps no mapped range, exactly its addresses get the given
  adjustment and flags; an address that should have bytes in the file is marked truncated exactly when
  its offset is at or past the end of the file; no other address changes; and the map stays
  well-formed, so that every address with an image has its byte inside the file.
\<close>

theorem AddRange_refines:
  assumes "vam_ok m" "addable m b s adj"
  shows "vam_ok (AddRange m b s adj mp kp r w x) \<and>
    rm_lookup (ranges (AddRange m b s adj mp kp r w x)) =
      (\<lambda>a. if a \<in> wrange b s then
         Some \<lparr>adjustToFileOffset = adj,
               flags = (if mp \<and> length (fileImage m) \<le> unat (a + adj)
                        then AddRange_flags mp kp r w x OR IS_TRUNCATED else AddRange_flags mp kp r w x)\<rparr>
       else rm_lookup (ranges m) a)"
  using AddRange_ok [OF assms] AddRange_lookup [OF assms] by (auto simp: fun_eq_iff)

theorem AddRange_refines_witness:
  "vam_ok (VirtualAddressMap_new [1, 2, 3, 0, 5, 6]) \<and>
   addable (VirtualAddressMap_new [1, 2, 3, 0, 5, 6]) 0x1000 8 (0 - 0x1000) \<and>
   rm_lookup (ranges example_map) 0x1005 = Some \<lparr>adjustToFileOffset = 0 - 0x1000, flags = 0x19\<rparr> \<and>
   rm_lookup (ranges example_map) 0x1006 = Some \<lparr>adjustToFileOffset = 0 - 0x1000, flags = 0x39\<rparr>"
proof -
  have ok: "vam_ok (VirtualAddressMap_new [1, 2, 3, 0, 5, 6])" by (rule vam_ok_new) simp
  note AddRange_refines [OF ok addable_example, of True True True False False, folded example_map_def]
  then show ?thesis using ok addable_example
    by (simp add: VirtualAddressMap_new_image AddRange_flags_def flag_defs)
qed

text \<open>
  \<open>ReadCString\<close> is safe and transparent.  Over a well-formed map and whatever the reader has
  cached, it returns the bytes of the process image from the address on up to the first null byte, the
  end of the range or the size of the buffer, whichever is first: every byte returned is the image's
  byte at its address and is not null, at most \<open>bufferSize\<close> bytes are written to the buffer, the file is
  never left, and the cache stays valid.
\<close>

theorem ReadCString_refines:
  assumes "vam_ok m" "reader_ok m rd"
  shows "\<exists>bs. ReadCString m rd a bufferSize = (fst (ReadCString m rd a bufferSize), Value bs) \<and>
           reader_ok m (fst (ReadCString m rd a bufferSize)) \<and>
           bs = cstring_spec m a bufferSize \<and> length bs \<le> unat bufferSize \<and>
           (\<forall>i<length bs. mem_byte m (a + of_nat i) = Some (bs ! i) \<and> bs ! i \<noteq> 0)"
proof -
  obtain rd' r where r: "ReadCString m rd a bufferSize = (rd', r)" by (meson surj_pair)
  then show ?thesis
    using ReadCString_spec [OF assms r] cstring_spec_bytes [OF assms(1), of _ a bufferSize] r
      cstring_spec_length by simp
qed

theorem ReadCString_refines_witness:
  "vam_ok example_map \<and> snd (ReadCString example_map Reader_new 0x1001 16) = Value [2, 3] \<and>
   snd (ReadCString example_map Reader_new 0x1004 16) = Value [5, 6]"
proof -
  have "cstring_spec example_map 0x1001 16 = [2, 3]" "cstring_spec example_map 0x1004 16 = [5, 6]"
    by (simp_all add: cstring_spec_def vam_find_def rm_find_def sm_upper_bound_def example_map_entries
        has_image_def flag_defs scan_length_def)
  then show ?thesis
    using ReadCString_refines [OF example_map_ok reader_ok_new, of "0x1001" 16]
      ReadCString_refines [OF example_map_ok reader_ok_new, of "0x1004" 16] example_map_ok
    by (metis snd_conv)
qed

text \<open>
  \<open>FindMappedMemoryImage\<close> returns a pointer at the byte of the requested address together with the
  number of bytes that follow it in the file, all of them inside the file; it returns null and 0 exactly
  for an address without an image.
\<close>

theorem FindMappedMemoryImage_correct:
  assumes "vam_ok m"
  shows "case FindMappedMemoryImage m a of
           (n, None) \<Rightarrow> n = 0 \<and> mem_byte m a = None
         | (n, Some off) \<Rightarrow> 0 < n \<and> unat off + unat n \<le> length (fileImage m) \<and>
             mem_byte m a = Some (fileImage m ! unat off)"
  using FindMappedMemoryImage_spec [OF assms, of a] by (auto split: prod.split option.splits)

theorem FindMappedMemoryImage_correct_witness:
  "vam_ok example_map \<and> FindMappedMemoryImage example_map 0x1002 = (4, Some 2) \<and>
   mem_byte example_map 0x1002 = Some 3"
proof -
  have "FindMappedMemoryImage example_map 0x1002 = (4, Some 2)"
    by (simp add: FindMappedMemoryImage_def vam_find_def rm_find_def sm_upper_bound_def
        example_map_entries GetImage_eq has_image_def flag_defs)
  then show ?thesis
    using FindMappedMemoryImage_correct [OF example_map_ok, of "0x1002"] example_map_ok
    by (simp add: example_map_entries)
qed

text \<open>
  the template \<open>Read<T>\<close> lacks the check of the other reads that the end of the value wraps around
  the address space.  With a range cached, a read of eight bytes at an address whose end wraps passes
  the test of the cache and leaves the file.
\<close>

theorem Read_T_wraps_outside_file:
  "\<exists>rd. reader_ok example_map rd \<and>
        snd (Read_T example_map rd 0xfffffffffffffffc 8) = OutsideFile \<and>
        snd (ReadOffset example_map rd 0xfffffffffffffffc) = NotMapped 0xfffffffffffffffc"
proof -
  let ?rd = "\<lparr>rd_image = Some 0, rd_base = 0x1000, rd_limit = 0x1006\<rparr>"
  have "reader_ok example_map ?rd"
    by (simp add: reader_ok_def example_map_entries has_image_def flag_defs)
  moreover have "snd (Read_T example_map ?rd 0xfffffffffffffffc 8) = OutsideFile"
    by (simp add: Read_T_def reader_locate_def reader_deref_def file_bytes_def example_map_entries)
  moreover have "snd (ReadOffset example_map ?rd 0xfffffffffffffffc) = NotMapped 0xfffffffffffffffc"
    by (simp add: ReadOffset_def reader_read_def)
  ultimately show ?thesis by blast
qed

end
