(* ===== verification/Memory_Partition.thy ===== *)
theory Memory_Partition
  imports Virtual_Address_Map
begin

text \<open>
  The class \<open>VirtualMemoryPartition<uint64_t>\<close> of VirtualMemoryPartition.h: which ranges of the
  process have been claimed by some component (modules, stacks, the heaps of the allocation finders),
  and which are still unclaimed, split by the permissions of the range.  A label is a
  \<open>const char *\<close>; the code compares labels only by pointer, so they are values of an arbitrary type.
\<close>

section \<open>State\<close>

type_synonym 'l claimed_ranges = "(64, 'l) range_mapper"
type_synonym ranges_with_flags = "(64, 32 word) range_mapper"

record 'l VirtualMemoryPartition =
  vp_UNKNOWN :: 'l
  vp_addressMap :: VirtualAddressMap
  claimedRanges :: "'l claimed_ranges"
  claimedWritableRanges :: "'l claimed_ranges"
  claimedRxOnlyRanges :: "'l claimed_ranges"
  claimedReadOnlyRanges :: "'l claimed_ranges"
  claimedInaccessibleRanges :: "'l claimed_ranges"
  unclaimedWritableRanges :: ranges_with_flags
  unclaimedRxOnlyRanges :: ranges_with_flags
  unclaimedReadOnlyRanges :: ranges_with_flags
  unclaimedInaccessibleRanges :: ranges_with_flags
  unclaimedWritableRangesWithImages :: ranges_with_flags
  staticAnchorCandidates :: ranges_with_flags

section \<open>Operations\<close>

definition partition_init :: "'l \<Rightarrow> VirtualAddressMap \<Rightarrow> 'l VirtualMemoryPartition" where
  "partition_init unknown m =
     \<lparr>vp_UNKNOWN = unknown, vp_addressMap = m,
      claimedRanges = RangeMapper_new True,
      claimedWritableRanges = RangeMapper_new False,
      claimedRxOnlyRanges = RangeMapper_new False,
      claimedReadOnlyRanges = RangeMapper_new False,
      claimedInaccessibleRanges = RangeMapper_new False,
      unclaimedWritableRanges = RangeMapper_new True,
      unclaimedRxOnlyRanges = RangeMapper_new True,
      unclaimedReadOnlyRanges = RangeMapper_new True,
      unclaimedInaccessibleRanges = RangeMapper_new True,
      unclaimedWritableRangesWithImages = RangeMapper_new True,
      staticAnchorCandidates = RangeMapper_new True\<rparr>"

text \<open>The body of the constructor's loop over the address map.\<close>

definition partition_add_range ::
  "'l VirtualMemoryPartition \<Rightarrow> vam_iterator \<Rightarrow> 'l VirtualMemoryPartition" where
  "partition_add_range p it =
     (let image = GetImage it; fl = it_Flags it; b = it_Base it; s = it_Size it in
      if fl AND IS_WRITABLE \<noteq> 0 then
        let p1 = p\<lparr>unclaimedWritableRanges := rm_insert (unclaimedWritableRanges p) b s fl\<rparr> in
        if image \<noteq> None then
          p1\<lparr>unclaimedWritableRangesWithImages :=
                rm_insert (unclaimedWritableRangesWithImages p1) b s fl,
             staticAnchorCandidates := rm_insert (staticAnchorCandidates p1) b s fl\<rparr>
        else p1
      else if fl AND IS_EXECUTABLE \<noteq> 0 then
        p\<lparr>unclaimedRxOnlyRanges := rm_insert (unclaimedRxOnlyRanges p) b s fl\<rparr>
      else if fl AND IS_READABLE \<noteq> 0 then
        p\<lparr>unclaimedReadOnlyRanges := rm_insert (unclaimedReadOnlyRanges p) b s fl\<rparr>
      else p\<lparr>unclaimedInaccessibleRanges := rm_insert (unclaimedInaccessibleRanges p) b s fl\<rparr>)"

definition VirtualMemoryPartition_new :: "'l \<Rightarrow> VirtualAddressMap \<Rightarrow> 'l VirtualMemoryPartition" where
  "VirtualMemoryPartition_new unknown m =
     foldl partition_add_range (partition_init unknown m) (vam_iterators m)"

definition ClearStaticAnchorCandidates ::
  "'l VirtualMemoryPartition \<Rightarrow> addr \<Rightarrow> addr \<Rightarrow> 'l VirtualMemoryPartition" where
  "ClearStaticAnchorCandidates p b s =
     p\<lparr>staticAnchorCandidates := UnmapRange (staticAnchorCandidates p) b s\<rparr>"

text \<open>The five-argument form, for a range whose flags are known.  It always returns true.\<close>

definition ClaimRange_flags ::
  "'l VirtualMemoryPartition \<Rightarrow> addr \<Rightarrow> addr \<Rightarrow> 'l \<Rightarrow> 32 word \<Rightarrow> bool \<Rightarrow> 'l VirtualMemoryPartition" where
  "ClaimRange_flags p b s label fl staticAnchorCandidate =
     (if fl AND IS_WRITABLE \<noteq> 0 then
        let p1 = p\<lparr>unclaimedWritableRangesWithImages :=
                      UnmapRange (unclaimedWritableRangesWithImages p) b s\<rparr>;
            p2 = (if \<not> staticAnchorCandidate then ClearStaticAnchorCandidates p1 b s else p1)
        in p2\<lparr>claimedWritableRanges := rm_insert (claimedWritableRanges p2) b s label,
              unclaimedWritableRanges := UnmapRange (unclaimedWritableRanges p2) b s\<rparr>
      else if fl AND IS_EXECUTABLE \<noteq> 0 then
        p\<lparr>claimedRxOnlyRanges := rm_insert (claimedRxOnlyRanges p) b s label,
          unclaimedRxOnlyRanges := UnmapRange (unclaimedRxOnlyRanges p) b s\<rparr>
      else if fl AND IS_READABLE \<noteq> 0 then
        p\<lparr>claimedReadOnlyRanges := rm_insert (claimedReadOnlyRanges p) b s label,
          unclaimedReadOnlyRanges := UnmapRange (unclaimedReadOnlyRanges p) b s\<rparr>
      else
        p\<lparr>claimedInaccessibleRanges := rm_insert (claimedInaccessibleRanges p) b s label,
          unclaimedInaccessibleRanges := UnmapRange (unclaimedInaccessibleRanges p) b s\<rparr>)"

definition ClaimRange ::
  "'l VirtualMemoryPartition \<Rightarrow> addr \<Rightarrow> addr \<Rightarrow> 'l \<Rightarrow> bool \<Rightarrow> 'l VirtualMemoryPartition \<times> bool" where
  "ClaimRange p b s label staticAnchorCandidate =
     (case MapRange (claimedRanges p) b s label of
        (cr, it, inserted) \<Rightarrow>
          if \<not> inserted then (p, False)
          else
            let p1 = p\<lparr>claimedRanges := cr\<rparr>; limit = b + s;
                unmentioned =
                  p1\<lparr>claimedInaccessibleRanges := rm_insert (claimedInaccessibleRanges p1) b s label,
                     unclaimedInaccessibleRanges := UnmapRange (unclaimedInaccessibleRanges p1) b s\<rparr>
            in case vam_upper_bound (vp_addressMap p1) b of
                 None \<Rightarrow> (unmentioned, True)
               | Some it \<Rightarrow>
                   if it_Base it \<ge> limit then (unmentioned, True)
                   else (ClaimRange_flags p1 b s label (it_Flags it) staticAnchorCandidate, True))"

text \<open>One of the four loops of \<open>ClaimUnclaimedRangesAsUnknown\<close>, and the whole operation.\<close>

definition claim_as_unknown :: "'l \<Rightarrow> 'l claimed_ranges \<Rightarrow> ranges_with_flags \<Rightarrow> 'l claimed_ranges" where
  "claim_as_unknown unknown claimed unclaimed =
     foldl (\<lambda>c r. rm_insert c (r_base r) (r_size r) unknown) claimed (rm_ranges unclaimed)"

definition ClaimUnclaimedRangesAsUnknown :: "'l VirtualMemoryPartition \<Rightarrow> 'l VirtualMemoryPartition" where
  "ClaimUnclaimedRangesAsUnknown p =
     p\<lparr>claimedWritableRanges :=
         claim_as_unknown (vp_UNKNOWN p) (claimedWritableRanges p) (unclaimedWritableRanges p),
       unclaimedWritableRanges := rm_clear (unclaimedWritableRanges p),
       claimedRxOnlyRanges :=
         claim_as_unknown (vp_UNKNOWN p) (claimedRxOnlyRanges p) (unclaimedRxOnlyRanges p),
       unclaimedRxOnlyRanges := rm_clear (unclaimedRxOnlyRanges p),
       claimedReadOnlyRanges :=
         claim_as_unknown (vp_UNKNOWN p) (claimedReadOnlyRanges p) (unclaimedReadOnlyRanges p),
       unclaimedReadOnlyRanges := rm_clear (unclaimedReadOnlyRanges p),
       claimedInaccessibleRanges :=
         claim_as_unknown (vp_UNKNOWN p) (claimedInaccessibleRanges p) (unclaimedInaccessibleRanges p),
       unclaimedInaccessibleRanges := rm_clear (unclaimedInaccessibleRanges p)\<rparr>"

definition vp_find :: "'l VirtualMemoryPartition \<Rightarrow> addr \<Rightarrow> (64, 'l) rm_entry option" where
  "vp_find p member = rm_find (claimedRanges p) member"

definition IsClaimed :: "'l VirtualMemoryPartition \<Rightarrow> addr \<Rightarrow> bool" where
  "IsClaimed p address = (rm_find (claimedRanges p) address \<noteq> None)"

section \<open>The four categories\<close>

datatype category = Writable | RxOnly | ReadOnly | Inaccessible

definition category_of :: "32 word \<Rightarrow> category" where
  "category_of fl =
     (if fl AND IS_WRITABLE \<noteq> 0 then Writable else if fl AND IS_EXECUTABLE \<noteq> 0 then RxOnly
      else if fl AND IS_READABLE \<noteq> 0 then ReadOnly else Inaccessible)"

primrec claimed_in :: "'l VirtualMemoryPartition \<Rightarrow> category \<Rightarrow> 'l claimed_ranges" where
  "claimed_in p Writable = claimedWritableRanges p"
| "claimed_in p RxOnly = claimedRxOnlyRanges p"
| "claimed_in p ReadOnly = claimedReadOnlyRanges p"
| "claimed_in p Inaccessible = claimedInaccessibleRanges p"

primrec unclaimed_in :: "'l VirtualMemoryPartition \<Rightarrow> category \<Rightarrow> ranges_with_flags" where
  "unclaimed_in p Writable = unclaimedWritableRanges p"
| "unclaimed_in p RxOnly = unclaimedRxOnlyRanges p"
| "unclaimed_in p ReadOnly = unclaimedReadOnlyRanges p"
| "unclaimed_in p Inaccessible = unclaimedInaccessibleRanges p"

text \<open>The category of a claim: that of the first range of the address map that the claim meets.\<close>

definition claim_category :: "'l VirtualMemoryPartition \<Rightarrow> addr \<Rightarrow> addr \<Rightarrow> category" where
  "claim_category p b s =
     (case vam_upper_bound (vp_addressMap p) b of
        None \<Rightarrow> Inaccessible
      | Some it \<Rightarrow> if it_Base it \<ge> b + s then Inaccessible else category_of (it_Flags it))"

text \<open>
  The invariant of the partition while claims are made: all mappers are well-formed, the claimed
  ranges are exactly those of the four categories, no address is in two of them, and no address is
  both claimed and unclaimed in one category; the writable ranges with images are unclaimed ones.
\<close>

definition partition_inv :: "'l VirtualMemoryPartition \<Rightarrow> bool" where
  "partition_inv p \<longleftrightarrow>
     rm_inv (claimedRanges p) \<and> rm_inv (unclaimedWritableRangesWithImages p) \<and>
     rm_inv (staticAnchorCandidates p) \<and>
     (\<forall>c. rm_inv (claimed_in p c) \<and> rm_inv (unclaimed_in p c) \<and>
        rs.covered (claimed_in p c) \<inter> rs.covered (unclaimed_in p c) = {}) \<and>
     rs.covered (claimedRanges p) = (\<Union>c. rs.covered (claimed_in p c)) \<and>
     (\<forall>c c'. c \<noteq> c' \<longrightarrow> rs.covered (claimed_in p c) \<inter> rs.covered (claimed_in p c') = {}) \<and>
     rs.covered (unclaimedWritableRangesWithImages p) \<subseteq> rs.covered (unclaimedWritableRanges p)"

section \<open>The ranges of a mapper as a list\<close>

fun entry_range :: "('o::len, 'v) rm_entry \<Rightarrow> 'o word \<times> 'o word" where
  "entry_range (L, S, V) = (L - S, S)"

lemma entries_disjoint:
  "rm_wf lo es \<Longrightarrow>
   sorted_wrt (\<lambda>e e'. case entry_range e of (b, s) \<Rightarrow> case entry_range e' of (b', s') \<Rightarrow>
                  wrange b s \<inter> wrange b' s' = {}) es"
proof (induction lo es rule: rm_wf.induct)
  case (2 lo L S V es)
  have "wrange (L - S) S \<inter> wrange (L' - S') S' = {}" if mem: "(L', S', V') \<in> set es" for L' S' V'
  proof -
    obtain xs ys where es: "es = xs @ (L', S', V') # ys" using mem by (meson split_list)
    have "L \<le> last_limit L xs" "last_limit L xs \<le> L' - S'"
      using "2.prems" rm_wf_last_limit [of L xs] by (auto simp: es)
    then show ?thesis by auto
  qed
  then show ?case using 2 by auto
qed simp

lemma entries_no_wrap: "rm_wf lo es \<Longrightarrow> (L, S, V) \<in> set es \<Longrightarrow> L - S \<le> L - S + S"
  using word_sub_le_self [of S L] by (auto dest!: split_list)

lemma entries_lookup_find:
  "entries_lookup es a = map_option (\<lambda>e. snd (snd e)) (find (\<lambda>(L, S, V). L - S \<le> a \<and> a < L) es)"
  by (induction es a rule: entries_lookup.induct) auto

text \<open>
  Inserting the entries of a well-formed mapper that pass a test into a mapper that has none of their
  addresses gives the values of those entries.
\<close>

lemma insert_entries:
  fixes m :: "('o::len, 'w) range_mapper" and f :: "'v \<Rightarrow> 'w" and P :: "'v \<Rightarrow> bool"
  assumes "rm_inv m" "rm_wf lo es" "\<And>a. entries_lookup es a \<noteq> None \<Longrightarrow> rm_lookup m a = None"
  defines "rs' \<equiv> map (\<lambda>(L, S, V). (L - S, S, f V)) (filter (\<lambda>(L, S, V). P V) es)"
  shows "rm_inv (rs.insert_all m rs')"
    and "rm_lookup (rs.insert_all m rs') a =
           (case entries_lookup es a of
              Some v \<Rightarrow> if P v then Some (f v) else rm_lookup m a | None \<Rightarrow> rm_lookup m a)"
proof -
  have free: "\<forall>(b, s, v)\<in>set rs'. b \<le> b + s \<and> wrange b s \<inter> rs.covered m = {}"
  proof (clarify, intro conjI)
    fix b s v assume "(b, s, v) \<in> set rs'"
    then obtain L V where e: "(L, s, V) \<in> set es" "b = L - s"
      by (auto simp: rs'_def)
    show "b \<le> b + s" using entries_no_wrap [OF assms(2) e(1)] by (simp add: e(2))
    show "wrange b s \<inter> rs.covered m = {}"
      using assms(3) entries_lookup_entry [OF assms(2) e(1)] by (force simp: e(2) rs.covered_def)
  qed
  have disj: "sorted_wrt (\<lambda>(b, s, v) (b', s', v'). wrange b s \<inter> wrange b' s' = {}) rs'"
    unfolding rs'_def sorted_wrt_map
    by (rule sorted_wrt_mono_rel [OF _ sorted_wrt_filter [OF entries_disjoint [OF assms(2)]]]) auto
  note out = rs.insert_all_outcome [OF assms(1) free disj]
  show "rm_inv (rs.insert_all m rs')" by (rule out(1))
  have "(case find (\<lambda>(b, s, v). a \<in> wrange b s) rs' of Some (b, s, v) \<Rightarrow> Some v | None \<Rightarrow> rm_lookup m a) =
     (case entries_lookup es a of Some v \<Rightarrow> if P v then Some (f v) else rm_lookup m a | None \<Rightarrow> rm_lookup m a)"
    using assms(2) unfolding rs'_def
  proof (induction lo es rule: rm_wf.induct)
    case (2 lo L S V es)
    have "entries_lookup es a = None" if "a < L"
      using "2.prems" that entries_lookup_below [of L es a] by simp
    moreover have "find (\<lambda>(b, s, v). a \<in> wrange b s)
        (map (\<lambda>(L, S, V). (L - S, S, f V)) (filter (\<lambda>(L, S, V). P V) es)) = None" if "a < L"
    proof -
      have "\<not> a \<in> wrange (L' - S') S'" if "(L', S', V') \<in> set es" for L' S' V'
        using entries_lookup_entry [of L es L' S' V' a] \<open>a < L \<Longrightarrow> entries_lookup es a = None\<close> \<open>a < L\<close>
          "2.prems" that by auto
      then show ?thesis by (auto simp: find_None_iff)
    qed
    ultimately show ?case using 2 by (cases "L - S \<le> a \<and> a < L") auto
  qed simp
  with out(2) show "rm_lookup (rs.insert_all m rs') a =
      (case entries_lookup es a of
         Some v \<Rightarrow> if P v then Some (f v) else rm_lookup m a | None \<Rightarrow> rm_lookup m a)"
    by simp
qed

section \<open>Claims\<close>

lemma ClaimRange_flags_fields:
  "claimed_in (ClaimRange_flags p b s l fl anc) c =
     (if c = category_of fl then rm_insert (claimed_in p c) b s l else claimed_in p c)"
  "unclaimed_in (ClaimRange_flags p b s l fl anc) c =
     (if c = category_of fl then UnmapRange (unclaimed_in p c) b s else unclaimed_in p c)"
  "claimedRanges (ClaimRange_flags p b s l fl anc) = claimedRanges p"
  "vp_addressMap (ClaimRange_flags p b s l fl anc) = vp_addressMap p"
  "unclaimedWritableRangesWithImages (ClaimRange_flags p b s l fl anc) =
     (if category_of fl = Writable then UnmapRange (unclaimedWritableRangesWithImages p) b s
      else unclaimedWritableRangesWithImages p)"
  "staticAnchorCandidates (ClaimRange_flags p b s l fl anc) =
     (if category_of fl = Writable \<and> \<not> anc then UnmapRange (staticAnchorCandidates p) b s
      else staticAnchorCandidates p)"
  by (cases c; simp add: ClaimRange_flags_def category_of_def ClearStaticAnchorCandidates_def Let_def)+

text \<open>What a claim does to every field, in one place.\<close>

lemma ClaimRange_fields:
  assumes "rm_accepts (claimedRanges p) b s l"
  defines "k \<equiv> claim_category p b s"
  obtains p' where "ClaimRange p b s l anc = (p', True)"
    "claimedRanges p' = rm_insert (claimedRanges p) b s l" "vp_addressMap p' = vp_addressMap p"
    "\<And>c. claimed_in p' c = (if c = k then rm_insert (claimed_in p c) b s l else claimed_in p c)"
    "\<And>c. unclaimed_in p' c = (if c = k then UnmapRange (unclaimed_in p c) b s else unclaimed_in p c)"
    "unclaimedWritableRangesWithImages p' =
       (if k = Writable then UnmapRange (unclaimedWritableRangesWithImages p) b s
        else unclaimedWritableRangesWithImages p)"
    "staticAnchorCandidates p' =
       (if k = Writable \<and> \<not> anc then UnmapRange (staticAnchorCandidates p) b s
        else staticAnchorCandidates p)"
proof -
  obtain it where mr: "MapRange (claimedRanges p) b s l = (rm_insert (claimedRanges p) b s l, it, True)"
    using MapRange_unfold [of "claimedRanges p" b s l] assms(1) by auto
  define p1 where "p1 = p\<lparr>claimedRanges := rm_insert (claimedRanges p) b s l\<rparr>"
  define um where "um = p1\<lparr>claimedInaccessibleRanges := rm_insert (claimedInaccessibleRanges p1) b s l,
       unclaimedInaccessibleRanges := UnmapRange (unclaimedInaccessibleRanges p1) b s\<rparr>"
  have in1: "claimed_in p1 c = claimed_in p c" "unclaimed_in p1 c = unclaimed_in p c" for c
    by (cases c; simp add: p1_def)+
  have in2: "claimed_in um c = (if c = Inaccessible then rm_insert (claimed_in p c) b s l else claimed_in p c)"
    "unclaimed_in um c = (if c = Inaccessible then UnmapRange (unclaimed_in p c) b s else unclaimed_in p c)" for c
    by (cases c; simp add: um_def p1_def)+
  have am: "vp_addressMap p1 = vp_addressMap p" by (simp add: p1_def)
  show ?thesis
  proof (cases "vam_upper_bound (vp_addressMap p) b")
    case None
    show ?thesis
      by (rule that [of um])
        (auto simp: ClaimRange_def mr None k_def claim_category_def Let_def um_def [symmetric]
           p1_def [symmetric] in2 am, auto simp: um_def p1_def)
  next
    case (Some it')
    show ?thesis
    proof (cases "it_Base it' \<ge> b + s")
      case True
      show ?thesis
        by (rule that [of um])
          (auto simp: ClaimRange_def mr Some True k_def claim_category_def Let_def um_def [symmetric]
             p1_def [symmetric] in2 am, auto simp: um_def p1_def)
    next
      case False
      have k: "k = category_of (it_Flags it')" using False by (simp add: k_def claim_category_def Some)
      show ?thesis
        by (rule that [of "ClaimRange_flags p1 b s l (it_Flags it') anc"])
          (simp_all add: ClaimRange_def mr Some False k Let_def p1_def [symmetric] am
             ClaimRange_flags_fields in1, simp_all add: p1_def)
    qed
  qed
qed

lemma ClaimRange_rejected:
  "\<not> rm_accepts (claimedRanges p) b s l \<Longrightarrow> ClaimRange p b s l anc = (p, False)"
  using MapRange_unfold [of "claimedRanges p" b s l] by (auto simp: ClaimRange_def)

lemma IsClaimed_covered: "rm_inv (claimedRanges p) \<Longrightarrow> IsClaimed p a \<longleftrightarrow> a \<in> rs.covered (claimedRanges p)"
  by (simp add: IsClaimed_def rm_find_None rs.covered_def)

lemma partition_invD:
  assumes "partition_inv p"
  shows "rm_inv (claimedRanges p)" "rm_inv (claimed_in p c)" "rm_inv (unclaimed_in p c)"
    "rm_inv (unclaimedWritableRangesWithImages p)" "rm_inv (staticAnchorCandidates p)"
    "rs.covered (claimed_in p c) \<inter> rs.covered (unclaimed_in p c) = {}"
    "rs.covered (claimedRanges p) = (\<Union>c. rs.covered (claimed_in p c))"
    "c \<noteq> c' \<Longrightarrow> rs.covered (claimed_in p c) \<inter> rs.covered (claimed_in p c') = {}"
    "rs.covered (unclaimedWritableRangesWithImages p) \<subseteq> rs.covered (unclaimedWritableRanges p)"
  using assms by (simp_all add: partition_inv_def)

lemma accepts_category:
  assumes "partition_inv p" "b \<le> b + s" "rm_accepts (claimedRanges p) b s l"
  shows "rm_accepts (claimed_in p c) b s l"
proof -
  have "wrange b s \<inter> rs.covered (claimedRanges p) = {}"
    using assms by (simp add: rs.accepts_covered partition_invD)
  then show ?thesis
    using assms(2) by (auto simp: rs.accepts_covered partition_invD [OF assms(1)])
qed

text \<open>Moving a range from the unclaimed to the claimed side keeps the two sides disjoint.\<close>

lemma move_range_disjoint:
  assumes "rm_inv c" "rm_inv u" "b \<le> b + s" "rs.covered c \<inter> rs.covered u = {}"
  shows "rs.covered (rm_insert c b s v) \<inter> rs.covered (UnmapRange u b s) = {}"
  using assms(4) unfolding rs.covered_insert [OF assms(1,3)] rs.covered_remove [OF assms(2,3)] by auto

lemma ClaimRange_inv:
  assumes inv: "partition_inv p" and le: "b \<le> b + s"
  shows "partition_inv (fst (ClaimRange p b s l anc))"
proof (cases "rm_accepts (claimedRanges p) b s l")
  case False
  then show ?thesis using inv by (simp add: ClaimRange_rejected)
next
  case True
  define k where "k = claim_category p b s"
  note D = partition_invD [OF inv]
  obtain p' where p': "ClaimRange p b s l anc = (p', True)"
    "claimedRanges p' = rm_insert (claimedRanges p) b s l"
    "\<And>c. claimed_in p' c = (if c = k then rm_insert (claimed_in p c) b s l else claimed_in p c)"
    "\<And>c. unclaimed_in p' c = (if c = k then UnmapRange (unclaimed_in p c) b s else unclaimed_in p c)"
    "unclaimedWritableRangesWithImages p' =
       (if k = Writable then UnmapRange (unclaimedWritableRangesWithImages p) b s
        else unclaimedWritableRangesWithImages p)"
    "staticAnchorCandidates p' =
       (if k = Writable \<and> \<not> anc then UnmapRange (staticAnchorCandidates p) b s
        else staticAnchorCandidates p)"
    using ClaimRange_fields [OF True, of anc thesis] unfolding k_def by blast
  note accs = accepts_category [OF inv le True]
  have cov: "rs.covered (claimed_in p' c) =
      (if c = k then rs.covered (claimed_in p c) \<union> wrange b s else rs.covered (claimed_in p c))"
    "rs.covered (unclaimed_in p' c) =
      (if c = k then rs.covered (unclaimed_in p c) - wrange b s else rs.covered (unclaimed_in p c))" for c
    using D le accs by (simp_all add: p' rs.covered_insert rs.covered_remove)
  have free: "wrange b s \<inter> rs.covered (claimed_in p c) = {}" for c
    using accs [of c] D(2) le by (simp add: rs.accepts_covered)
  have all: "rs.covered (claimedRanges p') = rs.covered (claimedRanges p) \<union> wrange b s"
    using D(1) le True by (simp add: p' rs.covered_insert)
  have W: "unclaimed_in q Writable = unclaimedWritableRanges q" for q :: "'a VirtualMemoryPartition"
    by simp
  have "rm_inv (claimedRanges p')" using D(1) le by (simp add: p' rs.inv_insert)
  moreover have "rm_inv (unclaimedWritableRangesWithImages p')"
    using p'(5) D(4) le by (auto simp: rs.inv_remove split: if_splits)
  moreover have "rm_inv (staticAnchorCandidates p')"
    using p'(6) D(5) le by (auto simp: rs.inv_remove)
  moreover have "rm_inv (claimed_in p' c)" "rm_inv (unclaimed_in p' c)"
    "rs.covered (claimed_in p' c) \<inter> rs.covered (unclaimed_in p' c) = {}" for c
    using D(2,3,6) [of c] le move_range_disjoint [OF D(2) [of k] D(3) [of k] le D(6), of l]
    by (cases "c = k"; simp add: p' rs.inv_insert rs.inv_remove)+
  moreover have "rs.covered (claimedRanges p') = (\<Union>c. rs.covered (claimed_in p' c))"
    unfolding all D(7) cov by auto
  moreover have "rs.covered (claimed_in p' c) \<inter> rs.covered (claimed_in p' c') = {}" if "c \<noteq> c'" for c c'
    using D(8) [OF that] free [of c] free [of c'] that by (auto simp: cov)
  moreover have "rs.covered (unclaimedWritableRangesWithImages p') \<subseteq> rs.covered (unclaimedWritableRanges p')"
    using D(9) p'(5) D(4) le cov(2) [of Writable]
    by (cases "k = Writable") (auto simp: rs.covered_remove)
  ultimately show ?thesis by (simp add: partition_inv_def p'(1))
qed

section \<open>Claiming what is left\<close>

lemma claim_as_unknown_insert_all:
  "claim_as_unknown u c un =
     rs.insert_all c (map (\<lambda>(L, S, V). (L - S, S, u)) (filter (\<lambda>(L, S, V). True) (rm_map un)))"
proof -
  have "foldl (\<lambda>c r. rm_insert c (r_base r) (r_size r) u) c (map RangeIterator_deref es) =
     rs.insert_all c (map (\<lambda>(L, S, V). (L - S, S, u)) es)" for es :: "(64, 32 word) rm_entry list"
    by (induction es arbitrary: c) (auto simp: Range_Set_def)
  moreover have "filter (\<lambda>(L, S, V). True) es = es" for es :: "(64, 32 word) rm_entry list"
    by (induction es) auto
  ultimately show ?thesis by (simp add: claim_as_unknown_def rm_ranges_def)
qed

lemma claim_as_unknown_lookup:
  assumes "rm_inv c" "rm_inv un" "rs.covered c \<inter> rs.covered un = {}"
  shows "rm_inv (claim_as_unknown u c un)"
    and "rm_lookup (claim_as_unknown u c un) a =
           (if rm_lookup un a = None then rm_lookup c a else Some u)"
proof -
  have "rm_wf 0 (rm_map un)" using assms(2) by (simp add: rm_inv_def)
  moreover have "rm_lookup c a = None" if "entries_lookup (rm_map un) a \<noteq> None" for a
    using assms(3) that by (auto simp: rs.covered_def rm_lookup_def)
  ultimately have *: "rm_inv (claim_as_unknown u c un)"
    "rm_lookup (claim_as_unknown u c un) a =
       (case entries_lookup (rm_map un) a of
          Some v \<Rightarrow> if True then Some u else rm_lookup c a | None \<Rightarrow> rm_lookup c a)" for a
    unfolding claim_as_unknown_insert_all
    using insert_entries [OF assms(1), of 0 "rm_map un" "\<lambda>_. u" "\<lambda>_. True"] by auto
  show "rm_inv (claim_as_unknown u c un)" by (rule *)
  show "rm_lookup (claim_as_unknown u c un) a = (if rm_lookup un a = None then rm_lookup c a else Some u)"
    by (simp only: *(2)) (auto simp: rm_lookup_def split: option.split)
qed

lemma ClaimUnclaimed_fields:
  "claimed_in (ClaimUnclaimedRangesAsUnknown p) c =
     claim_as_unknown (vp_UNKNOWN p) (claimed_in p c) (unclaimed_in p c)"
  "unclaimed_in (ClaimUnclaimedRangesAsUnknown p) c = rm_clear (unclaimed_in p c)"
  by (cases c; simp add: ClaimUnclaimedRangesAsUnknown_def)+

section \<open>The constructor\<close>

definition category_ranges :: "(RangeAttributes \<Rightarrow> bool) \<Rightarrow> vam_iterator list \<Rightarrow> (addr \<times> addr \<times> 32 word) list" where
  "category_ranges P its = map (\<lambda>(L, S, V). (L - S, S, flags V)) (filter (\<lambda>(L, S, V). P V) its)"

lemma category_ranges_simps [simp]:
  "category_ranges P [] = []"
  "category_ranges P ((L, S, V) # its) =
     (if P V then (L - S, S, flags V) # category_ranges P its else category_ranges P its)"
  by (simp_all add: category_ranges_def)

lemma partition_fold_fields:
  fixes p :: "'l VirtualMemoryPartition" and its
  defines "q \<equiv> foldl partition_add_range p its"
  shows "unclaimed_in q c = rs.insert_all (unclaimed_in p c) (category_ranges (\<lambda>V. category_of (flags V) = c) its)"
    and "unclaimedWritableRangesWithImages q = rs.insert_all (unclaimedWritableRangesWithImages p)
           (category_ranges (\<lambda>V. category_of (flags V) = Writable \<and> has_image V) its)"
    and "staticAnchorCandidates q = rs.insert_all (staticAnchorCandidates p)
           (category_ranges (\<lambda>V. category_of (flags V) = Writable \<and> has_image V) its)"
    and "claimed_in q c = claimed_in p c" and "claimedRanges q = claimedRanges p"
    and "vp_addressMap q = vp_addressMap p" and "vp_UNKNOWN q = vp_UNKNOWN p"
proof -
  have step: "unclaimed_in (partition_add_range p it) c =
        (if category_of (it_Flags it) = c then rm_insert (unclaimed_in p c) (it_Base it) (it_Size it) (it_Flags it)
         else unclaimed_in p c)"
    "unclaimedWritableRangesWithImages (partition_add_range p it) =
       (if category_of (it_Flags it) = Writable \<and> GetImage it \<noteq> None
        then rm_insert (unclaimedWritableRangesWithImages p) (it_Base it) (it_Size it) (it_Flags it)
        else unclaimedWritableRangesWithImages p)"
    "staticAnchorCandidates (partition_add_range p it) =
       (if category_of (it_Flags it) = Writable \<and> GetImage it \<noteq> None
        then rm_insert (staticAnchorCandidates p) (it_Base it) (it_Size it) (it_Flags it)
        else staticAnchorCandidates p)"
    "claimed_in (partition_add_range p it) c = claimed_in p c"
    "claimedRanges (partition_add_range p it) = claimedRanges p"
    "vp_addressMap (partition_add_range p it) = vp_addressMap p"
    "vp_UNKNOWN (partition_add_range p it) = vp_UNKNOWN p"
    for p :: "'l VirtualMemoryPartition" and it and c
    by (cases c; simp add: partition_add_range_def category_of_def Let_def)+
  have "unclaimed_in q c = rs.insert_all (unclaimed_in p c) (category_ranges (\<lambda>V. category_of (flags V) = c) its) \<and>
    unclaimedWritableRangesWithImages q = rs.insert_all (unclaimedWritableRangesWithImages p)
           (category_ranges (\<lambda>V. category_of (flags V) = Writable \<and> has_image V) its) \<and>
    staticAnchorCandidates q = rs.insert_all (staticAnchorCandidates p)
           (category_ranges (\<lambda>V. category_of (flags V) = Writable \<and> has_image V) its) \<and>
    claimed_in q c = claimed_in p c \<and> claimedRanges q = claimedRanges p \<and>
    vp_addressMap q = vp_addressMap p \<and> vp_UNKNOWN q = vp_UNKNOWN p"
    unfolding q_def by (induction its arbitrary: p) (auto simp: step GetImage_eq)
  then show "unclaimed_in q c = rs.insert_all (unclaimed_in p c) (category_ranges (\<lambda>V. category_of (flags V) = c) its)"
    "unclaimedWritableRangesWithImages q = rs.insert_all (unclaimedWritableRangesWithImages p)
           (category_ranges (\<lambda>V. category_of (flags V) = Writable \<and> has_image V) its)"
    "staticAnchorCandidates q = rs.insert_all (staticAnchorCandidates p)
           (category_ranges (\<lambda>V. category_of (flags V) = Writable \<and> has_image V) its)"
    "claimed_in q c = claimed_in p c" "claimedRanges q = claimedRanges p"
    "vp_addressMap q = vp_addressMap p" "vp_UNKNOWN q = vp_UNKNOWN p"
    by blast+
qed

lemma partition_init_fields [simp]:
  "claimedRanges (partition_init u m) = RangeMapper_new True"
  "claimed_in (partition_init u m) c = RangeMapper_new False"
  "unclaimed_in (partition_init u m) c = RangeMapper_new True"
  "unclaimedWritableRangesWithImages (partition_init u m) = RangeMapper_new True"
  "staticAnchorCandidates (partition_init u m) = RangeMapper_new True"
  "vp_addressMap (partition_init u m) = m"
  by (cases c; simp add: partition_init_def)+

lemma category_store:
  assumes "rm_inv (ranges m)"
  shows "rm_inv (rs.insert_all (RangeMapper_new k) (category_ranges P (vam_iterators m)))"
    and "rm_lookup (rs.insert_all (RangeMapper_new k) (category_ranges P (vam_iterators m))) a =
           (case rm_lookup (ranges m) a of
              Some V \<Rightarrow> if P V then Some (flags V) else None | None \<Rightarrow> None)"
  using insert_entries [of "RangeMapper_new k" 0 "rm_map (ranges m)" flags P] assms
  by (simp_all add: category_ranges_def vam_iterators_def rs.inv_new rs.lookup_new rm_inv_def [of "ranges m"]
      rm_lookup_def [of "ranges m"] split: option.split)

lemmas partition_new_fields =
  partition_fold_fields [where p = "partition_init u m" and its = "vam_iterators m" for u m,
    folded VirtualMemoryPartition_new_def]

lemma VirtualMemoryPartition_new_inv:
  assumes "rm_inv (ranges m)"
  shows "partition_inv (VirtualMemoryPartition_new u m)"
proof -
  let ?p = "VirtualMemoryPartition_new u m"
  note F = partition_new_fields [where u = u and m = m] and S = category_store [OF assms]
  have W: "unclaimedWritableRanges ?p = unclaimed_in ?p Writable" by simp
  have "rs.covered (unclaimedWritableRangesWithImages ?p) \<subseteq> rs.covered (unclaimedWritableRanges ?p)"
    unfolding rs.covered_def W
    by (simp only: F partition_init_fields S) (auto split: option.splits if_splits)
  then show "partition_inv ?p"
    unfolding partition_inv_def by (simp add: F S rs.inv_new rs.covered_new)
qed

section \<open>Properties\<close>

text \<open>
  The constructor builds the partition from the address map: every mapper is well-formed and the
  partition invariant holds, nothing is claimed, the unclaimed ranges of each category are exactly the
  mapped ranges whose flags put them there, each with its flags, and the candidates for static anchors
  are exactly the writable ranges whose bytes are in the core.
\<close>

theorem VirtualMemoryPartition_new_correct:
  assumes "rm_inv (ranges m)"
  shows "partition_inv (VirtualMemoryPartition_new u m) \<and>
         \<not> IsClaimed (VirtualMemoryPartition_new u m) a \<and>
         rm_lookup (unclaimed_in (VirtualMemoryPartition_new u m) c) a =
           (case rm_lookup (ranges m) a of
              Some V \<Rightarrow> if category_of (flags V) = c then Some (flags V) else None | None \<Rightarrow> None) \<and>
         rm_lookup (staticAnchorCandidates (VirtualMemoryPartition_new u m)) a =
           (case rm_lookup (ranges m) a of
              Some V \<Rightarrow> if category_of (flags V) = Writable \<and> has_image V then Some (flags V) else None
            | None \<Rightarrow> None)"
proof (intro conjI)
  let ?p = "VirtualMemoryPartition_new u m"
  note F = partition_new_fields [where u = u and m = m] and S = category_store [OF assms]
  show "rm_lookup (unclaimed_in ?p c) a =
           (case rm_lookup (ranges m) a of
              Some V \<Rightarrow> if category_of (flags V) = c then Some (flags V) else None | None \<Rightarrow> None)"
    by (simp only: F partition_init_fields S)
  show "rm_lookup (staticAnchorCandidates ?p) a =
           (case rm_lookup (ranges m) a of
              Some V \<Rightarrow> if category_of (flags V) = Writable \<and> has_image V then Some (flags V) else None
            | None \<Rightarrow> None)"
    by (simp only: F partition_init_fields S)
  show "\<not> IsClaimed ?p a"
    by (simp add: IsClaimed_def F rm_find_None rs.inv_new rs.lookup_new)
  show "partition_inv ?p" by (rule VirtualMemoryPartition_new_inv [OF assms])
qed

theorem VirtualMemoryPartition_new_correct_witness:
  "rm_inv (ranges example_map) \<and>
   rm_lookup (unclaimed_in (VirtualMemoryPartition_new (0::nat) example_map) ReadOnly) 0x1003 = Some 0x19"
proof -
  have inv: "rm_inv (ranges example_map)" using example_map_ok by (simp add: vam_ok_def)
  have "rm_lookup (ranges example_map) 0x1003 = Some \<lparr>adjustToFileOffset = 0 - 0x1000, flags = 0x19\<rparr>"
    by (simp add: rm_lookup_def example_map_entries)
  then show ?thesis
    using VirtualMemoryPartition_new_correct [OF inv, where u = "0::nat" and a = "0x1003" and c = ReadOnly] inv
    by (simp add: category_of_def flag_defs del: unclaimed_in.simps)
qed

text \<open>
  C3: \<open>ClaimRange\<close> claims a range exactly when none of its addresses is claimed; otherwise it reports
  failure and changes nothing.  A successful claim records the label for every address of the range, in
  the claimed ranges and in the claimed ranges of the category of the first mapped range it meets
  (inaccessible where it meets none), removes the range from the unclaimed ranges of that category and
  from no other, and keeps the invariant of the partition; a writable range stays a candidate for static
  anchors only if the caller says so.
\<close>

theorem ClaimRange_refines:
  assumes "partition_inv p" "b \<le> b + s"
  defines "k \<equiv> claim_category p b s"
  shows "case ClaimRange p b s l anc of (p', ok) \<Rightarrow>
           partition_inv p' \<and>
           ok = (\<forall>a\<in>wrange b s. \<not> IsClaimed p a) \<and>
           (\<not> ok \<longrightarrow> p' = p) \<and>
           (ok \<longrightarrow>
              (\<forall>a. rm_lookup (claimedRanges p') a =
                     (if a \<in> wrange b s then Some l else rm_lookup (claimedRanges p) a)) \<and>
              (\<forall>c a. rm_lookup (claimed_in p' c) a =
                     (if c = k \<and> a \<in> wrange b s then Some l else rm_lookup (claimed_in p c) a)) \<and>
              (\<forall>c a. rm_lookup (unclaimed_in p' c) a =
                     (if c = k \<and> a \<in> wrange b s then None else rm_lookup (unclaimed_in p c) a)) \<and>
              (\<forall>a. rm_lookup (staticAnchorCandidates p') a =
                     (if k = Writable \<and> \<not> anc \<and> a \<in> wrange b s then None
                      else rm_lookup (staticAnchorCandidates p) a)))"
proof -
  note D = partition_invD [OF assms(1)] and inv' = ClaimRange_inv [OF assms(1,2), of l anc]
  have ok: "rm_accepts (claimedRanges p) b s l \<longleftrightarrow> (\<forall>a\<in>wrange b s. \<not> IsClaimed p a)"
    using D(1) assms(2) by (auto simp: rs.accepts_iff IsClaimed_def rm_find_None)
  show ?thesis
  proof (cases "rm_accepts (claimedRanges p) b s l")
    case False
    then show ?thesis using assms(1) ok by (simp add: ClaimRange_rejected)
  next
    case True
    note acc = accepts_category [OF assms(1,2) True]
    show ?thesis
      by (rule ClaimRange_fields [OF True, of anc])
        (use inv' ok True acc in \<open>auto simp: k_def rs.lookup_insert rs.lookup_remove D assms(2)
           simp del: claimed_in.simps unclaimed_in.simps\<close>)
  qed
qed

theorem ClaimRange_refines_witness:
  "partition_inv (VirtualMemoryPartition_new (0::nat) example_map) \<and> (0x1000::addr) \<le> 0x1000 + 8 \<and>
   snd (ClaimRange (VirtualMemoryPartition_new (0::nat) example_map) 0x1000 8 7 False)"
proof -
  let ?p = "VirtualMemoryPartition_new (0::nat) example_map"
  have inv: "partition_inv ?p"
    by (rule VirtualMemoryPartition_new_inv) (use example_map_ok in \<open>simp add: vam_ok_def\<close>)
  have le: "(0x1000::addr) \<le> 0x1000 + 8" by simp
  have "\<not> IsClaimed ?p a" for a
    by (simp add: IsClaimed_def partition_new_fields rm_find_None rs.inv_new rs.lookup_new)
  moreover obtain p' ok where "ClaimRange ?p 0x1000 8 7 False = (p', ok)" by fastforce
  ultimately show ?thesis
    using ClaimRange_refines [OF inv le, of 7 False] inv by simp
qed

text \<open>
  \<open>ClaimUnclaimedRangesAsUnknown\<close> leaves nothing unclaimed: every address that was unclaimed in a
  category is afterwards claimed there with the label for unknown ranges, every address that was claimed
  keeps its label, and no category gains or loses any other address.
\<close>

theorem ClaimUnclaimed_complete:
  assumes "partition_inv p"
  defines "p' \<equiv> ClaimUnclaimedRangesAsUnknown p"
  shows "rm_inv (claimed_in p' c) \<and> rm_inv (unclaimed_in p' c) \<and>
         rm_lookup (unclaimed_in p' c) a = None \<and>
         rm_lookup (claimed_in p' c) a =
           (if rm_lookup (unclaimed_in p c) a = None then rm_lookup (claimed_in p c) a
            else Some (vp_UNKNOWN p))"
  using claim_as_unknown_lookup [OF partition_invD(2) [OF assms(1), of c] partition_invD(3) [OF assms(1), of c]
      partition_invD(6) [OF assms(1), of c], where u = "vp_UNKNOWN p"]
  by (simp add: p'_def ClaimUnclaimed_fields) (simp add: rm_clear_def rm_inv_def rm_lookup_def)

theorem ClaimUnclaimed_complete_witness:
  "partition_inv (VirtualMemoryPartition_new (0::nat) example_map) \<and>
   rm_lookup (unclaimed_in (ClaimUnclaimedRangesAsUnknown (VirtualMemoryPartition_new (0::nat) example_map)) Writable)
     0x1000 = None"
proof -
  have inv: "partition_inv (VirtualMemoryPartition_new (0::nat) example_map)"
    by (rule VirtualMemoryPartition_new_inv) (use example_map_ok in \<open>simp add: vam_ok_def\<close>)
  show ?thesis using ClaimUnclaimed_complete [OF inv, of Writable "0x1000"] inv by simp
qed

end
