(* ===== verification/Index_Set.thy ===== *)
theory Index_Set
  imports Chap_Prelude
begin

text \<open>
  The class \<open>Allocations::Set\<close> of Allocations/Set.h: a set of allocation indices as a bit set of
  64-bit words.  Indices are natural numbers; the code's are \<open>uint32_t\<close>, and the two agree as long as
  \<open>numAllocations + 63\<close> fits into 32 bits.  An access outside the array of words, which C++ leaves
  undefined, is \<open>None\<close>.
\<close>

section \<open>State and operations\<close>

unbundle bit_operations_syntax

record AllocSet =
  set_numAllocations :: nat
  set_numU64 :: nat
  set_numU8 :: nat
  asU64 :: "64 word list"

definition Set_new :: "nat \<Rightarrow> AllocSet" where
  "Set_new numAllocations =
     (let numU64 = (numAllocations + 63) div 64 in
      \<lparr>set_numAllocations = numAllocations, set_numU64 = numU64, set_numU8 = numU64 * 8,
       asU64 = replicate numU64 0\<rparr>)"

definition Set_Clear :: "AllocSet \<Rightarrow> AllocSet" where
  "Set_Clear s = s\<lparr>asU64 := replicate (set_numU8 s div 8) 0 @ drop (set_numU8 s div 8) (asU64 s)\<rparr>"

definition Set_Add :: "AllocSet \<Rightarrow> nat \<Rightarrow> AllocSet option" where
  "Set_Add s index =
     (let k = index div 64 in
      if k < length (asU64 s)
      then Some (s\<lparr>asU64 := (asU64 s)[k := (asU64 s ! k) OR push_bit (index mod 64) 1]\<rparr>)
      else None)"

definition Set_Has :: "AllocSet \<Rightarrow> nat \<Rightarrow> bool option" where
  "Set_Has s index =
     (let k = index div 64 in
      if k < length (asU64 s) then Some ((asU64 s ! k) AND push_bit (index mod 64) 1 \<noteq> 0) else None)"

text \<open>The \<open>do\<close> loop of \<open>NextUsed\<close>: the next word that is not 0, \<open>Some None\<close> for an early return.\<close>

function NextUsed_word :: "AllocSet \<Rightarrow> nat \<Rightarrow> (nat \<times> 64 word) option option" where
  "NextUsed_word s u64Index =
     (let k = u64Index + 1 in
      if k = set_numU64 s then Some None
      else if k < length (asU64 s) then
        (if asU64 s ! k = 0 then NextUsed_word s k else Some (Some (k, asU64 s ! k)))
      else None)"
  by auto
termination
  by (relation "measure (\<lambda>(s, k). length (asU64 s) - k)") auto

declare NextUsed_word.simps [simp del]

text \<open>The \<open>while\<close> loop of \<open>NextUsed\<close>: it does not end for the word 0.\<close>

partial_function (option) NextUsed_bit :: "64 word \<Rightarrow> nat \<Rightarrow> nat option" where
  "NextUsed_bit u64 retVal =
     (if u64 AND 1 = 0 then NextUsed_bit (drop_bit 1 u64) (retVal + 1) else Some retVal)"

definition NextUsed :: "AllocSet \<Rightarrow> nat \<Rightarrow> nat option" where
  "NextUsed s startFrom =
     (let u64Index = startFrom div 64 in
      if u64Index < length (asU64 s) then
        let u64 = drop_bit (startFrom mod 64) (asU64 s ! u64Index) in
        if u64 \<noteq> 0 then NextUsed_bit u64 startFrom
        else case NextUsed_word s u64Index of
               None \<Rightarrow> None
             | Some None \<Rightarrow> Some (set_numAllocations s)
             | Some (Some (k, w)) \<Rightarrow> NextUsed_bit w (k * 64)
      else None)"

text \<open>
  \<open>Assign\<close> and \<open>Subtract\<close> read and write as many words as this set has.
\<close>

definition Set_Assign :: "AllocSet \<Rightarrow> AllocSet \<Rightarrow> AllocSet option" where
  "Set_Assign s other =
     (let n = set_numU64 s in
      if n \<le> length (asU64 s) \<and> n \<le> length (asU64 other)
      then Some (s\<lparr>asU64 := take n (asU64 other) @ drop n (asU64 s)\<rparr>) else None)"

definition Set_Subtract :: "AllocSet \<Rightarrow> AllocSet \<Rightarrow> AllocSet option" where
  "Set_Subtract s other =
     (let n = set_numU64 s in
      if n \<le> length (asU64 s) \<and> n \<le> length (asU64 other)
      then Some (s\<lparr>asU64 := map2 (\<lambda>to from. to AND NOT from) (take n (asU64 s)) (take n (asU64 other))
                            @ drop n (asU64 s)\<rparr>)
      else None)"

section \<open>Invariant and abstraction\<close>

definition set_ok :: "AllocSet \<Rightarrow> bool" where
  "set_ok s \<longleftrightarrow> set_numU64 s = (set_numAllocations s + 63) div 64 \<and> set_numU8 s = set_numU64 s * 8 \<and>
     length (asU64 s) = set_numU64 s"

definition members :: "AllocSet \<Rightarrow> nat set" where
  "members s = {i. i < 64 * length (asU64 s) \<and> bit (asU64 s ! (i div 64)) (i mod 64)}"

lemma div_less_words: "i div 64 < n \<longleftrightarrow> i < 64 * n" for i :: nat
  by (simp add: div_less_iff_less_mult mult.commute)

lemma set_ok_new: "set_ok (Set_new n)"
  by (simp add: set_ok_def Set_new_def Let_def)

lemma members_new: "members (Set_new n) = {}"
  by (auto simp: members_def Set_new_def Let_def div_less_words [symmetric])

lemma set_ok_bound:
  assumes "set_ok s" "i < set_numAllocations s"
  shows "i < 64 * length (asU64 s)"
  using assms by (auto simp: set_ok_def)

lemma Set_Clear_members: "set_ok s \<Longrightarrow> set_ok (Set_Clear s) \<and> members (Set_Clear s) = {}"
  by (auto simp: set_ok_def members_def Set_Clear_def div_less_words [symmetric])

lemma Set_Has_members:
  "i < 64 * length (asU64 s) \<Longrightarrow> Set_Has s i = Some (i \<in> members s)"
  by (simp add: Set_Has_def Let_def members_def div_less_words bit_AND_exp)

lemma Set_Add_members:
  assumes "set_ok s" "i < 64 * length (asU64 s)"
  obtains s' where "Set_Add s i = Some s'" "set_ok s'" "members s' = insert i (members s)"
    "set_numAllocations s' = set_numAllocations s"
proof -
  let ?s = "s\<lparr>asU64 := (asU64 s)[i div 64 := (asU64 s ! (i div 64)) OR push_bit (i mod 64) 1]\<rparr>"
  have "Set_Add s i = Some ?s" using assms(2) by (simp add: Set_Add_def Let_def div_less_words)
  moreover have "set_ok ?s" using assms(1) by (simp add: set_ok_def)
  moreover have "members ?s = insert i (members s)"
  proof -
    have "bit ((asU64 s)[i div 64 := (asU64 s ! (i div 64)) OR push_bit (i mod 64) 1] ! (j div 64)) (j mod 64)
        \<longleftrightarrow> j = i \<or> bit (asU64 s ! (j div 64)) (j mod 64)" if "j < 64 * length (asU64 s)" for j
    proof (cases "j div 64 = i div 64")
      case True
      have "j = i \<longleftrightarrow> j mod 64 = i mod 64"
        using True by (metis div_mult_mod_eq)
      moreover have "i div 64 < length (asU64 s)" using assms(2) by (simp add: div_less_words)
      ultimately show ?thesis by (auto simp: True bit_simps)
    qed (auto simp: nth_list_update)
    then show ?thesis using assms(2) by (auto simp: members_def)
  qed
  ultimately show ?thesis using that by simp
qed

lemma Set_Assign_members:
  assumes "set_ok s" "set_ok t" "set_numAllocations t = set_numAllocations s"
  obtains s' where "Set_Assign s t = Some s'" "set_ok s'" "members s' = members t"
proof -
  have "length (asU64 t) = set_numU64 s" "length (asU64 s) = set_numU64 s"
    using assms by (simp_all add: set_ok_def)
  then have "Set_Assign s t = Some (s\<lparr>asU64 := asU64 t\<rparr>)"
    by (simp add: Set_Assign_def Let_def)
  moreover have "set_ok (s\<lparr>asU64 := asU64 t\<rparr>)" using assms by (simp add: set_ok_def)
  ultimately show ?thesis using that by (simp add: members_def)
qed

lemma Set_Subtract_members:
  assumes "set_ok s" "set_ok t" "set_numAllocations t = set_numAllocations s"
  obtains s' where "Set_Subtract s t = Some s'" "set_ok s'" "members s' = members s - members t"
proof -
  let ?ws = "map2 (\<lambda>to from. to AND NOT from) (asU64 s) (asU64 t)"
  have len: "length (asU64 t) = set_numU64 s" "length (asU64 s) = set_numU64 s"
    using assms by (simp_all add: set_ok_def)
  then have "Set_Subtract s t = Some (s\<lparr>asU64 := ?ws\<rparr>)"
    by (simp add: Set_Subtract_def Let_def)
  moreover have "set_ok (s\<lparr>asU64 := ?ws\<rparr>)" using assms(1) len by (simp add: set_ok_def)
  moreover have "bit (?ws ! (i div 64)) (i mod 64) \<longleftrightarrow>
      bit (asU64 s ! (i div 64)) (i mod 64) \<and> \<not> bit (asU64 t ! (i div 64)) (i mod 64)"
    if "i < 64 * set_numU64 s" for i
    using that len by (simp add: div_less_words bit_simps)
  then have "members (s\<lparr>asU64 := ?ws\<rparr>) = members s - members t"
    using len by (auto simp: members_def)
  ultimately show ?thesis using that by simp
qed

section \<open>The next member\<close>

lemma NextUsed_bit_lowest:
  assumes "bit w k" "\<forall>j<k. \<not> bit w j" "k < 64"
  shows "NextUsed_bit w r = Some (r + k)"
  using assms
proof (induction k arbitrary: w r)
  case 0
  then have "w AND 1 \<noteq> 0" using bit_AND_exp [of 0 w] by simp
  then show ?case by (simp add: NextUsed_bit.simps)
next
  case (Suc k)
  have "w AND 1 = 0" using bit_AND_exp [of 0 w] Suc.prems(2) by simp
  moreover have "NextUsed_bit (drop_bit 1 w) (r + 1) = Some (r + 1 + k)"
    using Suc.prems by (intro Suc.IH) (auto simp: bit_drop_bit_eq)
  ultimately show ?case by (subst NextUsed_bit.simps) simp
qed

lemma word_lowest_bit:
  fixes w :: "64 word"
  assumes "w \<noteq> 0"
  obtains k where "k < 64" "bit w k" "\<forall>j<k. \<not> bit w j"
proof -
  have "\<exists>n. bit w n" using assms by (auto simp: bit_eq_iff)
  then have "bit w (LEAST n. bit w n)" by (rule LeastI_ex)
  moreover have "(LEAST n. bit w n) < 64" using bit_imp_le_length [OF calculation] by simp
  ultimately show ?thesis using that [of "LEAST n. bit w n"] not_less_Least by blast
qed

lemma NextUsed_word_cases:
  assumes "set_numU64 s = length (asU64 s)" "idx < length (asU64 s)"
  obtains (none) "NextUsed_word s idx = Some None" "\<forall>j. idx < j \<and> j < length (asU64 s) \<longrightarrow> asU64 s ! j = 0"
  | (word) k where "NextUsed_word s idx = Some (Some (k, asU64 s ! k))" "idx < k" "k < length (asU64 s)"
      "asU64 s ! k \<noteq> 0" "\<forall>j. idx < j \<and> j < k \<longrightarrow> asU64 s ! j = 0"
proof -
  have "(NextUsed_word s idx = Some None \<and> (\<forall>j. idx < j \<and> j < length (asU64 s) \<longrightarrow> asU64 s ! j = 0)) \<or>
    (\<exists>k. NextUsed_word s idx = Some (Some (k, asU64 s ! k)) \<and> idx < k \<and> k < length (asU64 s) \<and>
       asU64 s ! k \<noteq> 0 \<and> (\<forall>j. idx < j \<and> j < k \<longrightarrow> asU64 s ! j = 0))"
    using assms
  proof (induction s idx rule: NextUsed_word.induct)
    case (1 s idx)
    show ?case
    proof (cases "idx + 1 = set_numU64 s")
      case True
      then show ?thesis using "1.prems" by (auto simp: NextUsed_word.simps [of s idx])
    next
      case False
      then have lt: "idx + 1 < length (asU64 s)" using "1.prems" by simp
      show ?thesis
      proof (cases "asU64 s ! (idx + 1) = 0")
        case True
        have zero: "asU64 s ! j = 0" if "j = Suc idx" for j using True that by simp
        note less = Suc_lessI [of idx]
        show ?thesis
          using "1.IH" [OF refl False lt True "1.prems"(1) lt] False lt True "1.prems"(1) zero less
          unfolding NextUsed_word.simps [of s idx] by (auto simp: Let_def) (metis Suc_lessI)+
      next
        case nz: False
        then show ?thesis
          using False lt "1.prems"(1) by (auto simp: NextUsed_word.simps [of s idx] Let_def)
      qed
    qed
  qed
  then show ?thesis using none word by blast
qed

text \<open>The least member from an index on, if there is one.\<close>

definition next_member :: "AllocSet \<Rightarrow> nat \<Rightarrow> nat \<Rightarrow> bool" where
  "next_member s start r \<longleftrightarrow> r \<in> members s \<and> start \<le> r \<and> (\<forall>i\<in>members s. start \<le> i \<longrightarrow> r \<le> i)"

lemma members_word: "i \<in> members s \<Longrightarrow> asU64 s ! (i div 64) \<noteq> 0"
  by (auto simp: members_def)

lemma div_mod_offset:
  fixes n :: nat
  assumes "n mod 64 + k < 64"
  shows "(n + k) div 64 = n div 64" "(n + k) mod 64 = n mod 64 + k"
proof -
  have "n + k = 64 * (n div 64) + (n mod 64 + k)" by simp
  then show "(n + k) div 64 = n div 64" "(n + k) mod 64 = n mod 64 + k"
    using assms by (metis div_mult_self4 div_less add_0 zero_neq_numeral add.right_neutral,
      metis mod_mult_self4 mod_less)
qed

lemma NextUsed_spec:
  assumes ok: "set_ok s" and start: "start < 64 * length (asU64 s)"
  shows "(\<exists>r. NextUsed s start = Some r \<and> next_member s start r) \<or>
         (NextUsed s start = Some (set_numAllocations s) \<and> (\<forall>i\<in>members s. i < start))"
proof -
  define q where "q = start div 64"
  define u where "u = drop_bit (start mod 64) (asU64 s ! q)"
  have len: "set_numU64 s = length (asU64 s)" using ok by (simp add: set_ok_def)
  have q: "q < length (asU64 s)" using start by (simp add: q_def div_less_words)
  have bit_u: "bit u k \<longleftrightarrow> bit (asU64 s ! q) (start mod 64 + k)" for k
    by (simp add: u_def bit_drop_bit_eq)
  have split: "start = 64 * q + start mod 64" by (simp add: q_def)
  show ?thesis
  proof (cases "u = 0")
    case False
    obtain k where k: "k < 64" "bit u k" "\<forall>j<k. \<not> bit u j" using word_lowest_bit [OF False] .
    have small: "start mod 64 + k < 64"
      using k(2) bit_imp_le_length [of "asU64 s ! q" "start mod 64 + k"] by (simp add: bit_u)
    have "(start + k) div 64 = q" "(start + k) mod 64 = start mod 64 + k"
      using div_mod_offset [OF small] by (simp_all add: q_def)
    then have "start + k \<in> members s"
      using k(2) q by (simp add: members_def bit_u div_less_words [symmetric])
    moreover have "start + k \<le> i" if i: "i \<in> members s" "start \<le> i" for i
    proof (rule ccontr)
      assume "\<not> start + k \<le> i"
      then have "i = start + (i - start)" "i - start < k" using i(2) by auto
      moreover from this have "(start + (i - start)) div 64 = q" "(start + (i - start)) mod 64 = start mod 64 + (i - start)"
        using div_mod_offset [of start "i - start"] small by (simp_all add: q_def)
      ultimately show False using i(1) k(3) by (metis (no_types, lifting) bit_u mem_Collect_eq members_def)
    qed
    moreover have "NextUsed s start = Some (start + k)"
      using NextUsed_bit_lowest [OF k(2,3,1)] q False by (simp add: NextUsed_def q_def u_def Let_def)
    ultimately show ?thesis by (auto simp: next_member_def)
  next
    case True
    have later: "q < i div 64" if "i \<in> members s" "start \<le> i" for i
    proof (rule ccontr)
      assume "\<not> q < i div 64"
      moreover have "q \<le> i div 64" using that(2) by (simp add: q_def div_le_mono)
      ultimately have *: "i div 64 = q" by simp
      then have "start mod 64 \<le> i mod 64" using that(2) by (metis add_le_cancel_left q_def div_mult_mod_eq)
      then have "bit u (i mod 64 - start mod 64)" using that(1) * by (simp add: bit_u members_def)
      then show False using True by simp
    qed
    from len q show ?thesis
    proof (cases rule: NextUsed_word_cases)
      case none
      have "i < start" if "i \<in> members s" for i
      proof (rule ccontr)
        assume "\<not> i < start"
        then have "q < i div 64" using later [OF that] by simp
        moreover have "i div 64 < length (asU64 s)" using that by (simp add: members_def div_less_words)
        ultimately show False using none(2) members_word [OF that] by simp
      qed
      moreover have "NextUsed s start = Some (set_numAllocations s)"
        using none q True by (simp add: NextUsed_def q_def u_def Let_def)
      ultimately show ?thesis by blast
    next
      case (word k)
      obtain b where b: "b < 64" "bit (asU64 s ! k) b" "\<forall>j<b. \<not> bit (asU64 s ! k) j"
        using word_lowest_bit [OF word(4)] .
      have ev: "NextUsed s start = Some (k * 64 + b)"
        using word(1) q True NextUsed_bit_lowest [OF b(2,3,1)] by (simp add: NextUsed_def q_def u_def Let_def)
      have mem: "k * 64 + b \<in> members s"
        using b(1,2) word(3) by (simp add: members_def div_less_words [symmetric])
      have "start < 64 * (q + 1)" using div_less_words [of start "q + 1"] by (simp add: q_def)
      moreover have "64 * (q + 1) \<le> 64 * k" using word(2) by simp
      ultimately have "start \<le> k * 64 + b" by linarith
      moreover have "k * 64 + b \<le> i" if "i \<in> members s" "start \<le> i" for i
      proof -
        have "k \<le> i div 64"
        proof (rule ccontr)
          assume "\<not> k \<le> i div 64"
          then show False using later [OF that] word(5) members_word [OF that(1)] by simp
        qed
        moreover have "b \<le> i mod 64" if "i div 64 = k"
        proof (rule ccontr)
          assume "\<not> b \<le> i mod 64"
          then have "\<not> bit (asU64 s ! k) (i mod 64)" using b(3) by simp
          then show False using \<open>i \<in> members s\<close> that by (simp add: members_def)
        qed
        moreover have "i = i div 64 * 64 + i mod 64" by (simp only: div_mult_mod_eq)
        moreover have "k * 64 + 64 \<le> i div 64 * 64" if "k < i div 64" using that by simp
        ultimately show ?thesis using b(1) by linarith
      qed
      ultimately show ?thesis using ev mem by (auto simp: next_member_def)
    qed
  qed
qed

section \<open>The iterator over the derived set\<close>

text \<open>
  \<open>Iterators::Derived\<close> of Allocations/Iterators/Derived.h walks a set with \<open>NextUsed\<close>; it returns the
  number of allocations at the end.
\<close>

record Derived =
  dv_index :: nat
  dv_numAllocations :: nat
  dv_derived :: AllocSet

definition Derived_new :: "nat \<Rightarrow> AllocSet \<Rightarrow> Derived" where
  "Derived_new numAllocations derived =
     \<lparr>dv_index = 0, dv_numAllocations = numAllocations, dv_derived = derived\<rparr>"

definition Derived_Next :: "Derived \<Rightarrow> (Derived \<times> nat) option" where
  "Derived_Next d =
     (case NextUsed (dv_derived d) (dv_index d) of
        None \<Rightarrow> None
      | Some index \<Rightarrow>
          Some (d\<lparr>dv_index := (if index \<noteq> dv_numAllocations d then index + 1 else index)\<rparr>, index))"

text \<open>What a caller sees that asks for the next index until it gets the number of allocations.\<close>

partial_function (option) Derived_all :: "Derived \<Rightarrow> nat list option" where
  "Derived_all d =
     Option.bind (Derived_Next d) (\<lambda>r. case r of (d', i) \<Rightarrow>
       if i = dv_numAllocations d then Some []
       else Option.bind (Derived_all d') (\<lambda>is. Some (i # is)))"

definition derived_ok :: "Derived \<Rightarrow> bool" where
  "derived_ok d \<longleftrightarrow> set_ok (dv_derived d) \<and> dv_numAllocations d = set_numAllocations (dv_derived d) \<and>
     members (dv_derived d) \<subseteq> {..<dv_numAllocations d} \<and> dv_index d \<le> dv_numAllocations d"

lemma set_ok_not_full:
  assumes "set_ok s" "set_numAllocations s mod 64 \<noteq> 0" "i \<le> set_numAllocations s"
  shows "i < 64 * length (asU64 s)"
proof -
  let ?n = "set_numAllocations s"
  have len: "length (asU64 s) = (?n + 63) div 64" using assms(1) by (simp add: set_ok_def)
  have "?n + 63 = (?n + 63) div 64 * 64 + (?n + 63) mod 64" by (simp only: div_mult_mod_eq)
  moreover have "(?n + 63) mod 64 < 64" by simp
  ultimately have "?n \<le> 64 * length (asU64 s)" unfolding len by linarith
  moreover have "?n \<noteq> 64 * length (asU64 s)" using assms(2) by auto
  ultimately show ?thesis using assms(3) by linarith
qed

lemma Derived_all_spec:
  assumes "derived_ok d" "dv_numAllocations d mod 64 \<noteq> 0"
  shows "\<exists>is. Derived_all d = Some is \<and> sorted_wrt (<) is \<and>
           set is = {i \<in> members (dv_derived d). dv_index d \<le> i}"
  using assms
proof (induction "dv_numAllocations d - dv_index d" arbitrary: d rule: less_induct)
  case less
  let ?s = "dv_derived d" and ?n = "dv_numAllocations d"
  have ok: "set_ok ?s" "set_numAllocations ?s = ?n" "members ?s \<subseteq> {..<?n}" "dv_index d \<le> ?n"
    using less.prems(1) by (auto simp: derived_ok_def)
  have "dv_index d < 64 * length (asU64 ?s)"
    using set_ok_not_full [OF ok(1)] ok(2,4) less.prems(2) by simp
  from NextUsed_spec [OF ok(1) this] ok(2) consider
      (found) r where "NextUsed ?s (dv_index d) = Some r" "next_member ?s (dv_index d) r"
    | (none) "NextUsed ?s (dv_index d) = Some ?n" "\<forall>i\<in>members ?s. i < dv_index d"
    by auto
  then show ?case
  proof cases
    case none
    then have "Derived_all d = Some []"
      by (simp add: Derived_all.simps [of d] Derived_Next_def)
    then show ?thesis using none(2) by fastforce
  next
    case (found r)
    have r: "r \<in> members ?s" "dv_index d \<le> r" "\<forall>i\<in>members ?s. dv_index d \<le> i \<longrightarrow> r \<le> i" "r < ?n"
      using found(2) ok(3) by (auto simp: next_member_def)
    let ?d = "d\<lparr>dv_index := r + 1\<rparr>"
    have "derived_ok ?d" using less.prems(1) r(4) by (auto simp: derived_ok_def)
    moreover have "?n - Suc r < ?n - dv_index d" using r(2,4) by (intro diff_less_mono2) simp_all
    ultimately obtain "is" where is': "Derived_all ?d = Some is" "sorted_wrt (<) is"
      "set is = {i \<in> members ?s. r + 1 \<le> i}"
      using less.hyps [of ?d] less.prems(2) by auto
    have "Derived_all d = Some (r # is)"
      using found(1) r(4) is'(1) by (simp add: Derived_all.simps [of d] Derived_Next_def)
    moreover have "set (r # is) = {i \<in> members ?s. dv_index d \<le> i}"
    proof -
      have "i = r \<or> (i \<in> members ?s \<and> r + 1 \<le> i) \<longleftrightarrow> i \<in> members ?s \<and> dv_index d \<le> i" for i
        using r(1-3) by (cases "i \<in> members ?s") fastforce+
      then show ?thesis using is'(3) by auto
    qed
    moreover have "sorted_wrt (<) (r # is)" using is'(2,3) by simp
    ultimately show ?thesis by blast
  qed
qed

section \<open>Properties\<close>

text \<open>
  The bit set implements a set of indices.  A new set is empty, \<open>Add\<close> adds exactly its index,
  \<open>Has\<close> decides membership, \<open>Assign\<close> copies the other set and \<open>Subtract\<close> removes its members; none of
  them leaves the array of words.
\<close>

theorem Set_operations_correct:
  assumes "set_ok s" "set_ok t" "set_numAllocations t = set_numAllocations s" "i < set_numAllocations s"
  shows "members (Set_new n) = {} \<and>
         Set_Has s i = Some (i \<in> members s) \<and>
         (\<exists>s'. Set_Add s i = Some s' \<and> set_ok s' \<and> members s' = insert i (members s)) \<and>
         (\<exists>s'. Set_Assign s t = Some s' \<and> set_ok s' \<and> members s' = members t) \<and>
         (\<exists>s'. Set_Subtract s t = Some s' \<and> set_ok s' \<and> members s' = members s - members t)"
proof -
  note bound = set_ok_bound [OF assms(1,4)]
  have "\<exists>s'. Set_Add s i = Some s' \<and> set_ok s' \<and> members s' = insert i (members s)"
    by (rule Set_Add_members [OF assms(1) bound]) blast
  moreover have "\<exists>s'. Set_Assign s t = Some s' \<and> set_ok s' \<and> members s' = members t"
    by (rule Set_Assign_members [OF assms(1-3)]) blast
  moreover have "\<exists>s'. Set_Subtract s t = Some s' \<and> set_ok s' \<and> members s' = members s - members t"
    by (rule Set_Subtract_members [OF assms(1-3)]) blast
  ultimately show ?thesis using members_new Set_Has_members [OF bound] by blast
qed

theorem Set_operations_correct_witness:
  "set_ok (Set_new 100) \<and> Set_Has (Set_new 100) 70 = Some False"
  using Set_operations_correct [OF set_ok_new [of 100] set_ok_new [of 100] refl, of 70 100]
  by (simp add: members_new set_ok_new) (simp add: Set_new_def Let_def)

text \<open>
  \<open>NextUsed\<close> returns the least member from an index on, and the number of allocations where there
  is none; both of its loops end.
\<close>

theorem NextUsed_correct:
  assumes "set_ok s" "start < set_numAllocations s"
  shows "NextUsed s start =
           Some (if \<exists>i\<in>members s. start \<le> i then LEAST i. i \<in> members s \<and> start \<le> i
                 else set_numAllocations s)"
proof -
  from NextUsed_spec [OF assms(1) set_ok_bound [OF assms]]
  show ?thesis
  proof
    assume "\<exists>r. NextUsed s start = Some r \<and> next_member s start r"
    then obtain r where r: "NextUsed s start = Some r" "next_member s start r" by blast
    then have "(LEAST i. i \<in> members s \<and> start \<le> i) = r"
      by (intro Least_equality) (auto simp: next_member_def)
    then show ?thesis using r by (auto simp: next_member_def)
  next
    assume "NextUsed s start = Some (set_numAllocations s) \<and> (\<forall>i\<in>members s. i < start)"
    then show ?thesis by (auto simp: not_le)
  qed
qed

theorem NextUsed_correct_witness:
  "set_ok \<lparr>set_numAllocations = 100, set_numU64 = 2, set_numU8 = 16, asU64 = [1, 4]\<rparr> \<and>
   NextUsed \<lparr>set_numAllocations = 100, set_numU64 = 2, set_numU8 = 16, asU64 = [1, 4]\<rparr> 1 = Some 66"
proof -
  let ?s = "\<lparr>set_numAllocations = 100, set_numU64 = 2, set_numU8 = 16, asU64 = [1, 4]\<rparr>"
  have ok: "set_ok ?s" by (simp add: set_ok_def)
  have "66 \<in> members ?s" by (simp add: members_def)
  moreover have "66 \<le> i" if i: "i \<in> members ?s" "1 \<le> i" for i
  proof (rule ccontr)
    assume "\<not> 66 \<le> i"
    have b: "bit ([1, 4 :: 64 word] ! (i div 64)) (i mod 64)" using i by (simp add: members_def)
    consider "i < 64" | "i = 64" | "i = 65" using \<open>\<not> 66 \<le> i\<close> by linarith
    then show False
    proof cases
      case 1
      then show ?thesis using b i(2) by (simp add: bit_1_iff)
    qed (use b in \<open>simp_all add: bit_iff_odd\<close>)
  qed
  moreover have "(1::nat) \<le> 66" by simp
  ultimately have "(LEAST i. i \<in> members ?s \<and> 1 \<le> i) = 66" "\<exists>i\<in>members ?s. 1 \<le> i"
    by (blast intro: Least_equality)+
  then show ?thesis using NextUsed_correct [OF ok, of 1] ok by simp
qed

text \<open>
  The iterator over the derived set returns each member once, in increasing order, and then the
  number of allocations, provided the number of allocations is not a multiple of 64.
\<close>

theorem Derived_enumerates:
  assumes "set_ok s" "members s \<subseteq> {..<set_numAllocations s}" "set_numAllocations s mod 64 \<noteq> 0"
  shows "Derived_all (Derived_new (set_numAllocations s) s) = Some (sorted_list_of_set (members s))"
proof -
  let ?d = "Derived_new (set_numAllocations s) s"
  have "derived_ok ?d" using assms by (simp add: derived_ok_def Derived_new_def)
  then obtain "is" where "Derived_all ?d = Some is" "sorted_wrt (<) is" "set is = members s"
    using Derived_all_spec [of ?d] assms(3) by (auto simp: Derived_new_def)
  then show ?thesis
    by (metis sorted_list_of_set.idem_if_sorted_distinct strict_sorted_iff)
qed

theorem Derived_enumerates_witness:
  "set_ok (Set_new 100) \<and> Derived_all (Derived_new 100 (Set_new 100)) = Some []"
proof -
  have n: "set_numAllocations (Set_new 100) = 100" by (simp add: Set_new_def Let_def)
  show ?thesis
    using Derived_enumerates [OF set_ok_new [of 100]] by (simp add: members_new n set_ok_new)
qed

text \<open>
  When the number of allocations is a multiple of 64, the iterator's last step leaves the array:
  \<open>NextUsed\<close> from the number of allocations on reads past the end, and so does every iteration whose
  set holds the last allocation.
\<close>

theorem Derived_reads_past_end:
  assumes "set_ok s" "set_numAllocations s mod 64 = 0"
  shows "NextUsed s (set_numAllocations s) = None \<and>
         Derived_Next \<lparr>dv_index = set_numAllocations s, dv_numAllocations = set_numAllocations s,
                      dv_derived = s\<rparr> = None"
proof -
  obtain q where "set_numAllocations s = 64 * q" using assms(2) by (metis mod_0_imp_dvd dvdE)
  then have "\<not> set_numAllocations s div 64 < length (asU64 s)"
    using assms(1) by (simp add: set_ok_def)
  then have "NextUsed s (set_numAllocations s) = None" by (simp add: NextUsed_def Let_def)
  then show ?thesis by (simp add: Derived_Next_def)
qed

theorem Derived_reads_past_end_witness:
  "set_ok \<lparr>set_numAllocations = 64, set_numU64 = 1, set_numU8 = 8, asU64 = [push_bit 63 1]\<rparr> \<and>
   Derived_Next \<lparr>dv_index = 64, dv_numAllocations = 64,
     dv_derived = \<lparr>set_numAllocations = 64, set_numU64 = 1, set_numU8 = 8, asU64 = [push_bit 63 1]\<rparr>\<rparr> = None"
proof -
  let ?s = "\<lparr>set_numAllocations = 64, set_numU64 = 1, set_numU8 = 8, asU64 = [push_bit 63 1]\<rparr>"
  have ok: "set_ok ?s" by (simp add: set_ok_def)
  show ?thesis using Derived_reads_past_end [OF ok] ok by simp
qed

end
