(* ===== verification/Alloc_Packing.thy ===== *)
theory Alloc_Packing
  imports Chap_Prelude
begin

text \<open>
  The class \<open>Directory::Allocation\<close> of Allocations/Directory.h for 64-bit offsets: an allocation
  packs its size, four status bits and the index of its finder into one word.
\<close>

unbundle bit_operations_syntax

section \<open>State and operations\<close>

record Allocation =
  al_address :: addr
  al_sizeAndBits :: addr

definition USED_BIT :: addr where "USED_BIT = NOT (drop_bit 1 (NOT 0))"
definition THREAD_CACHED_BIT :: addr where "THREAD_CACHED_BIT = drop_bit 1 USED_BIT"
definition WRAPPER_BIT :: addr where "WRAPPER_BIT = drop_bit 1 THREAD_CACHED_BIT"
definition WRAPPED_BIT :: addr where "WRAPPED_BIT = drop_bit 1 WRAPPER_BIT"
definition NUM_FINDER_INDEX_BITS :: nat where "NUM_FINDER_INDEX_BITS = 8"
definition LOW_FINDER_INDEX_BIT :: addr where
  "LOW_FINDER_INDEX_BIT = drop_bit NUM_FINDER_INDEX_BITS WRAPPED_BIT"
definition SIZE_MASK :: addr where "SIZE_MASK = LOW_FINDER_INDEX_BIT - 1"
definition MAX_FINDERS :: addr where "MAX_FINDERS = push_bit NUM_FINDER_INDEX_BITS 1"

definition Allocation_new :: "addr \<Rightarrow> addr \<Rightarrow> bool \<Rightarrow> addr \<Rightarrow> bool \<Rightarrow> Allocation" where
  "Allocation_new address sz isUsed finderIndex isWrapped =
     \<lparr>al_address = address,
      al_sizeAndBits = sz OR (if isUsed then USED_BIT else 0) OR (finderIndex * LOW_FINDER_INDEX_BIT)
                          OR (if isWrapped then WRAPPED_BIT else 0)\<rparr>"

definition al_MarkAsWrapper :: "Allocation \<Rightarrow> Allocation" where
  "al_MarkAsWrapper a = a\<lparr>al_sizeAndBits := al_sizeAndBits a OR WRAPPER_BIT\<rparr>"

definition al_MarkAsFree :: "Allocation \<Rightarrow> Allocation" where
  "al_MarkAsFree a = a\<lparr>al_sizeAndBits := al_sizeAndBits a AND NOT USED_BIT\<rparr>"

definition al_MarkAsThreadCached :: "Allocation \<Rightarrow> Allocation" where
  "al_MarkAsThreadCached a =
     (let a1 = a\<lparr>al_sizeAndBits := al_sizeAndBits a OR THREAD_CACHED_BIT\<rparr>
      in a1\<lparr>al_sizeAndBits := al_sizeAndBits a1 AND USED_BIT\<rparr>)"

definition al_Address :: "Allocation \<Rightarrow> addr" where "al_Address a = al_address a"
definition al_Size :: "Allocation \<Rightarrow> addr" where "al_Size a = al_sizeAndBits a AND SIZE_MASK"
definition al_IsUsed :: "Allocation \<Rightarrow> bool" where "al_IsUsed a = (al_sizeAndBits a AND USED_BIT \<noteq> 0)"
definition al_IsThreadCached :: "Allocation \<Rightarrow> bool" where
  "al_IsThreadCached a = (al_sizeAndBits a AND THREAD_CACHED_BIT \<noteq> 0)"
definition al_IsWrapper :: "Allocation \<Rightarrow> bool" where
  "al_IsWrapper a = (al_sizeAndBits a AND WRAPPER_BIT \<noteq> 0)"
definition al_IsWrapped :: "Allocation \<Rightarrow> bool" where
  "al_IsWrapped a = (al_sizeAndBits a AND WRAPPED_BIT \<noteq> 0)"
definition al_FinderIndex :: "Allocation \<Rightarrow> addr" where
  "al_FinderIndex a = (al_sizeAndBits a div LOW_FINDER_INDEX_BIT) mod MAX_FINDERS"

lemmas al_accessors = al_Address_def al_Size_def al_IsUsed_def al_IsThreadCached_def al_IsWrapper_def
  al_IsWrapped_def al_FinderIndex_def

section \<open>The bits\<close>

lemma al_constants:
  "USED_BIT = 2 ^ 63" "THREAD_CACHED_BIT = 2 ^ 62" "WRAPPER_BIT = 2 ^ 61" "WRAPPED_BIT = 2 ^ 60"
  "LOW_FINDER_INDEX_BIT = 2 ^ 52" "SIZE_MASK = mask 52" "MAX_FINDERS = 2 ^ 8"
  by (simp_all add: USED_BIT_def THREAD_CACHED_BIT_def WRAPPER_BIT_def WRAPPED_BIT_def
      LOW_FINDER_INDEX_BIT_def NUM_FINDER_INDEX_BITS_def SIZE_MASK_def MAX_FINDERS_def mask_eq_exp_minus_1
      drop_bit_eq_div)

lemma small_bit:
  fixes x :: addr
  assumes "x < 2 ^ n" "bit x k"
  shows "k < n"
proof -
  have "take_bit n x = x" using assms(1) by (simp add: take_bit_eq_mask less_mask_eq)
  then show ?thesis using assms(2) by (metis bit_take_bit_iff)
qed

lemma bit_flag: "n < 64 \<Longrightarrow> bit (if u then 2 ^ n else (0 :: addr)) k \<longleftrightarrow> u \<and> k = n"
  by (auto simp: bit_exp_iff)

lemma shift_finder: "x * 2 ^ 52 = push_bit 52 x" for x :: addr
  by (simp add: push_bit_eq_mult)

lemma al_bits:
  "al_IsUsed a \<longleftrightarrow> bit (al_sizeAndBits a) 63"
  "al_IsThreadCached a \<longleftrightarrow> bit (al_sizeAndBits a) 62"
  "al_IsWrapper a \<longleftrightarrow> bit (al_sizeAndBits a) 61"
  "al_IsWrapped a \<longleftrightarrow> bit (al_sizeAndBits a) 60"
  "al_Size a = take_bit 52 (al_sizeAndBits a)"
  "al_FinderIndex a = take_bit 8 (drop_bit 52 (al_sizeAndBits a))"
proof -
  show "al_Size a = take_bit 52 (al_sizeAndBits a)"
    by (simp only: al_accessors al_constants take_bit_eq_mask)
  show "al_FinderIndex a = take_bit 8 (drop_bit 52 (al_sizeAndBits a))"
    by (simp only: al_accessors al_constants take_bit_eq_mod drop_bit_eq_div)
qed (simp_all only: al_accessors al_constants bit_AND_exp [of 63] bit_AND_exp [of 62]
      bit_AND_exp [of 61] bit_AND_exp [of 60])

lemma Allocation_new_bit:
  assumes "sz < 2 ^ 52" "f < 2 ^ 8"
  shows "bit (al_sizeAndBits (Allocation_new a sz u f w)) k \<longleftrightarrow>
           (k < 52 \<and> bit sz k) \<or> (52 \<le> k \<and> k < 60 \<and> bit f (k - 52)) \<or> (k = 60 \<and> w) \<or> (k = 63 \<and> u)"
proof -
  have sz: "bit sz k \<Longrightarrow> k < 52" and f: "bit f (k - 52) \<Longrightarrow> k - 52 < 8"
    using assms small_bit [of sz 52 k] small_bit [of f 8 "k - 52"] by blast+
  have F: "bit (if u then 2 ^ 63 else (0 :: addr)) k \<longleftrightarrow> u \<and> k = 63" "bit (if w then 2 ^ 60 else (0 :: addr)) k \<longleftrightarrow> w \<and> k = 60"
    by (rule bit_flag; simp)+
  have "al_sizeAndBits (Allocation_new a sz u f w) =
      sz OR (if u then 2 ^ 63 else 0) OR push_bit 52 f OR (if w then 2 ^ 60 else 0)"
    by (simp only: Allocation_new_def Allocation.simps al_constants shift_finder)
  also have "bit \<dots> k \<longleftrightarrow> bit sz k \<or> (u \<and> k = 63) \<or> (52 \<le> k \<and> k < 64 \<and> bit f (k - 52)) \<or> (w \<and> k = 60)"
    by (simp only: bit_or_iff F) (auto simp: bit_push_bit_iff)
  finally show ?thesis using sz f by auto
qed

lemma Allocation_new_fields:
  assumes "sz \<le> SIZE_MASK" "f < MAX_FINDERS"
  shows "al_Address (Allocation_new a sz u f w) = a" "al_Size (Allocation_new a sz u f w) = sz"
    "al_IsUsed (Allocation_new a sz u f w) = u" "al_FinderIndex (Allocation_new a sz u f w) = f"
    "al_IsWrapped (Allocation_new a sz u f w) = w" "\<not> al_IsWrapper (Allocation_new a sz u f w)"
    "\<not> al_IsThreadCached (Allocation_new a sz u f w)"
proof -
  have small: "sz < 2 ^ 52" "f < 2 ^ 8"
    using assms by (simp_all add: al_constants mask_eq_exp_minus_1 word_less_nat_alt word_le_nat_alt)
  note b = Allocation_new_bit [OF small]
  show "al_IsUsed (Allocation_new a sz u f w) = u" "al_IsWrapped (Allocation_new a sz u f w) = w"
    "\<not> al_IsWrapper (Allocation_new a sz u f w)" "\<not> al_IsThreadCached (Allocation_new a sz u f w)"
    by (auto simp: al_bits b dest: small_bit [OF small(1)] small_bit [OF small(2)])
  show "al_Address (Allocation_new a sz u f w) = a" by (simp add: al_Address_def Allocation_new_def)
  show "al_Size (Allocation_new a sz u f w) = sz"
    by (rule bit_word_eqI) (use small_bit [OF small(1)] in \<open>auto simp: al_bits b bit_take_bit_iff\<close>)
  show "al_FinderIndex (Allocation_new a sz u f w) = f"
    by (rule bit_word_eqI) (use small_bit [OF small(2)] in \<open>auto simp: al_bits b bit_take_bit_iff bit_drop_bit_eq\<close>)
qed

lemma MarkAsWrapper_fields:
  "al_Address (al_MarkAsWrapper a) = al_Address a" "al_Size (al_MarkAsWrapper a) = al_Size a"
  "al_IsUsed (al_MarkAsWrapper a) = al_IsUsed a" "al_FinderIndex (al_MarkAsWrapper a) = al_FinderIndex a"
  "al_IsWrapped (al_MarkAsWrapper a) = al_IsWrapped a" "al_IsWrapper (al_MarkAsWrapper a)"
  "al_IsThreadCached (al_MarkAsWrapper a) = al_IsThreadCached a"
proof -
  have W: "bit (WRAPPER_BIT) k \<longleftrightarrow> k = 61" for k
    using bit_flag [of 61 True k] by (simp only: al_constants) simp
  have b: "bit (al_sizeAndBits (al_MarkAsWrapper a)) k \<longleftrightarrow> bit (al_sizeAndBits a) k \<or> k = 61" for k
    by (simp add: al_MarkAsWrapper_def bit_or_iff W)
  show "al_Size (al_MarkAsWrapper a) = al_Size a" "al_FinderIndex (al_MarkAsWrapper a) = al_FinderIndex a"
    by (rule bit_word_eqI; auto simp: al_bits b bit_take_bit_iff bit_drop_bit_eq)+
  show "al_Address (al_MarkAsWrapper a) = al_Address a"
    by (simp add: al_Address_def al_MarkAsWrapper_def)
  show "al_IsUsed (al_MarkAsWrapper a) = al_IsUsed a" "al_IsWrapped (al_MarkAsWrapper a) = al_IsWrapped a"
    "al_IsWrapper (al_MarkAsWrapper a)" "al_IsThreadCached (al_MarkAsWrapper a) = al_IsThreadCached a"
    by (simp_all add: al_bits b)
qed

lemma MarkAsFree_fields:
  "al_Address (al_MarkAsFree a) = al_Address a" "al_Size (al_MarkAsFree a) = al_Size a"
  "\<not> al_IsUsed (al_MarkAsFree a)" "al_FinderIndex (al_MarkAsFree a) = al_FinderIndex a"
  "al_IsWrapped (al_MarkAsFree a) = al_IsWrapped a" "al_IsWrapper (al_MarkAsFree a) = al_IsWrapper a"
  "al_IsThreadCached (al_MarkAsFree a) = al_IsThreadCached a"
proof -
  have U: "bit (USED_BIT) k \<longleftrightarrow> k = 63" for k
    using bit_flag [of 63 True k] by (simp only: al_constants) simp
  have b: "bit (al_sizeAndBits (al_MarkAsFree a)) k \<longleftrightarrow> bit (al_sizeAndBits a) k \<and> k \<noteq> 63" for k
    using bit_imp_le_length [of "al_sizeAndBits a" k]
    by (auto simp: al_MarkAsFree_def bit_and_iff bit_not_iff U)
  show "al_Size (al_MarkAsFree a) = al_Size a" "al_FinderIndex (al_MarkAsFree a) = al_FinderIndex a"
    by (rule bit_word_eqI; auto simp: al_bits b bit_take_bit_iff bit_drop_bit_eq)+
  show "al_Address (al_MarkAsFree a) = al_Address a"
    by (simp add: al_Address_def al_MarkAsFree_def)
  show "\<not> al_IsUsed (al_MarkAsFree a)" "al_IsWrapped (al_MarkAsFree a) = al_IsWrapped a"
    "al_IsWrapper (al_MarkAsFree a) = al_IsWrapper a" "al_IsThreadCached (al_MarkAsFree a) = al_IsThreadCached a"
    by (simp_all add: al_bits b)
qed

lemma MarkAsThreadCached_bits: "al_sizeAndBits (al_MarkAsThreadCached a) = al_sizeAndBits a AND USED_BIT"
proof -
  have "bit THREAD_CACHED_BIT k \<longleftrightarrow> k = 62" "bit USED_BIT k \<longleftrightarrow> k = 63" for k
    using bit_flag [of 62 True k] bit_flag [of 63 True k] by (simp_all only: al_constants) simp_all
  then show ?thesis
    by (intro bit_word_eqI) (auto simp: al_MarkAsThreadCached_def Let_def bit_and_iff bit_or_iff)
qed

section \<open>Properties\<close>

text \<open>
  C4: Packing loses nothing.  For a size within the mask and a finder index below the maximum, a new
  allocation reads back its address, size, use, finder and wrapped state and starts as neither wrapper
  nor thread cached.  Marking any allocation as a wrapper makes it one and leaves all else as it was, and
  marking any allocation as free makes it unused and leaves all else as it was.
\<close>

theorem Allocation_roundtrip:
  fixes address :: addr and u w :: bool
  assumes "sz \<le> SIZE_MASK" "f < MAX_FINDERS"
  defines "a \<equiv> Allocation_new address sz u f w"
  shows "al_Address a = address \<and> al_Size a = sz \<and> al_IsUsed a = u \<and> al_FinderIndex a = f \<and>
         al_IsWrapped a = w \<and> \<not> al_IsWrapper a \<and> \<not> al_IsThreadCached a \<and>
         (\<forall>x. let y = al_MarkAsWrapper x in
            al_IsWrapper y \<and> al_Address y = al_Address x \<and> al_Size y = al_Size x \<and> al_IsUsed y = al_IsUsed x \<and>
            al_FinderIndex y = al_FinderIndex x \<and> al_IsWrapped y = al_IsWrapped x \<and> al_IsThreadCached y = al_IsThreadCached x) \<and>
         (\<forall>x. let y = al_MarkAsFree x in
            \<not> al_IsUsed y \<and> al_Address y = al_Address x \<and> al_Size y = al_Size x \<and> al_IsWrapper y = al_IsWrapper x \<and>
            al_FinderIndex y = al_FinderIndex x \<and> al_IsWrapped y = al_IsWrapped x \<and> al_IsThreadCached y = al_IsThreadCached x)"
  using Allocation_new_fields [OF assms(1,2), of address u w]
  by (simp add: a_def MarkAsFree_fields MarkAsWrapper_fields Let_def)

theorem Allocation_roundtrip_witness:
  "(0x1000 :: addr) \<le> SIZE_MASK \<and> 7 < MAX_FINDERS \<and> al_Size (Allocation_new 0xdeadbeef 0x1000 True 7 True) = 0x1000 \<and>
   al_IsUsed (al_MarkAsWrapper (Allocation_new 0xdeadbeef 0x1000 True 7 True))"
proof -
  have "(0x1000 :: addr) \<le> SIZE_MASK" "7 < MAX_FINDERS"
    by (simp_all add: al_constants mask_eq_exp_minus_1)
  then show ?thesis using Allocation_roundtrip [of "0x1000" 7 "0xdeadbeef" True True] by (simp add: Let_def)
qed

text \<open>
  Marking an allocation as thread cached, as the code has it, erases its size and its thread-cached
  bit and leaves its use as it was: the last step keeps only the bit for use, where the comment says
  that the allocation also becomes free.
\<close>

theorem MarkAsThreadCached_erases:
  "al_Size (al_MarkAsThreadCached a) = 0 \<and> \<not> al_IsThreadCached (al_MarkAsThreadCached a) \<and>
   al_IsUsed (al_MarkAsThreadCached a) = al_IsUsed a \<and> \<not> al_IsWrapper (al_MarkAsThreadCached a) \<and>
   al_FinderIndex (al_MarkAsThreadCached a) = 0"
proof -
  have U: "bit USED_BIT k \<longleftrightarrow> k = 63" for k
    using bit_flag [of 63 True k] by (simp only: al_constants) simp
  show ?thesis
    unfolding al_bits MarkAsThreadCached_bits
    by (intro conjI; (rule bit_word_eqI)?; simp add: bit_and_iff U bit_take_bit_iff bit_drop_bit_eq)
qed

end
