(* ===== verification/Nested_Ranges.thy ===== *)
theory Nested_Ranges
  imports Chap_Prelude
begin

text \<open>
  Families of nested ranges, the mathematics behind the allocation directory.  A family is a list of
  ranges \<open>[lo, hi)\<close> in the order in which they were found: by increasing start, where a later range
  lies inside an earlier one or starts after its end.  The theory has the two structures the directory
  keeps over such a family: the stack of ranges still open, and the levels of the ranges that contain
  others.
\<close>

section \<open>Families\<close>

type_synonym nranges = "(nat \<times> nat) list"

abbreviation lo :: "nranges \<Rightarrow> nat \<Rightarrow> nat" where "lo R i \<equiv> fst (R ! i)"
abbreviation hi :: "nranges \<Rightarrow> nat \<Rightarrow> nat" where "hi R i \<equiv> snd (R ! i)"

definition nested :: "nranges \<Rightarrow> nat \<Rightarrow> nat \<Rightarrow> bool" where
  "nested R i j \<longleftrightarrow> i < j \<and> j < length R \<and> hi R j \<le> hi R i"

definition laminar :: "nranges \<Rightarrow> bool" where
  "laminar R \<longleftrightarrow> (\<forall>i<length R. lo R i < hi R i) \<and>
     (\<forall>j<length R. \<forall>i<j. lo R i \<le> lo R j \<and> (hi R j \<le> hi R i \<or> hi R i \<le> lo R j))"

definition containing :: "nranges \<Rightarrow> nat \<Rightarrow> nat set" where
  "containing R a = {i. i < length R \<and> lo R i \<le> a \<and> a < hi R i}"

definition wraps :: "nranges \<Rightarrow> nat set" where
  "wraps R = {i. \<exists>j. nested R i j}"

lemma laminarD:
  assumes "laminar R"
  shows "i < length R \<Longrightarrow> lo R i < hi R i"
    and "i < j \<Longrightarrow> j < length R \<Longrightarrow> lo R i \<le> lo R j"
    and "i < j \<Longrightarrow> j < length R \<Longrightarrow> nested R i j \<or> hi R i \<le> lo R j"
  using assms by (auto simp: laminar_def nested_def)

lemma finite_containing [simp]: "finite (containing R a)"
  by (simp add: containing_def)

lemma containing_nested:
  assumes "laminar R" "i \<in> containing R a" "j \<in> containing R a" "i < j"
  shows "nested R i j"
  using laminarD(3) [OF assms(1,4)] assms(2,3) by (auto simp: containing_def)

lemma containing_wraps:
  assumes "laminar R" "i \<in> containing R a" "i < j" "j < length R" "lo R j \<le> a"
  shows "i \<in> wraps R"
  using laminarD(3) [OF assms(1,3,4)] assms(2,5) by (auto simp: containing_def wraps_def)

text \<open>A range of the family that contains an address and wraps nothing is the innermost one.\<close>

lemma containing_leaf_Max:
  assumes "laminar R" "i \<in> containing R a" "i \<notin> wraps R"
  shows "Max (containing R a) = i"
proof (rule Max_eqI)
  fix j assume "j \<in> containing R a"
  then show "j \<le> i"
    using containing_nested [OF assms(1,2), of j] assms(3) by (auto simp: wraps_def not_less [symmetric])
qed (use assms in auto)

text \<open>The family grows at the end.\<close>

lemma nested_snoc:
  "nested (R @ [(l, h)]) i j \<longleftrightarrow>
     (if j = length R then i < length R \<and> h \<le> hi R i else nested R i j)"
  by (auto simp: nested_def nth_append)

lemma laminar_snoc:
  assumes "laminar R" "l < h" "\<And>i. i < length R \<Longrightarrow> lo R i \<le> l \<and> (h \<le> hi R i \<or> hi R i \<le> l)"
  shows "laminar (R @ [(l, h)])"
  using assms unfolding laminar_def by (auto simp: nth_append less_Suc_eq)

lemma wraps_snoc: "wraps (R @ [(l, h)]) = wraps R \<union> {i. i < length R \<and> h \<le> hi R i}"
proof (rule set_eqI)
  fix i
  have "(\<exists>j. nested (R @ [(l, h)]) i j) \<longleftrightarrow>
      nested (R @ [(l, h)]) i (length R) \<or> (\<exists>j. j \<noteq> length R \<and> nested (R @ [(l, h)]) i j)"
    by metis
  also have "\<dots> \<longleftrightarrow> (i < length R \<and> h \<le> hi R i) \<or> (\<exists>j. nested R i j)"
  proof -
    have "nested R i j \<Longrightarrow> j \<noteq> length R" for j by (simp add: nested_def)
    then show ?thesis unfolding nested_snoc by auto
  qed
  finally show "i \<in> wraps (R @ [(l, h)]) \<longleftrightarrow> i \<in> wraps R \<union> {i. i < length R \<and> h \<le> hi R i}"
    by (auto simp: wraps_def)
qed

section \<open>The stack of open ranges\<close>

text \<open>
  The top comes first.  Every range that is not on the stack ends at or before \<open>cur\<close>, the start of the
  last range seen.
\<close>

definition stack_ok :: "nranges \<Rightarrow> nat \<Rightarrow> nat list \<Rightarrow> bool" where
  "stack_ok R cur S \<longleftrightarrow> (\<forall>i\<in>set S. i < length R) \<and> sorted_wrt (\<lambda>i j. nested R j i) S \<and>
     (\<forall>i<length R. lo R i \<le> cur \<and> (i \<notin> set S \<longrightarrow> hi R i \<le> cur))"

lemma stack_ok_mono: "stack_ok R cur S \<Longrightarrow> cur \<le> l \<Longrightarrow> stack_ok R l S"
  by (fastforce simp: stack_ok_def)

lemma stack_ok_pop: "stack_ok R l (i # S) \<Longrightarrow> hi R i \<le> l \<Longrightarrow> stack_ok R l S"
  by (auto simp: stack_ok_def)

lemma stack_ok_push:
  assumes "stack_ok R l S" "l < h" "\<And>i. i < length R \<Longrightarrow> i \<in> set S \<longleftrightarrow> h \<le> hi R i"
  shows "stack_ok (R @ [(l, h)]) l (length R # S)"
proof -
  have S: "i < length R" if "i \<in> set S" for i using assms(1) that by (simp add: stack_ok_def)
  have "sorted_wrt (\<lambda>i j. nested (R @ [(l, h)]) j i) S"
  proof (rule sorted_wrt_mono_rel)
    show "sorted_wrt (\<lambda>i j. nested R j i) S" using assms(1) by (simp add: stack_ok_def)
    show "nested (R @ [(l, h)]) j i" if "i \<in> set S" "nested R j i" for i j
      using that S [of i] by (simp add: nested_snoc)
  qed
  moreover have "nested (R @ [(l, h)]) j (length R)" if "j \<in> set S" for j
    using that S [of j] assms(3) by (simp add: nested_snoc)
  moreover have "lo (R @ [(l, h)]) i \<le> l \<and> (i \<notin> set (length R # S) \<longrightarrow> hi (R @ [(l, h)]) i \<le> l)"
    if "i < length (R @ [(l, h)])" for i
    using that assms(1) by (auto simp: stack_ok_def nth_append less_Suc_eq)
  ultimately show ?thesis
    using S by (auto simp: stack_ok_def less_Suc_eq)
qed

text \<open>All but the top of the stack wrap the range above them.\<close>

lemma stack_ok_wraps: "stack_ok R l (i # S) \<Longrightarrow> set S \<subseteq> wraps R"
  by (auto simp: stack_ok_def wraps_def)

section \<open>Levels\<close>

definition level_ok :: "nranges \<Rightarrow> nat list \<Rightarrow> bool" where
  "level_ok R L \<longleftrightarrow> L \<noteq> [] \<and> (\<forall>i\<in>set L. i < length R) \<and>
     sorted_wrt (\<lambda>i j. i < j \<and> hi R i \<le> lo R j) L"

fun levels_ok :: "nranges \<Rightarrow> nat list list \<Rightarrow> bool" where
  "levels_ok R [] = True"
| "levels_ok R (L # Ls) =
     (level_ok R L \<and> (\<forall>v\<in>set L. \<forall>w\<in>\<Union>(set ` set Ls). v \<noteq> w \<and> \<not> nested R v w) \<and> levels_ok R Ls)"

abbreviation in_levels :: "nat list list \<Rightarrow> nat set" where
  "in_levels Ls \<equiv> \<Union>(set ` set Ls)"

lemma levels_ok_less: "levels_ok R Ls \<Longrightarrow> i \<in> in_levels Ls \<Longrightarrow> i < length R"
  by (induction R Ls rule: levels_ok.induct) (auto simp: level_ok_def)

lemma level_ok_snoc: "level_ok R L \<Longrightarrow> level_ok (R @ [r]) L"
  unfolding level_ok_def by (auto simp: nth_append elim!: sorted_wrt_mono_rel [rotated])

lemma levels_ok_snoc: "levels_ok R Ls \<Longrightarrow> levels_ok (R @ [(l, h)]) Ls"
proof (induction R Ls rule: levels_ok.induct)
  case (2 R L Ls)
  have "v \<noteq> w \<and> \<not> nested (R @ [(l, h)]) v w" if "v \<in> set L" "w \<in> in_levels Ls" for v w
  proof -
    have "w < length R" using "2.prems" that(2) levels_ok_less [of R Ls w] by simp
    moreover have "v \<noteq> w" "\<not> nested R v w" using "2.prems" that by auto
    ultimately show ?thesis by (simp add: nested_snoc)
  qed
  with 2 show ?case by (simp add: level_ok_snoc)
qed simp

text \<open>
  Placing an open range \<open>x\<close>: every level's last range is closed, and then \<open>x\<close> goes after it, or open, and
  then \<open>x\<close> takes its place and the displaced one is placed one level further out.
\<close>

fun place_in_levels :: "(nat \<Rightarrow> bool) \<Rightarrow> nat \<Rightarrow> nat list list \<Rightarrow> nat list list" where
  "place_in_levels closed x [] = [[x]]"
| "place_in_levels closed x (L # Ls) =
     (if closed (last L) then (L @ [x]) # Ls
      else (butlast L @ [x]) # place_in_levels closed (last L) Ls)"

lemma place_in_levels_set: "levels_ok R Ls \<Longrightarrow> in_levels (place_in_levels closed x Ls) = insert x (in_levels Ls)"
proof (induction Ls arbitrary: x)
  case (Cons L Ls)
  have "L \<noteq> []" using Cons.prems by (simp add: level_ok_def)
  then have "set L = insert (last L) (set (butlast L))"
    by (metis append_butlast_last_id list.set(1,2) set_append sup_bot_right Un_insert_right)
  then show ?case using Cons by auto
qed simp

lemma level_ok_disjoint:
  assumes "level_ok R L" "i \<in> set L" "j \<in> set L" "i < j"
  shows "hi R i \<le> lo R j"
proof -
  obtain m n where mn: "m < length L" "n < length L" "i = L ! m" "j = L ! n"
    using assms(2,3) by (auto simp: in_set_conv_nth)
  have order: "sorted_wrt (\<lambda>i j. i < j \<and> hi R i \<le> lo R j) L" using assms(1) by (simp add: level_ok_def)
  have "m < n"
  proof (rule ccontr)
    assume "\<not> m < n"
    then have "n < m" using mn assms(4) by (cases "m = n") auto
    then have "j < i" using order mn by (simp add: sorted_wrt_iff_nth_less)
    then show False using assms(4) by simp
  qed
  then show ?thesis using order mn by (simp add: sorted_wrt_iff_nth_less)
qed

lemma level_ok_last:
  assumes "level_ok R L" "i \<in> set (butlast L)"
  shows "i < last L" "hi R i \<le> lo R (last L)"
proof -
  have "L = butlast L @ [last L]" using assms(1) by (simp add: level_ok_def)
  then have "sorted_wrt (\<lambda>i j. i < j \<and> hi R i \<le> lo R j) (butlast L @ [last L])"
    using assms(1) by (simp add: level_ok_def)
  then show "i < last L" "hi R i \<le> lo R (last L)"
    using assms(2) by (auto simp: sorted_wrt_append)
qed

lemma level_ok_replace:
  assumes "level_ok R L" "x < length R" "\<And>i. i \<in> set (butlast L) \<Longrightarrow> i < x \<and> hi R i \<le> lo R x"
  shows "level_ok R (butlast L @ [x])"
proof -
  have L: "L = butlast L @ [last L]" using assms(1) by (simp add: level_ok_def)
  then have "sorted_wrt (\<lambda>i j. i < j \<and> hi R i \<le> lo R j) (butlast L @ [last L])"
    using assms(1) by (simp add: level_ok_def)
  moreover have "set (butlast L) \<subseteq> set L" by (meson in_set_butlastD subsetI)
  ultimately show ?thesis
    using assms by (auto simp: level_ok_def sorted_wrt_append)
qed

lemma level_ok_append:
  assumes lam: "laminar R" and L: "level_ok R L" and x: "x < length R"
    and last: "last L < x" "hi R (last L) \<le> lo R x"
  shows "level_ok R (L @ [x])"
proof -
  have ne: "L \<noteq> []" using L by (simp add: level_ok_def)
  have "i < x \<and> hi R i \<le> lo R x" if "i \<in> set L" for i
  proof (cases "i = last L")
    case False
    then have "i \<in> set (butlast L)" using that ne
      by (metis append_butlast_last_id insertE list.set(2) rotate1.simps(2) set_rotate1)
    from level_ok_last [OF L this] last laminarD(1) [OF lam, of "last L"] x show ?thesis
      by (meson dual_order.trans less_imp_le_nat less_trans order_less_le_trans)
  qed (use last in simp)
  then show ?thesis using L x by (auto simp: level_ok_def sorted_wrt_append)
qed

lemma place_in_levels_ok:
  assumes "laminar R" "levels_ok R Ls" "x < length R" "h \<le> hi R x" "l < h"
    and "\<forall>i\<in>in_levels Ls. \<not> nested R x i" "x \<notin> in_levels Ls"
    and "\<forall>i<length R. lo R i \<le> l \<and> (if closed i then hi R i \<le> l else h \<le> hi R i)"
  shows "levels_ok R (place_in_levels closed x Ls)"
  using assms
proof (induction Ls arbitrary: x)
  case Nil
  then show ?case by (simp add: level_ok_def)
next
  case (Cons L Ls)
  note lam = Cons.prems(1) and sides = Cons.prems(8)
  define z where "z = last L"
  have L: "level_ok R L" "\<forall>v\<in>set L. \<forall>w\<in>in_levels Ls. v \<noteq> w \<and> \<not> nested R v w" "levels_ok R Ls"
    using Cons.prems(2) by simp_all
  have ne: "L \<noteq> []" using L(1) by (simp add: level_ok_def)
  have z: "z \<in> set L" "z < length R" using L(1) ne by (simp_all add: z_def level_ok_def)
  have xz: "\<not> nested R x z" "x \<noteq> z" using Cons.prems(6,7) z(1) by auto
  have "z < x"
  proof (rule ccontr)
    assume "\<not> z < x"
    then have "x < z" using xz(2) by simp
    with laminarD(3) [OF lam this z(2)] xz(1) have "hi R x \<le> lo R z" by simp
    moreover have "lo R z \<le> l" using sides z(2) by simp
    ultimately show False using Cons.prems(4,5) by simp
  qed
  note zx = laminarD(2,3) [OF lam this Cons.prems(3)]
  show ?case
  proof (cases "closed z")
    case True
    then have "hi R z \<le> l" using sides z(2) by simp
    then have "\<not> nested R z x" using Cons.prems(4,5) by (simp add: nested_def)
    then have "hi R z \<le> lo R x" using zx(2) by simp
    then have "level_ok R (L @ [x])"
      using level_ok_append [OF lam L(1) Cons.prems(3)] \<open>z < x\<close> by (simp add: z_def)
    then show ?thesis using True L Cons.prems(6,7) by (auto simp: z_def)
  next
    case False
    then have "h \<le> hi R z" using sides z(2) by presburger
    have bl: "i < x \<and> hi R i \<le> lo R x" if "i \<in> set (butlast L)" for i
      using level_ok_last [OF L(1) that] \<open>z < x\<close> zx(1) by (simp add: z_def)
    have rest: "levels_ok R (place_in_levels closed z Ls)"
    proof (rule Cons.IH [OF lam L(3) z(2) \<open>h \<le> hi R z\<close> \<open>l < h\<close> _ _ sides])
      show "\<forall>i\<in>in_levels Ls. \<not> nested R z i" using L(2) z(1) by blast
      show "z \<notin> in_levels Ls" using L(2) z(1) by blast
    qed
    have "v \<noteq> w \<and> \<not> nested R v w" if "v \<in> set (butlast L @ [x])" "w \<in> insert z (in_levels Ls)" for v w
    proof (cases "v = x")
      case True
      then show ?thesis using that(2) Cons.prems(6,7) xz by auto
    next
      case vx: False
      then have v: "v \<in> set (butlast L)" using that(1) by simp
      then have "v \<in> set L" by (rule in_set_butlastD)
      moreover have "v \<noteq> z \<and> \<not> nested R v z"
        using level_ok_last [OF L(1) v] laminarD(1) [OF lam z(2)] by (auto simp: nested_def z_def)
      ultimately show ?thesis using that(2) L(2) by auto
    qed
    then show ?thesis
      using False rest level_ok_replace [OF L(1) Cons.prems(3) bl] place_in_levels_set [OF L(3)]
      by (simp add: z_def)
  qed
qed

end
