(* ===== verification/Alloc_Directory.thy ===== *)
theory Alloc_Directory
  imports Alloc_Packing Nested_Ranges Std_Map
begin

text \<open>
  The class \<open>Allocations::Directory\<close> of Allocations/Directory.h: the allocations of the process in
  order of address, found by finders that each report their own allocations in that order.  An
  allocation may lie inside another one (a wrapper); the directory keeps the wrappers by level of
  nesting and finds the innermost allocation that holds an address.

  A \<open>Finder\<close> is an interface: what the directory uses of one is the list of the allocations it still
  has to report, and its \<open>MinRequestSize\<close>.  Finders live in a store indexed by their address.  The
  theory holds the state, the consumption of one allocation and the queries; Alloc\_Resolve has the
  loops that merge the finders.  \<open>None\<close> stands for \<open>abort\<close>.
\<close>

section \<open>State\<close>

type_synonym pending = "addr \<times> addr \<times> bool"
type_synonym finders = "nat \<Rightarrow> pending list"

record Directory =
  allocations :: "Allocation list"
  allocationBoundariesResolved :: bool
  freeStatusFinalized :: bool
  hasThreadCached :: bool
  maxAllocationSize :: addr
  finderToIndex :: "(nat, nat) std_map"
  indexToFinder :: "nat list"
  limits :: "(nat \<times> addr) list"
  wrappers :: "nat list list"
  resolutionDoneCallbacks :: "nat list"

definition Directory_new :: Directory where
  "Directory_new =
     \<lparr>allocations = [], allocationBoundariesResolved = False, freeStatusFinalized = False,
      hasThreadCached = False, maxAllocationSize = 0, finderToIndex = [], indexToFinder = [],
      limits = [], wrappers = [], resolutionDoneCallbacks = []\<rparr>"

section \<open>Operations\<close>

definition AddFinder :: "Directory \<Rightarrow> nat \<Rightarrow> (Directory \<times> nat) option" where
  "AddFinder d finder =
     (if allocationBoundariesResolved d then None
      else if sm_find (finderToIndex d) finder \<noteq> None then None
      else if (of_nat (length (indexToFinder d)) :: addr) = MAX_FINDERS then None
      else
        let finderIndex = length (indexToFinder d) in
        Some (d\<lparr>finderToIndex := sm_assign finder finderIndex (finderToIndex d),
                indexToFinder := indexToFinder d @ [finder]\<rparr>, finderIndex))"

definition FinalizeFreeStatus :: "Directory \<Rightarrow> Directory option" where
  "FinalizeFreeStatus d =
     (if \<not> allocationBoundariesResolved d then None
      else if freeStatusFinalized d then None
      else Some (d\<lparr>freeStatusFinalized := True\<rparr>))"

definition AddResolutionDoneCallback :: "Directory \<Rightarrow> nat \<Rightarrow> Directory" where
  "AddResolutionDoneCallback d cb = d\<lparr>resolutionDoneCallbacks := resolutionDoneCallbacks d @ [cb]\<rparr>"

text \<open>
  The binary searches of \<open>AllocationIndexOf\<close>: over all allocations, where a wrapper is passed over, and
  over one level of wrappers.
\<close>

function index_search :: "(nat \<Rightarrow> Allocation) \<Rightarrow> (Allocation \<Rightarrow> bool) \<Rightarrow> addr \<Rightarrow> nat \<Rightarrow> nat \<Rightarrow> nat option" where
  "index_search get accept address base limit =
     (if base < limit then
        let mid = (base + limit) div 2; allocation = get mid;
            allocationAddress = al_Address allocation;
            allocationLimit = allocationAddress + al_Size allocation
        in if address \<ge> allocationAddress then
             if address < allocationLimit \<and> accept allocation then Some mid
             else index_search get accept address (mid + 1) limit
           else index_search get accept address base mid
      else None)"
  by auto
termination
  by (relation "measure (\<lambda>(get, accept, address, base, limit). limit - base)") auto

declare index_search.simps [simp del]

fun search_levels :: "Allocation list \<Rightarrow> addr \<Rightarrow> nat list list \<Rightarrow> nat option" where
  "search_levels as address [] = None"
| "search_levels as address (level # levels) =
     (case index_search (\<lambda>k. as ! (level ! k)) (\<lambda>a. True) address 0 (length level) of
        Some k \<Rightarrow> Some (level ! k)
      | None \<Rightarrow> search_levels as address levels)"

definition AllocationIndexOf :: "Directory \<Rightarrow> addr \<Rightarrow> nat" where
  "AllocationIndexOf d address =
     (case index_search (\<lambda>k. allocations d ! k) (\<lambda>a. \<not> al_IsWrapper a) address 0 (length (allocations d)) of
        Some k \<Rightarrow> k
      | None \<Rightarrow>
          (case search_levels (allocations d) address (wrappers d) of
             Some k \<Rightarrow> k
           | None \<Rightarrow> length (allocations d)))"

definition AllocationAt :: "Directory \<Rightarrow> nat \<Rightarrow> Allocation option" where
  "AllocationAt d index = (if index < length (allocations d) then Some (allocations d ! index) else None)"

text \<open>The finders' own \<open>MinRequestSize\<close> is the first argument.\<close>

definition MinRequestSize :: "(nat \<Rightarrow> addr \<Rightarrow> addr) \<Rightarrow> Directory \<Rightarrow> nat \<Rightarrow> addr" where
  "MinRequestSize finderMin d index =
     (if index < length (allocations d) then
        let allocation = allocations d ! index
        in finderMin (indexToFinder d ! unat (al_FinderIndex allocation)) (al_Size allocation)
      else 0)"

definition NumAllocations :: "Directory \<Rightarrow> nat" where
  "NumAllocations d = length (allocations d)"

definition MaxAllocationSize :: "Directory \<Rightarrow> addr" where
  "MaxAllocationSize d = maxAllocationSize d"

definition MarkAsFree :: "Directory \<Rightarrow> nat \<Rightarrow> Directory" where
  "MarkAsFree d index =
     (if index < length (allocations d)
      then d\<lparr>allocations := (allocations d)[index := al_MarkAsFree (allocations d ! index)]\<rparr> else d)"

definition MarkAsThreadCached :: "Directory \<Rightarrow> nat \<Rightarrow> Directory" where
  "MarkAsThreadCached d index =
     (if index < length (allocations d)
      then d\<lparr>allocations := (allocations d)[index := al_MarkAsThreadCached (allocations d ! index)],
             hasThreadCached := True\<rparr>
      else d)"

definition IsThreadCached :: "Directory \<Rightarrow> nat \<Rightarrow> bool" where
  "IsThreadCached d index \<longleftrightarrow> index < length (allocations d) \<and> al_IsThreadCached (allocations d ! index)"

section \<open>Consuming an allocation\<close>

text \<open>
  The \<open>while\<close> loop over \<open>_limits\<close>, with the back of the vector at the head of the list.  The flag says
  that the allocation is discarded.
\<close>

fun pop_limits :: "addr \<Rightarrow> addr \<Rightarrow> (nat \<times> addr) list \<Rightarrow> bool \<times> (nat \<times> addr) list" where
  "pop_limits address limit [] = (False, [])"
| "pop_limits address limit ((i, back) # ls) =
     (if limit > back then
        if address < back then (True, (i, back) # ls) else pop_limits address limit ls
      else (False, (i, back) # ls))"

text \<open>
  The loop over the levels of wrappers.  The back of every level and its allocation exist whenever the
  directory is well-formed (\<open>dir_ok\<close> below).
\<close>

fun place_wrapper :: "Allocation list \<Rightarrow> addr \<Rightarrow> nat \<Rightarrow> nat list list \<Rightarrow> nat list list" where
  "place_wrapper as limit toPlace [] = [[toPlace]]"
| "place_wrapper as limit toPlace (level # levels) =
     (let wrapperIndex = last level; allocation = as ! wrapperIndex in
      if al_Size allocation + al_Address allocation < limit then (level @ [toPlace]) # levels
      else (butlast level @ [toPlace]) # place_wrapper as limit wrapperIndex levels)"

definition push_allocation :: "Directory \<Rightarrow> nat \<Rightarrow> pending \<Rightarrow> bool \<Rightarrow> Directory" where
  "push_allocation d finderIndex = (\<lambda>(address, sz, isUsed) isWrapped.
     d\<lparr>limits := (length (allocations d), address + sz) # limits d,
       allocations := allocations d @ [Allocation_new address sz isUsed (of_nat finderIndex) isWrapped],
       maxAllocationSize := (if maxAllocationSize d < sz then sz else maxAllocationSize d)\<rparr>)"

definition consume_allocation :: "Directory \<Rightarrow> nat \<Rightarrow> pending \<Rightarrow> Directory" where
  "consume_allocation d finderIndex = (\<lambda>(address, sz, isUsed).
     let limit = address + sz in
     case pop_limits address limit (limits d) of
       (True, ls) \<Rightarrow> d\<lparr>limits := ls\<rparr>
     | (False, []) \<Rightarrow> push_allocation (d\<lparr>limits := []\<rparr>) finderIndex (address, sz, isUsed) False
     | (False, (wrapperIndex, back) # ls) \<Rightarrow>
         let d1 = d\<lparr>limits := (wrapperIndex, back) # ls\<rparr> in
         if \<not> al_IsWrapper (allocations d1 ! wrapperIndex) then
           let as = (allocations d1)[wrapperIndex := al_MarkAsWrapper (allocations d1 ! wrapperIndex)] in
           push_allocation
             (d1\<lparr>allocations := as, wrappers := place_wrapper as limit wrapperIndex (wrappers d1)\<rparr>)
             finderIndex (address, sz, isUsed) True
         else push_allocation d1 finderIndex (address, sz, isUsed) True)"

text \<open>The whole handler, which also advances the finder; a finder that is finished has no next allocation.\<close>

definition ConsumeCurrentAllocation :: "Directory \<Rightarrow> finders \<Rightarrow> nat \<Rightarrow> nat \<Rightarrow> (Directory \<times> finders) option" where
  "ConsumeCurrentAllocation d fs finderIndex finder =
     (case fs finder of
        [] \<Rightarrow> None
      | p # rest \<Rightarrow> Some (consume_allocation d finderIndex p, fs(finder := rest)))"

section \<open>Invariant\<close>

definition al_range :: "Allocation \<Rightarrow> nat \<times> nat" where
  "al_range a = (unat (al_Address a), unat (al_Address a) + unat (al_Size a))"

abbreviation dir_ranges :: "Directory \<Rightarrow> nranges" where
  "dir_ranges d \<equiv> map al_range (allocations d)"

text \<open>
  The allocations, in order, form a family of nested ranges; \<open>limits\<close> is the stack of those that are
  still open at \<open>cur\<close>; the wrappers are exactly the allocations that contain a later one, and the levels
  hold each wrapper, with the inner ones in the lower levels.
\<close>

definition dir_ok :: "nat \<Rightarrow> Directory \<Rightarrow> bool" where
  "dir_ok cur d \<longleftrightarrow>
     laminar (dir_ranges d) \<and> (\<forall>r\<in>set (dir_ranges d). snd r < 2 ^ 64) \<and>
     stack_ok (dir_ranges d) cur (map fst (limits d)) \<and>
     (\<forall>(i, w)\<in>set (limits d). unat w = hi (dir_ranges d) i) \<and>
     (\<forall>i<length (allocations d). al_IsWrapper (allocations d ! i) \<longleftrightarrow> i \<in> wraps (dir_ranges d)) \<and>
     levels_ok (dir_ranges d) (wrappers d) \<and> in_levels (wrappers d) = wraps (dir_ranges d)"

lemma al_range_MarkAsWrapper [simp]: "al_range (al_MarkAsWrapper a) = al_range a"
  by (simp add: al_range_def MarkAsWrapper_fields)

lemma al_limit_less:
  assumes "snd (al_range a) < 2 ^ 64"
  shows "unat (al_Address a + al_Size a) = snd (al_range a)"
  using assms by (simp add: al_range_def unat_word_ariths)

lemma pop_limits_outcome:
  assumes "stack_ok R (unat address) (map fst ls)" "\<forall>(i, w)\<in>set ls. unat w = hi R i" "address < limit"
    and "pop_limits address limit ls = (discard, ls')"
  shows "stack_ok R (unat address) (map fst ls')" "\<forall>(i, w)\<in>set ls'. unat w = hi R i"
    "discard \<longleftrightarrow> (\<exists>i<length R. unat address < hi R i \<and> hi R i < unat limit)"
    "\<not> discard \<Longrightarrow> i < length R \<Longrightarrow> i \<in> fst ` set ls' \<longleftrightarrow> unat limit \<le> hi R i"
proof -
  have "stack_ok R (unat address) (map fst ls') \<and> (\<forall>(i, w)\<in>set ls'. unat w = hi R i) \<and>
    (discard \<longleftrightarrow> (\<exists>i<length R. unat address < hi R i \<and> hi R i < unat limit)) \<and>
    (\<not> discard \<longrightarrow> (\<forall>i<length R. i \<in> fst ` set ls' \<longleftrightarrow> unat limit \<le> hi R i))"
    using assms
  proof (induction address limit ls rule: pop_limits.induct)
    case (1 address limit)
    then show ?case by (auto simp: stack_ok_def word_less_nat_alt dest!: leD [of "unat limit"])
  next
    case (2 address limit i bk ls)
    have stack: "stack_ok R (unat address) (i # map fst ls)" and bk: "unat bk = hi R i"
      using "2.prems"(1,2) by simp_all
    have i: "i < length R" using stack by (simp add: stack_ok_def)
    show ?case
    proof (cases "limit > bk")
      case True
      show ?thesis
      proof (cases "address < bk")
        case discard: True
        then have "unat address < hi R i \<and> hi R i < unat limit"
          using True bk by (simp add: word_less_nat_alt)
        then show ?thesis using "2.prems" True discard i by auto
      next
        case False
        then have "hi R i \<le> unat address" using bk by (simp add: word_less_nat_alt not_less)
        then have "stack_ok R (unat address) (map fst ls)" by (rule stack_ok_pop [OF stack])
        then show ?thesis using "2.IH" "2.prems" True False by simp
      qed
    next
      case False
      then have top: "unat limit \<le> hi R i" using bk by (simp add: word_less_nat_alt not_less)
      have all: "unat limit \<le> hi R j" if "j \<in> set (i # map fst ls)" for j
        using that stack top by (auto simp: stack_ok_def nested_def dest: order.trans)
      have "hi R j \<le> unat address" if "j < length R" "j \<notin> set (i # map fst ls)" for j
        using stack that by (simp add: stack_ok_def)
      then have iff: "j \<in> set (i # map fst ls) \<longleftrightarrow> unat limit \<le> hi R j" if "j < length R" for j
        using all [of j] that "2.prems"(3) by (force simp: word_less_nat_alt)
      have no: "\<not> (unat address < hi R j \<and> hi R j < unat limit)" if "j < length R" for j
        using iff [OF that] stack that by (auto simp: stack_ok_def)
      have ls': "\<not> discard" "ls' = (i, bk) # ls" using "2.prems"(4) False by simp_all
      have "j \<in> fst ` set ls' \<longleftrightarrow> unat limit \<le> hi R j" if "j < length R" for j
        using iff [OF that] ls'(2) by simp
      then show ?thesis using ls' no stack "2.prems"(2) by auto
    qed
  qed
  then show "stack_ok R (unat address) (map fst ls')" "\<forall>(i, w)\<in>set ls'. unat w = hi R i"
    "discard \<longleftrightarrow> (\<exists>i<length R. unat address < hi R i \<and> hi R i < unat limit)"
    "\<not> discard \<Longrightarrow> i < length R \<Longrightarrow> i \<in> fst ` set ls' \<longleftrightarrow> unat limit \<le> hi R i"
    by blast+
qed

text \<open>The loop over the levels, on the ranges.\<close>

lemma place_wrapper_levels:
  assumes "levels_ok (map al_range as) Ls" "toPlace < length as" "\<forall>r\<in>set (map al_range as). snd r < 2 ^ 64"
  shows "place_wrapper as limit toPlace Ls =
           place_in_levels (\<lambda>i. hi (map al_range as) i < unat limit) toPlace Ls"
  using assms(1,2)
proof (induction Ls arbitrary: toPlace)
  case (Cons L Ls)
  have "last L \<in> set L" "\<forall>i\<in>set L. i < length as" using Cons.prems by (auto simp: level_ok_def)
  then have z: "last L < length as" by blast
  then have "snd (al_range (as ! last L)) < 2 ^ 64" using assms(3) by simp
  from al_limit_less [OF this] z
  have "al_Size (as ! last L) + al_Address (as ! last L) < limit \<longleftrightarrow>
      hi (map al_range as) (last L) < unat limit"
    by (simp add: word_less_nat_alt add.commute)
  then show ?case using Cons z by (simp add: Let_def)
qed simp

lemma map_range_update:
  "w < length as \<Longrightarrow> map al_range (as[w := al_MarkAsWrapper (as ! w)]) = map al_range as"
  by (rule nth_equalityI) (auto simp: nth_list_update)

lemma range_of_new:
  assumes "sz \<le> SIZE_MASK" "f < unat MAX_FINDERS" "address \<le> address + sz"
  shows "al_range (Allocation_new address sz u (of_nat f) w) = (unat address, unat (address + sz))"
proof -
  have "of_nat f < MAX_FINDERS" using assms(2) by (simp add: word_less_nat_alt unat_of_nat al_constants)
  from Allocation_new_fields [OF assms(1) this] no_wrap_unat [OF assms(3)]
  show ?thesis by (simp add: al_range_def)
qed

text \<open>What the contract of finders promises of a reported allocation.\<close>

definition pending_ok :: "pending \<Rightarrow> bool" where
  "pending_ok = (\<lambda>(address, sz, u). 0 < sz \<and> sz \<le> SIZE_MASK \<and> address \<le> address + sz)"

lemma pending_okD:
  assumes "pending_ok (address, sz, u)"
  shows "sz \<le> SIZE_MASK" "address \<le> address + sz" "address < address + sz"
  using assms no_wrap_less [of address sz] by (simp_all add: pending_ok_def)

text \<open>Whether the allocation partly overlaps one found before.\<close>

definition overlaps :: "Directory \<Rightarrow> pending \<Rightarrow> bool" where
  "overlaps d = (\<lambda>(address, sz, u). \<exists>r\<in>set (dir_ranges d). unat address < snd r \<and> snd r < unat (address + sz))"

lemma push_allocation_fields:
  "allocations (push_allocation d f (address, sz, u) w) =
     allocations d @ [Allocation_new address sz u (of_nat f) w]"
  "limits (push_allocation d f (address, sz, u) w) = (length (allocations d), address + sz) # limits d"
  "wrappers (push_allocation d f (address, sz, u) w) = wrappers d"
  "maxAllocationSize (push_allocation d f (address, sz, u) w) = max (maxAllocationSize d) sz"
  by (auto simp: push_allocation_def max_def)

text \<open>Pushing an allocation once the stack and the levels are in order.\<close>

lemma push_allocation_ok:
  assumes p: "pending_ok (address, sz, u)" and f: "f < unat MAX_FINDERS"
    and lam: "laminar (dir_ranges d)" and small: "\<forall>r\<in>set (dir_ranges d). snd r < 2 ^ 64"
    and stack: "stack_ok (dir_ranges d) (unat address) (map fst (limits d))"
    and lim: "\<forall>(i, w)\<in>set (limits d). unat w = hi (dir_ranges d) i"
    and open_iff: "\<And>i. i < length (allocations d) \<Longrightarrow>
        i \<in> fst ` set (limits d) \<longleftrightarrow> unat (address + sz) \<le> hi (dir_ranges d) i"
    and wr: "\<forall>i<length (allocations d). al_IsWrapper (allocations d ! i) \<longleftrightarrow>
        i \<in> wraps (dir_ranges d) \<or> i \<in> fst ` set (limits d)"
    and lev: "levels_ok (dir_ranges d) (wrappers d)"
      "in_levels (wrappers d) = wraps (dir_ranges d) \<union> fst ` set (limits d)"
  shows "dir_ok (unat address) (push_allocation d f (address, sz, u) w)"
proof -
  let ?R = "dir_ranges d" and ?l = "unat address" and ?h = "unat (address + sz)"
  note P = pending_okD [OF p]
  have R': "dir_ranges (push_allocation d f (address, sz, u) w) = ?R @ [(?l, ?h)]"
    by (simp add: push_allocation_fields range_of_new [OF P(1) f P(2)])
  have lh: "?l < ?h" using P(3) by (simp add: word_less_nat_alt)
  have len: "length ?R = length (allocations d)" by simp
  have closed: "hi ?R i \<le> ?l" if "i < length ?R" "\<not> ?h \<le> hi ?R i" for i
    using stack open_iff [of i] that by (auto simp: stack_ok_def)
  have lo: "lo ?R i \<le> ?l" if "i < length ?R" for i using stack that by (simp add: stack_ok_def)
  have st: "set (map fst (limits d)) = fst ` set (limits d)" by simp
  have inR: "i < length (allocations d)" if "i \<in> fst ` set (limits d)" for i
    using stack that by (auto simp: stack_ok_def)
  have wraps': "wraps (?R @ [(?l, ?h)]) = wraps ?R \<union> fst ` set (limits d)"
  proof -
    have "i < length ?R \<and> ?h \<le> hi ?R i \<longleftrightarrow> i \<in> fst ` set (limits d)" for i
      using open_iff [of i] inR [of i] len by metis
    then show ?thesis unfolding wraps_snoc by auto
  qed
  have new: "\<not> al_IsWrapper (Allocation_new address sz u (of_nat f) w)"
    using Allocation_new_fields(6) [OF P(1), of "of_nat f"] f
    by (simp add: word_less_nat_alt unat_of_nat al_constants)
  have notin: "length ?R \<notin> wraps ?R \<union> fst ` set (limits d)"
    using inR by (auto simp: wraps_def nested_def)
  have "laminar (?R @ [(?l, ?h)])"
    by (rule laminar_snoc [OF lam lh]) (use lo closed in auto)
  moreover have "\<forall>r\<in>set (?R @ [(?l, ?h)]). snd r < 2 ^ 64"
    using small unsigned_less [where 'a = nat, of "address + sz"] by auto
  moreover have "stack_ok (?R @ [(?l, ?h)]) ?l (length ?R # map fst (limits d))"
    by (rule stack_ok_push [OF stack lh]) (use open_iff in auto)
  moreover have "\<forall>(i, w)\<in>set ((length ?R, address + sz) # limits d). unat w = hi (?R @ [(?l, ?h)]) i"
    using lim inR by (fastforce simp: nth_append)
  moreover have "\<forall>i<length (allocations d @ [Allocation_new address sz u (of_nat f) w]).
      al_IsWrapper ((allocations d @ [Allocation_new address sz u (of_nat f) w]) ! i) \<longleftrightarrow>
      i \<in> wraps (?R @ [(?l, ?h)])"
    unfolding wraps' using wr new notin by (auto simp: nth_append less_Suc_eq)
  moreover have "levels_ok (?R @ [(?l, ?h)]) (wrappers d)" using lev(1) by (rule levels_ok_snoc)
  ultimately show ?thesis
    unfolding dir_ok_def R' using lev(2) wraps'
    by (simp add: push_allocation_fields)
qed

lemma consume_allocation_ok:
  assumes ok: "dir_ok cur d" and p: "pending_ok (address, sz, u)" and f: "f < unat MAX_FINDERS"
    and cur: "cur \<le> unat address"
  shows "dir_ok (unat address) (consume_allocation d f (address, sz, u))"
    and "map al_range (allocations (consume_allocation d f (address, sz, u))) =
           dir_ranges d @ (if overlaps d (address, sz, u) then [] else [(unat address, unat (address + sz))])"
proof -
  let ?R = "dir_ranges d" and ?l = "unat address" and ?limit = "address + sz"
  note P = pending_okD [OF p]
  have D: "laminar ?R" "\<forall>r\<in>set ?R. snd r < 2 ^ 64" "stack_ok ?R ?l (map fst (limits d))"
    "\<forall>(i, w)\<in>set (limits d). unat w = hi ?R i"
    "\<forall>i<length (allocations d). al_IsWrapper (allocations d ! i) \<longleftrightarrow> i \<in> wraps ?R"
    "levels_ok ?R (wrappers d)" "in_levels (wrappers d) = wraps ?R"
    using ok stack_ok_mono [OF _ cur] by (auto simp: dir_ok_def)
  obtain discard ls where pop: "pop_limits address ?limit (limits d) = (discard, ls)" by fastforce
  note out = pop_limits_outcome [OF D(3,4) P(3) pop]
  have ov: "overlaps d (address, sz, u) \<longleftrightarrow> discard"
    unfolding out(3) overlaps_def prod.case Bex_set_nth by simp
  have ranges_push: "map al_range (allocations (push_allocation d' f (address, sz, u) w)) =
      dir_ranges d' @ [(?l, unat ?limit)]" for d' w
    by (simp add: push_allocation_fields range_of_new [OF P(1) f P(2)])
  have "dir_ok ?l (consume_allocation d f (address, sz, u)) \<and>
    map al_range (allocations (consume_allocation d f (address, sz, u))) =
      ?R @ (if discard then [] else [(?l, unat ?limit)])"
  proof (cases discard)
    case True
    then show ?thesis
      using D out(1,2) pop by (simp add: consume_allocation_def dir_ok_def)
  next
    case False
    note open_iff = out(4) [OF False]
    show ?thesis
    proof (cases ls)
      case Nil
      have "dir_ok ?l (push_allocation (d\<lparr>limits := []\<rparr>) f (address, sz, u) False)"
        by (rule push_allocation_ok [OF p f]) (use D out(1) open_iff Nil in auto)
      then show ?thesis using False Nil pop ranges_push by (simp add: consume_allocation_def)
    next
      case (Cons b ls')
      obtain x w where b: "b = (x, w)" by (cases b)
      define d1 where "d1 = d\<lparr>limits := (x, w) # ls'\<rparr>"
      have st: "stack_ok ?R ?l (x # map fst ls')" using out(1) Cons b by simp
      have x: "x < length (allocations d)" using st by (simp add: stack_ok_def)
      have inner: "fst ` set ls' \<subseteq> wraps ?R" using stack_ok_wraps [OF st] by auto
      have open_iff': "i = x \<or> i \<in> fst ` set ls' \<longleftrightarrow> unat ?limit \<le> hi ?R i" if "i < length (allocations d)" for i
        using open_iff [of i] that Cons b by simp
      show ?thesis
      proof (cases "al_IsWrapper (allocations d ! x)")
        case True
        then have xw: "x \<in> wraps ?R" using D(5) x by blast
        have wr1: "\<forall>i<length (allocations d1). al_IsWrapper (allocations d1 ! i) \<longleftrightarrow>
            i \<in> wraps ?R \<or> i \<in> fst ` set (limits d1)"
          using D(5) xw inner by (simp add: d1_def) blast
        have in1: "in_levels (wrappers d1) = wraps ?R \<union> fst ` set (limits d1)"
          using D(7) xw inner by (simp add: d1_def) blast
        have "dir_ok ?l (push_allocation d1 f (address, sz, u) True)"
          by (rule push_allocation_ok [OF p f])
            (use D out(1,2) open_iff' Cons b wr1 in1 in \<open>simp_all add: d1_def\<close>)
        then show ?thesis
          using False True Cons b pop ranges_push by (simp add: consume_allocation_def d1_def)
      next
        case notw: False
        then have xw: "x \<notin> wraps ?R" using D(5) x by blast
        define as where "as = (allocations d)[x := al_MarkAsWrapper (allocations d ! x)]"
        define d2 where "d2 = d1\<lparr>allocations := as, wrappers := place_wrapper as ?limit x (wrappers d)\<rparr>"
        have as: "map al_range as = ?R" "length as = length (allocations d)"
          using map_range_update [OF x] by (simp_all add: as_def)
        have R2: "dir_ranges d2 = ?R" by (simp add: d2_def as)
        have pl: "place_wrapper as ?limit x (wrappers d) =
            place_in_levels (\<lambda>i. hi ?R i < unat ?limit) x (wrappers d)"
          using place_wrapper_levels [of as "wrappers d" x ?limit] D(2,6) x as by simp
        have closed: "hi ?R i \<le> ?l" if "i < length ?R" "hi ?R i < unat ?limit" for i
          using st that open_iff' [of i] by (fastforce simp: stack_ok_def)
        have lev: "levels_ok ?R (place_wrapper as ?limit x (wrappers d))"
          unfolding pl
        proof (rule place_in_levels_ok [OF D(1,6)])
          show "x < length ?R" using x by simp
          show "unat ?limit \<le> hi ?R x" using open_iff' x by blast
          show "?l < unat ?limit" using P(3) by (simp add: word_less_nat_alt)
          show "\<forall>i\<in>in_levels (wrappers d). \<not> nested ?R x i" using xw by (auto simp: wraps_def)
          show "x \<notin> in_levels (wrappers d)" using xw D(7) by simp
          show "\<forall>i<length ?R. lo ?R i \<le> ?l \<and>
              (if hi ?R i < unat ?limit then hi ?R i \<le> ?l else unat ?limit \<le> hi ?R i)"
            using st closed by (auto simp: stack_ok_def not_less)
        qed
        have inlev: "in_levels (place_wrapper as ?limit x (wrappers d)) = insert x (wraps ?R)"
          unfolding pl place_in_levels_set [OF D(6)] D(7) ..
        have "al_IsWrapper (as ! i) \<longleftrightarrow> i \<in> wraps ?R \<or> i = x" if "i < length as" for i
          using D(5) that as(2) x by (auto simp: as_def nth_list_update MarkAsWrapper_fields)
        then have wr2: "\<forall>i<length (allocations d2). al_IsWrapper (allocations d2 ! i) \<longleftrightarrow>
            i \<in> wraps ?R \<or> i \<in> fst ` set (limits d2)"
          using inner by (simp add: d2_def d1_def) blast
        have in2: "in_levels (wrappers d2) = wraps ?R \<union> fst ` set (limits d2)"
          using inlev inner by (simp add: d2_def d1_def) blast
        have "dir_ok ?l (push_allocation d2 f (address, sz, u) True)"
          by (intro push_allocation_ok [OF p f], unfold R2)
            (use D out(1,2) open_iff' Cons b lev as wr2 in2 in \<open>simp_all add: d2_def d1_def\<close>)
        then show ?thesis
          using False notw Cons b pop ranges_push [of d2] R2
          by (simp add: consume_allocation_def Let_def d2_def d1_def as_def)
      qed
    qed
  qed
  then show "dir_ok ?l (consume_allocation d f (address, sz, u))"
    "map al_range (allocations (consume_allocation d f (address, sz, u))) =
           dir_ranges d @ (if overlaps d (address, sz, u) then [] else [(unat address, unat (address + sz))])"
    using ov by simp_all
qed

section \<open>Finding the allocation of an address\<close>

lemma index_search_unfold:
  "\<not> base < limit \<Longrightarrow> index_search get acc a base limit = None"
  "base < limit \<Longrightarrow> mid = (base + limit) div 2 \<Longrightarrow>
   index_search get acc a base limit =
     (if al_Address (get mid) \<le> a then
        if a < al_Address (get mid) + al_Size (get mid) \<and> acc (get mid) then Some mid
        else index_search get acc a (mid + 1) limit
      else index_search get acc a base mid)"
  by (subst index_search.simps, simp add: Let_def)+

lemma index_search_Some:
  assumes "index_search get acc a base limit = Some m"
  shows "base \<le> m" "m < limit" "al_Address (get m) \<le> a" "a < al_Address (get m) + al_Size (get m)" "acc (get m)"
proof -
  have "base \<le> m \<and> m < limit \<and> al_Address (get m) \<le> a \<and> a < al_Address (get m) + al_Size (get m) \<and> acc (get m)"
    using assms
  proof (induction get acc a base limit rule: index_search.induct)
    case (1 get acc a base limit)
    define mid where "mid = (base + limit) div 2"
    have lt: "base < limit" using "1.prems" index_search_unfold(1) [of base limit get acc a] by auto
    then have mid: "base \<le> mid" "mid < limit" by (auto simp: mid_def)
    note unfold = index_search_unfold(2) [OF lt mid_def, of get acc a]
    show ?case
    proof (cases "al_Address (get mid) \<le> a")
      case ge: True
      show ?thesis
      proof (cases "a < al_Address (get mid) + al_Size (get mid) \<and> acc (get mid)")
        case True
        then have "m = mid"
          using "1.prems" ge unfold by simp
        then show ?thesis using mid ge True by simp
      next
        case False
        then have "index_search get acc a (mid + 1) limit = Some m"
          using "1.prems" ge unfold by auto
        from "1.IH"(1) [OF lt mid_def refl refl refl ge False [unfolded mid_def [symmetric]] this] mid
        show ?thesis by simp
      qed
    next
      case False
      then have "index_search get acc a base mid = Some m"
        using "1.prems" unfold by simp
      from "1.IH"(2) [OF lt mid_def refl refl refl False this] mid
      show ?thesis by simp
    qed
  qed
  then show "base \<le> m" "m < limit" "al_Address (get m) \<le> a" "a < al_Address (get m) + al_Size (get m)"
    "acc (get m)" by blast+
qed

text \<open>
  The search finds the one index that holds the address if the indices before it start at or below the
  address without holding it, and the ones after it start above.
\<close>

lemma index_search_finds_from:
  assumes "base \<le> k" "k < limit"
    and "al_Address (get k) \<le> a" "a < al_Address (get k) + al_Size (get k)" "acc (get k)"
    and "\<forall>m<k. base \<le> m \<longrightarrow> al_Address (get m) \<le> a \<and> \<not> (a < al_Address (get m) + al_Size (get m) \<and> acc (get m))"
    and "\<forall>m<limit. k < m \<longrightarrow> a < al_Address (get m)"
  shows "index_search get acc a base limit = Some k"
  using assms
proof (induction get acc a base limit rule: index_search.induct)
  case (1 get acc a base limit)
  define mid where "mid = (base + limit) div 2"
  have lt: "base < limit" using "1.prems" by simp
  then have mid: "base \<le> mid" "mid < limit" by (auto simp: mid_def)
  note unfold = index_search_unfold(2) [OF lt mid_def, of get acc a]
  consider "mid < k" | "mid = k" | "k < mid" by linarith
  then show ?case
  proof cases
    case 1
    have ge: "al_Address (get mid) \<le> a"
      and no: "\<not> (a < al_Address (get mid) + al_Size (get mid) \<and> acc (get mid))"
      using "1.prems"(6) 1 mid(1) by blast+
    have "index_search get acc a (mid + 1) limit = Some k"
      using "1.IH"(1) [OF lt mid_def refl refl refl ge no] "1.prems" 1 mid(1) by auto
    then show ?thesis
      using ge no unfold by auto
  next
    case 2
    then show ?thesis
      using "1.prems"(3-5) unfold by simp
  next
    case 3
    then have not_ge: "\<not> al_Address (get mid) \<le> a" using "1.prems"(7) mid by (simp add: not_le)
    have "index_search get acc a base mid = Some k"
      using "1.IH"(2) [OF lt mid_def refl refl refl not_ge] "1.prems" 3 mid by simp
    then show ?thesis
      using not_ge unfold by simp
  qed
qed

lemma index_search_finds:
  assumes "k < limit"
    and "al_Address (get k) \<le> a" "a < al_Address (get k) + al_Size (get k)" "acc (get k)"
    and "\<forall>m<k. al_Address (get m) \<le> a \<and> \<not> (a < al_Address (get m) + al_Size (get m) \<and> acc (get m))"
    and "\<forall>m<limit. k < m \<longrightarrow> a < al_Address (get m)"
  shows "index_search get acc a 0 limit = Some k"
  using index_search_finds_from [of 0 k limit get a acc] assms by blast

text \<open>The comparisons of the searches, on the ranges.\<close>

lemma al_range_compare:
  assumes "snd (al_range a) < 2 ^ 64"
  shows "al_Address a \<le> x \<longleftrightarrow> fst (al_range a) \<le> unat x"
    and "x < al_Address a + al_Size a \<longleftrightarrow> unat x < snd (al_range a)"
  using al_limit_less [OF assms] by (simp_all add: word_le_nat_alt word_less_nat_alt) (simp add: al_range_def)

lemma level_search:
  fixes x :: addr
  assumes "level_ok (map al_range as) L" "laminar (map al_range as)"
    and small: "\<forall>r\<in>set (map al_range as). snd r < 2 ^ 64"
  defines "found \<equiv> index_search (\<lambda>k. as ! (L ! k)) (\<lambda>a. True) x 0 (length L)"
  shows "found = Some k \<Longrightarrow> L ! k \<in> set L \<inter> containing (map al_range as) (unat x)"
    and "found = None \<Longrightarrow> set L \<inter> containing (map al_range as) (unat x) = {}"
proof -
  let ?R = "map al_range as"
  have L: "\<forall>i\<in>set L. i < length as" and order: "sorted_wrt (\<lambda>i j. i < j \<and> hi ?R i \<le> lo ?R j) L"
    using assms(1) by (simp_all add: level_ok_def)
  have cmp: "al_Address (as ! i) \<le> x \<longleftrightarrow> lo ?R i \<le> unat x"
    "x < al_Address (as ! i) + al_Size (as ! i) \<longleftrightarrow> unat x < hi ?R i" if "i \<in> set L" for i
    using al_range_compare [of "as ! i" x] small L that by simp_all
  show "L ! k \<in> set L \<inter> containing ?R (unat x)" if "found = Some k"
  proof -
    note * = index_search_Some [OF that [unfolded found_def]]
    then have "L ! k \<in> set L" by simp
    then show ?thesis using *(3,4) cmp [of "L ! k"] L by (simp add: containing_def)
  qed
  show "set L \<inter> containing ?R (unat x) = {}" if none: "found = None"
  proof (rule ccontr)
    assume "set L \<inter> containing ?R (unat x) \<noteq> {}"
    then obtain k where k: "k < length L" "L ! k \<in> containing ?R (unat x)"
      by (auto simp: in_set_conv_nth)
    have c: "lo ?R (L ! k) \<le> unat x" "unat x < hi ?R (L ! k)" using k(2) by (auto simp: containing_def)
    have before: "lo ?R (L ! m) \<le> unat x \<and> hi ?R (L ! m) \<le> unat x" if "m < k" for m
    proof -
      have "hi ?R (L ! m) \<le> lo ?R (L ! k)" using order that k(1) by (simp add: sorted_wrt_iff_nth_less)
      moreover have "lo ?R (L ! m) < hi ?R (L ! m)"
        using laminarD(1) [OF assms(2), of "L ! m"] L that k(1) by simp
      ultimately show ?thesis using c(1) by linarith
    qed
    have after: "unat x < lo ?R (L ! m)" if "k < m" "m < length L" for m
      using order that c(2) by (fastforce simp: sorted_wrt_iff_nth_less)
    have "found = Some k"
      unfolding found_def
    proof (rule index_search_finds)
      show "\<forall>m<k. al_Address (as ! (L ! m)) \<le> x \<and>
          \<not> (x < al_Address (as ! (L ! m)) + al_Size (as ! (L ! m)) \<and> True)"
        using before cmp k(1) by (simp add: not_less)
      show "\<forall>m<length L. k < m \<longrightarrow> x < al_Address (as ! (L ! m))"
        using after cmp(1) by (simp add: not_le [symmetric])
    qed (use k c cmp [of "L ! k"] in auto)
    then show False using none by simp
  qed
qed

lemma search_levels_outcome:
  assumes "levels_ok (map al_range as) Ls" "laminar (map al_range as)"
    and "\<forall>r\<in>set (map al_range as). snd r < 2 ^ 64"
  shows "search_levels as x Ls = Some k \<Longrightarrow>
           k \<in> in_levels Ls \<inter> containing (map al_range as) (unat x) \<and>
           (\<forall>j\<in>in_levels Ls \<inter> containing (map al_range as) (unat x). \<not> nested (map al_range as) k j)"
    and "search_levels as x Ls = None \<Longrightarrow> in_levels Ls \<inter> containing (map al_range as) (unat x) = {}"
  using assms(1)
proof (induction Ls)
  case (Cons L Ls)
  let ?R = "map al_range as"
  note LS = level_search [OF _ assms(2,3), of L x]
  { case 1
    show ?case
    proof (cases "index_search (\<lambda>k. as ! (L ! k)) (\<lambda>a. True) x 0 (length L)")
      case None
      then have "set L \<inter> containing ?R (unat x) = {}" using LS(2) 1 by simp
      then show ?thesis using Cons.IH(1) 1 None by auto
    next
      case (Some m)
      then have k: "k = L ! m" "k \<in> set L" "k \<in> containing ?R (unat x)" using LS(1) [of m] 1 by auto
      have "\<not> nested ?R k j" if "j \<in> set L" "j \<in> containing ?R (unat x)" for j
      proof
        assume "nested ?R k j"
        then have "hi ?R k \<le> lo ?R j"
          using level_ok_disjoint [of ?R L k j] k(2) that(1) 1 by (simp add: nested_def)
        then show False using k(3) that(2) by (simp add: containing_def)
      qed
      then show ?thesis using k 1 by auto
    qed
  next
    case 2
    then have "index_search (\<lambda>k. as ! (L ! k)) (\<lambda>a. True) x 0 (length L) = None"
      "search_levels as x Ls = None" by (auto split: option.splits)
    then show ?case using LS(2) Cons.IH(2) 2 by auto }
qed simp_all

lemma AllocationIndexOf_spec:
  fixes x :: addr
  assumes ok: "dir_ok cur d"
  defines "C \<equiv> containing (dir_ranges d) (unat x)"
  shows "AllocationIndexOf d x = (if C = {} then length (allocations d) else Max C)"
proof -
  let ?R = "dir_ranges d"
  have D: "laminar ?R" "\<forall>r\<in>set ?R. snd r < 2 ^ 64"
    "\<forall>i<length (allocations d). al_IsWrapper (allocations d ! i) \<longleftrightarrow> i \<in> wraps ?R"
    "levels_ok ?R (wrappers d)" "in_levels (wrappers d) = wraps ?R"
    using ok by (auto simp: dir_ok_def)
  have cmp: "al_Address (allocations d ! i) \<le> x \<longleftrightarrow> lo ?R i \<le> unat x"
    "x < al_Address (allocations d ! i) + al_Size (allocations d ! i) \<longleftrightarrow> unat x < hi ?R i"
    if "i < length (allocations d)" for i
    using al_range_compare [of "allocations d ! i" x] D(2) that by simp_all
  let ?first = "index_search (\<lambda>k. allocations d ! k) (\<lambda>a. \<not> al_IsWrapper a) x 0 (length (allocations d))"
  have leaf: "?first = Some k" if k: "k \<in> C" "k \<notin> wraps ?R" for k
  proof (rule index_search_finds)
    have kn: "k < length (allocations d)" using k(1) by (simp add: C_def containing_def)
    show "k < length (allocations d)" by (rule kn)
    show "al_Address (allocations d ! k) \<le> x" "x < al_Address (allocations d ! k) + al_Size (allocations d ! k)"
      using k(1) cmp [OF kn] by (auto simp: C_def containing_def)
    show "\<not> al_IsWrapper (allocations d ! k)" using D(3) kn k(2) by blast
    show "\<forall>m<k. al_Address (allocations d ! m) \<le> x \<and>
        \<not> (x < al_Address (allocations d ! m) + al_Size (allocations d ! m) \<and> \<not> al_IsWrapper (allocations d ! m))"
    proof (intro allI impI conjI notI; (elim conjE)?)
      fix m assume "m < k"
      then have "lo ?R m \<le> lo ?R k" using laminarD(2) [OF D(1)] kn by simp
      then have le: "lo ?R m \<le> unat x" using k(1) by (auto simp: C_def containing_def)
      then show "al_Address (allocations d ! m) \<le> x" using cmp(1) [of m] \<open>m < k\<close> kn by simp
      assume "x < al_Address (allocations d ! m) + al_Size (allocations d ! m)" "\<not> al_IsWrapper (allocations d ! m)"
      then have "m \<in> C" "m \<notin> wraps ?R"
        using le cmp(2) [of m] D(3) \<open>m < k\<close> kn by (auto simp: C_def containing_def)
      then show False
        using containing_nested [OF D(1), of m "unat x" k] k(1) \<open>m < k\<close> by (auto simp: C_def wraps_def)
    qed
    show "\<forall>m<length (allocations d). k < m \<longrightarrow> x < al_Address (allocations d ! m)"
    proof (intro allI impI)
      fix m assume m: "m < length (allocations d)" "k < m"
      have "\<not> lo ?R m \<le> unat x"
        using containing_wraps [OF D(1), of k "unat x" m] k m by (auto simp: C_def)
      then show "x < al_Address (allocations d ! m)" using cmp(1) [OF m(1)] by (simp add: not_le)
    qed
  qed
  show ?thesis
  proof (cases ?first)
    case (Some k)
    note * = index_search_Some [OF Some]
    then have "k \<in> C" "k \<notin> wraps ?R" using cmp [of k] D(3) by (auto simp: C_def containing_def)
    then show ?thesis
      using Some containing_leaf_Max [OF D(1), of k "unat x"] by (auto simp: AllocationIndexOf_def C_def)
  next
    case None
    then have CW: "C \<subseteq> wraps ?R" using leaf by force
    show ?thesis
    proof (cases "search_levels (allocations d) x (wrappers d)")
      case n: None
      then have "C = {}" using search_levels_outcome(2) [OF D(4,1,2) n] CW D(5) by (auto simp: C_def)
      then show ?thesis using None n by (simp add: AllocationIndexOf_def)
    next
      case (Some k)
      have k: "k \<in> C" "\<forall>j\<in>C. \<not> nested ?R k j"
        using search_levels_outcome(1) [OF D(4,1,2) Some] CW D(5) by (auto simp: C_def)
      have "Max C = k"
      proof (rule Max_eqI)
        show "finite C" by (simp add: C_def)
        show "j \<le> k" if "j \<in> C" for j
          using containing_nested [OF D(1), of k "unat x" j] k that by (auto simp: C_def not_less [symmetric])
      qed (rule k(1))
      then show ?thesis using None Some k(1) by (auto simp: AllocationIndexOf_def)
    qed
  qed
qed

lemma dir_ok_new: "dir_ok 0 Directory_new"
  by (simp add: dir_ok_def Directory_new_def laminar_def stack_ok_def wraps_def nested_def)

lemma consume_allocation_max:
  "maxAllocationSize (consume_allocation d f p) =
     (if \<exists>ls. pop_limits (fst p) (fst p + fst (snd p)) (limits d) = (True, ls) then maxAllocationSize d
      else max (maxAllocationSize d) (fst (snd p)))"
  by (auto simp: consume_allocation_def Let_def push_allocation_fields split: prod.splits bool.splits list.splits)

lemma MarkAsFree_ok:
  assumes "dir_ok cur d"
  shows "dir_ok cur (MarkAsFree d i)" "dir_ranges (MarkAsFree d i) = dir_ranges d"
proof -
  have R: "al_range (al_MarkAsFree a) = al_range a" for a by (simp add: al_range_def MarkAsFree_fields)
  show ranges: "dir_ranges (MarkAsFree d i) = dir_ranges d"
  proof (cases "i < length (allocations d)")
    case True
    then show ?thesis
      by (intro nth_equalityI) (auto simp: MarkAsFree_def nth_list_update R)
  qed (simp add: MarkAsFree_def)
  have "length (allocations (MarkAsFree d i)) = length (allocations d)"
    "al_IsWrapper (allocations (MarkAsFree d i) ! j) = al_IsWrapper (allocations d ! j)" for j
    by (auto simp: MarkAsFree_def nth_list_update MarkAsFree_fields)
  moreover have "limits (MarkAsFree d i) = limits d" "wrappers (MarkAsFree d i) = wrappers d"
    by (simp_all add: MarkAsFree_def)
  ultimately show "dir_ok cur (MarkAsFree d i)" using assms unfolding dir_ok_def ranges by simp
qed

text \<open>The finders of a directory: the map and the vector agree.\<close>

definition finders_ok :: "Directory \<Rightarrow> bool" where
  "finders_ok d \<longleftrightarrow> sm_sorted (finderToIndex d) \<and> length (indexToFinder d) \<le> 256 \<and>
     (\<forall>f i. sm_find (finderToIndex d) f = Some i \<longleftrightarrow> i < length (indexToFinder d) \<and> indexToFinder d ! i = f)"

section \<open>Properties\<close>

text \<open>
  C5: Consuming one allocation keeps the directory well-formed.  For an allocation as the contract of
  finders promises it (non-empty, not wrapping, its size within the mask), at or after the start of the
  last one, the allocation is appended unless it partly overlaps an earlier one, in which case nothing
  is appended; no earlier range changes; and afterwards the allocations are nested ranges in order, the
  wrappers are exactly those that contain another one, and the levels hold each wrapper with inner ones
  in lower levels.
\<close>

theorem consume_allocation_correct:
  assumes "dir_ok cur d" "pending_ok (address, sz, u)" "f < unat MAX_FINDERS" "cur \<le> unat address"
  defines "d' \<equiv> consume_allocation d f (address, sz, u)"
  shows "dir_ok (unat address) d' \<and>
         dir_ranges d' = dir_ranges d @
           (if overlaps d (address, sz, u) then [] else [(unat address, unat address + unat sz)])"
  using consume_allocation_ok [OF assms(1-4)] no_wrap_unat [OF pending_okD(2) [OF assms(2)]]
  unfolding d'_def by simp

theorem consume_allocation_correct_witness:
  "dir_ok 0 Directory_new \<and> pending_ok (0x1000, 0x100, True) \<and> (3::nat) < unat MAX_FINDERS \<and>
   dir_ranges (consume_allocation Directory_new 3 (0x1000, 0x100, True)) = [(0x1000, 0x1100)]"
proof -
  have p: "pending_ok (0x1000, 0x100, True)" and f: "(3::nat) < unat MAX_FINDERS"
    by (simp_all add: pending_ok_def al_constants mask_eq_exp_minus_1)
  have "dir_ranges Directory_new = []" "\<not> overlaps Directory_new (0x1000, 0x100, True)"
    by (simp_all add: Directory_new_def overlaps_def)
  then show ?thesis
    using consume_allocation_correct [OF dir_ok_new p f] dir_ok_new p f by simp
qed

text \<open>
  C6: \<open>AllocationIndexOf\<close> finds the innermost allocation that holds an address: among the allocations
  that hold it the one found last, which lies inside all the others; and the number of allocations when
  none holds it.
\<close>

theorem AllocationIndexOf_innermost:
  assumes "dir_ok cur d"
  shows "(AllocationIndexOf d x = NumAllocations d \<longleftrightarrow> containing (dir_ranges d) (unat x) = {}) \<and>
         (containing (dir_ranges d) (unat x) \<noteq> {} \<longrightarrow>
            AllocationIndexOf d x \<in> containing (dir_ranges d) (unat x) \<and>
            (\<forall>j\<in>containing (dir_ranges d) (unat x). j \<noteq> AllocationIndexOf d x \<longrightarrow>
               nested (dir_ranges d) j (AllocationIndexOf d x)))"
proof -
  let ?C = "containing (dir_ranges d) (unat x)"
  have lam: "laminar (dir_ranges d)" using assms by (simp add: dir_ok_def)
  show ?thesis
  proof (cases "?C = {}")
    case False
    define k where "k = Max ?C"
    have k: "k \<in> ?C" using False by (simp add: k_def)
    then have "k < length (allocations d)" by (auto simp: containing_def)
    moreover have "nested (dir_ranges d) j k" if "j \<in> ?C" "j \<noteq> k" for j
      using containing_nested [OF lam that(1) k] Max_ge [OF finite_containing that(1)] that(2)
      by (simp add: order.strict_iff_order k_def)
    moreover have "AllocationIndexOf d x = k" using False AllocationIndexOf_spec [OF assms] by (simp add: k_def)
    ultimately show ?thesis using k False by (auto simp: NumAllocations_def)
  qed (use AllocationIndexOf_spec [OF assms] in \<open>simp add: NumAllocations_def\<close>)
qed

text \<open>Two nested allocations, for the witnesses.\<close>

definition example_directory :: Directory where
  "example_directory =
     consume_allocation (consume_allocation Directory_new 0 (0x1000, 0x100, True)) 1 (0x1010, 0x10, False)"

lemma example_directory_ok:
  "dir_ok 0x1010 example_directory" "dir_ranges example_directory = [(0x1000, 0x1100), (0x1010, 0x1020)]"
proof -
  have p: "pending_ok (0x1000, 0x100, True)" "pending_ok (0x1010, 0x10, False)"
    and f: "(0::nat) < unat MAX_FINDERS" "(1::nat) < unat MAX_FINDERS"
    by (simp_all add: pending_ok_def al_constants mask_eq_exp_minus_1)
  let ?d = "consume_allocation Directory_new 0 (0x1000, 0x100, True)"
  have "\<not> overlaps Directory_new (0x1000, 0x100, True)" "dir_ranges Directory_new = []"
    by (simp_all add: Directory_new_def overlaps_def)
  then have d: "dir_ok 0x1000 ?d" "dir_ranges ?d = [(0x1000, 0x1100)]"
    using consume_allocation_ok [OF dir_ok_new p(1) f(1)] by simp_all
  have "\<not> overlaps ?d (0x1010, 0x10, False)" by (simp add: overlaps_def d(2) del: map_eq_conv set_map)
  then show "dir_ok 0x1010 example_directory" "dir_ranges example_directory = [(0x1000, 0x1100), (0x1010, 0x1020)]"
    using consume_allocation_ok [OF d(1) p(2) f(2)] d(2) by (simp_all add: example_directory_def)
qed

theorem AllocationIndexOf_innermost_witness:
  "dir_ok 0x1010 example_directory \<and> AllocationIndexOf example_directory 0x1018 = 1"
proof -
  have "unat (0x1018 :: addr) = 0x1018" by simp
  then have C: "containing (dir_ranges example_directory) (unat (0x1018 :: addr)) = {0, 1}"
    unfolding example_directory_ok(2) containing_def by (auto simp del: unat_numeral simp: less_Suc_eq)
  have "\<not> nested (dir_ranges example_directory) 1 0" by (simp add: nested_def)
  then show ?thesis
    using AllocationIndexOf_innermost [OF example_directory_ok(1), of "0x1018", unfolded C]
      example_directory_ok(1) by auto
qed

text \<open>
  \<open>AddFinder\<close> aborts exactly when the boundaries are resolved, the finder was added before or all 256
  indices are taken; otherwise it gives the finder the next index, keeps every index given before, and
  keeps the map and the vector of finders consistent.
\<close>

theorem AddFinder_correct:
  assumes "finders_ok d"
  shows "(AddFinder d f = None \<longleftrightarrow> allocationBoundariesResolved d \<or> f \<in> set (indexToFinder d) \<or>
            length (indexToFinder d) = 256) \<and>
         (\<forall>d' i. AddFinder d f = Some (d', i) \<longrightarrow>
            finders_ok d' \<and> i = length (indexToFinder d) \<and> indexToFinder d' = indexToFinder d @ [f] \<and>
            sm_find (finderToIndex d') f = Some i)"
proof -
  have F: "sm_sorted (finderToIndex d)" "length (indexToFinder d) \<le> 256"
    "\<And>f i. sm_find (finderToIndex d) f = Some i \<longleftrightarrow> i < length (indexToFinder d) \<and> indexToFinder d ! i = f"
    using assms by (simp_all add: finders_ok_def)
  have new: "sm_find (finderToIndex d) f \<noteq> None \<longleftrightarrow> f \<in> set (indexToFinder d)"
    using F(3) [of f] by (auto simp: in_set_conv_nth)
  have full: "(of_nat (length (indexToFinder d)) :: addr) = MAX_FINDERS \<longleftrightarrow> length (indexToFinder d) = 256"
  proof -
    have "unat (of_nat (length (indexToFinder d)) :: addr) = length (indexToFinder d)"
      using F(2) by (simp add: unat_of_nat)
    moreover have "unat MAX_FINDERS = 256" by (simp add: al_constants)
    ultimately show ?thesis by (metis unsigned_word_eqI)
  qed
  have "finders_ok d'" if "AddFinder d f = Some (d', i)" for d' i
  proof -
    have d': "finderToIndex d' = sm_assign f (length (indexToFinder d)) (finderToIndex d)"
      "indexToFinder d' = indexToFinder d @ [f]" and c: "sm_find (finderToIndex d) f = None"
      "length (indexToFinder d) \<noteq> 256"
      using that full by (auto simp: AddFinder_def Let_def split: if_splits)
    have "(if g = f then Some (length (indexToFinder d)) else sm_find (finderToIndex d) g) = Some j \<longleftrightarrow>
        j < length (indexToFinder d @ [f]) \<and> (indexToFinder d @ [f]) ! j = g" for g j
      using c(1) F(3) [of g j] F(3) [of f j] by (auto simp: nth_append less_Suc_eq)
    then show ?thesis using F(1,2) c(2) by (simp add: finders_ok_def d')
  qed
  then show ?thesis
    using new full F(1) by (auto simp: AddFinder_def Let_def)
qed

theorem AddFinder_correct_witness:
  "finders_ok Directory_new \<and> AddFinder Directory_new 7 \<noteq> None"
proof -
  have "finders_ok Directory_new" by (simp add: finders_ok_def Directory_new_def)
  then show ?thesis using AddFinder_correct [of Directory_new 7] by (simp add: Directory_new_def)
qed

end
