(* ===== verification/Contiguous_Image.thy ===== *)
theory Contiguous_Image
  imports Virtual_Address_Map Alloc_Directory
begin

text \<open>
  The class \<open>Allocations::ContiguousImage\<close> of Allocations/ContiguousImage.h: the bytes of one allocation
  at a time as one contiguous piece of memory, in place when they lie in one range of the core file and
  copied into a buffer, with zeros for what is not mapped, otherwise.  A write outside the buffer or a
  read outside the file is \<open>None\<close>.
\<close>

section \<open>State\<close>

text \<open>A \<open>const char *\<close> points into the buffer or into the core file.\<close>

datatype char_ptr = Buffer nat | Image addr

text \<open>The iterator into the address map is the list of the ranges from it on.\<close>

record ContiguousImage =
  ci_numAllocations :: nat
  ci_index :: nat
  ci_buffer :: "byte list"
  ci_pFirstChar :: char_ptr
  ci_size :: addr
  ci_pFirstOffset :: char_ptr
  ci_pPastOffsets :: char_ptr
  ci_iterator :: "vam_iterator list"
  ci_regionImage :: "addr option"
  ci_regionBase :: addr
  ci_regionLimit :: addr

definition ContiguousImage_new :: "Directory \<Rightarrow> ContiguousImage" where
  "ContiguousImage_new d =
     \<lparr>ci_numAllocations = NumAllocations d, ci_index = NumAllocations d,
      ci_buffer = replicate (8 * (unat (MaxAllocationSize d div sizeof_Offset) + 2)) 0,
      ci_pFirstChar = Buffer 0, ci_size = 0, ci_pFirstOffset = Buffer 0, ci_pPastOffsets = Buffer 0,
      ci_iterator = [], ci_regionImage = None, ci_regionBase = 0, ci_regionLimit = 0\<rparr>"

section \<open>Operations\<close>

fun ptr_add :: "char_ptr \<Rightarrow> addr \<Rightarrow> char_ptr" where
  "ptr_add (Buffer k) n = Buffer (k + unat n)"
| "ptr_add (Image off) n = Image (off + n)"

text \<open>\<open>memcpy\<close> and \<open>memset\<close> to an offset of the buffer.\<close>

definition buf_write :: "nat \<Rightarrow> byte list \<Rightarrow> ContiguousImage \<Rightarrow> ContiguousImage option" where
  "buf_write off bs ci =
     (if off + length bs \<le> length (ci_buffer ci)
      then Some (ci\<lparr>ci_buffer := take off (ci_buffer ci) @ bs @ drop (off + length bs) (ci_buffer ci)\<rparr>)
      else None)"

definition buf_copy ::
  "VirtualAddressMap \<Rightarrow> addr \<Rightarrow> addr \<Rightarrow> addr \<Rightarrow> ContiguousImage \<Rightarrow> ContiguousImage option" where
  "buf_copy m dest src n ci =
     (case file_bytes (fileImage m) src (unat n) of Value bs \<Rightarrow> buf_write (unat dest) bs ci | _ \<Rightarrow> None)"

definition buf_zero :: "addr \<Rightarrow> addr \<Rightarrow> ContiguousImage \<Rightarrow> ContiguousImage option" where
  "buf_zero dest n ci = buf_write (unat dest) (replicate (unat n) 0) ci"

definition drop_region :: "ContiguousImage \<Rightarrow> ContiguousImage" where
  "drop_region ci = ci\<lparr>ci_regionImage := None, ci_regionBase := 0, ci_regionLimit := 0\<rparr>"

definition take_region :: "addr \<Rightarrow> vam_iterator \<Rightarrow> ContiguousImage \<Rightarrow> ContiguousImage" where
  "take_region img it ci =
     ci\<lparr>ci_regionImage := Some img, ci_regionBase := it_Base it, ci_regionLimit := it_Limit it\<rparr>"

text \<open>
  The \<open>while\<close> loop that copies the ranges after the first one, over the ranges after the iterator; it
  returns the state and \<open>copiedTo\<close>.
\<close>

fun SetIndex_copy ::
  "VirtualAddressMap \<Rightarrow> addr \<Rightarrow> addr \<Rightarrow> vam_iterator list \<Rightarrow> addr \<Rightarrow> ContiguousImage
   \<Rightarrow> (ContiguousImage \<times> addr) option" where
  "SetIndex_copy m address limit [] copiedTo ci =
     (if copiedTo < limit then Some (drop_region (ci\<lparr>ci_iterator := []\<rparr>), copiedTo) else Some (ci, copiedTo))"
| "SetIndex_copy m address limit (it # its) copiedTo ci =
     (if copiedTo < limit then
        let ci0 = drop_region (ci\<lparr>ci_iterator := it # its\<rparr>) in
        case GetImage it of
          None \<Rightarrow> SetIndex_copy m address limit its copiedTo ci0
        | Some img \<Rightarrow>
            let ci1 = take_region img it ci0; base = it_Base it; regionLimit = it_Limit it in
            if base > limit then Some (ci1, copiedTo)
            else
              (case (if base > copiedTo then buf_zero (copiedTo - address) (base - copiedTo) ci1 else Some ci1) of
                 None \<Rightarrow> None
               | Some ci2 \<Rightarrow>
                   let copiedTo' = (if base > copiedTo then base else copiedTo);
                       end = (if regionLimit \<ge> limit then limit else regionLimit)
                   in case buf_copy m (copiedTo' - address) (img + (copiedTo' - base)) (end - copiedTo') ci2 of
                        None \<Rightarrow> None
                      | Some ci3 \<Rightarrow> SetIndex_copy m address limit its end ci3)
      else Some (ci, copiedTo))"

text \<open>The range that holds the allocation; \<open>False\<close> is the early return.\<close>

definition SetIndex_region :: "VirtualAddressMap \<Rightarrow> addr \<Rightarrow> ContiguousImage \<Rightarrow> ContiguousImage \<times> bool" where
  "SetIndex_region m address ci =
     (if ci_regionBase ci > address \<or> address \<ge> ci_regionLimit ci then
        (case vam_find m address of
           None \<Rightarrow> (drop_region (ci\<lparr>ci_iterator := []\<rparr>), False)
         | Some it \<Rightarrow>
             let ci' = drop_region (ci\<lparr>ci_iterator := dropWhile (\<lambda>e. e \<noteq> it) (vam_iterators m)\<rparr>) in
             (case GetImage it of
                None \<Rightarrow> (ci', False)
              | Some img \<Rightarrow> (take_region img it ci', True)))
      else (ci, True))"

definition SetIndex_fill ::
  "VirtualAddressMap \<Rightarrow> addr \<Rightarrow> addr \<Rightarrow> ContiguousImage \<Rightarrow> ContiguousImage option" where
  "SetIndex_fill m address sz ci =
     (case ci_regionImage ci of
        None \<Rightarrow> None
      | Some img \<Rightarrow>
          let limit = address + sz; src = img + (address - ci_regionBase ci) in
          if limit \<le> ci_regionLimit ci then Some (ci\<lparr>ci_pFirstChar := Image src, ci_size := sz\<rparr>)
          else
            (case buf_copy m 0 src (ci_regionLimit ci - address) ci of
               None \<Rightarrow> None
             | Some ci1 \<Rightarrow>
                 (case SetIndex_copy m address limit (tl (ci_iterator ci1)) (ci_regionLimit ci1) ci1 of
                    None \<Rightarrow> None
                  | Some (ci2, copiedTo) \<Rightarrow>
                      (case (if copiedTo < limit
                             then buf_zero (copiedTo - address) (limit - copiedTo) ci2 else Some ci2) of
                         None \<Rightarrow> None
                       | Some ci3 \<Rightarrow> Some (ci3\<lparr>ci_size := sz\<rparr>)))))"

definition SetIndex :: "VirtualAddressMap \<Rightarrow> Directory \<Rightarrow> nat \<Rightarrow> ContiguousImage \<Rightarrow> ContiguousImage option" where
  "SetIndex m d idx ci =
     (let index = (if idx > ci_numAllocations ci then ci_numAllocations ci else idx) in
      if index = ci_index ci then Some ci
      else
        let ci1 = ci\<lparr>ci_index := index, ci_pFirstChar := Buffer 0, ci_pFirstOffset := Buffer 0,
                     ci_pPastOffsets := Buffer 0\<rparr> in
        case AllocationAt d index of
          None \<Rightarrow> Some ci1
        | Some allocation \<Rightarrow>
            let address = al_Address allocation; sz = al_Size allocation in
            (case SetIndex_region m address ci1 of
               (ci2, False) \<Rightarrow> Some ci2
             | (ci2, True) \<Rightarrow>
                 (case SetIndex_fill m address sz ci2 of
                    None \<Rightarrow> None
                  | Some ci3 \<Rightarrow>
                      Some (if ci_size ci3 \<noteq> 0 \<and> address AND (sizeof_Offset - 1) = 0 then
                              ci3\<lparr>ci_pFirstOffset := ci_pFirstChar ci3,
                                  ci_pPastOffsets := ptr_add (ci_pFirstChar ci3) (sz AND NOT (sizeof_Offset - 1))\<rparr>
                            else ci3))))"

text \<open>What a client reads: the bytes from a pointer on, and the offsets from the first to the limit.\<close>

fun ptr_bytes :: "VirtualAddressMap \<Rightarrow> ContiguousImage \<Rightarrow> char_ptr \<Rightarrow> nat \<Rightarrow> byte list read_result" where
  "ptr_bytes m ci (Buffer k) n = file_bytes (ci_buffer ci) (of_nat k) n"
| "ptr_bytes m ci (Image off) n = file_bytes (fileImage m) off n"

fun ptr_distance :: "char_ptr \<Rightarrow> char_ptr \<Rightarrow> nat" where
  "ptr_distance (Buffer j) (Buffer k) = k - j"
| "ptr_distance (Image j) (Image k) = unat (k - j)"
| "ptr_distance p q = 0"

function le_words :: "byte list \<Rightarrow> addr list" where
  "le_words bs = (if length bs < 8 then [] else of_nat (le_value (take 8 bs)) # le_words (drop 8 bs))"
  by auto
termination by (relation "measure length") auto

declare le_words.simps [simp del]

definition image_offsets :: "VirtualAddressMap \<Rightarrow> ContiguousImage \<Rightarrow> addr list read_result" where
  "image_offsets m ci =
     map_read_result le_words
       (ptr_bytes m ci (ci_pFirstOffset ci) (ptr_distance (ci_pFirstOffset ci) (ci_pPastOffsets ci)))"

definition image_chars :: "VirtualAddressMap \<Rightarrow> ContiguousImage \<Rightarrow> byte list read_result" where
  "image_chars m ci = ptr_bytes m ci (ci_pFirstChar ci) (unat (ci_size ci))"

section \<open>What the image should be\<close>

definition byte_or_zero :: "VirtualAddressMap \<Rightarrow> addr \<Rightarrow> byte" where
  "byte_or_zero m a = (case mem_byte m a of Some b \<Rightarrow> b | None \<Rightarrow> 0)"

definition span_bytes :: "VirtualAddressMap \<Rightarrow> addr \<Rightarrow> nat \<Rightarrow> byte list" where
  "span_bytes m a n = map (\<lambda>k. byte_or_zero m (a + of_nat k)) [0..<n]"

lemma span_bytes_simps [simp]:
  "length (span_bytes m a n) = n" "k < n \<Longrightarrow> span_bytes m a n ! k = byte_or_zero m (a + of_nat k)"
  by (simp_all add: span_bytes_def)

text \<open>
  The offsets of allocation \<open>i\<close>: its aligned words, where its first byte is mapped; none for an
  unaligned allocation or one whose first byte is not in the core file.
\<close>

definition alloc_mapped :: "VirtualAddressMap \<Rightarrow> Directory \<Rightarrow> nat \<Rightarrow> bool" where
  "alloc_mapped m d i \<longleftrightarrow> i < NumAllocations d \<and> mem_byte m (al_Address (allocations d ! i)) \<noteq> None"

definition alloc_bytes :: "VirtualAddressMap \<Rightarrow> Directory \<Rightarrow> nat \<Rightarrow> byte list" where
  "alloc_bytes m d i = span_bytes m (al_Address (allocations d ! i)) (unat (al_Size (allocations d ! i)))"

definition alloc_offsets :: "VirtualAddressMap \<Rightarrow> Directory \<Rightarrow> nat \<Rightarrow> addr list" where
  "alloc_offsets m d i =
     (if alloc_mapped m d i \<and> al_Address (allocations d ! i) AND (sizeof_Offset - 1) = 0
      then le_words (alloc_bytes m d i) else [])"

text \<open>The directory's part of the contract: no allocation wraps or exceeds the recorded maximum.\<close>

definition dir_sized :: "Directory \<Rightarrow> bool" where
  "dir_sized d \<longleftrightarrow> (\<forall>a\<in>set (allocations d).
     al_Address a \<le> al_Address a + al_Size a \<and> al_Size a \<le> maxAllocationSize d)"

section \<open>Copying\<close>

lemma entry_copy:
  assumes ok: "vam_ok m" and e: "(L, S, V) \<in> set (rm_map (ranges m))" "has_image V"
    and x: "L - S \<le> x" "x < L" and n: "n \<le> unat L - unat x"
  shows "file_bytes (fileImage m) (L - S + adjustToFileOffset V + (x - (L - S))) n = Value (span_bytes m x n)"
proof -
  let ?o = "x + adjustToFileOffset V"
  have o: "L - S + adjustToFileOffset V + (x - (L - S)) = ?o" by simp
  have inb: "unat ?o + n \<le> length (fileImage m)" using bytes_in_entry [OF ok e x n] .
  have n64: "n < 2 ^ 64" using n unsigned_less [where 'a = nat, of L] by simp
  have "\<not> x + of_nat n < x" "x + of_nat n \<le> L"
  proof -
    have "unat (x + of_nat n) = unat x + n"
      using n unsigned_less [where 'a = nat, of L] x(2) by (intro unat_add_of_nat) (simp add: word_less_nat_alt)
    then show "\<not> x + of_nat n < x" "x + of_nat n \<le> L"
      using n x(2) by (auto simp: word_less_nat_alt word_le_nat_alt)
  qed
  then have s: "read_spec m x n = Some (take n (drop (unat ?o) (fileImage m)))"
    using rm_find_entry [OF vam_okD(1) [OF ok] e(1) x] e(2) by (simp add: read_spec_def vam_find_def)
  have "take n (drop (unat ?o) (fileImage m)) = span_bytes m x n"
    using read_spec_bytes [OF ok n64 s] by (intro nth_equalityI) (simp_all add: byte_or_zero_def)
  then show ?thesis using inb by (simp add: o file_bytes_def)
qed

text \<open>The buffer holds the bytes from \<open>a\<close> to \<open>c\<close>, and has room up to \<open>l\<close>.\<close>

definition buf_holds :: "VirtualAddressMap \<Rightarrow> addr \<Rightarrow> addr \<Rightarrow> addr \<Rightarrow> ContiguousImage \<Rightarrow> bool" where
  "buf_holds m a c l ci \<longleftrightarrow> a \<le> c \<and> unat l - unat a \<le> length (ci_buffer ci) \<and> length (ci_buffer ci) < 2 ^ 64 \<and>
     take (unat c - unat a) (ci_buffer ci) = span_bytes m a (unat c - unat a)"

lemma buf_holds_region [simp]:
  "buf_holds m a c l (drop_region ci) = buf_holds m a c l ci"
  "buf_holds m a c l (take_region img it ci) = buf_holds m a c l ci"
  "buf_holds m a c l (ci\<lparr>ci_iterator := its\<rparr>) = buf_holds m a c l ci"
  by (simp_all add: buf_holds_def drop_region_def take_region_def)

lemma span_bytes_append:
  "span_bytes m a j @ span_bytes m (a + of_nat j) k = span_bytes m a (j + k)"
  by (rule nth_equalityI) (auto simp: nth_append algebra_simps of_nat_diff)

text \<open>All fields but the buffer.\<close>

definition same_but_buffer :: "ContiguousImage \<Rightarrow> ContiguousImage \<Rightarrow> bool" where
  "same_but_buffer ci ci' \<longleftrightarrow> (\<exists>b. ci' = ci\<lparr>ci_buffer := b\<rparr> \<and> length b = length (ci_buffer ci))"

lemma same_but_buffer_refl: "same_but_buffer ci ci"
  unfolding same_but_buffer_def by (rule exI [of _ "ci_buffer ci"]) simp

lemma buf_write_extends:
  assumes h: "buf_holds m a c l ci" and c: "c \<le> e" "e \<le> l"
    and w: "bs = span_bytes m c (unat e - unat c)"
  shows "\<exists>ci'. buf_write (unat (c - a)) bs ci = Some ci' \<and> buf_holds m a e l ci' \<and> same_but_buffer ci ci'"
proof -
  have le: "unat a \<le> unat c" "unat c \<le> unat e" "unat e \<le> unat l"
    using h c by (simp_all add: buf_holds_def word_le_nat_alt)
  have off: "unat (c - a) = unat c - unat a" using h by (simp add: buf_holds_def unat_sub_le)
  have ac: "a + of_nat (unat c - unat a) = c"
    using h by (simp add: buf_holds_def unat_sub_le [symmetric])
  have room: "unat (c - a) + length bs \<le> length (ci_buffer ci)"
    using h le diff_le_mono [OF le(3), of "unat a"] by (simp add: buf_holds_def w off)
  have "take (unat e - unat a) (take (unat c - unat a) (ci_buffer ci) @ bs @ drop (unat e - unat a) (ci_buffer ci))
      = take (unat c - unat a) (ci_buffer ci) @ bs"
    using le h by (simp add: buf_holds_def w)
  also have "\<dots> = span_bytes m a (unat e - unat a)"
    using h le span_bytes_append [of m a "unat c - unat a" "unat e - unat c"] by (simp add: buf_holds_def w ac)
  finally have "take (unat e - unat a) (take (unat c - unat a) (ci_buffer ci) @ bs @ drop (unat e - unat a) (ci_buffer ci))
      = span_bytes m a (unat e - unat a)" .
  moreover have "unat e - unat a \<le> length (ci_buffer ci)"
    using room le by (simp add: off w)
  ultimately show ?thesis
    using room h le c by (auto simp: buf_write_def off w buf_holds_def same_but_buffer_def add_diff_inverse_nat)
qed

lemma span_bytes_unmapped:
  assumes "\<And>x. c \<le> x \<Longrightarrow> x < e \<Longrightarrow> mem_byte m x = None"
  shows "span_bytes m c (unat e - unat c) = replicate (unat e - unat c) 0"
proof (rule nth_equalityI)
  fix k assume "k < length (span_bytes m c (unat e - unat c))"
  then have k: "k < unat e - unat c" by simp
  then have "unat (c + of_nat k) = unat c + k"
    using unsigned_less [where 'a = nat, of e] by (intro unat_add_of_nat) simp
  then have "mem_byte m (c + of_nat k) = None"
    using k by (intro assms) (auto simp: word_le_nat_alt word_less_nat_alt)
  then show "span_bytes m c (unat e - unat c) ! k = replicate (unat e - unat c) 0 ! k"
    using k by (simp add: byte_or_zero_def)
qed simp

lemma buf_zero_extends:
  assumes h: "buf_holds m a c l ci" and c: "c \<le> e" "e \<le> l"
    and un: "\<And>x. c \<le> x \<Longrightarrow> x < e \<Longrightarrow> mem_byte m x = None"
  shows "\<exists>ci'. buf_zero (c - a) (e - c) ci = Some ci' \<and> buf_holds m a e l ci' \<and> same_but_buffer ci ci'"
proof -
  have "span_bytes m c (unat e - unat c) = replicate (unat (e - c)) 0"
    using span_bytes_unmapped [OF un] c(1) by (simp add: unat_sub_le)
  then show ?thesis using buf_write_extends [OF h c refl] by (simp add: buf_zero_def)
qed

lemma buf_copy_extends:
  assumes ok: "vam_ok m" and e: "(L, S, V) \<in> set (rm_map (ranges m))" "has_image V"
    and h: "buf_holds m a c l ci" and c: "c \<le> e" "e \<le> l" "L - S \<le> c" "c < L" "e \<le> L"
  shows "\<exists>ci'. buf_copy m (c - a) (L - S + adjustToFileOffset V + (c - (L - S))) (e - c) ci = Some ci' \<and>
           buf_holds m a e l ci' \<and> same_but_buffer ci ci'"
proof -
  have "unat (e - c) = unat e - unat c" "unat e \<le> unat L" using c by (simp_all add: unat_sub_le word_le_nat_alt)
  then show ?thesis
    using buf_write_extends [OF h c(1,2) refl] entry_copy [OF ok e c(3,4), of "unat (e - c)"]
    by (simp add: buf_copy_def)
qed

section \<open>The copy loop\<close>

text \<open>The cached range is a range of the map with an image, and the iterator is at it.\<close>

definition cache_ok :: "VirtualAddressMap \<Rightarrow> ContiguousImage \<Rightarrow> bool" where
  "cache_ok m ci \<longleftrightarrow>
     (case ci_regionImage ci of
        None \<Rightarrow> ci_regionBase ci = 0 \<and> ci_regionLimit ci = 0
      | Some img \<Rightarrow> \<exists>L S V xs its. rm_map (ranges m) = xs @ (L, S, V) # its \<and> has_image V \<and>
          ci_iterator ci = (L, S, V) # its \<and> img = L - S + adjustToFileOffset V \<and>
          ci_regionBase ci = L - S \<and> ci_regionLimit ci = L)"

lemma cache_ok_drop [simp]: "cache_ok m (drop_region ci)"
  by (simp add: cache_ok_def drop_region_def)

lemma cache_ok_take:
  assumes "rm_map (ranges m) = xs @ (L, S, V) # its" "has_image V" "ci_iterator ci = (L, S, V) # its"
  shows "cache_ok m (take_region (L - S + adjustToFileOffset V) (L, S, V) ci)"
  using assms by (auto simp: cache_ok_def take_region_def)

lemma cache_okD:
  assumes "cache_ok m ci" "ci_regionImage ci = Some img"
  obtains L S V xs its where "rm_map (ranges m) = xs @ (L, S, V) # its" "has_image V"
    "ci_iterator ci = (L, S, V) # its" "img = L - S + adjustToFileOffset V"
    "ci_regionBase ci = L - S" "ci_regionLimit ci = L"
  using assms by (auto simp: cache_ok_def)

lemma cache_ok_view [simp]:
  "cache_ok m (ci\<lparr>ci_size := x\<rparr>) = cache_ok m ci"
  "cache_ok m (ci\<lparr>ci_pFirstOffset := p, ci_pPastOffsets := q\<rparr>) = cache_ok m ci"
  "cache_ok m (ci\<lparr>ci_index := i, ci_pFirstChar := r\<rparr>) = cache_ok m ci"
  by (auto simp: cache_ok_def split: option.splits)

text \<open>The fields the loop leaves alone.\<close>

definition same_view :: "ContiguousImage \<Rightarrow> ContiguousImage \<Rightarrow> bool" where
  "same_view ci ci' \<longleftrightarrow> ci_numAllocations ci' = ci_numAllocations ci \<and> ci_index ci' = ci_index ci \<and>
     ci_pFirstChar ci' = ci_pFirstChar ci \<and> ci_pFirstOffset ci' = ci_pFirstOffset ci \<and>
     ci_pPastOffsets ci' = ci_pPastOffsets ci \<and> ci_size ci' = ci_size ci \<and>
     length (ci_buffer ci') = length (ci_buffer ci)"

lemma same_view_simps [simp]:
  "same_view ci ci" "same_view ci (drop_region ci') = same_view ci ci'"
  "same_view ci (take_region img it ci') = same_view ci ci'"
  "same_view ci (ci'\<lparr>ci_iterator := its\<rparr>) = same_view ci ci'"
  by (simp_all add: same_view_def drop_region_def take_region_def)

lemma same_view_trans: "same_view ci ci' \<Longrightarrow> same_view ci' ci'' \<Longrightarrow> same_view ci ci''"
  by (simp add: same_view_def)

lemma same_but_buffer_view: "same_but_buffer ci ci' \<Longrightarrow> same_view ci ci'"
  by (auto simp: same_but_buffer_def same_view_def)

lemma same_but_buffer_cache: "same_but_buffer ci ci' \<Longrightarrow> cache_ok m ci' = cache_ok m ci"
  by (auto simp: same_but_buffer_def cache_ok_def split: option.splits)

lemma mem_byte_lookup: "mem_byte m x \<noteq> None \<Longrightarrow> \<exists>V. rm_lookup (ranges m) x = Some V \<and> has_image V"
  by (auto simp: mem_byte_def split: option.splits if_splits)

lemma SetIndex_copy_outcome:
  assumes ok: "vam_ok m" and "rm_map (ranges m) = xs @ its" "rm_wf b0 its" "c \<le> b0" "c \<le> l"
    and "\<And>x. c \<le> x \<Longrightarrow> x < l \<Longrightarrow> mem_byte m x \<noteq> None \<Longrightarrow> entries_lookup its x = rm_lookup (ranges m) x"
    and "buf_holds m a c l ci" "cache_ok m ci"
  shows "\<exists>ci' c'. SetIndex_copy m a l its c ci = Some (ci', c') \<and> buf_holds m a c' l ci' \<and> c' \<le> l \<and>
           (\<forall>x. c' \<le> x \<and> x < l \<longrightarrow> mem_byte m x = None) \<and> cache_ok m ci' \<and> same_view ci ci'"
  using assms(2-8)
proof (induction its arbitrary: xs b0 c ci)
  case Nil
  have "mem_byte m x = None" if "c \<le> x" "x < l" for x
  proof (rule ccontr)
    assume n: "mem_byte m x \<noteq> None"
    show False using Nil(5) [OF that n] mem_byte_lookup [OF n] by simp
  qed
  then have "\<forall>x. c \<le> x \<and> x < l \<longrightarrow> mem_byte m x = None" by blast
  then show ?case using Nil by auto
next
  case (Cons it its)
  obtain L S V where it: "it = (L, S, V)" by (cases it)
  let ?ci0 = "drop_region (ci\<lparr>ci_iterator := it # its\<rparr>)"
  let ?base = "L - S"
  have wf: "0 < S" "S \<le> L" "b0 \<le> ?base" "rm_wf L its" using Cons.prems(2) by (simp_all add: it)
  have bL: "?base < L" using word_sub_less [OF wf(1,2)] .
  have cb: "c \<le> ?base" "c \<le> L" using Cons.prems(3) wf(3) bL by auto
  have mem: "(L, S, V) \<in> set (rm_map (ranges m))" using Cons.prems(1) by (simp add: it)
  show ?case
  proof (cases "c < l")
    case False
    then show ?thesis using Cons.prems by fastforce
  next
    case True
    have U: "entries_lookup its x = rm_lookup (ranges m) x" if "c \<le> x" "x < l" "mem_byte m x \<noteq> None"
      "L \<le> x \<or> x < ?base \<or> \<not> has_image V" for x
      using Cons.prems(5) [OF that(1-3)] that(4) mem_byte_lookup [OF that(3)] by (auto simp: it split: if_splits)
    show ?thesis
    proof (cases "has_image V")
      case False
      have "\<exists>ci' c'. SetIndex_copy m a l its c ?ci0 = Some (ci', c') \<and> buf_holds m a c' l ci' \<and> c' \<le> l \<and>
           (\<forall>x. c' \<le> x \<and> x < l \<longrightarrow> mem_byte m x = None) \<and> cache_ok m ci' \<and> same_view ?ci0 ci'"
        by (rule Cons.IH [of "xs @ [it]" L]) (use Cons.prems wf cb U False in auto)
      then show ?thesis using True False by (auto simp: it GetImage_eq Let_def same_view_def drop_region_def)
    next
      case img: True
      let ?img = "?base + adjustToFileOffset V"
      let ?ci1 = "take_region ?img it ?ci0"
      have C1: "cache_ok m ?ci1" unfolding it
        by (rule cache_ok_take) (use Cons.prems(1) img in \<open>auto simp: it drop_region_def\<close>)
      have un: "mem_byte m x = None" if "c \<le> x" "x < l" "x < ?base" for x
      proof (rule ccontr)
        assume n: "mem_byte m x \<noteq> None"
        have "x < L" using that(3) bL by order
        then have "entries_lookup its x = None" by (rule entries_lookup_below [OF wf(4)])
        then show False using U [OF that(1,2) n] that(3) mem_byte_lookup [OF n] by simp
      qed
      show ?thesis
      proof (cases "?base > l")
        case True': True
        then have "mem_byte m x = None" if "c \<le> x" "x < l" for x
          using un [OF that] that(2) by auto
        then show ?thesis
          using True True' img C1 Cons.prems(4,6) by (auto simp: it GetImage_eq Let_def)
      next
        case bl: False
        have "\<exists>ci2. (if ?base > c then buf_zero (c - a) (?base - c) ?ci1 else Some ?ci1) = Some ci2 \<and>
            buf_holds m a ?base l ci2 \<and> same_but_buffer ?ci1 ci2"
        proof (cases "?base > c")
          case True
          then show ?thesis using buf_zero_extends [of m a c l ?ci1 ?base] Cons.prems(6) bl un by auto
        next
          case False
          then have "?base = c" using cb by simp
          then show ?thesis using Cons.prems(6) by (auto intro: same_but_buffer_refl)
        qed
        then obtain ci2 where ci2: "(if ?base > c then buf_zero (c - a) (?base - c) ?ci1 else Some ?ci1) = Some ci2"
          "buf_holds m a ?base l ci2" "same_but_buffer ?ci1 ci2" by blast
        define e where "e = (if L \<ge> l then l else L)"
        have e: "?base \<le> e" "e \<le> l" "e \<le> L" using bl bL by (auto simp: e_def)
        obtain ci3 where ci3: "buf_copy m (?base - a) (?img + (?base - ?base)) (e - ?base) ci2 = Some ci3"
          "buf_holds m a e l ci3" "same_but_buffer ci2 ci3"
          using buf_copy_extends [OF ok mem img ci2(2) e(1,2) order.refl bL e(3)] by blast
        have c3: "cache_ok m ci3" using C1 same_but_buffer_cache [OF ci2(3)] same_but_buffer_cache [OF ci3(3)] by simp
        have v3: "same_view ci ci3"
          using same_but_buffer_view [OF ci2(3)] same_but_buffer_view [OF ci3(3)]
          by (simp add: same_view_def drop_region_def take_region_def)
        have "\<exists>ci' c'. SetIndex_copy m a l its e ci3 = Some (ci', c') \<and> buf_holds m a c' l ci' \<and> c' \<le> l \<and>
             (\<forall>x. c' \<le> x \<and> x < l \<longrightarrow> mem_byte m x = None) \<and> cache_ok m ci' \<and> same_view ci3 ci'"
        proof (rule Cons.IH [of "xs @ [it]" L])
          fix x assume x: "e \<le> x" "x < l" "mem_byte m x \<noteq> None"
          then have "L \<le> x" by (auto simp: e_def split: if_splits)
          then show "entries_lookup its x = rm_lookup (ranges m) x"
            using U [of x] x cb(1) e(1) by fastforce
        qed (use Cons.prems(1) wf e ci3(2) c3 in auto)
        moreover have "SetIndex_copy m a l (it # its) c ci = SetIndex_copy m a l its e ci3"
        proof -
          have mx: "(if c < ?base then ?base else c) = ?base" using cb(1) by auto
          show ?thesis
            using True img bl ci2(1) ci3(1) mx
            by (cases "c < ?base"; cases "L \<ge> l") (auto simp: it GetImage_eq Let_def e_def add.commute)
        qed
        ultimately show ?thesis using same_view_trans [OF v3] by auto
      qed
    qed
  qed
qed

section \<open>The whole operation\<close>

text \<open>
  The invariant of the image: its region cache is valid, its buffer has room for every allocation, and
  what it shows is the allocation at its index.
\<close>

definition shows_allocation :: "VirtualAddressMap \<Rightarrow> Directory \<Rightarrow> ContiguousImage \<Rightarrow> bool" where
  "shows_allocation m d ci \<longleftrightarrow>
     image_offsets m ci = Value (alloc_offsets m d (ci_index ci)) \<and>
     (alloc_mapped m d (ci_index ci) \<longrightarrow>
        ci_size ci = al_Size (allocations d ! ci_index ci) \<and>
        image_chars m ci = Value (alloc_bytes m d (ci_index ci)))"

definition image_ok :: "VirtualAddressMap \<Rightarrow> Directory \<Rightarrow> ContiguousImage \<Rightarrow> bool" where
  "image_ok m d ci \<longleftrightarrow> cache_ok m ci \<and> ci_numAllocations ci = NumAllocations d \<and> ci_index ci \<le> NumAllocations d \<and>
     unat (MaxAllocationSize d) \<le> length (ci_buffer ci) \<and> length (ci_buffer ci) < 2 ^ 64 \<and>
     shows_allocation m d ci"

lemma SetIndex_region_outcome:
  assumes ok: "vam_ok m" and c: "cache_ok m ci" and r: "SetIndex_region m a ci = (ci', go)"
  shows "cache_ok m ci'" "same_view ci ci'" "ci_buffer ci' = ci_buffer ci" "go \<longleftrightarrow> mem_byte m a \<noteq> None"
    "go \<Longrightarrow> ci_regionImage ci' \<noteq> None \<and> ci_regionBase ci' \<le> a \<and> a < ci_regionLimit ci'"
proof -
  note inv = vam_okD(1) [OF ok]
  have "cache_ok m ci' \<and> same_view ci ci' \<and> ci_buffer ci' = ci_buffer ci \<and> (go \<longleftrightarrow> mem_byte m a \<noteq> None) \<and>
    (go \<longrightarrow> ci_regionImage ci' \<noteq> None \<and> ci_regionBase ci' \<le> a \<and> a < ci_regionLimit ci')"
  proof (cases "ci_regionBase ci > a \<or> a \<ge> ci_regionLimit ci")
    case True
    show ?thesis
    proof (cases "vam_find m a")
      case None
      then have "mem_byte m a = None" using rm_find_None [OF inv] by (simp add: vam_find_def mem_byte_def)
      then show ?thesis using r True None by (auto simp: SetIndex_region_def drop_region_def cache_ok_def same_view_def)
    next
      case (Some it)
      obtain L S V where it: "it = (L, S, V)" by (cases it)
      note D = rm_find_SomeD [OF inv Some [unfolded it vam_find_def]]
      let ?its = "dropWhile (\<lambda>e. e \<noteq> it) (vam_iterators m)"
      have "(L, S, V) \<in> set (vam_iterators m)" using D(1) by (simp add: vam_iterators_def)
      then have "?its \<noteq> []" "hd ?its = it" using hd_dropWhile [of "\<lambda>e. e \<noteq> it" "vam_iterators m"] by (auto simp: it)
      then have its: "?its = it # tl ?its" by (metis list.collapse)
      have split: "rm_map (ranges m) = takeWhile (\<lambda>e. e \<noteq> it) (vam_iterators m) @ it # tl ?its"
        using its takeWhile_dropWhile_id [of "\<lambda>e. e \<noteq> it" "vam_iterators m"] by (simp add: vam_iterators_def)
      show ?thesis
      proof (cases "has_image V")
        case False
        then show ?thesis using r True Some D(6)
          by (auto simp: SetIndex_region_def it GetImage_eq mem_byte_def drop_region_def cache_ok_def same_view_def Let_def)
      next
        case img: True
        let ?ci0 = "drop_region (ci\<lparr>ci_iterator := ?its\<rparr>)"
        have ci': "ci' = take_region (L - S + adjustToFileOffset V) it ?ci0" "go"
          using r True Some img by (simp_all add: SetIndex_region_def it GetImage_eq Let_def)
        have "cache_ok m ci'" unfolding ci' it
          by (rule cache_ok_take [OF split [unfolded it] img]) (use its in \<open>simp add: drop_region_def it\<close>)
        moreover have "mem_byte m a \<noteq> None" using D(6) img by (simp add: mem_byte_def)
        ultimately show ?thesis using ci' D(2,3) by (simp add: it take_region_def drop_region_def same_view_def)
      qed
    qed
  next
    case False
    then have eq: "ci' = ci" "go" using r by (auto simp: SetIndex_region_def)
    from False obtain img where img: "ci_regionImage ci = Some img"
      using c by (fastforce simp: cache_ok_def split: option.splits)
    then obtain L S V where e: "(L, S, V) \<in> set (rm_map (ranges m))" "has_image V"
        "ci_regionBase ci = L - S" "ci_regionLimit ci = L"
      by (rule cache_okD [OF c]) auto
    then have "vam_find m a = Some (L, S, V)"
      using False by (auto simp: vam_find_def not_less intro: rm_find_entry [OF inv])
    then have "rm_lookup (ranges m) a = Some V" using rm_find_SomeD(6) [OF inv] by (simp add: vam_find_def)
    then show ?thesis using eq c False img e(2) by (auto simp: mem_byte_def)
  qed
  then show "cache_ok m ci'" "same_view ci ci'" "ci_buffer ci' = ci_buffer ci" "go \<longleftrightarrow> mem_byte m a \<noteq> None"
    "go \<Longrightarrow> ci_regionImage ci' \<noteq> None \<and> ci_regionBase ci' \<le> a \<and> a < ci_regionLimit ci'" by auto
qed

lemma SetIndex_fill_outcome:
  assumes ok: "vam_ok m" and c: "cache_ok m ci" "ci_regionImage ci \<noteq> None" "ci_regionBase ci \<le> a" "a < ci_regionLimit ci"
    and a: "a \<le> a + sz" and room: "unat sz \<le> length (ci_buffer ci)" "length (ci_buffer ci) < 2 ^ 64"
    and p: "ci_pFirstChar ci = Buffer 0"
  shows "\<exists>ci'. SetIndex_fill m a sz ci = Some ci' \<and> cache_ok m ci' \<and> ci_size ci' = sz \<and>
           (ci_pFirstChar ci' = Buffer 0 \<or> (\<exists>off. ci_pFirstChar ci' = Image off)) \<and>
           ptr_bytes m ci' (ci_pFirstChar ci') (unat sz) = Value (span_bytes m a (unat sz)) \<and>
           ci_index ci' = ci_index ci \<and> ci_numAllocations ci' = ci_numAllocations ci \<and>
           ci_pFirstOffset ci' = ci_pFirstOffset ci \<and> ci_pPastOffsets ci' = ci_pPastOffsets ci \<and>
           length (ci_buffer ci') = length (ci_buffer ci)"
proof -
  obtain img where img: "ci_regionImage ci = Some img" using c(2) by auto
  obtain L S V xs its where e: "rm_map (ranges m) = xs @ (L, S, V) # its" "has_image V"
    "ci_iterator ci = (L, S, V) # its" "img = L - S + adjustToFileOffset V"
    "ci_regionBase ci = L - S" "ci_regionLimit ci = L"
    using cache_okD [OF c(1) img] .
  have mem: "(L, S, V) \<in> set (rm_map (ranges m))" by (simp add: e(1))
  have aL: "L - S \<le> a" "a < L" using c(3,4) e by auto
  have us: "unat (a + sz) = unat a + unat sz" by (rule no_wrap_unat [OF a])
  show ?thesis
  proof (cases "a + sz \<le> L")
    case True
    then have "unat sz \<le> unat L - unat a" using us by (simp add: word_le_nat_alt)
    then show ?thesis
      using entry_copy [OF ok mem e(2) aL] True img e c(1)
      by (auto simp: SetIndex_fill_def Let_def cache_ok_def)
  next
    case False
    let ?l = "a + sz"
    have h0: "buf_holds m a a ?l ci" using room by (simp add: buf_holds_def us span_bytes_def)
    have "\<exists>ci'. buf_copy m (a - a) (L - S + adjustToFileOffset V + (a - (L - S))) (L - a) ci = Some ci' \<and>
           buf_holds m a L ?l ci' \<and> same_but_buffer ci ci'"
      by (rule buf_copy_extends [OF ok mem e(2) h0]) (use aL False in auto)
    then obtain ci1 where ci1: "buf_copy m 0 (L - S + adjustToFileOffset V + (a - (L - S))) (L - a) ci = Some ci1"
        "buf_holds m a L ?l ci1" "same_but_buffer ci ci1" by auto
    have it1: "ci_iterator ci1 = (L, S, V) # its" "ci_regionLimit ci1 = L"
      using ci1(3) e(3,6) by (auto simp: same_but_buffer_def)
    have wf: "rm_wf 0 (rm_map (ranges m))" using vam_okD(1) [OF ok] by (simp add: rm_inv_def)
    have "\<exists>ci2 c'. SetIndex_copy m a ?l its L ci1 = Some (ci2, c') \<and> buf_holds m a c' ?l ci2 \<and> c' \<le> ?l \<and>
           (\<forall>x. c' \<le> x \<and> x < ?l \<longrightarrow> mem_byte m x = None) \<and> cache_ok m ci2 \<and> same_view ci1 ci2"
    proof (rule SetIndex_copy_outcome [OF ok, of "xs @ [(L, S, V)]" _ L])
      fix x assume "L \<le> x"
      moreover have "fst f \<le> x" if "f \<in> set xs" for f
        using rm_wf_keys_le [of 0 xs f] wf that \<open>L \<le> x\<close> word_sub_less [of S L] by (auto simp: e(1))
      ultimately have "entries_lookup (xs @ [(L, S, V)]) x = None"
        by (intro entries_lookup_above) auto
      then show "entries_lookup its x = rm_lookup (ranges m) x"
        by (auto simp: rm_lookup_def e(1) split: option.splits if_splits)
    qed (use e wf False ci1 same_but_buffer_cache [OF ci1(3)] c(1) in auto)
    then obtain ci2 c' where ci2: "SetIndex_copy m a ?l its L ci1 = Some (ci2, c')" "buf_holds m a c' ?l ci2"
        "c' \<le> ?l" "\<And>x. c' \<le> x \<Longrightarrow> x < ?l \<Longrightarrow> mem_byte m x = None" "cache_ok m ci2" "same_view ci1 ci2" by blast
    have "\<exists>ci3. (if c' < ?l then buf_zero (c' - a) (?l - c') ci2 else Some ci2) = Some ci3 \<and>
        buf_holds m a ?l ?l ci3 \<and> same_but_buffer ci2 ci3"
    proof (cases "c' < ?l")
      case True
      then show ?thesis using buf_zero_extends [OF ci2(2,3) order.refl ci2(4)] by simp
    next
      case False
      then have "c' = ?l" using ci2(3) by simp
      then show ?thesis using ci2(2) by (auto intro: same_but_buffer_refl)
    qed
    then obtain ci3 where ci3: "(if c' < ?l then buf_zero (c' - a) (?l - c') ci2 else Some ci2) = Some ci3"
        "buf_holds m a ?l ?l ci3" "same_but_buffer ci2 ci3" by blast
    have r: "SetIndex_fill m a sz ci = Some (ci3\<lparr>ci_size := sz\<rparr>)"
      using img e(4-6) False ci1(1) it1 ci2(1) ci3(1) by (simp add: SetIndex_fill_def Let_def)
    have v: "same_view ci ci3"
      using same_but_buffer_view [OF ci1(3)] ci2(6) same_but_buffer_view [OF ci3(3)] by (simp add: same_view_def)
    have "cache_ok m (ci3\<lparr>ci_size := sz\<rparr>)"
      using ci2(5) same_but_buffer_cache [OF ci3(3)] by simp
    moreover have "take (unat sz) (ci_buffer ci3) = span_bytes m a (unat sz)" "unat sz \<le> length (ci_buffer ci3)"
      using ci3(2) us by (simp_all add: buf_holds_def)
    ultimately show ?thesis
      using r v p by (simp add: same_view_def file_bytes_def)
  qed
qed

lemma le_words_nil [simp]: "le_words [] = []"
  by (simp add: le_words.simps)

lemma le_words_whole: "le_words (take (length bs - length bs mod 8) bs) = le_words bs"
proof (induction bs rule: le_words.induct)
  case (1 bs)
  show ?case
  proof (cases "length bs < 8")
    case False
    define k where "k = length bs - length bs mod 8"
    have k8: "k = length (drop 8 bs) - length (drop 8 bs) mod 8 + 8"
      using False by (simp add: k_def le_mod_geq not_less)
    have "take (k - 8) (drop 8 bs) = take (length (drop 8 bs) - length (drop 8 bs) mod 8) (drop 8 bs)"
      using k8 by simp
    moreover have "8 \<le> k" "k \<le> length bs" using k8 by (simp_all add: k_def)
    ultimately have "le_words (take k bs) = of_nat (le_value (take 8 bs)) # le_words (drop 8 bs)"
      using 1 False by (simp add: le_words.simps [of "take k bs"] drop_take min_def)
    then show ?thesis using False by (simp add: le_words.simps [of bs] k_def)
  qed (simp add: le_words.simps)
qed

lemma file_bytes_prefix:
  assumes "file_bytes f off n = Value bs" "k \<le> n"
  shows "file_bytes f off k = Value (take k bs)"
  using assms by (auto simp: file_bytes_def min_def split: if_splits)

lemma ptr_bytes_prefix:
  assumes "ptr_bytes m ci p n = Value bs" "k \<le> n"
  shows "ptr_bytes m ci p k = Value (take k bs)"
  using assms file_bytes_prefix by (cases p) auto

lemma ptr_distance_add: "p = Buffer 0 \<or> (\<exists>off. p = Image off) \<Longrightarrow> ptr_distance p (ptr_add p n) = unat n"
  by auto

lemma unat_AND_NOT_7: "unat (n AND NOT (sizeof_Offset - 1)) = unat n - unat n mod 8"
  using unat_AND_NOT_mask [of 3 n] by (simp add: mask_eq_exp_minus_1)

lemma shown_offsets:
  assumes "ptr_bytes m ci p (unat sz) = Value (span_bytes m a (unat sz))" "p = Buffer 0 \<or> (\<exists>off. p = Image off)"
    "ci_pFirstOffset ci = p" "ci_pPastOffsets ci = ptr_add p (sz AND NOT (sizeof_Offset - 1))"
  shows "image_offsets m ci = Value (le_words (span_bytes m a (unat sz)))"
  using ptr_bytes_prefix [OF assms(1), of "unat sz - unat sz mod 8"] le_words_whole [of "span_bytes m a (unat sz)"]
    ptr_distance_add [OF assms(2)]
  unfolding image_offsets_def assms(3,4) ptr_distance_add [OF assms(2)] unat_AND_NOT_7 by simp

lemma empty_offsets:
  assumes "ci_pFirstOffset ci = Buffer 0" "ci_pPastOffsets ci = Buffer 0"
  shows "image_offsets m ci = Value []"
  by (simp add: image_offsets_def assms file_bytes_def)

lemma image_chars_view [simp]:
  "image_chars m (ci\<lparr>ci_pFirstOffset := p, ci_pPastOffsets := q\<rparr>) = image_chars m ci"
  by (cases "ci_pFirstChar ci") (simp_all add: image_chars_def)

lemma SetIndex_outcome:
  assumes ok: "vam_ok m" and im: "image_ok m d ci" and sized: "dir_sized d"
  shows "\<exists>ci'. SetIndex m d i ci = Some ci' \<and> image_ok m d ci' \<and> ci_index ci' = min i (NumAllocations d) \<and>
           (min i (NumAllocations d) \<noteq> ci_index ci \<and> \<not> alloc_mapped m d i \<longrightarrow> ci_size ci' = ci_size ci)"
proof -
  let ?n = "NumAllocations d" and ?i = "min i (NumAllocations d)"
  note I = im [unfolded image_ok_def]
  have idx: "(if i > ci_numAllocations ci then ci_numAllocations ci else i) = ?i" using I by simp
  show ?thesis
  proof (cases "?i = ci_index ci")
    case True
    then have "SetIndex m d i ci = Some ci" unfolding SetIndex_def idx by simp
    then show ?thesis using True im by simp
  next
    case new: False
    let ?ci1 = "ci\<lparr>ci_index := ?i, ci_pFirstChar := Buffer 0, ci_pFirstOffset := Buffer 0, ci_pPastOffsets := Buffer 0\<rparr>"
    show ?thesis
    proof (cases "i < ?n")
      case False
      then have "AllocationAt d ?i = None" by (simp add: AllocationAt_def NumAllocations_def)
      then have r: "SetIndex m d i ci = Some ?ci1" using new unfolding SetIndex_def idx by (simp add: Let_def)
      have nm: "\<not> alloc_mapped m d ?i" using False by (simp add: alloc_mapped_def)
      then have "image_ok m d ?ci1" using I
        by (simp add: image_ok_def shows_allocation_def alloc_offsets_def empty_offsets)
      then show ?thesis using r by simp
    next
      case True
      define al where "al = allocations d ! i"
      have i: "?i = i" "AllocationAt d i = Some al" "al \<in> set (allocations d)"
        using True by (simp_all add: AllocationAt_def NumAllocations_def al_def)
      have sz: "al_Address al \<le> al_Address al + al_Size al" "al_Size al \<le> maxAllocationSize d"
        using sized i(3) by (simp_all add: dir_sized_def)
      obtain ci2 go where reg: "SetIndex_region m (al_Address al) ?ci1 = (ci2, go)" by (meson surj_pair)
      have c1: "cache_ok m ?ci1" using I by simp
      note R = SetIndex_region_outcome [OF ok c1 reg]
      have v: "ci_index ci2 = i" "ci_numAllocations ci2 = ?n" "ci_pFirstChar ci2 = Buffer 0"
        "ci_pFirstOffset ci2 = Buffer 0" "ci_pPastOffsets ci2 = Buffer 0" "ci_size ci2 = ci_size ci"
        "length (ci_buffer ci2) = length (ci_buffer ci)"
        using R(2) I i(1) by (simp_all add: same_view_def)
      have am: "alloc_mapped m d i \<longleftrightarrow> go" using R(4) True by (simp add: alloc_mapped_def al_def)
      show ?thesis
      proof (cases go)
        case False
        then have "SetIndex m d i ci = Some ci2"
          using new reg i unfolding SetIndex_def idx by (simp add: Let_def)
        moreover have "image_ok m d ci2" using R(1) v I True False am
          by (simp add: image_ok_def shows_allocation_def alloc_offsets_def empty_offsets)
        ultimately show ?thesis using v i(1) by simp
      next
        case g: True
        have room: "unat (al_Size al) \<le> length (ci_buffer ci2)" "length (ci_buffer ci2) < 2 ^ 64"
          using sz(2) I v(7) by (simp_all add: MaxAllocationSize_def word_le_nat_alt)
        obtain ci3 where ci3: "SetIndex_fill m (al_Address al) (al_Size al) ci2 = Some ci3" "cache_ok m ci3"
          "ci_size ci3 = al_Size al"
          "ci_pFirstChar ci3 = Buffer 0 \<or> (\<exists>off. ci_pFirstChar ci3 = Image off)"
          "ptr_bytes m ci3 (ci_pFirstChar ci3) (unat (al_Size al)) = Value (span_bytes m (al_Address al) (unat (al_Size al)))"
          "ci_index ci3 = i" "ci_numAllocations ci3 = ?n" "ci_pFirstOffset ci3 = Buffer 0" "ci_pPastOffsets ci3 = Buffer 0"
          "length (ci_buffer ci3) = length (ci_buffer ci)"
          using SetIndex_fill_outcome [OF ok R(1) _ _ _ sz(1) room v(3)] R(5) [OF g] v by auto
        define shown where "shown \<longleftrightarrow> ci_size ci3 \<noteq> 0 \<and> al_Address al AND (sizeof_Offset - 1) = 0"
        define ci4 where "ci4 = (if shown then ci3\<lparr>ci_pFirstOffset := ci_pFirstChar ci3,
             ci_pPastOffsets := ptr_add (ci_pFirstChar ci3) (al_Size al AND NOT (sizeof_Offset - 1))\<rparr> else ci3)"
        have r: "SetIndex m d i ci = Some ci4"
          using new reg i ci3(1) g unfolding SetIndex_def idx by (simp add: Let_def ci4_def shown_def)
        have bytes: "alloc_bytes m d i = span_bytes m (al_Address al) (unat (al_Size al))"
          by (simp add: alloc_bytes_def al_def)
        have "image_offsets m ci4 = Value (alloc_offsets m d i)"
        proof (cases shown)
          case True
          have "image_offsets m ci4 = Value (le_words (span_bytes m (al_Address al) (unat (al_Size al))))"
          proof (rule shown_offsets [of _ _ "ci_pFirstChar ci3"])
            show "ptr_bytes m ci4 (ci_pFirstChar ci3) (unat (al_Size al)) =
                Value (span_bytes m (al_Address al) (unat (al_Size al)))"
              using ci3(4,5) by (auto simp: ci4_def)
          qed (use ci3(4) True in \<open>simp_all add: ci4_def\<close>)
          then show ?thesis using True am g by (simp add: alloc_offsets_def bytes shown_def flip: al_def)
        next
          case False
          then have "image_offsets m ci4 = Value []" using ci3(8,9) by (simp add: ci4_def empty_offsets)
          moreover have "alloc_offsets m d i = []"
            using False ci3(3) by (auto simp: alloc_offsets_def shown_def bytes span_bytes_def simp flip: al_def)
          ultimately show ?thesis by simp
        qed
        moreover have "image_chars m ci4 = Value (alloc_bytes m d i)"
          using ci3(3,5) by (simp add: ci4_def bytes image_chars_def [of _ ci3])
        ultimately have "image_ok m d ci4"
          using ci3 I True by (simp add: image_ok_def shows_allocation_def ci4_def al_def)
        then show ?thesis using r ci3(6) i(1) am g by (simp add: ci4_def)
      qed
    qed
  qed
qed

lemma image_ok_new:
  assumes "unat (MaxAllocationSize d) + 16 < 2 ^ 64"
  shows "image_ok m d (ContiguousImage_new d)"
proof -
  let ?M = "MaxAllocationSize d"
  define q r where "q = unat ?M div 8" and "r = unat ?M mod 8"
  have "unat (?M div 8) = q" by (simp add: unat_div q_def)
  moreover have M: "unat ?M = 8 * q + r" "r < 8" by (simp_all add: q_def r_def)
  ultimately have "unat ?M \<le> 8 * (unat (?M div 8) + 2)" by simp
  moreover have "8 * (unat (?M div 8) + 2) < 2 ^ 64"
    using assms M \<open>unat (?M div 8) = q\<close> by simp
  moreover have "\<not> alloc_mapped m d (NumAllocations d)" by (simp add: alloc_mapped_def)
  ultimately show ?thesis
    by (simp add: image_ok_def ContiguousImage_new_def cache_ok_def shows_allocation_def empty_offsets alloc_offsets_def)
qed

section \<open>Properties\<close>

text \<open>
  Over a well-formed address map and a directory whose allocations do not wrap, \<open>SetIndex\<close> never
  overruns the buffer, never reads outside the core file, and shows the allocation it was asked for,
  whatever was shown before: the bytes of an allocation whose first byte is in the core file, with zeros
  for what is not, and, if it is aligned, its words; no words otherwise.  For an allocation whose first
  byte is not in the core file \<open>Size\<close> still gives the size of what was shown before.
\<close>

theorem SetIndex_correct:
  assumes "vam_ok m" "dir_sized d" "image_ok m d ci"
  shows "\<exists>ci'. SetIndex m d i ci = Some ci' \<and> image_ok m d ci' \<and> ci_index ci' = min i (NumAllocations d) \<and>
           image_offsets m ci' = Value (alloc_offsets m d (min i (NumAllocations d))) \<and>
           (alloc_mapped m d i \<longrightarrow>
              image_chars m ci' = Value (alloc_bytes m d i) \<and> ci_size ci' = al_Size (allocations d ! i)) \<and>
           (ci_index ci \<noteq> min i (NumAllocations d) \<and> \<not> alloc_mapped m d i \<longrightarrow> ci_size ci' = ci_size ci)"
proof -
  obtain ci' where ci': "SetIndex m d i ci = Some ci'" "image_ok m d ci'" "ci_index ci' = min i (NumAllocations d)"
    "min i (NumAllocations d) \<noteq> ci_index ci \<and> \<not> alloc_mapped m d i \<longrightarrow> ci_size ci' = ci_size ci"
    using SetIndex_outcome [OF assms(1,3,2)] by blast
  have "alloc_mapped m d i \<Longrightarrow> min i (NumAllocations d) = i" by (simp add: alloc_mapped_def)
  then show ?thesis using ci' by (auto simp: image_ok_def shows_allocation_def)
qed

text \<open>An allocation that runs from the bytes of the core file into a truncated part.\<close>

definition image_directory :: Directory where
  "image_directory = consume_allocation Directory_new 0 (0x1000, 8, True)"

lemma image_directory_simps:
  "NumAllocations image_directory = 1" "MaxAllocationSize image_directory = 8"
  "al_Address (allocations image_directory ! 0) = 0x1000" "al_Size (allocations image_directory ! 0) = 8"
  "dir_sized image_directory"
proof -
  have a: "allocations image_directory = [Allocation_new 0x1000 8 True 0 False]"
    and m: "maxAllocationSize image_directory = 8"
    by (simp_all add: image_directory_def consume_allocation_def push_allocation_def Directory_new_def)
  have f: "al_Address (Allocation_new 0x1000 8 True 0 False) = 0x1000"
    "al_Size (Allocation_new 0x1000 8 True 0 False) = 8"
    by (simp_all add: Allocation_new_def al_Address_def al_Size_def al_constants mask_eq_exp_minus_1)
  show "NumAllocations image_directory = 1" "MaxAllocationSize image_directory = 8"
    "al_Address (allocations image_directory ! 0) = 0x1000" "al_Size (allocations image_directory ! 0) = 8"
    "dir_sized image_directory"
    by (simp_all add: NumAllocations_def MaxAllocationSize_def a m f dir_sized_def)
qed

theorem SetIndex_correct_witness:
  "vam_ok example_map \<and> dir_sized image_directory \<and>
   image_ok example_map image_directory (ContiguousImage_new image_directory) \<and>
   (\<exists>ci'. SetIndex example_map image_directory 0 (ContiguousImage_new image_directory) = Some ci' \<and>
      image_offsets example_map ci' = Value [0x060500030201])"
proof -
  let ?c = "ContiguousImage_new image_directory"
  have ok: "image_ok example_map image_directory ?c"
    by (rule image_ok_new) (simp add: image_directory_simps)
  have m: "mem_byte example_map 0x1000 = Some 1" "mem_byte example_map 0x1001 = Some 2"
    "mem_byte example_map 0x1002 = Some 3" "mem_byte example_map 0x1003 = Some 0"
    "mem_byte example_map 0x1004 = Some 5" "mem_byte example_map 0x1005 = Some 6"
    "mem_byte example_map 0x1006 = None" "mem_byte example_map 0x1007 = None"
    by (simp_all add: mem_byte_def rm_lookup_def example_map_entries has_image_def flag_defs)
  have "alloc_bytes example_map image_directory 0 = [1, 2, 3, 0, 5, 6, 0, 0]"
    using m by (simp add: alloc_bytes_def span_bytes_def image_directory_simps byte_or_zero_def upt_rec)
  then have "alloc_offsets example_map image_directory 0 = [0x060500030201]"
    using m by (simp add: alloc_offsets_def alloc_mapped_def image_directory_simps le_words.simps)
  then show ?thesis
    using SetIndex_correct [OF example_map_ok image_directory_simps(5) ok, of 0] example_map_ok
      image_directory_simps(5) ok by auto
qed

end
