(* ===== verification/Indexed_Distances.thy ===== *)
theory Indexed_Distances
  imports Chap_Prelude
begin

text \<open>
  The class \<open>Allocations::IndexedDistances\<close> of Allocations/IndexedDistances.h: an array of distances
  kept at 8 bits and widened to 16 and 32 bits when a larger distance is stored.  The contract its
  client, the allocation graph, relies on is the locale \<open>distance_store\<close>.  \<open>abort\<close> and an access out of
  range are \<open>None\<close>.
\<close>

section \<open>The contract\<close>

locale distance_store =
  fixes ok :: "'d \<Rightarrow> bool"
    and capacity :: "'d \<Rightarrow> nat"
    and new_store :: "nat \<Rightarrow> 'd"
    and set_distance :: "'d \<Rightarrow> nat \<Rightarrow> nat \<Rightarrow> 'd option"
    and get_distance :: "'d \<Rightarrow> nat \<Rightarrow> nat option"
  assumes ok_new: "ok (new_store n)"
    and capacity_new: "capacity (new_store n) = n"
    and get_new: "i < n \<Longrightarrow> get_distance (new_store n) i = Some 0"
    and set_ok: "ok d \<Longrightarrow> i < capacity d \<Longrightarrow> x < 2 ^ 32 \<Longrightarrow>
          \<exists>d'. set_distance d i x = Some d' \<and> ok d' \<and> capacity d' = capacity d \<and>
               (\<forall>j<capacity d. get_distance d' j = (if j = i then Some x else get_distance d j))"
begin

lemma set_cases:
  assumes "ok d" "i < capacity d" "x < 2 ^ 32"
  obtains d' where "set_distance d i x = Some d'" "ok d'" "capacity d' = capacity d"
    "\<forall>j<capacity d. get_distance d' j = (if j = i then Some x else get_distance d j)"
  using set_ok [OF assms] by blast

text \<open>The store as a function from indices, with 0 outside its capacity.\<close>

definition dist_at :: "'d \<Rightarrow> nat \<Rightarrow> nat" where
  "dist_at d i = (if i < capacity d then (case get_distance d i of Some x \<Rightarrow> x | None \<Rightarrow> 0) else 0)"

lemma dist_at_new: "dist_at (new_store n) = (\<lambda>i. 0)"
  by (simp add: dist_at_def capacity_new get_new fun_eq_iff)

lemma dist_at_set:
  assumes "ok d" "i < capacity d" "x < 2 ^ 32" "set_distance d i x = Some d'"
  shows "dist_at d' = (dist_at d)(i := x)"
  using set_ok [OF assms(1-3)] assms(2,4) by (auto simp: dist_at_def fun_eq_iff)

end

section \<open>State and operations\<close>

record IndexedDistances =
  numIndices :: nat
  distanceBits :: nat
  maxDistanceBits :: nat
  maxDistance :: nat
  distances8 :: "8 word list"
  distances16 :: "16 word list"
  distances32 :: "32 word list"

definition IndexedDistances_new :: "nat \<Rightarrow> IndexedDistances" where
  "IndexedDistances_new n =
     \<lparr>numIndices = n, distanceBits = 8, maxDistanceBits = 32, maxDistance = 0xFF,
      distances8 = replicate n 0, distances16 = [], distances32 = []\<rparr>"

text \<open>The \<open>while\<close> loop of \<open>SetDistance\<close>.\<close>

function SetDistance_widen :: "IndexedDistances \<Rightarrow> nat \<Rightarrow> IndexedDistances option" where
  "SetDistance_widen d distance =
     (if distance > maxDistance d then
        if distanceBits d = maxDistanceBits d then None
        else if distanceBits d = 8 then
          if length (distances8 d) < numIndices d then None
          else SetDistance_widen
                 (d\<lparr>distances16 := map ucast (take (numIndices d) (distances8 d)),
                    distanceBits := 16, maxDistance := 0xFFFF, distances8 := []\<rparr>) distance
        else if distanceBits d = 16 then
          if length (distances16 d) < numIndices d then None
          else SetDistance_widen
                 (d\<lparr>distances32 := map ucast (take (numIndices d) (distances16 d)),
                    distanceBits := 32, maxDistance := 0xFFFFFFFF, distances16 := []\<rparr>) distance
        else None
      else Some d)"
  by auto
termination
  by (relation "measure (\<lambda>(d, x). 32 - distanceBits d)") auto

declare SetDistance_widen.simps [simp del]

definition SetDistance :: "IndexedDistances \<Rightarrow> nat \<Rightarrow> nat \<Rightarrow> IndexedDistances option" where
  "SetDistance d0 index distance =
     (case SetDistance_widen d0 distance of
        None \<Rightarrow> None
      | Some d \<Rightarrow>
          if distanceBits d = 8 then
            if index < length (distances8 d)
            then Some (d\<lparr>distances8 := (distances8 d)[index := of_nat distance]\<rparr>) else None
          else if distanceBits d = 16 then
            if index < length (distances16 d)
            then Some (d\<lparr>distances16 := (distances16 d)[index := of_nat distance]\<rparr>) else None
          else
            if index < length (distances32 d)
            then Some (d\<lparr>distances32 := (distances32 d)[index := of_nat distance]\<rparr>) else None)"

definition GetDistance :: "IndexedDistances \<Rightarrow> nat \<Rightarrow> nat option" where
  "GetDistance d index =
     (if distanceBits d = 8 then
        if index < length (distances8 d) then Some (unat (distances8 d ! index)) else None
      else if distanceBits d = 16 then
        if index < length (distances16 d) then Some (unat (distances16 d ! index)) else None
      else
        if index < length (distances32 d) then Some (unat (distances32 d ! index)) else None)"

section \<open>The store satisfies the contract\<close>

text \<open>The invariant: one array is in use, and the largest distance fits its width.\<close>

definition distances_ok :: "IndexedDistances \<Rightarrow> bool" where
  "distances_ok d \<longleftrightarrow> maxDistanceBits d = 32 \<and>
     (distanceBits d = 8 \<and> maxDistance d = 2 ^ 8 - 1 \<and> length (distances8 d) = numIndices d \<or>
      distanceBits d = 16 \<and> maxDistance d = 2 ^ 16 - 1 \<and> length (distances16 d) = numIndices d \<or>
      distanceBits d = 32 \<and> maxDistance d = 2 ^ 32 - 1 \<and> length (distances32 d) = numIndices d)"

lemma distances_ok_new: "distances_ok (IndexedDistances_new n)"
  by (simp add: distances_ok_def IndexedDistances_new_def)

lemma SetDistance_widen_outcome:
  assumes "distances_ok d" "x < 2 ^ 32"
  shows "\<exists>d'. SetDistance_widen d x = Some d' \<and> distances_ok d' \<and> numIndices d' = numIndices d \<and>
           x \<le> maxDistance d' \<and> (\<forall>j<numIndices d. GetDistance d' j = GetDistance d j)"
  using assms
proof (induction d x rule: SetDistance_widen.induct)
  case (1 d x)
  have len8: "unat (ucast w :: 16 word) = unat w" for w :: "8 word"
    using unsigned_less [where 'a = nat, of w] by (simp add: unsigned_ucast_eq take_bit_nat_eq_self)
  have len16: "unat (ucast w :: 32 word) = unat w" for w :: "16 word"
    using unsigned_less [where 'a = nat, of w] by (simp add: unsigned_ucast_eq take_bit_nat_eq_self)
  show ?case
  proof (cases "x > maxDistance d")
    case False
    then show ?thesis using "1.prems" by (auto simp: SetDistance_widen.simps [of d x])
  next
    case True
    have nb: "distanceBits d \<noteq> maxDistanceBits d" using "1.prems" True by (auto simp: distances_ok_def)
    consider (eight) "distanceBits d = 8" "length (distances8 d) = numIndices d"
      | (sixteen) "distanceBits d = 16" "length (distances16 d) = numIndices d"
      using "1.prems"(1) nb by (auto simp: distances_ok_def)
    then show ?thesis
    proof cases
      case eight
      let ?d = "d\<lparr>distances16 := map ucast (take (numIndices d) (distances8 d)),
                  distanceBits := 16, maxDistance := 0xFFFF, distances8 := []\<rparr>"
      have "distances_ok ?d" using "1.prems"(1) eight by (auto simp: distances_ok_def)
      then have "\<exists>d'. SetDistance_widen ?d x = Some d' \<and> distances_ok d' \<and> numIndices d' = numIndices ?d \<and>
          x \<le> maxDistance d' \<and> (\<forall>j<numIndices ?d. GetDistance d' j = GetDistance ?d j)"
        using "1.IH"(1) True nb eight "1.prems"(2) by simp
      moreover have "\<forall>j<numIndices d. GetDistance ?d j = GetDistance d j"
        using eight by (simp add: GetDistance_def len8)
      ultimately show ?thesis
        using True nb eight by (simp add: SetDistance_widen.simps [of d x])
    next
      case sixteen
      let ?d = "d\<lparr>distances32 := map ucast (take (numIndices d) (distances16 d)),
                  distanceBits := 32, maxDistance := 0xFFFFFFFF, distances16 := []\<rparr>"
      have "distances_ok ?d" using "1.prems"(1) sixteen by (auto simp: distances_ok_def)
      then have "\<exists>d'. SetDistance_widen ?d x = Some d' \<and> distances_ok d' \<and> numIndices d' = numIndices ?d \<and>
          x \<le> maxDistance d' \<and> (\<forall>j<numIndices ?d. GetDistance d' j = GetDistance ?d j)"
        using "1.IH"(2) True nb sixteen "1.prems"(2) by simp
      moreover have "\<forall>j<numIndices d. GetDistance ?d j = GetDistance d j"
        using sixteen by (simp add: GetDistance_def len16)
      ultimately show ?thesis
        using True nb sixteen by (simp add: SetDistance_widen.simps [of d x])
    qed
  qed
qed

lemma SetDistance_outcome:
  assumes "distances_ok d" "i < numIndices d" "x < 2 ^ 32"
  shows "\<exists>d'. SetDistance d i x = Some d' \<and> distances_ok d' \<and> numIndices d' = numIndices d \<and>
           (\<forall>j<numIndices d. GetDistance d' j = (if j = i then Some x else GetDistance d j))"
proof -
  obtain w where w: "SetDistance_widen d x = Some w" "distances_ok w" "numIndices w = numIndices d"
    "x \<le> maxDistance w" "\<forall>j<numIndices d. GetDistance w j = GetDistance d j"
    using SetDistance_widen_outcome [OF assms(1,3)] by blast
  consider (eight) "distanceBits w = 8" "length (distances8 w) = numIndices w" "x < 2 ^ 8"
    | (sixteen) "distanceBits w = 16" "length (distances16 w) = numIndices w" "x < 2 ^ 16"
    | (full) "distanceBits w = 32" "length (distances32 w) = numIndices w" "x < 2 ^ 32"
    using w(2,4) by (auto simp: distances_ok_def)
  then show ?thesis
  proof cases
    case eight
    then show ?thesis
      using w assms(2) by (auto simp: SetDistance_def GetDistance_def distances_ok_def nth_list_update unat_of_nat)
  next
    case sixteen
    then show ?thesis
      using w assms(2) by (auto simp: SetDistance_def GetDistance_def distances_ok_def nth_list_update unat_of_nat)
  next
    case full
    then show ?thesis
      using w assms(2) by (auto simp: SetDistance_def GetDistance_def distances_ok_def nth_list_update unat_of_nat)
  qed
qed

interpretation ds: distance_store distances_ok numIndices IndexedDistances_new SetDistance GetDistance
proof (unfold_locales, goal_cases)
  case (1 n)
  show ?case by (rule distances_ok_new)
next
  case (2 n)
  show ?case by (simp add: IndexedDistances_new_def)
next
  case (3 i n)
  then show ?case by (simp add: IndexedDistances_new_def GetDistance_def)
next
  case (4 d i x)
  then show ?case by (rule SetDistance_outcome)
qed

section \<open>Properties\<close>

text \<open>
  The distances behave as one array of 32-bit numbers, whatever width is in use: a new array holds
  0 everywhere, and storing any distance below \<open>2 ^ 32\<close> at an index in range does not abort, returns
  that distance for the index from then on and leaves every other index as it was, through both
  widenings.
\<close>

theorem IndexedDistances_correct:
  assumes "distances_ok d" "i < numIndices d" "x < 2 ^ 32"
  shows "\<exists>d'. SetDistance d i x = Some d' \<and> distances_ok d' \<and> numIndices d' = numIndices d \<and>
           GetDistance d' i = Some x \<and>
           (\<forall>j<numIndices d. j \<noteq> i \<longrightarrow> GetDistance d' j = GetDistance d j)"
  using ds.set_ok [OF assms] assms(2) by auto

theorem IndexedDistances_correct_witness:
  "\<exists>d'. SetDistance (IndexedDistances_new 3) 1 70000 = Some d' \<and> GetDistance d' 1 = Some 70000 \<and>
        GetDistance d' 2 = Some 0"
  using IndexedDistances_correct [OF distances_ok_new, of 1 3 70000]
  by (fastforce simp: IndexedDistances_new_def GetDistance_def)

end
