(* ===== verification/Alloc_Graph.thy ===== *)
theory Alloc_Graph
  imports Contiguous_Image Indexed_Distances
begin

text \<open>
  The edges of the class \<open>Allocations::Graph\<close> of Allocations/Graph.h: for every allocation the
  allocations its words point to, and the other way round, kept in two arrays with an index of the first
  edge of every allocation.  The theory has the state, the two passes of \<open>FindEdges\<close> and the queries on
  edges; Graph\_Anchors has the anchors.

  The obscured reference checker is an interface that nothing in the repository implements; it is an
  optional function from addresses to indices.
\<close>

section \<open>State\<close>

record Graph =
  g_numAllocations :: nat
  totalEdges :: nat
  outgoing :: "nat list"
  incoming :: "nat list"
  firstOutgoing :: "nat list"
  firstIncoming :: "nat list"
  staticAnchorDistances :: IndexedDistances
  stackAnchorDistances :: IndexedDistances
  registerAnchorDistances :: IndexedDistances
  externalAnchorDistances :: IndexedDistances
  leaked :: "bool list"
  staticAnchorPoints :: "(nat, addr list) std_map"
  stackAnchorPoints :: "(nat, addr list) std_map"
  registerAnchorPoints :: "(nat, addr list) std_map"
  externalAnchorPoints :: "(nat, string) std_map"

text \<open>The graph before the body of its constructor.\<close>

definition Graph_init :: "Directory \<Rightarrow> Graph" where
  "Graph_init d =
     \<lparr>g_numAllocations = NumAllocations d, totalEdges = 0, outgoing = [], incoming = [],
      firstOutgoing = [], firstIncoming = [],
      staticAnchorDistances = IndexedDistances_new (NumAllocations d),
      stackAnchorDistances = IndexedDistances_new (NumAllocations d),
      registerAnchorDistances = IndexedDistances_new (NumAllocations d),
      externalAnchorDistances = IndexedDistances_new (NumAllocations d),
      leaked = [], staticAnchorPoints = [], stackAnchorPoints = [], registerAnchorPoints = [],
      externalAnchorPoints = []\<rparr>"

section \<open>Finding the edges\<close>

type_synonym obscured = "(addr \<Rightarrow> nat) option"

definition EdgeTargetIndex :: "Directory \<Rightarrow> obscured \<Rightarrow> addr \<Rightarrow> nat" where
  "EdgeTargetIndex d obs targetCandidate =
     (let targetIndex = AllocationIndexOf d targetCandidate in
      case obs of
        Some checker \<Rightarrow> if targetIndex = NumAllocations d then checker targetCandidate else targetIndex
      | None \<Rightarrow> targetIndex)"

text \<open>The loop over the offsets of allocation \<open>i\<close>, the same in both passes.\<close>

fun collect_targets :: "Directory \<Rightarrow> obscured \<Rightarrow> nat \<Rightarrow> nat \<Rightarrow> addr list \<Rightarrow> nat list" where
  "collect_targets d obs i prevTarget [] = []"
| "collect_targets d obs i prevTarget (check # checks) =
     (let target = EdgeTargetIndex d obs check in
      if target \<noteq> NumAllocations d \<and> target \<noteq> i \<and> target \<noteq> prevTarget
      then target # collect_targets d obs i target checks
      else collect_targets d obs i prevTarget checks)"

definition find_targets ::
  "VirtualAddressMap \<Rightarrow> Directory \<Rightarrow> obscured \<Rightarrow> nat \<Rightarrow> ContiguousImage \<Rightarrow> (ContiguousImage \<times> nat list) option" where
  "find_targets m d obs i ci =
     (case SetIndex m d i ci of
        None \<Rightarrow> None
      | Some ci' \<Rightarrow>
          (case image_offsets m ci' of
             Value ws \<Rightarrow>
               let targets = collect_targets d obs i (NumAllocations d) ws in
               Some (ci', if length targets > 1 then sort targets else targets)
           | _ \<Rightarrow> None))"

fun count_targets :: "nat \<Rightarrow> nat list \<Rightarrow> Graph \<Rightarrow> Graph" where
  "count_targets prevTarget [] g = g"
| "count_targets prevTarget (target # targets) g =
     (if target \<noteq> prevTarget then
        count_targets target targets
          (g\<lparr>firstIncoming := (firstIncoming g)[target := firstIncoming g ! target + 1],
             totalEdges := totalEdges g + 1\<rparr>)
      else count_targets prevTarget targets g)"

fun count_edges ::
  "VirtualAddressMap \<Rightarrow> Directory \<Rightarrow> obscured \<Rightarrow> nat list \<Rightarrow> ContiguousImage \<Rightarrow> Graph
   \<Rightarrow> (ContiguousImage \<times> Graph) option" where
  "count_edges m d obs [] ci g = Some (ci, g)"
| "count_edges m d obs (i # is) ci g =
     (case find_targets m d obs i ci of
        None \<Rightarrow> None
      | Some (ci', targets) \<Rightarrow>
          count_edges m d obs is ci'
            (count_targets (g_numAllocations g) targets
               (g\<lparr>firstOutgoing := (firstOutgoing g)[i := totalEdges g]\<rparr>)))"

fun sum_counts :: "nat list \<Rightarrow> nat list \<Rightarrow> nat list" where
  "sum_counts [] fi = fi"
| "sum_counts (i # is) fi = sum_counts is (fi[i + 1 := fi ! i + fi ! (i + 1)])"

fun fill_targets :: "nat \<Rightarrow> nat \<Rightarrow> nat \<Rightarrow> nat list \<Rightarrow> Graph \<Rightarrow> Graph" where
  "fill_targets i prevTarget nextOutgoing [] g = g"
| "fill_targets i prevTarget nextOutgoing (target # targets) g =
     (if target \<noteq> prevTarget then
        let first = firstIncoming g ! target - 1 in
        fill_targets i target (nextOutgoing + 1) targets
          (g\<lparr>firstIncoming := (firstIncoming g)[target := first],
             incoming := (incoming g)[first := i],
             outgoing := (outgoing g)[nextOutgoing := target]\<rparr>)
      else fill_targets i prevTarget nextOutgoing targets g)"

fun fill_edges ::
  "VirtualAddressMap \<Rightarrow> Directory \<Rightarrow> obscured \<Rightarrow> nat list \<Rightarrow> ContiguousImage \<Rightarrow> Graph \<Rightarrow> Graph option" where
  "fill_edges m d obs [] ci g = Some g"
| "fill_edges m d obs (i # is) ci g =
     (case find_targets m d obs i ci of
        None \<Rightarrow> None
      | Some (ci', targets) \<Rightarrow>
          fill_edges m d obs is ci' (fill_targets i (g_numAllocations g) (firstOutgoing g ! i) targets g))"

definition FindEdges :: "VirtualAddressMap \<Rightarrow> Directory \<Rightarrow> obscured \<Rightarrow> Graph \<Rightarrow> Graph option" where
  "FindEdges m d obs g =
     (let n = g_numAllocations g in
      if n = 0 then Some g
      else
        let g1 = g\<lparr>firstIncoming := replicate (n + 1) 0, firstOutgoing := replicate (n + 1) 0\<rparr> in
        case count_edges m d obs [0..<n] (ContiguousImage_new d) g1 of
          None \<Rightarrow> None
        | Some (ci, g2) \<Rightarrow>
            let g3 = g2\<lparr>firstOutgoing := (firstOutgoing g2)[n := totalEdges g2],
                        firstIncoming := sum_counts [0..<n] (firstIncoming g2)\<rparr>;
                g4 = g3\<lparr>outgoing := replicate (totalEdges g3) 0, incoming := replicate (totalEdges g3) 0\<rparr>
            in fill_edges m d obs (rev [0..<n]) ci g4)"

section \<open>Queries\<close>

text \<open>A range of edges; the form with pointers gives the same slice.\<close>

definition edge_range :: "Graph \<Rightarrow> nat list \<Rightarrow> nat \<Rightarrow> nat \<times> nat" where
  "edge_range g first i =
     (if i < g_numAllocations g then (first ! i, first ! (i + 1)) else (totalEdges g, totalEdges g))"

definition GetIncoming :: "Graph \<Rightarrow> nat \<Rightarrow> nat \<times> nat" where
  "GetIncoming g target = edge_range g (firstIncoming g) target"

definition GetOutgoing :: "Graph \<Rightarrow> nat \<Rightarrow> nat \<times> nat" where
  "GetOutgoing g source = edge_range g (firstOutgoing g) source"

definition edges_in :: "nat list \<Rightarrow> nat \<times> nat \<Rightarrow> nat list" where
  "edges_in arr r = map (\<lambda>k. arr ! k) [fst r..<snd r]"

function edge_search :: "nat list \<Rightarrow> nat \<Rightarrow> nat \<Rightarrow> nat \<Rightarrow> nat option" where
  "edge_search arr key base limit =
     (if base < limit then
        let mid = (base + limit) div 2; entry = arr ! mid in
        if key \<ge> entry then
          if key = entry then Some mid else edge_search arr key (mid + 1) limit
        else edge_search arr key base mid
      else None)"
  by auto
termination by (relation "measure (\<lambda>(arr, key, base, limit). limit - base)") auto

declare edge_search.simps [simp del]

definition GetIncomingEdgeIndex :: "Graph \<Rightarrow> nat \<Rightarrow> nat \<Rightarrow> nat" where
  "GetIncomingEdgeIndex g source target =
     (if source \<ge> g_numAllocations g \<or> target \<ge> g_numAllocations g then totalEdges g
      else case edge_search (incoming g) source (firstIncoming g ! target) (firstIncoming g ! (target + 1)) of
             Some mid \<Rightarrow> mid | None \<Rightarrow> totalEdges g)"

definition GetOutgoingEdgeIndex :: "Graph \<Rightarrow> nat \<Rightarrow> nat \<Rightarrow> nat" where
  "GetOutgoingEdgeIndex g source target =
     (if source \<ge> g_numAllocations g \<or> target \<ge> g_numAllocations g then totalEdges g
      else case edge_search (outgoing g) target (firstOutgoing g ! source) (firstOutgoing g ! (source + 1)) of
             Some mid \<Rightarrow> mid | None \<Rightarrow> totalEdges g)"

definition GetSourceForIncoming :: "Graph \<Rightarrow> nat \<Rightarrow> nat" where
  "GetSourceForIncoming g k = (if k < totalEdges g then incoming g ! k else g_numAllocations g)"

definition GetTargetForOutgoing :: "Graph \<Rightarrow> nat \<Rightarrow> nat" where
  "GetTargetForOutgoing g k = (if k < totalEdges g then outgoing g ! k else g_numAllocations g)"

definition HasNoOutgoing :: "Graph \<Rightarrow> nat \<Rightarrow> bool" where
  "HasNoOutgoing g source \<longleftrightarrow>
     source \<ge> g_numAllocations g \<or> firstOutgoing g ! source = firstOutgoing g ! (source + 1)"

text \<open>
  The searches by address: the loop is that of \<open>index_search\<close>, over the edges of one allocation.
\<close>

definition address_search :: "Directory \<Rightarrow> nat list \<Rightarrow> addr \<Rightarrow> nat \<Rightarrow> nat \<Rightarrow> nat option" where
  "address_search d arr addr base limit =
     index_search (\<lambda>k. allocations d ! (arr ! k)) (\<lambda>a. True) addr base limit"

definition SourceAllocationIndex :: "Graph \<Rightarrow> Directory \<Rightarrow> nat \<Rightarrow> addr \<Rightarrow> nat" where
  "SourceAllocationIndex g d target addr =
     (if target < g_numAllocations g then
        case address_search d (incoming g) addr (firstIncoming g ! target) (firstIncoming g ! (target + 1)) of
          Some mid \<Rightarrow> incoming g ! mid | None \<Rightarrow> g_numAllocations g
      else g_numAllocations g)"

definition TargetAllocationIndex :: "Graph \<Rightarrow> Directory \<Rightarrow> nat \<Rightarrow> addr \<Rightarrow> nat" where
  "TargetAllocationIndex g d source addr =
     (if source < g_numAllocations g then
        case address_search d (outgoing g) addr (firstOutgoing g ! source) (firstOutgoing g ! (source + 1)) of
          Some mid \<Rightarrow> outgoing g ! mid | None \<Rightarrow> g_numAllocations g
      else g_numAllocations g)"

definition TargetEdgeIndex :: "Graph \<Rightarrow> Directory \<Rightarrow> nat \<Rightarrow> addr \<Rightarrow> nat" where
  "TargetEdgeIndex g d source addr =
     (if source < g_numAllocations g then
        case address_search d (outgoing g) addr (firstOutgoing g ! source) (firstOutgoing g ! (source + 1)) of
          Some mid \<Rightarrow> mid | None \<Rightarrow> totalEdges g
      else totalEdges g)"

section \<open>The binary searches\<close>

text \<open>The entries of an array increase strictly between two positions.\<close>

definition increasing :: "nat list \<Rightarrow> nat \<Rightarrow> nat \<Rightarrow> bool" where
  "increasing arr base limit \<longleftrightarrow> (\<forall>j k. base \<le> j \<and> j < k \<and> k < limit \<longrightarrow> arr ! j < arr ! k)"

lemma increasingD: "increasing arr base limit \<Longrightarrow> base \<le> j \<Longrightarrow> j < k \<Longrightarrow> k < limit \<Longrightarrow> arr ! j < arr ! k"
  by (auto simp: increasing_def)

lemma increasing_sub: "increasing arr base limit \<Longrightarrow> base \<le> base' \<Longrightarrow> limit' \<le> limit \<Longrightarrow> increasing arr base' limit'"
  unfolding increasing_def by (meson order.trans order.strict_trans2)

lemma edge_search_outcome:
  assumes "increasing arr base limit"
  shows "case edge_search arr key base limit of
           Some mid \<Rightarrow> base \<le> mid \<and> mid < limit \<and> arr ! mid = key
         | None \<Rightarrow> \<forall>k. base \<le> k \<and> k < limit \<longrightarrow> arr ! k \<noteq> key"
  using assms
proof (induction arr key base limit rule: edge_search.induct)
  case (1 arr key base limit)
  show ?case
  proof (cases "base < limit")
    case True
    define mid where "mid = (base + limit) div 2"
    have mid: "base \<le> mid" "mid < limit" using True by (auto simp: mid_def)
    have unfold: "edge_search arr key base limit =
        (if key \<ge> arr ! mid then if key = arr ! mid then Some mid else edge_search arr key (mid + 1) limit
         else edge_search arr key base mid)"
      using True by (subst edge_search.simps) (simp add: Let_def mid_def)
    consider "key = arr ! mid" | "arr ! mid < key" | "key < arr ! mid" by linarith
    then show ?thesis
    proof cases
      case 1
      then show ?thesis using unfold mid by simp
    next
      case 2
      have "increasing arr (mid + 1) limit" using "1.prems" mid by (auto intro: increasing_sub)
      then have IH: "case edge_search arr key (mid + 1) limit of
           Some k \<Rightarrow> mid + 1 \<le> k \<and> k < limit \<and> arr ! k = key
         | None \<Rightarrow> \<forall>k. mid + 1 \<le> k \<and> k < limit \<longrightarrow> arr ! k \<noteq> key"
        using "1.IH"(1) [OF True mid_def refl] 2 by simp
      moreover have "arr ! k \<noteq> key" if "base \<le> k" "k \<le> mid" for k
        using increasingD [OF "1.prems" that(1), of mid] that(2) mid 2 by (cases "k = mid") auto
      ultimately show ?thesis using unfold 2 mid
        by (auto split: option.splits) (metis Suc_leI not_le)
    next
      case 3
      have "increasing arr base mid" using "1.prems" mid by (auto intro: increasing_sub)
      then have IH: "case edge_search arr key base mid of
           Some k \<Rightarrow> base \<le> k \<and> k < mid \<and> arr ! k = key
         | None \<Rightarrow> \<forall>k. base \<le> k \<and> k < mid \<longrightarrow> arr ! k \<noteq> key"
        using "1.IH"(2) [OF True mid_def refl] 3 by simp
      moreover have "arr ! k \<noteq> key" if "mid \<le> k" "k < limit" for k
        using increasingD [OF "1.prems" mid(1), of k] that 3 by (cases "k = mid") auto
      ultimately show ?thesis using unfold 3 mid
        by (auto split: option.splits) (metis not_le)
    qed
  next
    case False
    then show ?thesis by (subst edge_search.simps) auto
  qed
qed

text \<open>Two allocations apart: neither holds an address of the other.\<close>

definition al_holds :: "Directory \<Rightarrow> nat \<Rightarrow> addr \<Rightarrow> bool" where
  "al_holds d i addr \<longleftrightarrow> al_Address (allocations d ! i) \<le> addr \<and>
     addr < al_Address (allocations d ! i) + al_Size (allocations d ! i)"

lemma address_search_Some:
  assumes "address_search d arr addr base limit = Some mid"
  shows "base \<le> mid" "mid < limit" "al_holds d (arr ! mid) addr"
  using index_search_Some [OF assms [unfolded address_search_def]] by (auto simp: al_holds_def)

lemma al_holds_containing:
  assumes "dir_ok cur d" "i < NumAllocations d"
  shows "al_holds d i addr \<longleftrightarrow> i \<in> containing (dir_ranges d) (unat addr)"
proof -
  have "snd (al_range (allocations d ! i)) < 2 ^ 64" using assms by (simp add: dir_ok_def NumAllocations_def)
  then show ?thesis
    using al_range_compare [of "allocations d ! i" addr] assms(2)
    by (simp add: al_holds_def containing_def NumAllocations_def)
qed

text \<open>The search over allocations of which none lies inside another one finds the one that holds an address.\<close>

lemma address_search_finds:
  assumes ok: "dir_ok cur d" and inc: "increasing arr base limit"
    and bound: "\<And>k. base \<le> k \<Longrightarrow> k < limit \<Longrightarrow> arr ! k < NumAllocations d"
    and k: "base \<le> k" "k < limit" "al_holds d (arr ! k) addr"
    and flat: "\<And>i j. base \<le> i \<Longrightarrow> i < j \<Longrightarrow> j < limit \<Longrightarrow> \<not> nested (dir_ranges d) (arr ! i) (arr ! j)"
  shows "address_search d arr addr base limit = Some k"
proof -
  let ?R = "dir_ranges d"
  have lam: "laminar ?R" using ok by (simp add: dir_ok_def)
  have apart: "hi ?R (arr ! i) \<le> lo ?R (arr ! j)" if "base \<le> i" "i < j" "j < limit" for i j
    using laminarD(3) [OF lam increasingD [OF inc that]] flat [OF that] bound [of j] that
    by (simp add: NumAllocations_def)
  have kr: "lo ?R (arr ! k) \<le> unat addr" "unat addr < hi ?R (arr ! k)"
    using iffD1 [OF al_holds_containing [OF ok bound [OF k(1,2)]] k(3)] unfolding containing_def by blast+
  have lohi: "lo ?R (arr ! j) < hi ?R (arr ! j)" if "base \<le> j" "j < limit" for j
    using laminarD(1) [OF lam] bound [OF that] by (simp add: NumAllocations_def)
  have addr: "al_Address (allocations d ! (arr ! j)) \<le> addr \<longleftrightarrow> lo ?R (arr ! j) \<le> unat addr"
    if "base \<le> j" "j < limit" for j
    using bound [OF that] by (simp add: NumAllocations_def al_range_def word_le_nat_alt)
  show ?thesis unfolding address_search_def
  proof (rule index_search_finds_from [OF k(1,2)])
    show "al_Address (allocations d ! (arr ! k)) \<le> addr"
      "addr < al_Address (allocations d ! (arr ! k)) + al_Size (allocations d ! (arr ! k))"
      using k(3) by (simp_all add: al_holds_def)
    show "\<forall>m<k. base \<le> m \<longrightarrow> al_Address (allocations d ! (arr ! m)) \<le> addr \<and>
        \<not> (addr < al_Address (allocations d ! (arr ! m)) + al_Size (allocations d ! (arr ! m)) \<and> True)"
    proof (intro allI impI)
      fix j assume j: "j < k" "base \<le> j"
      then have "hi ?R (arr ! j) \<le> unat addr" "j < limit" using apart [OF j(2,1) k(2)] kr(1) k(2) by auto
      then have "\<not> al_holds d (arr ! j) addr"
        unfolding al_holds_containing [OF ok bound [OF j(2) \<open>j < limit\<close>]] containing_def by simp
      moreover have "al_Address (allocations d ! (arr ! j)) \<le> addr"
        unfolding addr [OF j(2) \<open>j < limit\<close>]
        using lohi [OF j(2) \<open>j < limit\<close>] \<open>hi ?R (arr ! j) \<le> unat addr\<close> by linarith
      ultimately show "al_Address (allocations d ! (arr ! j)) \<le> addr \<and>
        \<not> (addr < al_Address (allocations d ! (arr ! j)) + al_Size (allocations d ! (arr ! j)) \<and> True)"
        by (simp add: al_holds_def)
    qed
    show "\<forall>m<limit. k < m \<longrightarrow> addr < al_Address (allocations d ! (arr ! m))"
    proof (intro allI impI)
      fix j assume j: "j < limit" "k < j"
      then have "unat addr < lo ?R (arr ! j)" using apart [OF k(1) j(2,1)] kr(2) by simp
      then show "addr < al_Address (allocations d ! (arr ! j))" using addr [of j] j k(1) by (simp add: not_le [symmetric])
    qed
  qed simp
qed

section \<open>Tables of edges\<close>

text \<open>
  What the queries rely on, for either direction: the rows of a table lie one after the other in its
  array, each in increasing order.
\<close>

locale edge_table =
  fixes ok :: "'g \<Rightarrow> bool" and rows :: "'g \<Rightarrow> nat" and first :: "'g \<Rightarrow> nat list" and arr :: "'g \<Rightarrow> nat list"
  assumes first_mono: "ok g \<Longrightarrow> i < rows g \<Longrightarrow> first g ! i \<le> first g ! (i + 1)"
    and first_bound: "ok g \<Longrightarrow> i < rows g \<Longrightarrow> first g ! (i + 1) \<le> length (arr g)"
    and row_increasing: "ok g \<Longrightarrow> i < rows g \<Longrightarrow> increasing (arr g) (first g ! i) (first g ! (i + 1))"
    and entry_bound: "ok g \<Longrightarrow> k < length (arr g) \<Longrightarrow> arr g ! k < rows g"
begin

definition row :: "'g \<Rightarrow> nat \<Rightarrow> nat list" where
  "row g i = map (\<lambda>k. arr g ! k) [first g ! i..<first g ! (i + 1)]"

lemma row_sorted: "ok g \<Longrightarrow> i < rows g \<Longrightarrow> sorted_wrt (<) (row g i)"
  using row_increasing [of g i] by (auto simp: row_def sorted_wrt_iff_nth_less increasing_def)

lemma in_row: "x \<in> set (row g i) \<longleftrightarrow> (\<exists>k. first g ! i \<le> k \<and> k < first g ! (i + 1) \<and> arr g ! k = x)"
  by (auto simp: row_def image_iff)

lemma row_position:
  assumes "ok g" "i < rows g" "k < first g ! (i + 1)"
  shows "k < length (arr g)" "arr g ! k < rows g"
proof -
  show "k < length (arr g)" using first_bound [OF assms(1,2)] assms(3) by simp
  then show "arr g ! k < rows g" using entry_bound [OF assms(1)] by simp
qed

lemma search_row:
  assumes "ok g" "i < rows g"
  shows "case edge_search (arr g) x (first g ! i) (first g ! (i + 1)) of
           Some k \<Rightarrow> x \<in> set (row g i) \<and> first g ! i \<le> k \<and> k < first g ! (i + 1) \<and> k < length (arr g) \<and> arr g ! k = x
         | None \<Rightarrow> x \<notin> set (row g i)"
  using edge_search_outcome [OF row_increasing [OF assms], of x] row_position [OF assms]
  by (auto simp: in_row split: option.splits)

lemma address_row_Some:
  assumes "ok g" "i < rows g" "address_search d (arr g) addr (first g ! i) (first g ! (i + 1)) = Some k"
  shows "arr g ! k \<in> set (row g i)" "al_holds d (arr g ! k) addr" "first g ! i \<le> k" "k < first g ! (i + 1)"
    "arr g ! k < rows g"
  using address_search_Some [OF assms(3)] row_position(2) [OF assms(1,2)] by (auto simp: in_row)

lemma address_row_finds:
  assumes "ok g" "i < rows g" "rows g = NumAllocations d" "dir_ok cur d"
    and "t \<in> set (row g i)" "al_holds d t addr"
    and "\<forall>u\<in>set (row g i). \<forall>v\<in>set (row g i). \<not> nested (dir_ranges d) u v"
  shows "\<exists>k. address_search d (arr g) addr (first g ! i) (first g ! (i + 1)) = Some k \<and> arr g ! k = t"
proof -
  obtain k where k: "first g ! i \<le> k" "k < first g ! (i + 1)" "arr g ! k = t"
    using assms(5) by (auto simp: in_row)
  have "address_search d (arr g) addr (first g ! i) (first g ! (i + 1)) = Some k"
  proof (rule address_search_finds [OF assms(4) row_increasing [OF assms(1,2)]])
    show "arr g ! j < NumAllocations d" if "j < first g ! (i + 1)" for j
      using row_position(2) [OF assms(1,2) that] assms(3) by simp
    show "\<not> nested (dir_ranges d) (arr g ! a) (arr g ! b)"
      if "first g ! i \<le> a" "a < b" "b < first g ! (i + 1)" for a b
    proof -
      have "arr g ! a \<in> set (row g i)" "arr g ! b \<in> set (row g i)"
        unfolding in_row using that by (intro exI [of _ a] exI [of _ b]; simp)+
      then show ?thesis using assms(7) by blast
    qed
  qed (use k assms(6) in auto)
  then show ?thesis using k(3) by blast
qed

end

end
