(* ===== verification/Graph_Edges.thy ===== *)
theory Graph_Edges
  imports Alloc_Graph
begin

text \<open>
  The edges that \<open>Graph::FindEdges\<close> finds are those of the process image: correctness of its two passes
  (Allocations/Graph.h), and of the queries on edges.
\<close>

section \<open>Rows, offsets and in-degrees\<close>

text \<open>
  \<open>R i\<close> is the list of targets of \<open>i\<close>.  \<open>offs R k\<close> counts the edges of the sources below \<open>k\<close>,
  \<open>indeg R k t\<close> those of them that lead to \<open>t\<close>, and \<open>start R n t\<close> the edges to targets below \<open>t\<close>.
\<close>

definition offs :: "(nat \<Rightarrow> nat list) \<Rightarrow> nat \<Rightarrow> nat" where
  "offs R k = (\<Sum>i<k. length (R i))"

definition indeg :: "(nat \<Rightarrow> nat list) \<Rightarrow> nat \<Rightarrow> nat \<Rightarrow> nat" where
  "indeg R k t = (\<Sum>i<k. of_bool (t \<in> set (R i)))"

definition start :: "(nat \<Rightarrow> nat list) \<Rightarrow> nat \<Rightarrow> nat \<Rightarrow> nat" where
  "start R n t = (\<Sum>u<t. indeg R n u)"

definition rows_ok :: "nat \<Rightarrow> (nat \<Rightarrow> nat list) \<Rightarrow> bool" where
  "rows_ok n R \<longleftrightarrow> (\<forall>i<n. sorted_wrt (<) (R i) \<and> (\<forall>t\<in>set (R i). t < n))"

lemma offs_simps [simp]: "offs R 0 = 0" "offs R (Suc k) = offs R k + length (R k)"
  by (simp_all add: offs_def)

lemma indeg_simps [simp]: "indeg R 0 t = 0" "indeg R (Suc k) t = indeg R k t + of_bool (t \<in> set (R k))"
  by (simp_all add: indeg_def)

lemma start_simps [simp]: "start R n 0 = 0" "start R n (Suc t) = start R n t + indeg R n t"
  by (simp_all add: start_def)

lemma offs_mono: "i \<le> j \<Longrightarrow> offs R i \<le> offs R j"
  unfolding offs_def by (rule sum_mono2) auto

lemma indeg_mono: "i \<le> j \<Longrightarrow> indeg R i t \<le> indeg R j t"
  unfolding indeg_def by (rule sum_mono2) auto

lemma start_mono: "i \<le> j \<Longrightarrow> start R n i \<le> start R n j"
  unfolding start_def by (rule sum_mono2) auto

lemma indeg_less: "i < n \<Longrightarrow> t \<in> set (R i) \<Longrightarrow> indeg R i t < indeg R n t"
  using indeg_mono [of "Suc i" n R t] by simp

text \<open>Counted by source or by target, the edges are the same number.\<close>

lemma offs_start:
  assumes "rows_ok n R"
  shows "offs R n = start R n n"
proof -
  have "length (R i) = (\<Sum>t<n. of_bool (t \<in> set (R i)))" if "i < n" for i
  proof -
    have "distinct (R i)" "set (R i) \<subseteq> {..<n}"
      using assms that by (auto simp: rows_ok_def strict_sorted_iff)
    then have "length (R i) = card ({..<n} \<inter> set (R i))"
      by (simp add: distinct_card inf.absorb2)
    then show ?thesis by (simp add: sum.If_cases of_bool_def)
  qed
  then have "offs R n = (\<Sum>i<n. \<Sum>t<n. of_bool (t \<in> set (R i)))" by (simp add: offs_def)
  also have "\<dots> = (\<Sum>t<n. \<Sum>i<n. of_bool (t \<in> set (R i)))" by (rule sum.swap)
  finally show ?thesis by (simp add: start_def indeg_def)
qed

text \<open>Every edge has a position of its own among the incoming edges.\<close>

lemma position_bounds:
  assumes "i < n" "t \<in> set (R i)"
  shows "start R n t + indeg R i t < start R n (Suc t)"
  using indeg_less [where R = R, OF assms] by simp

lemma position_inj:
  assumes "i < n" "t \<in> set (R i)" "i' < n" "t' \<in> set (R i')"
    and "start R n t + indeg R i t = start R n t' + indeg R i' t'"
  shows "i = i' \<and> t = t'"
proof -
  note b = position_bounds [where R = R, OF assms(1,2)] position_bounds [where R = R, OF assms(3,4)]
  have "t = t'"
  proof (rule ccontr)
    assume "t \<noteq> t'"
    then consider "Suc t \<le> t'" | "Suc t' \<le> t" by linarith
    then show False
    proof cases
      case 1
      then show ?thesis using start_mono [of "Suc t" t' R n] b(1) assms(5) by linarith
    next
      case 2
      then show ?thesis using start_mono [of "Suc t'" t R n] b(2) assms(5) by linarith
    qed
  qed
  moreover have "i = i'"
  proof (rule ccontr)
    assume "i \<noteq> i'"
    then consider "i < i'" | "i' < i" by linarith
    then show False
      using indeg_less [of i i' t R] indeg_less [of i' i t R] assms(2,4,5) \<open>t = t'\<close> by cases auto
  qed
  ultimately show ?thesis by simp
qed

text \<open>The sources of \<open>t\<close> in order, and the position of each.\<close>

definition sources :: "(nat \<Rightarrow> nat list) \<Rightarrow> nat \<Rightarrow> nat \<Rightarrow> nat list" where
  "sources R k t = filter (\<lambda>i. t \<in> set (R i)) [0..<k]"

lemma sources_Suc: "sources R (Suc k) t = sources R k t @ (if t \<in> set (R k) then [k] else [])"
  by (simp add: sources_def)

lemma length_sources: "length (sources R k t) = indeg R k t"
  by (induction k) (auto simp: sources_Suc, simp add: sources_def)

lemma sources_nth: "i < k \<Longrightarrow> t \<in> set (R i) \<Longrightarrow> sources R k t ! indeg R i t = i"
proof (induction k)
  case (Suc k)
  show ?case
  proof (cases "i = k")
    case True
    then show ?thesis using Suc.prems by (simp add: sources_Suc nth_append length_sources)
  next
    case False
    then show ?thesis
      using Suc indeg_less [of i k t R] by (simp add: sources_Suc nth_append length_sources)
  qed
qed simp

lemma sources_sorted: "sorted_wrt (<) (sources R k t)"
  unfolding sources_def by (rule sorted_wrt_filter) simp

section \<open>The targets of one allocation\<close>

definition obs_ok :: "Directory \<Rightarrow> obscured \<Rightarrow> bool" where
  "obs_ok d obs \<longleftrightarrow> (\<forall>f x. obs = Some f \<longrightarrow> f x \<le> NumAllocations d)"

text \<open>The rows of the process: the allocations other than \<open>i\<close> that a word of \<open>i\<close> points to.\<close>

definition edge_set :: "VirtualAddressMap \<Rightarrow> Directory \<Rightarrow> obscured \<Rightarrow> nat \<Rightarrow> nat set" where
  "edge_set m d obs i =
     {t. t \<noteq> NumAllocations d \<and> t \<noteq> i \<and> (\<exists>w\<in>set (alloc_offsets m d i). EdgeTargetIndex d obs w = t)}"

definition succs :: "VirtualAddressMap \<Rightarrow> Directory \<Rightarrow> obscured \<Rightarrow> nat \<Rightarrow> nat list" where
  "succs m d obs i = sorted_list_of_set (edge_set m d obs i)"

lemma AllocationIndexOf_le:
  assumes "dir_ok cur d"
  shows "AllocationIndexOf d x \<le> NumAllocations d"
proof (cases "containing (dir_ranges d) (unat x) = {}")
  case False
  then have "AllocationIndexOf d x \<in> containing (dir_ranges d) (unat x)"
    using AllocationIndexOf_spec [OF assms, of x] Max_in [OF finite_containing False] by simp
  then show ?thesis by (simp add: containing_def NumAllocations_def)
qed (use AllocationIndexOf_spec [OF assms, of x] in \<open>simp add: NumAllocations_def\<close>)

lemma EdgeTargetIndex_le:
  assumes "dir_ok cur d" "obs_ok d obs"
  shows "EdgeTargetIndex d obs x \<le> NumAllocations d"
  using AllocationIndexOf_le [OF assms(1)] assms(2)
  by (auto simp: EdgeTargetIndex_def Let_def obs_ok_def split: option.split)

lemma finite_edge_set [simp]: "finite (edge_set m d obs i)"
proof -
  have "edge_set m d obs i \<subseteq> EdgeTargetIndex d obs ` set (alloc_offsets m d i)" by (auto simp: edge_set_def)
  then show ?thesis by (rule finite_subset) simp
qed

lemma set_succs [simp]: "set (succs m d obs i) = edge_set m d obs i"
  by (simp add: succs_def)

lemma rows_ok_succs:
  assumes "dir_ok cur d" "obs_ok d obs"
  shows "rows_ok (NumAllocations d) (succs m d obs)"
proof -
  have "t < NumAllocations d" if "t \<in> edge_set m d obs i" for t i
    using that EdgeTargetIndex_le [OF assms] by (fastforce simp: edge_set_def le_neq_implies_less)
  then show ?thesis by (auto simp: rows_ok_def succs_def)
qed

lemma set_collect_targets:
  "insert prev (set (collect_targets d obs i prev ws)) =
   insert prev {t. t \<noteq> NumAllocations d \<and> t \<noteq> i \<and> (\<exists>w\<in>set ws. EdgeTargetIndex d obs w = t)}"
proof (induction ws arbitrary: prev)
  case (Cons w ws)
  let ?t = "EdgeTargetIndex d obs w"
  show ?case
  proof (cases "?t \<noteq> NumAllocations d \<and> ?t \<noteq> i \<and> ?t \<noteq> prev")
    case True
    then have "collect_targets d obs i prev (w # ws) = ?t # collect_targets d obs i ?t ws" by (simp add: Let_def)
    then have "insert prev (set (collect_targets d obs i prev (w # ws))) = insert prev (insert ?t (set (collect_targets d obs i ?t ws)))"
      by simp
    also have "\<dots> = insert prev (insert ?t
        {t. t \<noteq> NumAllocations d \<and> t \<noteq> i \<and> (\<exists>w\<in>set ws. EdgeTargetIndex d obs w = t)})"
      by (simp only: Cons.IH [of ?t])
    also have "\<dots> = insert prev
        {t. t \<noteq> NumAllocations d \<and> t \<noteq> i \<and> (\<exists>w\<in>set (w # ws). EdgeTargetIndex d obs w = t)}"
      using True by auto
    finally show ?thesis .
  next
    case False
    then have "collect_targets d obs i prev (w # ws) = collect_targets d obs i prev ws"
      unfolding collect_targets.simps Let_def by (rule if_not_P)
    then have "insert prev (set (collect_targets d obs i prev (w # ws))) =
        insert prev {t. t \<noteq> NumAllocations d \<and> t \<noteq> i \<and> (\<exists>w\<in>set ws. EdgeTargetIndex d obs w = t)}"
      by (simp only: Cons.IH [of prev])
    also have "\<dots> = insert prev
        {t. t \<noteq> NumAllocations d \<and> t \<noteq> i \<and> (\<exists>w\<in>set (w # ws). EdgeTargetIndex d obs w = t)}"
      using False by (intro set_eqI) (simp, metis)
    finally show ?thesis .
  qed
qed auto

text \<open>The runs of equal targets, each once.\<close>

fun uniq :: "nat \<Rightarrow> nat list \<Rightarrow> nat list" where
  "uniq prev [] = []"
| "uniq prev (t # ts) = (if t \<noteq> prev then t # uniq t ts else uniq prev ts)"

lemma uniq_sorted:
  "sorted ts \<Longrightarrow> (\<forall>t\<in>set ts. prev \<le> t) \<Longrightarrow>
   sorted_wrt (<) (uniq prev ts) \<and> set (uniq prev ts) = set ts - {prev}"
proof (induction prev ts rule: uniq.induct)
  case (2 prev t ts)
  show ?case
  proof (cases "t = prev")
    case False
    then have IH: "sorted_wrt (<) (uniq t ts)" "set (uniq t ts) = set ts - {t}" using 2 by auto
    have "prev \<notin> set ts" using "2.prems" False by fastforce
    moreover have "t < u" if "u \<in> set (uniq t ts)" for u
      using that IH(2) "2.prems" by (auto simp: le_neq_implies_less)
    ultimately show ?thesis using IH False by auto
  qed (use 2 in auto)
qed auto

lemma uniq_fresh:
  assumes "sorted ts" "prev \<notin> set ts"
  shows "sorted_wrt (<) (uniq prev ts)" "set (uniq prev ts) = set ts"
proof -
  have *: "sorted_wrt (<) (uniq prev ts) \<and> set (uniq prev ts) = set ts"
  proof (cases ts)
    case (Cons t us)
    then have IH: "sorted_wrt (<) (uniq t us)" "set (uniq t us) = set us - {t}"
      using uniq_sorted [of us t] assms(1) by auto
    have "t < u" if "u \<in> set (uniq t us)" for u
      using that IH(2) assms(1) Cons by (auto simp: le_neq_implies_less)
    then show ?thesis using IH assms(2) Cons by auto
  qed simp
  then show "sorted_wrt (<) (uniq prev ts)" "set (uniq prev ts) = set ts" by auto
qed

lemma find_targets_outcome:
  assumes ok: "vam_ok m" "dir_sized d" "image_ok m d ci" and i: "i < NumAllocations d"
  shows "\<exists>ci' ts. find_targets m d obs i ci = Some (ci', ts) \<and> image_ok m d ci' \<and>
           uniq (NumAllocations d) ts = succs m d obs i"
proof -
  let ?n = "NumAllocations d"
  obtain ci' where ci': "SetIndex m d i ci = Some ci'" "image_ok m d ci'"
    "ci_index ci' = i"
    using SetIndex_outcome [OF ok(1,3,2), of i] i by (auto simp: min_def)
  then have img: "image_offsets m ci' = Value (alloc_offsets m d i)" by (simp add: image_ok_def shows_allocation_def)
  define cs where "cs = collect_targets d obs i ?n (alloc_offsets m d i)"
  define ts where "ts = (if length cs > 1 then sort cs else cs)"
  have "?n \<notin> set cs" for cs' :: "nat list"
  proof -
    have "?n \<notin> set (collect_targets d obs i prev ws)" for prev ws
      by (induction ws arbitrary: prev) (auto simp: Let_def)
    then show ?thesis by (simp add: cs_def)
  qed
  then have n: "?n \<notin> set cs" by simp
  have "set cs = edge_set m d obs i"
    using set_collect_targets [of ?n d obs i "alloc_offsets m d i"] n
    by (auto simp: cs_def edge_set_def insert_ident)
  then have ts: "set ts = edge_set m d obs i" "sorted ts"
  proof -
    show "sorted ts"
    proof (cases "length cs > 1")
      case False
      then have "cs = [] \<or> (\<exists>c. cs = [c])" by (cases cs; cases "tl cs") auto
      then show ?thesis by (auto simp: ts_def)
    qed (simp add: ts_def)
  qed (simp add: ts_def)
  then have u: "sorted_wrt (<) (uniq ?n ts)" "set (uniq ?n ts) = edge_set m d obs i"
    using uniq_fresh [of ts ?n] by (auto simp: edge_set_def)
  have "uniq ?n ts = succs m d obs i"
    unfolding succs_def u(2) [symmetric]
    using u(1) by (metis sorted_list_of_set.idem_if_sorted_distinct strict_sorted_iff)
  moreover have "find_targets m d obs i ci = Some (ci', ts)"
    by (simp add: find_targets_def ci'(1) img Let_def cs_def [symmetric] ts_def)
  ultimately show ?thesis using ci'(2) by blast
qed

section \<open>The first pass\<close>

abbreviation count_up :: "nat list \<Rightarrow> nat list \<Rightarrow> nat list" where
  "count_up us fi \<equiv> fold (\<lambda>t fi. fi[t := Suc (fi ! t)]) us fi"

lemma length_count_up [simp]: "length (count_up us fi) = length fi"
  by (induction us arbitrary: fi) auto

lemma count_up_nth:
  "distinct us \<Longrightarrow> t < length fi \<Longrightarrow> count_up us fi ! t = fi ! t + of_bool (t \<in> set us)"
  by (induction us arbitrary: fi) (auto simp: nth_list_update)

lemma count_targets_uniq:
  "count_targets prev ts g =
     g\<lparr>firstIncoming := count_up (uniq prev ts) (firstIncoming g),
       totalEdges := totalEdges g + length (uniq prev ts)\<rparr>"
  by (induction prev ts g rule: count_targets.induct) auto

text \<open>The state after the sources below \<open>k\<close> are counted.\<close>

definition counted :: "nat \<Rightarrow> (nat \<Rightarrow> nat list) \<Rightarrow> nat \<Rightarrow> Graph \<Rightarrow> Graph \<Rightarrow> bool" where
  "counted n R k g0 g \<longleftrightarrow> (\<exists>fo fi. g = g0\<lparr>firstOutgoing := fo, firstIncoming := fi, totalEdges := offs R k\<rparr> \<and>
     length fo = n + 1 \<and> length fi = n + 1 \<and> (\<forall>i<k. fo ! i = offs R i) \<and> (\<forall>t\<le>n. fi ! t = indeg R k t))"

lemma counted_Suc:
  assumes "counted n R k g0 g" "k < n" "sorted_wrt (<) (R k)" "uniq p ts = R k"
  shows "counted n R (Suc k) g0 (count_targets p ts (g\<lparr>firstOutgoing := (firstOutgoing g)[k := totalEdges g]\<rparr>))"
proof -
  obtain fo fi where g: "g = g0\<lparr>firstOutgoing := fo, firstIncoming := fi, totalEdges := offs R k\<rparr>"
    "length fo = n + 1" "length fi = n + 1" "\<forall>i<k. fo ! i = offs R i" "\<forall>t\<le>n. fi ! t = indeg R k t"
    using assms(1) by (auto simp: counted_def)
  have d: "distinct (R k)" using assms(3) by (simp add: strict_sorted_iff)
  show ?thesis unfolding counted_def
  proof (intro exI conjI)
    show "count_targets p ts (g\<lparr>firstOutgoing := (firstOutgoing g)[k := totalEdges g]\<rparr>) =
        g0\<lparr>firstOutgoing := fo[k := offs R k], firstIncoming := count_up (R k) fi, totalEdges := offs R (Suc k)\<rparr>"
      by (simp add: count_targets_uniq assms(4) g(1))
    show "\<forall>i<Suc k. fo[k := offs R k] ! i = offs R i"
      using g(2,4) assms(2) by (auto simp: nth_list_update less_Suc_eq)
    show "\<forall>t\<le>n. count_up (R k) fi ! t = indeg R (Suc k) t"
      using g(3,5) by (simp add: count_up_nth [OF d])
  qed (use g in auto)
qed

lemma count_edges_outcome:
  assumes ok: "vam_ok m" "dir_sized d" and R: "rows_ok (NumAllocations d) (succs m d obs)"
    and "image_ok m d ci" "counted (NumAllocations d) (succs m d obs) k g0 g" "k \<le> NumAllocations d"
    and n: "g_numAllocations g0 = NumAllocations d"
  shows "\<exists>ci' g'. count_edges m d obs [k..<NumAllocations d] ci g = Some (ci', g') \<and> image_ok m d ci' \<and>
           counted (NumAllocations d) (succs m d obs) (NumAllocations d) g0 g'"
  using assms(4-6)
proof (induction "NumAllocations d - k" arbitrary: k ci g)
  case 0
  then show ?case by auto
next
  case (Suc x)
  then have k: "k < NumAllocations d" by simp
  obtain ci1 ts where t: "find_targets m d obs k ci = Some (ci1, ts)" "image_ok m d ci1"
    "uniq (NumAllocations d) ts = succs m d obs k"
    using find_targets_outcome [OF ok Suc.prems(1) k] by blast
  let ?g = "count_targets (NumAllocations d) ts (g\<lparr>firstOutgoing := (firstOutgoing g)[k := totalEdges g]\<rparr>)"
  have "counted (NumAllocations d) (succs m d obs) (Suc k) g0 ?g"
    using counted_Suc [OF Suc.prems(2) k _ t(3)] R k by (simp add: rows_ok_def)
  from Suc.hyps(1) [OF _ t(2) this] Suc.hyps(2) k
  have "\<exists>ci' g'. count_edges m d obs [Suc k..<NumAllocations d] ci1 ?g = Some (ci', g') \<and> image_ok m d ci' \<and>
           counted (NumAllocations d) (succs m d obs) (NumAllocations d) g0 g'" by simp
  moreover have "g_numAllocations g = NumAllocations d" using Suc.prems(2) n by (auto simp: counted_def)
  ultimately show ?case using t(1) k by (simp add: upt_conv_Cons)
qed

lemma sum_counts_nth:
  assumes "length fi = n + 1" "k \<le> n" "\<forall>t\<le>k. fi ! t = (\<Sum>u\<le>t. c u)" "\<forall>t. k < t \<and> t \<le> n \<longrightarrow> fi ! t = c t"
  shows "length (sum_counts [k..<n] fi) = n + 1 \<and> (\<forall>t\<le>n. sum_counts [k..<n] fi ! t = (\<Sum>u\<le>t. c u))"
  using assms
proof (induction "n - k" arbitrary: k fi)
  case 0
  then show ?case by auto
next
  case (Suc x)
  then have k: "k < n" by simp
  let ?fi = "fi[k + 1 := fi ! k + fi ! (k + 1)]"
  have "length (sum_counts [Suc k..<n] ?fi) = n + 1 \<and>
      (\<forall>t\<le>n. sum_counts [Suc k..<n] ?fi ! t = (\<Sum>u\<le>t. c u))"
  proof (rule Suc.hyps(1))
    show "\<forall>t\<le>Suc k. ?fi ! t = (\<Sum>u\<le>t. c u)"
      using Suc.prems k by (auto simp: nth_list_update le_Suc_eq)
    show "\<forall>t. Suc k < t \<and> t \<le> n \<longrightarrow> ?fi ! t = c t" using Suc.prems(4) by auto
  qed (use Suc k in auto)
  then show ?case using k by (simp add: upt_conv_Cons)
qed

section \<open>The second pass\<close>

text \<open>What \<open>fill_targets\<close> does to the three arrays, over the distinct targets of \<open>i\<close>.\<close>

fun fill_row :: "nat \<Rightarrow> nat \<Rightarrow> nat list \<Rightarrow> nat list \<times> nat list \<times> nat list \<Rightarrow> nat list \<times> nat list \<times> nat list" where
  "fill_row i k [] a = a"
| "fill_row i k (t # ts) (fi, inc, out) =
     fill_row i (Suc k) ts (fi[t := fi ! t - 1], inc[fi ! t - 1 := i], out[k := t])"

lemma fill_targets_uniq:
  "fill_targets i prev k ts g =
     (case fill_row i k (uniq prev ts) (firstIncoming g, incoming g, outgoing g) of
        (fi, inc, out) \<Rightarrow> g\<lparr>firstIncoming := fi, incoming := inc, outgoing := out\<rparr>)"
  by (induction i prev k ts g rule: fill_targets.induct) (auto simp: Let_def split: prod.splits)

lemma fill_row_outcome:
  assumes "distinct us" "fill_row i k us (fi, inc, out) = (fi', inc', out')"
  shows "length fi' = length fi" "length inc' = length inc" "length out' = length out"
    "t < length fi \<Longrightarrow> fi' ! t = fi ! t - of_bool (t \<in> set us)"
    "p < length inc \<Longrightarrow> (\<And>t. t \<in> set us \<Longrightarrow> p \<noteq> fi ! t - 1) \<Longrightarrow> inc' ! p = inc ! p"
    "t \<in> set us \<Longrightarrow> fi ! t - 1 < length inc \<Longrightarrow> inc' ! (fi ! t - 1) = i"
    "j < length out \<Longrightarrow> j < k \<or> k + length us \<le> j \<Longrightarrow> out' ! j = out ! j"
    "j < length us \<Longrightarrow> k + j < length out \<Longrightarrow> out' ! (k + j) = us ! j"
proof -
  have *: "length fi' = length fi \<and> length inc' = length inc \<and> length out' = length out \<and>
    (\<forall>t<length fi. fi' ! t = fi ! t - of_bool (t \<in> set us)) \<and>
    (\<forall>p<length inc. (\<forall>t\<in>set us. p \<noteq> fi ! t - 1) \<longrightarrow> inc' ! p = inc ! p) \<and>
    (\<forall>p<length inc. inc ! p = i \<longrightarrow> inc' ! p = i) \<and>
    (\<forall>t\<in>set us. fi ! t - 1 < length inc \<longrightarrow> inc' ! (fi ! t - 1) = i) \<and>
    (\<forall>j<length out. j < k \<or> k + length us \<le> j \<longrightarrow> out' ! j = out ! j) \<and>
    (\<forall>j<length us. k + j < length out \<longrightarrow> out' ! (k + j) = us ! j)"
    using assms
  proof (induction us arbitrary: k fi inc out)
    case (Cons u us)
    let ?fi = "fi[u := fi ! u - 1]" and ?inc = "inc[fi ! u - 1 := i]" and ?out = "out[k := u]"
    have IH: "length fi' = length ?fi \<and> length inc' = length ?inc \<and> length out' = length ?out \<and>
      (\<forall>t<length ?fi. fi' ! t = ?fi ! t - of_bool (t \<in> set us)) \<and>
      (\<forall>p<length ?inc. (\<forall>t\<in>set us. p \<noteq> ?fi ! t - 1) \<longrightarrow> inc' ! p = ?inc ! p) \<and>
      (\<forall>p<length ?inc. ?inc ! p = i \<longrightarrow> inc' ! p = i) \<and>
      (\<forall>t\<in>set us. ?fi ! t - 1 < length ?inc \<longrightarrow> inc' ! (?fi ! t - 1) = i) \<and>
      (\<forall>j<length ?out. j < Suc k \<or> Suc k + length us \<le> j \<longrightarrow> out' ! j = ?out ! j) \<and>
      (\<forall>j<length us. Suc k + j < length ?out \<longrightarrow> out' ! (Suc k + j) = us ! j)"
      by (rule Cons.IH) (use Cons.prems in auto)
    have u: "?fi ! t = fi ! t" if "t \<in> set us" for t using that Cons.prems(1) by (cases "t = u") auto
    have "fi' ! t = fi ! t - of_bool (t \<in> set (u # us))" if "t < length fi" for t
      using IH that Cons.prems(1) by (auto simp: nth_list_update)
    moreover have "inc' ! p = inc ! p" if "p < length inc" "\<forall>t\<in>set (u # us). p \<noteq> fi ! t - 1" for p
      using IH that u by (auto simp: nth_list_update)
    moreover have keep: "inc' ! p = i" if "p < length inc" "inc ! p = i" for p
    proof -
      have "?inc ! p = i" using that by (cases "fi ! u - 1 = p") simp_all
      then show ?thesis using IH that(1) by simp
    qed
    moreover have "inc' ! (fi ! t - 1) = i" if t: "t \<in> set (u # us)" "fi ! t - 1 < length inc" for t
    proof (cases "t = u")
      case True
      then have "?inc ! (fi ! t - 1) = i" using t(2) by simp
      then show ?thesis using IH t(2) by simp
    next
      case False
      then have "t \<in> set us" using t(1) by simp
      then have "?fi ! t = fi ! t" "?fi ! t - 1 < length ?inc \<longrightarrow> inc' ! (?fi ! t - 1) = i" using u IH by blast+
      then show ?thesis using t(2) by simp
    qed
    moreover have "out' ! j = out ! j" if "j < length out" "j < k \<or> k + length (u # us) \<le> j" for j
      using IH that by (auto simp: nth_list_update)
    moreover have "out' ! (k + j) = (u # us) ! j" if "j < length (u # us)" "k + j < length out" for j
      using IH that by (cases j) (auto simp: nth_list_update)
    ultimately show ?case using IH by auto
  qed simp
  then show "length fi' = length fi" "length inc' = length inc" "length out' = length out"
    "t < length fi \<Longrightarrow> fi' ! t = fi ! t - of_bool (t \<in> set us)"
    "p < length inc \<Longrightarrow> (\<And>t. t \<in> set us \<Longrightarrow> p \<noteq> fi ! t - 1) \<Longrightarrow> inc' ! p = inc ! p"
    "t \<in> set us \<Longrightarrow> fi ! t - 1 < length inc \<Longrightarrow> inc' ! (fi ! t - 1) = i"
    "j < length out \<Longrightarrow> j < k \<or> k + length us \<le> j \<Longrightarrow> out' ! j = out ! j"
    "j < length us \<Longrightarrow> k + j < length out \<Longrightarrow> out' ! (k + j) = us ! j" by blast+
qed

text \<open>The part of the graph the edges do not touch.\<close>

definition anchor_part :: "Graph \<Rightarrow> _" where
  "anchor_part g = (g_numAllocations g, staticAnchorDistances g, stackAnchorDistances g, registerAnchorDistances g,
     externalAnchorDistances g, leaked g, staticAnchorPoints g, stackAnchorPoints g, registerAnchorPoints g,
     externalAnchorPoints g)"

text \<open>The state after the sources from \<open>k\<close> on are filled in.\<close>

definition filled :: "nat \<Rightarrow> (nat \<Rightarrow> nat list) \<Rightarrow> nat \<Rightarrow> Graph \<Rightarrow> bool" where
  "filled n R k g \<longleftrightarrow> g_numAllocations g = n \<and> totalEdges g = offs R n \<and>
     length (incoming g) = offs R n \<and> length (outgoing g) = offs R n \<and>
     (\<forall>i\<le>n. firstOutgoing g ! i = offs R i) \<and>
     length (firstIncoming g) = n + 1 \<and> firstIncoming g ! n = start R n n \<and>
     (\<forall>t<n. firstIncoming g ! t = start R n t + indeg R k t) \<and>
     (\<forall>i<n. k \<le> i \<longrightarrow> (\<forall>t\<in>set (R i). incoming g ! (start R n t + indeg R i t) = i)) \<and>
     (\<forall>i<n. k \<le> i \<longrightarrow> (\<forall>j<length (R i). outgoing g ! (offs R i + j) = R i ! j))"

lemma filled_step:
  assumes R: "rows_ok n R" and f: "filled n R (Suc k) g" and k: "k < n" and u: "uniq p ts = R k"
  shows "filled n R k (fill_targets k p (firstOutgoing g ! k) ts g)"
    and "anchor_part (fill_targets k p (firstOutgoing g ! k) ts g) = anchor_part g"
proof -
  obtain fi inc out where r: "fill_row k (offs R k) (R k) (firstIncoming g, incoming g, outgoing g) = (fi, inc, out)"
    by (metis prod_cases3)
  have fo: "firstOutgoing g ! k = offs R k" using f k by (simp add: filled_def)
  have g': "fill_targets k p (firstOutgoing g ! k) ts g =
      g\<lparr>firstIncoming := fi, incoming := inc, outgoing := out\<rparr>"
    by (simp add: fill_targets_uniq u fo r)
  have d: "distinct (R k)" and tn: "\<And>t. t \<in> set (R k) \<Longrightarrow> t < n"
    using R k by (simp_all add: rows_ok_def strict_sorted_iff)
  note F = fill_row_outcome [OF d r]
  have fi: "firstIncoming g ! t - 1 = start R n t + indeg R k t" if "t \<in> set (R k)" for t
    using f that tn [OF that] by (simp add: filled_def)
  have pos: "start R n t + indeg R i t < offs R n" if "i < n" "t \<in> set (R i)" for i t
  proof -
    have "t < n" using R that by (auto simp: rows_ok_def)
    then have "start R n (Suc t) \<le> start R n n" by (intro start_mono) simp
    then show ?thesis using position_bounds [where R = R, OF that] offs_start [OF R] by linarith
  qed
  have room: "offs R k + length (R k) \<le> offs R n" using offs_mono [of "Suc k" n R] k by simp
  have inc: "inc ! (start R n t + indeg R i t) = i" if i: "i < n" "k \<le> i" "t \<in> set (R i)" for i t
  proof (cases "i = k")
    case True
    then show ?thesis using F(6) [of t] fi [of t] i pos [of k t] f by (simp add: filled_def)
  next
    case False
    have "inc ! (start R n t + indeg R i t) = incoming g ! (start R n t + indeg R i t)"
    proof (rule F(5))
      show "start R n t + indeg R i t < length (incoming g)" using pos [OF i(1,3)] f by (simp add: filled_def)
      show "start R n t + indeg R i t \<noteq> firstIncoming g ! t' - 1" if "t' \<in> set (R k)" for t'
        using position_inj [where R = R, OF i(1,3) k that] False fi [OF that] by auto
    qed
    then show ?thesis using f i False by (simp add: filled_def)
  qed
  have out: "out ! (offs R i + j) = R i ! j" if i: "i < n" "k \<le> i" "j < length (R i)" for i j
  proof (cases "i = k")
    case True
    then show ?thesis using F(8) [of j] i room f by (simp add: filled_def)
  next
    case False
    have "offs R (Suc k) \<le> offs R i" "offs R (Suc i) \<le> offs R n" using False i offs_mono [of "Suc k" i R] offs_mono [of "Suc i" n R] by simp_all
    then have "out ! (offs R i + j) = outgoing g ! (offs R i + j)"
      using i f by (intro F(7)) (auto simp: filled_def)
    then show ?thesis using f i False by (simp add: filled_def)
  qed
  have "fi ! t = start R n t + indeg R k t" if "t < n" for t
    using F(4) [of t] that f by (simp add: filled_def)
  moreover have "fi ! n = start R n n"
    using F(4) [of n] f tn by (auto simp: filled_def)
  ultimately show "filled n R k (fill_targets k p (firstOutgoing g ! k) ts g)"
    using f F(1-3) inc out unfolding g' filled_def by simp
  show "anchor_part (fill_targets k p (firstOutgoing g ! k) ts g) = anchor_part g"
    unfolding g' by (simp add: anchor_part_def)
qed

lemma fill_edges_outcome:
  assumes ok: "vam_ok m" "dir_sized d" and R: "rows_ok (NumAllocations d) (succs m d obs)"
    and "image_ok m d ci" "filled (NumAllocations d) (succs m d obs) k g" "k \<le> NumAllocations d"
  shows "\<exists>g'. fill_edges m d obs (rev [0..<k]) ci g = Some g' \<and>
           filled (NumAllocations d) (succs m d obs) 0 g' \<and> anchor_part g' = anchor_part g"
  using assms(4-6)
proof (induction k arbitrary: ci g)
  case (Suc k)
  then have k: "k < NumAllocations d" by simp
  obtain ci1 ts where t: "find_targets m d obs k ci = Some (ci1, ts)" "image_ok m d ci1"
    "uniq (NumAllocations d) ts = succs m d obs k"
    using find_targets_outcome [OF ok Suc.prems(1) k] by blast
  note st = filled_step [OF R Suc.prems(2) k t(3)]
  have "g_numAllocations g = NumAllocations d" using Suc.prems(2) by (simp add: filled_def)
  then show ?case using Suc.IH [OF t(2) st(1)] st(2) k t(1) by simp
qed simp

section \<open>Both passes\<close>

definition table_ok :: "nat \<Rightarrow> nat list \<Rightarrow> nat list \<Rightarrow> bool" where
  "table_ok n first arr \<longleftrightarrow>
     (\<forall>i<n. first ! i \<le> first ! (i + 1) \<and> first ! (i + 1) \<le> length arr \<and>
            increasing arr (first ! i) (first ! (i + 1))) \<and>
     (\<forall>k<length arr. arr ! k < n)"

definition slice :: "nat list \<Rightarrow> nat list \<Rightarrow> nat \<Rightarrow> nat list" where
  "slice first arr i = map (\<lambda>k. arr ! k) [first ! i..<first ! (i + 1)]"

text \<open>The two tables of a graph are tables of the same edges.\<close>

definition edges_ok :: "Graph \<Rightarrow> bool" where
  "edges_ok g \<longleftrightarrow>
     table_ok (g_numAllocations g) (firstOutgoing g) (outgoing g) \<and>
     table_ok (g_numAllocations g) (firstIncoming g) (incoming g) \<and>
     length (outgoing g) = totalEdges g \<and> length (incoming g) = totalEdges g \<and>
     (\<forall>s<g_numAllocations g. \<forall>t<g_numAllocations g.
        t \<in> set (slice (firstOutgoing g) (outgoing g) s) \<longleftrightarrow> s \<in> set (slice (firstIncoming g) (incoming g) t))"

text \<open>A table whose rows are given and fill the array.\<close>

lemma table_of_rows:
  assumes first: "\<And>i. i \<le> n \<Longrightarrow> first ! i = (\<Sum>j<i. length (rws j))" and len: "length arr = (\<Sum>j<n. length (rws j))"
    and arr: "\<And>i j. i < n \<Longrightarrow> j < length (rws i) \<Longrightarrow> arr ! (first ! i + j) = rws i ! j"
    and rws: "\<And>i. i < n \<Longrightarrow> sorted_wrt (<) (rws i)" "\<And>i t. i < n \<Longrightarrow> t \<in> set (rws i) \<Longrightarrow> t < n"
  shows "table_ok n first arr" and "i < n \<Longrightarrow> slice first arr i = rws i"
proof -
  have step: "first ! Suc i = first ! i + length (rws i)" if "i < n" for i
    using that by (simp add: first)
  have bound: "first ! i \<le> length arr" if "i \<le> n" for i
    unfolding first [OF that] len by (rule sum_mono2) (use that in auto)
  have slice: "slice first arr i = rws i" if "i < n" for i
    by (rule nth_equalityI) (use that in \<open>auto simp: slice_def step arr\<close>)
  have "increasing arr (first ! i) (first ! (i + 1))" if i: "i < n" for i
    unfolding increasing_def
  proof (intro allI impI; elim conjE)
    fix a b assume ab: "first ! i \<le> a" "a < b" "b < first ! (i + 1)"
    then obtain x y where "a = first ! i + x" "b = first ! i + y" by (metis le_add_diff_inverse less_imp_le order.trans)
    then show "arr ! a < arr ! b"
      using ab i step [OF i] sorted_wrt_nth_less [OF rws(1) [OF i], of x y] by (simp add: arr)
  qed
  moreover have "arr ! k < n" if "k < length arr" for k
  proof -
    have "\<exists>i<m. first ! i \<le> k \<and> k < first ! (i + 1)" if "k < first ! m" "m \<le> n" for m
      using that
    proof (induction m)
      case (Suc m)
      show ?case
      proof (cases "k < first ! m")
        case True
        then show ?thesis using Suc by (auto intro: less_SucI)
      next
        case False
        then show ?thesis using Suc.prems by (intro exI [of _ m]) simp
      qed
    qed (use first [of 0] in simp)
    moreover have "k < first ! n" using that len first [of n] by simp
    ultimately obtain i where i: "i < n" "first ! i \<le> k" "k < first ! (i + 1)" by blast
    then have "arr ! k = rws i ! (k - first ! i)" "k - first ! i < length (rws i)"
      using arr [of i "k - first ! i"] step [of i] by auto
    then show ?thesis using rws(2) [OF i(1)] by simp
  qed
  moreover have "first ! (i + 1) \<le> length arr" "first ! i \<le> first ! (i + 1)" if "i < n" for i
    using bound [of "Suc i"] step [OF that] that by simp_all
  ultimately show "table_ok n first arr" by (simp add: table_ok_def)
  show "i < n \<Longrightarrow> slice first arr i = rws i" by (rule slice)
qed

lemma FindEdges_outcome:
  assumes ok: "vam_ok m" "dir_ok cur d" "dir_sized d" "obs_ok d obs" "unat (MaxAllocationSize d) + 16 < 2 ^ 64"
  shows "\<exists>g. FindEdges m d obs (Graph_init d) = Some g \<and> edges_ok g \<and> anchor_part g = anchor_part (Graph_init d) \<and>
           (\<forall>s<NumAllocations d. slice (firstOutgoing g) (outgoing g) s = succs m d obs s) \<and>
           (\<forall>t<NumAllocations d. slice (firstIncoming g) (incoming g) t = sources (succs m d obs) (NumAllocations d) t)"
proof -
  let ?n = "NumAllocations d" and ?R = "succs m d obs"
  have R: "rows_ok ?n ?R" by (rule rows_ok_succs [OF ok(2,4)])
  show ?thesis
  proof (cases "?n = 0")
    case True
    then show ?thesis
      by (simp add: FindEdges_def Graph_init_def edges_ok_def table_ok_def)
  next
    case n: False
    let ?g1 = "(Graph_init d)\<lparr>firstIncoming := replicate (?n + 1) 0, firstOutgoing := replicate (?n + 1) 0\<rparr>"
    have "counted ?n ?R 0 (Graph_init d) ?g1"
      unfolding counted_def
      by (intro exI [of _ "replicate (?n + 1) 0"] conjI) (simp_all add: Graph_init_def del: replicate_Suc)
    then obtain ci g2 where g2: "count_edges m d obs [0..<?n] (ContiguousImage_new d) ?g1 = Some (ci, g2)"
        "image_ok m d ci" "counted ?n ?R ?n (Graph_init d) g2"
      using count_edges_outcome [OF ok(1,3) R image_ok_new [OF ok(5)], of 0 "Graph_init d" ?g1]
      by (auto simp: Graph_init_def)
    obtain fo fi where f: "g2 = (Graph_init d)\<lparr>firstOutgoing := fo, firstIncoming := fi, totalEdges := offs ?R ?n\<rparr>"
       "length fo = ?n + 1" "length fi = ?n + 1" "\<forall>i<?n. fo ! i = offs ?R i" "\<forall>t\<le>?n. fi ! t = indeg ?R ?n t"
      using g2(3) by (auto simp: counted_def)
    have sums: "length (sum_counts [0..<?n] fi) = ?n + 1"
      "\<And>t. t \<le> ?n \<Longrightarrow> sum_counts [0..<?n] fi ! t = (\<Sum>u\<le>t. indeg ?R ?n u)"
      using sum_counts_nth [of fi ?n 0 "indeg ?R ?n"] f(3,5) by auto
    define g4 where "g4 = g2\<lparr>firstOutgoing := fo[?n := offs ?R ?n], firstIncoming := sum_counts [0..<?n] fi,
        outgoing := replicate (offs ?R ?n) 0, incoming := replicate (offs ?R ?n) 0\<rparr>"
    have up: "(\<Sum>u\<le>t. indeg ?R ?n u) = start ?R ?n t + indeg ?R ?n t" for t
      by (simp add: start_def lessThan_Suc_atMost [symmetric])
    have zero: "indeg ?R ?n ?n = 0" using R by (auto simp: indeg_def rows_ok_def)
    have "filled ?n ?R ?n g4"
      using sums f by (auto simp: filled_def g4_def Graph_init_def up zero nth_list_update)
    then obtain g where g: "fill_edges m d obs (rev [0..<?n]) ci g4 = Some g" "filled ?n ?R 0 g"
        "anchor_part g = anchor_part g4"
      using fill_edges_outcome [OF ok(1,3) R g2(2)] by blast
    have "FindEdges m d obs (Graph_init d) = Some g"
      using n g2(1) g(1) by (simp add: FindEdges_def Let_def g4_def f(1) Graph_init_def)
    moreover have "anchor_part g = anchor_part (Graph_init d)"
      using g(3) by (simp add: g4_def f(1) anchor_part_def)
    moreover have gn: "g_numAllocations g = ?n" "length (outgoing g) = totalEdges g" "length (incoming g) = totalEdges g"
      using g(2) by (simp_all add: filled_def)
    moreover have "table_ok ?n (firstOutgoing g) (outgoing g) \<and> (\<forall>s<?n. slice (firstOutgoing g) (outgoing g) s = ?R s)"
    proof -
      have "table_ok ?n (firstOutgoing g) (outgoing g)" "\<And>s. s < ?n \<Longrightarrow> slice (firstOutgoing g) (outgoing g) s = ?R s"
        by (rule table_of_rows [where rws = ?R]; use g(2) R in \<open>auto simp: filled_def offs_def rows_ok_def\<close>)+
      then show ?thesis by blast
    qed
    moreover have "table_ok ?n (firstIncoming g) (incoming g) \<and>
        (\<forall>t<?n. slice (firstIncoming g) (incoming g) t = sources ?R ?n t)"
    proof -
      have fi: "firstIncoming g ! t = (\<Sum>u<t. length (sources ?R ?n u))" if "t \<le> ?n" for t
        using g(2) that by (cases "t = ?n") (auto simp: filled_def start_def length_sources)
      have inc: "incoming g ! (firstIncoming g ! t + j) = sources ?R ?n t ! j"
        if t: "t < ?n" "j < length (sources ?R ?n t)" for t j
      proof -
        have "sources ?R ?n t ! j \<in> set (sources ?R ?n t)" using t(2) by simp
        then have i: "sources ?R ?n t ! j < ?n" "t \<in> set (?R (sources ?R ?n t ! j))" by (simp_all add: sources_def)
        have rank: "indeg ?R (sources ?R ?n t ! j) t = j"
        proof -
          have "distinct (sources ?R ?n t)" using sources_sorted by (simp add: strict_sorted_iff)
          moreover have "sources ?R ?n t ! indeg ?R (sources ?R ?n t ! j) t = sources ?R ?n t ! j"
            by (rule sources_nth [where R = ?R, OF i])
          moreover have "indeg ?R (sources ?R ?n t ! j) t < length (sources ?R ?n t)"
            unfolding length_sources by (rule indeg_less [where R = ?R, OF i])
          ultimately show ?thesis using nth_eq_iff_index_eq t(2) by blast
        qed
        have "\<forall>i<?n. 0 \<le> i \<longrightarrow> (\<forall>t\<in>set (?R i). incoming g ! (start ?R ?n t + indeg ?R i t) = i)"
          "firstIncoming g ! t = start ?R ?n t"
          using g(2) t(1) by (simp_all add: filled_def)
        moreover from this(1) i have "incoming g ! (start ?R ?n t + indeg ?R (sources ?R ?n t ! j) t) = sources ?R ?n t ! j"
          by blast
        ultimately show ?thesis unfolding rank by simp
      qed
      have len: "length (incoming g) = (\<Sum>u<?n. length (sources ?R ?n u))"
        using g(2) offs_start [OF R] by (simp add: filled_def start_def length_sources)
      have tn: "i < ?n" if "i \<in> set (sources ?R ?n t)" for i t using that by (simp add: sources_def)
      have "table_ok ?n (firstIncoming g) (incoming g)"
        "\<And>t. t < ?n \<Longrightarrow> slice (firstIncoming g) (incoming g) t = sources ?R ?n t"
        by (rule table_of_rows [where rws = "sources ?R ?n"]; (rule fi len inc sources_sorted tn; assumption)?)+
      then show ?thesis by blast
    qed
    moreover have "(\<forall>s<?n. \<forall>t<?n. t \<in> set (?R s) \<longleftrightarrow> s \<in> set (sources ?R ?n t))"
      by (simp add: sources_def)
    ultimately show ?thesis by (auto simp: edges_ok_def)
  qed
qed

section \<open>The tables of a graph\<close>

interpretation out: edge_table edges_ok g_numAllocations firstOutgoing outgoing
  by unfold_locales (auto simp: edges_ok_def table_ok_def)

interpretation inn: edge_table edges_ok g_numAllocations firstIncoming incoming
  by unfold_locales (auto simp: edges_ok_def table_ok_def)

lemma slice_row:
  "slice (firstOutgoing g) (outgoing g) s = out.row g s"
  "slice (firstIncoming g) (incoming g) t = inn.row g t"
  by (simp_all add: slice_def out.row_def inn.row_def)

lemma edges_in_GetOutgoing:
  "s < g_numAllocations g \<Longrightarrow> edges_in (outgoing g) (GetOutgoing g s) = out.row g s"
  "t < g_numAllocations g \<Longrightarrow> edges_in (incoming g) (GetIncoming g t) = inn.row g t"
  by (simp_all add: edges_in_def GetOutgoing_def GetIncoming_def edge_range_def out.row_def inn.row_def)

section \<open>Properties\<close>

text \<open>
  C8: \<open>FindEdges\<close> finds exactly the edges of the process image.  Over a well-formed map and directory it
  never leaves the core file or a buffer; afterwards the outgoing edges of every allocation are, in
  increasing order and each once, the other allocations that one of its aligned words points into, and
  the incoming edges of every allocation are its sources, in increasing order: the two arrays hold the
  same edges.
\<close>

theorem FindEdges_correct:
  assumes "vam_ok m" "dir_ok cur d" "dir_sized d" "obs_ok d obs" "unat (MaxAllocationSize d) + 16 < 2 ^ 64"
  shows "\<exists>g. FindEdges m d obs (Graph_init d) = Some g \<and> edges_ok g \<and>
           (\<forall>s<NumAllocations d. edges_in (outgoing g) (GetOutgoing g s) = sorted_list_of_set (edge_set m d obs s)) \<and>
           (\<forall>t<NumAllocations d. edges_in (incoming g) (GetIncoming g t) =
              filter (\<lambda>s. t \<in> edge_set m d obs s) [0..<NumAllocations d])"
proof -
  obtain g where g: "FindEdges m d obs (Graph_init d) = Some g" "edges_ok g" "anchor_part g = anchor_part (Graph_init d)"
    "\<forall>s<NumAllocations d. slice (firstOutgoing g) (outgoing g) s = succs m d obs s"
    "\<forall>t<NumAllocations d. slice (firstIncoming g) (incoming g) t = sources (succs m d obs) (NumAllocations d) t"
    using FindEdges_outcome [OF assms] by blast
  moreover from g(3) have "g_numAllocations g = NumAllocations d" by (simp add: anchor_part_def Graph_init_def)
  ultimately show ?thesis by (auto simp: slice_row edges_in_GetOutgoing succs_def [symmetric] sources_def)
qed

text \<open>Two allocations, the first of which holds the address of the second.\<close>

definition edge_map :: VirtualAddressMap where
  "edge_map = AddRange (VirtualAddressMap_new [0x10, 0x10, 0, 0, 0, 0, 0, 0]) 0x1000 8 (0 - 0x1000) True True True False False"

definition edge_directory :: Directory where
  "edge_directory = consume_allocation (consume_allocation Directory_new 0 (0x1000, 8, True)) 0 (0x1010, 8, True)"

lemma edge_map_ok: "vam_ok edge_map"
proof -
  have a: "addable (VirtualAddressMap_new [0x10, 0x10, 0, 0, 0, 0, 0, 0]) 0x1000 8 (0 - 0x1000)"
    by (simp add: addable_def VirtualAddressMap_new_def rs.lookup_new)
  show ?thesis unfolding edge_map_def by (rule AddRange_ok [OF vam_ok_new a]) simp
qed

lemma edge_map_entries:
  "rm_map (ranges edge_map) = [(0x1008, 8, \<lparr>adjustToFileOffset = 0 - 0x1000, flags = 0x19\<rparr>)]"
  "fileImage edge_map = [0x10, 0x10, 0, 0, 0, 0, 0, 0]"
  by (simp_all add: edge_map_def AddRange_def VirtualAddressMap_new_def AddRange_flags_def flag_defs
      MapRange_def RangeMapper_new_def sm_lower_bound_def rm_emplace_result_def sm_emplace_def
      rm_next_def sm_upper_bound_def sm_find_def)

lemma edge_directory_ok:
  "dir_ok 0x1010 edge_directory" "dir_ranges edge_directory = [(0x1000, 0x1008), (0x1010, 0x1018)]"
proof -
  have p: "pending_ok (0x1000, 8, True)" "pending_ok (0x1010, 8, True)" and f: "(0::nat) < unat MAX_FINDERS"
    by (simp_all add: pending_ok_def al_constants mask_eq_exp_minus_1)
  let ?d = "consume_allocation Directory_new 0 (0x1000, 8, True)"
  have "\<not> overlaps Directory_new (0x1000, 8, True)" "dir_ranges Directory_new = []"
    by (simp_all add: Directory_new_def overlaps_def)
  then have d: "dir_ok 0x1000 ?d" "dir_ranges ?d = [(0x1000, 0x1008)]"
    using consume_allocation_ok [OF dir_ok_new p(1) f] by simp_all
  have "\<not> overlaps ?d (0x1010, 8, True)" by (simp add: overlaps_def d(2) del: map_eq_conv set_map)
  then show "dir_ok 0x1010 edge_directory" "dir_ranges edge_directory = [(0x1000, 0x1008), (0x1010, 0x1018)]"
    using consume_allocation_ok [OF d(1) p(2) f] d(2) by (simp_all add: edge_directory_def)
qed

lemma edge_directory_allocations:
  "allocations edge_directory = [Allocation_new 0x1000 8 True 0 False, Allocation_new 0x1010 8 True 0 False]"
  "maxAllocationSize edge_directory = 8"
  by (simp_all add: edge_directory_def consume_allocation_def push_allocation_def Directory_new_def)

lemma edge_directory_simps:
  "NumAllocations edge_directory = 2" "MaxAllocationSize edge_directory = 8"
  "al_Address (allocations edge_directory ! 0) = 0x1000" "al_Size (allocations edge_directory ! 0) = 8"
  "al_Address (allocations edge_directory ! 1) = 0x1010" "al_Size (allocations edge_directory ! 1) = 8"
  "dir_sized edge_directory"
  by (simp_all add: NumAllocations_def MaxAllocationSize_def edge_directory_allocations dir_sized_def
      Allocation_new_def al_Address_def al_Size_def al_constants mask_eq_exp_minus_1)

lemma edge_directory_index: "AllocationIndexOf edge_directory 0x1010 = 1"
proof -
  have "containing (dir_ranges edge_directory) (unat (0x1010 :: addr)) = {1}"
    unfolding edge_directory_ok(2) containing_def by (auto simp: less_Suc_eq)
  then show ?thesis using AllocationIndexOf_spec [OF edge_directory_ok(1), of "0x1010"] by simp
qed

lemma edge_offsets: "alloc_offsets edge_map edge_directory 0 = [0x1010]"
proof -
  have "mem_byte edge_map 0x1000 = Some 0x10" "mem_byte edge_map 0x1001 = Some 0x10"
    "mem_byte edge_map 0x1002 = Some 0" "mem_byte edge_map 0x1003 = Some 0" "mem_byte edge_map 0x1004 = Some 0"
    "mem_byte edge_map 0x1005 = Some 0" "mem_byte edge_map 0x1006 = Some 0" "mem_byte edge_map 0x1007 = Some 0"
    by (simp_all add: mem_byte_def rm_lookup_def edge_map_entries has_image_def flag_defs)
  then show ?thesis
    by (simp add: alloc_offsets_def alloc_mapped_def alloc_bytes_def span_bytes_def edge_directory_simps
        byte_or_zero_def upt_rec le_words.simps)
qed

lemma edge_set_example: "edge_set edge_map edge_directory None 0 = {1}"
  by (auto simp: edge_set_def edge_offsets EdgeTargetIndex_def edge_directory_index edge_directory_simps)

theorem FindEdges_correct_witness:
  "vam_ok edge_map \<and> dir_ok 0x1010 edge_directory \<and>
   (\<exists>g. FindEdges edge_map edge_directory None (Graph_init edge_directory) = Some g \<and>
      edges_in (outgoing g) (GetOutgoing g 0) = [1])"
proof -
  have "obs_ok edge_directory None" "unat (MaxAllocationSize edge_directory) + 16 < 2 ^ 64"
    by (simp_all add: obs_ok_def edge_directory_simps)
  from FindEdges_correct [OF edge_map_ok edge_directory_ok(1) edge_directory_simps(7) this]
  obtain g where g: "FindEdges edge_map edge_directory None (Graph_init edge_directory) = Some g"
    "\<forall>s<2. edges_in (outgoing g) (GetOutgoing g s) = sorted_list_of_set (edge_set edge_map edge_directory None s)"
    unfolding edge_directory_simps(1) by blast
  have "edges_in (outgoing g) (GetOutgoing g 0) = [1]" using g(2) edge_set_example by simp
  then show ?thesis using g(1) edge_map_ok edge_directory_ok(1) by blast
qed

text \<open>
  The queries by index agree with the rows: \<open>GetOutgoingEdgeIndex\<close> and \<open>GetIncomingEdgeIndex\<close> give,
  for an edge of the graph, its position among the outgoing or the incoming edges, from which
  \<open>GetTargetForOutgoing\<close> and \<open>GetSourceForIncoming\<close> read the other end back, and the number of edges
  where there is none; \<open>HasNoOutgoing\<close> tells an empty row.
\<close>

theorem EdgeIndex_correct:
  assumes "edges_ok g" "s < g_numAllocations g" "t < g_numAllocations g"
  shows "(if t \<in> set (edges_in (outgoing g) (GetOutgoing g s)) then
            fst (GetOutgoing g s) \<le> GetOutgoingEdgeIndex g s t \<and> GetOutgoingEdgeIndex g s t < snd (GetOutgoing g s) \<and>
            fst (GetIncoming g t) \<le> GetIncomingEdgeIndex g s t \<and> GetIncomingEdgeIndex g s t < snd (GetIncoming g t) \<and>
            GetTargetForOutgoing g (GetOutgoingEdgeIndex g s t) = t \<and>
            GetSourceForIncoming g (GetIncomingEdgeIndex g s t) = s
          else GetOutgoingEdgeIndex g s t = totalEdges g \<and> GetIncomingEdgeIndex g s t = totalEdges g) \<and>
         (HasNoOutgoing g s \<longleftrightarrow> edges_in (outgoing g) (GetOutgoing g s) = [])"
proof -
  have rows: "edges_in (outgoing g) (GetOutgoing g s) = out.row g s" by (rule edges_in_GetOutgoing(1) [OF assms(2)])
  have tr: "t \<in> set (out.row g s) \<longleftrightarrow> s \<in> set (inn.row g t)"
    and len: "length (outgoing g) = totalEdges g" "length (incoming g) = totalEdges g"
    using assms by (simp_all add: edges_ok_def slice_row)
  have o: "if t \<in> set (out.row g s) then firstOutgoing g ! s \<le> GetOutgoingEdgeIndex g s t \<and>
        GetOutgoingEdgeIndex g s t < firstOutgoing g ! (s + 1) \<and> GetTargetForOutgoing g (GetOutgoingEdgeIndex g s t) = t
      else GetOutgoingEdgeIndex g s t = totalEdges g"
    using out.search_row [OF assms(1,2), of t] assms(2,3) len
    by (auto simp: GetOutgoingEdgeIndex_def GetTargetForOutgoing_def split: option.splits)
  have i: "if s \<in> set (inn.row g t) then firstIncoming g ! t \<le> GetIncomingEdgeIndex g s t \<and>
        GetIncomingEdgeIndex g s t < firstIncoming g ! (t + 1) \<and> GetSourceForIncoming g (GetIncomingEdgeIndex g s t) = s
      else GetIncomingEdgeIndex g s t = totalEdges g"
    using inn.search_row [OF assms(1,3), of s] assms(2,3) len
    by (auto simp: GetIncomingEdgeIndex_def GetSourceForIncoming_def split: option.splits)
  have "HasNoOutgoing g s \<longleftrightarrow> out.row g s = []"
    using out.first_mono [OF assms(1,2)] assms(2) by (auto simp: HasNoOutgoing_def out.row_def)
  then show ?thesis
    using o i tr assms(2,3) unfolding rows by (cases "t \<in> set (out.row g s)") (simp_all add: GetOutgoing_def GetIncoming_def edge_range_def)
qed

text \<open>The allocations of \<open>example_directory\<close> and a third one that points to both.\<close>

definition nested_directory :: Directory where
  "nested_directory = consume_allocation example_directory 0 (0x2000, 16, True)"

definition nested_graph :: Graph where
  "nested_graph = (Graph_init nested_directory)
     \<lparr>totalEdges := 2, outgoing := [0, 1], incoming := [2, 2], firstOutgoing := [0, 0, 0, 2], firstIncoming := [0, 1, 2, 2]\<rparr>"

lemma nested_directory_simps:
  "NumAllocations nested_directory = 3"
  "al_Address (allocations nested_directory ! 0) = 0x1000" "al_Size (allocations nested_directory ! 0) = 0x100"
  "al_Address (allocations nested_directory ! 1) = 0x1010" "al_Size (allocations nested_directory ! 1) = 0x10"
  by (simp_all add: nested_directory_def example_directory_def consume_allocation_def push_allocation_def
      Directory_new_def NumAllocations_def Allocation_new_def al_Address_def al_Size_def al_MarkAsWrapper_def
      al_IsWrapper_def al_constants mask_eq_exp_minus_1 Let_def)

lemma nested_graph_ok: "edges_ok nested_graph"
proof -
  have f: "g_numAllocations nested_graph = 3" "totalEdges nested_graph = 2"
    "outgoing nested_graph = [0, 1]" "firstOutgoing nested_graph = [0, 0, 0, 2]"
    "incoming nested_graph = [2, 2]" "firstIncoming nested_graph = [0, 1, 2, 2]"
    by (simp_all add: nested_graph_def Graph_init_def nested_directory_simps)
  have three: "(\<forall>i<3. P i) \<longleftrightarrow> P 0 \<and> P 1 \<and> P (2::nat)" for P
    by (auto simp: numeral_3_eq_3 numeral_2_eq_2 All_less_Suc)
  have inc: "increasing arr b l" if "l \<le> b + 1" for arr b l using that by (auto simp: increasing_def)
  have inc2: "increasing [0, 1] 0 2" by (auto simp: increasing_def less_Suc_eq numeral_2_eq_2)
  have "table_ok 3 [0, 0, 0, 2] [0, 1]" "table_ok 3 [0, 1, 2, 2] [2, 2]"
    unfolding table_ok_def three using inc inc2 by (simp_all add: numeral_2_eq_2 All_less_Suc)
  moreover have "slice [0, 0, 0, 2] [0, 1] 0 = []" "slice [0, 0, 0, 2] [0, 1] 1 = []" "slice [0, 0, 0, 2] [0, 1] 2 = [0, 1]"
    "slice [0, 1, 2, 2] [2, 2] 0 = [2]" "slice [0, 1, 2, 2] [2, 2] 1 = [2]" "slice [0, 1, 2, 2] [2, 2] 2 = []"
    by (simp_all add: slice_def upt_rec)
  ultimately show ?thesis unfolding edges_ok_def f three by simp
qed

theorem EdgeIndex_correct_witness:
  "edges_ok nested_graph \<and> GetTargetForOutgoing nested_graph (GetOutgoingEdgeIndex nested_graph 2 1) = 1 \<and>
   GetSourceForIncoming nested_graph (GetIncomingEdgeIndex nested_graph 2 1) = 2 \<and>
   GetOutgoingEdgeIndex nested_graph 1 2 = 2"
proof -
  have n: "g_numAllocations nested_graph = 3" "totalEdges nested_graph = 2" "outgoing nested_graph = [0, 1]"
    "firstOutgoing nested_graph = [0, 0, 0, 2]"
    by (simp_all add: nested_graph_def Graph_init_def nested_directory_simps)
  have rows: "edges_in (outgoing nested_graph) (GetOutgoing nested_graph 2) = [0, 1]"
    "edges_in (outgoing nested_graph) (GetOutgoing nested_graph 1) = []"
    by (simp_all add: edges_in_def GetOutgoing_def edge_range_def n upt_rec)
  have e: "1 \<in> set (edges_in (outgoing nested_graph) (GetOutgoing nested_graph 2))"
    "2 \<notin> set (edges_in (outgoing nested_graph) (GetOutgoing nested_graph 1))" unfolding rows by simp_all
  have b: "(2::nat) < g_numAllocations nested_graph" "(1::nat) < g_numAllocations nested_graph" by (simp_all add: n)
  show ?thesis
    using EdgeIndex_correct [OF nested_graph_ok b(1,2)] EdgeIndex_correct [OF nested_graph_ok b(2,1)] nested_graph_ok
    unfolding if_P [OF e(1)] if_not_P [OF e(2)] n(2) by blast
qed

text \<open>
  The searches by address are sound: the allocation that \<open>TargetAllocationIndex\<close> and
  \<open>SourceAllocationIndex\<close> give is joined by an edge and holds the address, and \<open>TargetEdgeIndex\<close> gives
  the edge; and they are complete where no target (no source) of the allocation lies inside another one.
\<close>

theorem TargetAllocationIndex_correct:
  assumes "edges_ok g" "dir_ok cur d" "g_numAllocations g = NumAllocations d" "s < NumAllocations d"
  defines "targets \<equiv> set (edges_in (outgoing g) (GetOutgoing g s))"
    and "srcs \<equiv> set (edges_in (incoming g) (GetIncoming g s))"
  shows "(let t = TargetAllocationIndex g d s addr in
            (t = NumAllocations d \<or> t \<in> targets \<and> al_holds d t addr \<and> GetTargetForOutgoing g (TargetEdgeIndex g d s addr) = t) \<and>
            ((\<forall>u\<in>targets. \<forall>v\<in>targets. \<not> nested (dir_ranges d) u v) \<and> (\<exists>u\<in>targets. al_holds d u addr) \<longrightarrow>
               t \<in> targets \<and> al_holds d t addr)) \<and>
         (let t = SourceAllocationIndex g d s addr in
            (t = NumAllocations d \<or> t \<in> srcs \<and> al_holds d t addr) \<and>
            ((\<forall>u\<in>srcs. \<forall>v\<in>srcs. \<not> nested (dir_ranges d) u v) \<and> (\<exists>u\<in>srcs. al_holds d u addr) \<longrightarrow>
               t \<in> srcs \<and> al_holds d t addr))"
proof -
  have s: "s < g_numAllocations g" using assms(3,4) by simp
  have T: "targets = set (out.row g s)" "srcs = set (inn.row g s)"
    using edges_in_GetOutgoing [OF s] by (simp_all add: targets_def srcs_def)
  have len: "length (outgoing g) = totalEdges g" using assms(1) by (simp add: edges_ok_def)
  have o: "case address_search d (outgoing g) addr (firstOutgoing g ! s) (firstOutgoing g ! (s + 1)) of
      Some k \<Rightarrow> outgoing g ! k \<in> targets \<and> al_holds d (outgoing g ! k) addr \<and> k < totalEdges g
    | None \<Rightarrow> \<not> ((\<forall>u\<in>targets. \<forall>v\<in>targets. \<not> nested (dir_ranges d) u v) \<and> (\<exists>u\<in>targets. al_holds d u addr))"
    using out.address_row_Some [OF assms(1) s, of d addr] out.row_position(1) [OF assms(1) s] len
      out.address_row_finds [OF assms(1) s assms(3,2), of _ addr] unfolding T
    by (fastforce split: option.split)
  have i: "case address_search d (incoming g) addr (firstIncoming g ! s) (firstIncoming g ! (s + 1)) of
      Some k \<Rightarrow> incoming g ! k \<in> srcs \<and> al_holds d (incoming g ! k) addr
    | None \<Rightarrow> \<not> ((\<forall>u\<in>srcs. \<forall>v\<in>srcs. \<not> nested (dir_ranges d) u v) \<and> (\<exists>u\<in>srcs. al_holds d u addr))"
    using inn.address_row_Some [OF assms(1) s, of d addr]
      inn.address_row_finds [OF assms(1) s assms(3,2), of _ addr] unfolding T
    by (fastforce split: option.split)
  show ?thesis
    using o i s assms(3)
    by (simp add: Let_def TargetAllocationIndex_def SourceAllocationIndex_def TargetEdgeIndex_def GetTargetForOutgoing_def
        split: option.splits) blast+
qed

lemma nested_directory_ok: "dir_ok 0x2000 nested_directory"
  "dir_ranges nested_directory = [(0x1000, 0x1100), (0x1010, 0x1020), (0x2000, 0x2010)]"
proof -
  have p: "pending_ok (0x2000, 16, True)" and f: "(0::nat) < unat MAX_FINDERS"
    by (simp_all add: pending_ok_def al_constants mask_eq_exp_minus_1)
  have "\<not> overlaps example_directory (0x2000, 16, True)"
    by (auto simp: overlaps_def example_directory_ok(2) less_Suc_eq)
  then show "dir_ok 0x2000 nested_directory"
    "dir_ranges nested_directory = [(0x1000, 0x1100), (0x1010, 0x1020), (0x2000, 0x2010)]"
    using consume_allocation_ok [OF example_directory_ok(1) p f] example_directory_ok(2)
    by (simp_all add: nested_directory_def)
qed

lemma nested_targets: "edges_in (outgoing nested_graph) (GetOutgoing nested_graph 2) = [0, 1]"
  "edges_in (incoming nested_graph) (GetIncoming nested_graph 2) = []"
  by (simp_all add: edges_in_def GetOutgoing_def GetIncoming_def edge_range_def nested_graph_def Graph_init_def
      nested_directory_simps upt_rec)

theorem TargetAllocationIndex_correct_witness:
  "edges_ok nested_graph \<and> dir_ok 0x2000 nested_directory \<and>
   (TargetAllocationIndex nested_graph nested_directory 2 0x1018 = 3 \<or>
    TargetAllocationIndex nested_graph nested_directory 2 0x1018 \<in> {0, 1}) \<and>
   SourceAllocationIndex nested_graph nested_directory 2 0x1018 = 3"
proof -
  have n: "g_numAllocations nested_graph = NumAllocations nested_directory"
    by (simp add: nested_graph_def Graph_init_def)
  have "2 < NumAllocations nested_directory" by (simp add: nested_directory_simps)
  from TargetAllocationIndex_correct [OF nested_graph_ok nested_directory_ok(1) n this, of "0x1018"]
  show ?thesis unfolding nested_targets Let_def nested_directory_simps(1)
    using nested_graph_ok nested_directory_ok(1) by auto
qed

text \<open>
  The search by address misses a target where targets are nested: in a graph whose third allocation
  points to the first one and to the second one inside it, \<open>TargetAllocationIndex\<close> finds no target for an
  address that the first one holds past the end of the second, although the first one is a target and
  \<open>AllocationIndexOf\<close> finds it.
\<close>

theorem TargetAllocationIndex_misses:
  "TargetAllocationIndex nested_graph nested_directory 2 0x1050 = NumAllocations nested_directory \<and>
   0 \<in> set (edges_in (outgoing nested_graph) (GetOutgoing nested_graph 2)) \<and>
   al_holds nested_directory 0 0x1050 \<and> AllocationIndexOf nested_directory 0x1050 = 0"
proof -
  have "address_search nested_directory [0, 1] 0x1050 0 2 = None"
    using nested_directory_simps(2-5) by (simp add: address_search_def index_search.simps Let_def)
  then have "TargetAllocationIndex nested_graph nested_directory 2 0x1050 = NumAllocations nested_directory"
    by (simp add: TargetAllocationIndex_def nested_graph_def Graph_init_def nested_directory_simps)
  moreover have "al_holds nested_directory 0 0x1050" by (simp add: al_holds_def nested_directory_simps)
  moreover have "containing (dir_ranges nested_directory) (unat (0x1050 :: addr)) = {0}"
    unfolding nested_directory_ok(2) containing_def by (auto simp: less_Suc_eq)
  then have "AllocationIndexOf nested_directory 0x1050 = 0"
    using AllocationIndexOf_spec [OF nested_directory_ok(1), of "0x1050"] by simp
  ultimately show ?thesis by (simp add: nested_targets)
qed

end
