(* ===== verification/Stack_Registry.thy ===== *)
theory Stack_Registry
  imports Range_Mapper
begin

text \<open>
  The class \<open>StackRegistry\<close> of StackRegistry.h, which remembers the regions used as stacks with what is
  known of each, and the class \<open>ThreadMap\<close> of ThreadMap.h, the registers of the threads.
\<close>

section \<open>StackRegistry\<close>

definition STACK_TOP_UNKNOWN :: addr where "STACK_TOP_UNKNOWN = NOT 0"
definition STACK_BASE_UNKNOWN :: addr where "STACK_BASE_UNKNOWN = NOT 0"
definition THREAD_NUMBER_UNKNOWN :: addr where "THREAD_NUMBER_UNKNOWN = NOT 0"

record StackInfo =
  stackType :: string
  stackTop :: addr
  stackBase :: addr
  threadNumber :: addr

record StackRegistry =
  stacks :: "(64, nat) range_mapper"
  stackInfo :: "StackInfo list"

definition StackInfo_new :: "string \<Rightarrow> StackInfo" where
  "StackInfo_new type = \<lparr>stackType = type, stackTop = STACK_TOP_UNKNOWN, stackBase = STACK_BASE_UNKNOWN,
     threadNumber = THREAD_NUMBER_UNKNOWN\<rparr>"

definition StackRegistry_new :: StackRegistry where
  "StackRegistry_new = \<lparr>stacks = RangeMapper_new False, stackInfo = []\<rparr>"

definition RegisterStack :: "StackRegistry \<Rightarrow> addr \<Rightarrow> addr \<Rightarrow> string \<Rightarrow> StackRegistry \<times> bool" where
  "RegisterStack r regionBase regionLimit type =
     (case MapRange (stacks r) regionBase (regionLimit - regionBase) (length (stackInfo r)) of
        (rm, it, True) \<Rightarrow> (r\<lparr>stacks := rm, stackInfo := stackInfo r @ [StackInfo_new type]\<rparr>, True)
      | (rm, it, False) \<Rightarrow> (r\<lparr>stacks := rm\<rparr>, False))"

definition AddStackTop :: "StackRegistry \<Rightarrow> addr \<Rightarrow> StackRegistry \<times> bool" where
  "AddStackTop r tp =
     (case FindRange (stacks r) tp of
        Some (_, _, i) \<Rightarrow> (r\<lparr>stackInfo := (stackInfo r)[i := (stackInfo r ! i)\<lparr>stackTop := tp\<rparr>]\<rparr>, True)
      | None \<Rightarrow> (r, False))"

definition AddStackBase :: "StackRegistry \<Rightarrow> addr \<Rightarrow> StackRegistry \<times> bool" where
  "AddStackBase r base =
     (case FindRange (stacks r) base of
        Some (_, _, i) \<Rightarrow> (r\<lparr>stackInfo := (stackInfo r)[i := (stackInfo r ! i)\<lparr>stackBase := base\<rparr>]\<rparr>, True)
      | None \<Rightarrow> (r, False))"

definition AddThreadNumber :: "StackRegistry \<Rightarrow> addr \<Rightarrow> addr \<Rightarrow> StackRegistry \<times> bool" where
  "AddThreadNumber r tp num =
     (case FindRange (stacks r) tp of
        Some (_, _, i) \<Rightarrow>
          (r\<lparr>stackInfo := (stackInfo r)[i := (stackInfo r ! i)\<lparr>threadNumber := num, stackTop := tp\<rparr>]\<rparr>, True)
      | None \<Rightarrow> (r, False))"

text \<open>A visitor is a state transformer that says whether to go on.\<close>

fun VisitStacks_loop ::
  "StackInfo list \<Rightarrow> (addr \<Rightarrow> addr \<Rightarrow> StackInfo \<Rightarrow> 's \<Rightarrow> bool \<times> 's) \<Rightarrow> (64, nat) rm_entries \<Rightarrow> 's \<Rightarrow> 's" where
  "VisitStacks_loop infos visitor [] st = st"
| "VisitStacks_loop infos visitor ((limit, sz, i) # its) st =
     (case visitor (limit - sz) limit (infos ! i) st of
        (False, st') \<Rightarrow> st'
      | (True, st') \<Rightarrow> VisitStacks_loop infos visitor its st')"

definition VisitStacks :: "StackRegistry \<Rightarrow> (addr \<Rightarrow> addr \<Rightarrow> StackInfo \<Rightarrow> 's \<Rightarrow> bool \<times> 's) \<Rightarrow> 's \<Rightarrow> 's" where
  "VisitStacks r visitor st = VisitStacks_loop (stackInfo r) visitor (rm_map (stacks r)) st"

definition VisitStack ::
  "StackRegistry \<Rightarrow> addr \<Rightarrow> (addr \<Rightarrow> addr \<Rightarrow> StackInfo \<Rightarrow> 's \<Rightarrow> bool \<times> 's) \<Rightarrow> 's \<Rightarrow> bool \<times> 's" where
  "VisitStack r a visitor st =
     (case FindRange (stacks r) a of
        Some (regionBase, regionSize, i) \<Rightarrow> visitor regionBase (regionBase + regionSize) (stackInfo r ! i) st
      | None \<Rightarrow> (False, st))"

definition IsStackAddress :: "StackRegistry \<Rightarrow> addr \<Rightarrow> bool" where
  "IsStackAddress r a \<longleftrightarrow> FindRange (stacks r) a \<noteq> None"

section \<open>ThreadMap\<close>

record ThreadInfo =
  registers :: "addr list"
  threadNum :: nat
  stackPointer :: addr

record ThreadMap =
  registerNames :: "string list"
  numRegisters :: nat
  threads :: "ThreadInfo list"

definition ThreadMap_new :: "string list \<Rightarrow> nat \<Rightarrow> ThreadMap" where
  "ThreadMap_new names n = \<lparr>registerNames = names, numRegisters = n, threads = []\<rparr>"

definition AddThread :: "ThreadMap \<Rightarrow> addr list \<Rightarrow> nat \<Rightarrow> addr \<Rightarrow> ThreadMap" where
  "AddThread tm regs num sp =
     tm\<lparr>threads := threads tm @ [\<lparr>registers = regs, threadNum = num, stackPointer = sp\<rparr>]\<rparr>"

definition NumThreads :: "ThreadMap \<Rightarrow> nat" where
  "NumThreads tm = length (threads tm)"

definition GetRegisterName :: "ThreadMap \<Rightarrow> nat \<Rightarrow> string" where
  "GetRegisterName tm i = (if i < numRegisters tm then registerNames tm ! i else ''???'')"

section \<open>The registry as a map from addresses to stacks\<close>

definition stacks_ok :: "StackRegistry \<Rightarrow> bool" where
  "stacks_ok r \<longleftrightarrow> rm_inv (stacks r) \<and> (\<forall>a i. rm_lookup (stacks r) a = Some i \<longrightarrow> i < length (stackInfo r))"

text \<open>What is known of the stack that holds an address, and the addresses of the same stack.\<close>

definition info_at :: "StackRegistry \<Rightarrow> addr \<Rightarrow> StackInfo option" where
  "info_at r a = map_option (\<lambda>i. stackInfo r ! i) (rm_lookup (stacks r) a)"

definition same_stack :: "StackRegistry \<Rightarrow> addr \<Rightarrow> addr \<Rightarrow> bool" where
  "same_stack r a b \<longleftrightarrow> rm_lookup (stacks r) a \<noteq> None \<and> rm_lookup (stacks r) a = rm_lookup (stacks r) b"

lemma stacks_ok_new: "stacks_ok StackRegistry_new"
  by (simp add: stacks_ok_def StackRegistry_new_def rs.inv_new rs.lookup_new)

lemma info_at_new: "info_at StackRegistry_new a = None"
  by (simp add: info_at_def StackRegistry_new_def rs.lookup_new)

lemma update_info:
  assumes "stacks_ok r" "FindRange (stacks r) a = Some (b, s, i)"
  shows "stacks_ok (r\<lparr>stackInfo := (stackInfo r)[i := f (stackInfo r ! i)]\<rparr>)"
    and "info_at (r\<lparr>stackInfo := (stackInfo r)[i := f (stackInfo r ! i)]\<rparr>) x =
      (if same_stack r a x then map_option f (info_at r x) else info_at r x)"
proof -
  have inv: "rm_inv (stacks r)" using assms(1) by (simp add: stacks_ok_def)
  have a: "rm_lookup (stacks r) a = Some i" using rs.find_Some [OF inv assms(2)] by simp
  then have "i < length (stackInfo r)" using assms(1) by (simp add: stacks_ok_def)
  then show "info_at (r\<lparr>stackInfo := (stackInfo r)[i := f (stackInfo r ! i)]\<rparr>) x =
      (if same_stack r a x then map_option f (info_at r x) else info_at r x)"
    using a by (cases "rm_lookup (stacks r) x") (auto simp: info_at_def same_stack_def)
  show "stacks_ok (r\<lparr>stackInfo := (stackInfo r)[i := f (stackInfo r ! i)]\<rparr>)"
    using assms(1) by (simp add: stacks_ok_def)
qed

lemma RegisterStack_outcome:
  assumes ok: "stacks_ok r" and le: "b \<le> l"
  shows "stacks_ok (fst (RegisterStack r b l ty))"
    and "snd (RegisterStack r b l ty) \<longleftrightarrow> (\<forall>a\<in>{b..<l}. info_at r a = None)"
    and "info_at (fst (RegisterStack r b l ty)) a =
      (if snd (RegisterStack r b l ty) \<and> a \<in> {b..<l} then Some (StackInfo_new ty) else info_at r a)"
proof -
  have inv: "rm_inv (stacks r)" and bound: "\<And>a i. rm_lookup (stacks r) a = Some i \<Longrightarrow> i < length (stackInfo r)"
    using ok by (auto simp: stacks_ok_def)
  have nw: "b \<le> b + (l - b)" and w: "wrange b (l - b) = {b..<l}" using le by simp_all
  obtain it where m: "MapRange (stacks r) b (l - b) (length (stackInfo r)) =
      (rm_insert (stacks r) b (l - b) (length (stackInfo r)), it, rm_accepts (stacks r) b (l - b) (length (stackInfo r)))"
    using MapRange_unfold [of "stacks r" b "l - b" "length (stackInfo r)"] by blast
  note L = rs.lookup_insert [OF inv nw, of "length (stackInfo r)", unfolded w]
    and A = rs.accepts_iff [OF inv nw, of "length (stackInfo r)", unfolded w]
    and I = rs.inv_insert [OF inv nw, of "length (stackInfo r)"]
  show "snd (RegisterStack r b l ty) \<longleftrightarrow> (\<forall>a\<in>{b..<l}. info_at r a = None)"
    using A by (simp add: RegisterStack_def m info_at_def split: bool.split)
  show "stacks_ok (fst (RegisterStack r b l ty))"
    using I L bound by (auto simp: RegisterStack_def m stacks_ok_def less_SucI split: bool.split if_splits)
  show "info_at (fst (RegisterStack r b l ty)) a =
      (if snd (RegisterStack r b l ty) \<and> a \<in> {b..<l} then Some (StackInfo_new ty) else info_at r a)"
  proof -
    have keep: "map_option (\<lambda>i. (stackInfo r @ [StackInfo_new ty]) ! i) (rm_lookup (stacks r) a) =
        map_option (\<lambda>i. stackInfo r ! i) (rm_lookup (stacks r) a)"
      using bound [of a] by (cases "rm_lookup (stacks r) a") (auto simp: nth_append)
    show ?thesis
      using L [of a] keep by (auto simp: RegisterStack_def m info_at_def split: bool.split)
  qed
qed

section \<open>Properties\<close>

text \<open>
  C9: The registry refines a map from addresses to stacks.  A region that does not wrap is registered
  exactly when it overlaps no registered stack; from then on all of its addresses, and no others, belong
  to a stack of the given type of which nothing else is known.  \<open>AddStackTop\<close>, \<open>AddStackBase\<close> and
  \<open>AddThreadNumber\<close> succeed exactly for an address of a registered stack, and change what is known of
  that stack only.  The registry stays well-formed.
\<close>

theorem StackRegistry_refines:
  fixes a b l n x :: addr and ty :: string
  assumes "stacks_ok r" "b \<le> l"
  defines "reg \<equiv> RegisterStack r b l ty" and "tops \<equiv> AddStackTop r a" and "bas \<equiv> AddStackBase r a"
    and "num \<equiv> AddThreadNumber r a n"
  shows "stacks_ok (fst reg) \<and> stacks_ok (fst tops) \<and> stacks_ok (fst bas) \<and> stacks_ok (fst num) \<and>
    snd reg = (\<forall>x\<in>{b..<l}. info_at r x = None) \<and>
    info_at (fst reg) x = (if snd reg \<and> x \<in> {b..<l} then Some (StackInfo_new ty) else info_at r x) \<and>
    snd tops = IsStackAddress r a \<and> snd bas = IsStackAddress r a \<and> snd num = IsStackAddress r a \<and>
    (IsStackAddress r a \<longleftrightarrow> info_at r a \<noteq> None) \<and>
    info_at (fst tops) x = (if same_stack r a x then map_option (stackTop_update (\<lambda>_. a)) (info_at r x) else info_at r x) \<and>
    info_at (fst bas) x = (if same_stack r a x then map_option (stackBase_update (\<lambda>_. a)) (info_at r x) else info_at r x) \<and>
    info_at (fst num) x =
      (if same_stack r a x then map_option (\<lambda>i. i\<lparr>threadNumber := n, stackTop := a\<rparr>) (info_at r x) else info_at r x)"
proof (cases "FindRange (stacks r) a")
  case None
  moreover from None have "rm_lookup (stacks r) a = None"
    using rs.find_None assms(1) by (auto simp: stacks_ok_def)
  ultimately show ?thesis
    using assms(1) RegisterStack_outcome [OF assms(1,2), of ty]
    by (simp add: reg_def tops_def bas_def num_def AddStackTop_def AddStackBase_def AddThreadNumber_def IsStackAddress_def
        same_stack_def info_at_def [of r a])
next
  case (Some f)
  obtain fb fs i where f: "f = (fb, fs, i)" by (cases f)
  note U = update_info [OF assms(1) Some [unfolded f]]
  have "rm_lookup (stacks r) a = Some i"
    using rs.find_Some [OF _ Some [unfolded f]] assms(1) by (auto simp: stacks_ok_def)
  then have "info_at r a \<noteq> None" by (simp add: info_at_def)
  then show ?thesis
    using Some f RegisterStack_outcome [OF assms(1,2), of ty]
      U [where f = "stackTop_update (\<lambda>_. a)"] U [where f = "stackBase_update (\<lambda>_. a)"]
      U [where f = "\<lambda>i. i\<lparr>threadNumber := n, stackTop := a\<rparr>"]
    by (simp add: reg_def tops_def bas_def num_def AddStackTop_def AddStackBase_def AddThreadNumber_def IsStackAddress_def)
qed

theorem StackRegistry_refines_witness:
  "stacks_ok StackRegistry_new \<and> (0x1000 :: addr) \<le> 0x2000 \<and>
   snd (RegisterStack StackRegistry_new 0x1000 0x2000 ''main'') \<and>
   info_at (fst (RegisterStack StackRegistry_new 0x1000 0x2000 ''main'')) 0x1800 = Some (StackInfo_new ''main'') \<and>
   \<not> snd (AddStackTop StackRegistry_new 0x1800)"
proof -
  have "(0x1000 :: addr) \<le> 0x2000" by simp
  from StackRegistry_refines [OF stacks_ok_new this, where x = "0x1800" and a = "0x1800" and ty = "''main''"]
  show ?thesis by (simp add: stacks_ok_new info_at_new)
qed

end
