(* ===== verification/Graph_Anchors.thy ===== *)
theory Graph_Anchors
  imports Graph_Edges Stack_Registry
begin

text \<open>
  The anchors of the class \<open>Allocations::Graph\<close> of Allocations/Graph.h: the places outside the
  allocations (static memory, stacks, registers, other reasons) that refer to an allocation, the
  distance of every allocation from the anchors of each kind, and which allocations are leaked.  An
  access out of range, an abort and a loop that does not end are \<open>None\<close>.
\<close>

section \<open>Anchor points\<close>

text \<open>\<open>anchorPoints.try_emplace(targetIndex).first->second.push_back(anchor)\<close>\<close>

definition add_anchor :: "nat \<Rightarrow> addr \<Rightarrow> (nat, addr list) std_map \<Rightarrow> (nat, addr list) std_map" where
  "add_anchor t anchor pts =
     sm_assign t ((case sm_find pts t of Some as \<Rightarrow> as | None \<Rightarrow> []) @ [anchor]) pts"

definition is_used_target :: "Directory \<Rightarrow> nat \<Rightarrow> bool" where
  "is_used_target d t = (case AllocationAt d t of Some al \<Rightarrow> al_IsUsed al | None \<Rightarrow> False)"

partial_function (option) FindAnchorPoints_loop ::
  "VirtualAddressMap \<Rightarrow> Directory \<Rightarrow> obscured \<Rightarrow> addr \<Rightarrow> addr \<Rightarrow> Reader \<Rightarrow> (nat, addr list) std_map
   \<Rightarrow> (nat, addr list) std_map option" where
  "FindAnchorPoints_loop m d obs rangeEnd anchor rd pts =
     (if anchor < rangeEnd then
        (case ReadOffset m rd anchor of
           (rd', Value candidateTarget) \<Rightarrow>
             (let t = EdgeTargetIndex d obs candidateTarget in
              FindAnchorPoints_loop m d obs rangeEnd (anchor + sizeof_Offset) rd'
                (if is_used_target d t then add_anchor t anchor pts else pts))
         | (rd', NotMapped _) \<Rightarrow> FindAnchorPoints_loop m d obs rangeEnd (anchor + sizeof_Offset) rd' pts
         | (rd', OutsideFile) \<Rightarrow> None)
      else Some pts)"

definition FindAnchorPoints ::
  "VirtualAddressMap \<Rightarrow> Directory \<Rightarrow> obscured \<Rightarrow> addr \<Rightarrow> addr \<Rightarrow> (nat, addr list) std_map
   \<Rightarrow> (nat, addr list) std_map option" where
  "FindAnchorPoints m d obs rangeBase rangeEnd pts =
     FindAnchorPoints_loop m d obs rangeEnd rangeBase Reader_new pts"

fun FindStaticAnchorPoints ::
  "VirtualAddressMap \<Rightarrow> Directory \<Rightarrow> obscured \<Rightarrow> (addr, addr) std_map \<Rightarrow> (nat, addr list) std_map
   \<Rightarrow> (nat, addr list) std_map option" where
  "FindStaticAnchorPoints m d obs [] pts = Some pts"
| "FindStaticAnchorPoints m d obs ((base, limit) # rest) pts =
     (case FindAnchorPoints m d obs base limit pts of
        None \<Rightarrow> None | Some pts' \<Rightarrow> FindStaticAnchorPoints m d obs rest pts')"

definition FindStackAnchorPoints ::
  "VirtualAddressMap \<Rightarrow> Directory \<Rightarrow> obscured \<Rightarrow> StackRegistry \<Rightarrow> (nat, addr list) std_map
   \<Rightarrow> (nat, addr list) std_map option" where
  "FindStackAnchorPoints m d obs sr pts =
     VisitStacks sr
       (\<lambda>regionBase regionLimit info st.
          (True, case st of None \<Rightarrow> None
                 | Some p \<Rightarrow> FindAnchorPoints m d obs
                     (if stackTop info \<noteq> STACK_TOP_UNKNOWN then stackTop info else regionBase) regionLimit p))
       (Some pts)"

fun register_loop ::
  "Directory \<Rightarrow> nat \<Rightarrow> nat \<Rightarrow> addr list \<Rightarrow> nat list \<Rightarrow> (nat, addr list) std_map
   \<Rightarrow> (nat, addr list) std_map option" where
  "register_loop d numRegs num regs [] pts = Some pts"
| "register_loop d numRegs num regs (i # is) pts =
     (if i < length regs then
        let candidateTarget = regs ! i in
        register_loop d numRegs num regs is
          (if candidateTarget \<noteq> 0 \<and> candidateTarget AND (sizeof_Offset - 1) = 0 then
             let t = AllocationIndexOf d candidateTarget in
             if is_used_target d t then add_anchor t (of_nat (num * numRegs + i)) pts else pts
           else pts)
      else None)"

fun thread_loop ::
  "Directory \<Rightarrow> nat \<Rightarrow> ThreadInfo list \<Rightarrow> (nat, addr list) std_map \<Rightarrow> (nat, addr list) std_map option" where
  "thread_loop d numRegs [] pts = Some pts"
| "thread_loop d numRegs (th # ths) pts =
     (case register_loop d numRegs (threadNum th) (registers th) [0..<numRegs] pts of
        None \<Rightarrow> None | Some pts' \<Rightarrow> thread_loop d numRegs ths pts')"

definition FindRegisterAnchorPoints ::
  "Directory \<Rightarrow> ThreadMap \<Rightarrow> (nat, addr list) std_map \<Rightarrow> (nat, addr list) std_map option" where
  "FindRegisterAnchorPoints d tm pts = thread_loop d (numRegisters tm) (threads tm) pts"

text \<open>The external anchor point checker is an interface: why an allocation is anchored, if it is.\<close>

type_synonym external = "(nat \<Rightarrow> ContiguousImage \<Rightarrow> string option) option"

fun external_loop ::
  "VirtualAddressMap \<Rightarrow> Directory \<Rightarrow> (nat \<Rightarrow> ContiguousImage \<Rightarrow> string option) \<Rightarrow> nat list \<Rightarrow> ContiguousImage
   \<Rightarrow> (nat, string) std_map \<Rightarrow> (nat, string) std_map option" where
  "external_loop m d check [] ci pts = Some pts"
| "external_loop m d check (i # is) ci pts =
     (if is_used_target d i then
        (case SetIndex m d i ci of
           None \<Rightarrow> None
         | Some ci' \<Rightarrow>
             external_loop m d check is ci'
               (case check i ci' of Some reason \<Rightarrow> sm_assign i reason pts | None \<Rightarrow> pts))
      else external_loop m d check is ci pts)"

definition FindExternalAnchorPoints ::
  "VirtualAddressMap \<Rightarrow> Directory \<Rightarrow> external \<Rightarrow> (nat, string) std_map \<Rightarrow> (nat, string) std_map option" where
  "FindExternalAnchorPoints m d ext pts =
     (case ext of
        None \<Rightarrow> Some pts
      | Some check \<Rightarrow> external_loop m d check [0..<NumAllocations d] (ContiguousImage_new d) pts)"

section \<open>Marking what is anchored\<close>

record mark_state =
  visited :: "bool list"
  m_leaked :: "bool list"
  anchorDistance :: IndexedDistances
  toVisit :: "nat list"

text \<open>What both loops do with an allocation they reach: mark it, set its distance, queue it.\<close>

definition mark :: "nat \<Rightarrow> nat \<Rightarrow> mark_state \<Rightarrow> mark_state option" where
  "mark newDistance i st =
     (if i < length (visited st) \<and> i < length (m_leaked st) then
        (case SetDistance (anchorDistance st) i newDistance of
           None \<Rightarrow> None
         | Some dd \<Rightarrow>
             Some (st\<lparr>visited := (visited st)[i := True], m_leaked := (m_leaked st)[i := False],
                      anchorDistance := dd, toVisit := toVisit st @ [i]\<rparr>))
      else None)"

fun mark_anchors :: "nat list \<Rightarrow> mark_state \<Rightarrow> mark_state option" where
  "mark_anchors [] st = Some st"
| "mark_anchors (i # is) st = (case mark 1 i st of None \<Rightarrow> None | Some st' \<Rightarrow> mark_anchors is st')"

fun mark_targets :: "nat \<Rightarrow> nat list \<Rightarrow> mark_state \<Rightarrow> mark_state option" where
  "mark_targets newDistance [] st = Some st"
| "mark_targets newDistance (t # ts) st =
     (if t < length (visited st) then
        if \<not> visited st ! t then
          (case mark newDistance t st of None \<Rightarrow> None | Some st' \<Rightarrow> mark_targets newDistance ts st')
        else mark_targets newDistance ts st
      else None)"

text \<open>Every pass of the loop takes one allocation from the queue; an allocation is queued once.\<close>

definition unvisited :: "mark_state \<Rightarrow> nat" where
  "unvisited st = length (filter Not (visited st)) + length (toVisit st)"

lemma mark_unvisited:
  assumes "mark n i st = Some st'" "\<not> visited st ! i"
  shows "unvisited st' = unvisited st"
  using assms filter_Not_update [of i "visited st"]
  by (auto simp: mark_def unvisited_def split: if_splits option.splits)

lemma mark_targets_unvisited: "mark_targets n ts st = Some st' \<Longrightarrow> unvisited st' = unvisited st"
proof (induction n ts st rule: mark_targets.induct)
  case (2 n t ts st)
  then show ?case using mark_unvisited [of n t st] by (auto split: if_splits option.splits)
qed simp

function mark_loop :: "Graph \<Rightarrow> mark_state \<Rightarrow> mark_state option" where
  "mark_loop g st =
     (case toVisit st of
        [] \<Rightarrow> Some st
      | source # rest \<Rightarrow>
          (case GetDistance (anchorDistance st) source of
             None \<Rightarrow> None
           | Some x \<Rightarrow>
               (case mark_targets (x + 1)
                       (edges_in (outgoing g) (firstOutgoing g ! source, firstOutgoing g ! (source + 1)))
                       (st\<lparr>toVisit := rest\<rparr>) of
                  None \<Rightarrow> None
                | Some st' \<Rightarrow> mark_loop g st')))"
  by auto
termination
proof (relation "measure (\<lambda>(g, st). unvisited st)", goal_cases)
  case (2 g st source rest x st')
  then have "unvisited st' = unvisited (st\<lparr>toVisit := rest\<rparr>)" by (simp add: mark_targets_unvisited)
  then show ?case using 2 by (simp add: unvisited_def)
qed simp

declare mark_loop.simps [simp del]

definition MarkAnchoredChunks ::
  "Directory \<Rightarrow> Graph \<Rightarrow> (nat, 'a) std_map \<Rightarrow> bool list \<Rightarrow> IndexedDistances \<Rightarrow> (bool list \<times> IndexedDistances) option" where
  "MarkAnchoredChunks d g anchorPoints lk dd =
     (let st = \<lparr>visited = map (\<lambda>i. \<not> is_used_target d i) [0..<g_numAllocations g], m_leaked = lk,
                anchorDistance = dd, toVisit = []\<rparr>
      in case mark_anchors (map fst anchorPoints) st of
           None \<Rightarrow> None
         | Some st1 \<Rightarrow>
             (case mark_loop g st1 of
                None \<Rightarrow> None
              | Some st2 \<Rightarrow> Some (m_leaked st2, anchorDistance st2)))"

definition MarkLeakedChunks :: "Directory \<Rightarrow> Graph \<Rightarrow> Graph option" where
  "MarkLeakedChunks d g =
     (let lk0 = map (\<lambda>i. is_used_target d i) [0..<g_numAllocations g] in
      case MarkAnchoredChunks d g (staticAnchorPoints g) lk0 (staticAnchorDistances g) of
        None \<Rightarrow> None
      | Some (lk1, dd1) \<Rightarrow>
          (case MarkAnchoredChunks d g (stackAnchorPoints g) lk1 (stackAnchorDistances g) of
             None \<Rightarrow> None
           | Some (lk2, dd2) \<Rightarrow>
               (case MarkAnchoredChunks d g (registerAnchorPoints g) lk2 (registerAnchorDistances g) of
                  None \<Rightarrow> None
                | Some (lk3, dd3) \<Rightarrow>
                    (case MarkAnchoredChunks d g (externalAnchorPoints g) lk3 (externalAnchorDistances g) of
                       None \<Rightarrow> None
                     | Some (lk4, dd4) \<Rightarrow>
                         Some (g\<lparr>leaked := lk4, staticAnchorDistances := dd1, stackAnchorDistances := dd2,
                                 registerAnchorDistances := dd3, externalAnchorDistances := dd4\<rparr>)))))"

text \<open>The constructor.\<close>

definition Graph_new ::
  "VirtualAddressMap \<Rightarrow> Directory \<Rightarrow> ThreadMap \<Rightarrow> StackRegistry \<Rightarrow> (addr, addr) std_map \<Rightarrow> external \<Rightarrow> obscured
   \<Rightarrow> Graph option" where
  "Graph_new m d tm sr staticAnchorLimits ext obs =
     (case FindEdges m d obs (Graph_init d) of
        None \<Rightarrow> None
      | Some g \<Rightarrow>
          (case FindStaticAnchorPoints m d obs staticAnchorLimits (staticAnchorPoints g) of
             None \<Rightarrow> None
           | Some p1 \<Rightarrow>
               (case FindStackAnchorPoints m d obs sr (stackAnchorPoints g) of
                  None \<Rightarrow> None
                | Some p2 \<Rightarrow>
                    (case FindRegisterAnchorPoints d tm (registerAnchorPoints g) of
                       None \<Rightarrow> None
                     | Some p3 \<Rightarrow>
                         (case FindExternalAnchorPoints m d ext (externalAnchorPoints g) of
                            None \<Rightarrow> None
                          | Some p4 \<Rightarrow>
                              MarkLeakedChunks d
                                (g\<lparr>staticAnchorPoints := p1, stackAnchorPoints := p2,
                                   registerAnchorPoints := p3, externalAnchorPoints := p4\<rparr>))))))"

end
