(* ===== verification/Anchor_Distances.thy ===== *)
theory Anchor_Distances
  imports Graph_Anchors
begin

text \<open>
  The breadth-first search of \<open>Graph::MarkAnchoredChunks\<close> (Allocations/Graph.h) computes the distances
  from the anchor points, and an allocation is leaked exactly when it is used and cannot be reached from
  any of them.
\<close>

section \<open>Distance from the anchors\<close>

text \<open>
  \<open>anchored E U A k i\<close>: a path of \<open>k\<close> used allocations (\<open>U\<close>) along edges (\<open>E\<close>) leads from an anchor
  point (\<open>A\<close>) to \<open>i\<close>.  The distance is the length of a shortest one, 0 where there is none.
\<close>

inductive anchored :: "(nat \<Rightarrow> nat set) \<Rightarrow> (nat \<Rightarrow> bool) \<Rightarrow> nat set \<Rightarrow> nat \<Rightarrow> nat \<Rightarrow> bool" for E U A where
  point: "i \<in> A \<Longrightarrow> anchored E U A (Suc 0) i"
| edge: "anchored E U A k s \<Longrightarrow> t \<in> E s \<Longrightarrow> U t \<Longrightarrow> anchored E U A (Suc k) t"

definition anchor_distance :: "(nat \<Rightarrow> nat set) \<Rightarrow> (nat \<Rightarrow> bool) \<Rightarrow> nat set \<Rightarrow> nat \<Rightarrow> nat" where
  "anchor_distance E U A i = (if \<exists>k. anchored E U A k i then LEAST k. anchored E U A k i else 0)"

lemma anchored_pos: "anchored E U A k i \<Longrightarrow> 0 < k"
  by (induction rule: anchored.induct) auto

text \<open>A labelling that bounds every step of a path from below and is realised by paths is the distance.\<close>

lemma anchor_distance_eq:
  assumes points: "\<And>i. i \<in> A \<Longrightarrow> D i = 1"
    and closed: "\<And>s t. 0 < D s \<Longrightarrow> t \<in> E s \<Longrightarrow> U t \<Longrightarrow> 0 < D t \<and> D t \<le> D s + 1"
    and real: "\<And>i. 0 < D i \<Longrightarrow> anchored E U A (D i) i"
  shows "anchor_distance E U A i = D i"
proof -
  have below: "0 < D i \<and> D i \<le> k" if "anchored E U A k i" for k i
    using that
  proof (induction rule: anchored.induct)
    case (edge k s t)
    then show ?case using closed [of s t] by simp
  qed (use points in simp)
  show ?thesis
  proof (cases "\<exists>k. anchored E U A k i")
    case True
    then obtain k where "anchored E U A k i" ..
    then have "anchored E U A (D i) i" using below real by blast
    then have "(LEAST k. anchored E U A k i) = D i" by (rule Least_equality) (use below in blast)
    then show ?thesis using True by (simp add: anchor_distance_def)
  next
    case False
    then have "D i = 0" using real by blast
    then show ?thesis using False by (simp add: anchor_distance_def)
  qed
qed

section \<open>The invariant of the search\<close>

abbreviation dist_of :: "mark_state \<Rightarrow> nat \<Rightarrow> nat" where
  "dist_of st \<equiv> ds.dist_at (anchorDistance st)"

definition mark_ok :: "nat \<Rightarrow> (nat \<Rightarrow> nat set) \<Rightarrow> (nat \<Rightarrow> bool) \<Rightarrow> nat set \<Rightarrow> bool list \<Rightarrow> mark_state \<Rightarrow> bool" where
  "mark_ok n E U A lk st \<longleftrightarrow>
     distances_ok (anchorDistance st) \<and> numIndices (anchorDistance st) = n \<and>
     length (visited st) = n \<and> length (m_leaked st) = n \<and>
     (\<forall>i<n. visited st ! i \<longleftrightarrow> \<not> U i \<or> 0 < dist_of st i) \<and>
     (\<forall>i. 0 < dist_of st i \<longrightarrow> i < n \<and> U i \<and> anchored E U A (dist_of st i) i) \<and>
     (\<forall>i<n. m_leaked st ! i \<longleftrightarrow> lk ! i \<and> dist_of st i = 0) \<and>
     (\<forall>i. dist_of st i \<le> card {j. 0 < dist_of st j}) \<and>
     (\<forall>s\<in>set (toVisit st). 0 < dist_of st s) \<and> sorted (map (dist_of st) (toVisit st))"

text \<open>The distances in the queue are \<open>d\<close> and \<open>d + 1\<close>, and none is larger.\<close>

definition level :: "nat \<Rightarrow> mark_state \<Rightarrow> bool" where
  "level d st \<longleftrightarrow> (\<forall>s\<in>set (toVisit st). d \<le> dist_of st s) \<and> (\<forall>i. dist_of st i \<le> d + 1)"

text \<open>Every target of an allocation that is reached and not in \<open>P\<close> is reached within one more step.\<close>

definition done_but :: "(nat \<Rightarrow> nat set) \<Rightarrow> (nat \<Rightarrow> bool) \<Rightarrow> nat set \<Rightarrow> mark_state \<Rightarrow> bool" where
  "done_but E U P st \<longleftrightarrow> (\<forall>s t. 0 < dist_of st s \<and> s \<notin> P \<and> t \<in> E s \<and> U t \<longrightarrow>
     0 < dist_of st t \<and> dist_of st t \<le> dist_of st s + 1)"

lemma mark_ok_finite:
  assumes "mark_ok n E U A lk st"
  shows "{j. 0 < dist_of st j} \<subseteq> {..<n}" "card {j. 0 < dist_of st j} \<le> n"
proof -
  show *: "{j. 0 < dist_of st j} \<subseteq> {..<n}" using assms by (auto simp: mark_ok_def)
  show "card {j. 0 < dist_of st j} \<le> n" using card_mono [OF finite_lessThan *] by simp
qed

lemma mark_outcome:
  assumes ok: "mark_ok n E U A lk st" and n: "n < 2 ^ 32"
    and i: "i < n" "U i" "dist_of st i = 0"
    and nd: "0 < nd" "nd \<le> card {j. 0 < dist_of st j} + 1" "anchored E U A nd i"
    and q: "\<forall>s\<in>set (toVisit st). dist_of st s \<le> nd"
  shows "\<exists>st'. mark nd i st = Some st' \<and> mark_ok n E U A lk st' \<and> dist_of st' = (dist_of st)(i := nd) \<and>
           toVisit st' = toVisit st @ [i]"
proof -
  have d: "distances_ok (anchorDistance st)" "numIndices (anchorDistance st) = n"
    and len: "length (visited st) = n" "length (m_leaked st) = n"
    using ok by (simp_all add: mark_ok_def)
  note fin = mark_ok_finite [OF ok]
  have "card {j. 0 < dist_of st j} < n"
  proof -
    have "i \<notin> {j. 0 < dist_of st j}" "i \<in> {..<n}" using i(1,3) by simp_all
    then have "{j. 0 < dist_of st j} \<subset> {..<n}" using fin(1) by blast
    from psubset_card_mono [OF finite_lessThan this] show ?thesis by simp
  qed
  then have nd32: "nd < 2 ^ 32" using nd(2) n by simp
  have i': "i < numIndices (anchorDistance st)" using i(1) d(2) by simp
  obtain dd where dd: "SetDistance (anchorDistance st) i nd = Some dd" "distances_ok dd" "numIndices dd = n"
    using ds.set_cases [OF d(1) i' nd32] d(2) by metis
  have D: "ds.dist_at dd = (dist_of st)(i := nd)" by (rule ds.dist_at_set [OF d(1) i' nd32 dd(1)])
  let ?st = "st\<lparr>visited := (visited st)[i := True], m_leaked := (m_leaked st)[i := False],
                anchorDistance := dd, toVisit := toVisit st @ [i]\<rparr>"
  have m: "mark nd i st = Some ?st" using len i(1) dd(1) by (simp add: mark_def)
  have set: "{j. 0 < ((dist_of st)(i := nd)) j} = insert i {j. 0 < dist_of st j}" using nd(1) by auto
  have card: "card {j. 0 < ((dist_of st)(i := nd)) j} = Suc (card {j. 0 < dist_of st j})"
    unfolding set using i(3) finite_subset [OF fin(1)] by (subst card_insert_disjoint) auto
  have le: "((dist_of st)(i := nd)) j \<le> card {j. 0 < ((dist_of st)(i := nd)) j}" for j
    unfolding card using ok nd(2) by (auto simp: mark_ok_def le_SucI)
  have iq: "i \<notin> set (toVisit st)" using ok i(3) by (auto simp: mark_ok_def)
  have qs: "map ((dist_of st)(i := nd)) (toVisit st @ [i]) = map (dist_of st) (toVisit st) @ [nd]"
    using iq by auto
  have "sorted (map (dist_of st) (toVisit st) @ [nd])"
    using ok q by (auto simp: mark_ok_def sorted_append)
  then have "mark_ok n E U A lk ?st"
    using ok dd(2,3) i(1,2) nd(1,3) le len iq unfolding mark_ok_def
    by (auto simp: D qs nth_list_update simp del: fun_upd_apply map_append) (auto split: if_splits)
  then show ?thesis using m D by auto
qed

lemma mark_anchors_outcome:
  assumes n: "n < 2 ^ 32"
    and "mark_ok n E U A lk st" "distinct is" "\<forall>i\<in>set is. i < n \<and> U i \<and> i \<in> A \<and> dist_of st i = 0"
    and "\<forall>i. dist_of st i \<le> 1"
  shows "\<exists>st'. mark_anchors is st = Some st' \<and> mark_ok n E U A lk st' \<and>
           dist_of st' = (\<lambda>i. if i \<in> set is then 1 else dist_of st i) \<and> toVisit st' = toVisit st @ is"
  using assms(2-5)
proof (induction "is" arbitrary: st)
  case (Cons i js)
  have "\<forall>s\<in>set (toVisit st). dist_of st s \<le> 1" using Cons.prems(4) by simp
  then obtain st1 where st1: "mark 1 i st = Some st1" "mark_ok n E U A lk st1" "dist_of st1 = (dist_of st)(i := 1)"
      "toVisit st1 = toVisit st @ [i]"
    using mark_outcome [OF Cons.prems(1) n, of i 1] Cons.prems(3) anchored.point [of i A E U] by auto
  have "\<exists>st'. mark_anchors js st1 = Some st' \<and> mark_ok n E U A lk st' \<and>
           dist_of st' = (\<lambda>i. if i \<in> set js then 1 else dist_of st1 i) \<and> toVisit st' = toVisit st1 @ js"
    by (rule Cons.IH [OF st1(2)]) (use Cons.prems st1(3) in auto)
  then show ?case using st1(1,3,4) by (auto simp: fun_eq_iff)
qed simp

lemma mark_targets_outcome:
  assumes n: "n < 2 ^ 32" and s: "anchored E U A d s" "d \<le> card {j. 0 < dist_of st j}"
    and "mark_ok n E U A lk st" "\<forall>t\<in>set ts. t < n \<and> t \<in> E s" "level d st"
  shows "\<exists>st'. mark_targets (d + 1) ts st = Some st' \<and> mark_ok n E U A lk st' \<and> level d st' \<and>
           (\<forall>i. dist_of st' i = (if dist_of st i = 0 \<and> i \<in> set ts \<and> U i then d + 1 else dist_of st i)) \<and>
           (\<exists>new. toVisit st' = toVisit st @ new \<and> (\<forall>t. t \<in> set new \<longleftrightarrow> t \<in> set ts \<and> U t \<and> dist_of st t = 0))"
  using assms(3-6)
proof (induction ts arbitrary: st)
  case (Cons t ts)
  have t: "t < n" "t \<in> E s" using Cons.prems(3) by auto
  have v: "visited st ! t \<longleftrightarrow> \<not> U t \<or> 0 < dist_of st t" "length (visited st) = n"
    using Cons.prems(2) t(1) by (simp_all add: mark_ok_def)
  show ?case
  proof (cases "visited st ! t")
    case True
    have "\<exists>st'. mark_targets (d + 1) ts st = Some st' \<and> mark_ok n E U A lk st' \<and> level d st' \<and>
           (\<forall>i. dist_of st' i = (if dist_of st i = 0 \<and> i \<in> set ts \<and> U i then d + 1 else dist_of st i)) \<and>
           (\<exists>new. toVisit st' = toVisit st @ new \<and> (\<forall>t. t \<in> set new \<longleftrightarrow> t \<in> set ts \<and> U t \<and> dist_of st t = 0))"
      by (rule Cons.IH) (use Cons.prems in auto)
    moreover have "mark_targets (d + 1) (t # ts) st = mark_targets (d + 1) ts st" using True v(2) t(1) by simp
    moreover have "(dist_of st i = 0 \<and> i \<in> set (t # ts) \<and> U i) = (dist_of st i = 0 \<and> i \<in> set ts \<and> U i)"
      "(i \<in> set (t # ts) \<and> U i \<and> dist_of st i = 0) = (i \<in> set ts \<and> U i \<and> dist_of st i = 0)" for i
      using True v(1) by auto
    ultimately show ?thesis by (simp only:)
  next
    case False
    then have f: "U t" "dist_of st t = 0" using v(1) by auto
    have q: "\<forall>x\<in>set (toVisit st). dist_of st x \<le> d + 1" using Cons.prems(4) by (simp add: level_def)
    have a: "anchored E U A (d + 1) t" using anchored.edge [OF s(1) t(2) f(1)] by simp
    obtain st1 where st1: "mark (d + 1) t st = Some st1" "mark_ok n E U A lk st1" "dist_of st1 = (dist_of st)(t := d + 1)"
        "toVisit st1 = toVisit st @ [t]"
      using mark_outcome [OF Cons.prems(2) n t(1) f _ _ a q] Cons.prems(1) by auto
    have sub: "{j. 0 < dist_of st j} \<subseteq> {j. 0 < dist_of st1 j}" using st1(3) by auto
    have "finite {j. 0 < dist_of st1 j}"
      using mark_ok_finite(1) [OF st1(2)] by (rule finite_subset) simp
    then have c1: "d \<le> card {j. 0 < dist_of st1 j}" using card_mono [OF _ sub] Cons.prems(1) by linarith
    have tq: "t \<notin> set (toVisit st)" using Cons.prems(2) f(2) by (auto simp: mark_ok_def)
    have l1: "level d st1" using Cons.prems(4) tq by (auto simp: level_def st1(3,4))
    have ts: "\<forall>t\<in>set ts. t < n \<and> t \<in> E s" using Cons.prems(3) by simp
    obtain st' new where st': "mark_targets (d + 1) ts st1 = Some st'" "mark_ok n E U A lk st'" "level d st'"
      "\<forall>i. dist_of st' i = (if dist_of st1 i = 0 \<and> i \<in> set ts \<and> U i then d + 1 else dist_of st1 i)"
      "toVisit st' = toVisit st1 @ new" "\<forall>u. u \<in> set new \<longleftrightarrow> u \<in> set ts \<and> U u \<and> dist_of st1 u = 0"
      using Cons.IH [OF c1 st1(2) ts l1] by blast
    have r: "mark_targets (d + 1) (t # ts) st = Some st'" using False v(2) t(1) st1(1) st'(1) by simp
    show ?thesis
    proof (intro exI conjI)
      show "\<forall>i. dist_of st' i = (if dist_of st i = 0 \<and> i \<in> set (t # ts) \<and> U i then d + 1 else dist_of st i)"
        using st'(4) st1(3) f by auto
      show "toVisit st' = toVisit st @ (t # new)" using st'(5) st1(4) by simp
      show "\<forall>u. u \<in> set (t # new) \<longleftrightarrow> u \<in> set (t # ts) \<and> U u \<and> dist_of st u = 0"
        using st'(6) st1(3) f by auto
    qed (use r st'(2,3) in auto)
  qed
qed auto

lemma mark_loop_outcome:
  assumes n: "n < 2 ^ 32" and g: "edges_ok g" "g_numAllocations g = n" "\<And>s. s < n \<Longrightarrow> E s = set (out.row g s)"
    and "mark_ok n E U A lk st" "\<forall>s\<in>set (take 1 (toVisit st)). level (dist_of st s) st" "done_but E U (set (toVisit st)) st"
    and "\<forall>i\<in>A. dist_of st i = 1"
  shows "\<exists>st'. mark_loop g st = Some st' \<and> mark_ok n E U A lk st' \<and> done_but E U {} st' \<and> (\<forall>i\<in>A. dist_of st' i = 1)"
  using assms(1,5-8) g
proof (induction g st rule: mark_loop.induct)
  case (1 g st)
  show ?case
  proof (cases "toVisit st")
    case Nil
    then show ?thesis using "1.prems" by (subst mark_loop.simps) simp
  next
    case (Cons s rest)
    let ?st0 = "st\<lparr>toVisit := rest\<rparr>" and ?d = "dist_of st s"
    have M: "0 < ?d" "distances_ok (anchorDistance st)" "numIndices (anchorDistance st) = n"
      using "1.prems"(2) Cons by (simp_all add: mark_ok_def)
    have s: "s < n" "anchored E U A ?d s" using "1.prems"(2) M(1) by (auto simp: mark_ok_def)
    have get: "GetDistance (anchorDistance st) s = Some ?d"
      using M s(1) by (auto simp: ds.dist_at_def split: option.splits if_splits)
    let ?row = "edges_in (outgoing g) (firstOutgoing g ! s, firstOutgoing g ! (s + 1))"
    have row: "?row = out.row g s" by (simp add: edges_in_def out.row_def)
    have E: "E s = set (out.row g s)" using "1.prems"(8) s(1) by simp
    have rn: "\<forall>t\<in>set ?row. t < n \<and> t \<in> E s"
      using out.row_position(2) [OF "1.prems"(6)] s(1) "1.prems"(7) unfolding row E by (auto simp: out.in_row)
    have ok0: "mark_ok n E U A lk ?st0" using "1.prems"(2) Cons by (simp add: mark_ok_def)
    have lev: "level ?d st" using "1.prems"(3) Cons by simp
    have lev0: "level ?d ?st0" using lev Cons by (simp add: level_def)
    have card: "?d \<le> card {j. 0 < dist_of ?st0 j}" using "1.prems"(2) by (simp add: mark_ok_def)
    obtain st' new where st': "mark_targets (?d + 1) ?row ?st0 = Some st'" "mark_ok n E U A lk st'" "level ?d st'"
      "\<forall>i. dist_of st' i = (if dist_of st i = 0 \<and> i \<in> set ?row \<and> U i then ?d + 1 else dist_of st i)"
      "toVisit st' = rest @ new" "\<forall>u. u \<in> set new \<longleftrightarrow> u \<in> set ?row \<and> U u \<and> dist_of st u = 0"
      using mark_targets_outcome [OF "1.prems"(1) s(2) card ok0 rn lev0] by auto
    have step: "mark_loop g st = mark_loop g st'"
      using Cons get st'(1) by (subst mark_loop.simps) simp
    have "\<exists>st''. mark_loop g st' = Some st'' \<and> mark_ok n E U A lk st'' \<and> done_but E U {} st'' \<and> (\<forall>i\<in>A. dist_of st'' i = 1)"
    proof (rule "1.IH" [OF Cons get st'(1) "1.prems"(1) st'(2) _ _ _ "1.prems"(6-8)])
      show "\<forall>x\<in>set (take 1 (toVisit st')). level (dist_of st' x) st'"
      proof
        fix x assume x: "x \<in> set (take 1 (toVisit st'))"
        then have xq: "x \<in> set (toVisit st')" by (meson in_set_takeD)
        have hd: "toVisit st' = x # tl (toVisit st')" using x by (cases "toVisit st'") auto
        have "sorted (map (dist_of st') (toVisit st'))" using st'(2) by (simp add: mark_ok_def)
        then have "\<forall>y\<in>set (toVisit st'). dist_of st' x \<le> dist_of st' y" by (subst (asm) hd, subst hd) auto
        moreover have "?d \<le> dist_of st' x" using st'(3) xq by (simp add: level_def)
        moreover have "dist_of st' i \<le> ?d + 1" for i using st'(3) by (simp add: level_def)
        ultimately show "level (dist_of st' x) st'" unfolding level_def by (meson add_le_mono1 order_trans)
      qed
      show "done_but E U (set (toVisit st')) st'"
        unfolding done_but_def
      proof (intro allI impI; elim conjE)
        fix x t assume x: "0 < dist_of st' x" "x \<notin> set (toVisit st')" "t \<in> E x" "U t"
        have dx: "dist_of st' x = dist_of st x" "0 < dist_of st x"
          using x(1,2) st'(4,5,6) by (auto split: if_splits)
        show "0 < dist_of st' t \<and> dist_of st' t \<le> dist_of st' x + 1"
        proof (cases "x = s")
          case True
          then show ?thesis using x(3,4) st'(4) [unfolded row] dx lev by (auto simp: E level_def)
        next
          case False
          then have "x \<notin> set (toVisit st)" using x(2) st'(5) Cons by simp
          then have t: "0 < dist_of st t" "dist_of st t \<le> dist_of st x + 1"
            using "1.prems"(4) x(3,4) dx(2) unfolding done_but_def by blast+
          then have "dist_of st' t = dist_of st t" using st'(4) by simp
          then show ?thesis using t dx(1) by simp
        qed
      qed
      show "\<forall>i\<in>A. dist_of st' i = 1" using "1.prems"(5) st'(4) by simp
    qed
    then show ?thesis by (simp add: step)
  qed
qed

section \<open>One kind of anchors\<close>

abbreviation graph_edges :: "Graph \<Rightarrow> nat \<Rightarrow> nat set" where
  "graph_edges g s \<equiv> set (edges_in (outgoing g) (GetOutgoing g s))"

text \<open>Anchor points as the maps hold them.\<close>

definition points_ok :: "Directory \<Rightarrow> (nat, 'a) std_map \<Rightarrow> bool" where
  "points_ok d pts \<longleftrightarrow> sm_sorted pts \<and> (\<forall>i\<in>set (map fst pts). is_used_target d i)"

lemma is_used_target_less: "is_used_target d i \<Longrightarrow> i < NumAllocations d"
  by (auto simp: is_used_target_def AllocationAt_def NumAllocations_def split: if_splits)

lemma MarkAnchoredChunks_outcome:
  assumes n: "NumAllocations d < 2 ^ 32" and g: "edges_ok g" "g_numAllocations g = NumAllocations d"
    and pts: "points_ok d pts" and lk: "length lk = NumAllocations d"
  shows "\<exists>lk' dd. MarkAnchoredChunks d g pts lk (IndexedDistances_new (NumAllocations d)) = Some (lk', dd) \<and>
           length lk' = NumAllocations d \<and> distances_ok dd \<and> numIndices dd = NumAllocations d \<and>
           (\<forall>i. ds.dist_at dd i = anchor_distance (graph_edges g) (is_used_target d) (set (map fst pts)) i) \<and>
           (\<forall>i<NumAllocations d. lk' ! i \<longleftrightarrow>
              lk ! i \<and> anchor_distance (graph_edges g) (is_used_target d) (set (map fst pts)) i = 0)"
proof -
  let ?n = "NumAllocations d" and ?A = "set (map fst pts)" and ?U = "is_used_target d" and ?E = "graph_edges g"
  define st where "st = \<lparr>visited = map (\<lambda>i. \<not> ?U i) [0..<?n], m_leaked = lk,
     anchorDistance = IndexedDistances_new ?n, toVisit = []\<rparr>"
  have D0: "dist_of st = (\<lambda>i. 0)" by (simp add: st_def ds.dist_at_new)
  have q0: "toVisit st = []" by (simp add: st_def)
  have E: "?E s = set (out.row g s)" if "s < ?n" for s using edges_in_GetOutgoing(1) [of s g] that g(2) by simp
  have ok0: "mark_ok ?n ?E ?U ?A lk st"
    unfolding mark_ok_def D0
    using lk by (simp add: st_def distances_ok_new ds.capacity_new)
  have ks: "distinct (map fst pts)" "\<forall>i\<in>set (map fst pts). i < ?n \<and> ?U i \<and> i \<in> ?A \<and> dist_of st i = 0"
    using pts is_used_target_less [of d] by (auto simp: points_ok_def strict_sorted_iff D0)
  have "\<forall>i. dist_of st i \<le> 1" by (simp add: D0)
  note M = mark_anchors_outcome [OF n ok0 ks this, unfolded D0 q0 append_Nil]
  obtain st1 where st1: "mark_anchors (map fst pts) st = Some st1" "mark_ok ?n ?E ?U ?A lk st1"
      "dist_of st1 = (\<lambda>i. if i \<in> ?A then 1 else 0)" "toVisit st1 = map fst pts"
    using M by blast
  have lev: "\<forall>s\<in>set (take 1 (toVisit st1)). level (dist_of st1 s) st1"
    by (auto simp: level_def st1(3,4) dest!: in_set_takeD)
  have don: "done_but ?E ?U (set (toVisit st1)) st1" by (auto simp: done_but_def st1(3,4))
  have A1: "\<forall>i\<in>?A. dist_of st1 i = 1" by (simp add: st1(3))
  obtain st2 where st2: "mark_loop g st1 = Some st2" "mark_ok ?n ?E ?U ?A lk st2" "done_but ?E ?U {} st2"
      "\<forall>i\<in>?A. dist_of st2 i = 1"
    using mark_loop_outcome [OF n g E st1(2) lev don A1] by blast
  have dist: "anchor_distance ?E ?U ?A i = dist_of st2 i" for i
  proof (rule anchor_distance_eq)
    show "dist_of st2 i = 1" if "i \<in> ?A" for i using st2(4) that by blast
    show "0 < dist_of st2 t \<and> dist_of st2 t \<le> dist_of st2 s + 1" if "0 < dist_of st2 s" "t \<in> ?E s" "?U t" for s t
      using st2(3) that unfolding done_but_def by blast
    show "anchored ?E ?U ?A (dist_of st2 i) i" if "0 < dist_of st2 i" for i
      using st2(2) that unfolding mark_ok_def by blast
  qed
  have r: "MarkAnchoredChunks d g pts lk (IndexedDistances_new ?n) = Some (m_leaked st2, anchorDistance st2)"
    using st1(1) st2(1) by (simp add: MarkAnchoredChunks_def Let_def g(2) st_def)
  show ?thesis
    using r st2(2) dist by (auto simp: mark_ok_def)
qed

section \<open>All kinds of anchors\<close>

definition kinds_ok :: "Directory \<Rightarrow> Graph \<Rightarrow> bool" where
  "kinds_ok d g \<longleftrightarrow> edges_ok g \<and> g_numAllocations g = NumAllocations d \<and>
     points_ok d (staticAnchorPoints g) \<and> points_ok d (stackAnchorPoints g) \<and>
     points_ok d (registerAnchorPoints g) \<and> points_ok d (externalAnchorPoints g)"

definition fresh_distances :: "Directory \<Rightarrow> Graph \<Rightarrow> bool" where
  "fresh_distances d g \<longleftrightarrow> staticAnchorDistances g = IndexedDistances_new (NumAllocations d) \<and>
     stackAnchorDistances g = IndexedDistances_new (NumAllocations d) \<and>
     registerAnchorDistances g = IndexedDistances_new (NumAllocations d) \<and>
     externalAnchorDistances g = IndexedDistances_new (NumAllocations d)"

text \<open>The distances of one kind are the ones from its anchor points.\<close>

definition distances_from :: "Directory \<Rightarrow> Graph \<Rightarrow> IndexedDistances \<Rightarrow> nat set \<Rightarrow> bool" where
  "distances_from d g dd A \<longleftrightarrow> distances_ok dd \<and> numIndices dd = NumAllocations d \<and>
     (\<forall>i. ds.dist_at dd i = anchor_distance (graph_edges g) (is_used_target d) A i)"

definition anchor_point_set :: "Graph \<Rightarrow> nat set" where
  "anchor_point_set g = set (map fst (staticAnchorPoints g)) \<union> set (map fst (stackAnchorPoints g)) \<union>
     set (map fst (registerAnchorPoints g)) \<union> set (map fst (externalAnchorPoints g))"

text \<open>The state of a complete graph.\<close>

definition anchors_ok :: "Directory \<Rightarrow> Graph \<Rightarrow> bool" where
  "anchors_ok d g \<longleftrightarrow> kinds_ok d g \<and> length (leaked g) = NumAllocations d \<and>
     distances_from d g (staticAnchorDistances g) (set (map fst (staticAnchorPoints g))) \<and>
     distances_from d g (stackAnchorDistances g) (set (map fst (stackAnchorPoints g))) \<and>
     distances_from d g (registerAnchorDistances g) (set (map fst (registerAnchorPoints g))) \<and>
     distances_from d g (externalAnchorDistances g) (set (map fst (externalAnchorPoints g))) \<and>
     (\<forall>i<NumAllocations d. leaked g ! i \<longleftrightarrow> is_used_target d i \<and>
        (\<forall>k. \<not> anchored (graph_edges g) (is_used_target d) (anchor_point_set g) k i))"

lemma anchored_union: "anchored E U (A \<union> B) k i \<longleftrightarrow> anchored E U A k i \<or> anchored E U B k i"
proof
  assume "anchored E U (A \<union> B) k i"
  then show "anchored E U A k i \<or> anchored E U B k i"
    by (induction rule: anchored.induct) (auto intro: anchored.intros)
next
  have "anchored E U (A \<union> B) k i" if "anchored E U C k i" "C \<subseteq> A \<union> B" for C
    using that by (induction rule: anchored.induct) (auto intro: anchored.intros)
  then show "anchored E U A k i \<or> anchored E U B k i \<Longrightarrow> anchored E U (A \<union> B) k i" by blast
qed

lemma anchor_distance_0: "anchor_distance E U A i = 0 \<longleftrightarrow> (\<forall>k. \<not> anchored E U A k i)"
proof (cases "\<exists>k. anchored E U A k i")
  case True
  then have "anchored E U A (LEAST k. anchored E U A k i) i" by (rule LeastI_ex)
  then have "0 < (LEAST k. anchored E U A k i)" by (rule anchored_pos)
  then show ?thesis using True by (auto simp: anchor_distance_def)
qed (simp add: anchor_distance_def)

lemma MarkLeakedChunks_outcome:
  assumes n: "NumAllocations d < 2 ^ 32" and g: "kinds_ok d g" and fresh: "fresh_distances d g"
  shows "\<exists>g'. MarkLeakedChunks d g = Some g' \<and> anchors_ok d g' \<and>
           (\<exists>lk a b c e. g' = g\<lparr>leaked := lk, staticAnchorDistances := a, stackAnchorDistances := b,
                                 registerAnchorDistances := c, externalAnchorDistances := e\<rparr>)"
proof -
  let ?n = "NumAllocations d" and ?E = "graph_edges g" and ?U = "is_used_target d"
  have e: "edges_ok g" "g_numAllocations g = ?n" using g by (simp_all add: kinds_ok_def)
  have p: "points_ok d (staticAnchorPoints g)" "points_ok d (stackAnchorPoints g)"
    "points_ok d (registerAnchorPoints g)" "points_ok d (externalAnchorPoints g)"
    using g by (simp_all add: kinds_ok_def)
  let ?lk0 = "map ?U [0..<?n]"
  have l0: "length ?lk0 = ?n" by simp
  obtain lk1 dd1 where 1: "MarkAnchoredChunks d g (staticAnchorPoints g) ?lk0 (IndexedDistances_new ?n) = Some (lk1, dd1)"
    "length lk1 = ?n" "distances_from d g dd1 (set (map fst (staticAnchorPoints g)))"
    "\<forall>i<?n. lk1 ! i \<longleftrightarrow> ?lk0 ! i \<and> anchor_distance ?E ?U (set (map fst (staticAnchorPoints g))) i = 0"
    using MarkAnchoredChunks_outcome [OF n e p(1) l0] unfolding distances_from_def by blast
  obtain lk2 dd2 where 2: "MarkAnchoredChunks d g (stackAnchorPoints g) lk1 (IndexedDistances_new ?n) = Some (lk2, dd2)"
    "length lk2 = ?n" "distances_from d g dd2 (set (map fst (stackAnchorPoints g)))"
    "\<forall>i<?n. lk2 ! i \<longleftrightarrow> lk1 ! i \<and> anchor_distance ?E ?U (set (map fst (stackAnchorPoints g))) i = 0"
    using MarkAnchoredChunks_outcome [OF n e p(2) 1(2)] unfolding distances_from_def by blast
  obtain lk3 dd3 where 3: "MarkAnchoredChunks d g (registerAnchorPoints g) lk2 (IndexedDistances_new ?n) = Some (lk3, dd3)"
    "length lk3 = ?n" "distances_from d g dd3 (set (map fst (registerAnchorPoints g)))"
    "\<forall>i<?n. lk3 ! i \<longleftrightarrow> lk2 ! i \<and> anchor_distance ?E ?U (set (map fst (registerAnchorPoints g))) i = 0"
    using MarkAnchoredChunks_outcome [OF n e p(3) 2(2)] unfolding distances_from_def by blast
  obtain lk4 dd4 where 4: "MarkAnchoredChunks d g (externalAnchorPoints g) lk3 (IndexedDistances_new ?n) = Some (lk4, dd4)"
    "length lk4 = ?n" "distances_from d g dd4 (set (map fst (externalAnchorPoints g)))"
    "\<forall>i<?n. lk4 ! i \<longleftrightarrow> lk3 ! i \<and> anchor_distance ?E ?U (set (map fst (externalAnchorPoints g))) i = 0"
    using MarkAnchoredChunks_outcome [OF n e p(4) 3(2)] unfolding distances_from_def by blast
  define g' where "g' = g\<lparr>leaked := lk4, staticAnchorDistances := dd1, stackAnchorDistances := dd2,
      registerAnchorDistances := dd3, externalAnchorDistances := dd4\<rparr>"
  have r: "MarkLeakedChunks d g = Some g'"
    using fresh 1(1) 2(1) 3(1) 4(1) by (simp add: MarkLeakedChunks_def fresh_distances_def e(2) g'_def)
  have edges: "graph_edges g' = graph_edges g" and pts: "anchor_point_set g' = anchor_point_set g"
    by (auto simp: g'_def GetOutgoing_def edge_range_def anchor_point_set_def fun_eq_iff)
  have "lk4 ! i \<longleftrightarrow> ?U i \<and> (\<forall>k. \<not> anchored ?E ?U (anchor_point_set g) k i)" if "i < ?n" for i
    using 1(4) 2(4) 3(4) 4(4) that unfolding anchor_distance_0 anchor_point_set_def anchored_union by auto
  moreover have "kinds_ok d g'"
  proof -
    have "edges_ok g' = edges_ok g" by (simp add: edges_ok_def g'_def)
    then show ?thesis using g by (simp add: kinds_ok_def g'_def)
  qed
  moreover have "leaked g' = lk4" "staticAnchorDistances g' = dd1" "stackAnchorDistances g' = dd2"
    "registerAnchorDistances g' = dd3" "externalAnchorDistances g' = dd4"
    "staticAnchorPoints g' = staticAnchorPoints g" "stackAnchorPoints g' = stackAnchorPoints g"
    "registerAnchorPoints g' = registerAnchorPoints g" "externalAnchorPoints g' = externalAnchorPoints g"
    by (simp_all add: g'_def)
  ultimately have "anchors_ok d g'"
    using 1(3) 2(3) 3(3) 4(2,3) unfolding anchors_ok_def distances_from_def edges pts by simp
  then show ?thesis using r g'_def by blast
qed

end
