(* ===== verification/Anchor_Points.thy ===== *)
theory Anchor_Points
  imports Anchor_Distances
begin

text \<open>
  The anchor points that the constructor of \<open>Graph\<close> (Allocations/Graph.h) finds in static memory, on the
  stacks, in the registers and by the external checker, and the constructor as a whole: an allocation is
  leaked exactly when it is used and no chain of references leads to it from any of them.
\<close>

section \<open>Ranges of memory\<close>

text \<open>The used allocation that the word at an address refers to.\<close>

definition anchor_target :: "VirtualAddressMap \<Rightarrow> Directory \<Rightarrow> obscured \<Rightarrow> addr \<Rightarrow> nat option" where
  "anchor_target m d obs a =
     (case read_spec m a 8 of
        Some bs \<Rightarrow> let t = EdgeTargetIndex d obs (of_nat (le_value bs)) in if is_used_target d t then Some t else None
      | None \<Rightarrow> None)"

text \<open>Noting where an allocation is referred to from: \<open>x\<close> refers to \<open>target x\<close> and is recorded as \<open>code x\<close>.\<close>

definition note_ref :: "('x \<Rightarrow> nat option) \<Rightarrow> ('x \<Rightarrow> addr) \<Rightarrow> 'x \<Rightarrow> (nat, addr list) std_map \<Rightarrow> (nat, addr list) std_map" where
  "note_ref target code x pts = (case target x of Some t \<Rightarrow> add_anchor t (code x) pts | None \<Rightarrow> pts)"

abbreviation note_anchor ::
  "VirtualAddressMap \<Rightarrow> Directory \<Rightarrow> obscured \<Rightarrow> addr \<Rightarrow> (nat, addr list) std_map \<Rightarrow> (nat, addr list) std_map" where
  "note_anchor m d obs \<equiv> note_ref (anchor_target m d obs) (\<lambda>a. a)"

lemma FindAnchorPoints_loop_outcome:
  assumes ok: "vam_ok m" and "reader_ok m rd" and l: "unat limit + 8 \<le> 2 ^ 64"
  shows "FindAnchorPoints_loop m d obs limit a rd pts = Some (fold (note_anchor m d obs) (word_addrs a limit) pts)"
  using assms(2)
proof (induction "unat limit - unat a" arbitrary: a rd pts rule: less_induct)
  case less
  show ?case
  proof (cases "a < limit")
    case False
    then show ?thesis by (subst FindAnchorPoints_loop.simps) (simp add: word_addrs_Nil)
  next
    case True
    note C = word_addrs_Cons [OF True l]
    have dec: "unat limit - unat (a + 8) < unat limit - unat a"
      using C(2) True by (simp add: word_less_nat_alt)
    obtain rd' r where r: "reader_read m rd a 8 = (rd', r)" by (meson surj_pair)
    note S = reader_read_spec [OF ok less.prems _ _ r, simplified]
    have "FindAnchorPoints_loop m d obs limit a rd pts =
        FindAnchorPoints_loop m d obs limit (a + 8) rd' (note_anchor m d obs a pts)"
      using True S(2)
      by (subst FindAnchorPoints_loop.simps)
        (auto simp: ReadOffset_def r note_ref_def anchor_target_def Let_def split: option.split)
    also have "\<dots> = Some (fold (note_anchor m d obs) (word_addrs (a + 8) limit) (note_anchor m d obs a pts))"
      by (rule less.hyps [OF dec S(1)])
    finally show ?thesis by (simp add: C(1))
  qed
qed

lemma FindAnchorPoints_outcome:
  assumes "vam_ok m" "unat limit + 8 \<le> 2 ^ 64"
  shows "FindAnchorPoints m d obs a limit pts = Some (fold (note_anchor m d obs) (word_addrs a limit) pts)"
  using FindAnchorPoints_loop_outcome [OF assms(1) reader_ok_new assms(2)] by (simp add: FindAnchorPoints_def)

text \<open>What a sequence of notes leaves in the map.\<close>

definition anchors_of :: "(nat, addr list) std_map \<Rightarrow> nat \<Rightarrow> addr list" where
  "anchors_of pts t = (case sm_find pts t of Some as \<Rightarrow> as | None \<Rightarrow> [])"

lemma keys_sm_assign: "set (map fst (sm_assign k v m)) = insert k (set (map fst m))"
  by (induction k v m rule: sm_assign.induct) auto

lemma points_ok_add:
  "points_ok d pts \<Longrightarrow> is_used_target d t \<Longrightarrow> points_ok d (add_anchor t a pts)"
  by (simp add: points_ok_def add_anchor_def keys_sm_assign del: set_map)

lemma anchors_of_add:
  "sm_sorted pts \<Longrightarrow> anchors_of (add_anchor t a pts) u = (if u = t then anchors_of pts t @ [a] else anchors_of pts u)"
  by (auto simp: anchors_of_def add_anchor_def)

lemma fold_note_ref:
  assumes "points_ok d pts" and used: "\<And>x t. target x = Some t \<Longrightarrow> is_used_target d t"
  shows "points_ok d (fold (note_ref target code) xs pts)"
    and "anchors_of (fold (note_ref target code) xs pts) t =
           anchors_of pts t @ map code (filter (\<lambda>x. target x = Some t) xs)"
    and "set (map fst (fold (note_ref target code) xs pts)) =
           set (map fst pts) \<union> {t. \<exists>x\<in>set xs. target x = Some t}"
proof -
  have "points_ok d (fold (note_ref target code) xs pts) \<and>
    anchors_of (fold (note_ref target code) xs pts) t =
           anchors_of pts t @ map code (filter (\<lambda>x. target x = Some t) xs) \<and>
    set (map fst (fold (note_ref target code) xs pts)) =
           set (map fst pts) \<union> {t. \<exists>x\<in>set xs. target x = Some t}"
    using assms(1)
  proof (induction xs arbitrary: pts)
    case (Cons x xs)
    have p: "points_ok d (note_ref target code x pts)"
      using Cons.prems used by (auto simp: note_ref_def points_ok_add split: option.split)
    have s: "sm_sorted pts" using Cons.prems by (simp add: points_ok_def)
    have k: "set (map fst (note_ref target code x pts)) = set (map fst pts) \<union> {t. target x = Some t}"
      by (auto simp: note_ref_def add_anchor_def keys_sm_assign simp del: set_map split: option.splits)
    have a: "anchors_of (note_ref target code x pts) t =
        anchors_of pts t @ (if target x = Some t then [code x] else [])"
      using s by (auto simp: note_ref_def anchors_of_add split: option.split)
    show ?case using Cons.IH [OF p] unfolding k a by (auto simp del: set_map)
  qed auto
  then show "points_ok d (fold (note_ref target code) xs pts)"
    "anchors_of (fold (note_ref target code) xs pts) t =
           anchors_of pts t @ map code (filter (\<lambda>x. target x = Some t) xs)"
    "set (map fst (fold (note_ref target code) xs pts)) =
           set (map fst pts) \<union> {t. \<exists>x\<in>set xs. target x = Some t}" by blast+
qed

lemma anchor_target_used: "anchor_target m d obs a = Some t \<Longrightarrow> is_used_target d t"
  by (auto simp: anchor_target_def Let_def split: option.splits if_splits)

lemmas fold_note_anchor =
  fold_note_ref [where target = "anchor_target m d obs" and code = "\<lambda>a. a" and d = d for m d obs,
    OF _ anchor_target_used, unfolded map_ident]

section \<open>The four kinds\<close>

definition static_addrs :: "(addr, addr) std_map \<Rightarrow> addr list" where
  "static_addrs lims = concat (map (\<lambda>(b, l). word_addrs b l) lims)"

definition stack_addrs :: "StackRegistry \<Rightarrow> addr list" where
  "stack_addrs sr = concat (map (\<lambda>(L, S, i).
     word_addrs (if stackTop (stackInfo sr ! i) \<noteq> STACK_TOP_UNKNOWN then stackTop (stackInfo sr ! i) else L - S) L)
     (rm_map (stacks sr)))"

lemma FindStaticAnchorPoints_outcome:
  assumes "vam_ok m" "\<forall>(b, l)\<in>set lims. unat l + 8 \<le> 2 ^ 64"
  shows "FindStaticAnchorPoints m d obs lims pts = Some (fold (note_anchor m d obs) (static_addrs lims) pts)"
  using assms(2)
proof (induction lims arbitrary: pts)
  case (Cons bl lims)
  obtain b l where bl: "bl = (b, l)" by (cases bl)
  then have "unat l + 8 \<le> 2 ^ 64" using Cons.prems by simp
  then show ?case using Cons bl FindAnchorPoints_outcome [OF assms(1)] by (simp add: static_addrs_def)
qed (simp add: static_addrs_def)

lemma FindStackAnchorPoints_outcome:
  assumes ok: "vam_ok m" and l: "\<forall>(L, S, i)\<in>set (rm_map (stacks sr)). unat L + 8 \<le> 2 ^ 64"
  shows "FindStackAnchorPoints m d obs sr pts = Some (fold (note_anchor m d obs) (stack_addrs sr) pts)"
proof -
  let ?v = "\<lambda>regionBase regionLimit info st.
          (True, case st of None \<Rightarrow> None
                 | Some p \<Rightarrow> FindAnchorPoints m d obs
                     (if stackTop info \<noteq> STACK_TOP_UNKNOWN then stackTop info else regionBase) regionLimit p)"
  let ?as = "\<lambda>es. concat (map (\<lambda>(L, S, i). word_addrs
     (if stackTop (stackInfo sr ! i) \<noteq> STACK_TOP_UNKNOWN then stackTop (stackInfo sr ! i) else L - S) L) es)"
  have "VisitStacks_loop (stackInfo sr) ?v es (Some pts) = Some (fold (note_anchor m d obs) (?as es) pts)"
    if "\<forall>(L, S, i)\<in>set es. unat L + 8 \<le> 2 ^ 64" for es
    using that
  proof (induction es arbitrary: pts)
    case (Cons e es)
    obtain L S i where e: "e = (L, S, i)" by (cases e)
    then have "unat L + 8 \<le> 2 ^ 64" using Cons.prems by simp
    note F = FindAnchorPoints_outcome [OF ok this]
    show ?case using Cons.prems Cons.IH by (simp only: e VisitStacks_loop.simps prod.case bool.case option.case F) simp
  qed simp
  from this [OF l] show ?thesis by (simp add: FindStackAnchorPoints_def VisitStacks_def stack_addrs_def)
qed

text \<open>A register is recorded by the number of its thread and its own.\<close>

definition register_words :: "ThreadMap \<Rightarrow> (nat \<times> addr) list" where
  "register_words tm = concat (map (\<lambda>th.
     map (\<lambda>i. (threadNum th * numRegisters tm + i, registers th ! i)) [0..<numRegisters tm]) (threads tm))"

definition register_target :: "Directory \<Rightarrow> nat \<times> addr \<Rightarrow> nat option" where
  "register_target d = (\<lambda>(c, w).
     if w \<noteq> 0 \<and> w AND (sizeof_Offset - 1) = 0 \<and> is_used_target d (AllocationIndexOf d w)
     then Some (AllocationIndexOf d w) else None)"

abbreviation note_register :: "Directory \<Rightarrow> nat \<times> addr \<Rightarrow> (nat, addr list) std_map \<Rightarrow> (nat, addr list) std_map" where
  "note_register d \<equiv> note_ref (register_target d) (\<lambda>x. of_nat (fst x))"

lemma register_loop_outcome:
  assumes "\<forall>i\<in>set is. i < length regs"
  shows "register_loop d n num regs is pts =
    Some (fold (note_register d) (map (\<lambda>i. (num * n + i, regs ! i)) is) pts)"
  using assms
proof (induction "is" arbitrary: pts)
  case (Cons i js)
  have "(if regs ! i \<noteq> 0 \<and> regs ! i AND (sizeof_Offset - 1) = 0 then
           let t = AllocationIndexOf d (regs ! i) in
           if is_used_target d t then add_anchor t (of_nat (num * n + i)) pts else pts
         else pts) = note_register d (num * n + i, regs ! i) pts"
    by (simp add: note_ref_def register_target_def Let_def)
  then show ?case using Cons by (simp only: register_loop.simps Let_def) simp
qed simp

lemma FindRegisterAnchorPoints_outcome:
  assumes "\<forall>th\<in>set (threads tm). numRegisters tm \<le> length (registers th)"
  shows "FindRegisterAnchorPoints d tm pts = Some (fold (note_register d) (register_words tm) pts)"
proof -
  have "thread_loop d n ths pts = Some (fold (note_register d) (concat (map (\<lambda>th.
     map (\<lambda>i. (threadNum th * n + i, registers th ! i)) [0..<n]) ths)) pts)"
    if "\<forall>th\<in>set ths. n \<le> length (registers th)" for ths n
    using that
  proof (induction ths arbitrary: pts)
    case (Cons th ths)
    then have "\<forall>i\<in>set [0..<n]. i < length (registers th)" by auto
    from register_loop_outcome [OF this] show ?case using Cons by (simp del: set_upt)
  qed simp
  from this [OF assms] show ?thesis by (simp add: FindRegisterAnchorPoints_def register_words_def)
qed

lemma register_target_used: "register_target d x = Some t \<Longrightarrow> is_used_target d t"
  by (auto simp: register_target_def split: prod.splits if_splits)

lemmas fold_note_register =
  fold_note_ref [where target = "register_target d" and code = "\<lambda>x. of_nat (fst x)" and d = d for d,
    OF _ register_target_used]

text \<open>What the external checker says of the allocations, each seen through an image that shows it.\<close>

definition external_points_ok ::
  "VirtualAddressMap \<Rightarrow> Directory \<Rightarrow> external \<Rightarrow> (nat, string) std_map \<Rightarrow> bool" where
  "external_points_ok m d ext pts \<longleftrightarrow>
     (case ext of
        None \<Rightarrow> pts = []
      | Some check \<Rightarrow> \<forall>i<NumAllocations d. is_used_target d i \<longrightarrow>
          (\<exists>ci. image_ok m d ci \<and> ci_index ci = i \<and> check i ci = sm_find pts i))"

lemma external_loop_outcome:
  assumes ok: "vam_ok m" "dir_sized d" and "image_ok m d ci" "points_ok d pts" "distinct is"
    and "\<forall>i\<in>set is. i < NumAllocations d" "\<forall>i\<in>set is. sm_find pts i = None"
  shows "\<exists>pts'. external_loop m d check is ci pts = Some pts' \<and> points_ok d pts' \<and>
           (\<forall>i. i \<notin> set is \<longrightarrow> sm_find pts' i = sm_find pts i) \<and>
           (\<forall>i\<in>set is. is_used_target d i \<longrightarrow> (\<exists>ci. image_ok m d ci \<and> ci_index ci = i \<and> check i ci = sm_find pts' i))"
  using assms(3-7)
proof (induction "is" arbitrary: ci pts)
  case (Cons i js)
  show ?case
  proof (cases "is_used_target d i")
    case False
    then show ?thesis using Cons.IH [OF Cons.prems(1,2)] Cons.prems(3-5) by auto
  next
    case True
    obtain ci1 where ci1: "SetIndex m d i ci = Some ci1" "image_ok m d ci1" "ci_index ci1 = i"
      using SetIndex_outcome [OF ok(1) Cons.prems(1) ok(2), of i] Cons.prems(4) by (auto simp: min_def)
    define pts1 where "pts1 = (case check i ci1 of Some reason \<Rightarrow> sm_assign i reason pts | None \<Rightarrow> pts)"
    have s: "sm_sorted pts" using Cons.prems(2) by (simp add: points_ok_def)
    have p1: "points_ok d pts1"
      using Cons.prems(2) True by (auto simp: pts1_def points_ok_def keys_sm_assign simp del: set_map split: option.split)
    have f1: "sm_find pts1 k = (if k = i then check i ci1 else sm_find pts k)" for k
      using s Cons.prems(5) by (auto simp: pts1_def split: option.split)
    have "\<forall>k\<in>set js. sm_find pts1 k = None" using f1 Cons.prems(3,5) by auto
    then obtain pts' where pts': "external_loop m d check js ci1 pts1 = Some pts'" "points_ok d pts'"
      "\<forall>k. k \<notin> set js \<longrightarrow> sm_find pts' k = sm_find pts1 k"
      "\<forall>k\<in>set js. is_used_target d k \<longrightarrow> (\<exists>ci. image_ok m d ci \<and> ci_index ci = k \<and> check k ci = sm_find pts' k)"
      using Cons.IH [OF ci1(2) p1] Cons.prems(3,4) by auto
    have "check i ci1 = sm_find pts' i" using pts'(3) f1 Cons.prems(3) by simp
    then have "\<exists>ci. image_ok m d ci \<and> ci_index ci = i \<and> check i ci = sm_find pts' i"
      using ci1 by blast
    moreover have "external_loop m d check (i # js) ci pts = Some pts'"
      using True ci1(1) pts'(1) by (simp add: pts1_def)
    moreover have "\<forall>k. k \<notin> set (i # js) \<longrightarrow> sm_find pts' k = sm_find pts k" using pts'(3) f1 by simp
    ultimately show ?thesis using pts'(2,4) by auto
  qed
qed auto

lemma FindExternalAnchorPoints_outcome:
  assumes ok: "vam_ok m" "dir_sized d" "unat (MaxAllocationSize d) + 16 < 2 ^ 64"
  shows "\<exists>pts. FindExternalAnchorPoints m d ext [] = Some pts \<and> points_ok d pts \<and> external_points_ok m d ext pts"
proof (cases ext)
  case None
  then show ?thesis by (simp add: FindExternalAnchorPoints_def points_ok_def external_points_ok_def)
next
  case (Some check)
  have p: "points_ok d ([] :: (nat, string) std_map)" by (simp add: points_ok_def)
  have ks: "distinct [0..<NumAllocations d]" "\<forall>i\<in>set [0..<NumAllocations d]. i < NumAllocations d" by simp_all
  show ?thesis
    using external_loop_outcome [OF ok(1,2) image_ok_new [OF ok(3)] p ks, of check] Some
    by (auto simp: FindExternalAnchorPoints_def external_points_ok_def)
qed

section \<open>The constructor\<close>

text \<open>The inputs of the constructor: every range of memory ends before the last word of the address space.\<close>

definition inputs_ok ::
  "VirtualAddressMap \<Rightarrow> Directory \<Rightarrow> ThreadMap \<Rightarrow> StackRegistry \<Rightarrow> (addr, addr) std_map \<Rightarrow> obscured \<Rightarrow> bool" where
  "inputs_ok m d tm sr lims obs \<longleftrightarrow>
     vam_ok m \<and> (\<exists>cur. dir_ok cur d) \<and> dir_sized d \<and> obs_ok d obs \<and> unat (MaxAllocationSize d) + 16 < 2 ^ 64 \<and>
     NumAllocations d < 2 ^ 32 \<and>
     (\<forall>(b, l)\<in>set lims. unat l + 8 \<le> 2 ^ 64) \<and>
     (\<forall>(L, S, i)\<in>set (rm_map (stacks sr)). unat L + 8 \<le> 2 ^ 64) \<and>
     (\<forall>th\<in>set (threads tm). numRegisters tm \<le> length (registers th))"

text \<open>The anchor points of a graph are those of the process.\<close>

definition points_of_process ::
  "VirtualAddressMap \<Rightarrow> Directory \<Rightarrow> ThreadMap \<Rightarrow> StackRegistry \<Rightarrow> (addr, addr) std_map \<Rightarrow> external \<Rightarrow> obscured
   \<Rightarrow> Graph \<Rightarrow> bool" where
  "points_of_process m d tm sr lims ext obs g \<longleftrightarrow>
     (\<forall>t. anchors_of (staticAnchorPoints g) t = filter (\<lambda>a. anchor_target m d obs a = Some t) (static_addrs lims)) \<and>
     (\<forall>t. anchors_of (stackAnchorPoints g) t = filter (\<lambda>a. anchor_target m d obs a = Some t) (stack_addrs sr)) \<and>
     (\<forall>t. anchors_of (registerAnchorPoints g) t =
        map (\<lambda>x. of_nat (fst x)) (filter (\<lambda>x. register_target d x = Some t) (register_words tm))) \<and>
     external_points_ok m d ext (externalAnchorPoints g) \<and>
     set (map fst (staticAnchorPoints g)) = {t. \<exists>a\<in>set (static_addrs lims). anchor_target m d obs a = Some t} \<and>
     set (map fst (stackAnchorPoints g)) = {t. \<exists>a\<in>set (stack_addrs sr). anchor_target m d obs a = Some t} \<and>
     set (map fst (registerAnchorPoints g)) = {t. \<exists>x\<in>set (register_words tm). register_target d x = Some t}"

lemma Graph_new_outcome:
  assumes inp: "inputs_ok m d tm sr lims obs"
  shows "\<exists>g. Graph_new m d tm sr lims ext obs = Some g \<and> anchors_ok d g \<and>
           points_of_process m d tm sr lims ext obs g \<and>
           (\<forall>s<NumAllocations d. graph_edges g s = edge_set m d obs s)"
proof -
  obtain cur where ok: "vam_ok m" "dir_ok cur d" "dir_sized d" "obs_ok d obs" "unat (MaxAllocationSize d) + 16 < 2 ^ 64"
    and n: "NumAllocations d < 2 ^ 32" and l: "\<forall>(b, l)\<in>set lims. unat l + 8 \<le> 2 ^ 64"
      "\<forall>(L, S, i)\<in>set (rm_map (stacks sr)). unat L + 8 \<le> 2 ^ 64"
      "\<forall>th\<in>set (threads tm). numRegisters tm \<le> length (registers th)"
    using inp unfolding inputs_ok_def by blast
  obtain g where g: "FindEdges m d obs (Graph_init d) = Some g" "edges_ok g" "anchor_part g = anchor_part (Graph_init d)"
    "\<forall>s<NumAllocations d. slice (firstOutgoing g) (outgoing g) s = succs m d obs s"
    using FindEdges_outcome [OF ok] by blast
  have g0: "g_numAllocations g = NumAllocations d" "staticAnchorPoints g = []" "stackAnchorPoints g = []"
    "registerAnchorPoints g = []" "externalAnchorPoints g = []" "fresh_distances d g"
    using g(3) by (simp_all add: anchor_part_def Graph_init_def fresh_distances_def)
  have e: "points_ok d ([] :: (nat, addr list) std_map)" "anchors_of [] t = []" for t
    by (simp_all add: points_ok_def anchors_of_def)
  define p1 where "p1 = fold (note_anchor m d obs) (static_addrs lims) []"
  define p2 where "p2 = fold (note_anchor m d obs) (stack_addrs sr) []"
  define p3 where "p3 = fold (note_register d) (register_words tm) []"
  note f1 = FindStaticAnchorPoints_outcome [OF ok(1) l(1), of d obs "[]", folded p1_def]
  note f2 = FindStackAnchorPoints_outcome [OF ok(1) l(2), of d obs "[]", folded p2_def]
  note f3 = FindRegisterAnchorPoints_outcome [OF l(3), of d "[]", folded p3_def]
  obtain p4 where f4: "FindExternalAnchorPoints m d ext [] = Some p4" "points_ok d p4" "external_points_ok m d ext p4"
    using FindExternalAnchorPoints_outcome [OF ok(1,3,5)] by blast
  note P1 = fold_note_anchor [OF e(1), where m = m and obs = obs and xs = "static_addrs lims", folded p1_def, unfolded e(2)]
  note P2 = fold_note_anchor [OF e(1), where m = m and obs = obs and xs = "stack_addrs sr", folded p2_def, unfolded e(2)]
  note P3 = fold_note_register [OF e(1), where xs = "register_words tm", folded p3_def, unfolded e(2)]
  let ?g = "g\<lparr>staticAnchorPoints := p1, stackAnchorPoints := p2, registerAnchorPoints := p3, externalAnchorPoints := p4\<rparr>"
  have "edges_ok ?g = edges_ok g" by (simp add: edges_ok_def)
  then have k: "kinds_ok d ?g" using g(2) g0(1) P1(1) P2(1) P3(1) f4(2) by (simp add: kinds_ok_def)
  have fr: "fresh_distances d ?g" using g0(6) by (simp add: fresh_distances_def)
  obtain g' lk a b c x where g': "MarkLeakedChunks d ?g = Some g'" "anchors_ok d g'"
    "g' = ?g\<lparr>leaked := lk, staticAnchorDistances := a, stackAnchorDistances := b,
             registerAnchorDistances := c, externalAnchorDistances := x\<rparr>"
    using MarkLeakedChunks_outcome [OF n k fr] by blast
  have "Graph_new m d tm sr lims ext obs = Some g'"
    using g(1) f1 f2 f3 f4(1) g'(1) by (simp add: Graph_new_def g0(2-5))
  moreover have "points_of_process m d tm sr lims ext obs g'"
    unfolding points_of_process_def using P1(2,3) P2(2,3) P3(2,3) f4(3) by (simp add: g'(3) del: set_map)
  moreover have "graph_edges g' s = edge_set m d obs s" if "s < NumAllocations d" for s
    using g(4) that g0(1) edges_in_GetOutgoing(1) [of s g]
    by (simp add: g'(3) GetOutgoing_def edge_range_def slice_row)
  ultimately show ?thesis using g'(2) by blast
qed

end
