(* ===== verification/Graph_Queries.thy ===== *)
theory Graph_Queries
  imports Anchor_Points
begin

text \<open>
  The queries of the class \<open>Allocations::Graph\<close> (Allocations/Graph.h) on anchors and leaks, and the
  search for the chains of references that anchor an allocation.
\<close>

section \<open>Queries\<close>

definition IsLeaked :: "Graph \<Rightarrow> nat \<Rightarrow> bool" where
  "IsLeaked g i \<longleftrightarrow> i < g_numAllocations g \<and> leaked g ! i"

definition IsAnchored :: "Graph \<Rightarrow> Directory \<Rightarrow> nat \<Rightarrow> bool" where
  "IsAnchored g d i \<longleftrightarrow> i < g_numAllocations g \<and> is_used_target d i \<and> \<not> leaked g ! i"

text \<open>The comparisons of a distance, which is read in range.\<close>

definition distance_is :: "IndexedDistances \<Rightarrow> nat \<Rightarrow> (nat \<Rightarrow> bool) \<Rightarrow> bool" where
  "distance_is dd i P = (case GetDistance dd i of Some x \<Rightarrow> P x | None \<Rightarrow> False)"

definition IsAnchorPoint :: "Graph \<Rightarrow> nat \<Rightarrow> bool" where
  "IsAnchorPoint g i \<longleftrightarrow> i < g_numAllocations g \<and>
     (distance_is (staticAnchorDistances g) i (\<lambda>x. x = 1) \<or> distance_is (stackAnchorDistances g) i (\<lambda>x. x = 1) \<or>
      distance_is (registerAnchorDistances g) i (\<lambda>x. x = 1) \<or> distance_is (externalAnchorDistances g) i (\<lambda>x. x = 1))"

definition IsStaticAnchored :: "Graph \<Rightarrow> nat \<Rightarrow> bool" where
  "IsStaticAnchored g i \<longleftrightarrow> i < g_numAllocations g \<and> distance_is (staticAnchorDistances g) i (\<lambda>x. x > 0)"

definition IsStaticAnchorPoint :: "Graph \<Rightarrow> nat \<Rightarrow> bool" where
  "IsStaticAnchorPoint g i \<longleftrightarrow> i < g_numAllocations g \<and> distance_is (staticAnchorDistances g) i (\<lambda>x. x = 1)"

definition GetStaticAnchors :: "Graph \<Rightarrow> nat \<Rightarrow> addr list option" where
  "GetStaticAnchors g i =
     (if i < g_numAllocations g \<and> distance_is (staticAnchorDistances g) i (\<lambda>x. x = 1)
      then sm_find (staticAnchorPoints g) i else None)"

definition IsStackAnchored :: "Graph \<Rightarrow> nat \<Rightarrow> bool" where
  "IsStackAnchored g i \<longleftrightarrow> i < g_numAllocations g \<and> distance_is (stackAnchorDistances g) i (\<lambda>x. x > 0)"

definition IsStackAnchorPoint :: "Graph \<Rightarrow> nat \<Rightarrow> bool" where
  "IsStackAnchorPoint g i \<longleftrightarrow> i < g_numAllocations g \<and> distance_is (stackAnchorDistances g) i (\<lambda>x. x = 1)"

definition GetStackAnchors :: "Graph \<Rightarrow> nat \<Rightarrow> addr list option" where
  "GetStackAnchors g i =
     (if i < g_numAllocations g \<and> distance_is (stackAnchorDistances g) i (\<lambda>x. x = 1)
      then sm_find (stackAnchorPoints g) i else None)"

definition IsRegisterAnchored :: "Graph \<Rightarrow> nat \<Rightarrow> bool" where
  "IsRegisterAnchored g i \<longleftrightarrow> i < g_numAllocations g \<and> distance_is (registerAnchorDistances g) i (\<lambda>x. x > 0)"

definition IsRegisterAnchorPoint :: "Graph \<Rightarrow> nat \<Rightarrow> bool" where
  "IsRegisterAnchorPoint g i \<longleftrightarrow> i < g_numAllocations g \<and> distance_is (registerAnchorDistances g) i (\<lambda>x. x = 1)"

text \<open>The thread and the name of a recorded register.\<close>

definition decode_register :: "ThreadMap \<Rightarrow> addr \<Rightarrow> nat \<times> string" where
  "decode_register tm anchor = (unat anchor div numRegisters tm, GetRegisterName tm (unat anchor mod numRegisters tm))"

text \<open>
  \<open>GetRegisterAnchors\<close> takes its result parameter by value: what it collects, the second component
  here, is lost, and the caller's vector, the first component, stays as it was.
\<close>

definition GetRegisterAnchors ::
  "Graph \<Rightarrow> ThreadMap \<Rightarrow> nat \<Rightarrow> (nat \<times> string) list \<Rightarrow> (nat \<times> string) list \<times> (nat \<times> string) list" where
  "GetRegisterAnchors g tm i anchors =
     (anchors,
      if i < g_numAllocations g \<and> distance_is (registerAnchorDistances g) i (\<lambda>x. x = 1) then
        (case sm_find (registerAnchorPoints g) i of
           Some encodedAnchors \<Rightarrow> map (decode_register tm) encodedAnchors
         | None \<Rightarrow> [])
      else [])"

definition IsExternalAnchored :: "Graph \<Rightarrow> nat \<Rightarrow> bool" where
  "IsExternalAnchored g i \<longleftrightarrow> i < g_numAllocations g \<and> distance_is (externalAnchorDistances g) i (\<lambda>x. x > 0)"

definition IsExternalAnchorPoint :: "Graph \<Rightarrow> nat \<Rightarrow> bool" where
  "IsExternalAnchorPoint g i \<longleftrightarrow> i < g_numAllocations g \<and> distance_is (externalAnchorDistances g) i (\<lambda>x. x = 1)"

definition IsThreadOnlyAnchored :: "Graph \<Rightarrow> nat \<Rightarrow> bool" where
  "IsThreadOnlyAnchored g i \<longleftrightarrow> i < g_numAllocations g \<and>
     (distance_is (registerAnchorDistances g) i (\<lambda>x. x > 0) \<or> distance_is (stackAnchorDistances g) i (\<lambda>x. x > 0)) \<and>
     distance_is (staticAnchorDistances g) i (\<lambda>x. x = 0) \<and> distance_is (externalAnchorDistances g) i (\<lambda>x. x = 0)"

definition IsThreadOnlyAnchorPoint :: "Graph \<Rightarrow> nat \<Rightarrow> bool" where
  "IsThreadOnlyAnchorPoint g i \<longleftrightarrow> i < g_numAllocations g \<and>
     (distance_is (registerAnchorDistances g) i (\<lambda>x. x = 1) \<or> distance_is (stackAnchorDistances g) i (\<lambda>x. x = 1)) \<and>
     distance_is (staticAnchorDistances g) i (\<lambda>x. x = 0) \<and> distance_is (externalAnchorDistances g) i (\<lambda>x. x = 0)"

definition IsUnreferenced :: "Graph \<Rightarrow> Directory \<Rightarrow> nat \<Rightarrow> bool" where
  "IsUnreferenced g d i \<longleftrightarrow> i < g_numAllocations g \<and> leaked g ! i \<and>
     (\<forall>s\<in>set (edges_in (incoming g) (firstIncoming g ! i, firstIncoming g ! (i + 1))). \<not> is_used_target d s)"

section \<open>Anchor chains\<close>

text \<open>
  A visitor is two state transformers that say whether to stop: one for the header of a chain, which is
  given what the anchor point is, and one for a link.
\<close>

type_synonym 's header_visitor = "nat \<Rightarrow> addr \<Rightarrow> addr \<Rightarrow> addr \<Rightarrow> 's \<Rightarrow> bool \<times> 's"
type_synonym 's link_visitor = "addr \<Rightarrow> addr \<Rightarrow> addr \<Rightarrow> 's \<Rightarrow> bool \<times> 's"

definition CallAnchorChainVisitor ::
  "VirtualAddressMap \<Rightarrow> Directory \<Rightarrow> 's header_visitor \<Rightarrow> nat \<Rightarrow> 's \<Rightarrow> bool \<times> 's" where
  "CallAnchorChainVisitor m d header i st =
     (case AllocationAt d i of
        None \<Rightarrow> (False, st)
      | Some al \<Rightarrow>
          if \<not> al_IsUsed al then (False, st)
          else (case FindMappedMemoryImage m (al_Address al) of
                  (numBytesFound, Some img) \<Rightarrow>
                    if numBytesFound < sizeof_Offset then (False, st)
                    else header i (al_Address al) (al_Size al) img st
                | (numBytesFound, None) \<Rightarrow> (False, st)))"

text \<open>The loop over the links, from the back of \<open>edgesToVisit\<close>, which is the head of the list.\<close>

fun visit_links ::
  "VirtualAddressMap \<Rightarrow> Directory \<Rightarrow> 's link_visitor \<Rightarrow> (nat \<times> int) list \<Rightarrow> 's \<Rightarrow> bool \<times> 's" where
  "visit_links m d link [] st = (False, st)"
| "visit_links m d link ((i, e) # rest) st =
     (case AllocationAt d i of
        None \<Rightarrow> (False, st)
      | Some al \<Rightarrow>
          if \<not> al_IsUsed al then (False, st)
          else (case FindMappedMemoryImage m (al_Address al) of
                  (numBytesFound, Some img) \<Rightarrow>
                    if numBytesFound < sizeof_Offset then (False, st)
                    else (case link (al_Address al) (al_Size al) img st of
                            (True, st') \<Rightarrow> (True, st')
                          | (False, st') \<Rightarrow> visit_links m d link rest st')
                | (numBytesFound, None) \<Rightarrow> (False, st)))"

text \<open>
  Whether the search follows an edge: the source is anchored and not further from the anchors than the
  target, except that equal distances of 255 are followed.
\<close>

definition follows :: "nat \<Rightarrow> nat \<Rightarrow> bool" where
  "follows sourceDistance targetDistance \<longleftrightarrow>
     \<not> (sourceDistance = 0 \<or> sourceDistance > targetDistance \<or>
        (sourceDistance = targetDistance \<and> targetDistance \<noteq> 0xFF))"

text \<open>
  The depth-first search.  An edge index is kept one below the next edge to look at, as the code keeps
  it; -1 stands for the value that the code wraps around to and increments before it is used.
\<close>

definition stack_measure :: "Graph \<Rightarrow> (nat \<times> int) list \<Rightarrow> nat" where
  "stack_measure g es = sum_list (map (\<lambda>(i, e). Suc (nat (int (firstIncoming g ! (i + 1)) - e))) es)"

function chain_loop ::
  "VirtualAddressMap \<Rightarrow> Directory \<Rightarrow> Graph \<Rightarrow> IndexedDistances \<Rightarrow> 's header_visitor \<Rightarrow> 's link_visitor
   \<Rightarrow> bool list \<Rightarrow> (nat \<times> int) list \<Rightarrow> 's \<Rightarrow> (bool \<times> 's) option" where
  "chain_loop m d g dd header link vis [] st = Some (False, st)"
| "chain_loop m d g dd header link vis ((target, e) # rest) st =
     (let edge = e + 1 in
      if edge \<ge> int (firstIncoming g ! (target + 1)) then chain_loop m d g dd header link vis rest st
      else
        let source = incoming g ! nat edge; es = (target, edge) # rest in
        if \<not> source < length vis then None
        else if vis ! source then chain_loop m d g dd header link vis es st
        else
          let vis' = vis[source := True] in
          if \<not> is_used_target d source then chain_loop m d g dd header link vis' es st
          else
            (case (GetDistance dd source, GetDistance dd target) of
               (Some sourceDistance, Some targetDistance) \<Rightarrow>
                 if \<not> follows sourceDistance targetDistance then chain_loop m d g dd header link vis' es st
                 else if sourceDistance = 1 then
                   (case CallAnchorChainVisitor m d header source st of
                      (True, st') \<Rightarrow> Some (True, st')
                    | (False, st') \<Rightarrow>
                        (case visit_links m d link es st' of
                           (True, st'') \<Rightarrow> Some (True, st'')
                         | (False, st'') \<Rightarrow>
                             chain_loop m d g dd header link vis'
                               ((source, int (firstIncoming g ! source) - 1) # es) st''))
                 else
                   chain_loop m d g dd header link vis' ((source, int (firstIncoming g ! source) - 1) # es) st
             | _ \<Rightarrow> None))"
  by pat_completeness auto

termination
proof (relation "measures [\<lambda>(m, d, g, dd, header, link, vis, es, st). length (filter Not vis),
    \<lambda>(m, d, g, dd, header, link, vis, es, st). stack_measure g es]", goal_cases)
  case (3 m d g dd header link vis target e rest st x xa xb)
  then show ?case by (simp add: stack_measure_def)
qed (auto simp: stack_measure_def dest!: filter_Not_update)

declare chain_loop.simps [simp del]

definition VisitAnchorChains ::
  "VirtualAddressMap \<Rightarrow> Directory \<Rightarrow> Graph \<Rightarrow> nat \<Rightarrow> 's link_visitor \<Rightarrow> IndexedDistances \<Rightarrow> 's header_visitor
   \<Rightarrow> 's \<Rightarrow> (bool \<times> 's) option" where
  "VisitAnchorChains m d g i link dd header st =
     (if i \<ge> g_numAllocations g \<or> leaked g ! i then Some (False, st)
      else
        (case GetDistance dd i of
           None \<Rightarrow> None
         | Some distance \<Rightarrow>
             if distance = 0 \<or> \<not> is_used_target d i then Some (False, st)
             else
               (case (if distance = 1 then CallAnchorChainVisitor m d header i st else (False, st)) of
                  (True, st') \<Rightarrow> Some (True, st')
                | (False, st') \<Rightarrow>
                    if firstIncoming g ! i \<noteq> firstIncoming g ! (i + 1) then
                      chain_loop m d g dd header link
                        ((map (\<lambda>j. \<not> is_used_target d j) [0..<g_numAllocations g])[i := True])
                        [(i, int (firstIncoming g ! i) - 1)] st'
                    else Some (False, st'))))"

text \<open>The three kinds of chains that \<open>AnchorChainVisitor\<close> has a header for.\<close>

record 's AnchorChainVisitor =
  VisitStaticAnchorChainHeader :: "addr list \<Rightarrow> addr \<Rightarrow> addr \<Rightarrow> addr \<Rightarrow> 's \<Rightarrow> bool \<times> 's"
  VisitStackAnchorChainHeader :: "addr list \<Rightarrow> addr \<Rightarrow> addr \<Rightarrow> addr \<Rightarrow> 's \<Rightarrow> bool \<times> 's"
  VisitRegisterAnchorChainHeader :: "(nat \<times> string) list \<Rightarrow> addr \<Rightarrow> addr \<Rightarrow> addr \<Rightarrow> 's \<Rightarrow> bool \<times> 's"
  VisitChainLink :: "'s link_visitor"

definition VisitStaticAnchorPoint :: "Graph \<Rightarrow> 's AnchorChainVisitor \<Rightarrow> 's header_visitor" where
  "VisitStaticAnchorPoint g visitor i address sz img st =
     (if i < g_numAllocations g \<and> distance_is (staticAnchorDistances g) i (\<lambda>x. x = 1) then
        (case sm_find (staticAnchorPoints g) i of
           Some as \<Rightarrow> VisitStaticAnchorChainHeader visitor as address sz img st
         | None \<Rightarrow> (False, st))
      else (False, st))"

definition VisitStackAnchorPoint :: "Graph \<Rightarrow> 's AnchorChainVisitor \<Rightarrow> 's header_visitor" where
  "VisitStackAnchorPoint g visitor i address sz img st =
     (if i < g_numAllocations g \<and> distance_is (stackAnchorDistances g) i (\<lambda>x. x = 1) then
        (case sm_find (stackAnchorPoints g) i of
           Some as \<Rightarrow> VisitStackAnchorChainHeader visitor as address sz img st
         | None \<Rightarrow> (False, st))
      else (False, st))"

definition VisitRegisterAnchorPoint :: "Graph \<Rightarrow> ThreadMap \<Rightarrow> 's AnchorChainVisitor \<Rightarrow> 's header_visitor" where
  "VisitRegisterAnchorPoint g tm visitor i address sz img st =
     (if i < g_numAllocations g \<and> distance_is (registerAnchorDistances g) i (\<lambda>x. x = 1) then
        (case sm_find (registerAnchorPoints g) i of
           Some encodedAnchors \<Rightarrow>
             VisitRegisterAnchorChainHeader visitor (map (decode_register tm) encodedAnchors) address sz img st
         | None \<Rightarrow> (False, st))
      else (False, st))"

definition VisitStaticAnchorChains ::
  "VirtualAddressMap \<Rightarrow> Directory \<Rightarrow> Graph \<Rightarrow> nat \<Rightarrow> 's AnchorChainVisitor \<Rightarrow> 's \<Rightarrow> (bool \<times> 's) option" where
  "VisitStaticAnchorChains m d g i visitor =
     VisitAnchorChains m d g i (VisitChainLink visitor) (staticAnchorDistances g) (VisitStaticAnchorPoint g visitor)"

definition VisitStackAnchorChains ::
  "VirtualAddressMap \<Rightarrow> Directory \<Rightarrow> Graph \<Rightarrow> nat \<Rightarrow> 's AnchorChainVisitor \<Rightarrow> 's \<Rightarrow> (bool \<times> 's) option" where
  "VisitStackAnchorChains m d g i visitor =
     VisitAnchorChains m d g i (VisitChainLink visitor) (stackAnchorDistances g) (VisitStackAnchorPoint g visitor)"

definition VisitRegisterAnchorChains ::
  "VirtualAddressMap \<Rightarrow> Directory \<Rightarrow> Graph \<Rightarrow> ThreadMap \<Rightarrow> nat \<Rightarrow> 's AnchorChainVisitor \<Rightarrow> 's \<Rightarrow> (bool \<times> 's) option" where
  "VisitRegisterAnchorChains m d g tm i visitor =
     VisitAnchorChains m d g i (VisitChainLink visitor) (registerAnchorDistances g) (VisitRegisterAnchorPoint g tm visitor)"

end
