(* ===== verification/Anchor_Chains.thy ===== *)
theory Anchor_Chains
  imports Graph_Queries
begin

text \<open>
  The queries of \<open>Graph\<close> (Allocations/Graph.h) say what the references of the process say, and the search
  for anchor chains lists chains of references only, and one at least for every anchored allocation.
\<close>

section \<open>Distances\<close>

lemma GetDistance_Some: "distances_ok dd \<Longrightarrow> i < numIndices dd \<Longrightarrow> GetDistance dd i = Some (ds.dist_at dd i)"
  by (auto simp: ds.dist_at_def GetDistance_def distances_ok_def)

lemma distances_from_get:
  assumes "distances_from d g dd A" "i < NumAllocations d"
  shows "GetDistance dd i = Some (anchor_distance (graph_edges g) (is_used_target d) A i)"
  using assms GetDistance_Some [of dd i] by (simp add: distances_from_def)

lemma distance_is_dist_at:
  assumes "distances_from d g dd A" "i < NumAllocations d"
  shows "distance_is dd i P = P (anchor_distance (graph_edges g) (is_used_target d) A i)"
  using distances_from_get [OF assms] by (simp add: distance_is_def)

lemma anchor_distance_1: "anchor_distance E U A i = 1 \<longleftrightarrow> i \<in> A"
proof
  assume d: "anchor_distance E U A i = 1"
  then have "\<exists>k. anchored E U A k i" "(LEAST k. anchored E U A k i) = 1"
    by (auto simp: anchor_distance_def split: if_splits)
  then have "anchored E U A 1 i" by (metis LeastI_ex)
  then show "i \<in> A" by cases (auto dest: anchored_pos)
next
  assume "i \<in> A"
  then have a: "anchored E U A 1 i" by (simp add: anchored.point)
  moreover have "1 \<le> k" if "anchored E U A k i" for k using anchored_pos [OF that] by simp
  ultimately have "(LEAST k. anchored E U A k i) = 1" by (rule Least_equality)
  then show "anchor_distance E U A i = 1" using a by (auto simp: anchor_distance_def)
qed

lemma anchor_distance_pos: "0 < anchor_distance E U A i \<longleftrightarrow> (\<exists>k. anchored E U A k i)"
  using anchor_distance_0 [of E U A i] by auto

text \<open>The last step of a shortest path.\<close>

lemma anchor_distance_step:
  assumes "1 < anchor_distance E U A i"
  shows "\<exists>s. i \<in> E s \<and> U i \<and> anchor_distance E U A i = anchor_distance E U A s + 1 \<and> 0 < anchor_distance E U A s"
proof -
  let ?D = "anchor_distance E U A"
  have ex: "\<exists>k. anchored E U A k i" using assms anchor_distance_pos [of E U A i] by simp
  then have D: "?D i = (LEAST k. anchored E U A k i)" by (simp add: anchor_distance_def)
  have "anchored E U A (?D i) i" unfolding D using ex by (rule LeastI_ex)
  then show ?thesis
  proof cases
    case point
    then show ?thesis using assms by simp
  next
    case (edge k s)
    have s: "?D s \<le> k" "anchored E U A (?D s) s"
      using edge(2) by (auto simp: anchor_distance_def intro: Least_le LeastI)
    have "?D i \<le> ?D s + 1"
      unfolding D by (rule Least_le) (use anchored.edge [OF s(2) edge(3,4)] in simp)
    then show ?thesis using edge s anchored_pos [OF s(2)] by auto
  qed
qed

lemma anchored_less:
  assumes "anchored E (is_used_target d) A k i" "\<forall>i\<in>A. is_used_target d i"
  shows "is_used_target d i"
  using assms by cases auto

section \<open>The search for chains\<close>

text \<open>A chain: allocations in use, each referring to the next, the first at distance 1, the last \<open>i\<close>.\<close>

definition is_chain :: "Directory \<Rightarrow> Graph \<Rightarrow> nat set \<Rightarrow> nat \<Rightarrow> nat list \<Rightarrow> bool" where
  "is_chain d g A i c \<longleftrightarrow> c \<noteq> [] \<and> hd c \<in> A \<and> last c = i \<and> (\<forall>x\<in>set c. is_used_target d x) \<and>
     successively (\<lambda>s t. t \<in> graph_edges g s) c"

definition address_of :: "Directory \<Rightarrow> nat \<Rightarrow> addr" where
  "address_of d i = (case AllocationAt d i of Some al \<Rightarrow> al_Address al | None \<Rightarrow> 0)"

text \<open>What is reported for a chain when the header is noted as \<open>H\<close> and a link as \<open>L\<close>.\<close>

fun chain_events :: "Directory \<Rightarrow> (nat \<Rightarrow> 'e) \<Rightarrow> (addr \<Rightarrow> 'e) \<Rightarrow> nat list \<Rightarrow> 'e list" where
  "chain_events d H L [] = []"
| "chain_events d H L (x # xs) = H x # map (\<lambda>i. L (address_of d i)) xs"

definition images_mapped :: "VirtualAddressMap \<Rightarrow> Directory \<Rightarrow> bool" where
  "images_mapped m d \<longleftrightarrow> (\<forall>i al. AllocationAt d i = Some al \<longrightarrow> al_IsUsed al \<longrightarrow>
     (\<exists>n img. FindMappedMemoryImage m (al_Address al) = (n, Some img) \<and> \<not> n < sizeof_Offset))"

text \<open>Visitors that note what they are shown, after what was noted before, and never stop.\<close>

definition notes_headers :: "nat set \<Rightarrow> (nat \<Rightarrow> 'e) \<Rightarrow> 'e list header_visitor \<Rightarrow> bool" where
  "notes_headers A H header \<longleftrightarrow> (\<forall>i\<in>A. \<forall>a sz img st. header i a sz img st = (False, st @ [H i]))"

definition notes_links :: "(addr \<Rightarrow> 'e) \<Rightarrow> 'e list link_visitor \<Rightarrow> bool" where
  "notes_links L link \<longleftrightarrow> (\<forall>a sz img st. link a sz img st = (False, st @ [L a]))"

lemma images_mappedE:
  assumes "images_mapped m d" "is_used_target d i"
  obtains al n img where "AllocationAt d i = Some al" "al_IsUsed al"
    "FindMappedMemoryImage m (al_Address al) = (n, Some img)" "\<not> n < sizeof_Offset"
proof -
  obtain al where al: "AllocationAt d i = Some al" "al_IsUsed al"
    using assms(2) by (auto simp: is_used_target_def split: option.splits)
  then obtain n img where "FindMappedMemoryImage m (al_Address al) = (n, Some img)" "\<not> n < sizeof_Offset"
    using assms(1) unfolding images_mapped_def by blast
  then show ?thesis using that al by blast
qed

lemma CallAnchorChainVisitor_notes:
  assumes "images_mapped m d" "notes_headers A H header" "i \<in> A" "is_used_target d i"
  shows "CallAnchorChainVisitor m d header i st = (False, st @ [H i])"
proof -
  obtain al n img where al: "AllocationAt d i = Some al" "al_IsUsed al"
      "FindMappedMemoryImage m (al_Address al) = (n, Some img)" "\<not> n < sizeof_Offset"
    by (rule images_mappedE [OF assms(1,4)])
  then show ?thesis using assms(2,3) by (simp add: CallAnchorChainVisitor_def notes_headers_def)
qed

lemma visit_links_notes:
  assumes "images_mapped m d" "notes_links L link" "\<forall>x\<in>set (map fst es). is_used_target d x"
  shows "visit_links m d link es st = (False, st @ map (\<lambda>i. L (address_of d i)) (map fst es))"
  using assms(3)
proof (induction es arbitrary: st)
  case (Cons x es)
  obtain i e where x: "x = (i, e)" by (cases x)
  have "is_used_target d i" using Cons.prems x by simp
  then obtain al n img where al: "AllocationAt d i = Some al" "al_IsUsed al"
      "FindMappedMemoryImage m (al_Address al) = (n, Some img)" "\<not> n < sizeof_Offset"
    by (rule images_mappedE [OF assms(1)])
  moreover have "link (al_Address al) (al_Size al) img st = (False, st @ [L (al_Address al)])"
    using assms(2) by (simp add: notes_links_def)
  moreover have "visit_links m d link es (st @ [L (al_Address al)]) =
      (False, (st @ [L (al_Address al)]) @ map (\<lambda>i. L (address_of d i)) (map fst es))"
    by (rule Cons.IH) (use Cons.prems in simp)
  ultimately show ?case by (simp add: x address_of_def)
qed simp

text \<open>
  The state of the search: \<open>X\<close> is what was ever put on the stack.  What is visited was put there, is not
  in use, is not anchored, or is no nearer to the anchors than something put there; the sources that the
  search has passed are visited.
\<close>

definition passed :: "Graph \<Rightarrow> bool list \<Rightarrow> nat \<Rightarrow> nat \<Rightarrow> bool" where
  "passed g vis t e \<longleftrightarrow> (\<forall>k. firstIncoming g ! t \<le> k \<and> k < e \<longrightarrow> vis ! (incoming g ! k))"

definition search_ok ::
  "Directory \<Rightarrow> Graph \<Rightarrow> (nat \<Rightarrow> nat) \<Rightarrow> nat \<Rightarrow> nat set \<Rightarrow> bool list \<Rightarrow> (nat \<times> int) list \<Rightarrow> bool" where
  "search_ok d g D i X vis es \<longleftrightarrow>
     length vis = g_numAllocations g \<and> i \<in> X \<and>
     (\<forall>x\<in>X. is_used_target d x \<and> 0 < D x) \<and>
     fst ` set es \<subseteq> X \<and>
     (es \<noteq> [] \<longrightarrow> last (map fst es) = i \<and> successively (\<lambda>s t. t \<in> graph_edges g s) (map fst es)) \<and>
     (\<forall>(t, e)\<in>set es. int (firstIncoming g ! t) - 1 \<le> e \<and> passed g vis t (nat (e + 1))) \<and>
     (\<forall>x\<in>X - fst ` set es. passed g vis x (firstIncoming g ! (x + 1))) \<and>
     (\<forall>v<g_numAllocations g. vis ! v \<longrightarrow> v \<in> X \<or> \<not> is_used_target d v \<or> D v = 0 \<or> (\<exists>t\<in>X. D t \<le> D v))"

lemma passed_update: "passed g vis t e \<Longrightarrow> passed g (vis[s := True]) t e"
  by (cases "s < length vis") (auto simp: passed_def nth_list_update list_update_beyond)

lemma search_ok_pop:
  assumes "search_ok d g D i X vis ((t, e) # rest)" "int (firstIncoming g ! (t + 1)) \<le> e + 1"
  shows "search_ok d g D i X vis rest"
proof -
  have "passed g vis t (firstIncoming g ! (t + 1))"
    using assms by (auto simp: search_ok_def passed_def nat_le_iff)
  moreover have "rest \<noteq> [] \<longrightarrow> last (map fst rest) = i \<and> successively (\<lambda>s t. t \<in> graph_edges g s) (map fst rest)"
    using assms(1) by (cases rest) (auto simp: search_ok_def)
  ultimately show ?thesis using assms(1) unfolding search_ok_def by auto
qed

text \<open>The next source of the allocation on top of the stack.\<close>

lemma next_source:
  assumes "search_ok d g D i X vis ((t, e) # rest)" "edges_ok g" "g_numAllocations g = NumAllocations d"
    and "e + 1 < int (firstIncoming g ! (t + 1))"
  shows "incoming g ! nat (e + 1) < g_numAllocations g" "t \<in> graph_edges g (incoming g ! nat (e + 1))"
    "t < g_numAllocations g"
proof -
  have t: "t \<in> X" "int (firstIncoming g ! t) - 1 \<le> e" "is_used_target d t"
    using assms(1) by (auto simp: search_ok_def)
  show tn: "t < g_numAllocations g" using is_used_target_less [OF t(3)] assms(3) by simp
  have k: "nat (e + 1) < firstIncoming g ! (t + 1)" "firstIncoming g ! t \<le> nat (e + 1)" using assms(4) t(2) by auto
  show sn: "incoming g ! nat (e + 1) < g_numAllocations g" by (rule inn.row_position(2) [OF assms(2) tn k(1)])
  have "incoming g ! nat (e + 1) \<in> set (inn.row g t)" using k by (auto simp: inn.in_row)
  then show "t \<in> graph_edges g (incoming g ! nat (e + 1))"
    using assms(2) tn sn by (simp add: edges_in_GetOutgoing edges_ok_def slice_row)
qed

text \<open>The steps of the search: an allocation is put on the stack, marked as visited, and passed.\<close>

lemma search_ok_push:
  assumes "search_ok d g D i X vis es" "es \<noteq> []" "fst (hd es) \<in> graph_edges g s" "is_used_target d s" "0 < D s"
  shows "search_ok d g D i (insert s X) vis ((s, int (firstIncoming g ! s) - 1) # es)"
proof -
  obtain t e rest where es: "es = (t, e) # rest" using assms(2) by (cases es) auto
  have "passed g vis s (firstIncoming g ! s)" by (auto simp: passed_def)
  then show ?thesis
    using assms unfolding search_ok_def es by auto
qed

lemma search_ok_mark:
  assumes "search_ok d g D i X vis es" "s < g_numAllocations g"
    and "s \<in> X \<or> \<not> is_used_target d s \<or> D s = 0 \<or> (\<exists>t\<in>X. D t \<le> D s)"
  shows "search_ok d g D i X (vis[s := True]) es"
proof -
  have "\<forall>v<g_numAllocations g. vis[s := True] ! v \<longrightarrow>
      v \<in> X \<or> \<not> is_used_target d v \<or> D v = 0 \<or> (\<exists>t\<in>X. D t \<le> D v)"
    using assms unfolding search_ok_def by (metis nth_list_update_neq)
  then show ?thesis using assms(1) unfolding search_ok_def by (auto simp: passed_update)
qed

lemma search_ok_pass:
  assumes "search_ok d g D i X vis (es @ (t, e) # rest)" "vis ! (incoming g ! nat (e + 1))"
  shows "search_ok d g D i X vis (es @ (t, e + 1) # rest)"
proof -
  have top: "int (firstIncoming g ! t) - 1 \<le> e" "passed g vis t (nat (e + 1))"
    using assms(1) by (simp_all add: search_ok_def)
  have "passed g vis t (nat (2 + e))"
    unfolding passed_def
  proof (intro allI impI; elim conjE)
    fix k assume k: "firstIncoming g ! t \<le> k" "k < nat (2 + e)"
    then have "k = nat (e + 1) \<or> k < nat (e + 1)" using top(1) by linarith
    then show "vis ! (incoming g ! k)" using assms(2) top(2) k(1) by (auto simp: passed_def)
  qed
  then show ?thesis using assms(1) top(1) unfolding search_ok_def by auto
qed

lemma search_ok_advance:
  assumes "search_ok d g D i X vis ((t, e) # rest)"
    and "s = incoming g ! nat (e + 1)" "s < g_numAllocations g"
    and "vis ! s \<or> \<not> is_used_target d s \<or> D s = 0 \<or> D t \<le> D s"
  shows "search_ok d g D i X (vis[s := True]) ((t, e + 1) # rest)"
proof -
  have t: "t \<in> X" and len: "length vis = g_numAllocations g" using assms(1) by (auto simp: search_ok_def)
  have "s \<in> X \<or> \<not> is_used_target d s \<or> D s = 0 \<or> (\<exists>t\<in>X. D t \<le> D s)"
    using assms(1,3,4) t unfolding search_ok_def by blast
  from search_ok_mark [OF assms(1,3) this] show ?thesis
    using search_ok_pass [of d g D i X "vis[s := True]" "[]"] assms(2,3) len by simp
qed

lemma search_ok_visit:
  assumes "search_ok d g D i X vis ((t, e) # rest)"
    and "s = incoming g ! nat (e + 1)" "s < g_numAllocations g" "t \<in> graph_edges g s" "is_used_target d s" "0 < D s"
  shows "search_ok d g D i (insert s X) (vis[s := True]) ((s, int (firstIncoming g ! s) - 1) # (t, e + 1) # rest)"
proof -
  have len: "length vis = g_numAllocations g" using assms(1) by (simp add: search_ok_def)
  have "search_ok d g D i (insert s X) vis ((s, int (firstIncoming g ! s) - 1) # (t, e) # rest)"
    by (rule search_ok_push [OF assms(1)]) (use assms(4-6) in simp_all)
  from search_ok_mark [OF this assms(3)] show ?thesis
    using search_ok_pass [of d g D i "insert s X" "vis[s := True]" "[(s, int (firstIncoming g ! s) - 1)]"] assms(2,3) len
    by simp
qed

text \<open>What the search has seen when it ends.\<close>

definition searched :: "Directory \<Rightarrow> Graph \<Rightarrow> (nat \<Rightarrow> nat) \<Rightarrow> nat set \<Rightarrow> bool" where
  "searched d g D X \<longleftrightarrow> (\<forall>x\<in>X. is_used_target d x \<and> 0 < D x \<and>
     (\<forall>s. s < g_numAllocations g \<longrightarrow> x \<in> graph_edges g s \<longrightarrow>
        s \<in> X \<or> \<not> is_used_target d s \<or> D s = 0 \<or> (\<exists>t\<in>X. D t \<le> D s)))"

lemma searched_end:
  assumes "search_ok d g D i X vis []" "edges_ok g" "g_numAllocations g = NumAllocations d"
  shows "searched d g D X"
  unfolding searched_def
proof (intro ballI conjI allI impI)
  fix x assume x: "x \<in> X"
  show "is_used_target d x" "0 < D x" using assms(1) x by (auto simp: search_ok_def)
  then have xn: "x < g_numAllocations g" using is_used_target_less assms(3) by metis
  fix s assume s: "s < g_numAllocations g" "x \<in> graph_edges g s"
  then have "s \<in> set (inn.row g x)" using assms(2) xn by (simp add: edges_in_GetOutgoing edges_ok_def slice_row)
  then have "vis ! s" using assms(1) x by (auto simp: search_ok_def passed_def inn.in_row)
  then show "s \<in> X \<or> \<not> is_used_target d s \<or> D s = 0 \<or> (\<exists>t\<in>X. D t \<le> D s)"
    using assms(1) s(1) by (simp add: search_ok_def)
qed

lemma chain_loop_outcome:
  assumes "edges_ok g" "g_numAllocations g = NumAllocations d"
    and "\<forall>j<NumAllocations d. GetDistance dd j = Some (D j)" "\<And>j. D j = 1 \<longleftrightarrow> j \<in> A"
    and "images_mapped m d" "notes_headers A H header" "notes_links L link"
    and "search_ok d g D i X vis es"
  shows "\<exists>chains X'. chain_loop m d g dd header link vis es st =
             Some (False, st @ concat (map (chain_events d H L) chains)) \<and>
           (\<forall>c\<in>set chains. is_chain d g A i c) \<and> X \<subseteq> X' \<and> searched d g D X' \<and>
           (\<forall>x\<in>X' - X. x \<in> A \<longrightarrow> x \<in> hd ` set chains)"
  using assms
proof (induction m d g dd header link vis es st arbitrary: X rule: chain_loop.induct)
  case (1 m d g dd header link vis st)
  have "searched d g D X" by (rule searched_end [OF "1.prems"(8,1,2)])
  then show ?case by (intro exI [of _ "[]"] exI [of _ X]) (simp add: chain_loop.simps)
next
  case (2 m d g dd header link vis t e rest st)
  note ok = "2.prems"(8)
  let ?loop = "chain_loop m d g dd header link"
  show ?case
  proof (cases "int (firstIncoming g ! (t + 1)) \<le> e + 1")
    case True
    then have "?loop vis ((t, e) # rest) st = ?loop vis rest st" by (simp add: chain_loop.simps)
    then show ?thesis
      using "2.IH"(1) [OF refl _ "2.prems"(1-7) search_ok_pop [OF ok True]] True by simp
  next
    case False
    define s where "s = incoming g ! nat (e + 1)"
    let ?vis = "vis[s := True]" and ?es = "(t, e + 1) # rest"
    note N = next_source [OF ok "2.prems"(1,2), folded s_def]
    have sn: "s < g_numAllocations g" "t \<in> graph_edges g s" "t < NumAllocations d" using N False "2.prems"(2) by auto
    have len: "length vis = g_numAllocations g" using ok by (simp add: search_ok_def)
    have D: "GetDistance dd s = Some (D s)" "GetDistance dd t = Some (D t)"
      using "2.prems"(2,3) sn by auto
    consider (skip) "vis ! s" | (free) "\<not> vis ! s" "\<not> is_used_target d s"
      | (wrong) "\<not> vis ! s" "is_used_target d s" "\<not> follows (D s) (D t)"
      | (anchor) "\<not> vis ! s" "is_used_target d s" "follows (D s) (D t)" "D s = 1"
      | (further) "\<not> vis ! s" "is_used_target d s" "follows (D s) (D t)" "D s \<noteq> 1" by blast
    then show ?thesis
    proof cases
      case skip
      then have "?loop vis ((t, e) # rest) st = ?loop vis ?es st" and v: "?vis = vis"
        using False sn(1) len list_update_id [of vis s] by (simp_all add: chain_loop.simps Let_def s_def)
      moreover have "search_ok d g D i X vis ?es"
        using search_ok_advance [OF ok s_def sn(1)] skip v by simp
      ultimately show ?thesis
        using "2.IH"(2) [OF refl _ s_def refl _ _ "2.prems"(1-7)] False sn(1) len skip by simp
    next
      case free
      then have "?loop vis ((t, e) # rest) st = ?loop ?vis ?es st"
        using False sn(1) len by (simp add: chain_loop.simps Let_def s_def)
      moreover have "search_ok d g D i X ?vis ?es"
        using search_ok_advance [OF ok s_def sn(1)] free by simp
      ultimately show ?thesis
        using "2.IH"(3) [OF refl _ s_def refl _ _ refl _ "2.prems"(1-7)] False sn(1) len free by simp
    next
      case wrong
      then have "?loop vis ((t, e) # rest) st = ?loop ?vis ?es st"
        using False sn(1) len D by (simp add: chain_loop.simps Let_def s_def)
      moreover have "search_ok d g D i X ?vis ?es"
        using search_ok_advance [OF ok s_def sn(1)] wrong by (auto simp: follows_def)
      ultimately show ?thesis
        using "2.IH"(4) [OF refl _ s_def refl _ _ refl _ refl D _ "2.prems"(1-7)] False sn(1) len wrong by simp
    next
      case anchor
      let ?c = "s # map fst ?es"
      have vis: "search_ok d g D i (insert s X) ?vis ((s, int (firstIncoming g ! s) - 1) # ?es)"
        by (rule search_ok_visit [OF ok s_def sn(1,2)]) (use anchor in simp_all)
      then have used: "\<forall>x\<in>set ?c. is_used_target d x" and c: "is_chain d g A i ?c"
        using "2.prems"(4) [of s] anchor(4) by (auto simp: search_ok_def is_chain_def)
      have call: "CallAnchorChainVisitor m d header s st = (False, st @ [H s])"
        by (rule CallAnchorChainVisitor_notes [OF "2.prems"(5,6)]) (use "2.prems"(4) [of s] anchor in simp_all)
      have links: "visit_links m d link ?es (st @ [H s]) = (False, st @ chain_events d H L ?c)"
        using visit_links_notes [OF "2.prems"(5,7), of ?es "st @ [H s]"] used by simp
      have step: "?loop vis ((t, e) # rest) st =
          ?loop ?vis ((s, int (firstIncoming g ! s) - 1) # ?es) (st @ chain_events d H L ?c)"
        using False sn(1) len D anchor call links by (simp add: chain_loop.simps Let_def s_def)
      obtain chains X' where IH:
        "?loop ?vis ((s, int (firstIncoming g ! s) - 1) # ?es) (st @ chain_events d H L ?c) =
           Some (False, (st @ chain_events d H L ?c) @ concat (map (chain_events d H L) chains))"
        "\<forall>c\<in>set chains. is_chain d g A i c" "insert s X \<subseteq> X'" "searched d g D X'"
        "\<forall>x\<in>X' - insert s X. x \<in> A \<longrightarrow> x \<in> hd ` set chains"
        using "2.IH"(5) [OF refl _ s_def refl _ _ refl _ refl D _ _ call [symmetric] refl links [symmetric] refl
            "2.prems"(1-7) vis] False sn(1) len anchor by auto
      show ?thesis
        by (intro exI [of _ "?c # chains"] exI [of _ X']) (use step IH c in auto)
    next
      case further
      have pos: "0 < D s" using further by (simp add: follows_def)
      have step: "?loop vis ((t, e) # rest) st = ?loop ?vis ((s, int (firstIncoming g ! s) - 1) # ?es) st"
        using False sn(1) len D further by (simp add: chain_loop.simps Let_def s_def)
      obtain chains X' where IH:
        "?loop ?vis ((s, int (firstIncoming g ! s) - 1) # ?es) st =
           Some (False, st @ concat (map (chain_events d H L) chains))"
        "\<forall>c\<in>set chains. is_chain d g A i c" "insert s X \<subseteq> X'" "searched d g D X'"
        "\<forall>x\<in>X' - insert s X. x \<in> A \<longrightarrow> x \<in> hd ` set chains"
        using "2.IH"(6) [OF refl _ s_def refl _ _ refl _ refl D _ _
            "2.prems"(1-7) search_ok_visit [OF ok s_def sn(1,2) further(2) pos]] False sn(1) len further by auto
      have "s \<notin> A" using "2.prems"(4) [of s] further(4) by simp
      then show ?thesis
        by (intro exI [of _ chains] exI [of _ X']) (use step IH in auto)
    qed
  qed
qed

text \<open>A search from an allocation that is anchored indirectly comes to an anchor point.\<close>

lemma searched_anchor:
  assumes "searched d g (anchor_distance (graph_edges g) (is_used_target d) A) X" "i \<in> X"
    and A: "\<forall>i\<in>A. is_used_target d i" and n: "g_numAllocations g = NumAllocations d"
  shows "\<exists>x\<in>X. x \<in> A"
proof -
  let ?D = "anchor_distance (graph_edges g) (is_used_target d) A"
  obtain x where x: "x \<in> X" "\<forall>y\<in>X. ?D x \<le> ?D y"
    using ex_has_least_nat [of "\<lambda>x. x \<in> X" i ?D] assms(2) by blast
  have pos: "0 < ?D x" using assms(1) x(1) by (auto simp: searched_def)
  show ?thesis
  proof (cases "?D x = 1")
    case True
    then show ?thesis using x(1) anchor_distance_1 by blast
  next
    case False
    then have "1 < ?D x" using pos by simp
    then obtain s where s: "x \<in> graph_edges g s" "?D x = ?D s + 1" "0 < ?D s"
      using anchor_distance_step by blast
    have used: "is_used_target d s" using s(3) anchor_distance_pos anchored_less [OF _ A] by blast
    then have "s < g_numAllocations g" using is_used_target_less n by simp
    then have "s \<in> X \<or> \<not> is_used_target d s \<or> ?D s = 0 \<or> (\<exists>t\<in>X. ?D t \<le> ?D s)"
      using assms(1) x(1) s(1) unfolding searched_def by blast
    then obtain t where "t \<in> X" "?D t \<le> ?D s" using used s(3) by auto
    then have "?D x \<le> ?D s" using x(2) le_trans by blast
    then show ?thesis using s(2) by simp
  qed
qed

lemma search_ok_start:
  assumes "i < g_numAllocations g" "is_used_target d i" "0 < D i"
  shows "search_ok d g D i {i} ((map (\<lambda>j. \<not> is_used_target d j) [0..<g_numAllocations g])[i := True])
           [(i, int (firstIncoming g ! i) - 1)]"
  by (rule search_ok_mark) (use assms in \<open>auto simp: search_ok_def passed_def\<close>)

text \<open>What is found from one allocation.\<close>

lemma VisitAnchorChains_outcome:
  assumes ok: "anchors_ok d g" and dist: "distances_from d g dd A" and A: "\<forall>i\<in>A. is_used_target d i"
    and sub: "A \<subseteq> anchor_point_set g"
    and v: "images_mapped m d" "notes_headers A H header" "notes_links L link"
    and i: "anchored (graph_edges g) (is_used_target d) A k i"
  shows "\<exists>chains. VisitAnchorChains m d g i link dd header [] =
             Some (False, concat (map (chain_events d H L) chains)) \<and>
           (\<forall>c\<in>set chains. is_chain d g A i c) \<and> chains \<noteq> []"
proof -
  let ?D = "anchor_distance (graph_edges g) (is_used_target d) A"
  define c0 where "c0 = (if ?D i = 1 then [[i]] else [])"
  have n: "g_numAllocations g = NumAllocations d" "edges_ok g" using ok by (simp_all add: anchors_ok_def kinds_ok_def)
  have used: "is_used_target d i" using anchored_less [OF i A] .
  then have i_n: "i < NumAllocations d" by (rule is_used_target_less)
  have pos: "0 < ?D i" using i anchor_distance_pos by blast
  have "A \<union> anchor_point_set g = anchor_point_set g" using sub by blast
  then have "anchored (graph_edges g) (is_used_target d) (anchor_point_set g) k i"
    using i anchored_union [of _ _ A "anchor_point_set g"] by metis
  then have nl: "\<not> leaked g ! i" using ok i_n by (auto simp: anchors_ok_def)
  have D: "\<forall>j<NumAllocations d. GetDistance dd j = Some (?D j)" using distances_from_get [OF dist] by simp
  have c0: "\<forall>c\<in>set c0. is_chain d g A i c"
    using used anchor_distance_1 [of _ _ A i] by (auto simp: c0_def is_chain_def)
  have head: "(if ?D i = 1 then CallAnchorChainVisitor m d header i [] else (False, [])) =
      (False, concat (map (chain_events d H L) c0))"
    using CallAnchorChainVisitor_notes [OF v(1,2) _ used, of "[]"] anchor_distance_1 [of _ _ A i] by (simp add: c0_def)
  have start: "VisitAnchorChains m d g i link dd header [] =
     (if firstIncoming g ! i \<noteq> firstIncoming g ! (i + 1) then
        chain_loop m d g dd header link
          ((map (\<lambda>j. \<not> is_used_target d j) [0..<g_numAllocations g])[i := True])
          [(i, int (firstIncoming g ! i) - 1)] (concat (map (chain_events d H L) c0))
      else Some (False, concat (map (chain_events d H L) c0)))"
    using nl i_n n(1) D used pos by (simp add: VisitAnchorChains_def head del: One_nat_def)
  show ?thesis
  proof (cases "firstIncoming g ! i = firstIncoming g ! (i + 1)")
    case True
    have "?D i = 1"
    proof (rule ccontr)
      assume "?D i \<noteq> 1"
      then have "1 < ?D i" using pos by simp
      then obtain s where s: "i \<in> graph_edges g s" "0 < ?D s" using anchor_distance_step by blast
      have "is_used_target d s" using s(2) anchor_distance_pos anchored_less [OF _ A] by blast
      then have "s \<in> set (inn.row g i)"
        using n s(1) i_n is_used_target_less by (simp add: edges_in_GetOutgoing edges_ok_def slice_row)
      then show False using True by (auto simp: inn.in_row)
    qed
    then show ?thesis using start True c0 by (intro exI [of _ c0]) (simp add: c0_def)
  next
    case False
    have "?D j = 1 \<longleftrightarrow> j \<in> A" for j by (rule anchor_distance_1)
    note loop = chain_loop_outcome [OF n(2,1) D this v search_ok_start [of i g d ?D],
        of "concat (map (chain_events d H L) c0)"]
    obtain chains X' where C:
      "VisitAnchorChains m d g i link dd header [] =
         Some (False, concat (map (chain_events d H L) c0) @ concat (map (chain_events d H L) chains))"
      "\<forall>c\<in>set chains. is_chain d g A i c" "{i} \<subseteq> X'" "searched d g ?D X'"
      "\<forall>x\<in>X' - {i}. x \<in> A \<longrightarrow> x \<in> hd ` set chains"
      using loop i_n n(1) used pos start False by (simp split del: if_split) blast
    obtain x where x: "x \<in> X'" "x \<in> A" using searched_anchor [OF C(4) _ A n(1), of i] C(3) by blast
    have "c0 @ chains \<noteq> []"
    proof (cases "x = i")
      case True
      then show ?thesis using x(2) anchor_distance_1 [of _ _ A i] by (auto simp: c0_def)
    next
      case False
      then show ?thesis using C(5) x by force
    qed
    then show ?thesis using C(1,2) c0 by (intro exI [of _ "c0 @ chains"]) auto
  qed
qed

section \<open>Properties\<close>

lemma anchored_cong:
  assumes "\<forall>i\<in>A. is_used_target d i" "\<forall>s<NumAllocations d. E s = F s"
  shows "anchored E (is_used_target d) A k i \<longleftrightarrow> anchored F (is_used_target d) A k i"
proof -
  have "anchored F (is_used_target d) A k i"
    if "anchored E (is_used_target d) A k i" "\<forall>s<NumAllocations d. E s = F s" for E F
    using that
  proof (induction rule: anchored.induct)
    case (edge k s t)
    then have "s < NumAllocations d" using anchored_less [OF edge(1) assms(1)] is_used_target_less by blast
    then show ?case using edge by (auto intro: anchored.edge)
  qed (simp add: anchored.point)
  from this [of E F] this [of F E] show ?thesis using assms(2) by auto
qed

lemma anchor_point_set_used: "anchors_ok d g \<Longrightarrow> \<forall>i\<in>anchor_point_set g. is_used_target d i"
  unfolding anchors_ok_def kinds_ok_def points_ok_def anchor_point_set_def by blast

text \<open>The queries on one kind of anchors.\<close>

lemma kind_queries:
  assumes "distances_from d g dd (set (map fst pts))" "points_ok d pts" "n = NumAllocations d"
  shows "i < n \<and> distance_is dd i (\<lambda>x. x > 0) \<longleftrightarrow>
           (\<exists>k. anchored (graph_edges g) (is_used_target d) (set (map fst pts)) k i)"
    and "i < n \<and> distance_is dd i (\<lambda>x. x = 1) \<longleftrightarrow> i \<in> set (map fst pts)"
    and "i < n \<and> distance_is dd i (\<lambda>x. x = 0) \<longleftrightarrow>
           i < n \<and> \<not> (\<exists>k. anchored (graph_edges g) (is_used_target d) (set (map fst pts)) k i)"
    and "sm_find pts i \<noteq> None \<longleftrightarrow> i \<in> set (map fst pts)"
proof -
  let ?a = "\<exists>k. anchored (graph_edges g) (is_used_target d) (set (map fst pts)) k i"
  have u: "\<forall>j\<in>set (map fst pts). is_used_target d j" using assms(2) by (simp add: points_ok_def)
  have less: "i < n" if ?a using that anchored_less [OF _ u] is_used_target_less assms(3) by blast
  have D: "distance_is dd i P = P (anchor_distance (graph_edges g) (is_used_target d) (set (map fst pts)) i)"
    if "i < n" for P
    using distance_is_dist_at [OF assms(1)] that assms(3) by blast
  have d: "distance_is dd i (\<lambda>x. x > 0) = ?a" "distance_is dd i (\<lambda>x. x = 1) = (i \<in> set (map fst pts))"
    "distance_is dd i (\<lambda>x. x = 0) = (\<not> ?a)" if "i < n"
    using that by (simp_all only: D anchor_distance_pos anchor_distance_1 anchor_distance_0) blast
  have "i < n" if "i \<in> set (map fst pts)" using u that is_used_target_less assms(3) by blast
  then show "i < n \<and> distance_is dd i (\<lambda>x. x > 0) \<longleftrightarrow> ?a"
    "i < n \<and> distance_is dd i (\<lambda>x. x = 1) \<longleftrightarrow> i \<in> set (map fst pts)"
    "i < n \<and> distance_is dd i (\<lambda>x. x = 0) \<longleftrightarrow> i < n \<and> \<not> ?a"
    using d less by (blast+)
  have "sm_sorted pts" using assms(2) by (simp add: points_ok_def)
  then have "sm_find pts i \<noteq> None \<longleftrightarrow> (\<exists>v. (i, v) \<in> set pts)" using sm_find_in_set [of pts i] by blast
  also have "\<dots> \<longleftrightarrow> i \<in> set (map fst pts)" by force
  finally show "sm_find pts i \<noteq> None \<longleftrightarrow> i \<in> set (map fst pts)" .
qed

text \<open>
  C10: The constructor finds the leaks of the process.  On well-formed inputs it returns; the anchor
  points it holds are the words of static memory, the stacks and the registers that refer to a used
  allocation, with those the external checker names; and an allocation is leaked exactly when it is used
  and no chain of used allocations, each with a word that refers to the next, leads to it from any of them.
\<close>

theorem Graph_new_correct:
  assumes "inputs_ok m d tm sr lims obs"
  shows "\<exists>g. Graph_new m d tm sr lims ext obs = Some g \<and> anchors_ok d g \<and>
           points_of_process m d tm sr lims ext obs g \<and>
           (\<forall>i. IsLeaked g i \<longleftrightarrow> is_used_target d i \<and>
              (\<forall>k. \<not> anchored (edge_set m d obs) (is_used_target d) (anchor_point_set g) k i))"
proof -
  obtain g where g: "Graph_new m d tm sr lims ext obs = Some g" "anchors_ok d g"
    "points_of_process m d tm sr lims ext obs g" "\<forall>s<NumAllocations d. graph_edges g s = edge_set m d obs s"
    using Graph_new_outcome [OF assms] by blast
  have "g_numAllocations g = NumAllocations d" using g(2) by (simp add: anchors_ok_def kinds_ok_def)
  then have "IsLeaked g i \<longleftrightarrow> is_used_target d i \<and>
      (\<forall>k. \<not> anchored (graph_edges g) (is_used_target d) (anchor_point_set g) k i)" for i
    using g(2) is_used_target_less [of d i] by (auto simp: IsLeaked_def anchors_ok_def)
  then have "\<forall>i. IsLeaked g i \<longleftrightarrow> is_used_target d i \<and>
      (\<forall>k. \<not> anchored (edge_set m d obs) (is_used_target d) (anchor_point_set g) k i)"
    using anchored_cong [OF anchor_point_set_used [OF g(2)] g(4)] by simp
  then show ?thesis using g by blast
qed

lemma example_inputs: "inputs_ok edge_map edge_directory (ThreadMap_new [] 0) StackRegistry_new [(0x1000, 0x1008)] None"
proof -
  have "obs_ok edge_directory None" by (simp add: obs_ok_def)
  then show ?thesis
    using edge_map_ok edge_directory_ok
    by (auto simp: inputs_ok_def ThreadMap_new_def StackRegistry_new_def RangeMapper_new_def edge_directory_simps)
qed

theorem Graph_new_correct_witness:
  "\<exists>g. Graph_new edge_map edge_directory (ThreadMap_new [] 0) StackRegistry_new [(0x1000, 0x1008)] None None = Some g"
  using Graph_new_correct [OF example_inputs, of None] by blast

text \<open>The allocations that a chain of used allocations leads to from recorded anchor points.\<close>

definition anchored_from :: "Directory \<Rightarrow> Graph \<Rightarrow> (nat \<times> 'a) list \<Rightarrow> nat \<Rightarrow> bool" where
  "anchored_from d g points i \<longleftrightarrow> (\<exists>k. anchored (graph_edges g) (is_used_target d) (set (map fst points)) k i)"

lemma decode_register_encoded:
  assumes "r < numRegisters tm" "t * numRegisters tm + r < 2 ^ 64"
  shows "decode_register tm (of_nat (t * numRegisters tm + r)) = (t, GetRegisterName tm r)"
proof -
  have "unat (of_nat (t * numRegisters tm + r) :: addr) = t * numRegisters tm + r"
    using assms(2) by (metis unat_of_nat_addr)
  then show ?thesis using assms(1) by (simp add: decode_register_def)
qed

text \<open>
  C11: The anchor queries answer what the references say.  In a complete graph an allocation is anchored by static
  memory, stacks, registers or external sources exactly when a chain of used allocations leads to it from an anchor
  point of that kind; it is an anchor point of a kind exactly when it is recorded as one, and what is recorded for
  it, if anything, is what \<open>GetStaticAnchors\<close> and \<open>GetStackAnchors\<close> give.  It is anchored by threads only when stacks or
  registers anchor it and static memory and external sources do not, and is an anchor point of threads only when
  it is one of a stack or register and the others do not anchor it.  A used allocation is leaked or anchored, never
  both.  \<open>GetRegisterAnchors\<close> collects the threads and names of the registers recorded for the allocation, but gives its
  caller nothing, as it takes the list it is to fill by value.
\<close>

theorem anchor_queries_correct:
  assumes "anchors_ok d g"
  shows "(IsStaticAnchored g i \<longleftrightarrow> anchored_from d g (staticAnchorPoints g) i) \<and>
         (IsStackAnchored g i \<longleftrightarrow> anchored_from d g (stackAnchorPoints g) i) \<and>
         (IsRegisterAnchored g i \<longleftrightarrow> anchored_from d g (registerAnchorPoints g) i) \<and>
         (IsExternalAnchored g i \<longleftrightarrow> anchored_from d g (externalAnchorPoints g) i) \<and>
         (IsThreadOnlyAnchored g i \<longleftrightarrow>
            (anchored_from d g (stackAnchorPoints g) i \<or> anchored_from d g (registerAnchorPoints g) i) \<and>
            \<not> anchored_from d g (staticAnchorPoints g) i \<and> \<not> anchored_from d g (externalAnchorPoints g) i) \<and>
         (IsStaticAnchorPoint g i \<longleftrightarrow> i \<in> set (map fst (staticAnchorPoints g))) \<and>
         (IsStackAnchorPoint g i \<longleftrightarrow> i \<in> set (map fst (stackAnchorPoints g))) \<and>
         (IsRegisterAnchorPoint g i \<longleftrightarrow> i \<in> set (map fst (registerAnchorPoints g))) \<and>
         (IsExternalAnchorPoint g i \<longleftrightarrow> i \<in> set (map fst (externalAnchorPoints g))) \<and>
         (IsThreadOnlyAnchorPoint g i \<longleftrightarrow>
            (i \<in> set (map fst (stackAnchorPoints g)) \<or> i \<in> set (map fst (registerAnchorPoints g))) \<and>
            \<not> anchored_from d g (staticAnchorPoints g) i \<and> \<not> anchored_from d g (externalAnchorPoints g) i) \<and>
         (IsAnchorPoint g i \<longleftrightarrow> i \<in> set (map fst (staticAnchorPoints g)) \<union> set (map fst (stackAnchorPoints g)) \<union>
            set (map fst (registerAnchorPoints g)) \<union> set (map fst (externalAnchorPoints g))) \<and>
         GetStaticAnchors g i = sm_find (staticAnchorPoints g) i \<and>
         GetStackAnchors g i = sm_find (stackAnchorPoints g) i \<and>
         GetRegisterAnchors g tm i anchors =
           (anchors, case sm_find (registerAnchorPoints g) i of None \<Rightarrow> [] | Some encoded \<Rightarrow> map (decode_register tm) encoded) \<and>
         (\<forall>t r. r < numRegisters tm \<longrightarrow> t * numRegisters tm + r < 2 ^ 64 \<longrightarrow>
            decode_register tm (of_nat (t * numRegisters tm + r)) = (t, GetRegisterName tm r)) \<and>
         (IsAnchored g d i \<longleftrightarrow> anchored_from d g (staticAnchorPoints g) i \<or> anchored_from d g (stackAnchorPoints g) i \<or>
            anchored_from d g (registerAnchorPoints g) i \<or> anchored_from d g (externalAnchorPoints g) i) \<and>
         (is_used_target d i \<longleftrightarrow> IsLeaked g i \<noteq> IsAnchored g d i)"
proof -
  let ?n = "g_numAllocations g"
  have n: "?n = NumAllocations d" using assms by (simp add: anchors_ok_def kinds_ok_def)
  have k: "distances_from d g (staticAnchorDistances g) (set (map fst (staticAnchorPoints g)))"
    "points_ok d (staticAnchorPoints g)"
    "distances_from d g (stackAnchorDistances g) (set (map fst (stackAnchorPoints g)))"
    "points_ok d (stackAnchorPoints g)"
    "distances_from d g (registerAnchorDistances g) (set (map fst (registerAnchorPoints g)))"
    "points_ok d (registerAnchorPoints g)"
    "distances_from d g (externalAnchorDistances g) (set (map fst (externalAnchorPoints g)))"
    "points_ok d (externalAnchorPoints g)"
    using assms by (simp_all add: anchors_ok_def kinds_ok_def)
  note S = kind_queries [OF k(1,2) n, of i, folded anchored_from_def] and T = kind_queries [OF k(3,4) n, of i, folded anchored_from_def]
    and R = kind_queries [OF k(5,6) n, of i, folded anchored_from_def] and X = kind_queries [OF k(7,8) n, of i, folded anchored_from_def]
  let ?a = "\<exists>k. anchored (graph_edges g) (is_used_target d) (anchor_point_set g) k i"
  have a: "?a \<longleftrightarrow> anchored_from d g (staticAnchorPoints g) i \<or> anchored_from d g (stackAnchorPoints g) i \<or>
      anchored_from d g (registerAnchorPoints g) i \<or> anchored_from d g (externalAnchorPoints g) i"
    unfolding anchor_point_set_def anchored_union anchored_from_def by blast
  have used: "?a \<Longrightarrow> is_used_target d i" using anchored_less [OF _ anchor_point_set_used [OF assms]] by blast
  have lk: "i < ?n \<Longrightarrow> leaked g ! i \<longleftrightarrow> is_used_target d i \<and> \<not> ?a" using assms n by (simp add: anchors_ok_def)
  have q: "IsAnchored g d i \<longleftrightarrow> ?a" "IsLeaked g i \<longleftrightarrow> is_used_target d i \<and> \<not> ?a"
    using lk used is_used_target_less [of d i] n unfolding IsAnchored_def IsLeaked_def by auto
  have get: "(if i < ?n \<and> distance_is dd i (\<lambda>x. x = 1) then sm_find points i else None) = sm_find points i"
    if "i < ?n \<and> distance_is dd i (\<lambda>x. x = 1) \<longleftrightarrow> i \<in> set (map fst points)" "sm_find points i \<noteq> None \<longleftrightarrow> i \<in> set (map fst points)"
    for dd and points :: "(nat \<times> addr list) list" using that by auto
  have anchors: "GetStaticAnchors g i = sm_find (staticAnchorPoints g) i" "GetStackAnchors g i = sm_find (stackAnchorPoints g) i"
    unfolding GetStaticAnchors_def GetStackAnchors_def using get [OF S(2,4)] get [OF T(2,4)] by blast+
  have registers: "GetRegisterAnchors g tm i anchors =
      (anchors, case sm_find (registerAnchorPoints g) i of None \<Rightarrow> [] | Some encoded \<Rightarrow> map (decode_register tm) encoded)"
    using R(2,4) by (auto simp: GetRegisterAnchors_def split: option.splits)
  have points: "IsStaticAnchorPoint g i \<longleftrightarrow> i \<in> set (map fst (staticAnchorPoints g))"
    "IsStackAnchorPoint g i \<longleftrightarrow> i \<in> set (map fst (stackAnchorPoints g))"
    "IsRegisterAnchorPoint g i \<longleftrightarrow> i \<in> set (map fst (registerAnchorPoints g))"
    "IsExternalAnchorPoint g i \<longleftrightarrow> i \<in> set (map fst (externalAnchorPoints g))"
    unfolding IsStaticAnchorPoint_def IsStackAnchorPoint_def IsRegisterAnchorPoint_def IsExternalAnchorPoint_def
    using S(2) T(2) R(2) X(2) by blast+
  have any: "IsAnchorPoint g i \<longleftrightarrow> i \<in> set (map fst (staticAnchorPoints g)) \<union> set (map fst (stackAnchorPoints g)) \<union>
      set (map fst (registerAnchorPoints g)) \<union> set (map fst (externalAnchorPoints g))"
    using S(2) T(2) R(2) X(2) unfolding IsAnchorPoint_def by blast
  have kinds: "IsStaticAnchored g i \<longleftrightarrow> anchored_from d g (staticAnchorPoints g) i"
    "IsStackAnchored g i \<longleftrightarrow> anchored_from d g (stackAnchorPoints g) i"
    "IsRegisterAnchored g i \<longleftrightarrow> anchored_from d g (registerAnchorPoints g) i"
    "IsExternalAnchored g i \<longleftrightarrow> anchored_from d g (externalAnchorPoints g) i"
    unfolding IsStaticAnchored_def IsStackAnchored_def IsRegisterAnchored_def IsExternalAnchored_def S(1) T(1) R(1) X(1) by blast+
  have threads: "IsThreadOnlyAnchored g i \<longleftrightarrow>
      (anchored_from d g (stackAnchorPoints g) i \<or> anchored_from d g (registerAnchorPoints g) i) \<and>
      \<not> anchored_from d g (staticAnchorPoints g) i \<and> \<not> anchored_from d g (externalAnchorPoints g) i"
    using S(1,3) T(1) R(1) X(1,3) unfolding IsThreadOnlyAnchored_def by blast
  have thread_points: "IsThreadOnlyAnchorPoint g i \<longleftrightarrow>
      (i \<in> set (map fst (stackAnchorPoints g)) \<or> i \<in> set (map fst (registerAnchorPoints g))) \<and>
      \<not> anchored_from d g (staticAnchorPoints g) i \<and> \<not> anchored_from d g (externalAnchorPoints g) i"
    using S(3) T(2) R(2) X(3) unfolding IsThreadOnlyAnchorPoint_def by blast
  have "is_used_target d i \<longleftrightarrow> IsLeaked g i \<noteq> IsAnchored g d i" using q used by blast
  moreover have "\<forall>t r. r < numRegisters tm \<longrightarrow> t * numRegisters tm + r < 2 ^ 64 \<longrightarrow>
      decode_register tm (of_nat (t * numRegisters tm + r)) = (t, GetRegisterName tm r)"
    using decode_register_encoded by blast
  ultimately show ?thesis
    using kinds threads points thread_points any anchors registers q(1) a
    by (intro conjI) (simp_all only: simp_thms)
qed

theorem anchor_queries_correct_witness:
  "\<exists>g. Graph_new edge_map edge_directory (ThreadMap_new [] 0) StackRegistry_new [(0x1000, 0x1008)] None None = Some g \<and>
     (is_used_target edge_directory 1 \<longleftrightarrow> IsLeaked g 1 \<noteq> IsAnchored g edge_directory 1)"
proof -
  obtain g where "Graph_new edge_map edge_directory (ThreadMap_new [] 0) StackRegistry_new [(0x1000, 0x1008)] None None =
      Some g" "anchors_ok edge_directory g"
    using Graph_new_outcome [OF example_inputs] by blast
  then show ?thesis using anchor_queries_correct [of edge_directory g 1 "ThreadMap_new [] 0" "[]"] by blast
qed

text \<open>A visitor that notes what it is shown and never stops the search.\<close>

datatype chain_event = Header "addr list" | Link addr

definition noting_visitor :: "chain_event list AnchorChainVisitor" where
  "noting_visitor =
     \<lparr>VisitStaticAnchorChainHeader = (\<lambda>as a sz img st. (False, st @ [Header as])),
      VisitStackAnchorChainHeader = (\<lambda>as a sz img st. (False, st @ [Header as])),
      VisitRegisterAnchorChainHeader = (\<lambda>as a sz img st. (False, st @ [Header (map (\<lambda>(i, r). of_nat i) as)])),
      VisitChainLink = (\<lambda>a sz img st. (False, st @ [Link a]))\<rparr>"

text \<open>
  C12: Where every used allocation has its first word in the core, every static chain that is listed explains the
  allocation, and at least one is listed for an allocation that static memory anchors.  (Without that word the
  search passes over the header or the rest of a chain, hence the hypothesis.)  For a visitor that notes what it is
  shown and never stops the search, what it notes is a sequence of chains: for each the header with the words of
  static memory that refer to its first allocation, then a link for each next allocation, which the one before
  refers to, down to the allocation asked about.
\<close>

theorem VisitStaticAnchorChains_correct:
  assumes "anchors_ok d g" "images_mapped m d" "IsStaticAnchored g i"
  shows "\<exists>chains. chains \<noteq> [] \<and>
           (\<forall>c\<in>set chains. is_chain d g (set (map fst (staticAnchorPoints g))) i c) \<and>
           VisitStaticAnchorChains m d g i noting_visitor [] =
             Some (False, concat (map (\<lambda>c. Header (the (GetStaticAnchors g (hd c))) # map (\<lambda>x. Link (address_of d x)) (tl c)) chains))"
proof -
  let ?A = "set (map fst (staticAnchorPoints g))" and ?H = "\<lambda>i. Header (the (GetStaticAnchors g i))"
  have n: "g_numAllocations g = NumAllocations d" and p: "points_ok d (staticAnchorPoints g)"
    and dist: "distances_from d g (staticAnchorDistances g) ?A"
    using assms(1) by (simp_all add: anchors_ok_def kinds_ok_def)
  note K = kind_queries [OF dist p n]
  have used: "\<forall>i\<in>?A. is_used_target d i" using p by (simp add: points_ok_def)
  have sub: "?A \<subseteq> anchor_point_set g" unfolding anchor_point_set_def by blast
  obtain k where k: "anchored (graph_edges g) (is_used_target d) ?A k i"
    using assms(3) K(1) [of i] unfolding IsStaticAnchored_def by blast
  have "notes_headers ?A ?H (VisitStaticAnchorPoint g noting_visitor)"
    unfolding notes_headers_def
  proof (intro ballI allI)
    fix i a sz img st assume "i \<in> ?A"
    then have "i < g_numAllocations g \<and> distance_is (staticAnchorDistances g) i (\<lambda>x. x = 1)" "sm_find (staticAnchorPoints g) i \<noteq> None"
      using K(2,4) by blast+
    then show "VisitStaticAnchorPoint g noting_visitor i a sz img st = (False, st @ [?H i])"
      by (auto simp: VisitStaticAnchorPoint_def GetStaticAnchors_def noting_visitor_def)
  qed
  moreover have "notes_links Link (VisitChainLink noting_visitor)" by (simp add: notes_links_def noting_visitor_def)
  ultimately obtain chains where C: "VisitStaticAnchorChains m d g i noting_visitor [] =
      Some (False, concat (map (chain_events d ?H Link) chains))" "\<forall>c\<in>set chains. is_chain d g ?A i c" "chains \<noteq> []"
    using VisitAnchorChains_outcome [OF assms(1) dist used sub assms(2) _ _ k] unfolding VisitStaticAnchorChains_def by blast
  have "map (chain_events d ?H Link) chains =
      map (\<lambda>c. ?H (hd c) # map (\<lambda>x. Link (address_of d x)) (tl c)) chains"
  proof (rule map_cong [OF refl])
    fix c assume "c \<in> set chains"
    then have "c \<noteq> []" using C(2) by (auto simp: is_chain_def)
    then show "chain_events d ?H Link c = ?H (hd c) # map (\<lambda>x. Link (address_of d x)) (tl c)" by (cases c) simp_all
  qed
  then show ?thesis using C(1,2,3) by (intro exI [of _ chains]) (simp only: simp_thms)
qed

text \<open>Two allocations that refer to each other, the second of which is also taken for static memory.\<close>

definition chain_map :: VirtualAddressMap where
  "chain_map = AddRange (VirtualAddressMap_new
     [0x10, 0x10, 0, 0, 0, 0, 0, 0,  0, 0, 0, 0, 0, 0, 0, 0,  0, 0x10, 0, 0, 0, 0, 0, 0])
     0x1000 24 (0 - 0x1000) True True True False False"

lemma chain_map_ok: "vam_ok chain_map"
proof -
  have a: "addable (VirtualAddressMap_new
     [0x10, 0x10, 0, 0, 0, 0, 0, 0,  0, 0, 0, 0, 0, 0, 0, 0,  0, 0x10, 0, 0, 0, 0, 0, 0]) 0x1000 24 (0 - 0x1000)"
    by (simp add: addable_def VirtualAddressMap_new_def rs.lookup_new)
  show ?thesis unfolding chain_map_def by (rule AddRange_ok [OF vam_ok_new a]) simp
qed

lemma chain_map_entries:
  "rm_map (ranges chain_map) = [(0x1018, 24, \<lparr>adjustToFileOffset = 0 - 0x1000, flags = 0x19\<rparr>)]"
  "fileImage chain_map = [0x10, 0x10, 0, 0, 0, 0, 0, 0,  0, 0, 0, 0, 0, 0, 0, 0,  0, 0x10, 0, 0, 0, 0, 0, 0]"
  by (simp_all add: chain_map_def AddRange_def VirtualAddressMap_new_def AddRange_flags_def flag_defs
      MapRange_def RangeMapper_new_def sm_lower_bound_def rm_emplace_result_def sm_emplace_def
      rm_next_def sm_upper_bound_def sm_find_def)

lemma chain_directory_index: "AllocationIndexOf edge_directory 0x1000 = 0"
proof -
  have "containing (dir_ranges edge_directory) (unat (0x1000 :: addr)) = {0}"
    unfolding edge_directory_ok(2) containing_def by (auto simp: less_Suc_eq)
  then show ?thesis using AllocationIndexOf_spec [OF edge_directory_ok(1), of "0x1000"] by simp
qed

lemma chain_used: "is_used_target edge_directory i \<longleftrightarrow> i < 2"
proof -
  have "8 \<le> SIZE_MASK" "(0 :: addr) < MAX_FINDERS" by (simp_all add: al_constants mask_eq_exp_minus_1)
  from Allocation_new_fields(3) [OF this] show ?thesis
    by (auto simp: is_used_target_def AllocationAt_def edge_directory_simps edge_directory_allocations less_Suc_eq numeral_2_eq_2)
qed

lemma chain_reads: "anchor_target chain_map edge_directory None 0x1010 = Some 0"
  by (simp add: anchor_target_def read_spec_def vam_find_def rm_find_def sm_upper_bound_def chain_map_entries has_image_def
      flag_defs EdgeTargetIndex_def chain_directory_index chain_used Let_def)

lemma chain_edge: "1 \<in> edge_set chain_map edge_directory None 0"
proof -
  have "mem_byte chain_map 0x1000 = Some 0x10" "mem_byte chain_map 0x1001 = Some 0x10"
    "mem_byte chain_map 0x1002 = Some 0" "mem_byte chain_map 0x1003 = Some 0" "mem_byte chain_map 0x1004 = Some 0"
    "mem_byte chain_map 0x1005 = Some 0" "mem_byte chain_map 0x1006 = Some 0" "mem_byte chain_map 0x1007 = Some 0"
    by (simp_all add: mem_byte_def rm_lookup_def chain_map_entries has_image_def flag_defs)
  then have "alloc_offsets chain_map edge_directory 0 = [0x1010]"
    by (simp add: alloc_offsets_def alloc_mapped_def alloc_bytes_def span_bytes_def edge_directory_simps
        byte_or_zero_def upt_rec le_words.simps)
  then show ?thesis by (simp add: edge_set_def EdgeTargetIndex_def edge_directory_index edge_directory_simps)
qed

lemma chain_images: "images_mapped chain_map edge_directory"
proof -
  have "FindMappedMemoryImage chain_map 0x1000 = (24, Some 0)" "FindMappedMemoryImage chain_map 0x1010 = (8, Some 0x10)"
    by (simp_all add: FindMappedMemoryImage_def vam_find_def rm_find_def sm_upper_bound_def chain_map_entries GetImage_eq
        has_image_def flag_defs Let_def)
  moreover have "al_Address al = 0x1000 \<or> al_Address al = 0x1010" if "AllocationAt edge_directory i = Some al" for i al
    using that edge_directory_simps(1)
    by (auto simp: AllocationAt_def NumAllocations_def less_Suc_eq numeral_2_eq_2 edge_directory_simps(3,5) [simplified]
        split: if_splits)
  ultimately show ?thesis unfolding images_mapped_def by fastforce
qed

theorem VisitStaticAnchorChains_correct_witness:
  "\<exists>g chains. Graph_new chain_map edge_directory (ThreadMap_new [] 0) StackRegistry_new [(0x1010, 0x1018)] None None = Some g \<and>
     chains \<noteq> [] \<and> VisitStaticAnchorChains chain_map edge_directory g 1 noting_visitor [] =
       Some (False, concat (map (\<lambda>c. Header (the (GetStaticAnchors g (hd c))) #
                                 map (\<lambda>x. Link (address_of edge_directory x)) (tl c)) chains))"
proof -
  have "obs_ok edge_directory None" by (simp add: obs_ok_def)
  then have "inputs_ok chain_map edge_directory (ThreadMap_new [] 0) StackRegistry_new [(0x1010, 0x1018)] None"
    using chain_map_ok edge_directory_ok
    by (auto simp: inputs_ok_def ThreadMap_new_def StackRegistry_new_def RangeMapper_new_def edge_directory_simps)
  then obtain g where g: "Graph_new chain_map edge_directory (ThreadMap_new [] 0) StackRegistry_new [(0x1010, 0x1018)] None None =
      Some g" "anchors_ok edge_directory g"
    "points_of_process chain_map edge_directory (ThreadMap_new [] 0) StackRegistry_new [(0x1010, 0x1018)] None None g"
    "\<forall>s<NumAllocations edge_directory. graph_edges g s = edge_set chain_map edge_directory None s"
    using Graph_new_outcome by blast
  have "0x1010 \<in> set (static_addrs [(0x1010 :: addr, 0x1018 :: addr)])" by (simp add: static_addrs_def word_addrs_def)
  then have "0 \<in> set (map fst (staticAnchorPoints g))"
    using g(3) chain_reads unfolding points_of_process_def by blast
  from anchored.point [OF this]
  have "anchored (graph_edges g) (is_used_target edge_directory) (set (map fst (staticAnchorPoints g))) (Suc (Suc 0)) 1"
    by (rule anchored.edge) (use g(4) chain_edge in \<open>simp_all add: chain_used edge_directory_simps\<close>)
  moreover have "distances_from edge_directory g (staticAnchorDistances g) (set (map fst (staticAnchorPoints g)))"
    "points_ok edge_directory (staticAnchorPoints g)" "g_numAllocations g = NumAllocations edge_directory"
    using g(2) by (simp_all add: anchors_ok_def kinds_ok_def)
  ultimately have "IsStaticAnchored g 1" using kind_queries(1) unfolding IsStaticAnchored_def by blast
  from VisitStaticAnchorChains_correct [OF g(2) chain_images this] show ?thesis using g(1) by blast
qed

end
