(* ===== verification/Memory_Reads.thy ===== *)
theory Memory_Reads
  imports Virtual_Address_Map
begin

text \<open>
  Reads as the allocation finders use them.  A \<open>Reader\<close> is a cache: on a well-formed map what it returns
  depends on the map only (\<open>ReadOffset_word_at\<close> and its companions), so the theories of the finders read
  the map through the functions below and do not thread the state of the cache.
\<close>

section \<open>Words of memory\<close>

text \<open>\<open>reader.ReadOffset(a)\<close>; the exception \<open>NotMapped\<close> is \<open>None\<close>.\<close>

definition word_at :: "VirtualAddressMap \<Rightarrow> addr \<Rightarrow> addr option" where
  "word_at m a = map_option (\<lambda>bs. of_nat (le_value bs)) (read_spec m a 8)"

text \<open>\<open>reader.ReadOffset(a, d)\<close>\<close>

definition word_or :: "VirtualAddressMap \<Rightarrow> addr \<Rightarrow> addr \<Rightarrow> addr" where
  "word_or m a d = (case word_at m a of Some w \<Rightarrow> w | None \<Rightarrow> d)"

text \<open>\<open>reader.ReadU32(a, d)\<close>\<close>

definition u32_or :: "VirtualAddressMap \<Rightarrow> addr \<Rightarrow> 32 word \<Rightarrow> 32 word" where
  "u32_or m a d = (case read_spec m a 4 of Some bs \<Rightarrow> of_nat (le_value bs) | None \<Rightarrow> d)"

section \<open>The reader returns them\<close>

lemma reader_read_outcome:
  assumes "vam_ok m" "reader_ok m rd" "0 < n" "n < 2 ^ 64"
  obtains rd' where "reader_ok m rd'"
    "reader_read m rd a n = (rd', case read_spec m a n of Some bs \<Rightarrow> Value bs | None \<Rightarrow> NotMapped a)"
  using reader_read_spec [OF assms, of a "fst (reader_read m rd a n)" "snd (reader_read m rd a n)"]
    prod.collapse [of "reader_read m rd a n"] that by metis

lemma ReadOffset_word_at:
  assumes "vam_ok m" "reader_ok m rd"
  shows "\<exists>rd'. reader_ok m rd' \<and>
           ReadOffset m rd a = (rd', case word_at m a of Some w \<Rightarrow> Value w | None \<Rightarrow> NotMapped a)"
proof -
  obtain rd' where "reader_ok m rd'"
    "reader_read m rd a 8 = (rd', case read_spec m a 8 of Some bs \<Rightarrow> Value bs | None \<Rightarrow> NotMapped a)"
    using reader_read_outcome [OF assms, of 8] by auto
  then show ?thesis by (auto simp: ReadOffset_def word_at_def split: option.split)
qed

lemma ReadOffset_default_word_or:
  assumes "vam_ok m" "reader_ok m rd"
  shows "\<exists>rd'. reader_ok m rd' \<and> ReadOffset_default m rd a d = (rd', Value (word_or m a d))"
proof -
  obtain rd' where "reader_ok m rd'"
    "reader_read m rd a 8 = (rd', case read_spec m a 8 of Some bs \<Rightarrow> Value bs | None \<Rightarrow> NotMapped a)"
    using reader_read_outcome [OF assms, of 8] by auto
  then show ?thesis by (auto simp: ReadOffset_default_def word_or_def word_at_def split: option.split)
qed

lemma ReadU32_default_u32_or:
  assumes "vam_ok m" "reader_ok m rd"
  shows "\<exists>rd'. reader_ok m rd' \<and> ReadU32_default m rd a d = (rd', Value (u32_or m a d))"
proof -
  obtain rd' where "reader_ok m rd'"
    "reader_read m rd a 4 = (rd', case read_spec m a 4 of Some bs \<Rightarrow> Value bs | None \<Rightarrow> NotMapped a)"
    using reader_read_outcome [OF assms, of 4] by auto
  then show ?thesis by (auto simp: ReadU32_default_def u32_or_def split: option.split)
qed

lemma word_or_Some: "word_at m a = Some w \<Longrightarrow> word_or m a d = w"
  by (simp add: word_or_def)

section \<open>Words read through \<open>FindMappedMemoryImage\<close>\<close>

text \<open>
  Where a word is read through the pointer that \<open>FindMappedMemoryImage\<close> gives, if at least the bytes of a
  word follow; the outer option is the access through the pointer.
\<close>

definition image_word :: "VirtualAddressMap \<Rightarrow> addr \<Rightarrow> addr option option" where
  "image_word m a =
     (case FindMappedMemoryImage m a of (numBytesFound, img) \<Rightarrow>
        if numBytesFound < 8 then Some None
        else (case img of
                None \<Rightarrow> None
              | Some off \<Rightarrow>
                  (case file_bytes (fileImage m) off 8 of
                     Value bs \<Rightarrow> Some (Some (of_nat (le_value bs)))
                   | _ \<Rightarrow> None)))"

lemma image_word_at:
  assumes "vam_ok m"
  shows "image_word m a = Some (word_at m a)"
proof (cases "vam_find m a")
  case None
  then show ?thesis by (simp add: image_word_def FindMappedMemoryImage_def word_at_def read_spec_def)
next
  case (Some it)
  obtain L S V where it: "vam_find m a = Some (L, S, V)" using Some by (cases it) simp
  note inv = vam_okD(1) [OF assms]
  note D = rm_find_SomeD [OF inv it [unfolded vam_find_def]]
  show ?thesis
  proof (cases "has_image V")
    case False
    then show ?thesis using it by (simp add: image_word_def FindMappedMemoryImage_def GetImage_eq word_at_def read_spec_def)
  next
    case True
    have off: "L - S + adjustToFileOffset V + (a - (L - S)) = a + adjustToFileOffset V" "S - (a - (L - S)) = L - a" by simp_all
    have f: "FindMappedMemoryImage m a = (L - a, Some (a + adjustToFileOffset V))"
      using it True off by (simp add: FindMappedMemoryImage_def GetImage_eq Let_def)
    have u: "unat (L - a) = unat L - unat a" using D(3) by (simp add: unat_sub_le less_imp_le)
    show ?thesis
    proof (cases "L - a < 8")
      case True
      have "\<not> (a + 8 \<le> L \<and> \<not> a + 8 < a)"
      proof
        assume h: "a + 8 \<le> L \<and> \<not> a + 8 < a"
        then have "8 \<le> unat L - unat a" using no_wrap_span [of a 8 L] by simp
        then show False using True u by (simp add: word_less_nat_alt)
      qed
      then show ?thesis using True f it by (auto simp: image_word_def word_at_def read_spec_def)
    next
      case False
      then have le: "8 \<le> unat L - unat a" using u by (simp add: word_less_nat_alt not_less word_le_nat_alt)
      then have "unat (a + 8) = unat a + 8" using unat_add_of_nat [of a 8] unsigned_less [where 'a = nat, of L] by simp
      then have "a + 8 \<le> L" "\<not> a + 8 < a" using le by (simp_all add: word_le_nat_alt word_less_nat_alt)
      moreover have "unat (a + adjustToFileOffset V) + 8 \<le> length (fileImage m)"
        using bytes_in_entry [OF assms D(1) True D(2,3) le] .
      ultimately show ?thesis using False f it True by (simp add: image_word_def word_at_def read_spec_def file_bytes_def)
    qed
  qed
qed

end
