(* ===== verification/Libc_Arenas.thy ===== *)
theory Libc_Arenas
  imports Memory_Reads Std_Map
begin

text \<open>
  What \<open>LibcMalloc::InfrastructureFinder\<close> (LibcMalloc/InfrastructureFinder.h) has found out about the arenas
  of glibc's malloc, as the allocation finders use it: the arenas, the heaps of the arenas other than the
  main one, the runs of pages of the main arena, and the layout of the arena structure.  How it is found is
  not modelled, but for the scan for heaps.
\<close>

section \<open>State\<close>

record Arena =
  ar_address :: addr
  nextArena :: addr
  arenaTop :: addr
  arenaSize :: addr
  arenaMaxSize :: addr
  freeCount :: addr
  freeBytes :: addr
  usedCount :: addr
  usedBytes :: addr
  hasFastBinCorruption :: bool
  hasFreeListCorruption :: bool
  missingOrUnfilledHeader :: bool

definition Arena_new :: "addr \<Rightarrow> Arena" where
  "Arena_new address =
     \<lparr>ar_address = address, nextArena = 0, arenaTop = 0, arenaSize = 0, arenaMaxSize = 0, freeCount = 0,
      freeBytes = 0, usedCount = 0, usedBytes = 0, hasFastBinCorruption = False,
      hasFreeListCorruption = False, missingOrUnfilledHeader = False\<rparr>"

record Heap =
  heapAddress :: addr
  arenaAddress :: addr
  heapSize :: addr
  heapMaxSize :: addr
  nextHeap :: addr

definition Heap_new :: "addr \<Rightarrow> addr \<Rightarrow> addr \<Rightarrow> addr \<Rightarrow> addr \<Rightarrow> Heap" where
  "Heap_new address arena sz maxSize nxt =
     \<lparr>heapAddress = address, arenaAddress = arena, heapSize = sz, heapMaxSize = maxSize, nextHeap = nxt\<rparr>"

record Infrastructure =
  heaps :: "(addr, Heap) std_map"
  arenas :: "(addr, Arena) std_map"
  mainArenaRuns :: "(addr, addr) std_map"
  mainArenaAddress :: addr
  fastBinLinksAreMangled :: bool
  fastBinStartOffset :: addr
  fastBinLimitOffset :: addr
  doublyLinkedFreeListOffset :: addr
  lastDoublyLinkedFreeListOffset :: addr
  arenaStructSize :: addr
  heapHeaderSize :: addr
  maxHeapSize :: addr

text \<open>The entry before \<open>upper_bound(k)\<close>, unless that is \<open>begin()\<close>.\<close>

definition sm_before :: "('k::linorder, 'v) std_map \<Rightarrow> 'k \<Rightarrow> ('k \<times> 'v) option" where
  "sm_before mp k = (let below = takeWhile (\<lambda>e. fst e \<le> k) mp in if below = [] then None else Some (last below))"

definition ArenaAddressFor :: "Infrastructure \<Rightarrow> addr \<Rightarrow> addr" where
  "ArenaAddressFor ix address =
     (case sm_find (heaps ix) (address AND NOT (maxHeapSize ix - 1)) of
        Some heap \<Rightarrow> arenaAddress heap
      | None \<Rightarrow>
          (case sm_before (mainArenaRuns ix) address of
             None \<Rightarrow> 0
           | Some (runStart, runSize) \<Rightarrow>
               if address < runStart then 0
               else let runLimit = runStart + runSize in
                    if address \<ge> runLimit then 0 else mainArenaAddress ix))"

section \<open>The scan for heaps\<close>

text \<open>
  The candidates at the multiples of the maximum heap size in one range of memory with an image.  The
  headers are read from the image: the four words at the start of the candidate, which a page holds.
\<close>

definition heap_header :: "VirtualAddressMap \<Rightarrow> addr \<Rightarrow> nat \<Rightarrow> addr" where
  "heap_header m heapStart i = word_or m (heapStart + 8 * of_nat i) 0"

definition is_heap_header :: "VirtualAddressMap \<Rightarrow> addr \<Rightarrow> addr \<Rightarrow> addr \<Rightarrow> bool" where
  "is_heap_header m maxSize headerSize heapStart \<longleftrightarrow>
     (let h = heap_header m heapStart; mask = maxSize - 1; arena = h 0 in
        arena AND mask = headerSize \<and> h 1 AND mask = 0 \<and>
        h 2 \<noteq> 0 \<and> h 2 AND 0xFFF = 0 \<and> h 3 \<noteq> 0 \<and> h 3 AND 0xFFF = 0 \<and>
        (h 0 AND NOT mask = heapStart) = (h 1 = 0))"

definition add_heap_candidate :: "VirtualAddressMap \<Rightarrow> addr \<Rightarrow> Infrastructure \<Rightarrow> Infrastructure" where
  "add_heap_candidate m heapStart ix =
     (if is_heap_header m (maxHeapSize ix) (heapHeaderSize ix) heapStart then
        let h = heap_header m heapStart;
            ix' = (if h 0 = heapStart + heapHeaderSize ix
                    then ix\<lparr>arenas := fst (sm_emplace (h 0) (Arena_new (h 0)) (arenas ix))\<rparr> else ix)
        in ix'\<lparr>heaps := fst (sm_emplace heapStart (Heap_new heapStart (h 0) (h 2) (h 3) (h 1)) (heaps ix'))\<rparr>
      else ix)"

partial_function (option) heap_scan ::
  "VirtualAddressMap \<Rightarrow> addr \<Rightarrow> addr \<Rightarrow> Infrastructure \<Rightarrow> Infrastructure option" where
  "heap_scan m limit heapStart ix =
     (if heapStart \<noteq> 0 \<and> heapStart + 0x1000 \<le> limit
      then heap_scan m limit (heapStart + maxHeapSize ix) (add_heap_candidate m heapStart ix)
      else Some ix)"

fun heap_scan_ranges :: "VirtualAddressMap \<Rightarrow> vam_iterator list \<Rightarrow> Infrastructure \<Rightarrow> Infrastructure option" where
  "heap_scan_ranges m [] ix = Some ix"
| "heap_scan_ranges m (it # its) ix =
     (if GetImage it = None then heap_scan_ranges m its ix
      else if it_Flags it AND (IS_READABLE OR IS_WRITABLE) \<noteq> IS_READABLE OR IS_WRITABLE
      then heap_scan_ranges m its ix
      else
        Option.bind
          (heap_scan m (it_Limit it) ((it_Base it + (maxHeapSize ix - 1)) AND NOT (maxHeapSize ix - 1)) ix)
          (heap_scan_ranges m its))"

definition FindHeapAndArenaCandidates :: "VirtualAddressMap \<Rightarrow> Infrastructure \<Rightarrow> Infrastructure option" where
  "FindHeapAndArenaCandidates m ix = heap_scan_ranges m (vam_iterators m) ix"

end
