(* ===== verification/Corruption_Skipper.thy ===== *)
theory Corruption_Skipper
  imports Libc_Arenas
begin

text \<open>
  The class \<open>LibcMalloc::CorruptionSkipper\<close> of LibcMalloc/CorruptionSkipper.h, which looks for a chunk to
  go on from when a run of chunks is corrupt.  \<open>None\<close> is a loop that does not end or an exception that
  leaves the function.
\<close>

section \<open>Chains that lead back\<close>

text \<open>The mask of the bits that no chunk of an arena of a 64-bit process has set.\<close>

definition sizeCheckMask :: addr where "sizeCheckMask = 0xA"

text \<open>
  The walk forward from a candidate.  \<open>start\<close> is \<open>libcChunkStart\<close>, which the test before the walk has
  overwritten with the candidate itself.
\<close>

function walk_forward :: "VirtualAddressMap \<Rightarrow> addr \<Rightarrow> addr \<Rightarrow> addr \<Rightarrow> bool" where
  "walk_forward m start checkForward prevLength =
     (if checkForward = start then True
      else
        let forwardSizeAndStatus = word_or m (checkForward + 8) 2 in
        if forwardSizeAndStatus AND sizeCheckMask \<noteq> 0 then False
        else if forwardSizeAndStatus AND 1 = 0 \<and> word_or m checkForward 0 AND NOT 7 \<noteq> prevLength then False
        else
          let forwardLength = forwardSizeAndStatus AND NOT 7 in
          if forwardLength = 0 \<or> forwardLength > start - checkForward then False
          else walk_forward m start (checkForward + forwardLength) forwardLength)"
  by auto
termination
proof (relation "measure (\<lambda>(m, start, checkForward, prevLength). unat (start - checkForward))", goal_cases)
  case (2 m start c p f l)
  then have l: "0 < l" "l \<le> start - c" by (simp_all add: not_less word_neq_0_conv)
  have "start - (c + l) = (start - c) - l" by simp
  then have "unat (start - (c + l)) = unat (start - c) - unat l" using unat_sub_le [OF l(2)] by metis
  then show ?case using l by (simp add: word_less_nat_alt word_le_nat_alt)
qed simp

declare walk_forward.simps [simp del]

text \<open>
  What one iteration makes of a candidate: whether it passes the tests on its own header, and the values of
  \<open>libcChunkStart\<close> and \<open>lowestChainStart\<close> after it.
\<close>

definition back_candidate ::
  "VirtualAddressMap \<Rightarrow> addr \<Rightarrow> addr \<Rightarrow> addr \<Rightarrow> addr \<Rightarrow> addr \<times> addr" where
  "back_candidate m corruptionPoint check libcChunkStart lowestChainStart =
     (let sizeAndStatus = word_or m (check + 8) 2 in
      if sizeAndStatus AND sizeCheckMask \<noteq> 0 then (libcChunkStart, lowestChainStart)
      else
        let len = sizeAndStatus AND NOT 7 in
        if len = 0 then (libcChunkStart, lowestChainStart)
        else
          let libcChunkStart = check in
          if len > libcChunkStart then (libcChunkStart, lowestChainStart)
          else if sizeAndStatus AND 1 = 0 \<and>
            (let prevSizeAndStatus = word_or m check 2; prevLength = prevSizeAndStatus AND NOT 7 in
               prevSizeAndStatus AND sizeCheckMask \<noteq> 0 \<or> check - corruptionPoint \<le> prevLength \<or>
               word_or m (check - prevLength) 0 AND NOT 7 \<noteq> prevLength)
          then (libcChunkStart, lowestChainStart)
          else if check + len = lowestChainStart then (libcChunkStart, check)
          else if walk_forward m libcChunkStart (check + len) len then (libcChunkStart, check)
          else (libcChunkStart, lowestChainStart))"

partial_function (option) back_loop ::
  "VirtualAddressMap \<Rightarrow> addr \<Rightarrow> addr \<Rightarrow> addr \<Rightarrow> addr \<Rightarrow> addr option" where
  "back_loop m corruptionPoint check libcChunkStart lowestChainStart =
     (if check > corruptionPoint then
        (case back_candidate m corruptionPoint check libcChunkStart lowestChainStart of
           (libcChunkStart', lowestChainStart') \<Rightarrow>
             back_loop m corruptionPoint (check - 2 * 8) libcChunkStart' lowestChainStart')
      else Some lowestChainStart)"

definition FindBackChain :: "VirtualAddressMap \<Rightarrow> addr \<Rightarrow> addr \<Rightarrow> addr option" where
  "FindBackChain m libcChunkStart corruptionPoint =
     back_loop m corruptionPoint (libcChunkStart - 4 * 8) libcChunkStart libcChunkStart"

section \<open>Free chunks past the corruption\<close>

text \<open>Whether a node of a free list lies past the corruption and looks like a chunk; then it is a candidate.\<close>

definition consider_node ::
  "VirtualAddressMap \<Rightarrow> addr \<Rightarrow> addr \<Rightarrow> addr \<Rightarrow> addr \<Rightarrow> addr \<Rightarrow> addr" where
  "consider_node m clear corruptionPoint repairLimit listNode pastArenaCorruption =
     (if listNode > corruptionPoint \<and> listNode \<le> repairLimit then
        let sizeAndFlags = word_or m (listNode + 8) 0 in
        if sizeAndFlags \<noteq> 0 \<and> sizeAndFlags AND clear = 0 \<and>
           listNode + (sizeAndFlags AND NOT 7) \<le> repairLimit
        then if pastArenaCorruption = 0 \<or> listNode < pastArenaCorruption then listNode else pastArenaCorruption
        else pastArenaCorruption
      else pastArenaCorruption)"

text \<open>One fast bin list; the guard counts the nodes that may still be looked at.\<close>

fun fast_list :: "VirtualAddressMap \<Rightarrow> addr \<Rightarrow> addr \<Rightarrow> addr \<Rightarrow> nat \<Rightarrow> addr \<Rightarrow> addr \<Rightarrow> addr" where
  "fast_list m clear corruptionPoint repairLimit 0 listNode past = past"
| "fast_list m clear corruptionPoint repairLimit (Suc guard) listNode past =
     (if listNode = 0 then past
      else fast_list m clear corruptionPoint repairLimit guard (word_or m (listNode + 2 * 8) 0)
             (consider_node m clear corruptionPoint repairLimit listNode past))"

partial_function (option) fast_bins ::
  "VirtualAddressMap \<Rightarrow> addr \<Rightarrow> addr \<Rightarrow> addr \<Rightarrow> addr \<Rightarrow> addr \<Rightarrow> addr \<Rightarrow> addr option" where
  "fast_bins m clear corruptionPoint repairLimit fastBinLimit fastBinCheck past =
     (if fastBinCheck < fastBinLimit then
        (case word_at m fastBinCheck of
           None \<Rightarrow> None
         | Some listNode \<Rightarrow>
             fast_bins m clear corruptionPoint repairLimit fastBinLimit (fastBinCheck + 8)
               (fast_list m clear corruptionPoint repairLimit 9999999 listNode past))
      else Some past)"

text \<open>The \<open>do\<close> loop over a doubly linked list; the test goes on only from a next node that is 0.\<close>

partial_function (option) free_list ::
  "VirtualAddressMap \<Rightarrow> addr \<Rightarrow> addr \<Rightarrow> addr \<Rightarrow> addr \<Rightarrow> addr \<Rightarrow> addr \<Rightarrow> addr option" where
  "free_list m clear corruptionPoint repairLimit listHeader listNode past =
     (let past' = consider_node m clear corruptionPoint repairLimit listNode past;
          nextNode = word_or m (listNode + 2 * 8) 0
      in if nextNode \<noteq> 0 \<or> word_or m (nextNode + 3 * 8) 0 \<noteq> listNode then Some past'
         else if nextNode = listHeader then Some past'
         else free_list m clear corruptionPoint repairLimit listHeader nextNode past')"

partial_function (option) free_lists ::
  "VirtualAddressMap \<Rightarrow> addr \<Rightarrow> addr \<Rightarrow> addr \<Rightarrow> addr \<Rightarrow> addr \<Rightarrow> addr option" where
  "free_lists m clear corruptionPoint repairLimit listHeader past =
     (let listNode = word_or m (listHeader + 2 * 8) 0 in
      if listNode = listHeader
      then free_lists m clear corruptionPoint repairLimit (listHeader + 2 * 8) past
      else if word_or m (listNode + 3 * 8) 0 \<noteq> listHeader then Some past
      else
        (case free_list m clear corruptionPoint repairLimit listHeader listNode past of
           None \<Rightarrow> None
         | Some past' \<Rightarrow> free_lists m clear corruptionPoint repairLimit (listHeader + 2 * 8) past'))"

definition SkipArenaCorruption ::
  "VirtualAddressMap \<Rightarrow> Infrastructure \<Rightarrow> addr \<Rightarrow> addr \<Rightarrow> addr \<Rightarrow> addr option" where
  "SkipArenaCorruption m ix arena corruptionPoint repairLimit0 =
     (case sm_find (arenas ix) arena of
        None \<Rightarrow> Some 0
      | Some ar \<Rightarrow>
          if missingOrUnfilledHeader ar then Some 0
          else
            let tp = arenaTop ar in
            if corruptionPoint = tp then Some 0
            else
              let repairLimit = (if corruptionPoint < tp \<and> tp \<le> repairLimit0 then tp else repairLimit0 - 6 * 8);
                  clear = (if arena = mainArenaAddress ix then 2 OR 4 else 2) OR 8;
                  fastBinLimit = arena + fastBinLimitOffset ix
              in
              (case fast_bins m clear corruptionPoint repairLimit fastBinLimit (arena + fastBinStartOffset ix) 0 of
                 None \<Rightarrow> None
               | Some past \<Rightarrow>
                   (case free_lists m clear corruptionPoint repairLimit
                           (arena + doublyLinkedFreeListOffset ix - 2 * 8) past of
                      None \<Rightarrow> None
                    | Some past' \<Rightarrow>
                        if past' = 0 then
                          if repairLimit = tp \<and> tp > corruptionPoint then FindBackChain m tp corruptionPoint
                          else Some 0
                        else FindBackChain m past' corruptionPoint)))"

end
