(* ===== verification/Free_Status.thy ===== *)
theory Free_Status
  imports Libc_Arenas Stack_Registry Alloc_Directory
begin

text \<open>
  The classes \<open>FastBinFreeStatusFixer\<close> and \<open>DoublyLinkedListCorruptionChecker\<close> of LibcMalloc: once a finder
  of libc allocations is done, the first marks the allocations on the fast bin lists as free, whose own
  headers still say that they are used, and the second checks the doubly linked free lists.  What they write
  to the error stream of a broken list is kept as a list of reports: the header of the list, the node and
  what is wrong with it.  \<open>None\<close> is an access out of range or a loop that does not end.
\<close>

type_synonym report = "addr \<times> addr \<times> string"
type_synonym free_state = "Directory \<times> report list"

section \<open>Fast bins\<close>

text \<open>The word a node of a fast bin list holds as its link.\<close>

definition demangle :: "Infrastructure \<Rightarrow> addr \<Rightarrow> addr \<Rightarrow> addr" where
  "demangle ix allocation link = (if fastBinLinksAreMangled ix then link XOR drop_bit 12 allocation else link)"

text \<open>
  \<open>ReportFastBinCycle\<close>: the list is followed to the first node that was seen before.  The second component
  is the address of a read that raised \<open>NotMapped\<close>, which the caller catches.
\<close>

function cycle_loop ::
  "VirtualAddressMap \<Rightarrow> Infrastructure \<Rightarrow> Directory \<Rightarrow> addr \<Rightarrow> bool list \<Rightarrow> addr
   \<Rightarrow> (report list \<times> addr option) option" where
  "cycle_loop m ix d hdr alreadySeen nextNode =
     (if nextNode = 0 then Some ([], None)
      else
        let allocation = nextNode + 8 * 2; index = AllocationIndexOf d allocation in
        if \<not> index < length alreadySeen then None
        else if alreadySeen ! index
        then Some ([(hdr, nextNode, ''involved in a cycle, probably due to a double free'')], None)
        else
          (case word_at m (nextNode + 8 * 2) of
             None \<Rightarrow> Some ([], Some (nextNode + 8 * 2))
           | Some link \<Rightarrow> cycle_loop m ix d hdr (alreadySeen[index := True]) (demangle ix allocation link)))"
  by auto
termination
  by (relation "measure (\<lambda>(m, ix, d, hdr, seen, nextNode). length (filter Not seen))")
    (auto dest!: filter_Not_update)

declare cycle_loop.simps [simp del]

definition ReportFastBinCycle ::
  "VirtualAddressMap \<Rightarrow> Infrastructure \<Rightarrow> Directory \<Rightarrow> addr \<Rightarrow> (report list \<times> addr option) option" where
  "ReportFastBinCycle m ix d hdr =
     (case word_at m hdr of
        None \<Rightarrow> Some ([], Some hdr)
      | Some nextNode \<Rightarrow> cycle_loop m ix d hdr (replicate (NumAllocations d) False) nextNode)"

text \<open>
  The nodes of one fast bin; the first number is how many more of them may be visited.  A read that raises
  \<open>NotMapped\<close> ends the list with its address.
\<close>

fun fast_bin_nodes ::
  "VirtualAddressMap \<Rightarrow> Infrastructure \<Rightarrow> addr \<Rightarrow> addr \<Rightarrow> nat \<Rightarrow> addr \<Rightarrow> free_state
   \<Rightarrow> (free_state \<times> addr option) option" where
  "fast_bin_nodes m ix arena hdr 0 nextNode (d, reps) =
     (if nextNode = 0 then Some ((d, reps), None)
      else (case ReportFastBinCycle m ix d hdr of
              None \<Rightarrow> None
            | Some (new, exc) \<Rightarrow> Some ((d, reps @ new), exc)))"
| "fast_bin_nodes m ix arena hdr (Suc visits) nextNode (d, reps) =
     (if nextNode = 0 then Some ((d, reps), None)
      else
        let allocation = nextNode + 8 * 2; index = AllocationIndexOf d allocation in
        (case AllocationAt d index of
           None \<Rightarrow> Some ((d, reps @ [(hdr, nextNode, ''not matching an allocation'')]), None)
         | Some al \<Rightarrow>
             if al_Address al \<noteq> allocation
             then Some ((d, reps @ [(hdr, nextNode, ''not matching an allocation'')]), None)
             else if ArenaAddressFor ix nextNode \<noteq> arena
             then Some ((d, reps @ [(hdr, nextNode, ''in the wrong arena'')]), None)
             else
               (case word_at m allocation of
                  None \<Rightarrow> Some ((MarkAsFree d index, reps), Some allocation)
                | Some link \<Rightarrow>
                    fast_bin_nodes m ix arena hdr visits (demangle ix allocation link) (MarkAsFree d index, reps))))"

text \<open>The loop over the fast bins; the flag says that the arena header is not in the core.\<close>

partial_function (option) fast_bin_loop ::
  "VirtualAddressMap \<Rightarrow> Infrastructure \<Rightarrow> addr \<Rightarrow> addr \<Rightarrow> addr \<Rightarrow> free_state \<Rightarrow> (free_state \<times> bool) option" where
  "fast_bin_loop m ix arena fastBinLimit fastBinCheck st =
     (if fastBinCheck < fastBinLimit then
        (case word_at m fastBinCheck of
           None \<Rightarrow> Some (st, True)
         | Some nextNode \<Rightarrow>
             (case fast_bin_nodes m ix arena fastBinCheck (NumAllocations (fst st)) nextNode st of
                None \<Rightarrow> None
              | Some (st', None) \<Rightarrow> fast_bin_loop m ix arena fastBinLimit (fastBinCheck + 8) st'
              | Some ((d, reps), Some a) \<Rightarrow>
                  if a = fastBinCheck then Some ((d, reps), True)
                  else fast_bin_loop m ix arena fastBinLimit (fastBinCheck + 8)
                         (d, reps @ [(fastBinCheck, a, ''not in the core'')])))
      else Some (st, False))"

text \<open>
  A chain of chunks that was being consolidated when the process stopped, found from a register.  The length
  is set back to 0 after a very long way, with a warning, and the walk goes on.
\<close>

definition used_chunk_at :: "Directory \<Rightarrow> nat \<Rightarrow> addr \<Rightarrow> bool" where
  "used_chunk_at d finderIndex a =
     (case AllocationAt d (AllocationIndexOf d a) of
        None \<Rightarrow> False
      | Some al \<Rightarrow> al_Address al = a \<and> unat (al_FinderIndex al) = finderIndex \<and> al_IsUsed al)"

partial_function (option) chain_walk ::
  "VirtualAddressMap \<Rightarrow> Infrastructure \<Rightarrow> Directory \<Rightarrow> nat \<Rightarrow> nat \<Rightarrow> addr \<Rightarrow> (nat \<times> addr) option" where
  "chain_walk m ix d finderIndex chainLength link =
     (if link \<noteq> 0 \<and> link \<noteq> 0xBAD then
        let allocationAddress = link + 2 * 8 in
        if \<not> used_chunk_at d finderIndex allocationAddress then Some (chainLength, link)
        else
          let chainLength' = (if chainLength + 1 = 0x10000000 then 0 else chainLength + 1)
          in chain_walk m ix d finderIndex chainLength' (demangle ix allocationAddress (word_or m allocationAddress 0xBAD))
      else Some (chainLength, link))"

text \<open>The longest chain so far: its length, where it starts and where marking it stops.\<close>

type_synonym longest = "nat \<times> addr \<times> addr"

definition register_chain ::
  "VirtualAddressMap \<Rightarrow> Infrastructure \<Rightarrow> Directory \<Rightarrow> addr \<Rightarrow> bool \<Rightarrow> nat \<Rightarrow> addr \<Rightarrow> longest \<Rightarrow> longest option" where
  "register_chain m ix d arena isMainArena finderIndex regValue longest =
     (if regValue \<ge> arena \<and> regValue < arena + fastBinLimitOffset ix then Some longest
      else if regValue AND (2 * 8 - 1) \<noteq> 0 then Some longest
      else
        let lengthAndStatus = word_or m (regValue + 8) 0xFF in
        if isMainArena \<and> lengthAndStatus AND 6 \<noteq> 0 then Some longest
        else if \<not> isMainArena \<and> lengthAndStatus AND 6 \<noteq> 4 then Some longest
        else if \<not> isMainArena \<and> word_or m (regValue AND NOT (maxHeapSize ix - 1)) 0xBAD \<noteq> arena then Some longest
        else
          let allocationAddress = regValue + 2 * 8 in
          if \<not> used_chunk_at d finderIndex allocationAddress then Some longest
          else
            (case chain_walk m ix d finderIndex 1
                    (demangle ix allocationAddress (word_or m allocationAddress 0xBAD)) of
               None \<Rightarrow> None
             | Some (chainLength, link) \<Rightarrow>
                 if chainLength > fst longest then Some (chainLength, regValue, link) else Some longest))"

fun register_chains ::
  "VirtualAddressMap \<Rightarrow> Infrastructure \<Rightarrow> Directory \<Rightarrow> addr \<Rightarrow> bool \<Rightarrow> nat \<Rightarrow> addr list \<Rightarrow> longest \<Rightarrow> longest option" where
  "register_chains m ix d arena isMainArena finderIndex [] longest = Some longest"
| "register_chains m ix d arena isMainArena finderIndex (r # rs) longest =
     Option.bind (register_chain m ix d arena isMainArena finderIndex r longest)
       (register_chains m ix d arena isMainArena finderIndex rs)"

definition refers_to_fast_bins :: "Infrastructure \<Rightarrow> addr \<Rightarrow> addr list \<Rightarrow> bool" where
  "refers_to_fast_bins ix arena regs \<longleftrightarrow>
     (\<exists>r\<in>set regs. r \<ge> arena + fastBinStartOffset ix \<and> r < arena + fastBinLimitOffset ix \<and> r AND (8 - 1) = 0)"

fun thread_chains ::
  "VirtualAddressMap \<Rightarrow> Infrastructure \<Rightarrow> Directory \<Rightarrow> addr \<Rightarrow> bool \<Rightarrow> nat \<Rightarrow> nat \<Rightarrow> ThreadInfo list \<Rightarrow> longest
   \<Rightarrow> longest option" where
  "thread_chains m ix d arena isMainArena finderIndex numRegs [] longest = Some longest"
| "thread_chains m ix d arena isMainArena finderIndex numRegs (th # ths) longest =
     (let regs = take numRegs (registers th) in
      if length regs < numRegs then None
      else if \<not> refers_to_fast_bins ix arena regs
      then thread_chains m ix d arena isMainArena finderIndex numRegs ths longest
      else Option.bind (register_chains m ix d arena isMainArena finderIndex regs longest)
             (thread_chains m ix d arena isMainArena finderIndex numRegs ths))"

partial_function (option) mark_chain ::
  "VirtualAddressMap \<Rightarrow> Infrastructure \<Rightarrow> addr \<Rightarrow> addr \<Rightarrow> Directory \<Rightarrow> Directory option" where
  "mark_chain m ix stop link d =
     (if link \<noteq> stop then
        let allocationAddress = link + 2 * 8;
            d' = MarkAsFree d (AllocationIndexOf d allocationAddress)
        in mark_chain m ix stop (demangle ix allocationAddress (word_or m allocationAddress 0xBAD)) d'
      else Some d)"

definition MarkFastBinItemsAsFree ::
  "VirtualAddressMap \<Rightarrow> Infrastructure \<Rightarrow> ThreadMap \<Rightarrow> Arena \<Rightarrow> bool \<Rightarrow> nat \<Rightarrow> free_state \<Rightarrow> free_state option" where
  "MarkFastBinItemsAsFree m ix tm ar isMainArena finderIndex st =
     (let arena = ar_address ar in
      case fast_bin_loop m ix arena (arena + fastBinLimitOffset ix) (arena + fastBinStartOffset ix) st of
        None \<Rightarrow> None
      | Some (st', True) \<Rightarrow> Some st'
      | Some ((d, reps), False) \<Rightarrow>
          if u32_or m arena 0 \<noteq> 0 then
            (case thread_chains m ix d arena isMainArena finderIndex (numRegisters tm) (threads tm) (0, 0, 0) of
               None \<Rightarrow> None
             | Some (maxChainLength, longestChainStart, stop) \<Rightarrow>
                 if maxChainLength > 0 then map_option (\<lambda>d'. (d', reps)) (mark_chain m ix stop longestChainStart d)
                 else Some (d, reps))
          else Some (d, reps))"

section \<open>Doubly linked free lists\<close>

text \<open>
  The tests on one node.  The read that raises \<open>NotMapped\<close> ends the list with its address; the first report
  ends it too.
\<close>

datatype node_check = Node_ok addr | Node_bad report | Node_unmapped addr

definition check_node ::
  "VirtualAddressMap \<Rightarrow> Infrastructure \<Rightarrow> Directory \<Rightarrow> addr \<Rightarrow> addr \<Rightarrow> addr \<Rightarrow> addr \<Rightarrow> node_check" where
  "check_node m ix d arena lst prevNode node =
     (let hdr = lst + 2 * 8; allocationAddr = node + 2 * 8 in
      case AllocationAt d (AllocationIndexOf d allocationAddr) of
        None \<Rightarrow> Node_bad (hdr, node, ''not matching an allocation'')
      | Some al \<Rightarrow>
          if al_Address al \<noteq> allocationAddr then
            (if prevNode = lst then Node_bad (hdr, node, ''with wrong offset from allocation'')
             else Node_bad (hdr, prevNode, ''with an unexpected forward link''))
          else
            let allocationSize = al_Size al in
            (case word_at m (allocationAddr + allocationSize) of
               None \<Rightarrow> Node_unmapped (allocationAddr + allocationSize)
             | Some nextSize \<Rightarrow>
                 if nextSize AND 1 \<noteq> 0 then Node_bad (hdr, node, ''with a wrong used/free status bit'')
                 else if ArenaAddressFor ix node \<noteq> arena then Node_bad (hdr, node, ''in the wrong arena'')
                 else
                   (case word_at m (node + 3 * 8) of
                      None \<Rightarrow> Node_unmapped (node + 3 * 8)
                    | Some back \<Rightarrow>
                        if back \<noteq> prevNode then Node_bad (hdr, node, ''with an unexpected back pointer'')
                        else
                          (case word_at m (allocationAddr + allocationSize - 8) of
                             None \<Rightarrow> Node_unmapped (allocationAddr + allocationSize - 8)
                           | Some prevSize \<Rightarrow>
                               if prevSize \<noteq> allocationSize + 8
                               then Node_bad (hdr, node, ''with a wrong prev size at end'')
                               else
                                 (case word_at m (node + 2 * 8) of
                                    None \<Rightarrow> Node_unmapped (node + 2 * 8)
                                  | Some nextNode \<Rightarrow> Node_ok nextNode)))))"

partial_function (option) check_nodes ::
  "VirtualAddressMap \<Rightarrow> Infrastructure \<Rightarrow> Directory \<Rightarrow> addr \<Rightarrow> addr \<Rightarrow> addr \<Rightarrow> addr \<Rightarrow> report list option" where
  "check_nodes m ix d arena lst prevNode node =
     (if node = lst then Some []
      else
        (case check_node m ix d arena lst prevNode node of
           Node_ok nextNode \<Rightarrow> check_nodes m ix d arena lst node nextNode
         | Node_bad rep \<Rightarrow> Some [rep]
         | Node_unmapped a \<Rightarrow> Some [(lst + 2 * 8, a, ''not in the core'')]))"

definition check_list :: "VirtualAddressMap \<Rightarrow> Infrastructure \<Rightarrow> Directory \<Rightarrow> addr \<Rightarrow> addr \<Rightarrow> report list option" where
  "check_list m ix d arena lst =
     (let hdr = lst + 2 * 8 in
      case word_at m (lst + 2 * 8) of
        None \<Rightarrow> Some [(hdr, lst + 2 * 8, ''not in the core'')]
      | Some firstNode \<Rightarrow>
          (case word_at m (lst + 3 * 8) of
             None \<Rightarrow> Some [(hdr, lst + 3 * 8, ''not in the core'')]
           | Some lastNode \<Rightarrow>
               if firstNode = lst then
                 if lastNode \<noteq> lst then Some [(hdr, lastNode, ''at end of list with empty start'')] else Some []
               else if lastNode = lst then Some [(hdr, lastNode, ''at start of list with empty end'')]
               else check_nodes m ix d arena lst lst firstNode))"

partial_function (option) check_lists ::
  "VirtualAddressMap \<Rightarrow> Infrastructure \<Rightarrow> Directory \<Rightarrow> addr \<Rightarrow> addr \<Rightarrow> addr \<Rightarrow> report list \<Rightarrow> report list option" where
  "check_lists m ix d arena lastList lst reps =
     (if lst \<le> lastList then
        (case check_list m ix d arena lst of
           None \<Rightarrow> None
         | Some new \<Rightarrow> check_lists m ix d arena lastList (lst + 2 * 8) (reps @ new))
      else Some reps)"

definition CheckDoublyLinkedListCorruption ::
  "VirtualAddressMap \<Rightarrow> Infrastructure \<Rightarrow> Directory \<Rightarrow> Arena \<Rightarrow> report list option" where
  "CheckDoublyLinkedListCorruption m ix d ar =
     (if missingOrUnfilledHeader ar then Some []
      else
        let arena = ar_address ar in
        check_lists m ix d arena (arena + lastDoublyLinkedFreeListOffset ix - 2 * 8)
          (arena + doublyLinkedFreeListOffset ix - 2 * 8) [])"

end
