(* ===== verification/Arena_Finders.thy ===== *)
theory Arena_Finders
  imports Corruption_Skipper Free_Status
begin

text \<open>
  The classes \<open>MainArenaAllocationFinder\<close> and \<open>HeapAllocationFinder\<close> of LibcMalloc: they walk the chunks of
  the runs of the main arena and of the heaps of the other arenas, and report one allocation per chunk.  At
  the end they have the free status fixed and the free lists checked.  What is written to the error stream
  about corrupt runs is left out.  \<open>None\<close> is an abort, an exception that nothing catches, an access out of
  range or a loop that does not end.
\<close>

section \<open>State\<close>

text \<open>What both finders keep; members that the constructor leaves undefined are 0 until they are set.\<close>

record ChunkWalk =
  allocationAddress :: addr
  allocationSize :: addr
  allocationIsUsed :: bool
  wk_base :: addr
  wk_limit :: addr
  wk_chunkSize :: addr
  wk_prevCheck :: addr
  wk_check :: addr
  wk_sizeAndFlags :: addr

record MainFinder = ChunkWalk +
  runsLeft :: "(addr \<times> addr) list"

record HeapFinder = ChunkWalk +
  heapsLeft :: "(addr \<times> Heap) list"
  wk_checkLimit :: addr
  wk_top :: addr

section \<open>The main arena\<close>

definition StartMainArenaRun :: "VirtualAddressMap \<Rightarrow> MainFinder \<Rightarrow> MainFinder option" where
  "StartMainArenaRun m f =
     (case runsLeft f of
        [] \<Rightarrow> None
      | (base, sz) # _ \<Rightarrow>
          (case word_at m (base + 8) of
             None \<Rightarrow> None
           | Some w \<Rightarrow>
               Some (f\<lparr>wk_base := base, wk_limit := base + sz, wk_sizeAndFlags := w, wk_chunkSize := 0,
                       wk_prevCheck := base, wk_check := base\<rparr>)))"

text \<open>\<open>HandleMainArenaCorruption\<close> and what the walk makes of its result: the state to go on with, if any.\<close>

definition main_corruption ::
  "VirtualAddressMap \<Rightarrow> Infrastructure \<Rightarrow> MainFinder \<Rightarrow> (bool \<times> MainFinder) option" where
  "main_corruption m ix f =
     (case SkipArenaCorruption m ix (mainArenaAddress ix) (wk_prevCheck f) (wk_limit f) of
        None \<Rightarrow> None
      | Some c \<Rightarrow>
          if c \<noteq> 0 then
            (case word_at m (c + 8) of
               None \<Rightarrow> None
             | Some w \<Rightarrow>
                 Some (True, f\<lparr>wk_check := c, wk_chunkSize := 0, wk_prevCheck := c, wk_sizeAndFlags := w\<rparr>))
          else Some (False, f\<lparr>wk_check := c\<rparr>))"

text \<open>The chunk at \<open>check\<close> is reported.\<close>

definition main_chunk :: "VirtualAddressMap \<Rightarrow> MainFinder \<Rightarrow> MainFinder option" where
  "main_chunk m f =
     (let chunk = wk_chunkSize f;
          f1 = f\<lparr>allocationAddress := wk_check f + 2 * 8, allocationSize := chunk - 8, allocationIsUsed := False\<rparr>
      in case (if wk_check f + chunk = wk_limit f then Some (f1\<lparr>allocationSize := allocationSize f1 - 8\<rparr>)
               else (case word_at m (wk_check f + 8 + chunk) of
                       None \<Rightarrow> None
                     | Some w \<Rightarrow> Some (f1\<lparr>wk_sizeAndFlags := w, allocationIsUsed := (w AND 1 \<noteq> 0)\<rparr>))) of
           None \<Rightarrow> None
         | Some f2 \<Rightarrow> Some (f2\<lparr>wk_prevCheck := wk_check f, wk_check := wk_check f + chunk\<rparr>))"

partial_function (option) AdvanceToNextAllocationOfRun ::
  "VirtualAddressMap \<Rightarrow> Infrastructure \<Rightarrow> MainFinder \<Rightarrow> (bool \<times> MainFinder) option" where
  "AdvanceToNextAllocationOfRun m ix f =
     (if wk_check f < wk_limit f then
        if wk_sizeAndFlags f AND (8 OR 6) \<noteq> 0 then
          (case main_corruption m ix f of
             None \<Rightarrow> None
           | Some (goOn, f') \<Rightarrow> if goOn then AdvanceToNextAllocationOfRun m ix f' else Some (False, f'))
        else
          let f1 = f\<lparr>wk_chunkSize := wk_sizeAndFlags f AND NOT 7\<rparr> in
          if wk_chunkSize f1 = 0 \<or> wk_chunkSize f1 > wk_limit f1 - wk_check f1 then
            (case main_corruption m ix f1 of
               None \<Rightarrow> None
             | Some (goOn, f') \<Rightarrow> if goOn then AdvanceToNextAllocationOfRun m ix f' else Some (False, f'))
          else
            (case main_chunk m f1 of None \<Rightarrow> None | Some f' \<Rightarrow> Some (True, f'))
      else Some (False, f))"

text \<open>The loop of \<open>Advance\<close> over the runs; the finder is finished when no run is left.\<close>

fun main_next :: "VirtualAddressMap \<Rightarrow> Infrastructure \<Rightarrow> (addr \<times> addr) list \<Rightarrow> MainFinder \<Rightarrow> MainFinder option" where
  "main_next m ix [] f = Some f"
| "main_next m ix (run # rest) f =
     (case AdvanceToNextAllocationOfRun m ix f of
        None \<Rightarrow> None
      | Some (True, f') \<Rightarrow> Some f'
      | Some (False, f') \<Rightarrow>
          (let f'' = f'\<lparr>runsLeft := rest\<rparr> in
           if rest = [] then Some f''
           else Option.bind (StartMainArenaRun m f'') (main_next m ix rest)))"

text \<open>What is done at the end: the free status is fixed, then the free lists are checked.\<close>

definition finish_arena ::
  "VirtualAddressMap \<Rightarrow> Infrastructure \<Rightarrow> ThreadMap \<Rightarrow> bool \<Rightarrow> nat \<Rightarrow> Arena \<Rightarrow> free_state \<Rightarrow> free_state option" where
  "finish_arena m ix tm isMain finderIndex ar st =
     (case MarkFastBinItemsAsFree m ix tm ar isMain finderIndex st of
        None \<Rightarrow> None
      | Some (d, reps) \<Rightarrow>
          map_option (\<lambda>new. (d, reps @ new)) (CheckDoublyLinkedListCorruption m ix d ar))"

definition main_Finished :: "MainFinder \<Rightarrow> bool" where
  "main_Finished f \<longleftrightarrow> runsLeft f = []"

definition main_Advance ::
  "VirtualAddressMap \<Rightarrow> Infrastructure \<Rightarrow> ThreadMap \<Rightarrow> nat \<Rightarrow> MainFinder \<Rightarrow> free_state
   \<Rightarrow> (MainFinder \<times> free_state) option" where
  "main_Advance m ix tm finderIndex f st =
     (if main_Finished f then Some (f, st)
      else
        (case main_next m ix (runsLeft f) f of
           None \<Rightarrow> None
         | Some f' \<Rightarrow>
             if main_Finished f' then
               Option.bind (sm_find (arenas ix) (mainArenaAddress ix)) (\<lambda>ar.
                 map_option (Pair f') (finish_arena m ix tm True finderIndex ar st))
             else Some (f', st)))"

text \<open>
  The constructor.  It advances before \<open>AddFinder\<close> has given the finder its index: until then the member
  \<open>_finderIndex\<close> holds what happens to be there, the argument \<open>undefinedIndex\<close>.
\<close>

definition MainFinder_init :: "Infrastructure \<Rightarrow> MainFinder" where
  "MainFinder_init ix =
     \<lparr>allocationAddress = 0, allocationSize = 0, allocationIsUsed = False, wk_base = 0, wk_limit = 0,
      wk_chunkSize = 0, wk_prevCheck = 0, wk_check = 0, wk_sizeAndFlags = 0, runsLeft = mainArenaRuns ix\<rparr>"

definition MainArenaAllocationFinder_new ::
  "VirtualAddressMap \<Rightarrow> Infrastructure \<Rightarrow> ThreadMap \<Rightarrow> nat \<Rightarrow> nat \<Rightarrow> free_state
   \<Rightarrow> (MainFinder \<times> nat \<times> free_state) option" where
  "MainArenaAllocationFinder_new m ix tm undefinedIndex self st =
     (case (if mainArenaRuns ix = [] then Some (MainFinder_init ix, st)
            else Option.bind (StartMainArenaRun m (MainFinder_init ix)) (\<lambda>f.
                   main_Advance m ix tm undefinedIndex f st)) of
        None \<Rightarrow> None
      | Some (f, (d, reps)) \<Rightarrow>
          (case AddFinder d self of
             None \<Rightarrow> None
           | Some (d', finderIndex) \<Rightarrow> Some (f, finderIndex, (d', reps))))"

definition libc_MinRequestSize :: "addr \<Rightarrow> addr" where
  "libc_MinRequestSize sz = (if sz \<le> 5 * 8 then 0 else sz - 0x1F)"

section \<open>The heaps of the other arenas\<close>

definition SkipHeaders :: "VirtualAddressMap \<Rightarrow> Infrastructure \<Rightarrow> HeapFinder \<Rightarrow> HeapFinder option" where
  "SkipHeaders m ix f =
     (case heapsLeft f of
        [] \<Rightarrow> None
      | (_, heap) # _ \<Rightarrow>
          let base0 = heapAddress heap;
              numBytesFound = fst (FindMappedMemoryImage m base0);
              sz = (if numBytesFound < heapSize heap then numBytesFound else heapSize heap);
              limit = base0 + sz;
              base = (if arenaAddress heap AND NOT (maxHeapSize ix - 1) = base0
                      then base0 + (heapHeaderSize ix + arenaStructSize ix) else base0 + heapHeaderSize ix)
          in case sm_find (arenas ix) (arenaAddress heap) of
               None \<Rightarrow> None
             | Some ar \<Rightarrow>
                 (case word_at m (base + 8) of
                    None \<Rightarrow> None
                  | Some w \<Rightarrow>
                      Some (f\<lparr>wk_base := base, wk_limit := limit, wk_top := arenaTop ar, wk_sizeAndFlags := w,
                              wk_chunkSize := 0, wk_prevCheck := base, wk_check := base,
                              wk_checkLimit := limit - 4 * 8\<rparr>)))"

definition HandleNonMainArenaCorruption ::
  "VirtualAddressMap \<Rightarrow> Infrastructure \<Rightarrow> Heap \<Rightarrow> addr \<Rightarrow> addr option" where
  "HandleNonMainArenaCorruption m ix heap corruptionPoint =
     SkipArenaCorruption m ix (arenaAddress heap) corruptionPoint (heapAddress heap + heapSize heap)"

definition heap_corruption ::
  "VirtualAddressMap \<Rightarrow> Infrastructure \<Rightarrow> Heap \<Rightarrow> HeapFinder \<Rightarrow> (bool \<times> HeapFinder) option" where
  "heap_corruption m ix heap f =
     (case HandleNonMainArenaCorruption m ix heap (wk_prevCheck f) of
        None \<Rightarrow> None
      | Some c \<Rightarrow>
          if c \<noteq> 0 then
            let w = word_or m (c + 8) 0xBADBAD;
                f' = f\<lparr>wk_check := c, wk_chunkSize := 0, wk_sizeAndFlags := w\<rparr>
            in if w \<noteq> 0xBADBAD then Some (True, f'\<lparr>wk_prevCheck := c\<rparr>) else Some (False, f')
          else Some (False, f\<lparr>wk_check := c\<rparr>))"

text \<open>The chunk at \<open>check\<close>: the flag says that it is reported; otherwise the heap ends there.\<close>

definition heap_chunk ::
  "VirtualAddressMap \<Rightarrow> Infrastructure \<Rightarrow> addr \<Rightarrow> HeapFinder \<Rightarrow> (bool \<times> HeapFinder) option" where
  "heap_chunk m ix heapKey f =
     (let chunk = wk_chunkSize f; f1 = f\<lparr>allocationSize := chunk - 8\<rparr>;
          atEnd = (wk_check f + chunk = wk_limit f);
          w = word_or m (wk_check f + 8 + chunk) 0xBADBAD;
          f2 = (if atEnd then f1\<lparr>allocationSize := allocationSize f1 - 8\<rparr> else f1\<lparr>wk_sizeAndFlags := w\<rparr>)
      in if \<not> atEnd \<and> w = 0xBADBAD then Some (False, f2)
         else
           let isFree = (if atEnd then True else w AND 1 = 0 \<or> allocationSize f2 < 3 * 8) in
           if wk_check f2 + allocationSize f2 + 3 * 8 = wk_limit f2 \<and> wk_sizeAndFlags f2 AND NOT 7 = 0
           then Some (False, f2)
           else
             let f3 = f2\<lparr>allocationAddress := wk_check f2 + 2 * 8\<rparr> in
             (case (if isFree then
                      (if wk_check f3 = wk_top f3 then
                         (case vam_find m (wk_top f3) of
                            None \<Rightarrow> None
                          | Some it \<Rightarrow>
                              let endHeapRange = heapKey + maxHeapSize ix;
                                  endWritableInHeap = (if it_Limit it > endHeapRange then endHeapRange else it_Limit it)
                              in Some (f3\<lparr>allocationSize := endWritableInHeap - allocationAddress f3,
                                          allocationIsUsed := False\<rparr>))
                       else Some (f3\<lparr>allocationIsUsed := False\<rparr>))
                    else Some (f3\<lparr>allocationIsUsed := True\<rparr>)) of
                None \<Rightarrow> None
              | Some f4 \<Rightarrow> Some (True, f4\<lparr>wk_prevCheck := wk_check f4, wk_check := wk_check f4 + chunk\<rparr>)))"

partial_function (option) AdvanceToNextAllocationOfHeap ::
  "VirtualAddressMap \<Rightarrow> Infrastructure \<Rightarrow> addr \<Rightarrow> Heap \<Rightarrow> HeapFinder \<Rightarrow> (bool \<times> HeapFinder) option" where
  "AdvanceToNextAllocationOfHeap m ix heapKey heap f =
     (if wk_check f < wk_checkLimit f then
        if wk_sizeAndFlags f AND 2 \<noteq> 0 \<or> wk_sizeAndFlags f AND 8 \<noteq> 0 then
          (case heap_corruption m ix heap f of
             None \<Rightarrow> None
           | Some (goOn, f') \<Rightarrow> if goOn then AdvanceToNextAllocationOfHeap m ix heapKey heap f' else Some (False, f'))
        else
          let f1 = f\<lparr>wk_chunkSize := wk_sizeAndFlags f AND NOT 7\<rparr> in
          if wk_chunkSize f1 = 0 \<or> wk_chunkSize f1 \<ge> 0x10000000 \<or> wk_chunkSize f1 > wk_limit f1 - wk_check f1 then
            (case heap_corruption m ix heap f1 of
               None \<Rightarrow> None
             | Some (goOn, f') \<Rightarrow> if goOn then AdvanceToNextAllocationOfHeap m ix heapKey heap f' else Some (False, f'))
          else heap_chunk m ix heapKey f1
      else Some (False, f))"

fun heap_next ::
  "VirtualAddressMap \<Rightarrow> Infrastructure \<Rightarrow> (addr \<times> Heap) list \<Rightarrow> HeapFinder \<Rightarrow> HeapFinder option" where
  "heap_next m ix [] f = Some f"
| "heap_next m ix ((key, heap) # rest) f =
     (case AdvanceToNextAllocationOfHeap m ix key heap f of
        None \<Rightarrow> None
      | Some (True, f') \<Rightarrow> Some f'
      | Some (False, f') \<Rightarrow>
          (let f'' = f'\<lparr>heapsLeft := rest\<rparr> in
           if rest = [] then Some f''
           else Option.bind (SkipHeaders m ix f'') (heap_next m ix rest)))"

definition heap_Finished :: "HeapFinder \<Rightarrow> bool" where
  "heap_Finished f \<longleftrightarrow> heapsLeft f = []"

fun finish_arenas ::
  "VirtualAddressMap \<Rightarrow> Infrastructure \<Rightarrow> ThreadMap \<Rightarrow> nat \<Rightarrow> (addr, Arena) std_map \<Rightarrow> free_state
   \<Rightarrow> free_state option" where
  "finish_arenas m ix tm finderIndex [] st = Some st"
| "finish_arenas m ix tm finderIndex ((address, ar) # ars) st =
     (if address \<noteq> mainArenaAddress ix then
        Option.bind (finish_arena m ix tm False finderIndex ar st) (finish_arenas m ix tm finderIndex ars)
      else finish_arenas m ix tm finderIndex ars st)"

definition heap_Advance ::
  "VirtualAddressMap \<Rightarrow> Infrastructure \<Rightarrow> ThreadMap \<Rightarrow> nat \<Rightarrow> HeapFinder \<Rightarrow> free_state
   \<Rightarrow> (HeapFinder \<times> free_state) option" where
  "heap_Advance m ix tm finderIndex f st =
     (if heap_Finished f then Some (f, st)
      else
        (case heap_next m ix (heapsLeft f) f of
           None \<Rightarrow> None
         | Some f' \<Rightarrow>
             if heap_Finished f' then map_option (Pair f') (finish_arenas m ix tm finderIndex (arenas ix) st)
             else Some (f', st)))"

definition HeapFinder_init :: "Infrastructure \<Rightarrow> HeapFinder" where
  "HeapFinder_init ix =
     \<lparr>allocationAddress = 0, allocationSize = 0, allocationIsUsed = False, wk_base = 0, wk_limit = 0,
      wk_chunkSize = 0, wk_prevCheck = 0, wk_check = 0, wk_sizeAndFlags = 0, heapsLeft = heaps ix,
      wk_checkLimit = 0, wk_top = 0\<rparr>"

definition HeapAllocationFinder_new ::
  "VirtualAddressMap \<Rightarrow> Infrastructure \<Rightarrow> ThreadMap \<Rightarrow> nat \<Rightarrow> nat \<Rightarrow> free_state
   \<Rightarrow> (HeapFinder \<times> nat \<times> free_state) option" where
  "HeapAllocationFinder_new m ix tm undefinedIndex self st =
     (case (if heaps ix = [] then Some (HeapFinder_init ix, st)
            else Option.bind (SkipHeaders m ix (HeapFinder_init ix)) (\<lambda>f.
                   heap_Advance m ix tm undefinedIndex f st)) of
        None \<Rightarrow> None
      | Some (f, (d, reps)) \<Rightarrow>
          (case AddFinder d self of
             None \<Rightarrow> None
           | Some (d', finderIndex) \<Rightarrow> Some (f, finderIndex, (d', reps))))"

end
