(* ===== verification/Alloc_Resolve.thy ===== *)
theory Alloc_Resolve
  imports Alloc_Directory
begin

text \<open>
  \<open>Directory::ResolveAllocationBoundaries\<close> of Allocations/Directory.h: the merge of the allocations
  that the finders report into one list in order of address, larger allocations first where addresses
  are equal.  One and two finders have loops of their own, three and more are kept in a heap.

  The theory models the loops as the code has them.  With at most four finders that report anything the
  merge ends and is correct; from five on, the function that puts a finder back into the heap can fail
  to end, because its loop never descends.  \<open>std::make_heap\<close> belongs to the standard library, which
  fixes only that the result is a heap; it is a parameter, and \<open>makes_heap\<close> states what it promises.
\<close>

section \<open>The loops for one and for two finders\<close>

type_synonym key = "addr \<times> addr"

text \<open>\<open>NextAddress\<close> and \<open>NextSize\<close>, which are undefined for a finder that is finished.\<close>

definition next_key :: "finders \<Rightarrow> nat \<Rightarrow> key option" where
  "next_key fs finder = (case fs finder of [] \<Rightarrow> None | (address, sz, isUsed) # _ \<Rightarrow> Some (address, sz))"

definition Finished :: "finders \<Rightarrow> nat \<Rightarrow> bool" where
  "Finished fs finder = (fs finder = [])"

partial_function (option) append_loop ::
  "Directory \<Rightarrow> finders \<Rightarrow> nat \<Rightarrow> nat \<Rightarrow> (Directory \<times> finders) option" where
  "append_loop d fs finderIndex finder =
     (if Finished fs finder then Some (d, fs)
      else Option.bind (ConsumeCurrentAllocation d fs finderIndex finder) (\<lambda>(d', fs').
             append_loop d' fs' finderIndex finder))"

definition AppendRemainingAllocationsFromFinder ::
  "Directory \<Rightarrow> finders \<Rightarrow> nat \<Rightarrow> (Directory \<times> finders) option" where
  "AppendRemainingAllocationsFromFinder d fs finderIndex =
     append_loop d fs finderIndex (indexToFinder d ! finderIndex)"

partial_function (option) append_two_loop ::
  "Directory \<Rightarrow> finders \<Rightarrow> nat \<Rightarrow> nat \<Rightarrow> key \<Rightarrow> nat \<Rightarrow> nat \<Rightarrow> key \<Rightarrow> (Directory \<times> finders) option" where
  "append_two_loop d fs finderIndex0 finder0 key0 finderIndex1 finder1 key1 =
     (case key0 of (address0, size0) \<Rightarrow> case key1 of (address1, size1) \<Rightarrow>
        if address0 < address1 \<or> (address0 = address1 \<and> size0 > size1) then
          Option.bind (ConsumeCurrentAllocation d fs finderIndex0 finder0) (\<lambda>(d', fs').
            if Finished fs' finder0 then AppendRemainingAllocationsFromFinder d' fs' finderIndex1
            else Option.bind (next_key fs' finder0) (\<lambda>key0'.
                   append_two_loop d' fs' finderIndex0 finder0 key0' finderIndex1 finder1 key1))
        else
          Option.bind (ConsumeCurrentAllocation d fs finderIndex1 finder1) (\<lambda>(d', fs').
            if Finished fs' finder1 then AppendRemainingAllocationsFromFinder d' fs' finderIndex0
            else Option.bind (next_key fs' finder1) (\<lambda>key1'.
                   append_two_loop d' fs' finderIndex0 finder0 key0 finderIndex1 finder1 key1')))"

definition AppendRemainingAllocationsFromTwo ::
  "Directory \<Rightarrow> finders \<Rightarrow> nat \<Rightarrow> nat \<Rightarrow> (Directory \<times> finders) option" where
  "AppendRemainingAllocationsFromTwo d fs finderIndex0 finderIndex1 =
     (let finder0 = indexToFinder d ! finderIndex0; finder1 = indexToFinder d ! finderIndex1 in
      Option.bind (next_key fs finder0) (\<lambda>key0.
      Option.bind (next_key fs finder1) (\<lambda>key1.
        append_two_loop d fs finderIndex0 finder0 key0 finderIndex1 finder1 key1)))"

section \<open>The heap\<close>

text \<open>
  The loop of \<open>Place\<close>.  \<open>leftChild\<close> and \<open>rightChild\<close> are set before it and never again.  The flag says
  that the function returned from inside the loop.
\<close>

partial_function (option) Place_loop ::
  "(nat \<Rightarrow> key option) \<Rightarrow> addr \<Rightarrow> nat \<Rightarrow> nat \<Rightarrow> nat \<Rightarrow> nat list \<Rightarrow> nat \<Rightarrow> (bool \<times> nat list \<times> nat) option" where
  "Place_loop finder_key address finderIndex leftChild rightChild activeFinders heapIndex =
     (if rightChild < length activeFinders then
        Option.bind (finder_key (activeFinders ! leftChild)) (\<lambda>(leftAddress, leftSize).
        Option.bind (finder_key (activeFinders ! rightChild)) (\<lambda>(rightAddress, rightSize).
          if leftAddress < rightAddress \<or> (leftAddress = rightAddress \<and> leftSize > rightSize) then
            if address < leftAddress \<or> (address = leftAddress \<and> address \<ge> leftSize)
            then Some (True, activeFinders[heapIndex := finderIndex], heapIndex)
            else Place_loop finder_key address finderIndex leftChild rightChild
                   (activeFinders[heapIndex := activeFinders ! leftChild]) leftChild
          else
            if address < rightAddress \<or> (address = rightAddress \<and> address \<ge> rightSize)
            then Some (True, activeFinders[heapIndex := finderIndex], heapIndex)
            else Place_loop finder_key address finderIndex leftChild rightChild
                   (activeFinders[heapIndex := activeFinders ! rightChild]) rightChild))
      else Some (False, activeFinders, heapIndex))"

definition Place ::
  "(nat \<Rightarrow> key option) \<Rightarrow> addr \<Rightarrow> addr \<Rightarrow> nat \<Rightarrow> nat list \<Rightarrow> nat \<Rightarrow> nat list option" where
  "Place finder_key address sz finderIndex activeFinders0 heapIndex0 =
     (let heapSize = length activeFinders0; leftChild = 2 * heapIndex0 + 1; rightChild = leftChild + 1 in
      Option.bind (Place_loop finder_key address finderIndex leftChild rightChild activeFinders0 heapIndex0)
        (\<lambda>(returned, activeFinders, heapIndex).
           if returned then Some activeFinders
           else if leftChild < heapSize then
             Option.bind (finder_key (activeFinders ! leftChild)) (\<lambda>(leftAddress, leftSize).
               if address < leftAddress \<or> (address = leftAddress \<and> sz > leftSize)
               then Some (activeFinders[heapIndex := finderIndex])
               else Some (activeFinders[heapIndex := activeFinders ! leftChild, leftChild := finderIndex]))
           else Some (activeFinders[heapIndex := finderIndex])))"

text \<open>The variables of the loop over the heap.\<close>

record merge_state =
  ms_dir :: Directory
  ms_finders :: finders
  ms_active :: "nat list"
  ms_numActive :: nat
  ms_topIndex :: nat
  ms_topFinder :: nat
  ms_leftFinder :: nat
  ms_left :: key
  ms_rightFinder :: nat
  ms_right :: key
  ms_leftIsNext :: bool
  ms_next :: key

definition left_is_next :: "key \<Rightarrow> key \<Rightarrow> bool" where
  "left_is_next left right =
     (case left of (leftAddress, leftSize) \<Rightarrow> case right of (rightAddress, rightSize) \<Rightarrow>
        leftAddress < rightAddress \<or> (leftAddress = rightAddress \<and> leftSize \<ge> rightSize))"

definition choose_next :: "merge_state \<Rightarrow> merge_state" where
  "choose_next s =
     (let b = left_is_next (ms_left s) (ms_right s)
      in s\<lparr>ms_leftIsNext := b, ms_next := (if b then ms_left s else ms_right s)\<rparr>)"

text \<open>The part of the loop body after the top finder has been settled.\<close>

definition merge_reorder :: "merge_state \<Rightarrow> merge_state option" where
  "merge_reorder s =
     (let fs = ms_finders s; i2f = (!) (indexToFinder (ms_dir s)); finder_key = (\<lambda>i. next_key fs (i2f i)) in
      Option.bind (next_key fs (ms_topFinder s)) (\<lambda>(topAddress, topSize).
        case ms_next s of (nextAddress, nextSize) \<Rightarrow>
        if nextAddress < topAddress \<or> (nextAddress = topAddress \<and> nextSize > topSize) then
          let finderIndex = ms_topIndex s in
          if ms_leftIsNext s then
            let topIndex = ms_active s ! 1; active = (ms_active s)[0 := topIndex] in
            Option.bind (Place finder_key topAddress topSize finderIndex active 1) (\<lambda>active'.
              let leftFinder = i2f (active' ! 1) in
              Option.bind (next_key fs leftFinder) (\<lambda>left.
                Some (choose_next (s\<lparr>ms_active := active', ms_topIndex := topIndex, ms_topFinder := ms_leftFinder s,
                                     ms_leftFinder := leftFinder, ms_left := left\<rparr>))))
          else
            let topIndex = ms_active s ! 2; active = (ms_active s)[0 := topIndex] in
            Option.bind (Place finder_key topAddress topSize finderIndex active 2) (\<lambda>active'.
              let rightFinder = i2f (active' ! 2) in
              Option.bind (next_key fs rightFinder) (\<lambda>right.
                Some (choose_next (s\<lparr>ms_active := active', ms_topIndex := topIndex, ms_topFinder := ms_rightFinder s,
                                     ms_rightFinder := rightFinder, ms_right := right\<rparr>))))
        else Some s))"

text \<open>One iteration of the loop; \<open>Inr\<close> is its return.\<close>

definition merge_step :: "merge_state \<Rightarrow> (merge_state + Directory \<times> finders) option" where
  "merge_step s =
     Option.bind (ConsumeCurrentAllocation (ms_dir s) (ms_finders s) (ms_topIndex s) (ms_topFinder s)) (\<lambda>(d', fs').
       let s1 = s\<lparr>ms_dir := d', ms_finders := fs'\<rparr> in
       if Finished fs' (ms_topFinder s) then
         let lastFinderIndex = ms_active s ! (ms_numActive s - 1); active = butlast (ms_active s);
             n = ms_numActive s - 1
         in if n = 2 then map_option Inr (AppendRemainingAllocationsFromTwo d' fs' lastFinderIndex (active ! 1))
            else map_option Inl (merge_reorder
                   (s1\<lparr>ms_active := active[0 := lastFinderIndex], ms_numActive := n,
                       ms_topIndex := lastFinderIndex, ms_topFinder := indexToFinder d' ! lastFinderIndex\<rparr>))
       else map_option Inl (merge_reorder s1))"

partial_function (option) merge_loop :: "merge_state \<Rightarrow> (Directory \<times> finders) option" where
  "merge_loop s =
     Option.bind (merge_step s) (\<lambda>r. case r of Inl s' \<Rightarrow> merge_loop s' | Inr res \<Rightarrow> Some res)"

text \<open>The comparison handed to \<open>std::make_heap\<close>, on the indices of unfinished finders.\<close>

definition heap_comp :: "Directory \<Rightarrow> finders \<Rightarrow> nat \<Rightarrow> nat \<Rightarrow> bool" where
  "heap_comp d fs left right =
     (case (next_key fs (indexToFinder d ! left), next_key fs (indexToFinder d ! right)) of
        (Some (leftAddress, leftSize), Some (rightAddress, rightSize)) \<Rightarrow>
          leftAddress > rightAddress \<or> (leftAddress = rightAddress \<and> leftSize < rightSize)
      | _ \<Rightarrow> False)"

type_synonym heap_maker = "(nat \<Rightarrow> nat \<Rightarrow> bool) \<Rightarrow> nat list \<Rightarrow> nat list"

definition AppendRemainingAllocationsFromFinders ::
  "heap_maker \<Rightarrow> Directory \<Rightarrow> finders \<Rightarrow> nat list \<Rightarrow> (Directory \<times> finders) option" where
  "AppendRemainingAllocationsFromFinders make_heap d fs activeFinders =
     (let numActiveFinders = length activeFinders; active = make_heap (heap_comp d fs) activeFinders;
          i2f = (!) (indexToFinder d); leftFinder = i2f (active ! 1); rightFinder = i2f (active ! 2)
      in Option.bind (next_key fs leftFinder) (\<lambda>left.
         Option.bind (next_key fs rightFinder) (\<lambda>right.
           merge_loop (choose_next
             \<lparr>ms_dir = d, ms_finders = fs, ms_active = active, ms_numActive = numActiveFinders,
              ms_topIndex = active ! 0, ms_topFinder = i2f (active ! 0),
              ms_leftFinder = leftFinder, ms_left = left, ms_rightFinder = rightFinder, ms_right = right,
              ms_leftIsNext = True, ms_next = left\<rparr>))))"

text \<open>
  \<open>ResolveAllocationBoundaries\<close>.  The last component of the result is the list of the callbacks in the
  order in which they are called.
\<close>

definition ResolveAllocationBoundaries ::
  "heap_maker \<Rightarrow> Directory \<Rightarrow> finders \<Rightarrow> (Directory \<times> finders \<times> nat list) option" where
  "ResolveAllocationBoundaries make_heap d fs =
     (if allocationBoundariesResolved d then None
      else
        let activeFinders = filter (\<lambda>i. \<not> Finished fs (indexToFinder d ! i)) [0..<length (indexToFinder d)];
            appended =
              (if activeFinders = [] then Some (d, fs)
               else if length activeFinders = 1 then AppendRemainingAllocationsFromFinder d fs (activeFinders ! 0)
               else if length activeFinders = 2 then
                 AppendRemainingAllocationsFromTwo d fs (activeFinders ! 0) (activeFinders ! 1)
               else AppendRemainingAllocationsFromFinders make_heap d fs activeFinders)
        in Option.bind appended (\<lambda>(d', fs').
             Some (d'\<lparr>allocationBoundariesResolved := True\<rparr>, fs', resolutionDoneCallbacks d')))"

section \<open>The order of the merge\<close>

definition kle :: "key \<Rightarrow> key \<Rightarrow> bool" where
  "kle k l = (fst k < fst l \<or> (fst k = fst l \<and> snd k \<ge> snd l))"

lemma kle_refl [simp]: "kle k k" by (simp add: kle_def)
lemma kle_trans: "kle k l \<Longrightarrow> kle l m \<Longrightarrow> kle k m" by (auto simp: kle_def)
lemma kle_total: "kle k l \<or> kle l k" by (auto simp: kle_def)
lemma not_kle: "\<not> kle k l \<longleftrightarrow> fst l < fst k \<or> (fst l = fst k \<and> snd l > snd k)" by (auto simp: kle_def)

lemma left_is_next_kle: "left_is_next k l = kle k l"
  by (cases k; cases l) (simp add: left_is_next_def kle_def)

fun pkey :: "pending \<Rightarrow> key" where "pkey (address, sz, u) = (address, sz)"

lemma next_key_hd: "fs f \<noteq> [] \<Longrightarrow> next_key fs f = Some (pkey (hd (fs f)))"
  by (cases "fs f") (auto simp: next_key_def)

section \<open>Merges of the finders' lists\<close>

text \<open>
  What the finders still have to report, by the index of the finder, and the runs that always take a
  least first element.
\<close>

definition pend :: "nat list \<Rightarrow> finders \<Rightarrow> nat \<Rightarrow> pending list" where
  "pend idx fs i = (if i < length idx then fs (idx ! i) else [])"

inductive merge_run :: "(nat \<Rightarrow> pending list) \<Rightarrow> (nat \<times> pending) list \<Rightarrow> bool" where
  merge_done: "(\<forall>i. P i = []) \<Longrightarrow> merge_run P []"
| merge_take: "P i = p # ps \<Longrightarrow> (\<forall>j. P j \<noteq> [] \<longrightarrow> kle (pkey p) (pkey (hd (P j)))) \<Longrightarrow>
     merge_run (P(i := ps)) out \<Longrightarrow> merge_run P ((i, p) # out)"

inductive_cases merge_run_NilE: "merge_run P []"
inductive_cases merge_run_ConsE: "merge_run P (ip # out)"

text \<open>Such a run reports every finder's list in its order, and is sorted if the lists are.\<close>

lemma merge_run_per_finder: "merge_run P out \<Longrightarrow> map snd (filter (\<lambda>ip. fst ip = i) out) = P i"
  by (induction rule: merge_run.induct) (auto split: if_splits)

lemma merge_run_member: "merge_run P out \<Longrightarrow> (i, p) \<in> set out \<Longrightarrow> p \<in> set (P i)"
  by (induction rule: merge_run.induct) (auto split: if_splits)

lemma merge_run_sorted:
  assumes "merge_run P out" "\<forall>i. sorted_wrt (\<lambda>p q. kle (pkey p) (pkey q)) (P i)"
  shows "sorted_wrt (\<lambda>p q. kle (pkey p) (pkey q)) (map snd out)"
  using assms
proof (induction rule: merge_run.induct)
  case (merge_take P i p ps out)
  have ps: "sorted_wrt (\<lambda>p q. kle (pkey p) (pkey q)) (P i)" using merge_take.prems by blast
  have "kle (pkey p) (pkey q)" if "(j, q) \<in> set out" for j q
  proof -
    have q: "q \<in> set ((P(i := ps)) j)" using merge_run_member [OF merge_take.hyps(3) that] .
    then have qj: "q \<in> set (P j)" using merge_take.hyps(1) by (auto split: if_splits)
    then have "kle (pkey p) (pkey (hd (P j)))" using merge_take.hyps(2) by (metis empty_iff empty_set)
    moreover have "kle (pkey (hd (P j))) (pkey q)"
    proof (cases "P j")
      case (Cons h t)
      then show ?thesis using qj merge_take.prems [rule_format, of j] by auto
    qed (use qj in simp)
    ultimately show ?thesis by (rule kle_trans)
  qed
  moreover have "sorted_wrt (\<lambda>p q. kle (pkey p) (pkey q)) (map snd out)"
    using ps merge_take.hyps(1) merge_take.prems by (intro merge_take.IH) auto
  ultimately show ?case by auto
qed simp

definition consume_all :: "Directory \<Rightarrow> (nat \<times> pending) list \<Rightarrow> Directory" where
  "consume_all d out = foldl (\<lambda>d (i, p). consume_allocation d i p) d out"

lemma consume_all_simps [simp]:
  "consume_all d [] = d" "consume_all d ((i, p) # out) = consume_all (consume_allocation d i p) out"
  by (simp_all add: consume_all_def)

lemma consume_allocation_other [simp]:
  "indexToFinder (consume_allocation d i p) = indexToFinder d"
  "allocationBoundariesResolved (consume_allocation d i p) = allocationBoundariesResolved d"
  "resolutionDoneCallbacks (consume_allocation d i p) = resolutionDoneCallbacks d"
proof -
  obtain address sz u where p: "p = (address, sz, u)" by (cases p)
  obtain b ls where pop: "pop_limits address (address + sz) (limits d) = (b, ls)" by fastforce
  have push: "indexToFinder (push_allocation d' i p w) = indexToFinder d'"
    "allocationBoundariesResolved (push_allocation d' i p w) = allocationBoundariesResolved d'"
    "resolutionDoneCallbacks (push_allocation d' i p w) = resolutionDoneCallbacks d'" for d' w
    by (simp_all add: push_allocation_def p)
  show "indexToFinder (consume_allocation d i p) = indexToFinder d"
    "allocationBoundariesResolved (consume_allocation d i p) = allocationBoundariesResolved d"
    "resolutionDoneCallbacks (consume_allocation d i p) = resolutionDoneCallbacks d"
    using push unfolding p
    by (cases b; cases ls; simp add: consume_allocation_def pop Let_def split: prod.split)+
qed

lemma consume_all_other [simp]:
  "indexToFinder (consume_all d out) = indexToFinder d \<and>
   allocationBoundariesResolved (consume_all d out) = allocationBoundariesResolved d \<and>
   resolutionDoneCallbacks (consume_all d out) = resolutionDoneCallbacks d"
proof (induction out arbitrary: d)
  case (Cons ip out)
  obtain i p where "ip = (i, p)" by (cases ip)
  then show ?case using Cons [of "consume_allocation d i p"] by simp
qed simp

text \<open>The outcome of a complete merge.\<close>

definition resolved :: "Directory \<Rightarrow> finders \<Rightarrow> (Directory \<times> finders) option \<Rightarrow> bool" where
  "resolved d fs r \<longleftrightarrow> (\<exists>out fs'. merge_run (pend (indexToFinder d) fs) out \<and> r = Some (consume_all d out, fs') \<and>
     (\<forall>i. pend (indexToFinder d) fs' i = []))"

lemma pend_update:
  "distinct idx \<Longrightarrow> i < length idx \<Longrightarrow> pend idx (fs(idx ! i := ps)) = (pend idx fs)(i := ps)"
  by (auto simp: pend_def fun_eq_iff nth_eq_iff_index_eq)

lemma resolved_done: "(\<forall>i. pend (indexToFinder d) fs i = []) \<Longrightarrow> resolved d fs (Some (d, fs))"
  unfolding resolved_def by (metis merge_done consume_all_simps(1))

lemma resolved_step:
  assumes "distinct (indexToFinder d)" "i < length (indexToFinder d)" "fs (indexToFinder d ! i) = p # ps"
    and "\<forall>j. pend (indexToFinder d) fs j \<noteq> [] \<longrightarrow> kle (pkey p) (pkey (hd (pend (indexToFinder d) fs j)))"
    and "resolved (consume_allocation d i p) (fs(indexToFinder d ! i := ps)) r"
  shows "resolved d fs r"
proof -
  obtain out fs' where out: "merge_run ((pend (indexToFinder d) fs)(i := ps)) out"
    "r = Some (consume_all (consume_allocation d i p) out, fs')" "\<forall>i. pend (indexToFinder d) fs' i = []"
    using assms(5) by (auto simp: resolved_def pend_update [OF assms(1,2)])
  have "pend (indexToFinder d) fs i = p # ps" using assms(2,3) by (simp add: pend_def)
  from merge_take [of "pend (indexToFinder d) fs", OF this assms(4) out(1)] out(2,3)
  show ?thesis unfolding resolved_def by (metis consume_all_simps(2))
qed

lemma Consume_eq:
  "fs f = p # ps \<Longrightarrow> ConsumeCurrentAllocation d fs i f = Some (consume_allocation d i p, fs(f := ps))"
  by (simp add: ConsumeCurrentAllocation_def)

section \<open>One finder and two finders\<close>

lemma append_loop_resolved:
  assumes "distinct (indexToFinder d)" "i < length (indexToFinder d)"
    and "\<forall>j. j \<noteq> i \<longrightarrow> pend (indexToFinder d) fs j = []"
  shows "resolved d fs (append_loop d fs i (indexToFinder d ! i))"
  using assms
proof (induction "fs (indexToFinder d ! i)" arbitrary: d fs)
  case Nil
  then have "\<forall>j. pend (indexToFinder d) fs j = []" by (metis pend_def)
  then show ?case using Nil.hyps resolved_done by (simp add: append_loop.simps [of d] Finished_def)
next
  case (Cons p ps)
  let ?d = "consume_allocation d i p" and ?fs = "fs(indexToFinder d ! i := ps)"
  have fs: "fs (indexToFinder d ! i) = p # ps" using Cons.hyps(2) by simp
  have rec: "resolved ?d ?fs (append_loop ?d ?fs i (indexToFinder ?d ! i))"
    by (rule Cons.hyps(1)) (use Cons.prems pend_update [OF Cons.prems(1,2)] in auto)
  have "append_loop d fs i (indexToFinder d ! i) = append_loop ?d ?fs i (indexToFinder d ! i)"
    by (simp add: append_loop.simps [of d] Finished_def Consume_eq [where fs = fs, OF fs] fs)
  moreover have "\<forall>j. pend (indexToFinder d) fs j \<noteq> [] \<longrightarrow> kle (pkey p) (pkey (hd (pend (indexToFinder d) fs j)))"
    using Cons.prems(3) fs kle_refl by (metis list.sel(1) pend_def)
  ultimately show ?case
    using resolved_step [where fs = fs, OF Cons.prems(1,2) fs] rec by simp
qed

lemma append_from_finder_resolved:
  assumes "distinct (indexToFinder d)" "i < length (indexToFinder d)"
    and "\<forall>j. j \<noteq> i \<longrightarrow> pend (indexToFinder d) fs j = []"
  shows "resolved d fs (AppendRemainingAllocationsFromFinder d fs i)"
  unfolding AppendRemainingAllocationsFromFinder_def by (rule append_loop_resolved [OF assms])

text \<open>One step with two finders left, of which the one at \<open>i\<close> comes first.\<close>

lemma two_finders_take:
  assumes idx: "distinct (indexToFinder d)" "i < length (indexToFinder d)" "j < length (indexToFinder d)" "i \<noteq> j"
    and others: "\<forall>k. k \<noteq> i \<and> k \<noteq> j \<longrightarrow> pend (indexToFinder d) fs k = []"
    and fs: "fs (indexToFinder d ! i) = p # ps" "next_key fs (indexToFinder d ! j) = Some kj" "kle (pkey p) kj"
  defines "d' \<equiv> consume_allocation d i p" and "fs' \<equiv> fs(indexToFinder d ! i := ps)"
  assumes rec: "ps \<noteq> [] \<Longrightarrow> resolved d' fs' rec"
  shows "resolved d fs (if ps = [] then AppendRemainingAllocationsFromFinder d' fs' j else rec)"
proof (rule resolved_step [where fs = fs, OF idx(1,2) fs(1)])
  have pends: "pend (indexToFinder d) fs' = (pend (indexToFinder d) fs)(i := ps)"
    unfolding fs'_def by (rule pend_update [OF idx(1,2)])
  have "pend (indexToFinder d) fs i = p # ps" "kj = pkey (hd (pend (indexToFinder d) fs j))"
    using fs(1,2) idx(2,3) next_key_hd [of fs "indexToFinder d ! j"]
    by (auto simp: pend_def next_key_def split: list.splits)
  then show "\<forall>k. pend (indexToFinder d) fs k \<noteq> [] \<longrightarrow> kle (pkey p) (pkey (hd (pend (indexToFinder d) fs k)))"
    using others fs(3) by (metis kle_refl list.sel(1))
  have "resolved d' fs' (AppendRemainingAllocationsFromFinder d' fs' j)" if "ps = []"
    by (rule append_from_finder_resolved) (use idx others that pends in \<open>auto simp: d'_def\<close>)
  then show "resolved (consume_allocation d i p) (fs(indexToFinder d ! i := ps))
      (if ps = [] then AppendRemainingAllocationsFromFinder d' fs' j else rec)"
    using rec by (simp add: d'_def fs'_def)
qed

lemma append_two_loop_resolved:
  assumes "distinct (indexToFinder d)" "i0 < length (indexToFinder d)" "i1 < length (indexToFinder d)" "i0 \<noteq> i1"
    and "\<forall>j. j \<noteq> i0 \<and> j \<noteq> i1 \<longrightarrow> pend (indexToFinder d) fs j = []"
    and "next_key fs (indexToFinder d ! i0) = Some key0" "next_key fs (indexToFinder d ! i1) = Some key1"
  shows "resolved d fs (append_two_loop d fs i0 (indexToFinder d ! i0) key0 i1 (indexToFinder d ! i1) key1)"
  using assms
proof (induction "length (fs (indexToFinder d ! i0)) + length (fs (indexToFinder d ! i1))"
    arbitrary: d fs key0 key1 rule: less_induct)
  case less
  let ?f0 = "indexToFinder d ! i0" and ?f1 = "indexToFinder d ! i1"
  have f: "?f0 \<noteq> ?f1" using less.prems by (simp add: nth_eq_iff_index_eq)
  obtain p0 ps0 p1 ps1 where fs: "fs ?f0 = p0 # ps0" "fs ?f1 = p1 # ps1" and keys: "key0 = pkey p0" "key1 = pkey p1"
    using less.prems(6,7) by (auto simp: next_key_def split: list.splits)
  have others: "\<forall>j. j \<noteq> i0 \<and> j \<noteq> i1 \<longrightarrow> pend (indexToFinder d) (fs(indexToFinder d ! i := ps)) j = []"
    if "i = i0 \<or> i = i1" for i ps
    using less.prems(5) that by (auto simp: pend_update [OF less.prems(1)] less.prems(2,3))
  show ?case
  proof (cases "\<not> kle key1 key0")
    case True
    let ?d = "consume_allocation d i0 p0" and ?fs = "fs(?f0 := ps0)"
    let ?rec = "append_two_loop ?d ?fs i0 ?f0 (pkey (hd ps0)) i1 ?f1 key1"
    have "append_two_loop d fs i0 ?f0 key0 i1 ?f1 key1 =
        (if ps0 = [] then AppendRemainingAllocationsFromFinder ?d ?fs i1 else ?rec)"
      using True fs(1) by (simp add: append_two_loop.simps [of d] not_kle case_prod_beta Consume_eq Finished_def next_key_hd)
    moreover have "resolved ?d ?fs ?rec" if "ps0 \<noteq> []"
    proof -
      have "next_key ?fs ?f0 = Some (pkey (hd ps0))" "next_key ?fs ?f1 = Some key1"
        using f fs(2) keys(2) that by (simp_all add: next_key_hd)
      then show ?thesis
        using less.hyps [of ?fs ?d "pkey (hd ps0)" key1] less.prems(1-4) others [of i0] fs f by simp
    qed
    moreover have "kle (pkey p0) key1" using True kle_total keys(1) by blast
    ultimately show ?thesis
      using two_finders_take [where fs = fs, OF less.prems(1,2,3,4) less.prems(5) fs(1) less.prems(7)] by simp
  next
    case False
    let ?d = "consume_allocation d i1 p1" and ?fs = "fs(?f1 := ps1)"
    let ?rec = "append_two_loop ?d ?fs i0 ?f0 key0 i1 ?f1 (pkey (hd ps1))"
    have "append_two_loop d fs i0 ?f0 key0 i1 ?f1 key1 =
        (if ps1 = [] then AppendRemainingAllocationsFromFinder ?d ?fs i0 else ?rec)"
      using False fs(2)
      by (auto simp: append_two_loop.simps [of d] kle_def case_prod_beta Consume_eq Finished_def next_key_hd)
    moreover have "resolved ?d ?fs ?rec" if "ps1 \<noteq> []"
    proof -
      have "next_key ?fs ?f0 = Some key0" "next_key ?fs ?f1 = Some (pkey (hd ps1))"
        using f fs(1) keys(1) that by (simp_all add: next_key_hd)
      then show ?thesis
        using less.hyps [of ?fs ?d key0 "pkey (hd ps1)"] less.prems(1-4) others [of i1] fs f by simp
    qed
    moreover have "\<forall>k. k \<noteq> i1 \<and> k \<noteq> i0 \<longrightarrow> pend (indexToFinder d) fs k = []" using less.prems(5) by blast
    moreover have "kle (pkey p1) key0" using False keys(2) by simp
    ultimately show ?thesis
      using two_finders_take [where fs = fs, OF less.prems(1,3,2) _ _ fs(2) less.prems(6)] less.prems(4) by simp
  qed
qed

lemma append_two_resolved:
  assumes "distinct (indexToFinder d)" "i0 < length (indexToFinder d)" "i1 < length (indexToFinder d)" "i0 \<noteq> i1"
    and "\<forall>j. j \<noteq> i0 \<and> j \<noteq> i1 \<longrightarrow> pend (indexToFinder d) fs j = []"
    and "pend (indexToFinder d) fs i0 \<noteq> []" "pend (indexToFinder d) fs i1 \<noteq> []"
  shows "resolved d fs (AppendRemainingAllocationsFromTwo d fs i0 i1)"
proof -
  have "fs (indexToFinder d ! i0) \<noteq> []" "fs (indexToFinder d ! i1) \<noteq> []"
    using assms(2,3,6,7) by (simp_all add: pend_def)
  then show ?thesis
    using append_two_loop_resolved [OF assms(1-5)]
    by (simp add: AppendRemainingAllocationsFromTwo_def Let_def next_key_hd)
qed

section \<open>Three and four finders\<close>

definition ms_key :: "merge_state \<Rightarrow> nat \<Rightarrow> key" where
  "ms_key s i = the (next_key (ms_finders s) (indexToFinder (ms_dir s) ! i))"

text \<open>What holds before the top finder is settled, and the heap order that holds afterwards.\<close>

definition merge_base :: "merge_state \<Rightarrow> bool" where
  "merge_base s \<longleftrightarrow>
     (let idx = indexToFinder (ms_dir s); A = ms_active s in
      distinct idx \<and> distinct A \<and> length A = ms_numActive s \<and> ms_numActive s \<in> {3, 4} \<and>
      (\<forall>i. pend idx (ms_finders s) i \<noteq> [] \<longleftrightarrow> i \<in> set A) \<and>
      ms_topIndex s = A ! 0 \<and> ms_topFinder s = idx ! (A ! 0) \<and>
      ms_leftFinder s = idx ! (A ! 1) \<and> ms_left s = ms_key s (A ! 1) \<and>
      ms_rightFinder s = idx ! (A ! 2) \<and> ms_right s = ms_key s (A ! 2) \<and>
      (ms_numActive s = 4 \<longrightarrow> kle (ms_key s (A ! 1)) (ms_key s (A ! 3))))"

definition next_ok :: "merge_state \<Rightarrow> bool" where
  "next_ok s \<longleftrightarrow> ms_leftIsNext s = kle (ms_left s) (ms_right s) \<and>
     ms_next s = (if ms_leftIsNext s then ms_left s else ms_right s)"

definition heap_top :: "merge_state \<Rightarrow> bool" where
  "heap_top s \<longleftrightarrow> kle (ms_key s (ms_active s ! 0)) (ms_key s (ms_active s ! 1)) \<and>
     kle (ms_key s (ms_active s ! 0)) (ms_key s (ms_active s ! 2))"

lemma choose_next_simps [simp]:
  "ms_dir (choose_next s) = ms_dir s" "ms_finders (choose_next s) = ms_finders s"
  "ms_active (choose_next s) = ms_active s" "ms_numActive (choose_next s) = ms_numActive s"
  "ms_topIndex (choose_next s) = ms_topIndex s" "ms_topFinder (choose_next s) = ms_topFinder s"
  "ms_leftFinder (choose_next s) = ms_leftFinder s" "ms_left (choose_next s) = ms_left s"
  "ms_rightFinder (choose_next s) = ms_rightFinder s" "ms_right (choose_next s) = ms_right s"
  "ms_key (choose_next s) = ms_key s" "next_ok (choose_next s)"
  "merge_base (choose_next s) = merge_base s" "heap_top (choose_next s) = heap_top s"
  by (simp_all add: choose_next_def Let_def ms_key_def fun_eq_iff next_ok_def left_is_next_kle merge_base_def heap_top_def)

lemma Place_at_2: "length A = 3 \<or> length A = 4 \<Longrightarrow> Place key a z f A 2 = Some (A[2 := f])"
  by (auto simp: Place_def Place_loop.simps Let_def)

lemma Place_three: "Place key a z f [t, l, r] 1 = Some [t, f, r]"
  by (simp add: Place_def Place_loop.simps Let_def)

lemma Place_four:
  "key x = Some kx \<Longrightarrow>
   Place key a z f [t, l, r, x] 1 = Some (if kle kx (a, z) then [t, x, r, f] else [t, f, r, x])"
  by (cases kx) (auto simp: Place_def Place_loop.simps Let_def kle_def)

lemma merge_base_active:
  assumes "merge_base s"
  obtains (three) t l r where "ms_active s = [t, l, r]" "ms_numActive s = 3"
  | (four) t l r x where "ms_active s = [t, l, r, x]" "ms_numActive s = 4"
proof -
  have "length (ms_active s) = 3 \<or> length (ms_active s) = 4" "ms_numActive s = length (ms_active s)"
    using assms by (auto simp: merge_base_def Let_def)
  then show ?thesis
    using three four by (auto simp: numeral_3_eq_3 numeral_eq_Suc length_Suc_conv)
qed

lemma merge_base_key:
  assumes "merge_base s" "i \<in> set (ms_active s)"
  shows "i < length (indexToFinder (ms_dir s))"
    and "next_key (ms_finders s) (indexToFinder (ms_dir s) ! i) = Some (ms_key s i)"
    and "ms_key s i = pkey (hd (pend (indexToFinder (ms_dir s)) (ms_finders s) i))"
proof -
  have p: "pend (indexToFinder (ms_dir s)) (ms_finders s) i \<noteq> []"
    using assms by (simp add: merge_base_def Let_def)
  then show i: "i < length (indexToFinder (ms_dir s))" by (auto simp: pend_def split: if_splits)
  then have "ms_finders s (indexToFinder (ms_dir s) ! i) \<noteq> []" using p by (simp add: pend_def)
  from next_key_hd [of "ms_finders s", OF this]
  show "next_key (ms_finders s) (indexToFinder (ms_dir s) ! i) = Some (ms_key s i)"
    "ms_key s i = pkey (hd (pend (indexToFinder (ms_dir s)) (ms_finders s) i))"
    using i by (simp_all add: ms_key_def pend_def)
qed

text \<open>A state with the same directory and finders whose active finders are permuted.\<close>

lemma merge_base_permute:
  assumes "merge_base s" "distinct A" "set A = set (ms_active s)" "length A = length (ms_active s)"
    and "length A = 4 \<longrightarrow> kle (ms_key s (A ! 1)) (ms_key s (A ! 3))"
  shows "merge_base (choose_next (s\<lparr>ms_active := A, ms_topIndex := A ! 0,
           ms_topFinder := indexToFinder (ms_dir s) ! (A ! 0),
           ms_leftFinder := indexToFinder (ms_dir s) ! (A ! 1), ms_left := ms_key s (A ! 1),
           ms_rightFinder := indexToFinder (ms_dir s) ! (A ! 2), ms_right := ms_key s (A ! 2)\<rparr>))"
  using assms by (simp add: merge_base_def Let_def ms_key_def)

text \<open>The three ways through \<open>merge_reorder\<close>.\<close>

lemma merge_reorder_stay:
  assumes "next_key (ms_finders s) (ms_topFinder s) = Some tk" "kle tk (ms_next s)"
  shows "merge_reorder s = Some s"
proof -
  obtain ta tz na nz where k: "tk = (ta, tz)" "ms_next s = (na, nz)" by fastforce
  then have "\<not> (na < ta \<or> (na = ta \<and> nz > tz))" using assms(2) by (auto simp: kle_def)
  then show ?thesis using assms(1) by (simp only: merge_reorder_def Let_def k Option.bind.simps prod.case if_False)
qed

lemma merge_reorder_left:
  assumes "next_key (ms_finders s) (ms_topFinder s) = Some tk" "\<not> kle tk (ms_next s)" "ms_leftIsNext s"
    and "Place (\<lambda>i. next_key (ms_finders s) (indexToFinder (ms_dir s) ! i)) (fst tk) (snd tk) (ms_topIndex s)
           ((ms_active s)[0 := ms_active s ! 1]) 1 = Some A"
    and "next_key (ms_finders s) (indexToFinder (ms_dir s) ! (A ! 1)) = Some k"
  shows "merge_reorder s = Some (choose_next (s\<lparr>ms_active := A, ms_topIndex := ms_active s ! 1,
           ms_topFinder := ms_leftFinder s, ms_leftFinder := indexToFinder (ms_dir s) ! (A ! 1), ms_left := k,
           ms_rightFinder := ms_rightFinder s, ms_right := ms_right s\<rparr>))"
proof -
  have same: "s\<lparr>ms_active := A, ms_topIndex := i, ms_topFinder := f, ms_leftFinder := g, ms_left := k\<rparr> =
      s\<lparr>ms_active := A, ms_topIndex := i, ms_topFinder := f, ms_leftFinder := g, ms_left := k,
        ms_rightFinder := ms_rightFinder s, ms_right := ms_right s\<rparr>" for i f g
    by (cases s) simp
  obtain ta tz na nz where t: "tk = (ta, tz)" "ms_next s = (na, nz)" by fastforce
  then have "na < ta \<or> (na = ta \<and> nz > tz)" using assms(2) by (auto simp: kle_def)
  then show ?thesis
    using assms(1,3-5) by (simp only: merge_reorder_def Let_def t Option.bind.simps prod.case if_True fst_conv snd_conv same [symmetric])
qed

lemma merge_reorder_right:
  assumes "next_key (ms_finders s) (ms_topFinder s) = Some tk" "\<not> kle tk (ms_next s)" "\<not> ms_leftIsNext s"
    and "Place (\<lambda>i. next_key (ms_finders s) (indexToFinder (ms_dir s) ! i)) (fst tk) (snd tk) (ms_topIndex s)
           ((ms_active s)[0 := ms_active s ! 2]) 2 = Some A"
    and "next_key (ms_finders s) (indexToFinder (ms_dir s) ! (A ! 2)) = Some k"
  shows "merge_reorder s = Some (choose_next (s\<lparr>ms_active := A, ms_topIndex := ms_active s ! 2,
           ms_topFinder := ms_rightFinder s, ms_leftFinder := ms_leftFinder s, ms_left := ms_left s,
           ms_rightFinder := indexToFinder (ms_dir s) ! (A ! 2), ms_right := k\<rparr>))"
proof -
  have same: "s\<lparr>ms_active := A, ms_topIndex := i, ms_topFinder := f, ms_rightFinder := g, ms_right := k\<rparr> =
      s\<lparr>ms_active := A, ms_topIndex := i, ms_topFinder := f, ms_leftFinder := ms_leftFinder s,
        ms_left := ms_left s, ms_rightFinder := g, ms_right := k\<rparr>" for i f g
    by (cases s) simp
  obtain ta tz na nz where t: "tk = (ta, tz)" "ms_next s = (na, nz)" by fastforce
  then have "na < ta \<or> (na = ta \<and> nz > tz)" using assms(2) by (auto simp: kle_def)
  then show ?thesis
    using assms(1,3-5)
    by (simp only: merge_reorder_def Let_def t Option.bind.simps prod.case if_True if_False fst_conv snd_conv same [symmetric])
qed

lemma merge_reorder_outcome:
  assumes base: "merge_base s" and nxt: "next_ok s"
  shows "\<exists>s'. merge_reorder s = Some s' \<and> merge_base s' \<and> next_ok s' \<and> heap_top s' \<and>
           ms_dir s' = ms_dir s \<and> ms_finders s' = ms_finders s"
proof -
  let ?K = "ms_key s" and ?i2f = "\<lambda>i. indexToFinder (ms_dir s) ! i"
  have B: "distinct (ms_active s)" "ms_topIndex s = ms_active s ! 0" "ms_topFinder s = ?i2f (ms_active s ! 0)"
    "ms_leftFinder s = ?i2f (ms_active s ! 1)" "ms_left s = ?K (ms_active s ! 1)"
    "ms_rightFinder s = ?i2f (ms_active s ! 2)" "ms_right s = ?K (ms_active s ! 2)"
    "ms_numActive s = 4 \<longrightarrow> kle (?K (ms_active s ! 1)) (?K (ms_active s ! 3))"
    using base by (simp_all add: merge_base_def Let_def)
  have N: "ms_leftIsNext s = kle (ms_left s) (ms_right s)"
    "ms_next s = (if ms_leftIsNext s then ms_left s else ms_right s)"
    using nxt by (simp_all add: next_ok_def)
  note keys = merge_base_key(2) [OF base]
  obtain t l r rest where A: "ms_active s = t # l # r # rest" and rest: "rest = [] \<or> (\<exists>x. rest = [x])"
    and num: "ms_numActive s = 3 + length rest"
    by (rule merge_base_active [OF base]) auto
  have top: "next_key (ms_finders s) (ms_topFinder s) = Some (?K t)" using keys [of t] by (simp add: B A)
  have lr: "ms_left s = ?K l" "ms_right s = ?K r" by (simp_all add: B A numeral_2_eq_2)
  show ?thesis
  proof (cases "kle (?K t) (ms_next s)")
    case True
    have "kle (?K t) (?K l) \<and> kle (?K t) (?K r)"
      using True N kle_total [of "?K l" "?K r"] kle_trans unfolding lr by metis
    then have "heap_top s" by (simp add: heap_top_def A numeral_2_eq_2)
    then show ?thesis using merge_reorder_stay [OF top True] base nxt by blast
  next
    case False
    have fin: ?thesis
      if "merge_reorder s = Some (choose_next (s\<lparr>ms_active := A', ms_topIndex := A' ! 0,
           ms_topFinder := ?i2f (A' ! 0), ms_leftFinder := ?i2f (A' ! 1), ms_left := ?K (A' ! 1),
           ms_rightFinder := ?i2f (A' ! 2), ms_right := ?K (A' ! 2)\<rparr>))"
        and "distinct A'" "set A' = set (ms_active s)" "length A' = length (ms_active s)"
        and "length A' = 4 \<longrightarrow> kle (?K (A' ! 1)) (?K (A' ! 3))"
        and "kle (?K (A' ! 0)) (?K (A' ! 1))" "kle (?K (A' ! 0)) (?K (A' ! 2))" for A'
      using that merge_base_permute [OF base that(2-5)] by (auto simp: heap_top_def ms_key_def)
    show ?thesis
    proof (cases "ms_leftIsNext s")
      case left: True
      have le: "kle (?K l) (?K r)" "\<not> kle (?K t) (?K l)" using left N False by (simp_all add: lr)
      then have lt: "kle (?K l) (?K t)" using kle_total by blast
      have step: ?thesis
        if P: "Place (\<lambda>i. next_key (ms_finders s) (?i2f i)) (fst (?K t)) (snd (?K t)) t (l # l # r # rest) 1 =
            Some (l # m # r # rest')" and "m \<in> set (ms_active s)"
          and perm: "distinct (l # m # r # rest')" "set (l # m # r # rest') = set (ms_active s)" "length rest' = length rest"
          and kles: "kle (?K l) (?K m)" "length rest' = 1 \<longrightarrow> kle (?K m) (?K (rest' ! 0))" for m rest'
      proof -
        have "Place (\<lambda>i. next_key (ms_finders s) (?i2f i)) (fst (?K t)) (snd (?K t)) (ms_topIndex s)
            ((ms_active s)[0 := ms_active s ! 1]) 1 = Some (l # m # r # rest')"
          using P by (simp add: A B(2))
        from merge_reorder_left [OF top False left this, of "?K m"] keys [OF \<open>m \<in> set (ms_active s)\<close>]
        have "merge_reorder s = Some (choose_next (s\<lparr>ms_active := l # m # r # rest', ms_topIndex := l,
            ms_topFinder := ?i2f l, ms_leftFinder := ?i2f m, ms_left := ?K m,
            ms_rightFinder := ?i2f r, ms_right := ?K r\<rparr>))"
          by (simp add: A B(4-7) numeral_2_eq_2)
        then show ?thesis
          by (intro fin [of "l # m # r # rest'"])
            (use perm kles le(1) in \<open>simp_all add: A numeral_2_eq_2 numeral_3_eq_3\<close>)
      qed
      consider (three) "rest = []" | (four) x where "rest = [x]" using rest by blast
      then show ?thesis
      proof cases
        case three
        show ?thesis
          by (rule step [of t "[]"]) (use B(1) lt Place_three in \<open>auto simp: A three\<close>)
      next
        case (four x)
        have lx: "kle (?K l) (?K x)" using B(8) num by (simp add: four A numeral_3_eq_3)
        have "next_key (ms_finders s) (?i2f x) = Some (?K x)" using keys [of x] by (simp add: A four)
        note place = Place_four [where key = "\<lambda>i. next_key (ms_finders s) (?i2f i)", OF this]
        show ?thesis
        proof (cases "kle (?K x) (?K t)")
          case True
          show ?thesis
            by (rule step [of x "[t]"]) (use B(1) lx True place in \<open>auto simp: A four\<close>)
        next
          case tx: False
          then have "kle (?K t) (?K x)" using kle_total by blast
          then show ?thesis
            by (intro step [of t "[x]"]) (use B(1) lt tx place in \<open>auto simp: A four\<close>)
        qed
      qed
    next
      case right: False
      let ?A = "r # l # t # rest"
      have le: "kle (?K r) (?K l)" "kle (?K r) (?K t)"
        using right N False kle_total [of "?K l" "?K r"] kle_total [of "?K t" "?K r"] by (auto simp: lr)
      have l3: "length rest = 1 \<longrightarrow> kle (?K l) (?K (rest ! 0))" using B(8) num by (simp add: A numeral_3_eq_3)
      have "Place (\<lambda>i. next_key (ms_finders s) (?i2f i)) (fst (?K t)) (snd (?K t)) (ms_topIndex s)
          ((ms_active s)[0 := ms_active s ! 2]) 2 = Some ?A"
        using rest Place_at_2 [of "r # l # r # rest"] by (auto simp: A B numeral_2_eq_2)
      from merge_reorder_right [OF top False right this, of "?K t"] keys [of t]
      have "merge_reorder s = Some (choose_next (s\<lparr>ms_active := ?A, ms_topIndex := r, ms_topFinder := ?i2f r,
          ms_leftFinder := ?i2f l, ms_left := ?K l, ms_rightFinder := ?i2f t, ms_right := ?K t\<rparr>))"
        by (simp add: A B(4-7) numeral_2_eq_2)
      then show ?thesis
        by (intro fin [of ?A]) (use B(1) le l3 in \<open>auto simp: A numeral_2_eq_2 numeral_3_eq_3\<close>)
    qed
  qed
qed

text \<open>The heap order makes the top a least element of all that is left.\<close>

lemma heap_top_least:
  assumes "merge_base s" "heap_top s" "j \<in> set (ms_active s)"
  shows "kle (ms_key s (ms_active s ! 0)) (ms_key s j)"
proof (rule merge_base_active [OF assms(1)])
  fix t l r assume "ms_active s = [t, l, r]"
  then show ?thesis using assms(2,3) by (auto simp: heap_top_def numeral_2_eq_2)
next
  fix t l r x assume A: "ms_active s = [t, l, r, x]" "ms_numActive s = 4"
  then have "kle (ms_key s l) (ms_key s x)" using assms(1) by (simp add: merge_base_def Let_def numeral_3_eq_3)
  then show ?thesis
    using assms(2,3) A kle_trans [of "ms_key s t" "ms_key s l" "ms_key s x"]
    by (auto simp: heap_top_def numeral_2_eq_2)
qed

text \<open>The state after the top finder has been consumed, where it has more to report and where it has not.\<close>

lemma merge_base_consumed:
  assumes base: "merge_base s" and nxt: "next_ok s" and A: "ms_active s = t # A"
    and fs: "ms_finders s (indexToFinder (ms_dir s) ! t) = p # ps"
  defines "d' \<equiv> consume_allocation (ms_dir s) t p" and "fs' \<equiv> (ms_finders s)(indexToFinder (ms_dir s) ! t := ps)"
  shows "pend (indexToFinder d') fs' = (pend (indexToFinder (ms_dir s)) (ms_finders s))(t := ps)"
    and "ps \<noteq> [] \<Longrightarrow> merge_base (s\<lparr>ms_dir := d', ms_finders := fs'\<rparr>) \<and> next_ok (s\<lparr>ms_dir := d', ms_finders := fs'\<rparr>)"
    and "ps = [] \<Longrightarrow> A = [l, r, x] \<Longrightarrow>
      merge_base (s\<lparr>ms_dir := d', ms_finders := fs', ms_active := [x, l, r], ms_numActive := 3,
        ms_topIndex := x, ms_topFinder := indexToFinder d' ! x\<rparr>) \<and>
      next_ok (s\<lparr>ms_dir := d', ms_finders := fs', ms_active := [x, l, r], ms_numActive := 3,
        ms_topIndex := x, ms_topFinder := indexToFinder d' ! x\<rparr>)"
proof -
  have dist: "distinct (indexToFinder (ms_dir s))" "distinct (t # A)" using base A by (simp_all add: merge_base_def Let_def)
  have t: "t < length (indexToFinder (ms_dir s))" using merge_base_key(1) [OF base, of t] A by simp
  show P: "pend (indexToFinder d') fs' = (pend (indexToFinder (ms_dir s)) (ms_finders s))(t := ps)"
    unfolding d'_def fs'_def by (simp add: pend_update [OF dist(1) t])
  have K: "the (next_key fs' (indexToFinder d' ! j)) = ms_key s j" if "j \<in> set A" for j
  proof -
    have "j \<noteq> t" "j < length (indexToFinder (ms_dir s))"
      using that dist(2) merge_base_key(1) [OF base, of j] A by auto
    then have "indexToFinder (ms_dir s) ! j \<noteq> indexToFinder (ms_dir s) ! t"
      using dist(1) t by (simp add: nth_eq_iff_index_eq)
    then show ?thesis by (simp add: ms_key_def next_key_def fs'_def d'_def)
  qed
  have len: "length A = 2 \<or> length A = 3" "ms_numActive s = Suc (length A)"
    using base by (auto simp: merge_base_def Let_def A)
  have act: "pend (indexToFinder (ms_dir s)) (ms_finders s) i \<noteq> [] \<longleftrightarrow> i \<in> set (t # A)" for i
    using base by (simp add: merge_base_def Let_def A)
  have N: "ms_leftIsNext s = kle (ms_left s) (ms_right s)"
    "ms_next s = (if ms_leftIsNext s then ms_left s else ms_right s)"
    using nxt by (simp_all add: next_ok_def)
  have AI: "A ! 0 \<in> set A" "A ! 1 \<in> set A" "length A = 3 \<Longrightarrow> A ! 2 \<in> set A" using len(1) by auto
  have B: "ms_leftFinder s = indexToFinder (ms_dir s) ! (A ! 0)" "ms_left s = ms_key s (A ! 0)"
    "ms_rightFinder s = indexToFinder (ms_dir s) ! (A ! 1)" "ms_right s = ms_key s (A ! 1)"
    "ms_topIndex s = t" "ms_topFinder s = indexToFinder (ms_dir s) ! t"
    "length A = 3 \<longrightarrow> kle (ms_key s (A ! 0)) (ms_key s (A ! 2))"
    using base len(2) by (simp_all add: merge_base_def Let_def A numeral_2_eq_2 numeral_3_eq_3)
  have idx: "indexToFinder d' = indexToFinder (ms_dir s)" by (simp add: d'_def)
  show "merge_base (s\<lparr>ms_dir := d', ms_finders := fs'\<rparr>) \<and> next_ok (s\<lparr>ms_dir := d', ms_finders := fs'\<rparr>)"
    if "ps \<noteq> []"
  proof -
    define s1 where "s1 = s\<lparr>ms_dir := d', ms_finders := fs'\<rparr>"
    have sel: "ms_dir s1 = d'" "ms_finders s1 = fs'" "ms_active s1 = t # A" "ms_numActive s1 = Suc (length A)"
      "ms_topIndex s1 = t" "ms_topFinder s1 = indexToFinder (ms_dir s) ! t"
      "ms_leftFinder s1 = indexToFinder (ms_dir s) ! (A ! 0)" "ms_left s1 = ms_key s (A ! 0)"
      "ms_rightFinder s1 = indexToFinder (ms_dir s) ! (A ! 1)" "ms_right s1 = ms_key s (A ! 1)"
      "ms_leftIsNext s1 = ms_leftIsNext s" "ms_next s1 = ms_next s"
      by (simp_all add: s1_def A B len(2))
    have K1: "ms_key s1 j = ms_key s j" if "j \<in> set A" for j
      using K [OF that] by (simp add: ms_key_def sel)
    have "(\<forall>i. pend (indexToFinder (ms_dir s1)) (ms_finders s1) i \<noteq> [] \<longleftrightarrow> i \<in> set (ms_active s1))"
      unfolding sel P using that act by auto
    then have "merge_base s1"
      using dist len(1) AI B(7) K1 unfolding merge_base_def Let_def sel idx
      by (auto simp: numeral_2_eq_2 numeral_3_eq_3)
    moreover have "next_ok s1" using N by (simp add: next_ok_def sel B)
    ultimately show ?thesis by (simp add: s1_def)
  qed
  show "merge_base (s\<lparr>ms_dir := d', ms_finders := fs', ms_active := [x, l, r], ms_numActive := 3,
        ms_topIndex := x, ms_topFinder := indexToFinder d' ! x\<rparr>) \<and>
      next_ok (s\<lparr>ms_dir := d', ms_finders := fs', ms_active := [x, l, r], ms_numActive := 3,
        ms_topIndex := x, ms_topFinder := indexToFinder d' ! x\<rparr>)"
    if "ps = []" and Alrx: "A = [l, r, x]"
  proof -
    define s1 where "s1 = s\<lparr>ms_dir := d', ms_finders := fs', ms_active := [x, l, r], ms_numActive := 3,
        ms_topIndex := x, ms_topFinder := indexToFinder d' ! x\<rparr>"
    have sel: "ms_dir s1 = d'" "ms_finders s1 = fs'" "ms_active s1 = [x, l, r]" "ms_numActive s1 = 3"
      "ms_topIndex s1 = x" "ms_topFinder s1 = indexToFinder (ms_dir s) ! x"
      "ms_leftFinder s1 = indexToFinder (ms_dir s) ! l" "ms_left s1 = ms_key s l"
      "ms_rightFinder s1 = indexToFinder (ms_dir s) ! r" "ms_right s1 = ms_key s r"
      "ms_leftIsNext s1 = ms_leftIsNext s" "ms_next s1 = ms_next s"
      by (simp_all add: s1_def Alrx B idx)
    have K1: "ms_key s1 l = ms_key s l" "ms_key s1 r = ms_key s r"
      using K [of l] K [of r] by (simp_all add: ms_key_def sel Alrx)
    have "(\<forall>i. pend (indexToFinder (ms_dir s1)) (ms_finders s1) i \<noteq> [] \<longleftrightarrow> i \<in> set (ms_active s1))"
      unfolding sel P using that act dist(2) by auto
    then have "merge_base s1"
      using dist Alrx K1 unfolding merge_base_def Let_def sel idx
      by (auto simp: numeral_2_eq_2)
    moreover have "next_ok s1" using N by (simp add: next_ok_def sel B Alrx)
    ultimately show ?thesis by (simp add: s1_def)
  qed
qed

lemma sum_pending_less:
  fixes g :: "nat \<Rightarrow> 'b list"
  assumes "finite S" "t \<in> S" "g t = p # ps"
  shows "(\<Sum>i\<in>S. length ((g(t := ps)) i)) < (\<Sum>i\<in>S. length (g i))"
  by (rule sum_strict_mono_ex1) (use assms in auto)

lemma bind_Inr: "Option.bind (map_option Inr x) (case_sum f Some) = x"
  by (cases x) auto

lemma merge_loop_resolved:
  assumes "merge_base s" "next_ok s" "heap_top s"
  shows "resolved (ms_dir s) (ms_finders s) (merge_loop s)"
  using assms
proof (induction "\<Sum>i<length (indexToFinder (ms_dir s)). length (pend (indexToFinder (ms_dir s)) (ms_finders s) i)"
    arbitrary: s rule: less_induct)
  case less
  note base = less.prems(1)
  let ?d = "ms_dir s" and ?fs = "ms_finders s" and ?idx = "indexToFinder (ms_dir s)"
  obtain t A where A: "ms_active s = t # A" by (rule merge_base_active [OF base]) auto
  have dist: "distinct ?idx" "distinct (t # A)" and act: "\<forall>i. pend ?idx ?fs i \<noteq> [] \<longleftrightarrow> i \<in> set (t # A)"
    and top: "ms_topIndex s = t" "ms_topFinder s = ?idx ! t"
    using base by (simp_all add: merge_base_def Let_def A)
  have t: "t < length ?idx" using merge_base_key(1) [OF base, of t] A by simp
  obtain p ps where p: "?fs (?idx ! t) = p # ps"
    using act t by (metis list.exhaust list.set_intros(1) pend_def)
  define d' where "d' = consume_allocation ?d t p"
  define fs' where "fs' = ?fs(?idx ! t := ps)"
  note C = merge_base_consumed [OF base less.prems(2) A p, folded d'_def fs'_def]
  have idx: "indexToFinder d' = ?idx" by (simp add: d'_def)
  have fin: "fs' (?idx ! t) = ps" by (simp add: fs'_def)
  have cons: "ConsumeCurrentAllocation ?d ?fs t (?idx ! t) = Some (d', fs')"
    unfolding d'_def fs'_def by (rule Consume_eq [where fs = "ms_finders s", OF p])
  have least: "\<forall>j. pend ?idx ?fs j \<noteq> [] \<longrightarrow> kle (pkey p) (pkey (hd (pend ?idx ?fs j)))"
  proof (intro allI impI)
    fix j assume "pend ?idx ?fs j \<noteq> []"
    then have j: "j \<in> set (ms_active s)" using act A by simp
    have "ms_key s t = pkey p" using merge_base_key(3) [OF base, of t] A p t by (simp add: pend_def)
    then show "kle (pkey p) (pkey (hd (pend ?idx ?fs j)))"
      using heap_top_least [OF base less.prems(3) j] merge_base_key(3) [OF base j] A by simp
  qed
  have smaller: "(\<Sum>i<length ?idx. length (pend ?idx fs' i)) < (\<Sum>i<length ?idx. length (pend ?idx ?fs i))"
    using sum_pending_less [of "{..<length ?idx}" t "pend ?idx ?fs" p ps] C(1) t p by (simp add: idx pend_def)
  have rec: "resolved d' fs' (merge_loop s')"
    if "merge_base s1" "next_ok s1" "ms_dir s1 = d'" "ms_finders s1 = fs'" "merge_reorder s1 = Some s'" for s1 s'
  proof -
    have "merge_base s'" "next_ok s'" "heap_top s'" "ms_dir s' = d'" "ms_finders s' = fs'"
      using merge_reorder_outcome [OF that(1,2)] that(3-5) by auto
    then show ?thesis using less.hyps [of s'] smaller by (simp add: idx)
  qed
  have main: "resolved d' fs' (merge_loop s)"
  proof (cases "ps = []")
    case False
    let ?s1 = "s\<lparr>ms_dir := d', ms_finders := fs'\<rparr>"
    obtain s' where s': "merge_reorder ?s1 = Some s'" using merge_reorder_outcome [of ?s1] C(2) [OF False] by blast
    then have "merge_loop s = merge_loop s'"
      using False by (subst merge_loop.simps) (simp add: merge_step_def cons Finished_def fin top)
    then show ?thesis using rec [OF _ _ _ _ s'] C(2) [OF False] by simp
  next
    case True
    have none: "pend (indexToFinder d') fs' j = []" if "j \<notin> set A" for j
      using that act [rule_format, of j] True by (auto simp: C(1))
    have Cidx: "pend ?idx fs' = (pend ?idx ?fs)(t := ps)" using C(1) by (simp only: idx)
    have some: "pend (indexToFinder d') fs' j \<noteq> []" "j < length (indexToFinder d')" if "j \<in> set A" for j
      using that act [rule_format, of j] dist(2) merge_base_key(1) [OF base, of j] A by (auto simp: Cidx idx)
    show ?thesis
    proof (rule merge_base_active [OF base])
      fix t' l r assume three: "ms_active s = [t', l, r]" "ms_numActive s = 3"
      then have "merge_loop s = AppendRemainingAllocationsFromTwo d' fs' r l"
        using True by (subst merge_loop.simps)
          (simp add: merge_step_def cons Finished_def fin top numeral_2_eq_2 bind_Inr)
      moreover have "resolved d' fs' (AppendRemainingAllocationsFromTwo d' fs' r l)"
        by (rule append_two_resolved) (use three A dist some none idx in auto)
      ultimately show ?thesis by simp
    next
      fix t' l r x assume four: "ms_active s = [t', l, r, x]" "ms_numActive s = 4"
      let ?s1 = "s\<lparr>ms_dir := d', ms_finders := fs', ms_active := [x, l, r], ms_numActive := 3,
        ms_topIndex := x, ms_topFinder := indexToFinder d' ! x\<rparr>"
      have Al: "A = [l, r, x]" using four A by simp
      obtain s' where s': "merge_reorder ?s1 = Some s'"
        using merge_reorder_outcome [of ?s1] C(3) [OF True Al] by blast
      then have "merge_loop s = merge_loop s'"
        using True four by (subst merge_loop.simps)
          (simp add: merge_step_def cons Finished_def fin top numeral_3_eq_3)
      then show ?thesis using rec [OF _ _ _ _ s'] C(3) [OF True Al] by simp
    qed
  qed
  show ?case
    by (rule resolved_step [where fs = ?fs, OF dist(1) t p least]) (use main in \<open>simp add: d'_def fs'_def\<close>)
qed

section \<open>All finders\<close>

text \<open>
  What the standard promises of \<open>std::make_heap\<close>: for a strict weak ordering the result is a permutation
  in which no parent compares before its child in the order of the comparison.
\<close>

definition strict_weak :: "(nat \<Rightarrow> nat \<Rightarrow> bool) \<Rightarrow> nat set \<Rightarrow> bool" where
  "strict_weak cmp S \<longleftrightarrow> (\<forall>x\<in>S. \<not> cmp x x) \<and>
     (\<forall>x\<in>S. \<forall>y\<in>S. \<forall>z\<in>S. cmp x y \<and> cmp y z \<longrightarrow> cmp x z) \<and>
     (\<forall>x\<in>S. \<forall>y\<in>S. \<forall>z\<in>S. \<not> cmp x y \<and> \<not> cmp y z \<longrightarrow> \<not> cmp x z)"

definition makes_heap :: "heap_maker \<Rightarrow> bool" where
  "makes_heap mk \<longleftrightarrow> (\<forall>cmp xs. distinct xs \<and> strict_weak cmp (set xs) \<longrightarrow>
     distinct (mk cmp xs) \<and> set (mk cmp xs) = set xs \<and> length (mk cmp xs) = length xs \<and>
     (\<forall>i<length xs. 0 < i \<longrightarrow> \<not> cmp (mk cmp xs ! ((i - 1) div 2)) (mk cmp xs ! i)))"

lemma heap_comp_kle:
  assumes "fs (indexToFinder d ! i) \<noteq> []" "fs (indexToFinder d ! j) \<noteq> []"
  shows "heap_comp d fs i j \<longleftrightarrow>
     \<not> kle (pkey (hd (fs (indexToFinder d ! i)))) (pkey (hd (fs (indexToFinder d ! j))))"
proof -
  obtain a s u b t v where "hd (fs (indexToFinder d ! i)) = (a, s, u)" "hd (fs (indexToFinder d ! j)) = (b, t, v)"
    by (meson prod_cases3)
  then show ?thesis using assms by (auto simp: heap_comp_def next_key_hd not_kle)
qed

lemma heap_comp_strict_weak:
  assumes "\<forall>i\<in>S. fs (indexToFinder d ! i) \<noteq> []"
  shows "strict_weak (heap_comp d fs) S"
proof -
  define k where "k i = pkey (hd (fs (indexToFinder d ! i)))" for i
  have c: "heap_comp d fs i j \<longleftrightarrow> \<not> kle (k i) (k j)" if "i \<in> S" "j \<in> S" for i j
    using heap_comp_kle [of fs d i j] assms that by (simp add: k_def)
  have tr: "\<not> kle (k x) (k z)" if "\<not> kle (k x) (k y)" "\<not> kle (k y) (k z)" for x y z
    using that by (auto simp: not_kle)
  have "\<forall>x\<in>S. \<not> heap_comp d fs x x" using c by simp
  moreover have "heap_comp d fs x z" if "x \<in> S" "y \<in> S" "z \<in> S" "heap_comp d fs x y" "heap_comp d fs y z" for x y z
    using that c tr by simp
  moreover have "\<not> heap_comp d fs x z" if "x \<in> S" "y \<in> S" "z \<in> S" "\<not> heap_comp d fs x y" "\<not> heap_comp d fs y z" for x y z
    using that c kle_trans [of "k x" "k y" "k z"] by simp
  ultimately show ?thesis unfolding strict_weak_def by blast
qed

lemma append_from_finders_resolved:
  assumes mk: "makes_heap mk" and dist: "distinct (indexToFinder d)" "distinct A"
    and act: "\<forall>i. pend (indexToFinder d) fs i \<noteq> [] \<longleftrightarrow> i \<in> set A" and len: "length A = 3 \<or> length A = 4"
  shows "resolved d fs (AppendRemainingAllocationsFromFinders mk d fs A)"
proof -
  define H where "H = mk (heap_comp d fs) A"
  have ne: "i < length (indexToFinder d)" "fs (indexToFinder d ! i) \<noteq> []" if "i \<in> set A" for i
    using act that by (auto simp: pend_def split: if_splits)
  have sw: "strict_weak (heap_comp d fs) (set A)" by (rule heap_comp_strict_weak) (use ne in blast)
  then have H: "distinct H" "set H = set A" "length H = length A"
    "\<forall>i<length A. 0 < i \<longrightarrow> \<not> heap_comp d fs (H ! ((i - 1) div 2)) (H ! i)"
    using mk dist(2) unfolding makes_heap_def H_def by blast+
  define k where "k i = pkey (hd (fs (indexToFinder d ! i)))" for i
  have nk: "next_key fs (indexToFinder d ! i) = Some (k i)" if "i \<in> set A" for i
    using next_key_hd [of fs, OF ne(2) [OF that]] by (simp add: k_def)
  have inA: "H ! i \<in> set A" if "i < length A" for i using that H(2,3) nth_mem by metis
  have heap: "kle (k (H ! ((i - 1) div 2))) (k (H ! i))" if "i < length A" "0 < i" for i
  proof -
    have "(i - 1) div 2 < length A" using that by linarith
    then show ?thesis
      using H(4) that heap_comp_kle [of fs d "H ! ((i - 1) div 2)" "H ! i"] ne(2) inA by (auto simp: k_def)
  qed
  define s where "s = \<lparr>ms_dir = d, ms_finders = fs, ms_active = H, ms_numActive = length A,
      ms_topIndex = H ! 0, ms_topFinder = indexToFinder d ! (H ! 0),
      ms_leftFinder = indexToFinder d ! (H ! 1), ms_left = k (H ! 1),
      ms_rightFinder = indexToFinder d ! (H ! 2), ms_right = k (H ! 2),
      ms_leftIsNext = True, ms_next = k (H ! 1)\<rparr>"
  have K: "ms_key s (H ! i) = k (H ! i)" if "i < length A" for i
    using nk [OF inA [OF that]] by (simp add: ms_key_def s_def)
  have i4: "0 < length A" "1 < length A" "2 < length A" "length A = 4 \<Longrightarrow> 3 < length A" using len by auto
  have k13: "kle (k (H ! 1)) (k (H ! 3))" if "length A = 4" using heap [of 3] that by simp
  have "merge_base s"
    using dist(1) H len act K i4 k13 unfolding merge_base_def Let_def by (auto simp: s_def)
  moreover have "heap_top s"
    using heap [of 1] heap [of 2] i4 K by (simp add: heap_top_def s_def)
  moreover have "AppendRemainingAllocationsFromFinders mk d fs A = merge_loop (choose_next s)"
    using nk [OF inA [OF i4(2)]] nk [OF inA [OF i4(3)]]
    by (simp add: AppendRemainingAllocationsFromFinders_def Let_def H_def [symmetric] s_def)
  ultimately show ?thesis
    using merge_loop_resolved [of "choose_next s"] by (simp add: s_def)
qed

lemma finders_ok_distinct: "finders_ok d \<Longrightarrow> distinct (indexToFinder d)"
  by (auto simp: finders_ok_def distinct_conv_nth) (metis option.inject)

lemma Resolve_resolved:
  assumes mk: "makes_heap mk" and d: "finders_ok d" "\<not> allocationBoundariesResolved d"
    and four: "length (filter (\<lambda>f. fs f \<noteq> []) (indexToFinder d)) \<le> 4"
  shows "\<exists>d' fs'. resolved d fs (Some (d', fs')) \<and>
     ResolveAllocationBoundaries mk d fs =
       Some (d'\<lparr>allocationBoundariesResolved := True\<rparr>, fs', resolutionDoneCallbacks d)"
proof -
  let ?idx = "indexToFinder d"
  have dist: "distinct ?idx" using d(1) by (rule finders_ok_distinct)
  define A where "A = filter (\<lambda>i. \<not> Finished fs (?idx ! i)) [0..<length ?idx]"
  have distA: "distinct A" by (simp add: A_def)
  have act: "pend ?idx fs i \<noteq> [] \<longleftrightarrow> i \<in> set A" for i by (auto simp: A_def pend_def Finished_def)
  have less: "i < length ?idx" if "i \<in> set A" for i using that by (simp add: A_def)
  have "length (filter (\<lambda>f. fs f \<noteq> []) ?idx) = length A"
  proof -
    have "filter (\<lambda>f. fs f \<noteq> []) ?idx = map ((!) ?idx) A"
      by (subst map_nth [of ?idx, symmetric], subst filter_map) (simp add: A_def Finished_def comp_def)
    then show ?thesis by simp
  qed
  then have len: "length A \<le> 4" using four by simp
  define r where "r = (if A = [] then Some (d, fs)
      else if length A = 1 then AppendRemainingAllocationsFromFinder d fs (A ! 0)
      else if length A = 2 then AppendRemainingAllocationsFromTwo d fs (A ! 0) (A ! 1)
      else AppendRemainingAllocationsFromFinders mk d fs A)"
  consider "A = []" | i where "A = [i]" | i j where "A = [i, j]" | "length A = 3 \<or> length A = 4"
  proof -
    have "length A = 0 \<or> length A = 1 \<or> length A = 2 \<or> length A = 3 \<or> length A = 4" using len by linarith
    then show ?thesis using that by (auto simp: length_Suc_conv numeral_2_eq_2)
  qed
  then have res: "resolved d fs r"
  proof cases
    case 1
    then have "\<forall>i. pend ?idx fs i = []" using act by auto
    then show ?thesis using resolved_done 1 by (simp add: r_def)
  next
    case (2 i)
    then show ?thesis
      using append_from_finder_resolved [OF dist less, of i fs] act by (auto simp: r_def)
  next
    case (3 i j)
    then show ?thesis
      using append_two_resolved [OF dist less less, of i j fs] act distA by (auto simp: r_def)
  next
    case 4
    then show ?thesis
      using append_from_finders_resolved [OF mk dist distA, of fs] act by (auto simp: r_def)
  qed
  then obtain d' fs' where r: "r = Some (d', fs')" "resolutionDoneCallbacks d' = resolutionDoneCallbacks d"
    by (auto simp: resolved_def)
  then have "ResolveAllocationBoundaries mk d fs =
      Some (d'\<lparr>allocationBoundariesResolved := True\<rparr>, fs', resolutionDoneCallbacks d)"
    using d(2) by (simp add: ResolveAllocationBoundaries_def Let_def A_def [symmetric] r_def)
  then show ?thesis using res r(1) by auto
qed

lemma dir_ok_resolved [simp]: "dir_ok cur (d\<lparr>allocationBoundariesResolved := b\<rparr>) = dir_ok cur d"
  by (simp add: dir_ok_def)

lemma consume_all_ok:
  assumes "dir_ok cur d" "\<forall>(i, p)\<in>set out. i < unat MAX_FINDERS \<and> pending_ok p \<and> cur \<le> unat (fst p)"
    and "sorted_wrt (\<lambda>p q. kle (pkey p) (pkey q)) (map snd out)"
  shows "\<exists>cur'. dir_ok cur' (consume_all d out)"
  using assms
proof (induction out arbitrary: cur d)
  case (Cons ip out)
  obtain i a z u where ip: "ip = (i, a, z, u)" by (cases ip)
  have step: "dir_ok (unat a) (consume_allocation d i (a, z, u))"
    by (rule consume_allocation_ok [OF Cons.prems(1)]) (use Cons.prems(2) ip in auto)
  have later: "unat a \<le> unat (fst q)" if "(j, q) \<in> set out" for j q
  proof -
    have "kle (a, z) (pkey q)" using Cons.prems(3) that ip by auto
    then show ?thesis by (cases q) (auto simp: kle_def word_less_nat_alt)
  qed
  have "\<exists>cur'. dir_ok cur' (consume_all (consume_allocation d i (a, z, u)) out)"
    by (rule Cons.IH [OF step]) (use Cons.prems(2,3) later in auto)
  then show ?case by (simp add: ip)
qed auto

text \<open>Finders as their contract has them: each reports well-formed allocations by increasing address.\<close>

definition finder_ok :: "pending list \<Rightarrow> bool" where
  "finder_ok ps \<longleftrightarrow> (\<forall>p\<in>set ps. pending_ok p) \<and> sorted_wrt (\<lambda>p q. fst p < fst q) ps"

lemma finder_ok_kle: "finder_ok ps \<Longrightarrow> sorted_wrt (\<lambda>p q. kle (pkey p) (pkey q)) ps"
  by (auto simp: finder_ok_def kle_def elim!: sorted_wrt_mono_rel [rotated])

section \<open>When the heap does not settle\<close>

text \<open>
  The loop of \<open>Place\<close> compares the same two children every time, so once it does not place the finder in
  its first iteration it never will.
\<close>

definition child_first :: "key \<Rightarrow> key \<Rightarrow> bool" where
  "child_first left right \<longleftrightarrow> fst left < fst right \<or> (fst left = fst right \<and> snd left > snd right)"

lemma Place_loop_never_returns:
  assumes "Place_loop key a f l r A h = Some res"
  shows "\<lbrakk>r < length A; l < length A; l \<noteq> r; key (A ! l) = Some left; key (A ! r) = Some right;
     \<not> (a < fst (if child_first left right then left else right) \<or>
        (a = fst (if child_first left right then left else right) \<and>
         a \<ge> snd (if child_first left right then left else right)));
     h \<noteq> l \<and> h \<noteq> r \<or> h = (if child_first left right then l else r)\<rbrakk> \<Longrightarrow> False"
proof (induction rule: Place_loop.raw_induct [OF _ assms])
  case (1 rec key a f l r A h res)
  define c where "c = (if child_first left right then l else r)"
  let ?A = "A[h := A ! c]"
  have same: "?A ! l = A ! l" "?A ! r = A ! r" "length ?A = length A" "c = l \<or> c = r"
    using "1.prems" by (auto simp: c_def nth_list_update split: if_splits)
  have "rec key a f l r ?A c = Some res"
    using "1.hyps" "1.prems" by (cases left; cases right) (auto simp: c_def child_first_def split: if_splits)
  then show False
    by (rule "1.IH") (use "1.prems" same in \<open>auto simp: c_def\<close>)
qed

lemma Place_None:
  assumes "2 * h + 2 < length A" "key (A ! (2 * h + 1)) = Some left" "key (A ! (2 * h + 2)) = Some right"
    and "\<not> (a < fst (if child_first left right then left else right) \<or>
        (a = fst (if child_first left right then left else right) \<and>
         a \<ge> snd (if child_first left right then left else right)))"
  shows "Place key a z f A h = None"
proof -
  have "Place_loop key a f (2 * h + 1) (2 * h + 1 + 1) A h = None"
  proof (cases "Place_loop key a f (2 * h + 1) (2 * h + 1 + 1) A h")
    case (Some res)
    then show ?thesis using Place_loop_never_returns [OF Some, of left right] assms by simp
  qed
  then show ?thesis by (simp add: Place_def Let_def)
qed

text \<open>A heap maker for the witnesses: insertion sort by the comparison.\<close>

fun heap_insert :: "(nat \<Rightarrow> nat \<Rightarrow> bool) \<Rightarrow> nat \<Rightarrow> nat list \<Rightarrow> nat list" where
  "heap_insert cmp x [] = [x]"
| "heap_insert cmp x (y # ys) = (if cmp x y then y # heap_insert cmp x ys else x # y # ys)"

definition sort_heap :: heap_maker where
  "sort_heap cmp xs = foldr (heap_insert cmp) xs []"

lemma heap_insert_set [simp]: "set (heap_insert cmp x ys) = insert x (set ys)"
  "length (heap_insert cmp x ys) = Suc (length ys)" "distinct (heap_insert cmp x ys) = distinct (x # ys)"
  by (induction ys) auto

lemma heap_insert_sorted:
  assumes "strict_weak cmp S" "x \<in> S" "set ys \<subseteq> S" "sorted_wrt (\<lambda>a b. \<not> cmp a b) ys"
  shows "sorted_wrt (\<lambda>a b. \<not> cmp a b) (heap_insert cmp x ys)"
  using assms(3,4)
proof (induction ys)
  case (Cons y ys)
  note sw = assms(1) [unfolded strict_weak_def]
  have y: "y \<in> S" "set ys \<subseteq> S" using Cons.prems(1) by simp_all
  show ?case
  proof (cases "cmp x y")
    case True
    then have "\<not> cmp y x" using sw assms(2) y(1) by blast
    then show ?thesis using Cons True by simp
  next
    case False
    have "\<not> cmp x z" if "z \<in> set ys" for z
    proof -
      have "\<not> cmp y z" "z \<in> S" using Cons.prems(2) y(2) that by auto
      then show ?thesis using sw assms(2) y(1) False by blast
    qed
    then show ?thesis using Cons.prems False by simp
  qed
qed simp

lemma sort_heap_set: "set (sort_heap cmp xs) = set xs" "length (sort_heap cmp xs) = length xs"
  "distinct (sort_heap cmp xs) = distinct xs"
proof -
  have "set (foldr (heap_insert cmp) xs []) = set xs \<and> length (foldr (heap_insert cmp) xs []) = length xs \<and>
    distinct (foldr (heap_insert cmp) xs []) = distinct xs"
    by (induction xs) auto
  then show "set (sort_heap cmp xs) = set xs" "length (sort_heap cmp xs) = length xs"
    "distinct (sort_heap cmp xs) = distinct xs"
    by (simp_all add: sort_heap_def)
qed

lemma sort_heap_makes_heap: "makes_heap sort_heap"
proof -
  have sorted: "sorted_wrt (\<lambda>a b. \<not> cmp a b) (sort_heap cmp xs)" if "strict_weak cmp S" "set xs \<subseteq> S" for cmp xs S
    using that(2)
  proof (induction xs)
    case (Cons x xs)
    have "sort_heap cmp (x # xs) = heap_insert cmp x (sort_heap cmp xs)" by (simp add: sort_heap_def)
    then show ?case using heap_insert_sorted [OF that(1), of x "sort_heap cmp xs"] Cons by (simp add: sort_heap_set)
  qed (simp add: sort_heap_def)
  have "\<not> cmp (sort_heap cmp xs ! ((i - 1) div 2)) (sort_heap cmp xs ! i)"
    if "strict_weak cmp (set xs)" "i < length xs" "0 < i" for cmp xs i
  proof -
    have "(i - 1) div 2 < i" using that(3) by linarith
    then show ?thesis
      using sorted [OF that(1) order_refl] that(2) by (simp add: sorted_wrt_iff_nth_less sort_heap_set)
  qed
  then show ?thesis by (simp only: makes_heap_def sort_heap_set) blast
qed

section \<open>Properties\<close>

text \<open>
  C7: With at most four finders that report anything, \<open>ResolveAllocationBoundaries\<close> ends and builds the
  directory from a merge of their lists: the allocations are consumed in order of address, larger first,
  each finder's in the order in which it reports them and each exactly once, so that every finder is
  finished afterwards; the directory is well-formed and marked as resolved, and the callbacks are those
  registered, in order.  The heap that \<open>std::make_heap\<close> builds may be any the standard allows.
\<close>

theorem Resolve_correct:
  assumes "makes_heap mk" "finders_ok d" "dir_ok 0 d" "\<not> allocationBoundariesResolved d"
    and "length (filter (\<lambda>f. fs f \<noteq> []) (indexToFinder d)) \<le> 4"
    and "\<forall>f\<in>set (indexToFinder d). finder_ok (fs f)"
  shows "\<exists>out fs' cur. ResolveAllocationBoundaries mk d fs =
           Some ((consume_all d out)\<lparr>allocationBoundariesResolved := True\<rparr>, fs', resolutionDoneCallbacks d) \<and>
         (\<forall>f\<in>set (indexToFinder d). Finished fs' f) \<and>
         sorted_wrt (\<lambda>p q. kle (pkey p) (pkey q)) (map snd out) \<and>
         (\<forall>i<length (indexToFinder d). map snd (filter (\<lambda>ip. fst ip = i) out) = fs (indexToFinder d ! i)) \<and>
         set (map fst out) \<subseteq> {..<length (indexToFinder d)} \<and>
         dir_ok cur ((consume_all d out)\<lparr>allocationBoundariesResolved := True\<rparr>)"
proof -
  let ?idx = "indexToFinder d"
  obtain d' fs' where res: "resolved d fs (Some (d', fs'))" and r: "ResolveAllocationBoundaries mk d fs =
       Some (d'\<lparr>allocationBoundariesResolved := True\<rparr>, fs', resolutionDoneCallbacks d)"
    using Resolve_resolved [OF assms(1,2,4,5)] by blast
  obtain out where out: "merge_run (pend ?idx fs) out" "d' = consume_all d out" "\<forall>i. pend ?idx fs' i = []"
    using res by (auto simp: resolved_def)
  have ok: "finder_ok (pend ?idx fs i)" for i
    using assms(6) by (simp add: pend_def finder_ok_def [of "[]"])
  then have sorted: "sorted_wrt (\<lambda>p q. kle (pkey p) (pkey q)) (map snd out)"
    using merge_run_sorted [OF out(1)] finder_ok_kle by blast
  have mem: "p \<in> set (pend ?idx fs i)" if "(i, p) \<in> set out" for i p
    using merge_run_member [OF out(1) that] .
  have idx: "i < length ?idx" if "(i, p) \<in> set out" for i p
    using mem [OF that] by (auto simp: pend_def split: if_splits)
  have "length ?idx \<le> 256" using assms(2) by (simp add: finders_ok_def)
  then have "\<forall>(i, p)\<in>set out. i < unat MAX_FINDERS \<and> pending_ok p \<and> 0 \<le> unat (fst p)"
    using idx mem ok by (fastforce simp: finder_ok_def al_constants)
  then obtain cur where "dir_ok cur d'" using consume_all_ok [OF assms(3) _ sorted] out(2) by auto
  moreover have "\<forall>f\<in>set ?idx. Finished fs' f"
  proof
    fix f assume "f \<in> set ?idx"
    then obtain i where "i < length ?idx" "f = ?idx ! i" by (auto simp: in_set_conv_nth)
    then show "Finished fs' f" using out(3) [rule_format, of i] by (simp add: pend_def Finished_def)
  qed
  moreover have "map snd (filter (\<lambda>ip. fst ip = i) out) = fs (?idx ! i)" if "i < length ?idx" for i
    using merge_run_per_finder [OF out(1)] that by (simp add: pend_def)
  moreover have "set (map fst out) \<subseteq> {..<length ?idx}" using idx by auto
  ultimately show ?thesis
    by (intro exI [of _ out] exI [of _ fs'] exI [of _ cur] conjI) (simp_all add: r sorted out(2) [symmetric])
qed

definition two_finders :: finders where
  "two_finders f = (if f = 7 then [(0x1000, 0x100, True), (0x2000, 0x10, False)]
                    else if f = 9 then [(0x1010, 0x10, True)] else [])"

definition two_finder_directory :: Directory where
  "two_finder_directory = Directory_new\<lparr>finderToIndex := [(7, 0), (9, 1)], indexToFinder := [7, 9]\<rparr>"

theorem Resolve_correct_witness:
  "makes_heap sort_heap \<and> finders_ok two_finder_directory \<and> dir_ok 0 two_finder_directory \<and>
   (\<exists>d fs'. ResolveAllocationBoundaries sort_heap two_finder_directory two_finders = Some (d, fs', []) \<and>
      allocationBoundariesResolved d \<and> Finished fs' 9)"
proof -
  have f: "finders_ok two_finder_directory"
    by (auto simp: finders_ok_def two_finder_directory_def sm_find_def nth_Cons split: nat.splits)
  have d: "dir_ok 0 two_finder_directory"
    using dir_ok_new by (simp add: dir_ok_def two_finder_directory_def)
  have un: "\<not> allocationBoundariesResolved two_finder_directory"
    by (simp add: two_finder_directory_def Directory_new_def)
  have ok: "\<forall>f\<in>set (indexToFinder two_finder_directory). finder_ok (two_finders f)"
    by (simp add: two_finder_directory_def two_finders_def finder_ok_def pending_ok_def al_constants mask_eq_exp_minus_1)
  have len: "length (filter (\<lambda>f. two_finders f \<noteq> []) (indexToFinder two_finder_directory)) \<le> 4"
    by (simp add: two_finder_directory_def)
  have "resolutionDoneCallbacks two_finder_directory = []" "9 \<in> set (indexToFinder two_finder_directory)"
    by (simp_all add: two_finder_directory_def Directory_new_def)
  then show ?thesis
    using Resolve_correct [OF sort_heap_makes_heap f d un len ok] sort_heap_makes_heap f d by fastforce
qed

text \<open>
  \<open>Place\<close> does not end when the heap position has two children and the finder does not belong before
  the smaller one: its loop never moves on to the children of that child.
\<close>

theorem Place_diverges:
  assumes "2 * h + 2 < length A" "key (A ! (2 * h + 1)) = Some left" "key (A ! (2 * h + 2)) = Some right"
    and "fst (if child_first left right then left else right) < a"
  shows "Place key a z f A h = None"
  using assms(4) by (intro Place_None [OF assms(1-3)]) auto

definition five_finders :: finders where
  "five_finders f = (if f = 0 then [(0x100, 0x10, True), (0x1000, 0x10, True)]
                     else if f < 5 then [(0x100 + of_nat f * 0x100, 0x10, True)] else [])"

definition five_finder_directory :: Directory where
  "five_finder_directory =
     Directory_new\<lparr>finderToIndex := [(0, 0), (1, 1), (2, 2), (3, 3), (4, 4)], indexToFinder := [0, 1, 2, 3, 4]\<rparr>"

theorem Place_diverges_witness:
  "Place (next_key five_finders) 0x1000 0x10 0 [1, 1, 2, 3, 4] 1 = None"
  by (rule Place_diverges [where left = "(0x400, 0x10)" and right = "(0x500, 0x10)"])
    (simp_all add: next_key_def five_finders_def child_first_def)

text \<open>
  So \<open>ResolveAllocationBoundaries\<close> does not end on five finders where the first has an allocation
  below all others and another one above them.
\<close>

theorem Resolve_five_finders_diverges:
  "finders_ok five_finder_directory \<and>
   ResolveAllocationBoundaries sort_heap five_finder_directory five_finders = None"
proof
  show "finders_ok five_finder_directory"
    by (auto simp: finders_ok_def five_finder_directory_def sm_find_def nth_Cons numeral_eq_Suc split: nat.splits)
  have idx: "indexToFinder five_finder_directory = [0, 1, 2, 3, 4]" by (simp add: five_finder_directory_def)
  show "ResolveAllocationBoundaries sort_heap five_finder_directory five_finders = None"
  proof -
    let ?d = five_finder_directory and ?fs = five_finders
    have k: "next_key ?fs 0 = Some (0x100, 0x10)" "next_key ?fs 1 = Some (0x200, 0x10)"
      "next_key ?fs (Suc 0) = Some (0x200, 0x10)" "next_key ?fs 2 = Some (0x300, 0x10)"
      "next_key ?fs 3 = Some (0x400, 0x10)" "next_key ?fs 4 = Some (0x500, 0x10)"
      by (simp_all add: next_key_def five_finders_def)
    define A where "A = [0, 1, 2, 3, 4 :: nat]"
    have act: "filter (\<lambda>i. \<not> Finished ?fs (indexToFinder ?d ! i)) [0..<length (indexToFinder ?d)] = A"
      by (simp add: idx Finished_def five_finders_def A_def upt_rec)
    have heap: "sort_heap (heap_comp ?d ?fs) A = A"
      by (simp add: sort_heap_def A_def heap_comp_def idx k)
    define d' where "d' = consume_allocation ?d 0 (0x100, 0x10, True)"
    define fs' where "fs' = ?fs(0 := [(0x1000, 0x10, True)])"
    have idx': "indexToFinder d' = [0, 1, 2, 3, 4]" by (simp add: d'_def idx)
    have k': "next_key fs' 0 = Some (0x1000, 0x10)" "next_key fs' 3 = Some (0x400, 0x10)"
      "next_key fs' 4 = Some (0x500, 0x10)" "\<not> Finished fs' 0"
      using k by (simp_all add: next_key_def fs'_def Finished_def)
    have cons: "ConsumeCurrentAllocation ?d ?fs 0 0 = Some (d', fs')"
      unfolding d'_def fs'_def by (rule Consume_eq) (simp add: five_finders_def)
    have place: "Place (\<lambda>i. next_key fs' (indexToFinder d' ! i)) 0x1000 0x10 0 [1, 1, 2, 3, 4] 1 = None"
      by (rule Place_None [where left = "(0x400, 0x10)" and right = "(0x500, 0x10)"])
        (simp_all add: k' idx' child_first_def)
    have "AppendRemainingAllocationsFromFinders sort_heap ?d ?fs A = None"
      using place unfolding AppendRemainingAllocationsFromFinders_def heap Let_def
      by (subst merge_loop.simps)
        (simp add: A_def idx k choose_next_def left_is_next_def merge_step_def cons k' merge_reorder_def Let_def)
    then show ?thesis
      by (simp add: ResolveAllocationBoundaries_def act Let_def A_def)
  qed
qed

end
