(* ===== verification/Corruption_Chains.thy ===== *)
theory Corruption_Chains
  imports Corruption_Skipper
begin

text \<open>
  What \<open>CorruptionSkipper\<close> (LibcMalloc/CorruptionSkipper.h) finds: a place past the corruption, from which
  plausible chunk headers lead on.
\<close>

section \<open>Going forward\<close>

text \<open>A header that no test on it alone rejects, and chains of them.\<close>

definition chunk_length :: "VirtualAddressMap \<Rightarrow> addr \<Rightarrow> addr" where
  "chunk_length m a = word_or m (a + 8) 2 AND NOT 7"

definition plausible :: "VirtualAddressMap \<Rightarrow> addr \<Rightarrow> bool" where
  "plausible m a \<longleftrightarrow> word_or m (a + 8) 2 AND sizeCheckMask = 0 \<and> chunk_length m a \<noteq> 0"

inductive leads_to :: "VirtualAddressMap \<Rightarrow> addr \<Rightarrow> addr \<Rightarrow> bool" for m where
  here: "leads_to m a a"
| step: "plausible m a \<Longrightarrow> leads_to m (a + chunk_length m a) b \<Longrightarrow> leads_to m a b"

lemma walk_forward_step:
  assumes "walk_forward m start c p" "c \<noteq> start"
  shows "plausible m c" "walk_forward m start (c + chunk_length m c) (chunk_length m c)"
    "\<not> (word_or m (c + 8) 2 AND 1 = 0 \<and> word_or m c 0 AND NOT 7 \<noteq> p)" "chunk_length m c \<le> start - c"
proof -
  define w where "w = word_or m (c + 8) 2"
  define l where "l = chunk_length m c"
  have l: "w AND NOT 7 = l" by (simp add: w_def l_def chunk_length_def)
  note e = assms(1) [unfolded walk_forward.simps [of m start c p] Let_def if_not_P [OF assms(2)], folded w_def, unfolded l]
  have 1: "\<not> w AND sizeCheckMask \<noteq> 0" by (rule notI) (use e in \<open>simp only: if_True simp_thms\<close>)
  note e = e [unfolded if_not_P [OF 1]]
  have 2: "\<not> (w AND 1 = 0 \<and> word_or m c 0 AND NOT 7 \<noteq> p)" by (rule notI) (use e in \<open>simp only: if_True simp_thms\<close>)
  note e = e [unfolded if_not_P [OF 2]]
  have 3: "\<not> (l = 0 \<or> start - c < l)" by (rule notI) (use e in \<open>simp only: if_True simp_thms\<close>)
  note e = e [unfolded if_not_P [OF 3]]
  show "walk_forward m start (c + chunk_length m c) (chunk_length m c)" using e by (simp only: l_def)
  show "\<not> (word_or m (c + 8) 2 AND 1 = 0 \<and> word_or m c 0 AND NOT 7 \<noteq> p)" using 2 unfolding w_def .
  show "plausible m c" using 1 3 by (simp add: plausible_def w_def [symmetric] l_def [symmetric])
  show "chunk_length m c \<le> start - c" using 3 by (simp add: l_def [symmetric] not_less)
qed

lemma walk_forward_leads: "walk_forward m start c p \<Longrightarrow> leads_to m c start"
proof (induction "unat (start - c)" arbitrary: c p rule: less_induct)
  case less
  show ?case
  proof (cases "c = start")
    case False
    note S = walk_forward_step [OF less.prems False]
    have l: "0 < chunk_length m c" using S(1) by (simp add: plausible_def word_neq_0_conv)
    have "start - (c + chunk_length m c) = (start - c) - chunk_length m c" by simp
    then have "unat (start - (c + chunk_length m c)) = unat (start - c) - unat (chunk_length m c)"
      using unat_sub_le [OF S(4)] by metis
    then have "unat (start - (c + chunk_length m c)) < unat (start - c)"
      using l S(4) by (simp add: word_less_nat_alt word_le_nat_alt)
    from less.hyps [OF this S(2)] show ?thesis by (rule leads_to.step [OF S(1)])
  qed (simp add: leads_to.here)
qed

section \<open>Going back\<close>

text \<open>
  A place that is accepted leads to the chunk the search started from, unless a chain from it goes around
  the whole address space back to itself.
\<close>

definition reaches :: "VirtualAddressMap \<Rightarrow> addr \<Rightarrow> addr \<Rightarrow> bool" where
  "reaches m start a \<longleftrightarrow> leads_to m a start \<or>
     (\<exists>z. leads_to m a z \<and> plausible m z \<and> leads_to m (z + chunk_length m z) z)"

lemma reaches_step: "plausible m a \<Longrightarrow> reaches m start (a + chunk_length m a) \<Longrightarrow> reaches m start a"
  unfolding reaches_def by (blast intro: leads_to.step)

lemma back_candidate_outcome:
  assumes "reaches m start lowest" "back_candidate m cp check lc lowest = (lc', lowest')"
  shows "reaches m start lowest' \<and> (lowest' = lowest \<or> lowest' = check)"
proof -
  let ?w = "word_or m (check + 8) 2"
  consider "lowest' = lowest"
    | (direct) "lowest' = check" "plausible m check" "check + chunk_length m check = lowest"
    | (walk) "lowest' = check" "plausible m check"
        "walk_forward m check (check + chunk_length m check) (chunk_length m check)"
    using assms(2) unfolding back_candidate_def Let_def chunk_length_def plausible_def
    by (auto split: if_splits)
  then show ?thesis
  proof cases
    case direct
    then show ?thesis using assms(1) reaches_step [of m check start] by simp
  next
    case walk
    then have "reaches m start check"
      unfolding reaches_def using walk_forward_leads [OF walk(3)] leads_to.here by blast
    then show ?thesis using walk(1) by simp
  qed (use assms(1) in simp)
qed

lemma back_loop_outcome:
  assumes "back_loop m cp check lc lowest = Some r"
  shows "reaches m start lowest \<Longrightarrow> reaches m start r \<and> (r = lowest \<or> cp < r)"
proof (induction rule: back_loop.raw_induct [OF _ assms])
  case (1 rec m cp check lc lowest r)
  show ?case
  proof (cases "check > cp")
    case True
    obtain lc' lowest' where b: "back_candidate m cp check lc lowest = (lc', lowest')" by fastforce
    note B = back_candidate_outcome [OF "1.prems" b]
    have "rec m cp (check - 2 * 8) lc' lowest' = Some r" using "1.hyps" True b by simp
    then have "reaches m start r \<and> (r = lowest' \<or> cp < r)" using "1.IH" B by blast
    then show ?thesis using B True by auto
  next
    case False
    then show ?thesis using "1.hyps" "1.prems" by simp
  qed
qed

text \<open>The search ends where the corruption is not at the very start of the address space.\<close>

lemma back_loop_returns:
  assumes "16 \<le> cp"
  shows "\<exists>r. back_loop m cp check lc lowest = Some r"
proof (induction "unat check" arbitrary: check lc lowest rule: less_induct)
  case less
  show ?case
  proof (cases "check > cp")
    case True
    obtain lc' lowest' where b: "back_candidate m cp check lc lowest = (lc', lowest')" by fastforce
    have "16 \<le> check" using True assms by simp
    then have "unat (check - 2 * 8) < unat check" using unat_sub_le [of 16 check] by (simp add: word_le_nat_alt)
    from less [OF this, of lc' lowest'] show ?thesis by (subst back_loop.simps) (simp add: b)
  qed (simp add: back_loop.simps)
qed

text \<open>
  A chunk of which all tests on its own header say that it is one, and whose predecessor is in use; it leads to a
  place directly if it ends there.
\<close>

definition leads_directly :: "VirtualAddressMap \<Rightarrow> addr \<Rightarrow> addr \<Rightarrow> bool" where
  "leads_directly m c b \<longleftrightarrow>
     plausible m c \<and> word_or m (c + 8) 2 AND 1 \<noteq> 0 \<and> chunk_length m c \<le> c \<and> c + chunk_length m c = b"

lemma back_candidate_direct:
  assumes "leads_directly m c lowest"
  shows "back_candidate m cp c lc lowest = (c, c)"
  using assms by (simp add: back_candidate_def Let_def leads_directly_def plausible_def chunk_length_def linorder_not_le [symmetric])

text \<open>The result is the start or a place that was looked at, and nothing that was looked at below it leads to it directly.\<close>

lemma back_loop_lowest:
  assumes "back_loop m cp check lc lowest = Some r"
  shows "16 \<le> cp \<Longrightarrow> (r = lowest \<or> r \<le> check \<and> cp < r \<and> 16 dvd (unat check - unat r)) \<and>
    (\<forall>c. cp < c \<and> c \<le> check \<and> 16 dvd (unat check - unat c) \<and> c < r \<longrightarrow> \<not> leads_directly m c r)"
proof (induction rule: back_loop.raw_induct [OF _ assms])
  case (1 rec m cp check lc lowest r)
  show ?case
  proof (cases "check > cp")
    case False
    then show ?thesis using "1.hyps" by auto
  next
    case True
    obtain lc' lowest' where b: "back_candidate m cp check lc lowest = (lc', lowest')" by fastforce
    have rc: "rec m cp (check - 2 * 8) lc' lowest' = Some r" using "1.hyps" True b by simp
    have ge: "16 \<le> check" using True "1.prems" by simp
    then have u: "unat (check - 2 * 8) = unat check - 16" "16 \<le> unat check"
      using unat_sub_le [of 16 check] by (simp_all add: word_le_nat_alt)
    have IH: "r = lowest' \<or> r \<le> check - 2 * 8 \<and> cp < r \<and> 16 dvd (unat (check - 2 * 8) - unat r)"
      "\<forall>c. cp < c \<and> c \<le> check - 2 * 8 \<and> 16 dvd (unat (check - 2 * 8) - unat c) \<and> c < r \<longrightarrow> \<not> leads_directly m c r"
      using "1.IH" [OF rc "1.prems"] by blast+
    have low: "lowest' = lowest \<or> lowest' = check"
      using b by (auto simp: back_candidate_def Let_def split: if_splits)
    have below: "r \<le> check - 2 * 8 \<Longrightarrow> unat r + 16 \<le> unat check" using u by (simp add: word_le_nat_alt)
    have "r = lowest \<or> r \<le> check \<and> cp < r \<and> 16 dvd (unat check - unat r)"
    proof (cases "r = lowest'")
      case True
      then show ?thesis using low \<open>cp < check\<close> by auto
    next
      case False
      then have r: "r \<le> check - 2 * 8" "cp < r" "16 dvd (unat (check - 2 * 8) - unat r)" using IH(1) by auto
      have "unat check - unat r = (unat (check - 2 * 8) - unat r) + 16" using below [OF r(1)] u by linarith
      then have "16 dvd (unat check - unat r)" using r(3) by (metis dvd_add_triv_right_iff)
      moreover have "r \<le> check" using below [OF r(1)] by (simp add: word_le_nat_alt)
      ultimately show ?thesis using r(2) by blast
    qed
    moreover have "\<not> leads_directly m c r" if c: "cp < c" "c \<le> check" "16 dvd (unat check - unat c)" "c < r" for c
    proof (cases "c = check")
      case True
      then have "\<not> r \<le> check - 2 * 8" using c(4) below by (auto simp: word_less_nat_alt)
      then have "r = lowest'" using IH(1) by blast
      moreover have "r \<noteq> check" using True c(4) by simp
      ultimately have "r = lowest" using low by blast
      then show ?thesis using back_candidate_direct [of m check r cp lc] b True \<open>r = lowest'\<close> \<open>r \<noteq> check\<close> by auto
    next
      case False
      then have lt: "unat c < unat check" using c(2) by (simp add: word_less_nat_alt [symmetric])
      obtain k where k: "unat check - unat c = 16 * k" using c(3) by (elim dvdE)
      then have "0 < k" using lt by (cases k) simp_all
      then have "unat check - 16 - unat c = 16 * (k - 1)" "unat c \<le> unat check - 16" using k by auto
      then have "c \<le> check - 2 * 8" "16 dvd (unat (check - 2 * 8) - unat c)" using u by (simp_all add: word_le_nat_alt)
      then show ?thesis using IH(2) c(1,4) by blast
    qed
    ultimately show ?thesis by blast
  qed
qed

lemma FindBackChain_outcome:
  assumes "FindBackChain m start cp = Some r" "cp < start"
  shows "reaches m start r" "cp < r"
proof -
  have "reaches m start start" by (simp add: reaches_def leads_to.here)
  from back_loop_outcome [OF assms(1) [unfolded FindBackChain_def] this] assms(2)
  show "reaches m start r" "cp < r" by auto
qed

lemma chunk_length_16: "plausible m c \<Longrightarrow> 16 dvd unat (chunk_length m c)"
proof -
  define w where "w = word_or m (c + 8) 2"
  assume "plausible m c"
  then have z: "w AND sizeCheckMask = 0" by (simp add: plausible_def w_def)
  have "bit (10 :: addr) 3" by simp
  then have "\<not> bit w 3" using arg_cong [OF z, of "\<lambda>x. bit x 3"] by (simp add: sizeCheckMask_def bit_and_iff)
  have "take_bit 4 (w AND NOT 7) = 0"
  proof (rule bit_word_eqI)
    fix n :: nat
    have "n < 4 \<Longrightarrow> n = 0 \<or> n = 1 \<or> n = 2 \<or> n = 3" by arith
    moreover have "bit (7 :: addr) 0" "bit (7 :: addr) 1" "bit (7 :: addr) 2" by simp_all
    ultimately show "bit (take_bit 4 (w AND NOT 7)) n \<longleftrightarrow> bit (0 :: addr) n"
      using \<open>\<not> bit w 3\<close> by (auto simp: bit_take_bit_iff bit_and_iff bit_not_iff)
  qed
  then have "(w AND NOT 7) mod 2 ^ 4 = 0" by (simp add: take_bit_eq_mod)
  then have "unat ((w AND NOT 7) mod 2 ^ 4) = 0" by simp
  then have "unat (w AND NOT 7) mod 16 = 0" by (simp add: unat_mod)
  then show ?thesis by (simp add: chunk_length_def w_def [symmetric] dvd_eq_mod_eq_0)
qed

lemma FindBackChain_lowest:
  assumes "FindBackChain m start cp = Some r" "cp < start" "32 \<le> cp" "cp < c" "c < r" "32 \<le> chunk_length m c"
  shows "\<not> leads_directly m c r"
proof
  assume d: "leads_directly m c r"
  have s: "unat (start - 4 * 8) = unat start - 32" "32 \<le> unat start"
    using assms(2,3) unat_sub_le [of 32 start] by (simp_all add: word_le_nat_alt word_less_nat_alt)
  have cp: "16 \<le> cp" using assms(3) by (simp add: word_le_nat_alt)
  note L = back_loop_lowest [OF assms(1) [unfolded FindBackChain_def] cp]
  let ?l = "unat (chunk_length m c)"
  have l: "r = c + chunk_length m c" "16 dvd ?l" "32 \<le> ?l"
    using d chunk_length_16 assms(6) by (simp_all add: leads_directly_def word_le_nat_alt)
  have "c \<le> c + chunk_length m c" using assms(5) l(1) by simp
  then have u: "unat r = unat c + ?l" using l(1) by (simp add: unat_plus_simple)
  obtain k where k: "?l = 16 * k" using l(2) by (elim dvdE)
  have "c \<le> start - 4 * 8 \<and> 16 dvd (unat (start - 4 * 8) - unat c)"
  proof (cases "r = start")
    case True
    then have "unat (start - 4 * 8) - unat c = 16 * (k - 2)" "unat c \<le> unat (start - 4 * 8)" using u s k l(3) by auto
    then show ?thesis by (simp add: word_le_nat_alt)
  next
    case False
    then have r: "r \<le> start - 4 * 8" "16 dvd (unat (start - 4 * 8) - unat r)" using L by blast+
    obtain j where j: "unat (start - 4 * 8) - unat r = 16 * j" using r(2) by (elim dvdE)
    have "unat r \<le> unat (start - 4 * 8)" using r(1) by (simp add: word_le_nat_alt)
    then have "unat (start - 4 * 8) - unat c = 16 * (j + k)" "unat c \<le> unat (start - 4 * 8)" using j u k by auto
    then show ?thesis by (simp add: word_le_nat_alt)
  qed
  then show False using L d assms(4,5) by blast
qed

text \<open>
  The chunks on the free lists of an arena: from the heads that the fast bins and the headers of the doubly linked
  lists hold, by forward links.
\<close>

inductive listed :: "VirtualAddressMap \<Rightarrow> Infrastructure \<Rightarrow> addr \<Rightarrow> addr \<Rightarrow> bool" for m ix arena where
  fast_bin: "arena + fastBinStartOffset ix \<le> bin \<Longrightarrow> bin < arena + fastBinLimitOffset ix \<Longrightarrow> word_at m bin = Some node \<Longrightarrow>
    listed m ix arena node"
| list_header: "listed m ix arena (word_or m (arena + doublyLinkedFreeListOffset ix + 16 * of_nat k) 0)"
| forward: "listed m ix arena node \<Longrightarrow> listed m ix arena (word_or m (node + 16) 0)"

text \<open>Where the search can begin: the top chunk, or a chunk of a free list past the corruption that looks like one.\<close>

definition skip_limit :: "Arena \<Rightarrow> addr \<Rightarrow> addr \<Rightarrow> addr" where
  "skip_limit ar cp limit = (if cp < arenaTop ar \<and> arenaTop ar \<le> limit then arenaTop ar else limit - 48)"

definition looks_free :: "VirtualAddressMap \<Rightarrow> Infrastructure \<Rightarrow> addr \<Rightarrow> addr \<Rightarrow> addr \<Rightarrow> addr \<Rightarrow> bool" where
  "looks_free m ix arena cp limit node \<longleftrightarrow>
     cp < node \<and> node \<le> limit \<and> node + (word_or m (node + 8) 0 AND NOT 7) \<le> limit \<and> word_or m (node + 8) 0 \<noteq> 0 \<and>
     word_or m (node + 8) 0 AND (if arena = mainArenaAddress ix then 2 OR 4 OR 8 else 2 OR 8) = 0"

definition search_start :: "VirtualAddressMap \<Rightarrow> Infrastructure \<Rightarrow> addr \<Rightarrow> addr \<Rightarrow> addr \<Rightarrow> addr \<Rightarrow> bool" where
  "search_start m ix arena cp limit start \<longleftrightarrow>
     (\<exists>ar. sm_find (arenas ix) arena = Some ar \<and>
        (start = arenaTop ar \<and> cp < start \<or>
         listed m ix arena start \<and> looks_free m ix arena cp (skip_limit ar cp limit) start))"

section \<open>Skipping\<close>

lemma consider_node_cases:
  "consider_node m (if arena = mainArenaAddress ix then 2 OR 4 OR 8 else 2 OR 8) cp limit node past = past \<or>
   (consider_node m (if arena = mainArenaAddress ix then 2 OR 4 OR 8 else 2 OR 8) cp limit node past = node \<and>
    looks_free m ix arena cp limit node)"
  by (auto simp: consider_node_def looks_free_def Let_def)

text \<open>A candidate that is not 0 is a chunk of a free list that looks like one.\<close>

definition candidate_ok :: "VirtualAddressMap \<Rightarrow> Infrastructure \<Rightarrow> addr \<Rightarrow> addr \<Rightarrow> addr \<Rightarrow> addr \<Rightarrow> bool" where
  "candidate_ok m ix arena cp limit past \<longleftrightarrow> past = 0 \<or> listed m ix arena past \<and> looks_free m ix arena cp limit past"

abbreviation clear_mask :: "Infrastructure \<Rightarrow> addr \<Rightarrow> addr" where
  "clear_mask ix arena \<equiv> (if arena = mainArenaAddress ix then 2 OR 4 OR 8 else 2 OR 8)"

lemma candidate_ok_consider:
  "candidate_ok m ix arena cp limit past \<Longrightarrow> listed m ix arena node \<Longrightarrow>
   candidate_ok m ix arena cp limit (consider_node m (clear_mask ix arena) cp limit node past)"
  using consider_node_cases [of m arena ix cp limit node past] by (auto simp: candidate_ok_def)

lemma candidate_ok_fast_list:
  "candidate_ok m ix arena cp limit past \<Longrightarrow> listed m ix arena node \<Longrightarrow>
   candidate_ok m ix arena cp limit (fast_list m (clear_mask ix arena) cp limit guard node past)"
proof (induction guard arbitrary: node past)
  case (Suc guard)
  show ?case using Suc.IH [OF candidate_ok_consider [OF Suc.prems] listed.forward [OF Suc.prems(2)]] Suc.prems(1) by simp
qed simp

lemma candidate_ok_fast_bins:
  assumes "fast_bins m clear cp limit binLimit bin past = Some r"
  shows "clear = clear_mask ix arena \<Longrightarrow> binLimit = arena + fastBinLimitOffset ix \<Longrightarrow> arena + fastBinStartOffset ix \<le> bin \<Longrightarrow>
    unat binLimit + 8 \<le> 2 ^ 64 \<Longrightarrow> candidate_ok m ix arena cp limit past \<Longrightarrow> candidate_ok m ix arena cp limit r"
proof (induction rule: fast_bins.raw_induct [OF _ assms])
  case (1 rec m clear cp limit binLimit bin past r)
  show ?case
  proof (cases "bin < binLimit")
    case True
    obtain node where node: "word_at m bin = Some node" using "1.hyps" True by (auto split: option.splits)
    have "listed m ix arena node" by (rule listed.fast_bin [OF _ _ node]) (use "1.prems" True in auto)
    note c = candidate_ok_fast_list [OF "1.prems"(5) this]
    have "unat bin + 8 < 2 ^ 64" using True "1.prems"(4) by (simp add: word_less_nat_alt)
    then have "unat (bin + 8) = unat bin + 8" using unat_add_of_nat [of bin 8] by simp
    then have "arena + fastBinStartOffset ix \<le> bin + 8" using "1.prems"(3) by (simp add: word_le_nat_alt)
    then show ?thesis using "1.hyps" "1.IH" c "1.prems" True node by auto
  qed (use "1.hyps" "1.prems" in simp)
qed

lemma candidate_ok_free_list:
  assumes "free_list m clear cp limit hdr node past = Some r"
  shows "clear = clear_mask ix arena \<Longrightarrow> listed m ix arena node \<Longrightarrow> candidate_ok m ix arena cp limit past \<Longrightarrow>
    candidate_ok m ix arena cp limit r"
proof (induction rule: free_list.raw_induct [OF _ assms])
  case (1 rec m clear cp limit hdr node past r)
  have c: "candidate_ok m ix arena cp limit (consider_node m clear cp limit node past)"
    using candidate_ok_consider [OF "1.prems"(3,2)] "1.prems"(1) by simp
  have n: "listed m ix arena (word_or m (node + 2 * 8) 0)" using listed.forward [OF "1.prems"(2)] by simp
  show ?case using "1.hyps" "1.IH" [OF _ "1.prems"(1) n c] c by (auto simp: Let_def split: if_splits)
qed

lemma candidate_ok_free_lists:
  assumes "free_lists m clear cp limit hdr past = Some r"
  shows "clear = clear_mask ix arena \<Longrightarrow> hdr = arena + doublyLinkedFreeListOffset ix - 16 + 16 * of_nat k \<Longrightarrow>
    candidate_ok m ix arena cp limit past \<Longrightarrow> candidate_ok m ix arena cp limit r"
proof (induction arbitrary: k rule: free_lists.raw_induct [OF _ assms])
  case (1 rec m clear cp limit hdr past r)
  have "hdr + 2 * 8 = arena + doublyLinkedFreeListOffset ix + 16 * of_nat k" using "1.prems"(2) by simp
  then have n: "listed m ix arena (word_or m (hdr + 2 * 8) 0)" using listed.list_header [of m ix arena k] by simp
  have h: "hdr + 2 * 8 = arena + doublyLinkedFreeListOffset ix - 16 + 16 * of_nat (Suc k)" using "1.prems"(2) by simp
  show ?case
    using "1.hyps" "1.prems" "1.IH" [OF _ "1.prems"(1) h "1.prems"(3)]
      "1.IH" [OF _ "1.prems"(1) h candidate_ok_free_list [OF _ "1.prems"(1) n "1.prems"(3)]]
    by (auto simp: Let_def split: if_splits option.splits)
qed

text \<open>What the search gives.\<close>

definition skipped :: "VirtualAddressMap \<Rightarrow> Infrastructure \<Rightarrow> addr \<Rightarrow> addr \<Rightarrow> addr \<Rightarrow> addr \<Rightarrow> bool" where
  "skipped m ix arena cp limit r \<longleftrightarrow>
     cp < r \<and> (\<exists>start. search_start m ix arena cp limit start \<and> reaches m start r) \<and>
     (\<forall>c. 32 \<le> cp \<and> cp < c \<and> c < r \<and> 32 \<le> chunk_length m c \<longrightarrow> \<not> leads_directly m c r)"

lemma SkipArenaCorruption_outcome:
  assumes "SkipArenaCorruption m ix arena cp limit = Some r" "unat (arena + fastBinLimitOffset ix) + 8 \<le> 2 ^ 64"
  shows "(r = 0 \<or> skipped m ix arena cp limit r) \<and>
    (\<forall>ar. sm_find (arenas ix) arena = Some ar \<and> \<not> missingOrUnfilledHeader ar \<and> cp < arenaTop ar \<and> arenaTop ar \<le> limit \<longrightarrow> r \<noteq> 0)"
proof (cases "sm_find (arenas ix) arena")
  case None
  then show ?thesis using assms(1) by (simp add: SkipArenaCorruption_def)
next
  case ar: (Some ar)
  show ?thesis
  proof (cases "missingOrUnfilledHeader ar \<or> cp = arenaTop ar")
    case True
    then have "r = 0"
      using assms(1) unfolding SkipArenaCorruption_def ar option.case Let_def by (simp split: if_splits)
    then show ?thesis using True ar by auto
  next
    case False
    let ?lim = "skip_limit ar cp limit"
    have cl: "(if arena = mainArenaAddress ix then 2 OR 4 else 2) OR 8 = clear_mask ix arena" by simp
    have r: "(case fast_bins m (clear_mask ix arena) cp ?lim (arena + fastBinLimitOffset ix) (arena + fastBinStartOffset ix) 0 of
        None \<Rightarrow> None
      | Some past \<Rightarrow>
          (case free_lists m (clear_mask ix arena) cp ?lim (arena + doublyLinkedFreeListOffset ix - 2 * 8) past of
             None \<Rightarrow> None
           | Some past' \<Rightarrow>
               if past' = 0 then
                 if ?lim = arenaTop ar \<and> arenaTop ar > cp then FindBackChain m (arenaTop ar) cp else Some 0
               else FindBackChain m past' cp)) = Some r"
    proof -
      have n: "\<not> missingOrUnfilledHeader ar" "cp \<noteq> arenaTop ar" "limit - 6 * 8 = limit - (48 :: addr)" using False by simp_all
      show ?thesis
        using assms(1) unfolding SkipArenaCorruption_def ar option.case Let_def cl if_not_P [OF n(1)] if_not_P [OF n(2)] n(3) skip_limit_def .
    qed
    then obtain past past' where p:
      "fast_bins m (clear_mask ix arena) cp ?lim (arena + fastBinLimitOffset ix) (arena + fastBinStartOffset ix) 0 = Some past"
      "free_lists m (clear_mask ix arena) cp ?lim (arena + doublyLinkedFreeListOffset ix - 2 * 8) past = Some past'"
      "(if past' = 0 then if ?lim = arenaTop ar \<and> arenaTop ar > cp then FindBackChain m (arenaTop ar) cp else Some 0
        else FindBackChain m past' cp) = Some r"
      by (auto split: option.splits)
    have "candidate_ok m ix arena cp ?lim 0" by (simp add: candidate_ok_def)
    then have "candidate_ok m ix arena cp ?lim past" by (rule candidate_ok_fast_bins [OF p(1) refl refl _ assms(2), rotated]) simp
    then have c: "candidate_ok m ix arena cp ?lim past'" by (rule candidate_ok_free_lists [OF p(2) refl, where k = 0, rotated]) simp
    have found: "skipped m ix arena cp limit r" if "FindBackChain m start cp = Some r" "search_start m ix arena cp limit start" "cp < start" for start
      using FindBackChain_outcome [OF that(1,3)] FindBackChain_lowest [OF that(1,3)] that(2) by (auto simp: skipped_def)
    have pos: "r \<noteq> 0" if "skipped m ix arena cp limit r" using that by (auto simp: skipped_def)
    show ?thesis
    proof (cases "past' = 0")
      case True
      show ?thesis
      proof (cases "?lim = arenaTop ar \<and> arenaTop ar > cp")
        case top: True
        then have "skipped m ix arena cp limit r" using found [of "arenaTop ar"] p(3) True ar by (auto simp: search_start_def)
        then show ?thesis using pos by blast
      next
        case no: False
        then show ?thesis using p(3) True ar by (auto simp: skip_limit_def)
      qed
    next
      case past': False
      then have l: "listed m ix arena past'" "looks_free m ix arena cp ?lim past'" using c by (simp_all add: candidate_ok_def)
      then have "skipped m ix arena cp limit r" using found [of past'] p(3) past' ar by (auto simp: search_start_def looks_free_def)
      then show ?thesis using pos by blast
    qed
  qed
qed

section \<open>It returns\<close>

lemma FindBackChain_returns: "16 \<le> cp \<Longrightarrow> \<exists>r. FindBackChain m start cp = Some r"
  by (simp add: FindBackChain_def back_loop_returns)

lemma fast_bins_returns:
  assumes "unat binLimit + 8 \<le> 2 ^ 64" "\<forall>a. bin0 \<le> a \<and> a < binLimit \<longrightarrow> word_at m a \<noteq> None"
  shows "bin0 \<le> bin \<Longrightarrow> \<exists>r. fast_bins m clear cp limit binLimit bin past = Some r"
proof (induction "unat binLimit - unat bin" arbitrary: bin past rule: less_induct)
  case less
  show ?case
  proof (cases "bin < binLimit")
    case True
    then obtain w where w: "word_at m bin = Some w" using assms(2) less.prems by blast
    have "unat bin + 8 < 2 ^ 64" using True assms(1) by (simp add: word_less_nat_alt)
    then have u: "unat (bin + 8) = unat bin + 8" using unat_add_of_nat [of bin 8] by simp
    then have "unat binLimit - unat (bin + 8) < unat binLimit - unat bin" "bin0 \<le> bin + 8"
      using True less.prems by (simp_all add: word_less_nat_alt word_le_nat_alt)
    from less.hyps [OF this] show ?thesis using True w by (subst fast_bins.simps) simp
  qed (simp add: fast_bins.simps)
qed

text \<open>A doubly linked list is left after one or two nodes.\<close>

lemma free_list_returns:
  assumes "node \<noteq> hdr" "word_or m (node + 3 * 8) 0 = hdr"
  shows "\<exists>r. free_list m clear cp limit hdr node past = Some r"
proof (cases "word_or m (node + 2 * 8) 0 \<noteq> 0 \<or> word_or m (0 + 3 * 8) 0 \<noteq> node \<or> hdr = 0")
  case True
  then show ?thesis by (subst free_list.simps) (auto simp: Let_def)
next
  case False
  have "node \<noteq> 0"
  proof
    assume "node = 0"
    then show False using assms False by simp
  qed
  then have "free_list m clear cp limit hdr 0 past' = Some (consider_node m clear cp limit 0 past')" for past'
    using False by (subst free_list.simps) (auto simp: Let_def)
  then show ?thesis using False by (subst free_list.simps) (auto simp: Let_def)
qed

lemma free_lists_stops:
  assumes "word_at m (hdr + 16) = None" "hdr \<noteq> 0" "word_or m 24 0 \<noteq> hdr"
  shows "free_lists m clear cp limit hdr past = Some past"
  using assms by (subst free_lists.simps) (simp add: word_or_def Let_def)

lemma free_lists_returns:
  assumes "word_at m (hdr + 16 * of_nat k + 16) = None" "word_at m (hdr + 16 * of_nat (Suc k) + 16) = None"
    and "\<forall>j\<le>Suc k. hdr + 16 * of_nat j \<noteq> 0"
  shows "\<exists>r. free_lists m clear cp limit hdr past = Some r"
  using assms
proof (induction k arbitrary: hdr past)
  case 0
  have z: "hdr \<noteq> 0" "hdr + 16 \<noteq> 0" using "0.prems"(3) [rule_format, of 0] "0.prems"(3) [rule_format, of 1] by simp_all
  have u: "word_at m (hdr + 16) = None" "word_at m ((hdr + 16) + 16) = None"
    using "0.prems"(1,2) by (simp_all add: algebra_simps)
  show ?case
  proof (cases "word_or m 24 0 = hdr")
    case False
    then show ?thesis using free_lists_stops [OF u(1) z(1)] by blast
  next
    case True
    then obtain past' where "free_list m clear cp limit hdr 0 past = Some past'"
      using free_list_returns [of 0 hdr m clear cp limit past] z(1) by auto
    moreover have "free_lists m clear cp limit (hdr + 16) past' = Some past'"
      using free_lists_stops [OF u(2) z(2)] True by simp
    ultimately show ?thesis using True z(1) u(1) by (subst free_lists.simps) (simp add: word_or_def Let_def)
  qed
next
  case (Suc k)
  have "word_at m ((hdr + 16) + 16 * of_nat k + 16) = None" "word_at m ((hdr + 16) + 16 * of_nat (Suc k) + 16) = None"
    using Suc.prems(1,2) by (simp_all add: algebra_simps)
  moreover have "\<forall>j\<le>Suc k. (hdr + 16) + 16 * of_nat j \<noteq> 0"
  proof (intro allI impI)
    fix j assume "j \<le> Suc k"
    then have "hdr + 16 * of_nat (Suc j) \<noteq> 0" using Suc.prems(3) by blast
    then show "(hdr + 16) + 16 * of_nat j \<noteq> 0" by (simp add: algebra_simps)
  qed
  ultimately have IH: "\<exists>r. free_lists m clear cp limit (hdr + 16) p = Some r" for p by (rule Suc.IH)
  let ?node = "word_or m (hdr + 2 * 8) 0"
  show ?case
  proof (cases "?node \<noteq> hdr \<and> word_or m (?node + 3 * 8) 0 = hdr")
    case True
    then obtain past' where "free_list m clear cp limit hdr ?node past = Some past'"
      using free_list_returns [of ?node hdr m clear cp limit past] by blast
    then show ?thesis using True IH [of past'] by (subst free_lists.simps) (simp add: Let_def)
  next
    case False
    then show ?thesis using IH [of past] by (subst free_lists.simps) (auto simp: Let_def)
  qed
qed

section \<open>Properties\<close>

text \<open>The words of the arena header that the search reads, and two list headers past them that are not mapped.\<close>

definition arena_readable :: "VirtualAddressMap \<Rightarrow> Infrastructure \<Rightarrow> addr \<Rightarrow> bool" where
  "arena_readable m ix arena \<longleftrightarrow>
     unat (arena + fastBinLimitOffset ix) + 8 \<le> 2 ^ 64 \<and>
     (\<forall>a. arena + fastBinStartOffset ix \<le> a \<and> a < arena + fastBinLimitOffset ix \<longrightarrow> word_at m a \<noteq> None) \<and>
     (\<exists>k. let hdr = arena + doublyLinkedFreeListOffset ix - 16 in
        word_at m (hdr + 16 * of_nat k + 16) = None \<and> word_at m (hdr + 16 * of_nat (Suc k) + 16) = None \<and>
        (\<forall>j\<le>Suc k. hdr + 16 * of_nat j \<noteq> 0))"

lemma SkipArenaCorruption_returns:
  assumes "arena_readable m ix arena" "16 \<le> cp"
  shows "\<exists>r. SkipArenaCorruption m ix arena cp limit = Some r \<and> (r = 0 \<or> skipped m ix arena cp limit r) \<and>
    (\<forall>ar. sm_find (arenas ix) arena = Some ar \<and> \<not> missingOrUnfilledHeader ar \<and> cp < arenaTop ar \<and> arenaTop ar \<le> limit \<longrightarrow> r \<noteq> 0)"
proof -
  obtain k where k: "unat (arena + fastBinLimitOffset ix) + 8 \<le> 2 ^ 64"
    "\<forall>a. arena + fastBinStartOffset ix \<le> a \<and> a < arena + fastBinLimitOffset ix \<longrightarrow> word_at m a \<noteq> None"
    "word_at m (arena + doublyLinkedFreeListOffset ix - 16 + 16 * of_nat k + 16) = None"
    "word_at m (arena + doublyLinkedFreeListOffset ix - 16 + 16 * of_nat (Suc k) + 16) = None"
    "\<forall>j\<le>Suc k. arena + doublyLinkedFreeListOffset ix - 16 + 16 * of_nat j \<noteq> 0"
    using assms(1) unfolding arena_readable_def Let_def by blast
  have F: "\<exists>r. fast_bins m clear cp lim (arena + fastBinLimitOffset ix) (arena + fastBinStartOffset ix) 0 = Some r"
    for clear lim by (rule fast_bins_returns [OF k(1,2)]) simp
  have L: "\<exists>r. free_lists m clear cp lim (arena + doublyLinkedFreeListOffset ix - 2 * 8) past = Some r" for clear lim past
    using free_lists_returns [OF k(3-5)] by simp
  have "\<exists>r. SkipArenaCorruption m ix arena cp limit = Some r"
  proof (cases "sm_find (arenas ix) arena")
    case (Some ar)
    define lim where "lim = (if cp < arenaTop ar \<and> arenaTop ar \<le> limit then arenaTop ar else limit - 6 * 8)"
    define clear :: addr where "clear = (if arena = mainArenaAddress ix then 2 OR 4 else 2) OR 8"
    obtain past past' where p:
      "fast_bins m clear cp lim (arena + fastBinLimitOffset ix) (arena + fastBinStartOffset ix) 0 = Some past"
      "free_lists m clear cp lim (arena + doublyLinkedFreeListOffset ix - 2 * 8) past = Some past'"
      using F L by meson
    have "\<exists>r. (if past' = 0 then if lim = arenaTop ar \<and> arenaTop ar > cp then FindBackChain m (arenaTop ar) cp else Some 0
           else FindBackChain m past' cp) = Some r"
      using FindBackChain_returns [OF assms(2)] by simp
    then show ?thesis
      unfolding SkipArenaCorruption_def Some option.case Let_def lim_def [symmetric] clear_def [symmetric] p(1) p(2)
      by simp
  qed (simp add: SkipArenaCorruption_def)
  then obtain r where r: "SkipArenaCorruption m ix arena cp limit = Some r" ..
  from SkipArenaCorruption_outcome [OF r k(1)] r show ?thesis by blast
qed


text \<open>
  Memory with two chunks that lead to 0x1060, at 0x1010 and 0x1030, and inside the second one data that looks
  like a third, at 0x1040.
\<close>

definition skip_map :: VirtualAddressMap where
  "skip_map = AddRange (VirtualAddressMap_new
     [0, 0, 0, 0, 0, 0, 0, 0, 0, 0, 0, 0, 0, 0, 0, 0, 0, 0, 0, 0, 0, 0, 0, 0, 0x21, 0, 0, 0, 0, 0, 0, 0,
      0, 0, 0, 0, 0, 0, 0, 0, 0, 0, 0, 0, 0, 0, 0, 0, 0, 0, 0, 0, 0, 0, 0, 0, 0x31, 0, 0, 0, 0, 0, 0, 0,
      0, 0, 0, 0, 0, 0, 0, 0, 0x21, 0, 0, 0, 0, 0, 0, 0, 0, 0, 0, 0, 0, 0, 0, 0, 0, 0, 0, 0, 0, 0, 0, 0,
      0, 0, 0, 0, 0, 0, 0, 0, 0x21, 0, 0, 0, 0, 0, 0, 0, 0, 0, 0, 0, 0, 0, 0, 0, 0, 0, 0, 0, 0, 0, 0, 0])
     0x1000 128 (0 - 0x1000) True True True False False"

definition skip_arenas :: Infrastructure where
  "skip_arenas =
     \<lparr>heaps = [], arenas = [(0x1000, (Arena_new 0x1000)\<lparr>arenaTop := 0x1060\<rparr>)], mainArenaRuns = [(0x1010, 0x70)],
      mainArenaAddress = 0x1000, fastBinLinksAreMangled = False, fastBinStartOffset = 0, fastBinLimitOffset = 8,
      doublyLinkedFreeListOffset = 0x80, lastDoublyLinkedFreeListOffset = 0x80, arenaStructSize = 0x80,
      heapHeaderSize = 0x20, maxHeapSize = 0x4000000\<rparr>"

lemma skip_map_entries:
  "rm_map (ranges skip_map) = [(0x1080, 128, \<lparr>adjustToFileOffset = 0 - 0x1000, flags = 0x19\<rparr>)]"
  "fileImage skip_map =
     [0, 0, 0, 0, 0, 0, 0, 0, 0, 0, 0, 0, 0, 0, 0, 0, 0, 0, 0, 0, 0, 0, 0, 0, 0x21, 0, 0, 0, 0, 0, 0, 0,
      0, 0, 0, 0, 0, 0, 0, 0, 0, 0, 0, 0, 0, 0, 0, 0, 0, 0, 0, 0, 0, 0, 0, 0, 0x31, 0, 0, 0, 0, 0, 0, 0,
      0, 0, 0, 0, 0, 0, 0, 0, 0x21, 0, 0, 0, 0, 0, 0, 0, 0, 0, 0, 0, 0, 0, 0, 0, 0, 0, 0, 0, 0, 0, 0, 0,
      0, 0, 0, 0, 0, 0, 0, 0, 0x21, 0, 0, 0, 0, 0, 0, 0, 0, 0, 0, 0, 0, 0, 0, 0, 0, 0, 0, 0, 0, 0, 0, 0]"
  by (simp_all add: skip_map_def AddRange_def VirtualAddressMap_new_def AddRange_flags_def flag_defs
      MapRange_def RangeMapper_new_def sm_lower_bound_def rm_emplace_result_def sm_emplace_def
      rm_next_def sm_upper_bound_def sm_find_def)

lemmas skip_map_eval =
  word_at_def read_spec_def vam_find_def rm_find_def sm_upper_bound_def skip_map_entries has_image_def flag_defs

lemma skip_map_words:
  "word_at skip_map 0x1000 = Some 0" "word_at skip_map 0x1018 = Some 0x21" "word_at skip_map 0x1028 = Some 0"
  "word_at skip_map 0x1038 = Some 0x31" "word_at skip_map 0x1048 = Some 0x21" "word_at skip_map 0x1068 = Some 0x21"
  "word_at skip_map 0x1080 = None" "word_at skip_map 0x1088 = None" "word_at skip_map 0x1090 = None"
  by (simp_all add: skip_map_eval)

lemma skip_arena_readable: "arena_readable skip_map skip_arenas 0x1000"
proof -
  have "word_at skip_map a \<noteq> None" if "0x1000 \<le> a" "a < 0x1008" for a
  proof -
    have a: "4096 \<le> unat a" "unat a < 4104" using that by (simp_all add: word_le_nat_alt word_less_nat_alt)
    then have "unat (a + 8) = unat a + 8" using unat_add_of_nat [of a 8] by simp
    then have "\<not> a + 8 < a" "a + 8 \<le> 0x1080" "a < 0x1080" "\<not> a < 0x1000"
      using a by (simp_all add: word_le_nat_alt word_less_nat_alt)
    then show ?thesis by (simp add: skip_map_eval)
  qed
  then show ?thesis
    unfolding arena_readable_def Let_def
    by (intro conjI exI [of _ 0])
      (auto simp: skip_arenas_def skip_map_words le_Suc_eq)
qed


text \<open>
  \<open>FindBackChain\<close> loses chains behind data that looks like a chunk.  The test on the length of a candidate
  overwrites \<open>libcChunkStart\<close> where it means to subtract from it, so the walk forward from a candidate never
  meets the chunk the search began with: here two chunks lead back from 0x1060 to 0x1010, and the search
  stops at the false chunk at 0x1040.
\<close>

theorem FindBackChain_misses:
  "leads_to skip_map 0x1010 0x1060 \<and> FindBackChain skip_map 0x1060 0x1000 = Some 0x1040"
proof
  have l: "plausible skip_map 0x1010" "chunk_length skip_map 0x1010 = 0x20"
    "plausible skip_map 0x1030" "chunk_length skip_map 0x1030 = 0x30"
    by (simp_all add: plausible_def chunk_length_def word_or_def skip_map_words sizeCheckMask_def)
  have "leads_to skip_map (0x1030 + chunk_length skip_map 0x1030) 0x1060" by (simp add: l(4) leads_to.here)
  then have "leads_to skip_map 0x1030 0x1060" by (rule leads_to.step [OF l(3)])
  then have "leads_to skip_map (0x1010 + chunk_length skip_map 0x1010) 0x1060" by (simp add: l(2))
  then show "leads_to skip_map 0x1010 0x1060" by (rule leads_to.step [OF l(1)])
  have w: "word_or skip_map 0x1018 d = 0x21" "word_or skip_map 0x1028 d = 0" "word_or skip_map 0x1038 d = 0x31"
    "word_or skip_map 0x1048 d = 0x21" "word_or skip_map 0x1068 d = 0x21" "word_or skip_map 0x1088 d = d" for d
    by (simp_all add: word_or_def skip_map_words)
  have f0: "\<not> walk_forward skip_map s 0x1080 p" if "s \<noteq> 0x1080" for s p
    using that by (subst walk_forward.simps) (simp add: w sizeCheckMask_def)
  have f1: "\<not> walk_forward skip_map 0x1030 0x1060 0x30"
    by (subst walk_forward.simps) (simp add: w sizeCheckMask_def f0)
  have f2: "\<not> walk_forward skip_map 0x1010 0x1060 0x30"
    by (subst walk_forward.simps) (simp add: w sizeCheckMask_def f0)
  have f3: "\<not> walk_forward skip_map 0x1010 0x1030 0x20"
    by (subst walk_forward.simps) (simp add: w sizeCheckMask_def f2)
  have c: "back_candidate skip_map 0x1000 0x1040 0x1060 0x1060 = (0x1040, 0x1040)"
    "back_candidate skip_map 0x1000 0x1030 0x1040 0x1040 = (0x1030, 0x1040)"
    "back_candidate skip_map 0x1000 0x1020 0x1030 0x1040 = (0x1030, 0x1040)"
    "back_candidate skip_map 0x1000 0x1010 0x1030 0x1040 = (0x1010, 0x1040)"
    by (simp_all add: back_candidate_def Let_def w sizeCheckMask_def f1 f3)
  have "back_loop skip_map 0x1000 0x1000 0x1010 0x1040 = Some 0x1040" by (simp add: back_loop.simps)
  then have "back_loop skip_map 0x1000 0x1010 0x1030 0x1040 = Some 0x1040" by (subst back_loop.simps) (simp add: c)
  then have "back_loop skip_map 0x1000 0x1020 0x1030 0x1040 = Some 0x1040" by (subst back_loop.simps) (simp add: c)
  then have "back_loop skip_map 0x1000 0x1030 0x1040 0x1040 = Some 0x1040" by (subst back_loop.simps) (simp add: c)
  then have "back_loop skip_map 0x1000 0x1040 0x1060 0x1060 = Some 0x1040" by (subst back_loop.simps) (simp add: c)
  then show "FindBackChain skip_map 0x1060 0x1000 = Some 0x1040" by (simp add: FindBackChain_def)
qed

end
