(* ===== verification/Chunk_Walks.thy ===== *)
theory Chunk_Walks
  imports Arena_Finders Alloc_Resolve Corruption_Chains
begin

text \<open>
  The finders of libc allocations (LibcMalloc/MainArenaAllocationFinder.h, HeapAllocationFinder.h) report the
  chunks of sound runs, one by one and to the last, and meet the contract that the directory has for finders.
\<close>

lemma unat_less_exp: "unat (x :: addr) < 2 ^ 64"
  using unsigned_less [of x] by simp

section \<open>Runs of chunks\<close>

text \<open>
  A run that ends at \<open>l\<close> is a sequence of chunks from \<open>a\<close> on: their sizes and whether they are in use, which
  the header of the next chunk says and the last chunk never is.
\<close>

fun chunks_at :: "VirtualAddressMap \<Rightarrow> addr \<Rightarrow> addr \<Rightarrow> (addr \<times> bool) list \<Rightarrow> bool" where
  "chunks_at m l a [] \<longleftrightarrow> a = l"
| "chunks_at m l a ((s, u) # cs) \<longleftrightarrow>
     16 < s \<and> s \<le> SIZE_MASK \<and> a < l \<and> s \<le> l - a \<and>
     (\<exists>w. word_at m (a + 8) = Some w \<and> w AND (8 OR 6) = 0 \<and> w AND NOT 7 = s) \<and>
     (if a + s = l then \<not> u else \<exists>w. word_at m (a + s + 8) = Some w \<and> (u \<longleftrightarrow> w AND 1 \<noteq> 0)) \<and>
     chunks_at m l (a + s) cs"

text \<open>The allocations of a run: the last word of a chunk is the first of the next, unless there is none.\<close>

fun chunk_reports :: "addr \<Rightarrow> addr \<Rightarrow> (addr \<times> bool) list \<Rightarrow> pending list" where
  "chunk_reports l a [] = []"
| "chunk_reports l a ((s, u) # cs) = (a + 16, if a + s = l then s - 16 else s - 8, u) # chunk_reports l (a + s) cs"

lemma chunks_at_step:
  assumes "chunks_at m l a ((s, u) # cs)"
  shows "a < a + s" "a + s \<le> l" "unat (a + s) = unat a + unat s"
proof -
  have "16 < s" "s \<le> l - a" "a < l" using assms unfolding chunks_at.simps by blast+
  then have "s \<le> l - a" "a \<le> l" "0 < s" by (auto intro: order.strict_trans [of _ 16])
  then have *: "unat a + unat s \<le> unat l" using unat_sub_le [of a l] by (simp add: word_le_nat_alt)
  also have "\<dots> < 2 ^ 64" using unat_less_exp [of l] by simp
  finally show u: "unat (a + s) = unat a + unat s" using unat_add_of_nat [of a "unat s"] by simp
  show "a + s \<le> l" using * u by (simp add: word_le_nat_alt)
  show "a < a + s" using u \<open>0 < s\<close> by (simp add: word_less_nat_alt)
qed

section \<open>The main arena\<close>

text \<open>The state of a walk that has come to \<open>a\<close>.\<close>

definition walk_at :: "VirtualAddressMap \<Rightarrow> addr \<Rightarrow> addr \<Rightarrow> 'a ChunkWalk_scheme \<Rightarrow> bool" where
  "walk_at m l a f \<longleftrightarrow> wk_limit f = l \<and> wk_check f = a \<and>
     (a \<noteq> l \<longrightarrow> word_at m (a + 8) = Some (wk_sizeAndFlags f))"

definition next_pending :: "'a ChunkWalk_scheme \<Rightarrow> pending" where
  "next_pending f = (allocationAddress f, allocationSize f, allocationIsUsed f)"

lemma advance_run_chunk:
  assumes "walk_at m l a f" "chunks_at m l a ((s, u) # cs)"
  shows "\<exists>f'. AdvanceToNextAllocationOfRun m ix f = Some (True, f') \<and> walk_at m l (a + s) f' \<and>
           next_pending f' = (a + 16, if a + s = l then s - 16 else s - 8, u) \<and> runsLeft f' = runsLeft f"
proof -
  obtain w where w: "word_at m (a + 8) = Some w" "w AND (8 OR 6) = 0" "w AND NOT 7 = s"
    and s: "16 < s" "a < l" "s \<le> l - a" using assms(2) by auto
  have f: "wk_limit f = l" "wk_check f = a" "wk_sizeAndFlags f = w" using assms(1) w(1) s(2) by (auto simp: walk_at_def)
  define g where "g = f\<lparr>wk_chunkSize := s\<rparr>"
  have "s \<noteq> 0" using s(1) by auto
  then have c: "\<not> (wk_chunkSize g = 0 \<or> wk_chunkSize g > wk_limit g - wk_check g)"
    using s(3) f by (simp add: g_def not_less)
  have "AdvanceToNextAllocationOfRun m ix f = (case main_chunk m g of None \<Rightarrow> None | Some f' \<Rightarrow> Some (True, f'))"
    using s(2) f w(2) c w(3) [simplified]
    by (subst AdvanceToNextAllocationOfRun.simps) (simp add: Let_def g_def)
  moreover have "\<exists>f'. main_chunk m g = Some f' \<and> walk_at m l (a + s) f' \<and>
      next_pending f' = (a + 16, if a + s = l then s - 16 else s - 8, u) \<and> runsLeft f' = runsLeft f"
  proof (cases "a + s = l")
    case True
    then have "\<not> u" using assms(2) by simp
    then show ?thesis using f True by (simp add: main_chunk_def g_def walk_at_def next_pending_def)
  next
    case False
    then obtain w' where "word_at m (a + s + 8) = Some w'" "u \<longleftrightarrow> w' AND 1 \<noteq> 0" using assms(2) by auto
    then show ?thesis using f False
      by (simp add: main_chunk_def g_def walk_at_def next_pending_def algebra_simps)
  qed
  ultimately show ?thesis by auto
qed

lemma advance_run_end: "walk_at m l l f \<Longrightarrow> AdvanceToNextAllocationOfRun m ix f = Some (False, f)"
  by (subst AdvanceToNextAllocationOfRun.simps) (simp add: walk_at_def)

text \<open>A sound run, by its base, its size and its chunks.\<close>

definition run_ok :: "VirtualAddressMap \<Rightarrow> addr \<times> addr \<Rightarrow> (addr \<times> bool) list \<Rightarrow> bool" where
  "run_ok m run cs \<longleftrightarrow> (case run of (base, sz) \<Rightarrow> base < base + sz \<and> chunks_at m (base + sz) base cs)"

definition run_reports :: "addr \<times> addr \<Rightarrow> (addr \<times> bool) list \<Rightarrow> pending list" where
  "run_reports run cs = (case run of (base, sz) \<Rightarrow> chunk_reports (base + sz) base cs)"

lemma run_reports_pair [simp]: "run_reports (base, sz) cs = chunk_reports (base + sz) base cs"
  by (simp add: run_reports_def)

lemma start_run:
  assumes "run_ok m (base, sz) cs" "runsLeft f = (base, sz) # rest"
  shows "\<exists>f'. StartMainArenaRun m f = Some f' \<and> walk_at m (base + sz) base f' \<and> runsLeft f' = runsLeft f \<and> cs \<noteq> []"
  using assms by (cases cs) (auto simp: StartMainArenaRun_def run_ok_def walk_at_def)

text \<open>The finder driven to its end, as the directory drives it: the allocations it reports, and what is left behind.\<close>

partial_function (option) main_drive ::
  "VirtualAddressMap \<Rightarrow> Infrastructure \<Rightarrow> ThreadMap \<Rightarrow> nat \<Rightarrow> MainFinder \<Rightarrow> free_state
   \<Rightarrow> (pending list \<times> free_state) option" where
  "main_drive m ix tm fi f st =
     (if main_Finished f then Some ([], st)
      else Option.bind (main_Advance m ix tm fi f st) (\<lambda>(f', st').
             Option.bind (main_drive m ix tm fi f' st') (\<lambda>(ps, st''). Some (next_pending f # ps, st''))))"

text \<open>What is left to report by a finder that stands before the chunks \<open>cs\<close> of its first run.\<close>

lemma main_drive_outcome:
  assumes "walk_at m l a f" "chunks_at m l a cs" "runsLeft f = run # rest" "list_all2 (run_ok m) rest css"
    and "sm_find (arenas ix) (mainArenaAddress ix) = Some ar" "finish_arena m ix tm True fi ar st = Some st'"
  shows "main_drive m ix tm fi f st =
    Some (next_pending f # chunk_reports l a cs @ concat (map2 run_reports rest css), st')"
  using assms
proof (induction "length (chunk_reports l a cs @ concat (map2 run_reports rest css))" arbitrary: l a cs f run rest css)
  case 0
  then have "cs = []" by (cases cs) auto
  have "rest = []"
  proof (cases rest)
    case (Cons r rs)
    then obtain base sz cs' css' where "r = (base, sz)" "css = cs' # css'" "run_ok m (base, sz) cs'"
      using "0.prems"(4) by (cases r) (auto simp: list_all2_Cons1)
    then show ?thesis using 0 Cons by (cases cs') (auto simp: run_ok_def)
  qed simp
  have "walk_at m l l f" using 0 \<open>cs = []\<close> by simp
  then have "main_next m ix (runsLeft f) f = Some (f\<lparr>runsLeft := []\<rparr>)"
    using 0 \<open>rest = []\<close> by (simp add: advance_run_end)
  then have adv: "main_Advance m ix tm fi f st = Some (f\<lparr>runsLeft := []\<rparr>, st')"
    using 0 by (simp add: main_Advance_def main_Finished_def)
  have "main_drive m ix tm fi (f\<lparr>runsLeft := []\<rparr>) st' = Some ([], st')"
    by (subst main_drive.simps) (simp add: main_Finished_def)
  then show ?case using adv \<open>cs = []\<close> \<open>rest = []\<close> 0
    by (subst main_drive.simps) (simp add: main_Finished_def)
next
  case (Suc n)
  show ?case
  proof (cases cs)
    case (Cons c cs')
    obtain s u where c: "c = (s, u)" by (cases c)
    obtain f' where f': "AdvanceToNextAllocationOfRun m ix f = Some (True, f')" "walk_at m l (a + s) f'"
      "next_pending f' = (a + 16, if a + s = l then s - 16 else s - 8, u)" "runsLeft f' = runsLeft f"
      using advance_run_chunk [OF Suc.prems(1)] Suc.prems(2) Cons c by blast
    have adv: "main_Advance m ix tm fi f st = Some (f', st)"
      using f'(1,4) Suc.prems(3) by (simp add: main_Advance_def main_Finished_def)
    have "chunks_at m l (a + s) cs'" using Suc.prems(2) Cons c by simp
    then have "main_drive m ix tm fi f' st =
        Some (next_pending f' # chunk_reports l (a + s) cs' @ concat (map2 run_reports rest css), st')"
      using Suc.hyps(1) [OF _ f'(2) _ _ Suc.prems(4-6)] Suc.hyps(2) Suc.prems(3) f'(4) Cons c by simp
    then show ?thesis using adv f'(3) Suc.prems(3) Cons c
      by (subst main_drive.simps) (simp add: main_Finished_def)
  next
    case Nil
    then have "rest \<noteq> []" using Suc.hyps(2) by auto
    then obtain base sz rs cs' css' where r: "rest = (base, sz) # rs" "css = cs' # css'"
      "run_ok m (base, sz) cs'" "list_all2 (run_ok m) rs css'"
      using Suc.prems(4) by (cases rest) (auto simp: list_all2_Cons1)
    have f: "walk_at m l l f" using Suc.prems(1,2) Nil by simp
    obtain f1 where f1: "StartMainArenaRun m (f\<lparr>runsLeft := rest\<rparr>) = Some f1" "walk_at m (base + sz) base f1"
      "runsLeft f1 = rest" "cs' \<noteq> []"
      using start_run [OF r(3), of "f\<lparr>runsLeft := rest\<rparr>" rs] r(1) by auto
    obtain s u cs'' where c: "cs' = (s, u) # cs''" using f1(4) by (cases cs') auto
    have cs'': "chunks_at m (base + sz) base ((s, u) # cs'')" using r(3) c by (simp add: run_ok_def)
    obtain f2 where f2: "AdvanceToNextAllocationOfRun m ix f1 = Some (True, f2)" "walk_at m (base + sz) (base + s) f2"
      "next_pending f2 = (base + 16, if base + s = base + sz then s - 16 else s - 8, u)" "runsLeft f2 = runsLeft f1"
      using advance_run_chunk [OF f1(2) cs''] by blast
    have "main_next m ix (runsLeft f) f = Some f2"
      using advance_run_end [OF f] f1(1) f2(1) Suc.prems(3) r(1) by simp
    then have adv: "main_Advance m ix tm fi f st = Some (f2, st)"
      using f1(3) f2(4) Suc.prems(3) r(1) by (simp add: main_Advance_def main_Finished_def)
    have tail: "chunks_at m (base + sz) (base + s) cs''" using cs'' by simp
    have "main_drive m ix tm fi f2 st =
        Some (next_pending f2 # chunk_reports (base + sz) (base + s) cs'' @ concat (map2 run_reports rs css'), st')"
      using Suc.hyps(1) [OF _ f2(2) tail _ r(4) Suc.prems(5,6)] Suc.hyps(2) Nil r c f1(3) f2(4)
      by simp
    then show ?thesis using adv f2(3) Suc.prems(3) Nil r c
      by (subst main_drive.simps) (simp add: main_Finished_def)
  qed
qed

section \<open>The contract of a finder\<close>

lemma chunk_reports_ok:
  assumes "chunks_at m l a cs" "a \<le> l"
  shows "finder_ok (chunk_reports l a cs) \<and> (\<forall>p\<in>set (chunk_reports l a cs). a < fst p \<and> fst p \<le> l)"
  using assms
proof (induction m l a cs rule: chunks_at.induct)
  case (2 m l a s u cs)
  note S = chunks_at_step [OF "2.prems"(1)]
  have s: "16 < s" "s \<le> SIZE_MASK" using "2.prems"(1) by auto
  have ua: "unat a + unat s \<le> unat l" using S(2,3) by (simp add: word_le_nat_alt)
  have "unat (a + 16) = unat a + 16"
    using unat_add_of_nat [of a 16] ua s(1) unat_less_exp [of l] by (simp add: word_less_nat_alt)
  then have a16: "a < a + 16" "a + 16 \<le> l" "a + 16 < a + s"
    using ua s(1) S(3) by (simp_all add: word_less_nat_alt word_le_nat_alt)
  have rest: "finder_ok (chunk_reports l (a + s) cs)" "\<forall>p\<in>set (chunk_reports l (a + s) cs). a + s < fst p \<and> fst p \<le> l"
    using "2.IH" "2.prems"(1) S(2) by simp_all
  have "pending_ok (a + 16, if a + s = l then s - 16 else s - 8, u)"
  proof -
    define z where "z = (if a + s = l then s - 16 else s - 8)"
    have u8: "unat (s - 16) = unat s - 16" "unat (s - 8) = unat s - 8"
      using s(1) unat_sub_le [of 16 s] unat_sub_le [of 8 s] by (simp_all add: word_le_nat_alt word_less_nat_alt)
    have z: "0 < z" "z \<le> SIZE_MASK"
      using s u8 by (auto simp: z_def word_less_nat_alt word_le_nat_alt)
    have "unat (a + 16) + unat z < 2 ^ 64"
    proof (cases "a + s = l")
      case True
      then show ?thesis using a16 u8 s(1) S(3) unat_less_exp [of l] \<open>unat (a + 16) = unat a + 16\<close>
        by (simp add: z_def word_less_nat_alt)
    next
      case False
      then have "cs \<noteq> []" using "2.prems"(1) by auto
      then obtain s' u' cs' where "cs = (s', u') # cs'" by (cases cs) auto
      then have "chunks_at m l (a + s) ((s', u') # cs')" using "2.prems"(1) by simp
      from chunks_at_step(2,3) [OF this] this
      have "unat (a + s) + 16 < 2 ^ 64" using unat_less_exp [of l] by (simp add: word_le_nat_alt word_less_nat_alt)
      then show ?thesis using False u8 s(1) S(3) \<open>unat (a + 16) = unat a + 16\<close> by (simp add: z_def word_less_nat_alt)
    qed
    then have "a + 16 \<le> a + 16 + z" using unat_add_of_nat [of "a + 16" "unat z"] by (simp add: word_le_nat_alt)
    then show ?thesis using z by (simp add: pending_ok_def z_def [symmetric])
  qed
  moreover have "\<forall>p\<in>set (chunk_reports l (a + s) cs). a + 16 < fst p"
    using rest(2) a16(3) order.strict_trans by blast
  ultimately show ?case using rest a16 S(1) by (auto simp: finder_ok_def)
qed (simp add: finder_ok_def)

lemma finder_ok_append:
  assumes "finder_ok ps" "finder_ok qs" "\<forall>p\<in>set ps. \<forall>q\<in>set qs. fst p < fst q"
  shows "finder_ok (ps @ qs)"
  using assms by (auto simp: finder_ok_def sorted_wrt_append)

text \<open>The runs lie one after the other.\<close>

definition runs_apart :: "(addr \<times> addr) list \<Rightarrow> bool" where
  "runs_apart rs \<longleftrightarrow> sorted_wrt (\<lambda>r r'. fst r + snd r \<le> fst r') rs"

lemma runs_reports_ok:
  assumes "list_all2 (run_ok m) rs css" "runs_apart rs"
  shows "finder_ok (concat (map2 run_reports rs css)) \<and>
    (\<forall>p\<in>set (concat (map2 run_reports rs css)). \<exists>r\<in>set rs. fst r < fst p)"
  using assms
proof (induction rs css rule: list_all2_induct)
  case (Cons r rs cs css)
  obtain base sz where r: "r = (base, sz)" by (cases r)
  have c: "chunks_at m (base + sz) base cs" "base \<le> base + sz" using Cons.hyps(1) r by (auto simp: run_ok_def)
  note C = chunk_reports_ok [OF c]
  have "runs_apart rs" using Cons.prems by (simp add: runs_apart_def)
  then have IH: "finder_ok (concat (map2 run_reports rs css))"
    "\<forall>p\<in>set (concat (map2 run_reports rs css)). \<exists>r\<in>set rs. fst r < fst p" using Cons.IH by blast+
  have "\<forall>r'\<in>set rs. base + sz \<le> fst r'" using Cons.prems r by (simp add: runs_apart_def)
  then have "\<forall>p\<in>set (chunk_reports (base + sz) base cs). \<forall>q\<in>set (concat (map2 run_reports rs css)). fst p < fst q"
    using C IH(2) by (meson le_less_trans)
  then have "finder_ok (chunk_reports (base + sz) base cs @ concat (map2 run_reports rs css))"
    using C IH(1) finder_ok_append by blast
  moreover have "\<forall>p\<in>set (chunk_reports (base + sz) base cs @ concat (map2 run_reports rs css)).
      \<exists>r'\<in>set (r # rs). fst r' < fst p"
    using C IH(2) r unfolding set_append by (auto simp del: set_concat)
  ultimately show ?case by (simp add: r)
qed (simp add: finder_ok_def)


lemma example_finish:
  "finish_arena skip_map skip_arenas (ThreadMap_new [] 0) True 0 ((Arena_new 0x1000)\<lparr>arenaTop := 0x1060\<rparr>) (Directory_new, []) =
     Some (Directory_new, [(0x1080, 0x1080, ''not in the core'')])"
proof -
  have u32: "u32_or skip_map 0x1000 0 = 0" by (simp add: u32_or_def skip_map_eval)
  have bins: "fast_bin_loop skip_map skip_arenas 0x1000 0x1008 0x1000 (Directory_new, []) = Some ((Directory_new, []), False)"
    by (subst fast_bin_loop.simps)
      (simp add: skip_map_words Directory_new_def NumAllocations_def, subst fast_bin_loop.simps, simp)
  have lists: "check_lists skip_map skip_arenas Directory_new 0x1000 0x1070 0x1070 [] =
      Some [(0x1080, 0x1080, ''not in the core'')]"
    by (subst check_lists.simps) (simp add: check_list_def skip_map_words Let_def, subst check_lists.simps, simp)
  show ?thesis
    using u32 bins lists
    by (simp add: finish_arena_def MarkFastBinItemsAsFree_def CheckDoublyLinkedListCorruption_def skip_arenas_def
        Arena_new_def Let_def)
qed


section \<open>The heaps of the other arenas\<close>

text \<open>A walk has passed the chunk before the one it looks at, or has just begun.\<close>

definition heap_walk :: "HeapFinder \<Rightarrow> bool" where
  "heap_walk f \<longleftrightarrow> wk_prevCheck f \<le> wk_check f \<and> 16 \<le> wk_prevCheck f"

lemma heap_chunk_outcome:
  assumes "vam_find m (wk_top f) \<noteq> None" "wk_chunkSize f \<noteq> 0" "wk_chunkSize f \<le> wk_limit f - wk_check f"
    "wk_check f < wk_limit f"
  shows "\<exists>go f'. heap_chunk m ix key f = Some (go, f') \<and>
    (go \<longrightarrow> wk_prevCheck f' = wk_check f \<and> wk_check f < wk_check f' \<and> wk_check f' \<le> wk_limit f \<and>
       allocationAddress f' = wk_check f + 16 \<and> wk_limit f' = wk_limit f \<and> wk_top f' = wk_top f)"
proof -
  have c: "wk_check f < wk_check f + wk_chunkSize f" "wk_check f + wk_chunkSize f \<le> wk_limit f"
  proof -
    have le: "unat (wk_check f) + unat (wk_chunkSize f) \<le> unat (wk_limit f)"
      using assms(3,4) unat_sub_le [of "wk_check f" "wk_limit f"] by (simp add: word_le_nat_alt word_less_nat_alt)
    then have "unat (wk_check f + wk_chunkSize f) = unat (wk_check f) + unat (wk_chunkSize f)"
      using unat_add_of_nat [of "wk_check f" "unat (wk_chunkSize f)"] unat_less_exp [of "wk_limit f"] by simp
    then show "wk_check f < wk_check f + wk_chunkSize f" "wk_check f + wk_chunkSize f \<le> wk_limit f"
      using le assms(2) by (simp_all add: word_le_nat_alt word_less_nat_alt unat_gt_0)
  qed
  obtain it where it: "vam_find m (wk_top f) = Some it" using assms(1) by blast
  define atEnd where "atEnd = (wk_check f + wk_chunkSize f = wk_limit f)"
  define w where "w = word_or m (wk_check f + 8 + wk_chunkSize f) 0xBADBAD"
  define f1 where "f1 = f\<lparr>allocationSize := wk_chunkSize f - 8\<rparr>"
  define f2 where "f2 = (if atEnd then f1\<lparr>allocationSize := allocationSize f1 - 8\<rparr> else f1\<lparr>wk_sizeAndFlags := w\<rparr>)"
  define f3 where "f3 = f2\<lparr>allocationAddress := wk_check f2 + 2 * 8\<rparr>"
  define isFree where "isFree \<longleftrightarrow> (if atEnd then True else w AND 1 = 0 \<or> allocationSize f2 < 3 * 8)"
  define e where "e = (if it_Limit it > key + maxHeapSize ix then key + maxHeapSize ix else it_Limit it)"
  define f4 where "f4 = (if isFree then
      (if wk_check f3 = wk_top f3 then f3\<lparr>allocationSize := e - allocationAddress f3, allocationIsUsed := False\<rparr>
       else f3\<lparr>allocationIsUsed := False\<rparr>) else f3\<lparr>allocationIsUsed := True\<rparr>)"
  note d = atEnd_def [symmetric] w_def [symmetric] f1_def [symmetric] f2_def [symmetric] f3_def [symmetric]
    isFree_def [symmetric]
  have F: "wk_check f2 = wk_check f" "wk_limit f2 = wk_limit f" "wk_top f2 = wk_top f"
    by (simp_all add: f2_def f1_def)
  then have F4: "wk_check f4 = wk_check f" "wk_limit f4 = wk_limit f" "wk_top f4 = wk_top f" "wk_top f3 = wk_top f"
    "allocationAddress f4 = wk_check f + 16"
    by (simp_all add: f4_def f3_def)
  have "heap_chunk m ix key f =
    (if \<not> atEnd \<and> w = 0xBADBAD then Some (False, f2)
     else if wk_check f2 + allocationSize f2 + 3 * 8 = wk_limit f2 \<and> wk_sizeAndFlags f2 AND NOT 7 = 0 then Some (False, f2)
     else Some (True, f4\<lparr>wk_prevCheck := wk_check f4, wk_check := wk_check f4 + wk_chunkSize f\<rparr>))"
    unfolding heap_chunk_def Let_def d F4(4) it option.case e_def [symmetric]
    by (simp only: f4_def split: if_split option.split) (simp add: F4(4))
  then show ?thesis using c F4 by (simp only: split: if_split) auto
qed

lemma heap_corruption_outcome:
  assumes "arena_readable m ix (arenaAddress heap)" "16 \<le> wk_prevCheck f"
  shows "\<exists>go f'. heap_corruption m ix heap f = Some (go, f') \<and>
    (go \<longrightarrow> wk_prevCheck f < wk_prevCheck f' \<and> wk_check f' = wk_prevCheck f' \<and> wk_limit f' = wk_limit f \<and>
       wk_top f' = wk_top f \<and> wk_checkLimit f' = wk_checkLimit f)"
proof -
  obtain c where c: "HandleNonMainArenaCorruption m ix heap (wk_prevCheck f) = Some c" "c = 0 \<or> wk_prevCheck f < c"
    using SkipArenaCorruption_returns [OF assms] unfolding HandleNonMainArenaCorruption_def skipped_def by blast
  then show ?thesis by (auto simp: heap_corruption_def Let_def)
qed

text \<open>
  C14: The heap finder always comes to an answer and only moves forward, however corrupt the heap is.  Where
  the arena header can be read and its top lies in some range of memory, a step of the walk returns; if it
  reports an allocation, the allocation is that of a chunk that lies before the limit of the heap, at or
  above where the walk stood, and strictly above the chunk that was reported before it.
\<close>

theorem AdvanceToNextAllocationOfHeap_correct:
  assumes "arena_readable m ix (arenaAddress heap)" "vam_find m (wk_top f) \<noteq> None" "heap_walk f"
    "wk_checkLimit f \<le> wk_limit f"
  shows "\<exists>go f'. AdvanceToNextAllocationOfHeap m ix key heap f = Some (go, f') \<and>
    (go \<longrightarrow> allocationAddress f' = wk_prevCheck f' + 16 \<and> wk_prevCheck f' < wk_check f' \<and> wk_check f' \<le> wk_limit f \<and>
       wk_prevCheck f \<le> wk_prevCheck f' \<and> (wk_prevCheck f < wk_check f \<longrightarrow> wk_prevCheck f < wk_prevCheck f') \<and>
       heap_walk f')"
  using assms(2-4)
proof (induction "2 ^ 64 - unat (wk_prevCheck f)" arbitrary: f rule: less_induct)
  case less
  let ?adv = "AdvanceToNextAllocationOfHeap m ix key heap"
  have p: "16 \<le> wk_prevCheck f" "wk_prevCheck f \<le> wk_check f" using less.prems(2) by (simp_all add: heap_walk_def)
  have corrupt: ?case
    if c: "heap_corruption m ix heap g = Some (go, f')" and g: "wk_prevCheck g = wk_prevCheck f" "wk_limit g = wk_limit f"
      "wk_top g = wk_top f" "wk_checkLimit g = wk_checkLimit f"
      and r: "?adv f = (if go then ?adv f' else Some (False, f'))" for g go f'
  proof (cases go)
    case True
    have "16 \<le> wk_prevCheck g" using p(1) g(1) by simp
    from heap_corruption_outcome [OF assms(1) this] c True
    have f': "wk_prevCheck f < wk_prevCheck f'" "wk_check f' = wk_prevCheck f'" "wk_limit f' = wk_limit f"
      "wk_top f' = wk_top f" "wk_checkLimit f' = wk_checkLimit f" using g by auto
    have "2 ^ 64 - unat (wk_prevCheck f') < 2 ^ 64 - unat (wk_prevCheck f)"
      using f'(1) unat_less_exp [of "wk_prevCheck f'"] by (simp add: word_less_nat_alt)
    moreover have "heap_walk f'" using f'(1,2) p(1) by (simp add: heap_walk_def)
    ultimately have IH: "\<exists>go f''. ?adv f' = Some (go, f'') \<and>
      (go \<longrightarrow> allocationAddress f'' = wk_prevCheck f'' + 16 \<and> wk_prevCheck f'' < wk_check f'' \<and> wk_check f'' \<le> wk_limit f' \<and>
         wk_prevCheck f' \<le> wk_prevCheck f'' \<and> (wk_prevCheck f' < wk_check f' \<longrightarrow> wk_prevCheck f' < wk_prevCheck f'') \<and>
         heap_walk f'')"
      using less.hyps [of f'] less.prems(1,3) f'(3-5) by simp
    then show ?thesis using r True f'(1,3) by (auto intro: order.strict_implies_order order.strict_trans1 order.strict_trans2)
  next
    case False
    then show ?thesis using r by auto
  qed
  show ?case
  proof (cases "wk_check f < wk_checkLimit f")
    case False
    then show ?thesis by (subst AdvanceToNextAllocationOfHeap.simps) auto
  next
    case True
    show ?thesis
    proof (cases "wk_sizeAndFlags f AND 2 \<noteq> 0 \<or> wk_sizeAndFlags f AND 8 \<noteq> 0")
      case bad: True
      obtain go f' where "heap_corruption m ix heap f = Some (go, f')" using heap_corruption_outcome [OF assms(1) p(1)] by blast
      then show ?thesis
        by (intro corrupt [of f]) (use True bad in \<open>simp_all add: AdvanceToNextAllocationOfHeap.simps\<close>)
    next
      case good: False
      define g where "g = f\<lparr>wk_chunkSize := wk_sizeAndFlags f AND NOT 7\<rparr>"
      have g: "wk_prevCheck g = wk_prevCheck f" "wk_limit g = wk_limit f" "wk_top g = wk_top f"
        "wk_checkLimit g = wk_checkLimit f" "wk_check g = wk_check f" by (simp_all add: g_def)
      have step: "?adv f = (if wk_chunkSize g = 0 \<or> wk_chunkSize g \<ge> 0x10000000 \<or> wk_chunkSize g > wk_limit g - wk_check g then
            (case heap_corruption m ix heap g of None \<Rightarrow> None | Some (go, f') \<Rightarrow> if go then ?adv f' else Some (False, f'))
          else heap_chunk m ix key g)"
        using True good by (subst AdvanceToNextAllocationOfHeap.simps) (simp only: if_True if_False Let_def g_def)
      show ?thesis
      proof (cases "wk_chunkSize g = 0 \<or> wk_chunkSize g \<ge> 0x10000000 \<or> wk_chunkSize g > wk_limit g - wk_check g")
        case bad: True
        have "16 \<le> wk_prevCheck g" using p(1) g(1) by simp
        then obtain go f' where c: "heap_corruption m ix heap g = Some (go, f')" using heap_corruption_outcome [OF assms(1)] by blast
        show ?thesis by (rule corrupt [OF c g(1-4)]) (use step bad c in simp)
      next
        case ok: False
        have "wk_check g < wk_limit g" using True less.prems(3) g by (metis order.strict_trans2)
        then obtain go f' where h: "heap_chunk m ix key g = Some (go, f')"
          "go \<longrightarrow> wk_prevCheck f' = wk_check g \<and> wk_check g < wk_check f' \<and> wk_check f' \<le> wk_limit g \<and>
             allocationAddress f' = wk_check g + 16 \<and> wk_limit f' = wk_limit g \<and> wk_top f' = wk_top g"
          using heap_chunk_outcome [of m g ix key] less.prems(1) g(3) ok by (auto simp: not_less)
        have "?adv f = Some (go, f')" using step ok h(1) by simp
        then show ?thesis using h(2) g p by (auto simp: heap_walk_def)
      qed
    qed
  qed
qed

definition example_heap_walk :: HeapFinder where
  "example_heap_walk =
     \<lparr>allocationAddress = 0, allocationSize = 0, allocationIsUsed = False, wk_base = 0x1010, wk_limit = 0x1080,
      wk_chunkSize = 0, wk_prevCheck = 0x1010, wk_check = 0x1010, wk_sizeAndFlags = 0x21, heapsLeft = [],
      wk_checkLimit = 0x1060, wk_top = 0x1060\<rparr>"

theorem AdvanceToNextAllocationOfHeap_correct_witness:
  "\<exists>go f'. AdvanceToNextAllocationOfHeap skip_map skip_arenas 0x1000 (Heap_new 0x1000 0x1000 0x80 0x80 0) example_heap_walk =
     Some (go, f')"
proof -
  have "arena_readable skip_map skip_arenas (arenaAddress (Heap_new 0x1000 0x1000 0x80 0x80 0))"
    using skip_arena_readable by (simp add: Heap_new_def)
  moreover have "vam_find skip_map (wk_top example_heap_walk) \<noteq> None" "heap_walk example_heap_walk"
    "wk_checkLimit example_heap_walk \<le> wk_limit example_heap_walk"
    by (simp_all add: example_heap_walk_def heap_walk_def skip_map_eval)
  ultimately show ?thesis using AdvanceToNextAllocationOfHeap_correct by blast
qed

end
