(* ===== verification/Free_Lists.thy ===== *)
theory Free_Lists
  imports Free_Status
begin

text \<open>
  What the passes over the free lists of libc malloc achieve (LibcMalloc/FastBinFreeStatusFixer.h and
  LibcMalloc/DoublyLinkedListCorruptionChecker.h): sound fast bins have exactly their nodes marked as free,
  the check of the doubly linked lists always ends and is silent exactly on sound lists, and the walk along
  a consolidating chain does not end on a cycle.
\<close>

section \<open>Marking as free\<close>

lemma index_search_cong:
  assumes "\<And>k. al_Address (get k) = al_Address (get' k)" "\<And>k. al_Size (get k) = al_Size (get' k)"
    "\<And>k. accept (get k) = accept (get' k)"
  shows "index_search get accept address base limit = index_search get' accept address base limit"
proof (induction "limit - base" arbitrary: base limit rule: less_induct)
  case less
  let ?mid = "(base + limit) div 2"
  show ?case
  proof (cases "base < limit")
    case True
    have "index_search get accept address (?mid + 1) limit = index_search get' accept address (?mid + 1) limit"
      "index_search get accept address base ?mid = index_search get' accept address base ?mid"
      using True by (intro less.hyps; simp)+
    then show ?thesis
      using assms [of ?mid] by (simp add: index_search.simps [of _ _ _ base limit] Let_def)
  qed (simp add: index_search.simps [of _ _ _ base limit])
qed

lemma MarkAsFree_simps [simp]:
  "NumAllocations (MarkAsFree d i) = NumAllocations d"
  "wrappers (MarkAsFree d i) = wrappers d"
  by (simp_all add: MarkAsFree_def NumAllocations_def)

lemma MarkAsFree_nth:
  "allocations (MarkAsFree d i) ! k =
     (if k = i \<and> i < length (allocations d) then al_MarkAsFree (allocations d ! k) else allocations d ! k)"
  by (auto simp: MarkAsFree_def nth_list_update)

lemma MarkAsFree_keeps:
  "al_Address (allocations (MarkAsFree d i) ! k) = al_Address (allocations d ! k)"
  "al_Size (allocations (MarkAsFree d i) ! k) = al_Size (allocations d ! k)"
  "al_IsWrapper (allocations (MarkAsFree d i) ! k) = al_IsWrapper (allocations d ! k)"
  by (simp_all add: MarkAsFree_nth MarkAsFree_fields)

lemma MarkAsFree_levels:
  "search_levels (allocations (MarkAsFree d i)) address levels = search_levels (allocations d) address levels"
proof (induction levels)
  case (Cons level levels)
  have "index_search (\<lambda>k. allocations (MarkAsFree d i) ! (level ! k)) (\<lambda>a. True) address 0 (length level) =
        index_search (\<lambda>k. allocations d ! (level ! k)) (\<lambda>a. True) address 0 (length level)"
    by (rule index_search_cong) (simp_all add: MarkAsFree_keeps)
  then show ?case using Cons by (simp split: option.split)
qed simp

lemma AllocationIndexOf_MarkAsFree [simp]: "AllocationIndexOf (MarkAsFree d i) a = AllocationIndexOf d a"
proof -
  have "index_search ((!) (allocations (MarkAsFree d i))) (\<lambda>a. \<not> al_IsWrapper a) a 0 (length (allocations d)) =
        index_search ((!) (allocations d)) (\<lambda>a. \<not> al_IsWrapper a) a 0 (length (allocations d))"
    by (rule index_search_cong) (simp_all add: MarkAsFree_keeps)
  moreover have "length (allocations (MarkAsFree d i)) = length (allocations d)" by (simp add: MarkAsFree_def)
  ultimately show ?thesis by (simp add: AllocationIndexOf_def MarkAsFree_levels split: option.split)
qed

text \<open>Whether an allocation starts at an address.\<close>

definition starts_at :: "Directory \<Rightarrow> addr \<Rightarrow> bool" where
  "starts_at d a \<longleftrightarrow> (case AllocationAt d (AllocationIndexOf d a) of None \<Rightarrow> False | Some al \<Rightarrow> al_Address al = a)"

lemma starts_at_MarkAsFree [simp]: "starts_at (MarkAsFree d i) a = starts_at d a"
proof -
  have "length (allocations (MarkAsFree d i)) = length (allocations d)" by (simp add: MarkAsFree_def)
  then show ?thesis by (simp add: starts_at_def AllocationAt_def MarkAsFree_keeps)
qed

definition mark_all :: "addr list \<Rightarrow> Directory \<Rightarrow> Directory" where
  "mark_all ns d = fold (\<lambda>n d. MarkAsFree d (AllocationIndexOf d (n + 16))) ns d"

lemma mark_all_simps [simp]: "mark_all [] d = d" "mark_all (n # ns) d = mark_all ns (MarkAsFree d (AllocationIndexOf d (n + 16)))"
  "mark_all (ms @ ns) d = mark_all ns (mark_all ms d)"
  by (simp_all add: mark_all_def)

lemma mark_all_keeps [simp]:
  "NumAllocations (mark_all ns d) = NumAllocations d" "AllocationIndexOf (mark_all ns d) a = AllocationIndexOf d a"
  "starts_at (mark_all ns d) a = starts_at d a"
  by (induction ns arbitrary: d) simp_all

lemma al_MarkAsFree_twice [simp]: "al_MarkAsFree (al_MarkAsFree a) = al_MarkAsFree a"
  by (simp add: al_MarkAsFree_def and.assoc)

lemma mark_all_nth:
  "k < NumAllocations d \<Longrightarrow> allocations (mark_all ns d) ! k =
     (if k \<in> (\<lambda>n. AllocationIndexOf d (n + 16)) ` set ns then al_MarkAsFree (allocations d ! k) else allocations d ! k)"
proof (induction ns arbitrary: d)
  case (Cons n ns)
  have "k < NumAllocations (MarkAsFree d (AllocationIndexOf d (n + 16)))" using Cons.prems by simp
  from Cons.IH [OF this] show ?case
    using Cons.prems by (auto simp: MarkAsFree_nth NumAllocations_def)
qed simp

section \<open>Sound fast bins\<close>

text \<open>The nodes of a fast bin list that ends: each is the chunk of an allocation of the arena.\<close>

fun fast_nodes :: "VirtualAddressMap \<Rightarrow> Infrastructure \<Rightarrow> Directory \<Rightarrow> addr \<Rightarrow> addr \<Rightarrow> addr list \<Rightarrow> bool" where
  "fast_nodes m ix d arena node [] \<longleftrightarrow> node = 0"
| "fast_nodes m ix d arena node (x # xs) \<longleftrightarrow>
     x = node \<and> node \<noteq> 0 \<and> starts_at d (node + 16) \<and> ArenaAddressFor ix node = arena \<and>
     (\<exists>link. word_at m (node + 16) = Some link \<and> fast_nodes m ix d arena (demangle ix (node + 16) link) xs)"

lemma fast_nodes_unique:
  "fast_nodes m ix d arena node xs \<Longrightarrow> fast_nodes m ix d arena node ys \<Longrightarrow> xs = ys"
proof (induction xs arbitrary: node ys)
  case (Cons x xs)
  then show ?case by (cases ys) auto
next
  case Nil
  then show ?case by (cases ys) auto
qed

lemma fast_nodes_suffix:
  "fast_nodes m ix d arena node (xs @ y # ys) \<Longrightarrow> fast_nodes m ix d arena y (y # ys)"
  by (induction xs arbitrary: node) auto

lemma fast_nodes_distinct: "fast_nodes m ix d arena node xs \<Longrightarrow> distinct xs"
proof (induction xs arbitrary: node)
  case (Cons x xs)
  have "x \<notin> set xs"
  proof
    assume "x \<in> set xs"
    then obtain as bs where xs: "xs = as @ x # bs" by (meson split_list)
    have "fast_nodes m ix d arena x (x # as @ x # bs)" using Cons.prems xs by auto
    moreover have "fast_nodes m ix d arena x (x # bs)"
      using fast_nodes_suffix [of m ix d arena x "x # as" x bs] Cons.prems xs by auto
    ultimately have "x # as @ x # bs = x # bs" by (rule fast_nodes_unique)
    then have "length (x # as @ x # bs) = length (x # bs)" by (rule arg_cong)
    then show False by simp
  qed
  moreover obtain node' where "fast_nodes m ix d arena node' xs" using Cons.prems by auto
  ultimately show ?case using Cons.IH by simp
qed simp

lemma starts_at_less: "starts_at d a \<Longrightarrow> AllocationIndexOf d a < NumAllocations d"
  by (auto simp: starts_at_def AllocationAt_def NumAllocations_def split: if_splits)

lemma distinct_starts_le:
  assumes "distinct xs" "\<forall>x\<in>set xs. starts_at d (x + 16)"
  shows "length xs \<le> NumAllocations d"
proof -
  let ?f = "\<lambda>x. AllocationIndexOf d (x + 16)"
  have inj: "inj_on ?f (set xs)"
  proof (rule inj_onI)
    fix x y assume xy: "x \<in> set xs" "y \<in> set xs" "?f x = ?f y"
    have a: "al_Address (the (AllocationAt d (?f z))) = z + 16" if "z \<in> set xs" for z
    proof -
      have "starts_at d (z + 16)" using assms(2) that by blast
      then show ?thesis by (simp add: starts_at_def split: option.splits)
    qed
    have "x + 16 = y + 16" by (rule trans [OF a [OF xy(1), unfolded xy(3), symmetric] a [OF xy(2)]])
    then show "x = y" by simp
  qed
  have "?f ` set xs \<subseteq> {..<NumAllocations d}" using assms(2) starts_at_less by blast
  then have "card (set xs) \<le> NumAllocations d"
    using card_image [OF inj] card_mono [of "{..<NumAllocations d}" "?f ` set xs"] by simp
  then show ?thesis using assms(1) by (simp add: distinct_card)
qed

lemma fast_nodes_starts: "fast_nodes m ix d arena node xs \<Longrightarrow> \<forall>x\<in>set xs. starts_at d (x + 16)"
  by (induction xs arbitrary: node) auto

lemma fast_nodes_mark_all [simp]: "fast_nodes m ix (mark_all ns d) arena node xs = fast_nodes m ix d arena node xs"
  by (induction xs arbitrary: node) simp_all

lemma fast_bin_nodes_outcome:
  assumes "fast_nodes m ix d arena node xs" "length xs \<le> visits"
  shows "fast_bin_nodes m ix arena hdr visits node (d, reps) = Some ((mark_all xs d, reps), None)"
  using assms
proof (induction xs arbitrary: node visits d)
  case Nil
  then show ?case by (cases visits) simp_all
next
  case (Cons x xs)
  obtain v where v: "visits = Suc v" "length xs \<le> v" using Cons.prems(2) by (cases visits) auto
  obtain link where l: "x = node" "node \<noteq> 0" "starts_at d (node + 16)" "ArenaAddressFor ix node = arena"
    "word_at m (node + 16) = Some link" "fast_nodes m ix d arena (demangle ix (node + 16) link) xs"
    using Cons.prems(1) by auto
  obtain al where al: "AllocationAt d (AllocationIndexOf d (node + 16)) = Some al" "al_Address al = node + 16"
    using l(3) by (auto simp: starts_at_def split: option.splits)
  have "fast_nodes m ix (mark_all [node] d) arena (demangle ix (node + 16) link) xs"
    using l(6) by (simp only: fast_nodes_mark_all)
  then have "fast_bin_nodes m ix arena hdr v (demangle ix (node + 16) link) (mark_all [node] d, reps) =
      Some ((mark_all xs (mark_all [node] d), reps), None)"
    using Cons.IH v(2) by blast
  then show ?case using l al v by simp
qed

text \<open>All the fast bins of an arena.\<close>

definition fast_bin_ok :: "VirtualAddressMap \<Rightarrow> Infrastructure \<Rightarrow> Directory \<Rightarrow> addr \<Rightarrow> addr \<Rightarrow> addr list \<Rightarrow> bool" where
  "fast_bin_ok m ix d arena bin ns \<longleftrightarrow> (\<exists>node. word_at m bin = Some node \<and> fast_nodes m ix d arena node ns)"

lemma fast_bin_loop_outcome:
  assumes limit: "unat limit + 8 \<le> 2 ^ 64" and bins: "list_all2 (fast_bin_ok m ix d arena) (word_addrs bin limit) nss"
  shows "fast_bin_loop m ix arena limit bin (d, reps) = Some ((mark_all (concat nss) d, reps), False)"
  using bins
proof (induction nss arbitrary: bin d rule: list.induct)
  case Nil
  have "\<not> bin < limit"
  proof
    assume "bin < limit"
    from word_addrs_Cons(1) [OF this limit] show False using Nil by simp
  qed
  then show ?case by (subst fast_bin_loop.simps) simp
next
  case (Cons ns nss)
  have lt: "bin < limit"
  proof (rule ccontr)
    assume "\<not> bin < limit"
    then have "word_addrs bin limit = []" by (rule word_addrs_Nil)
    then show False using Cons.prems by simp
  qed
  note W = word_addrs_Cons [OF lt limit]
  obtain node where n: "word_at m bin = Some node" "fast_nodes m ix d arena node ns"
    and rest: "list_all2 (fast_bin_ok m ix d arena) (word_addrs (bin + 8) limit) nss"
    using Cons.prems unfolding W(1) fast_bin_ok_def by auto
  have "length ns \<le> NumAllocations d"
    by (rule distinct_starts_le [OF fast_nodes_distinct [OF n(2)] fast_nodes_starts [OF n(2)]])
  note nodes = fast_bin_nodes_outcome [OF n(2) this]
  have "fast_bin_ok m ix (mark_all ns d) arena = fast_bin_ok m ix d arena" by (simp add: fast_bin_ok_def fun_eq_iff)
  then have "fast_bin_loop m ix arena limit (bin + 8) (mark_all ns d, reps) =
      Some ((mark_all (concat nss) (mark_all ns d), reps), False)"
    using Cons.IH rest by metis
  then show ?case using lt n(1) nodes by (subst fast_bin_loop.simps) simp
qed

section \<open>Doubly linked lists\<close>

text \<open>A chunk of the arena that is free as its own sizes and the nxt header have it.\<close>

definition free_chunk :: "VirtualAddressMap \<Rightarrow> Infrastructure \<Rightarrow> Directory \<Rightarrow> addr \<Rightarrow> addr \<Rightarrow> bool" where
  "free_chunk m ix d arena n \<longleftrightarrow>
     (\<exists>al w. AllocationAt d (AllocationIndexOf d (n + 16)) = Some al \<and> al_Address al = n + 16 \<and>
        word_at m (n + 16 + al_Size al) = Some w \<and> w AND 1 = 0 \<and>
        word_at m (n + 16 + al_Size al - 8) = Some (al_Size al + 8)) \<and>
     ArenaAddressFor ix n = arena"

text \<open>From \<open>node\<close>, which comes after \<open>prev\<close>, the links lead through \<open>ns\<close> back to the list header.\<close>

fun ring_from ::
  "VirtualAddressMap \<Rightarrow> Infrastructure \<Rightarrow> Directory \<Rightarrow> addr \<Rightarrow> addr \<Rightarrow> addr \<Rightarrow> addr \<Rightarrow> addr list \<Rightarrow> bool" where
  "ring_from m ix d arena lst prev node [] \<longleftrightarrow> node = lst"
| "ring_from m ix d arena lst prev node (n # ns) \<longleftrightarrow>
     n = node \<and> node \<noteq> lst \<and> free_chunk m ix d arena node \<and> word_at m (node + 24) = Some prev \<and>
     (\<exists>nxt. word_at m (node + 16) = Some nxt \<and> ring_from m ix d arena lst node nxt ns)"

definition free_list_ok :: "VirtualAddressMap \<Rightarrow> Infrastructure \<Rightarrow> Directory \<Rightarrow> addr \<Rightarrow> addr \<Rightarrow> bool" where
  "free_list_ok m ix d arena lst \<longleftrightarrow>
     (\<exists>first last ns. word_at m (lst + 16) = Some first \<and> word_at m (lst + 24) = Some last \<and>
        (first = lst \<longleftrightarrow> last = lst) \<and> ring_from m ix d arena lst lst first ns)"

lemma check_node_ok:
  "check_node m ix d arena lst prev node = Node_ok nxt \<longleftrightarrow>
     free_chunk m ix d arena node \<and> word_at m (node + 24) = Some prev \<and> word_at m (node + 16) = Some nxt"
proof -
  have a: "node + 16 + z - 8 = node + 2 * 8 + z - 8" "node + 24 = node + 3 * 8" "node + 16 = node + 2 * 8" for z by simp_all
  show ?thesis
    unfolding check_node_def free_chunk_def Let_def a
    by (auto split: option.splits if_splits)
qed

lemma check_node_starts: "check_node m ix d arena lst prev node = Node_ok nxt \<Longrightarrow> starts_at d (node + 16)"
  by (auto simp: check_node_ok free_chunk_def starts_at_def)

text \<open>The nodes passed so far, in order: each points back to the one before it, so none is met twice.\<close>

fun passed_nodes :: "VirtualAddressMap \<Rightarrow> addr \<Rightarrow> addr list \<Rightarrow> bool" where
  "passed_nodes m prev [] \<longleftrightarrow> True"
| "passed_nodes m prev (n # ns) \<longleftrightarrow> word_at m (n + 24) = Some prev \<and> passed_nodes m n ns"

lemma passed_nodes_append: "passed_nodes m prev (xs @ ys) \<longleftrightarrow> passed_nodes m prev xs \<and> passed_nodes m (last (prev # xs)) ys"
  by (induction xs arbitrary: prev) auto

lemma passed_nodes_new:
  assumes "passed_nodes m lst ns" "distinct (lst # ns)" "word_at m (node + 24) = Some (last (lst # ns))" "node \<noteq> lst"
  shows "distinct (lst # ns @ [node])"
proof -
  have "node \<notin> set ns"
  proof
    assume "node \<in> set ns"
    then obtain as bs where ns: "ns = as @ node # bs" by (meson split_list)
    then have "last (lst # as) = last (lst # ns)" using assms(1,3) by (simp add: passed_nodes_append)
    moreover have "last (lst # ns) \<in> set (node # bs)" using ns by simp
    moreover have "last (lst # as) \<in> set (lst # as)" by (rule last_in_set) simp
    moreover have "set (lst # as) \<inter> set (node # bs) = {}" using assms(2) ns by auto
    ultimately show False by (metis disjoint_iff)
  qed
  then show ?thesis using assms(2,4) by auto
qed

lemma check_nodes_outcome:
  assumes "passed_nodes m lst ns" "distinct (lst # ns)" "\<forall>n\<in>set ns. starts_at d (n + 16)"
  shows "\<exists>reps. check_nodes m ix d arena lst (last (lst # ns)) node = Some reps \<and>
           (reps = [] \<longleftrightarrow> (\<exists>xs. ring_from m ix d arena lst (last (lst # ns)) node xs))"
  using assms
proof (induction "NumAllocations d - length ns" arbitrary: ns node rule: less_induct)
  case less
  let ?prev = "last (lst # ns)"
  show ?case
  proof (cases "node = lst")
    case True
    then show ?thesis by (subst check_nodes.simps) (auto intro: exI [of _ "[]"])
  next
    case False
    show ?thesis
    proof (cases "check_node m ix d arena lst ?prev node")
      case (Node_ok nxt)
      note ok = Node_ok [unfolded check_node_ok]
      have p: "passed_nodes m lst (ns @ [node])" using less.prems(1) ok by (simp add: passed_nodes_append)
      have dis: "distinct (lst # ns @ [node])" by (rule passed_nodes_new [OF less.prems(1,2)]) (use ok False in simp_all)
      have st: "\<forall>n\<in>set (ns @ [node]). starts_at d (n + 16)" using less.prems(3) check_node_starts [OF Node_ok] by simp
      have "length (ns @ [node]) \<le> NumAllocations d" by (rule distinct_starts_le) (use dis st in auto)
      then have "NumAllocations d - length (ns @ [node]) < NumAllocations d - length ns" by simp
      from less.hyps [OF this p dis st, of nxt]
      obtain reps where r: "check_nodes m ix d arena lst node nxt = Some reps"
        "reps = [] \<longleftrightarrow> (\<exists>xs. ring_from m ix d arena lst node nxt xs)" by auto
      have "check_nodes m ix d arena lst ?prev node = Some reps"
        using False Node_ok r(1) by (subst check_nodes.simps) simp
      moreover have "(\<exists>xs. ring_from m ix d arena lst ?prev node xs) \<longleftrightarrow> (\<exists>xs. ring_from m ix d arena lst node nxt xs)"
      proof
        assume "\<exists>xs. ring_from m ix d arena lst ?prev node xs"
        then obtain xs where xs: "ring_from m ix d arena lst ?prev node xs" ..
        then show "\<exists>xs. ring_from m ix d arena lst node nxt xs" using False ok by (cases xs) auto
      next
        assume "\<exists>xs. ring_from m ix d arena lst node nxt xs"
        then obtain xs where "ring_from m ix d arena lst node nxt xs" ..
        then have "ring_from m ix d arena lst ?prev node (node # xs)" using False ok by simp
        then show "\<exists>xs. ring_from m ix d arena lst ?prev node xs" ..
      qed
      ultimately show ?thesis using r(2) by simp
    next
      case (Node_bad rep)
      have "\<not> ring_from m ix d arena lst ?prev node xs" for xs
        using False Node_bad check_node_ok [of m ix d arena lst ?prev node] by (cases xs) auto
      then show ?thesis using False Node_bad by (subst check_nodes.simps) simp
    next
      case (Node_unmapped a)
      have "\<not> ring_from m ix d arena lst ?prev node xs" for xs
        using False Node_unmapped check_node_ok [of m ix d arena lst ?prev node] by (cases xs) auto
      then show ?thesis using False Node_unmapped by (subst check_nodes.simps) simp
    qed
  qed
qed

lemma check_list_outcome:
  "\<exists>reps. check_list m ix d arena lst = Some reps \<and> (reps = [] \<longleftrightarrow> free_list_ok m ix d arena lst)"
proof -
  have nodes: "\<exists>reps. check_nodes m ix d arena lst lst node = Some reps \<and>
           (reps = [] \<longleftrightarrow> (\<exists>xs. ring_from m ix d arena lst lst node xs))" for node
    using check_nodes_outcome [of m lst "[]" d ix arena node] by simp
  have a: "lst + 2 * 8 = lst + 16" "lst + 3 * 8 = lst + 24" by simp_all
  have empty: "\<exists>xs. ring_from m ix d arena lst lst lst xs" by (rule exI [of _ "[]"]) simp
  show ?thesis
  proof (cases "word_at m (lst + 16)")
    case (Some first)
    show ?thesis
    proof (cases "word_at m (lst + 24)")
      case last: (Some last)
      show ?thesis
        using Some last nodes [of first] empty
        unfolding check_list_def free_list_ok_def Let_def a
        by (auto split: if_splits)
    qed (use Some in \<open>simp add: check_list_def free_list_ok_def Let_def a\<close>)
  qed (simp add: check_list_def free_list_ok_def Let_def a)
qed

text \<open>The headers that the loop over the lists visits.\<close>

definition list_headers :: "addr \<Rightarrow> addr \<Rightarrow> addr list" where
  "list_headers lst lastList =
     (if lst \<le> lastList then map (\<lambda>j. lst + 16 * of_nat j) [0..<Suc ((unat lastList - unat lst) div 16)] else [])"

lemma list_headers_Nil: "\<not> lst \<le> lastList \<Longrightarrow> list_headers lst lastList = []"
  by (simp add: list_headers_def)

lemma list_headers_Cons:
  assumes "lst \<le> lastList" "unat lastList + 16 < 2 ^ 64"
  shows "list_headers lst lastList = lst # list_headers (lst + 16) lastList" "unat (lst + 16) = unat lst + 16"
proof -
  have le: "unat lst \<le> unat lastList" using assms(1) by (simp add: word_le_nat_alt)
  then show u: "unat (lst + 16) = unat lst + 16"
    using assms(2) unat_add_of_nat [of lst 16] by simp
  show "list_headers lst lastList = lst # list_headers (lst + 16) lastList"
  proof (cases "lst + 16 \<le> lastList")
    case True
    define k where "k = (unat lastList - unat (lst + 16)) div 16"
    have "unat lst + 16 \<le> unat lastList" using True u by (simp add: word_le_nat_alt)
    then have "unat lastList - unat lst = (unat lastList - unat (lst + 16)) + 16" using u by simp
    then have "(unat lastList - unat lst) div 16 = Suc k" unfolding k_def by simp
    moreover have "[0..<Suc (Suc k)] = 0 # map Suc [0..<Suc k]"
      by (subst upt_conv_Cons) (simp_all only: map_Suc_upt zero_less_Suc)
    ultimately have "list_headers lst lastList = map (\<lambda>j. lst + 16 * of_nat j) (0 # map Suc [0..<Suc k])"
      using assms(1) by (simp only: list_headers_def if_True)
    moreover have "list_headers (lst + 16) lastList = map (\<lambda>j. lst + 16 + 16 * of_nat j) [0..<Suc k]"
      using True unfolding k_def by (simp only: list_headers_def if_True)
    ultimately show ?thesis by (simp add: algebra_simps)
  next
    case False
    then have "(unat lastList - unat lst) div 16 = 0" using u le by (simp add: word_le_nat_alt)
    then show ?thesis using assms(1) False by (simp add: list_headers_def)
  qed
qed

lemma check_lists_outcome:
  assumes "unat lastList + 16 < 2 ^ 64"
  shows "\<exists>new. check_lists m ix d arena lastList lst reps = Some (reps @ new) \<and>
           (new = [] \<longleftrightarrow> (\<forall>l\<in>set (list_headers lst lastList). free_list_ok m ix d arena l))"
proof (induction "2 ^ 64 - unat lst" arbitrary: lst reps rule: less_induct)
  case less
  show ?case
  proof (cases "lst \<le> lastList")
    case True
    note H = list_headers_Cons [OF True assms]
    obtain new where new: "check_list m ix d arena lst = Some new" "new = [] \<longleftrightarrow> free_list_ok m ix d arena lst"
      using check_list_outcome by blast
    have "unat lst < 2 ^ 64" using True assms by (simp add: word_le_nat_alt)
    then have "2 ^ 64 - unat (lst + 16) < 2 ^ 64 - unat lst" using H(2) by simp
    from less.hyps [OF this, of "reps @ new"]
    obtain new' where new': "check_lists m ix d arena lastList (lst + 16) (reps @ new) = Some (reps @ new @ new')"
      "new' = [] \<longleftrightarrow> (\<forall>l\<in>set (list_headers (lst + 16) lastList). free_list_ok m ix d arena l)" by auto
    have "check_lists m ix d arena lastList lst reps = Some (reps @ new @ new')"
      using True new(1) new'(1) by (subst check_lists.simps) simp
    moreover have "new @ new' = [] \<longleftrightarrow> (\<forall>l\<in>set (list_headers lst lastList). free_list_ok m ix d arena l)"
      using H(1) new(2) new'(2) by simp
    ultimately show ?thesis by blast
  next
    case False
    then show ?thesis by (subst check_lists.simps) (simp add: list_headers_Nil)
  qed
qed

section \<open>Chains that are being consolidated\<close>

text \<open>A set of links the walk stays in: each leads from a used chunk of the finder to another.\<close>

definition stays_in :: "VirtualAddressMap \<Rightarrow> Infrastructure \<Rightarrow> Directory \<Rightarrow> nat \<Rightarrow> addr set \<Rightarrow> bool" where
  "stays_in m ix d finderIndex S \<longleftrightarrow>
     (\<forall>l\<in>S. l \<noteq> 0 \<and> l \<noteq> 0xBAD \<and> used_chunk_at d finderIndex (l + 16) \<and>
        demangle ix (l + 16) (word_or m (l + 16) 0xBAD) \<in> S)"

lemma chain_walk_stays:
  assumes "chain_walk m ix d finderIndex n link = Some r"
  shows "stays_in m ix d finderIndex S \<Longrightarrow> link \<notin> S"
proof (induction rule: chain_walk.raw_induct [OF _ assms])
  case (1 walk m ix d finderIndex n link r)
  show ?case
  proof
    assume l: "link \<in> S"
    note s = bspec [OF "1.prems" [unfolded stays_in_def] l]
    have a: "link + 2 * 8 = link + 16" by simp
    have "walk m ix d finderIndex (if n + 1 = 0x10000000 then 0 else n + 1)
        (demangle ix (link + 16) (word_or m (link + 16) 0xBAD)) = Some r"
      using "1.hyps" s unfolding Let_def a by simp
    from "1.IH" [OF this "1.prems"] s show False by blast
  qed
qed

section \<open>Properties\<close>

text \<open>
  Memory with the header of an arena at 0x1000, which has one fast bin, at 0x1008, and one doubly linked list,
  whose links are at 0x1010.  The chunk at 0x1020 is on the fast bin and holds a link with the given bytes, the chunk at
  0x1050 is on the doubly linked list.
\<close>

definition free_map :: "byte \<Rightarrow> byte \<Rightarrow> VirtualAddressMap" where
  "free_map b0 b1 = AddRange (VirtualAddressMap_new
     [0, 0, 0, 0, 0, 0, 0, 0, 0x20, 0x10, 0, 0, 0, 0, 0, 0,
       0x50, 0x10, 0, 0, 0, 0, 0, 0, 0x50, 0x10, 0, 0, 0, 0, 0, 0,
       0, 0, 0, 0, 0, 0, 0, 0, 0x31, 0, 0, 0, 0, 0, 0, 0,
       b0, b1, 0, 0, 0, 0, 0, 0, 0, 0, 0, 0, 0, 0, 0, 0,
       0, 0, 0, 0, 0, 0, 0, 0, 0, 0, 0, 0, 0, 0, 0, 0, 0, 0, 0, 0, 0, 0, 0, 0,
       0x21, 0, 0, 0, 0, 0, 0, 0, 0, 0x10, 0, 0, 0, 0, 0, 0, 0, 0x10, 0, 0, 0, 0, 0, 0,
       0x20, 0, 0, 0, 0, 0, 0, 0, 0x20, 0, 0, 0, 0, 0, 0, 0])
     0x1000 128 (0 - 0x1000) True True True False False"

definition free_arenas :: Infrastructure where
  "free_arenas =
     \<lparr>heaps = [], arenas = [(0x1000, Arena_new 0x1000)], mainArenaRuns = [(0x1020, 0x60)],
      mainArenaAddress = 0x1000, fastBinLinksAreMangled = False, fastBinStartOffset = 8, fastBinLimitOffset = 16,
      doublyLinkedFreeListOffset = 16, lastDoublyLinkedFreeListOffset = 16, arenaStructSize = 0x20,
      heapHeaderSize = 0x20, maxHeapSize = 0x4000000\<rparr>"

definition free_directory :: Directory where
  "free_directory = Directory_new\<lparr>allocations :=
     [Allocation_new 0x1030 0x28 True 0 False, Allocation_new 0x1060 0x18 False 0 False]\<rparr>"

lemma free_map_entries:
  "rm_map (ranges (free_map b0 b1)) = [(0x1080, 128, \<lparr>adjustToFileOffset = 0 - 0x1000, flags = 0x19\<rparr>)]"
  "fileImage (free_map b0 b1) =
     [0, 0, 0, 0, 0, 0, 0, 0, 0x20, 0x10, 0, 0, 0, 0, 0, 0,
       0x50, 0x10, 0, 0, 0, 0, 0, 0, 0x50, 0x10, 0, 0, 0, 0, 0, 0,
       0, 0, 0, 0, 0, 0, 0, 0, 0x31, 0, 0, 0, 0, 0, 0, 0,
       b0, b1, 0, 0, 0, 0, 0, 0, 0, 0, 0, 0, 0, 0, 0, 0,
       0, 0, 0, 0, 0, 0, 0, 0, 0, 0, 0, 0, 0, 0, 0, 0, 0, 0, 0, 0, 0, 0, 0, 0,
       0x21, 0, 0, 0, 0, 0, 0, 0, 0, 0x10, 0, 0, 0, 0, 0, 0, 0, 0x10, 0, 0, 0, 0, 0, 0,
       0x20, 0, 0, 0, 0, 0, 0, 0, 0x20, 0, 0, 0, 0, 0, 0, 0]"
  by (simp_all add: free_map_def AddRange_def VirtualAddressMap_new_def AddRange_flags_def flag_defs
      MapRange_def RangeMapper_new_def sm_lower_bound_def rm_emplace_result_def sm_emplace_def
      rm_next_def sm_upper_bound_def sm_find_def)

lemmas free_map_eval =
  word_at_def word_or_def u32_or_def read_spec_def vam_find_def rm_find_def sm_upper_bound_def free_map_entries
  has_image_def flag_defs

lemma free_map_words:
  defines "m \<equiv> free_map 0 0"
  shows "u32_or m 0x1000 0 = 0" "word_at m 0x1008 = Some 0x1020" "word_at m 0x1010 = Some 0x1050"
    "word_at m 0x1018 = Some 0x1050" "word_at m 0x1030 = Some 0" "word_at m 0x1060 = Some 0x1000"
    "word_at m 0x1068 = Some 0x1000" "word_at m 0x1070 = Some 0x20" "word_at m 0x1078 = Some 0x20"
  by (simp_all add: m_def free_map_eval)

lemma free_directory_lookups:
  "AllocationIndexOf free_directory 0x1030 = 0" "AllocationIndexOf free_directory 0x1060 = 1"
  "starts_at free_directory 0x1030" "used_chunk_at free_directory 0 0x1030"
  "AllocationAt free_directory 1 = Some (Allocation_new 0x1060 0x18 False 0 False)"
proof -
  have "0x28 \<le> SIZE_MASK" "0x18 \<le> SIZE_MASK" "0 < MAX_FINDERS" by (simp_all add: al_constants mask_eq_exp_minus_1)
  note a = Allocation_new_fields [OF this(1,3)] Allocation_new_fields [OF this(2,3)]
  show i: "AllocationIndexOf free_directory 0x1030 = 0" "AllocationIndexOf free_directory 0x1060 = 1"
    by (simp_all add: AllocationIndexOf_def free_directory_def Directory_new_def index_search.simps Let_def a)
  show "starts_at free_directory 0x1030" "used_chunk_at free_directory 0 0x1030"
    "AllocationAt free_directory 1 = Some (Allocation_new 0x1060 0x18 False 0 False)"
    by (simp_all add: starts_at_def used_chunk_at_def i AllocationAt_def)
      (simp_all add: free_directory_def a)
qed

text \<open>
  C16: Where the fast bins of an arena are sound, each a list that ends and whose nodes are chunks of the arena
  with an allocation, \<open>MarkFastBinItemsAsFree\<close> returns, reports nothing, and marks the allocations of those
  nodes as free and changes nothing else of any allocation, if no consolidation was under way.
\<close>

theorem MarkFastBinItemsAsFree_correct:
  assumes "unat (ar_address ar + fastBinLimitOffset ix) + 8 \<le> 2 ^ 64" "u32_or m (ar_address ar) 0 = 0"
    "list_all2 (fast_bin_ok m ix d (ar_address ar))
       (word_addrs (ar_address ar + fastBinStartOffset ix) (ar_address ar + fastBinLimitOffset ix)) bins"
  shows "\<exists>d'. MarkFastBinItemsAsFree m ix tm ar isMain finderIndex (d, reps) = Some (d', reps) \<and>
           NumAllocations d' = NumAllocations d \<and>
           (\<forall>k<NumAllocations d. allocations d' ! k =
              (if k \<in> (\<lambda>n. AllocationIndexOf d (n + 16)) ` set (concat bins)
               then al_MarkAsFree (allocations d ! k) else allocations d ! k))"
proof (intro exI conjI allI impI)
  show "MarkFastBinItemsAsFree m ix tm ar isMain finderIndex (d, reps) = Some (mark_all (concat bins) d, reps)"
    using fast_bin_loop_outcome [OF assms(1,3)] assms(2) by (simp add: MarkFastBinItemsAsFree_def Let_def)
qed (simp_all only: mark_all_keeps mark_all_nth)

lemma example_fast_bins:
  "list_all2 (fast_bin_ok (free_map 0 0) free_arenas free_directory 0x1000) (word_addrs 0x1008 0x1010) [[0x1020]]"
proof -
  have "word_addrs 0x1008 0x1010 = [0x1008]" by (simp add: word_addrs_def)
  moreover have "fast_bin_ok (free_map 0 0) free_arenas free_directory 0x1000 0x1008 [0x1020]"
    by (simp add: fast_bin_ok_def free_map_words free_directory_lookups ArenaAddressFor_def free_arenas_def
        sm_find_def sm_before_def demangle_def)
  ultimately show ?thesis by simp
qed

theorem MarkFastBinItemsAsFree_correct_witness:
  "\<exists>d'. MarkFastBinItemsAsFree (free_map 0 0) free_arenas (ThreadMap_new [] 0) (Arena_new 0x1000) True 0 (free_directory, []) =
          Some (d', []) \<and> \<not> al_IsUsed (allocations d' ! 0) \<and> allocations d' ! 1 = allocations free_directory ! 1"
proof -
  have a: "ar_address (Arena_new 0x1000) = 0x1000" "0x1000 + fastBinStartOffset free_arenas = 0x1008"
    "0x1000 + fastBinLimitOffset free_arenas = 0x1010" by (simp_all add: Arena_new_def free_arenas_def)
  have n: "NumAllocations free_directory = 2" by (simp add: NumAllocations_def free_directory_def)
  have i: "(\<lambda>n. AllocationIndexOf free_directory (n + 16)) ` set (concat [[0x1020]]) = {0}"
    by (simp add: free_directory_lookups)
  from MarkFastBinItemsAsFree_correct [of "Arena_new 0x1000" free_arenas "free_map 0 0", unfolded a,
      OF _ free_map_words(1) example_fast_bins, of "ThreadMap_new [] 0" True 0 "[]", unfolded n i]
  obtain d' where d': "MarkFastBinItemsAsFree (free_map 0 0) free_arenas (ThreadMap_new [] 0) (Arena_new 0x1000) True 0
        (free_directory, []) = Some (d', [])"
    "\<forall>k<2. allocations d' ! k = (if k \<in> {0} then al_MarkAsFree (allocations free_directory ! k)
       else allocations free_directory ! k)" by auto
  from d'(2) have "allocations d' ! 0 = al_MarkAsFree (allocations free_directory ! 0)"
    "allocations d' ! 1 = allocations free_directory ! 1" by simp_all
  then show ?thesis using d'(1) MarkAsFree_fields by auto
qed

text \<open>
  C17: \<open>CheckDoublyLinkedListCorruption\<close> returns, however the lists of the arena are linked, and is silent
  exactly if the arena header could not be read or every list header has links that lead through free chunks
  of the arena, each pointing back to the one before it, back to the header.
\<close>

theorem CheckDoublyLinkedListCorruption_correct:
  assumes "unat (ar_address ar + lastDoublyLinkedFreeListOffset ix - 16) + 16 < 2 ^ 64"
  shows "\<exists>reps. CheckDoublyLinkedListCorruption m ix d ar = Some reps \<and>
           (reps = [] \<longleftrightarrow> missingOrUnfilledHeader ar \<or>
              (\<forall>l\<in>set (list_headers (ar_address ar + doublyLinkedFreeListOffset ix - 16)
                                 (ar_address ar + lastDoublyLinkedFreeListOffset ix - 16)).
                 free_list_ok m ix d (ar_address ar) l))"
  using check_lists_outcome [OF assms, of m ix d "ar_address ar" "ar_address ar + doublyLinkedFreeListOffset ix - 16" "[]"]
  by (auto simp: CheckDoublyLinkedListCorruption_def Let_def)

theorem CheckDoublyLinkedListCorruption_correct_witness:
  "CheckDoublyLinkedListCorruption (free_map 0 0) free_arenas free_directory (Arena_new 0x1000) = Some []"
proof -
  have a: "ar_address (Arena_new 0x1000) = 0x1000" "0x1000 + doublyLinkedFreeListOffset free_arenas - 16 = 0x1000"
    "0x1000 + lastDoublyLinkedFreeListOffset free_arenas - 16 = 0x1000" by (simp_all add: Arena_new_def free_arenas_def)
  have h: "list_headers 0x1000 0x1000 = [0x1000]" by (simp add: list_headers_def)
  have "0x18 \<le> SIZE_MASK" "0 < MAX_FINDERS" by (simp_all add: al_constants mask_eq_exp_minus_1)
  note al = Allocation_new_fields [OF this]
  have "ArenaAddressFor free_arenas 0x1050 = 0x1000"
    by (simp add: ArenaAddressFor_def free_arenas_def sm_find_def sm_before_def)
  then have c: "free_chunk (free_map 0 0) free_arenas free_directory 0x1000 0x1050"
    by (simp add: free_chunk_def free_directory_lookups [simplified] al free_map_words)
  have "ring_from (free_map 0 0) free_arenas free_directory 0x1000 0x1000 0x1000 0x1050 [0x1050]"
    by (simp add: c free_map_words)
  then have "\<exists>ns. ring_from (free_map 0 0) free_arenas free_directory 0x1000 0x1000 0x1000 0x1050 ns" ..
  then have "free_list_ok (free_map 0 0) free_arenas free_directory 0x1000 0x1000"
    unfolding free_list_ok_def by (simp add: free_map_words)
  then show ?thesis
    using CheckDoublyLinkedListCorruption_correct
        [of "Arena_new 0x1000" free_arenas "free_map 0 0" free_directory, unfolded a h] by auto
qed

text \<open>
  The walk along a chain that is being consolidated does not return when the chain is a cycle: the test
  on its length writes a warning and sets the length back, so nothing ends the walk while its links stay
  among used chunks of the finder.
\<close>

theorem chain_walk_endless:
  assumes "stays_in m ix d finderIndex S" "link \<in> S"
  shows "chain_walk m ix d finderIndex chainLength link = None"
  using chain_walk_stays [OF _ assms(1)] assms(2) by (cases "chain_walk m ix d finderIndex chainLength link") auto

theorem chain_walk_endless_witness:
  "chain_walk (free_map 0x20 0x10) free_arenas free_directory 0 1 0x1020 = None"
proof (rule chain_walk_endless)
  have "word_or (free_map 0x20 0x10) 0x1030 0xBAD = 0x1020" by (simp add: free_map_eval)
  then show "stays_in (free_map 0x20 0x10) free_arenas free_directory 0 {0x1020}"
    by (simp add: stays_in_def free_directory_lookups demangle_def free_arenas_def)
qed simp

end
