(* ===== verification/Edge_Predicates.thy ===== *)
theory Edge_Predicates
  imports Graph_Edges
begin

text \<open>
  The class \<open>Allocations::EdgePredicate\<close> of Allocations/EdgePredicate.h: a set of edges of the graph, kept
  as one flag per edge in the order of the outgoing edges and once more in the order of the incoming edges.
  \<open>None\<close> is an access outside the arrays, which does not happen on the tables of a graph.
\<close>

section \<open>Operations\<close>

record EdgePredicate =
  ep_totalEdges :: nat
  valueByOutgoingEdgeIndex :: "bool list"
  valueByIncomingEdgeIndex :: "bool list"

definition EdgePredicate_new :: "Graph \<Rightarrow> bool \<Rightarrow> EdgePredicate" where
  "EdgePredicate_new g defaultValue =
     \<lparr>ep_totalEdges = totalEdges g, valueByOutgoingEdgeIndex = replicate (totalEdges g) defaultValue,
      valueByIncomingEdgeIndex = replicate (totalEdges g) defaultValue\<rparr>"

text \<open>The flags of one edge are written.\<close>

definition set_edge_values :: "nat \<Rightarrow> nat \<Rightarrow> bool \<Rightarrow> EdgePredicate \<Rightarrow> EdgePredicate option" where
  "set_edge_values k j v ep =
     (if k < length (valueByOutgoingEdgeIndex ep) \<and> j < length (valueByIncomingEdgeIndex ep)
      then Some (ep\<lparr>valueByOutgoingEdgeIndex := (valueByOutgoingEdgeIndex ep)[k := v],
                    valueByIncomingEdgeIndex := (valueByIncomingEdgeIndex ep)[j := v]\<rparr>)
      else None)"

fun set_outgoing_loop :: "Graph \<Rightarrow> nat \<Rightarrow> bool \<Rightarrow> nat list \<Rightarrow> EdgePredicate \<Rightarrow> EdgePredicate option" where
  "set_outgoing_loop g source v [] ep = Some ep"
| "set_outgoing_loop g source v (k # ks) ep =
     Option.bind (set_edge_values k (GetIncomingEdgeIndex g source (GetTargetForOutgoing g k)) v ep)
       (set_outgoing_loop g source v ks)"

definition SetAllOutgoing :: "Graph \<Rightarrow> nat \<Rightarrow> bool \<Rightarrow> EdgePredicate \<Rightarrow> EdgePredicate option" where
  "SetAllOutgoing g source v ep =
     (case GetOutgoing g source of (firstOut, pastOut) \<Rightarrow> set_outgoing_loop g source v [firstOut..<pastOut] ep)"

fun set_incoming_loop :: "Graph \<Rightarrow> nat \<Rightarrow> bool \<Rightarrow> nat list \<Rightarrow> EdgePredicate \<Rightarrow> EdgePredicate option" where
  "set_incoming_loop g target v [] ep = Some ep"
| "set_incoming_loop g target v (k # ks) ep =
     Option.bind (set_edge_values (GetOutgoingEdgeIndex g (GetSourceForIncoming g k) target) k v ep)
       (set_incoming_loop g target v ks)"

definition SetAllIncoming :: "Graph \<Rightarrow> nat \<Rightarrow> bool \<Rightarrow> EdgePredicate \<Rightarrow> EdgePredicate option" where
  "SetAllIncoming g target v ep =
     (case GetIncoming g target of (firstIn, pastIn) \<Rightarrow> set_incoming_loop g target v [firstIn..<pastIn] ep)"

definition ep_Set :: "Graph \<Rightarrow> nat \<Rightarrow> nat \<Rightarrow> bool \<Rightarrow> EdgePredicate \<Rightarrow> EdgePredicate option" where
  "ep_Set g source target v ep =
     (let i = GetIncomingEdgeIndex g source target in
      if i = ep_totalEdges ep then Some ep
      else set_edge_values (GetOutgoingEdgeIndex g source target) i v ep)"

definition ep_For :: "Graph \<Rightarrow> EdgePredicate \<Rightarrow> nat \<Rightarrow> nat \<Rightarrow> bool" where
  "ep_For g ep source target \<longleftrightarrow>
     (let i = GetIncomingEdgeIndex g source target in
      if i = ep_totalEdges ep then False else valueByIncomingEdgeIndex ep ! i)"

definition ForIncoming :: "EdgePredicate \<Rightarrow> nat \<Rightarrow> bool" where
  "ForIncoming ep k \<longleftrightarrow> k < ep_totalEdges ep \<and> valueByIncomingEdgeIndex ep ! k"

definition ForOutgoing :: "EdgePredicate \<Rightarrow> nat \<Rightarrow> bool" where
  "ForOutgoing ep k \<longleftrightarrow> k < ep_totalEdges ep \<and> valueByOutgoingEdgeIndex ep ! k"

section \<open>Positions in the tables of a graph\<close>

context edge_table
begin

lemma search_position:
  assumes "ok g" "i < rows g" "first g ! i \<le> k" "k < first g ! (i + 1)"
  shows "edge_search (arr g) (arr g ! k) (first g ! i) (first g ! (i + 1)) = Some k"
proof -
  have inc: "increasing (arr g) (first g ! i) (first g ! (i + 1))" by (rule row_increasing [OF assms(1,2)])
  have *: "arr g ! j < arr g ! l" if "first g ! i \<le> j" "j < l" "l < first g ! (i + 1)" for j l
    using inc that by (rule increasingD)
  show ?thesis
  proof (cases "edge_search (arr g) (arr g ! k) (first g ! i) (first g ! (i + 1))")
    case None
    then have "\<forall>l. first g ! i \<le> l \<and> l < first g ! (i + 1) \<longrightarrow> arr g ! l \<noteq> arr g ! k"
      using edge_search_outcome [OF inc, of "arr g ! k"] by simp
    then show ?thesis using assms(3,4) by blast
  next
    case (Some j)
    then have j: "first g ! i \<le> j" "j < first g ! (i + 1)" "arr g ! j = arr g ! k"
      using edge_search_outcome [OF inc, of "arr g ! k"] by simp_all
    have "\<not> j < k" "\<not> k < j" using *[of j k] *[of k j] assms(3,4) j by auto
    then show ?thesis using Some by simp
  qed
qed

lemma first_le:
  assumes "ok g" "i \<le> j" "j \<le> rows g"
  shows "first g ! i \<le> first g ! j"
  using assms(2,3)
proof (induction j)
  case (Suc j)
  then show ?case using first_mono [OF assms(1), of j] by (cases "i = Suc j") (auto intro: order.trans)
qed simp

lemma row_unique:
  assumes "ok g" "i < rows g" "j < rows g" "first g ! i \<le> k" "k < first g ! (i + 1)"
    "first g ! j \<le> k" "k < first g ! (j + 1)"
  shows "i = j"
proof (rule ccontr)
  assume "i \<noteq> j"
  then consider "i + 1 \<le> j" | "j + 1 \<le> i" by linarith
  then show False
    using first_le [OF assms(1), of "i + 1" j] first_le [OF assms(1), of "j + 1" i] assms(2-7) by cases auto
qed

end

section \<open>The set of edges\<close>

definition is_edge :: "Graph \<Rightarrow> nat \<Rightarrow> nat \<Rightarrow> bool" where
  "is_edge g s t \<longleftrightarrow> s < g_numAllocations g \<and> t < g_numAllocations g \<and> t \<in> set (edges_in (outgoing g) (GetOutgoing g s))"

lemma is_edge_rows:
  assumes "edges_ok g"
  shows "is_edge g s t \<longleftrightarrow> s < g_numAllocations g \<and> t < g_numAllocations g \<and> t \<in> set (out.row g s)"
    "is_edge g s t \<longleftrightarrow> s < g_numAllocations g \<and> t < g_numAllocations g \<and> s \<in> set (inn.row g t)"
  using assms by (auto simp: is_edge_def edges_in_GetOutgoing edges_ok_def slice_row)

text \<open>The positions of an edge among the outgoing and the incoming edges.\<close>

lemma edge_positions:
  assumes "edges_ok g" "is_edge g s t"
  shows "firstOutgoing g ! s \<le> GetOutgoingEdgeIndex g s t" "GetOutgoingEdgeIndex g s t < firstOutgoing g ! (s + 1)"
    "firstIncoming g ! t \<le> GetIncomingEdgeIndex g s t" "GetIncomingEdgeIndex g s t < firstIncoming g ! (t + 1)"
    "GetOutgoingEdgeIndex g s t < totalEdges g" "GetIncomingEdgeIndex g s t < totalEdges g"
    "outgoing g ! GetOutgoingEdgeIndex g s t = t" "incoming g ! GetIncomingEdgeIndex g s t = s"
proof -
  have b: "s < g_numAllocations g" "t < g_numAllocations g" "t \<in> set (out.row g s)" "s \<in> set (inn.row g t)"
    using assms is_edge_rows by blast+
  have len: "length (outgoing g) = totalEdges g" "length (incoming g) = totalEdges g"
    using assms(1) by (simp_all add: edges_ok_def)
  show "firstOutgoing g ! s \<le> GetOutgoingEdgeIndex g s t" "GetOutgoingEdgeIndex g s t < firstOutgoing g ! (s + 1)"
    "GetOutgoingEdgeIndex g s t < totalEdges g" "outgoing g ! GetOutgoingEdgeIndex g s t = t"
    using out.search_row [OF assms(1) b(1), of t] b len by (auto simp: GetOutgoingEdgeIndex_def split: option.splits)
  show "firstIncoming g ! t \<le> GetIncomingEdgeIndex g s t" "GetIncomingEdgeIndex g s t < firstIncoming g ! (t + 1)"
    "GetIncomingEdgeIndex g s t < totalEdges g" "incoming g ! GetIncomingEdgeIndex g s t = s"
    using inn.search_row [OF assms(1) b(2), of s] b len by (auto simp: GetIncomingEdgeIndex_def split: option.splits)
qed

lemma no_edge_positions:
  assumes "edges_ok g" "\<not> is_edge g s t"
  shows "GetOutgoingEdgeIndex g s t = totalEdges g" "GetIncomingEdgeIndex g s t = totalEdges g"
proof -
  show "GetOutgoingEdgeIndex g s t = totalEdges g"
    using out.search_row [OF assms(1), of s t] assms(2) is_edge_rows(1) [OF assms(1), of s t]
    by (auto simp: GetOutgoingEdgeIndex_def split: option.splits)
  show "GetIncomingEdgeIndex g s t = totalEdges g"
    using inn.search_row [OF assms(1), of t s] assms(2) is_edge_rows(2) [OF assms(1), of s t]
    by (auto simp: GetIncomingEdgeIndex_def split: option.splits)
qed

lemma position_edge:
  assumes "edges_ok g"
  shows "s < g_numAllocations g \<Longrightarrow> firstOutgoing g ! s \<le> k \<Longrightarrow> k < firstOutgoing g ! (s + 1) \<Longrightarrow>
      is_edge g s (GetTargetForOutgoing g k) \<and> GetOutgoingEdgeIndex g s (GetTargetForOutgoing g k) = k"
    "t < g_numAllocations g \<Longrightarrow> firstIncoming g ! t \<le> k \<Longrightarrow> k < firstIncoming g ! (t + 1) \<Longrightarrow>
      is_edge g (GetSourceForIncoming g k) t \<and> GetIncomingEdgeIndex g (GetSourceForIncoming g k) t = k"
proof -
  have len: "length (outgoing g) = totalEdges g" "length (incoming g) = totalEdges g"
    using assms by (simp_all add: edges_ok_def)
  show "is_edge g s (GetTargetForOutgoing g k) \<and> GetOutgoingEdgeIndex g s (GetTargetForOutgoing g k) = k"
    if k: "s < g_numAllocations g" "firstOutgoing g ! s \<le> k" "k < firstOutgoing g ! (s + 1)"
  proof -
    have b: "k < totalEdges g" "outgoing g ! k < g_numAllocations g"
      using out.row_position [OF assms k(1,3)] len by simp_all
    have "outgoing g ! k \<in> set (out.row g s)" unfolding out.in_row using k by blast
    then show ?thesis
      using b k out.search_position [OF assms k] is_edge_rows(1) [OF assms]
      by (simp add: GetTargetForOutgoing_def GetOutgoingEdgeIndex_def)
  qed
  show "is_edge g (GetSourceForIncoming g k) t \<and> GetIncomingEdgeIndex g (GetSourceForIncoming g k) t = k"
    if k: "t < g_numAllocations g" "firstIncoming g ! t \<le> k" "k < firstIncoming g ! (t + 1)"
  proof -
    have b: "k < totalEdges g" "incoming g ! k < g_numAllocations g"
      using inn.row_position [OF assms k(1,3)] len by simp_all
    have "incoming g ! k \<in> set (inn.row g t)" unfolding inn.in_row using k by blast
    then show ?thesis
      using b k inn.search_position [OF assms k] is_edge_rows(2) [OF assms]
      by (simp add: GetSourceForIncoming_def GetIncomingEdgeIndex_def)
  qed
qed

lemma edge_positions_inj:
  assumes "edges_ok g" "is_edge g s t" "is_edge g s' t'"
  shows "GetOutgoingEdgeIndex g s t = GetOutgoingEdgeIndex g s' t' \<Longrightarrow> s = s' \<and> t = t'"
    "GetIncomingEdgeIndex g s t = GetIncomingEdgeIndex g s' t' \<Longrightarrow> s = s' \<and> t = t'"
proof -
  have b: "s < g_numAllocations g" "s' < g_numAllocations g" "t < g_numAllocations g" "t' < g_numAllocations g"
    using assms(2,3) by (simp_all add: is_edge_def)
  note p = edge_positions [OF assms(1,2)] and p' = edge_positions [OF assms(1,3)]
  show "s = s' \<and> t = t'" if e: "GetOutgoingEdgeIndex g s t = GetOutgoingEdgeIndex g s' t'"
    using out.row_unique [OF assms(1) b(1,2) p(1,2) p'(1,2) [folded e]] p(7) p'(7) e by metis
  show "s = s' \<and> t = t'" if e: "GetIncomingEdgeIndex g s t = GetIncomingEdgeIndex g s' t'"
    using inn.row_unique [OF assms(1) b(3,4) p(3,4) p'(3,4) [folded e]] p(8) p'(8) e by metis
qed

section \<open>The predicate is a set of edges\<close>

definition ep_ok :: "Graph \<Rightarrow> EdgePredicate \<Rightarrow> bool" where
  "ep_ok g ep \<longleftrightarrow>
     ep_totalEdges ep = totalEdges g \<and> length (valueByOutgoingEdgeIndex ep) = totalEdges g \<and>
     length (valueByIncomingEdgeIndex ep) = totalEdges g \<and>
     (\<forall>s t. is_edge g s t \<longrightarrow>
        valueByOutgoingEdgeIndex ep ! GetOutgoingEdgeIndex g s t = valueByIncomingEdgeIndex ep ! GetIncomingEdgeIndex g s t)"

definition true_edges :: "Graph \<Rightarrow> EdgePredicate \<Rightarrow> (nat \<times> nat) set" where
  "true_edges g ep = {(s, t). is_edge g s t \<and> valueByIncomingEdgeIndex ep ! GetIncomingEdgeIndex g s t}"

definition all_edges :: "Graph \<Rightarrow> (nat \<times> nat) set" where
  "all_edges g = {(s, t). is_edge g s t}"

text \<open>What setting the flags of some edges does to the set.\<close>

definition set_edges :: "(nat \<times> nat) set \<Rightarrow> bool \<Rightarrow> (nat \<times> nat) set \<Rightarrow> (nat \<times> nat) set" where
  "set_edges E v S = (if v then S \<union> E else S - E)"

lemma set_edges_simps [simp]: "set_edges {} v S = S" "set_edges E v (set_edges {e} v S) = set_edges (insert e E) v S"
  by (auto simp: set_edges_def)

lemma EdgePredicate_new_outcome:
  assumes "edges_ok g"
  shows "ep_ok g (EdgePredicate_new g v)" "true_edges g (EdgePredicate_new g v) = set_edges (all_edges g) v {}"
  using edge_positions [OF assms] by (auto simp: ep_ok_def EdgePredicate_new_def true_edges_def set_edges_def all_edges_def)

lemma set_edge_values_outcome:
  assumes "edges_ok g" "ep_ok g ep" "is_edge g s t"
  shows "\<exists>ep'. set_edge_values (GetOutgoingEdgeIndex g s t) (GetIncomingEdgeIndex g s t) v ep = Some ep' \<and>
           ep_ok g ep' \<and> true_edges g ep' = set_edges {(s, t)} v (true_edges g ep)"
proof (intro exI conjI)
  let ?ep' = "ep\<lparr>valueByOutgoingEdgeIndex := (valueByOutgoingEdgeIndex ep)[GetOutgoingEdgeIndex g s t := v],
    valueByIncomingEdgeIndex := (valueByIncomingEdgeIndex ep)[GetIncomingEdgeIndex g s t := v]\<rparr>"
  note p = edge_positions(5,6) [OF assms(1,3)] and inj = edge_positions_inj [OF assms(1,3)]
  have len: "length (valueByOutgoingEdgeIndex ep) = totalEdges g" "length (valueByIncomingEdgeIndex ep) = totalEdges g"
    using assms(2) by (simp_all add: ep_ok_def)
  show "set_edge_values (GetOutgoingEdgeIndex g s t) (GetIncomingEdgeIndex g s t) v ep = Some ?ep'"
    using p len by (simp add: set_edge_values_def)
  have new: "valueByOutgoingEdgeIndex ?ep' ! GetOutgoingEdgeIndex g s' t' =
        (if s' = s \<and> t' = t then v else valueByOutgoingEdgeIndex ep ! GetOutgoingEdgeIndex g s' t')"
      "valueByIncomingEdgeIndex ?ep' ! GetIncomingEdgeIndex g s' t' =
        (if s' = s \<and> t' = t then v else valueByIncomingEdgeIndex ep ! GetIncomingEdgeIndex g s' t')"
    if "is_edge g s' t'" for s' t'
    using p len inj [OF that] by (auto simp: nth_list_update)
  then show "ep_ok g ?ep'" using assms(2) by (simp add: ep_ok_def)
  show "true_edges g ?ep' = set_edges {(s, t)} v (true_edges g ep)"
    using new(2) assms(3) by (auto simp: true_edges_def set_edges_def split: if_splits)
qed

lemma set_outgoing_loop_outcome:
  assumes "edges_ok g" "s < g_numAllocations g" "\<forall>k\<in>set ks. firstOutgoing g ! s \<le> k \<and> k < firstOutgoing g ! (s + 1)"
    "ep_ok g ep"
  shows "\<exists>ep'. set_outgoing_loop g s v ks ep = Some ep' \<and> ep_ok g ep' \<and>
           true_edges g ep' = set_edges ((\<lambda>k. (s, GetTargetForOutgoing g k)) ` set ks) v (true_edges g ep)"
  using assms(3,4)
proof (induction ks arbitrary: ep)
  case (Cons k ks)
  then have k: "is_edge g s (GetTargetForOutgoing g k)" "GetOutgoingEdgeIndex g s (GetTargetForOutgoing g k) = k"
    using position_edge(1) [OF assms(1,2), of k] by simp_all
  obtain ep1 where ep1: "set_edge_values k (GetIncomingEdgeIndex g s (GetTargetForOutgoing g k)) v ep = Some ep1"
    "ep_ok g ep1" "true_edges g ep1 = set_edges {(s, GetTargetForOutgoing g k)} v (true_edges g ep)"
    using set_edge_values_outcome [OF assms(1) Cons.prems(2) k(1), of v] k(2) by auto
  show ?case using Cons.IH [of ep1] Cons.prems(1) ep1 by simp
qed simp

lemma set_incoming_loop_outcome:
  assumes "edges_ok g" "t < g_numAllocations g" "\<forall>k\<in>set ks. firstIncoming g ! t \<le> k \<and> k < firstIncoming g ! (t + 1)"
    "ep_ok g ep"
  shows "\<exists>ep'. set_incoming_loop g t v ks ep = Some ep' \<and> ep_ok g ep' \<and>
           true_edges g ep' = set_edges ((\<lambda>k. (GetSourceForIncoming g k, t)) ` set ks) v (true_edges g ep)"
  using assms(3,4)
proof (induction ks arbitrary: ep)
  case (Cons k ks)
  then have k: "is_edge g (GetSourceForIncoming g k) t" "GetIncomingEdgeIndex g (GetSourceForIncoming g k) t = k"
    using position_edge(2) [OF assms(1,2), of k] by simp_all
  obtain ep1 where ep1: "set_edge_values (GetOutgoingEdgeIndex g (GetSourceForIncoming g k) t) k v ep = Some ep1"
    "ep_ok g ep1" "true_edges g ep1 = set_edges {(GetSourceForIncoming g k, t)} v (true_edges g ep)"
    using set_edge_values_outcome [OF assms(1) Cons.prems(2) k(1), of v] k(2) by auto
  show ?case using Cons.IH [of ep1] Cons.prems(1) ep1 by simp
qed simp

lemma SetAllOutgoing_outcome:
  assumes "edges_ok g" "ep_ok g ep"
  shows "\<exists>ep'. SetAllOutgoing g s v ep = Some ep' \<and> ep_ok g ep' \<and>
           true_edges g ep' = set_edges (all_edges g \<inter> {s} \<times> UNIV) v (true_edges g ep)"
proof (cases "s < g_numAllocations g")
  case True
  have "(s, t) \<in> (\<lambda>k. (s, GetTargetForOutgoing g k)) ` {firstOutgoing g ! s..<firstOutgoing g ! (s + 1)} \<longleftrightarrow> is_edge g s t" for t
  proof
    assume "is_edge g s t"
    note p = edge_positions [OF assms(1) this]
    show "(s, t) \<in> (\<lambda>k. (s, GetTargetForOutgoing g k)) ` {firstOutgoing g ! s..<firstOutgoing g ! (s + 1)}"
      by (rule image_eqI [of _ _ "GetOutgoingEdgeIndex g s t"]) (simp_all add: GetTargetForOutgoing_def p(5,7) p(1,2) [simplified])
  qed (use position_edge(1) [OF assms(1) True] in auto)
  then have "(\<lambda>k. (s, GetTargetForOutgoing g k)) ` {firstOutgoing g ! s..<firstOutgoing g ! (s + 1)} = all_edges g \<inter> {s} \<times> UNIV"
    unfolding all_edges_def by blast
  then show ?thesis
    using set_outgoing_loop_outcome [OF assms(1) True _ assms(2), of "[firstOutgoing g ! s..<firstOutgoing g ! (s + 1)]" v] True
    by (simp add: SetAllOutgoing_def GetOutgoing_def edge_range_def)
next
  case False
  then have "all_edges g \<inter> {s} \<times> UNIV = {}" by (auto simp: all_edges_def is_edge_def)
  then show ?thesis using False assms(2) by (simp add: SetAllOutgoing_def GetOutgoing_def edge_range_def)
qed

lemma SetAllIncoming_outcome:
  assumes "edges_ok g" "ep_ok g ep"
  shows "\<exists>ep'. SetAllIncoming g t v ep = Some ep' \<and> ep_ok g ep' \<and>
           true_edges g ep' = set_edges (all_edges g \<inter> UNIV \<times> {t}) v (true_edges g ep)"
proof (cases "t < g_numAllocations g")
  case True
  have "(s, t) \<in> (\<lambda>k. (GetSourceForIncoming g k, t)) ` {firstIncoming g ! t..<firstIncoming g ! (t + 1)} \<longleftrightarrow> is_edge g s t" for s
  proof
    assume "is_edge g s t"
    note p = edge_positions [OF assms(1) this]
    show "(s, t) \<in> (\<lambda>k. (GetSourceForIncoming g k, t)) ` {firstIncoming g ! t..<firstIncoming g ! (t + 1)}"
      by (rule image_eqI [of _ _ "GetIncomingEdgeIndex g s t"]) (simp_all add: GetSourceForIncoming_def p(6,8) p(3,4) [simplified])
  qed (use position_edge(2) [OF assms(1) True] in auto)
  then have "(\<lambda>k. (GetSourceForIncoming g k, t)) ` {firstIncoming g ! t..<firstIncoming g ! (t + 1)} = all_edges g \<inter> UNIV \<times> {t}"
    unfolding all_edges_def by blast
  then show ?thesis
    using set_incoming_loop_outcome [OF assms(1) True _ assms(2), of "[firstIncoming g ! t..<firstIncoming g ! (t + 1)]" v] True
    by (simp add: SetAllIncoming_def GetIncoming_def edge_range_def)
next
  case False
  then have "all_edges g \<inter> UNIV \<times> {t} = {}" by (auto simp: all_edges_def is_edge_def)
  then show ?thesis using False assms(2) by (simp add: SetAllIncoming_def GetIncoming_def edge_range_def)
qed

lemma ep_Set_outcome:
  assumes "edges_ok g" "ep_ok g ep"
  shows "\<exists>ep'. ep_Set g s t v ep = Some ep' \<and> ep_ok g ep' \<and>
           true_edges g ep' = set_edges (all_edges g \<inter> {(s, t)}) v (true_edges g ep)"
proof (cases "is_edge g s t")
  case True
  then have "all_edges g \<inter> {(s, t)} = {(s, t)}" by (auto simp: all_edges_def)
  moreover have "GetIncomingEdgeIndex g s t \<noteq> ep_totalEdges ep"
    using edge_positions(6) [OF assms(1) True] assms(2) by (simp add: ep_ok_def)
  ultimately show ?thesis using set_edge_values_outcome [OF assms True, of v] by (simp add: ep_Set_def)
next
  case False
  then have "all_edges g \<inter> {(s, t)} = {}" by (auto simp: all_edges_def)
  then show ?thesis using no_edge_positions [OF assms(1) False] assms(2) by (simp add: ep_Set_def ep_ok_def)
qed

lemma ep_For_outcome:
  assumes "edges_ok g" "ep_ok g ep"
  shows "ep_For g ep s t \<longleftrightarrow> (s, t) \<in> true_edges g ep"
  using edge_positions(6) [OF assms(1), of s t] no_edge_positions(2) [OF assms(1), of s t] assms(2)
  by (cases "is_edge g s t") (auto simp: ep_For_def ep_ok_def true_edges_def)

lemma ForOutgoing_outcome:
  assumes "edges_ok g" "ep_ok g ep" "s < g_numAllocations g" "firstOutgoing g ! s \<le> k" "k < firstOutgoing g ! (s + 1)"
  shows "ForOutgoing ep k \<longleftrightarrow> (s, GetTargetForOutgoing g k) \<in> true_edges g ep"
proof -
  have e: "is_edge g s (GetTargetForOutgoing g k)" "GetOutgoingEdgeIndex g s (GetTargetForOutgoing g k) = k"
    using position_edge(1) [OF assms(1,3-5)] by blast+
  have "valueByOutgoingEdgeIndex ep ! GetOutgoingEdgeIndex g s (GetTargetForOutgoing g k) =
      valueByIncomingEdgeIndex ep ! GetIncomingEdgeIndex g s (GetTargetForOutgoing g k)"
    using assms(2) e(1) unfolding ep_ok_def by blast
  then have "valueByOutgoingEdgeIndex ep ! k = valueByIncomingEdgeIndex ep ! GetIncomingEdgeIndex g s (GetTargetForOutgoing g k)"
    "k < ep_totalEdges ep"
    using assms(2) edge_positions(5) [OF assms(1) e(1)] e(2) by (auto simp: ep_ok_def)
  then show ?thesis using e(1) by (simp add: ForOutgoing_def true_edges_def)
qed

lemma ForIncoming_outcome:
  assumes "edges_ok g" "ep_ok g ep" "t < g_numAllocations g" "firstIncoming g ! t \<le> k" "k < firstIncoming g ! (t + 1)"
  shows "ForIncoming ep k \<longleftrightarrow> (GetSourceForIncoming g k, t) \<in> true_edges g ep"
proof -
  have e: "is_edge g (GetSourceForIncoming g k) t" "GetIncomingEdgeIndex g (GetSourceForIncoming g k) t = k"
    using position_edge(2) [OF assms(1,3-5)] by blast+
  then have "k < ep_totalEdges ep" using assms(2) edge_positions(6) [OF assms(1) e(1)] by (simp add: ep_ok_def)
  then show ?thesis using e by (simp add: ForIncoming_def true_edges_def)
qed

section \<open>Properties\<close>

text \<open>
  C18: An \<open>EdgePredicate\<close> is a set of edges.  On the tables of a graph no operation leaves the arrays; the
  constructor gives all edges or none, \<open>Set\<close>, \<open>SetAllOutgoing\<close> and \<open>SetAllIncoming\<close> add or remove the edge, or
  the edges of the allocation, and no other, and keep the two arrays in step, so that the query by the two ends
  and the queries by position in either direction all say whether the edge is in the set.
\<close>

theorem EdgePredicate_refines:
  assumes "edges_ok g" "ep_ok g ep"
  shows "ep_ok g (EdgePredicate_new g v) \<and> true_edges g (EdgePredicate_new g v) = (if v then all_edges g else {}) \<and>
    (\<exists>ep'. ep_Set g s t v ep = Some ep' \<and> ep_ok g ep' \<and>
       true_edges g ep' = set_edges (all_edges g \<inter> {(s, t)}) v (true_edges g ep)) \<and>
    (\<exists>ep'. SetAllOutgoing g s v ep = Some ep' \<and> ep_ok g ep' \<and>
       true_edges g ep' = set_edges (all_edges g \<inter> {s} \<times> UNIV) v (true_edges g ep)) \<and>
    (\<exists>ep'. SetAllIncoming g t v ep = Some ep' \<and> ep_ok g ep' \<and>
       true_edges g ep' = set_edges (all_edges g \<inter> UNIV \<times> {t}) v (true_edges g ep)) \<and>
    (ep_For g ep s t \<longleftrightarrow> (s, t) \<in> true_edges g ep) \<and>
    (is_edge g s t \<longrightarrow> (ForOutgoing ep (GetOutgoingEdgeIndex g s t) \<longleftrightarrow> (s, t) \<in> true_edges g ep) \<and>
       (ForIncoming ep (GetIncomingEdgeIndex g s t) \<longleftrightarrow> (s, t) \<in> true_edges g ep))"
proof -
  have "ForOutgoing ep (GetOutgoingEdgeIndex g s t) \<longleftrightarrow> (s, t) \<in> true_edges g ep"
    "ForIncoming ep (GetIncomingEdgeIndex g s t) \<longleftrightarrow> (s, t) \<in> true_edges g ep" if e: "is_edge g s t"
  proof -
    have b: "s < g_numAllocations g" "t < g_numAllocations g" using e by (simp_all add: is_edge_def)
    note p = edge_positions [OF assms(1) e]
    show "ForOutgoing ep (GetOutgoingEdgeIndex g s t) \<longleftrightarrow> (s, t) \<in> true_edges g ep"
      using ForOutgoing_outcome [OF assms b(1) p(1,2)] p(5,7) by (simp add: GetTargetForOutgoing_def)
    show "ForIncoming ep (GetIncomingEdgeIndex g s t) \<longleftrightarrow> (s, t) \<in> true_edges g ep"
      using ForIncoming_outcome [OF assms b(2) p(3,4)] p(6,8) by (simp add: GetSourceForIncoming_def)
  qed
  then show ?thesis
    using EdgePredicate_new_outcome [OF assms(1), of v] ep_Set_outcome [OF assms] SetAllOutgoing_outcome [OF assms]
      SetAllIncoming_outcome [OF assms] ep_For_outcome [OF assms]
    by (simp add: set_edges_def)
qed

theorem EdgePredicate_refines_witness:
  "\<exists>ep. ep_Set nested_graph 2 1 True (EdgePredicate_new nested_graph False) = Some ep \<and> true_edges nested_graph ep = {(2, 1)}"
proof -
  note ok = nested_graph_ok and new = EdgePredicate_new_outcome [OF nested_graph_ok, of False]
  have "g_numAllocations nested_graph = 3" "edges_in (outgoing nested_graph) (GetOutgoing nested_graph 2) = [0, 1]"
    by (simp_all add: nested_targets) (simp add: nested_graph_def Graph_init_def nested_directory_simps)
  then have e: "is_edge nested_graph 2 1" by (simp add: is_edge_def)
  obtain ep where ep: "ep_Set nested_graph 2 1 True (EdgePredicate_new nested_graph False) = Some ep"
    "true_edges nested_graph ep =
       set_edges (all_edges nested_graph \<inter> {(2, 1)}) True (true_edges nested_graph (EdgePredicate_new nested_graph False))"
    using EdgePredicate_refines [OF ok new(1), where s = 2 and t = 1 and v = True] by blast
  have "true_edges nested_graph ep = {(2, 1)}" unfolding ep(2) new(2) using e by (simp add: set_edges_def all_edges_def)
  then show ?thesis using ep(1) by blast
qed

end
