(* ===== verification/Tag_Holder.thy ===== *)
theory Tag_Holder
  imports Edge_Predicates
begin

text \<open>
  The class \<open>Allocations::TagHolder\<close> of Allocations/TagHolder.h: the tag of every allocation, by which the
  taggers say what an allocation is used for.  It refers to two sets of edges, the favored and the tainted
  ones, which it keeps in step with the tags; here they are passed and returned.  \<open>None\<close> is an abort.
\<close>

section \<open>Operations\<close>

record TagHolder =
  th_numAllocations :: nat
  tags :: "nat list"
  indexToName :: "string list"
  tagIsStrong :: "bool list"
  tagSupportsFavoredReferences :: "bool list"
  nameToTagIndices :: "string \<rightharpoonup> nat set"

type_synonym edge_sets = "EdgePredicate \<times> EdgePredicate"

definition TagHolder_new :: "nat \<Rightarrow> TagHolder" where
  "TagHolder_new numAllocations =
     \<lparr>th_numAllocations = numAllocations, tags = replicate numAllocations 0, indexToName = [''''],
      tagIsStrong = [False], tagSupportsFavoredReferences = [False], nameToTagIndices = Map.empty\<rparr>"

definition RegisterTag :: "TagHolder \<Rightarrow> string \<Rightarrow> bool \<Rightarrow> bool \<Rightarrow> (TagHolder \<times> nat) option" where
  "RegisterTag th name isStrong supportsFavored =
     (let newIndex = length (indexToName th) in
      if newIndex = 0x255 then None
      else
        let indices = (case nameToTagIndices th name of None \<Rightarrow> {} | Some indices \<Rightarrow> indices) in
        Some (th\<lparr>indexToName := indexToName th @ [name], tagIsStrong := tagIsStrong th @ [isStrong],
                 tagSupportsFavoredReferences := tagSupportsFavoredReferences th @ [supportsFavored],
                 nameToTagIndices := (nameToTagIndices th)(name \<mapsto> insert newIndex indices)\<rparr>,
              newIndex))"

text \<open>What is done with the edges of an allocation whose tag is replaced: the favored and the tainted edges.\<close>

definition clear_edges :: "Graph \<Rightarrow> TagHolder \<Rightarrow> nat \<Rightarrow> nat \<Rightarrow> edge_sets \<Rightarrow> edge_sets option" where
  "clear_edges g th allocationIndex oldTag = (\<lambda>(favored, tainted).
     if oldTag \<noteq> 0 then
       (case (if tagSupportsFavoredReferences th ! oldTag then SetAllIncoming g allocationIndex False favored
              else Some favored) of
          None \<Rightarrow> None
        | Some favored' \<Rightarrow> map_option (Pair favored') (SetAllOutgoing g allocationIndex False tainted))
     else Some (favored, tainted))"

definition TagAllocation ::
  "Graph \<Rightarrow> TagHolder \<Rightarrow> edge_sets \<Rightarrow> nat \<Rightarrow> nat \<Rightarrow> (TagHolder \<times> edge_sets \<times> bool) option" where
  "TagAllocation g th es allocationIndex tagIndex =
     (if tagIndex \<ge> length (indexToName th) then None
      else if allocationIndex \<ge> th_numAllocations th then None
      else
        let oldTag = tags th ! allocationIndex in
        if oldTag = 0 \<or> tagIsStrong th ! tagIndex \<and> \<not> tagIsStrong th ! oldTag then
          map_option (\<lambda>es'. (th\<lparr>tags := (tags th)[allocationIndex := tagIndex]\<rparr>, es', True))
            (clear_edges g th allocationIndex oldTag es)
        else Some (th, es, False))"

definition GetTagIndex :: "TagHolder \<Rightarrow> nat \<Rightarrow> nat option" where
  "GetTagIndex th i = (if i \<ge> th_numAllocations th then None else Some (tags th ! i))"

definition GetTagName :: "TagHolder \<Rightarrow> nat \<Rightarrow> string option" where
  "GetTagName th i = (if i \<ge> th_numAllocations th then None else Some (indexToName th ! (tags th ! i)))"

definition GetTagIndices :: "TagHolder \<Rightarrow> string \<Rightarrow> nat set option" where
  "GetTagIndices th name = nameToTagIndices th name"

definition GetNumTags :: "TagHolder \<Rightarrow> nat" where
  "GetNumTags th = length (indexToName th)"

definition SupportsFavoredReferences :: "TagHolder \<Rightarrow> nat \<Rightarrow> bool" where
  "SupportsFavoredReferences th i \<longleftrightarrow> i < th_numAllocations th \<and> tagSupportsFavoredReferences th ! (tags th ! i)"

definition IsStronglyTagged :: "TagHolder \<Rightarrow> nat \<Rightarrow> bool" where
  "IsStronglyTagged th i \<longleftrightarrow> i < th_numAllocations th \<and> tagIsStrong th ! (tags th ! i)"

section \<open>Invariant\<close>

text \<open>
  Every allocation has a registered tag or none, which is the weak tag 0 without a name, and the tags of a
  name are those registered under it.
\<close>

definition tags_named :: "string list \<Rightarrow> string \<Rightarrow> nat set" where
  "tags_named names name = {i. 0 < i \<and> i < length names \<and> names ! i = name}"

definition th_ok :: "TagHolder \<Rightarrow> bool" where
  "th_ok th \<longleftrightarrow>
     length (tags th) = th_numAllocations th \<and> 0 < length (indexToName th) \<and> length (indexToName th) \<le> 0x255 \<and>
     length (tagIsStrong th) = length (indexToName th) \<and>
     length (tagSupportsFavoredReferences th) = length (indexToName th) \<and>
     (\<forall>t\<in>set (tags th). t < length (indexToName th)) \<and>
     \<not> tagIsStrong th ! 0 \<and> \<not> tagSupportsFavoredReferences th ! 0 \<and>
     (\<forall>name. nameToTagIndices th name =
        (if tags_named (indexToName th) name = {} then None else Some (tags_named (indexToName th) name)))"

text \<open>No allocation without a tag that supports it has favored references.\<close>

definition favored_ok :: "Graph \<Rightarrow> TagHolder \<Rightarrow> EdgePredicate \<Rightarrow> bool" where
  "favored_ok g th favored \<longleftrightarrow> ep_ok g favored \<and> (\<forall>(s, t)\<in>true_edges g favored. SupportsFavoredReferences th t)"

lemma TagHolder_new_ok: "th_ok (TagHolder_new n)"
  by (auto simp: th_ok_def TagHolder_new_def tags_named_def)

lemma tags_named_append:
  "names \<noteq> [] \<Longrightarrow> tags_named (names @ [name]) nm =
     (if nm = name then insert (length names) (tags_named names nm) else tags_named names nm)"
  by (auto simp: tags_named_def nth_append less_Suc_eq)

lemma RegisterTag_outcome:
  assumes "th_ok th" "GetNumTags th < 0x255"
  shows "\<exists>th'. RegisterTag th name st fav = Some (th', GetNumTags th) \<and> th_ok th' \<and> GetNumTags th' = GetNumTags th + 1 \<and>
           tags th' = tags th \<and> tagIsStrong th' = tagIsStrong th @ [st] \<and>
           tagSupportsFavoredReferences th' = tagSupportsFavoredReferences th @ [fav] \<and>
           GetTagIndices th' name = Some (insert (GetNumTags th) (case GetTagIndices th name of None \<Rightarrow> {} | Some is \<Rightarrow> is)) \<and>
           (\<forall>name'. name' \<noteq> name \<longrightarrow> GetTagIndices th' name' = GetTagIndices th name')"
proof -
  let ?n = "length (indexToName th)"

  define th' where "th' = fst (the (RegisterTag th name st fav))"
  have r: "RegisterTag th name st fav = Some (th', ?n)"
    using assms(2) by (simp add: RegisterTag_def Let_def th'_def GetNumTags_def)
  have f: "indexToName th' = indexToName th @ [name]" "tags th' = tags th" "tagIsStrong th' = tagIsStrong th @ [st]"
    "tagSupportsFavoredReferences th' = tagSupportsFavoredReferences th @ [fav]"
    "th_numAllocations th' = th_numAllocations th"
    "nameToTagIndices th' = (nameToTagIndices th)(name \<mapsto> insert ?n (case nameToTagIndices th name of None \<Rightarrow> {} | Some is \<Rightarrow> is))"
    using r assms(2) by (auto simp: RegisterTag_def Let_def GetNumTags_def)
  have n: "0 < ?n" "?n < 0x255" using assms by (simp_all add: th_ok_def GetNumTags_def)
  have is': "tags_named (indexToName th') nm =
      (if nm = name then insert ?n (tags_named (indexToName th) nm) else tags_named (indexToName th) nm)" for nm
    using n by (simp add: f(1) tags_named_append)
  have "nameToTagIndices th nm = (if tags_named (indexToName th) nm = {} then None else Some (tags_named (indexToName th) nm))" for nm
    using assms(1) by (simp add: th_ok_def)
  then have named: "nameToTagIndices th' nm = (if tags_named (indexToName th') nm = {} then None else Some (tags_named (indexToName th') nm))" for nm
    by (simp add: f(6) is')
  have "th_ok th'"
    unfolding th_ok_def
  proof (intro conjI allI)
    show "\<forall>t\<in>set (tags th'). t < length (indexToName th')" using assms(1) by (auto simp: th_ok_def f(1,2) less_SucI)
  qed (use assms(1) n named in \<open>simp_all add: th_ok_def f(1-5) nth_append\<close>)
  then show ?thesis using r f by (auto simp: GetNumTags_def GetTagIndices_def)
qed

text \<open>Whether tagging an allocation replaces its tag.\<close>

definition replaces_tag :: "TagHolder \<Rightarrow> nat \<Rightarrow> nat \<Rightarrow> bool" where
  "replaces_tag th old new \<longleftrightarrow> old = 0 \<or> tagIsStrong th ! new \<and> \<not> tagIsStrong th ! old"

lemma clear_edges_outcome:
  assumes "edges_ok g" "th_ok th" "favored_ok g th favored" "ep_ok g tainted" "i < th_numAllocations th"
  shows "\<exists>favored' tainted'. clear_edges g th i (tags th ! i) (favored, tainted) = Some (favored', tainted') \<and>
           ep_ok g favored' \<and> ep_ok g tainted' \<and> true_edges g favored' = true_edges g favored - UNIV \<times> {i} \<and>
           true_edges g tainted' = true_edges g tainted - (if tags th ! i = 0 then {} else {i} \<times> UNIV)"
proof -
  have ep: "ep_ok g favored" using assms(3) by (simp add: favored_ok_def)
  have sub: "true_edges g ep \<subseteq> all_edges g" for ep by (auto simp: true_edges_def all_edges_def)
  have none: "true_edges g favored = true_edges g favored - UNIV \<times> {i}" if "\<not> tagSupportsFavoredReferences th ! (tags th ! i)"
    using assms(3) that by (auto simp: favored_ok_def SupportsFavoredReferences_def)
  have zero: "\<not> tagSupportsFavoredReferences th ! 0" using assms(2) by (simp add: th_ok_def)
  have "\<exists>favored'. (if tagSupportsFavoredReferences th ! (tags th ! i) then SetAllIncoming g i False favored else Some favored) =
      Some favored' \<and> ep_ok g favored' \<and> true_edges g favored' = true_edges g favored - UNIV \<times> {i}"
    using SetAllIncoming_outcome [OF assms(1) ep, of i False] none ep sub [of favored]
    by (auto simp: set_edges_def)
  then obtain favored' where f: "(if tagSupportsFavoredReferences th ! (tags th ! i) then SetAllIncoming g i False favored else Some favored) =
      Some favored'" "ep_ok g favored'" "true_edges g favored' = true_edges g favored - UNIV \<times> {i}" by blast
  obtain tainted' where t: "SetAllOutgoing g i False tainted = Some tainted'" "ep_ok g tainted'"
    "true_edges g tainted' = true_edges g tainted - {i} \<times> UNIV"
    using SetAllOutgoing_outcome [OF assms(1,4), of i False] sub [of tainted] by (auto simp: set_edges_def)
  show ?thesis
  proof (cases "tags th ! i = 0")
    case True
    then show ?thesis using ep assms(4) none zero by (simp add: clear_edges_def)
  next
    case False
    then show ?thesis using f t by (simp add: clear_edges_def)
  qed
qed

section \<open>Properties\<close>

text \<open>
  C19: \<open>TagAllocation\<close> gives an allocation a new tag exactly if it has none or a strong tag replaces a weak one,
  and says so; no other allocation changes its tag.  Of an allocation whose tag is replaced no outgoing edge
  stays tainted and no incoming edge stays favored, and no other edge changes; so an edge is favored only where
  the tag of its target supports that, before and after.
\<close>

theorem TagAllocation_correct:
  assumes "edges_ok g" "th_ok th" "favored_ok g th favored" "ep_ok g tainted" "i < th_numAllocations th" "tag < GetNumTags th"
  shows "\<exists>th' favored' tainted'.
      TagAllocation g th (favored, tainted) i tag = Some (th', (favored', tainted'), replaces_tag th (tags th ! i) tag) \<and>
      th_ok th' \<and> favored_ok g th' favored' \<and> ep_ok g tainted' \<and>
      (if replaces_tag th (tags th ! i) tag then
         th' = th\<lparr>tags := (tags th)[i := tag]\<rparr> \<and> true_edges g favored' = true_edges g favored - UNIV \<times> {i} \<and>
         true_edges g tainted' = true_edges g tainted - (if tags th ! i = 0 then {} else {i} \<times> UNIV)
       else (th', favored', tainted') = (th, favored, tainted))"
proof (cases "replaces_tag th (tags th ! i) tag")
  case True
  let ?th = "th\<lparr>tags := (tags th)[i := tag]\<rparr>"
  obtain favored' tainted' where c: "clear_edges g th i (tags th ! i) (favored, tainted) = Some (favored', tainted')"
    "ep_ok g favored'" "ep_ok g tainted'" "true_edges g favored' = true_edges g favored - UNIV \<times> {i}"
    "true_edges g tainted' = true_edges g tainted - (if tags th ! i = 0 then {} else {i} \<times> UNIV)"
    using clear_edges_outcome [OF assms(1-5)] by blast
  have "th_ok ?th"
    using assms(2,6) by (auto simp: th_ok_def GetNumTags_def dest!: subsetD [OF set_update_subset_insert])
  moreover have "SupportsFavoredReferences ?th t = SupportsFavoredReferences th t" if "t \<noteq> i" for t
    using that by (simp add: SupportsFavoredReferences_def)
  then have "favored_ok g ?th favored'" using assms(3) c(2,4) unfolding favored_ok_def by blast
  moreover have "TagAllocation g th (favored, tainted) i tag = Some (?th, (favored', tainted'), True)"
    using assms(5,6) True c(1) by (simp add: TagAllocation_def Let_def GetNumTags_def replaces_tag_def)
  ultimately show ?thesis using True c by auto
next
  case False
  then have "TagAllocation g th (favored, tainted) i tag = Some (th, (favored, tainted), False)"
    using assms(5,6) by (simp add: TagAllocation_def Let_def GetNumTags_def replaces_tag_def)
  then show ?thesis using False assms by auto
qed

text \<open>A weak tag that supports favored references on allocation 1, into which an edge is favored, and a strong tag.\<close>

definition example_tags :: TagHolder where
  "example_tags =
     \<lparr>th_numAllocations = 3, tags = [0, 1, 0], indexToName = ['''', ''%Weak'', ''%Strong''],
      tagIsStrong = [False, False, True], tagSupportsFavoredReferences = [False, True, False],
      nameToTagIndices = [''%Weak'' \<mapsto> {1}, ''%Strong'' \<mapsto> {2}]\<rparr>"

lemma example_tags_ok: "th_ok example_tags"
proof -
  have "tags_named ['''', ''%Weak'', ''%Strong''] name =
      (if name = ''%Weak'' then {1} else if name = ''%Strong'' then {2} else {})" for name
    by (auto simp: tags_named_def less_Suc_eq)
  then show ?thesis by (simp add: th_ok_def example_tags_def)
qed

theorem TagAllocation_correct_witness:
  "\<exists>favored th' favored' tainted'. (2, 1) \<in> true_edges nested_graph favored \<and> favored_ok nested_graph example_tags favored \<and>
     TagAllocation nested_graph example_tags (favored, EdgePredicate_new nested_graph True) 1 2 =
       Some (th', (favored', tainted'), True) \<and> true_edges nested_graph favored' = {}"
proof -
  note g = nested_graph_ok
  let ?fav = "the (ep_Set nested_graph 2 1 True (EdgePredicate_new nested_graph False))"
  have "g_numAllocations nested_graph = 3" "edges_in (outgoing nested_graph) (GetOutgoing nested_graph 2) = [0, 1]"
    by (simp_all add: nested_targets) (simp add: nested_graph_def Graph_init_def nested_directory_simps)
  then have e: "is_edge nested_graph 2 1" by (simp add: is_edge_def)
  have f: "ep_ok nested_graph ?fav" "true_edges nested_graph ?fav = {(2, 1)}"
    using ep_Set_outcome [OF g EdgePredicate_new_outcome(1) [OF g, of False], of 2 1 True]
      EdgePredicate_new_outcome(2) [OF g, of False] e
    by (auto simp: set_edges_def all_edges_def)
  have fav: "favored_ok nested_graph example_tags ?fav"
    using f by (simp add: favored_ok_def SupportsFavoredReferences_def example_tags_def)
  have "replaces_tag example_tags (tags example_tags ! 1) 2" by (simp add: replaces_tag_def example_tags_def)
  then show ?thesis
    using TagAllocation_correct [OF g example_tags_ok fav EdgePredicate_new_outcome(1) [OF g, of True], of 1 2] f fav
    by (fastforce simp: example_tags_def GetNumTags_def)
qed

end
