(* ===== verification/Alloc_Iterators.thy ===== *)
theory Alloc_Iterators
  imports Graph_Queries Tag_Holder Memory_Reads
begin

text \<open>
  The iterators of Allocations/Iterators/, by which a command asks for the allocations of a set one after the
  other: the index of the next one, or the number of allocations at the end.  All of them share a contract,
  the locale \<open>index_iterator\<close>; those that walk the edges of one allocation share one more.  An iterator is its
  next position; what it is constructed with is passed along.  \<open>None\<close> is an abort or an uncaught exception.
\<close>

section \<open>The contract\<close>

text \<open>What a caller sees that asks for the next index until it gets the number of allocations.\<close>

partial_function (option) drain :: "('s \<Rightarrow> (nat \<times> 's) option) \<Rightarrow> nat \<Rightarrow> 's \<Rightarrow> nat list option" where
  "drain nxt n s =
     (case nxt s of
        None \<Rightarrow> None
      | Some (i, s') \<Rightarrow>
          if i = n then Some []
          else Option.bind (drain nxt n s') (\<lambda>is. Some (i # is)))"

locale index_iterator =
  fixes ok :: "'s \<Rightarrow> bool" and n :: nat and nxt :: "'s \<Rightarrow> (nat \<times> 's) option" and todo :: "'s \<Rightarrow> nat list"
  assumes next_end: "ok s \<Longrightarrow> todo s = [] \<Longrightarrow> \<exists>s'. nxt s = Some (n, s') \<and> ok s' \<and> todo s' = []"
    and next_index: "ok s \<Longrightarrow> todo s = i # is \<Longrightarrow> \<exists>s'. nxt s = Some (i, s') \<and> ok s' \<and> todo s' = is"
    and todo_bound: "ok s \<Longrightarrow> n \<notin> set (todo s)"
begin

lemma drain_todo: "ok s \<Longrightarrow> drain nxt n s = Some (todo s)"
proof (induction "todo s" arbitrary: s)
  case Nil
  then show ?case using next_end [of s] by (subst drain.simps) auto
next
  case (Cons i "is")
  obtain s' where s': "nxt s = Some (i, s')" "ok s'" "todo s' = is"
    using next_index [OF Cons.prems Cons.hyps(2) [symmetric]] by blast
  have "i \<noteq> n" using todo_bound [OF Cons.prems] Cons.hyps(2) by (metis list.set_intros(1))
  then show ?case using s' Cons.hyps by (subst drain.simps) (simp add: Cons.hyps(2) [symmetric])
qed


end

section \<open>Allocations that satisfy a query\<close>

text \<open>The loop that all the classes below have in their \<open>Next\<close>, over the query that tells them apart.\<close>

partial_function (option) filter_skip :: "(nat \<Rightarrow> bool) \<Rightarrow> nat \<Rightarrow> nat \<Rightarrow> nat option" where
  "filter_skip P n i = (if i \<noteq> n \<and> \<not> P i then filter_skip P n (i + 1) else Some i)"

definition filter_next :: "(nat \<Rightarrow> bool) \<Rightarrow> nat \<Rightarrow> nat \<Rightarrow> (nat \<times> nat) option" where
  "filter_next P n i = map_option (\<lambda>next_i. (next_i, if next_i \<noteq> n then next_i + 1 else next_i)) (filter_skip P n i)"

lemma filter_skip_outcome:
  assumes "i \<le> n"
  shows "filter_skip P n i = Some (case filter P [i..<n] of [] \<Rightarrow> n | j # _ \<Rightarrow> j)"
  using assms
proof (induction "n - i" arbitrary: i)
  case (Suc k)
  then have "filter P [i..<n] = (if P i then i # filter P [Suc i..<n] else filter P [Suc i..<n])"
    by (simp add: upt_conv_Cons)
  then show ?case using Suc by (subst filter_skip.simps) simp
qed (subst filter_skip.simps, simp)

lemma filter_upt_rest: "filter P [i..<n] = j # js \<Longrightarrow> j < n \<and> filter P [Suc j..<n] = js"
proof (induction "n - i" arbitrary: i)
  case (Suc k)
  then have "filter P [i..<n] = (if P i then i # filter P [Suc i..<n] else filter P [Suc i..<n])"
    by (simp add: upt_conv_Cons)
  moreover have "k = n - Suc i" "i < n" using Suc.hyps(2) by simp_all
  ultimately show ?case using Suc.hyps(1) [of "Suc i"] Suc.prems by (cases "P i") auto
qed simp

interpretation filtered: index_iterator "\<lambda>i. i \<le> n" n "filter_next P n" "\<lambda>i. filter P [i..<n]" for P n
proof
  show "\<exists>s'. filter_next P n i = Some (n, s') \<and> s' \<le> n \<and> filter P [s'..<n] = []" if "i \<le> n" "filter P [i..<n] = []" for i
    using that filter_skip_outcome [OF that(1), of P] by (simp add: filter_next_def)
  show "\<exists>s'. filter_next P n i = Some (j, s') \<and> s' \<le> n \<and> filter P [s'..<n] = js"
    if "i \<le> n" "filter P [i..<n] = j # js" for i j js
    using that(2) filter_skip_outcome [OF that(1), of P] filter_upt_rest [OF that(2)] by (simp add: filter_next_def)
qed simp

definition it_used :: "Directory \<Rightarrow> nat \<Rightarrow> bool" where "it_used d i = al_IsUsed (allocations d ! i)"

definition Allocations_Next :: "Directory \<Rightarrow> nat \<Rightarrow> (nat \<times> nat) option" where
  "Allocations_Next d i =
     (if i \<noteq> NumAllocations d then Some (i, i + 1) else Some (i, i))"
definition Used_Next :: "Directory \<Rightarrow> nat \<Rightarrow> (nat \<times> nat) option" where
  "Used_Next d = filter_next (it_used d) (NumAllocations d)"
definition Free_Next :: "Directory \<Rightarrow> nat \<Rightarrow> (nat \<times> nat) option" where
  "Free_Next d = filter_next (\<lambda>i. \<not> it_used d i) (NumAllocations d)"
definition ThreadCached_Next :: "Directory \<Rightarrow> nat \<Rightarrow> (nat \<times> nat) option" where
  "ThreadCached_Next d = filter_next (IsThreadCached d) (NumAllocations d)"
definition Leaked_Next :: "Graph \<Rightarrow> Directory \<Rightarrow> nat \<Rightarrow> (nat \<times> nat) option" where
  "Leaked_Next g d = filter_next (IsLeaked g) (NumAllocations d)"
definition Unreferenced_Next :: "Graph \<Rightarrow> Directory \<Rightarrow> nat \<Rightarrow> (nat \<times> nat) option" where
  "Unreferenced_Next g d = filter_next (IsUnreferenced g d) (NumAllocations d)"
definition Anchored_Next :: "Graph \<Rightarrow> Directory \<Rightarrow> nat \<Rightarrow> (nat \<times> nat) option" where
  "Anchored_Next g d = filter_next (IsAnchored g d) (NumAllocations d)"
definition AnchorPoints_Next :: "Graph \<Rightarrow> Directory \<Rightarrow> nat \<Rightarrow> (nat \<times> nat) option" where
  "AnchorPoints_Next g d = filter_next (IsAnchorPoint g) (NumAllocations d)"
definition StaticAnchored_Next :: "Graph \<Rightarrow> Directory \<Rightarrow> nat \<Rightarrow> (nat \<times> nat) option" where
  "StaticAnchored_Next g d = filter_next (IsStaticAnchored g) (NumAllocations d)"
definition StaticAnchorPoints_Next :: "Graph \<Rightarrow> Directory \<Rightarrow> nat \<Rightarrow> (nat \<times> nat) option" where
  "StaticAnchorPoints_Next g d = filter_next (IsStaticAnchorPoint g) (NumAllocations d)"
definition StackAnchored_Next :: "Graph \<Rightarrow> Directory \<Rightarrow> nat \<Rightarrow> (nat \<times> nat) option" where
  "StackAnchored_Next g d = filter_next (IsStackAnchored g) (NumAllocations d)"
definition StackAnchorPoints_Next :: "Graph \<Rightarrow> Directory \<Rightarrow> nat \<Rightarrow> (nat \<times> nat) option" where
  "StackAnchorPoints_Next g d = filter_next (IsStackAnchorPoint g) (NumAllocations d)"
definition RegisterAnchored_Next :: "Graph \<Rightarrow> Directory \<Rightarrow> nat \<Rightarrow> (nat \<times> nat) option" where
  "RegisterAnchored_Next g d = filter_next (IsRegisterAnchored g) (NumAllocations d)"
definition RegisterAnchorPoints_Next :: "Graph \<Rightarrow> Directory \<Rightarrow> nat \<Rightarrow> (nat \<times> nat) option" where
  "RegisterAnchorPoints_Next g d = filter_next (IsRegisterAnchorPoint g) (NumAllocations d)"
definition ExternalAnchored_Next :: "Graph \<Rightarrow> Directory \<Rightarrow> nat \<Rightarrow> (nat \<times> nat) option" where
  "ExternalAnchored_Next g d = filter_next (IsExternalAnchored g) (NumAllocations d)"
definition ExternalAnchorPoints_Next :: "Graph \<Rightarrow> Directory \<Rightarrow> nat \<Rightarrow> (nat \<times> nat) option" where
  "ExternalAnchorPoints_Next g d = filter_next (IsExternalAnchorPoint g) (NumAllocations d)"
definition ThreadOnlyAnchored_Next :: "Graph \<Rightarrow> Directory \<Rightarrow> nat \<Rightarrow> (nat \<times> nat) option" where
  "ThreadOnlyAnchored_Next g d = filter_next (IsThreadOnlyAnchored g) (NumAllocations d)"
definition ThreadOnlyAnchorPoints_Next :: "Graph \<Rightarrow> Directory \<Rightarrow> nat \<Rightarrow> (nat \<times> nat) option" where
  "ThreadOnlyAnchorPoints_Next g d = filter_next (IsThreadOnlyAnchorPoint g) (NumAllocations d)"

text \<open>\<open>SingleAllocation\<close>: its position is whether the allocation was given out.\<close>

definition SingleAllocation_Next :: "Directory \<Rightarrow> nat \<Rightarrow> bool \<Rightarrow> (nat \<times> bool) option" where
  "SingleAllocation_Next d index visitedFirst =
     (if visitedFirst then Some (NumAllocations d, visitedFirst) else Some (index, True))"

interpretation all: index_iterator "\<lambda>i. i \<le> NumAllocations d" "NumAllocations d" "Allocations_Next d"
    "\<lambda>i. [i..<NumAllocations d]" for d
  by unfold_locales (auto simp: Allocations_Next_def upt_eq_Cons_conv)

interpretation single: index_iterator "\<lambda>_. index \<noteq> NumAllocations d" "NumAllocations d" "SingleAllocation_Next d index"
    "\<lambda>visitedFirst. if visitedFirst then [] else [index]" for d index
  by unfold_locales (auto simp: SingleAllocation_Next_def split: if_splits)

section \<open>Edges of one allocation\<close>

text \<open>
  The loop over the edges between two positions that \<open>Incoming\<close>, \<open>Outgoing\<close>, \<open>FreeOutgoing\<close> and
  \<open>ExactIncoming\<close> have in their \<open>Next\<close>.  Its body, which tells them apart, gives the index to return, or none,
  and may change a further part of the iterator.
\<close>

partial_function (option) edge_next ::
  "('c \<Rightarrow> nat \<Rightarrow> ('c \<times> nat option) option) \<Rightarrow> nat \<Rightarrow> nat \<Rightarrow> 'c \<Rightarrow> nat \<Rightarrow> (nat \<times> ('c \<times> nat)) option" where
  "edge_next body n pastEdge c nextEdge =
     (if nextEdge \<noteq> pastEdge then
       (case body c nextEdge of
          None \<Rightarrow> None
        | Some (c', found) \<Rightarrow>
            (case found of
               Some index \<Rightarrow> Some (index, (c', nextEdge + 1))
             | None \<Rightarrow> edge_next body n pastEdge c' (nextEdge + 1)))
     else Some (n, (c, nextEdge)))"

declare edge_next.simps [simp del]

definition edge_Next ::
  "('c \<Rightarrow> nat \<Rightarrow> ('c \<times> nat option) option) \<Rightarrow> nat \<Rightarrow> nat \<Rightarrow> 'c \<times> nat \<Rightarrow> (nat \<times> ('c \<times> nat)) option" where
  "edge_Next body n pastEdge s = edge_next body n pastEdge (fst s) (snd s)"

text \<open>The contract of the bodies: what they give does not depend on the part they change.\<close>

locale edge_iterator =
  fixes okc :: "'c \<Rightarrow> bool" and n :: nat and pastEdge :: nat and body :: "'c \<Rightarrow> nat \<Rightarrow> ('c \<times> nat option) option"
    and result :: "nat \<Rightarrow> nat option"
  assumes body_result: "okc c \<Longrightarrow> k < pastEdge \<Longrightarrow> \<exists>c'. body c k = Some (c', result k) \<and> okc c'"
    and result_bound: "okc c \<Longrightarrow> k < pastEdge \<Longrightarrow> result k \<noteq> Some n"
begin

definition edge_ok :: "'c \<times> nat \<Rightarrow> bool" where "edge_ok s \<longleftrightarrow> okc (fst s) \<and> snd s \<le> pastEdge"
definition edge_todo :: "'c \<times> nat \<Rightarrow> nat list" where "edge_todo s = List.map_filter result [snd s..<pastEdge]"

lemma edge_todo_step: "k < pastEdge \<Longrightarrow>
    edge_todo (c, k) = (case result k of None \<Rightarrow> edge_todo (c', k + 1) | Some i \<Rightarrow> i # edge_todo (c', k + 1))"
  by (simp add: edge_todo_def upt_conv_Cons List.map_filter_simps split: option.split)

lemma edge_todo_part: "edge_todo (c, k) = edge_todo (c', k)"
  by (simp add: edge_todo_def)

lemma edge_next_outcome:
  assumes "okc c" "k \<le> pastEdge"
  shows "\<exists>c' k'. edge_next body n pastEdge c k =
      Some (case edge_todo (c, k) of [] \<Rightarrow> n | i # _ \<Rightarrow> i, (c', k')) \<and> okc c' \<and> k' \<le> pastEdge \<and>
      edge_todo (c', k') = (case edge_todo (c, k) of [] \<Rightarrow> [] | _ # is \<Rightarrow> is)"
  using assms
proof (induction "pastEdge - k" arbitrary: c k rule: less_induct)
  case less
  show ?case
  proof (cases "k = pastEdge")
    case True
    then have "edge_todo (c, k) = []" by (simp add: edge_todo_def List.map_filter_simps)
    then show ?thesis using True less.prems by (subst edge_next.simps) simp
  next
    case False
    then have k: "k < pastEdge" using less.prems by simp
    obtain c1 where b: "body c k = Some (c1, result k)" "okc c1" using body_result [OF less.prems(1) k] by blast
    note step = edge_todo_step [OF k, of c c1]
    show ?thesis
    proof (cases "result k")
      case None
      have "pastEdge - (k + 1) < pastEdge - k" "k + 1 \<le> pastEdge" using k by simp_all
      from less.hyps [OF this(1) b(2) this(2)]
      show ?thesis using None b(1) False step by (subst edge_next.simps) simp
    next
      case (Some i)
      then have "edge_next body n pastEdge c k = Some (i, (c1, k + 1))"
        using b(1) False by (subst edge_next.simps) simp
      then show ?thesis using Some step b(2) k by auto
    qed
  qed
qed

end

sublocale edge_iterator \<subseteq> index_iterator edge_ok n "edge_Next body n pastEdge" edge_todo
proof
  show "\<exists>s'. edge_Next body n pastEdge s = Some (n, s') \<and> edge_ok s' \<and> edge_todo s' = []"
    if "edge_ok s" "edge_todo s = []" for s
    using edge_next_outcome [of "fst s" "snd s"] that by (fastforce simp: edge_ok_def edge_Next_def)
  show "\<exists>s'. edge_Next body n pastEdge s = Some (i, s') \<and> edge_ok s' \<and> edge_todo s' = is"
    if "edge_ok s" "edge_todo s = i # is" for s i "is"
    using edge_next_outcome [of "fst s" "snd s"] that by (fastforce simp: edge_ok_def edge_Next_def)
  show "n \<notin> set (edge_todo s)" if "edge_ok s" for s
    using that result_bound [of "fst s"] by (auto simp: edge_todo_def edge_ok_def List.map_filter_def)
qed

definition Incoming_body :: "Graph \<Rightarrow> Directory \<Rightarrow> edge_sets \<Rightarrow> bool \<Rightarrow> bool \<Rightarrow> unit \<Rightarrow> nat \<Rightarrow> (unit \<times> nat option) option" where
  "Incoming_body g d es skipTainted skipUnfavored c k =
     (if skipTainted \<and> ForIncoming (snd es) k then Some (c, None)
      else if skipUnfavored \<and> \<not> ForIncoming (fst es) k then Some (c, None)
      else
        let index = GetSourceForIncoming g k in
        (case AllocationAt d index of
           None \<Rightarrow> None
         | Some allocation \<Rightarrow> Some (c, if al_IsUsed allocation then Some index else None)))"

definition Incoming_new :: "Graph \<Rightarrow> nat \<Rightarrow> (unit \<times> nat) \<times> nat" where
  "Incoming_new g index = (case GetIncoming g index of (nextIncoming, pastIncoming) \<Rightarrow> (((), nextIncoming), pastIncoming))"

text \<open>Unfavored references are not skipped where the target does not support favored ones; the factory sees to that.\<close>

definition Incoming_make :: "Graph \<Rightarrow> TagHolder \<Rightarrow> nat \<Rightarrow> bool \<Rightarrow> bool" where
  "Incoming_make g th index skipUnfavored = (if \<not> SupportsFavoredReferences th index then False else skipUnfavored)"

definition Outgoing_body ::
  "Graph \<Rightarrow> Directory \<Rightarrow> TagHolder \<Rightarrow> edge_sets \<Rightarrow> bool \<Rightarrow> bool \<Rightarrow> unit \<Rightarrow> nat \<Rightarrow> (unit \<times> nat option) option" where
  "Outgoing_body g d th es skipTainted skipUnfavored c k =
     (if skipTainted \<and> ForOutgoing (snd es) k then Some (c, None)
      else
        let index = GetTargetForOutgoing g k in
        if skipUnfavored \<and> SupportsFavoredReferences th index \<and> \<not> ForOutgoing (fst es) k then Some (c, None)
        else
          (case AllocationAt d index of
             None \<Rightarrow> None
           | Some allocation \<Rightarrow> Some (c, if al_IsUsed allocation then Some index else None)))"

definition FreeOutgoing_body ::
  "Graph \<Rightarrow> Directory \<Rightarrow> edge_sets \<Rightarrow> bool \<Rightarrow> unit \<Rightarrow> nat \<Rightarrow> (unit \<times> nat option) option" where
  "FreeOutgoing_body g d es skipTainted c k =
     (if skipTainted \<and> ForOutgoing (snd es) k then Some (c, None)
      else
        let index = GetTargetForOutgoing g k in
        (case AllocationAt d index of
           None \<Rightarrow> None
         | Some allocation \<Rightarrow> Some (c, if \<not> al_IsUsed allocation then Some index else None)))"

definition Outgoing_new :: "Graph \<Rightarrow> nat \<Rightarrow> (unit \<times> nat) \<times> nat" where
  "Outgoing_new g index = (case GetOutgoing g index of (nextOutgoing, pastOutgoing) \<Rightarrow> (((), nextOutgoing), pastOutgoing))"

text \<open>\<open>ExactIncoming\<close> also looks for a word of the source that points to the start of the target.\<close>

definition ExactIncoming_body ::
  "VirtualAddressMap \<Rightarrow> Graph \<Rightarrow> Directory \<Rightarrow> edge_sets \<Rightarrow> bool \<Rightarrow> bool \<Rightarrow> addr \<Rightarrow> ContiguousImage \<Rightarrow> nat
   \<Rightarrow> (ContiguousImage \<times> nat option) option" where
  "ExactIncoming_body m g d es skipTainted skipUnfavored target ci k =
     (if skipTainted \<and> ForIncoming (snd es) k then Some (ci, None)
      else if skipUnfavored \<and> \<not> ForIncoming (fst es) k then Some (ci, None)
      else
        let index = GetSourceForIncoming g k in
        (case AllocationAt d index of
           None \<Rightarrow> None
         | Some allocation \<Rightarrow>
             if al_IsUsed allocation then
               (case SetIndex m d index ci of
                  None \<Rightarrow> None
                | Some ci' \<Rightarrow>
                    (case image_offsets m ci' of
                       Value offsets \<Rightarrow> Some (ci', if target \<in> set offsets then Some index else None)
                     | _ \<Rightarrow> None))
             else Some (ci, None)))"

definition ExactIncoming_new :: "Graph \<Rightarrow> Directory \<Rightarrow> nat \<Rightarrow> ((ContiguousImage \<times> nat) \<times> nat \<times> addr) option" where
  "ExactIncoming_new g d index =
     (case AllocationAt d index of
        None \<Rightarrow> None
      | Some allocation \<Rightarrow>
          (case GetIncoming g index of
             (nextIncoming, pastIncoming) \<Rightarrow>
               Some ((ContiguousImage_new d, nextIncoming), pastIncoming, al_Address allocation)))"

lemma map_filter_guard:
  "(\<And>k. k \<in> set ks \<Longrightarrow> r k = (if Q (f k) then Some (f k) else None)) \<Longrightarrow> List.map_filter r ks = filter Q (map f ks)"
  by (induction ks) (auto simp: List.map_filter_simps)

lemma end_bounds:
  assumes "edges_ok g" "g_numAllocations g = NumAllocations d"
  shows "k < snd (GetIncoming g t) \<Longrightarrow> GetSourceForIncoming g k < NumAllocations d"
    "k < snd (GetOutgoing g t) \<Longrightarrow> GetTargetForOutgoing g k < NumAllocations d"
proof -
  have len: "length (outgoing g) = totalEdges g" "length (incoming g) = totalEdges g"
    using assms(1) by (simp_all add: edges_ok_def)
  have b: "snd (GetIncoming g t) \<le> totalEdges g" "snd (GetOutgoing g t) \<le> totalEdges g"
    using inn.first_bound [OF assms(1), of t] out.first_bound [OF assms(1), of t] len
    by (simp_all add: GetIncoming_def GetOutgoing_def edge_range_def)
  show "GetSourceForIncoming g k < NumAllocations d" if "k < snd (GetIncoming g t)"
    using inn.entry_bound [OF assms(1), of k] that b(1) len assms(2) by (simp add: GetSourceForIncoming_def)
  show "GetTargetForOutgoing g k < NumAllocations d" if "k < snd (GetOutgoing g t)"
    using out.entry_bound [OF assms(1), of k] that b(2) len assms(2) by (simp add: GetTargetForOutgoing_def)
qed

lemma AllocationAt_used: "i < NumAllocations d \<Longrightarrow> AllocationAt d i = Some (allocations d ! i)"
  by (simp add: AllocationAt_def NumAllocations_def)

text \<open>The indices the bodies give, without the part they change.\<close>

definition Incoming_result :: "Graph \<Rightarrow> Directory \<Rightarrow> edge_sets \<Rightarrow> bool \<Rightarrow> bool \<Rightarrow> nat \<Rightarrow> nat option" where
  "Incoming_result g d es skipTainted skipUnfavored k =
     (if (skipTainted \<longrightarrow> \<not> ForIncoming (snd es) k) \<and> (skipUnfavored \<longrightarrow> ForIncoming (fst es) k) \<and>
         it_used d (GetSourceForIncoming g k)
      then Some (GetSourceForIncoming g k) else None)"

definition Outgoing_result :: "Graph \<Rightarrow> Directory \<Rightarrow> TagHolder \<Rightarrow> edge_sets \<Rightarrow> bool \<Rightarrow> bool \<Rightarrow> nat \<Rightarrow> nat option" where
  "Outgoing_result g d th es skipTainted skipUnfavored k =
     (if (skipTainted \<longrightarrow> \<not> ForOutgoing (snd es) k) \<and>
         (skipUnfavored \<and> SupportsFavoredReferences th (GetTargetForOutgoing g k) \<longrightarrow> ForOutgoing (fst es) k) \<and>
         it_used d (GetTargetForOutgoing g k)
      then Some (GetTargetForOutgoing g k) else None)"

definition FreeOutgoing_result :: "Graph \<Rightarrow> Directory \<Rightarrow> edge_sets \<Rightarrow> bool \<Rightarrow> nat \<Rightarrow> nat option" where
  "FreeOutgoing_result g d es skipTainted k =
     (if (skipTainted \<longrightarrow> \<not> ForOutgoing (snd es) k) \<and> \<not> it_used d (GetTargetForOutgoing g k)
      then Some (GetTargetForOutgoing g k) else None)"

definition ExactIncoming_result ::
  "VirtualAddressMap \<Rightarrow> Graph \<Rightarrow> Directory \<Rightarrow> edge_sets \<Rightarrow> bool \<Rightarrow> bool \<Rightarrow> addr \<Rightarrow> nat \<Rightarrow> nat option" where
  "ExactIncoming_result m g d es skipTainted skipUnfavored target k =
     (case Incoming_result g d es skipTainted skipUnfavored k of
        None \<Rightarrow> None
      | Some s \<Rightarrow> if target \<in> set (alloc_offsets m d s) then Some s else None)"

interpretation incoming: edge_iterator "\<lambda>_. edges_ok g \<and> g_numAllocations g = NumAllocations d" "NumAllocations d"
    "snd (GetIncoming g t)" "Incoming_body g d es skipTainted skipUnfavored"
    "Incoming_result g d es skipTainted skipUnfavored" for g d es skipTainted skipUnfavored t
  by unfold_locales
    (auto simp: Incoming_body_def Incoming_result_def Let_def AllocationAt_used it_used_def dest!: end_bounds(1) split: if_splits)

interpretation outgoing: edge_iterator "\<lambda>_. edges_ok g \<and> g_numAllocations g = NumAllocations d" "NumAllocations d"
    "snd (GetOutgoing g t)" "Outgoing_body g d th es skipTainted skipUnfavored"
    "Outgoing_result g d th es skipTainted skipUnfavored" for g d th es skipTainted skipUnfavored t
  by unfold_locales
    (auto simp: Outgoing_body_def Outgoing_result_def Let_def AllocationAt_used it_used_def dest!: end_bounds(2) split: if_splits)

interpretation free_outgoing: edge_iterator "\<lambda>_. edges_ok g \<and> g_numAllocations g = NumAllocations d" "NumAllocations d"
    "snd (GetOutgoing g t)" "FreeOutgoing_body g d es skipTainted"
    "FreeOutgoing_result g d es skipTainted" for g d es skipTainted t
  by unfold_locales
    (auto simp: FreeOutgoing_body_def FreeOutgoing_result_def Let_def AllocationAt_used it_used_def dest!: end_bounds(2) split: if_splits)

lemma ExactIncoming_body_outcome:
  assumes "vam_ok m" "dir_sized d" "image_ok m d ci" "edges_ok g" "g_numAllocations g = NumAllocations d" "k < snd (GetIncoming g t)"
  shows "\<exists>ci'. ExactIncoming_body m g d es skipTainted skipUnfavored target ci k =
           Some (ci', ExactIncoming_result m g d es skipTainted skipUnfavored target k) \<and> image_ok m d ci'"
proof -
  have s: "GetSourceForIncoming g k < NumAllocations d" by (rule end_bounds(1) [OF assms(4-6)])
  obtain ci' where ci': "SetIndex m d (GetSourceForIncoming g k) ci = Some ci'" "image_ok m d ci'"
    "ci_index ci' = GetSourceForIncoming g k"
    using SetIndex_outcome [OF assms(1,3,2), of "GetSourceForIncoming g k"] s by (auto simp: min_def)
  then have "image_offsets m ci' = Value (alloc_offsets m d (GetSourceForIncoming g k))"
    by (simp add: image_ok_def shows_allocation_def)
  then show ?thesis
    using ci'(1,2) assms(3)
    by (auto simp: ExactIncoming_body_def ExactIncoming_result_def Incoming_result_def Let_def AllocationAt_used [OF s] it_used_def)
qed

interpretation exact: edge_iterator
    "\<lambda>ci. vam_ok m \<and> dir_sized d \<and> image_ok m d ci \<and> edges_ok g \<and> g_numAllocations g = NumAllocations d" "NumAllocations d"
    "snd (GetIncoming g t)" "ExactIncoming_body m g d es skipTainted skipUnfavored target"
    "ExactIncoming_result m g d es skipTainted skipUnfavored target" for m g d es skipTainted skipUnfavored target t
proof
  show "\<exists>c'. ExactIncoming_body m g d es skipTainted skipUnfavored target ci k =
        Some (c', ExactIncoming_result m g d es skipTainted skipUnfavored target k) \<and>
      vam_ok m \<and> dir_sized d \<and> image_ok m d c' \<and> edges_ok g \<and> g_numAllocations g = NumAllocations d"
    if "vam_ok m \<and> dir_sized d \<and> image_ok m d ci \<and> edges_ok g \<and> g_numAllocations g = NumAllocations d"
      "k < snd (GetIncoming g t)" for ci k
    using ExactIncoming_body_outcome [of m d ci g k t] that by blast
qed (auto simp: ExactIncoming_result_def Incoming_result_def dest!: end_bounds(1) split: option.splits if_splits)

section \<open>Chains\<close>

text \<open>Iterators that go from one allocation to the next one by a link; the position is the index to return.\<close>

definition link_Next :: "(nat \<Rightarrow> nat option) \<Rightarrow> nat \<Rightarrow> nat \<Rightarrow> (nat \<times> nat) option" where
  "link_Next link n index = (if index \<noteq> n then map_option (Pair index) (link index) else Some (index, index))"

text \<open>The step of \<open>Chain\<close>: the word at an offset of the allocation.\<close>

definition Chain_link :: "VirtualAddressMap \<Rightarrow> Directory \<Rightarrow> addr \<Rightarrow> nat \<Rightarrow> nat option" where
  "Chain_link m d linkOffset index =
     (case AllocationAt d index of
        None \<Rightarrow> None
      | Some allocation \<Rightarrow>
          let bytesNeeded = linkOffset + 8 in
          if al_Size allocation \<ge> bytesNeeded then
            (case image_word m (al_Address allocation + linkOffset) of
               None \<Rightarrow> None
             | Some None \<Rightarrow> Some (NumAllocations d)
             | Some (Some w) \<Rightarrow> Some (AllocationIndexOf d w))
          else Some (NumAllocations d))"

definition Chain_Next :: "VirtualAddressMap \<Rightarrow> Directory \<Rightarrow> addr \<Rightarrow> nat \<Rightarrow> (nat \<times> nat) option" where
  "Chain_Next m d linkOffset = link_Next (Chain_link m d linkOffset) (NumAllocations d)"

text \<open>
  The step of \<open>ReverseChain\<close>: the only source with a word at an offset that points to an offset of the
  allocation.  The read raises an exception where the word is not in the core.
\<close>

fun reverse_loop ::
  "VirtualAddressMap \<Rightarrow> Directory \<Rightarrow> addr \<Rightarrow> addr \<Rightarrow> nat list \<Rightarrow> bool \<Rightarrow> nat \<Rightarrow> nat option" where
  "reverse_loop m d linkOffset pointer [] found next_i = Some next_i"
| "reverse_loop m d linkOffset pointer (index # is) found next_i =
     (case AllocationAt d index of
        None \<Rightarrow> None
      | Some src \<Rightarrow>
          if al_Size src \<ge> linkOffset + 8 then
            (case word_at m (al_Address src + linkOffset) of
               None \<Rightarrow> None
             | Some w \<Rightarrow>
                 if w = pointer then
                   (if \<not> found then reverse_loop m d linkOffset pointer is True index else Some (NumAllocations d))
                 else reverse_loop m d linkOffset pointer is found next_i)
          else reverse_loop m d linkOffset pointer is found next_i)"

definition ReverseChain_link ::
  "VirtualAddressMap \<Rightarrow> Graph \<Rightarrow> Directory \<Rightarrow> addr \<Rightarrow> addr \<Rightarrow> nat \<Rightarrow> nat option" where
  "ReverseChain_link m g d linkOffset targetOffset index =
     (case AllocationAt d index of
        None \<Rightarrow> None
      | Some target \<Rightarrow>
          if al_Size target \<ge> targetOffset
          then reverse_loop m d linkOffset (al_Address target + targetOffset)
                 (edges_in (incoming g) (GetIncoming g index)) False (NumAllocations d)
          else Some (NumAllocations d))"

definition ReverseChain_Next ::
  "VirtualAddressMap \<Rightarrow> Graph \<Rightarrow> Directory \<Rightarrow> addr \<Rightarrow> addr \<Rightarrow> nat \<Rightarrow> (nat \<times> nat) option" where
  "ReverseChain_Next m g d linkOffset targetOffset = link_Next (ReverseChain_link m g d linkOffset targetOffset) (NumAllocations d)"

text \<open>The chains that end, and the allocations on them.\<close>

inductive chain_from :: "(nat \<Rightarrow> nat option) \<Rightarrow> nat \<Rightarrow> nat \<Rightarrow> nat list \<Rightarrow> bool" for link n where
  chain_end: "chain_from link n n []"
| chain_step: "i \<noteq> n \<Longrightarrow> link i = Some j \<Longrightarrow> chain_from link n j is \<Longrightarrow> chain_from link n i (i # is)"

inductive_cases chain_from_NilE: "chain_from link n i []"
inductive_cases chain_from_ConsE: "chain_from link n i (j # js)"

lemma chain_from_unique: "chain_from link n i is \<Longrightarrow> chain_from link n i js \<Longrightarrow> is = js"
proof (induction arbitrary: js rule: chain_from.induct)
  case chain_end
  then show ?case by (cases rule: chain_from.cases) auto
next
  case (chain_step i j "is")
  from chain_step.prems show ?case
  proof (cases rule: chain_from.cases)
    case (chain_step j' js')
    then have "j' = j" using \<open>link i = Some j\<close> by simp
    then show ?thesis using chain_step chain_step.IH [of js'] by simp
  qed (use chain_step.hyps in simp)
qed

definition chain_of :: "(nat \<Rightarrow> nat option) \<Rightarrow> nat \<Rightarrow> nat \<Rightarrow> nat list" where
  "chain_of link n i = (THE is. chain_from link n i is)"

lemma chain_of_eq: "chain_from link n i is \<Longrightarrow> chain_of link n i = is"
  unfolding chain_of_def using chain_from_unique by blast

interpretation links: index_iterator "\<lambda>i. \<exists>is. chain_from link n i is" n "link_Next link n" "chain_of link n" for link n
proof
  show "\<exists>s'. link_Next link n i = Some (n, s') \<and> (\<exists>is. chain_from link n s' is) \<and> chain_of link n s' = []"
    if "\<exists>is. chain_from link n i is" "chain_of link n i = []" for i
  proof -
    have "chain_from link n i []" using that chain_of_eq by metis
    then have "i = n" by (auto elim: chain_from_NilE)
    then show ?thesis using that by (auto simp: link_Next_def)
  qed
  show "\<exists>s'. link_Next link n i = Some (j, s') \<and> (\<exists>is. chain_from link n s' is) \<and> chain_of link n s' = js"
    if "\<exists>is. chain_from link n i is" "chain_of link n i = j # js" for i j js
  proof -
    have "chain_from link n i (j # js)" using that chain_of_eq by metis
    then obtain s' where "i = j" "i \<noteq> n" "link i = Some s'" "chain_from link n s' js" by (auto elim: chain_from_ConsE)
    then show ?thesis using chain_of_eq by (auto simp: link_Next_def)
  qed
  show "n \<notin> set (chain_of link n i)" if "\<exists>is. chain_from link n i is" for i
  proof -
    have "chain_from link n i js \<Longrightarrow> n \<notin> set js" for js by (induction rule: chain_from.induct) auto
    then show ?thesis using that chain_of_eq [of link n i] by force
  qed
qed

lemma drain_links_raw:
  assumes "drain nxt n i = Some is"
  shows "nxt = link_Next link n \<Longrightarrow> chain_from link n i is"
proof (induction rule: drain.raw_induct [OF _ assms])
  case (1 dr nxt n i "is")
  then show ?case
    by (auto simp: link_Next_def split: if_splits option.splits Option.bind_splits intro: chain_from.intros)
qed

lemmas drain_links_Some = drain_links_raw [OF _ refl]


section \<open>Properties\<close>

text \<open>
  The iterators over the allocations of a set give exactly the allocations that the query of their name
  accepts, each one once and in the order of the addresses, and then the number of allocations; none skips the
  allocation at its start and none runs past the last one.
\<close>

theorem iterators_enumerate:
  "drain (Allocations_Next d) (NumAllocations d) 0 = Some [0..<NumAllocations d] \<and>
   drain (Used_Next d) (NumAllocations d) 0 = Some (filter (it_used d) [0..<NumAllocations d]) \<and>
   drain (Free_Next d) (NumAllocations d) 0 = Some (filter (\<lambda>i. \<not> it_used d i) [0..<NumAllocations d]) \<and>
   drain (ThreadCached_Next d) (NumAllocations d) 0 = Some (filter (IsThreadCached d) [0..<NumAllocations d]) \<and>
   drain (Leaked_Next g d) (NumAllocations d) 0 = Some (filter (IsLeaked g) [0..<NumAllocations d]) \<and>
   drain (Unreferenced_Next g d) (NumAllocations d) 0 = Some (filter (IsUnreferenced g d) [0..<NumAllocations d]) \<and>
   drain (Anchored_Next g d) (NumAllocations d) 0 = Some (filter (IsAnchored g d) [0..<NumAllocations d]) \<and>
   drain (AnchorPoints_Next g d) (NumAllocations d) 0 = Some (filter (IsAnchorPoint g) [0..<NumAllocations d]) \<and>
   drain (StaticAnchored_Next g d) (NumAllocations d) 0 = Some (filter (IsStaticAnchored g) [0..<NumAllocations d]) \<and>
   drain (StaticAnchorPoints_Next g d) (NumAllocations d) 0 = Some (filter (IsStaticAnchorPoint g) [0..<NumAllocations d]) \<and>
   drain (StackAnchored_Next g d) (NumAllocations d) 0 = Some (filter (IsStackAnchored g) [0..<NumAllocations d]) \<and>
   drain (StackAnchorPoints_Next g d) (NumAllocations d) 0 = Some (filter (IsStackAnchorPoint g) [0..<NumAllocations d]) \<and>
   drain (RegisterAnchored_Next g d) (NumAllocations d) 0 = Some (filter (IsRegisterAnchored g) [0..<NumAllocations d]) \<and>
   drain (RegisterAnchorPoints_Next g d) (NumAllocations d) 0 =
     Some (filter (IsRegisterAnchorPoint g) [0..<NumAllocations d]) \<and>
   drain (ExternalAnchored_Next g d) (NumAllocations d) 0 = Some (filter (IsExternalAnchored g) [0..<NumAllocations d]) \<and>
   drain (ExternalAnchorPoints_Next g d) (NumAllocations d) 0 =
     Some (filter (IsExternalAnchorPoint g) [0..<NumAllocations d]) \<and>
   drain (ThreadOnlyAnchored_Next g d) (NumAllocations d) 0 = Some (filter (IsThreadOnlyAnchored g) [0..<NumAllocations d]) \<and>
   drain (ThreadOnlyAnchorPoints_Next g d) (NumAllocations d) 0 =
     Some (filter (IsThreadOnlyAnchorPoint g) [0..<NumAllocations d])"
  unfolding Used_Next_def Free_Next_def ThreadCached_Next_def Leaked_Next_def Unreferenced_Next_def Anchored_Next_def
    AnchorPoints_Next_def StaticAnchored_Next_def StaticAnchorPoints_Next_def StackAnchored_Next_def
    StackAnchorPoints_Next_def RegisterAnchored_Next_def RegisterAnchorPoints_Next_def ExternalAnchored_Next_def
    ExternalAnchorPoints_Next_def ThreadOnlyAnchored_Next_def ThreadOnlyAnchorPoints_Next_def
  by (intro conjI filtered.drain_todo all.drain_todo le0)

text \<open>The sources of the references of an allocation, and its targets, by the iterators' choice of edges.\<close>

lemma incoming_results:
  assumes "edges_ok g" "ep_ok g favored" "ep_ok g tainted" "t < g_numAllocations g"
  shows "List.map_filter (Incoming_result g d (favored, tainted) skT skU) [fst (GetIncoming g t)..<snd (GetIncoming g t)] =
    filter (\<lambda>s. (skT \<longrightarrow> (s, t) \<notin> true_edges g tainted) \<and> (skU \<longrightarrow> (s, t) \<in> true_edges g favored) \<and> it_used d s)
      (edges_in (incoming g) (GetIncoming g t))"
proof -
  have len: "length (incoming g) = totalEdges g" using assms(1) by (simp add: edges_ok_def)
  have b: "snd (GetIncoming g t) \<le> totalEdges g"
    using inn.first_bound [OF assms(1), of t] len by (simp add: GetIncoming_def edge_range_def)
  then have "edges_in (incoming g) (GetIncoming g t) = map (GetSourceForIncoming g) [fst (GetIncoming g t)..<snd (GetIncoming g t)]"
    by (simp add: edges_in_def GetSourceForIncoming_def)
  then show ?thesis
    using ForIncoming_outcome [OF assms(1,2,4)] ForIncoming_outcome [OF assms(1,3,4)] assms(4)
    by (auto intro!: map_filter_guard simp: Incoming_result_def GetIncoming_def edge_range_def)
qed

lemma outgoing_results:
  assumes "edges_ok g" "ep_ok g favored" "ep_ok g tainted" "s < g_numAllocations g"
  shows "List.map_filter (Outgoing_result g d th (favored, tainted) skT skU) [fst (GetOutgoing g s)..<snd (GetOutgoing g s)] =
      filter (\<lambda>t. (skT \<longrightarrow> (s, t) \<notin> true_edges g tainted) \<and>
          (skU \<and> SupportsFavoredReferences th t \<longrightarrow> (s, t) \<in> true_edges g favored) \<and> it_used d t)
        (edges_in (outgoing g) (GetOutgoing g s))"
    "List.map_filter (FreeOutgoing_result g d (favored, tainted) skT) [fst (GetOutgoing g s)..<snd (GetOutgoing g s)] =
      filter (\<lambda>t. (skT \<longrightarrow> (s, t) \<notin> true_edges g tainted) \<and> \<not> it_used d t) (edges_in (outgoing g) (GetOutgoing g s))"
proof -
  have len: "length (outgoing g) = totalEdges g" using assms(1) by (simp add: edges_ok_def)
  have b: "snd (GetOutgoing g s) \<le> totalEdges g"
    using out.first_bound [OF assms(1), of s] len by (simp add: GetOutgoing_def edge_range_def)
  then have e: "edges_in (outgoing g) (GetOutgoing g s) = map (GetTargetForOutgoing g) [fst (GetOutgoing g s)..<snd (GetOutgoing g s)]"
    by (simp add: edges_in_def GetTargetForOutgoing_def)
  note F = ForOutgoing_outcome [OF assms(1,2,4)] ForOutgoing_outcome [OF assms(1,3,4)]
  show "List.map_filter (Outgoing_result g d th (favored, tainted) skT skU) [fst (GetOutgoing g s)..<snd (GetOutgoing g s)] =
      filter (\<lambda>t. (skT \<longrightarrow> (s, t) \<notin> true_edges g tainted) \<and>
          (skU \<and> SupportsFavoredReferences th t \<longrightarrow> (s, t) \<in> true_edges g favored) \<and> it_used d t)
        (edges_in (outgoing g) (GetOutgoing g s))"
    unfolding e using F assms(4)
    by (auto intro!: map_filter_guard simp: Outgoing_result_def GetOutgoing_def edge_range_def)
  show "List.map_filter (FreeOutgoing_result g d (favored, tainted) skT) [fst (GetOutgoing g s)..<snd (GetOutgoing g s)] =
      filter (\<lambda>t. (skT \<longrightarrow> (s, t) \<notin> true_edges g tainted) \<and> \<not> it_used d t) (edges_in (outgoing g) (GetOutgoing g s))"
    unfolding e using F(2) assms(4)
    by (auto intro!: map_filter_guard simp: FreeOutgoing_result_def GetOutgoing_def edge_range_def)
qed

lemma exact_results:
  "List.map_filter (ExactIncoming_result m g d es skT skU a) ks =
   filter (\<lambda>s. a \<in> set (alloc_offsets m d s)) (List.map_filter (Incoming_result g d es skT skU) ks)"
  by (induction ks) (auto simp: List.map_filter_simps ExactIncoming_result_def split: option.splits)


text \<open>
  The iterators over the references of an allocation give exactly its sources, or its targets, that are used
  (free for \<open>FreeOutgoing\<close>) and whose edge passes the options: not tainted if tainted references are skipped,
  favored if unfavored ones are (for \<open>Outgoing\<close> only where the target's tag supports favored references), and for
  \<open>ExactIncoming\<close> only those with a word that points to the start of the target; in the order of the edges, with
  no access outside the tables.
\<close>

theorem reference_iterators_correct:
  assumes "edges_ok g" "g_numAllocations g = NumAllocations d" "ep_ok g favored" "ep_ok g tainted"
    "vam_ok m" "dir_sized d" "unat (MaxAllocationSize d) + 16 < 2 ^ 64" "i < NumAllocations d"
  shows
    "drain (edge_Next (Incoming_body g d (favored, tainted) skT skU) (NumAllocations d) (snd (Incoming_new g i)))
        (NumAllocations d) (fst (Incoming_new g i)) =
      Some (filter (\<lambda>s. (skT \<longrightarrow> (s, i) \<notin> true_edges g tainted) \<and> (skU \<longrightarrow> (s, i) \<in> true_edges g favored) \<and> it_used d s)
        (edges_in (incoming g) (GetIncoming g i))) \<and>
     drain (edge_Next (Outgoing_body g d th (favored, tainted) skT skU) (NumAllocations d) (snd (Outgoing_new g i)))
        (NumAllocations d) (fst (Outgoing_new g i)) =
      Some (filter (\<lambda>t. (skT \<longrightarrow> (i, t) \<notin> true_edges g tainted) \<and>
          (skU \<and> SupportsFavoredReferences th t \<longrightarrow> (i, t) \<in> true_edges g favored) \<and> it_used d t)
        (edges_in (outgoing g) (GetOutgoing g i))) \<and>
     drain (edge_Next (FreeOutgoing_body g d (favored, tainted) skT) (NumAllocations d) (snd (Outgoing_new g i)))
        (NumAllocations d) (fst (Outgoing_new g i)) =
      Some (filter (\<lambda>t. (skT \<longrightarrow> (i, t) \<notin> true_edges g tainted) \<and> \<not> it_used d t)
        (edges_in (outgoing g) (GetOutgoing g i))) \<and>
     (\<exists>start past target. ExactIncoming_new g d i = Some (start, past, target) \<and>
        drain (edge_Next (ExactIncoming_body m g d (favored, tainted) skT skU target) (NumAllocations d) past)
          (NumAllocations d) start =
        Some (filter (\<lambda>s. (skT \<longrightarrow> (s, i) \<notin> true_edges g tainted) \<and> (skU \<longrightarrow> (s, i) \<in> true_edges g favored) \<and>
            it_used d s \<and> al_Address (allocations d ! i) \<in> set (alloc_offsets m d s))
          (edges_in (incoming g) (GetIncoming g i))))"
proof -
  have i: "i < g_numAllocations g" using assms(2,8) by simp
  have le: "fst (GetIncoming g i) \<le> snd (GetIncoming g i)" "fst (GetOutgoing g i) \<le> snd (GetOutgoing g i)"
    using i inn.first_mono [OF assms(1), of i] out.first_mono [OF assms(1), of i]
    by (simp_all add: GetIncoming_def GetOutgoing_def edge_range_def)
  have new: "Incoming_new g i = (((), fst (GetIncoming g i)), snd (GetIncoming g i))"
    "Outgoing_new g i = (((), fst (GetOutgoing g i)), snd (GetOutgoing g i))"
    by (simp_all add: Incoming_new_def Outgoing_new_def split: prod.split)
  note ci = image_ok_new [OF assms(7), of m]
  have exact: "ExactIncoming_new g d i =
      Some ((ContiguousImage_new d, fst (GetIncoming g i)), snd (GetIncoming g i), al_Address (allocations d ! i))"
    using assms(8) by (simp add: ExactIncoming_new_def AllocationAt_used split: prod.split)
  show ?thesis
    using assms le new ci exact
      incoming.drain_todo [where g = g and d = d and t = i and s = "((), fst (GetIncoming g i))"
        and es = "(favored, tainted)" and skipTainted = skT and skipUnfavored = skU, unfolded incoming.edge_ok_def incoming.edge_todo_def fst_conv snd_conv]
      outgoing.drain_todo [where g = g and d = d and t = i and s = "((), fst (GetOutgoing g i))" and th = th
        and es = "(favored, tainted)" and skipTainted = skT and skipUnfavored = skU, unfolded outgoing.edge_ok_def outgoing.edge_todo_def fst_conv snd_conv]
      free_outgoing.drain_todo [where g = g and d = d and t = i and s = "((), fst (GetOutgoing g i))"
        and es = "(favored, tainted)" and skipTainted = skT, unfolded free_outgoing.edge_ok_def free_outgoing.edge_todo_def fst_conv snd_conv]
      exact.drain_todo [where m = m and g = g and d = d and t = i and s = "(ContiguousImage_new d, fst (GetIncoming g i))"
        and es = "(favored, tainted)" and skipTainted = skT and skipUnfavored = skU and target = "al_Address (allocations d ! i)", unfolded exact.edge_ok_def exact.edge_todo_def fst_conv snd_conv]
      incoming_results [OF assms(1,3,4) i] outgoing_results [OF assms(1,3,4) i]
    by (simp add: exact_results conj_assoc)
qed

theorem reference_iterators_correct_witness:
  "drain (edge_Next (Outgoing_body nested_graph nested_directory (TagHolder_new 3)
        (EdgePredicate_new nested_graph False, EdgePredicate_new nested_graph False) True True) 3
      (snd (Outgoing_new nested_graph 2))) 3 (fst (Outgoing_new nested_graph 2)) = Some [0]"
proof -
  note g = nested_graph_ok and new = EdgePredicate_new_outcome [OF nested_graph_ok, of False]
  have n: "g_numAllocations nested_graph = NumAllocations nested_directory" "NumAllocations nested_directory = 3"
    by (simp_all add: nested_graph_def Graph_init_def nested_directory_simps)
  have d: "dir_sized nested_directory" "unat (MaxAllocationSize nested_directory) + 16 < 2 ^ 64"
    "it_used nested_directory 0" "\<not> it_used nested_directory 1"
    by (simp_all add: dir_sized_def it_used_def MaxAllocationSize_def nested_directory_def example_directory_def
        consume_allocation_def push_allocation_def Directory_new_def NumAllocations_def Allocation_new_def al_Address_def
        al_Size_def al_MarkAsWrapper_def al_IsUsed_def al_IsWrapper_def al_constants mask_eq_exp_minus_1 Let_def)
  have "edges_in (outgoing nested_graph) (GetOutgoing nested_graph 2) = [0, 1]" by (simp add: nested_targets)
  moreover have "\<not> SupportsFavoredReferences (TagHolder_new 3) 0" "\<not> SupportsFavoredReferences (TagHolder_new 3) 1"
    by (simp_all add: SupportsFavoredReferences_def TagHolder_new_def)
  ultimately show ?thesis
    using reference_iterators_correct [OF g n(1) new(1) new(1) example_map_ok d(1,2), of 2 True True "TagHolder_new 3"] n(2) d(3,4) new(2)
    by (simp add: set_edges_def)
qed


text \<open>The step of the reverse chain: the only source whose word at the offset is the pointer.\<close>

definition links_to :: "VirtualAddressMap \<Rightarrow> Directory \<Rightarrow> addr \<Rightarrow> addr \<Rightarrow> nat \<Rightarrow> bool" where
  "links_to m d linkOffset pointer s \<longleftrightarrow>
     linkOffset + 8 \<le> al_Size (allocations d ! s) \<and> word_at m (al_Address (allocations d ! s) + linkOffset) = Some pointer"

definition readable_links :: "VirtualAddressMap \<Rightarrow> Directory \<Rightarrow> addr \<Rightarrow> nat list \<Rightarrow> bool" where
  "readable_links m d linkOffset is \<longleftrightarrow>
     (\<forall>s\<in>set is. s < NumAllocations d \<and>
        (linkOffset + 8 \<le> al_Size (allocations d ! s) \<longrightarrow> word_at m (al_Address (allocations d ! s) + linkOffset) \<noteq> None))"

lemma reverse_loop_outcome:
  assumes "readable_links m d linkOffset is"
  shows "reverse_loop m d linkOffset pointer is found next_i =
    Some (case filter (links_to m d linkOffset pointer) is of
            [] \<Rightarrow> next_i
          | [s] \<Rightarrow> if found then NumAllocations d else s
          | _ \<Rightarrow> NumAllocations d)"
  using assms
  by (induction "is" arbitrary: found next_i)
    (auto simp: readable_links_def AllocationAt_used links_to_def split: list.split option.split)

lemma edges_in_bound:
  assumes "edges_ok g" "g_numAllocations g = NumAllocations d" "s \<in> set (edges_in (incoming g) (GetIncoming g i))"
  shows "s < NumAllocations d"
proof -
  obtain k where k: "s = incoming g ! k" "k < snd (GetIncoming g i)"
    using assms(3) by (auto simp: edges_in_def)
  have len: "length (incoming g) = totalEdges g" using assms(1) by (simp add: edges_ok_def)
  have "snd (GetIncoming g i) \<le> totalEdges g"
    using inn.first_bound [OF assms(1), of i] len by (simp add: GetIncoming_def edge_range_def)
  then show ?thesis using end_bounds(1) [OF assms(1,2) k(2)] k by (simp add: GetSourceForIncoming_def)
qed

text \<open>An iterator that follows a link gives the allocations on a chain that ends, and never ends on any other.\<close>

lemma drain_links: "drain (link_Next link n) n i = Some is \<longleftrightarrow> chain_from link n i is"
proof
  assume c: "chain_from link n i is"
  then have "drain (link_Next link n) n i = Some (chain_of link n i)" by (intro links.drain_todo) blast
  then show "drain (link_Next link n) n i = Some is" using chain_of_eq [OF c] by simp
qed (rule drain_links_Some)

lemma no_chain_on_cycle:
  assumes "chain_from link n i is" "i \<in> S" "n \<notin> S" "\<forall>j\<in>S. \<exists>k\<in>S. link j = Some k"
  shows False
  using assms by (induction rule: chain_from.induct) fastforce+

text \<open>
  C20: \<open>Chain\<close> and \<open>ReverseChain\<close> follow a link from allocation to allocation and give those on the way.  From an
  allocation that has room for the link the chain goes to the allocation of the word at the link's offset, if that
  word is in the core; the reverse chain goes to the only source of a reference with the link set to the given
  offset of the allocation, provided that all the sources can be read.  In all other cases the chain ends there.
  An iteration ends exactly on the chains that do; one that comes back to an allocation never ends.
\<close>

theorem chains_correct:
  assumes "vam_ok m" "edges_ok g" "g_numAllocations g = NumAllocations d" "i < NumAllocations d"
    "readable_links m d linkOffset (edges_in (incoming g) (GetIncoming g i))"
  shows
    "Chain_link m d linkOffset i =
       Some (if linkOffset + 8 \<le> al_Size (allocations d ! i) then
               (case word_at m (al_Address (allocations d ! i) + linkOffset) of
                  None \<Rightarrow> NumAllocations d | Some w \<Rightarrow> AllocationIndexOf d w)
             else NumAllocations d) \<and>
     ReverseChain_link m g d linkOffset targetOffset i =
       Some (if targetOffset \<le> al_Size (allocations d ! i) then
               (case filter (links_to m d linkOffset (al_Address (allocations d ! i) + targetOffset))
                       (edges_in (incoming g) (GetIncoming g i)) of
                  [s] \<Rightarrow> s | _ \<Rightarrow> NumAllocations d)
             else NumAllocations d) \<and>
     (\<forall>is. drain (Chain_Next m d linkOffset) (NumAllocations d) i = Some is \<longleftrightarrow>
        chain_from (Chain_link m d linkOffset) (NumAllocations d) i is) \<and>
     (\<forall>is. drain (ReverseChain_Next m g d linkOffset targetOffset) (NumAllocations d) i = Some is \<longleftrightarrow>
        chain_from (ReverseChain_link m g d linkOffset targetOffset) (NumAllocations d) i is) \<and>
     (\<forall>S. i \<in> S \<and> NumAllocations d \<notin> S \<and> (\<forall>j\<in>S. \<exists>k\<in>S. Chain_link m d linkOffset j = Some k) \<longrightarrow>
        drain (Chain_Next m d linkOffset) (NumAllocations d) i = None)"
proof (intro conjI allI impI)
  show "drain (Chain_Next m d linkOffset) (NumAllocations d) i = None"
    if S: "i \<in> S \<and> NumAllocations d \<notin> S \<and> (\<forall>j\<in>S. \<exists>k\<in>S. Chain_link m d linkOffset j = Some k)" for S
  proof (cases "drain (Chain_Next m d linkOffset) (NumAllocations d) i")
    case (Some "is")
    then have "chain_from (Chain_link m d linkOffset) (NumAllocations d) i is" by (simp add: Chain_Next_def drain_links)
    from no_chain_on_cycle [OF this] show ?thesis using S by blast
  qed
  show "ReverseChain_link m g d linkOffset targetOffset i =
      Some (if targetOffset \<le> al_Size (allocations d ! i) then
              (case filter (links_to m d linkOffset (al_Address (allocations d ! i) + targetOffset))
                      (edges_in (incoming g) (GetIncoming g i)) of
                 [s] \<Rightarrow> s | _ \<Rightarrow> NumAllocations d)
            else NumAllocations d)"
    using reverse_loop_outcome [OF assms(5)] assms(4)
    by (simp add: ReverseChain_link_def AllocationAt_used split: list.split)
qed (use assms(1,4) in \<open>simp_all add: Chain_link_def AllocationAt_used image_word_at Chain_Next_def ReverseChain_Next_def
      drain_links Let_def split: option.split\<close>)


text \<open>Two allocations: the second word of the first points to the second, that of the second is the parameter.\<close>

definition link_map :: "8 word \<Rightarrow> VirtualAddressMap" where
  "link_map b = AddRange (VirtualAddressMap_new
     [0, 0, 0, 0, 0, 0, 0, 0, 0x10, 0x10, 0, 0, 0, 0, 0, 0, 0, 0, 0, 0, 0, 0, 0, 0, 0, b, 0, 0, 0, 0, 0, 0])
     0x1000 32 (0 - 0x1000) True True True False False"

definition link_directory :: Directory where
  "link_directory = Directory_new\<lparr>allocations :=
     [Allocation_new 0x1000 0x10 True 0 False, Allocation_new 0x1010 0x10 True 0 False]\<rparr>"

definition link_graph :: Graph where
  "link_graph = (Graph_init link_directory)
     \<lparr>totalEdges := 2, outgoing := [1, 0], incoming := [1, 0], firstOutgoing := [0, 1, 2], firstIncoming := [0, 1, 2]\<rparr>"

lemma link_map_entries:
  "rm_map (ranges (link_map b)) = [(0x1020, 32, \<lparr>adjustToFileOffset = 0 - 0x1000, flags = 0x19\<rparr>)]"
  "fileImage (link_map b) =
     [0, 0, 0, 0, 0, 0, 0, 0, 0x10, 0x10, 0, 0, 0, 0, 0, 0, 0, 0, 0, 0, 0, 0, 0, 0, 0, b, 0, 0, 0, 0, 0, 0]"
  by (simp_all add: link_map_def AddRange_def VirtualAddressMap_new_def AddRange_flags_def flag_defs
      MapRange_def RangeMapper_new_def sm_lower_bound_def rm_emplace_result_def sm_emplace_def
      rm_next_def sm_upper_bound_def sm_find_def)

lemma link_map_ok: "vam_ok (link_map b)"
  unfolding link_map_def
  by (rule AddRange_ok [OF vam_ok_new]) (simp_all add: addable_def VirtualAddressMap_new_def rs.lookup_new)

lemma link_words: "word_at (link_map b) 0x1008 = Some 0x1010" "word_at (link_map 0x10) 0x1018 = Some 0x1000"
    "word_at (link_map 0) 0x1018 = Some 0"
  by (simp_all add: word_at_def read_spec_def vam_find_def rm_find_def sm_upper_bound_def link_map_entries
      has_image_def flag_defs)

lemma link_directory_simps:
  "NumAllocations link_directory = 2" "al_Address (allocations link_directory ! 0) = 0x1000"
  "al_Size (allocations link_directory ! 0) = 0x10" "al_Address (allocations link_directory ! Suc 0) = 0x1010"
  "al_Size (allocations link_directory ! Suc 0) = 0x10"
  "AllocationIndexOf link_directory 0x1010 = 1" "AllocationIndexOf link_directory 0x1000 = 0"
  "AllocationIndexOf link_directory 0 = 2"
proof -
  have "0x10 \<le> SIZE_MASK" "0 < MAX_FINDERS" by (simp_all add: al_constants mask_eq_exp_minus_1)
  note a = Allocation_new_fields [OF this]
  show "NumAllocations link_directory = 2" "al_Address (allocations link_directory ! 0) = 0x1000"
    "al_Size (allocations link_directory ! 0) = 0x10" "al_Address (allocations link_directory ! Suc 0) = 0x1010"
    "al_Size (allocations link_directory ! Suc 0) = 0x10"
    by (simp_all add: link_directory_def NumAllocations_def a)
  show "AllocationIndexOf link_directory 0x1010 = 1" "AllocationIndexOf link_directory 0x1000 = 0"
    "AllocationIndexOf link_directory 0 = 2"
    by (simp_all add: AllocationIndexOf_def link_directory_def Directory_new_def index_search.simps Let_def a)
qed

lemma link_graph_ok: "edges_ok link_graph" "g_numAllocations link_graph = NumAllocations link_directory"
  "edges_in (incoming link_graph) (GetIncoming link_graph 0) = [1]"
proof -
  have f: "g_numAllocations link_graph = 2" "totalEdges link_graph = 2" "outgoing link_graph = [1, 0]"
    "firstOutgoing link_graph = [0, 1, 2]" "incoming link_graph = [1, 0]" "firstIncoming link_graph = [0, 1, 2]"
    by (simp_all add: link_graph_def Graph_init_def link_directory_simps)
  have two: "(\<forall>i<2. P i) \<longleftrightarrow> P 0 \<and> P (1::nat)" for P
    by (auto simp: numeral_2_eq_2 All_less_Suc)
  have inc: "increasing arr b l" if "l \<le> b + 1" for arr b l using that by (auto simp: increasing_def)
  have "table_ok 2 [0, 1, 2] [1, 0]" unfolding table_ok_def two using inc by (simp_all add: numeral_2_eq_2 All_less_Suc)
  moreover have "slice [0, 1, 2] [1, 0] 0 = [1]" "slice [0, 1, 2] [1, 0] 1 = [0]" by (simp_all add: slice_def upt_rec)
  ultimately show "edges_ok link_graph" unfolding edges_ok_def f two by simp
  show "g_numAllocations link_graph = NumAllocations link_directory" using f by (simp add: link_directory_simps)
  show "edges_in (incoming link_graph) (GetIncoming link_graph 0) = [1]"
    by (simp add: edges_in_def GetIncoming_def edge_range_def f upt_rec)
qed

theorem chains_correct_witness:
  "drain (Chain_Next (link_map 0) link_directory 8) 2 0 = Some [0, 1] \<and>
   drain (Chain_Next (link_map 0x10) link_directory 8) 2 0 = None"
proof -
  note d = link_directory_simps
  have link: "Chain_link (link_map b) link_directory 8 i =
      Some (case word_at (link_map b) (al_Address (allocations link_directory ! i) + 8) of
              None \<Rightarrow> 2 | Some w \<Rightarrow> AllocationIndexOf link_directory w)" if "i < 2" for b i
    using that by (cases i) (auto simp: Chain_link_def AllocationAt_used d image_word_at [OF link_map_ok] Let_def less_Suc_eq
        numeral_2_eq_2 split: option.split)
  have r: "readable_links (link_map b) link_directory 8 (edges_in (incoming link_graph) (GetIncoming link_graph 0))"
    if "b = 0 \<or> b = 0x10" for b
    using that link_words by (auto simp: link_graph_ok(3) readable_links_def d)
  note cc = chains_correct [OF link_map_ok link_graph_ok(1,2) _ r]
  have "Chain_link (link_map 0) link_directory 8 0 = Some 1" "Chain_link (link_map 0) link_directory 8 1 = Some 2"
    by (simp_all add: link d link_words)
  then have "chain_from (Chain_link (link_map 0) link_directory 8) 2 0 [0, 1]"
    by (intro chain_step [where j = 1] chain_step [where j = 2] chain_end) simp_all
  moreover have "\<forall>j\<in>{0, 1}. \<exists>k\<in>{0, 1}. Chain_link (link_map 0x10) link_directory 8 j = Some k"
    by (simp add: link d link_words)
  moreover have "0 \<in> {0::nat, 1} \<and> 2 \<notin> {0::nat, 1}" by simp
  ultimately show ?thesis using cc [of 0 0] cc [of "0x10" 0] unfolding d(1) by (metis zero_less_numeral)
qed

end
