(* ===== verification/Finder_Contract.thy ===== *)
theory Finder_Contract
  imports Alloc_Resolve Memory_Reads
begin

text \<open>
  The interface \<open>Directory::Finder\<close> of Allocations/Directory.h as its providers see it.  The directory asks a
  finder whether it is finished, reads the next allocation and has the finder advance; \<open>finder_drive\<close> is that
  conversation up to its end.  A provider that can name the allocations left to report meets the contract
  below, and reports exactly those.
\<close>

section \<open>Driving a finder\<close>

text \<open>The state of a finder includes what its \<open>Advance\<close> may change outside of it.\<close>

partial_function (option) finder_drive ::
  "('s \<Rightarrow> bool) \<Rightarrow> ('s \<Rightarrow> 's option) \<Rightarrow> ('s \<Rightarrow> pending) \<Rightarrow> 's \<Rightarrow> (pending list \<times> 's) option" where
  "finder_drive fin adv nxt s =
     (if fin s then Some ([], s)
      else Option.bind (adv s) (\<lambda>s'. Option.bind (finder_drive fin adv nxt s') (\<lambda>(ps, s''). Some (nxt s # ps, s''))))"

locale reporting_finder =
  fixes ok :: "'s \<Rightarrow> bool" and fin :: "'s \<Rightarrow> bool" and adv :: "'s \<Rightarrow> 's option" and nxt :: "'s \<Rightarrow> pending"
    and todo :: "'s \<Rightarrow> pending list" and final :: "'s \<Rightarrow> 's"
  assumes finished: "ok s \<Longrightarrow> fin s \<longleftrightarrow> todo s = []"
    and final_end: "ok s \<Longrightarrow> todo s = [] \<Longrightarrow> final s = s"
    and reports: "ok s \<Longrightarrow> todo s = p # ps \<Longrightarrow> nxt s = p"
    and advances: "ok s \<Longrightarrow> todo s = p # ps \<Longrightarrow> \<exists>s'. adv s = Some s' \<and> ok s' \<and> todo s' = ps \<and> final s' = final s"
begin

lemma drive_todo: "ok s \<Longrightarrow> finder_drive fin adv nxt s = Some (todo s, final s)"
proof (induction "todo s" arbitrary: s)
  case Nil
  then show ?case using finished [of s] final_end [of s] by (subst finder_drive.simps) simp
next
  case (Cons p ps)
  obtain s' where "adv s = Some s'" "ok s'" "todo s' = ps" "final s' = final s"
    using advances [OF Cons.prems Cons.hyps(2) [symmetric]] by blast
  moreover have "\<not> fin s" "nxt s = p"
    using finished [OF Cons.prems] reports [OF Cons.prems Cons.hyps(2) [symmetric]] Cons.hyps(2) by auto
  ultimately show ?case using Cons.hyps by (subst finder_drive.simps) (simp add: Cons.hyps(2) [symmetric])
qed

end

section \<open>Finders that report group by group\<close>

text \<open>
  The finders of TCMalloc, GoLang and Python report the allocations of one span, range or pool after the other.
  \<open>at c (g # gs) k s\<close> says that the finder, whose unchanging part is \<open>c\<close>, is in the state \<open>s\<close> with the
  \<open>k\<close>-th allocation of the group \<open>g\<close> next and with the groups \<open>gs\<close> to follow; \<open>close\<close> is what the last step
  does to what the finder changes outside of it, \<open>env\<close>.
\<close>

locale grouped_finder =
  fixes allocs :: "'c \<Rightarrow> 'g \<Rightarrow> pending list" and at :: "'c \<Rightarrow> 'g list \<Rightarrow> nat \<Rightarrow> 's \<Rightarrow> bool"
    and fin :: "'c \<Rightarrow> 's \<Rightarrow> bool" and adv :: "'c \<Rightarrow> 's \<Rightarrow> 's option" and nxt :: "'c \<Rightarrow> 's \<Rightarrow> pending"
    and env :: "'s \<Rightarrow> 'e" and close :: "'c \<Rightarrow> 'e \<Rightarrow> 'e \<Rightarrow> bool"
  assumes at_here: "at c (g # gs) k s \<Longrightarrow> k < length (allocs c g) \<and> \<not> fin c s \<and> nxt c s = allocs c g ! k"
    and at_within: "at c (g # gs) k s \<Longrightarrow> k + 1 < length (allocs c g) \<Longrightarrow>
      \<exists>s'. adv c s = Some s' \<and> at c (g # gs) (k + 1) s' \<and> env s' = env s"
    and at_onward: "at c (g # g' # gs) k s \<Longrightarrow> k + 1 = length (allocs c g) \<Longrightarrow>
      \<exists>s'. adv c s = Some s' \<and> at c (g' # gs) 0 s' \<and> env s' = env s"
    and at_last: "at c [g] k s \<Longrightarrow> k + 1 = length (allocs c g) \<Longrightarrow>
      \<exists>s'. adv c s = Some s' \<and> fin c s' \<and> close c (env s) (env s')"
begin

lemma drive_groups:
  "at c (g # gs) k s \<Longrightarrow>
   \<exists>s'. finder_drive (fin c) (adv c) (nxt c) s = Some (drop k (allocs c g) @ concat (map (allocs c) gs), s') \<and>
        fin c s' \<and> close c (env s) (env s')"
proof (induction "length (allocs c g) - k + length (concat (map (allocs c) gs))" arbitrary: g gs k s rule: less_induct)
  case less
  note here = at_here [OF less.prems]
  have drop: "drop k (allocs c g) = allocs c g ! k # drop (k + 1) (allocs c g)"
    using here Cons_nth_drop_Suc [of k "allocs c g"] by simp
  consider (within) "k + 1 < length (allocs c g)"
    | (onward) g' gs' where "k + 1 = length (allocs c g)" "gs = g' # gs'" | (last) "k + 1 = length (allocs c g)" "gs = []"
  proof -
    have "k + 1 < length (allocs c g) \<or> k + 1 = length (allocs c g)" using here by linarith
    then show thesis using that by (cases gs) auto
  qed
  then show ?case
  proof cases
    case within
    obtain s' where s': "adv c s = Some s'" "at c (g # gs) (k + 1) s'" "env s' = env s"
      using at_within [OF less.prems within] by blast
    have "length (allocs c g) - (k + 1) + length (concat (map (allocs c) gs)) <
      length (allocs c g) - k + length (concat (map (allocs c) gs))" using within by linarith
    from less.hyps [OF this s'(2)] show ?thesis using here s' drop by (subst finder_drive.simps) fastforce
  next
    case onward
    obtain s' where s': "adv c s = Some s'" "at c (g' # gs') 0 s'" "env s' = env s"
      using at_onward [OF less.prems [unfolded onward(2)] onward(1)] by blast
    have "length (allocs c g') - 0 + length (concat (map (allocs c) gs')) <
      length (allocs c g) - k + length (concat (map (allocs c) gs))" using onward by simp
    from less.hyps [OF this s'(2)] show ?thesis using onward here s' drop by (subst finder_drive.simps) fastforce
  next
    case last
    obtain s' where s': "adv c s = Some s'" "fin c s'" "close c (env s) (env s')"
      using at_last [OF less.prems [unfolded last(2)] last(1)] by blast
    have "finder_drive (fin c) (adv c) (nxt c) s' = Some ([], s')" using s'(2) by (subst finder_drive.simps) simp
    then show ?thesis using last here s' drop by (subst finder_drive.simps) simp
  qed
qed

end

text \<open>The usual group: allocations of one size without gaps.\<close>

definition run_allocations :: "addr \<Rightarrow> addr \<Rightarrow> nat \<Rightarrow> (nat \<Rightarrow> bool) \<Rightarrow> pending list" where
  "run_allocations first sz n used = map (\<lambda>k. (first + of_nat k * sz, sz, used k)) [0..<n]"

lemma run_allocations_simps [simp]:
  "length (run_allocations first sz n used) = n"
  "run_allocations first sz n used = [] \<longleftrightarrow> n = 0"
  "k < n \<Longrightarrow> run_allocations first sz n used ! k = (first + of_nat k * sz, sz, used k)"
  by (simp_all add: run_allocations_def)

lemma SIZE_MASK_unat: "unat SIZE_MASK = 2 ^ 52 - 1"
  by (simp add: al_constants mask_eq_exp_minus_1)

lemma run_address:
  fixes first sz :: addr
  assumes "unat first + n * unat sz < 2 ^ 64" "k \<le> n"
  shows "unat (first + of_nat k * sz) = unat first + k * unat sz"
proof -
  have "first + of_nat k * sz = first + of_nat (k * unat sz)" by simp
  moreover have "unat first + k * unat sz < 2 ^ 64"
    using assms mult_le_mono1 [OF assms(2), of "unat sz"] by linarith
  ultimately show ?thesis using unat_add_of_nat [of first "k * unat sz"] by simp
qed

lemma runs_finder_ok:
  assumes "\<forall>t\<in>set ts. 0 < sz t \<and> unat (first t) + n t * unat (sz t) < 2 ^ 52"
    "sorted_wrt (\<lambda>t t'. unat (first t) + n t * unat (sz t) \<le> unat (first t')) ts"
  shows "finder_ok (concat (map (\<lambda>t. run_allocations (first t) (sz t) (n t) (used t)) ts))"
  using assms
proof (induction ts)
  case (Cons t ts)
  let ?r = "\<lambda>t. run_allocations (first t) (sz t) (n t) (used t)"
  have bound: "0 < sz t'" "unat (first t') + n t' * unat (sz t') < 2 ^ 52" if "t' \<in> set (t # ts)" for t'
    using Cons.prems(1) that by auto
  have at: "unat (first t' + of_nat k * sz t') = unat (first t') + k * unat (sz t')"
    if "t' \<in> set (t # ts)" "k \<le> n t'" for t' k
    using run_address [of "first t'" "n t'" "sz t'" k] bound [OF that(1)] that(2) by simp
  have pos: "0 < unat (sz t)" using bound(1) [of t] by (simp add: word_less_nat_alt)
  have ok: "pending_ok p" if p: "p \<in> set (?r t)" for p
  proof -
    obtain k where k: "k < n t" "p = (first t + of_nat k * sz t, sz t, used t k)"
      using p by (auto simp: run_allocations_def)
    have "(k + 1) * unat (sz t) \<le> n t * unat (sz t)" using k(1) by (intro mult_le_mono1) simp
    then have u: "unat (first t) + k * unat (sz t) + unat (sz t) < 2 ^ 52" using bound(2) [of t] by simp
    have here: "unat (first t + of_nat k * sz t) = unat (first t) + k * unat (sz t)" using at [of t k] k(1) by simp
    then have "unat (first t + of_nat k * sz t + sz t) = unat (first t) + k * unat (sz t) + unat (sz t)"
      using u unat_add_of_nat [of "first t + of_nat k * sz t" "unat (sz t)"] by simp
    then show ?thesis using k(2) u pos here
      by (simp add: pending_ok_def word_le_nat_alt word_less_nat_alt SIZE_MASK_unat)
  qed
  have inner: "sorted_wrt (\<lambda>p q. fst p < fst q) (?r t)"
    using at [of t] pos by (simp add: run_allocations_def sorted_wrt_map sorted_wrt_iff_nth_less word_less_nat_alt)
  have outer: "fst p < fst q" if pq: "p \<in> set (?r t)" "q \<in> set (concat (map ?r ts))" for p q
  proof -
    obtain k where k: "k < n t" "p = (first t + of_nat k * sz t, sz t, used t k)"
      using pq(1) by (auto simp: run_allocations_def)
    obtain t' j where t': "t' \<in> set ts" "j < n t'" "q = (first t' + of_nat j * sz t', sz t', used t' j)"
      using pq(2) by (auto simp: run_allocations_def)
    have "k * unat (sz t) < n t * unat (sz t)" using k(1) pos by (simp only: mult_less_cancel2)
    moreover have "unat (first t) + n t * unat (sz t) \<le> unat (first t')" using Cons.prems(2) t'(1) by simp
    ultimately have "unat (first t) + k * unat (sz t) < unat (first t') + j * unat (sz t')" by linarith
    then show ?thesis using at [of t k] at [of t' j] k t' by (simp add: word_less_nat_alt)
  qed
  have rest: "finder_ok (concat (map ?r ts))" using Cons by simp
  show ?case using ok inner outer rest unfolding finder_ok_def by (simp add: sorted_wrt_append) blast
qed (simp add: finder_ok_def)

section \<open>Reads of single bytes and pairs of bytes\<close>

text \<open>\<open>reader.ReadU8(a, d)\<close> and \<open>reader.ReadU16(a, d)\<close>\<close>

definition u8_or :: "VirtualAddressMap \<Rightarrow> addr \<Rightarrow> 8 word \<Rightarrow> 8 word" where
  "u8_or m a d = (case read_spec m a 1 of Some bs \<Rightarrow> of_nat (le_value bs) | None \<Rightarrow> d)"

definition u16_or :: "VirtualAddressMap \<Rightarrow> addr \<Rightarrow> 16 word \<Rightarrow> 16 word" where
  "u16_or m a d = (case read_spec m a 2 of Some bs \<Rightarrow> of_nat (le_value bs) | None \<Rightarrow> d)"

lemma ReadU8_default_u8_or:
  assumes "vam_ok m" "reader_ok m rd"
  shows "\<exists>rd'. reader_ok m rd' \<and> ReadU8_default m rd a d = (rd', Value (u8_or m a d))"
proof -
  obtain rd' where "reader_ok m rd'"
    "reader_read m rd a 1 = (rd', case read_spec m a 1 of Some bs \<Rightarrow> Value bs | None \<Rightarrow> NotMapped a)"
    using reader_read_outcome [OF assms, of 1] by auto
  then show ?thesis by (auto simp: ReadU8_default_def u8_or_def split: option.split)
qed

lemma ReadU16_default_u16_or:
  assumes "vam_ok m" "reader_ok m rd"
  shows "\<exists>rd'. reader_ok m rd' \<and> ReadU16_default m rd a d = (rd', Value (u16_or m a d))"
proof -
  obtain rd' where "reader_ok m rd'"
    "reader_read m rd a 2 = (rd', case read_spec m a 2 of Some bs \<Rightarrow> Value bs | None \<Rightarrow> NotMapped a)"
    using reader_read_outcome [OF assms, of 2] by auto
  then show ?thesis by (auto simp: ReadU16_default_def u16_or_def split: option.split)
qed

end
