(* ===== verification/Mmapped_Finder.thy ===== *)
theory Mmapped_Finder
  imports Finder_Contract Memory_Partition
begin

text \<open>
  The class \<open>MmappedAllocationFinder\<close> of LibcMalloc/MmappedAllocationFinder.h: chunks that malloc has mapped
  one by one are recognised by their header at the start of a page of an unclaimed writable range; they are
  claimed and reported as used allocations.  \<open>None\<close> is a loop that does not end.
\<close>

section \<open>Operations\<close>

text \<open>
  The finder keeps the chunks, a map from their start to their size, and what is left of it from \<open>_itNext\<close> on.
  \<open>mm_overlaps\<close> holds the chunks that could not be claimed, about which a warning is written.
\<close>

record MmappedFinder =
  mmappedChunks :: "(addr, addr) std_map"
  mm_left :: "(addr, addr) std_map"
  mm_overlaps :: "addr list"

definition foundMmappedAlloc :: "VirtualAddressMap \<Rightarrow> addr \<Rightarrow> addr \<Rightarrow> bool" where
  "foundMmappedAlloc m limit candidate \<longleftrightarrow>
     (let expect0 = word_or m candidate 0xbadbad;
          chunkSizeAndFlags = word_or m (candidate + 8) 0xbadbad
      in expect0 = 0 \<and> chunkSizeAndFlags AND 0xFFF = 2 \<and> chunkSizeAndFlags \<ge> 0x1000 \<and>
         candidate + chunkSizeAndFlags - 2 > candidate \<and> candidate + chunkSizeAndFlags - 2 \<le> limit)"

definition mmapped_size :: "VirtualAddressMap \<Rightarrow> addr \<Rightarrow> addr" where
  "mmapped_size m candidate = word_or m (candidate + 8) 0xbadbad - 2"

partial_function (option) scan_pages ::
  "VirtualAddressMap \<Rightarrow> addr \<Rightarrow> addr \<Rightarrow> (addr, addr) std_map \<Rightarrow> (addr, addr) std_map option" where
  "scan_pages m limit candidate chunks =
     (if candidate \<le> limit - 0x1000 then
        if \<not> foundMmappedAlloc m limit candidate then scan_pages m limit (candidate + 0x1000) chunks
        else scan_pages m limit (candidate + mmapped_size m candidate)
               (sm_assign candidate (mmapped_size m candidate) chunks)
      else Some chunks)"

definition ScanForMmappedChunksInRange ::
  "VirtualAddressMap \<Rightarrow> addr \<Rightarrow> addr \<Rightarrow> (addr, addr) std_map \<Rightarrow> (addr, addr) std_map option" where
  "ScanForMmappedChunksInRange m base limit chunks = scan_pages m limit ((base + 0xFFF) AND NOT 0xFFF) chunks"

fun scan_ranges ::
  "VirtualAddressMap \<Rightarrow> (64, 32 word) Range list \<Rightarrow> (addr, addr) std_map \<Rightarrow> (addr, addr) std_map option" where
  "scan_ranges m [] chunks = Some chunks"
| "scan_ranges m (r # rs) chunks =
     Option.bind (ScanForMmappedChunksInRange m (r_base r) (r_limit r) chunks) (scan_ranges m rs)"

fun claim_chunks ::
  "'l \<Rightarrow> (addr, addr) std_map \<Rightarrow> 'l VirtualMemoryPartition \<Rightarrow> addr list \<Rightarrow> 'l VirtualMemoryPartition \<times> addr list" where
  "claim_chunks label [] p bad = (p, bad)"
| "claim_chunks label ((start, sz) # cs) p bad =
     (case ClaimRange p start sz label False of
        (p', ok) \<Rightarrow> claim_chunks label cs p' (if ok then bad else bad @ [start]))"

definition ScanForMmappedChunks ::
  "'l \<Rightarrow> 'l VirtualMemoryPartition \<Rightarrow> ('l VirtualMemoryPartition \<times> (addr, addr) std_map \<times> addr list) option" where
  "ScanForMmappedChunks label p =
     (case scan_ranges (vp_addressMap p) (rm_ranges (unclaimedWritableRangesWithImages p)) [] of
        None \<Rightarrow> None
      | Some chunks \<Rightarrow> (case claim_chunks label chunks p [] of (p', bad) \<Rightarrow> Some (p', chunks, bad)))"

definition MmappedAllocationFinder_new ::
  "'l \<Rightarrow> 'l VirtualMemoryPartition \<Rightarrow> ('l VirtualMemoryPartition \<times> MmappedFinder) option" where
  "MmappedAllocationFinder_new label p =
     map_option (\<lambda>(p', chunks, bad). (p', \<lparr>mmappedChunks = chunks, mm_left = chunks, mm_overlaps = bad\<rparr>))
       (ScanForMmappedChunks label p)"

definition mmapped_Finished :: "MmappedFinder \<Rightarrow> bool" where
  "mmapped_Finished f \<longleftrightarrow> mm_left f = []"

definition mmapped_Next :: "MmappedFinder \<Rightarrow> pending" where
  "mmapped_Next f = (case hd (mm_left f) of (start, sz) \<Rightarrow> (start + 2 * 8, sz - 2 * 8, True))"

definition mmapped_Advance :: "MmappedFinder \<Rightarrow> MmappedFinder" where
  "mmapped_Advance f = (if mm_left f \<noteq> [] then f\<lparr>mm_left := tl (mm_left f)\<rparr> else f)"

definition mmapped_MinRequestSize :: "addr \<Rightarrow> addr" where
  "mmapped_MinRequestSize sz = sz - 0x1000 + 1"

section \<open>The scan of a range\<close>

definition chunk_of :: "addr \<times> addr \<Rightarrow> addr set" where
  "chunk_of c = wrange (fst c) (snd c)"

text \<open>
  What a scan from a page on has to find: chunks at pages with a good header, one after the other, such that
  no page with a good header is left out but those inside a chunk.
\<close>

definition mmapped_found :: "VirtualAddressMap \<Rightarrow> addr \<Rightarrow> addr \<Rightarrow> (addr, addr) std_map \<Rightarrow> bool" where
  "mmapped_found m start limit cs \<longleftrightarrow>
     (\<forall>(a, s)\<in>set cs. 0x1000 dvd unat a \<and> foundMmappedAlloc m limit a \<and> s = mmapped_size m a \<and>
        start \<le> a \<and> 0x1000 \<le> s \<and> a < a + s \<and> a + s \<le> limit) \<and>
     sorted_wrt (\<lambda>c c'. fst c + snd c \<le> fst c') cs \<and>
     (\<forall>a. start \<le> a \<and> unat a + 0x1000 \<le> unat limit \<and> 0x1000 dvd unat a \<and> foundMmappedAlloc m limit a \<longrightarrow>
        (\<exists>c\<in>set cs. a \<in> chunk_of c))"

lemma mmapped_size_outcome:
  assumes "foundMmappedAlloc m limit a"
  shows "0x1000 dvd unat (mmapped_size m a)" "0x1000 \<le> mmapped_size m a" "a < a + mmapped_size m a"
    "a + mmapped_size m a \<le> limit" "unat (a + mmapped_size m a) = unat a + unat (mmapped_size m a)"
proof -
  define w where "w = word_or m (a + 8) 0xbadbad"
  have h: "w AND 0xFFF = 2" "0x1000 \<le> w" "a < a + w - 2" "a + w - 2 \<le> limit"
    using assms by (simp_all add: foundMmappedAlloc_def w_def Let_def)
  have s: "mmapped_size m a = w - 2" by (simp add: mmapped_size_def w_def)
  have "(2::addr) \<le> 0x1000" by simp
  then have w2: "2 \<le> w" using h(2) by (rule order_trans)
  have u: "unat (w - 2) = unat w - 2" using unat_sub_le [OF w2] by simp
  have "w AND 0xFFF = take_bit 12 w" by (simp add: take_bit_eq_mask mask_eq_exp_minus_1)
  then have "unat (take_bit 12 w) = 2" using h(1) by simp
  then have "take_bit 12 (unat w) = 2" by (simp add: unsigned_take_bit_eq)
  then have "unat w mod 0x1000 = 2" by (simp add: take_bit_eq_mod)
  then have d: "unat w - 2 = 0x1000 * (unat w div 0x1000)" using div_mult_mod_eq [of "unat w" "0x1000"] by linarith
  then show "0x1000 dvd unat (mmapped_size m a)" by (simp add: s u)
  have "0x1000 \<le> unat w" using h(2) by (simp add: word_le_nat_alt)
  then have "1 \<le> unat w div 0x1000" by simp
  then have "0x1000 \<le> unat w - 2" using d by linarith
  then show "0x1000 \<le> mmapped_size m a" by (simp add: s word_le_nat_alt u)
  have e: "a + w - 2 = a + (w - 2)" by simp
  show "a < a + mmapped_size m a" "a + mmapped_size m a \<le> limit" using h(3,4) unfolding s e by blast+
  then show "unat (a + mmapped_size m a) = unat a + unat (mmapped_size m a)" by (intro no_wrap_unat) simp
qed


lemma scan_pages_outcome:
  assumes "0x1000 \<le> limit" "0x1000 dvd unat c" "unat c \<le> unat limit + 0x1000" "unat limit + 0x2000 \<le> 2 ^ 64"
    "\<forall>e\<in>set chunks. fst e < c"
  shows "\<exists>cs. scan_pages m limit c chunks = Some (chunks @ cs) \<and> mmapped_found m c limit cs"
  using assms(2,3,5)
proof (induction "unat limit + 0x1000 - unat c" arbitrary: c chunks rule: less_induct)
  case less
  have l: "unat (limit - 0x1000) = unat limit - 0x1000" using unat_sub_le [OF assms(1)] by simp
  show ?case
  proof (cases "c \<le> limit - 0x1000")
    case False
    then have "\<not> unat c + 0x1000 \<le> unat limit" using l by (simp add: word_le_nat_alt)
    then have "mmapped_found m c limit []"
      by (fastforce simp: mmapped_found_def word_le_nat_alt dest: order_trans [of "unat c + 0x1000"])
    then show ?thesis using False by (subst scan_pages.simps) simp
  next
    case True
    have "0x1000 \<le> unat limit" using assms(1) by (simp add: word_le_nat_alt)
    then have c: "unat c + 0x1000 \<le> unat limit" using True l by (simp add: word_le_nat_alt)
    show ?thesis
    proof (cases "foundMmappedAlloc m limit c")
      case False
      have u: "unat (c + 0x1000) = unat c + 0x1000" using c unat_add_of_nat [of c "0x1000"] assms(4) by simp
      have d: "unat limit + 0x1000 - (unat c + 0x1000) < unat limit + 0x1000 - unat c" using c by linarith
      have "\<forall>e\<in>set chunks. fst e < c + 0x1000" using less.prems(3) u by (auto simp: word_less_nat_alt)
      then obtain cs where cs: "scan_pages m limit (c + 0x1000) chunks = Some (chunks @ cs)" "mmapped_found m (c + 0x1000) limit cs"
        using less.hyps [of "c + 0x1000" chunks, unfolded u, OF d] less.prems(1) c by auto
      have "c + 0x1000 \<le> a" if "c \<le> a" "0x1000 dvd unat a" "foundMmappedAlloc m limit a" for a
      proof -
        have "a \<noteq> c" using that(3) False by blast
        then have "c < a" using that(1) by simp
        then have "unat c < unat a" by (simp add: word_less_nat_alt)
        then have "unat c + 0x1000 \<le> unat a" using that(2) less.prems(1) by (auto elim!: dvdE)
        then show ?thesis using u by (simp add: word_le_nat_alt)
      qed
      moreover have "c \<le> c + 0x1000" using u by (simp add: word_le_nat_alt)
      ultimately have "mmapped_found m c limit cs" using cs(2) unfolding mmapped_found_def by (fastforce intro: order_trans)
      then show ?thesis using cs(1) True False by (subst scan_pages.simps) simp
    next
      case f: True
      let ?s = "mmapped_size m c"
      note S = mmapped_size_outcome [OF f]
      have "\<forall>e\<in>set (chunks @ [(c, ?s)]). fst e < c + ?s" using less.prems(3) S(3) by auto
      moreover have "0x1000 dvd unat (c + ?s)" using less.prems(1) S(1,5) by simp
      moreover have "unat (c + ?s) \<le> unat limit + 0x1000" using S(4) by (simp add: word_le_nat_alt)
      moreover have "unat limit + 0x1000 - unat (c + ?s) < unat limit + 0x1000 - unat c"
        using S(3) c by (simp add: word_less_nat_alt)
      ultimately obtain cs where cs: "scan_pages m limit (c + ?s) (chunks @ [(c, ?s)]) = Some ((chunks @ [(c, ?s)]) @ cs)"
        "mmapped_found m (c + ?s) limit cs"
        using less.hyps [of "c + ?s" "chunks @ [(c, ?s)]"] by blast
      have app: "sm_assign c ?s chunks = chunks @ [(c, ?s)]"
        using sm_assign_append_before [OF less.prems(3), of ?s "[]"] by simp
      note C = cs(2) [unfolded mmapped_found_def]
      note F = conjunct1 [OF C] conjunct1 [OF conjunct2 [OF C]] conjunct2 [OF conjunct2 [OF C]]
      have "mmapped_found m c limit ((c, ?s) # cs)"
        unfolding mmapped_found_def
      proof (intro conjI allI impI)
        show "\<forall>(a, s)\<in>set ((c, ?s) # cs). 0x1000 dvd unat a \<and> foundMmappedAlloc m limit a \<and> s = mmapped_size m a \<and>
            c \<le> a \<and> 0x1000 \<le> s \<and> a < a + s \<and> a + s \<le> limit"
          using F(1) S f less.prems(1) order_trans [OF less_imp_le [OF S(3)]] by auto
        show "sorted_wrt (\<lambda>c c'. fst c + snd c \<le> fst c') ((c, ?s) # cs)" using F(1,2) by auto
        show "\<exists>x\<in>set ((c, ?s) # cs). a \<in> chunk_of x"
          if "c \<le> a \<and> unat a + 0x1000 \<le> unat limit \<and> 0x1000 dvd unat a \<and> foundMmappedAlloc m limit a" for a
          using that F(3) by (cases "c + ?s \<le> a") (auto simp: chunk_of_def not_le)
      qed
      then show ?thesis using cs(1) True f app by (subst scan_pages.simps) simp
    qed
  qed
qed


section \<open>The scan of all ranges\<close>

lemma round_up_page:
  fixes base :: addr
  assumes "unat base + 0xFFF < 2 ^ 64"
  defines "c \<equiv> (base + 0xFFF) AND NOT 0xFFF"
  shows "0x1000 dvd unat c" "base \<le> c" "unat c \<le> unat base + 0xFFF"
    "\<And>a. base \<le> a \<Longrightarrow> 0x1000 dvd unat a \<Longrightarrow> c \<le> a"
proof -
  have "unat (base + 0xFFF) = unat base + 0xFFF" using assms(1) unat_add_of_nat [of base "0xFFF"] by simp
  then have c: "unat c = (unat base + 0xFFF) - (unat base + 0xFFF) mod 0x1000"
    using unat_AND_NOT_mask [of 12 "base + 0xFFF"] by (simp add: c_def mask_eq_exp_minus_1)
  then show d: "0x1000 dvd unat c" by (simp add: minus_mod_eq_div_mult [symmetric])
  show "unat c \<le> unat base + 0xFFF" using c by simp
  have "(unat base + 0xFFF) mod 0x1000 < 0x1000" by simp
  then show "base \<le> c" using c unfolding word_le_nat_alt by linarith
  show "c \<le> a" if le: "base \<le> a" and a: "0x1000 dvd unat a" for a
  proof -
    obtain i j where "unat c = 0x1000 * i" "unat a = 0x1000 * j" using d a by (elim dvdE)
    moreover have "unat c < unat a + 0x1000"
      using \<open>unat c \<le> unat base + 0xFFF\<close> le unfolding word_le_nat_alt by linarith
    ultimately show ?thesis by (simp add: word_le_nat_alt)
  qed
qed

text \<open>What is found in a range of a mapper, and in all ranges.\<close>

definition range_found :: "VirtualAddressMap \<Rightarrow> (64, 32 word) rm_entry \<Rightarrow> (addr, addr) std_map \<Rightarrow> bool" where
  "range_found m e cs \<longleftrightarrow> (case e of (L, S, V) \<Rightarrow> mmapped_found m (L - S) L cs)"

text \<open>Ranges as the partition has them: not at the ends of the address space.\<close>

definition scannable :: "(64, 32 word) rm_entry \<Rightarrow> bool" where
  "scannable e \<longleftrightarrow> 0x1000 \<le> fst e \<and> fst e \<le> SIZE_MASK"

lemma ScanForMmappedChunksInRange_outcome:
  assumes "scannable (L, S, V)" "0 < S" "S \<le> L" "\<forall>e\<in>set chunks. fst e < L - S"
  shows "\<exists>cs. ScanForMmappedChunksInRange m (L - S) L chunks = Some (chunks @ cs) \<and> range_found m (L, S, V) cs"
proof -
  have l: "0x1000 \<le> L" "unat L < 2 ^ 52" using assms(1) SIZE_MASK_unat by (auto simp: scannable_def word_le_nat_alt)
  have b: "unat (L - S) < unat L" using assms(2,3) word_sub_less [of S L] by (simp add: word_less_nat_alt)
  define c where "c = ((L - S + 0xFFF) AND NOT 0xFFF :: addr)"
  note R = round_up_page [of "L - S", folded c_def]
  have c: "0x1000 dvd unat c" "L - S \<le> c" "unat c \<le> unat L + 0x1000"
    using R(1-3) b l(2) by simp_all
  have "\<forall>e\<in>set chunks. fst e < c" using assms(4) c(2) by (auto intro: order_less_le_trans)
  then obtain cs where cs: "scan_pages m L c chunks = Some (chunks @ cs)" "mmapped_found m c L cs"
    using scan_pages_outcome [OF l(1) c(1,3), of chunks m] l(2) by auto
  note C = cs(2) [unfolded mmapped_found_def]
  note F = conjunct1 [OF C] conjunct1 [OF conjunct2 [OF C]] conjunct2 [OF conjunct2 [OF C]]
  have "mmapped_found m (L - S) L cs"
    unfolding mmapped_found_def
  proof (intro conjI allI impI)
    show "\<forall>(a, s)\<in>set cs. 0x1000 dvd unat a \<and> foundMmappedAlloc m L a \<and> s = mmapped_size m a \<and>
        L - S \<le> a \<and> 0x1000 \<le> s \<and> a < a + s \<and> a + s \<le> L"
      using F(1) order_trans [OF c(2)] by fastforce
    show "\<exists>x\<in>set cs. a \<in> chunk_of x"
      if "L - S \<le> a \<and> unat a + 0x1000 \<le> unat L \<and> 0x1000 dvd unat a \<and> foundMmappedAlloc m L a" for a
      using that F(3) R(4) [of a] b l(2) by auto
  qed (rule F(2))
  then show ?thesis using cs(1) by (auto simp: ScanForMmappedChunksInRange_def range_found_def c_def)
qed

lemma range_foundD:
  assumes "range_found m (L, S, V) cs" "c \<in> set cs"
  shows "L - S \<le> fst c" "fst c < fst c + snd c" "fst c + snd c \<le> L" "0x1000 \<le> snd c"
    "0x1000 dvd unat (fst c)" "foundMmappedAlloc m L (fst c)" "snd c = mmapped_size m (fst c)"
  using assms by (cases c; fastforce simp: range_found_def mmapped_found_def)+

lemma scan_ranges_outcome:
  assumes "rm_wf low es" "\<forall>e\<in>set es. scannable e" "\<forall>e\<in>set chunks. fst e < low"
  shows "\<exists>css. scan_ranges m (map RangeIterator_deref es) chunks = Some (chunks @ concat css) \<and>
      list_all2 (range_found m) es css \<and> sorted_wrt (\<lambda>c c'. fst c + snd c \<le> fst c') (concat css) \<and>
      (\<forall>c\<in>set (concat css). low \<le> fst c)"
  using assms
proof (induction low es arbitrary: chunks rule: rm_wf.induct)
  case (2 low L S V es)
  have S: "0 < S" "S \<le> L" "low \<le> L - S" "rm_wf L es" using "2.prems"(1) by auto
  have "\<forall>e\<in>set chunks. fst e < L - S" using "2.prems"(3) S(3) by (auto intro: order_less_le_trans)
  then obtain cs where cs: "ScanForMmappedChunksInRange m (L - S) L chunks = Some (chunks @ cs)" "range_found m (L, S, V) cs"
    using ScanForMmappedChunksInRange_outcome [of L S V chunks m] "2.prems"(2) S by auto
  note D = range_foundD [OF cs(2)]
  have below: "\<forall>e\<in>set (chunks @ cs). fst e < L"
    using order_less_le_trans [OF D(2,3)] \<open>\<forall>e\<in>set chunks. fst e < L - S\<close> word_sub_less [OF S(1,2)]
    by (auto intro: order_less_trans)
  obtain css where css: "scan_ranges m (map RangeIterator_deref es) (chunks @ cs) = Some ((chunks @ cs) @ concat css)"
    "list_all2 (range_found m) es css" "sorted_wrt (\<lambda>c c'. fst c + snd c \<le> fst c') (concat css)"
    "\<forall>c\<in>set (concat css). L \<le> fst c"
    using "2.IH" [OF S(4) _ below] "2.prems"(2) by auto
  have "sorted_wrt (\<lambda>c c'. fst c + snd c \<le> fst c') cs" using cs(2) by (simp add: range_found_def mmapped_found_def)
  then have "sorted_wrt (\<lambda>c c'. fst c + snd c \<le> fst c') (concat (cs # css))"
    using css(3,4) D(3) by (fastforce simp: sorted_wrt_append intro: order_trans)
  moreover have "\<forall>c\<in>set (concat (cs # css)). low \<le> fst c"
  proof
    fix c assume c: "c \<in> set (concat (cs # css))"
    have "low \<le> L" using S(2,3) word_sub_le_self [of S L] by (rule_tac order_trans)
    have "c \<in> set cs \<or> c \<in> set (concat css)" using c by auto
    then show "low \<le> fst c"
      using css(4) order_trans [OF S(3) D(1)] order_trans [OF \<open>low \<le> L\<close>] by blast
  qed
  ultimately show ?case
    using cs css(1,2) by (intro exI [of _ "cs # css"]) (simp add: Range_Set_def)
qed simp

section \<open>The claims\<close>

lemma claim_chunks_outcome:
  assumes "partition_inv p" "\<forall>c\<in>set cs. fst c < fst c + snd c \<and> chunk_of c \<inter> rs.covered (claimedRanges p) = {}"
    "sorted_wrt (\<lambda>c c'. fst c + snd c \<le> fst c') cs"
  shows "\<exists>p'. claim_chunks label cs p bad = (p', bad) \<and> partition_inv p' \<and>
      (\<forall>a. rm_lookup (claimedRanges p') a = (if \<exists>c\<in>set cs. a \<in> chunk_of c then Some label else rm_lookup (claimedRanges p) a))"
  using assms
proof (induction cs arbitrary: p)
  case (Cons c cs)
  obtain b s where c: "c = (b, s)" by (cases c)
  have le: "b \<le> b + s" "\<forall>a\<in>wrange b s. \<not> IsClaimed p a"
    using Cons.prems(2) IsClaimed_covered [OF partition_invD(1) [OF Cons.prems(1)]] by (auto simp: c chunk_of_def)
  obtain p1 ok where p1: "ClaimRange p b s label False = (p1, ok)" by fastforce
  have C: "ok" "partition_inv p1"
    "\<forall>a. rm_lookup (claimedRanges p1) a = (if a \<in> wrange b s then Some label else rm_lookup (claimedRanges p) a)"
    using ClaimRange_refines [OF Cons.prems(1) le(1), of label False] le(2) unfolding p1 by auto
  have "rs.covered (claimedRanges p1) = rs.covered (claimedRanges p) \<union> chunk_of c"
    using C(3) by (auto simp: rs.covered_def c chunk_of_def)
  moreover have "chunk_of c' \<inter> chunk_of c = {}" if "c' \<in> set cs" for c'
    using Cons.prems(3) that by (fastforce simp: chunk_of_def)
  ultimately have "\<forall>c\<in>set cs. fst c < fst c + snd c \<and> chunk_of c \<inter> rs.covered (claimedRanges p1) = {}"
    using Cons.prems(2) by (auto simp: Int_Un_distrib)
  then obtain p' where "claim_chunks label cs p1 bad = (p', bad)" "partition_inv p'"
    "\<forall>a. rm_lookup (claimedRanges p') a = (if \<exists>c\<in>set cs. a \<in> chunk_of c then Some label else rm_lookup (claimedRanges p1) a)"
    using Cons.IH [OF C(2)] Cons.prems(3) by auto
  then show ?case using p1 C by (auto simp: c chunk_of_def)
qed simp


section \<open>Properties\<close>

interpretation mmapped: reporting_finder "\<lambda>f. True" mmapped_Finished "\<lambda>f. Some (mmapped_Advance f)" mmapped_Next
    "\<lambda>f. map (\<lambda>(start, sz). (start + 16, sz - 16, True)) (mm_left f)" "\<lambda>f. f\<lparr>mm_left := []\<rparr>"
  by unfold_locales (auto simp: mmapped_Finished_def mmapped_Advance_def mmapped_Next_def)

lemma mmapped_reports_ok:
  assumes "list_all2 (range_found m) es css" "\<forall>e\<in>set es. scannable e"
    "sorted_wrt (\<lambda>c c'. fst c + snd c \<le> fst c') (concat css)"
  shows "finder_ok (map (\<lambda>(start, sz). (start + 16, sz - 16, True)) (concat css))"
proof -
  have *: "fst c < fst c + 16 \<and> fst c + 16 < fst c + snd c \<and> pending_ok (fst c + 16, snd c - 16, u)"
    if c: "c \<in> set (concat css)" for c u
  proof -
    obtain L S V cs where e: "(L, S, V) \<in> set es" "cs \<in> set css" "range_found m (L, S, V) cs" "c \<in> set cs"
    proof -
      obtain cs where "cs \<in> set css" "c \<in> set cs" using c by auto
      then show thesis using assms(1) that unfolding list_all2_conv_all_nth in_set_conv_nth by (metis prod_cases3)
    qed
    note D = range_foundD [OF e(3,4)]
    have "unat L < 2 ^ 52" using assms(2) e(1) SIZE_MASK_unat by (force simp: scannable_def word_le_nat_alt)
    moreover have "unat (fst c + snd c) = unat (fst c) + unat (snd c)" using D(2) by (intro no_wrap_unat) simp
    moreover have "0x1000 \<le> unat (snd c)" using D(4) by (simp add: word_le_nat_alt)
    ultimately have u: "unat (fst c) + unat (snd c) < 2 ^ 52" "0x1000 \<le> unat (snd c)"
      "unat (fst c + snd c) = unat (fst c) + unat (snd c)" using D(3) by (simp_all add: word_le_nat_alt)
    have "unat (fst c + 16) = unat (fst c) + 16" using unat_add_of_nat [of "fst c" 16] u by simp
    moreover have "unat (snd c - 16) = unat (snd c) - 16" using unat_sub_le [of 16 "snd c"] u(2) by (simp add: word_le_nat_alt)
    ultimately show ?thesis
      using u SIZE_MASK_unat by (simp add: pending_ok_def word_less_nat_alt word_le_nat_alt)
  qed
  have "sorted_wrt (\<lambda>c c'. fst c + 16 < fst c' + 16) (concat css)"
  proof (rule sorted_wrt_mono_rel [OF _ assms(3)])
    fix c c' assume c: "c \<in> set (concat css)" "c' \<in> set (concat css)" "fst c + snd c \<le> fst c'"
    have "fst c + 16 < fst c'" using * [OF c(1)] c(3) by (meson order_less_le_trans)
    then show "fst c + 16 < fst c' + 16" using * [OF c(2)] by (meson order_less_trans)
  qed
  then show ?thesis using * by (auto simp: finder_ok_def sorted_wrt_map case_prod_beta)
qed

text \<open>
  C21: The finder of mmapped chunks, on a partition whose unclaimed writable ranges are not claimed and lie below
  the addresses that a packed allocation can hold.  The constructor returns.  It finds exactly the chunks at pages
  of these ranges with a good header, except where a page lies inside a chunk found before; it claims every one
  of them, and nothing else, without a conflict; and driven to its end it reports one used allocation for each, in
  the order of addresses, in a way that meets the contract under which \<open>Resolve_correct\<close> merges the finders.
\<close>

theorem MmappedAllocationFinder_correct:
  assumes "partition_inv p" "\<forall>e\<in>set (rm_map (unclaimedWritableRangesWithImages p)). scannable e"
    "rs.covered (unclaimedWritableRangesWithImages p) \<inter> rs.covered (claimedRanges p) = {}"
  shows "\<exists>p' f css. MmappedAllocationFinder_new label p = Some (p', f) \<and> mm_overlaps f = [] \<and> partition_inv p' \<and>
      mmappedChunks f = concat css \<and>
      list_all2 (range_found (vp_addressMap p)) (rm_map (unclaimedWritableRangesWithImages p)) css \<and>
      (\<forall>a. rm_lookup (claimedRanges p') a =
         (if \<exists>c\<in>set (mmappedChunks f). a \<in> chunk_of c then Some label else rm_lookup (claimedRanges p) a)) \<and>
      finder_drive mmapped_Finished (\<lambda>f. Some (mmapped_Advance f)) mmapped_Next f =
        Some (map (\<lambda>(start, sz). (start + 16, sz - 16, True)) (mmappedChunks f), f\<lparr>mm_left := []\<rparr>) \<and>
      finder_ok (map (\<lambda>(start, sz). (start + 16, sz - 16, True)) (mmappedChunks f))"
proof -
  let ?es = "rm_map (unclaimedWritableRangesWithImages p)" and ?m = "vp_addressMap p"
  have wf: "rm_wf 0 ?es" using partition_invD(4) [OF assms(1)] by (simp add: rm_inv_def)
  obtain css where css: "scan_ranges ?m (map RangeIterator_deref ?es) [] = Some (concat css)"
    "list_all2 (range_found ?m) ?es css" "sorted_wrt (\<lambda>c c'. fst c + snd c \<le> fst c') (concat css)"
    using scan_ranges_outcome [OF wf assms(2), of "[]" ?m] by auto
  have "fst c < fst c + snd c \<and> chunk_of c \<inter> rs.covered (claimedRanges p) = {}" if c: "c \<in> set (concat css)" for c
  proof -
    obtain L S V cs where e: "(L, S, V) \<in> set ?es" "range_found ?m (L, S, V) cs" "c \<in> set cs"
    proof -
      obtain cs where "cs \<in> set css" "c \<in> set cs" using c by auto
      then show thesis using css(2) that unfolding list_all2_conv_all_nth in_set_conv_nth by (metis prod_cases3)
    qed
    note D = range_foundD [OF e(2,3)]
    have "chunk_of c \<subseteq> rs.covered (unclaimedWritableRangesWithImages p)"
    proof
      fix a assume "a \<in> chunk_of c"
      then have "L - S \<le> a" "a < L" using D(1,3) by (auto simp: chunk_of_def)
      then show "a \<in> rs.covered (unclaimedWritableRangesWithImages p)"
        using entries_lookup_entry [OF wf e(1)] by (simp add: rs.covered_def rm_lookup_def)
    qed
    then show ?thesis using assms(3) D(2) by blast
  qed
  then obtain p' where p': "claim_chunks label (concat css) p [] = (p', [])" "partition_inv p'"
    "\<forall>a. rm_lookup (claimedRanges p') a =
      (if \<exists>c\<in>set (concat css). a \<in> chunk_of c then Some label else rm_lookup (claimedRanges p) a)"
    using claim_chunks_outcome [OF assms(1) _ css(3)] by blast
  let ?f = "\<lparr>mmappedChunks = concat css, mm_left = concat css, mm_overlaps = []\<rparr>"
  have "MmappedAllocationFinder_new label p = Some (p', ?f)"
    using css(1) p'(1) by (simp add: MmappedAllocationFinder_new_def ScanForMmappedChunks_def rm_ranges_def)
  then show ?thesis
    using p'(2,3) css(2) mmapped.drive_todo [of ?f] mmapped_reports_ok [OF css(2) assms(2) css(3)]
    by (intro exI [of _ p'] exI [of _ ?f] exI [of _ css]) simp
qed


text \<open>A page with the header of a chunk of one page.\<close>

definition mmapped_map :: VirtualAddressMap where
  "mmapped_map = AddRange (VirtualAddressMap_new
     ([0, 0, 0, 0, 0, 0, 0, 0, 2, 0x10, 0, 0, 0, 0, 0, 0] @ replicate 0xFF0 0))
     0x1000 0x1000 (0 - 0x1000) True True True True False"

lemma mmapped_map_entries:
  "rm_map (ranges mmapped_map) = [(0x2000, 0x1000, \<lparr>adjustToFileOffset = 0 - 0x1000, flags = 0x1b\<rparr>)]"
  "fileImage mmapped_map = [0, 0, 0, 0, 0, 0, 0, 0, 2, 0x10, 0, 0, 0, 0, 0, 0] @ replicate 0xFF0 0"
  by (simp_all add: mmapped_map_def AddRange_def VirtualAddressMap_new_def AddRange_flags_def flag_defs
      MapRange_def RangeMapper_new_def sm_lower_bound_def rm_emplace_result_def sm_emplace_def
      rm_next_def sm_upper_bound_def sm_find_def)

theorem MmappedAllocationFinder_correct_witness:
  "\<exists>p' f. MmappedAllocationFinder_new 1 (VirtualMemoryPartition_new (0::nat) mmapped_map) = Some (p', f) \<and>
     finder_drive mmapped_Finished (\<lambda>f. Some (mmapped_Advance f)) mmapped_Next f =
       Some ([(0x1010, 0xFF0, True)], f\<lparr>mm_left := []\<rparr>) \<and>
     rm_lookup (claimedRanges p') 0x1234 = Some 1"
proof -
  let ?p = "VirtualMemoryPartition_new (0::nat) mmapped_map"
  have inv: "partition_inv ?p"
    by (rule VirtualMemoryPartition_new_inv) (simp add: rm_inv_def mmapped_map_entries)
  have es: "rm_map (unclaimedWritableRangesWithImages ?p) = [(0x2000, 0x1000, 0x1b)]"
    by (simp add: partition_new_fields(2) category_ranges_def vam_iterators_def mmapped_map_entries category_of_def
        has_image_def flag_defs rm_insert_def MapRange_def RangeMapper_new_def sm_lower_bound_def rm_emplace_result_def sm_emplace_def)
  have cl: "claimedRanges ?p = RangeMapper_new True" "vp_addressMap ?p = mmapped_map"
    by (simp_all add: partition_new_fields)
  have scannable: "\<forall>e\<in>set (rm_map (unclaimedWritableRangesWithImages ?p)). scannable e"
    unfolding es by (simp add: scannable_def word_le_nat_alt SIZE_MASK_unat)
  have "word_or mmapped_map 0x1000 0xbadbad = 0" "word_or mmapped_map 0x1008 0xbadbad = 0x1002"
    by (simp_all add: word_or_def word_at_def read_spec_def vam_find_def rm_find_def sm_upper_bound_def
        mmapped_map_entries has_image_def flag_defs)
  then have "foundMmappedAlloc mmapped_map 0x2000 0x1000" "mmapped_size mmapped_map 0x1000 = 0x1000"
    by (simp_all add: foundMmappedAlloc_def mmapped_size_def)
  then have "scan_pages mmapped_map 0x2000 0x1000 [] = Some [(0x1000, 0x1000)]"
    by (subst scan_pages.simps) (simp, subst scan_pages.simps, simp)
  then have scan: "ScanForMmappedChunksInRange mmapped_map 0x1000 0x2000 [] = Some [(0x1000, 0x1000)]"
    by (simp add: ScanForMmappedChunksInRange_def)
  have "rs.covered (claimedRanges ?p) = {}" by (simp add: cl rs.covered_new)
  then obtain p' f css where r: "MmappedAllocationFinder_new 1 ?p = Some (p', f)"
    "\<forall>a. rm_lookup (claimedRanges p') a =
       (if \<exists>c\<in>set (mmappedChunks f). a \<in> chunk_of c then Some 1 else rm_lookup (claimedRanges ?p) a)"
    "finder_drive mmapped_Finished (\<lambda>f. Some (mmapped_Advance f)) mmapped_Next f =
       Some (map (\<lambda>(start, sz). (start + 16, sz - 16, True)) (mmappedChunks f), f\<lparr>mm_left := []\<rparr>)"
    using MmappedAllocationFinder_correct [OF inv scannable, of 1] by auto
  have "mmappedChunks f = [(0x1000, 0x1000)]"
    using r(1) scan
    by (auto simp: MmappedAllocationFinder_new_def ScanForMmappedChunks_def rm_ranges_def es cl Range_Set_def
        split: prod.splits)
  then show ?thesis using r by (auto simp: chunk_of_def)
qed

end
