(* ===== verification/Page_Maps.thy ===== *)
theory Page_Maps
  imports Finder_Contract
begin

text \<open>
  The iterators over mapped pages of TCMalloc/PageMapIterator.h and GoLang/MappedPageRangeIterator.h.  Both go
  through a map of two levels, an array of pointers to arrays with one pointer per page, and give the ranges of
  pages that have one: what the pointer refers to says how many pages belong together.  \<open>None\<close> is a loop that
  does not end, or a division by 0.
\<close>

section \<open>The search both iterators share\<close>

text \<open>\<open>1 << b\<close>, an \<open>int\<close> that is converted to an offset\<close>

definition int_bit :: "addr \<Rightarrow> addr" where
  "int_bit b = scast (push_bit (unat b) 1 :: 32 word)"

text \<open>A map, by its reads: of the upper level at an index, and of a lower array at an index; 0 where there is none.\<close>

record page_map =
  pm_upper :: "addr \<Rightarrow> addr"
  pm_entry :: "addr \<Rightarrow> addr \<Rightarrow> addr"
  pm_bits :: addr
  pm_lastPage :: addr

text \<open>
  The loop.  Its result is the page found with the lower array, the index in it and the entry, or nothing if the
  last page is passed.
\<close>

partial_function (option) page_loop ::
  "page_map \<Rightarrow> addr \<Rightarrow> addr \<Rightarrow> addr \<Rightarrow> addr \<Rightarrow> (addr \<times> addr \<times> addr \<times> addr) option option" where
  "page_loop pm page upperIndex lowerIndex lower =
     (if lower = 0 then
        let upperIndex' = upperIndex + 1; page' = upperIndex' * int_bit (pm_bits pm) in
        if page' > pm_lastPage pm then Some None
        else page_loop pm page' upperIndex' 0 (pm_upper pm upperIndex')
      else
        let entry = pm_entry pm lower lowerIndex in
        if entry \<noteq> 0 then Some (Some (page, lower, lowerIndex, entry))
        else if lowerIndex + 1 = int_bit (pm_bits pm) then page_loop pm page upperIndex (lowerIndex + 1) 0
        else page_loop pm (page + 1) upperIndex (lowerIndex + 1) lower)"

declare page_loop.simps [simp del]

definition first_page_from :: "page_map \<Rightarrow> addr \<Rightarrow> (addr \<times> addr \<times> addr \<times> addr) option option" where
  "first_page_from pm page =
     (if page > pm_lastPage pm then Some None
      else
        let upperIndex = drop_bit (unat (pm_bits pm)) page;
            lowerIndex = page - push_bit (unat (pm_bits pm)) upperIndex
        in page_loop pm page upperIndex lowerIndex (pm_upper pm upperIndex))"

section \<open>The iterator of TCMalloc\<close>

text \<open>What the infrastructure finder has found out about the page map and the spans.\<close>

record TcMap =
  tc_pageMap :: addr
  tc_firstMappedPage :: addr
  tc_lastMappedPage :: addr
  tc_simpleLeaf :: bool
  tc_firstPageFieldInSpan :: addr
  tc_numPagesFieldInSpan :: addr
  tc_compactSizeClassFieldInSpan :: addr
  tc_locationAndSampledBitInSpan :: addr
  tc_locationMask :: "8 word"
  tc_sizeOfCompactSizeClass :: addr
  tc_spansInLeaf :: addr
  tc_leafIndexBits :: addr
  tc_pageOffsetBits :: addr
  tc_sizes :: addr
  tc_numSizes :: addr

record PageMapIterator =
  pi_page :: addr
  pi_numPagesForSpan :: addr
  pi_firstAddressForSpan :: addr
  pi_spanSize :: addr
  pi_numAllocationsInSpan :: addr
  pi_allocationSize :: addr
  pi_spanIsUsed :: bool
  pi_span :: addr

definition tc_page_map :: "VirtualAddressMap \<Rightarrow> TcMap \<Rightarrow> page_map" where
  "tc_page_map m tc =
     \<lparr>pm_upper = (\<lambda>i. word_or m (tc_pageMap tc + i * 8) 0),
      pm_entry = (\<lambda>leaf i. word_or m (leaf + tc_spansInLeaf tc + i * 8) 0),
      pm_bits = tc_leafIndexBits tc, pm_lastPage = tc_lastMappedPage tc\<rparr>"

definition compact_size_class :: "VirtualAddressMap \<Rightarrow> TcMap \<Rightarrow> addr \<Rightarrow> addr \<Rightarrow> addr \<Rightarrow> addr" where
  "compact_size_class m tc span leaf leafIndex =
     (if tc_simpleLeaf tc then ucast (u8_or m (span + tc_compactSizeClassFieldInSpan tc) 0)
      else if tc_sizeOfCompactSizeClass tc = 1 then ucast (u8_or m (leaf + leafIndex) 0)
      else ucast (u16_or m (leaf + 2 * leafIndex) 0))"

text \<open>The end of \<open>SetFirstNonEmptyPageFrom\<close>: what the span says of the page that has been found.\<close>

definition set_span ::
  "VirtualAddressMap \<Rightarrow> TcMap \<Rightarrow> PageMapIterator \<Rightarrow> addr \<times> addr \<times> addr \<times> addr \<Rightarrow> PageMapIterator option" where
  "set_span m tc it = (\<lambda>(page, leaf, leafIndex, span).
     let it1 = it\<lparr>pi_page := page, pi_firstAddressForSpan := push_bit (unat (tc_pageOffsetBits tc)) page,
                  pi_numAllocationsInSpan := 1, pi_span := span\<rparr>
     in if word_or m (span + tc_firstPageFieldInSpan tc) 0 = page then
          let numPages = word_or m (span + tc_numPagesFieldInSpan tc) 0;
              spanSize = push_bit (unat (tc_pageOffsetBits tc)) numPages;
              isUsed = (u8_or m (span + tc_locationAndSampledBitInSpan tc) 0xff AND tc_locationMask tc = 0);
              it2 = it1\<lparr>pi_numPagesForSpan := numPages, pi_spanSize := spanSize, pi_spanIsUsed := isUsed\<rparr>;
              whole = it2\<lparr>pi_allocationSize := spanSize\<rparr>;
              c = compact_size_class m tc span leaf leafIndex
          in if isUsed \<and> c > 0 \<and> c < tc_numSizes tc then
               let inner = ucast (u32_or m (tc_sizes tc + 4 * c) 0) in
               if inner \<le> spanSize then
                 (if inner = 0 then None
                  else Some (it2\<lparr>pi_numAllocationsInSpan := spanSize div inner, pi_allocationSize := inner\<rparr>))
               else Some whole
             else Some whole
        else
          Some (it1\<lparr>pi_numPagesForSpan := 1, pi_allocationSize := int_bit (tc_pageOffsetBits tc),
                    pi_spanSize := int_bit (tc_pageOffsetBits tc), pi_spanIsUsed := False\<rparr>))"

definition SetFirstNonEmptyPageFrom ::
  "VirtualAddressMap \<Rightarrow> TcMap \<Rightarrow> addr \<Rightarrow> PageMapIterator \<Rightarrow> PageMapIterator option" where
  "SetFirstNonEmptyPageFrom m tc page it =
     (case first_page_from (tc_page_map m tc) page of
        None \<Rightarrow> None
      | Some None \<Rightarrow>
          Some (it\<lparr>pi_page := tc_lastMappedPage tc + 1,
                   pi_span := if page > tc_lastMappedPage tc then pi_span it else 0\<rparr>)
      | Some (Some found) \<Rightarrow> set_span m tc it found)"

text \<open>The members that the constructor leaves undefined are 0 until they are set.\<close>

definition PageMapIterator_new :: "VirtualAddressMap \<Rightarrow> TcMap \<Rightarrow> PageMapIterator option" where
  "PageMapIterator_new m tc =
     SetFirstNonEmptyPageFrom m tc (tc_firstMappedPage tc)
       \<lparr>pi_page = 0, pi_numPagesForSpan = 0, pi_firstAddressForSpan = 0, pi_spanSize = 0, pi_numAllocationsInSpan = 0,
        pi_allocationSize = 0, pi_spanIsUsed = False, pi_span = 0\<rparr>"

definition pi_Finished :: "TcMap \<Rightarrow> PageMapIterator \<Rightarrow> bool" where
  "pi_Finished tc it \<longleftrightarrow> pi_page it > tc_lastMappedPage tc"

definition pi_Advance :: "VirtualAddressMap \<Rightarrow> TcMap \<Rightarrow> PageMapIterator \<Rightarrow> PageMapIterator option" where
  "pi_Advance m tc it =
     (if pi_page it > tc_lastMappedPage tc then Some it
      else SetFirstNonEmptyPageFrom m tc (pi_page it + pi_numPagesForSpan it) it)"

section \<open>The iterator of GoLang\<close>

record GoMap =
  go_arenasFieldValue :: addr
  go_spansInHeapArena :: addr
  go_spansIndexBits :: addr
  go_pageOffsetBits :: addr
  go_startAddrInMspan :: addr
  go_numPagesInMspan :: addr
  go_firstMappedPage :: addr
  go_lastMappedPage :: addr

record MappedPageRangeIterator =
  ri_page :: addr
  ri_firstAddressForRange :: addr
  ri_numPagesForRange :: addr
  ri_rangeSize :: addr
  ri_mspan :: addr

definition go_page_map :: "VirtualAddressMap \<Rightarrow> GoMap \<Rightarrow> page_map" where
  "go_page_map m go =
     \<lparr>pm_upper = (\<lambda>i. word_or m (go_arenasFieldValue go + 0x1000000 + i * 8) 0),
      pm_entry = (\<lambda>heapArena i. word_or m (heapArena + go_spansInHeapArena go + i * 8) 0),
      pm_bits = go_spansIndexBits go, pm_lastPage = go_lastMappedPage go\<rparr>"

definition set_range ::
  "VirtualAddressMap \<Rightarrow> GoMap \<Rightarrow> MappedPageRangeIterator \<Rightarrow> addr \<Rightarrow> addr \<Rightarrow> MappedPageRangeIterator" where
  "set_range m go it page mspan =
     (let firstAddress = push_bit (unat (go_pageOffsetBits go)) page;
          it1 = it\<lparr>ri_page := page, ri_firstAddressForRange := firstAddress\<rparr>
      in if word_or m (mspan + go_startAddrInMspan go) 0 = firstAddress then
           let numPages = word_or m (mspan + go_numPagesInMspan go) 0 in
           it1\<lparr>ri_numPagesForRange := numPages, ri_rangeSize := push_bit (unat (go_pageOffsetBits go)) numPages,
               ri_mspan := mspan\<rparr>
         else it1\<lparr>ri_numPagesForRange := 1, ri_rangeSize := int_bit (go_pageOffsetBits go), ri_mspan := 0\<rparr>)"

text \<open>At the end of the pages the iterator has forgotten its last mspan, unless it was asked for a page past the end.\<close>

definition SetFirstNonEmptyPageFrom_go ::
  "VirtualAddressMap \<Rightarrow> GoMap \<Rightarrow> addr \<Rightarrow> MappedPageRangeIterator \<Rightarrow> MappedPageRangeIterator option" where
  "SetFirstNonEmptyPageFrom_go m go page it =
     (case first_page_from (go_page_map m go) page of
        None \<Rightarrow> None
      | Some None \<Rightarrow>
          Some (it\<lparr>ri_page := go_lastMappedPage go + 1,
                   ri_mspan := if page > go_lastMappedPage go then ri_mspan it else 0\<rparr>)
      | Some (Some (page', heapArena, spansIndex, mspan)) \<Rightarrow> Some (set_range m go it page' mspan))"

definition MappedPageRangeIterator_new :: "VirtualAddressMap \<Rightarrow> GoMap \<Rightarrow> MappedPageRangeIterator option" where
  "MappedPageRangeIterator_new m go =
     SetFirstNonEmptyPageFrom_go m go (go_firstMappedPage go)
       \<lparr>ri_page = 0, ri_firstAddressForRange = 0, ri_numPagesForRange = 0, ri_rangeSize = 0, ri_mspan = 0\<rparr>"

definition ri_Finished :: "GoMap \<Rightarrow> MappedPageRangeIterator \<Rightarrow> bool" where
  "ri_Finished go it \<longleftrightarrow> ri_page it > go_lastMappedPage go"

definition ri_Advance :: "VirtualAddressMap \<Rightarrow> GoMap \<Rightarrow> MappedPageRangeIterator \<Rightarrow> MappedPageRangeIterator option" where
  "ri_Advance m go it =
     (if ri_page it > go_lastMappedPage go then Some it
      else SetFirstNonEmptyPageFrom_go m go (ri_page it + ri_numPagesForRange it) it)"

section \<open>The first page with an entry\<close>

text \<open>The entry of a page, by its number.\<close>

definition pm_size :: "page_map \<Rightarrow> nat" where
  "pm_size pm = 2 ^ unat (pm_bits pm)"

definition page_entry :: "page_map \<Rightarrow> nat \<Rightarrow> addr" where
  "page_entry pm q =
     (let lower = pm_upper pm (of_nat (q div pm_size pm)) in
      if lower = 0 then 0 else pm_entry pm lower (of_nat (q mod pm_size pm)))"

text \<open>The maps for which the arithmetic of the loop does not leave its types.\<close>

definition pm_ok :: "page_map \<Rightarrow> bool" where
  "pm_ok pm \<longleftrightarrow> unat (pm_bits pm) < 31 \<and> unat (pm_lastPage pm) + 2 * pm_size pm < 2 ^ 64"

text \<open>What a search from the page with the number \<open>P\<close> on has to find.\<close>

definition search_found :: "page_map \<Rightarrow> nat \<Rightarrow> (addr \<times> addr \<times> addr \<times> addr) option \<Rightarrow> bool" where
  "search_found pm P r \<longleftrightarrow>
     (case r of
        None \<Rightarrow> \<forall>q. P \<le> q \<and> q \<le> unat (pm_lastPage pm) \<longrightarrow> page_entry pm q = 0
      | Some (page, lower, lowerIndex, entry) \<Rightarrow>
          P \<le> unat page \<and> (\<forall>q. P \<le> q \<and> q < unat page \<longrightarrow> page_entry pm q = 0) \<and>
          entry = page_entry pm (unat page) \<and> entry \<noteq> 0 \<and>
          lower = pm_upper pm (of_nat (unat page div pm_size pm)) \<and> lowerIndex = of_nat (unat page mod pm_size pm) \<and>
          unat page div pm_size pm \<le> unat (pm_lastPage pm) div pm_size pm)"

lemma int_bit_eq:
  assumes "unat b < 31"
  shows "int_bit b = 2 ^ unat b" "unat (int_bit b) = 2 ^ unat b"
proof -
  show "int_bit b = 2 ^ unat b"
    unfolding int_bit_def using assms by (intro bit_word_eqI) (auto simp: bit_simps)
  then show "unat (int_bit b) = 2 ^ unat b" using assms unat_two_power [of "unat b", where 'a = 64] by simp
qed

lemma page_loop_outcome:
  assumes "pm_ok pm" "U * pm_size pm \<le> unat (pm_lastPage pm)" "I < pm_size pm"
  shows "\<exists>r. page_loop pm (of_nat (U * pm_size pm + I)) (of_nat U) (of_nat I) (pm_upper pm (of_nat U)) = Some r \<and>
      search_found pm (U * pm_size pm + I) r"
  using assms(2,3)
proof (induction "unat (pm_lastPage pm) + 2 * pm_size pm - (U * pm_size pm + I)" arbitrary: U I rule: less_induct)
  case less
  define B where "B = pm_size pm"
  define L where "L = unat (pm_lastPage pm)"
  define P where "P = U * B + I"
  have bits: "unat (pm_bits pm) < 31" "L + 2 * B < 2 ^ 64" "B = 2 ^ unat (pm_bits pm)"
    using assms(1) by (simp_all add: pm_ok_def B_def L_def pm_size_def)
  have UL: "U * B \<le> L" "I < B" "0 < B" using less.prems bits(3) by (simp_all add: B_def L_def)
  then have U: "U \<le> L" by (metis One_nat_def Suc_leI le_trans mult.right_neutral mult_le_mono2)
  have P: "P div B = U" "P mod B = I" "P < L + B" using UL by (simp_all add: P_def)
  have next_row: "(of_nat U + 1) * int_bit (pm_bits pm) = (of_nat ((U + 1) * B) :: addr)"
    unfolding int_bit_eq(1) [OF bits(1)] bits(3) by (simp add: algebra_simps)
  have row: "(U + 1) * B = P + (B - I)" using UL by (simp add: P_def)
  have small: "unat (of_nat ((U + 1) * B) :: addr) = (U + 1) * B" "unat (of_nat P :: addr) = P"
    using UL bits(2) P(3) by (intro unat_of_nat_addr; simp)+
  have skip: "\<exists>r. page_loop pm p (of_nat U) i 0 = Some r \<and> search_found pm P r"
    if empty: "\<And>q. P \<le> q \<Longrightarrow> q < (U + 1) * B \<Longrightarrow> page_entry pm q = 0" for p i
  proof (cases "(U + 1) * B \<le> L")
    case True
    have le: "\<not> (of_nat ((U + 1) * B) :: addr) > pm_lastPage pm"
      using True small(1) by (simp add: word_less_nat_alt L_def del: of_nat_mult)
    have "L + 2 * B - ((U + 1) * B + 0) < L + 2 * B - (U * B + I)" using UL True by (simp add: P_def)
    then obtain r where r: "page_loop pm (of_nat ((U + 1) * B + 0)) (of_nat (U + 1)) (of_nat 0) (pm_upper pm (of_nat (U + 1))) = Some r"
      "search_found pm ((U + 1) * B + 0) r"
      using less.hyps [of "U + 1" 0] True UL(3) unfolding B_def L_def by blast
    have "page_loop pm (of_nat ((U + 1) * B)) (of_nat U + 1) 0 (pm_upper pm (of_nat U + 1)) = Some r"
      using r(1) by (simp add: add.commute)
    then have "page_loop pm p (of_nat U) i 0 = Some r"
      using le by (subst page_loop.simps) (simp add: next_row Let_def del: of_nat_mult)
    moreover have "search_found pm P r"
      using r(2) empty row unfolding search_found_def
      by (cases r) (fastforce simp: not_less split: prod.splits)+
    ultimately show ?thesis by blast
  next
    case False
    then have "(of_nat ((U + 1) * B) :: addr) > pm_lastPage pm"
      using small(1) by (simp add: word_less_nat_alt L_def del: of_nat_mult)
    then have "page_loop pm p (of_nat U) i 0 = Some None"
      by (subst page_loop.simps) (simp add: next_row Let_def del: of_nat_mult)
    moreover have "search_found pm P None" using empty False by (auto simp: search_found_def L_def)
    ultimately show ?thesis by blast
  qed
  have row_of: "q div B = U" if "P \<le> q" "q < (U + 1) * B" for q
  proof -
    have "U * B \<le> q" using that(1) by (simp add: P_def)
    then show ?thesis using that(2) UL(3) by (intro div_nat_eqI) (simp_all add: mult.commute)
  qed
  define lower where "lower = pm_upper pm (of_nat U)"
  have here: "page_entry pm P = (if lower = 0 then 0 else pm_entry pm lower (of_nat I))"
    using P(1,2) by (simp add: page_entry_def B_def [symmetric] lower_def Let_def)
  have "\<exists>r. page_loop pm (of_nat P) (of_nat U) (of_nat I) lower = Some r \<and> search_found pm P r"
  proof (cases "page_entry pm P = 0")
    case False
    then have "page_loop pm (of_nat P) (of_nat U) (of_nat I) lower = Some (Some (of_nat P, lower, of_nat I, page_entry pm P))"
      using here by (subst page_loop.simps) (auto simp: Let_def split: if_splits)
    moreover have "U \<le> L div B" using UL by (simp add: less_eq_div_iff_mult_less_eq)
    then have "search_found pm P (Some (of_nat P, lower, of_nat I, page_entry pm P))"
      using False small(2) P by (auto simp: search_found_def B_def [symmetric] L_def [symmetric] lower_def)
    ultimately show ?thesis by blast
  next
    case zero: True
    show ?thesis
    proof (cases "lower = 0")
      case True
      have "page_entry pm q = 0" if "P \<le> q" "q < (U + 1) * B" for q
        using row_of [OF that] True by (simp add: page_entry_def B_def [symmetric] lower_def Let_def)
      from skip [OF this, of "of_nat P" "of_nat I"] show ?thesis using True by simp
    next
      case False
      have last: "(of_nat I + 1 :: addr) = int_bit (pm_bits pm) \<longleftrightarrow> I + 1 = B"
      proof -
        have "unat (of_nat (I + 1) :: addr) = I + 1" "unat (int_bit (pm_bits pm)) = B"
          using UL bits unat_of_nat_addr [of "I + 1"] int_bit_eq(2) [OF bits(1)] by simp_all
        then show ?thesis by (metis of_nat_Suc Suc_eq_plus1 add.commute word_unat_eq_iff)
      qed
      show ?thesis
      proof (cases "I + 1 = B")
        case True
        have "page_loop pm (of_nat P) (of_nat U) (of_nat I) lower = page_loop pm (of_nat P) (of_nat U) (of_nat I + 1) 0"
          using here zero False last True by (subst page_loop.simps) (simp add: Let_def)
        moreover have "q = P" if "P \<le> q" "q < (U + 1) * B" for q using that row True by simp
        ultimately show ?thesis using skip [of "of_nat P" "of_nat I + 1"] zero by metis
      next
        case no: False
        have step: "page_loop pm (of_nat P) (of_nat U) (of_nat I) lower =
            page_loop pm (of_nat (U * B + (I + 1))) (of_nat U) (of_nat (I + 1)) lower"
          using here zero False last no by (subst page_loop.simps) (simp add: Let_def P_def add.commute add.left_commute)
        have "L + 2 * B - (U * B + (I + 1)) < L + 2 * B - (U * B + I)" using UL by linarith
        then obtain r where r: "page_loop pm (of_nat (U * B + (I + 1))) (of_nat U) (of_nat (I + 1)) lower = Some r"
          "search_found pm (U * B + (I + 1)) r"
          using less.hyps [of U "I + 1"] UL no unfolding B_def [symmetric] L_def [symmetric] lower_def by auto
        have "search_found pm P r"
          using r(2) zero unfolding search_found_def P_def
          by (cases r) (auto simp: le_Suc_eq Suc_le_eq split: prod.splits dest: le_neq_implies_less)
        then show ?thesis using step r(1) by auto
      qed
    qed
  qed
  then show ?case by (simp add: P_def B_def lower_def)
qed

lemma first_page_from_outcome:
  assumes "pm_ok pm"
  shows "\<exists>r. first_page_from pm page = Some r \<and> search_found pm (unat page) r"
proof (cases "page > pm_lastPage pm")
  case True
  then show ?thesis by (auto simp: first_page_from_def search_found_def word_less_nat_alt)
next
  case False
  define B where "B = pm_size pm"
  have bits: "unat (pm_bits pm) < 31" "B = 2 ^ unat (pm_bits pm)"
    using assms by (simp_all add: pm_ok_def B_def pm_size_def)
  define U where "U = unat page div B"
  define I where "I = unat page mod B"
  have UI: "unat page = U * B + I" "I < B" using bits(2) by (simp_all only: U_def I_def div_mult_mod_eq) simp
  have u: "drop_bit (unat (pm_bits pm)) page = of_nat U"
  proof -
    have "unat (drop_bit (unat (pm_bits pm)) page) = U"
      using bits(1) by (simp add: drop_bit_eq_div U_def bits(2) unat_div_distrib unat_two_power)
    then have "(of_nat U :: addr) = of_nat (unat (drop_bit (unat (pm_bits pm)) page))" by (simp only:)
    then show ?thesis by (simp add: word_of_nat_eq_iff)
  qed
  have "page = of_nat (unat page)" by simp
  then have p: "page = of_nat (U * B + I)" using UI(1) by (simp only:)
  then have i: "page - push_bit (unat (pm_bits pm)) (of_nat U) = of_nat I"
    using bits(2) by (simp add: push_bit_eq_mult)
  have "U * B \<le> unat (pm_lastPage pm)" using False UI(1) by (simp add: word_less_nat_alt)
  then obtain r where "page_loop pm (of_nat (U * B + I)) (of_nat U) (of_nat I) (pm_upper pm (of_nat U)) = Some r"
    "search_found pm (U * B + I) r"
    using page_loop_outcome [OF assms, of U I] UI(2) unfolding B_def by blast
  then show ?thesis using False u i p UI(1) by (auto simp: first_page_from_def Let_def)
qed

section \<open>The contract of a page iterator\<close>

text \<open>The states of an iterator that is advanced until it is finished, and its last state.\<close>

inductive iterates :: "('s \<Rightarrow> bool) \<Rightarrow> ('s \<Rightarrow> 's option) \<Rightarrow> 's \<Rightarrow> 's list \<Rightarrow> 's \<Rightarrow> bool" for fin adv where
  iterates_end: "fin s \<Longrightarrow> iterates fin adv s [] s"
| iterates_step: "\<not> fin s \<Longrightarrow> adv s = Some s' \<Longrightarrow> iterates fin adv s' ss s'' \<Longrightarrow> iterates fin adv s (s # ss) s''"

inductive_cases iterates_NilE: "iterates fin adv s [] s'"
inductive_cases iterates_ConsE: "iterates fin adv s (t # ss) s'"

text \<open>A loop \<open>for (...; !it.Finished(); it.Advance())\<close> whose body may change \<open>d\<close>, and what it does.\<close>

partial_function (option) for_each ::
  "('s \<Rightarrow> bool) \<Rightarrow> ('s \<Rightarrow> 's option) \<Rightarrow> ('s \<Rightarrow> 'd \<Rightarrow> 'd option) \<Rightarrow> 's \<Rightarrow> 'd \<Rightarrow> 'd option" where
  "for_each fin adv body s d =
     (if fin s then Some d
      else Option.bind (body s d) (\<lambda>d'. Option.bind (adv s) (\<lambda>s'. for_each fin adv body s' d')))"

lemma for_each_iterates:
  assumes "iterates fin adv s ss s'" "\<And>t d. t \<in> set ss \<Longrightarrow> body t d = Some (f t d)"
  shows "for_each fin adv body s d = Some (fold f ss d)"
  using assms
proof (induction arbitrary: d rule: iterates.induct)
  case (iterates_end s)
  then show ?case by (subst for_each.simps) simp
next
  case (iterates_step s s' ss s'')
  have "body s d = Some (f s d)" by (rule iterates_step.prems) simp
  then show ?case using iterates_step by (subst for_each.simps) simp
qed

text \<open>
  An iterator over the page map \<open>pm c\<close> that goes to the first page with an entry from a page on.  On sound maps
  what it finds there has a number of pages, which do not pass the last page, and satisfies \<open>good\<close>.
\<close>

locale page_iterator =
  fixes sound :: "'c \<Rightarrow> bool" and pm :: "'c \<Rightarrow> page_map" and page :: "'s \<Rightarrow> addr" and pages :: "'s \<Rightarrow> addr"
    and set_first :: "'c \<Rightarrow> addr \<Rightarrow> 's \<Rightarrow> 's option" and good :: "'c \<Rightarrow> 's \<Rightarrow> bool"
    and finished :: "'c \<Rightarrow> 's \<Rightarrow> bool" and advance :: "'c \<Rightarrow> 's \<Rightarrow> 's option"
  assumes sound_map: "sound c \<Longrightarrow> pm_ok (pm c)"
    and set_first_none: "sound c \<Longrightarrow> search_found (pm c) (unat p) None \<Longrightarrow> first_page_from (pm c) p = Some None \<Longrightarrow>
      \<exists>s'. set_first c p s = Some s' \<and> page s' = pm_lastPage (pm c) + 1"
    and set_first_some: "sound c \<Longrightarrow> search_found (pm c) (unat p) (Some (q, r)) \<Longrightarrow>
      first_page_from (pm c) p = Some (Some (q, r)) \<Longrightarrow> q \<le> pm_lastPage (pm c) \<Longrightarrow>
      \<exists>s'. set_first c p s = Some s' \<and> page s' = q \<and> 0 < pages s' \<and>
        unat q + unat (pages s') \<le> unat (pm_lastPage (pm c)) + 1 \<and> good c s'"
    and set_first_past: "sound c \<Longrightarrow> search_found (pm c) (unat p) (Some (q, r)) \<Longrightarrow>
      first_page_from (pm c) p = Some (Some (q, r)) \<Longrightarrow> q > pm_lastPage (pm c) \<Longrightarrow>
      \<exists>s'. set_first c p s = Some s' \<and> page s' = q"
    and finished_iff: "finished c s \<longleftrightarrow> page s > pm_lastPage (pm c)"
    and advance_eq: "\<not> finished c s \<Longrightarrow> advance c s = set_first c (page s + pages s) s"
begin

definition covers :: "'c \<Rightarrow> nat \<Rightarrow> 's list \<Rightarrow> bool" where
  "covers c P ss \<longleftrightarrow>
     (\<forall>t\<in>set ss. P \<le> unat (page t) \<and> page_entry (pm c) (unat (page t)) \<noteq> 0 \<and> 0 < pages t \<and>
        unat (page t) + unat (pages t) \<le> unat (pm_lastPage (pm c)) + 1 \<and> good c t) \<and>
     sorted_wrt (\<lambda>t t'. unat (page t) + unat (pages t) \<le> unat (page t')) ss \<and>
     (\<forall>q. P \<le> q \<and> q \<le> unat (pm_lastPage (pm c)) \<and> page_entry (pm c) q \<noteq> 0 \<longrightarrow>
        (\<exists>t\<in>set ss. unat (page t) \<le> q \<and> q < unat (page t) + unat (pages t)))"

lemma iterates_from:
  assumes "sound c"
  shows "\<exists>s' ss s''. set_first c p s = Some s' \<and> iterates (finished c) (advance c) s' ss s'' \<and> covers c (unat p) ss"
proof (induction "unat (pm_lastPage (pm c)) + 1 - unat p" arbitrary: p s rule: less_induct)
  case less
  let ?L = "unat (pm_lastPage (pm c))"
  have L: "?L + 2 < 2 ^ 64"
  proof -
    have "1 \<le> pm_size (pm c)" by (simp add: pm_size_def)
    then show ?thesis using sound_map [OF assms] unfolding pm_ok_def by linarith
  qed
  obtain r where r: "first_page_from (pm c) p = Some r" "search_found (pm c) (unat p) r"
    using first_page_from_outcome [OF sound_map [OF assms]] by blast
  show ?case
  proof (cases r)
    case None
    obtain s' where s': "set_first c p s = Some s'" "page s' = pm_lastPage (pm c) + 1"
      using set_first_none [OF assms] r None by blast
    have "page s' > pm_lastPage (pm c)"
      unfolding s'(2) word_less_nat_alt using L unat_Suc_word [of "pm_lastPage (pm c)"] by simp
    then have "iterates (finished c) (advance c) s' [] s'" by (simp add: iterates_end finished_iff)
    moreover have "covers c (unat p) []" using r(2) None by (auto simp: covers_def search_found_def)
    ultimately show ?thesis using s'(1) by blast
  next
    case (Some f)
    obtain q f' where f: "f = (q, f')" by (cases f)
    have found: "unat p \<le> unat q" "page_entry (pm c) (unat q) \<noteq> 0" "\<forall>q'. unat p \<le> q' \<and> q' < unat q \<longrightarrow> page_entry (pm c) q' = 0"
      using r(2) Some f by (auto simp: search_found_def)
    show ?thesis
    proof (cases "q \<le> pm_lastPage (pm c)")
      case False
      obtain s' where s': "set_first c p s = Some s'" "page s' = q"
        using set_first_past [OF assms, of p q f' s] r Some f False by (auto simp: not_le)
      have "iterates (finished c) (advance c) s' [] s'" using s' False by (simp add: iterates_end finished_iff not_le)
      moreover have "?L < unat q" using False by (simp add: word_le_nat_alt not_le)
      then have "q' < unat q" if "q' \<le> ?L" for q' using that by (rule le_less_trans [rotated])
      then have "covers c (unat p) []" using found(3) by (simp add: covers_def)
      ultimately show ?thesis using s'(1) by blast
    next
      case True
      obtain s' where s': "set_first c p s = Some s'" "page s' = q" "0 < pages s'" "unat q + unat (pages s') \<le> ?L + 1" "good c s'"
        using set_first_some [OF assms] r Some f True by blast
      have u: "unat (q + pages s') = unat q + unat (pages s')"
        using s'(4) L unat_add_of_nat [of q "unat (pages s')"] by simp
      have n: "0 < unat (pages s')" using s'(3) by (simp add: word_less_nat_alt)
      have "?L + 1 - unat (q + pages s') < ?L + 1 - unat p" using u n s'(4) found(1) by linarith
      from less.hyps [OF this, of s'] obtain s1 ss s2 where
        ss: "set_first c (q + pages s') s' = Some s1" "iterates (finished c) (advance c) s1 ss s2" "covers c (unat (q + pages s')) ss"
        by blast
      have nf: "\<not> finished c s'" using True s'(2) by (simp add: finished_iff)
      then have "advance c s' = Some s1" using advance_eq ss(1) s'(2) by simp
      then have it: "iterates (finished c) (advance c) s' (s' # ss) s2" using iterates_step [of "finished c", OF nf] ss(2) by blast
      have cov: "\<forall>t\<in>set ss. unat (q + pages s') \<le> unat (page t) \<and> page_entry (pm c) (unat (page t)) \<noteq> 0 \<and> 0 < pages t \<and>
          unat (page t) + unat (pages t) \<le> ?L + 1 \<and> good c t"
        "sorted_wrt (\<lambda>t t'. unat (page t) + unat (pages t) \<le> unat (page t')) ss"
        "\<forall>q'. unat (q + pages s') \<le> q' \<and> q' \<le> ?L \<and> page_entry (pm c) q' \<noteq> 0 \<longrightarrow>
           (\<exists>t\<in>set ss. unat (page t) \<le> q' \<and> q' < unat (page t) + unat (pages t))"
        using ss(3) unfolding covers_def by blast+
      have "covers c (unat p) (s' # ss)"
        unfolding covers_def
      proof (intro conjI allI impI)
        show "\<forall>t\<in>set (s' # ss). unat p \<le> unat (page t) \<and> page_entry (pm c) (unat (page t)) \<noteq> 0 \<and> 0 < pages t \<and>
            unat (page t) + unat (pages t) \<le> ?L + 1 \<and> good c t"
          using cov(1) s' found u n by auto
        show "sorted_wrt (\<lambda>t t'. unat (page t) + unat (pages t) \<le> unat (page t')) (s' # ss)"
          using cov(1,2) s'(2) u by auto
        show "\<exists>t\<in>set (s' # ss). unat (page t) \<le> q' \<and> q' < unat (page t) + unat (pages t)"
          if q': "unat p \<le> q' \<and> q' \<le> ?L \<and> page_entry (pm c) q' \<noteq> 0" for q'
        proof (cases "unat (q + pages s') \<le> q'")
          case True
          then show ?thesis using cov(3) q' by auto
        next
          case False
          have "unat q \<le> q'" using found(3) q' by (meson not_le)
          then show ?thesis using False u s'(2) by auto
        qed
      qed
      then show ?thesis using s'(1) it by blast
    qed
  qed
qed

end

section \<open>Both iterators meet it\<close>

text \<open>Sound page maps: a span starts where its first page says, has pages and does not pass the last mapped page.\<close>

definition tc_sound :: "VirtualAddressMap \<Rightarrow> TcMap \<Rightarrow> bool" where
  "tc_sound m tc \<longleftrightarrow>
     pm_ok (tc_page_map m tc) \<and>
     (\<forall>p. p \<le> tc_lastMappedPage tc \<longrightarrow>
        (let span = page_entry (tc_page_map m tc) (unat p); n = word_or m (span + tc_numPagesFieldInSpan tc) 0 in
         span \<noteq> 0 \<and> word_or m (span + tc_firstPageFieldInSpan tc) 0 = p \<longrightarrow>
           0 < n \<and> unat p + unat n \<le> unat (tc_lastMappedPage tc) + 1)) \<and>
     (\<forall>c. 0 < c \<and> c < tc_numSizes tc \<longrightarrow> u32_or m (tc_sizes tc + 4 * c) 0 \<noteq> 0)"

definition go_sound :: "VirtualAddressMap \<Rightarrow> GoMap \<Rightarrow> bool" where
  "go_sound m go \<longleftrightarrow>
     pm_ok (go_page_map m go) \<and>
     (\<forall>p. p \<le> go_lastMappedPage go \<longrightarrow>
        (let mspan = page_entry (go_page_map m go) (unat p); n = word_or m (mspan + go_numPagesInMspan go) 0 in
         mspan \<noteq> 0 \<and> word_or m (mspan + go_startAddrInMspan go) 0 = push_bit (unat (go_pageOffsetBits go)) p \<longrightarrow>
           0 < n \<and> unat p + unat n \<le> unat (go_lastMappedPage go) + 1))"

lemma pm_fields [simp]:
  "pm_lastPage (tc_page_map m tc) = tc_lastMappedPage tc" "pm_lastPage (go_page_map m go) = go_lastMappedPage go"
  by (simp_all add: tc_page_map_def go_page_map_def)

text \<open>
  What the memory says of the page with the number \<open>q\<close>, written out by the addresses: its entry, and the size class
  of the span it belongs to, which is in the span or in the leaf at the place of the page.
\<close>

definition tc_leaf :: "VirtualAddressMap \<Rightarrow> TcMap \<Rightarrow> nat \<Rightarrow> addr" where
  "tc_leaf m tc q = word_or m (tc_pageMap tc + of_nat (8 * (q div 2 ^ unat (tc_leafIndexBits tc)))) 0"

definition tc_entry :: "VirtualAddressMap \<Rightarrow> TcMap \<Rightarrow> nat \<Rightarrow> addr" where
  "tc_entry m tc q =
     (if tc_leaf m tc q = 0 then 0
      else word_or m (tc_leaf m tc q + tc_spansInLeaf tc + of_nat (8 * (q mod 2 ^ unat (tc_leafIndexBits tc)))) 0)"

definition tc_size_class :: "VirtualAddressMap \<Rightarrow> TcMap \<Rightarrow> nat \<Rightarrow> nat" where
  "tc_size_class m tc q =
     (let i = q mod 2 ^ unat (tc_leafIndexBits tc) in
      if tc_simpleLeaf tc then unat (u8_or m (tc_entry m tc q + tc_compactSizeClassFieldInSpan tc) 0)
      else if tc_sizeOfCompactSizeClass tc = 1 then unat (u8_or m (tc_leaf m tc q + of_nat i) 0)
      else unat (u16_or m (tc_leaf m tc q + of_nat (2 * i)) 0))"

text \<open>
  A state of the iterator at a page gives what the memory says of the page.  If the span of the page starts there,
  its pages are those the span counts and it is in use if the location bits say so; a span in use with a size class
  is divided into allocations of the size of the class, unless it is smaller than that, and any other is one
  allocation.  A page that is not the first of its span stands for itself, free.
\<close>

definition tc_span_state :: "VirtualAddressMap \<Rightarrow> TcMap \<Rightarrow> PageMapIterator \<Rightarrow> bool" where
  "tc_span_state m tc t \<longleftrightarrow>
     (let span = tc_entry m tc (unat (pi_page t)); c = tc_size_class m tc (unat (pi_page t));
          first = (word_or m (span + tc_firstPageFieldInSpan tc) 0 = pi_page t);
          used = (first \<and> u8_or m (span + tc_locationAndSampledBitInSpan tc) 0xff AND tc_locationMask tc = 0);
          each = ucast (u32_or m (tc_sizes tc + of_nat (4 * c)) 0)
      in pi_span t = span \<and> pi_firstAddressForSpan t = push_bit (unat (tc_pageOffsetBits tc)) (pi_page t) \<and>
         pi_numPagesForSpan t = (if first then word_or m (span + tc_numPagesFieldInSpan tc) 0 else 1) \<and>
         pi_spanSize t = (if first then push_bit (unat (tc_pageOffsetBits tc)) (pi_numPagesForSpan t)
                          else int_bit (tc_pageOffsetBits tc)) \<and>
         (pi_spanIsUsed t \<longleftrightarrow> used) \<and>
         (if used \<and> 0 < c \<and> c < unat (tc_numSizes tc) \<and> each \<le> pi_spanSize t
          then pi_allocationSize t = each \<and> pi_numAllocationsInSpan t = pi_spanSize t div each
          else pi_allocationSize t = pi_spanSize t \<and> pi_numAllocationsInSpan t = 1))"

text \<open>The same for Go, where the upper level lies behind a table and there is no division into allocations yet.\<close>

definition go_entry :: "VirtualAddressMap \<Rightarrow> GoMap \<Rightarrow> nat \<Rightarrow> addr" where
  "go_entry m go q =
     (let arena = word_or m (go_arenasFieldValue go + 0x1000000 + of_nat (8 * (q div 2 ^ unat (go_spansIndexBits go)))) 0 in
      if arena = 0 then 0
      else word_or m (arena + go_spansInHeapArena go + of_nat (8 * (q mod 2 ^ unat (go_spansIndexBits go)))) 0)"

definition go_range_state :: "VirtualAddressMap \<Rightarrow> GoMap \<Rightarrow> MappedPageRangeIterator \<Rightarrow> bool" where
  "go_range_state m go t \<longleftrightarrow>
     (let mspan = go_entry m go (unat (ri_page t)); address = push_bit (unat (go_pageOffsetBits go)) (ri_page t);
          first = (word_or m (mspan + go_startAddrInMspan go) 0 = address)
      in ri_firstAddressForRange t = address \<and> ri_mspan t = (if first then mspan else 0) \<and>
         ri_numPagesForRange t = (if first then word_or m (mspan + go_numPagesInMspan go) 0 else 1) \<and>
         ri_rangeSize t = (if first then push_bit (unat (go_pageOffsetBits go)) (ri_numPagesForRange t)
                           else int_bit (go_pageOffsetBits go)))"

lemma tc_entry_eq: "page_entry (tc_page_map m tc) q = tc_entry m tc q"
  by (simp add: page_entry_def pm_size_def tc_page_map_def tc_entry_def tc_leaf_def mult.commute)

lemma go_entry_eq: "page_entry (go_page_map m go) q = go_entry m go q"
  by (simp add: page_entry_def pm_size_def go_page_map_def go_entry_def Let_def mult.commute)

lemma unat_ucast_32: "unat (ucast (x :: 32 word) :: addr) = unat x"
proof -
  have "unat x < 2 ^ 64" using unsigned_less [of x, where 'a = nat] by simp
  then show ?thesis by (simp add: unsigned_ucast_eq take_bit_nat_eq_self)
qed

lemma set_span_outcome:
  assumes "tc_sound m tc"
  shows "\<exists>t. set_span m tc it (page, leaf, leafIndex, span) = Some t \<and> pi_page t = page \<and> pi_span t = span \<and>
    pi_numPagesForSpan t = (if word_or m (span + tc_firstPageFieldInSpan tc) 0 = page
                            then word_or m (span + tc_numPagesFieldInSpan tc) 0 else 1)"
proof -
  have "ucast (u32_or m (tc_sizes tc + 4 * c) 0) \<noteq> (0 :: addr)" if "0 < c" "c < tc_numSizes tc" for c
  proof
    assume "ucast (u32_or m (tc_sizes tc + 4 * c) 0) = (0 :: addr)"
    then have "u32_or m (tc_sizes tc + 4 * c) 0 = 0" by (metis unat_ucast_32 unsigned_0 unsigned_eq_0_iff)
    then show False using assms that by (auto simp: tc_sound_def)
  qed
  then show ?thesis by (simp add: set_span_def Let_def)
qed

lemma compact_size_class_eq:
  assumes "leaf = pm_upper (tc_page_map m tc) (of_nat (q div pm_size (tc_page_map m tc)))"
    "leafIndex = of_nat (q mod pm_size (tc_page_map m tc))"
  shows "compact_size_class m tc (tc_entry m tc q) leaf leafIndex = of_nat (tc_size_class m tc q)"
  using assms by (simp add: compact_size_class_def tc_size_class_def tc_leaf_def tc_page_map_def pm_size_def mult.commute)

lemma set_span_state:
  assumes "set_span m tc it (page, leaf, leafIndex, span) = Some t" "span = tc_entry m tc (unat page)"
    "leaf = pm_upper (tc_page_map m tc) (of_nat (unat page div pm_size (tc_page_map m tc)))"
    "leafIndex = of_nat (unat page mod pm_size (tc_page_map m tc))"
  shows "tc_span_state m tc t"
proof -
  let ?n = "tc_size_class m tc (unat page)"
  have "?n < 2 ^ 16"
    using unsigned_less [where 'a = nat and 'b = 8] unsigned_less [where 'a = nat and 'b = 16]
    by (fastforce simp: tc_size_class_def Let_def intro: less_trans)
  then have u: "unat (of_nat ?n :: addr) = ?n" by (intro unat_of_nat_addr) simp
  then have c: "(0 :: addr) < of_nat ?n \<longleftrightarrow> 0 < ?n" "(of_nat ?n :: addr) < k \<longleftrightarrow> ?n < unat k" for k
    by (simp_all add: word_less_nat_alt)
  have p: "pi_page t = page" using assms(1) by (auto simp: set_span_def Let_def split: if_splits)
  show ?thesis
    using assms(1) unfolding tc_span_state_def p assms(2)
    by (auto simp: set_span_def Let_def compact_size_class_eq [OF assms(3,4)] c mult.commute split: if_splits)
qed

interpretation tc: page_iterator "\<lambda>(m, tc). tc_sound m tc" "\<lambda>(m, tc). tc_page_map m tc" pi_page pi_numPagesForSpan
    "\<lambda>(m, tc). SetFirstNonEmptyPageFrom m tc" "\<lambda>(m, tc). tc_span_state m tc"
    "\<lambda>(m, tc). pi_Finished tc" "\<lambda>(m, tc). pi_Advance m tc"
proof (unfold_locales, goal_cases)
  case (1 c)
  then show ?case by (auto simp: tc_sound_def)
next
  case (2 c p s)
  then show ?case by (auto simp: SetFirstNonEmptyPageFrom_def)
next
  case (3 c p q r s)
  obtain m tc where c: "c = (m, tc)" by (cases c)
  obtain leaf idx span where r: "r = (leaf, idx, span)" by (cases r)
  obtain t where t: "set_span m tc s (q, leaf, idx, span) = Some t" "pi_page t = q" "pi_span t = span"
    "pi_numPagesForSpan t = (if word_or m (span + tc_firstPageFieldInSpan tc) 0 = q
                            then word_or m (span + tc_numPagesFieldInSpan tc) 0 else 1)"
    using set_span_outcome [of m tc s q leaf idx span] 3(1) c by auto
  have e: "span = page_entry (tc_page_map m tc) (unat q)" "span \<noteq> 0" using 3(2) c r by (auto simp: search_found_def)
  have "0 < pi_numPagesForSpan t \<and> unat q + unat (pi_numPagesForSpan t) \<le> unat (tc_lastMappedPage tc) + 1"
    using 3(1,4) e t(4) c by (auto simp: tc_sound_def Let_def word_le_nat_alt)
  moreover have "tc_span_state m tc t"
    using set_span_state [OF t(1)] 3(2) c r e(1) by (auto simp: search_found_def tc_entry_eq)
  ultimately show ?case using t e 3(3) c r by (auto simp: SetFirstNonEmptyPageFrom_def)
next
  case (4 c p q r s)
  obtain m tc where c: "c = (m, tc)" by (cases c)
  obtain leaf idx span where r: "r = (leaf, idx, span)" by (cases r)
  show ?case using 4 c r set_span_outcome [of m tc s q leaf idx span] by (auto simp: SetFirstNonEmptyPageFrom_def)
qed (auto simp: pi_Finished_def pi_Advance_def split: prod.splits)

interpretation go: page_iterator "\<lambda>(m, go). go_sound m go" "\<lambda>(m, go). go_page_map m go" ri_page ri_numPagesForRange
    "\<lambda>(m, go). SetFirstNonEmptyPageFrom_go m go" "\<lambda>(m, go). go_range_state m go"
    "\<lambda>(m, go). ri_Finished go" "\<lambda>(m, go). ri_Advance m go"
proof (unfold_locales, goal_cases)
  case (1 c)
  then show ?case by (auto simp: go_sound_def)
next
  case (2 c p s)
  then show ?case by (auto simp: SetFirstNonEmptyPageFrom_go_def)
next
  case (3 c p q r s)
  obtain m go where c: "c = (m, go)" by (cases c)
  obtain ha idx mspan where r: "r = (ha, idx, mspan)" by (cases r)
  have e: "mspan = page_entry (go_page_map m go) (unat q)" "mspan \<noteq> 0" using 3(2) c r by (auto simp: search_found_def)
  have t: "SetFirstNonEmptyPageFrom_go m go p s = Some (set_range m go s q mspan)"
    using 3(3) c r by (simp add: SetFirstNonEmptyPageFrom_go_def)
  have p: "ri_page (set_range m go s q mspan) = q"
    "ri_numPagesForRange (set_range m go s q mspan) =
      (if word_or m (mspan + go_startAddrInMspan go) 0 = push_bit (unat (go_pageOffsetBits go)) q
       then word_or m (mspan + go_numPagesInMspan go) 0 else 1)"
    by (simp_all add: set_range_def Let_def)
  have "0 < ri_numPagesForRange (set_range m go s q mspan) \<and>
      unat q + unat (ri_numPagesForRange (set_range m go s q mspan)) \<le> unat (go_lastMappedPage go) + 1"
    using 3(1,4) e p(2) c by (auto simp: go_sound_def Let_def word_le_nat_alt)
  moreover have "go_range_state m go (set_range m go s q mspan)"
    unfolding go_range_state_def p(1) e(1) go_entry_eq by (simp add: set_range_def Let_def)
  ultimately show ?case using t p e c by auto
next
  case (4 c p q r s)
  then show ?case by (auto simp: SetFirstNonEmptyPageFrom_go_def set_range_def Let_def split: prod.splits)
qed (auto simp: ri_Finished_def ri_Advance_def split: prod.splits)

end
