(* ===== verification/Tc_Finder.thy ===== *)
theory Tc_Finder
  imports Page_Maps Free_Lists
begin

text \<open>
  The class \<open>PageMapAllocationFinder\<close> of TCMalloc/PageMapAllocationFinder.h: it reports the allocations of all
  spans of mapped pages and, when it comes to the end, marks as free those on the free lists of the spans.  What
  is written to the error stream is left out.  \<open>None\<close> is an access through a null pointer, an exception that
  nothing catches, a division by 0 or a loop that does not end.
\<close>

section \<open>State\<close>

text \<open>What the infrastructure finder says of the layout of a span, beside what the iterator uses.\<close>

record TcLayout =
  tl_map :: TcMap
  tl_freeAllocationListInSpan :: addr
  tl_bitMapOrCacheInSpan :: addr
  tl_cacheSizeInSpan :: addr
  tl_freeObjectIndexInSpan :: addr
  tl_embedCountInSpan :: addr
  tl_usedObjectCountInSpan :: addr

definition NOT_A_FIELD_OFFSET :: addr where "NOT_A_FIELD_OFFSET = NOT 0"

record PageMapFinder =
  pf_iterator :: PageMapIterator
  pf_sizeToMinRequestSize :: "addr \<rightharpoonup> addr"
  pf_largestSmallSize :: addr
  pf_indexInSpan :: addr
  pf_numAllocationsInSpan :: addr
  pf_allocationAddress :: addr
  pf_allocationSize :: addr
  pf_allocationIsUsed :: bool

section \<open>Construction and queries\<close>

text \<open>\<open>reader.ReadU32(a)\<close>, as an offset\<close>

definition u32_at :: "VirtualAddressMap \<Rightarrow> addr \<Rightarrow> addr option" where
  "u32_at m a = map_option (\<lambda>bs. of_nat (le_value bs)) (read_spec m a 4)"

text \<open>The table of the smallest requests, which the finder of Go builds in the same way.\<close>

fun min_request_sizes ::
  "VirtualAddressMap \<Rightarrow> addr \<Rightarrow> nat list \<Rightarrow> addr \<Rightarrow> (addr \<rightharpoonup> addr) \<Rightarrow> (addr \<rightharpoonup> addr) option" where
  "min_request_sizes m sizes [] prevSize t = Some t"
| "min_request_sizes m sizes (i # ks) prevSize t =
     (case u32_at m (sizes + of_nat i * 4) of
        None \<Rightarrow> None
      | Some sz \<Rightarrow> min_request_sizes m sizes ks sz (t(sz \<mapsto> prevSize + 1)))"

definition take_span :: "PageMapIterator \<Rightarrow> PageMapFinder \<Rightarrow> PageMapFinder" where
  "take_span it f =
     f\<lparr>pf_iterator := it, pf_allocationAddress := pi_firstAddressForSpan it, pf_allocationSize := pi_allocationSize it,
       pf_allocationIsUsed := pi_spanIsUsed it, pf_indexInSpan := 0, pf_numAllocationsInSpan := pi_numAllocationsInSpan it\<rparr>"

definition PageMapAllocationFinder_new :: "VirtualAddressMap \<Rightarrow> TcLayout \<Rightarrow> PageMapFinder option" where
  "PageMapAllocationFinder_new m lay =
     (let tc = tl_map lay in
      Option.bind (PageMapIterator_new m tc) (\<lambda>it.
      Option.bind (u32_at m (tc_sizes tc + (tc_numSizes tc - 1) * 4)) (\<lambda>largest.
      Option.bind (min_request_sizes m (tc_sizes tc) [1..<unat (tc_numSizes tc)] 0 [0 \<mapsto> 0]) (\<lambda>t.
        let f = \<lparr>pf_iterator = it, pf_sizeToMinRequestSize = t, pf_largestSmallSize = largest, pf_indexInSpan = 0,
                 pf_numAllocationsInSpan = 0, pf_allocationAddress = 0, pf_allocationSize = 0, pf_allocationIsUsed = False\<rparr>
        in Some (if pi_Finished tc it then f else take_span it f)))))"

definition pf_Finished :: "TcLayout \<Rightarrow> PageMapFinder \<Rightarrow> bool" where
  "pf_Finished lay f \<longleftrightarrow> pi_Finished (tl_map lay) (pf_iterator f)"

definition pf_Next :: "PageMapFinder \<Rightarrow> pending" where
  "pf_Next f = (pf_allocationAddress f, pf_allocationSize f, pf_allocationIsUsed f)"

definition pf_MinRequestSize :: "TcLayout \<Rightarrow> PageMapFinder \<Rightarrow> addr \<Rightarrow> addr" where
  "pf_MinRequestSize lay f sz =
     (case pf_sizeToMinRequestSize f sz of
        Some r \<Rightarrow> r
      | None \<Rightarrow>
          if sz > pf_largestSmallSize f then sz - int_bit (tc_pageOffsetBits (tl_map lay)) + 1 else sz)"

section \<open>Free allocations\<close>

partial_function (option) mark_run :: "addr \<Rightarrow> addr \<Rightarrow> addr \<Rightarrow> nat \<Rightarrow> Directory \<Rightarrow> Directory option" where
  "mark_run sz limit address index d =
     (if address < limit then
        (case AllocationAt d index of
           None \<Rightarrow> None
         | Some al \<Rightarrow>
             if al_Address al \<noteq> address then Some d
             else mark_run sz limit (address + sz) (index + 1) (MarkAsFree d index))
      else Some d)"

definition MarkAllocationRunAsFree :: "addr \<Rightarrow> addr \<Rightarrow> addr \<Rightarrow> Directory \<Rightarrow> Directory option" where
  "MarkAllocationRunAsFree address sz numAllocs d =
     (let index = AllocationIndexOf d address in
      if index = NumAllocations d then Some d
      else mark_run sz (address + sz * numAllocs) address index d)"

partial_function (option) mark_bits :: "addr \<Rightarrow> addr \<Rightarrow> addr \<Rightarrow> addr \<Rightarrow> nat \<Rightarrow> Directory \<Rightarrow> Directory option" where
  "mark_bits sz limit address bitMap index d =
     (if address < limit then
        if bitMap = 0 then Some d
        else mark_bits sz limit (address + sz) (drop_bit 1 bitMap) (index + 1)
               (if bitMap AND 1 = 1 then MarkAsFree d index else d)
      else Some d)"

definition MarkFreeAllocationsFromBitMap ::
  "VirtualAddressMap \<Rightarrow> TcLayout \<Rightarrow> addr \<Rightarrow> addr \<Rightarrow> addr \<Rightarrow> addr \<Rightarrow> Directory \<Rightarrow> Directory option" where
  "MarkFreeAllocationsFromBitMap m lay span firstAddress sz limit d =
     (let bitMap = word_or m (span + tl_bitMapOrCacheInSpan lay) 0 in
      if bitMap = 0 then Some d
      else
        let index = AllocationIndexOf d firstAddress in
        if index = NumAllocations d then Some d else mark_bits sz limit firstAddress bitMap index d)"

definition tc_maxObjectIndex :: "TcLayout \<Rightarrow> addr \<Rightarrow> addr" where
  "tc_maxObjectIndex lay sz = int_bit (tc_pageOffsetBits (tl_map lay) - 3) - sz div 8"

text \<open>The allocation at an object index, which counts in units of 8 bytes.\<close>

definition object_allocation :: "nat \<Rightarrow> addr \<Rightarrow> addr \<Rightarrow> nat" where
  "object_allocation index sz objectIndex = (index + unat (push_bit 3 objectIndex div sz)) mod 2 ^ 32"

fun mark_cached :: "addr \<Rightarrow> addr \<Rightarrow> nat \<Rightarrow> nat \<Rightarrow> addr \<Rightarrow> Directory \<Rightarrow> Directory" where
  "mark_cached maxIndex sz index 0 cache d = d"
| "mark_cached maxIndex sz index (Suc n) cache d =
     (let objectIndex = cache AND 0xffff in
      if objectIndex > maxIndex then d
      else mark_cached maxIndex sz index n (drop_bit 16 cache) (MarkAsFree d (object_allocation index sz objectIndex)))"

definition MarkFreeAllocationsFromCache ::
  "VirtualAddressMap \<Rightarrow> TcLayout \<Rightarrow> addr \<Rightarrow> addr \<Rightarrow> addr \<Rightarrow> Directory \<Rightarrow> Directory" where
  "MarkFreeAllocationsFromCache m lay span firstAddress sz d =
     (let cache = word_or m (span + tl_bitMapOrCacheInSpan lay) (NOT 0);
          index = AllocationIndexOf d firstAddress
      in if index = NumAllocations d then d
         else
           let numLeftInCache = unat (u8_or m (span + tl_cacheSizeInSpan lay) 0) in
           if numLeftInCache > 4 then d
           else mark_cached (tc_maxObjectIndex lay sz) sz index numLeftInCache cache d)"

text \<open>The entries of one block of the compressed list.\<close>

fun mark_block ::
  "VirtualAddressMap \<Rightarrow> addr \<Rightarrow> addr \<Rightarrow> nat \<Rightarrow> addr \<Rightarrow> nat list \<Rightarrow> Directory \<Rightarrow> Directory" where
  "mark_block m maxIndex sz index linkAddr [] d = d"
| "mark_block m maxIndex sz index linkAddr (k # ks) d =
     (let objectIndex = ucast (u16_or m (linkAddr + of_nat k * 2) 0xffff) in
      if objectIndex > maxIndex then d
      else mark_block m maxIndex sz index linkAddr ks (MarkAsFree d (object_allocation index sz objectIndex)))"

partial_function (option) mark_blocks ::
  "VirtualAddressMap \<Rightarrow> addr \<Rightarrow> addr \<Rightarrow> nat \<Rightarrow> addr \<Rightarrow> addr \<Rightarrow> 16 word \<Rightarrow> 16 word \<Rightarrow> Directory \<Rightarrow> Directory option" where
  "mark_blocks m maxIndex sz index firstAddress links freeObjectIndex indexCountInBlock d =
     (if links > maxIndex then Some d
      else if ucast freeObjectIndex > maxIndex then Some d
      else
        let d1 = MarkAsFree d (object_allocation index sz (ucast freeObjectIndex));
            linkAddr = firstAddress + push_bit 3 (ucast freeObjectIndex);
            d2 = mark_block m maxIndex sz index linkAddr [1..<unat indexCountInBlock + 1] d1;
            next_free = u16_or m linkAddr 0xffff
        in if next_free \<noteq> 0xffff then
             mark_blocks m maxIndex sz index firstAddress (links + 1) next_free (ucast (sz div 2 - 1)) d2
           else Some d2)"

definition MarkFreeAllocationsFromCompressedList ::
  "VirtualAddressMap \<Rightarrow> TcLayout \<Rightarrow> addr \<Rightarrow> addr \<Rightarrow> addr \<Rightarrow> Directory \<Rightarrow> Directory option" where
  "MarkFreeAllocationsFromCompressedList m lay span firstAddress sz d =
     (let index = AllocationIndexOf d firstAddress in
      if index = NumAllocations d then Some d
      else
        let freeObjectIndex = u16_or m (span + tl_freeObjectIndexInSpan lay) 0xffff in
        if freeObjectIndex = 0xffff then Some d
        else
          let indexCountInFullBlock = sz div 2 - 1;
              indexCountInBlock = u16_or m (span + tl_embedCountInSpan lay) (ucast (indexCountInFullBlock + 1))
          in if ucast indexCountInBlock > indexCountInFullBlock then Some d
             else mark_blocks m (tc_maxObjectIndex lay sz) sz index firstAddress 0 freeObjectIndex indexCountInBlock d)"

text \<open>The free list of gperftools, one link in each free allocation.\<close>

partial_function (option) mark_list ::
  "VirtualAddressMap \<Rightarrow> addr \<Rightarrow> addr \<Rightarrow> addr \<Rightarrow> addr \<Rightarrow> nat \<Rightarrow> addr \<Rightarrow> addr \<Rightarrow> Directory \<Rightarrow> Directory option" where
  "mark_list m firstAddress limit sz numExpected numInDirectory numOnList address d =
     (if address \<noteq> 0 then
        if numOnList + 1 > numExpected + 10 then Some d
        else if address < firstAddress \<or> address + sz > limit then Some d
        else
          let index = AllocationIndexOf d address in
          if index = numInDirectory then Some d
          else
            (case AllocationAt d index of
               None \<Rightarrow> None
             | Some al \<Rightarrow>
                 if al_Address al \<noteq> address then Some d
                 else mark_list m firstAddress limit sz numExpected numInDirectory (numOnList + 1) (word_or m address 0)
                        (MarkAsFree d index))
      else Some d)"

definition CorrectFreeAllocationsOnListForSpan ::
  "VirtualAddressMap \<Rightarrow> TcLayout \<Rightarrow> addr \<Rightarrow> addr \<Rightarrow> addr \<Rightarrow> addr \<Rightarrow> addr \<Rightarrow> Directory \<Rightarrow> Directory option" where
  "CorrectFreeAllocationsOnListForSpan m lay span firstAddress limit sz numAllocs d =
     (let address = word_or m (span + tl_freeAllocationListInSpan lay) 0;
          usedObjectCount = ucast (u16_or m (span + tl_usedObjectCountInSpan lay) 0)
      in if usedObjectCount = 0 then MarkAllocationRunAsFree firstAddress sz numAllocs d
         else if usedObjectCount > numAllocs then Some d
         else mark_list m firstAddress limit sz (numAllocs - usedObjectCount) (NumAllocations d) 0 address d)"

definition correct_span :: "VirtualAddressMap \<Rightarrow> TcLayout \<Rightarrow> PageMapIterator \<Rightarrow> Directory \<Rightarrow> Directory option" where
  "correct_span m lay it d =
     (if \<not> pi_spanIsUsed it then Some d
      else
        let sz = pi_allocationSize it; spanSize = pi_spanSize it in
        if sz = spanSize then Some d
        else
          let span = pi_span it; numAllocs = pi_numAllocationsInSpan it; firstAddress = pi_firstAddressForSpan it;
              limit = firstAddress + spanSize
          in if tl_freeAllocationListInSpan lay \<noteq> NOT_A_FIELD_OFFSET then
               CorrectFreeAllocationsOnListForSpan m lay span firstAddress limit sz numAllocs d
             else if tl_bitMapOrCacheInSpan lay \<noteq> NOT_A_FIELD_OFFSET then
               if numAllocs \<le> 64 then MarkFreeAllocationsFromBitMap m lay span firstAddress sz limit d
               else MarkFreeAllocationsFromCompressedList m lay span firstAddress sz
                      (MarkFreeAllocationsFromCache m lay span firstAddress sz d)
             else Some d)"

definition CorrectCentrallyFreeAllocationStatus :: "VirtualAddressMap \<Rightarrow> TcLayout \<Rightarrow> Directory \<Rightarrow> Directory option" where
  "CorrectCentrallyFreeAllocationStatus m lay d =
     Option.bind (PageMapIterator_new m (tl_map lay)) (\<lambda>it. for_each (pi_Finished (tl_map lay)) (pi_Advance m (tl_map lay)) (correct_span m lay) it d)"

section \<open>Advancing\<close>

definition pf_Advance ::
  "VirtualAddressMap \<Rightarrow> TcLayout \<Rightarrow> PageMapFinder \<times> Directory \<Rightarrow> (PageMapFinder \<times> Directory) option" where
  "pf_Advance m lay = (\<lambda>(f, d).
     if pi_Finished (tl_map lay) (pf_iterator f) then Some (f, d)
     else
       let f1 = f\<lparr>pf_indexInSpan := pf_indexInSpan f + 1\<rparr> in
       if pf_indexInSpan f1 < pf_numAllocationsInSpan f1 then
         Some (f1\<lparr>pf_allocationAddress := pf_allocationAddress f1 + pf_allocationSize f1\<rparr>, d)
       else
         Option.bind (pi_Advance m (tl_map lay) (pf_iterator f1)) (\<lambda>it.
           if pi_Finished (tl_map lay) it then
             map_option (Pair (f1\<lparr>pf_iterator := it\<rparr>)) (CorrectCentrallyFreeAllocationStatus m lay d)
           else Some (take_span it f1, d)))"


section \<open>What the finder reports\<close>

text \<open>The allocations of a span.\<close>

definition span_allocations :: "PageMapIterator \<Rightarrow> pending list" where
  "span_allocations t =
     run_allocations (pi_firstAddressForSpan t) (pi_allocationSize t) (unat (pi_numAllocationsInSpan t)) (\<lambda>k. pi_spanIsUsed t)"

definition tc_at :: "VirtualAddressMap \<times> TcLayout \<Rightarrow> PageMapIterator list \<Rightarrow> nat \<Rightarrow> PageMapFinder \<times> Directory \<Rightarrow> bool" where
  "tc_at c ts k s \<longleftrightarrow>
     (\<exists>m lay f d t ss s''. c = (m, lay) \<and> s = (f, d) \<and> ts = t # ss \<and>
        iterates (pi_Finished (tl_map lay)) (pi_Advance m (tl_map lay)) (pf_iterator f) ts s'' \<and>
        (\<forall>t\<in>set ts. 0 < pi_numAllocationsInSpan t) \<and> k < unat (pi_numAllocationsInSpan t) \<and>
        pf_indexInSpan f = of_nat k \<and> pf_numAllocationsInSpan f = pi_numAllocationsInSpan t \<and>
        pf_Next f = (pi_firstAddressForSpan t + of_nat k * pi_allocationSize t, pi_allocationSize t, pi_spanIsUsed t) \<and>
        CorrectCentrallyFreeAllocationStatus m lay d \<noteq> None)"

lemma length_span_allocations [simp]: "length (span_allocations t) = unat (pi_numAllocationsInSpan t)"
  by (simp add: span_allocations_def)

lemma tc_index_step:
  assumes "k < unat (n :: addr)"
  shows "of_nat k + 1 < n \<longleftrightarrow> k + 1 < unat n"
proof -
  have "unat (of_nat (k + 1) :: addr) = k + 1"
    using assms unsigned_less [of n, where 'a = nat] by (intro unat_of_nat_addr) simp
  then show ?thesis unfolding word_less_nat_alt by (simp add: add.commute)
qed

interpretation tc_finder: grouped_finder "\<lambda>c. span_allocations" tc_at "\<lambda>(m, lay) (f, d). pf_Finished lay f"
    "\<lambda>(m, lay). pf_Advance m lay" "\<lambda>c (f, d). pf_Next f" snd
    "\<lambda>(m, lay) d d'. CorrectCentrallyFreeAllocationStatus m lay d = Some d'"
proof (unfold_locales, goal_cases)
  case (1 c g gs k s)
  then show ?case
    by (auto simp: tc_at_def span_allocations_def pf_Finished_def elim: iterates_ConsE)
next
  case (2 c g gs k s)
  then obtain m lay f d s'' where
    c: "c = (m, lay)" "s = (f, d)" and it: "iterates (pi_Finished (tl_map lay)) (pi_Advance m (tl_map lay)) (pf_iterator f) (g # gs) s''"
    and num: "\<forall>t\<in>set (g # gs). 0 < pi_numAllocationsInSpan t" "k < unat (pi_numAllocationsInSpan g)"
    and f: "pf_indexInSpan f = of_nat k" "pf_numAllocationsInSpan f = pi_numAllocationsInSpan g"
      "pf_Next f = (pi_firstAddressForSpan g + of_nat k * pi_allocationSize g, pi_allocationSize g, pi_spanIsUsed g)"
    and d: "CorrectCentrallyFreeAllocationStatus m lay d \<noteq> None"
    by (auto simp: tc_at_def)
  have nf: "\<not> pi_Finished (tl_map lay) (pf_iterator f)" using it by (auto elim: iterates_ConsE)
  have more: "of_nat k + 1 < pi_numAllocationsInSpan g" using 2(2) tc_index_step [OF num(2)] by simp
  then have adv: "pf_Advance m lay (f, d) =
      Some (f\<lparr>pf_indexInSpan := of_nat k + 1, pf_allocationAddress := pf_allocationAddress f + pf_allocationSize f\<rparr>, d)"
    using nf f(1,2) by (simp add: pf_Advance_def)
  show ?case
    using it num f d 2(2) by (simp add: c adv tc_at_def pf_Next_def algebra_simps) blast
next
  case (3 c g g' gs k s)
  then obtain m lay f d s'' where
    c: "c = (m, lay)" "s = (f, d)" and it: "iterates (pi_Finished (tl_map lay)) (pi_Advance m (tl_map lay)) (pf_iterator f) (g # g' # gs) s''"
    and num: "\<forall>t\<in>set (g # g' # gs). 0 < pi_numAllocationsInSpan t" "k < unat (pi_numAllocationsInSpan g)"
    and f: "pf_indexInSpan f = of_nat k" "pf_numAllocationsInSpan f = pi_numAllocationsInSpan g"
    and d: "CorrectCentrallyFreeAllocationStatus m lay d \<noteq> None"
    by (auto simp: tc_at_def)
  have nf: "\<not> pi_Finished (tl_map lay) (pf_iterator f)" "\<not> pi_Finished (tl_map lay) g'"
    "pi_Advance m (tl_map lay) (pf_iterator f) = Some g'"
    "iterates (pi_Finished (tl_map lay)) (pi_Advance m (tl_map lay)) g' (g' # gs) s''"
    using it by (auto elim!: iterates_ConsE intro: iterates_step)
  have "\<not> of_nat k + 1 < pi_numAllocationsInSpan g" using 3(2) tc_index_step [OF num(2)] by simp
  then have adv: "pf_Advance m lay (f, d) = Some (take_span g' (f\<lparr>pf_indexInSpan := of_nat k + 1\<rparr>), d)"
    using nf f by (simp add: pf_Advance_def)
  show ?case
    using nf(4) num d by (simp add: c adv tc_at_def take_span_def pf_Next_def word_less_nat_alt) blast
next
  case (4 c g k s)
  then obtain m lay f d s'' where
    c: "c = (m, lay)" "s = (f, d)" and it: "iterates (pi_Finished (tl_map lay)) (pi_Advance m (tl_map lay)) (pf_iterator f) [g] s''"
    and num: "k < unat (pi_numAllocationsInSpan g)"
    and f: "pf_indexInSpan f = of_nat k" "pf_numAllocationsInSpan f = pi_numAllocationsInSpan g"
    and d: "CorrectCentrallyFreeAllocationStatus m lay d \<noteq> None"
    by (auto simp: tc_at_def)
  have nf: "\<not> pi_Finished (tl_map lay) (pf_iterator f)" "pi_Finished (tl_map lay) s''"
    "pi_Advance m (tl_map lay) (pf_iterator f) = Some s''"
    using it by (auto elim!: iterates_ConsE iterates_NilE)
  have "\<not> of_nat k + 1 < pi_numAllocationsInSpan g" using 4(2) tc_index_step [OF num] by simp
  then show ?case using nf f d by (auto simp: c pf_Advance_def pf_Finished_def)
qed

text \<open>A span within pages that fit the addresses a packed allocation can hold.\<close>

definition tc_small :: "TcMap \<Rightarrow> bool" where
  "tc_small tc \<longleftrightarrow> unat (tc_pageOffsetBits tc) < 31 \<and>
     (unat (tc_lastMappedPage tc) + 1) * 2 ^ unat (tc_pageOffsetBits tc) < 2 ^ 52"

lemma tc_span_shape:
  assumes "tc_sound m tc" "tc_small tc" "tc_span_state m tc t" "0 < pi_numPagesForSpan t"
    "unat (pi_page t) + unat (pi_numPagesForSpan t) \<le> unat (tc_lastMappedPage tc) + 1"
  shows "unat (pi_firstAddressForSpan t) = unat (pi_page t) * 2 ^ unat (tc_pageOffsetBits tc)"
    "unat (pi_numAllocationsInSpan t) * unat (pi_allocationSize t) \<le>
       unat (pi_numPagesForSpan t) * 2 ^ unat (tc_pageOffsetBits tc)"
    "0 < pi_numAllocationsInSpan t" "0 < pi_allocationSize t"
    "(unat (pi_page t) + unat (pi_numPagesForSpan t)) * 2 ^ unat (tc_pageOffsetBits tc) < 2 ^ 52"
proof -
  let ?b = "unat (tc_pageOffsetBits tc)" and ?n = "pi_numPagesForSpan t"
  have b: "?b < 31" using assms(2) by (simp add: tc_small_def)
  then have two: "unat (2 ^ ?b :: addr) = 2 ^ ?b" using unat_two_power [of ?b, where 'a = 64] by simp
  show small: "(unat (pi_page t) + unat ?n) * 2 ^ ?b < 2 ^ 52"
    using assms(2,5) mult_le_mono1 [OF assms(5), of "2 ^ ?b"] unfolding tc_small_def by linarith
  then have fit: "unat (pi_page t) * 2 ^ ?b < 2 ^ 64" "unat ?n * 2 ^ ?b < 2 ^ 64"
    by (simp_all add: add_mult_distrib)
  have shift: "unat (push_bit ?b x) = unat x * 2 ^ ?b" if "unat x * 2 ^ ?b < 2 ^ 64" for x :: addr
    using that by (simp add: push_bit_eq_mult unat_word_ariths two)
  have sizes: "ucast (u32_or m (tc_sizes tc + of_nat (4 * c)) 0) \<noteq> (0 :: addr)" if "0 < c" "c < unat (tc_numSizes tc)" for c
  proof
    assume "ucast (u32_or m (tc_sizes tc + of_nat (4 * c)) 0) = (0 :: addr)"
    then have z: "u32_or m (tc_sizes tc + 4 * of_nat c) 0 = 0" by (metis unat_ucast_32 unsigned_0 unsigned_eq_0_iff of_nat_mult of_nat_numeral)
    have "unat (of_nat c :: addr) = c" using that(2) unsigned_less [of "tc_numSizes tc", where 'a = nat] by (intro unat_of_nat_addr) simp
    then have "0 < (of_nat c :: addr) \<and> of_nat c < tc_numSizes tc" using that by (simp add: word_less_nat_alt)
    then show False using assms(1) z by (auto simp: tc_sound_def)
  qed
  have fields: "pi_firstAddressForSpan t = push_bit ?b (pi_page t)"
    "pi_numAllocationsInSpan t = 1 \<and> pi_allocationSize t = pi_spanSize t \<or>
     pi_numAllocationsInSpan t = pi_spanSize t div pi_allocationSize t \<and> pi_allocationSize t \<le> pi_spanSize t \<and>
       pi_allocationSize t \<noteq> 0"
    "pi_spanSize t = push_bit ?b ?n \<or> ?n = 1 \<and> pi_spanSize t = int_bit (tc_pageOffsetBits tc)"
    using assms(3) sizes unfolding tc_span_state_def Let_def by (auto split: if_splits)
  show "unat (pi_firstAddressForSpan t) = unat (pi_page t) * 2 ^ ?b" using fields(1) shift fit by simp
  have pos: "0 < push_bit ?b ?n" using assms(4) shift [OF fit(2)] by (simp add: word_less_nat_alt)
  have size: "pi_spanSize t = push_bit ?b ?n" using fields(3) int_bit_eq(1) [OF b] by (auto simp: push_bit_eq_mult)
  consider "pi_numAllocationsInSpan t = 1" "pi_allocationSize t = push_bit ?b ?n"
    | inner where "pi_numAllocationsInSpan t = push_bit ?b ?n div inner" "pi_allocationSize t = inner"
        "inner \<le> push_bit ?b ?n" "inner \<noteq> 0"
    using fields(2) unfolding size by blast
  then have "unat (pi_numAllocationsInSpan t) * unat (pi_allocationSize t) \<le> unat (push_bit ?b ?n) \<and>
      0 < pi_numAllocationsInSpan t \<and> 0 < pi_allocationSize t"
  proof cases
    case 1
    then show ?thesis using pos by simp
  next
    case 2
    have "unat inner \<le> unat (push_bit ?b ?n)" "0 < unat inner"
      using 2 by (simp_all add: word_le_nat_alt unat_gt_0)
    then show ?thesis using 2 by (simp add: word_less_nat_alt unat_div div_greater_zero_iff)
  qed
  then show "unat (pi_numAllocationsInSpan t) * unat (pi_allocationSize t) \<le> unat ?n * 2 ^ ?b"
    "0 < pi_numAllocationsInSpan t" "0 < pi_allocationSize t"
    using shift [OF fit(2)] by simp_all
qed


lemma tc_finder_ok:
  assumes "tc_sound m tc" "tc_small tc"
    "\<forall>t\<in>set ts. 0 < pi_numPagesForSpan t \<and> tc_span_state m tc t \<and>
       unat (pi_page t) + unat (pi_numPagesForSpan t) \<le> unat (tc_lastMappedPage tc) + 1"
    "sorted_wrt (\<lambda>t t'. unat (pi_page t) + unat (pi_numPagesForSpan t) \<le> unat (pi_page t')) ts"
  shows "finder_ok (concat (map span_allocations ts))"
proof -
  let ?B = "2 ^ unat (tc_pageOffsetBits tc) :: nat"
  have shape: "unat (pi_firstAddressForSpan t) = unat (pi_page t) * ?B"
    "unat (pi_numAllocationsInSpan t) * unat (pi_allocationSize t) \<le> unat (pi_numPagesForSpan t) * ?B"
    "0 < pi_allocationSize t" "(unat (pi_page t) + unat (pi_numPagesForSpan t)) * ?B < 2 ^ 52" if "t \<in> set ts" for t
    using tc_span_shape [OF assms(1,2), of t] assms(3) that by auto
  have "\<forall>t\<in>set ts. 0 < pi_allocationSize t \<and>
      unat (pi_firstAddressForSpan t) + unat (pi_numAllocationsInSpan t) * unat (pi_allocationSize t) < 2 ^ 52"
    using shape by (fastforce simp: add_mult_distrib)
  moreover have "sorted_wrt (\<lambda>t t'. unat (pi_firstAddressForSpan t) +
      unat (pi_numAllocationsInSpan t) * unat (pi_allocationSize t) \<le> unat (pi_firstAddressForSpan t')) ts"
  proof (rule sorted_wrt_mono_rel [OF _ assms(4)])
    fix t t' assume t: "t \<in> set ts" "t' \<in> set ts" "unat (pi_page t) + unat (pi_numPagesForSpan t) \<le> unat (pi_page t')"
    have "(unat (pi_page t) + unat (pi_numPagesForSpan t)) * ?B \<le> unat (pi_page t') * ?B" using t(3) by (rule mult_le_mono1)
    then show "unat (pi_firstAddressForSpan t) + unat (pi_numAllocationsInSpan t) * unat (pi_allocationSize t) \<le>
        unat (pi_firstAddressForSpan t')"
      using shape(1,2) [OF t(1)] shape(1) [OF t(2)] by (simp add: add_mult_distrib)
  qed
  ultimately have "finder_ok (concat (map (\<lambda>t. run_allocations (pi_firstAddressForSpan t) (pi_allocationSize t)
      (unat (pi_numAllocationsInSpan t)) (\<lambda>k. pi_spanIsUsed t)) ts))" by (rule runs_finder_ok)
  then show ?thesis by (simp add: span_allocations_def [abs_def])
qed

section \<open>Properties\<close>

text \<open>
  C22: The finder of the spans of TCMalloc, on a sound page map whose pages lie below the addresses that a packed
  allocation can hold and with a readable table of sizes.  The constructor returns, and the states of its page map
  iterator are in the order of the pages and disjoint; each of them is at a page that has an entry, from the first
  mapped page on, and gives what the memory says of the span there, its pages, whether it is in use, and the size
  and number of its allocations by the size class that belongs to its page; and every page with an entry is within
  the pages of one of them.  If there are any, the finder driven to its end reports the allocations of all of them,
  span by span, in a way that meets the contract under which \<open>Resolve_correct\<close> merges the finders, and as its
  last step corrects the status of the centrally free allocations, which is assumed to come to an end without an
  access through a null pointer; it is finished at once if there is none.
\<close>

theorem PageMapAllocationFinder_correct:
  assumes "tc_sound m (tl_map lay)" "tc_small (tl_map lay)"
    "u32_at m (tc_sizes (tl_map lay) + (tc_numSizes (tl_map lay) - 1) * 4) = Some largest"
    "min_request_sizes m (tc_sizes (tl_map lay)) [1..<unat (tc_numSizes (tl_map lay))] 0 [0 \<mapsto> 0] = Some table"
    "CorrectCentrallyFreeAllocationStatus m lay d = Some d'"
  shows "\<exists>f ts. PageMapAllocationFinder_new m lay = Some f \<and>
     sorted_wrt (\<lambda>t t'. unat (pi_page t) + unat (pi_numPagesForSpan t) \<le> unat (pi_page t')) ts \<and>
     (\<forall>t\<in>set ts. tc_entry m (tl_map lay) (unat (pi_page t)) \<noteq> 0 \<and>
        tc_span_state m (tl_map lay) t \<and> 0 < pi_numPagesForSpan t \<and>
        tc_firstMappedPage (tl_map lay) \<le> pi_page t \<and>
        unat (pi_page t) + unat (pi_numPagesForSpan t) \<le> unat (tc_lastMappedPage (tl_map lay)) + 1) \<and>
     (\<forall>q. unat (tc_firstMappedPage (tl_map lay)) \<le> q \<and> q \<le> unat (tc_lastMappedPage (tl_map lay)) \<longrightarrow>
        tc_entry m (tl_map lay) q \<noteq> 0 \<longrightarrow>
        (\<exists>t\<in>set ts. unat (pi_page t) \<le> q \<and> q < unat (pi_page t) + unat (pi_numPagesForSpan t))) \<and>
     finder_ok (concat (map span_allocations ts)) \<and>
     (\<exists>f'. finder_drive (\<lambda>(f, d). pf_Finished lay f) (pf_Advance m lay) (\<lambda>(f, d). pf_Next f) (f, d) =
        Some (concat (map span_allocations ts), (f', if ts = [] then d else d')) \<and> pf_Finished lay f')"
proof -
  let ?tc = "tl_map lay"
  let ?fin = "\<lambda>(f :: PageMapFinder, d :: Directory). pf_Finished lay f" and ?nxt = "\<lambda>(f, d :: Directory). pf_Next f"
  obtain it ts s'' where it: "PageMapIterator_new m ?tc = Some it"
    "iterates (pi_Finished ?tc) (pi_Advance m ?tc) it ts s''" "tc.covers (m, ?tc) (unat (tc_firstMappedPage ?tc)) ts"
    using tc.iterates_from [of "(m, ?tc)"] assms(1) unfolding PageMapIterator_new_def by force
  have cov: "\<forall>t\<in>set ts. tc_entry m ?tc (unat (pi_page t)) \<noteq> 0 \<and> 0 < pi_numPagesForSpan t \<and> tc_span_state m ?tc t \<and> tc_firstMappedPage ?tc \<le> pi_page t \<and>
       unat (pi_page t) + unat (pi_numPagesForSpan t) \<le> unat (tc_lastMappedPage ?tc) + 1"
    "sorted_wrt (\<lambda>t t'. unat (pi_page t) + unat (pi_numPagesForSpan t) \<le> unat (pi_page t')) ts"
    "\<forall>q. unat (tc_firstMappedPage ?tc) \<le> q \<and> q \<le> unat (tc_lastMappedPage ?tc) \<longrightarrow>
       tc_entry m ?tc q \<noteq> 0 \<longrightarrow>
       (\<exists>t\<in>set ts. unat (pi_page t) \<le> q \<and> q < unat (pi_page t) + unat (pi_numPagesForSpan t))"
    using it(3) unfolding tc.covers_def by (simp_all add: word_le_nat_alt tc_entry_eq)
  let ?f0 = "\<lparr>pf_iterator = it, pf_sizeToMinRequestSize = table, pf_largestSmallSize = largest, pf_indexInSpan = 0,
    pf_numAllocationsInSpan = 0, pf_allocationAddress = 0, pf_allocationSize = 0, pf_allocationIsUsed = False\<rparr>"
  let ?f = "if pi_Finished ?tc it then ?f0 else take_span it ?f0"
  have new: "PageMapAllocationFinder_new m lay = Some ?f"
    using it(1) assms(3,4) by (simp add: PageMapAllocationFinder_new_def)
  have "\<exists>f'. finder_drive ?fin (pf_Advance m lay) ?nxt (?f, d) =
      Some (concat (map span_allocations ts), (f', if ts = [] then d else d')) \<and> pf_Finished lay f'"
  proof (cases ts)
    case Nil
    then have "pi_Finished ?tc it" using it(2) by (auto elim: iterates_NilE)
    then show ?thesis using Nil by (subst finder_drive.simps) (simp add: pf_Finished_def)
  next
    case (Cons t ss)
    then have t: "\<not> pi_Finished ?tc it" "it = t" using it(2) by (auto elim: iterates_ConsE)
    have "\<forall>t\<in>set ts. 0 < pi_numAllocationsInSpan t"
      using tc_span_shape(3) [OF assms(1,2)] cov(1) by blast
    then have "tc_at (m, lay) (t # ss) 0 (?f, d)"
      using it(2) t assms(5) Cons by (simp add: tc_at_def take_span_def pf_Next_def word_less_nat_alt) blast
    from tc_finder.drive_groups [OF this] show ?thesis
      using Cons assms(5) by (auto simp: case_prod_beta)
  qed
  moreover have "finder_ok (concat (map span_allocations ts))"
    using tc_finder_ok [OF assms(1,2) _ cov(2)] cov(1) by blast
  ultimately show ?thesis using new cov by blast
qed


text \<open>
  Memory with the upper level of a page map at 0x1000, a leaf at 0x1010, the span of the page 1 at 0x1020, which has
  one page with two allocations, of which its bit map says that the second is free, and the sizes at 0x1040.
\<close>

definition span_map :: VirtualAddressMap where
  "span_map = AddRange (VirtualAddressMap_new
     [0x10, 0x10, 0, 0, 0, 0, 0, 0, 0, 0, 0, 0, 0, 0, 0, 0, 0, 0, 0, 0, 0, 0, 0, 0, 0x20, 0x10, 0, 0, 0, 0, 0, 0,
      1, 0, 0, 0, 0, 0, 0, 0, 1, 0, 0, 0, 0, 0, 0, 0, 0, 1, 0, 0, 0, 0, 0, 0, 2, 0, 0, 0, 0, 0, 0, 0,
      0, 0, 0, 0, 0, 0x10, 0, 0])
     0x1000 72 (0 - 0x1000) True True True False False"

definition span_layout :: TcLayout where
  "span_layout =
     \<lparr>tl_map = \<lparr>tc_pageMap = 0x1000, tc_firstMappedPage = 1, tc_lastMappedPage = 1, tc_simpleLeaf = True,
        tc_firstPageFieldInSpan = 0, tc_numPagesFieldInSpan = 8, tc_compactSizeClassFieldInSpan = 0x11,
        tc_locationAndSampledBitInSpan = 0x10, tc_locationMask = 1, tc_sizeOfCompactSizeClass = 1, tc_spansInLeaf = 0,
        tc_leafIndexBits = 1, tc_pageOffsetBits = 13, tc_sizes = 0x1040, tc_numSizes = 2\<rparr>,
      tl_freeAllocationListInSpan = NOT_A_FIELD_OFFSET, tl_bitMapOrCacheInSpan = 0x18,
      tl_cacheSizeInSpan = NOT_A_FIELD_OFFSET, tl_freeObjectIndexInSpan = NOT_A_FIELD_OFFSET,
      tl_embedCountInSpan = NOT_A_FIELD_OFFSET, tl_usedObjectCountInSpan = NOT_A_FIELD_OFFSET\<rparr>"

definition span_directory :: Directory where
  "span_directory = Directory_new\<lparr>allocations :=
     [Allocation_new 0x2000 0x1000 True 0 False, Allocation_new 0x3000 0x1000 True 0 False]\<rparr>"

lemma span_map_entries:
  "rm_map (ranges span_map) = [(0x1048, 72, \<lparr>adjustToFileOffset = 0 - 0x1000, flags = 0x19\<rparr>)]"
  "fileImage span_map =
     [0x10, 0x10, 0, 0, 0, 0, 0, 0, 0, 0, 0, 0, 0, 0, 0, 0, 0, 0, 0, 0, 0, 0, 0, 0, 0x20, 0x10, 0, 0, 0, 0, 0, 0,
      1, 0, 0, 0, 0, 0, 0, 0, 1, 0, 0, 0, 0, 0, 0, 0, 0, 1, 0, 0, 0, 0, 0, 0, 2, 0, 0, 0, 0, 0, 0, 0,
      0, 0, 0, 0, 0, 0x10, 0, 0]"
  by (simp_all add: span_map_def AddRange_def VirtualAddressMap_new_def AddRange_flags_def flag_defs
      MapRange_def RangeMapper_new_def sm_lower_bound_def rm_emplace_result_def sm_emplace_def
      rm_next_def sm_upper_bound_def sm_find_def)

lemma span_map_reads:
  "word_or span_map 0x1000 0 = 0x1010" "word_or span_map 0x1008 0 = 0" "word_or span_map 0x1010 0 = 0"
  "word_or span_map 0x1018 0 = 0x1020" "word_or span_map 0x1020 0 = 1" "word_or span_map 0x1028 0 = 1"
  "word_or span_map 0x1038 0 = 2" "u8_or span_map 0x1030 0xff = 0" "u8_or span_map 0x1031 0 = 1"
  "u32_or span_map 0x1044 0 = 0x1000" "u32_at span_map 0x1044 = Some 0x1000"
  by (simp_all add: word_or_def word_at_def u8_or_def u32_or_def u32_at_def read_spec_def vam_find_def rm_find_def
      sm_upper_bound_def span_map_entries has_image_def flag_defs)

lemma span_layout_fields:
  "tc_pageMap (tl_map span_layout) = 0x1000" "tc_firstMappedPage (tl_map span_layout) = 1"
  "tc_lastMappedPage (tl_map span_layout) = 1" "tc_simpleLeaf (tl_map span_layout)"
  "tc_firstPageFieldInSpan (tl_map span_layout) = 0" "tc_numPagesFieldInSpan (tl_map span_layout) = 8"
  "tc_compactSizeClassFieldInSpan (tl_map span_layout) = 0x11"
  "tc_locationAndSampledBitInSpan (tl_map span_layout) = 0x10" "tc_locationMask (tl_map span_layout) = 1"
  "tc_spansInLeaf (tl_map span_layout) = 0" "tc_leafIndexBits (tl_map span_layout) = 1"
  "tc_leafIndexBits (tl_map span_layout) = 1" "tc_pageOffsetBits (tl_map span_layout) = 13" "tc_sizes (tl_map span_layout) = 0x1040"
  "tc_numSizes (tl_map span_layout) = 2" "tl_freeAllocationListInSpan span_layout = NOT_A_FIELD_OFFSET"
  "tl_bitMapOrCacheInSpan span_layout = 0x18"
  by (simp_all add: span_layout_def)

lemma span_page_map:
  "tc_page_map span_map (tl_map span_layout) =
     \<lparr>pm_upper = (\<lambda>i. word_or span_map (0x1000 + i * 8) 0), pm_entry = (\<lambda>leaf i. word_or span_map (leaf + i * 8) 0),
      pm_bits = 1, pm_lastPage = 1\<rparr>"
  by (simp add: tc_page_map_def span_layout_fields)

lemma span_first_page:
  "first_page_from (tc_page_map span_map (tl_map span_layout)) 1 = Some (Some (1, 0x1010, 1, 0x1020))"
  "first_page_from (tc_page_map span_map (tl_map span_layout)) 2 = Some None"
  unfolding span_page_map
  by (simp_all add: first_page_from_def page_loop.simps span_map_reads)

definition the_span :: PageMapIterator where
  "the_span = \<lparr>pi_page = 1, pi_numPagesForSpan = 1, pi_firstAddressForSpan = 0x2000, pi_spanSize = 0x2000,
     pi_numAllocationsInSpan = 2, pi_allocationSize = 0x1000, pi_spanIsUsed = True, pi_span = 0x1020\<rparr>"

lemma span_iterator:
  "PageMapIterator_new span_map (tl_map span_layout) = Some the_span"
  "\<exists>it. pi_Advance span_map (tl_map span_layout) the_span = Some it \<and> pi_Finished (tl_map span_layout) it"
  by (simp_all add: PageMapIterator_new_def pi_Advance_def pi_Finished_def SetFirstNonEmptyPageFrom_def span_first_page
      set_span_def compact_size_class_def span_layout_fields span_map_reads the_span_def)

lemma not_finished: "\<not> pi_Finished (tl_map span_layout) the_span"
  by (simp add: pi_Finished_def the_span_def span_layout_fields)

lemma span_sound: "tc_sound span_map (tl_map span_layout)" "tc_small (tl_map span_layout)"
proof -
  have p: "p = 0 \<or> p = 1" if "p \<le> 1" for p :: addr
    using that by (simp add: word_le_nat_alt word_unat_eq_iff) arith
  have c: "c = 1" if "0 < c" "c < 2" for c :: addr
    using that by (simp add: word_less_nat_alt word_unat_eq_iff)
  have e: "page_entry (tc_page_map span_map (tl_map span_layout)) 0 = 0"
    "page_entry (tc_page_map span_map (tl_map span_layout)) 1 = 0x1020"
    by (simp_all add: page_entry_def pm_size_def span_page_map span_map_reads)
  have ok: "pm_ok (tc_page_map span_map (tl_map span_layout))" by (simp add: pm_ok_def pm_size_def span_page_map)
  show "tc_sound span_map (tl_map span_layout)"
    unfolding tc_sound_def Let_def
  proof (intro conjI allI impI ok)
    fix p assume "p \<le> tc_lastMappedPage (tl_map span_layout)"
    then have "p = 0 \<or> p = 1" using p by (simp add: span_layout_fields)
    moreover assume "page_entry (tc_page_map span_map (tl_map span_layout)) (unat p) \<noteq> 0 \<and>
      word_or span_map (page_entry (tc_page_map span_map (tl_map span_layout)) (unat p) + tc_firstPageFieldInSpan (tl_map span_layout)) 0 = p"
    ultimately have "p = 1" using e(1) by auto
    then show "0 < word_or span_map (page_entry (tc_page_map span_map (tl_map span_layout)) (unat p) + tc_numPagesFieldInSpan (tl_map span_layout)) 0"
      "unat p + unat (word_or span_map (page_entry (tc_page_map span_map (tl_map span_layout)) (unat p) + tc_numPagesFieldInSpan (tl_map span_layout)) 0)
        \<le> unat (tc_lastMappedPage (tl_map span_layout)) + 1"
      using e(2) by (simp_all add: span_layout_fields span_map_reads)
  next
    fix c assume "0 < c \<and> c < tc_numSizes (tl_map span_layout)"
    then have "c = 1" using c [of c] by (simp add: span_layout_fields)
    then show "u32_or span_map (tc_sizes (tl_map span_layout) + 4 * c) 0 \<noteq> 0" by (simp add: span_layout_fields span_map_reads)
  qed
  show "tc_small (tl_map span_layout)" by (simp add: tc_small_def span_layout_fields)
qed

lemma span_free:
  "CorrectCentrallyFreeAllocationStatus span_map span_layout span_directory = Some (MarkAsFree span_directory 1)"
proof -
  obtain it where it: "pi_Advance span_map (tl_map span_layout) the_span = Some it" "pi_Finished (tl_map span_layout) it"
    using span_iterator(2) by blast
  have "0x1000 \<le> SIZE_MASK" "0 < MAX_FINDERS" by (simp_all add: al_constants mask_eq_exp_minus_1)
  note a = Allocation_new_fields [OF this]
  have "AllocationIndexOf span_directory 0x2000 = 0" "NumAllocations span_directory = 2"
    by (simp_all add: AllocationIndexOf_def span_directory_def Directory_new_def index_search.simps Let_def a NumAllocations_def)
  then have "correct_span span_map span_layout the_span span_directory = Some (MarkAsFree span_directory 1)"
    by (simp add: correct_span_def the_span_def span_layout_fields MarkFreeAllocationsFromBitMap_def span_map_reads
        NOT_A_FIELD_OFFSET_def mark_bits.simps Let_def)
  then show ?thesis
    using it not_finished by (simp add: CorrectCentrallyFreeAllocationStatus_def span_iterator)
      (subst for_each.simps, simp, subst for_each.simps, simp)
qed

theorem PageMapAllocationFinder_correct_witness:
  "\<exists>f f'. PageMapAllocationFinder_new span_map span_layout = Some f \<and>
     finder_drive (\<lambda>(f, d). pf_Finished span_layout f) (pf_Advance span_map span_layout) (\<lambda>(f, d). pf_Next f)
       (f, span_directory) =
       Some ([(0x2000, 0x1000, True), (0x3000, 0x1000, True)], (f', MarkAsFree span_directory 1))"
proof -
  have t: "u32_at span_map (tc_sizes (tl_map span_layout) + (tc_numSizes (tl_map span_layout) - 1) * 4) = Some 0x1000"
    "min_request_sizes span_map (tc_sizes (tl_map span_layout)) [1..<unat (tc_numSizes (tl_map span_layout))] 0 [0 \<mapsto> 0] =
       Some [0 \<mapsto> 0, 0x1000 \<mapsto> 1]"
    by (simp_all add: span_layout_fields span_map_reads upt_rec)
  let ?tc = "tl_map span_layout"
  obtain f ts f' where r: "PageMapAllocationFinder_new span_map span_layout = Some f"
    "sorted_wrt (\<lambda>t t'. unat (pi_page t) + unat (pi_numPagesForSpan t) \<le> unat (pi_page t')) ts"
    "\<forall>t\<in>set ts. tc_entry span_map ?tc (unat (pi_page t)) \<noteq> 0 \<and> tc_span_state span_map ?tc t \<and> 0 < pi_numPagesForSpan t \<and> tc_firstMappedPage ?tc \<le> pi_page t \<and>
        unat (pi_page t) + unat (pi_numPagesForSpan t) \<le> unat (tc_lastMappedPage ?tc) + 1"
    "\<forall>q. unat (tc_firstMappedPage ?tc) \<le> q \<and> q \<le> unat (tc_lastMappedPage ?tc) \<longrightarrow> tc_entry span_map ?tc q \<noteq> 0 \<longrightarrow>
       (\<exists>t\<in>set ts. unat (pi_page t) \<le> q \<and> q < unat (pi_page t) + unat (pi_numPagesForSpan t))"
    "finder_drive (\<lambda>(f, d). pf_Finished span_layout f) (pf_Advance span_map span_layout) (\<lambda>(f, d). pf_Next f)
       (f, span_directory) =
       Some (concat (map span_allocations ts), (f', if ts = [] then span_directory else MarkAsFree span_directory 1))"
    using PageMapAllocationFinder_correct [OF span_sound t span_free] by blast
  have e: "tc_entry span_map ?tc 1 = 0x1020"
    by (simp add: tc_entry_def tc_leaf_def span_layout_fields span_map_reads)
  have one: "unat (pi_page t) = 1 \<and> unat (pi_numPagesForSpan t) = 1" if "t \<in> set ts" for t
    using r(3) that by (fastforce simp: span_layout_fields word_le_nat_alt word_less_nat_alt)
  then have one_span: "span_allocations t = [(0x2000, 0x1000, True), (0x3000, 0x1000, True)]" if t: "t \<in> set ts" for t
  proof -
    have p: "pi_page t = 1" using one [OF t] by (simp add: word_unat_eq_iff)
    have "tc_span_state span_map ?tc t" using r(3) t by blast
    then have "pi_firstAddressForSpan t = 0x2000 \<and> pi_spanIsUsed t \<and> pi_allocationSize t = 0x1000 \<and> pi_numAllocationsInSpan t = 2"
      using e by (simp add: tc_span_state_def p tc_size_class_def span_layout_fields span_map_reads Let_def)
    then show ?thesis by (simp add: span_allocations_def run_allocations_def upt_rec)
  qed
  have "ts \<noteq> []" using r(4) e by (auto simp: span_layout_fields dest!: spec [of _ 1])
  moreover have "\<not> (\<exists>t t' ss. ts = t # t' # ss)" using r(2) one by auto
  ultimately obtain t where "ts = [t]" by (metis list.exhaust)
  then show ?thesis using r(1,5) one_span [of t] by auto
qed


section \<open>The free list of a span\<close>

text \<open>What \<open>mark_list\<close> is for: the nodes of the list as far as each is an allocation of the span, and at most \<open>n\<close>.\<close>

definition mark_starts :: "addr list \<Rightarrow> Directory \<Rightarrow> Directory" where
  "mark_starts xs d = fold (\<lambda>a d. MarkAsFree d (AllocationIndexOf d a)) xs d"

fun list_nodes :: "VirtualAddressMap \<Rightarrow> addr \<Rightarrow> addr \<Rightarrow> addr \<Rightarrow> Directory \<Rightarrow> nat \<Rightarrow> addr \<Rightarrow> addr list" where
  "list_nodes m first limit sz d 0 a = []"
| "list_nodes m first limit sz d (Suc n) a =
     (if a \<noteq> 0 \<and> first \<le> a \<and> a + sz \<le> limit \<and> starts_at d a then a # list_nodes m first limit sz d n (word_or m a 0)
      else [])"

lemma list_nodes_end [simp]: "list_nodes m first limit sz d n 0 = []"
  by (cases n) simp_all

lemma list_nodes_MarkAsFree [simp]: "list_nodes m first limit sz (MarkAsFree d i) n a = list_nodes m first limit sz d n a"
  by (induction n arbitrary: a) simp_all

lemma mark_list_outcome:
  assumes "\<And>x. AllocationIndexOf d x \<le> NumAllocations d" "k \<le> unat expected + 10" "unat expected + 11 < 2 ^ 64"
  shows "mark_list m first limit sz expected (NumAllocations d) (of_nat k) a d =
    Some (mark_starts (list_nodes m first limit sz d (unat expected + 10 - k) a) d)"
  using assms
proof (induction "unat expected + 10 - k" arbitrary: k a d)
  case 0
  have "unat (of_nat k + 1 :: addr) = unat expected + 11" using 0 unat_of_nat_addr [of "k + 1"] by (simp add: add.commute)
  moreover have "unat (expected + 10) = unat expected + 10" using 0 unat_add_of_nat [of expected 10] by simp
  ultimately have "of_nat k + 1 > expected + 10" by (simp add: word_less_nat_alt)
  then show ?case using 0 by (subst mark_list.simps) (simp add: mark_starts_def)
next
  case (Suc n)
  have "unat (of_nat k + 1 :: addr) = k + 1" using Suc.hyps(2) Suc.prems unat_of_nat_addr [of "k + 1"] by (simp add: add.commute)
  moreover have "unat (expected + 10) = unat expected + 10" using Suc.prems unat_add_of_nat [of expected 10] by simp
  ultimately have le: "\<not> of_nat k + 1 > expected + 10" using Suc.hyps(2) by (simp add: word_less_nat_alt)
  let ?i = "AllocationIndexOf d a"
  have n: "unat expected + 10 - k = Suc n" using Suc.hyps(2) by simp
  show ?case
  proof (cases "a \<noteq> 0 \<and> first \<le> a \<and> a + sz \<le> limit \<and> starts_at d a")
    case True
    have nl: "\<not> a < first" "\<not> limit < a + sz" using True by (auto simp: not_less)
    have i: "?i < NumAllocations d" "AllocationAt d ?i = Some (allocations d ! ?i)" "al_Address (allocations d ! ?i) = a"
      using True by (auto simp: starts_at_def AllocationAt_def NumAllocations_def split: if_splits)
    have "mark_list m first limit sz expected (NumAllocations (MarkAsFree d ?i)) (of_nat (k + 1)) (word_or m a 0) (MarkAsFree d ?i) =
        Some (mark_starts (list_nodes m first limit sz (MarkAsFree d ?i) (unat expected + 10 - (k + 1)) (word_or m a 0)) (MarkAsFree d ?i))"
      using Suc.hyps Suc.prems by (intro Suc.hyps(1)) simp_all
    moreover have "unat expected + 10 - (k + 1) = n" using n by simp
    ultimately show ?thesis
      using True le i n nl by (subst mark_list.simps) (simp add: mark_starts_def add.commute)
  next
    case False
    have stop: "starts_at d a \<longleftrightarrow> (case AllocationAt d ?i of None \<Rightarrow> False | Some al \<Rightarrow> al_Address al = a)"
      by (simp add: starts_at_def)
    have "?i = NumAllocations d \<or> (\<exists>al. AllocationAt d ?i = Some al)"
      using Suc.prems(1) [of a] by (auto simp: AllocationAt_def NumAllocations_def)
    then have "mark_list m first limit sz expected (NumAllocations d) (of_nat k) a d = Some d"
      using False le stop by (subst mark_list.simps) (auto simp: Let_def not_less)
    then show ?thesis using False n by (auto simp: mark_starts_def)
  qed
qed

text \<open>
  The walk along the free list of a span always returns, whatever the memory holds, cycles included, once the
  directory is well-formed: it marks as free the allocations at the nodes of the list, as far as every node is an
  allocation of the span that starts there and up to ten more than expected, and changes nothing else.  If the
  span says that nothing in it is used, the list is not looked at.
\<close>

theorem CorrectFreeAllocationsOnListForSpan_correct:
  assumes "dir_ok cur d" "unat numAllocs + 11 < 2 ^ 64" "u16_or m (span + tl_usedObjectCountInSpan lay) 0 = used" "used \<noteq> 0"
  shows "CorrectFreeAllocationsOnListForSpan m lay span first limit sz numAllocs d =
    Some (if unat used > unat numAllocs then d
          else mark_starts (list_nodes m first limit sz d (unat numAllocs - unat used + 10)
                              (word_or m (span + tl_freeAllocationListInSpan lay) 0)) d)"
proof -
  have le: "AllocationIndexOf d x \<le> NumAllocations d" for x
  proof -
    let ?C = "containing (dir_ranges d) (unat x)"
    have "finite ?C" "\<forall>i\<in>?C. i < length (allocations d)" by (auto simp: containing_def)
    then show ?thesis using AllocationIndexOf_spec [OF assms(1), of x] Max_in [of ?C] by (auto simp: NumAllocations_def less_imp_le)
  qed
  have u: "unat (ucast used :: addr) = unat used"
    using unsigned_less [of used, where 'a = nat] by (simp add: unsigned_ucast_eq take_bit_nat_eq_self)
  have z: "(ucast used :: addr) \<noteq> 0" using u assms(4) by (metis unsigned_0 unsigned_eq_0_iff)
  show ?thesis
  proof (cases "(ucast used :: addr) > numAllocs")
    case True
    then show ?thesis using assms(3) z u
      by (simp add: CorrectFreeAllocationsOnListForSpan_def Let_def word_less_nat_alt)
  next
    case False
    then have s: "unat (numAllocs - ucast used) = unat numAllocs - unat used"
      using u unat_sub_le [of "ucast used" numAllocs] by simp
    show ?thesis
      using False assms(2,3) z u s mark_list_outcome [OF le, of 0 "numAllocs - ucast used" m first limit sz]
      by (simp add: CorrectFreeAllocationsOnListForSpan_def Let_def word_less_nat_alt)
  qed
qed

text \<open>A list with one node, for a span that says that 49 of 64 allocations are used.\<close>

theorem CorrectFreeAllocationsOnListForSpan_correct_witness:
  "dir_ok 0x1010 example_directory \<and>
   CorrectFreeAllocationsOnListForSpan (free_map 0 0)
     (span_layout\<lparr>tl_freeAllocationListInSpan := 0x60, tl_usedObjectCountInSpan := 0x28\<rparr>)
     0x1000 0x1000 0x1400 0x10 64 example_directory = Some (MarkAsFree example_directory 0)"
proof -
  let ?lay = "span_layout\<lparr>tl_freeAllocationListInSpan := 0x60, tl_usedObjectCountInSpan := 0x28\<rparr>" and ?d = example_directory
  have u: "u16_or (free_map 0 0) (0x1000 + tl_usedObjectCountInSpan ?lay) 0 = 49" by (simp add: u16_or_def free_map_eval)
  have w: "word_or (free_map 0 0) 0x1000 0 = 0" "word_or (free_map 0 0) 0x1060 0 = 0x1000"
    by (simp_all add: free_map_eval)
  have "unat (0x1000 :: addr) = 0x1000" by simp
  then have C: "containing (dir_ranges ?d) (unat (0x1000 :: addr)) = {0}"
    unfolding example_directory_ok(2) containing_def by (auto simp del: unat_numeral simp: less_Suc_eq)
  then have i: "AllocationIndexOf ?d 0x1000 = 0"
    using AllocationIndexOf_spec [OF example_directory_ok(1), of "0x1000"] by simp
  obtain al al' where as: "allocations ?d = [al, al']" "al_range al = (0x1000, 0x1100)"
    using example_directory_ok(2) by (auto simp: map_eq_Cons_conv)
  then have "starts_at ?d 0x1000" using i by (simp add: starts_at_def AllocationAt_def al_range_def word_unat_eq_iff)
  then have "list_nodes (free_map 0 0) 0x1000 0x1400 0x10 ?d 25 0x1000 = [0x1000]"
    using list_nodes.simps(2) [of "free_map 0 0" "0x1000" "0x1400" "0x10" ?d 24 "0x1000"] w by simp
  then show ?thesis
    using CorrectFreeAllocationsOnListForSpan_correct [OF example_directory_ok(1) _ u, where numAllocs = "64" and first = "0x1000" and limit = "0x1400" and sz = "0x10"] w i
    by (simp add: mark_starts_def example_directory_ok)
qed

end
