(* ===== verification/Go_Finder.thy ===== *)
theory Go_Finder
  imports Page_Maps Tc_Finder
begin

text \<open>
  The class \<open>MappedPageRangeAllocationFinder\<close> of GoLang/MappedPageRangeAllocationFinder.h: it reports the
  elements of all ranges of mapped pages of a Go runtime and, when it comes to the end, marks as free those on the
  free lists of the spans that are managed by hand.  What is written to the error stream is left out.
\<close>

section \<open>State\<close>

record GoLayout =
  gl_map :: GoMap
  gl_numElementsInMspan :: addr
  gl_elementSizeInMspan :: addr
  gl_allocBitsInMspan :: addr
  gl_manualFreeListInMspan :: addr
  gl_stateInMspan :: addr
  gl_sizes :: addr
  gl_numSizes :: addr

record MappedPageRangeFinder =
  rf_iterator :: MappedPageRangeIterator
  rf_sizeToMinRequestSize :: "addr \<rightharpoonup> addr"
  rf_largestSmallSize :: addr
  rf_indexInRange :: addr
  rf_numAllocationsInRange :: addr
  rf_allocBits :: addr
  rf_allocationAddress :: addr
  rf_allocationSize :: addr
  rf_allocationIsUsed :: bool

section \<open>Construction and queries\<close>

text \<open>The size and number of the elements of a range, the address of its bits and whether the first one is used.\<close>

definition range_elements ::
  "VirtualAddressMap \<Rightarrow> GoLayout \<Rightarrow> MappedPageRangeIterator \<Rightarrow> addr \<times> addr \<times> addr \<times> bool" where
  "range_elements m gl it =
     (let rangeSize = ri_rangeSize it; mspan = ri_mspan it in
      if mspan \<noteq> 0 then
        let state = u8_or m (mspan + gl_stateInMspan gl) 0 in
        if state = 1 \<or> state = 2 then
          let elementSize = word_or m (mspan + gl_elementSizeInMspan gl) 0 in
          if state = 1 then
            let allocBits = word_or m (mspan + gl_allocBitsInMspan gl) 0;
                used = (u8_or m allocBits 0 AND 1 \<noteq> 0);
                num = ucast (u16_or m (mspan + gl_numElementsInMspan gl) 0)
            in if num \<noteq> 0 \<and> elementSize \<noteq> 0 \<and> elementSize * num \<le> rangeSize then (elementSize, num, allocBits, used)
               else (rangeSize, 1, allocBits, used)
          else if elementSize \<noteq> 0 \<and> elementSize \<le> rangeSize then (elementSize, rangeSize div elementSize, 0, True)
          else (rangeSize, 1, 0, True)
        else (rangeSize, 1, 0, False)
      else (rangeSize, 1, 0, False))"

definition SetFirstAllocationFromIterator ::
  "VirtualAddressMap \<Rightarrow> GoLayout \<Rightarrow> MappedPageRangeFinder \<Rightarrow> MappedPageRangeFinder" where
  "SetFirstAllocationFromIterator m gl f =
     (let it = rf_iterator f; (sz, num, allocBits, used) = range_elements m gl it in
      f\<lparr>rf_allocationAddress := ri_firstAddressForRange it, rf_allocationSize := sz, rf_indexInRange := 0,
        rf_numAllocationsInRange := num, rf_allocationIsUsed := used, rf_allocBits := allocBits\<rparr>)"

definition MappedPageRangeFinder_new :: "VirtualAddressMap \<Rightarrow> GoLayout \<Rightarrow> MappedPageRangeFinder option" where
  "MappedPageRangeFinder_new m gl =
     Option.bind (MappedPageRangeIterator_new m (gl_map gl)) (\<lambda>it.
     Option.bind (u32_at m (gl_sizes gl + (gl_numSizes gl - 1) * 4)) (\<lambda>largest.
     Option.bind (min_request_sizes m (gl_sizes gl) [1..<unat (gl_numSizes gl)] 0 [0 \<mapsto> 0]) (\<lambda>t.
       let f = \<lparr>rf_iterator = it, rf_sizeToMinRequestSize = t, rf_largestSmallSize = largest, rf_indexInRange = 0,
                rf_numAllocationsInRange = 0, rf_allocBits = 0, rf_allocationAddress = 0, rf_allocationSize = 0,
                rf_allocationIsUsed = False\<rparr>
       in Some (if ri_Finished (gl_map gl) it then f else SetFirstAllocationFromIterator m gl f))))"

definition rf_Finished :: "GoLayout \<Rightarrow> MappedPageRangeFinder \<Rightarrow> bool" where
  "rf_Finished gl f \<longleftrightarrow> ri_Finished (gl_map gl) (rf_iterator f)"

definition rf_Next :: "MappedPageRangeFinder \<Rightarrow> pending" where
  "rf_Next f = (rf_allocationAddress f, rf_allocationSize f, rf_allocationIsUsed f)"

definition rf_MinRequestSize :: "GoLayout \<Rightarrow> MappedPageRangeFinder \<Rightarrow> addr \<Rightarrow> addr" where
  "rf_MinRequestSize gl f sz =
     (case rf_sizeToMinRequestSize f sz of
        Some r \<Rightarrow> r
      | None \<Rightarrow>
          if sz > rf_largestSmallSize f then sz - int_bit (go_pageOffsetBits (gl_map gl)) + 1 else sz)"

section \<open>Free elements\<close>

partial_function (option) mark_manual ::
  "VirtualAddressMap \<Rightarrow> addr \<Rightarrow> addr \<Rightarrow> addr \<Rightarrow> addr \<Rightarrow> nat \<Rightarrow> addr \<Rightarrow> addr \<Rightarrow> Directory \<Rightarrow> Directory option" where
  "mark_manual m firstAddress limit elementSize numElements firstIndex entry marked d =
     (if entry \<noteq> 0 then
        if entry < firstAddress \<or> entry > limit then Some d
        else
          let relativeIndex = (entry - firstAddress) div elementSize in
          if entry \<noteq> firstAddress + relativeIndex * elementSize then Some d
          else
            let d' = MarkAsFree d ((firstIndex + unat relativeIndex) mod 2 ^ 32) in
            if marked + 1 > numElements then Some d'
            else mark_manual m firstAddress limit elementSize numElements firstIndex (word_or m entry 0) (marked + 1) d'
      else Some d)"

definition correct_range ::
  "VirtualAddressMap \<Rightarrow> GoLayout \<Rightarrow> MappedPageRangeIterator \<Rightarrow> Directory \<Rightarrow> Directory option" where
  "correct_range m gl it d =
     (let mspan = ri_mspan it in
      if mspan = 0 then Some d
      else if u8_or m (mspan + gl_stateInMspan gl) 0 \<noteq> 2 then Some d
      else
        let rangeSize = ri_rangeSize it; elementSize = word_or m (mspan + gl_elementSizeInMspan gl) 0 in
        if elementSize = 0 \<or> elementSize > rangeSize then Some d
        else
          let entry = word_or m (mspan + gl_manualFreeListInMspan gl) 0 in
          if entry = 0 then Some d
          else
            let firstAddress = ri_firstAddressForRange it in
            mark_manual m firstAddress (firstAddress + rangeSize) elementSize (rangeSize div elementSize)
              (AllocationIndexOf d firstAddress) entry 0 d)"

definition CorrectCentrallyFreeAllocationStatus_go ::
  "VirtualAddressMap \<Rightarrow> GoLayout \<Rightarrow> Directory \<Rightarrow> Directory option" where
  "CorrectCentrallyFreeAllocationStatus_go m gl d =
     (if gl_manualFreeListInMspan gl = NOT_A_FIELD_OFFSET then Some d
      else
        Option.bind (MappedPageRangeIterator_new m (gl_map gl)) (\<lambda>it.
          for_each (ri_Finished (gl_map gl)) (ri_Advance m (gl_map gl)) (correct_range m gl) it d))"

section \<open>Advancing\<close>

definition rf_Advance ::
  "VirtualAddressMap \<Rightarrow> GoLayout \<Rightarrow> MappedPageRangeFinder \<times> Directory \<Rightarrow> (MappedPageRangeFinder \<times> Directory) option" where
  "rf_Advance m gl = (\<lambda>(f, d).
     if ri_Finished (gl_map gl) (rf_iterator f) then Some (f, d)
     else
       let f1 = f\<lparr>rf_indexInRange := rf_indexInRange f + 1\<rparr>; index = rf_indexInRange f1 in
       if index < rf_numAllocationsInRange f1 then
         let f2 = f1\<lparr>rf_allocationAddress := rf_allocationAddress f1 + rf_allocationSize f1\<rparr> in
         Some (if rf_allocBits f2 \<noteq> 0 then
                 f2\<lparr>rf_allocationIsUsed :=
                      u8_or m (rf_allocBits f2 + index div 8) 0 AND push_bit (unat (index AND 7)) 1 \<noteq> 0\<rparr>
               else f2, d)
       else
         Option.bind (ri_Advance m (gl_map gl) (rf_iterator f1)) (\<lambda>it.
           let f2 = f1\<lparr>rf_iterator := it\<rparr> in
           if ri_Finished (gl_map gl) it then
             map_option (Pair f2) (CorrectCentrallyFreeAllocationStatus_go m gl d)
           else Some (SetFirstAllocationFromIterator m gl f2, d)))"

section \<open>What the finder reports\<close>

text \<open>The elements of a range.\<close>

definition element_used :: "VirtualAddressMap \<Rightarrow> addr \<Rightarrow> bool \<Rightarrow> nat \<Rightarrow> bool" where
  "element_used m allocBits used k \<longleftrightarrow>
     (if allocBits = 0 then used
      else u8_or m (allocBits + of_nat k div 8) 0 AND push_bit (unat (of_nat k AND 7 :: addr)) 1 \<noteq> 0)"

definition range_allocations :: "VirtualAddressMap \<Rightarrow> GoLayout \<Rightarrow> MappedPageRangeIterator \<Rightarrow> pending list" where
  "range_allocations m gl t =
     (case range_elements m gl t of
        (sz, num, allocBits, used) \<Rightarrow> run_allocations (ri_firstAddressForRange t) sz (unat num) (element_used m allocBits used))"

definition go_at ::
  "VirtualAddressMap \<times> GoLayout \<Rightarrow> MappedPageRangeIterator list \<Rightarrow> nat \<Rightarrow> MappedPageRangeFinder \<times> Directory \<Rightarrow> bool" where
  "go_at c ts k s \<longleftrightarrow>
     (\<exists>m gl f d t ss s'' sz num allocBits used. c = (m, gl) \<and> s = (f, d) \<and> ts = t # ss \<and>
        iterates (ri_Finished (gl_map gl)) (ri_Advance m (gl_map gl)) (rf_iterator f) ts s'' \<and>
        (\<forall>t\<in>set ts. range_allocations m gl t \<noteq> []) \<and> range_elements m gl t = (sz, num, allocBits, used) \<and> k < unat num \<and>
        rf_indexInRange f = of_nat k \<and> rf_numAllocationsInRange f = num \<and> rf_allocBits f = allocBits \<and>
        rf_Next f = (ri_firstAddressForRange t + of_nat k * sz, sz, element_used m allocBits used k) \<and>
        CorrectCentrallyFreeAllocationStatus_go m gl d \<noteq> None)"

lemma length_range_allocations:
  "range_elements m gl t = (sz, num, allocBits, used) \<Longrightarrow> length (range_allocations m gl t) = unat num"
  by (simp add: range_allocations_def)

lemma range_elements_bits:
  "range_elements m gl t = (sz, num, allocBits, used) \<Longrightarrow> allocBits \<noteq> 0 \<Longrightarrow> used = (u8_or m allocBits 0 AND 1 \<noteq> 0)"
  by (auto simp: range_elements_def Let_def split: if_splits)

lemma element_used_first:
  "range_elements m gl t = (sz, num, allocBits, used) \<Longrightarrow> element_used m allocBits used 0 = used"
  using range_elements_bits [of m gl t sz num allocBits used] by (auto simp: element_used_def)

interpretation go_finder: grouped_finder "\<lambda>(m, gl). range_allocations m gl" go_at "\<lambda>(m, gl) (f, d). rf_Finished gl f"
    "\<lambda>(m, gl). rf_Advance m gl" "\<lambda>c (f, d). rf_Next f" snd
    "\<lambda>(m, gl) d d'. CorrectCentrallyFreeAllocationStatus_go m gl d = Some d'"
proof (unfold_locales, goal_cases)
  case (1 c g gs k s)
  then show ?case
    by (auto simp: go_at_def range_allocations_def rf_Finished_def elim: iterates_ConsE)
next
  case (2 c g gs k s)
  then obtain m gl f d s'' sz num bits used where
    c: "c = (m, gl)" "s = (f, d)" and it: "iterates (ri_Finished (gl_map gl)) (ri_Advance m (gl_map gl)) (rf_iterator f) (g # gs) s''"
    and num: "\<forall>t\<in>set (g # gs). range_allocations m gl t \<noteq> []" "range_elements m gl g = (sz, num, bits, used)" "k < unat num"
    and f: "rf_indexInRange f = of_nat k" "rf_numAllocationsInRange f = num" "rf_allocBits f = bits"
      "rf_Next f = (ri_firstAddressForRange g + of_nat k * sz, sz, element_used m bits used k)"
    and d: "CorrectCentrallyFreeAllocationStatus_go m gl d \<noteq> None"
    unfolding go_at_def by blast
  have nf: "\<not> ri_Finished (gl_map gl) (rf_iterator f)" using it by (auto elim: iterates_ConsE)
  have more: "of_nat k + 1 < num" "k + 1 < unat num"
    using 2(2) tc_index_step [OF num(3)] length_range_allocations [OF num(2)] c by simp_all
  let ?f = "f\<lparr>rf_indexInRange := of_nat k + 1, rf_allocationAddress := rf_allocationAddress f + rf_allocationSize f,
      rf_allocationIsUsed := element_used m bits used (k + 1)\<rparr>"
  have "\<not> bits \<noteq> 0 \<Longrightarrow> element_used m bits used (k + 1) = rf_allocationIsUsed f"
    using f(4) by (simp add: element_used_def rf_Next_def)
  then have adv: "rf_Advance m gl (f, d) = Some (?f, d)"
    using nf f(1,2,3) more by (simp add: rf_Advance_def element_used_def Let_def add.commute)
  have "rf_Next ?f = (ri_firstAddressForRange g + of_nat (k + 1) * sz, sz, element_used m bits used (k + 1))"
    using f(4) by (simp add: rf_Next_def algebra_simps)
  then have "go_at c (g # gs) (k + 1) (?f, d)"
    using it num more f d by (simp add: go_at_def c add.commute) blast
  then show ?case using adv c by auto
next
  case (3 c g g' gs k s)
  then obtain m gl f d s'' sz num bits used where
    c: "c = (m, gl)" "s = (f, d)" and it: "iterates (ri_Finished (gl_map gl)) (ri_Advance m (gl_map gl)) (rf_iterator f) (g # g' # gs) s''"
    and num: "\<forall>t\<in>set (g # g' # gs). range_allocations m gl t \<noteq> []" "range_elements m gl g = (sz, num, bits, used)" "k < unat num"
    and f: "rf_indexInRange f = of_nat k" "rf_numAllocationsInRange f = num"
    and d: "CorrectCentrallyFreeAllocationStatus_go m gl d \<noteq> None"
    unfolding go_at_def by blast
  have nf: "\<not> ri_Finished (gl_map gl) (rf_iterator f)" "\<not> ri_Finished (gl_map gl) g'"
    "ri_Advance m (gl_map gl) (rf_iterator f) = Some g'"
    "iterates (ri_Finished (gl_map gl)) (ri_Advance m (gl_map gl)) g' (g' # gs) s''"
    using it by (auto elim!: iterates_ConsE intro: iterates_step)
  have less: "\<not> of_nat k + 1 < num"
    using 3(2) tc_index_step [OF num(3)] length_range_allocations [OF num(2)] c by simp
  let ?f = "SetFirstAllocationFromIterator m gl (f\<lparr>rf_indexInRange := of_nat k + 1, rf_iterator := g'\<rparr>)"
  have adv: "rf_Advance m gl (f, d) = Some (?f, d)" using nf f less by (simp add: rf_Advance_def)
  obtain sz' num' bits' used' where e: "range_elements m gl g' = (sz', num', bits', used')" by (metis prod_cases4)
  have "0 < unat num'" using num(1) length_range_allocations [OF e] by (cases "range_allocations m gl g'") auto
  then have "go_at c (g' # gs) 0 (?f, d)"
    using nf(4) num(1) d e element_used_first [OF e]
    by (simp add: go_at_def c SetFirstAllocationFromIterator_def rf_Next_def) blast
  then show ?case using adv c by auto
next
  case (4 c g k s)
  then obtain m gl f d s'' sz num bits used where
    c: "c = (m, gl)" "s = (f, d)" and it: "iterates (ri_Finished (gl_map gl)) (ri_Advance m (gl_map gl)) (rf_iterator f) [g] s''"
    and num: "range_elements m gl g = (sz, num, bits, used)" "k < unat num"
    and f: "rf_indexInRange f = of_nat k" "rf_numAllocationsInRange f = num"
    and d: "CorrectCentrallyFreeAllocationStatus_go m gl d \<noteq> None"
    unfolding go_at_def by blast
  have nf: "\<not> ri_Finished (gl_map gl) (rf_iterator f)" "ri_Finished (gl_map gl) s''"
    "ri_Advance m (gl_map gl) (rf_iterator f) = Some s''"
    using it by (auto elim!: iterates_ConsE iterates_NilE)
  have "\<not> of_nat k + 1 < num"
    using 4(2) tc_index_step [OF num(2)] length_range_allocations [OF num(1)] c by simp
  then show ?case using nf f d by (auto simp: c rf_Advance_def rf_Finished_def)
qed


section \<open>The free lists\<close>

text \<open>
  The list from the entry \<open>a\<close> on, for a range that starts at \<open>first\<close> and has \<open>num\<close> elements of the size \<open>es\<close>: which
  of its elements the first \<open>n\<close> nodes are, as far as every node is one.
\<close>

fun list_elements :: "VirtualAddressMap \<Rightarrow> addr \<Rightarrow> addr \<Rightarrow> nat \<Rightarrow> nat \<Rightarrow> addr \<Rightarrow> nat list" where
  "list_elements m first es num 0 a = []"
| "list_elements m first es num (Suc n) a =
     (let k = (unat a - unat first) div unat es in
      if a \<noteq> 0 \<and> k < num \<and> unat a = unat first + k * unat es
      then k # list_elements m first es num n (word_or m a 0) else [])"

definition mark_indices :: "nat list \<Rightarrow> Directory \<Rightarrow> Directory" where
  "mark_indices xs d = fold (\<lambda>i d. MarkAsFree d i) xs d"

text \<open>
  The allocations to mark for a range.  Its list has no more nodes than the range has elements if it has no circle;
  one more is looked at, which cannot be a new one.
\<close>

definition has_manual_list :: "VirtualAddressMap \<Rightarrow> GoLayout \<Rightarrow> MappedPageRangeIterator \<Rightarrow> bool" where
  "has_manual_list m gl t \<longleftrightarrow>
     (let mspan = ri_mspan t; es = word_or m (mspan + gl_elementSizeInMspan gl) 0 in
      mspan \<noteq> 0 \<and> u8_or m (mspan + gl_stateInMspan gl) 0 = 2 \<and> es \<noteq> 0 \<and> es \<le> ri_rangeSize t)"

definition free_elements :: "VirtualAddressMap \<Rightarrow> GoLayout \<Rightarrow> Directory \<Rightarrow> MappedPageRangeIterator \<Rightarrow> nat list" where
  "free_elements m gl d t =
     (let mspan = ri_mspan t; es = word_or m (mspan + gl_elementSizeInMspan gl) 0; first = ri_firstAddressForRange t;
          num = unat (ri_rangeSize t) div unat es in
      if has_manual_list m gl t
      then map (\<lambda>k. (AllocationIndexOf d first + k) mod 2 ^ 32)
             (list_elements m first es num (num + 1) (word_or m (mspan + gl_manualFreeListInMspan gl) 0))
      else [])"

text \<open>
  The list does not pass through the address right behind the last element of the range: the check of the code
  lets that address pass as well, as the lemma after the next one shows.
\<close>

definition list_within :: "VirtualAddressMap \<Rightarrow> GoLayout \<Rightarrow> MappedPageRangeIterator \<Rightarrow> bool" where
  "list_within m gl t \<longleftrightarrow>
     (let mspan = ri_mspan t; es = word_or m (mspan + gl_elementSizeInMspan gl) 0 in
      has_manual_list m gl t \<longrightarrow>
      (\<forall>j. ((\<lambda>a. word_or m a 0) ^^ j) (word_or m (mspan + gl_manualFreeListInMspan gl) 0) \<noteq>
         ri_firstAddressForRange t + ri_rangeSize t div es * es))"

definition lists_within :: "VirtualAddressMap \<Rightarrow> GoLayout \<Rightarrow> bool" where
  "lists_within m gl \<longleftrightarrow>
     (\<forall>t. go_range_state m (gl_map gl) t \<and> ri_page t \<le> go_lastMappedPage (gl_map gl) \<and>
        go_entry m (gl_map gl) (unat (ri_page t)) \<noteq> 0 \<longrightarrow> list_within m gl t)"

lemma list_elements_end [simp]: "list_elements m first es num n 0 = []"
  by (cases n) simp_all

lemma mark_manual_past_the_end:
  assumes "first + num * es = limit" "first < limit" "es \<noteq> 0" "unat num * unat es < 2 ^ 64" "0 < num" "word_or m limit 0 = 0"
  shows "mark_manual m first limit es num i limit 0 d = Some (MarkAsFree d ((i + unat num) mod 2 ^ 32))"
proof -
  have "unat (num * es) = unat num * unat es" using assms(4) by (simp add: unat_word_ariths)
  then have "unat (num * es div es) = unat num" using assms(3) by (simp add: unat_div unat_gt_0)
  then have "num * es div es = num" by (simp add: word_unat_eq_iff)
  moreover have "limit - first = num * es" using assms(1) by auto
  ultimately have k: "(limit - first) div es = num" by (simp only:)
  have "limit \<noteq> 0" "\<not> limit < first" using assms(2) by auto
  moreover have "\<not> 1 > num" using assms(5) by (simp add: word_less_nat_alt)
  ultimately show ?thesis
    using assms(1,6) k by (subst mark_manual.simps, subst mark_manual.simps) (simp add: Let_def)
qed

lemma entry_check:
  fixes a es first sz :: addr
  assumes "es \<noteq> 0" "unat first + unat sz < 2 ^ 64" "a \<noteq> first + sz div es * es"
  shows "first \<le> a \<and> a \<le> first + sz \<and> a = first + (a - first) div es * es \<longleftrightarrow>
    (unat a - unat first) div unat es < unat sz div unat es \<and>
    unat a = unat first + (unat a - unat first) div unat es * unat es" (is "?l \<longleftrightarrow> ?r")
proof -
  let ?k = "(unat a - unat first) div unat es" and ?num = "unat sz div unat es"
  have limit: "unat (first + sz) = unat first + unat sz" using assms(2) by (simp add: unat_word_ariths)
  have prod: "unat (x div es * es) = unat x div unat es * unat es" for x
  proof -
    have "unat x div unat es * unat es < 2 ^ LENGTH(64)"
      by (rule le_less_trans [OF div_times_less_eq_dividend]) (rule unsigned_less)
    then show ?thesis by (simp only: unat_word_ariths(2) unat_div mod_less)
  qed
  have sum: "unat (first + x div es * es) = unat first + unat x div unat es * unat es" if "unat x \<le> unat sz" for x
  proof -
    have "unat x div unat es * unat es \<le> unat sz" using that div_times_less_eq_dividend le_trans by blast
    then show ?thesis using assms(2) prod [of x] by (simp add: unat_word_ariths)
  qed
  show ?thesis
  proof
    assume l: ?l
    then have "first \<le> a" "a \<le> first + sz" by blast+
    then have d: "unat (a - first) = unat a - unat first" "unat a - unat first \<le> unat sz"
      using limit by (simp_all add: unat_sub_le word_le_nat_alt)
    then have u: "unat a = unat first + ?k * unat es" using sum [of "a - first"] l by simp
    have "?k \<noteq> ?num"
    proof
      assume "?k = ?num"
      then have "unat a = unat (first + sz div es * es)" using u sum [of sz] by simp
      then show False using assms(3) by (simp add: word_unat_eq_iff)
    qed
    moreover have "?k \<le> ?num" using d(2) by (rule div_le_mono)
    ultimately show ?r using u by simp
  next
    assume r: ?r
    have u: "unat a = unat first + ?k * unat es" using r by blast
    have le: "?k * unat es \<le> unat sz" using r by (metis div_times_less_eq_dividend le_trans less_imp_le mult_le_mono1)
    have "unat first \<le> unat a" "unat a \<le> unat first + unat sz" "unat a - unat first \<le> unat sz"
      using u le by linarith+
    then have d: "first \<le> a" "a \<le> first + sz" "unat a - unat first \<le> unat sz"
      using limit by (simp_all add: word_le_nat_alt)
    then have "unat (first + (a - first) div es * es) = unat a" using r sum [of "a - first"] by (simp add: unat_sub_le)
    then show ?l using d by (simp add: word_unat_eq_iff)
  qed
qed

lemma mark_manual_outcome:
  assumes "k \<le> unat num" "unat num + 2 < 2 ^ 64" "num = sz div es" "es \<noteq> 0" "unat first + unat sz < 2 ^ 64"
    "\<forall>j. ((\<lambda>a. word_or m a 0) ^^ j) a \<noteq> first + sz div es * es"
  shows "mark_manual m first (first + sz) es num i a (of_nat k) d =
    Some (mark_indices (map (\<lambda>k. (i + k) mod 2 ^ 32) (list_elements m first es (unat num) (unat num + 1 - k) a)) d)"
  using assms(1,2,6)
proof (induction "unat num - k" arbitrary: k a d rule: less_induct)
  case less
  have k: "unat (of_nat k + 1 :: addr) = k + 1" using less.prems unat_of_nat_addr [of "k + 1"] by (simp add: add.commute)
  obtain n where n: "unat num + 1 - k = Suc n" "unat num - k = n" using less.prems by (metis Suc_diff_le Suc_eq_plus1)
  have here: "a \<noteq> first + sz div es * es" using less.prems(3) [rule_format, of 0] by simp
  have further: "\<forall>j. ((\<lambda>a. word_or m a 0) ^^ j) (word_or m a 0) \<noteq> first + sz div es * es"
  proof
    fix j show "((\<lambda>a. word_or m a 0) ^^ j) (word_or m a 0) \<noteq> first + sz div es * es"
      using less.prems(3) [rule_format, of "Suc j"] by (simp only: funpow_Suc_right o_apply not_False_eq_True)
  qed
  let ?k = "(unat a - unat first) div unat es"
  have num: "unat num = unat sz div unat es" using assms(3) by (simp add: unat_div)
  note check = entry_check [OF assms(4,5) here]
  let ?a = "a \<noteq> 0 \<and> ?k < unat num \<and> unat a = unat first + ?k * unat es"
  show ?case
  proof (cases ?a)
    case False
    then have "a = 0 \<or> a < first \<or> a > first + sz \<or> a \<noteq> first + (a - first) div es * es"
      using check num by (auto simp: not_le)
    then have "mark_manual m first (first + sz) es num i a (of_nat k) d = Some d"
      by (subst mark_manual.simps) (auto simp: Let_def)
    moreover have "list_elements m first es (unat num) (unat num + 1 - k) a = []" using False n by (auto simp: Let_def)
    ultimately show ?thesis by (simp add: mark_indices_def)
  next
    case True
    then have c: "first \<le> a" "a \<le> first + sz" "a = first + (a - first) div es * es" using check num by auto
    then have nl: "\<not> a < first" "\<not> first + sz < a" by (auto simp: not_less)
    have i: "unat ((a - first) div es) = ?k" using c(1) by (simp add: unat_div unat_sub_le)
    have le: "list_elements m first es (unat num) (unat num + 1 - k) a =
        ?k # list_elements m first es (unat num) n (word_or m a 0)"
      using True n by (simp add: Let_def)
    show ?thesis
    proof (cases "k = unat num")
      case last: True
      then have "of_nat k + 1 > num" using k by (simp add: word_less_nat_alt)
      then have "mark_manual m first (first + sz) es num i a (of_nat k) d = Some (MarkAsFree d ((i + ?k) mod 2 ^ 32))"
        using True nl c(3) i by (subst mark_manual.simps) (simp add: Let_def)
      then show ?thesis using last le n by (simp add: mark_indices_def)
    next
      case False
      then have "\<not> of_nat k + 1 > num" using k less.prems by (simp add: word_less_nat_alt)
      then have "mark_manual m first (first + sz) es num i a (of_nat k) d =
          mark_manual m first (first + sz) es num i (word_or m a 0) (of_nat (k + 1)) (MarkAsFree d ((i + ?k) mod 2 ^ 32))"
        using True nl c(3) i by (subst mark_manual.simps) (simp add: Let_def add.commute)
      also have "\<dots> = Some (mark_indices (map (\<lambda>k. (i + k) mod 2 ^ 32)
          (list_elements m first es (unat num) (unat num + 1 - (k + 1)) (word_or m a 0))) (MarkAsFree d ((i + ?k) mod 2 ^ 32)))"
        using False less.prems further by (intro less.hyps) simp_all
      finally show ?thesis using n le by (simp add: mark_indices_def)
    qed
  qed
qed

lemma correct_range_outcome:
  assumes "unat (ri_firstAddressForRange t) + unat (ri_rangeSize t) + 2 < 2 ^ 64" "list_within m gl t"
  shows "correct_range m gl t d = Some (mark_indices (free_elements m gl d t) d)"
proof (cases "has_manual_list m gl t")
  case False
  then show ?thesis
    by (auto simp: correct_range_def free_elements_def has_manual_list_def mark_indices_def Let_def not_less)
next
  case True
  let ?es = "word_or m (ri_mspan t + gl_elementSizeInMspan gl) 0"
  have h: "ri_mspan t \<noteq> 0" "u8_or m (ri_mspan t + gl_stateInMspan gl) 0 = 2" "?es \<noteq> 0" "\<not> ri_rangeSize t < ?es"
    using True by (auto simp: has_manual_list_def Let_def not_less)
  have b: "unat (ri_rangeSize t div ?es) + 2 < 2 ^ 64"
    using assms(1) by (simp add: unat_div) (meson add_less_mono1 div_le_dividend le_add2 le_less_trans add_le_mono1 le_trans)
  have w: "\<forall>j. ((\<lambda>a. word_or m a 0) ^^ j) (word_or m (ri_mspan t + gl_manualFreeListInMspan gl) 0) \<noteq>
      ri_firstAddressForRange t + ri_rangeSize t div ?es * ?es"
    using assms(2) True by (simp add: list_within_def Let_def)
  have "unat (ri_firstAddressForRange t) + unat (ri_rangeSize t) < 2 ^ 64" using assms(1) by simp
  note mm = mark_manual_outcome [OF _ b refl h(3) this w, of 0]
  show ?thesis
    using True h mm by (simp add: correct_range_def free_elements_def Let_def unat_div) (auto simp: mark_indices_def)
qed


section \<open>Ranges below the limit of packed allocations\<close>

definition go_small :: "GoMap \<Rightarrow> bool" where
  "go_small go \<longleftrightarrow> unat (go_pageOffsetBits go) < 31 \<and>
     (unat (go_lastMappedPage go) + 1) * 2 ^ unat (go_pageOffsetBits go) < 2 ^ 52"

text \<open>The product of the size and the number of the elements of a span does not wrap around.\<close>

definition elements_sound :: "VirtualAddressMap \<Rightarrow> GoLayout \<Rightarrow> bool" where
  "elements_sound m gl \<longleftrightarrow>
     (\<forall>p. p \<le> go_lastMappedPage (gl_map gl) \<longrightarrow>
        (let mspan = page_entry (go_page_map m (gl_map gl)) (unat p) in
         mspan \<noteq> 0 \<and> u8_or m (mspan + gl_stateInMspan gl) 0 = 1 \<longrightarrow>
           unat (word_or m (mspan + gl_elementSizeInMspan gl) 0) * unat (u16_or m (mspan + gl_numElementsInMspan gl) 0) < 2 ^ 64))"

lemma go_range_shape:
  assumes "go_small (gl_map gl)" "elements_sound m gl" "go_range_state m (gl_map gl) t" "0 < ri_numPagesForRange t"
    "unat (ri_page t) + unat (ri_numPagesForRange t) \<le> unat (go_lastMappedPage (gl_map gl)) + 1"
    "range_elements m gl t = (sz, num, allocBits, used)"
  shows "unat (ri_firstAddressForRange t) = unat (ri_page t) * 2 ^ unat (go_pageOffsetBits (gl_map gl))"
    "unat (ri_rangeSize t) = unat (ri_numPagesForRange t) * 2 ^ unat (go_pageOffsetBits (gl_map gl))"
    "(unat (ri_page t) + unat (ri_numPagesForRange t)) * 2 ^ unat (go_pageOffsetBits (gl_map gl)) < 2 ^ 52"
    "unat num * unat sz \<le> unat (ri_rangeSize t)" "0 < num" "0 < sz"
proof -
  let ?b = "unat (go_pageOffsetBits (gl_map gl))" and ?n = "ri_numPagesForRange t"
  have b: "?b < 31" using assms(1) by (simp add: go_small_def)
  then have two: "unat (2 ^ ?b :: addr) = 2 ^ ?b" using unat_two_power [of ?b, where 'a = 64] by simp
  show small: "(unat (ri_page t) + unat ?n) * 2 ^ ?b < 2 ^ 52"
    using assms(1,5) mult_le_mono1 [OF assms(5), of "2 ^ ?b"] unfolding go_small_def by linarith
  then have fit: "unat (ri_page t) * 2 ^ ?b < 2 ^ 64" "unat ?n * 2 ^ ?b < 2 ^ 64"
    by (simp_all add: add_mult_distrib)
  have shift: "unat (push_bit ?b x) = unat x * 2 ^ ?b" if "unat x * 2 ^ ?b < 2 ^ 64" for x :: addr
    using that by (simp add: push_bit_eq_mult unat_word_ariths two)
  define mspan where "mspan = page_entry (go_page_map m (gl_map gl)) (unat (ri_page t))"
  have fields: "ri_firstAddressForRange t = push_bit ?b (ri_page t)" "ri_rangeSize t = push_bit ?b ?n"
    "ri_mspan t = 0 \<or> ri_mspan t = mspan"
    using assms(3) int_bit_eq(1) [OF b] unfolding go_range_state_def mspan_def go_entry_eq
    by (auto simp: push_bit_eq_mult Let_def)
  show "unat (ri_firstAddressForRange t) = unat (ri_page t) * 2 ^ ?b" using fields(1) shift fit by simp
  show size: "unat (ri_rangeSize t) = unat ?n * 2 ^ ?b" using fields(2) shift fit by simp
  have pos: "0 < ri_rangeSize t" using size assms(4) by (simp add: word_less_nat_alt)
  have p: "ri_page t \<le> go_lastMappedPage (gl_map gl)" using assms(4,5) by (simp add: word_le_nat_alt word_less_nat_alt)
  let ?es = "word_or m (ri_mspan t + gl_elementSizeInMspan gl) 0"
  let ?k = "u16_or m (ri_mspan t + gl_numElementsInMspan gl) 0"
  have u16: "unat (ucast ?k :: addr) = unat ?k"
    using unsigned_less [of ?k, where 'a = nat] by (simp add: unsigned_ucast_eq take_bit_nat_eq_self)
  consider (whole) "sz = ri_rangeSize t" "num = 1"
    | (bits) "ri_mspan t \<noteq> 0" "u8_or m (ri_mspan t + gl_stateInMspan gl) 0 = 1" "sz = ?es" "num = ucast ?k"
        "num \<noteq> 0" "sz \<noteq> 0" "sz * num \<le> ri_rangeSize t"
    | (manual) "sz \<noteq> 0" "sz \<le> ri_rangeSize t" "num = ri_rangeSize t div sz"
    using assms(6) by (auto simp: range_elements_def Let_def split: if_splits)
  then have "unat num * unat sz \<le> unat (ri_rangeSize t) \<and> 0 < num \<and> 0 < sz"
  proof cases
    case whole
    then show ?thesis using pos by simp
  next
    case bits
    have "unat ?es * unat ?k < 2 ^ 64"
      using assms(2) p bits(1,2) fields(3) by (auto simp: elements_sound_def Let_def mspan_def)
    then have "unat (sz * num) = unat sz * unat num" using bits(3,4) u16 by (simp add: unat_word_ariths)
    then show ?thesis using bits by (simp add: word_le_nat_alt word_gt_0 mult.commute)
  next
    case manual
    have "unat sz \<le> unat (ri_rangeSize t)" "0 < unat sz" using manual by (simp_all add: word_le_nat_alt unat_gt_0)
    then show ?thesis using manual by (simp add: word_less_nat_alt unat_div div_greater_zero_iff)
  qed
  then show "unat num * unat sz \<le> unat (ri_rangeSize t)" "0 < num" "0 < sz" by auto
qed

lemma go_finder_ok:
  assumes "go_small (gl_map gl)" "elements_sound m gl"
    "\<forall>t\<in>set ts. 0 < ri_numPagesForRange t \<and> go_range_state m (gl_map gl) t \<and>
       unat (ri_page t) + unat (ri_numPagesForRange t) \<le> unat (go_lastMappedPage (gl_map gl)) + 1"
    "sorted_wrt (\<lambda>t t'. unat (ri_page t) + unat (ri_numPagesForRange t) \<le> unat (ri_page t')) ts"
  shows "finder_ok (concat (map (range_allocations m gl) ts)) \<and>
    (\<forall>t\<in>set ts. range_allocations m gl t \<noteq> [] \<and> unat (ri_firstAddressForRange t) + unat (ri_rangeSize t) + 2 < 2 ^ 64)"
proof -
  let ?B = "2 ^ unat (go_pageOffsetBits (gl_map gl)) :: nat"
  define sz where "sz t = fst (range_elements m gl t)" for t
  define num where "num t = unat (fst (snd (range_elements m gl t)))" for t
  define used where "used t = element_used m (fst (snd (snd (range_elements m gl t)))) (snd (snd (snd (range_elements m gl t))))" for t
  have alls: "range_allocations m gl t = run_allocations (ri_firstAddressForRange t) (sz t) (num t) (used t)" for t
    by (simp add: range_allocations_def sz_def num_def used_def case_prod_beta)
  have shape: "unat (ri_firstAddressForRange t) = unat (ri_page t) * ?B" "unat (ri_rangeSize t) = unat (ri_numPagesForRange t) * ?B"
    "(unat (ri_page t) + unat (ri_numPagesForRange t)) * ?B < 2 ^ 52"
    "num t * unat (sz t) \<le> unat (ri_rangeSize t)" "0 < num t" "0 < sz t" if t: "t \<in> set ts" for t
  proof -
    obtain s n b u where e: "range_elements m gl t = (s, n, b, u)" by (metis prod_cases4)
    have "sz t = s" "num t = unat n" by (simp_all add: sz_def num_def e)
    with go_range_shape [OF assms(1,2) _ _ _ e] assms(3) t
    show "unat (ri_firstAddressForRange t) = unat (ri_page t) * ?B" "unat (ri_rangeSize t) = unat (ri_numPagesForRange t) * ?B"
      "(unat (ri_page t) + unat (ri_numPagesForRange t)) * ?B < 2 ^ 52"
      "num t * unat (sz t) \<le> unat (ri_rangeSize t)" "0 < num t" "0 < sz t"
      by (auto simp: word_less_nat_alt)
  qed
  have "\<forall>t\<in>set ts. 0 < sz t \<and> unat (ri_firstAddressForRange t) + num t * unat (sz t) < 2 ^ 52"
    using shape by (fastforce simp: add_mult_distrib)
  moreover have "sorted_wrt (\<lambda>t t'. unat (ri_firstAddressForRange t) + num t * unat (sz t) \<le> unat (ri_firstAddressForRange t')) ts"
  proof (rule sorted_wrt_mono_rel [OF _ assms(4)])
    fix t t' assume t: "t \<in> set ts" "t' \<in> set ts" "unat (ri_page t) + unat (ri_numPagesForRange t) \<le> unat (ri_page t')"
    have "(unat (ri_page t) + unat (ri_numPagesForRange t)) * ?B \<le> unat (ri_page t') * ?B" using t(3) by (rule mult_le_mono1)
    then show "unat (ri_firstAddressForRange t) + num t * unat (sz t) \<le> unat (ri_firstAddressForRange t')"
      using shape(1,2,4) [OF t(1)] shape(1) [OF t(2)] by (simp add: add_mult_distrib)
  qed
  ultimately have "finder_ok (concat (map (\<lambda>t. run_allocations (ri_firstAddressForRange t) (sz t) (num t) (used t)) ts))"
    by (rule runs_finder_ok)
  moreover have "range_allocations m gl t \<noteq> [] \<and> unat (ri_firstAddressForRange t) + unat (ri_rangeSize t) + 2 < 2 ^ 64"
    if t: "t \<in> set ts" for t
  proof -
    have "length (range_allocations m gl t) = num t" by (simp add: alls)
    moreover have "unat (ri_firstAddressForRange t) + unat (ri_rangeSize t) < 2 ^ 52"
      using shape(1,2,3) [OF t] by (simp add: add_mult_distrib)
    ultimately show ?thesis using shape(5) [OF t] by auto
  qed
  ultimately show ?thesis by (simp add: alls [abs_def])
qed

text \<open>
  What the memory says of the elements of a range.  A span in state 1, whose elements the garbage collector manages,
  has as many as its counter says, used by a bit each, unless they do not fit; a span managed by hand, in state 2,
  has as many as fit, used until the free lists are looked at; any other range is one free element.
\<close>

definition mspan_elements :: "VirtualAddressMap \<Rightarrow> GoLayout \<Rightarrow> MappedPageRangeIterator \<Rightarrow> pending list" where
  "mspan_elements m gl t =
     (let mspan = ri_mspan t; first = ri_firstAddressForRange t; size = ri_rangeSize t;
          state = (if mspan = 0 then 0 else u8_or m (mspan + gl_stateInMspan gl) 0);
          es = word_or m (mspan + gl_elementSizeInMspan gl) 0;
          counter = unat (u16_or m (mspan + gl_numElementsInMspan gl) 0);
          bits = word_or m (mspan + gl_allocBitsInMspan gl) 0;
          mark = (\<lambda>k. if bits = 0 then bit (u8_or m 0 0) 0 else bit (u8_or m (bits + of_nat (k div 8)) 0) (k mod 8))
      in if state = 1 \<and> counter \<noteq> 0 \<and> es \<noteq> 0 \<and> es * of_nat counter \<le> size
         then map (\<lambda>k. (first + of_nat k * es, es, mark k)) [0..<counter]
         else if state = 1 then [(first, size, mark 0)]
         else if state = 2 \<and> es \<noteq> 0 \<and> es \<le> size
         then map (\<lambda>k. (first + of_nat k * es, es, True)) [0..<unat size div unat es]
         else [(first, size, state = 2)])"

lemma and_bit_iff: "(w :: 8 word) AND 2 ^ n \<noteq> 0 \<longleftrightarrow> bit w n"
  by (simp add: and_exp_eq_0_iff_not_bit)

lemma element_used_eq:
  assumes "k < 2 ^ 64" "bits \<noteq> 0"
  shows "element_used m bits used k = bit (u8_or m (bits + of_nat (k div 8)) 0) (k mod 8)"
proof -
  have u: "unat (of_nat k :: addr) = k" using assms(1) by (intro unat_of_nat_addr) simp
  have "of_nat k AND 7 = (take_bit 3 (of_nat k) :: addr)" by (simp add: take_bit_eq_mask mask_numeral)
  then have "unat (of_nat k AND 7 :: addr) = k mod 8" using u by (simp add: take_bit_eq_mod unat_mod)
  moreover have "of_nat k div 8 = (of_nat (k div 8) :: addr)"
  proof -
    have "unat (of_nat (k div 8) :: addr) = k div 8" using assms(1) by (intro unat_of_nat_addr) simp
    then show ?thesis using u by (simp add: word_unat_eq_iff unat_div)
  qed
  ultimately show ?thesis using assms by (simp add: element_used_def and_bit_iff)
qed

lemma range_allocations_eq: "range_allocations m gl t = mspan_elements m gl t"
proof -
  let ?es = "word_or m (ri_mspan t + gl_elementSizeInMspan gl) 0"
  let ?n = "u16_or m (ri_mspan t + gl_numElementsInMspan gl) 0"
  let ?state = "u8_or m (ri_mspan t + gl_stateInMspan gl) 0"
  define bits where "bits = word_or m (ri_mspan t + gl_allocBitsInMspan gl) 0"
  define mark where "mark k = (if bits = 0 then bit (u8_or m 0 0) 0 else bit (u8_or m (bits + of_nat (k div 8)) 0) (k mod 8))" for k
  have n: "unat (ucast ?n :: addr) = unat ?n"
    using unsigned_less [of ?n, where 'a = nat] by (simp add: unsigned_ucast_eq take_bit_nat_eq_self)
  then have nz: "(ucast ?n :: addr) = 0 \<longleftrightarrow> unat ?n = 0" by (simp only: word_unat_eq_iff unsigned_0)
  have marked: "element_used m bits (u8_or m bits 0 AND 1 \<noteq> 0) k = mark k" if "k < 2 ^ 64" for k
    using that element_used_eq [of k bits m] and_bit_iff [of _ 0] by (auto simp: element_used_def mark_def)
  have "unat ?n < 2 ^ 16" using unsigned_less [of ?n, where 'a = nat] by simp
  then have marks: "run_allocations f s (unat ?n) (element_used m bits (u8_or m bits 0 AND 1 \<noteq> 0)) =
      map (\<lambda>k. (f + of_nat k * s, s, mark k)) [0..<unat ?n]" for f s
    using marked unfolding run_allocations_def by (intro map_cong) auto
  have one: "run_allocations f s (Suc 0) u = [(f, s, u 0)]" for f s u by (simp add: run_allocations_def)
  have always: "element_used m 0 u = (\<lambda>k. u)" for u by (simp add: element_used_def fun_eq_iff)
  let ?fits = "unat ?n \<noteq> 0 \<and> ?es \<noteq> 0 \<and> ?es * ucast ?n \<le> ri_rangeSize t"
  note spec = mspan_elements_def Let_def bits_def [symmetric] mark_def [symmetric]
  note code = range_allocations_def range_elements_def Let_def bits_def [symmetric]
  consider (bits) "ri_mspan t \<noteq> 0" "?state = 1" ?fits | (whole) "ri_mspan t \<noteq> 0" "?state = 1" "\<not> ?fits"
    | (manual) "ri_mspan t \<noteq> 0" "?state = 2" | (no) "ri_mspan t = 0 \<or> ?state \<noteq> 1 \<and> ?state \<noteq> 2" by blast
  then show ?thesis
  proof cases
    case bits
    then show ?thesis unfolding spec code using nz by (simp add: n marks)
  next
    case whole
    have "range_allocations m gl t = [(ri_firstAddressForRange t, ri_rangeSize t, mark 0)]"
      unfolding code using whole nz marked [of 0] by (auto simp: one)
    moreover have "mspan_elements m gl t = [(ri_firstAddressForRange t, ri_rangeSize t, mark 0)]"
      unfolding spec using whole by auto
    ultimately show ?thesis by simp
  next
    case manual
    then show ?thesis unfolding spec code by (auto simp: one always unat_div) (simp_all add: run_allocations_def)
  next
    case no
    then show ?thesis unfolding spec code by (auto simp: one always)
  qed
qed

section \<open>Properties\<close>

text \<open>
  C23: The finder of the page ranges of a Go runtime, on a sound map whose pages lie below the addresses that a
  packed allocation can hold, in whose spans no size times a number of elements wraps around, and with a readable
  table of sizes.  The constructor returns, and the states of its iterator are in the order of the pages and
  disjoint; each of them is at a page that has an entry, from the first mapped page on, and gives what the memory
  says of the range there; and every page with an entry is within the pages of one of them.  Driven to its end the
  finder always returns and reports the elements of all of them, as many and as used as the memory says, range by
  range, in a way that meets the contract under which \<open>Resolve_correct\<close> merges the finders.  The directory has
  then exactly the elements that are on the free lists of the spans managed by hand marked as free, unless the
  runtime has no such lists.  This last part is why no free list may pass through the address right behind the last
  element of its range, which is no element but is taken for one, as \<open>mark_manual_past_the_end\<close> shows.
\<close>

theorem MappedPageRangeAllocationFinder_correct:
  assumes "go_sound m (gl_map gl)" "go_small (gl_map gl)" "elements_sound m gl" "lists_within m gl"
    "u32_at m (gl_sizes gl + (gl_numSizes gl - 1) * 4) = Some largest"
    "min_request_sizes m (gl_sizes gl) [1..<unat (gl_numSizes gl)] 0 [0 \<mapsto> 0] = Some table"
  shows "\<exists>f ts. MappedPageRangeFinder_new m gl = Some f \<and>
     sorted_wrt (\<lambda>t t'. unat (ri_page t) + unat (ri_numPagesForRange t) \<le> unat (ri_page t')) ts \<and>
     (\<forall>t\<in>set ts. go_entry m (gl_map gl) (unat (ri_page t)) \<noteq> 0 \<and>
        go_range_state m (gl_map gl) t \<and> 0 < ri_numPagesForRange t \<and>
        go_firstMappedPage (gl_map gl) \<le> ri_page t \<and>
        unat (ri_page t) + unat (ri_numPagesForRange t) \<le> unat (go_lastMappedPage (gl_map gl)) + 1) \<and>
     (\<forall>q. unat (go_firstMappedPage (gl_map gl)) \<le> q \<and> q \<le> unat (go_lastMappedPage (gl_map gl)) \<longrightarrow>
        go_entry m (gl_map gl) q \<noteq> 0 \<longrightarrow>
        (\<exists>t\<in>set ts. unat (ri_page t) \<le> q \<and> q < unat (ri_page t) + unat (ri_numPagesForRange t))) \<and>
     finder_ok (concat (map (mspan_elements m gl) ts)) \<and>
     (\<exists>f'. finder_drive (\<lambda>(f, d). rf_Finished gl f) (rf_Advance m gl) (\<lambda>(f, d). rf_Next f) (f, d) =
        Some (concat (map (mspan_elements m gl) ts),
          (f', if gl_manualFreeListInMspan gl = NOT_A_FIELD_OFFSET then d
               else fold (\<lambda>t d. mark_indices (free_elements m gl d t) d) ts d)) \<and> rf_Finished gl f')"
proof -
  let ?go = "gl_map gl"
  let ?fin = "\<lambda>(f :: MappedPageRangeFinder, d :: Directory). rf_Finished gl f" and ?nxt = "\<lambda>(f, d :: Directory). rf_Next f"
  let ?marked = "\<lambda>ts. if gl_manualFreeListInMspan gl = NOT_A_FIELD_OFFSET then d
               else fold (\<lambda>t d. mark_indices (free_elements m gl d t) d) ts d"
  obtain it ts s'' where it: "MappedPageRangeIterator_new m ?go = Some it"
    "iterates (ri_Finished ?go) (ri_Advance m ?go) it ts s''" "go.covers (m, ?go) (unat (go_firstMappedPage ?go)) ts"
    using go.iterates_from [of "(m, ?go)"] assms(1) unfolding MappedPageRangeIterator_new_def by force
  have cov: "\<forall>t\<in>set ts. 0 < ri_numPagesForRange t \<and> go_entry m ?go (unat (ri_page t)) \<noteq> 0 \<and> go_range_state m ?go t \<and> go_firstMappedPage ?go \<le> ri_page t \<and>
       unat (ri_page t) + unat (ri_numPagesForRange t) \<le> unat (go_lastMappedPage ?go) + 1"
    "sorted_wrt (\<lambda>t t'. unat (ri_page t) + unat (ri_numPagesForRange t) \<le> unat (ri_page t')) ts"
    "\<forall>q. unat (go_firstMappedPage ?go) \<le> q \<and> q \<le> unat (go_lastMappedPage ?go) \<longrightarrow>
       go_entry m ?go q \<noteq> 0 \<longrightarrow>
       (\<exists>t\<in>set ts. unat (ri_page t) \<le> q \<and> q < unat (ri_page t) + unat (ri_numPagesForRange t))"
    using it(3) unfolding go.covers_def by (simp_all add: word_le_nat_alt go_entry_eq)
  have ok: "finder_ok (concat (map (range_allocations m gl) ts))" "\<forall>t\<in>set ts. range_allocations m gl t \<noteq> []"
    "\<forall>t\<in>set ts. unat (ri_firstAddressForRange t) + unat (ri_rangeSize t) + 2 < 2 ^ 64"
    using go_finder_ok [OF assms(2,3) _ cov(2)] cov(1) by auto
  have within: "list_within m gl t" if t: "t \<in> set ts" for t
  proof -
    have "ri_page t \<le> go_lastMappedPage ?go" using cov(1) t by (fastforce simp: word_le_nat_alt word_less_nat_alt)
    then show ?thesis using assms(4) cov(1) t by (auto simp: lists_within_def)
  qed
  have each: "correct_range m gl t d = Some (mark_indices (free_elements m gl d t) d)" if "t \<in> set ts" for t d
    using correct_range_outcome [OF _ within [OF that]] ok(3) that by blast
  have free: "CorrectCentrallyFreeAllocationStatus_go m gl d = Some (?marked ts)"
    using it(1) for_each_iterates [OF it(2) each]
    by (simp add: CorrectCentrallyFreeAllocationStatus_go_def)
  let ?f0 = "\<lparr>rf_iterator = it, rf_sizeToMinRequestSize = table, rf_largestSmallSize = largest, rf_indexInRange = 0,
    rf_numAllocationsInRange = 0, rf_allocBits = 0, rf_allocationAddress = 0, rf_allocationSize = 0, rf_allocationIsUsed = False\<rparr>"
  let ?f = "if ri_Finished ?go it then ?f0 else SetFirstAllocationFromIterator m gl ?f0"
  have new: "MappedPageRangeFinder_new m gl = Some ?f"
    using it(1) assms(5,6) by (simp add: MappedPageRangeFinder_new_def)
  have "\<exists>f'. finder_drive ?fin (rf_Advance m gl) ?nxt (?f, d) =
      Some (concat (map (range_allocations m gl) ts), (f', ?marked ts)) \<and> rf_Finished gl f'"
  proof (cases ts)
    case Nil
    then have "ri_Finished ?go it" using it(2) by (auto elim: iterates_NilE)
    then show ?thesis using Nil by (subst finder_drive.simps) (simp add: rf_Finished_def)
  next
    case (Cons t ss)
    then have t: "\<not> ri_Finished ?go it" "it = t" using it(2) by (auto elim: iterates_ConsE)
    obtain sz num bits used where e: "range_elements m gl t = (sz, num, bits, used)" by (metis prod_cases4)
    have "0 < unat num" using ok(2) length_range_allocations [OF e] Cons by (cases "range_allocations m gl t") auto
    then have "go_at (m, gl) (t # ss) 0 (?f, d)"
      using it(2) t free Cons e element_used_first [OF e] ok(2)
      by (simp add: go_at_def SetFirstAllocationFromIterator_def rf_Next_def) blast
    from go_finder.drive_groups [OF this] show ?thesis
      using Cons free by (auto simp: case_prod_beta)
  qed
  then show ?thesis using new cov ok(1) unfolding range_allocations_eq [abs_def] by blast
qed


text \<open>
  Memory with the upper level of a page map at 0x1000, a heap arena at 0x1010, the span of the page 1 at 0x1020, which
  has one page with two elements managed by hand, of which the second is on the free list, and the sizes at 0x1048.
\<close>

definition mspan_map :: VirtualAddressMap where
  "mspan_map = AddRange (VirtualAddressMap_new
     [0x10, 0x10, 0, 0, 0, 0, 0, 0, 0, 0, 0, 0, 0, 0, 0, 0, 0, 0, 0, 0, 0, 0, 0, 0, 0x20, 0x10, 0, 0, 0, 0, 0, 0,
      0, 0x20, 0, 0, 0, 0, 0, 0, 1, 0, 0, 0, 0, 0, 0, 0, 2, 0, 0, 0, 0, 0, 0, 0, 0, 0x10, 0, 0, 0, 0, 0, 0,
      0, 0x30, 0, 0, 0, 0, 0, 0, 0, 0, 0, 0, 0, 0x10, 0, 0])
     0x1000 80 (0 - 0x1000) True True True False False"

definition mspan_layout :: GoLayout where
  "mspan_layout =
     \<lparr>gl_map = \<lparr>go_arenasFieldValue = 0 - 0xFFF000, go_spansInHeapArena = 0, go_spansIndexBits = 1, go_pageOffsetBits = 13,
        go_startAddrInMspan = 0, go_numPagesInMspan = 8, go_firstMappedPage = 1, go_lastMappedPage = 1\<rparr>,
      gl_numElementsInMspan = 0x12, gl_elementSizeInMspan = 0x18, gl_allocBitsInMspan = 0x12,
      gl_manualFreeListInMspan = 0x20, gl_stateInMspan = 0x10, gl_sizes = 0x1048, gl_numSizes = 2\<rparr>"

lemma mspan_map_entries:
  "rm_map (ranges mspan_map) = [(0x1050, 80, \<lparr>adjustToFileOffset = 0 - 0x1000, flags = 0x19\<rparr>)]"
  "fileImage mspan_map =
     [0x10, 0x10, 0, 0, 0, 0, 0, 0, 0, 0, 0, 0, 0, 0, 0, 0, 0, 0, 0, 0, 0, 0, 0, 0, 0x20, 0x10, 0, 0, 0, 0, 0, 0,
      0, 0x20, 0, 0, 0, 0, 0, 0, 1, 0, 0, 0, 0, 0, 0, 0, 2, 0, 0, 0, 0, 0, 0, 0, 0, 0x10, 0, 0, 0, 0, 0, 0,
      0, 0x30, 0, 0, 0, 0, 0, 0, 0, 0, 0, 0, 0, 0x10, 0, 0]"
  by (simp_all add: mspan_map_def AddRange_def VirtualAddressMap_new_def AddRange_flags_def flag_defs
      MapRange_def RangeMapper_new_def sm_lower_bound_def rm_emplace_result_def sm_emplace_def
      rm_next_def sm_upper_bound_def sm_find_def)

lemma mspan_map_reads:
  "word_or mspan_map 0x1000 0 = 0x1010" "word_or mspan_map 0x1010 0 = 0"
  "word_or mspan_map 0x1018 0 = 0x1020" "word_or mspan_map 0x1020 0 = 0x2000" "word_or mspan_map 0x1028 0 = 1"
  "word_or mspan_map 0x1038 0 = 0x1000" "word_or mspan_map 0x1040 0 = 0x3000" "word_or mspan_map 0x3000 0 = 0"
  "word_or mspan_map 0 0 = 0"
  "u8_or mspan_map 0x1030 0 = 2" "u32_at mspan_map 0x104c = Some 0x1000"
  by (simp_all add: word_or_def word_at_def u8_or_def u32_at_def read_spec_def vam_find_def rm_find_def
      sm_upper_bound_def mspan_map_entries has_image_def flag_defs)

lemma mspan_layout_fields:
  "go_pageOffsetBits (gl_map mspan_layout) = 13" "go_startAddrInMspan (gl_map mspan_layout) = 0"
  "go_numPagesInMspan (gl_map mspan_layout) = 8" "go_firstMappedPage (gl_map mspan_layout) = 1"
  "go_lastMappedPage (gl_map mspan_layout) = 1" "gl_elementSizeInMspan mspan_layout = 0x18"
  "gl_manualFreeListInMspan mspan_layout = 0x20" "gl_stateInMspan mspan_layout = 0x10" "gl_sizes mspan_layout = 0x1048"
  "gl_numSizes mspan_layout = 2"
  by (simp_all add: mspan_layout_def)

lemma mspan_page_map:
  "go_page_map mspan_map (gl_map mspan_layout) =
     \<lparr>pm_upper = (\<lambda>i. word_or mspan_map (0x1000 + i * 8) 0), pm_entry = (\<lambda>leaf i. word_or mspan_map (leaf + i * 8) 0),
      pm_bits = 1, pm_lastPage = 1\<rparr>"
  by (simp add: go_page_map_def mspan_layout_def)

lemma mspan_layout_entries:
  "go_entry mspan_map (gl_map mspan_layout) 0 = 0" "go_entry mspan_map (gl_map mspan_layout) 1 = 0x1020"
  by (simp_all add: go_entry_eq [symmetric] page_entry_def pm_size_def mspan_page_map mspan_map_reads)

lemma mspan_range:
  assumes "go_range_state mspan_map (gl_map mspan_layout) t" "ri_page t = 1"
  shows "ri_firstAddressForRange t = 0x2000" "ri_rangeSize t = 0x2000" "ri_mspan t = 0x1020"
  using assms mspan_layout_entries(2)
  by (simp_all add: go_range_state_def mspan_layout_fields mspan_map_reads Let_def)

lemma mspan_lists: "lists_within mspan_map mspan_layout"
  unfolding lists_within_def
proof (intro allI impI)
  fix t assume t: "go_range_state mspan_map (gl_map mspan_layout) t \<and> ri_page t \<le> go_lastMappedPage (gl_map mspan_layout) \<and>
     go_entry mspan_map (gl_map mspan_layout) (unat (ri_page t)) \<noteq> 0"
  have "p = 0 \<or> p = 1" if "p \<le> 1" for p :: addr
    using that by (simp add: word_le_nat_alt word_unat_eq_iff) arith
  then have "ri_page t = 0 \<or> ri_page t = 1" using t by (simp add: mspan_layout_fields)
  then have "ri_page t = 1" using t mspan_layout_entries(1) by auto
  note r = mspan_range [OF conjunct1 [OF t] this]
  have zero: "((\<lambda>a. word_or mspan_map a 0) ^^ j) 0 = 0" for j
    by (induction j) (simp_all add: mspan_map_reads)
  have "((\<lambda>a. word_or mspan_map a 0) ^^ j) 0x3000 \<noteq> 0x4000" for j
  proof (cases j)
    case (Suc i)
    then show ?thesis using zero [of i] by (simp add: funpow_Suc_right mspan_map_reads del: funpow.simps)
  qed simp
  then show "list_within mspan_map mspan_layout t"
    by (simp add: list_within_def r mspan_layout_fields mspan_map_reads Let_def)
qed

lemma mspan_sound:
  "go_sound mspan_map (gl_map mspan_layout)" "go_small (gl_map mspan_layout)" "elements_sound mspan_map mspan_layout"
  "page_entry (go_page_map mspan_map (gl_map mspan_layout)) 1 = 0x1020"
proof -
  have p: "p = 0 \<or> p = 1" if "p \<le> 1" for p :: addr
    using that by (simp add: word_le_nat_alt word_unat_eq_iff) arith
  let ?e = "page_entry (go_page_map mspan_map (gl_map mspan_layout))"
  show e: "?e 1 = 0x1020" by (simp add: page_entry_def pm_size_def mspan_page_map mspan_map_reads)
  have e0: "?e 0 = 0" by (simp add: page_entry_def pm_size_def mspan_page_map mspan_map_reads)
  have one: "p = 1" if "p \<le> go_lastMappedPage (gl_map mspan_layout)" "?e (unat p) \<noteq> 0" for p
    using p [of p] that e0 by (auto simp: mspan_layout_fields)
  have ok: "pm_ok (go_page_map mspan_map (gl_map mspan_layout))" by (simp add: pm_ok_def pm_size_def mspan_page_map)
  show "go_sound mspan_map (gl_map mspan_layout)"
    unfolding go_sound_def Let_def
  proof (intro conjI allI impI ok)
    fix p assume a: "p \<le> go_lastMappedPage (gl_map mspan_layout)" "?e (unat p) \<noteq> 0 \<and>
      word_or mspan_map (?e (unat p) + go_startAddrInMspan (gl_map mspan_layout)) 0 =
        push_bit (unat (go_pageOffsetBits (gl_map mspan_layout))) p"
    then have "p = 1" using one by blast
    then show "0 < word_or mspan_map (?e (unat p) + go_numPagesInMspan (gl_map mspan_layout)) 0"
      "unat p + unat (word_or mspan_map (?e (unat p) + go_numPagesInMspan (gl_map mspan_layout)) 0)
        \<le> unat (go_lastMappedPage (gl_map mspan_layout)) + 1"
      using e by (simp_all add: mspan_layout_fields mspan_map_reads)
  qed
  show "elements_sound mspan_map mspan_layout"
    unfolding elements_sound_def Let_def
  proof (intro allI impI)
    fix p assume a: "p \<le> go_lastMappedPage (gl_map mspan_layout)"
      "?e (unat p) \<noteq> 0 \<and> u8_or mspan_map (?e (unat p) + gl_stateInMspan mspan_layout) 0 = 1"
    then have "p = 1" using one by blast
    then show "unat (word_or mspan_map (?e (unat p) + gl_elementSizeInMspan mspan_layout) 0) *
        unat (u16_or mspan_map (?e (unat p) + gl_numElementsInMspan mspan_layout) 0) < 2 ^ 64"
      using a(2) e by (simp add: mspan_layout_fields mspan_map_reads)
  qed
  show "go_small (gl_map mspan_layout)" by (simp add: go_small_def mspan_layout_fields)
qed

theorem MappedPageRangeAllocationFinder_correct_witness:
  "\<exists>f f'. MappedPageRangeFinder_new mspan_map mspan_layout = Some f \<and>
     finder_drive (\<lambda>(f, d). rf_Finished mspan_layout f) (rf_Advance mspan_map mspan_layout) (\<lambda>(f, d). rf_Next f)
       (f, span_directory) =
       Some ([(0x2000, 0x1000, True), (0x3000, 0x1000, True)], (f', MarkAsFree span_directory 1))"
proof -
  let ?go = "gl_map mspan_layout"
  have t: "u32_at mspan_map (gl_sizes mspan_layout + (gl_numSizes mspan_layout - 1) * 4) = Some 0x1000"
    "min_request_sizes mspan_map (gl_sizes mspan_layout) [1..<unat (gl_numSizes mspan_layout)] 0 [0 \<mapsto> 0] =
       Some [0 \<mapsto> 0, 0x1000 \<mapsto> 1]"
    by (simp_all add: mspan_layout_fields mspan_map_reads upt_rec)
  obtain f ts f' where r: "MappedPageRangeFinder_new mspan_map mspan_layout = Some f"
    "sorted_wrt (\<lambda>t t'. unat (ri_page t) + unat (ri_numPagesForRange t) \<le> unat (ri_page t')) ts"
    "\<forall>t\<in>set ts. go_entry mspan_map ?go (unat (ri_page t)) \<noteq> 0 \<and> go_range_state mspan_map ?go t \<and> 0 < ri_numPagesForRange t \<and> go_firstMappedPage ?go \<le> ri_page t \<and>
        unat (ri_page t) + unat (ri_numPagesForRange t) \<le> unat (go_lastMappedPage ?go) + 1"
    "\<forall>q. unat (go_firstMappedPage ?go) \<le> q \<and> q \<le> unat (go_lastMappedPage ?go) \<longrightarrow> go_entry mspan_map ?go q \<noteq> 0 \<longrightarrow>
       (\<exists>t\<in>set ts. unat (ri_page t) \<le> q \<and> q < unat (ri_page t) + unat (ri_numPagesForRange t))"
    "finder_drive (\<lambda>(f, d). rf_Finished mspan_layout f) (rf_Advance mspan_map mspan_layout) (\<lambda>(f, d). rf_Next f)
       (f, span_directory) =
       Some (concat (map (mspan_elements mspan_map mspan_layout) ts),
         (f', if gl_manualFreeListInMspan mspan_layout = NOT_A_FIELD_OFFSET then span_directory
              else fold (\<lambda>t d. mark_indices (free_elements mspan_map mspan_layout d t) d) ts span_directory))"
    using MappedPageRangeAllocationFinder_correct [OF mspan_sound(1,2,3) mspan_lists t, of span_directory] by blast
  have one: "ri_page t = 1 \<and> unat (ri_numPagesForRange t) = 1" if "t \<in> set ts" for t
  proof -
    have "unat (ri_page t) = 1 \<and> unat (ri_numPagesForRange t) = 1"
      using r(3) that by (fastforce simp: mspan_layout_fields word_le_nat_alt word_less_nat_alt)
    then show ?thesis by (simp add: word_unat_eq_iff)
  qed
  have span: "ri_firstAddressForRange t = 0x2000 \<and> ri_rangeSize t = 0x2000 \<and> ri_mspan t = 0x1020" if t: "t \<in> set ts" for t
    using mspan_range [of t] r(3) t one [OF t] by blast
  have "0x1000 \<le> SIZE_MASK" "0 < MAX_FINDERS" by (simp_all add: al_constants mask_eq_exp_minus_1)
  note a = Allocation_new_fields [OF this]
  have i: "AllocationIndexOf span_directory 0x2000 = 0"
    by (simp add: AllocationIndexOf_def span_directory_def Directory_new_def index_search.simps Let_def a)
  have "ts \<noteq> []" using r(4) mspan_layout_entries(2) by (auto simp: mspan_layout_fields dest!: spec [of _ 1])
  moreover have "ts \<noteq> t # t' # ss" for t t' ss
  proof
    assume e: "ts = t # t' # ss"
    have "unat (ri_page t) + unat (ri_numPagesForRange t) \<le> unat (ri_page t')" using r(2) unfolding e by simp
    moreover have "t \<in> set ts" "t' \<in> set ts" by (simp_all add: e)
    ultimately show False using one [of t] one [of t'] by simp
  qed
  ultimately obtain t where ts: "ts = [t]" by (metis list.exhaust)
  then have "mspan_elements mspan_map mspan_layout t = [(0x2000, 0x1000, True), (0x3000, 0x1000, True)]"
    using span [of t] by (simp add: mspan_elements_def mspan_layout_fields mspan_map_reads upt_rec)
  moreover have "free_elements mspan_map mspan_layout span_directory t = [1]"
    using span [of t] ts i by (simp add: free_elements_def has_manual_list_def mspan_layout_fields mspan_map_reads numeral_3_eq_3)
  ultimately show ?thesis
    using r(1,5) by (auto simp: ts mspan_layout_fields NOT_A_FIELD_OFFSET_def mark_indices_def)
qed

end
