(* ===== verification/Python_Finder.thy ===== *)
theory Python_Finder
  imports Page_Maps
begin

text \<open>
  The class \<open>BlockAllocationFinder\<close> of Python/BlockAllocationFinder.h: it reports the blocks of the pools of the
  active arenas of a python interpreter, and as a free allocation every pool that has none.  \<open>None\<close> is an exception
  that nothing catches (of a read without a default value), a division by 0, an access past the end of the vector of
  flags or a free list that does not end.
\<close>

section \<open>State\<close>

text \<open>What the infrastructure finder has found out.\<close>

record PyLayout =
  py_arenaStructArray :: addr
  py_arenaStructSize :: addr
  py_arenaSize :: addr
  py_poolSize :: addr
  py_activeIndices :: "32 word list"

text \<open>The iterator over the active indices is the position it is at.\<close>

record BlockFinder =
  bf_itActiveIndices :: nat
  bf_blockUsedInPool :: "bool list"
  bf_arena :: addr
  bf_firstPool :: addr
  bf_poolsLimit :: addr
  bf_pool :: addr
  bf_blockSize :: addr
  bf_block :: addr
  bf_blockIndex :: nat
  bf_blocksLimit :: addr
  bf_allocationAddress :: addr
  bf_allocationSize :: addr
  bf_allocationIsUsed :: bool

section \<open>Pools and arenas\<close>

partial_function (option) free_loop ::
  "VirtualAddressMap \<Rightarrow> addr \<Rightarrow> addr \<Rightarrow> addr \<Rightarrow> addr \<Rightarrow> bool list \<Rightarrow> bool list option" where
  "free_loop m block blocksLimit blockSize freeBlock used =
     (if freeBlock \<noteq> 0 then
        if freeBlock < block \<or> freeBlock \<ge> blocksLimit then Some used
        else
          let i = unat ((freeBlock - block) div blockSize) in
          if i < length used then free_loop m block blocksLimit blockSize (word_or m freeBlock 0) (used[i := False])
          else None
      else Some used)"

text \<open>The flags of the blocks, before the free list is looked at: the two loops write the first \<open>n\<close> of them.\<close>

definition set_used :: "nat \<Rightarrow> nat \<Rightarrow> bool list \<Rightarrow> bool list option" where
  "set_used everUsed n used =
     (if max everUsed n \<le> length used then Some (map (\<lambda>i. if i < max everUsed n then i < everUsed else used ! i) [0..<length used])
      else None)"

text \<open>The number of blocks that were ever used, or of all blocks if the header of the pool looks corrupt.\<close>

definition ever_used :: "VirtualAddressMap \<Rightarrow> addr \<Rightarrow> addr \<Rightarrow> addr \<Rightarrow> addr" where
  "ever_used m pool blockSize numBlocks =
     (let nextInPool = ucast (u32_or m (pool + 0x28) 0); numBlocksEverUsed = (nextInPool - 0x30) div blockSize in
      if nextInPool < 0x30 \<or> numBlocksEverUsed > numBlocks \<or> nextInPool \<noteq> 0x30 + numBlocksEverUsed * blockSize
      then numBlocks else numBlocksEverUsed)"

definition AdvanceToFirstBlockOfPool ::
  "VirtualAddressMap \<Rightarrow> PyLayout \<Rightarrow> BlockFinder \<Rightarrow> (BlockFinder \<times> bool) option" where
  "AdvanceToFirstBlockOfPool m py f =
     (let pool = bf_pool f; poolSize = py_poolSize py in
      if u32_or m pool 0 = 0 then Some (f, False)
      else
        let blockSize = poolSize - ucast (u32_or m (pool + 0x2c) 0); f1 = f\<lparr>bf_blockSize := blockSize\<rparr> in
        if blockSize = poolSize then Some (f1, False)
        else if blockSize = 0 then None
        else
          let block = pool + 0x30;
              numBlocks = (poolSize - 0x30) div blockSize;
              blocksLimit = block + blockSize * numBlocks;
              everUsed = ever_used m pool blockSize numBlocks
          in Option.bind (set_used (unat everUsed) (unat numBlocks) (bf_blockUsedInPool f)) (\<lambda>used.
             Option.bind (free_loop m block blocksLimit blockSize (word_or m (pool + 8) 0) used) (\<lambda>used'.
               if used' = [] then None
               else
                 Some (f1\<lparr>bf_blockIndex := 0, bf_block := block, bf_blocksLimit := blocksLimit, bf_blockUsedInPool := used',
                          bf_allocationAddress := block, bf_allocationSize := blockSize,
                          bf_allocationIsUsed := used' ! 0\<rparr>, True))))"

definition AdvanceToFirstAllocationForPool :: "VirtualAddressMap \<Rightarrow> PyLayout \<Rightarrow> BlockFinder \<Rightarrow> BlockFinder option" where
  "AdvanceToFirstAllocationForPool m py f =
     Option.bind (AdvanceToFirstBlockOfPool m py f) (\<lambda>(f1, found).
       Some (if found then f1
             else f1\<lparr>bf_allocationAddress := bf_pool f1, bf_allocationSize := py_poolSize py, bf_allocationIsUsed := False\<rparr>))"

definition AdvanceToFirstAllocationOfArena :: "VirtualAddressMap \<Rightarrow> PyLayout \<Rightarrow> BlockFinder \<Rightarrow> BlockFinder option" where
  "AdvanceToFirstAllocationOfArena m py f =
     (let firstPool = (bf_arena f + (py_poolSize py - 1)) AND NOT (py_poolSize py - 1) in
      AdvanceToFirstAllocationForPool m py
        (f\<lparr>bf_firstPool := firstPool, bf_poolsLimit := (bf_arena f + py_arenaSize py) AND NOT (py_poolSize py - 1),
           bf_pool := firstPool\<rparr>))"

definition AdvanceToNextAllocationOfArena ::
  "VirtualAddressMap \<Rightarrow> PyLayout \<Rightarrow> BlockFinder \<Rightarrow> (BlockFinder \<times> bool) option" where
  "AdvanceToNextAllocationOfArena m py f =
     (let inPool = (bf_allocationSize f \<noteq> py_poolSize py);
          f1 = (if inPool then f\<lparr>bf_block := bf_block f + bf_blockSize f, bf_blockIndex := bf_blockIndex f + 1\<rparr> else f)
      in if inPool \<and> bf_block f1 < bf_blocksLimit f1 then
           if bf_blockIndex f1 < length (bf_blockUsedInPool f1) then
             Some (f1\<lparr>bf_allocationAddress := bf_block f1, bf_allocationSize := bf_blockSize f1,
                      bf_allocationIsUsed := bf_blockUsedInPool f1 ! bf_blockIndex f1\<rparr>, True)
           else None
         else
           let f2 = f1\<lparr>bf_pool := bf_pool f1 + py_poolSize py\<rparr> in
           if bf_pool f2 < bf_poolsLimit f2 then map_option (\<lambda>f3. (f3, True)) (AdvanceToFirstAllocationForPool m py f2)
           else Some (f2, False))"

section \<open>The finder\<close>

definition bf_Finished :: "PyLayout \<Rightarrow> BlockFinder \<Rightarrow> bool" where
  "bf_Finished py f \<longleftrightarrow> bf_itActiveIndices f = length (py_activeIndices py)"

text \<open>The read of the address of an arena, and its first allocation.\<close>

definition enter_arena :: "VirtualAddressMap \<Rightarrow> PyLayout \<Rightarrow> BlockFinder \<Rightarrow> BlockFinder option" where
  "enter_arena m py f =
     Option.bind (word_at m (py_arenaStructArray py + py_arenaStructSize py * ucast (py_activeIndices py ! bf_itActiveIndices f)))
       (\<lambda>arena. AdvanceToFirstAllocationOfArena m py (f\<lparr>bf_arena := arena\<rparr>))"

text \<open>The members that the constructor leaves undefined are 0 until they are set.\<close>

definition BlockFinder_new :: "VirtualAddressMap \<Rightarrow> PyLayout \<Rightarrow> BlockFinder option" where
  "BlockFinder_new m py =
     (let f = \<lparr>bf_itActiveIndices = 0, bf_blockUsedInPool = [], bf_arena = 0, bf_firstPool = 0, bf_poolsLimit = 0,
               bf_pool = 0, bf_blockSize = 0, bf_block = 0, bf_blockIndex = 0, bf_blocksLimit = 0,
               bf_allocationAddress = 0, bf_allocationSize = 0, bf_allocationIsUsed = False\<rparr>
      in if \<not> bf_Finished py f then
           enter_arena m py (f\<lparr>bf_blockUsedInPool := replicate (unat ((py_poolSize py - 0x30) div 8)) True\<rparr>)
         else Some f)"

definition bf_Next :: "BlockFinder \<Rightarrow> pending" where
  "bf_Next f = (bf_allocationAddress f, bf_allocationSize f, bf_allocationIsUsed f)"

definition bf_Advance :: "VirtualAddressMap \<Rightarrow> PyLayout \<Rightarrow> BlockFinder \<Rightarrow> BlockFinder option" where
  "bf_Advance m py f =
     (if \<not> bf_Finished py f then
        Option.bind (AdvanceToNextAllocationOfArena m py f) (\<lambda>(f1, found).
          if \<not> found then
            let f2 = f1\<lparr>bf_itActiveIndices := bf_itActiveIndices f1 + 1\<rparr> in
            if \<not> bf_Finished py f2 then enter_arena m py f2 else Some f2
          else Some f1)
      else Some f)"

definition bf_MinRequestSize :: "addr \<Rightarrow> addr" where
  "bf_MinRequestSize sz = sz - 8 + 1"

section \<open>Pools as runs of blocks\<close>

text \<open>The indices of the blocks on a free list, if it ends within \<open>n\<close> steps or leaves the pool.\<close>

fun free_blocks :: "VirtualAddressMap \<Rightarrow> addr \<Rightarrow> addr \<Rightarrow> addr \<Rightarrow> nat \<Rightarrow> addr \<Rightarrow> nat list option" where
  "free_blocks m block blocksLimit blockSize 0 a = None"
| "free_blocks m block blocksLimit blockSize (Suc n) a =
     (if a = 0 \<or> a < block \<or> a \<ge> blocksLimit then Some []
      else map_option (Cons (unat ((a - block) div blockSize))) (free_blocks m block blocksLimit blockSize n (word_or m a 0)))"

text \<open>The size of the blocks of a pool, if it has any.\<close>

definition pool_block_size :: "VirtualAddressMap \<Rightarrow> PyLayout \<Rightarrow> addr \<Rightarrow> addr option" where
  "pool_block_size m py pool =
     (if u32_or m pool 0 = 0 \<or> u32_or m (pool + 0x2c) 0 = 0 then None
      else Some (py_poolSize py - ucast (u32_or m (pool + 0x2c) 0)))"

text \<open>How many blocks were ever used: all of them, if the header of the pool is not consistent.\<close>

definition blocks_ever_used :: "VirtualAddressMap \<Rightarrow> addr \<Rightarrow> addr \<Rightarrow> nat \<Rightarrow> nat" where
  "blocks_ever_used m pool blockSize n =
     (let nextInPool = unat (u32_or m (pool + 0x28) 0); k = (nextInPool - 0x30) div unat blockSize in
      if 0x30 \<le> nextInPool \<and> k \<le> n \<and> nextInPool = 0x30 + k * unat blockSize then k else n)"

text \<open>The allocations of a pool: their first address, their size, their number and whether one is used.\<close>

definition pool_run :: "VirtualAddressMap \<Rightarrow> PyLayout \<Rightarrow> addr \<Rightarrow> addr \<times> addr \<times> nat \<times> (nat \<Rightarrow> bool)" where
  "pool_run m py pool =
     (case pool_block_size m py pool of
        None \<Rightarrow> (pool, py_poolSize py, 1, \<lambda>k. False)
      | Some bs \<Rightarrow>
          let n = (unat (py_poolSize py) - 0x30) div unat bs; block = pool + 0x30; blocksLimit = block + bs * of_nat n in
          (block, bs, n, \<lambda>k. k < blocks_ever_used m pool bs n \<and>
             (case free_blocks m block blocksLimit bs (unat (py_poolSize py)) (word_or m (pool + 8) 0) of
                None \<Rightarrow> False | Some xs \<Rightarrow> k \<notin> set xs)))"

definition pool_allocations :: "VirtualAddressMap \<Rightarrow> PyLayout \<Rightarrow> addr \<Rightarrow> pending list" where
  "pool_allocations m py pool = (case pool_run m py pool of (first, sz, n, used) \<Rightarrow> run_allocations first sz n used)"

text \<open>
  Sound pools: no block is smaller than a pointer or larger than what the header leaves, and the free list ends.
  The layout is sound if pools are at least as large as their header and do not wrap around.
\<close>

definition pool_sound :: "VirtualAddressMap \<Rightarrow> PyLayout \<Rightarrow> addr \<Rightarrow> bool" where
  "pool_sound m py pool \<longleftrightarrow> 0x30 \<le> py_poolSize py \<and> unat pool + unat (py_poolSize py) < 2 ^ 52 \<and>
     (case pool_block_size m py pool of
        None \<Rightarrow> True
      | Some bs \<Rightarrow>
          ucast (u32_or m (pool + 0x2c) 0) \<le> py_poolSize py \<and> 8 \<le> bs \<and> bs \<le> py_poolSize py - 0x30 \<and>
          free_blocks m (pool + 0x30) (pool + 0x30 + bs * of_nat ((unat (py_poolSize py) - 0x30) div unat bs)) bs
            (unat (py_poolSize py)) (word_or m (pool + 8) 0) \<noteq> None)"


lemma fold_clear:
  "length (fold (\<lambda>x u. u[x := False]) xs u) = length u"
  "j < length u \<Longrightarrow> fold (\<lambda>x u. u[x := False]) xs u ! j = (u ! j \<and> j \<notin> set xs)"
proof (induction xs arbitrary: u)
  case (Cons a xs)
  { case 1 then show ?case using Cons by simp }
  { case 2
    then have "u[a := False] ! j = (u ! j \<and> a \<noteq> j)" by (cases "a = j") simp_all
    then show ?case using Cons 2 by auto }
qed simp_all

lemma free_loop_outcome:
  "free_blocks m block blocksLimit bs n a = Some xs \<Longrightarrow> \<forall>x\<in>set xs. x < length used \<Longrightarrow>
   free_loop m block blocksLimit bs a used = Some (fold (\<lambda>x u. u[x := False]) xs used)"
proof (induction n arbitrary: a xs used)
  case (Suc n)
  show ?case
  proof (cases "a = 0 \<or> a < block \<or> a \<ge> blocksLimit")
    case True
    then show ?thesis using Suc.prems by (subst free_loop.simps) auto
  next
    case False
    then obtain ys where ys: "free_blocks m block blocksLimit bs n (word_or m a 0) = Some ys"
      "xs = unat ((a - block) div bs) # ys" using Suc.prems by auto
    have "free_loop m block blocksLimit bs (word_or m a 0) (used[unat ((a - block) div bs) := False]) =
        Some (fold (\<lambda>x u. u[x := False]) ys (used[unat ((a - block) div bs) := False]))"
      using Suc.IH [OF ys(1)] Suc.prems(2) ys(2) by simp
    then show ?thesis using False Suc.prems(2) ys(2) by (subst free_loop.simps) (simp add: Let_def)
  qed
qed simp

lemma free_blocks_less:
  "free_blocks m block blocksLimit bs n a = Some xs \<Longrightarrow> unat blocksLimit = unat block + k * unat bs \<Longrightarrow>
   \<forall>x\<in>set xs. x < k"
proof (induction n arbitrary: a xs)
  case (Suc n)
  show ?case
  proof (cases "a = 0 \<or> a < block \<or> a \<ge> blocksLimit")
    case False
    then obtain ys where ys: "free_blocks m block blocksLimit bs n (word_or m a 0) = Some ys"
      "xs = unat ((a - block) div bs) # ys" using Suc.prems by auto
    have "unat a < unat blocksLimit" using False by (simp add: word_less_nat_alt not_le)
    moreover have "unat (a - block) = unat a - unat block" using False by (intro unat_sub_le) (simp add: not_less)
    moreover have "unat block \<le> unat a" using False by (simp add: word_less_nat_alt not_less)
    ultimately have "unat (a - block) < k * unat bs" using Suc.prems(2) by linarith
    then have "unat ((a - block) div bs) < k" by (simp add: unat_div less_mult_imp_div_less)
    then show ?thesis using Suc ys by auto
  qed (use Suc.prems in auto)
qed simp

lemma unat_eq_of_nat_addr: "unat (x :: addr) = k \<Longrightarrow> x = of_nat k"
  by auto

text \<open>The facts about the blocks of a sound pool.\<close>

lemma pool_shape:
  assumes "pool_sound m py pool" "pool_block_size m py pool = Some bs"
  defines "n \<equiv> (unat (py_poolSize py) - 0x30) div unat bs"
  shows "(py_poolSize py - 0x30) div bs = of_nat n" "unat ((py_poolSize py - 0x30) div bs) = n"
    "unat (pool + 0x30) = unat pool + 0x30" "unat (pool + 0x30 + bs * of_nat n) = unat pool + 0x30 + n * unat bs"
    "n * unat bs + 0x30 \<le> unat (py_poolSize py)" "0 < n" "0 < unat bs" "bs \<noteq> py_poolSize py" "8 \<le> unat bs"
    "n \<le> unat ((py_poolSize py - 0x30) div 8)"
proof -
  let ?P = "py_poolSize py"
  have s: "0x30 \<le> ?P" "unat pool + unat ?P < 2 ^ 52" "8 \<le> bs" "bs \<le> ?P - 0x30"
    using assms(1,2) by (auto simp: pool_sound_def)
  have p: "unat (?P - 0x30) = unat ?P - 0x30" using unat_sub_le [OF s(1)] by simp
  have b: "8 \<le> unat bs" "unat bs \<le> unat ?P - 0x30" "0x30 \<le> unat ?P" using s p by (simp_all add: word_le_nat_alt)
  show "8 \<le> unat bs" "0 < unat bs" using b by simp_all
  show u: "unat ((?P - 0x30) div bs) = n" by (simp add: n_def unat_div p)
  then show "(?P - 0x30) div bs = of_nat n" using u by (metis unat_eq_of_nat_addr)
  show pool: "unat (pool + 0x30) = unat pool + 0x30" using unat_add_of_nat [of pool "0x30"] s(2) b(3) by simp
  have "n * unat bs \<le> unat ?P - 0x30" by (simp add: n_def)
  then show le: "n * unat bs + 0x30 \<le> unat ?P" using b(3) by linarith
  have "unat (pool + 0x30 + of_nat n * bs) = unat (pool + 0x30) + n * unat bs"
    using pool le s(2) by (intro run_address [where n = n]) simp_all
  then show "unat (pool + 0x30 + bs * of_nat n) = unat pool + 0x30 + n * unat bs" by (simp add: pool mult.commute)
  show "0 < n" using b by (simp add: n_def div_greater_zero_iff)
  show "bs \<noteq> ?P" using b by auto
  have "n \<le> (unat ?P - 0x30) div 8" unfolding n_def using b by (intro div_le_mono2) simp_all
  then show "n \<le> unat ((?P - 0x30) div 8)" by (simp add: unat_div p)
qed

definition pool_state :: "VirtualAddressMap \<Rightarrow> PyLayout \<Rightarrow> BlockFinder \<Rightarrow> nat \<Rightarrow> bool" where
  "pool_state m py f k \<longleftrightarrow>
     (case pool_run m py (bf_pool f) of
        (first, sz, n, used) \<Rightarrow>
          k < n \<and> bf_Next f = (first + of_nat k * sz, sz, used k) \<and> (sz = py_poolSize py \<longrightarrow> n = 1) \<and>
          (sz \<noteq> py_poolSize py \<longrightarrow>
             bf_block f = first + of_nat k * sz \<and> bf_blockSize f = sz \<and> bf_blockIndex f = k \<and>
             bf_blocksLimit f = first + sz * of_nat n \<and> n \<le> length (bf_blockUsedInPool f) \<and>
             (\<forall>j<n. bf_blockUsedInPool f ! j = used j)))"

lemma set_used_outcome:
  assumes "e \<le> n" "n \<le> length used"
  shows "\<exists>u. set_used e n used = Some u \<and> length u = length used \<and> (\<forall>j<n. u ! j = (j < e))"
  using assms by (auto simp: set_used_def)

lemma blocks_ever_used_le: "blocks_ever_used m pool bs n \<le> n"
  by (simp add: blocks_ever_used_def Let_def)

lemma unat_ucast_u32: "unat (ucast (x :: 32 word) :: addr) = unat x"
  by (rule unat_ucast_32)

lemma first_allocation_outcome:
  assumes "pool_sound m py (bf_pool f)" "length (bf_blockUsedInPool f) = unat ((py_poolSize py - 0x30) div 8)"
  shows "\<exists>f'. AdvanceToFirstAllocationForPool m py f = Some f' \<and> pool_state m py f' 0 \<and>
    bf_itActiveIndices f' = bf_itActiveIndices f \<and> bf_pool f' = bf_pool f \<and> bf_poolsLimit f' = bf_poolsLimit f \<and>
    length (bf_blockUsedInPool f') = length (bf_blockUsedInPool f)"
proof (cases "pool_block_size m py (bf_pool f)")
  case None
  let ?f = "(if u32_or m (bf_pool f) 0 = 0 then f else f\<lparr>bf_blockSize := py_poolSize py - ucast (u32_or m (bf_pool f + 0x2c) 0)\<rparr>)
    \<lparr>bf_allocationAddress := bf_pool f, bf_allocationSize := py_poolSize py, bf_allocationIsUsed := False\<rparr>"
  have "AdvanceToFirstAllocationForPool m py f = Some ?f"
    using None by (auto simp: AdvanceToFirstAllocationForPool_def AdvanceToFirstBlockOfPool_def pool_block_size_def Let_def
        split: if_splits)
  moreover have "pool_state m py ?f 0" using None by (simp add: pool_state_def pool_run_def bf_Next_def)
  ultimately show ?thesis by (intro exI [of _ ?f]) simp
next
  case (Some bs)
  let ?pool = "bf_pool f" and ?P = "py_poolSize py"
  define n where "n = (unat ?P - 0x30) div unat bs"
  let ?limit = "?pool + 0x30 + bs * of_nat n"
  note S = pool_shape [OF assms(1) Some, folded n_def]
  have hdr: "u32_or m ?pool 0 \<noteq> 0" "bs = ?P - ucast (u32_or m (?pool + 0x2c) 0)" "bs \<noteq> 0"
    using Some S(7) by (auto simp: pool_block_size_def split: if_splits)
  obtain xs where xs: "free_blocks m (?pool + 0x30) ?limit bs (unat ?P) (word_or m (?pool + 8) 0) = Some xs"
    using assms(1) Some by (auto simp: pool_sound_def n_def)
  have x: "\<forall>x\<in>set xs. x < n" by (rule free_blocks_less [OF xs]) (simp add: S(3,4))
  define nip where "nip = (ucast (u32_or m (?pool + 0x28) 0) :: addr)"
  define ever where "ever = ever_used m ?pool bs (of_nat n)"
  have ever_eq: "ever = (if nip < 0x30 \<or> (nip - 0x30) div bs > of_nat n \<or> nip \<noteq> 0x30 + (nip - 0x30) div bs * bs
      then of_nat n else (nip - 0x30) div bs)"
    by (simp add: ever_def ever_used_def nip_def Let_def)
  have un: "unat (of_nat n :: addr) = n" using S(1,2) by simp
  have ever: "unat ever = blocks_ever_used m ?pool bs n"
  proof (cases "nip < 0x30")
    case True
    then show ?thesis by (simp add: ever_eq un blocks_ever_used_def nip_def word_less_nat_alt unat_ucast_u32 Let_def)
  next
    case False
    define k where "k = (unat nip - 0x30) div unat bs"
    have k: "unat ((nip - 0x30) div bs) = k" using False unat_sub_le [of "0x30" nip] by (simp add: k_def unat_div not_less)
    have "k * unat bs \<le> unat nip - 0x30" by (simp add: k_def)
    moreover have le: "0x30 \<le> unat nip" using False by (simp add: word_less_nat_alt not_less)
    moreover have "unat nip < 2 ^ 64" using unsigned_less [of nip, where 'a = nat] by simp
    ultimately have "unat (0x30 + of_nat k * bs) = 0x30 + k * unat bs"
      using run_address [of "0x30" k bs k] by simp
    moreover have "(nip - 0x30) div bs = of_nat k" using k by (rule unat_eq_of_nat_addr)
    ultimately have "nip \<noteq> 0x30 + (nip - 0x30) div bs * bs \<longleftrightarrow> unat nip \<noteq> 0x30 + k * unat bs"
      by (metis word_unat_eq_iff)
    moreover have "(nip - 0x30) div bs > of_nat n \<longleftrightarrow> k > n" by (simp add: word_less_nat_alt k un)
    ultimately have "unat ever = (if k > n \<or> unat nip \<noteq> 0x30 + k * unat bs then n else k)"
      using False by (simp add: ever_eq un k)
    then show ?thesis using le by (auto simp: blocks_ever_used_def nip_def unat_ucast_u32 Let_def k_def)
  qed
  obtain u where u: "set_used (unat ever) n (bf_blockUsedInPool f) = Some u" "length u = length (bf_blockUsedInPool f)"
    "\<forall>j<n. u ! j = (j < unat ever)"
    using set_used_outcome [of "unat ever" n "bf_blockUsedInPool f"] blocks_ever_used_le ever S(10) assms(2) by auto
  let ?u = "fold (\<lambda>x u. u[x := False]) xs u"
  have len: "n \<le> length u" using u(2) S(10) assms(2) by simp
  have loop: "free_loop m (?pool + 0x30) ?limit bs (word_or m (?pool + 8) 0) u = Some ?u"
    by (rule free_loop_outcome [OF xs]) (use x len in auto)
  have u': "length ?u = length u" "\<forall>j<n. ?u ! j = (j < blocks_ever_used m ?pool bs n \<and> j \<notin> set xs)"
    using fold_clear len u(3) ever by auto
  have "?u \<noteq> []" using u'(1) len S(6) by auto
  let ?f = "f\<lparr>bf_blockSize := bs, bf_blockIndex := 0, bf_block := ?pool + 0x30, bf_blocksLimit := ?limit,
      bf_blockUsedInPool := ?u, bf_allocationAddress := ?pool + 0x30, bf_allocationSize := bs, bf_allocationIsUsed := ?u ! 0\<rparr>"
  have "AdvanceToFirstBlockOfPool m py f = Some (?f, True)"
    using hdr(1,3) S(8) u(1) loop \<open>?u \<noteq> []\<close>
    by (simp add: AdvanceToFirstBlockOfPool_def Let_def hdr(2) [symmetric] S(1) un ever_def [symmetric])
  then have "AdvanceToFirstAllocationForPool m py f = Some ?f" by (simp add: AdvanceToFirstAllocationForPool_def)
  moreover have "pool_state m py ?f 0"
    using Some xs u' S(6,8) len u(2)
    by (simp add: pool_state_def pool_run_def bf_Next_def n_def [symmetric] Let_def)
  ultimately show ?thesis using u' u(2) by (intro exI [of _ ?f]) simp
qed


section \<open>Arenas as sequences of pools\<close>

definition pools_upto :: "addr \<Rightarrow> addr \<Rightarrow> addr \<Rightarrow> addr list" where
  "pools_upto ps poolsLimit p =
     map (\<lambda>k. p + of_nat k * ps) [0..<(unat poolsLimit - unat p + unat ps - 1) div unat ps]"

text \<open>The first pool of an arena and the limit of its pools.\<close>

definition arena_range :: "VirtualAddressMap \<Rightarrow> PyLayout \<Rightarrow> nat \<Rightarrow> (addr \<times> addr) option" where
  "arena_range m py i =
     map_option (\<lambda>arena. ((arena + (py_poolSize py - 1)) AND NOT (py_poolSize py - 1),
                          (arena + py_arenaSize py) AND NOT (py_poolSize py - 1)))
       (word_at m (py_arenaStructArray py + py_arenaStructSize py * ucast (py_activeIndices py ! i)))"

definition arena_pools :: "VirtualAddressMap \<Rightarrow> PyLayout \<Rightarrow> nat \<Rightarrow> addr list" where
  "arena_pools m py i =
     (case arena_range m py i of None \<Rightarrow> [] | Some (firstPool, poolsLimit) \<Rightarrow> pools_upto (py_poolSize py) poolsLimit firstPool)"

definition all_pools :: "VirtualAddressMap \<Rightarrow> PyLayout \<Rightarrow> addr list" where
  "all_pools m py = concat (map (arena_pools m py) [0..<length (py_activeIndices py)])"

definition py_sound :: "VirtualAddressMap \<Rightarrow> PyLayout \<Rightarrow> bool" where
  "py_sound m py \<longleftrightarrow> 0x30 \<le> py_poolSize py \<and>
     (\<forall>i<length (py_activeIndices py). \<exists>firstPool poolsLimit.
        arena_range m py i = Some (firstPool, poolsLimit) \<and> firstPool < poolsLimit) \<and>
     (\<forall>p\<in>set (all_pools m py). pool_sound m py p)"

lemma pools_upto_end: "\<not> p < poolsLimit \<Longrightarrow> 0 < unat ps \<Longrightarrow> pools_upto ps poolsLimit p = []"
  by (simp add: pools_upto_def word_less_nat_alt)

lemma pools_upto_step:
  assumes "p < poolsLimit" "0 < unat ps" "unat p + unat ps < 2 ^ 64"
  shows "pools_upto ps poolsLimit p = p # pools_upto ps poolsLimit (p + ps)"
proof -
  let ?L = "unat poolsLimit" and ?p = "unat p" and ?s = "unat ps"
  have u: "unat (p + ps) = ?p + ?s" using unat_add_of_nat [of p ?s] assms(3) by simp
  have lt: "?p < ?L" using assms(1) by (simp add: word_less_nat_alt)
  have "(?L - ?p + ?s - 1) div ?s = Suc ((?L - (?p + ?s) + ?s - 1) div ?s)"
  proof (cases "?p + ?s \<le> ?L")
    case True
    then have "?L - ?p + ?s - 1 = (?L - (?p + ?s) + ?s - 1) + ?s" using assms(2) by linarith
    then show ?thesis using div_add_self2 [of ?s "?L - (?p + ?s) + ?s - 1"] assms(2) by (metis Suc_eq_plus1 neq0_conv)
  next
    case False
    then have "?L - ?p + ?s - 1 = (?L - ?p - 1) + ?s" "?L - ?p - 1 < ?s" using lt by linarith+
    then have "(?L - ?p + ?s - 1) div ?s = 1" using div_add_self2 [of ?s "?L - ?p - 1"] assms(2) by (metis add_0 div_less neq0_conv)
    then show ?thesis using False assms(2) by simp
  qed
  then show ?thesis by (simp add: pools_upto_def u map_upt_Suc algebra_simps del: upt_Suc)
qed

definition py_at :: "VirtualAddressMap \<times> PyLayout \<Rightarrow> addr list \<Rightarrow> nat \<Rightarrow> BlockFinder \<Rightarrow> bool" where
  "py_at c gs k f \<longleftrightarrow>
     (\<exists>m py. c = (m, py) \<and> bf_itActiveIndices f < length (py_activeIndices py) \<and> bf_pool f < bf_poolsLimit f \<and>
        gs = pools_upto (py_poolSize py) (bf_poolsLimit f) (bf_pool f) @
             concat (map (arena_pools m py) [bf_itActiveIndices f + 1..<length (py_activeIndices py)]) \<and>
        (\<forall>p\<in>set gs. pool_sound m py p) \<and>
        (\<forall>i<length (py_activeIndices py). \<exists>firstPool poolsLimit.
           arena_range m py i = Some (firstPool, poolsLimit) \<and> firstPool < poolsLimit) \<and>
        length (bf_blockUsedInPool f) = unat ((py_poolSize py - 0x30) div 8) \<and> pool_state m py f k)"

lemma pool_sound_size: "pool_sound m py p \<Longrightarrow> 0 < unat (py_poolSize py) \<and> unat p + unat (py_poolSize py) < 2 ^ 52"
  by (auto simp: pool_sound_def word_le_nat_alt)

lemma arena_pools_Cons:
  assumes "arena_range m py i = Some (firstPool, poolsLimit)" "firstPool < poolsLimit"
    "0 < unat (py_poolSize py)" "\<forall>p\<in>set (arena_pools m py i). pool_sound m py p"
  shows "\<exists>ps. arena_pools m py i = firstPool # ps \<and> pool_sound m py firstPool"
proof -
  let ?s = "unat (py_poolSize py)"
  have "0 < (unat poolsLimit - unat firstPool + ?s - 1) div ?s"
    using assms(2,3) by (simp add: div_greater_zero_iff word_less_nat_alt)
  then have "\<exists>ps. arena_pools m py i = firstPool # ps"
    by (simp add: arena_pools_def assms(1) pools_upto_def upt_conv_Cons)
  then show ?thesis using assms(4) by auto
qed

text \<open>Entering an arena takes the finder to its first pool.\<close>

lemma enter_arena_outcome:
  assumes "bf_itActiveIndices f < length (py_activeIndices py)"
    "arena_range m py (bf_itActiveIndices f) = Some (firstPool, poolsLimit)" "firstPool < poolsLimit"
    "pool_sound m py firstPool" "length (bf_blockUsedInPool f) = unat ((py_poolSize py - 0x30) div 8)"
  shows "\<exists>f'. enter_arena m py f = Some f' \<and> pool_state m py f' 0 \<and> bf_itActiveIndices f' = bf_itActiveIndices f \<and>
    bf_pool f' = firstPool \<and> bf_poolsLimit f' = poolsLimit \<and> length (bf_blockUsedInPool f') = length (bf_blockUsedInPool f)"
proof -
  obtain arena where a: "word_at m (py_arenaStructArray py + py_arenaStructSize py * ucast (py_activeIndices py ! bf_itActiveIndices f)) = Some arena"
    "firstPool = (arena + (py_poolSize py - 1)) AND NOT (py_poolSize py - 1)"
    "poolsLimit = (arena + py_arenaSize py) AND NOT (py_poolSize py - 1)"
    using assms(2) by (auto simp: arena_range_def)
  show ?thesis
    using first_allocation_outcome [of m py "f\<lparr>bf_arena := arena, bf_firstPool := firstPool, bf_poolsLimit := poolsLimit,
        bf_pool := firstPool\<rparr>"] assms(4,5) a
    by (simp add: enter_arena_def AdvanceToFirstAllocationOfArena_def Let_def)
qed

text \<open>The two ways a step goes, within the pool and past its end.\<close>

lemma next_in_pool:
  assumes "pool_state m py f k" "pool_sound m py (bf_pool f)" "pool_run m py (bf_pool f) = (first, sz, n, used)" "k + 1 < n"
  shows "\<exists>f'. AdvanceToNextAllocationOfArena m py f = Some (f', True) \<and> pool_state m py f' (k + 1) \<and>
    bf_itActiveIndices f' = bf_itActiveIndices f \<and> bf_pool f' = bf_pool f \<and> bf_poolsLimit f' = bf_poolsLimit f \<and>
    bf_blockUsedInPool f' = bf_blockUsedInPool f"
proof -
  have st: "sz \<noteq> py_poolSize py" "bf_Next f = (first + of_nat k * sz, sz, used k)" "bf_block f = first + of_nat k * sz"
    "bf_blockSize f = sz" "bf_blockIndex f = k" "bf_blocksLimit f = first + sz * of_nat n" "n \<le> length (bf_blockUsedInPool f)"
    "\<forall>j<n. bf_blockUsedInPool f ! j = used j"
    using assms(1,3,4) by (auto simp: pool_state_def)
  obtain bs where bs: "pool_block_size m py (bf_pool f) = Some bs"
    using assms(3,4) by (cases "pool_block_size m py (bf_pool f)") (auto simp: pool_run_def)
  note S = pool_shape [OF assms(2) bs]
  have run: "first = bf_pool f + 0x30" "sz = bs" "n = (unat (py_poolSize py) - 0x30) div unat bs"
    using assms(3) bs by (auto simp: pool_run_def Let_def)
  have bound: "unat first + n * unat sz < 2 ^ 64"
    using S(3,5) run pool_sound_size [OF assms(2)] by simp
  have less: "first + of_nat (k + 1) * sz < first + sz * of_nat n"
  proof -
    have "unat (first + of_nat n * sz) = unat first + n * unat sz" by (rule run_address [OF bound]) simp
    moreover have "unat (first + of_nat (k + 1) * sz) = unat first + (k + 1) * unat sz"
      using assms(4) by (intro run_address [OF bound]) simp
    moreover have "(k + 1) * unat sz < n * unat sz" using assms(4) S(7) run(2) by (simp only: mult_less_cancel2)
    ultimately have "unat (first + of_nat (k + 1) * sz) < unat (first + of_nat n * sz)" by linarith
    then show ?thesis by (simp add: word_less_nat_alt mult.commute)
  qed
  let ?f = "f\<lparr>bf_block := first + of_nat (k + 1) * sz, bf_blockIndex := k + 1,
      bf_allocationAddress := first + of_nat (k + 1) * sz, bf_allocationSize := sz, bf_allocationIsUsed := used (k + 1)\<rparr>"
  have b: "bf_block f + bf_blockSize f = first + of_nat (k + 1) * sz" using st(3,4) by (simp add: algebra_simps)
  have a: "bf_allocationSize f = sz" using st(2) by (simp add: bf_Next_def)
  have "AdvanceToNextAllocationOfArena m py f = Some (?f, True)"
    using a b st(1,4-8) less assms(4) by (simp add: AdvanceToNextAllocationOfArena_def Let_def del: of_nat_Suc of_nat_add)
  moreover have "pool_state m py ?f (k + 1)"
    using assms(3,4) st by (simp add: pool_state_def bf_Next_def)
  ultimately show ?thesis by (intro exI [of _ ?f]) simp
qed

lemma next_past_pool:
  assumes "pool_state m py f k" "pool_sound m py (bf_pool f)" "pool_run m py (bf_pool f) = (first, sz, n, used)" "k + 1 = n"
  shows "\<exists>f'. AdvanceToNextAllocationOfArena m py f =
      (if bf_pool f + py_poolSize py < bf_poolsLimit f then map_option (\<lambda>f3. (f3, True)) (AdvanceToFirstAllocationForPool m py f')
       else Some (f', False)) \<and>
    bf_itActiveIndices f' = bf_itActiveIndices f \<and> bf_pool f' = bf_pool f + py_poolSize py \<and>
    bf_poolsLimit f' = bf_poolsLimit f \<and> bf_blockUsedInPool f' = bf_blockUsedInPool f"
proof -
  have next_: "bf_Next f = (first + of_nat k * sz, sz, used k)" using assms(1,3) by (simp add: pool_state_def)
  have "\<not> bf_block f + bf_blockSize f < bf_blocksLimit f" if "sz \<noteq> py_poolSize py"
    using assms(1,3,4) that by (auto simp: pool_state_def algebra_simps)
  then show ?thesis
    using next_ by (auto simp: AdvanceToNextAllocationOfArena_def Let_def bf_Next_def)
qed


lemma length_pool_allocations: "pool_run m py p = (first, sz, n, used) \<Longrightarrow> length (pool_allocations m py p) = n"
  by (simp add: pool_allocations_def)

lemma py_at_head:
  assumes "py_at (m, py) (g # gs) k f"
  shows "g = bf_pool f" "gs = pools_upto (py_poolSize py) (bf_poolsLimit f) (bf_pool f + py_poolSize py) @
      concat (map (arena_pools m py) [bf_itActiveIndices f + 1..<length (py_activeIndices py)])"
    "pool_sound m py (bf_pool f)" "pool_state m py f k" "\<not> bf_Finished py f"
proof -
  have at: "g # gs = pools_upto (py_poolSize py) (bf_poolsLimit f) (bf_pool f) @
      concat (map (arena_pools m py) [bf_itActiveIndices f + 1..<length (py_activeIndices py)])"
    "bf_pool f < bf_poolsLimit f" "pool_sound m py g" "pool_state m py f k" "bf_itActiveIndices f < length (py_activeIndices py)"
    using assms by (auto simp: py_at_def)
  have s: "0 < unat (py_poolSize py)" using pool_sound_size [OF at(3)] by simp
  then have "0 < (unat (bf_poolsLimit f) - unat (bf_pool f) + unat (py_poolSize py) - 1) div unat (py_poolSize py)"
    using at(2) by (simp add: div_greater_zero_iff word_less_nat_alt)
  then show g: "g = bf_pool f" using at(1) by (simp add: pools_upto_def upt_conv_Cons)
  have "unat (bf_pool f) + unat (py_poolSize py) < 2 ^ 64" using pool_sound_size [OF at(3)] g by simp
  from at(1) [unfolded pools_upto_step [OF at(2) s this]]
  show "gs = pools_upto (py_poolSize py) (bf_poolsLimit f) (bf_pool f + py_poolSize py) @
      concat (map (arena_pools m py) [bf_itActiveIndices f + 1..<length (py_activeIndices py)])" by simp
  show "pool_sound m py (bf_pool f)" "pool_state m py f k" "\<not> bf_Finished py f"
    using at(3,4,5) g by (simp_all add: bf_Finished_def)
qed

lemma py_at_move:
  "py_at (m, py) gs k f \<Longrightarrow> pool_state m py f' k' \<Longrightarrow> bf_itActiveIndices f' = bf_itActiveIndices f \<Longrightarrow>
   bf_pool f' = bf_pool f \<Longrightarrow> bf_poolsLimit f' = bf_poolsLimit f \<Longrightarrow> bf_blockUsedInPool f' = bf_blockUsedInPool f \<Longrightarrow>
   py_at (m, py) gs k' f'"
  by (simp add: py_at_def)

lemma py_step_past:
  assumes "py_at (m, py) (g # gs) k f" "k + 1 = length (pool_allocations m py g)"
  shows "\<exists>f'. bf_Advance m py f = Some f' \<and> (gs = [] \<longrightarrow> bf_Finished py f') \<and> (gs \<noteq> [] \<longrightarrow> py_at (m, py) gs 0 f')"
proof -
  note H = py_at_head [OF assms(1)]
  let ?P = "py_poolSize py" and ?len = "length (py_activeIndices py)" and ?it = "bf_itActiveIndices f"
  have at: "\<forall>p\<in>set gs. pool_sound m py p" "length (bf_blockUsedInPool f) = unat ((?P - 0x30) div 8)" "?it < ?len"
    "\<forall>i<?len. \<exists>firstPool poolsLimit. arena_range m py i = Some (firstPool, poolsLimit) \<and> firstPool < poolsLimit"
    using assms(1) by (auto simp: py_at_def)
  have s: "0 < unat ?P" using pool_sound_size [OF H(3)] by simp
  obtain first sz n used where run: "pool_run m py (bf_pool f) = (first, sz, n, used)" by (metis prod_cases4)
  have n: "k + 1 = n" using assms(2) H(1) length_pool_allocations [OF run] by simp
  obtain f1 where f1: "AdvanceToNextAllocationOfArena m py f =
      (if bf_pool f + ?P < bf_poolsLimit f then map_option (\<lambda>f3. (f3, True)) (AdvanceToFirstAllocationForPool m py f1)
       else Some (f1, False))"
    "bf_itActiveIndices f1 = ?it" "bf_pool f1 = bf_pool f + ?P" "bf_poolsLimit f1 = bf_poolsLimit f"
    "bf_blockUsedInPool f1 = bf_blockUsedInPool f"
    using next_past_pool [OF H(4,3) run n] by blast
  show ?thesis
  proof (cases "bf_pool f + ?P < bf_poolsLimit f")
    case True
    have "0 < (unat (bf_poolsLimit f) - unat (bf_pool f + ?P) + unat ?P - 1) div unat ?P"
      using True s by (simp add: div_greater_zero_iff word_less_nat_alt)
    then have "bf_pool f + ?P \<in> set gs" using H(2) by (simp add: pools_upto_def upt_conv_Cons)
    then obtain f' where f': "AdvanceToFirstAllocationForPool m py f1 = Some f'" "pool_state m py f' 0"
      "bf_itActiveIndices f' = ?it" "bf_pool f' = bf_pool f + ?P" "bf_poolsLimit f' = bf_poolsLimit f"
      "length (bf_blockUsedInPool f') = length (bf_blockUsedInPool f)"
      using first_allocation_outcome [of m py f1] at(1,2) f1(2-5) by auto
    have "py_at (m, py) gs 0 f'" unfolding py_at_def using f' H(2) at True by auto
    then show ?thesis using f' f1(1) True H(5) \<open>bf_pool f + ?P \<in> set gs\<close> by (auto simp: bf_Advance_def)
  next
    case False
    then have gs: "gs = concat (map (arena_pools m py) [?it + 1..<?len])"
      using H(2) pools_upto_end [OF False s] by simp
    let ?f2 = "f1\<lparr>bf_itActiveIndices := ?it + 1\<rparr>"
    have adv: "bf_Advance m py f = (if \<not> bf_Finished py ?f2 then enter_arena m py ?f2 else Some ?f2)"
      using f1(1,2) False H(5) by (simp add: bf_Advance_def Let_def)
    show ?thesis
    proof (cases "?it + 1 < ?len")
      case True
      then obtain fp pl where r: "arena_range m py (?it + 1) = Some (fp, pl)" "fp < pl" using at(4) by blast
      have gs': "gs = arena_pools m py (?it + 1) @ concat (map (arena_pools m py) [?it + 2..<?len])"
        using True gs by (simp add: upt_conv_Cons)
      obtain ps where ps: "arena_pools m py (?it + 1) = fp # ps" "pool_sound m py fp"
        using arena_pools_Cons [OF r s] at(1) gs' by auto
      have "\<exists>f'. enter_arena m py ?f2 = Some f' \<and> pool_state m py f' 0 \<and> bf_itActiveIndices f' = bf_itActiveIndices ?f2 \<and>
          bf_pool f' = fp \<and> bf_poolsLimit f' = pl \<and> length (bf_blockUsedInPool f') = length (bf_blockUsedInPool ?f2)"
        by (rule enter_arena_outcome) (use True r ps(2) at(2) f1(5) in simp_all)
      then obtain f' where f': "enter_arena m py ?f2 = Some f'" "pool_state m py f' 0" "bf_itActiveIndices f' = ?it + 1"
        "bf_pool f' = fp" "bf_poolsLimit f' = pl" "length (bf_blockUsedInPool f') = unat ((?P - 0x30) div 8)"
        using at(2) f1(5) by auto
      have "arena_pools m py (?it + 1) = pools_upto ?P pl fp" by (simp add: arena_pools_def r(1) [simplified])
      then have "py_at (m, py) gs 0 f'" unfolding py_at_def using f' gs' at(1,4) True r(2) by auto
      then show ?thesis using f'(1) adv True gs' ps(1) by (auto simp: bf_Finished_def)
    next
      case False
      then have "?it + 1 = ?len" using at(3) by simp
      then show ?thesis using adv gs by (auto simp: bf_Finished_def)
    qed
  qed
qed

interpretation py_finder: grouped_finder "\<lambda>(m, py). pool_allocations m py" py_at "\<lambda>(m, py). bf_Finished py"
    "\<lambda>(m, py). bf_Advance m py" "\<lambda>c. bf_Next" "\<lambda>f. ()" "\<lambda>c u u'. True"
proof (unfold_locales, goal_cases)
  case (1 c g gs k f)
  obtain m py where c: "c = (m, py)" by (cases c)
  note H = py_at_head [OF 1 [unfolded c]]
  show ?case using H(4,5) unfolding c H(1) by (auto simp: pool_state_def pool_allocations_def)
next
  case (2 c g gs k f)
  obtain m py where c: "c = (m, py)" by (cases c)
  note H = py_at_head [OF 2(1) [unfolded c]]
  obtain first sz n used where run: "pool_run m py (bf_pool f) = (first, sz, n, used)" by (metis prod_cases4)
  have "k + 1 < n" using 2(2) length_pool_allocations [OF run] by (simp add: c H(1))
  then obtain f' where f': "AdvanceToNextAllocationOfArena m py f = Some (f', True)" "pool_state m py f' (k + 1)"
    "bf_itActiveIndices f' = bf_itActiveIndices f" "bf_pool f' = bf_pool f" "bf_poolsLimit f' = bf_poolsLimit f"
    "bf_blockUsedInPool f' = bf_blockUsedInPool f"
    using next_in_pool [OF H(4,3) run] by blast
  have "py_at (m, py) (g # gs) (k + 1) f'" using py_at_move [OF 2(1) [unfolded c]] f' by blast
  moreover have "bf_Advance m py f = Some f'" using f'(1) H(5) by (simp add: bf_Advance_def)
  ultimately show ?case by (simp add: c)
next
  case (3 c g g' gs k f)
  then show ?case using py_step_past [of "fst c" "snd c" g "g' # gs" k f] by (auto simp: case_prod_beta)
next
  case (4 c g k f)
  then show ?case using py_step_past [of "fst c" "snd c" g "[]" k f] by (auto simp: case_prod_beta)
qed

section \<open>Properties\<close>

lemma py_finder_ok:
  assumes "\<forall>p\<in>set ps. pool_sound m py p" "sorted_wrt (\<lambda>p q. unat p + unat (py_poolSize py) \<le> unat q) ps"
  shows "finder_ok (concat (map (pool_allocations m py) ps))"
proof -
  let ?P = "unat (py_poolSize py)"
  define first where "first p = fst (pool_run m py p)" for p
  define sz where "sz p = fst (snd (pool_run m py p))" for p
  define n where "n p = fst (snd (snd (pool_run m py p)))" for p
  define used where "used p = snd (snd (snd (pool_run m py p)))" for p
  have alls: "pool_allocations m py p = run_allocations (first p) (sz p) (n p) (used p)" for p
    by (simp add: pool_allocations_def first_def sz_def n_def used_def case_prod_beta)
  have shape: "unat p \<le> unat (first p) \<and> unat (first p) + n p * unat (sz p) \<le> unat p + ?P \<and> 0 < sz p \<and> unat p + ?P < 2 ^ 52"
    if p: "p \<in> set ps" for p
  proof (cases "pool_block_size m py p")
    case None
    then have "first p = p" "sz p = py_poolSize py" "n p = 1"
      by (simp_all add: first_def sz_def n_def pool_run_def)
    then show ?thesis using assms(1) p pool_sound_size [of m py p] by (simp add: word_less_nat_alt)
  next
    case (Some bs)
    note S = pool_shape [OF _ Some]
    have "first p = p + 0x30" "sz p = bs" "n p = (?P - 0x30) div unat bs"
      using Some by (simp_all add: first_def sz_def n_def pool_run_def Let_def)
    then show ?thesis using assms(1) p S(3,5,7) pool_sound_size [of m py p] by (simp add: word_less_nat_alt)
  qed
  have "finder_ok (concat (map (\<lambda>p. run_allocations (first p) (sz p) (n p) (used p)) ps))"
  proof (rule runs_finder_ok)
    show "\<forall>p\<in>set ps. 0 < sz p \<and> unat (first p) + n p * unat (sz p) < 2 ^ 52" using shape by fastforce
    show "sorted_wrt (\<lambda>p q. unat (first p) + n p * unat (sz p) \<le> unat (first q)) ps"
    proof (rule sorted_wrt_mono_rel [OF _ assms(2)])
      fix p q assume "p \<in> set ps" "q \<in> set ps" "unat p + ?P \<le> unat q"
      then show "unat (first p) + n p * unat (sz p) \<le> unat (first q)" using shape [of p] shape [of q] by linarith
    qed
  qed
  then show ?thesis by (simp add: alls [abs_def])
qed

text \<open>
  C24: The finder of python blocks, on arenas that can be read, have a pool and whose pools are sound: no block is
  smaller than a pointer or larger than the pool, and every free list ends or leaves its pool.  The constructor
  returns, and driven to its end the finder reports for every pool of every active arena, in order, all its blocks,
  used exactly if they were ever used and are not on the free list, or the whole pool as one free allocation if it
  has none.  Where the pools are in order and do not overlap, this meets the contract under which
  \<open>Resolve_correct\<close> merges the finders.
\<close>

theorem BlockAllocationFinder_correct:
  assumes "py_sound m py"
    "sorted_wrt (\<lambda>p q. unat p + unat (py_poolSize py) \<le> unat q) (all_pools m py)"
  shows "\<exists>f f'. BlockFinder_new m py = Some f \<and>
     finder_drive (bf_Finished py) (bf_Advance m py) bf_Next f =
       Some (concat (map (pool_allocations m py) (all_pools m py)), f') \<and> bf_Finished py f' \<and>
     finder_ok (concat (map (pool_allocations m py) (all_pools m py)))"
proof -
  let ?len = "length (py_activeIndices py)"
  have sound: "\<forall>p\<in>set (all_pools m py). pool_sound m py p"
    "\<forall>i<?len. \<exists>firstPool poolsLimit. arena_range m py i = Some (firstPool, poolsLimit) \<and> firstPool < poolsLimit"
    using assms(1) by (auto simp: py_sound_def)
  let ?f0 = "\<lparr>bf_itActiveIndices = 0, bf_blockUsedInPool = [], bf_arena = 0, bf_firstPool = 0, bf_poolsLimit = 0,
               bf_pool = 0, bf_blockSize = 0, bf_block = 0, bf_blockIndex = 0, bf_blocksLimit = 0,
               bf_allocationAddress = 0, bf_allocationSize = 0, bf_allocationIsUsed = False\<rparr>"
  have ok: "finder_ok (concat (map (pool_allocations m py) (all_pools m py)))" by (rule py_finder_ok [OF sound(1) assms(2)])
  show ?thesis
  proof (cases "?len = 0")
    case True
    then have "BlockFinder_new m py = Some ?f0" "bf_Finished py ?f0" "all_pools m py = []"
      by (simp_all add: BlockFinder_new_def bf_Finished_def all_pools_def)
    then show ?thesis using ok by (subst finder_drive.simps) simp
  next
    case False
    let ?f = "?f0\<lparr>bf_blockUsedInPool := replicate (unat ((py_poolSize py - 0x30) div 8)) True\<rparr>"
    obtain fp pl where r: "arena_range m py 0 = Some (fp, pl)" "fp < pl" using sound(2) False by auto
    have all: "all_pools m py = arena_pools m py 0 @ concat (map (arena_pools m py) [1..<?len])"
      using False by (simp add: all_pools_def upt_conv_Cons)
    have pools: "arena_pools m py 0 = pools_upto (py_poolSize py) pl fp" by (simp add: arena_pools_def r(1))
    have P: "0 < unat (py_poolSize py)" using assms(1) by (simp add: py_sound_def word_le_nat_alt)
    obtain ps where ps: "arena_pools m py 0 = fp # ps" "pool_sound m py fp"
      using arena_pools_Cons [OF r P] sound(1) all by auto
    have "\<exists>f'. enter_arena m py ?f = Some f' \<and> pool_state m py f' 0 \<and> bf_itActiveIndices f' = bf_itActiveIndices ?f \<and>
        bf_pool f' = fp \<and> bf_poolsLimit f' = pl \<and> length (bf_blockUsedInPool f') = length (bf_blockUsedInPool ?f)"
      by (rule enter_arena_outcome) (use False r ps(2) in simp_all)
    then obtain f' where f': "enter_arena m py ?f = Some f'" "pool_state m py f' 0" "bf_itActiveIndices f' = 0"
      "bf_pool f' = fp" "bf_poolsLimit f' = pl" "length (bf_blockUsedInPool f') = unat ((py_poolSize py - 0x30) div 8)"
      by auto
    have new: "BlockFinder_new m py = Some f'" using f'(1) False by (simp add: BlockFinder_new_def bf_Finished_def)
    let ?rest = "ps @ concat (map (arena_pools m py) [1..<?len])"
    have cons: "all_pools m py = fp # ?rest" using all ps(1) by simp
    have "py_at (m, py) (fp # ?rest) 0 f'"
      unfolding py_at_def using f' False r(2) sound cons all pools by auto
    from py_finder.drive_groups [OF this] show ?thesis using new ok cons by auto
  qed
qed


text \<open>
  Memory with the structure of an arena at 0x1000 and its only pool at 0x1040, which has two blocks, both ever used
  and the second on the free list.
\<close>

definition pool_map :: VirtualAddressMap where
  "pool_map = AddRange (VirtualAddressMap_new
     ([0x40, 0x10] @ replicate 62 0 @ [1, 0, 0, 0, 0, 0, 0, 0, 0x78, 0x10, 0, 0, 0, 0, 0, 0] @ replicate 24 0 @
      [0x40, 0, 0, 0, 0x38, 0, 0, 0] @ replicate 16 0))
     0x1000 128 (0 - 0x1000) True True True False False"

definition pool_layout :: PyLayout where
  "pool_layout = \<lparr>py_arenaStructArray = 0x1000, py_arenaStructSize = 8, py_arenaSize = 0x40, py_poolSize = 0x40,
     py_activeIndices = [0]\<rparr>"

lemma pool_map_entries:
  "rm_map (ranges pool_map) = [(0x1080, 128, \<lparr>adjustToFileOffset = 0 - 0x1000, flags = 0x19\<rparr>)]"
  "fileImage pool_map =
     [0x40, 0x10] @ replicate 62 0 @ [1, 0, 0, 0, 0, 0, 0, 0, 0x78, 0x10, 0, 0, 0, 0, 0, 0] @ replicate 24 0 @
      [0x40, 0, 0, 0, 0x38, 0, 0, 0] @ replicate 16 0"
  by (simp_all add: pool_map_def AddRange_def VirtualAddressMap_new_def AddRange_flags_def flag_defs
      MapRange_def RangeMapper_new_def sm_lower_bound_def rm_emplace_result_def sm_emplace_def
      rm_next_def sm_upper_bound_def sm_find_def)

lemma le_value_zeros [simp]: "le_value (replicate n 0) = 0"
  by (induction n) simp_all

lemma pool_map_reads:
  "word_at pool_map 0x1000 = Some 0x1040" "u32_or pool_map 0x1040 0 = 1" "u32_or pool_map 0x106c 0 = 0x38"
  "u32_or pool_map 0x1068 0 = 0x40" "word_or pool_map 0x1048 0 = 0x1078" "word_or pool_map 0x1078 0 = 0"
  by (simp_all add: word_or_def word_at_def u32_or_def read_spec_def vam_find_def rm_find_def
      sm_upper_bound_def pool_map_entries has_image_def flag_defs nth_append)

theorem BlockAllocationFinder_correct_witness:
  "\<exists>f f'. BlockFinder_new pool_map pool_layout = Some f \<and>
     finder_drive (bf_Finished pool_layout) (bf_Advance pool_map pool_layout) bf_Next f =
       Some ([(0x1070, 8, True), (0x1078, 8, False)], f') \<and> bf_Finished pool_layout f'"
proof -
  have P: "py_poolSize pool_layout = 0x40" by (simp add: pool_layout_def)
  have bs: "pool_block_size pool_map pool_layout 0x1040 = Some 8"
    by (simp add: pool_block_size_def pool_map_reads P)
  have free: "free_blocks pool_map 0x1070 0x1080 8 64 0x1078 = Some [1]"
    using free_blocks.simps(2) [of pool_map "0x1070" "0x1080" 8 63 "0x1078"] free_blocks.simps(2) [of pool_map "0x1070" "0x1080" 8 62 0]
    by (simp add: pool_map_reads)
  have r: "arena_range pool_map pool_layout 0 = Some (0x1040, 0x1080)"
    by (simp add: arena_range_def pool_layout_def pool_map_reads)
  have all: "all_pools pool_map pool_layout = [0x1040]"
    using r by (simp add: all_pools_def arena_pools_def pools_upto_def pool_layout_def)
  have ps: "pool_sound pool_map pool_layout 0x1040" by (simp add: pool_sound_def bs P free pool_map_reads)
  have len: "length (py_activeIndices pool_layout) = 1" by (simp add: pool_layout_def)
  have sound: "py_sound pool_map pool_layout" by (simp add: py_sound_def r all ps P len)
  have ever: "blocks_ever_used pool_map 0x1040 8 2 = 2" by (simp add: blocks_ever_used_def pool_map_reads)
  have "pool_allocations pool_map pool_layout 0x1040 = [(0x1070, 8, True), (0x1078, 8, False)]"
    by (simp add: pool_allocations_def pool_run_def bs P free ever pool_map_reads run_allocations_def upt_rec)
  then show ?thesis using BlockAllocationFinder_correct [OF sound] by (auto simp: all)
qed

end
