(* ===== verification/Name_Directories.thy ===== *)
theory Name_Directories
  imports Std_Map
begin

text \<open>
  The classes \<open>SignatureDirectory\<close> and \<open>AnchorDirectory\<close> of Allocations/: which numbers are the signatures
  of types (the addresses of their vtables, as a rule) and which addresses anchor allocations, each with its
  name, and for every name the numbers that have it.  The locale \<open>name_directory\<close> is what the two promise.
\<close>

section \<open>Names of numbers\<close>

locale name_directory =
  fixes ok :: "'d \<Rightarrow> bool" and name_of :: "'d \<Rightarrow> addr \<Rightarrow> string option"
    and holders :: "'d \<Rightarrow> string \<Rightarrow> addr set" and several :: "'d \<Rightarrow> bool"
  assumes holders_iff: "ok d \<Longrightarrow> a \<in> holders d name \<longleftrightarrow> name \<noteq> '''' \<and> name_of d a = Some name"
    and several_if: "ok d \<Longrightarrow> 1 < card (holders d name) \<Longrightarrow> several d"
begin

lemma holder_name: "ok d \<Longrightarrow> a \<in> holders d name \<Longrightarrow> a \<in> holders d name' \<Longrightarrow> name = name'"
  by (simp add: holders_iff)

lemma name_unique:
  assumes "ok d" "\<not> several d" "name_of d a = Some name" "name_of d b = Some name" "name \<noteq> ''''"
  shows "a = b"
proof (rule ccontr)
  assume "a \<noteq> b"
  then have "card {a, b} = 2" by simp
  moreover have "{a, b} \<subseteq> holders d name" using assms holders_iff by simp
  moreover have "finite (holders d name)" by simp
  ultimately have "1 < card (holders d name)" using card_mono [of "holders d name" "{a, b}"] by simp
  then show False using several_if assms(1,2) by blast
qed

end

text \<open>The sets of the numbers of a name, and the change of the name of a number.\<close>

type_synonym name_sets = "string \<rightharpoonup> addr set"

definition numbers :: "name_sets \<Rightarrow> string \<Rightarrow> addr set" where
  "numbers sets name = (case sets name of None \<Rightarrow> {} | Some numbers \<Rightarrow> numbers)"

definition forget_name :: "string \<Rightarrow> addr \<Rightarrow> name_sets \<Rightarrow> name_sets" where
  "forget_name known a sets = (if known \<noteq> '''' then sets(known \<mapsto> numbers sets known - {a}) else sets)"

definition note_name :: "string \<Rightarrow> addr \<Rightarrow> name_sets \<times> bool \<Rightarrow> name_sets \<times> bool" where
  "note_name name a = (\<lambda>(sets, several).
     if name \<noteq> '''' then
       let s = insert a (numbers sets name) in (sets(name \<mapsto> s), several \<or> 1 < card s)
     else (sets, several))"

lemma numbers_forget: "numbers (forget_name known a sets) name = numbers sets name - (if name = known \<and> known \<noteq> '''' then {a} else {})"
  by (simp add: forget_name_def numbers_def)

lemma numbers_note:
  "numbers (fst (note_name name a (sets, several))) n = (if n = name \<and> name \<noteq> '''' then insert a (numbers sets n) else numbers sets n)"
  by (simp add: note_name_def numbers_def Let_def)

lemma several_note:
  "snd (note_name name a (sets, several)) \<longleftrightarrow> several \<or> name \<noteq> '''' \<and> 1 < card (insert a (numbers sets name))"
  by (simp add: note_name_def Let_def)

text \<open>The sets give the names of a function back, and say if a name has several numbers.\<close>

definition sets_ok :: "(addr \<Rightarrow> string option) \<Rightarrow> name_sets \<times> bool \<Rightarrow> bool" where
  "sets_ok f = (\<lambda>(sets, several).
     (\<forall>a name. a \<in> numbers sets name \<longleftrightarrow> name \<noteq> '''' \<and> f a = Some name) \<and>
     ((\<exists>name. 1 < card (numbers sets name)) \<longrightarrow> several))"

lemma rename_ok:
  assumes "sets_ok f (sets, several)" "known = (case f a of None \<Rightarrow> '''' | Some n \<Rightarrow> n)" "known \<noteq> name \<or> known = ''''"
  shows "sets_ok (f(a \<mapsto> name)) (note_name name a (forget_name known a sets, several))"
proof -
  obtain sets' several' where n: "note_name name a (forget_name known a sets, several) = (sets', several')" by fastforce
  have s: "numbers sets' m = (if m = name \<and> name \<noteq> '''' then insert a (numbers sets m)
      else numbers sets m - (if m = known \<and> known \<noteq> '''' then {a} else {}))" for m
    using numbers_note [of name a "forget_name known a sets" several m] assms(3) by (auto simp: n numbers_forget)
  have f: "x \<in> numbers sets m \<longleftrightarrow> m \<noteq> '''' \<and> f x = Some m" for x m using assms(1) by (simp add: sets_ok_def)
  have several: "several'" if "1 < card (numbers sets' m)" for m
  proof (cases "m = name \<and> name \<noteq> ''''")
    case True
    then show ?thesis
      using several_note [of name a "forget_name known a sets" several] assms(3) that by (auto simp: n s numbers_forget)
  next
    case False
    then have "numbers sets' m \<subseteq> numbers sets m" by (auto simp: s)
    then have "1 < card (numbers sets m)" using that by (meson card_mono finite order.strict_trans2)
    then have several using assms(1) by (auto simp: sets_ok_def)
    then show ?thesis using several_note [of name a "forget_name known a sets" several] n by auto
  qed
  have "x \<in> numbers sets' m \<longleftrightarrow> m \<noteq> '''' \<and> (f(a \<mapsto> name)) x = Some m" for x m
    using assms(2,3) by (auto simp: s f split: option.splits if_splits)
  then show ?thesis using several n by (auto simp: sets_ok_def)
qed

section \<open>Signatures\<close>

datatype Status =
    UNWRITABLE_PENDING_SYMDEFS
  | UNWRITABLE_MISSING_FROM_SYMDEFS
  | VTABLE_WITH_NAME_FROM_SYMDEFS
  | UNWRITABLE_WITH_NAME_FROM_SYMDEFS
  | VTABLE_WITH_NAME_FROM_PROCESS_IMAGE
  | WRITABLE_VTABLE_WITH_NAME_FROM_PROCESS_IMAGE
  | VTABLE_WITH_NAME_FROM_BINARY
  | WRITABLE_MODULE_REFERENCE
  | VTABLE_WITH_NAME_FROM_BINDEFS

record SignatureDirectory =
  multipleSignaturesPerName :: bool
  signatureToName :: "(addr, string \<times> Status) std_map"
  nameToSignatures :: name_sets

definition SignatureDirectory_new :: SignatureDirectory where
  "SignatureDirectory_new = \<lparr>multipleSignaturesPerName = False, signatureToName = [], nameToSignatures = Map.empty\<rparr>"

text \<open>The last blank of a string, and the loop that erases it while there is one.\<close>

fun rfind_blank :: "string \<Rightarrow> nat option" where
  "rfind_blank [] = None"
| "rfind_blank (c # cs) =
     (case rfind_blank cs of Some i \<Rightarrow> Some (i + 1) | None \<Rightarrow> if c = CHR '' '' then Some 0 else None)"

lemma rfind_blank_less: "rfind_blank s = Some i \<Longrightarrow> i < length s"
  by (induction s arbitrary: i) (auto split: option.splits if_splits)

function erase_blanks :: "string \<Rightarrow> string" where
  "erase_blanks name =
     (case rfind_blank name of None \<Rightarrow> name
      | Some blankPos \<Rightarrow> erase_blanks (take blankPos name @ drop (blankPos + 1) name))"
  by auto
termination by (relation "measure length") (auto dest: rfind_blank_less)

declare erase_blanks.simps [simp del]

definition MapSignatureNameAndStatus :: "addr \<Rightarrow> string \<Rightarrow> Status \<Rightarrow> SignatureDirectory \<Rightarrow> SignatureDirectory" where
  "MapSignatureNameAndStatus signature name0 status d =
     (let name = erase_blanks name0;
          known = (case sm_find (signatureToName d) signature of None \<Rightarrow> '''' | Some e \<Rightarrow> fst e) in
      if (case sm_find (signatureToName d) signature of None \<Rightarrow> False
          | Some (knownName, knownStatus) \<Rightarrow> if name = '''' then knownStatus = status else name = knownName)
      then d
      else
        let r = note_name name signature (forget_name known signature (nameToSignatures d), multipleSignaturesPerName d) in
        \<lparr>multipleSignaturesPerName = snd r, signatureToName = sm_assign signature (name, status) (signatureToName d),
         nameToSignatures = fst r\<rparr>)"

definition IsMapped :: "SignatureDirectory \<Rightarrow> addr \<Rightarrow> bool" where
  "IsMapped d signature \<longleftrightarrow> sm_find (signatureToName d) signature \<noteq> None"

fun status_is_vtable :: "Status \<Rightarrow> bool" where
  "status_is_vtable UNWRITABLE_PENDING_SYMDEFS = False"
| "status_is_vtable UNWRITABLE_MISSING_FROM_SYMDEFS = False"
| "status_is_vtable VTABLE_WITH_NAME_FROM_SYMDEFS = True"
| "status_is_vtable UNWRITABLE_WITH_NAME_FROM_SYMDEFS = False"
| "status_is_vtable VTABLE_WITH_NAME_FROM_PROCESS_IMAGE = True"
| "status_is_vtable WRITABLE_VTABLE_WITH_NAME_FROM_PROCESS_IMAGE = True"
| "status_is_vtable VTABLE_WITH_NAME_FROM_BINARY = True"
| "status_is_vtable WRITABLE_MODULE_REFERENCE = False"
| "status_is_vtable VTABLE_WITH_NAME_FROM_BINDEFS = False"

definition IsKnownVtablePointer :: "SignatureDirectory \<Rightarrow> addr \<Rightarrow> bool" where
  "IsKnownVtablePointer d signature =
     (case sm_find (signatureToName d) signature of None \<Rightarrow> False | Some e \<Rightarrow> status_is_vtable (snd e))"

definition sd_Name :: "SignatureDirectory \<Rightarrow> addr \<Rightarrow> string" where
  "sd_Name d signature = (case sm_find (signatureToName d) signature of None \<Rightarrow> '''' | Some e \<Rightarrow> fst e)"

definition Signatures :: "SignatureDirectory \<Rightarrow> string \<Rightarrow> addr set" where
  "Signatures d name = numbers (nameToSignatures d) name"

section \<open>Anchors\<close>

record AnchorDirectory =
  multipleAnchorsPerName :: bool
  anchorToName :: "(addr, string) std_map"
  nameToAnchors :: name_sets

definition AnchorDirectory_new :: AnchorDirectory where
  "AnchorDirectory_new = \<lparr>multipleAnchorsPerName = False, anchorToName = [], nameToAnchors = Map.empty\<rparr>"

definition MapAnchorToName :: "addr \<Rightarrow> string \<Rightarrow> AnchorDirectory \<Rightarrow> AnchorDirectory" where
  "MapAnchorToName anchor name d =
     (let known = (case sm_find (anchorToName d) anchor of None \<Rightarrow> '''' | Some n \<Rightarrow> n) in
      if (case sm_find (anchorToName d) anchor of None \<Rightarrow> False | Some n \<Rightarrow> n = name \<or> name = '''') then d
      else
        let r = note_name name anchor (forget_name known anchor (nameToAnchors d), multipleAnchorsPerName d) in
        \<lparr>multipleAnchorsPerName = snd r, anchorToName = sm_assign anchor name (anchorToName d), nameToAnchors = fst r\<rparr>)"

definition ad_IsMapped :: "AnchorDirectory \<Rightarrow> addr \<Rightarrow> bool" where
  "ad_IsMapped d anchor \<longleftrightarrow> sm_find (anchorToName d) anchor \<noteq> None"

definition ad_Name :: "AnchorDirectory \<Rightarrow> addr \<Rightarrow> string" where
  "ad_Name d anchor = (case sm_find (anchorToName d) anchor of None \<Rightarrow> '''' | Some n \<Rightarrow> n)"

definition Anchors :: "AnchorDirectory \<Rightarrow> string \<Rightarrow> addr set" where
  "Anchors d name = numbers (nameToAnchors d) name"

section \<open>Invariants\<close>

definition sd_ok :: "SignatureDirectory \<Rightarrow> bool" where
  "sd_ok d \<longleftrightarrow> sm_sorted (signatureToName d) \<and>
     sets_ok (\<lambda>a. map_option fst (sm_find (signatureToName d) a)) (nameToSignatures d, multipleSignaturesPerName d)"

definition ad_ok :: "AnchorDirectory \<Rightarrow> bool" where
  "ad_ok d \<longleftrightarrow> sm_sorted (anchorToName d) \<and> sets_ok (sm_find (anchorToName d)) (nameToAnchors d, multipleAnchorsPerName d)"

interpretation signatures: name_directory sd_ok "\<lambda>d a. map_option fst (sm_find (signatureToName d) a)" Signatures
  multipleSignaturesPerName
  by unfold_locales (auto simp: sd_ok_def sets_ok_def Signatures_def)

interpretation anchors: name_directory ad_ok "\<lambda>d. sm_find (anchorToName d)" Anchors multipleAnchorsPerName
  by unfold_locales (auto simp: ad_ok_def sets_ok_def Anchors_def)

lemma directories_new: "sd_ok SignatureDirectory_new" "ad_ok AnchorDirectory_new"
  by (simp_all add: sd_ok_def ad_ok_def sets_ok_def numbers_def SignatureDirectory_new_def AnchorDirectory_new_def)

lemma rfind_blank_None: "rfind_blank s = None \<Longrightarrow> filter (\<lambda>c. c \<noteq> CHR '' '') s = s"
  by (induction s) (auto split: option.splits if_splits)

lemma rfind_blank_nth: "rfind_blank s = Some i \<Longrightarrow> s ! i = CHR '' ''"
  by (induction s arbitrary: i) (auto split: option.splits if_splits)

lemma erase_blanks_filter: "erase_blanks name = filter (\<lambda>c. c \<noteq> CHR '' '') name"
proof (induction name rule: erase_blanks.induct)
  case (1 name)
  show ?case
  proof (cases "rfind_blank name")
    case None
    then show ?thesis by (simp add: erase_blanks.simps [of name] rfind_blank_None)
  next
    case (Some i)
    have "name = take i name @ name ! i # drop (i + 1) name"
      using rfind_blank_less [OF Some] by (simp add: id_take_nth_drop)
    then have "filter (\<lambda>c. c \<noteq> CHR '' '') name =
        filter (\<lambda>c. c \<noteq> CHR '' '') (take i name @ name ! i # drop (i + 1) name)" by simp
    also have "\<dots> = filter (\<lambda>c. c \<noteq> CHR '' '') (take i name @ drop (i + 1) name)"
      by (simp add: rfind_blank_nth [OF Some])
    finally show ?thesis using 1 [OF Some] Some by (simp add: erase_blanks.simps [of name])
  qed
qed

text \<open>A name takes the place of the one known; no name takes its place only together with another status.\<close>

fun rename_signature :: "string \<times> Status \<Rightarrow> (string \<times> Status) option \<Rightarrow> string \<times> Status" where
  "rename_signature new None = new"
| "rename_signature (name, status) (Some (known, knownStatus)) =
     (if name = '''' then if status = knownStatus then (known, knownStatus) else ('''', status)
      else if name = known then (known, knownStatus) else (name, status))"

fun rename_anchor :: "string \<Rightarrow> string option \<Rightarrow> string" where
  "rename_anchor name None = name"
| "rename_anchor name (Some known) = (if name = '''' then known else name)"

lemma MapSignatureNameAndStatus_outcome:
  assumes "sd_ok d"
  shows "sd_ok (MapSignatureNameAndStatus s name st d)"
    "sm_find (signatureToName (MapSignatureNameAndStatus s name st d)) =
       (sm_find (signatureToName d))(s \<mapsto> rename_signature (filter (\<lambda>c. c \<noteq> CHR '' '') name, st) (sm_find (signatureToName d) s))"
proof -
  let ?m = "signatureToName d" and ?n = "erase_blanks name"
  let ?same = "case sm_find ?m s of None \<Rightarrow> False | Some (k, kst) \<Rightarrow> if ?n = '''' then kst = st else ?n = k"
  let ?known = "case sm_find ?m s of None \<Rightarrow> '''' | Some e \<Rightarrow> fst e"
  have sorted: "sm_sorted ?m" using assms by (simp add: sd_ok_def)
  have r: "sm_find (sm_assign s (?n, st) ?m) = (sm_find ?m)(s \<mapsto> (?n, st))" using sorted by auto
  have "sd_ok (MapSignatureNameAndStatus s name st d) \<and>
    sm_find (signatureToName (MapSignatureNameAndStatus s name st d)) =
      (sm_find ?m)(s \<mapsto> rename_signature (?n, st) (sm_find ?m s))"
  proof (cases ?same)
    case True
    then have "MapSignatureNameAndStatus s name st d = d" by (simp add: MapSignatureNameAndStatus_def Let_def)
    moreover have "(sm_find ?m)(s \<mapsto> rename_signature (?n, st) (sm_find ?m s)) = sm_find ?m"
      using True by (auto simp: fun_eq_iff split: option.splits if_splits)
    ultimately show ?thesis using assms by simp
  next
    case False
    have "rename_signature (?n, st) (sm_find ?m s) = (?n, st)" using False by (auto split: option.splits if_splits)
    moreover have "sets_ok ((\<lambda>a. map_option fst (sm_find ?m a))(s \<mapsto> ?n))
        (note_name ?n s (forget_name ?known s (nameToSignatures d), multipleSignaturesPerName d))"
      using assms False by (intro rename_ok) (auto simp: sd_ok_def split: option.splits if_splits)
    moreover have "(\<lambda>a. map_option fst (((sm_find ?m)(s \<mapsto> (?n, st))) a)) = (\<lambda>a. map_option fst (sm_find ?m a))(s \<mapsto> ?n)" by auto
    ultimately show ?thesis
      using False sorted r by (simp add: MapSignatureNameAndStatus_def Let_def sd_ok_def)
  qed
  then show "sd_ok (MapSignatureNameAndStatus s name st d)"
    "sm_find (signatureToName (MapSignatureNameAndStatus s name st d)) =
       (sm_find ?m)(s \<mapsto> rename_signature (filter (\<lambda>c. c \<noteq> CHR '' '') name, st) (sm_find ?m s))"
    by (simp_all add: erase_blanks_filter)
qed

lemma MapAnchorToName_outcome:
  assumes "ad_ok d"
  shows "ad_ok (MapAnchorToName a name d)"
    "sm_find (anchorToName (MapAnchorToName a name d)) =
       (sm_find (anchorToName d))(a \<mapsto> rename_anchor name (sm_find (anchorToName d) a))"
proof -
  let ?m = "anchorToName d"
  let ?same = "case sm_find ?m a of None \<Rightarrow> False | Some n \<Rightarrow> n = name \<or> name = ''''"
  let ?known = "case sm_find ?m a of None \<Rightarrow> '''' | Some n \<Rightarrow> n"
  have sorted: "sm_sorted ?m" using assms by (simp add: ad_ok_def)
  have r: "sm_find (sm_assign a name ?m) = (sm_find ?m)(a \<mapsto> name)" using sorted by auto
  have "ad_ok (MapAnchorToName a name d) \<and>
    sm_find (anchorToName (MapAnchorToName a name d)) = (sm_find ?m)(a \<mapsto> rename_anchor name (sm_find ?m a))"
  proof (cases ?same)
    case True
    then have "MapAnchorToName a name d = d" by (simp add: MapAnchorToName_def Let_def)
    moreover have "(sm_find ?m)(a \<mapsto> rename_anchor name (sm_find ?m a)) = sm_find ?m"
      using True by (auto simp: fun_eq_iff split: option.splits)
    ultimately show ?thesis using assms by simp
  next
    case False
    have "rename_anchor name (sm_find ?m a) = name" using False by (auto split: option.splits)
    moreover have "sets_ok ((sm_find ?m)(a \<mapsto> name)) (note_name name a (forget_name ?known a (nameToAnchors d), multipleAnchorsPerName d))"
      using assms False by (intro rename_ok) (auto simp: ad_ok_def split: option.splits)
    ultimately show ?thesis using False sorted r by (simp add: MapAnchorToName_def Let_def ad_ok_def)
  qed
  then show "ad_ok (MapAnchorToName a name d)"
    "sm_find (anchorToName (MapAnchorToName a name d)) = (sm_find ?m)(a \<mapsto> rename_anchor name (sm_find ?m a))" by simp_all
qed

section \<open>Properties\<close>

text \<open>A directory that was told of some signatures, in order, and what was last said of each.\<close>

definition told :: "(addr \<times> string \<times> Status) list \<Rightarrow> SignatureDirectory" where
  "told news = fold (\<lambda>(s, name, st). MapSignatureNameAndStatus s name st) news SignatureDirectory_new"

definition last_said :: "(addr \<times> string \<times> Status) list \<Rightarrow> addr \<rightharpoonup> string \<times> Status" where
  "last_said news = fold (\<lambda>(s, name, st) m.
     m(s \<mapsto> rename_signature (filter (\<lambda>c. c \<noteq> CHR '' '') name, st) (m s))) news Map.empty"

lemma last_said_snoc:
  "last_said (news @ [(s, name, st)]) =
     (last_said news)(s \<mapsto> rename_signature (filter (\<lambda>c. c \<noteq> CHR '' '') name, st) (last_said news s))"
  by (simp add: last_said_def)

lemma told_outcome: "sd_ok (told news) \<and> sm_find (signatureToName (told news)) = last_said news"
proof (induction news rule: rev_induct)
  case Nil
  show ?case using directories_new(1) by (auto simp: told_def last_said_def SignatureDirectory_new_def)
next
  case (snoc new news)
  obtain s name st where new: "new = (s, name, st)" by (cases new)
  have "told (news @ [new]) = MapSignatureNameAndStatus s name st (told news)" by (simp add: told_def new)
  then show ?case
    using MapSignatureNameAndStatus_outcome [of "told news" s name st] snoc by (simp add: last_said_snoc new)
qed

lemma dom_last_said: "dom (last_said news) = fst ` set news"
proof (induction news rule: rev_induct)
  case (snoc new news)
  then show ?case 
    by (cases new) (simp only: last_said_snoc dom_fun_upd set_append image_Un, simp)
qed (simp add: last_said_def)

text \<open>
  Whatever is told to a signature directory, one after the other, the signatures are exactly those told of;
  the name of each is the last name it got, without blanks, which \<open>rename_signature\<close> determines; the
  signatures of a name are exactly those with that name, so that a signature whose name changes is no longer
  found under the old one; and as long as it was not noticed that a name has several signatures, no two
  signatures have the same name.
\<close>

theorem SignatureDirectory_correct:
  "(IsMapped (told news) s \<longleftrightarrow> s \<in> fst ` set news) \<and>
   sd_Name (told news) s = (case last_said news s of None \<Rightarrow> '''' | Some (n, st) \<Rightarrow> n) \<and>
   (IsKnownVtablePointer (told news) s \<longleftrightarrow> (\<exists>n st. last_said news s = Some (n, st) \<and> status_is_vtable st)) \<and>
   (s \<in> Signatures (told news) name \<longleftrightarrow> name \<noteq> '''' \<and> sd_Name (told news) s = name) \<and>
   (multipleSignaturesPerName (told news) \<or> sd_Name (told news) s = '''' \<or>
    (\<forall>s'. sd_Name (told news) s' = sd_Name (told news) s \<longleftrightarrow> s' = s))"
proof (intro conjI)
  have ok: "sd_ok (told news)" and m: "sm_find (signatureToName (told news)) = last_said news" using told_outcome by auto
  show "IsMapped (told news) s \<longleftrightarrow> s \<in> fst ` set news"
    unfolding IsMapped_def m dom_last_said [of news, symmetric] by blast
  show "sd_Name (told news) s = (case last_said news s of None \<Rightarrow> '''' | Some (n, st) \<Rightarrow> n)"
    by (simp add: sd_Name_def m split: option.splits)
  show "IsKnownVtablePointer (told news) s \<longleftrightarrow> (\<exists>n st. last_said news s = Some (n, st) \<and> status_is_vtable st)"
    by (auto simp: IsKnownVtablePointer_def m split: option.splits)
  show "s \<in> Signatures (told news) name \<longleftrightarrow> name \<noteq> '''' \<and> sd_Name (told news) s = name"
    using signatures.holders_iff [OF ok, of s name] by (auto simp: sd_Name_def split: option.splits)
  have "s' = s" if "\<not> multipleSignaturesPerName (told news)" "sd_Name (told news) s \<noteq> ''''"
    "sd_Name (told news) s' = sd_Name (told news) s" for s'
    using signatures.name_unique [OF ok that(1), of s' "sd_Name (told news) s" s] that(2,3)
    by (auto simp: sd_Name_def split: option.splits)
  then show "multipleSignaturesPerName (told news) \<or> sd_Name (told news) s = '''' \<or>
    (\<forall>s'. sd_Name (told news) s' = sd_Name (told news) s \<longleftrightarrow> s' = s)" by blast
qed

end
