(* ===== verification/Tagger_Runner.thy ===== *)
theory Tagger_Runner
  imports Tag_Holder Name_Directories Memory_Reads
begin

text \<open>
  The classes \<open>Tagger\<close> and \<open>TaggerRunner\<close> of Allocations/: how the taggers are run over the allocations.
  A tagger is a record of its operations on a state, of which the runner reads only the tag holder and the
  set of tainted edges; \<open>None\<close> is an abort or an access outside an array.
\<close>

section \<open>Taggers\<close>

datatype Phase = QUICK_INITIAL_CHECK | MEDIUM_CHECK | SLOW_CHECK | WEAK_CHECK

record 's Tagger =
  TagFromAllocation :: "ContiguousImage \<Rightarrow> nat \<Rightarrow> Phase \<Rightarrow> Allocation \<Rightarrow> bool \<Rightarrow> 's \<Rightarrow> ('s \<times> bool) option"
  TagFromReferenced :: "ContiguousImage \<Rightarrow> nat \<Rightarrow> Phase \<Rightarrow> Allocation \<Rightarrow> nat list \<Rightarrow> 's \<Rightarrow> ('s \<times> bool) option"
  tagger_MarkFavoredReferences :: "ContiguousImage \<Rightarrow> nat \<Rightarrow> Allocation \<Rightarrow> nat list \<Rightarrow> 's \<Rightarrow> 's option"

text \<open>What a tagger does that overrides only the first operation.\<close>

definition default_TagFromReferenced :: "ContiguousImage \<Rightarrow> nat \<Rightarrow> Phase \<Rightarrow> Allocation \<Rightarrow> nat list \<Rightarrow> 's \<Rightarrow> ('s \<times> bool) option" where
  "default_TagFromReferenced ci i phase al unresolvedOutgoing s = Some (s, True)"

definition default_MarkFavoredReferences :: "ContiguousImage \<Rightarrow> nat \<Rightarrow> Allocation \<Rightarrow> nat list \<Rightarrow> 's \<Rightarrow> 's option" where
  "default_MarkFavoredReferences ci i al outgoingEdgeIndices s = Some s"

lemma defaults_image:
  "default_TagFromReferenced ci i = default_TagFromReferenced ci' i"
  "default_MarkFavoredReferences ci i = default_MarkFavoredReferences ci' i"
  by (simp_all add: default_TagFromReferenced_def default_MarkFavoredReferences_def fun_eq_iff)

section \<open>The runner\<close>

record 's TaggerRunner =
  tr_addressMap :: VirtualAddressMap
  tr_graph :: Graph
  tr_directory :: Directory
  tr_tagHolder :: "'s \<Rightarrow> TagHolder"
  tr_edgeIsTainted :: "'s \<Rightarrow> EdgePredicate"
  tr_signatureDirectory :: SignatureDirectory
  tr_taggers :: "'s Tagger list"

text \<open>What changes while the runner works.\<close>

record 's RunState =
  rs_contiguousImage :: ContiguousImage
  rs_finishedWithPass :: "bool list"
  rs_numFinishedWithPass :: nat
  rs_state :: 's

definition RegisterTagger :: "'s Tagger \<Rightarrow> 's TaggerRunner \<Rightarrow> 's TaggerRunner" where
  "RegisterTagger t R = R\<lparr>tr_taggers := tr_taggers R @ [t]\<rparr>"

text \<open>A loop whose steps may abort.\<close>

fun fold_option :: "('a \<Rightarrow> 'b \<Rightarrow> 'b option) \<Rightarrow> 'a list \<Rightarrow> 'b \<Rightarrow> 'b option" where
  "fold_option f [] b = Some b"
| "fold_option f (x # xs) b = Option.bind (f x b) (fold_option f xs)"

text \<open>One phase: every tagger that is not finished is called; the phase ends once all are finished.\<close>

fun run_phase ::
  "('s Tagger \<Rightarrow> 's \<Rightarrow> ('s \<times> bool) option) \<Rightarrow> nat \<Rightarrow> 's Tagger list \<Rightarrow> nat \<Rightarrow> 's RunState \<Rightarrow> ('s RunState \<times> bool) option" where
  "run_phase call numTaggers [] resolvedIndex r = Some (r, False)"
| "run_phase call numTaggers (t # ts) resolvedIndex r =
     (if rs_finishedWithPass r ! resolvedIndex then run_phase call numTaggers ts (resolvedIndex + 1) r
      else case call t (rs_state r) of
        None \<Rightarrow> None
      | Some (s, finished) \<Rightarrow>
          if finished then
            let r' = r\<lparr>rs_finishedWithPass := (rs_finishedWithPass r)[resolvedIndex := True],
                       rs_numFinishedWithPass := rs_numFinishedWithPass r + 1, rs_state := s\<rparr> in
            if rs_numFinishedWithPass r' = numTaggers then Some (r', True)
            else run_phase call numTaggers ts (resolvedIndex + 1) r'
          else run_phase call numTaggers ts (resolvedIndex + 1) (r\<lparr>rs_state := s\<rparr>))"

definition RunTagFromAllocationPhase ::
  "'s TaggerRunner \<Rightarrow> nat \<Rightarrow> Allocation \<Rightarrow> bool \<Rightarrow> Phase \<Rightarrow> 's RunState \<Rightarrow> ('s RunState \<times> bool) option" where
  "RunTagFromAllocationPhase R index allocation isUnsigned phase r =
     run_phase (\<lambda>t. TagFromAllocation t (rs_contiguousImage r) index phase allocation isUnsigned)
       (length (tr_taggers R)) (tr_taggers R) 0 r"

definition RunTagFromReferencedPhase ::
  "'s TaggerRunner \<Rightarrow> nat \<Rightarrow> Allocation \<Rightarrow> nat list \<Rightarrow> Phase \<Rightarrow> 's RunState \<Rightarrow> ('s RunState \<times> bool) option" where
  "RunTagFromReferencedPhase R index allocation unresolvedOutgoing phase r =
     run_phase (\<lambda>t. TagFromReferenced t (rs_contiguousImage r) index phase allocation unresolvedOutgoing)
       (length (tr_taggers R)) (tr_taggers R) 0 r"

definition run_four_phases :: "(Phase \<Rightarrow> 's RunState \<Rightarrow> ('s RunState \<times> bool) option) \<Rightarrow> 's RunState \<Rightarrow> 's RunState option" where
  "run_four_phases run r0 =
     (case run QUICK_INITIAL_CHECK r0 of
        None \<Rightarrow> None | Some (r1, True) \<Rightarrow> Some r1
      | Some (r1, False) \<Rightarrow> (case run MEDIUM_CHECK r1 of
        None \<Rightarrow> None | Some (r2, True) \<Rightarrow> Some r2
      | Some (r2, False) \<Rightarrow> (case run SLOW_CHECK r2 of
        None \<Rightarrow> None | Some (r3, True) \<Rightarrow> Some r3
      | Some (r3, False) \<Rightarrow> map_option fst (run WEAK_CHECK r3))))"

definition start_pass :: "'s TaggerRunner \<Rightarrow> 's RunState \<Rightarrow> 's RunState" where
  "start_pass R r = r\<lparr>rs_finishedWithPass := replicate (length (tr_taggers R)) False, rs_numFinishedWithPass := 0\<rparr>"

definition move_image :: "'s TaggerRunner \<Rightarrow> nat \<Rightarrow> 's RunState \<Rightarrow> 's RunState option" where
  "move_image R i r =
     map_option (\<lambda>ci. r\<lparr>rs_contiguousImage := ci\<rparr>)
       (SetIndex (tr_addressMap R) (tr_directory R) i (rs_contiguousImage r))"

definition is_unsigned :: "'s TaggerRunner \<Rightarrow> Allocation \<Rightarrow> bool" where
  "is_unsigned R allocation \<longleftrightarrow>
     \<not> (al_Size allocation \<ge> sizeof_Offset \<and>
        IsMapped (tr_signatureDirectory R) (word_or (tr_addressMap R) (al_Address allocation) 0xbad))"

definition tag_from_allocation :: "'s TaggerRunner \<Rightarrow> nat \<Rightarrow> 's RunState \<Rightarrow> 's RunState option" where
  "tag_from_allocation R i r =
     (let allocation = allocations (tr_directory R) ! i in
      if \<not> al_IsUsed allocation then Some r
      else Option.bind (move_image R i r) (\<lambda>r1.
        run_four_phases (RunTagFromAllocationPhase R i allocation (is_unsigned R allocation)) (start_pass R r1)))"

definition TagFromAllocations :: "'s TaggerRunner \<Rightarrow> 's RunState \<Rightarrow> 's RunState option" where
  "TagFromAllocations R = fold_option (tag_from_allocation R) [0..<NumAllocations (tr_directory R)]"

text \<open>The target of every word of an allocation that is not strongly tagged, or the number of allocations.\<close>

definition unresolved_outgoing :: "'s TaggerRunner \<Rightarrow> nat \<Rightarrow> 's \<Rightarrow> addr list \<Rightarrow> nat list" where
  "unresolved_outgoing R i s ws =
     map (\<lambda>w. let targetIndex = TargetAllocationIndex (tr_graph R) (tr_directory R) i w in
              if targetIndex \<noteq> NumAllocations (tr_directory R) \<and> IsStronglyTagged (tr_tagHolder R s) targetIndex
              then NumAllocations (tr_directory R) else targetIndex) ws"

definition tag_from_referenced :: "'s TaggerRunner \<Rightarrow> nat \<Rightarrow> 's RunState \<Rightarrow> 's RunState option" where
  "tag_from_referenced R i r =
     (let allocation = allocations (tr_directory R) ! i in
      if \<not> al_IsUsed allocation then Some r
      else Option.bind (move_image R i r) (\<lambda>r1.
        case image_offsets (tr_addressMap R) (rs_contiguousImage r1) of
          Value ws \<Rightarrow>
            let unresolvedOutgoing = unresolved_outgoing R i (rs_state r1) ws;
                numUnresolved = length (filter (\<lambda>t. t \<noteq> NumAllocations (tr_directory R)) unresolvedOutgoing) in
            if numUnresolved = 0 then Some r1
            else run_four_phases (RunTagFromReferencedPhase R i allocation unresolvedOutgoing) (start_pass R r1)
        | _ \<Rightarrow> None))"

definition run_TagFromReferenced :: "'s TaggerRunner \<Rightarrow> 's RunState \<Rightarrow> 's RunState option" where
  "run_TagFromReferenced R = fold_option (tag_from_referenced R) [0..<NumAllocations (tr_directory R)]"

definition is_markable :: "'s TaggerRunner \<Rightarrow> 's \<Rightarrow> nat \<Rightarrow> bool" where
  "is_markable R s k \<longleftrightarrow>
     \<not> ForOutgoing (tr_edgeIsTainted R s) k \<and> SupportsFavoredReferences (tr_tagHolder R s) (GetTargetForOutgoing (tr_graph R) k)"

definition outgoing_edge_indices :: "'s TaggerRunner \<Rightarrow> nat \<Rightarrow> 's \<Rightarrow> addr list \<Rightarrow> nat list" where
  "outgoing_edge_indices R i s ws =
     map (\<lambda>w. let edgeIndex = TargetEdgeIndex (tr_graph R) (tr_directory R) i w in
              if edgeIndex \<noteq> totalEdges (tr_graph R) \<and> \<not> is_markable R s edgeIndex then totalEdges (tr_graph R)
              else edgeIndex) ws"

definition mark_favored :: "'s TaggerRunner \<Rightarrow> nat \<Rightarrow> 's RunState \<Rightarrow> 's RunState option" where
  "mark_favored R i r =
     (let allocation = allocations (tr_directory R) ! i in
      if \<not> al_IsUsed allocation then Some r
      else
        case GetOutgoing (tr_graph R) i of (nextOutgoing, pastOutgoing) \<Rightarrow>
          if \<not> list_ex (is_markable R (rs_state r)) [nextOutgoing..<pastOutgoing] then Some r
          else Option.bind (move_image R i r) (\<lambda>r1.
            case image_offsets (tr_addressMap R) (rs_contiguousImage r1) of
              Value ws \<Rightarrow>
                let outgoingEdgeIndices = outgoing_edge_indices R i (rs_state r1) ws in
                map_option (\<lambda>s. r1\<lparr>rs_state := s\<rparr>)
                  (fold_option
                     (\<lambda>t. tagger_MarkFavoredReferences t (rs_contiguousImage r1) i allocation outgoingEdgeIndices)
                     (tr_taggers R) (rs_state r1))
            | _ \<Rightarrow> None))"

definition run_MarkFavoredReferences :: "'s TaggerRunner \<Rightarrow> 's RunState \<Rightarrow> 's RunState option" where
  "run_MarkFavoredReferences R = fold_option (mark_favored R) [0..<NumAllocations (tr_directory R)]"

definition ResolveAllAllocationTags :: "'s TaggerRunner \<Rightarrow> 's \<Rightarrow> 's option" where
  "ResolveAllAllocationTags R s =
     map_option rs_state
       (Option.bind (TagFromAllocations R
          \<lparr>rs_contiguousImage = ContiguousImage_new (tr_directory R),
           rs_finishedWithPass = replicate (length (tr_taggers R)) False, rs_numFinishedWithPass = 0, rs_state = s\<rparr>)
        (\<lambda>r. Option.bind (run_TagFromReferenced R r) (run_MarkFavoredReferences R)))"

section \<open>What a run amounts to\<close>

text \<open>
  Every phase is offered to every tagger, in the order of the taggers, except to those that said before that
  they are finished.  Nothing is counted, and no phase is cut short.
\<close>

definition all_phases :: "Phase list" where
  "all_phases = [QUICK_INITIAL_CHECK, MEDIUM_CHECK, SLOW_CHECK, WEAK_CHECK]"

definition offer :: "(Phase \<Rightarrow> 't \<Rightarrow> 's \<Rightarrow> ('s \<times> bool) option) \<Rightarrow> 't list \<Rightarrow> Phase \<times> nat \<Rightarrow> 's \<times> nat set \<Rightarrow> ('s \<times> nat set) option" where
  "offer call ts = (\<lambda>(phase, k) (s, F).
     if k \<in> F then Some (s, F)
     else map_option (\<lambda>(s', finished). (s', if finished then insert k F else F)) (call phase (ts ! k) s))"

definition offer_all :: "(Phase \<Rightarrow> 't \<Rightarrow> 's \<Rightarrow> ('s \<times> bool) option) \<Rightarrow> 't list \<Rightarrow> 's \<Rightarrow> 's option" where
  "offer_all call ts s =
     map_option fst (fold_option (offer call ts) (List.product all_phases [0..<length ts]) (s, {}))"

lemma fold_option_append: "fold_option f (xs @ ys) = (\<lambda>b. Option.bind (fold_option f xs b) (fold_option f ys))"
  (is "_ = ?r xs")
proof
  show "fold_option f (xs @ ys) b = ?r xs b" for b
  proof (induction xs arbitrary: b)
    case (Cons x xs)
    then show ?case by (cases "f x b") simp_all
  qed simp
qed

definition counts :: "nat \<Rightarrow> 's RunState \<Rightarrow> 's \<times> nat set \<Rightarrow> bool" where
  "counts n r = (\<lambda>(s, F). rs_state r = s \<and> length (rs_finishedWithPass r) = n \<and>
     F = {k. k < n \<and> rs_finishedWithPass r ! k} \<and> rs_numFinishedWithPass r = card F)"

lemma counts_start [simp]: "counts (length (tr_taggers R)) (start_pass R r) (rs_state r, {})"
  by (auto simp: counts_def start_pass_def)

lemma counts_finish:
  assumes "counts n r (s0, F)" "\<not> rs_finishedWithPass r ! k" "k < n"
  shows "counts n (r\<lparr>rs_finishedWithPass := (rs_finishedWithPass r)[k := True],
    rs_numFinishedWithPass := rs_numFinishedWithPass r + 1, rs_state := s\<rparr>) (s, insert k F)"
proof -
  have F: "k \<notin> F" "finite F" "length (rs_finishedWithPass r) = n" using assms by (auto simp: counts_def)
  have "{j. j < n \<and> (rs_finishedWithPass r)[k := True] ! j} = insert k {j. j < n \<and> rs_finishedWithPass r ! j}"
    using assms(3) F(3) by (auto simp: nth_list_update)
  then show ?thesis using assms(1) F by (auto simp: counts_def)
qed

lemma counts_full:
  assumes "counts n r (s, F)" "rs_numFinishedWithPass r = n"
  shows "F = {..<n}"
proof (rule card_subset_eq)
  have "F = {k. k < n \<and> rs_finishedWithPass r ! k}" using assms(1) by (simp add: counts_def)
  then show "F \<subseteq> {..<n}" by blast
  have "rs_numFinishedWithPass r = card F" using assms(1) by (simp add: counts_def)
  then show "card F = card {..<n}" by (simp only: assms(2) card_lessThan)
qed simp

lemma offer_finished: "\<forall>q\<in>set qs. snd q \<in> F \<Longrightarrow> fold_option (offer call ts) qs (s, F) = Some (s, F)"
  by (induction qs) (auto simp: offer_def)

text \<open>A phase of the runner and its offers have the same outcome; it is cut short only if all are finished.\<close>

definition agrees :: "nat \<Rightarrow> 's RunState \<Rightarrow> ('s RunState \<times> bool) option \<Rightarrow> ('s \<times> nat set) option \<Rightarrow> bool" where
  "agrees n r out res \<longleftrightarrow>
     (case out of None \<Rightarrow> res = None
      | Some (r', all) \<Rightarrow> rs_contiguousImage r' = rs_contiguousImage r \<and>
          (\<exists>F'. res = Some (rs_state r', F') \<and> counts n r' (rs_state r', F') \<and> (all \<longrightarrow> F' = {..<n})))"

lemma agrees_image: "agrees n r1 out res \<Longrightarrow> rs_contiguousImage r1 = rs_contiguousImage r \<Longrightarrow> agrees n r out res"
  by (auto simp: agrees_def split: option.splits prod.splits)

lemma run_phase_offers:
  assumes "counts (length ts) r (s, F)" "k \<le> length ts"
  shows "agrees (length ts) r (run_phase (call phase) (length ts) (drop k ts) k r)
           (fold_option (offer call ts) (map (Pair phase) [k..<length ts]) (s, F))"
  using assms
proof (induction "length ts - k" arbitrary: k r s F)
  case 0
  then show ?case by (auto simp: counts_def agrees_def)
next
  case (Suc n)
  let ?N = "length ts"
  have k: "k < ?N" "drop k ts = ts ! k # drop (Suc k) ts" "[k..<?N] = k # [Suc k..<?N]" "n = ?N - Suc k"
    using Suc.hyps(2) by (simp_all add: Cons_nth_drop_Suc upt_conv_Cons)
  have s: "rs_state r = s" "rs_finishedWithPass r ! k \<longleftrightarrow> k \<in> F" using Suc.prems(1) k(1) by (auto simp: counts_def)
  have later: "agrees ?N r (run_phase (call phase) ?N (drop (Suc k) ts) (Suc k) r1)
      (fold_option (offer call ts) (map (Pair phase) [Suc k..<?N]) (s1, F1))"
    if "counts ?N r1 (s1, F1)" "rs_contiguousImage r1 = rs_contiguousImage r" for r1 s1 F1
    using Suc.hyps(1) [OF k(4) that(1)] k(1) by (intro agrees_image [OF _ that(2)]) simp
  show ?case
  proof (cases "k \<in> F")
    case True
    then show ?thesis using later [OF Suc.prems(1)] s k by (simp add: offer_def)
  next
    case False
    show ?thesis
    proof (cases "call phase (ts ! k) s")
      case None
      then show ?thesis using False s k by (simp add: offer_def agrees_def)
    next
      case (Some sf)
      obtain s1 finished where sf: "sf = (s1, finished)" by fastforce
      let ?r = "r\<lparr>rs_finishedWithPass := (rs_finishedWithPass r)[k := True],
        rs_numFinishedWithPass := rs_numFinishedWithPass r + 1, rs_state := s1\<rparr>"
      show ?thesis
      proof (cases finished)
        case True
        have c: "counts ?N ?r (s1, insert k F)" using counts_finish [OF Suc.prems(1)] False s k(1) by blast
        show ?thesis
        proof (cases "rs_numFinishedWithPass ?r = ?N")
          case full: True
          have F: "insert k F = {..<?N}" using counts_full [OF c full] .
          then have "fold_option (offer call ts) (map (Pair phase) [Suc k..<?N]) (s1, insert k F) = Some (s1, insert k F)"
            by (intro offer_finished) auto
          then show ?thesis using c F full True Some sf False s k by (simp add: offer_def agrees_def)
        next
          case more: False
          then show ?thesis using later [OF c] True Some sf False s k by (simp add: offer_def)
        qed
      next
        case unfinished: False
        have "counts ?N (r\<lparr>rs_state := s1\<rparr>) (s1, F)" using Suc.prems(1) by (simp add: counts_def)
        then show ?thesis using later [of "r\<lparr>rs_state := s1\<rparr>" s1 F] unfinished Some sf False s k by (simp add: offer_def)
      qed
    qed
  qed
qed

lemma run_four_phases_offers:
  assumes run: "\<And>phase r'. rs_contiguousImage r' = rs_contiguousImage r \<Longrightarrow>
      run phase r' = run_phase (call phase) (length ts) ts 0 r'"
    and start: "counts (length ts) r (rs_state r, {})"
  shows "map_option (\<lambda>r'. (rs_state r', rs_contiguousImage r')) (run_four_phases run r) =
    map_option (\<lambda>s. (s, rs_contiguousImage r)) (offer_all call ts (rs_state r))"
proof -
  let ?N = "length ts" and ?f = "offer call ts"
  let ?round = "\<lambda>phase. map (Pair phase) [0..<?N]"
  have phase: "agrees ?N r (run phase r') (fold_option ?f (?round phase) (rs_state r', F))"
    if "counts ?N r' (rs_state r', F)" "rs_contiguousImage r' = rs_contiguousImage r" for phase r' F
    using run_phase_offers [OF that(1), of 0 call phase] by (simp add: run [OF that(2)] agrees_image [OF _ that(2)])
  have full: "fold_option ?f (?round phase) (s, {..<?N}) = Some (s, {..<?N})" for phase s
    by (rule offer_finished) auto
  have rounds: "offer_all call ts (rs_state r) = map_option fst
      (Option.bind (fold_option ?f (?round QUICK_INITIAL_CHECK) (rs_state r, {})) (\<lambda>b.
       Option.bind (fold_option ?f (?round MEDIUM_CHECK) b) (\<lambda>b.
       Option.bind (fold_option ?f (?round SLOW_CHECK) b) (fold_option ?f (?round WEAK_CHECK)))))"
    by (simp add: offer_all_def all_phases_def fold_option_append)
  show ?thesis
  proof (cases "run QUICK_INITIAL_CHECK r")
    case None
    then show ?thesis using phase [OF start, of QUICK_INITIAL_CHECK] by (simp add: run_four_phases_def rounds agrees_def)
  next
    case (Some ra)
    then obtain r1 all1 F1 where 1: "run QUICK_INITIAL_CHECK r = Some (r1, all1)" "rs_contiguousImage r1 = rs_contiguousImage r"
      "fold_option ?f (?round QUICK_INITIAL_CHECK) (rs_state r, {}) = Some (rs_state r1, F1)"
      "counts ?N r1 (rs_state r1, F1)" "all1 \<Longrightarrow> F1 = {..<?N}"
      using phase [OF start, of QUICK_INITIAL_CHECK] by (cases ra) (auto simp: agrees_def)
    note p1 = phase [OF 1(4,2), of MEDIUM_CHECK]
    show ?thesis
    proof (cases "\<not> all1 \<and> run MEDIUM_CHECK r1 \<noteq> None")
      case False
      then have "all1 \<or> run MEDIUM_CHECK r1 = None" by blast
      then show ?thesis using 1 p1 by (cases all1) (simp_all add: run_four_phases_def rounds agrees_def full)
    next
      case True
      then obtain r2 all2 F2 where 2: "run MEDIUM_CHECK r1 = Some (r2, all2)" "rs_contiguousImage r2 = rs_contiguousImage r"
        "fold_option ?f (?round MEDIUM_CHECK) (rs_state r1, F1) = Some (rs_state r2, F2)"
        "counts ?N r2 (rs_state r2, F2)" "all2 \<Longrightarrow> F2 = {..<?N}" "all1 = False"
        using p1 by (auto simp: agrees_def)
      note p2 = phase [OF 2(4,2), of SLOW_CHECK]
      show ?thesis
      proof (cases "\<not> all2 \<and> run SLOW_CHECK r2 \<noteq> None")
        case False
        then have "all2 \<or> run SLOW_CHECK r2 = None" by blast
        then show ?thesis using 1 2 p2 by (cases all2) (simp_all add: run_four_phases_def rounds agrees_def full)
      next
        case True
        then obtain r3 all3 F3 where 3: "run SLOW_CHECK r2 = Some (r3, all3)" "rs_contiguousImage r3 = rs_contiguousImage r"
          "fold_option ?f (?round SLOW_CHECK) (rs_state r2, F2) = Some (rs_state r3, F3)"
          "counts ?N r3 (rs_state r3, F3)" "all3 \<Longrightarrow> F3 = {..<?N}" "all2 = False"
          using p2 by (auto simp: agrees_def)
        note p3 = phase [OF 3(4,2), of WEAK_CHECK]
        show ?thesis
        proof (cases all3)
          case True
          then show ?thesis using 1 2 3 by (simp add: run_four_phases_def rounds full)
        next
          case False
          then show ?thesis using 1 2 3 p3
            by (auto simp: run_four_phases_def rounds agrees_def split: option.splits)
        qed
      qed
    qed
  qed
qed


text \<open>
  The image that the runner moves from one allocation to the next is as good as a new one for every
  allocation, for taggers that do not look at more of it than at what it shows.
\<close>

definition fresh_image :: "'s TaggerRunner \<Rightarrow> nat \<Rightarrow> ContiguousImage" where
  "fresh_image R i = the (SetIndex (tr_addressMap R) (tr_directory R) i (ContiguousImage_new (tr_directory R)))"

definition reads_image :: "VirtualAddressMap \<Rightarrow> Directory \<Rightarrow> 's Tagger \<Rightarrow> bool" where
  "reads_image m d t \<longleftrightarrow>
     (\<forall>i ci ci'. i < NumAllocations d \<and> image_ok m d ci \<and> image_ok m d ci' \<and> ci_index ci = i \<and> ci_index ci' = i \<longrightarrow>
        TagFromAllocation t ci i = TagFromAllocation t ci' i \<and> TagFromReferenced t ci i = TagFromReferenced t ci' i \<and>
        tagger_MarkFavoredReferences t ci i = tagger_MarkFavoredReferences t ci' i)"

definition runner_ok :: "'s TaggerRunner \<Rightarrow> bool" where
  "runner_ok R \<longleftrightarrow> vam_ok (tr_addressMap R) \<and> dir_sized (tr_directory R) \<and>
     unat (MaxAllocationSize (tr_directory R)) + 16 < 2 ^ 64 \<and>
     (\<forall>t\<in>set (tr_taggers R). reads_image (tr_addressMap R) (tr_directory R) t)"

definition ref_allocation :: "'s TaggerRunner \<Rightarrow> nat \<Rightarrow> 's \<Rightarrow> 's option" where
  "ref_allocation R i s =
     (let allocation = allocations (tr_directory R) ! i in
      if al_IsUsed allocation then
        offer_all (\<lambda>phase t. TagFromAllocation t (fresh_image R i) i phase allocation (is_unsigned R allocation))
          (tr_taggers R) s
      else Some s)"

definition ref_referenced :: "'s TaggerRunner \<Rightarrow> nat \<Rightarrow> 's \<Rightarrow> 's option" where
  "ref_referenced R i s =
     (let allocation = allocations (tr_directory R) ! i;
          unresolved = unresolved_outgoing R i s (alloc_offsets (tr_addressMap R) (tr_directory R) i) in
      if al_IsUsed allocation \<and> (\<exists>t\<in>set unresolved. t \<noteq> NumAllocations (tr_directory R)) then
        offer_all (\<lambda>phase t. TagFromReferenced t (fresh_image R i) i phase allocation unresolved) (tr_taggers R) s
      else Some s)"

definition ref_mark :: "'s TaggerRunner \<Rightarrow> nat \<Rightarrow> 's \<Rightarrow> 's option" where
  "ref_mark R i s =
     (let allocation = allocations (tr_directory R) ! i in
      if al_IsUsed allocation \<and>
         (\<exists>k. fst (GetOutgoing (tr_graph R) i) \<le> k \<and> k < snd (GetOutgoing (tr_graph R) i) \<and> is_markable R s k) then
        fold_option
          (\<lambda>t. tagger_MarkFavoredReferences t (fresh_image R i) i allocation
                 (outgoing_edge_indices R i s (alloc_offsets (tr_addressMap R) (tr_directory R) i)))
          (tr_taggers R) s
      else Some s)"

text \<open>One step of the runner and of the reference, and so the loops over them.\<close>

definition simulates :: "'s TaggerRunner \<Rightarrow> ('s RunState \<Rightarrow> 's RunState option) \<Rightarrow> ('s \<Rightarrow> 's option) \<Rightarrow> bool" where
  "simulates R f g \<longleftrightarrow>
     (\<forall>r. image_ok (tr_addressMap R) (tr_directory R) (rs_contiguousImage r) \<longrightarrow>
        map_option rs_state (f r) = g (rs_state r) \<and>
        (\<forall>r'. f r = Some r' \<longrightarrow> image_ok (tr_addressMap R) (tr_directory R) (rs_contiguousImage r')))"

lemma simulates_bind:
  assumes "simulates R f g" "simulates R f' g'"
  shows "simulates R (\<lambda>r. Option.bind (f r) f') (\<lambda>s. Option.bind (g s) g')"
  unfolding simulates_def
proof (intro allI impI)
  fix r :: "'a RunState" assume r: "image_ok (tr_addressMap R) (tr_directory R) (rs_contiguousImage r)"
  show "map_option rs_state (Option.bind (f r) f') = Option.bind (g (rs_state r)) g' \<and>
    (\<forall>r'. Option.bind (f r) f' = Some r' \<longrightarrow> image_ok (tr_addressMap R) (tr_directory R) (rs_contiguousImage r'))"
  proof (cases "f r")
    case None
    then show ?thesis using assms(1) r by (auto simp: simulates_def)
  next
    case (Some r1)
    then have "g (rs_state r) = Some (rs_state r1)" "image_ok (tr_addressMap R) (tr_directory R) (rs_contiguousImage r1)"
      using assms(1) r by (auto simp: simulates_def)
    then show ?thesis using Some assms(2) by (simp add: simulates_def)
  qed
qed

lemma simulates_fold:
  assumes "\<And>i. i \<in> set is' \<Longrightarrow> simulates R (f i) (g i)"
  shows "simulates R (fold_option f is') (fold_option g is')"
  using assms
proof (induction is')
  case Nil
  then show ?case by (simp add: simulates_def)
next
  case (Cons i is')
  have "fold_option f (i # is') = (\<lambda>r. Option.bind (f i r) (fold_option f is'))"
    "fold_option g (i # is') = (\<lambda>s. Option.bind (g i s) (fold_option g is'))" by auto
  then show ?case using simulates_bind [of R "f i" "g i"] Cons by simp
qed

lemma run_phase_cong:
  "(\<And>t. t \<in> set ts \<Longrightarrow> call t = call' t) \<Longrightarrow> run_phase call n ts k r = run_phase call' n ts k r"
proof (induction ts arbitrary: k r)
  case (Cons t ts)
  then show ?case by (auto split: option.splits prod.splits simp: Let_def)
qed simp

lemma fold_option_cong: "(\<And>x. x \<in> set xs \<Longrightarrow> f x = g x) \<Longrightarrow> fold_option f xs = fold_option g xs"
proof (induction xs)
  case (Cons x xs)
  then have "fold_option f xs = fold_option g xs" "f x = g x" by simp_all
  then show ?case by (intro ext) simp
qed auto

lemma move_image_outcome:
  assumes "runner_ok R" "image_ok (tr_addressMap R) (tr_directory R) (rs_contiguousImage r)" "i < NumAllocations (tr_directory R)"
  shows "\<exists>ci. move_image R i r = Some (r\<lparr>rs_contiguousImage := ci\<rparr>) \<and> image_ok (tr_addressMap R) (tr_directory R) ci \<and>
    image_offsets (tr_addressMap R) ci = Value (alloc_offsets (tr_addressMap R) (tr_directory R) i) \<and>
    (\<forall>t\<in>set (tr_taggers R).
       TagFromAllocation t ci i = TagFromAllocation t (fresh_image R i) i \<and>
       TagFromReferenced t ci i = TagFromReferenced t (fresh_image R i) i \<and>
       tagger_MarkFavoredReferences t ci i = tagger_MarkFavoredReferences t (fresh_image R i) i)"
proof -
  have ok: "vam_ok (tr_addressMap R)" "dir_sized (tr_directory R)" using assms(1) by (simp_all add: runner_ok_def)
  obtain ci where ci: "SetIndex (tr_addressMap R) (tr_directory R) i (rs_contiguousImage r) = Some ci"
    "image_ok (tr_addressMap R) (tr_directory R) ci" "ci_index ci = i"
    using SetIndex_outcome [OF ok(1) assms(2) ok(2), of i] assms(3) by auto
  have new: "image_ok (tr_addressMap R) (tr_directory R) (ContiguousImage_new (tr_directory R))"
    using assms(1) by (intro image_ok_new) (simp add: runner_ok_def)
  have fresh: "image_ok (tr_addressMap R) (tr_directory R) (fresh_image R i)" "ci_index (fresh_image R i) = i"
    using SetIndex_outcome [OF ok(1) new ok(2), of i] assms(3) by (auto simp: fresh_image_def)
  have "image_offsets (tr_addressMap R) ci = Value (alloc_offsets (tr_addressMap R) (tr_directory R) i)"
    using ci(2,3) by (auto simp: image_ok_def shows_allocation_def)
  moreover have "TagFromAllocation t ci i = TagFromAllocation t (fresh_image R i) i \<and>
       TagFromReferenced t ci i = TagFromReferenced t (fresh_image R i) i \<and>
       tagger_MarkFavoredReferences t ci i = tagger_MarkFavoredReferences t (fresh_image R i) i"
    if "t \<in> set (tr_taggers R)" for t
    using assms(1,3) that ci fresh unfolding runner_ok_def reads_image_def by blast
  ultimately show ?thesis using ci by (auto simp: move_image_def)
qed

text \<open>The four phases, started on an allocation.\<close>

lemma run_four_phases_started:
  assumes "\<And>phase r'. rs_contiguousImage r' = ci \<Longrightarrow>
      run phase r' = run_phase (\<lambda>t. call phase t) (length (tr_taggers R)) (tr_taggers R) 0 r'"
    and "\<And>phase t. t \<in> set (tr_taggers R) \<Longrightarrow> call phase t = call' phase t" and "rs_contiguousImage r = ci"
  shows "map_option (\<lambda>r'. (rs_state r', rs_contiguousImage r')) (run_four_phases run (start_pass R r)) =
    map_option (\<lambda>s. (s, ci)) (offer_all call' (tr_taggers R) (rs_state r))"
proof -
  have s: "rs_state (start_pass R r) = rs_state r" "rs_contiguousImage (start_pass R r) = ci"
    using assms(3) by (simp_all add: start_pass_def)
  have "run phase r' = run_phase (call' phase) (length (tr_taggers R)) (tr_taggers R) 0 r'"
    if "rs_contiguousImage r' = rs_contiguousImage (start_pass R r)" for phase r'
    unfolding assms(1) [OF that [unfolded s]] by (rule run_phase_cong) (rule assms(2))
  then show ?thesis
    using run_four_phases_offers [of "start_pass R r" run call' "tr_taggers R"] by (simp add: s)
qed

lemma simulates_allocation:
  assumes "runner_ok R" "i < NumAllocations (tr_directory R)"
  shows "simulates R (tag_from_allocation R i) (ref_allocation R i)"
  unfolding simulates_def
proof (intro allI impI)
  fix r :: "'a RunState"
  assume r: "image_ok (tr_addressMap R) (tr_directory R) (rs_contiguousImage r)"
  let ?al = "allocations (tr_directory R) ! i"
  obtain ci where ci: "move_image R i r = Some (r\<lparr>rs_contiguousImage := ci\<rparr>)" "image_ok (tr_addressMap R) (tr_directory R) ci"
    "\<forall>t\<in>set (tr_taggers R). TagFromAllocation t ci i = TagFromAllocation t (fresh_image R i) i"
    using move_image_outcome [OF assms(1) r assms(2)] by blast
  have "map_option (\<lambda>r'. (rs_state r', rs_contiguousImage r'))
      (run_four_phases (RunTagFromAllocationPhase R i ?al (is_unsigned R ?al)) (start_pass R (r\<lparr>rs_contiguousImage := ci\<rparr>))) =
    map_option (\<lambda>s. (s, ci)) (offer_all
      (\<lambda>phase t. TagFromAllocation t (fresh_image R i) i phase ?al (is_unsigned R ?al)) (tr_taggers R) (rs_state r))"
    using run_four_phases_started [of ci "RunTagFromAllocationPhase R i ?al (is_unsigned R ?al)"
        "\<lambda>phase t. TagFromAllocation t ci i phase ?al (is_unsigned R ?al)" R
        "\<lambda>phase t. TagFromAllocation t (fresh_image R i) i phase ?al (is_unsigned R ?al)" "r\<lparr>rs_contiguousImage := ci\<rparr>"] ci(3)
    by (simp add: RunTagFromAllocationPhase_def)
  then show "map_option rs_state (tag_from_allocation R i r) = ref_allocation R i (rs_state r) \<and>
    (\<forall>r'. tag_from_allocation R i r = Some r' \<longrightarrow> image_ok (tr_addressMap R) (tr_directory R) (rs_contiguousImage r'))"
    using ci(1,2) r by (auto simp: tag_from_allocation_def ref_allocation_def Let_def map_option_case split: option.splits)
qed

lemma simulates_referenced:
  assumes "runner_ok R" "i < NumAllocations (tr_directory R)"
  shows "simulates R (tag_from_referenced R i) (ref_referenced R i)"
  unfolding simulates_def
proof (intro allI impI)
  fix r :: "'a RunState"
  assume r: "image_ok (tr_addressMap R) (tr_directory R) (rs_contiguousImage r)"
  let ?al = "allocations (tr_directory R) ! i"
  define u where "u = unresolved_outgoing R i (rs_state r) (alloc_offsets (tr_addressMap R) (tr_directory R) i)"
  obtain ci where ci: "move_image R i r = Some (r\<lparr>rs_contiguousImage := ci\<rparr>)" "image_ok (tr_addressMap R) (tr_directory R) ci"
    "image_offsets (tr_addressMap R) ci = Value (alloc_offsets (tr_addressMap R) (tr_directory R) i)"
    "\<forall>t\<in>set (tr_taggers R). TagFromReferenced t ci i = TagFromReferenced t (fresh_image R i) i"
    using move_image_outcome [OF assms(1) r assms(2)] by blast
  have run: "map_option (\<lambda>r'. (rs_state r', rs_contiguousImage r'))
      (run_four_phases (RunTagFromReferencedPhase R i ?al u) (start_pass R (r\<lparr>rs_contiguousImage := ci\<rparr>))) =
    map_option (\<lambda>s. (s, ci)) (offer_all
      (\<lambda>phase t. TagFromReferenced t (fresh_image R i) i phase ?al u) (tr_taggers R) (rs_state r))"
    using run_four_phases_started [of ci "RunTagFromReferencedPhase R i ?al u"
        "\<lambda>phase t. TagFromReferenced t ci i phase ?al u" R
        "\<lambda>phase t. TagFromReferenced t (fresh_image R i) i phase ?al u" "r\<lparr>rs_contiguousImage := ci\<rparr>"] ci(4)
    by (simp add: RunTagFromReferencedPhase_def)
  have none: "length (filter (\<lambda>t. t \<noteq> NumAllocations (tr_directory R)) u) = 0 \<longleftrightarrow> \<not> (\<exists>t\<in>set u. t \<noteq> NumAllocations (tr_directory R))"
    by (simp add: filter_empty_conv)
  show "map_option rs_state (tag_from_referenced R i r) = ref_referenced R i (rs_state r) \<and>
    (\<forall>r'. tag_from_referenced R i r = Some r' \<longrightarrow> image_ok (tr_addressMap R) (tr_directory R) (rs_contiguousImage r'))"
  proof (cases "al_IsUsed ?al \<and> (\<exists>t\<in>set u. t \<noteq> NumAllocations (tr_directory R))")
    case True
    then have "tag_from_referenced R i r =
        run_four_phases (RunTagFromReferencedPhase R i ?al u) (start_pass R (r\<lparr>rs_contiguousImage := ci\<rparr>))"
      using none by (simp add: tag_from_referenced_def Let_def ci(1,3) flip: u_def)
    then show ?thesis
      using True run ci(2) by (auto simp: ref_referenced_def Let_def map_option_case simp flip: u_def split: option.splits)
  next
    case False
    then have "tag_from_referenced R i r = Some (if al_IsUsed ?al then r\<lparr>rs_contiguousImage := ci\<rparr> else r)"
      using none by (simp add: tag_from_referenced_def Let_def ci(1,3) flip: u_def)
    moreover have "ref_referenced R i (rs_state r) = Some (rs_state r)"
      using False unfolding ref_referenced_def Let_def u_def [symmetric] by (rule if_not_P)
    ultimately show ?thesis using ci(2) r by simp
  qed
qed

lemma simulates_mark:
  assumes "runner_ok R" "i < NumAllocations (tr_directory R)"
  shows "simulates R (mark_favored R i) (ref_mark R i)"
  unfolding simulates_def
proof (intro allI impI)
  fix r :: "'a RunState"
  assume r: "image_ok (tr_addressMap R) (tr_directory R) (rs_contiguousImage r)"
  let ?al = "allocations (tr_directory R) ! i" and ?ws = "alloc_offsets (tr_addressMap R) (tr_directory R) i"
  let ?out = "outgoing_edge_indices R i (rs_state r) ?ws"
  obtain ci where ci: "move_image R i r = Some (r\<lparr>rs_contiguousImage := ci\<rparr>)" "image_ok (tr_addressMap R) (tr_directory R) ci"
    "image_offsets (tr_addressMap R) ci = Value ?ws"
    "\<forall>t\<in>set (tr_taggers R). tagger_MarkFavoredReferences t ci i = tagger_MarkFavoredReferences t (fresh_image R i) i"
    using move_image_outcome [OF assms(1) r assms(2)] by blast
  have fold: "fold_option (\<lambda>t. tagger_MarkFavoredReferences t ci i ?al ?out) (tr_taggers R) =
      fold_option (\<lambda>t. tagger_MarkFavoredReferences t (fresh_image R i) i ?al ?out) (tr_taggers R)"
    by (rule fold_option_cong) (use ci(4) in simp)
  have ex: "list_ex P [a..<b] \<longleftrightarrow> (\<exists>k. a \<le> k \<and> k < b \<and> P k)" for P a b by (auto simp: list_ex_iff)
  obtain a b where ab: "GetOutgoing (tr_graph R) i = (a, b)" by fastforce
  show "map_option rs_state (mark_favored R i r) = ref_mark R i (rs_state r) \<and>
    (\<forall>r'. mark_favored R i r = Some r' \<longrightarrow> image_ok (tr_addressMap R) (tr_directory R) (rs_contiguousImage r'))"
  proof (cases "al_IsUsed ?al \<and> (\<exists>k. a \<le> k \<and> k < b \<and> is_markable R (rs_state r) k)")
    case True
    then have "list_ex (is_markable R (rs_state r)) [a..<b]" by (simp only: ex)
    then show ?thesis
      using True ci(2) unfolding mark_favored_def ref_mark_def Let_def ab
      by (auto simp: ci(1,3) fold option.map_comp comp_def option.map_ident)
  next
    case False
    then have "\<not> al_IsUsed ?al \<or> \<not> list_ex (is_markable R (rs_state r)) [a..<b]" by (simp only: ex) blast
    then have "mark_favored R i r = Some r" unfolding mark_favored_def Let_def ab by (elim disjE) simp_all
    moreover have "ref_mark R i (rs_state r) = Some (rs_state r)"
      using False unfolding ref_mark_def Let_def ab fst_conv snd_conv by (rule if_not_P)
    ultimately show ?thesis using r by simp
  qed
qed

section \<open>Properties\<close>

text \<open>
  C25: \<open>ResolveAllAllocationTags\<close> is exactly this: for every used allocation in order the four phases are offered
  to all taggers, each until it says that it is finished; then the same with the referenced allocations, for
  the allocations that refer to one that is not strongly tagged at that time; and then every tagger marks the
  favored references of the allocations with an edge that is not tainted to a tag that supports it.  Each
  time the taggers see the image of that allocation and no remains of another one; the counting of the taggers
  that are finished and the early end of a pass make no difference.
\<close>

theorem ResolveAllAllocationTags_refines:
  assumes "runner_ok R"
  shows "ResolveAllAllocationTags R s =
    Option.bind (fold_option (ref_allocation R) [0..<NumAllocations (tr_directory R)] s) (\<lambda>s1.
    Option.bind (fold_option (ref_referenced R) [0..<NumAllocations (tr_directory R)] s1)
      (fold_option (ref_mark R) [0..<NumAllocations (tr_directory R)]))"
proof -
  let ?is = "[0..<NumAllocations (tr_directory R)]"
  let ?r = "\<lparr>rs_contiguousImage = ContiguousImage_new (tr_directory R),
    rs_finishedWithPass = replicate (length (tr_taggers R)) False, rs_numFinishedWithPass = 0, rs_state = s\<rparr>"
  have "simulates R (TagFromAllocations R) (fold_option (ref_allocation R) ?is)"
    unfolding TagFromAllocations_def by (rule simulates_fold) (simp add: simulates_allocation assms)
  moreover have "simulates R (run_TagFromReferenced R) (fold_option (ref_referenced R) ?is)"
    unfolding run_TagFromReferenced_def by (rule simulates_fold) (simp add: simulates_referenced assms)
  moreover have "simulates R (run_MarkFavoredReferences R) (fold_option (ref_mark R) ?is)"
    unfolding run_MarkFavoredReferences_def by (rule simulates_fold) (simp add: simulates_mark assms)
  ultimately have "simulates R
      (\<lambda>r. Option.bind (TagFromAllocations R r) (\<lambda>r. Option.bind (run_TagFromReferenced R r) (run_MarkFavoredReferences R)))
      (\<lambda>s. Option.bind (fold_option (ref_allocation R) ?is s) (\<lambda>s1.
        Option.bind (fold_option (ref_referenced R) ?is s1) (fold_option (ref_mark R) ?is)))"
    by (intro simulates_bind)
  moreover have "image_ok (tr_addressMap R) (tr_directory R) (rs_contiguousImage ?r)"
    using assms image_ok_new by (auto simp: runner_ok_def)
  ultimately show ?thesis unfolding ResolveAllAllocationTags_def simulates_def by fastforce
qed

text \<open>
  Two taggers on one allocation that note what they are offered: the first is finished with the second
  phase, the other one at once.
\<close>

definition noting_tagger :: "nat \<Rightarrow> Phase \<Rightarrow> (nat \<times> Phase) list Tagger" where
  "noting_tagger k until =
     \<lparr>TagFromAllocation = (\<lambda>ci i phase al isUnsigned s. Some (s @ [(k, phase)], phase = until)),
      TagFromReferenced = default_TagFromReferenced, tagger_MarkFavoredReferences = default_MarkFavoredReferences\<rparr>"

definition edgeless_graph :: Graph where
  "edgeless_graph = (Graph_init image_directory)\<lparr>firstOutgoing := [0, 0], firstIncoming := [0, 0]\<rparr>"

definition noting_runner :: "(nat \<times> Phase) list TaggerRunner" where
  "noting_runner =
     RegisterTagger (noting_tagger 1 QUICK_INITIAL_CHECK) (RegisterTagger (noting_tagger 0 MEDIUM_CHECK)
       \<lparr>tr_addressMap = example_map, tr_graph = edgeless_graph, tr_directory = image_directory,
        tr_tagHolder = (\<lambda>s. TagHolder_new 1), tr_edgeIsTainted = (\<lambda>s. EdgePredicate_new edgeless_graph False),
        tr_signatureDirectory = SignatureDirectory_new, tr_taggers = []\<rparr>)"

theorem ResolveAllAllocationTags_refines_witness:
  "runner_ok noting_runner \<and> ResolveAllAllocationTags noting_runner [] =
     Some [(0, QUICK_INITIAL_CHECK), (1, QUICK_INITIAL_CHECK), (0, MEDIUM_CHECK)]"
proof -
  have ts: "tr_taggers noting_runner = [noting_tagger 0 MEDIUM_CHECK, noting_tagger 1 QUICK_INITIAL_CHECK]"
    by (simp add: noting_runner_def RegisterTagger_def)
  have R: "tr_addressMap noting_runner = example_map" "tr_directory noting_runner = image_directory"
    "tr_graph noting_runner = edgeless_graph"
    by (simp_all add: noting_runner_def RegisterTagger_def)
  have ok: "runner_ok noting_runner"
    by (simp add: runner_ok_def R ts example_map_ok image_directory_simps reads_image_def noting_tagger_def)
      (use defaults_image in blast)
  have used: "al_IsUsed (allocations image_directory ! 0)"
    by (simp add: image_directory_def consume_allocation_def push_allocation_def Directory_new_def
        Allocation_new_def al_IsUsed_def al_constants)
  have "ref_allocation noting_runner 0 [] = Some [(0, QUICK_INITIAL_CHECK), (1, QUICK_INITIAL_CHECK), (0, MEDIUM_CHECK)]"
    by (simp add: ref_allocation_def R ts used offer_all_def all_phases_def offer_def noting_tagger_def Let_def)
  moreover have "ref_referenced noting_runner 0 s = Some s" for s
    by (simp add: ref_referenced_def Let_def R ts offer_all_def all_phases_def offer_def noting_tagger_def
        default_TagFromReferenced_def)
  moreover have "ref_mark noting_runner 0 s = Some s" for s
    by (simp add: ref_mark_def Let_def R ts noting_tagger_def default_MarkFavoredReferences_def)
  ultimately show ?thesis
    using ResolveAllAllocationTags_refines [OF ok, of "[]"] ok by (simp add: R image_directory_simps)
qed

end
