(* ===== verification/Tagging.thy ===== *)
theory Tagging
  imports Tagger_Runner
begin

text \<open>
  What the taggers share: the process they look at, the tags and sets of edges they change, and the step
  by which they tag an allocation and mark the edge to it as favored.
\<close>

section \<open>The process and the tags\<close>

record Process =
  p_map :: VirtualAddressMap
  p_directory :: Directory
  p_graph :: Graph

record Tagging =
  tg_holder :: TagHolder
  tg_favored :: EdgePredicate
  tg_tainted :: EdgePredicate

text \<open>A word of memory as the readers of the taggers give it, and the smallest aligned pointers.\<close>

abbreviation read_word :: "Process \<Rightarrow> addr \<Rightarrow> addr" where
  "read_word p a \<equiv> word_or (p_map p) a 0xbad"

abbreviation misaligned :: "addr \<Rightarrow> bool" where
  "misaligned a \<equiv> a AND (sizeof_Offset - 1) \<noteq> 0"

definition tag_allocation :: "Process \<Rightarrow> nat \<Rightarrow> nat \<Rightarrow> Tagging \<Rightarrow> Tagging option" where
  "tag_allocation p i tag tg =
     map_option (\<lambda>(th, (favored, tainted), changed). \<lparr>tg_holder = th, tg_favored = favored, tg_tainted = tainted\<rparr>)
       (TagAllocation (p_graph p) (tg_holder tg) (tg_favored tg, tg_tainted tg) i tag)"

definition set_favored :: "Process \<Rightarrow> nat \<Rightarrow> nat \<Rightarrow> bool \<Rightarrow> Tagging \<Rightarrow> Tagging option" where
  "set_favored p source target v tg =
     map_option (\<lambda>favored. tg\<lparr>tg_favored := favored\<rparr>) (ep_Set (p_graph p) source target v (tg_favored tg))"

definition set_tainted :: "Process \<Rightarrow> nat \<Rightarrow> nat \<Rightarrow> bool \<Rightarrow> Tagging \<Rightarrow> Tagging option" where
  "set_tainted p source target v tg =
     map_option (\<lambda>tainted. tg\<lparr>tg_tainted := tainted\<rparr>) (ep_Set (p_graph p) source target v (tg_tainted tg))"

text \<open>An allocation is tagged and the edge to it, if there is a source, is marked as favored.\<close>

definition tag_from :: "Process \<Rightarrow> nat \<Rightarrow> nat \<times> nat \<Rightarrow> Tagging \<Rightarrow> Tagging option" where
  "tag_from p tag = (\<lambda>(source, i) tg.
     Option.bind (tag_allocation p i tag tg)
       (\<lambda>tg1. if source \<noteq> NumAllocations (p_directory p) then set_favored p source i True tg1 else Some tg1))"

section \<open>Invariant\<close>

definition process_ok :: "Process \<Rightarrow> bool" where
  "process_ok p \<longleftrightarrow> vam_ok (p_map p) \<and> edges_ok (p_graph p) \<and> g_numAllocations (p_graph p) = NumAllocations (p_directory p)"

definition tagging_ok :: "Process \<Rightarrow> Tagging \<Rightarrow> bool" where
  "tagging_ok p tg \<longleftrightarrow> th_ok (tg_holder tg) \<and> ep_ok (p_graph p) (tg_favored tg) \<and> ep_ok (p_graph p) (tg_tainted tg) \<and>
     th_numAllocations (tg_holder tg) = NumAllocations (p_directory p)"

definition strong_tag :: "Tagging \<Rightarrow> nat \<Rightarrow> bool" where
  "strong_tag tg tag \<longleftrightarrow> tag < GetNumTags (tg_holder tg) \<and> tagIsStrong (tg_holder tg) ! tag"

text \<open>What tagging some allocations with a strong tag makes of the tags.\<close>

definition retagged :: "nat set \<Rightarrow> nat \<Rightarrow> Tagging \<Rightarrow> Tagging \<Rightarrow> bool" where
  "retagged I tag tg tg' \<longleftrightarrow>
     tg_holder tg' = (tg_holder tg)\<lparr>tags := map (\<lambda>i.
       if i \<in> I \<and> \<not> IsStronglyTagged (tg_holder tg) i then tag else tags (tg_holder tg) ! i)
       [0..<th_numAllocations (tg_holder tg)]\<rparr>"

lemma clear_edges_ok:
  assumes "edges_ok g" "ep_ok g favored" "ep_ok g tainted"
  shows "\<exists>favored' tainted'. clear_edges g th i oldTag (favored, tainted) = Some (favored', tainted') \<and>
           ep_ok g favored' \<and> ep_ok g tainted'"
proof -
  obtain f' where "SetAllIncoming g i False favored = Some f'" "ep_ok g f'"
    using SetAllIncoming_outcome [OF assms(1,2)] by blast
  moreover obtain t' where "SetAllOutgoing g i False tainted = Some t'" "ep_ok g t'"
    using SetAllOutgoing_outcome [OF assms(1,3)] by blast
  ultimately show ?thesis using assms(2,3) by (simp add: clear_edges_def)
qed

text \<open>An allocation that is tagged: its tag is replaced or nothing changes.\<close>

lemma tag_allocation_any:
  assumes "process_ok p" "tagging_ok p tg" "tag < GetNumTags (tg_holder tg)" "i < NumAllocations (p_directory p)"
  shows "\<exists>tg'. tag_allocation p i tag tg = Some tg' \<and> tagging_ok p tg' \<and>
    (if replaces_tag (tg_holder tg) (tags (tg_holder tg) ! i) tag
     then tg_holder tg' = (tg_holder tg)\<lparr>tags := (tags (tg_holder tg))[i := tag]\<rparr> \<and>
       (tags (tg_holder tg) ! i = 0 \<longrightarrow> tg_favored tg' = tg_favored tg \<and> tg_tainted tg' = tg_tainted tg)
     else tg' = tg)"
proof -
  let ?th = "tg_holder tg"
  note ok = assms(2) [unfolded tagging_ok_def]
  have n: "i < th_numAllocations ?th" using ok assms(4) by simp
  show ?thesis
  proof (cases "replaces_tag ?th (tags ?th ! i) tag")
    case False
    then have *: "\<not> (tags ?th ! i = 0 \<or> tagIsStrong ?th ! tag \<and> \<not> tagIsStrong ?th ! (tags ?th ! i))"
      by (simp only: replaces_tag_def not_False_eq_True simp_thms)
    have "\<not> tag \<ge> length (indexToName ?th)" "\<not> i \<ge> th_numAllocations ?th" using n assms(3) by (simp_all add: GetNumTags_def)
    then have "TagAllocation (p_graph p) ?th (tg_favored tg, tg_tainted tg) i tag = Some (?th, (tg_favored tg, tg_tainted tg), False)"
      unfolding TagAllocation_def Let_def if_not_P [OF *] by (simp only: if_False)
    then have "tag_allocation p i tag tg = Some tg" by (simp add: tag_allocation_def)
    then show ?thesis using False assms(2) by simp
  next
    case True
    obtain f t where c: "clear_edges (p_graph p) ?th i (tags ?th ! i) (tg_favored tg, tg_tainted tg) = Some (f, t)"
      "ep_ok (p_graph p) f" "ep_ok (p_graph p) t"
      using clear_edges_ok assms(1) ok unfolding process_ok_def by blast
    have zero: "f = tg_favored tg \<and> t = tg_tainted tg" if "tags ?th ! i = 0" using c(1) that by (simp add: clear_edges_def)
    let ?th' = "?th\<lparr>tags := (tags ?th)[i := tag]\<rparr>"
    have "tag_allocation p i tag tg = Some \<lparr>tg_holder = ?th', tg_favored = f, tg_tainted = t\<rparr>"
      using True n assms(3) c(1)
      by (simp add: tag_allocation_def TagAllocation_def Let_def GetNumTags_def replaces_tag_def)
    moreover have "th_ok ?th'"
      using ok assms(3) unfolding th_ok_def GetNumTags_def by (auto dest!: subsetD [OF set_update_subset_insert])
    ultimately show ?thesis using True c(2,3) ok zero by (simp add: tagging_ok_def)
  qed
qed

lemma tag_allocation_outcome:
  assumes "process_ok p" "tagging_ok p tg" "strong_tag tg tag" "i < NumAllocations (p_directory p)"
  shows "\<exists>tg'. tag_allocation p i tag tg = Some tg' \<and> tagging_ok p tg' \<and> retagged {i} tag tg tg'"
proof -
  let ?th = "tg_holder tg"
  note ok = assms(2) [unfolded tagging_ok_def]
  have len: "length (tags ?th) = th_numAllocations ?th" and n: "i < th_numAllocations ?th"
    using ok assms(4) by (simp_all add: th_ok_def)
  have "\<not> tagIsStrong ?th ! 0" using ok by (simp add: th_ok_def)
  then have r: "replaces_tag ?th (tags ?th ! i) tag \<longleftrightarrow> \<not> tagIsStrong ?th ! (tags ?th ! i)"
    using assms(3) by (auto simp: replaces_tag_def strong_tag_def)
  have "map (\<lambda>j. if j \<in> {i} \<and> P then tag else tags ?th ! j) [0..<th_numAllocations ?th] =
      (if P then (tags ?th)[i := tag] else tags ?th)" for P
    by (rule nth_equalityI) (use len in \<open>auto simp: nth_list_update\<close>)
  then have new: "retagged {i} tag tg tg' \<longleftrightarrow> tg_holder tg' =
      ?th\<lparr>tags := (if \<not> tagIsStrong ?th ! (tags ?th ! i) then (tags ?th)[i := tag] else tags ?th)\<rparr>" for tg'
    using n by (simp add: retagged_def IsStronglyTagged_def cong: conj_cong)
  have "tag < GetNumTags ?th" using assms(3) by (simp add: strong_tag_def)
  from tag_allocation_any [OF assms(1,2) this assms(4)]
  show ?thesis unfolding r by (auto simp: new split: if_splits)
qed

lemma set_favored_outcome:
  assumes "process_ok p" "tagging_ok p tg"
  shows "\<exists>tg'. set_favored p source target v tg = Some tg' \<and> tagging_ok p tg' \<and> tg_holder tg' = tg_holder tg"
  using ep_Set_outcome [of "p_graph p" "tg_favored tg" source target v] assms
  by (auto simp: set_favored_def process_ok_def tagging_ok_def)

lemma set_tainted_outcome:
  assumes "process_ok p" "tagging_ok p tg"
  shows "\<exists>tg'. set_tainted p source target v tg = Some tg' \<and> tagging_ok p tg' \<and> tg_holder tg' = tg_holder tg"
  using ep_Set_outcome [of "p_graph p" "tg_tainted tg" source target v] assms
  by (auto simp: set_tainted_def process_ok_def tagging_ok_def)

lemma tag_from_outcome:
  assumes "process_ok p" "tagging_ok p tg" "strong_tag tg tag" "i < NumAllocations (p_directory p)"
  shows "\<exists>tg'. tag_from p tag (source, i) tg = Some tg' \<and> tagging_ok p tg' \<and> retagged {i} tag tg tg'"
proof -
  obtain tg1 where 1: "tag_allocation p i tag tg = Some tg1" "tagging_ok p tg1" "retagged {i} tag tg tg1"
    using tag_allocation_outcome [OF assms] by blast
  obtain tg2 where "set_favored p source i True tg1 = Some tg2" "tagging_ok p tg2" "tg_holder tg2 = tg_holder tg1"
    using set_favored_outcome [OF assms(1) 1(2)] by blast
  then show ?thesis using 1 by (auto simp: tag_from_def retagged_def)
qed

lemma retagged_empty: "th_ok (tg_holder tg) \<Longrightarrow> retagged {} tag tg tg"
  unfolding retagged_def th_ok_def using map_nth [of "tags (tg_holder tg)"] by simp

lemma retagged_strong: "retagged I tag tg tg' \<Longrightarrow> strong_tag tg' tag' \<longleftrightarrow> strong_tag tg tag'"
  by (simp add: retagged_def strong_tag_def GetNumTags_def)

lemma retagged_trans:
  assumes "retagged I tag tg tg1" "retagged J tag tg1 tg2" "strong_tag tg tag"
  shows "retagged (I \<union> J) tag tg tg2"
proof -
  have "IsStronglyTagged (tg_holder tg1) i \<longleftrightarrow> IsStronglyTagged (tg_holder tg) i \<or> i \<in> I" if "i < th_numAllocations (tg_holder tg)" for i
    using assms(1,3) that by (auto simp: retagged_def IsStronglyTagged_def strong_tag_def)
  then show ?thesis using assms(1,2) by (auto simp: retagged_def intro!: map_cong)
qed

lemma tag_all_outcome:
  assumes "process_ok p" "tagging_ok p tg" "strong_tag tg tag" "\<forall>q\<in>set qs. snd q < NumAllocations (p_directory p)"
  shows "\<exists>tg'. fold_option (tag_from p tag) qs tg = Some tg' \<and> tagging_ok p tg' \<and> retagged (snd ` set qs) tag tg tg'"
  using assms(2-4)
proof (induction qs arbitrary: tg)
  case Nil
  then show ?case by (simp add: retagged_empty tagging_ok_def)
next
  case (Cons q qs)
  obtain source i where q: "q = (source, i)" by fastforce
  obtain tg1 where 1: "tag_from p tag q tg = Some tg1" "tagging_ok p tg1" "retagged {i} tag tg tg1"
    using tag_from_outcome [OF assms(1) Cons.prems(1,2), of i source] Cons.prems(3) q by auto
  obtain tg2 where 2: "fold_option (tag_from p tag) qs tg1 = Some tg2" "tagging_ok p tg2" "retagged (snd ` set qs) tag tg1 tg2"
    using Cons.IH [OF 1(2)] Cons.prems(2,3) retagged_strong [OF 1(3)] by auto
  have "retagged ({i} \<union> snd ` set qs) tag tg tg2" by (rule retagged_trans [OF 1(3) 2(3) Cons.prems(2)])
  then show ?case using 1 2 q by simp
qed

lemma retagged_strongly:
  assumes "retagged I tag tg tg'" "strong_tag tg tag" "i \<in> I" "i < th_numAllocations (tg_holder tg)"
  shows "IsStronglyTagged (tg_holder tg') i"
  using assms by (auto simp: retagged_def IsStronglyTagged_def strong_tag_def)

section \<open>Tainted edges\<close>

text \<open>
  The outgoing edges of the body of a container are tainted, except those to the targets of its live words.
\<close>

definition taint_all :: "Process \<Rightarrow> nat \<Rightarrow> Tagging \<Rightarrow> Tagging option" where
  "taint_all p source tg =
     map_option (\<lambda>tainted. tg\<lparr>tg_tainted := tainted\<rparr>) (SetAllOutgoing (p_graph p) source True (tg_tainted tg))"

text \<open>One live word; the value 0 is passed over by some taggers and looked up by others.\<close>

definition untaint_word :: "Process \<Rightarrow> bool \<Rightarrow> nat \<Rightarrow> addr \<Rightarrow> Tagging \<Rightarrow> Tagging option" where
  "untaint_word p skipZero source a tg =
     (let candidate = word_or (p_map p) a 0 in
      if skipZero \<and> candidate = 0 then Some tg
      else
        let target = TargetAllocationIndex (p_graph p) (p_directory p) source candidate in
        if target \<noteq> NumAllocations (p_directory p) then set_tainted p source target False tg else Some tg)"

definition live_targets :: "Process \<Rightarrow> bool \<Rightarrow> nat \<Rightarrow> addr list \<Rightarrow> nat set" where
  "live_targets p skipZero source as =
     {t. \<exists>a\<in>set as. \<not> (skipZero \<and> word_or (p_map p) a 0 = 0) \<and> t \<noteq> NumAllocations (p_directory p) \<and>
          t = TargetAllocationIndex (p_graph p) (p_directory p) source (word_or (p_map p) a 0)}"

text \<open>The edges that one source has after all of them were tainted and the live ones were not.\<close>

definition tainted_but_live :: "Process \<Rightarrow> nat \<Rightarrow> nat set \<Rightarrow> (nat \<times> nat) set \<Rightarrow> (nat \<times> nat) set" where
  "tainted_but_live p source live E =
     E - {source} \<times> UNIV \<union> {(s, t) \<in> all_edges (p_graph p). s = source \<and> t \<notin> live}"

lemma taint_all_outcome:
  assumes "process_ok p" "tagging_ok p tg"
  shows "\<exists>tainted. taint_all p source tg = Some (tg\<lparr>tg_tainted := tainted\<rparr>) \<and> ep_ok (p_graph p) tainted \<and>
    true_edges (p_graph p) tainted = true_edges (p_graph p) (tg_tainted tg) \<union> all_edges (p_graph p) \<inter> {source} \<times> UNIV"
  using SetAllOutgoing_outcome [of "p_graph p" "tg_tainted tg" source True] assms
  by (auto simp: taint_all_def process_ok_def tagging_ok_def set_edges_def)

lemma untaint_word_outcome:
  assumes "process_ok p" "tagging_ok p tg"
  shows "\<exists>tainted. untaint_word p skipZero source a tg = Some (tg\<lparr>tg_tainted := tainted\<rparr>) \<and> ep_ok (p_graph p) tainted \<and>
    true_edges (p_graph p) tainted = true_edges (p_graph p) (tg_tainted tg) - {source} \<times> live_targets p skipZero source [a]"
proof -
  let ?c = "word_or (p_map p) a 0"
  let ?t = "TargetAllocationIndex (p_graph p) (p_directory p) source ?c"
  have ep: "edges_ok (p_graph p)" "ep_ok (p_graph p) (tg_tainted tg)" using assms by (simp_all add: process_ok_def tagging_ok_def)
  have same: "tg = tg\<lparr>tg_tainted := tg_tainted tg\<rparr>" by simp
  show ?thesis
  proof (cases "(skipZero \<and> ?c = 0) \<or> ?t = NumAllocations (p_directory p)")
    case True
    then have "live_targets p skipZero source [a] = {}" by (auto simp: live_targets_def)
    moreover have "untaint_word p skipZero source a tg = Some tg" using True by (auto simp: untaint_word_def Let_def)
    ultimately show ?thesis using ep(2) same by (metis Diff_empty Sigma_empty2)
  next
    case False
    then have live: "live_targets p skipZero source [a] = {?t}" by (auto simp: live_targets_def)
    obtain e where e: "ep_Set (p_graph p) source ?t False (tg_tainted tg) = Some e" "ep_ok (p_graph p) e"
      "true_edges (p_graph p) e = true_edges (p_graph p) (tg_tainted tg) - all_edges (p_graph p) \<inter> {(source, ?t)}"
      using ep_Set_outcome [OF ep, of source ?t False] by (auto simp: set_edges_def)
    have "true_edges (p_graph p) (tg_tainted tg) \<subseteq> all_edges (p_graph p)" by (auto simp: true_edges_def all_edges_def)
    then have "true_edges (p_graph p) e = true_edges (p_graph p) (tg_tainted tg) - {source} \<times> {?t}" using e(3) by blast
    then show ?thesis using False e(1,2) by (auto simp: untaint_word_def Let_def set_tainted_def live)
  qed
qed

lemma tagging_ok_tainted: "tagging_ok p tg \<Longrightarrow> ep_ok (p_graph p) tainted \<Longrightarrow> tagging_ok p (tg\<lparr>tg_tainted := tainted\<rparr>)"
  by (simp add: tagging_ok_def)

lemma untaint_words_outcome:
  assumes "process_ok p" "tagging_ok p tg"
  shows "\<exists>tainted. fold_option (untaint_word p skipZero source) as tg = Some (tg\<lparr>tg_tainted := tainted\<rparr>) \<and>
    ep_ok (p_graph p) tainted \<and>
    true_edges (p_graph p) tainted = true_edges (p_graph p) (tg_tainted tg) - {source} \<times> live_targets p skipZero source as"
  using assms(2)
proof (induction as arbitrary: tg)
  case Nil
  then have "ep_ok (p_graph p) (tg_tainted tg)" by (simp add: tagging_ok_def)
  then show ?case by (intro exI [of _ "tg_tainted tg"]) (simp add: live_targets_def)
next
  case (Cons a as)
  obtain e where e: "untaint_word p skipZero source a tg = Some (tg\<lparr>tg_tainted := e\<rparr>)" "ep_ok (p_graph p) e"
    "true_edges (p_graph p) e = true_edges (p_graph p) (tg_tainted tg) - {source} \<times> live_targets p skipZero source [a]"
    using untaint_word_outcome [OF assms(1) Cons.prems] by blast
  obtain e' where "fold_option (untaint_word p skipZero source) as (tg\<lparr>tg_tainted := e\<rparr>) = Some (tg\<lparr>tg_tainted := e'\<rparr>)"
    "ep_ok (p_graph p) e'" "true_edges (p_graph p) e' = true_edges (p_graph p) e - {source} \<times> live_targets p skipZero source as"
    using Cons.IH [OF tagging_ok_tainted [OF Cons.prems e(2)]] by auto
  moreover have "live_targets p skipZero source (a # as) = live_targets p skipZero source [a] \<union> live_targets p skipZero source as"
    by (auto simp: live_targets_def)
  ultimately show ?case using e by auto
qed

lemma taint_but_live_outcome:
  assumes "process_ok p" "tagging_ok p tg"
  shows "\<exists>tainted. Option.bind (taint_all p source tg) (fold_option (untaint_word p skipZero source) as) =
      Some (tg\<lparr>tg_tainted := tainted\<rparr>) \<and> tagging_ok p (tg\<lparr>tg_tainted := tainted\<rparr>) \<and>
    true_edges (p_graph p) tainted =
      tainted_but_live p source (live_targets p skipZero source as) (true_edges (p_graph p) (tg_tainted tg))"
proof -
  obtain e where e: "taint_all p source tg = Some (tg\<lparr>tg_tainted := e\<rparr>)" "ep_ok (p_graph p) e"
    "true_edges (p_graph p) e = true_edges (p_graph p) (tg_tainted tg) \<union> all_edges (p_graph p) \<inter> {source} \<times> UNIV"
    using taint_all_outcome [OF assms] by blast
  obtain e' where e': "fold_option (untaint_word p skipZero source) as (tg\<lparr>tg_tainted := e\<rparr>) = Some (tg\<lparr>tg_tainted := e'\<rparr>)"
    "ep_ok (p_graph p) e'" "true_edges (p_graph p) e' = true_edges (p_graph p) e - {source} \<times> live_targets p skipZero source as"
    using untaint_words_outcome [OF assms(1) tagging_ok_tainted [OF assms(2) e(2)], of skipZero source as]
    by auto
  have "true_edges (p_graph p) (tg_tainted tg) \<subseteq> all_edges (p_graph p)" by (auto simp: true_edges_def all_edges_def)
  then have "true_edges (p_graph p) e' =
      tainted_but_live p source (live_targets p skipZero source as) (true_edges (p_graph p) (tg_tainted tg))"
    unfolding e'(3) e(3) tainted_but_live_def by blast
  then show ?thesis using e(1) e'(1,2) tagging_ok_tainted [OF assms(2) e'(2)] by auto
qed

section \<open>Words read in place\<close>

text \<open>
  The first \<open>n\<close> words that \<open>FindMappedMemoryImage\<close> gives access to, if that many are contiguous in the file;
  the outer option is the access through the pointer.
\<close>

definition image_words :: "VirtualAddressMap \<Rightarrow> addr \<Rightarrow> nat \<Rightarrow> addr list option option" where
  "image_words m a n =
     (case FindMappedMemoryImage m a of (numBytesFound, img) \<Rightarrow>
        if numBytesFound < of_nat (8 * n) then Some None
        else (case img of
                None \<Rightarrow> None
              | Some off \<Rightarrow> (case file_bytes (fileImage m) off (8 * n) of Value bs \<Rightarrow> Some (Some (le_words bs)) | _ \<Rightarrow> None)))"

lemma le_words_length: "length (le_words bs) = length bs div 8"
proof (induction bs rule: le_words.induct)
  case (1 bs)
  show ?case
  proof (cases "length bs < 8")
    case False
    then have "length (le_words bs) = 1 + (length bs - 8) div 8" using 1 by (simp add: le_words.simps [of bs])
    then show ?thesis using False by (simp add: le_div_geq)
  qed (simp add: le_words.simps)
qed

lemma image_words_outcome:
  assumes "vam_ok m" "0 < n" "n < 100"
  shows "image_words m a n = Some None \<or> (\<exists>ws. image_words m a n = Some (Some ws) \<and> length ws = n)"
proof -
  obtain k img where f: "FindMappedMemoryImage m a = (k, img)" by fastforce
  note s = FindMappedMemoryImage_spec [OF assms(1) f]
  show ?thesis
  proof (cases "k < of_nat (8 * n)")
    case True
    then show ?thesis by (simp add: image_words_def f)
  next
    case False
    have u: "unat (of_nat (8 * n) :: addr) = 8 * n" using assms(3) by (intro unat_of_nat_addr) simp
    then have k: "8 * n \<le> unat k" using False by (simp add: word_less_nat_alt not_less)
    then obtain off where off: "img = Some off" "unat off + unat k \<le> length (fileImage m)"
      using s assms(2) by (cases img) auto
    then show ?thesis using False k by (simp add: image_words_def f file_bytes_def le_words_length)
  qed
qed

end
