(* ===== verification/Example_Process.thy ===== *)
theory Example_Process
  imports Tagging
begin

text \<open>
  Small processes on which the properties of the taggers are tried: memory that is given word by word from
  0x1000 on, allocations that are given by address and size, and the tables of a graph that is given by the
  targets of every allocation.
\<close>

section \<open>Memory\<close>

primrec bytes_of :: "nat \<Rightarrow> nat \<Rightarrow> byte list" where
  "bytes_of 0 n = []"
| "bytes_of (Suc k) n = of_nat (n mod 256) # bytes_of k (n div 256)"

lemma length_bytes_of [simp]: "length (bytes_of k n) = k"
  by (induction k arbitrary: n) simp_all

lemma le_value_bytes_of: "le_value (bytes_of k n) = n mod 256 ^ k"
proof (induction k arbitrary: n)
  case (Suc k)
  have "unat (of_nat (n mod 256) :: byte) = n mod 256" by (simp add: unat_of_nat)
  then show ?case using Suc by (simp add: mod_mult2_eq mult.commute)
qed simp

definition word_bytes :: "addr \<Rightarrow> byte list" where
  "word_bytes w = bytes_of 8 (unat w)"

lemma word_bytes_simps [simp]: "length (word_bytes w) = 8" "of_nat (le_value (word_bytes w)) = w"
proof -
  have "unat w < 2 ^ LENGTH(64)" by (rule unsigned_less)
  then show "of_nat (le_value (word_bytes w)) = w" by (simp add: word_bytes_def le_value_bytes_of)
qed (simp add: word_bytes_def)

definition words_bytes :: "addr list \<Rightarrow> byte list" where
  "words_bytes ws = concat (map word_bytes ws)"

lemma words_bytes_simps [simp]: "words_bytes [] = []" "words_bytes (w # ws) = word_bytes w @ words_bytes ws"
  by (simp_all add: words_bytes_def)

lemma length_words_bytes [simp]: "length (words_bytes ws) = 8 * length ws"
  by (induction ws) simp_all

lemma le_words_words_bytes [simp]: "le_words (words_bytes ws) = ws"
  by (induction ws) (simp_all add: le_words.simps)

lemma word_of_words_bytes: "k < length ws \<Longrightarrow> take 8 (drop (8 * k) (words_bytes ws)) = word_bytes (ws ! k)"
proof (induction ws arbitrary: k)
  case (Cons w ws)
  then show ?case by (cases k) simp_all
qed simp

definition words_map :: "addr list \<Rightarrow> VirtualAddressMap" where
  "words_map ws = AddRange (VirtualAddressMap_new (words_bytes ws)) 0x1000 (8 * of_nat (length ws)) (0 - 0x1000)
     True True True False False"

lemma words_map_entries:
  assumes "0 < length ws" "length ws < 0x1000"
  shows "rm_map (ranges (words_map ws)) =
      [(0x1000 + 8 * of_nat (length ws), 8 * of_nat (length ws), \<lparr>adjustToFileOffset = 0 - 0x1000, flags = 0x19\<rparr>)]"
    "fileImage (words_map ws) = words_bytes ws"
proof -
  have u: "unat (8 * of_nat (length ws) :: addr) = 8 * length ws"
    using assms by (simp add: unat_word_ariths unat_of_nat)
  then have "8 * of_nat (length ws) \<noteq> (0 :: addr)" using assms(1) by auto
  moreover have "(0x1000 :: addr) \<le> 0x1000 + 8 * of_nat (length ws)"
    using u assms by (simp add: word_le_nat_alt unat_word_ariths)
  ultimately show "rm_map (ranges (words_map ws)) =
      [(0x1000 + 8 * of_nat (length ws), 8 * of_nat (length ws), \<lparr>adjustToFileOffset = 0 - 0x1000, flags = 0x19\<rparr>)]"
    "fileImage (words_map ws) = words_bytes ws"
    by (simp_all add: words_map_def AddRange_def VirtualAddressMap_new_def AddRange_flags_def flag_defs
        MapRange_def RangeMapper_new_def sm_lower_bound_def rm_emplace_result_def sm_emplace_def
        rm_next_def sm_upper_bound_def sm_find_def Let_def)
qed

lemma words_map_ok:
  assumes "0 < length ws" "length ws < 0x1000"
  shows "vam_ok (words_map ws)"
proof -
  have u: "unat (8 * of_nat (length ws) :: addr) = 8 * length ws"
    using assms by (simp add: unat_word_ariths unat_of_nat)
  have a: "addable (VirtualAddressMap_new (words_bytes ws)) 0x1000 (8 * of_nat (length ws)) (0 - 0x1000)"
    using u assms by (simp add: addable_def VirtualAddressMap_new_def rs.lookup_new word_less_nat_alt word_le_nat_alt unat_word_ariths)
  show ?thesis unfolding words_map_def by (rule AddRange_ok [OF vam_ok_new a]) (use u assms in \<open>simp add: unat_word_ariths\<close>)
qed

lemma word_at_words_map:
  assumes ws: "length ws < 0x1000" and k: "k < length ws"
  shows "word_at (words_map ws) (0x1000 + 8 * of_nat k) = Some (ws ! k)"
proof -
  let ?a = "0x1000 + 8 * of_nat k :: addr" and ?l = "0x1000 + 8 * of_nat (length ws) :: addr"
  have u: "unat (8 * of_nat k :: addr) = 8 * k" "unat (8 * of_nat (length ws) :: addr) = 8 * length ws"
    using assms by (simp_all add: unat_word_ariths unat_of_nat)
  have ua: "unat ?a = 0x1000 + 8 * k" "unat (?a + 8) = 0x1008 + 8 * k" "unat ?l = 0x1000 + 8 * length ws"
    using u assms by (simp_all add: unat_word_ariths)
  have le: "?a < ?l" "?l - 8 * of_nat (length ws) \<le> ?a" "\<not> ?a + 8 < ?a" "?a + 8 \<le> ?l"
    using ua k by (simp_all add: word_less_nat_alt word_le_nat_alt)
  have "0 < length ws" using k by linarith
  note e = words_map_entries [OF this ws]
  have "take 8 (drop (unat (8 * of_nat k :: addr)) (words_bytes ws)) = word_bytes (ws ! k)"
    unfolding u by (rule word_of_words_bytes [OF k])
  then show ?thesis
    using le by (simp add: word_at_def read_spec_def vam_find_def rm_find_def sm_upper_bound_def e has_image_def flag_defs)
qed

text \<open>The same for an address that is a numeral.\<close>

lemma words_word_at:
  assumes "length ws < 0x1000" "0x1000 \<le> a" "unat (a - 0x1000) mod 8 = 0" "unat (a - 0x1000) div 8 < length ws"
  shows "word_at (words_map ws) a = Some (ws ! (unat (a - 0x1000) div 8))"
proof -
  define k where "k = unat (a - 0x1000) div 8"
  have "unat (a - 0x1000) = 8 * k" using assms(3) unfolding k_def by presburger
  then have "a - 0x1000 = of_nat (8 * k)" by (metis of_nat_unat ucast_id)
  then have "a = 0x1000 + 8 * of_nat k" by (simp add: algebra_simps)
  then show ?thesis using word_at_words_map [OF assms(1), of k] assms(4) by (simp add: k_def)
qed

text \<open>A read of fewer bytes at the place of a word.\<close>

lemma le_value_take: "le_value (take k bs) = le_value bs mod 256 ^ k"
proof (induction k arbitrary: bs)
  case (Suc k)
  show ?case
  proof (cases bs)
    case (Cons b bs')
    have "unat b < 256" using unsigned_less [of b] by simp
    then show ?thesis using Cons Suc by (simp add: mod_mult2_eq)
  qed simp
qed simp

lemma read_spec_shorter:
  assumes "read_spec m a n = Some bs" "k \<le> n" "n < 2 ^ 64"
  shows "read_spec m a k = Some (take k bs)"
proof -
  from assms(1) obtain L S V where r: "a \<le> a + of_nat n" "vam_find m a = Some (L, S, V)" "has_image V" "a + of_nat n \<le> L"
    "bs = take n (drop (unat (a + adjustToFileOffset V)) (fileImage m))"
    by (auto simp: read_spec_def linorder_not_less split: option.splits if_splits)
  have u: "unat (a + of_nat n) = unat a + n"
    using no_wrap_unat [OF r(1)] unat_of_nat_addr [OF assms(3)] by simp
  then have "unat a + n < 2 ^ 64" using unsigned_less [of "a + of_nat n", where 'a = nat] by simp
  then have "unat (a + of_nat k) = unat a + k" using unat_add_of_nat [of a k] assms(2) by simp
  then have le: "a \<le> a + of_nat k" "a + of_nat k \<le> a + of_nat n" using u assms(2) by (simp_all add: word_le_nat_alt)
  have "a + of_nat k \<le> L" using le(2) r(4) by (rule order_trans)
  then show ?thesis using r le(1) assms(2) by (simp add: read_spec_def linorder_not_less min_absorb1)
qed

lemma word_at_u32:
  assumes "word_at m a = Some w"
  shows "u32_or m a d = ucast w"
proof -
  obtain bs where bs: "read_spec m a 8 = Some bs" "w = of_nat (le_value bs)"
    using assms by (auto simp: word_at_def)
  have "read_spec m a 4 = Some (take 4 bs)" by (rule read_spec_shorter [OF bs(1)]) simp_all
  moreover have "(of_nat (n mod 256 ^ 4) :: 32 word) = ucast (of_nat n :: addr)" for n
    unfolding unsigned_of_nat word_of_nat_eq_iff by (simp add: take_bit_eq_mod mod_mod_cancel)
  ultimately show ?thesis by (simp only: u32_or_def bs(2) le_value_take option.case)
qed
section \<open>Allocations\<close>

definition used_directory :: "(addr \<times> addr) list \<Rightarrow> Directory" where
  "used_directory as = Directory_new\<lparr>allocations := map (\<lambda>(a, s). Allocation_new a s True 0 False) as\<rparr>"

lemma used_directory_simps [simp]:
  "NumAllocations (used_directory as) = length as"
  "i < length as \<Longrightarrow> AllocationAt (used_directory as) i = Some (Allocation_new (fst (as ! i)) (snd (as ! i)) True 0 False)"
  "i < length as \<Longrightarrow> allocations (used_directory as) ! i = Allocation_new (fst (as ! i)) (snd (as ! i)) True 0 False"
  by (simp_all add: used_directory_def NumAllocations_def AllocationAt_def case_prod_beta)

lemma used_allocation [simp]:
  assumes "s < 0x10000"
  shows "al_Address (Allocation_new a s True 0 False) = a" "al_Size (Allocation_new a s True 0 False) = s"
    "al_IsUsed (Allocation_new a s True 0 False)"
proof -
  have "s \<le> SIZE_MASK" "(0 :: addr) < MAX_FINDERS"
    using assms by (simp_all add: al_constants mask_eq_exp_minus_1 word_less_nat_alt word_le_nat_alt)
  then show "al_Address (Allocation_new a s True 0 False) = a" "al_Size (Allocation_new a s True 0 False) = s"
    "al_IsUsed (Allocation_new a s True 0 False)"
    using Allocation_new_fields [of s 0 a True False] by simp_all
qed

section \<open>Graphs\<close>

definition starts :: "nat list list \<Rightarrow> nat list" where
  "starts rws = map (\<lambda>i. length (concat (take i rws))) [0..<Suc (length rws)]"

definition columns :: "nat list list \<Rightarrow> nat list list" where
  "columns rws = map (\<lambda>t. filter (\<lambda>s. t \<in> set (rws ! s)) [0..<length rws]) [0..<length rws]"

definition rows_graph :: "Directory \<Rightarrow> nat list list \<Rightarrow> Graph" where
  "rows_graph d rws = (Graph_init d)
     \<lparr>totalEdges := length (concat rws), outgoing := concat rws, incoming := concat (columns rws),
      firstOutgoing := starts rws, firstIncoming := starts (columns rws)\<rparr>"

definition good_rows :: "nat list list \<Rightarrow> bool" where
  "good_rows rws \<longleftrightarrow> (\<forall>r\<in>set rws. sorted_wrt (<) r \<and> (\<forall>t\<in>set r. t < length rws))"

lemma length_concat_take:
  "i \<le> length rws \<Longrightarrow> length (concat (take i rws)) = (\<Sum>j<i. length (rws ! j))"
  by (induction i) (simp_all add: take_Suc_conv_app_nth)

lemma nth_concat_take:
  assumes "i < length rws" "j < length (rws ! i)"
  shows "concat rws ! (length (concat (take i rws)) + j) = rws ! i ! j"
proof -
  have "concat rws = concat (take i rws) @ rws ! i @ concat (drop (Suc i) rws)"
    using assms(1) by (metis concat.simps(2) concat_append id_take_nth_drop)
  then show ?thesis using assms(2) by (simp add: nth_append)
qed

lemma rows_table:
  assumes "good_rows rws"
  shows "table_ok (length rws) (starts rws) (concat rws)" "i < length rws \<Longrightarrow> slice (starts rws) (concat rws) i = rws ! i"
proof -
  have starts: "starts rws ! i = length (concat (take i rws))" if "i \<le> length rws" for i
    using that by (simp add: starts_def del: upt_Suc)
  have rows: "\<And>i. i < length rws \<Longrightarrow> sorted_wrt (<) (rws ! i)" "\<And>i t. i < length rws \<Longrightarrow> t \<in> set (rws ! i) \<Longrightarrow> t < length rws"
    using assms by (auto simp: good_rows_def)
  have len: "length (concat rws) = (\<Sum>j<length rws. length (rws ! j))"
    using length_concat_take [of "length rws" rws] by simp
  show "table_ok (length rws) (starts rws) (concat rws)"
    by (rule table_of_rows(1) [where rws = "\<lambda>i. rws ! i"]) (use starts length_concat_take len nth_concat_take rows in simp_all)
  show "slice (starts rws) (concat rws) i = rws ! i" if "i < length rws"
    by (rule table_of_rows(2) [where rws = "\<lambda>i. rws ! i", OF _ _ _ _ _ that])
      (use starts length_concat_take len nth_concat_take rows in simp_all)
qed

lemma rows_graph_ok:
  assumes "good_rows rws" "length rws = NumAllocations d"
  shows "edges_ok (rows_graph d rws)"
proof -
  have len: "length (columns rws) = length rws" by (simp add: columns_def)
  have col: "columns rws ! t = filter (\<lambda>s. t \<in> set (rws ! s)) [0..<length rws]" if "t < length rws" for t
    using that by (simp add: columns_def)
  have "good_rows (columns rws)"
    by (auto simp: good_rows_def columns_def intro: sorted_wrt_filter)
  note c = rows_table [OF this, unfolded len] and r = rows_table [OF assms(1)]
  have "rows_ok (length rws) (\<lambda>i. rws ! i)" using assms(1) nth_mem unfolding rows_ok_def good_rows_def by blast
  then have "offs (\<lambda>i. rws ! i) (length rws) = start (\<lambda>i. rws ! i) (length rws) (length rws)" by (rule offs_start)
  moreover have "length (columns rws ! t) = indeg (\<lambda>i. rws ! i) (length rws) t" if "t < length rws" for t
    unfolding col [OF that] by (simp add: length_sources [unfolded sources_def])
  then have "length (concat (columns rws)) = start (\<lambda>i. rws ! i) (length rws) (length rws)"
    using length_concat_take [of "length (columns rws)" "columns rws"] by (simp add: len start_def)
  ultimately have "length (concat (columns rws)) = length (concat rws)"
    using length_concat_take [of "length rws" rws] by (simp add: offs_def)
  then show ?thesis
    unfolding edges_ok_def using c r col assms(2) by (simp add: rows_graph_def Graph_init_def)
qed

lemma rows_graph_simps [simp]:
  "g_numAllocations (rows_graph d rws) = NumAllocations d" "totalEdges (rows_graph d rws) = length (concat rws)"
  "outgoing (rows_graph d rws) = concat rws" "firstOutgoing (rows_graph d rws) = starts rws"
  "incoming (rows_graph d rws) = concat (columns rws)" "firstIncoming (rows_graph d rws) = starts (columns rws)"
  by (simp_all add: rows_graph_def Graph_init_def)

lemma rows_graph_edges:
  assumes "good_rows rws" "length rws = NumAllocations d"
  shows "all_edges (rows_graph d rws) = set (concat (map (\<lambda>s. map (Pair s) (rws ! s)) [0..<length rws]))"
proof -
  have "slice (starts rws) (concat rws) s = rws ! s" if "s < length rws" for s using rows_table(2) [OF assms(1) that] .
  moreover have "t < length rws" if "s < length rws" "t \<in> set (rws ! s)" for s t
    using assms(1) that by (auto simp: good_rows_def)
  ultimately show ?thesis
    unfolding all_edges_def is_edge_rows(1) [OF rows_graph_ok [OF assms]] using assms(2)
    by (auto simp: rows_graph_def Graph_init_def slice_row [symmetric])
qed

section \<open>Processes\<close>

definition example_process :: "addr list \<Rightarrow> (addr \<times> addr) list \<Rightarrow> nat list list \<Rightarrow> Process" where
  "example_process ws as rws =
     \<lparr>p_map = words_map ws, p_directory = used_directory as, p_graph = rows_graph (used_directory as) rws\<rparr>"

lemma example_process_simps [simp]:
  "p_map (example_process ws as rws) = words_map ws" "p_directory (example_process ws as rws) = used_directory as"
  "p_graph (example_process ws as rws) = rows_graph (used_directory as) rws"
  by (simp_all add: example_process_def)

lemma example_process_ok:
  "0 < length ws \<Longrightarrow> length ws < 0x1000 \<Longrightarrow> good_rows rws \<Longrightarrow> length rws = length as \<Longrightarrow> process_ok (example_process ws as rws)"
  by (simp add: process_ok_def words_map_ok rows_graph_ok)

text \<open>An image that shows some words.\<close>

definition words_image :: "addr list \<Rightarrow> ContiguousImage" where
  "words_image ws = (ContiguousImage_new Directory_new)
     \<lparr>ci_buffer := words_bytes ws, ci_pFirstOffset := Buffer 0, ci_pPastOffsets := Buffer (8 * length ws)\<rparr>"

lemma words_image_offsets: "length ws < 0x1000 \<Longrightarrow> image_offsets m (words_image ws) = Value ws"
  by (simp add: image_offsets_def words_image_def file_bytes_def)

text \<open>One strong tag that supports favored references, and no edge favored or tainted.\<close>

definition one_tag :: "Process \<Rightarrow> string \<Rightarrow> Tagging" where
  "one_tag p name =
     \<lparr>tg_holder = fst (the (RegisterTag (TagHolder_new (NumAllocations (p_directory p))) name True True)),
      tg_favored = EdgePredicate_new (p_graph p) False, tg_tainted = EdgePredicate_new (p_graph p) False\<rparr>"

lemma one_tag_ok:
  assumes "process_ok p"
  shows "tagging_ok p (one_tag p name)" "strong_tag (one_tag p name) 1"
    "tags (tg_holder (one_tag p name)) = replicate (NumAllocations (p_directory p)) 0"
    "\<not> IsStronglyTagged (tg_holder (one_tag p name)) i"
    "th_numAllocations (tg_holder (one_tag p name)) = NumAllocations (p_directory p)"
proof -
  let ?th = "TagHolder_new (NumAllocations (p_directory p))"
  have n: "GetNumTags ?th = 1" "tags ?th = replicate (NumAllocations (p_directory p)) 0" "tagIsStrong ?th = [False]"
    "th_numAllocations ?th = NumAllocations (p_directory p)"
    by (simp_all add: TagHolder_new_def GetNumTags_def)
  obtain th' where th': "RegisterTag ?th name True True = Some (th', 1)" "th_ok th'" "GetNumTags th' = 2"
    "tags th' = tags ?th" "tagIsStrong th' = [False, True]"
    using RegisterTag_outcome [OF TagHolder_new_ok, of "NumAllocations (p_directory p)" name True True] n
    by (auto simp: GetNumTags_def)
  have "th_numAllocations th' = NumAllocations (p_directory p)" using th'(2,4) n(2) by (simp add: th_ok_def)
  moreover have "edges_ok (p_graph p)" using assms by (simp add: process_ok_def)
  ultimately show "tagging_ok p (one_tag p name)" "strong_tag (one_tag p name) 1"
    "tags (tg_holder (one_tag p name)) = replicate (NumAllocations (p_directory p)) 0"
    "\<not> IsStronglyTagged (tg_holder (one_tag p name)) i"
    "th_numAllocations (tg_holder (one_tag p name)) = NumAllocations (p_directory p)"
    using th' n EdgePredicate_new_outcome(1)
    by (auto simp: one_tag_def tagging_ok_def strong_tag_def IsStronglyTagged_def)
qed

end
