(* ===== verification/Map_Or_Set_Tagger.thy ===== *)
theory Map_Or_Set_Tagger
  imports Example_Process "HOL-Library.Tree"
begin

text \<open>
  The class \<open>MapOrSetAllocationsTagger\<close> of CPlusPlus/MapOrSetAllocationsTagger.h, which recognizes the nodes
  of a \<open>std::map\<close> or \<open>std::set\<close> of libstdc++: a red-black tree with a pseudo node that holds pointers to the
  root, the first and the last node and the number of the nodes.  The abstract tree is a \<open>tree\<close> of the library.
\<close>

section \<open>State\<close>

record MapOrSetTagger =
  mt_nodeTagIndex :: nat
  mt_pseudoNode :: addr
  mt_pseudoNodeIndex :: nat
  mt_leftChild :: addr
  mt_rightChild :: addr
  mt_firstNode :: addr
  mt_lastNode :: addr
  mt_firstNodeVisited :: bool
  mt_lastNodeVisited :: bool
  mt_mapOrSetSize :: addr

definition MIN_NODE_SIZE_IN_OFFSETS :: nat where "MIN_NODE_SIZE_IN_OFFSETS = 5"
definition MIN_NODE_SIZE :: addr where "MIN_NODE_SIZE = 5 * sizeof_Offset"
definition NUM_OFFSETS_BEFORE_PARENT :: nat where "NUM_OFFSETS_BEFORE_PARENT = 1"
definition PARENT_IN_NODE :: addr where "PARENT_IN_NODE = 1 * sizeof_Offset"
definition NUM_OFFSETS_BEFORE_LEFT_CHILD :: nat where "NUM_OFFSETS_BEFORE_LEFT_CHILD = 2"
definition LEFT_CHILD_IN_NODE :: addr where "LEFT_CHILD_IN_NODE = 2 * sizeof_Offset"
definition NUM_OFFSETS_BEFORE_RIGHT_CHILD :: nat where "NUM_OFFSETS_BEFORE_RIGHT_CHILD = 3"
definition RIGHT_CHILD_IN_NODE :: addr where "RIGHT_CHILD_IN_NODE = 3 * sizeof_Offset"
definition ROOT_IN_PSEUDONODE :: addr where "ROOT_IN_PSEUDONODE = sizeof_Offset"
definition FIRST_NODE_IN_PSEUDONODE :: addr where "FIRST_NODE_IN_PSEUDONODE = 2 * sizeof_Offset"
definition LAST_NODE_IN_PSEUDONODE :: addr where "LAST_NODE_IN_PSEUDONODE = 3 * sizeof_Offset"
definition SIZE_IN_PSEUDONODE :: addr where "SIZE_IN_PSEUDONODE = 4 * sizeof_Offset"

definition MapOrSetTagger_new :: "TagHolder \<Rightarrow> (MapOrSetTagger \<times> TagHolder) option" where
  "MapOrSetTagger_new th =
     map_option (\<lambda>(th', tag).
       (\<lparr>mt_nodeTagIndex = tag, mt_pseudoNode = 0, mt_pseudoNodeIndex = 0, mt_leftChild = 0, mt_rightChild = 0,
         mt_firstNode = 0, mt_lastNode = 0, mt_firstNodeVisited = False, mt_lastNodeVisited = False, mt_mapOrSetSize = 0\<rparr>, th'))
       (RegisterTag th ''%MapOrSetNode'' True True)"

section \<open>Checking and tagging the nodes\<close>

text \<open>What changes while the nodes are checked: their number and whether the first and the last were visited.\<close>

type_synonym visits = "addr \<times> bool \<times> bool"

text \<open>The recursion for the children, given the one for the nodes.\<close>

definition CheckChildAndDescendants ::
  "Process \<Rightarrow> (addr \<Rightarrow> nat \<Rightarrow> addr \<Rightarrow> visits \<Rightarrow> bool \<times> visits) \<Rightarrow> addr \<Rightarrow> nat \<Rightarrow> addr \<Rightarrow> visits \<Rightarrow> bool \<times> visits" where
  "CheckChildAndDescendants p checkNode node nodeIndex child visits =
     (if child = 0 then (True, visits)
      else if misaligned child then (False, visits)
      else
        let childIndex = TargetAllocationIndex (p_graph p) (p_directory p) nodeIndex child in
        if childIndex = NumAllocations (p_directory p) then (False, visits)
        else checkNode child childIndex node visits)"

text \<open>
  The depth is counted down: the argument is the limit, 128, less the depth of the node.
\<close>

fun CheckNodeAndDescendants ::
  "Process \<Rightarrow> MapOrSetTagger \<Rightarrow> nat \<Rightarrow> addr \<Rightarrow> nat \<Rightarrow> addr \<Rightarrow> visits \<Rightarrow> bool \<times> visits" where
  "CheckNodeAndDescendants p mt 0 node nodeIndex parent (numVisited, fv, lv) =
     (False, numVisited, fv \<or> node = mt_firstNode mt, lv \<or> node = mt_lastNode mt)"
| "CheckNodeAndDescendants p mt (Suc depthLeft) node nodeIndex parent (numVisited, fv, lv) =
     (let visits = (numVisited + 1, fv \<or> node = mt_firstNode mt, lv \<or> node = mt_lastNode mt) in
      if numVisited + 1 > mt_mapOrSetSize mt then (False, visits)
      else case AllocationAt (p_directory p) nodeIndex of
        None \<Rightarrow> (False, visits)
      | Some allocation \<Rightarrow>
          if al_Size allocation < MIN_NODE_SIZE then (False, visits)
          else if al_Address allocation \<noteq> node then (False, visits)
          else if read_word p (node + PARENT_IN_NODE) \<noteq> parent then (False, visits)
          else if read_word p node AND 0xfe \<noteq> 0 then (False, visits)
          else case CheckChildAndDescendants p (CheckNodeAndDescendants p mt depthLeft) node nodeIndex
                      (read_word p (node + LEFT_CHILD_IN_NODE)) visits of
            (False, visits') \<Rightarrow> (False, visits')
          | (True, visits') \<Rightarrow>
              CheckChildAndDescendants p (CheckNodeAndDescendants p mt depthLeft) node nodeIndex
                (read_word p (node + RIGHT_CHILD_IN_NODE)) visits')"

partial_function (option) TagNodeAndDescendants ::
  "Process \<Rightarrow> nat \<Rightarrow> addr \<Rightarrow> nat \<Rightarrow> nat \<Rightarrow> Tagging \<Rightarrow> Tagging option" where
  "TagNodeAndDescendants p tag node nodeIndex parentIndex tg =
     Option.bind (tag_from p tag (parentIndex, nodeIndex) tg) (\<lambda>tg1.
     let leftChild = word_or (p_map p) (node + LEFT_CHILD_IN_NODE) 0 in
     Option.bind
       (if leftChild \<noteq> 0 then
          TagNodeAndDescendants p tag leftChild (TargetAllocationIndex (p_graph p) (p_directory p) nodeIndex leftChild) nodeIndex tg1
        else Some tg1) (\<lambda>tg2.
     let rightChild = word_or (p_map p) (node + RIGHT_CHILD_IN_NODE) 0 in
     if rightChild \<noteq> 0 then
       TagNodeAndDescendants p tag rightChild (TargetAllocationIndex (p_graph p) (p_directory p) nodeIndex rightChild) nodeIndex tg2
     else Some tg2))"

definition CheckAllMapOrSetNodes ::
  "Process \<Rightarrow> addr \<Rightarrow> nat \<Rightarrow> MapOrSetTagger \<times> Tagging \<Rightarrow> (MapOrSetTagger \<times> Tagging) option" where
  "CheckAllMapOrSetNodes p root rootIndex = (\<lambda>(mt, tg).
     case CheckNodeAndDescendants p mt 128 root rootIndex (mt_pseudoNode mt) (0, mt_firstNodeVisited mt, mt_lastNodeVisited mt) of
       (checked, numVisited, fv, lv) \<Rightarrow>
         let mt' = mt\<lparr>mt_firstNodeVisited := fv, mt_lastNodeVisited := lv\<rparr> in
         if checked \<and> numVisited = mt_mapOrSetSize mt \<and> fv \<and> lv then
           map_option (Pair mt')
             (TagNodeAndDescendants p (mt_nodeTagIndex mt) root rootIndex (mt_pseudoNodeIndex mt) tg)
         else Some (mt', tg))"

section \<open>The phases\<close>

text \<open>The first phase; the second component says whether the tagger is finished with the allocation.\<close>

definition quick_check ::
  "Process \<Rightarrow> addr list \<Rightarrow> nat \<Rightarrow> addr \<Rightarrow> MapOrSetTagger \<times> Tagging \<Rightarrow> ((MapOrSetTagger \<times> Tagging) \<times> bool) option" where
  "quick_check p ws index address = (\<lambda>(mt0, tg).
     if length ws < MIN_NODE_SIZE_IN_OFFSETS \<or> ws ! 0 AND 0xfe \<noteq> 0 then Some ((mt0, tg), True)
     else let mt = mt0\<lparr>mt_pseudoNode := ws ! NUM_OFFSETS_BEFORE_PARENT\<rparr> in
     if mt_pseudoNode mt = 0 \<or> misaligned (mt_pseudoNode mt) then Some ((mt, tg), True)
     else let mt = mt\<lparr>mt_leftChild := ws ! NUM_OFFSETS_BEFORE_LEFT_CHILD\<rparr> in
     if misaligned (mt_leftChild mt) then Some ((mt, tg), True)
     else let mt = mt\<lparr>mt_rightChild := ws ! NUM_OFFSETS_BEFORE_RIGHT_CHILD\<rparr> in
     if misaligned (mt_rightChild mt) then Some ((mt, tg), True)
     else if read_word p (mt_pseudoNode mt) AND 0xfe \<noteq> 0 then Some ((mt, tg), True)
     else if address \<noteq> read_word p (mt_pseudoNode mt + ROOT_IN_PSEUDONODE) then Some ((mt, tg), True)
     else let mt = mt\<lparr>mt_firstNode := read_word p (mt_pseudoNode mt + FIRST_NODE_IN_PSEUDONODE)\<rparr> in
     if mt_firstNode mt = 0 \<or> misaligned (mt_firstNode mt) then Some ((mt, tg), True)
     else let mt = mt\<lparr>mt_firstNodeVisited := False,
                      mt_lastNode := read_word p (mt_pseudoNode mt + LAST_NODE_IN_PSEUDONODE)\<rparr> in
     if mt_lastNode mt = 0 \<or> misaligned (mt_lastNode mt) then Some ((mt, tg), True)
     else let mt = mt\<lparr>mt_lastNodeVisited := False\<rparr> in
     if (mt_leftChild mt = 0) \<noteq> (mt_firstNode mt = address) then Some ((mt, tg), True)
     else if (mt_rightChild mt = 0) \<noteq> (mt_lastNode mt = address) then Some ((mt, tg), True)
     else let mt = mt\<lparr>mt_mapOrSetSize := read_word p (mt_pseudoNode mt + SIZE_IN_PSEUDONODE)\<rparr> in
     if mt_mapOrSetSize mt = 0 then Some ((mt, tg), True)
     else if read_word p (mt_firstNode mt + LEFT_CHILD_IN_NODE) \<noteq> 0 then Some ((mt, tg), True)
     else if read_word p (mt_lastNode mt + RIGHT_CHILD_IN_NODE) \<noteq> 0 then Some ((mt, tg), True)
     else let mt = mt\<lparr>mt_pseudoNodeIndex := SourceAllocationIndex (p_graph p) (p_directory p) index (mt_pseudoNode mt)\<rparr> in
     if mt_mapOrSetSize mt = 1 then
       if mt_leftChild mt = 0 \<and> mt_rightChild mt = 0 then
         map_option (\<lambda>tg'. ((mt, tg'), True)) (tag_from p (mt_nodeTagIndex mt) (mt_pseudoNodeIndex mt, index) tg)
       else Some ((mt, tg), True)
     else Some ((mt, tg), False))"

definition TagFromRootNode ::
  "Process \<Rightarrow> ContiguousImage \<Rightarrow> nat \<Rightarrow> Phase \<Rightarrow> Allocation \<Rightarrow> MapOrSetTagger \<times> Tagging
   \<Rightarrow> ((MapOrSetTagger \<times> Tagging) \<times> bool) option" where
  "TagFromRootNode p ci index phase allocation = (\<lambda>(mt, tg).
     if IsStronglyTagged (tg_holder tg) index then Some ((mt, tg), True)
     else
       let address = al_Address allocation in
       case phase of
         QUICK_INITIAL_CHECK \<Rightarrow>
           (case image_offsets (p_map p) ci of
              Value ws \<Rightarrow> quick_check p ws index address (mt, tg)
            | _ \<Rightarrow> None)
       | MEDIUM_CHECK \<Rightarrow>
           if mt_mapOrSetSize mt \<le> 7 then map_option (\<lambda>s. (s, True)) (CheckAllMapOrSetNodes p address index (mt, tg))
           else Some ((mt, tg), False)
       | SLOW_CHECK \<Rightarrow> map_option (\<lambda>s. (s, True)) (CheckAllMapOrSetNodes p address index (mt, tg))
       | WEAK_CHECK \<Rightarrow> Some ((mt, tg), False))"

definition MapOrSetAllocationsTagger :: "Process \<Rightarrow> (MapOrSetTagger \<times> Tagging) Tagger" where
  "MapOrSetAllocationsTagger p =
     \<lparr>TagFromAllocation = (\<lambda>ci index phase allocation isUnsigned. TagFromRootNode p ci index phase allocation),
      TagFromReferenced = default_TagFromReferenced, tagger_MarkFavoredReferences = default_MarkFavoredReferences\<rparr>"

lemmas mt_constants = MIN_NODE_SIZE_IN_OFFSETS_def MIN_NODE_SIZE_def NUM_OFFSETS_BEFORE_PARENT_def PARENT_IN_NODE_def
  NUM_OFFSETS_BEFORE_LEFT_CHILD_def LEFT_CHILD_IN_NODE_def NUM_OFFSETS_BEFORE_RIGHT_CHILD_def RIGHT_CHILD_IN_NODE_def
  ROOT_IN_PSEUDONODE_def FIRST_NODE_IN_PSEUDONODE_def LAST_NODE_IN_PSEUDONODE_def SIZE_IN_PSEUDONODE_def

section \<open>The tree in memory\<close>

text \<open>The nodes of the abstract tree are pairs of an address and the index of the allocation there.\<close>

definition node_ok :: "Process \<Rightarrow> addr \<Rightarrow> nat \<Rightarrow> addr \<Rightarrow> bool" where
  "node_ok p a i parent \<longleftrightarrow>
     (case AllocationAt (p_directory p) i of None \<Rightarrow> False
      | Some al \<Rightarrow> MIN_NODE_SIZE \<le> al_Size al \<and> al_Address al = a) \<and>
     read_word p (a + PARENT_IN_NODE) = parent \<and> read_word p a AND 0xfe = 0"

fun subtree_at :: "Process \<Rightarrow> nat \<Rightarrow> addr \<Rightarrow> addr \<Rightarrow> (addr \<times> nat) tree \<Rightarrow> bool" where
  "subtree_at p source parent c \<langle>\<rangle> \<longleftrightarrow> c = 0"
| "subtree_at p source parent c \<langle>l, (a, i), r\<rangle> \<longleftrightarrow>
     c \<noteq> 0 \<and> \<not> misaligned c \<and> a = c \<and> i = TargetAllocationIndex (p_graph p) (p_directory p) source c \<and>
     i \<noteq> NumAllocations (p_directory p) \<and> node_ok p a i parent \<and>
     subtree_at p i a (read_word p (a + LEFT_CHILD_IN_NODE)) l \<and>
     subtree_at p i a (read_word p (a + RIGHT_CHILD_IN_NODE)) r"

fun tree_at :: "Process \<Rightarrow> addr \<Rightarrow> nat \<Rightarrow> addr \<Rightarrow> (addr \<times> nat) tree \<Rightarrow> bool" where
  "tree_at p root rootIndex parent \<langle>\<rangle> \<longleftrightarrow> False"
| "tree_at p root rootIndex parent \<langle>l, (a, i), r\<rangle> \<longleftrightarrow>
     a = root \<and> i = rootIndex \<and> node_ok p a i parent \<and>
     subtree_at p i a (read_word p (a + LEFT_CHILD_IN_NODE)) l \<and>
     subtree_at p i a (read_word p (a + RIGHT_CHILD_IN_NODE)) r"

lemma subtree_unique: "subtree_at p s q c t \<Longrightarrow> subtree_at p s q c t' \<Longrightarrow> t = t'"
proof (induction t arbitrary: s q c t')
  case Leaf
  then show ?case by (cases t') auto
next
  case (Node l n r)
  obtain a i where n: "n = (a, i)" by fastforce
  obtain l' a' i' r' where t': "t' = \<langle>l', (a', i'), r'\<rangle>"
    using Node.prems by (cases t') (auto simp: n)
  show ?case using Node.prems Node.IH(1) [of i a _ l'] Node.IH(2) [of i a _ r'] by (auto simp: n t')
qed

lemma tree_unique: "tree_at p a i q t \<Longrightarrow> tree_at p a i q t' \<Longrightarrow> t = t'"
  by (cases t; cases t') (auto dest: subtree_unique)

definition addresses :: "(addr \<times> nat) tree \<Rightarrow> addr set" where
  "addresses t = fst ` set_tree t"

lemma addresses_simps [simp]:
  "addresses \<langle>\<rangle> = {}" "addresses \<langle>l, (a, i), r\<rangle> = insert a (addresses l \<union> addresses r)"
  by (auto simp: addresses_def)

text \<open>The visits after those of all nodes of a tree.\<close>

definition visited :: "MapOrSetTagger \<Rightarrow> (addr \<times> nat) tree \<Rightarrow> visits \<Rightarrow> visits" where
  "visited mt t = (\<lambda>(v, fv, lv).
     (v + of_nat (size t), fv \<or> mt_firstNode mt \<in> addresses t, lv \<or> mt_lastNode mt \<in> addresses t))"

text \<open>The outcome of a check that looks for a tree of a kind.\<close>

definition finds :: "MapOrSetTagger \<Rightarrow> ((addr \<times> nat) tree \<Rightarrow> bool) \<Rightarrow> nat \<Rightarrow> addr \<Rightarrow> bool \<Rightarrow> bool \<Rightarrow> bool \<times> visits \<Rightarrow> bool" where
  "finds mt P k v fv lv = (\<lambda>(found, visits).
     if found then \<exists>t. P t \<and> height t \<le> k \<and> unat v + size t \<le> unat (mt_mapOrSetSize mt) \<and> visits = visited mt t (v, fv, lv)
     else \<forall>t. P t \<and> height t \<le> k \<longrightarrow> unat (mt_mapOrSetSize mt) < unat v + size t)"

lemma finds_child:
  assumes IH: "\<And>a i q. finds mt (tree_at p a i q) k v fv lv (CheckNodeAndDescendants p mt k a i q (v, fv, lv))"
    and v: "v \<le> mt_mapOrSetSize mt"
  shows "finds mt (subtree_at p s q c) k v fv lv
           (CheckChildAndDescendants p (CheckNodeAndDescendants p mt k) q s c (v, fv, lv))"
proof -
  let ?i = "TargetAllocationIndex (p_graph p) (p_directory p) s c"
  consider "c = 0" | "c \<noteq> 0" "misaligned c \<or> ?i = NumAllocations (p_directory p)"
    | "c \<noteq> 0" "\<not> misaligned c" "?i \<noteq> NumAllocations (p_directory p)" by blast
  then show ?thesis
  proof cases
    case 1
    then show ?thesis
      using v by (auto simp: finds_def CheckChildAndDescendants_def visited_def word_le_nat_alt intro!: exI [of _ "\<langle>\<rangle>"])
  next
    case 2
    have "\<not> subtree_at p s q c t" for t using 2 by (cases t) auto
    then show ?thesis using 2 by (auto simp: finds_def CheckChildAndDescendants_def Let_def)
  next
    case 3
    have "subtree_at p s q c t \<longleftrightarrow> tree_at p c ?i q t" for t using 3 by (cases t) auto
    then show ?thesis using 3 IH [of c ?i q] by (simp add: CheckChildAndDescendants_def Let_def finds_def cong: if_cong)
  qed
qed

lemma unat_visited:
  fixes v S :: addr
  assumes "unat v + size t \<le> unat S"
  shows "unat (v + of_nat (size t)) = unat v + size t"
proof (rule unat_add_of_nat)
  have "unat S < 2 ^ LENGTH(64)" by (rule unsigned_less)
  then show "unat v + size t < 2 ^ LENGTH(64)" using assms by linarith
qed

lemma finds_node:
  assumes S: "mt_mapOrSetSize mt \<noteq> - 1" and v: "v \<le> mt_mapOrSetSize mt"
  shows "finds mt (tree_at p a i q) k v fv lv (CheckNodeAndDescendants p mt k a i q (v, fv, lv))"
  using v
proof (induction k arbitrary: a i q v fv lv)
  case 0
  have "\<not> (tree_at p a i q t \<and> height t \<le> 0)" for t by (cases t) auto
  then show ?case by (simp add: finds_def)
next
  case (Suc k)
  let ?S = "mt_mapOrSetSize mt" and ?fv = "fv \<or> a = mt_firstNode mt" and ?lv = "lv \<or> a = mt_lastNode mt"
  let ?child = "CheckChildAndDescendants p (CheckNodeAndDescendants p mt k) a i"
  let ?L = "subtree_at p i a (read_word p (a + LEFT_CHILD_IN_NODE))"
  let ?R = "subtree_at p i a (read_word p (a + RIGHT_CHILD_IN_NODE))"
  have "v \<noteq> - 1" using S Suc.prems word_order.extremum_unique by auto
  then have "1 + v \<noteq> 0" by (metis add.commute eq_neg_iff_add_eq_0)
  then have v1: "unat (v + 1) = unat v + 1" using unatSuc [of v] by (simp add: add.commute)
  have trees: "tree_at p a i q t \<longleftrightarrow> node_ok p a i q \<and> (\<exists>l r. t = \<langle>l, (a, i), r\<rangle> \<and> ?L l \<and> ?R r)" for t
    by (cases t) auto
  have positive: "0 < size t" if "tree_at p a i q t" for t using that trees by auto
  show ?case
  proof (cases "v + 1 > ?S \<or> \<not> node_ok p a i q")
    case True
    then have "\<exists>st. CheckNodeAndDescendants p mt (Suc k) a i q (v, fv, lv) = (False, st)"
      by (auto simp: node_ok_def Let_def split: option.splits)
    moreover have "unat ?S < unat v + size t" if "tree_at p a i q t" for t
      using True that trees positive [OF that] v1 by (auto simp: word_less_nat_alt)
    ultimately show ?thesis by (auto simp: finds_def)
  next
    case False
    then have v1S: "v + 1 \<le> ?S" and ok: "node_ok p a i q" by (simp_all add: not_less)
    have eq: "CheckNodeAndDescendants p mt (Suc k) a i q (v, fv, lv) =
        (case ?child (read_word p (a + LEFT_CHILD_IN_NODE)) (v + 1, ?fv, ?lv) of
           (False, visits') \<Rightarrow> (False, visits')
         | (True, visits') \<Rightarrow> ?child (read_word p (a + RIGHT_CHILD_IN_NODE)) visits')"
      using False by (auto simp: node_ok_def Let_def not_le not_less split: option.splits)
    obtain lb lst where l: "?child (read_word p (a + LEFT_CHILD_IN_NODE)) (v + 1, ?fv, ?lv) = (lb, lst)" by (metis surj_pair)
    have fl: "finds mt ?L k (v + 1) ?fv ?lv (lb, lst)"
      unfolding l [symmetric] by (rule finds_child [OF Suc.IH [OF v1S] v1S])
    show ?thesis
    proof (cases lb)
      case False
      then have "unat ?S < unat v + 1 + size l" if "?L l" "height l \<le> k" for l
        using fl that v1 by (auto simp: finds_def)
      then have "unat ?S < unat v + size t" if "tree_at p a i q t" "height t \<le> Suc k" for t
        using that trees [of t] by fastforce
      then show ?thesis using False unfolding eq l by (simp add: finds_def)
    next
      case True
      then obtain tl' where tl': "?L tl'" "height tl' \<le> k" "unat v + 1 + size tl' \<le> unat ?S" "lst = visited mt tl' (v + 1, ?fv, ?lv)"
        using fl v1 by (auto simp: finds_def)
      obtain w wf wl where lst: "lst = (w, wf, wl)" by (metis surj_pair)
      have w: "w = v + 1 + of_nat (size tl')" "wf = (?fv \<or> mt_firstNode mt \<in> addresses tl')"
        "wl = (?lv \<or> mt_lastNode mt \<in> addresses tl')"
        using tl'(4) by (simp_all add: lst visited_def)
      have uw: "unat w = unat v + 1 + size tl'" using unat_visited [of "v + 1" tl' ?S] tl'(3) v1 by (simp add: w(1))
      then have wS: "w \<le> ?S" using tl'(3) by (simp add: word_le_nat_alt)
      obtain rb rst where r: "?child (read_word p (a + RIGHT_CHILD_IN_NODE)) (w, wf, wl) = (rb, rst)" by (metis surj_pair)
      have fr: "finds mt ?R k w wf wl (rb, rst)"
        unfolding r [symmetric] by (rule finds_child [OF Suc.IH [OF wS] wS])
      show ?thesis
      proof (cases rb)
        case False
        then have none: "unat ?S < unat w + size r" if "?R r" "height r \<le> k" for r using fr that by (auto simp: finds_def)
        have "unat ?S < unat v + size t" if t: "tree_at p a i q t" "height t \<le> Suc k" for t
        proof -
          obtain l' r' where lr: "t = \<langle>l', (a, i), r'\<rangle>" "?L l'" "?R r'" using t(1) trees by blast
          then have "l' = tl'" using subtree_unique tl'(1) by blast
          then show ?thesis using none [of r'] lr t(2) uw by auto
        qed
        then show ?thesis using True False unfolding eq l lst by (simp add: r finds_def)
      next
        case rb: True
        then obtain tr where tr: "?R tr" "height tr \<le> k" "unat w + size tr \<le> unat ?S" "rst = visited mt tr (w, wf, wl)"
          using fr by (auto simp: finds_def)
        let ?t = "\<langle>tl', (a, i), tr\<rangle>"
        have "tree_at p a i q ?t" "height ?t \<le> Suc k" "unat v + size ?t \<le> unat ?S" "rst = visited mt ?t (v, fv, lv)"
          using trees ok tl' tr uw w by (auto simp: visited_def)
        then have "finds mt (tree_at p a i q) (Suc k) v fv lv (True, rst)" unfolding finds_def prod.case if_True by blast
        then show ?thesis using True rb unfolding eq l lst by (simp add: r)
      qed
    qed
  qed
qed

section \<open>Tagging a tree\<close>

text \<open>The nodes of a tree, parents first, each with its parent.\<close>

fun tree_edges :: "nat \<Rightarrow> (addr \<times> nat) tree \<Rightarrow> (nat \<times> nat) list" where
  "tree_edges source \<langle>\<rangle> = []"
| "tree_edges source \<langle>l, (a, i), r\<rangle> = (source, i) # tree_edges i l @ tree_edges i r"

lemma tree_edges_nodes: "snd ` set (tree_edges s t) = snd ` set_tree t"
  by (induction s t rule: tree_edges.induct) (auto simp: image_Un)

lemma node_ok_index: "node_ok p a i q \<Longrightarrow> i < NumAllocations (p_directory p)"
  by (auto simp: node_ok_def AllocationAt_def NumAllocations_def split: option.splits if_splits)

lemma subtree_indices: "subtree_at p s q c t \<Longrightarrow> n \<in> set_tree t \<Longrightarrow> snd n < NumAllocations (p_directory p)"
proof (induction t arbitrary: s q c)
  case (Node l n' r)
  then show ?case by (cases n') (auto dest: node_ok_index)
qed simp

lemma tree_indices:
  assumes "tree_at p a i q t" "e \<in> set (tree_edges s t)"
  shows "snd e < NumAllocations (p_directory p)"
proof -
  have "snd e \<in> snd ` set_tree t" using assms(2) tree_edges_nodes [of s t] by blast
  then obtain n where n: "n \<in> set_tree t" "snd e = snd n" by blast
  then show ?thesis using assms(1) by (cases t) (auto dest: node_ok_index subtree_indices)
qed

text \<open>The pointers of a tree that was found can be read, so another default makes no difference.\<close>

lemma subtree_readable:
  assumes "subtree_at p s q (read_word p a) t"
  shows "word_or (p_map p) a 0 = read_word p a"
proof (cases "word_at (p_map p) a")
  case None
  then have "\<not> subtree_at p s q (read_word p a) t" by (cases t) (auto simp: word_or_def)
  then show ?thesis using assms by blast
qed (simp add: word_or_def)

lemma TagNodeAndDescendants_tree:
  "tree_at p a i q t \<Longrightarrow> TagNodeAndDescendants p tag a i s tg = fold_option (tag_from p tag) (tree_edges s t) tg"
proof (induction t arbitrary: a i q s tg)
  case (Node l n r)
  then have n: "n = (a, i)" by (cases n) simp
  let ?l = "read_word p (a + LEFT_CHILD_IN_NODE)" and ?r = "read_word p (a + RIGHT_CHILD_IN_NODE)"
  let ?index = "TargetAllocationIndex (p_graph p) (p_directory p) i"
  have lr: "subtree_at p i a ?l l" "subtree_at p i a ?r r" using Node.prems n by simp_all
  have child: "(if c \<noteq> 0 then TagNodeAndDescendants p tag c (?index c) i tg1 else Some tg1) =
      fold_option (tag_from p tag) (tree_edges i t) tg1"
    if "subtree_at p i a c t" "\<And>a' i' q' s' tg'. tree_at p a' i' q' t \<Longrightarrow>
        TagNodeAndDescendants p tag a' i' s' tg' = fold_option (tag_from p tag) (tree_edges s' t) tg'" for c t tg1
  proof (cases t)
    case Leaf
    then show ?thesis using that(1) by simp
  next
    case (Node l' n' r')
    then have "tree_at p c (?index c) a t" "c \<noteq> 0" using that(1) by (cases n'; simp)+
    then show ?thesis using that(2) by simp
  qed
  have "TagNodeAndDescendants p tag a i s tg =
      Option.bind (tag_from p tag (s, i) tg) (\<lambda>tg1.
      Option.bind (fold_option (tag_from p tag) (tree_edges i l) tg1) (fold_option (tag_from p tag) (tree_edges i r)))"
    by (simp only: TagNodeAndDescendants.simps [of p tag a] Let_def subtree_readable [OF lr(1)] subtree_readable [OF lr(2)]
        child [OF lr(1) Node.IH(1)] child [OF lr(2) Node.IH(2)])
  then show ?case by (simp add: n fold_option_append)
qed simp

text \<open>The tree of a map or set, given its pseudo node, which holds the first node, the last and their number.\<close>

definition first_node :: "Process \<Rightarrow> addr \<Rightarrow> addr" where
  "first_node p pseudo = read_word p (pseudo + FIRST_NODE_IN_PSEUDONODE)"

definition last_node :: "Process \<Rightarrow> addr \<Rightarrow> addr" where
  "last_node p pseudo = read_word p (pseudo + LAST_NODE_IN_PSEUDONODE)"

definition number_of_nodes :: "Process \<Rightarrow> addr \<Rightarrow> addr" where
  "number_of_nodes p pseudo = read_word p (pseudo + SIZE_IN_PSEUDONODE)"

definition map_tree :: "Process \<Rightarrow> addr \<Rightarrow> nat \<Rightarrow> addr \<Rightarrow> (addr \<times> nat) tree \<Rightarrow> bool" where
  "map_tree p root rootIndex pseudo t \<longleftrightarrow>
     tree_at p root rootIndex pseudo t \<and> height t \<le> 128 \<and> size t = unat (number_of_nodes p pseudo) \<and>
     first_node p pseudo \<in> addresses t \<and> last_node p pseudo \<in> addresses t"

lemma CheckAllMapOrSetNodes_outcome:
  assumes mt: "mt_pseudoNode mt = pseudo" "mt_firstNode mt = first_node p pseudo" "mt_lastNode mt = last_node p pseudo"
      "mt_mapOrSetSize mt = number_of_nodes p pseudo" "\<not> mt_firstNodeVisited mt" "\<not> mt_lastNodeVisited mt"
    and S: "number_of_nodes p pseudo \<noteq> - 1"
  shows "\<exists>fv lv. CheckAllMapOrSetNodes p root i (mt, tg) =
    map_option (Pair (mt\<lparr>mt_firstNodeVisited := fv, mt_lastNodeVisited := lv\<rparr>))
      (if \<exists>t. map_tree p root i pseudo t
       then fold_option (tag_from p (mt_nodeTagIndex mt))
              (tree_edges (mt_pseudoNodeIndex mt) (THE t. map_tree p root i pseudo t)) tg
       else Some tg)"
proof -
  obtain b v fv lv where c: "CheckNodeAndDescendants p mt 128 root i pseudo (0, False, False) = (b, v, fv, lv)"
    by (metis surj_pair)
  have f: "finds mt (tree_at p root i pseudo) 128 0 False False (b, v, fv, lv)"
    unfolding c [symmetric] by (rule finds_node) (simp_all add: mt S)
  have tree: "b \<and> v = number_of_nodes p pseudo \<and> fv \<and> lv \<longleftrightarrow> map_tree p root i pseudo t"
    if "tree_at p root i pseudo t" for t
  proof
    assume *: "b \<and> v = number_of_nodes p pseudo \<and> fv \<and> lv"
    then obtain t' where t': "tree_at p root i pseudo t'" "height t' \<le> 128" "size t' \<le> unat (number_of_nodes p pseudo)"
      "(v, fv, lv) = visited mt t' (0, False, False)"
      using f by (auto simp: finds_def mt)
    then have "t' = t" using that tree_unique by blast
    moreover have "unat v = size t'"
      using unat_visited [of 0 t' "number_of_nodes p pseudo"] t'(3,4) by (simp add: visited_def)
    ultimately show "map_tree p root i pseudo t" using * t' by (simp add: map_tree_def visited_def mt)
  next
    assume *: "map_tree p root i pseudo t"
    then have "tree_at p root i pseudo t" "height t \<le> 128" "\<not> unat (number_of_nodes p pseudo) < unat (0 :: addr) + size t"
      by (simp_all add: map_tree_def)
    then have b: b using f unfolding finds_def prod.case mt by metis
    then obtain t' where t': "tree_at p root i pseudo t'" "(v, fv, lv) = visited mt t' (0, False, False)"
      using f by (auto simp: finds_def)
    then have "t' = t" using that tree_unique by blast
    then show "b \<and> v = number_of_nodes p pseudo \<and> fv \<and> lv" using b t'(2) * by (simp add: visited_def map_tree_def mt)
  qed
  show ?thesis
  proof (cases "b \<and> v = number_of_nodes p pseudo \<and> fv \<and> lv")
    case True
    then obtain t where t: "tree_at p root i pseudo t" using f by (auto simp: finds_def)
    then have m: "map_tree p root i pseudo t" using True tree by blast
    then have "(THE t. map_tree p root i pseudo t) = t"
      by (rule the_equality) (use t tree_unique map_tree_def in blast)
    then show ?thesis
      using True m c TagNodeAndDescendants_tree [OF t] by (auto simp: CheckAllMapOrSetNodes_def mt Let_def)
  next
    case False
    then have "\<not> map_tree p root i pseudo t" for t using tree [of t] by (auto simp: map_tree_def)
    then show ?thesis using False c by (auto simp: CheckAllMapOrSetNodes_def mt Let_def)
  qed
qed

section \<open>What a root node is\<close>

text \<open>The words of an allocation, its index and its address, and what memory must hold at the pseudo node.\<close>

definition looks_like_root :: "Process \<Rightarrow> addr list \<Rightarrow> addr \<Rightarrow> bool" where
  "looks_like_root p ws address \<longleftrightarrow>
     5 \<le> length ws \<and> ws ! 0 AND 0xfe = 0 \<and> ws ! 1 \<noteq> 0 \<and> \<not> misaligned (ws ! 1) \<and> \<not> misaligned (ws ! 2) \<and>
     \<not> misaligned (ws ! 3) \<and> read_word p (ws ! 1) AND 0xfe = 0 \<and> read_word p (ws ! 1 + ROOT_IN_PSEUDONODE) = address \<and>
     first_node p (ws ! 1) \<noteq> 0 \<and> \<not> misaligned (first_node p (ws ! 1)) \<and>
     last_node p (ws ! 1) \<noteq> 0 \<and> \<not> misaligned (last_node p (ws ! 1)) \<and>
     (ws ! 2 = 0 \<longleftrightarrow> first_node p (ws ! 1) = address) \<and> (ws ! 3 = 0 \<longleftrightarrow> last_node p (ws ! 1) = address) \<and>
     number_of_nodes p (ws ! 1) \<noteq> 0 \<and> read_word p (first_node p (ws ! 1) + LEFT_CHILD_IN_NODE) = 0 \<and>
     read_word p (last_node p (ws ! 1) + RIGHT_CHILD_IN_NODE) = 0"

text \<open>The nodes of the map or set of which an allocation is the root, each with its parent.\<close>

definition map_or_set_nodes :: "Process \<Rightarrow> addr list \<Rightarrow> nat \<Rightarrow> addr \<Rightarrow> (nat \<times> nat) list \<Rightarrow> bool" where
  "map_or_set_nodes p ws i address nodes \<longleftrightarrow>
     looks_like_root p ws address \<and>
     (let holder = SourceAllocationIndex (p_graph p) (p_directory p) i (ws ! 1) in
      if number_of_nodes p (ws ! 1) = 1 then ws ! 2 = 0 \<and> ws ! 3 = 0 \<and> nodes = [(holder, i)]
      else \<exists>t. map_tree p address i (ws ! 1) t \<and> nodes = tree_edges holder t)"

lemma map_tree_unique: "map_tree p a i q t \<Longrightarrow> map_tree p a i q t' \<Longrightarrow> t = t'"
  by (auto simp: map_tree_def intro: tree_unique)

lemma nodes_unique:
  "map_or_set_nodes p ws i a nodes \<Longrightarrow> map_or_set_nodes p ws i a nodes' \<Longrightarrow> nodes = nodes'"
  by (auto simp: map_or_set_nodes_def Let_def split: if_splits dest: map_tree_unique)

lemma map_or_set_nodes_index:
  assumes "map_or_set_nodes p ws i a nodes" "i < NumAllocations (p_directory p)" "e \<in> set nodes"
  shows "snd e < NumAllocations (p_directory p)"
proof (cases "number_of_nodes p (ws ! 1) = 1")
  case False
  then obtain s t where "tree_at p a i (ws ! 1) t" "nodes = tree_edges s t"
    using assms(1) unfolding map_or_set_nodes_def map_tree_def Let_def by auto
  then show ?thesis using tree_indices assms(3) by blast
qed (use assms in \<open>auto simp: map_or_set_nodes_def Let_def\<close>)

definition after_quick :: "Process \<Rightarrow> addr list \<Rightarrow> nat \<Rightarrow> MapOrSetTagger \<Rightarrow> MapOrSetTagger" where
  "after_quick p ws i mt =
     mt\<lparr>mt_pseudoNode := ws ! 1, mt_leftChild := ws ! 2, mt_rightChild := ws ! 3, mt_firstNode := first_node p (ws ! 1),
        mt_firstNodeVisited := False, mt_lastNode := last_node p (ws ! 1), mt_lastNodeVisited := False,
        mt_mapOrSetSize := number_of_nodes p (ws ! 1),
        mt_pseudoNodeIndex := SourceAllocationIndex (p_graph p) (p_directory p) i (ws ! 1)\<rparr>"

lemma after_quick_simps [simp]:
  "mt_pseudoNode (after_quick p ws i mt) = ws ! 1" "mt_firstNode (after_quick p ws i mt) = first_node p (ws ! 1)"
  "mt_lastNode (after_quick p ws i mt) = last_node p (ws ! 1)" "\<not> mt_firstNodeVisited (after_quick p ws i mt)"
  "\<not> mt_lastNodeVisited (after_quick p ws i mt)" "mt_mapOrSetSize (after_quick p ws i mt) = number_of_nodes p (ws ! 1)"
  "mt_pseudoNodeIndex (after_quick p ws i mt) = SourceAllocationIndex (p_graph p) (p_directory p) i (ws ! 1)"
  "mt_nodeTagIndex (after_quick p ws i mt) = mt_nodeTagIndex mt"
  by (simp_all add: after_quick_def)

lemma quick_check_outcome:
  "looks_like_root p ws a \<Longrightarrow> quick_check p ws i a (mt, tg) =
     (if number_of_nodes p (ws ! 1) = 1 then
        if ws ! 2 = 0 \<and> ws ! 3 = 0 then
          map_option (\<lambda>tg'. ((after_quick p ws i mt, tg'), True))
            (tag_from p (mt_nodeTagIndex mt) (SourceAllocationIndex (p_graph p) (p_directory p) i (ws ! 1), i) tg)
        else Some ((after_quick p ws i mt, tg), True)
      else Some ((after_quick p ws i mt, tg), False))"
  "\<not> looks_like_root p ws a \<Longrightarrow> \<exists>mt'. quick_check p ws i a (mt, tg) = Some ((mt', tg), True)"
proof -
  note defs = quick_check_def looks_like_root_def after_quick_def first_node_def last_node_def number_of_nodes_def
    MIN_NODE_SIZE_IN_OFFSETS_def NUM_OFFSETS_BEFORE_PARENT_def NUM_OFFSETS_BEFORE_LEFT_CHILD_def
    NUM_OFFSETS_BEFORE_RIGHT_CHILD_def
  show "quick_check p ws i a (mt, tg) =
     (if number_of_nodes p (ws ! 1) = 1 then
        if ws ! 2 = 0 \<and> ws ! 3 = 0 then
          map_option (\<lambda>tg'. ((after_quick p ws i mt, tg'), True))
            (tag_from p (mt_nodeTagIndex mt) (SourceAllocationIndex (p_graph p) (p_directory p) i (ws ! 1), i) tg)
        else Some ((after_quick p ws i mt, tg), True)
      else Some ((after_quick p ws i mt, tg), False))" if "looks_like_root p ws a"
    using that by (simp add: defs Let_def)
  show "\<exists>mt'. quick_check p ws i a (mt, tg) = Some ((mt', tg), True)" if "\<not> looks_like_root p ws a"
    using that by (auto simp add: defs Let_def)
qed

lemma offer_all_single:
  shows "call QUICK_INITIAL_CHECK t s = Some (s1, True) \<Longrightarrow> offer_all call [t] s = Some s1"
    and "call QUICK_INITIAL_CHECK t s = Some (s1, False) \<Longrightarrow> call MEDIUM_CHECK t s1 = Some (s2, b2) \<Longrightarrow>
      (\<not> b2 \<Longrightarrow> call SLOW_CHECK t s2 = Some (s3, True)) \<Longrightarrow> offer_all call [t] s = Some (if b2 then s2 else s3)"
  by (simp_all add: offer_all_def all_phases_def offer_def)

lemma TagFromRootNode_phases:
  assumes "\<not> IsStronglyTagged (tg_holder tg) i"
  shows "image_offsets (p_map p) ci = Value ws \<Longrightarrow>
      TagFromRootNode p ci i QUICK_INITIAL_CHECK al (mt, tg) = quick_check p ws i (al_Address al) (mt, tg)"
    "TagFromRootNode p ci i MEDIUM_CHECK al (mt, tg) =
       (if mt_mapOrSetSize mt \<le> 7 then map_option (\<lambda>s. (s, True)) (CheckAllMapOrSetNodes p (al_Address al) i (mt, tg))
        else Some ((mt, tg), False))"
    "TagFromRootNode p ci i SLOW_CHECK al (mt, tg) = map_option (\<lambda>s. (s, True)) (CheckAllMapOrSetNodes p (al_Address al) i (mt, tg))"
  using assms by (simp_all add: TagFromRootNode_def)

lemma MapOrSet_reads_image: "reads_image (p_map p) d (MapOrSetAllocationsTagger p)"
proof -
  have "TagFromRootNode p ci i = TagFromRootNode p ci' i"
    if "image_offsets (p_map p) ci = image_offsets (p_map p) ci'" for ci ci' i
    unfolding TagFromRootNode_def that ..
  moreover have "image_offsets (p_map p) ci = image_offsets (p_map p) ci'"
    if "image_ok (p_map p) d ci" "image_ok (p_map p) d ci'" "ci_index ci = ci_index ci'" for ci ci'
    using that by (simp add: image_ok_def shows_allocation_def)
  ultimately have "TagFromRootNode p ci i = TagFromRootNode p ci' i"
    if "image_ok (p_map p) d ci" "image_ok (p_map p) d ci'" "ci_index ci = ci_index ci'" for ci ci' i
    using that by blast
  then have "TagFromAllocation (MapOrSetAllocationsTagger p) ci i = TagFromAllocation (MapOrSetAllocationsTagger p) ci' i"
    if "image_ok (p_map p) d ci" "image_ok (p_map p) d ci'" "ci_index ci = ci_index ci'" for ci ci' i
    unfolding MapOrSetAllocationsTagger_def Tagger.simps using that by metis
  moreover have "TagFromReferenced (MapOrSetAllocationsTagger p) ci i = TagFromReferenced (MapOrSetAllocationsTagger p) ci' i"
    "tagger_MarkFavoredReferences (MapOrSetAllocationsTagger p) ci i = tagger_MarkFavoredReferences (MapOrSetAllocationsTagger p) ci' i"
    for ci ci' i
    unfolding MapOrSetAllocationsTagger_def Tagger.simps by (rule defaults_image)+
  ultimately show ?thesis unfolding reads_image_def by metis
qed

section \<open>Properties\<close>

text \<open>
  C26: Offered the four phases on an allocation, the tagger always returns.  If the allocation is not strongly
  tagged before and is the root of a map or set, that is, if its words and those of the pseudo node fit and the
  pointers form a finite tree of height at most 128 with parent pointers back, with the number of nodes that
  the pseudo node gives, among them the first and the last, then exactly the nodes of the tree that are not
  strongly tagged become strongly tagged as nodes, parents first, and the edges from their parents favored.
  Otherwise no tag and no edge changes.
\<close>

theorem MapOrSetAllocationsTagger_correct:
  assumes "process_ok p" "tagging_ok p tg" "strong_tag tg (mt_nodeTagIndex mt)" "i < NumAllocations (p_directory p)"
    and ws: "image_offsets (p_map p) ci = Value ws" and S: "number_of_nodes p (ws ! 1) \<noteq> - 1"
  shows "\<exists>mt' tg'.
      offer_all (\<lambda>phase t. TagFromAllocation t ci i phase al isUnsigned) [MapOrSetAllocationsTagger p] (mt, tg) = Some (mt', tg') \<and>
      tagging_ok p tg' \<and>
      (if \<not> IsStronglyTagged (tg_holder tg) i \<and> (\<exists>nodes. map_or_set_nodes p ws i (al_Address al) nodes) then
         \<exists>nodes. map_or_set_nodes p ws i (al_Address al) nodes \<and>
           fold_option (tag_from p (mt_nodeTagIndex mt)) nodes tg = Some tg' \<and>
           retagged (snd ` set nodes) (mt_nodeTagIndex mt) tg tg'
       else tg' = tg)"
proof -
  let ?a = "al_Address al" and ?tag = "mt_nodeTagIndex mt"
  let ?call = "\<lambda>phase t. TagFromAllocation t ci i phase al isUnsigned"
  have call: "?call phase (MapOrSetAllocationsTagger p) s = TagFromRootNode p ci i phase al s" for phase s
    by (simp add: MapOrSetAllocationsTagger_def)
  have tagged: "\<exists>tg'. fold_option (tag_from p ?tag) nodes tg = Some tg' \<and> tagging_ok p tg' \<and> retagged (snd ` set nodes) ?tag tg tg'"
    if "map_or_set_nodes p ws i ?a nodes" for nodes
    using tag_all_outcome [OF assms(1-3), of nodes] map_or_set_nodes_index [OF that assms(4)] by blast
  consider (strong) "IsStronglyTagged (tg_holder tg) i"
    | (other) "\<not> IsStronglyTagged (tg_holder tg) i" "\<not> looks_like_root p ws ?a"
    | (one) "\<not> IsStronglyTagged (tg_holder tg) i" "looks_like_root p ws ?a" "number_of_nodes p (ws ! 1) = 1"
    | (more) "\<not> IsStronglyTagged (tg_holder tg) i" "looks_like_root p ws ?a" "number_of_nodes p (ws ! 1) \<noteq> 1" by blast
  then show ?thesis
  proof cases
    case strong
    have "offer_all ?call [MapOrSetAllocationsTagger p] (mt, tg) = Some (mt, tg)"
      by (rule offer_all_single(1)) (simp_all add: call TagFromRootNode_def strong)
    then show ?thesis using strong assms(2) by simp
  next
    case other
    obtain mt' where "quick_check p ws i ?a (mt, tg) = Some ((mt', tg), True)" using quick_check_outcome(2) [OF other(2)] by blast
    then have "offer_all ?call [MapOrSetAllocationsTagger p] (mt, tg) = Some (mt', tg)"
      by (intro offer_all_single(1)) (simp_all add: call TagFromRootNode_def other(1) ws)
    then show ?thesis using other assms(2) by (simp add: map_or_set_nodes_def)
  next
    case one
    let ?nodes = "[(SourceAllocationIndex (p_graph p) (p_directory p) i (ws ! 1), i)]"
    let ?leaf = "ws ! 2 = 0 \<and> ws ! 3 = 0"
    have n: "map_or_set_nodes p ws i ?a nodes \<longleftrightarrow> ?leaf \<and> nodes = ?nodes" for nodes
      using one by (auto simp: map_or_set_nodes_def Let_def)
    obtain tg' where tg': "?leaf \<Longrightarrow> fold_option (tag_from p ?tag) ?nodes tg = Some tg' \<and> tagging_ok p tg' \<and>
        retagged (snd ` set ?nodes) ?tag tg tg'" "\<not> ?leaf \<Longrightarrow> tg' = tg"
      using tagged [of ?nodes] n by (cases ?leaf) auto
    have "tag_from p ?tag (SourceAllocationIndex (p_graph p) (p_directory p) i (ws ! 1), i) tg = Some tg'" if ?leaf
      using tg'(1) [OF that] by (cases "tag_from p ?tag (SourceAllocationIndex (p_graph p) (p_directory p) i (ws ! 1), i) tg") simp_all
    then have q: "quick_check p ws i ?a (mt, tg) = Some ((after_quick p ws i mt, tg'), True)"
      using tg'(2) unfolding quick_check_outcome(1) [OF one(2)] if_P [OF one(3)] by (cases ?leaf) (simp, simp only: if_False not_False_eq_True True_implies_equals)
    have "offer_all ?call [MapOrSetAllocationsTagger p] (mt, tg) =
        Some (after_quick p ws i mt, tg')"
      by (rule offer_all_single(1)) (simp_all add: call TagFromRootNode_def one(1) ws q)
    then show ?thesis using one(1) n tg' assms(2) by (cases ?leaf) simp_all
  next
    case more
    let ?mt = "after_quick p ws i mt" and ?s = "SourceAllocationIndex (p_graph p) (p_directory p) i (ws ! 1)"
    let ?tree = "map_tree p ?a i (ws ! 1)"
    have n: "map_or_set_nodes p ws i ?a nodes \<longleftrightarrow> (\<exists>t. ?tree t \<and> nodes = tree_edges ?s t)" for nodes
      using more by (auto simp: map_or_set_nodes_def Let_def)
    have the: "(THE t. ?tree t) = t" if "?tree t" for t by (rule the_equality) (use that map_tree_unique in blast)+
    obtain fv lv where c: "CheckAllMapOrSetNodes p ?a i (?mt, tg) =
        map_option (Pair (?mt\<lparr>mt_firstNodeVisited := fv, mt_lastNodeVisited := lv\<rparr>))
          (if \<exists>t. ?tree t then fold_option (tag_from p ?tag) (tree_edges ?s (THE t. ?tree t)) tg else Some tg)"
      using CheckAllMapOrSetNodes_outcome [of ?mt "ws ! 1" p ?a i tg, OF _ _ _ _ _ _ S]
      unfolding after_quick_simps(1,2,3,6,7,8) using after_quick_simps(4,5) by blast
    let ?mt' = "?mt\<lparr>mt_firstNodeVisited := fv, mt_lastNodeVisited := lv\<rparr>"
    have "\<exists>tg'. CheckAllMapOrSetNodes p ?a i (?mt, tg) = Some (?mt', tg') \<and> tagging_ok p tg' \<and>
        (if \<exists>t. ?tree t then \<exists>nodes. map_or_set_nodes p ws i ?a nodes \<and>
           fold_option (tag_from p ?tag) nodes tg = Some tg' \<and> retagged (snd ` set nodes) ?tag tg tg' else tg' = tg)"
    proof (cases "\<exists>t. ?tree t")
      case True
      then obtain t where t: "?tree t" by blast
      then have m: "map_or_set_nodes p ws i ?a (tree_edges ?s t)" using n by blast
      obtain tg' where tg': "fold_option (tag_from p ?tag) (tree_edges ?s t) tg = Some tg'" "tagging_ok p tg'"
        "retagged (snd ` set (tree_edges ?s t)) ?tag tg tg'" using tagged [OF m] by blast
      have "CheckAllMapOrSetNodes p ?a i (?mt, tg) = Some (?mt', tg')"
        using c unfolding if_P [OF True] the [OF t] tg'(1) by simp
      then show ?thesis unfolding if_P [OF True] using m tg' by blast
    qed (use c assms(2) in simp)
    then obtain tg' where tg': "CheckAllMapOrSetNodes p ?a i (?mt, tg) = Some (?mt', tg')" "tagging_ok p tg'"
      "if \<exists>t. ?tree t then \<exists>nodes. map_or_set_nodes p ws i ?a nodes \<and>
         fold_option (tag_from p ?tag) nodes tg = Some tg' \<and> retagged (snd ` set nodes) ?tag tg tg' else tg' = tg" by blast
    have q: "quick_check p ws i ?a (mt, tg) = Some ((?mt, tg), False)"
      using more(3) by (simp add: quick_check_outcome(1) [OF more(2)])
    let ?small = "number_of_nodes p (ws ! 1) \<le> 7"

    have "offer_all ?call [MapOrSetAllocationsTagger p] (mt, tg) =
        Some (if ?small then (if ?small then (?mt', tg') else (?mt, tg)) else (?mt', tg'))"
    proof (rule offer_all_single(2))
      show "?call QUICK_INITIAL_CHECK (MapOrSetAllocationsTagger p) (mt, tg) = Some ((?mt, tg), False)"
        unfolding call TagFromRootNode_phases(1) [OF more(1) ws] q ..
      show "?call MEDIUM_CHECK (MapOrSetAllocationsTagger p) (?mt, tg) =
          Some (if ?small then (?mt', tg') else (?mt, tg), ?small)"
        unfolding call TagFromRootNode_phases(2) [OF more(1)] after_quick_simps tg'(1) by (cases ?small) simp_all
      show "?call SLOW_CHECK (MapOrSetAllocationsTagger p) (if ?small then (?mt', tg') else (?mt, tg)) = Some ((?mt', tg'), True)"
        if "\<not> ?small"
        unfolding if_not_P [OF that] call TagFromRootNode_phases(3) [OF more(1)] tg'(1) by simp
    qed
    then have "offer_all ?call [MapOrSetAllocationsTagger p] (mt, tg) = Some (?mt', tg')" by simp
    moreover have "(\<exists>nodes. map_or_set_nodes p ws i ?a nodes) \<longleftrightarrow> (\<exists>t. ?tree t)" using n by blast
    ultimately show ?thesis using more(1) tg'(2,3) by simp
  qed
qed

text \<open>A set of three nodes: the pseudo node at 0x1000, the root at 0x1050, its children at 0x1028 and 0x1078.\<close>

definition set_process :: Process where
  "set_process = example_process
     [0, 0x1050, 0x1028, 0x1078, 3, 0, 0x1050, 0, 0, 7, 1, 0x1000, 0x1028, 0x1078, 8, 0, 0x1050, 0, 0, 9]
     [(0x1000, 40), (0x1028, 40), (0x1050, 40), (0x1078, 40)] [[1, 2, 3], [2], [0, 1, 3], [2]]"

lemma set_process_reads:
  "read_word set_process 0x1000 = 0" "read_word set_process 0x1008 = 0x1050" "read_word set_process 0x1010 = 0x1028"
  "read_word set_process 0x1018 = 0x1078" "read_word set_process 0x1020 = 3"
  "read_word set_process 0x1028 = 0" "read_word set_process 0x1030 = 0x1050" "read_word set_process 0x1038 = 0"
  "read_word set_process 0x1040 = 0" "read_word set_process 0x1050 = 1" "read_word set_process 0x1058 = 0x1000"
  "read_word set_process 0x1060 = 0x1028" "read_word set_process 0x1068 = 0x1078" "read_word set_process 0x1078 = 0"
  "read_word set_process 0x1080 = 0x1050" "read_word set_process 0x1088 = 0" "read_word set_process 0x1090 = 0"
  by (simp_all add: set_process_def word_or_def words_word_at)

lemma set_process_graph:
  "TargetAllocationIndex (p_graph set_process) (p_directory set_process) 2 0x1028 = 1"
  "TargetAllocationIndex (p_graph set_process) (p_directory set_process) 2 0x1078 = 3"
  "SourceAllocationIndex (p_graph set_process) (p_directory set_process) 2 0x1000 = 0"
  by (simp_all add: set_process_def TargetAllocationIndex_def SourceAllocationIndex_def address_search_def starts_def
      columns_def index_search.simps Let_def upt_rec)

lemma set_process_ok: "process_ok set_process"
  unfolding set_process_def by (rule example_process_ok) (simp_all add: good_rows_def)

definition set_tree_nodes :: "(addr \<times> nat) tree" where
  "set_tree_nodes = \<langle>\<langle>\<langle>\<rangle>, (0x1028, 1), \<langle>\<rangle>\<rangle>, (0x1050, 2), \<langle>\<langle>\<rangle>, (0x1078, 3), \<langle>\<rangle>\<rangle>\<rangle>"

lemma set_process_tree: "map_tree set_process 0x1050 2 0x1000 set_tree_nodes"
proof -
  have "NumAllocations (p_directory set_process) = 4" by (simp add: set_process_def)
  moreover have "node_ok set_process 0x1028 1 0x1050" "node_ok set_process 0x1050 2 0x1000" "node_ok set_process 0x1078 3 0x1050"
    unfolding node_ok_def mt_constants
    by (simp_all add: set_process_def word_or_def words_word_at)
  ultimately show ?thesis
    by (simp add: map_tree_def set_tree_nodes_def mt_constants first_node_def last_node_def number_of_nodes_def
        set_process_reads set_process_graph)
qed

theorem MapOrSetAllocationsTagger_correct_witness:
  "\<exists>mt th mt' tg'.
     MapOrSetTagger_new (TagHolder_new 4) = Some (mt, th) \<and>
     offer_all (\<lambda>phase t. TagFromAllocation t (words_image [1, 0x1000, 0x1028, 0x1078, 8]) 2 phase
         (Allocation_new 0x1050 40 True 0 False) True)
       [MapOrSetAllocationsTagger set_process] (mt, one_tag set_process ''%MapOrSetNode'') = Some (mt', tg') \<and>
     tags (tg_holder tg') = [0, 1, 1, 1]"
proof -
  let ?ws = "[1, 0x1000, 0x1028, 0x1078, 8] :: addr list" and ?al = "Allocation_new 0x1050 40 True 0 False"
  let ?tg = "one_tag set_process ''%MapOrSetNode''"
  have N: "NumAllocations (p_directory set_process) = 4" by (simp add: set_process_def)
  obtain mt th where mt: "MapOrSetTagger_new (TagHolder_new 4) = Some (mt, th)" "mt_nodeTagIndex mt = 1"
    by (auto simp: MapOrSetTagger_new_def RegisterTag_def TagHolder_new_def)
  have n: "number_of_nodes set_process 0x1000 = 3" by (simp add: number_of_nodes_def mt_constants set_process_reads)
  have root: "looks_like_root set_process ?ws 0x1050"
    by (simp add: looks_like_root_def first_node_def last_node_def n mt_constants set_process_reads)
  have nodes: "map_or_set_nodes set_process ?ws 2 0x1050 nodes \<longleftrightarrow> nodes = [(0, 2), (2, 1), (2, 3)]" for nodes
  proof -
    have "map_or_set_nodes set_process ?ws 2 0x1050 nodes \<longleftrightarrow>
        (\<exists>t. map_tree set_process 0x1050 2 0x1000 t \<and> nodes = tree_edges 0 t)"
      using root by (simp add: map_or_set_nodes_def n set_process_graph)
    moreover have "tree_edges 0 set_tree_nodes = [(0, 2), (2, 1), (2, 3)]" by (simp add: set_tree_nodes_def)
    ultimately show ?thesis using set_process_tree map_tree_unique by metis
  qed
  note ok = one_tag_ok [OF set_process_ok, of "''%MapOrSetNode''"]
  have ci: "image_offsets (p_map set_process) (words_image ?ws) = Value ?ws" by (rule words_image_offsets) simp
  have pre: "strong_tag ?tg (mt_nodeTagIndex mt)" "2 < NumAllocations (p_directory set_process)"
    "number_of_nodes set_process (?ws ! 1) \<noteq> - 1" using ok(2) mt(2) N n by simp_all
  from MapOrSetAllocationsTagger_correct [OF set_process_ok ok(1) pre(1,2) ci pre(3), of ?al True]
  obtain mt' tg' where r: "offer_all (\<lambda>phase t. TagFromAllocation t (words_image ?ws) 2 phase ?al True)
      [MapOrSetAllocationsTagger set_process] (mt, ?tg) = Some (mt', tg')"
    "retagged (snd ` set [(0 :: nat, 2), (2, 1), (2, 3)]) 1 ?tg tg'"
    using ok(4) by (auto simp: nodes mt(2))
  have "tags (tg_holder tg') = [0, 1, 1, 1]"
    using r(2) ok(3-5) N by (simp add: retagged_def upt_rec)
  then show ?thesis using mt(1) r(1) by blast
qed

end
