(* ===== verification/Vector_Tagger.thy ===== *)
theory Vector_Tagger
  imports Example_Process Graph_Queries
begin

text \<open>
  The class \<open>VectorAllocationsTagger\<close> of CPlusPlus/VectorAllocationsTagger.h: an allocation is the body of a
  \<open>std::vector\<close> if three consecutive words on the stack, in static memory or in another allocation are its
  address, the end of the elements in use and the end of the capacity.
\<close>

section \<open>The tagger\<close>

text \<open>What the tagger refers to: the process, the signatures, the smallest requests of the finders and its tag.\<close>

record VectorTagger =
  vt_process :: Process
  vt_signatures :: SignatureDirectory
  vt_finderMin :: "nat \<Rightarrow> addr \<Rightarrow> addr"
  vt_tagIndex :: nat

definition VectorTagger_new ::
  "Process \<Rightarrow> SignatureDirectory \<Rightarrow> (nat \<Rightarrow> addr \<Rightarrow> addr) \<Rightarrow> TagHolder \<Rightarrow> (VectorTagger \<times> TagHolder) option" where
  "VectorTagger_new p sd finderMin th =
     map_option (\<lambda>(th', tag). (\<lparr>vt_process = p, vt_signatures = sd, vt_finderMin = finderMin, vt_tagIndex = tag\<rparr>, th'))
       (RegisterTag th ''%VectorBody'' False True)"

definition NUM_OFFSETS_IN_VECTOR :: nat where "NUM_OFFSETS_IN_VECTOR = 3"

definition align_down :: "addr \<Rightarrow> addr" where
  "align_down a = a AND NOT (sizeof_Offset - 1)"

definition MarkTaintedOutgoingEdges :: "Process \<Rightarrow> nat \<Rightarrow> addr \<Rightarrow> addr \<Rightarrow> Tagging \<Rightarrow> Tagging option" where
  "MarkTaintedOutgoingEdges p bodyIndex bodyAddress useLimit tg =
     Option.bind (taint_all p bodyIndex tg)
       (fold_option (untaint_word p True bodyIndex) (word_addrs bodyAddress (align_down useLimit)))"

text \<open>The loop over the anchors of a body; an anchor is skipped if its words do not fit.\<close>

fun check_anchors :: "VectorTagger \<Rightarrow> nat \<Rightarrow> Allocation \<Rightarrow> addr list \<Rightarrow> Tagging \<Rightarrow> (Tagging \<times> bool) option" where
  "check_anchors vt bodyIndex bodyAllocation [] tg = Some (tg, False)"
| "check_anchors vt bodyIndex bodyAllocation (anchor # anchors) tg =
     (let bodyAddress = al_Address bodyAllocation;
          bodyLimit = bodyAddress + al_Size bodyAllocation;
          min = MinRequestSize (vt_finderMin vt) (p_directory (vt_process vt)) bodyIndex;
          minCapacity = (if min < 1 then 1 else min);
          continue = check_anchors vt bodyIndex bodyAllocation anchors tg in
      case image_words (p_map (vt_process vt)) anchor NUM_OFFSETS_IN_VECTOR of
        None \<Rightarrow> None
      | Some None \<Rightarrow> continue
      | Some (Some check) \<Rightarrow>
          if check ! 0 \<noteq> bodyAddress then continue
          else let useLimit = check ! 1; capacityLimit = check ! 2 in
          if useLimit < bodyAddress then continue
          else if capacityLimit < useLimit \<or> capacityLimit > bodyLimit \<or> capacityLimit - bodyAddress < minCapacity then continue
          else
            Option.bind (tag_allocation (vt_process vt) bodyIndex (vt_tagIndex vt) tg) (\<lambda>tg1.
              map_option (\<lambda>tg2. (tg2, True)) (MarkTaintedOutgoingEdges (vt_process vt) bodyIndex bodyAddress useLimit tg1)))"

definition CheckVectorBodyAnchorIn ::
  "VectorTagger \<Rightarrow> nat \<Rightarrow> Allocation \<Rightarrow> addr list option \<Rightarrow> Tagging \<Rightarrow> (Tagging \<times> bool) option" where
  "CheckVectorBodyAnchorIn vt bodyIndex bodyAllocation anchors tg =
     (case anchors of None \<Rightarrow> Some (tg, False) | Some as \<Rightarrow> check_anchors vt bodyIndex bodyAllocation as tg)"

text \<open>
  The test of one position in an allocation: the words from there on and the unresolved target of the first of
  them; the two conditions that make the loop pass over the target come first.
\<close>

definition is_embedded_vector :: "VectorTagger \<Rightarrow> Tagging \<Rightarrow> addr \<Rightarrow> addr \<Rightarrow> addr \<Rightarrow> nat \<Rightarrow> bool" where
  "is_embedded_vector vt tg w0 useLimit capacityLimit bodyIndex \<longleftrightarrow>
     bodyIndex \<noteq> NumAllocations (p_directory (vt_process vt)) \<and>
     GetTagIndex (tg_holder tg) bodyIndex = Some 0 \<and>
     (case AllocationAt (p_directory (vt_process vt)) bodyIndex of
        None \<Rightarrow> False
      | Some allocation \<Rightarrow>
          let address = al_Address allocation; bodyLimit = address + al_Size allocation in
          w0 = address \<and> \<not> useLimit < address \<and>
          \<not> (capacityLimit < useLimit \<or> capacityLimit > bodyLimit \<or> capacityLimit = address \<or>
             capacityLimit - address < MinRequestSize (vt_finderMin vt) (p_directory (vt_process vt)) bodyIndex) \<and>
          \<not> (bodyLimit - address \<ge> sizeof_Offset \<and>
             IsKnownVtablePointer (vt_signatures vt) (read_word (vt_process vt) address)))"

text \<open>The loop over the positions, which passes over the words of a vector that was found.\<close>

fun CheckEmbeddedVectors :: "VectorTagger \<Rightarrow> nat \<Rightarrow> addr list \<Rightarrow> nat list \<Rightarrow> Tagging \<Rightarrow> Tagging option" where
  "CheckEmbeddedVectors vt index (w0 # w1 # w2 # ws) (u # us) tg =
     (if is_embedded_vector vt tg w0 w1 w2 u then
        Option.bind (tag_allocation (vt_process vt) u (vt_tagIndex vt) tg) (\<lambda>tg1.
        Option.bind (MarkTaintedOutgoingEdges (vt_process vt) u w0 w1 tg1) (\<lambda>tg2.
        Option.bind (set_favored (vt_process vt) index u True tg2) (\<lambda>tg3.
          CheckEmbeddedVectors vt index ws (drop 2 us) tg3)))
      else CheckEmbeddedVectors vt index (w1 # w2 # ws) us tg)"
| "CheckEmbeddedVectors vt index ws us tg = Some tg"

definition vector_TagFromAllocation ::
  "VectorTagger \<Rightarrow> ContiguousImage \<Rightarrow> nat \<Rightarrow> Phase \<Rightarrow> Allocation \<Rightarrow> bool \<Rightarrow> Tagging \<Rightarrow> (Tagging \<times> bool) option" where
  "vector_TagFromAllocation vt ci index phase allocation isUnsigned tg =
     (case phase of
        QUICK_INITIAL_CHECK \<Rightarrow>
          if GetTagIndex (tg_holder tg) index \<noteq> Some 0 then Some (tg, True)
          else
            (case (if isUnsigned then Value [] else image_offsets (p_map (vt_process vt)) ci) of
               Value ws \<Rightarrow>
                 if ws \<noteq> [] \<and> IsKnownVtablePointer (vt_signatures vt) (hd ws) then Some (tg, True)
                 else Some (tg, al_Size allocation < 2 * sizeof_Offset)
             | _ \<Rightarrow> None)
      | MEDIUM_CHECK \<Rightarrow> Some (tg, False)
      | SLOW_CHECK \<Rightarrow> Some (tg, False)
      | WEAK_CHECK \<Rightarrow>
          if GetTagIndex (tg_holder tg) index \<noteq> Some 0 then Some (tg, True)
          else
            (case CheckVectorBodyAnchorIn vt index allocation (GetStaticAnchors (p_graph (vt_process vt)) index) tg of
               None \<Rightarrow> None
             | Some (tg1, True) \<Rightarrow> Some (tg1, True)
             | Some (tg1, False) \<Rightarrow>
                 map_option (\<lambda>(tg2, found). (tg2, True))
                   (CheckVectorBodyAnchorIn vt index allocation (GetStackAnchors (p_graph (vt_process vt)) index) tg1)))"

definition vector_TagFromReferenced ::
  "VectorTagger \<Rightarrow> ContiguousImage \<Rightarrow> nat \<Rightarrow> Phase \<Rightarrow> Allocation \<Rightarrow> nat list \<Rightarrow> Tagging \<Rightarrow> (Tagging \<times> bool) option" where
  "vector_TagFromReferenced vt ci index phase allocation unresolvedOutgoing tg =
     (case phase of
        QUICK_INITIAL_CHECK \<Rightarrow> Some (tg, al_Size allocation < 3 * sizeof_Offset)
      | MEDIUM_CHECK \<Rightarrow> Some (tg, False)
      | SLOW_CHECK \<Rightarrow> Some (tg, False)
      | WEAK_CHECK \<Rightarrow>
          (case image_offsets (p_map (vt_process vt)) ci of
             Value ws \<Rightarrow> map_option (\<lambda>tg'. (tg', False)) (CheckEmbeddedVectors vt index ws unresolvedOutgoing tg)
           | _ \<Rightarrow> None))"

definition VectorAllocationsTagger :: "VectorTagger \<Rightarrow> Tagging Tagger" where
  "VectorAllocationsTagger vt =
     \<lparr>TagFromAllocation = vector_TagFromAllocation vt, TagFromReferenced = vector_TagFromReferenced vt,
      tagger_MarkFavoredReferences = default_MarkFavoredReferences\<rparr>"

section \<open>The vectors in an allocation\<close>

text \<open>Whether three words are a vector with a given body, whatever the tags.\<close>

definition vector_fits :: "VectorTagger \<Rightarrow> addr \<Rightarrow> addr \<Rightarrow> addr \<Rightarrow> nat \<Rightarrow> bool" where
  "vector_fits vt w0 useLimit capacityLimit body \<longleftrightarrow>
     (\<exists>al. AllocationAt (p_directory (vt_process vt)) body = Some al \<and> w0 = al_Address al \<and>
        w0 \<le> useLimit \<and> useLimit \<le> capacityLimit \<and> capacityLimit \<le> w0 + al_Size al \<and> capacityLimit \<noteq> w0 \<and>
        MinRequestSize (vt_finderMin vt) (p_directory (vt_process vt)) body \<le> capacityLimit - w0 \<and>
        \<not> (sizeof_Offset \<le> al_Size al \<and> IsKnownVtablePointer (vt_signatures vt) (read_word (vt_process vt) w0)))"

text \<open>
  The vectors from left to right, none of which begins inside another and no two of which share a body:
  body, address and end of the elements of each.
\<close>

fun vectors_in ::
  "(addr \<Rightarrow> addr \<Rightarrow> addr \<Rightarrow> nat \<Rightarrow> bool) \<Rightarrow> nat set \<Rightarrow> addr list \<Rightarrow> nat list \<Rightarrow> (nat \<times> addr \<times> addr) list" where
  "vectors_in fits free (w0 # w1 # w2 # ws) (u # us) =
     (if u \<in> free \<and> fits w0 w1 w2 u then (u, w0, w1) # vectors_in fits (free - {u}) ws (drop 2 us)
      else vectors_in fits free (w1 # w2 # ws) us)"
| "vectors_in fits free ws us = []"

lemma vectors_in_free: "v \<in> set (vectors_in fits free ws us) \<Longrightarrow> fst v \<in> free"
  by (induction fits free ws us rule: vectors_in.induct) (auto split: if_splits)

lemma vectors_in_distinct: "distinct (map fst (vectors_in fits free ws us))"
  by (induction fits free ws us rule: vectors_in.induct) (auto dest: vectors_in_free)

lemma vectors_in_sound:
  "(u, a, l) \<in> set (vectors_in fits free ws us) \<Longrightarrow>
     \<exists>k. k + 2 < length ws \<and> k < length us \<and> us ! k = u \<and> ws ! k = a \<and> ws ! (k + 1) = l \<and> fits a l (ws ! (k + 2)) u"
proof (induction fits free ws us rule: vectors_in.induct)
  case (1 fits free w0 w1 w2 ws x us)
  show ?case
  proof (cases "x \<in> free \<and> fits w0 w1 w2 x")
    case True
    then consider "(u, a, l) = (x, w0, w1)" | "(u, a, l) \<in> set (vectors_in fits (free - {x}) ws (drop 2 us))"
      using "1.prems" by auto
    then show ?thesis
    proof cases
      case 1
      then show ?thesis using True by (intro exI [of _ 0]) simp
    next
      case 2
      then obtain k where "k + 2 < length ws" "k < length (drop 2 us)" "drop 2 us ! k = u" "ws ! k = a" "ws ! (k + 1) = l"
        "fits a l (ws ! (k + 2)) u" using "1.IH"(1) [OF True] by blast
      then show ?thesis by (intro exI [of _ "k + 3"]) (simp add: numeral_3_eq_3)
    qed
  next
    case False
    then obtain k where "k + 2 < length (w1 # w2 # ws)" "k < length us" "us ! k = u" "(w1 # w2 # ws) ! k = a"
      "(w1 # w2 # ws) ! (k + 1) = l" "fits a l ((w1 # w2 # ws) ! (k + 2)) u"
      using "1.IH"(2) "1.prems" by auto
    then show ?thesis by (intro exI [of _ "k + 1"]) simp
  qed
qed simp_all

section \<open>What the tagger does\<close>

definition live_in_vector :: "Process \<Rightarrow> nat \<times> addr \<times> addr \<Rightarrow> nat set" where
  "live_in_vector p = (\<lambda>(body, address, useLimit). live_targets p True body (word_addrs address (align_down useLimit)))"

definition tags_vectors :: "VectorTagger \<Rightarrow> nat \<Rightarrow> (nat \<times> addr \<times> addr) list \<Rightarrow> Tagging \<Rightarrow> Tagging \<Rightarrow> bool" where
  "tags_vectors vt index vs tg tg' \<longleftrightarrow>
     tg_holder tg' = (tg_holder tg)\<lparr>tags := fold (\<lambda>v ts. ts[fst v := vt_tagIndex vt]) vs (tags (tg_holder tg))\<rparr> \<and>
     true_edges (p_graph (vt_process vt)) (tg_tainted tg') =
       fold (\<lambda>v. tainted_but_live (vt_process vt) (fst v) (live_in_vector (vt_process vt) v)) vs
         (true_edges (p_graph (vt_process vt)) (tg_tainted tg)) \<and>
     true_edges (p_graph (vt_process vt)) (tg_favored tg') =
       true_edges (p_graph (vt_process vt)) (tg_favored tg) \<union>
       all_edges (p_graph (vt_process vt)) \<inter> {index} \<times> fst ` set vs"

definition untagged :: "Tagging \<Rightarrow> nat set" where
  "untagged tg = {i. i < th_numAllocations (tg_holder tg) \<and> tags (tg_holder tg) ! i = 0}"

lemma MarkTainted_outcome:
  assumes "process_ok p" "tagging_ok p tg"
  shows "\<exists>tainted. MarkTaintedOutgoingEdges p body a l tg = Some (tg\<lparr>tg_tainted := tainted\<rparr>) \<and>
    tagging_ok p (tg\<lparr>tg_tainted := tainted\<rparr>) \<and>
    true_edges (p_graph p) tainted = tainted_but_live p body (live_in_vector p (body, a, l)) (true_edges (p_graph p) (tg_tainted tg))"
  using taint_but_live_outcome [OF assms, of body True "word_addrs a (align_down l)"]
  by (simp add: MarkTaintedOutgoingEdges_def live_in_vector_def)

lemma embedded_iff:
  assumes "process_ok (vt_process vt)" "tagging_ok (vt_process vt) tg" "u \<le> NumAllocations (p_directory (vt_process vt))"
  shows "is_embedded_vector vt tg w0 w1 w2 u \<longleftrightarrow> u \<in> untagged tg \<and> vector_fits vt w0 w1 w2 u"
proof -
  have n: "th_numAllocations (tg_holder tg) = NumAllocations (p_directory (vt_process vt))"
    using assms(2) by (simp add: tagging_ok_def)
  show ?thesis
  proof (cases "AllocationAt (p_directory (vt_process vt)) u")
    case None
    then show ?thesis by (simp add: is_embedded_vector_def vector_fits_def)
  next
    case (Some al)
    then have "u < NumAllocations (p_directory (vt_process vt))"
      by (auto simp: AllocationAt_def NumAllocations_def split: if_splits)
    then show ?thesis
      unfolding is_embedded_vector_def vector_fits_def Some Let_def untagged_def n
      by (auto simp: GetTagIndex_def n not_less)
  qed
qed

lemma CheckEmbeddedVectors_outcome:
  assumes p: "process_ok (vt_process vt)" and tag: "vt_tagIndex vt < GetNumTags (tg_holder tg)" "0 < vt_tagIndex vt"
    and tg: "tagging_ok (vt_process vt) tg" and us: "\<forall>u\<in>set us. u \<le> NumAllocations (p_directory (vt_process vt))"
  shows "\<exists>tg'. CheckEmbeddedVectors vt index ws us tg = Some tg' \<and> tagging_ok (vt_process vt) tg' \<and>
    tags_vectors vt index (vectors_in (vector_fits vt) (untagged tg) ws us) tg tg'"
  using tag tg us p
proof (induction vt index ws us tg rule: CheckEmbeddedVectors.induct)
  case (1 vt index w0 w1 w2 ws u us tg)
  note p = "1.prems"(5)
  let ?p = "vt_process vt" and ?th = "tg_holder tg" and ?tag = "vt_tagIndex vt"
  have emb: "is_embedded_vector vt tg w0 w1 w2 u \<longleftrightarrow> u \<in> untagged tg \<and> vector_fits vt w0 w1 w2 u"
    by (rule embedded_iff) (use "1.prems" p in auto)
  show ?case
  proof (cases "is_embedded_vector vt tg w0 w1 w2 u")
    case False
    then have "CheckEmbeddedVectors vt index (w0 # w1 # w2 # ws) (u # us) tg = CheckEmbeddedVectors vt index (w1 # w2 # ws) us tg"
      "vectors_in (vector_fits vt) (untagged tg) (w0 # w1 # w2 # ws) (u # us) =
       vectors_in (vector_fits vt) (untagged tg) (w1 # w2 # ws) us"
      using emb by auto
    then show ?thesis using "1.IH"(2) [OF False] "1.prems" by simp
  next
    case True
    then have u: "u \<in> untagged tg" "vector_fits vt w0 w1 w2 u" using emb by blast+
    then have un: "u < NumAllocations (p_directory ?p)" "tags ?th ! u = 0"
      using "1.prems"(3) by (simp_all add: untagged_def tagging_ok_def)
    then obtain tg1 where 1: "tag_allocation ?p u ?tag tg = Some tg1" "tagging_ok ?p tg1"
      "tg_holder tg1 = ?th\<lparr>tags := (tags ?th)[u := ?tag]\<rparr>" "tg_favored tg1 = tg_favored tg" "tg_tainted tg1 = tg_tainted tg"
      using tag_allocation_any [OF p "1.prems"(3,1), of u] by (auto simp: replaces_tag_def)
    obtain tainted where 2: "MarkTaintedOutgoingEdges ?p u w0 w1 tg1 = Some (tg1\<lparr>tg_tainted := tainted\<rparr>)"
      "tagging_ok ?p (tg1\<lparr>tg_tainted := tainted\<rparr>)"
      "true_edges (p_graph ?p) tainted = tainted_but_live ?p u (live_in_vector ?p (u, w0, w1)) (true_edges (p_graph ?p) (tg_tainted tg1))"
      using MarkTainted_outcome [OF p 1(2)] by blast
    obtain favored where 3: "ep_Set (p_graph ?p) index u True (tg_favored tg1) = Some favored" "ep_ok (p_graph ?p) favored"
      "true_edges (p_graph ?p) favored = true_edges (p_graph ?p) (tg_favored tg1) \<union> all_edges (p_graph ?p) \<inter> {(index, u)}"
      using ep_Set_outcome [of "p_graph ?p" "tg_favored tg1" index u True] p 1(2)
      by (auto simp: process_ok_def tagging_ok_def set_edges_def)
    let ?tg3 = "tg1\<lparr>tg_tainted := tainted, tg_favored := favored\<rparr>"
    have f: "set_favored ?p index u True (tg1\<lparr>tg_tainted := tainted\<rparr>) = Some ?tg3" by (simp add: set_favored_def 3(1))
    have ok3: "tagging_ok ?p ?tg3" using 2(2) 3(2) by (simp add: tagging_ok_def)
    have len: "length (tags ?th) = th_numAllocations ?th" "th_numAllocations ?th = NumAllocations (p_directory ?p)"
      using "1.prems"(3) by (simp_all add: tagging_ok_def th_ok_def)
    have free: "untagged ?tg3 = untagged tg - {u}"
      using un 1(3) len "1.prems"(2) by (auto simp: untagged_def nth_list_update)
    have num: "?tag < GetNumTags (tg_holder ?tg3)" using "1.prems"(1) 1(3) by (simp add: GetNumTags_def)
    have us': "\<forall>x\<in>set (drop 2 us). x \<le> NumAllocations (p_directory ?p)" using "1.prems"(4) by (auto dest: in_set_dropD)
    obtain tg' where tg': "CheckEmbeddedVectors vt index ws (drop 2 us) ?tg3 = Some tg'" "tagging_ok ?p tg'"
      "tags_vectors vt index (vectors_in (vector_fits vt) (untagged tg - {u}) ws (drop 2 us)) ?tg3 tg'"
      using "1.IH"(1) [OF True 1(1) 2(1) f num "1.prems"(2) ok3 us' p] unfolding free by blast
    have "CheckEmbeddedVectors vt index (w0 # w1 # w2 # ws) (u # us) tg = Some tg'"
      using True 1(1) 2(1) f tg'(1) by simp
    moreover have "tags_vectors vt index (vectors_in (vector_fits vt) (untagged tg) (w0 # w1 # w2 # ws) (u # us)) tg tg'"
      using tg'(3) u 1(3-5) 2(3) 3(3) by (auto simp: tags_vectors_def)
    ultimately show ?thesis using tg'(2) by blast
  qed
qed (simp_all add: tags_vectors_def)

text \<open>The anchors of a body: the first one at which there is a vector counts.\<close>

definition vector_anchored :: "VectorTagger \<Rightarrow> nat \<Rightarrow> Allocation \<Rightarrow> addr \<Rightarrow> addr \<Rightarrow> bool" where
  "vector_anchored vt i al anchor useLimit \<longleftrightarrow>
     (\<exists>capacityLimit. image_words (p_map (vt_process vt)) anchor 3 = Some (Some [al_Address al, useLimit, capacityLimit]) \<and>
        al_Address al \<le> useLimit \<and> useLimit \<le> capacityLimit \<and> capacityLimit \<le> al_Address al + al_Size al \<and>
        (let min = MinRequestSize (vt_finderMin vt) (p_directory (vt_process vt)) i in if min < 1 then 1 else min)
          \<le> capacityLimit - al_Address al)"

definition anchors_done :: "VectorTagger \<Rightarrow> nat \<Rightarrow> Allocation \<Rightarrow> addr list \<Rightarrow> Tagging \<Rightarrow> Tagging \<Rightarrow> bool \<Rightarrow> bool" where
  "anchors_done vt i al as tg tg' found \<longleftrightarrow> tagging_ok (vt_process vt) tg' \<and>
    (if found then \<exists>l. (\<exists>a\<in>set as. vector_anchored vt i al a l) \<and>
       tags_vectors vt (NumAllocations (p_directory (vt_process vt))) [(i, al_Address al, l)] tg tg'
     else tg' = tg \<and> (\<forall>a\<in>set as. \<forall>l. \<not> vector_anchored vt i al a l))"

lemma anchors_done_Cons:
  "anchors_done vt i al as tg tg' found \<Longrightarrow> (\<And>l. \<not> vector_anchored vt i al a l) \<Longrightarrow> anchors_done vt i al (a # as) tg tg' found"
  by (simp add: anchors_done_def split: if_splits)

lemma check_anchors_outcome:
  assumes p: "process_ok (vt_process vt)" and tag: "vt_tagIndex vt < GetNumTags (tg_holder tg)"
    and tg: "tagging_ok (vt_process vt) tg" and i: "i \<in> untagged tg"
  shows "\<exists>tg' found. check_anchors vt i al as tg = Some (tg', found) \<and> anchors_done vt i al as tg tg' found"
proof (induction as)
  case Nil
  then show ?case using tg by (intro exI [of _ tg] exI [of _ False]) (simp add: anchors_done_def)
next
  case (Cons a as)
  let ?p = "vt_process vt" and ?th = "tg_holder tg" and ?addr = "al_Address al"
  have ok: "vam_ok (p_map ?p)" using p by (simp add: process_ok_def)
  from image_words_outcome [OF ok, of 3 a] consider (none) "image_words (p_map ?p) a 3 = Some None"
    | (three) w0 w1 w2 where "image_words (p_map ?p) a 3 = Some (Some [w0, w1, w2])"
    by (auto simp: length_Suc_conv numeral_3_eq_3)
  then show ?case
  proof cases
    case none
    then have "\<not> vector_anchored vt i al a l" for l by (simp add: vector_anchored_def)
    moreover have "check_anchors vt i al (a # as) tg = check_anchors vt i al as tg"
      using none by (simp add: Let_def NUM_OFFSETS_IN_VECTOR_def)
    ultimately show ?thesis using Cons.IH anchors_done_Cons by metis
  next
    case three
    have v: "vector_anchored vt i al a l \<longleftrightarrow> w0 = ?addr \<and> l = w1 \<and> \<not> w1 < ?addr \<and> \<not> (w2 < w1 \<or> w2 > ?addr + al_Size al \<or>
        w2 - ?addr < (let min = MinRequestSize (vt_finderMin vt) (p_directory ?p) i in if min < 1 then 1 else min))" for l
      unfolding vector_anchored_def three by (auto simp only: not_less option.inject list.inject de_Morgan_disj simp_thms)
    show ?thesis
    proof (cases "\<exists>l. vector_anchored vt i al a l")
      case False
      then have "check_anchors vt i al (a # as) tg = check_anchors vt i al as tg"
        unfolding v by (auto simp: Let_def NUM_OFFSETS_IN_VECTOR_def three)
      then show ?thesis using Cons.IH False anchors_done_Cons by metis
    next
      case True
      then have w: "vector_anchored vt i al a w1" and eqs: "w0 = ?addr" using v by auto
      have un: "i < NumAllocations (p_directory ?p)" "tags ?th ! i = 0"
        using i tg by (simp_all add: untagged_def tagging_ok_def)
      then obtain tg1 where 1: "tag_allocation ?p i (vt_tagIndex vt) tg = Some tg1" "tagging_ok ?p tg1"
        "tg_holder tg1 = ?th\<lparr>tags := (tags ?th)[i := vt_tagIndex vt]\<rparr>" "tg_favored tg1 = tg_favored tg" "tg_tainted tg1 = tg_tainted tg"
        using tag_allocation_any [OF p tg tag, of i] by (auto simp: replaces_tag_def)
      obtain tainted where 2: "MarkTaintedOutgoingEdges ?p i ?addr w1 tg1 = Some (tg1\<lparr>tg_tainted := tainted\<rparr>)"
        "tagging_ok ?p (tg1\<lparr>tg_tainted := tainted\<rparr>)"
        "true_edges (p_graph ?p) tainted = tainted_but_live ?p i (live_in_vector ?p (i, ?addr, w1)) (true_edges (p_graph ?p) (tg_tainted tg1))"
        using MarkTainted_outcome [OF p 1(2)] by blast
      have none: "all_edges (p_graph ?p) \<inter> {NumAllocations (p_directory ?p)} \<times> {i} = {}"
        using p by (auto simp: all_edges_def is_edge_def process_ok_def)
      have "check_anchors vt i al (a # as) tg = Some (tg1\<lparr>tg_tainted := tainted\<rparr>, True)"
        using w [unfolded v] 1(1) 2(1) by (simp add: Let_def NUM_OFFSETS_IN_VECTOR_def three)
      moreover have "tags_vectors vt (NumAllocations (p_directory ?p)) [(i, ?addr, w1)] tg (tg1\<lparr>tg_tainted := tainted\<rparr>)"
        using 1(3-5) 2(3) none by (simp add: tags_vectors_def)
      ultimately show ?thesis using 2(2) w by (auto simp: anchors_done_def)
    qed
  qed
qed

lemma offer_all_weak:
  assumes "call QUICK_INITIAL_CHECK t s = Some (s, b)" "call MEDIUM_CHECK t s = Some (s, False)"
    "call SLOW_CHECK t s = Some (s, False)" "call WEAK_CHECK t s = Some (s', b')"
  shows "offer_all call [t] s = Some (if b then s else s')"
  using assms by (simp add: offer_all_def all_phases_def offer_def)

section \<open>Properties\<close>

text \<open>
  C27: Offered the four phases on the references of an allocation of at least three words, the tagger returns,
  and what it did is this: from left to right it found the headers of vectors, none inside another, whose body is
  an allocation without a tag, each body once; it tagged the bodies, marked the edge from the allocation to each
  body as favored, and marked as tainted exactly those outgoing edges of a body that no word among its
  elements in use refers along.
\<close>

theorem VectorAllocationsTagger_correct:
  assumes "process_ok (vt_process vt)" "tagging_ok (vt_process vt) tg"
    and "0 < vt_tagIndex vt" "vt_tagIndex vt < GetNumTags (tg_holder tg)"
    and "\<forall>u\<in>set us. u \<le> NumAllocations (p_directory (vt_process vt))" "image_offsets (p_map (vt_process vt)) ci = Value ws"
  shows "\<exists>tg'. offer_all (\<lambda>phase t. TagFromReferenced t ci index phase al us) [VectorAllocationsTagger vt] tg = Some tg' \<and>
    tagging_ok (vt_process vt) tg' \<and>
    (if al_Size al < 3 * sizeof_Offset then tg' = tg
     else \<exists>vs. vs = vectors_in (vector_fits vt) (untagged tg) ws us \<and> distinct (map fst vs) \<and> tags_vectors vt index vs tg tg')"
proof -
  obtain tg' where tg': "CheckEmbeddedVectors vt index ws us tg = Some tg'" "tagging_ok (vt_process vt) tg'"
    "tags_vectors vt index (vectors_in (vector_fits vt) (untagged tg) ws us) tg tg'"
    using CheckEmbeddedVectors_outcome [OF assms(1,4,3,2,5)] by blast
  have "offer_all (\<lambda>phase t. TagFromReferenced t ci index phase al us) [VectorAllocationsTagger vt] tg =
      Some (if al_Size al < 3 * sizeof_Offset then tg else tg')"
    by (rule offer_all_weak [where b' = False]) (simp_all add: VectorAllocationsTagger_def vector_TagFromReferenced_def assms(6) tg'(1))
  then show ?thesis using tg' assms(2) vectors_in_distinct by auto
qed

text \<open>
  A vector whose header is at 0x1000 and whose body, at 0x1028, has one element in use, a pointer to 0x1040; the
  second word of the body, which is a pointer to 0x1000, is not in use.
\<close>

definition vector_process :: Process where
  "vector_process = example_process [0x1028, 0x1030, 0x1038, 0, 0, 0x1040, 0x1000, 0, 7, 8, 9]
     [(0x1000, 40), (0x1028, 24), (0x1040, 24)] [[1], [0, 2], []]"

lemma vector_process_ok: "process_ok vector_process"
  unfolding vector_process_def by (rule example_process_ok) (simp_all add: good_rows_def)

lemma vector_process_graph:
  "TargetAllocationIndex (p_graph vector_process) (p_directory vector_process) 1 0x1040 = 2"
  by (simp add: vector_process_def TargetAllocationIndex_def address_search_def starts_def index_search.simps Let_def upt_rec)

lemma vector_process_edges: "all_edges (p_graph vector_process) = {(0, 1), (1, 0), (1, 2)}"
  unfolding vector_process_def example_process_simps
  by (subst rows_graph_edges) (simp_all add: good_rows_def upt_rec)

theorem VectorAllocationsTagger_correct_witness:
  "\<exists>vt th tg tg'.
     VectorTagger_new vector_process SignatureDirectory_new (\<lambda>finder sz. 1) (TagHolder_new 3) = Some (vt, th) \<and>
     tg = \<lparr>tg_holder = th, tg_favored = EdgePredicate_new (p_graph vector_process) False,
           tg_tainted = EdgePredicate_new (p_graph vector_process) False\<rparr> \<and>
     offer_all (\<lambda>phase t. TagFromReferenced t (words_image [0x1028, 0x1030, 0x1038, 0, 0]) 0 phase
         (Allocation_new 0x1000 40 True 0 False) [1, 1, 1, 3, 3]) [VectorAllocationsTagger vt] tg = Some tg' \<and>
     tags (tg_holder tg') = [0, 1, 0] \<and> true_edges (p_graph vector_process) (tg_favored tg') = {(0, 1)} \<and>
     true_edges (p_graph vector_process) (tg_tainted tg') = {(1, 0)}"
proof -
  let ?p = vector_process and ?ws = "[0x1028, 0x1030, 0x1038, 0, 0] :: addr list" and ?us = "[1, 1, 1, 3, 3] :: nat list"
  have N: "NumAllocations (p_directory ?p) = 3" by (simp add: vector_process_def)
  obtain vt th where vt: "VectorTagger_new ?p SignatureDirectory_new (\<lambda>finder sz. 1) (TagHolder_new 3) = Some (vt, th)"
    "vt = \<lparr>vt_process = ?p, vt_signatures = SignatureDirectory_new, vt_finderMin = (\<lambda>finder sz. 1), vt_tagIndex = 1\<rparr>"
    "th_ok th" "GetNumTags th = 2" "tags th = [0, 0, 0]"
    using RegisterTag_outcome [OF TagHolder_new_ok, of 3 "''%VectorBody''" False True]
    by (auto simp: VectorTagger_new_def TagHolder_new_def GetNumTags_def numeral_3_eq_3)
  then have th: "th_numAllocations th = 3" by (simp add: th_ok_def)
  let ?none = "EdgePredicate_new (p_graph ?p) False"
  define tg where "tg = \<lparr>tg_holder = th, tg_favored = ?none, tg_tainted = ?none\<rparr>"
  have g: "edges_ok (p_graph ?p)" using vector_process_ok by (simp add: process_ok_def)
  have tg: "tagging_ok (vt_process vt) tg"
    using vt(2,3) th N EdgePredicate_new_outcome(1) [OF g] by (simp add: tagging_ok_def tg_def)
  have free: "untagged tg = {0, 1, 2}" using vt(5) th by (auto simp: untagged_def tg_def less_Suc_eq numeral_3_eq_3 numeral_2_eq_2)
  have sig: "\<not> IsKnownVtablePointer (vt_signatures vt) a" for a
    by (simp add: vt(2) SignatureDirectory_new_def IsKnownVtablePointer_def)
  have "MinRequestSize (\<lambda>finder sz. 1) (p_directory ?p) 1 = 1"
    by (simp add: MinRequestSize_def vector_process_def used_directory_def)
  then have fits: "vector_fits vt 0x1028 0x1030 0x1038 1"
    using sig by (simp add: vector_fits_def vt(2) vector_process_def)
  then have vs: "vectors_in (vector_fits vt) (untagged tg) ?ws ?us = [(1, 0x1028, 0x1030)]"
    by (simp add: free)
  have live: "live_in_vector ?p (1, 0x1028, 0x1030) = {2}"
  proof -
    have "word_addrs 0x1028 (align_down 0x1030) = [0x1028]" by (simp add: word_addrs_def align_down_def)
    moreover have "word_or (p_map ?p) 0x1028 0 = 0x1040" by (simp add: vector_process_def word_or_def words_word_at)
    ultimately show ?thesis by (auto simp: live_in_vector_def live_targets_def vector_process_graph [simplified] N)
  qed
  from VectorAllocationsTagger_correct [of vt tg ?us "words_image ?ws" ?ws 0 "Allocation_new 0x1000 40 True 0 False"]
  obtain tg' where r: "offer_all (\<lambda>phase t. TagFromReferenced t (words_image ?ws) 0 phase (Allocation_new 0x1000 40 True 0 False) ?us)
      [VectorAllocationsTagger vt] tg = Some tg'" "tags_vectors vt 0 [(1, 0x1028, 0x1030)] tg tg'"
    using tg vt(2,4) N vector_process_ok words_image_offsets [of ?ws] vs by (auto simp: tg_def)
  have none: "true_edges (p_graph ?p) ?none = {}" using EdgePredicate_new_outcome(2) [OF g, of False] by (simp add: set_edges_def)
  have "tags (tg_holder tg') = [0, 1, 0]" "true_edges (p_graph ?p) (tg_favored tg') = {(0, 1)}"
    "true_edges (p_graph ?p) (tg_tainted tg') = {(1, 0)}"
    using r(2) vt(2,5) none live
    by (auto simp: tags_vectors_def tg_def tainted_but_live_def vector_process_edges)
  then show ?thesis using vt(1) r(1) unfolding tg_def by blast
qed

end
