(* ===== verification/Unordered_Tagger.thy ===== *)
theory Unordered_Tagger
  imports Example_Process Graph_Queries
begin

text \<open>
  The class \<open>UnorderedMapOrSetAllocationsTagger\<close> of CPlusPlus/UnorderedMapOrSetAllocationsTagger.h: the header
  of a \<open>std::unordered_map\<close> or \<open>std::unordered_set\<close> gives the array of its buckets, their number, the first node
  of a list that is linked by the first word of every node, the number of the nodes, the maximum load factor and
  the threshold at which it grows.
\<close>

section \<open>The tagger\<close>

record UnorderedTagger =
  ut_process :: Process
  ut_finderMin :: "nat \<Rightarrow> addr \<Rightarrow> addr"
  ut_bucketsTagIndex :: nat
  ut_nodeTagIndex :: nat

definition UnorderedTagger_new ::
  "Process \<Rightarrow> (nat \<Rightarrow> addr \<Rightarrow> addr) \<Rightarrow> TagHolder \<Rightarrow> (UnorderedTagger \<times> TagHolder) option" where
  "UnorderedTagger_new p finderMin th =
     Option.bind (RegisterTag th ''%UnorderedMapOrSetBuckets'' True True) (\<lambda>(th1, bucketsTag).
     map_option (\<lambda>(th2, nodeTag).
         (\<lparr>ut_process = p, ut_finderMin = finderMin, ut_bucketsTagIndex = bucketsTag, ut_nodeTagIndex = nodeTag\<rparr>, th2))
       (RegisterTag th1 ''%UnorderedMapOrSetNode'' True True))"

definition MIN_OFFSETS_IN_HEADER :: nat where "MIN_OFFSETS_IN_HEADER = 6"

text \<open>The loop that counts the nodes, which stops at the expected number.\<close>

fun count_nodes :: "Process \<Rightarrow> nat \<Rightarrow> addr \<Rightarrow> addr \<times> nat" where
  "count_nodes p 0 node = (node, 0)"
| "count_nodes p (Suc n) node =
     (if node = 0 then (node, 0)
      else case count_nodes p n (word_or (p_map p) node 0) of (node', numVisited) \<Rightarrow> (node', numVisited + 1))"

text \<open>The loops over the list that stop only at its end.\<close>

partial_function (option) all_nodes_allocated :: "Process \<Rightarrow> addr \<Rightarrow> nat \<Rightarrow> bool option" where
  "all_nodes_allocated p node nodeIndex =
     (if node = 0 then Some True
      else if nodeIndex = NumAllocations (p_directory p) then Some False
      else
        let next = word_or (p_map p) node 0 in
        all_nodes_allocated p next (TargetAllocationIndex (p_graph p) (p_directory p) nodeIndex next))"

partial_function (option) tag_nodes :: "Process \<Rightarrow> nat \<Rightarrow> addr \<Rightarrow> nat \<Rightarrow> nat \<Rightarrow> Tagging \<Rightarrow> Tagging option" where
  "tag_nodes p nodeTag node nodeIndex refIndex tg =
     (if node = 0 then Some tg
      else Option.bind (tag_from p nodeTag (refIndex, nodeIndex) tg) (\<lambda>tg1.
        let next = word_or (p_map p) node 0 in
        tag_nodes p nodeTag next (TargetAllocationIndex (p_graph p) (p_directory p) nodeIndex next) nodeIndex tg1))"

text \<open>The test of one bucket of an external array.\<close>

definition bucket_ok :: "Process \<Rightarrow> nat \<Rightarrow> addr \<Rightarrow> addr \<Rightarrow> addr \<Rightarrow> bool" where
  "bucket_ok p bucketsIndex listHeader firstNode bucket \<longleftrightarrow>
     (let ppNodes = read_word p bucket in
      ppNodes \<noteq> 0 \<longrightarrow>
        firstNode \<noteq> 0 \<and> \<not> misaligned ppNodes \<and>
        (ppNodes = listHeader \<or>
         TargetAllocationIndex (p_graph p) (p_directory p) bucketsIndex ppNodes \<noteq> NumAllocations (p_directory p)))"

text \<open>The addresses of the buckets; the loop compares with the end of the array, which is computed modulo 2^64.\<close>

definition buckets_of :: "addr \<Rightarrow> addr \<Rightarrow> addr list" where
  "buckets_of bucketsAddress numBuckets = word_addrs bucketsAddress (bucketsAddress + numBuckets * sizeof_Offset)"

definition CheckUnorderedMapOrSet ::
  "UnorderedTagger \<Rightarrow> addr \<Rightarrow> nat \<Rightarrow> nat \<Rightarrow> addr \<Rightarrow> addr \<Rightarrow> addr \<Rightarrow> addr \<Rightarrow> bool \<Rightarrow> Tagging \<Rightarrow> (Tagging \<times> bool) option" where
  "CheckUnorderedMapOrSet ut header holderIndex bucketsIndex bucketsAddress firstNodeAddress minBuckets maxBuckets expectEmpty tg =
     (let p = ut_process ut; N = NumAllocations (p_directory p);
          numBuckets = read_word p (header + sizeof_Offset);
          firstNode = read_word p (header + 2 * sizeof_Offset);
          numEntries = read_word p (header + 3 * sizeof_Offset);
          floatAsUint = u32_or (p_map p) (header + 4 * sizeof_Offset) 0xbad;
          threshold = word_or (p_map p) (header + 5 * sizeof_Offset) 0 in
      if read_word p header \<noteq> bucketsAddress then Some (tg, False)
      else if minBuckets > numBuckets \<or> numBuckets > maxBuckets then Some (tg, False)
      else if expectEmpty \<noteq> (firstNode = 0) \<or> firstNodeAddress \<noteq> 0 \<and> firstNodeAddress \<noteq> firstNode then Some (tg, False)
      else if expectEmpty \<noteq> (numEntries = 0) then Some (tg, False)
      else if numEntries > numBuckets * 4 then Some (tg, False)
      else if floatAsUint = 0x3f800000 \<and> numBuckets \<noteq> threshold then Some (tg, False)
      else if floatAsUint \<noteq> 0x3f800000 \<and> (floatAsUint < 0x3d800000 \<or> floatAsUint > 0x41800000) then Some (tg, False)
      else if \<not> expectEmpty \<and> misaligned firstNode then Some (tg, False)
      else if \<not> expectEmpty \<and> numEntries > threshold then Some (tg, False)
      else if \<not> expectEmpty \<and>
              (case count_nodes p (unat numEntries) firstNode of (node, numVisited) \<Rightarrow> numVisited < unat numEntries \<or> node \<noteq> 0)
      then Some (tg, False)
      else
        let firstNodeIndex =
              (if expectEmpty then N
               else if holderIndex = N then AllocationIndexOf (p_directory p) firstNode
               else TargetAllocationIndex (p_graph p) (p_directory p) holderIndex firstNode) in
        Option.bind (if expectEmpty then Some True else all_nodes_allocated p firstNode firstNodeIndex) (\<lambda>allocated.
        if \<not> allocated then Some (tg, False)
        else if bucketsAddress \<noteq> header + 6 * sizeof_Offset \<and>
                \<not> list_all (bucket_ok p bucketsIndex (header + 2 * sizeof_Offset) firstNode) (buckets_of bucketsAddress numBuckets)
        then Some (tg, False)
        else
          Option.bind
            (if bucketsAddress \<noteq> header + 6 * sizeof_Offset
             then tag_from p (ut_bucketsTagIndex ut) (holderIndex, bucketsIndex) tg else Some tg) (\<lambda>tg1.
          map_option (\<lambda>tg2. (tg2, True)) (tag_nodes p (ut_nodeTagIndex ut) firstNode firstNodeIndex holderIndex tg1))))"

text \<open>
  The position of a possible header in an allocation: its words and the unresolved targets from there on.  The
  result is \<open>None\<close> if the loop passes over it, or the arguments of the check.
\<close>

definition embedded_header ::
  "UnorderedTagger \<Rightarrow> Tagging \<Rightarrow> addr \<Rightarrow> addr list \<Rightarrow> nat list \<Rightarrow> (nat \<times> addr \<times> addr) option" where
  "embedded_header ut tg header check unresolved =
     (let p = ut_process ut; N = NumAllocations (p_directory p);
          floatAsUint = ucast (check ! 4) :: 32 word;
          bucketsAddress = check ! 0; numBuckets = check ! 1; firstNodeAddress = check ! 2; numMembers = check ! 3;
          internalBuckets = (bucketsAddress = header + 6 * sizeof_Offset);
          bucketsIndex = (if internalBuckets then N else unresolved ! 0);
          bucketsAllocation = allocations (p_directory p) ! bucketsIndex;
          maxBuckets = (if internalBuckets then 1 else al_Size bucketsAllocation div sizeof_Offset);
          minRequested = MinRequestSize (ut_finderMin ut) (p_directory p) bucketsIndex div sizeof_Offset;
          minBuckets = (if internalBuckets \<or> minRequested < 1 then 1 else minRequested);
          firstNodeIndex = unresolved ! 2 in
      if floatAsUint < 0x3d800000 \<or> floatAsUint > 0x41800000 then None
      else if internalBuckets \<and> (numBuckets \<noteq> 1 \<or> check ! 6 \<noteq> header + 2 * sizeof_Offset) then None
      else if \<not> internalBuckets \<and>
              (bucketsIndex = N \<or> GetTagIndex (tg_holder tg) bucketsIndex \<noteq> Some 0 \<or>
               al_Address bucketsAllocation \<noteq> bucketsAddress \<or> numBuckets > maxBuckets \<or> numBuckets < minBuckets) then None
      else if firstNodeAddress = 0 \<and> (internalBuckets \<or> numMembers \<noteq> 0) then None
      else if firstNodeAddress \<noteq> 0 \<and>
              (firstNodeIndex = N \<or> GetTagIndex (tg_holder tg) firstNodeIndex \<noteq> Some 0 \<or>
               firstNodeAddress \<noteq> al_Address (allocations (p_directory p) ! firstNodeIndex) \<or> numMembers = 0) then None
      else Some (bucketsIndex, minBuckets, maxBuckets))"

text \<open>The loop over the positions that have six words after them, which passes over a header that was found.\<close>

function CheckEmbeddedUnorderedMapsOrSets ::
  "UnorderedTagger \<Rightarrow> nat \<Rightarrow> addr \<Rightarrow> addr list \<Rightarrow> nat list \<Rightarrow> Tagging \<Rightarrow> Tagging option" where
  "CheckEmbeddedUnorderedMapsOrSets ut holderIndex header ws us tg =
     (if length ws \<le> 6 then Some tg
      else case embedded_header ut tg header ws us of
        None \<Rightarrow> CheckEmbeddedUnorderedMapsOrSets ut holderIndex (header + sizeof_Offset) (drop 1 ws) (drop 1 us) tg
      | Some (bucketsIndex, minBuckets, maxBuckets) \<Rightarrow>
          (case CheckUnorderedMapOrSet ut header holderIndex bucketsIndex (ws ! 0) (ws ! 2) minBuckets maxBuckets
                  (ws ! 2 = 0) tg of
             None \<Rightarrow> None
           | Some (tg', found) \<Rightarrow>
               (let skip = (if found then MIN_OFFSETS_IN_HEADER else 1) in
                CheckEmbeddedUnorderedMapsOrSets ut holderIndex (header + of_nat skip * sizeof_Offset) (drop skip ws) (drop skip us) tg')))"
  by auto
termination by (relation "measure (\<lambda>(ut, h, a, ws, us, tg). length ws)") (auto simp: MIN_OFFSETS_IN_HEADER_def)

declare CheckEmbeddedUnorderedMapsOrSets.simps [simp del]

fun unordered_anchors :: "UnorderedTagger \<Rightarrow> nat \<Rightarrow> addr \<Rightarrow> addr \<Rightarrow> addr list \<Rightarrow> Tagging \<Rightarrow> (Tagging \<times> bool) option" where
  "unordered_anchors ut index address sz [] tg = Some (tg, False)"
| "unordered_anchors ut index address sz (anchor # anchors) tg =
     (let p = ut_process ut; N = NumAllocations (p_directory p);
          firstNode = read_word p (anchor + 2 * sizeof_Offset);
          maxBuckets = sz div sizeof_Offset;
          minRequested = MinRequestSize (ut_finderMin ut) (p_directory p) index div sizeof_Offset;
          minBuckets = (if minRequested < 1 then 1 else minRequested);
          header = anchor - 2 * sizeof_Offset; buckets = anchor + 4 * sizeof_Offset in
      if read_word p anchor \<noteq> address then unordered_anchors ut index address sz anchors tg
      else
        Option.bind
          (if \<not> misaligned firstNode
           then CheckUnorderedMapOrSet ut anchor N index address firstNode minBuckets maxBuckets (firstNode = 0) tg
           else Some (tg, False)) (\<lambda>(tg1, found).
        if found then Some (tg1, True)
        else
          Option.bind
            (if read_word p header = buckets then CheckUnorderedMapOrSet ut header N N buckets address 1 1 False tg1
             else Some (tg1, False)) (\<lambda>(tg2, found2).
          if found2 then Some (tg2, True) else unordered_anchors ut index address sz anchors tg2)))"

definition CheckAnchors ::
  "UnorderedTagger \<Rightarrow> addr list option \<Rightarrow> nat \<Rightarrow> addr \<Rightarrow> addr \<Rightarrow> Tagging \<Rightarrow> (Tagging \<times> bool) option" where
  "CheckAnchors ut anchors index address sz tg =
     (case anchors of None \<Rightarrow> Some (tg, False) | Some as \<Rightarrow> unordered_anchors ut index address sz as tg)"

section \<open>The phases\<close>

definition unordered_TagFromAllocation ::
  "UnorderedTagger \<Rightarrow> ContiguousImage \<Rightarrow> nat \<Rightarrow> Phase \<Rightarrow> Allocation \<Rightarrow> bool \<Rightarrow> Tagging \<Rightarrow> (Tagging \<times> bool) option" where
  "unordered_TagFromAllocation ut ci index phase allocation isUnsigned tg =
     (if \<not> isUnsigned then Some (tg, True)
      else if IsStronglyTagged (tg_holder tg) index then Some (tg, True)
      else case phase of
        QUICK_INITIAL_CHECK \<Rightarrow>
          (case image_offsets (p_map (ut_process ut)) ci of
             Value ws \<Rightarrow> Some (tg, length ws < 2 \<or> misaligned (ws ! 0))
           | _ \<Rightarrow> None)
      | MEDIUM_CHECK \<Rightarrow>
          Option.bind (CheckAnchors ut (GetStaticAnchors (p_graph (ut_process ut)) index) index (al_Address allocation)
                         (al_Size allocation) tg) (\<lambda>(tg1, found).
          if found then Some (tg1, True)
          else map_option (\<lambda>(tg2, found2). (tg2, True))
                 (CheckAnchors ut (GetStackAnchors (p_graph (ut_process ut)) index) index (al_Address allocation)
                    (al_Size allocation) tg1))
      | SLOW_CHECK \<Rightarrow> Some (tg, False)
      | WEAK_CHECK \<Rightarrow> Some (tg, False))"

definition unordered_TagFromReferenced ::
  "UnorderedTagger \<Rightarrow> ContiguousImage \<Rightarrow> nat \<Rightarrow> Phase \<Rightarrow> Allocation \<Rightarrow> nat list \<Rightarrow> Tagging \<Rightarrow> (Tagging \<times> bool) option" where
  "unordered_TagFromReferenced ut ci index phase allocation unresolvedOutgoing tg =
     (case phase of
        QUICK_INITIAL_CHECK \<Rightarrow> Some (tg, al_Size allocation < 7 * sizeof_Offset)
      | MEDIUM_CHECK \<Rightarrow> Some (tg, False)
      | SLOW_CHECK \<Rightarrow>
          (case image_offsets (p_map (ut_process ut)) ci of
             Value ws \<Rightarrow>
               map_option (\<lambda>tg'. (tg', True))
                 (CheckEmbeddedUnorderedMapsOrSets ut index (al_Address allocation) ws unresolvedOutgoing tg)
           | _ \<Rightarrow> None)
      | WEAK_CHECK \<Rightarrow> Some (tg, False))"

definition UnorderedMapOrSetAllocationsTagger :: "UnorderedTagger \<Rightarrow> Tagging Tagger" where
  "UnorderedMapOrSetAllocationsTagger ut =
     \<lparr>TagFromAllocation = unordered_TagFromAllocation ut, TagFromReferenced = unordered_TagFromReferenced ut,
      tagger_MarkFavoredReferences = default_MarkFavoredReferences\<rparr>"

section \<open>The list in memory\<close>

fun list_at :: "Process \<Rightarrow> addr \<Rightarrow> addr list \<Rightarrow> bool" where
  "list_at p a [] \<longleftrightarrow> a = 0"
| "list_at p a (x # xs) \<longleftrightarrow> a = x \<and> a \<noteq> 0 \<and> list_at p (word_or (p_map p) a 0) xs"

lemma list_at_unique: "list_at p a xs \<Longrightarrow> list_at p a ys \<Longrightarrow> xs = ys"
proof (induction xs arbitrary: a ys)
  case Nil
  then show ?case by (cases ys) auto
next
  case (Cons x xs)
  then show ?case by (cases ys) auto
qed

lemma count_nodes_iff:
  "(case count_nodes p n a of (node, numVisited) \<Rightarrow> numVisited < n \<or> node \<noteq> 0) \<longleftrightarrow>
     \<not> (\<exists>xs. list_at p a xs \<and> length xs = n)"
proof (induction n arbitrary: a)
  case (Suc n)
  show ?case
  proof (cases "a = 0")
    case True
    have "list_at p a xs \<longleftrightarrow> xs = []" for xs using True by (cases xs) auto
    then show ?thesis using True by simp
  next
    case False
    have "(\<exists>xs. list_at p a xs \<and> length xs = Suc n) \<longleftrightarrow> (\<exists>xs. list_at p (word_or (p_map p) a 0) xs \<and> length xs = n)"
    proof
      assume "\<exists>xs. list_at p a xs \<and> length xs = Suc n"
      then show "\<exists>xs. list_at p (word_or (p_map p) a 0) xs \<and> length xs = n" by (auto simp: length_Suc_conv)
    next
      assume "\<exists>xs. list_at p (word_or (p_map p) a 0) xs \<and> length xs = n"
      then obtain xs where "list_at p (word_or (p_map p) a 0) xs" "length xs = n" by blast
      then have "list_at p a (a # xs) \<and> length (a # xs) = Suc n" using False by simp
      then show "\<exists>xs. list_at p a xs \<and> length xs = Suc n" by blast
    qed
    then show ?thesis using Suc [of "word_or (p_map p) a 0"] False
      by (cases "count_nodes p n (word_or (p_map p) a 0)") simp
  qed
qed auto

text \<open>The edges along the list, each from the node before or, for the first, from the holder of the header.\<close>

fun node_edges :: "Process \<Rightarrow> nat \<Rightarrow> nat \<Rightarrow> addr list \<Rightarrow> (nat \<times> nat) list" where
  "node_edges p ref i [] = []"
| "node_edges p ref i (x # xs) =
     (ref, i) # node_edges p i (TargetAllocationIndex (p_graph p) (p_directory p) i (word_or (p_map p) x 0)) xs"

lemma all_nodes_allocated_list:
  "list_at p a xs \<Longrightarrow> all_nodes_allocated p a i =
     Some (\<forall>e\<in>set (node_edges p ref i xs). snd e \<noteq> NumAllocations (p_directory p))"
proof (induction xs arbitrary: a i ref)
  case (Cons x xs)
  then show ?case by (subst all_nodes_allocated.simps) (auto simp: Let_def)
qed (simp add: all_nodes_allocated.simps)

lemma tag_nodes_list:
  "list_at p a xs \<Longrightarrow> tag_nodes p nodeTag a i ref tg = fold_option (tag_from p nodeTag) (node_edges p ref i xs) tg"
proof (induction xs arbitrary: a i ref tg)
  case (Cons x xs)
  then show ?case by (subst tag_nodes.simps) (auto simp: Let_def)
qed (simp add: tag_nodes.simps)

lemma TargetAllocationIndex_le:
  assumes "process_ok p"
  shows "TargetAllocationIndex (p_graph p) (p_directory p) s a \<le> NumAllocations (p_directory p)"
proof -
  have g: "edges_ok (p_graph p)" "g_numAllocations (p_graph p) = NumAllocations (p_directory p)"
    using assms by (simp_all add: process_ok_def)
  show ?thesis
  proof (cases "s < g_numAllocations (p_graph p)")
    case True
    then show ?thesis
      using out.address_row_Some(5) [OF g(1) True, of "p_directory p" a] g(2)
      by (auto simp: TargetAllocationIndex_def split: option.splits intro: less_imp_le)
  qed (simp add: TargetAllocationIndex_def g(2))
qed

section \<open>What a header is\<close>

definition first_index :: "Process \<Rightarrow> nat \<Rightarrow> addr \<Rightarrow> nat" where
  "first_index p holderIndex firstNode =
     (if firstNode = 0 then NumAllocations (p_directory p)
      else if holderIndex = NumAllocations (p_directory p) then AllocationIndexOf (p_directory p) firstNode
      else TargetAllocationIndex (p_graph p) (p_directory p) holderIndex firstNode)"

text \<open>
  The conditions on the words of the header as the code has them: it lets maximum load factors up to 16 pass.
\<close>

definition header_checked :: "Process \<Rightarrow> addr \<Rightarrow> addr \<Rightarrow> addr \<Rightarrow> addr \<Rightarrow> addr \<Rightarrow> bool \<Rightarrow> bool" where
  "header_checked p header bucketsAddress firstNodeAddress minBuckets maxBuckets expectEmpty \<longleftrightarrow>
     (let numBuckets = read_word p (header + 8); firstNode = read_word p (header + 16);
          numEntries = read_word p (header + 24); loadFactor = u32_or (p_map p) (header + 32) 0xbad;
          threshold = word_or (p_map p) (header + 40) 0 in
      read_word p header = bucketsAddress \<and> minBuckets \<le> numBuckets \<and> numBuckets \<le> maxBuckets \<and>
      (expectEmpty \<longleftrightarrow> firstNode = 0) \<and> (firstNodeAddress = 0 \<or> firstNodeAddress = firstNode) \<and>
      (expectEmpty \<longleftrightarrow> numEntries = 0) \<and> numEntries \<le> numBuckets * 4 \<and>
      (loadFactor = 0x3f800000 \<longrightarrow> numBuckets = threshold) \<and> 0x3d800000 \<le> loadFactor \<and> loadFactor \<le> 0x41800000 \<and>
      \<not> misaligned firstNode \<and> numEntries \<le> (if expectEmpty then numEntries else threshold))"

text \<open>
  The conditions on the words of the header as they are meant: the maximum load factor is between 1/16, which is
  0x3d800000 as a float, and 4, which is 0x40800000, and a default one of 1 makes the threshold the number of buckets.
\<close>

definition header_fits :: "Process \<Rightarrow> addr \<Rightarrow> addr \<Rightarrow> addr \<Rightarrow> addr \<Rightarrow> addr \<Rightarrow> bool \<Rightarrow> bool" where
  "header_fits p header bucketsAddress firstNodeAddress minBuckets maxBuckets expectEmpty \<longleftrightarrow>
     (let numBuckets = read_word p (header + 8); firstNode = read_word p (header + 16);
          numEntries = read_word p (header + 24); loadFactor = u32_or (p_map p) (header + 32) 0xbad;
          threshold = word_or (p_map p) (header + 40) 0 in
      read_word p header = bucketsAddress \<and> minBuckets \<le> numBuckets \<and> numBuckets \<le> maxBuckets \<and>
      (if expectEmpty then firstNode = 0 \<and> numEntries = 0
       else firstNode \<noteq> 0 \<and> \<not> misaligned firstNode \<and> numEntries \<noteq> 0 \<and> numEntries \<le> threshold) \<and>
      (firstNodeAddress = 0 \<or> firstNodeAddress = firstNode) \<and> numEntries \<le> numBuckets * 4 \<and>
      0x3d800000 \<le> loadFactor \<and> loadFactor \<le> 0x40800000 \<and> (loadFactor = 0x3f800000 \<longrightarrow> threshold = numBuckets))"

definition large_load_factor :: "Process \<Rightarrow> addr \<Rightarrow> bool" where
  "large_load_factor p header \<longleftrightarrow>
     (let loadFactor = u32_or (p_map p) (header + 32) 0xbad in 0x40800000 < loadFactor \<and> loadFactor \<le> 0x41800000)"

lemma header_checked_fits:
  "header_checked p h ba fna mn mx e \<and> \<not> large_load_factor p h \<longleftrightarrow> header_fits p h ba fna mn mx e"
proof -
  have less: "lf \<le> 0x40800000 \<longleftrightarrow> lf \<le> 0x41800000 \<and> \<not> (0x40800000 < lf \<and> lf \<le> 0x41800000)" for lf :: "32 word"
  proof -
    have "lf \<le> 0x40800000 \<Longrightarrow> lf \<le> 0x41800000" by (simp add: word_le_nat_alt)
    then show ?thesis by (auto simp: not_less)
  qed
  have zero: "f = 0 \<Longrightarrow> \<not> misaligned f" for f :: addr by simp
  show ?thesis
  proof (cases e)
    case True
    then show ?thesis
      unfolding header_checked_def header_fits_def large_load_factor_def Let_def less
      using zero [of "read_word p (h + 16)"] by (simp only: if_True simp_thms order_refl) metis
  next
    case False
    then show ?thesis
      unfolding header_checked_def header_fits_def large_load_factor_def Let_def less
      by (simp only: if_False simp_thms) metis
  qed
qed

text \<open>The nodes: as many as the header says, all of them in allocations.\<close>

definition header_nodes :: "Process \<Rightarrow> addr \<Rightarrow> nat \<Rightarrow> (nat \<times> nat) list \<Rightarrow> bool" where
  "header_nodes p header holderIndex edges \<longleftrightarrow>
     (\<exists>xs. list_at p (read_word p (header + 16)) xs \<and> length xs = unat (read_word p (header + 24)) \<and>
        edges = node_edges p holderIndex (first_index p holderIndex (read_word p (header + 16))) xs \<and>
        (\<forall>e\<in>set edges. snd e \<noteq> NumAllocations (p_directory p)))"

lemma header_nodes_unique: "header_nodes p h i es \<Longrightarrow> header_nodes p h i es' \<Longrightarrow> es = es'"
  unfolding header_nodes_def using list_at_unique by blast

definition buckets_fit :: "Process \<Rightarrow> addr \<Rightarrow> nat \<Rightarrow> addr \<Rightarrow> bool" where
  "buckets_fit p header bucketsIndex bucketsAddress \<longleftrightarrow>
     bucketsAddress = header + 48 \<or>
     (\<forall>bucket\<in>set (buckets_of bucketsAddress (read_word p (header + 8))).
        let node = read_word p bucket in
        node = 0 \<or> read_word p (header + 16) \<noteq> 0 \<and> \<not> misaligned node \<and>
          (node = header + 16 \<or>
           TargetAllocationIndex (p_graph p) (p_directory p) bucketsIndex node \<noteq> NumAllocations (p_directory p)))"

definition indexed :: "Process \<Rightarrow> bool" where
  "indexed p \<longleftrightarrow> (\<forall>level\<in>set (wrappers (p_directory p)). \<forall>k\<in>set level. k < NumAllocations (p_directory p))"

lemma search_levels_less: "search_levels as a levels = Some k \<Longrightarrow> \<exists>level\<in>set levels. k \<in> set level"
  by (induction levels) (auto dest!: index_search_Some(2) split: option.splits)

lemma AllocationIndexOf_indexed: "indexed p \<Longrightarrow> AllocationIndexOf (p_directory p) a \<le> NumAllocations (p_directory p)"
  unfolding indexed_def AllocationIndexOf_def NumAllocations_def
  by (auto dest!: index_search_Some(2) search_levels_less split: option.split intro: less_imp_le)

lemma header_nodes_index:
  assumes "process_ok p" "indexed p" "header_nodes p h i es" "e \<in> set es"
  shows "snd e < NumAllocations (p_directory p)"
proof -
  have "snd e \<le> NumAllocations (p_directory p)" if "j \<le> NumAllocations (p_directory p)" "e \<in> set (node_edges p ref j xs)" for j ref xs
    using that
  proof (induction xs arbitrary: ref j)
    case (Cons x xs)
    then show ?case using TargetAllocationIndex_le [OF assms(1)] by auto
  qed simp
  moreover have "first_index p i a \<le> NumAllocations (p_directory p)" for a
    using TargetAllocationIndex_le [OF assms(1)] AllocationIndexOf_indexed [OF assms(2)] by (simp add: first_index_def)
  ultimately have "snd e \<le> NumAllocations (p_directory p)" using assms(3,4) by (auto simp: header_nodes_def)
  moreover have "snd e \<noteq> NumAllocations (p_directory p)" using assms(3,4) by (auto simp: header_nodes_def)
  ultimately show ?thesis by simp
qed

lemma merge_guards: "(if A then r else if B then r else x) = (if A \<or> B then r else x)" by simp

lemma header_guards:
  fixes nb f ne t mn mx fna :: addr and lf :: "32 word"
  shows "(if a \<noteq> ba then r else if mn > nb \<or> nb > mx then r else if e \<noteq> (f = 0) \<or> fna \<noteq> 0 \<and> fna \<noteq> f then r
      else if e \<noteq> (ne = 0) then r else if ne > nb * 4 then r else if lf = 0x3f800000 \<and> nb \<noteq> t then r
      else if lf \<noteq> 0x3f800000 \<and> (lf < 0x3d800000 \<or> lf > 0x41800000) then r else if \<not> e \<and> misaligned f then r
      else if \<not> e \<and> ne > t then r else x) =
    (if a = ba \<and> mn \<le> nb \<and> nb \<le> mx \<and> (e \<longleftrightarrow> f = 0) \<and> (fna = 0 \<or> fna = f) \<and> (e \<longleftrightarrow> ne = 0) \<and> ne \<le> nb * 4 \<and>
      (lf = 0x3f800000 \<longrightarrow> nb = t) \<and> 0x3d800000 \<le> lf \<and> lf \<le> 0x41800000 \<and>
      \<not> misaligned f \<and> ne \<le> (if e then ne else t) then x else r)"
proof -
  have 1: "lf \<noteq> 0x3f800000 \<and> (lf < 0x3d800000 \<or> lf > 0x41800000) \<longleftrightarrow> \<not> (0x3d800000 \<le> lf \<and> lf \<le> 0x41800000)"
    by (auto simp: linorder_not_le)
  have 2: "e \<noteq> (f = 0) \<or> \<not> e \<and> misaligned f \<longleftrightarrow> \<not> ((e \<longleftrightarrow> f = 0) \<and> \<not> misaligned f)" by auto
  have 3: "\<not> e \<and> ne > t \<longleftrightarrow> \<not> (ne \<le> (if e then ne else t))" by (simp add: linorder_not_le)
  have flip: "(Q \<longleftrightarrow> \<not> P) \<Longrightarrow> (if Q then r else x) = (if P then x else r)" for P Q by simp
  show ?thesis unfolding merge_guards 1 3 linorder_not_less [symmetric] by (rule flip) (use 2 in blast)
qed

lemma check_unfolds:
  assumes p: "p = ut_process ut"
    and first_def: "first = read_word p (h + 16)" and n_def: "n = unat (read_word p (h + 24))"
  shows "CheckUnorderedMapOrSet ut h i bi ba fna mn mx e tg =
    (if header_checked p h ba fna mn mx e then
      if \<not> e \<and> \<not> (\<exists>xs. list_at p first xs \<and> length xs = n) then Some (tg, False)
      else Option.bind (if e then Some True else all_nodes_allocated p first (first_index p i first)) (\<lambda>allocated.
        if \<not> allocated then Some (tg, False)
        else if \<not> buckets_fit p h bi ba then Some (tg, False)
        else Option.bind (if ba \<noteq> h + 48 then tag_from p (ut_bucketsTagIndex ut) (i, bi) tg else Some tg) (\<lambda>tg1.
          map_option (\<lambda>tg2. (tg2, True)) (tag_nodes p (ut_nodeTagIndex ut) first (first_index p i first) i tg1)))
     else Some (tg, False))"
proof -
  have offs: "2 * sizeof_Offset = (16 :: addr)" "3 * sizeof_Offset = (24 :: addr)" "4 * sizeof_Offset = (32 :: addr)"
    "5 * sizeof_Offset = (40 :: addr)" "6 * sizeof_Offset = (48 :: addr)" by simp_all
  have index: "header_checked p h ba fna mn mx e \<Longrightarrow> (if e then NumAllocations (p_directory p)
      else if i = NumAllocations (p_directory p) then AllocationIndexOf (p_directory p) first
      else TargetAllocationIndex (p_graph p) (p_directory p) i first) = first_index p i first"
    by (simp add: first_index_def first_def header_checked_def Let_def)
  have buckets: "(ba \<noteq> h + 48 \<and> \<not> list_all (bucket_ok p bi (h + 16) first) (buckets_of ba (read_word p (h + 8)))) =
      (\<not> buckets_fit p h bi ba)" by (auto simp: buckets_fit_def first_def list_all_iff bucket_ok_def Let_def)
  show ?thesis
    unfolding CheckUnorderedMapOrSet_def p [symmetric] Let_def offs header_guards count_nodes_iff
      header_checked_def [unfolded Let_def, symmetric] first_def [symmetric] n_def [symmetric] buckets
    by (rule if_cong [OF refl _ refl]) (simp only: index)
qed

lemma CheckUnorderedMapOrSet_cases:
  assumes p: "p = ut_process ut"
  shows "header_checked p h ba fna mn mx e \<Longrightarrow> header_nodes p h i edges \<Longrightarrow> buckets_fit p h bi ba \<Longrightarrow>
      CheckUnorderedMapOrSet ut h i bi ba fna mn mx e tg =
        Option.bind (if ba \<noteq> h + 48 then tag_from p (ut_bucketsTagIndex ut) (i, bi) tg else Some tg)
          (\<lambda>tg1. map_option (\<lambda>tg2. (tg2, True)) (fold_option (tag_from p (ut_nodeTagIndex ut)) edges tg1))" (is "_ \<Longrightarrow> _ \<Longrightarrow> _ \<Longrightarrow> ?A")
    and "\<not> (header_checked p h ba fna mn mx e \<and> (\<exists>edges. header_nodes p h i edges) \<and> buckets_fit p h bi ba) \<Longrightarrow>
      CheckUnorderedMapOrSet ut h i bi ba fna mn mx e tg = Some (tg, False)" (is "_ \<Longrightarrow> ?B")
proof -
  let ?first = "read_word p (h + 16)" and ?n = "unat (read_word p (h + 24))" and ?N = "NumAllocations (p_directory p)"
  let ?edges = "\<lambda>xs. node_edges p i (first_index p i ?first) xs"
  have empty: "?first = 0 \<and> ?n = 0" if "header_checked p h ba fna mn mx e" e
    using that by (simp add: header_checked_def Let_def)
  have walk: "(if e then Some True else all_nodes_allocated p ?first (first_index p i ?first)) = Some (\<forall>d\<in>set (?edges xs). snd d \<noteq> ?N)"
    if f: "header_checked p h ba fna mn mx e" and xs: "list_at p ?first xs" "length xs = ?n" for xs
  proof (cases e)
    case True
    then have "xs = []" using empty [OF f] xs(2) by simp
    then show ?thesis using True by simp
  next
    case False
    then show ?thesis by (simp only: if_False all_nodes_allocated_list [OF xs(1), of _ i])
  qed
  show ?A if f: "header_checked p h ba fna mn mx e" and nodes: "header_nodes p h i edges" and b: "buckets_fit p h bi ba"
  proof -
    from nodes obtain xs where xs: "list_at p ?first xs" "length xs = ?n" "edges = ?edges xs"
      "\<forall>d\<in>set edges. snd d \<noteq> ?N" unfolding header_nodes_def by blast
    then have "\<exists>xs. list_at p ?first xs \<and> length xs = ?n" by blast
    moreover have all: "(\<forall>d\<in>set edges. snd d \<noteq> ?N) = True" using xs(4) by simp
    ultimately show ?thesis
      unfolding check_unfolds [OF p refl refl] walk [OF f xs(1,2)] tag_nodes_list [OF xs(1)] xs(3) [symmetric] all
      using b f by (simp only: bind.bind_lunit not_True_eq_False simp_thms if_True if_False)
  qed
  show ?B if no: "\<not> (header_checked p h ba fna mn mx e \<and> (\<exists>edges. header_nodes p h i edges) \<and> buckets_fit p h bi ba)"
  proof (cases "header_checked p h ba fna mn mx e")
    case False
    then show ?thesis unfolding check_unfolds [OF p refl refl] by (simp only: if_False)
  next
    case f: True
    show ?thesis
    proof (cases "\<exists>xs. list_at p ?first xs \<and> length xs = ?n")
      case False
      then have "\<not> e" using empty [OF f] by (metis list.size(3) list_at.simps(1))
      then show ?thesis unfolding check_unfolds [OF p refl refl] using False f by (simp only: if_True simp_thms)
    next
      case True
      then obtain xs where xs: "list_at p ?first xs" "length xs = ?n" by blast
      have "header_nodes p h i (?edges xs)" if "\<forall>d\<in>set (?edges xs). snd d \<noteq> ?N"
        unfolding header_nodes_def using xs that by blast
      then have "(\<forall>d\<in>set (?edges xs). snd d \<noteq> ?N) \<Longrightarrow> \<not> buckets_fit p h bi ba" using no f by blast
      then show ?thesis unfolding check_unfolds [OF p refl refl] walk [OF f xs] using True f
        by (simp only: if_True if_False simp_thms bind.bind_lunit split: if_splits) blast
    qed
  qed
qed

section \<open>The property\<close>

text \<open>The outcome for the conditions of the code, and what it is for a header that fits but for a large load factor.\<close>

lemma CheckUnorderedMapOrSet_outcome:
  assumes "p = ut_process ut" "process_ok p" "indexed p" "tagging_ok p tg"
    and "strong_tag tg (ut_bucketsTagIndex ut)" "strong_tag tg (ut_nodeTagIndex ut)"
    and "ba = h + 48 \<or> bi < NumAllocations (p_directory p)"
  shows "if header_checked p h ba fna mn mx e \<and> (\<exists>edges. header_nodes p h i edges) \<and> buckets_fit p h bi ba
    then \<exists>edges tg1 tg2. header_nodes p h i edges \<and>
      CheckUnorderedMapOrSet ut h i bi ba fna mn mx e tg = Some (tg2, True) \<and> tagging_ok p tg2 \<and>
      retagged (if ba = h + 48 then {} else {bi}) (ut_bucketsTagIndex ut) tg tg1 \<and>
      retagged (snd ` set edges) (ut_nodeTagIndex ut) tg1 tg2
    else CheckUnorderedMapOrSet ut h i bi ba fna mn mx e tg = Some (tg, False)"
proof (cases "header_checked p h ba fna mn mx e \<and> (\<exists>edges. header_nodes p h i edges) \<and> buckets_fit p h bi ba")
  case True
  then obtain edges where edges: "header_nodes p h i edges" by blast
  let ?tagged = "if ba \<noteq> h + 48 then tag_from p (ut_bucketsTagIndex ut) (i, bi) tg else Some tg"
  obtain tg1 where 1: "?tagged = Some tg1" "tagging_ok p tg1"
    "retagged (if ba = h + 48 then {} else {bi}) (ut_bucketsTagIndex ut) tg tg1"
  proof (cases "ba = h + 48")
    case True
    then show ?thesis using that [of tg] assms(4) retagged_empty by (simp add: tagging_ok_def)
  next
    case False
    then show ?thesis using that tag_from_outcome [OF assms(2,4,5), of bi i] assms(7) by auto
  qed
  have "strong_tag tg1 (ut_nodeTagIndex ut)" using retagged_strong [OF 1(3)] assms(6) by simp
  then obtain tg2 where 2: "fold_option (tag_from p (ut_nodeTagIndex ut)) edges tg1 = Some tg2" "tagging_ok p tg2"
    "retagged (snd ` set edges) (ut_nodeTagIndex ut) tg1 tg2"
    using tag_all_outcome [OF assms(2) 1(2)] header_nodes_index [OF assms(2,3) edges] by blast
  have "CheckUnorderedMapOrSet ut h i bi ba fna mn mx e tg = Some (tg2, True)"
    using CheckUnorderedMapOrSet_cases(1) [OF assms(1) _ edges] True 1(1) 2(1) by simp
  then show ?thesis unfolding if_P [OF True] using edges 1(3) 2(2,3) by blast
next
  case False
  then show ?thesis using CheckUnorderedMapOrSet_cases(2) [OF assms(1) False] by (simp only: if_False)
qed

lemma large_load_factor_accepted:
  assumes "p = ut_process ut" "process_ok p" "indexed p" "tagging_ok p tg"
    and "strong_tag tg (ut_bucketsTagIndex ut)" "strong_tag tg (ut_nodeTagIndex ut)"
    and "ba = h + 48 \<or> bi < NumAllocations (p_directory p)"
    and "header_checked p h ba fna mn mx e" "header_nodes p h i edges" "buckets_fit p h bi ba" "large_load_factor p h"
  shows "\<not> header_fits p h ba fna mn mx e \<and> (\<exists>tg'. CheckUnorderedMapOrSet ut h i bi ba fna mn mx e tg = Some (tg', True))"
proof -
  have "header_checked p h ba fna mn mx e \<and> (\<exists>edges. header_nodes p h i edges) \<and> buckets_fit p h bi ba"
    using assms(8-10) by blast
  from CheckUnorderedMapOrSet_outcome [OF assms(1-7), where i = i and fna = fna and mn = mn and mx = mx and e = e, unfolded if_P [OF this]]
  show ?thesis using assms(11) header_checked_fits by blast
qed

text \<open>
  C28: \<open>CheckUnorderedMapOrSet\<close> ends and accepts exactly the headers that are one: its words fit together, the list
  of nodes ends after as many nodes as the header says, all of them in allocations, and every bucket of an
  external array is empty or points to the header or to an allocation.  Then the array and the nodes have their
  tags, unless they had a strong one before; otherwise nothing changes.  The bound on the maximum load factor of a
  header is 4 as the comments in the code say, so the property leaves out headers with a factor above 4 and up to 16,
  which the code accepts as well.
\<close>
theorem CheckUnorderedMapOrSet_correct:
  assumes "p = ut_process ut" "process_ok p" "indexed p" "tagging_ok p tg"
    and "strong_tag tg (ut_bucketsTagIndex ut)" "strong_tag tg (ut_nodeTagIndex ut)"
    and "ba = h + 48 \<or> bi < NumAllocations (p_directory p)" "\<not> large_load_factor p h"
  shows "if header_fits p h ba fna mn mx e \<and> (\<exists>edges. header_nodes p h i edges) \<and> buckets_fit p h bi ba
    then \<exists>edges tg1 tg2. header_nodes p h i edges \<and>
      CheckUnorderedMapOrSet ut h i bi ba fna mn mx e tg = Some (tg2, True) \<and> tagging_ok p tg2 \<and>
      retagged (if ba = h + 48 then {} else {bi}) (ut_bucketsTagIndex ut) tg tg1 \<and>
      retagged (snd ` set edges) (ut_nodeTagIndex ut) tg1 tg2
    else CheckUnorderedMapOrSet ut h i bi ba fna mn mx e tg = Some (tg, False)"
proof -
  have "header_checked p h ba fna mn mx e = header_fits p h ba fna mn mx e"
    using header_checked_fits assms(8) by blast
  then show ?thesis
    using CheckUnorderedMapOrSet_outcome [OF assms(1-7), where i = i and fna = fna and mn = mn and mx = mx and e = e] by (simp only:)
qed

section \<open>A concrete case\<close>

text \<open>A header with an array of three buckets, one of them for a list of two nodes.\<close>

definition unordered_process :: Process where
  "unordered_process = example_process
     [0x1038, 3, 0x1050, 2, 0x3f800000, 3, 0, 0, 0x1010, 0x1050, 0x1060, 7, 0, 8]
     [(0x1000, 56), (0x1038, 24), (0x1050, 16), (0x1060, 16)] [[1, 2], [0, 2], [3], []]"

lemma unordered_process_ok: "process_ok unordered_process"
  unfolding unordered_process_def by (rule example_process_ok) (simp_all add: good_rows_def less_Suc_eq)

lemma unordered_process_word:
  "a \<in> {0x1000, 0x1008, 0x1010, 0x1018, 0x1028, 0x1038, 0x1040, 0x1048, 0x1050, 0x1060} \<Longrightarrow>
    word_or (p_map unordered_process) a d =
      [0x1038, 3, 0x1050, 2, 0x3f800000, 3, 0, 0, 0x1010, 0x1050, 0x1060, 7, 0, 8] ! (unat (a - 0x1000) div 8)"
  by (auto simp: unordered_process_def word_or_def words_word_at)

lemma unordered_process_factor: "u32_or (p_map unordered_process) 0x1020 d = 0x3f800000"
proof -
  have "word_at (p_map unordered_process) 0x1020 = Some 0x3f800000"
    by (simp add: unordered_process_def words_word_at)
  from word_at_u32 [OF this] show ?thesis by simp
qed

lemma unordered_process_graph:
  "TargetAllocationIndex (p_graph unordered_process) (p_directory unordered_process) 0 0x1050 = 2"
  "TargetAllocationIndex (p_graph unordered_process) (p_directory unordered_process) 1 0x1050 = 2"
  "TargetAllocationIndex (p_graph unordered_process) (p_directory unordered_process) 2 0x1060 = 3"
  by (simp_all add: unordered_process_def TargetAllocationIndex_def address_search_def starts_def index_search.simps Let_def upt_rec)

theorem CheckUnorderedMapOrSet_correct_witness:
  "\<exists>ut th tg tg'.
     UnorderedTagger_new unordered_process (\<lambda>finder sz. 1) (TagHolder_new 4) = Some (ut, th) \<and>
     tg = \<lparr>tg_holder = th, tg_favored = EdgePredicate_new (p_graph unordered_process) False,
           tg_tainted = EdgePredicate_new (p_graph unordered_process) False\<rparr> \<and>
     CheckUnorderedMapOrSet ut 0x1000 0 1 0x1038 0x1050 1 3 False tg = Some (tg', True) \<and>
     tags (tg_holder tg') = [0, 1, 2, 2]"
proof -
  let ?p = unordered_process
  have N: "NumAllocations (p_directory ?p) = 4" by (simp add: unordered_process_def)
  obtain th1 where th1: "RegisterTag (TagHolder_new 4) ''%UnorderedMapOrSetBuckets'' True True = Some (th1, 1)"
    "th_ok th1" "GetNumTags th1 = 2" "tags th1 = [0, 0, 0, 0]" "tagIsStrong th1 = [False, True]"
    using RegisterTag_outcome [OF TagHolder_new_ok, of 4 "''%UnorderedMapOrSetBuckets''" True True]
    by (auto simp: TagHolder_new_def GetNumTags_def numeral_eq_Suc)
  obtain th where th: "RegisterTag th1 ''%UnorderedMapOrSetNode'' True True = Some (th, 2)"
    "th_ok th" "GetNumTags th = 3" "tags th = [0, 0, 0, 0]" "tagIsStrong th = [False, True, True]"
    using RegisterTag_outcome [OF th1(2), of "''%UnorderedMapOrSetNode''" True True] th1 by auto
  define ut where "ut = \<lparr>ut_process = ?p, ut_finderMin = (\<lambda>finder sz. 1), ut_bucketsTagIndex = 1, ut_nodeTagIndex = 2\<rparr>"
  have new: "UnorderedTagger_new ?p (\<lambda>finder sz. 1) (TagHolder_new 4) = Some (ut, th)"
    using th1(1) th(1) by (simp add: UnorderedTagger_new_def ut_def)
  have n: "th_numAllocations th = 4" using th(2,4) by (simp add: th_ok_def)
  let ?none = "EdgePredicate_new (p_graph ?p) False"
  define tg where "tg = \<lparr>tg_holder = th, tg_favored = ?none, tg_tainted = ?none\<rparr>"
  have g: "edges_ok (p_graph ?p)" using unordered_process_ok by (simp add: process_ok_def)
  have tg: "tagging_ok ?p tg" "strong_tag tg (ut_bucketsTagIndex ut)" "strong_tag tg (ut_nodeTagIndex ut)"
    using th(2,3,5) n N EdgePredicate_new_outcome(1) [OF g] by (simp_all add: tagging_ok_def tg_def strong_tag_def ut_def)
  have fits: "header_fits ?p 0x1000 0x1038 0x1050 1 3 False"
    by (simp add: header_fits_def Let_def unordered_process_word unordered_process_factor)
  have first: "first_index ?p 0 0x1050 = 2" by (simp add: first_index_def N unordered_process_graph)
  have "list_at ?p 0x1050 [0x1050, 0x1060]" by (simp add: unordered_process_word)
  moreover have edges: "node_edges ?p 0 2 [0x1050, 0x1060] = [(0, 2), (2, 3)]"
    by (simp add: unordered_process_word unordered_process_graph)
  ultimately have nodes: "header_nodes ?p 0x1000 0 [(0, 2), (2, 3)]"
    unfolding header_nodes_def
    by (intro exI [of _ "[0x1050, 0x1060]"]) (simp add: unordered_process_word first N)
  have "buckets_of 0x1038 3 = [0x1038, 0x1040, 0x1048]"
    by (simp add: buckets_of_def word_addrs_def upt_rec)
  then have buckets: "buckets_fit ?p 0x1000 1 0x1038"
    by (simp add: buckets_fit_def bucket_ok_def Let_def unordered_process_word unordered_process_graph [simplified] N)
  have index: "indexed ?p" by (simp add: indexed_def unordered_process_def used_directory_def Directory_new_def)
  have "?p = ut_process ut" "(0x1038 :: addr) = 0x1000 + 48 \<or> 1 < NumAllocations (p_directory ?p)" by (simp_all add: ut_def N)
  note here = this
  have "\<not> large_load_factor ?p 0x1000" by (simp add: large_load_factor_def unordered_process_factor)
  note correct = CheckUnorderedMapOrSet_correct [OF here(1) unordered_process_ok index tg here(2) this]
  have "header_fits ?p 0x1000 0x1038 0x1050 1 3 False \<and> (\<exists>edges. header_nodes ?p 0x1000 0 edges) \<and> buckets_fit ?p 0x1000 1 0x1038"
    using fits nodes buckets by blast
  from correct [of "0x1050" 1 3 False 0, unfolded if_P [OF this]]
  obtain es tg1 tg' where r: "header_nodes ?p 0x1000 0 es"
    "CheckUnorderedMapOrSet ut 0x1000 0 1 0x1038 0x1050 1 3 False tg = Some (tg', True)"
    "retagged {1} 1 tg tg1" "retagged (snd ` set es) 2 tg1 tg'"
    by (auto simp: ut_def)
  have "es = [(0, 2), (2, 3)]" using header_nodes_unique [OF r(1) nodes] .
  then have "tags (tg_holder tg') = [0, 1, 2, 2]"
    using r(3,4) th(4,5) n by (simp add: retagged_def tg_def IsStronglyTagged_def upt_rec)
  then show ?thesis using new r(2) unfolding tg_def by blast
qed

end
