(* ===== verification/Name_Unmangler.thy ===== *)
theory Name_Unmangler
  imports Chap_Prelude
begin

text \<open>
  The class \<open>Unmangler\<close> of CPlusPlus/Unmangler.h: a recursive descent parser that turns a mangled C++ name into
  a readable one without blanks.  A pointer into the mangled string is an index; reading at the end gives the
  terminating 0, and reading past it is undefined, as are popping from an empty vector and an overflow
  of an \<open>int\<close>.  What goes to the error stream is left out.
\<close>

section \<open>Outcomes\<close>

datatype 'a outcome = Done 'a | Throw nat | Undefined | Unfinished

fun obind :: "'a outcome \<Rightarrow> ('a \<Rightarrow> 'b outcome) \<Rightarrow> 'b outcome" where
  "obind (Done x) f = f x"
| "obind (Throw p) f = Throw p"
| "obind Undefined f = Undefined"
| "obind Unfinished f = Unfinished"

section \<open>Items\<close>

datatype UnmangledItem = UnmangledItem
  (unmangled: string) (parenthesizedExtensionPoint: "nat option") (packMembers: "UnmangledItem list")
  (hasKQualifier: bool) (hasVQualifier: bool) (hasRQualifier: bool) (hasOQualifier: bool)

definition new_item :: UnmangledItem where
  "new_item = UnmangledItem [] None [] False False False False"

text \<open>The copy constructor leaves out the members of a pack, unlike the assignment.\<close>

fun copy_item :: "UnmangledItem \<Rightarrow> UnmangledItem" where
  "copy_item (UnmangledItem t e ps k v r ov) = UnmangledItem t e [] k v r ov"

fun set_text :: "string \<Rightarrow> UnmangledItem \<Rightarrow> UnmangledItem" where
  "set_text t' (UnmangledItem t e ps k v r ov) = UnmangledItem t' e ps k v r ov"

definition add_text :: "string \<Rightarrow> UnmangledItem \<Rightarrow> UnmangledItem" where
  "add_text s item = set_text (unmangled item @ s) item"

text \<open>Texts with commas between them.\<close>

fun joined :: "string list \<Rightarrow> string" where
  "joined [] = []"
| "joined [s] = s"
| "joined (s # ss) = s @ '','' @ joined ss"

definition text_at :: "string \<Rightarrow> nat \<Rightarrow> char" where
  "text_at s i = (if i < length s then s ! i else CHR 0x00)"

definition insert_text :: "string \<Rightarrow> nat \<Rightarrow> string \<Rightarrow> string" where
  "insert_text s i toAdd = take i s @ toAdd @ drop i s"

fun Extend :: "string \<Rightarrow> bool \<Rightarrow> UnmangledItem \<Rightarrow> UnmangledItem" where
  "Extend toAdd addParentheses (UnmangledItem t e ps k v r ov) =
     (if t = [] then UnmangledItem t e ps k v r ov
      else if ps \<noteq> [] then
        (let ps' = map (Extend toAdd addParentheses) ps in UnmangledItem (joined (map unmangled ps')) e ps' k v r ov)
      else case e of
        Some x \<Rightarrow>
          if text_at t x = CHR '')'' then UnmangledItem (insert_text t x toAdd) (Some (x + length toAdd)) ps k v r ov
          else if addParentheses
          then UnmangledItem (insert_text t x (''('' @ toAdd @ '')'')) (Some (x + 1 + length toAdd)) ps k v r ov
          else UnmangledItem (t @ toAdd) e ps k v r ov
      | None \<Rightarrow>
          if length t > 3 \<and> text_at t (length t - 3) = CHR ''.'' \<and> text_at t (length t - 2) = CHR ''.'' \<and>
             text_at t (length t - 1) = CHR ''.''
          then UnmangledItem (insert_text t (length t - 3) toAdd) e ps k v r ov
          else UnmangledItem (t @ toAdd) e ps k v r ov)"

definition HasUnusedParenthesizedExtensionPoint :: "UnmangledItem \<Rightarrow> bool" where
  "HasUnusedParenthesizedExtensionPoint item =
     (case parenthesizedExtensionPoint item of None \<Rightarrow> False | Some x \<Rightarrow> text_at (unmangled item) x \<noteq> CHR '')'')"

section \<open>State\<close>

text \<open>
  A template context is on the stack while its variable is in scope; the top comes first.  Its \<open>_isInDp\<close> is not
  initialised, so its value at first is a parameter.
\<close>

record TemplateContext =
  tc_isLambda :: bool
  tc_resolved :: bool
  tc_isInDp :: bool
  tc_templateArguments :: "UnmangledItem list"

record UnmanglerState =
  sValues :: "UnmangledItem list"
  contexts :: "TemplateContext list"

record Unmangler =
  mangled :: string
  checkAnonymousNamespace :: bool
  um_junk :: bool

type_synonym parser = "nat \<Rightarrow> UnmangledItem \<Rightarrow> UnmanglerState \<Rightarrow> (nat \<times> UnmangledItem \<times> UnmanglerState) outcome"

definition char_at :: "Unmangler \<Rightarrow> nat \<Rightarrow> char outcome" where
  "char_at u p =
     (if p < length (mangled u) then Done (mangled u ! p) else if p = length (mangled u) then Done (CHR 0x00) else Undefined)"

definition push_value :: "UnmangledItem \<Rightarrow> UnmanglerState \<Rightarrow> UnmanglerState" where
  "push_value item st = st\<lparr>sValues := sValues st @ [copy_item item]\<rparr>"

definition push_context :: "Unmangler \<Rightarrow> bool \<Rightarrow> UnmanglerState \<Rightarrow> UnmanglerState" where
  "push_context u isLambda st =
     st\<lparr>contexts := \<lparr>tc_isLambda = isLambda, tc_resolved = isLambda, tc_isInDp = um_junk u, tc_templateArguments = []\<rparr> # contexts st\<rparr>"

definition pop_context :: "UnmanglerState \<Rightarrow> UnmanglerState" where
  "pop_context st = st\<lparr>contexts := drop 1 (contexts st)\<rparr>"

definition on_top :: "(TemplateContext \<Rightarrow> TemplateContext) \<Rightarrow> UnmanglerState \<Rightarrow> UnmanglerState" where
  "on_top f st = st\<lparr>contexts := (case contexts st of [] \<Rightarrow> [] | tc # tcs \<Rightarrow> f tc # tcs)\<rparr>"

text \<open>Whether the top context still takes arguments.\<close>

definition saves :: "UnmanglerState \<Rightarrow> bool" where
  "saves st \<longleftrightarrow> contexts st \<noteq> [] \<and> \<not> tc_resolved (hd (contexts st))"

definition AddItem :: "UnmangledItem \<Rightarrow> UnmanglerState \<Rightarrow> UnmanglerState" where
  "AddItem item = on_top (\<lambda>tc. if tc_isLambda tc then tc
     else tc\<lparr>tc_templateArguments := tc_templateArguments tc @ [copy_item item]\<rparr>)"

definition Resolve :: "UnmanglerState \<Rightarrow> UnmanglerState" where
  "Resolve = on_top (\<lambda>tc. tc\<lparr>tc_resolved := True\<rparr>)"

definition ClearTemplateArguments :: "UnmanglerState \<Rightarrow> UnmanglerState" where
  "ClearTemplateArguments = on_top (\<lambda>tc. tc\<lparr>tc_resolved := False, tc_templateArguments := []\<rparr>)"

definition SetInDp :: "bool \<Rightarrow> UnmanglerState \<Rightarrow> UnmanglerState" where
  "SetInDp b = on_top (\<lambda>tc. tc\<lparr>tc_isInDp := b\<rparr>)"

section \<open>Numbers\<close>

definition is_digit :: "char \<Rightarrow> bool" where
  "is_digit c \<longleftrightarrow> 48 \<le> (of_char c :: nat) \<and> of_char c \<le> (57 :: nat)"

definition digit_value :: "char \<Rightarrow> nat" where
  "digit_value c = of_char c - 48"

abbreviation size_t :: "nat \<Rightarrow> nat" where
  "size_t n \<equiv> n mod 2 ^ 64"

text \<open>The loop that finds the number of digits; the inner \<open>None\<close> is an overflow of the limit.\<close>

partial_function (option) num_chars :: "nat \<Rightarrow> nat \<Rightarrow> nat \<Rightarrow> nat option option" where
  "num_chars index limit numChars =
     (if index > limit then
        let limit' = size_t (limit * 10) in
        if limit' < limit then Some None else num_chars index limit' (numChars + 1)
      else Some (Some numChars))"

declare num_chars.simps [code]

fun index_chars :: "nat \<Rightarrow> nat \<Rightarrow> string" where
  "index_chars n index =
     (if n \<le> 1 then [char_of (48 + index)] else index_chars (n - 1) (index div 10) @ [char_of (48 + index mod 10)])"

declare index_chars.simps [simp del]

definition AppendIndex :: "nat \<Rightarrow> UnmangledItem \<Rightarrow> UnmangledItem option outcome" where
  "AppendIndex index item =
     (case num_chars index 10 1 of
        None \<Rightarrow> Unfinished
      | Some None \<Rightarrow> Done None
      | Some (Some numChars) \<Rightarrow> Done (Some (add_text (index_chars numChars index) item)))"

text \<open>Reads of an index up to the character \<open>'_'\<close>; anything but a digit ends with an exception.\<close>

fun read_index :: "Unmangler \<Rightarrow> nat \<Rightarrow> nat \<Rightarrow> nat \<Rightarrow> nat \<Rightarrow> (nat \<times> nat) outcome" where
  "read_index u thrown 0 pC index = Unfinished"
| "read_index u thrown (Suc n) pC index =
     obind (char_at u pC) (\<lambda>c.
       if c = CHR ''_'' then Done (pC, index)
       else if \<not> is_digit c then Throw thrown
       else read_index u thrown n (pC + 1) (size_t (index * 10 + digit_value c)))"

definition GetTIndex :: "Unmangler \<Rightarrow> nat \<Rightarrow> nat \<Rightarrow> (nat \<times> nat) outcome" where
  "GetTIndex u n base =
     obind (read_index u base n (base + 1) 0) (\<lambda>(pC, index).
       Done (pC + 1, if pC = base + 1 then 0 else size_t (index + 1)))"

fun GetItem :: "TemplateContext list \<Rightarrow> nat \<Rightarrow> UnmangledItem \<Rightarrow> UnmangledItem option outcome" where
  "GetItem [] index item = Done None"
| "GetItem (tc # tcs) index item =
     (if tc_isLambda tc then
        if tc_isInDp tc then Done (Some (add_text ''auto...'' item))
        else
          let item' = add_text ''auto:'' item; index' = size_t (index + 1) in
          if index' \<noteq> 0 then AppendIndex index' item' else Done None
      else if tc_resolved tc then
        Done (if index < length (tc_templateArguments tc) then Some (tc_templateArguments tc ! index) else None)
      else GetItem tcs index item)"

text \<open>The length of a name is an \<open>int\<close>.\<close>

fun read_length :: "Unmangler \<Rightarrow> nat \<Rightarrow> nat \<Rightarrow> nat \<Rightarrow> (nat \<times> nat) outcome" where
  "read_length u 0 pC len = Unfinished"
| "read_length u (Suc n) pC len =
     obind (char_at u pC) (\<lambda>c.
       if is_digit c then
         if len * 10 + digit_value c \<ge> 2 ^ 31 then Undefined else read_length u n (pC + 1) (len * 10 + digit_value c)
       else Done (pC, len))"

definition UnmangleNameWithLength :: "Unmangler \<Rightarrow> nat \<Rightarrow> nat \<Rightarrow> UnmangledItem \<Rightarrow> (nat \<times> UnmangledItem) outcome" where
  "UnmangleNameWithLength u n base item =
     obind (char_at u base) (\<lambda>c.
       if \<not> is_digit c then Throw base
       else obind (read_length u n (base + 1) (digit_value c)) (\<lambda>(pC, len).
         if len > 1000 \<or> pC + len > length (mangled u) then Throw base
         else
           let name = take len (drop pC (mangled u)) in
           Done (pC + len,
             if checkAnonymousNamespace u \<and> name = ''_GLOBAL__N_1'' then add_text ''(anonymous)'' item
             else add_text name item)))"

section \<open>The parser\<close>

text \<open>
  All functions call \<open>UnmangleOneItem\<close>, which is an argument of theirs, so that it can be defined over their fuel;
  \<open>n\<close> is the fuel of their own loops.
\<close>

fun pack_loop ::
  "Unmangler \<Rightarrow> parser \<Rightarrow> nat \<Rightarrow> nat \<Rightarrow> bool \<Rightarrow> UnmangledItem \<Rightarrow> UnmanglerState \<Rightarrow> (nat \<times> UnmangledItem \<times> UnmanglerState) outcome" where
  "pack_loop u one 0 pC needComma packItem st = Unfinished"
| "pack_loop u one (Suc n) pC needComma packItem st =
     obind (char_at u pC) (\<lambda>c.
       if c = CHR ''E'' then Done (pC + 1, packItem, st)
       else
         let packItem' = (if needComma then add_text '','' packItem else packItem) in
         obind (if c = CHR ''J'' \<or> c = CHR ''I'' then pack_loop u one n (pC + 1) False new_item st
                else one pC new_item st)
           (\<lambda>(pC', member, st').
             pack_loop u one n pC' True
               (case add_text (unmangled member) packItem' of
                  UnmangledItem t e ps k v r ov \<Rightarrow> UnmangledItem t e (ps @ [copy_item member]) k v r ov) st'))"

definition UnmangleParameterPack :: "Unmangler \<Rightarrow> parser \<Rightarrow> nat \<Rightarrow> parser" where
  "UnmangleParameterPack u one n base packItem st = pack_loop u one n (base + 1) False packItem st"

fun template_loop ::
  "Unmangler \<Rightarrow> parser \<Rightarrow> bool \<Rightarrow> nat \<Rightarrow> nat \<Rightarrow> bool \<Rightarrow> UnmangledItem \<Rightarrow> UnmanglerState \<Rightarrow> (nat \<times> UnmangledItem \<times> UnmanglerState) outcome" where
  "template_loop u one save 0 pC needComma nameItem st = Unfinished"
| "template_loop u one save (Suc n) pC needComma nameItem st =
     obind (char_at u pC) (\<lambda>c.
       if c = CHR ''E'' then
         Done (pC + 1, add_text ''>'' nameItem, if save then Resolve st else st)
       else
         let nameItem' = (if needComma then add_text '','' nameItem else nameItem) in
         obind ((if c = CHR ''J'' \<or> c = CHR ''I'' then UnmangleParameterPack u one n else one)
                  pC new_item (push_context u False st))
           (\<lambda>(pC', argumentItem, st').
             let st1 = pop_context st'; st2 = (if save then AddItem argumentItem st1 else st1) in
             template_loop u one save n pC' True (add_text (unmangled argumentItem) nameItem') st2))"

definition AppendTemplateArguments :: "Unmangler \<Rightarrow> parser \<Rightarrow> nat \<Rightarrow> parser" where
  "AppendTemplateArguments u one n base nameItem st =
     obind (char_at u base) (\<lambda>c.
       if c \<noteq> CHR ''I'' then Throw base
       else template_loop u one (saves st) n (base + 1) False (add_text ''<'' nameItem) st)"

text \<open>Template arguments that may follow an item, which is then a value once more.\<close>

definition optional_arguments :: "Unmangler \<Rightarrow> parser \<Rightarrow> nat \<Rightarrow> parser" where
  "optional_arguments u one n pC item st =
     obind (char_at u pC) (\<lambda>c.
       if c = CHR ''I'' then
         obind (AppendTemplateArguments u one n pC item st) (\<lambda>(pC', item', st'). Done (pC', item', push_value item' st'))
       else Done (pC, item, st))"

definition UnmangleSingleNameWithOptionalTemplateArguments :: "Unmangler \<Rightarrow> parser \<Rightarrow> nat \<Rightarrow> parser" where
  "UnmangleSingleNameWithOptionalTemplateArguments u one n base nameItem st =
     obind (UnmangleNameWithLength u n base nameItem) (\<lambda>(pC, nameItem').
       optional_arguments u one n pC nameItem' (push_value nameItem' st))"

fun arguments_loop ::
  "Unmangler \<Rightarrow> parser \<Rightarrow> nat \<Rightarrow> nat \<Rightarrow> UnmangledItem list \<Rightarrow> UnmanglerState \<Rightarrow> (nat \<times> UnmangledItem list \<times> UnmanglerState) outcome" where
  "arguments_loop u one 0 pC arguments st = Unfinished"
| "arguments_loop u one (Suc n) pC arguments st =
     obind (char_at u pC) (\<lambda>c.
       if c = CHR ''E'' then Done (pC + 1, arguments, st)
       else obind (one pC new_item st) (\<lambda>(pC', argItem, st').
         arguments_loop u one n pC' (arguments @ [copy_item argItem]) st'))"

definition UnmangleFunctionArguments ::
  "Unmangler \<Rightarrow> parser \<Rightarrow> nat \<Rightarrow> nat \<Rightarrow> UnmanglerState \<Rightarrow> (nat \<times> UnmangledItem list \<times> UnmanglerState) outcome" where
  "UnmangleFunctionArguments u one n pC st =
     obind (char_at u pC) (\<lambda>c.
       if c = CHR ''v'' then
         obind (char_at u (pC + 1)) (\<lambda>c1. if c1 \<noteq> CHR ''E'' then Throw pC else Done (pC + 2, [], st))
       else arguments_loop u one n pC [] st)"

definition UnmangleBItem :: "Unmangler \<Rightarrow> parser \<Rightarrow> parser" where
  "UnmangleBItem u one base bItem st =
     obind (one (base + 1) new_item st) (\<lambda>(pC, argItem, st').
       Done (pC, add_text '']'' (add_text (unmangled argItem) (add_text ''[abi:'' bItem)), st'))"

text \<open>The qualifiers of the kinds \<open>K\<close> and \<open>Do\<close>, which take the place of the last value if they qualify a function.\<close>

definition qualified_item :: "string \<Rightarrow> parser \<Rightarrow> nat \<Rightarrow> UnmanglerState \<Rightarrow> (nat \<times> UnmangledItem \<times> UnmanglerState) outcome" where
  "qualified_item toAdd one pC0 st =
     obind (one pC0 new_item st) (\<lambda>(pC, unqualifiedItem, st').
       let item = Extend toAdd False unqualifiedItem in
       if HasUnusedParenthesizedExtensionPoint unqualifiedItem then
         if sValues st' = [] then Undefined else Done (pC, item, st'\<lparr>sValues := butlast (sValues st') @ [item]\<rparr>)
       else Done (pC, item, push_value item st'))"

definition UnmangleKItem :: "Unmangler \<Rightarrow> parser \<Rightarrow> parser" where
  "UnmangleKItem u one base kItem st = qualified_item ''_const'' one (base + 1) st"

definition UnmangleDoItem :: "Unmangler \<Rightarrow> parser \<Rightarrow> parser" where
  "UnmangleDoItem u one base doItem st = qualified_item ''_noexcept'' one (base + 2) st"

definition UnmangleDpItem :: "Unmangler \<Rightarrow> parser \<Rightarrow> parser" where
  "UnmangleDpItem u one base dpItem st =
     (if contexts st = [] then Throw base
      else obind (one (base + 2) dpItem (SetInDp True st)) (\<lambda>(pC, item, st'). Done (pC, item, SetInDp False st')))"

definition pointed :: "string \<Rightarrow> parser \<Rightarrow> nat \<Rightarrow> UnmanglerState \<Rightarrow> (nat \<times> UnmangledItem \<times> UnmanglerState) outcome" where
  "pointed toAdd one pC0 st =
     obind (one pC0 new_item st) (\<lambda>(pC, unqualifiedItem, st').
       let item = Extend toAdd True unqualifiedItem in Done (pC, item, push_value item st'))"

definition UnmangleRItem :: "Unmangler \<Rightarrow> parser \<Rightarrow> parser" where
  "UnmangleRItem u one base rItem st = pointed ''&'' one (base + 1) st"

definition UnmangleOItem :: "Unmangler \<Rightarrow> parser \<Rightarrow> parser" where
  "UnmangleOItem u one base oItem st = pointed ''&&'' one (base + 1) st"

definition UnmanglePItem :: "Unmangler \<Rightarrow> parser \<Rightarrow> parser" where
  "UnmanglePItem u one base pItem st = pointed ''*'' one (base + 1) st"

definition argument_texts :: "UnmangledItem list \<Rightarrow> string" where
  "argument_texts arguments = joined (map unmangled arguments)"

definition UnmangleFItem :: "Unmangler \<Rightarrow> parser \<Rightarrow> nat \<Rightarrow> parser" where
  "UnmangleFItem u one n base fItem st =
     obind (one (base + 1) new_item (push_context u False st)) (\<lambda>(pC, returnType, st1).
     obind (UnmangleFunctionArguments u one n pC st1) (\<lambda>(pC', arguments, st2).
       case fItem of UnmangledItem t e ps k v r ov \<Rightarrow>
         let item = UnmangledItem (unmangled returnType @ ''('' @ argument_texts arguments @ '')'')
                      (Some (length (unmangled returnType))) ps k v r ov in
         Done (pC', item, pop_context (push_value item st2))))"

definition UnmangleTItem :: "Unmangler \<Rightarrow> parser \<Rightarrow> nat \<Rightarrow> parser" where
  "UnmangleTItem u one n base tItem st =
     obind (GetTIndex u n base) (\<lambda>(pC, index).
     obind (GetItem (contexts st) index tItem) (\<lambda>found.
       case found of
         None \<Rightarrow> Throw base
       | Some item \<Rightarrow> optional_arguments u one n pC item (push_value item st)))"

definition UnmangleUItem :: "Unmangler \<Rightarrow> parser \<Rightarrow> nat \<Rightarrow> parser" where
  "UnmangleUItem u one n base uItem st =
     obind (char_at u base) (\<lambda>c0. if c0 \<noteq> CHR ''U'' then Throw base else
     obind (char_at u (base + 1)) (\<lambda>c1. if c1 \<noteq> CHR ''l'' then Throw base else
     obind (UnmangleFunctionArguments u one n (base + 2) (push_context u True st)) (\<lambda>(indexBase, arguments, st1).
     obind (read_index u indexBase n indexBase 0) (\<lambda>(pC, digits).
       let index = (if pC = indexBase then 1 else size_t (digits + 2)) in
       obind (AppendIndex index (set_text (''{lambda('' @ argument_texts arguments @ '')#'') uItem)) (\<lambda>appended.
         case appended of
           None \<Rightarrow> Throw indexBase
         | Some item \<Rightarrow>
             let item' = add_text ''}'' item in Done (pC + 1, item', pop_context (push_value item' st1)))))))"

definition UnmangleMItem :: "Unmangler \<Rightarrow> parser \<Rightarrow> nat \<Rightarrow> parser" where
  "UnmangleMItem u one n base mItem st =
     obind (char_at u (base + 1)) (\<lambda>c1.
       if c1 = CHR ''U'' then UnmangleUItem u one n (base + 1) mItem st
       else
         obind (one (base + 1) new_item st) (\<lambda>(pC, holderType, st1).
         obind (one pC new_item st1) (\<lambda>(pC', fItem, st2).
           let item = Extend (unmangled holderType @ ''::*'') True fItem in Done (pC', item, push_value item st2))))"

fun z_loop ::
  "Unmangler \<Rightarrow> parser \<Rightarrow> nat \<Rightarrow> nat \<Rightarrow> UnmangledItem \<Rightarrow> UnmanglerState \<Rightarrow> (nat \<times> UnmangledItem \<times> UnmanglerState) outcome" where
  "z_loop u one 0 pC z_Item st = Unfinished"
| "z_loop u one (Suc n) pC z_Item st =
     obind (one pC new_item st) (\<lambda>(pC', argItem, st').
     let z_Item' = add_text (unmangled argItem) z_Item in
     obind (char_at u pC') (\<lambda>c.
       if c \<noteq> CHR ''E'' \<and> c \<noteq> CHR 0x00 then z_loop u one n pC' z_Item' st' else Done (pC', z_Item', st')))"

definition Unmangle_ZItem :: "Unmangler \<Rightarrow> parser \<Rightarrow> nat \<Rightarrow> parser" where
  "Unmangle_ZItem u one n base z_Item st =
     obind (one (base + 2) z_Item st) (\<lambda>(pC, item, st1).
     obind (char_at u pC) (\<lambda>c.
       if c = CHR ''E'' \<or> c = CHR 0x00 then Done (pC, item, st1)
       else obind (z_loop u one n pC (add_text ''('' item) st1) (\<lambda>(pC', item', st2). Done (pC', add_text ''('' item', st2))))"

text \<open>The qualifiers of a member function, as they follow its arguments.\<close>

definition qualifiers :: "UnmangledItem \<Rightarrow> string" where
  "qualifiers item =
     (if hasKQualifier item then ''_const'' else []) @ (if hasVQualifier item then ''_volatile'' else []) @
     (if hasRQualifier item then ''&'' else []) @ (if hasOQualifier item then ''&&'' else [])"

definition UnmangleZItem :: "Unmangler \<Rightarrow> parser \<Rightarrow> nat \<Rightarrow> parser" where
  "UnmangleZItem u one n base zItem st =
     obind (char_at u (base + 1)) (\<lambda>c1.
     let st0 = push_context u False st in
     obind (if c1 = CHR ''L'' then UnmangleSingleNameWithOptionalTemplateArguments u one n (base + 2) zItem st0
            else one (base + 1) zItem st0) (\<lambda>(pC1, item1, st1).
     if sValues st1 = [] then Undefined
     else
       let st2 = st1\<lparr>sValues := butlast (sValues st1)\<rparr> in
       obind (if tc_templateArguments (hd (contexts st2)) \<noteq> []
              then obind (one pC1 new_item st2) (\<lambda>(pC, returnTypeItem, st'). Done (pC, st'))
              else Done (pC1, st2)) (\<lambda>(pC2, st3).
       obind (UnmangleFunctionArguments u one n pC2 st3) (\<lambda>(pC3, arguments, st4).
       let item2 = add_text (''('' @ argument_texts arguments @ '')'' @ qualifiers item1 @ ''::'') item1 in
       obind (one pC3 new_item st4) (\<lambda>(pC4, localNameItem, st5).
         let item3 = add_text (unmangled localNameItem @ qualifiers localNameItem) item2 in
         Done (pC4, item3, pop_context (push_value item3 st5)))))))"

definition UnmangleExpression :: "Unmangler \<Rightarrow> parser \<Rightarrow> parser" where
  "UnmangleExpression u one base eItem st =
     obind (char_at u base) (\<lambda>c0.
     if c0 = CHR 0x00 then Throw base
     else obind (char_at u (base + 1)) (\<lambda>c1.
       if c0 = CHR ''a'' \<and> c1 = CHR ''d'' then
         obind (one (base + 2) new_item st) (\<lambda>(pC, argItem, st').
           Done (pC, add_text '')'' (add_text (unmangled argItem) (add_text ''&('' eItem)), st'))
       else if c0 = CHR ''s'' \<and> c1 = CHR ''p'' then one (base + 2) eItem st
       else Throw base))"

definition UnmangleXItem :: "Unmangler \<Rightarrow> parser \<Rightarrow> parser" where
  "UnmangleXItem u one base xItem st =
     obind (UnmangleExpression u one (base + 1) xItem st) (\<lambda>(pC, item, st').
     obind (char_at u pC) (\<lambda>c. if c \<noteq> CHR ''E'' then Throw base else Done (pC + 1, item, st')))"

text \<open>The loop over the number of a substitution, to the base 36.\<close>

fun read_seq_id :: "Unmangler \<Rightarrow> nat \<Rightarrow> nat \<Rightarrow> nat \<Rightarrow> nat \<Rightarrow> (nat \<times> nat) outcome" where
  "read_seq_id u thrown 0 pC index = Unfinished"
| "read_seq_id u thrown (Suc n) pC index =
     obind (char_at u pC) (\<lambda>c.
     obind (if is_digit c then Done (size_t (index * 36 + digit_value c))
            else if 65 \<le> (of_char c :: nat) \<and> of_char c \<le> (90 :: nat) then Done (size_t (index * 36 + 10 + (of_char c - 65)))
            else Throw thrown) (\<lambda>index'.
     obind (char_at u (pC + 1)) (\<lambda>c'.
       if c' = CHR ''_'' then Done (pC + 1, index') else read_seq_id u thrown n (pC + 1) index')))"

definition std_name :: "char \<Rightarrow> string option" where
  "std_name = map_of [(CHR ''b'', ''std::basic_string''), (CHR ''d'', ''std::iostream''), (CHR ''i'', ''std::istream''),
     (CHR ''o'', ''std::ostream''), (CHR ''s'', ''std::string'')]"

definition UnmangleSItem :: "Unmangler \<Rightarrow> parser \<Rightarrow> nat \<Rightarrow> parser" where
  "UnmangleSItem u one n base sItem st =
     obind (char_at u (base + 1)) (\<lambda>c.
       if c = CHR ''a'' then optional_arguments u one n (base + 2) (set_text ''std::allocator'' sItem) st
       else case std_name c of
         Some name \<Rightarrow> Done (base + 2, add_text name sItem, st)
       | None \<Rightarrow>
           if c = CHR ''t'' then
             UnmangleSingleNameWithOptionalTemplateArguments u one n (base + 2) (add_text ''std::'' sItem) st
           else if c = CHR ''_'' then
             if sValues st = [] then Throw base
             else optional_arguments u one n (base + 2) (sValues st ! 0) st
           else
             obind (read_seq_id u base n (base + 1) 0) (\<lambda>(pC, index).
               let index' = size_t (index + 1) in
               if index' \<ge> length (sValues st) then Throw pC
               else optional_arguments u one n (pC + 1) (sValues st ! index') st))"

text \<open>The part of a nested name after its qualifiers; the text in \<open>lastName\<close> is the name of a constructor.\<close>

fun nested_loop ::
  "Unmangler \<Rightarrow> parser \<Rightarrow> bool \<Rightarrow> nat \<Rightarrow> nat \<Rightarrow> nat \<Rightarrow> string \<Rightarrow> UnmangledItem \<Rightarrow> UnmanglerState \<Rightarrow> (nat \<times> UnmangledItem \<times> UnmanglerState) outcome" where
  "nested_loop u one save base 0 pC lastName nItem st = Unfinished"
| "nested_loop u one save base (Suc n) pC lastName nItem st =
     obind (char_at u pC) (\<lambda>c.
       let scoped = (if unmangled nItem \<noteq> [] then add_text ''::'' nItem else nItem);
           clear = (\<lambda>st. if save then ClearTemplateArguments st else st) in
       if c = CHR ''E'' then Done (pC + 1, nItem, st)
       else if c = CHR ''B'' then
         obind (UnmangleBItem u one pC new_item st) (\<lambda>(pC', bItem, st').
           let nItem' = add_text (unmangled bItem) nItem in
           nested_loop u one save base n pC' lastName nItem' (push_value nItem' st'))
       else if c = CHR ''C'' \<or> c = CHR ''D'' then
         if lastName = [] then Throw pC
         else
           let nItem' = add_text ((if c = CHR ''C'' then ''::'' else ''::~'') @ lastName) nItem in
           nested_loop u one save base n (pC + 2) lastName nItem' (push_value nItem' st)
       else if c = CHR ''I'' then
         if unmangled nItem = [] then Throw base
         else
           obind (AppendTemplateArguments u one n pC nItem (clear st)) (\<lambda>(pC', nItem', st').
             nested_loop u one save base n pC' lastName nItem' (push_value nItem' st'))
       else if c = CHR ''L'' then nested_loop u one save base n (pC + 1) lastName nItem st
       else if c = CHR ''M'' then
         obind (UnmangleMItem u one n pC new_item st) (\<lambda>(pC', mItem, st').
           nested_loop u one save base n pC' lastName (add_text (unmangled mItem) scoped) st')
       else if c = CHR ''U'' then
         obind (UnmangleUItem u one n pC new_item st) (\<lambda>(pC', uItem, st').
           nested_loop u one save base n pC' lastName (add_text (unmangled uItem) scoped) st')
       else if c = CHR ''c'' then
         obind (char_at u (pC + 1)) (\<lambda>c1.
         case map_of [(CHR ''l'', ''()''), (CHR ''m'', '',''), (CHR ''o'', ''~'')] c1 of
           None \<Rightarrow> Throw (pC + 1)
         | Some symbol \<Rightarrow>
             let nItem' = add_text (''operator'' @ symbol) scoped in
             nested_loop u one save base n (pC + 2) lastName nItem' (clear (push_value nItem' st)))
       else if is_digit c then
         obind (UnmangleNameWithLength u n pC new_item) (\<lambda>(pC', nameItem).
           let nItem' = add_text (unmangled nameItem) scoped in
           nested_loop u one save base n pC' (unmangled nameItem) nItem' (clear (push_value nItem' st)))
       else Throw pC)"

text \<open>The qualifiers \<open>V\<close>, \<open>K\<close>, \<open>R\<close>, \<open>O\<close> in that order.\<close>

definition qualifier_at :: "Unmangler \<Rightarrow> char \<Rightarrow> nat \<Rightarrow> (nat \<times> bool) outcome" where
  "qualifier_at u q pC = obind (char_at u pC) (\<lambda>c. Done (if c = q then (pC + 1, True) else (pC, False)))"

definition UnmangleNItem :: "Unmangler \<Rightarrow> parser \<Rightarrow> nat \<Rightarrow> parser" where
  "UnmangleNItem u one n base nItem st =
     obind (qualifier_at u (CHR ''V'') (base + 1)) (\<lambda>(pC1, v').
     obind (qualifier_at u (CHR ''K'') pC1) (\<lambda>(pC2, k').
     obind (qualifier_at u (CHR ''R'') pC2) (\<lambda>(pC3, r').
     obind (qualifier_at u (CHR ''O'') pC3) (\<lambda>(pC4, ov').
     let item = (case nItem of UnmangledItem t e ps k v r ov \<Rightarrow>
                   UnmangledItem t e ps (k \<or> k') (v \<or> v') (r \<or> r') (ov \<or> ov')) in
     obind (char_at u pC4) (\<lambda>c.
     obind (if c = CHR ''S'' then UnmangleSItem u one n pC4 item st else Done (pC4, item, st)) (\<lambda>(pC5, item5, st5).
     obind (char_at u pC5) (\<lambda>c5.
     obind (if c5 = CHR ''T'' then UnmangleTItem u one n pC5 item5 st5 else Done (pC5, item5, st5)) (\<lambda>(pC6, item6, st6).
       nested_loop u one (saves st) base n pC6 [] item6 st6))))))))"

fun literal_end :: "Unmangler \<Rightarrow> nat \<Rightarrow> nat \<Rightarrow> nat \<Rightarrow> nat outcome" where
  "literal_end u thrown 0 pC = Unfinished"
| "literal_end u thrown (Suc n) pC =
     obind (char_at u pC) (\<lambda>c.
       if c = CHR ''E'' then Done pC else if c = CHR 0x00 then Throw thrown else literal_end u thrown n (pC + 1))"

definition literal_suffix :: "char \<Rightarrow> string option" where
  "literal_suffix = map_of [(CHR ''i'', ''''), (CHR ''j'', ''u''), (CHR ''l'', ''l''), (CHR ''m'', ''ul'')]"

definition UnmangleLItem :: "Unmangler \<Rightarrow> parser \<Rightarrow> nat \<Rightarrow> parser" where
  "UnmangleLItem u one n base lItem st =
     obind (one (base + 1) new_item st) (\<lambda>(pC, startItem, st').
     obind (char_at u pC) (\<lambda>c.
     if c = CHR ''E'' then Done (pC + 1, set_text (unmangled startItem) lItem, st')
     else
       obind (char_at u (base + 1)) (\<lambda>kind.
       if kind = CHR ''b'' then
         let item = (if c = CHR ''0'' then add_text ''false'' lItem else if c = CHR ''1'' then add_text ''true'' lItem else lItem) in
         obind (char_at u (pC + 1)) (\<lambda>c'. if c' \<noteq> CHR ''E'' then Throw base else Done (pC + 2, item, st'))
       else
         obind (literal_end u base n pC) (\<lambda>past.
           let digits = take (past - pC) (drop pC (mangled u)) in
           Done (past + 1,
             case literal_suffix kind of
               Some suffix \<Rightarrow> add_text (digits @ suffix) lItem
             | None \<Rightarrow> add_text (''('' @ unmangled startItem @ '')'' @ digits) lItem, st')))))"

definition builtin_type :: "char \<Rightarrow> string option" where
  "builtin_type = map_of
     [(CHR ''a'', ''signed_char''), (CHR ''b'', ''bool''), (CHR ''c'', ''char''), (CHR ''d'', ''double''), (CHR ''e'', ''long_double''),
      (CHR ''f'', ''float''), (CHR ''g'', ''__float128''), (CHR ''h'', ''unsigned_char''), (CHR ''i'', ''int''),
      (CHR ''j'', ''unsigned_int''), (CHR ''l'', ''long''), (CHR ''m'', ''unsigned_long''), (CHR ''n'', ''__int128''),
      (CHR ''o'', ''unsigned___int128''), (CHR ''s'', ''short''), (CHR ''t'', ''unsigned_short''),
      (CHR ''u'', ''unsigned_long_long''), (CHR ''v'', ''void''), (CHR ''w'', ''wchar_t''), (CHR ''x'', ''long_long''),
      (CHR ''y'', ''unsigned_long_long''), (CHR ''z'', ''...'')]"

definition D_type :: "char \<Rightarrow> string option" where
  "D_type = map_of [(CHR ''a'', ''auto''), (CHR ''c'', ''decltype(auto)''), (CHR ''i'', ''char32_t''),
     (CHR ''n'', ''decltype(nullptr)''), (CHR ''s'', ''char16_t''), (CHR ''u'', ''char8_t'')]"

text \<open>The switch of \<open>UnmangleOneItem\<close> over the first character.\<close>

definition one_item :: "Unmangler \<Rightarrow> parser \<Rightarrow> nat \<Rightarrow> parser" where
  "one_item u one n base topItem st =
     obind (char_at u base) (\<lambda>c.
       if c = CHR ''B'' then UnmangleBItem u one base topItem st
       else if c = CHR ''D'' then
         obind (char_at u (base + 1)) (\<lambda>c1.
           case D_type c1 of
             Some name \<Rightarrow> Done (base + 2, set_text name topItem, st)
           | None \<Rightarrow>
               if c1 = CHR ''o'' then UnmangleDoItem u one base topItem st
               else if c1 = CHR ''p'' then UnmangleDpItem u one base topItem st
               else Throw base)
       else if c = CHR ''F'' then UnmangleFItem u one n base topItem st
       else if c = CHR ''K'' then UnmangleKItem u one base topItem st
       else if c = CHR ''L'' then UnmangleLItem u one n base topItem st
       else if c = CHR ''M'' then UnmangleMItem u one n base topItem st
       else if c = CHR ''N'' then UnmangleNItem u one n base topItem st
       else if c = CHR ''O'' then UnmangleOItem u one base topItem st
       else if c = CHR ''P'' then UnmanglePItem u one base topItem st
       else if c = CHR ''R'' then UnmangleRItem u one base topItem st
       else if c = CHR ''S'' then UnmangleSItem u one n base topItem st
       else if c = CHR ''T'' then UnmangleTItem u one n base topItem st
       else if c = CHR ''U'' then UnmangleUItem u one n base topItem st
       else if c = CHR ''X'' then UnmangleXItem u one base topItem st
       else if c = CHR ''Z'' then UnmangleZItem u one n base topItem st
       else if c = CHR ''_'' then
         obind (char_at u (base + 1)) (\<lambda>c1. if c1 = CHR ''Z'' then Unmangle_ZItem u one n base topItem st else Throw base)
       else if is_digit c then UnmangleSingleNameWithOptionalTemplateArguments u one n base topItem st
       else case builtin_type c of
         Some name \<Rightarrow> Done (base + 1, set_text name topItem, st)
       | None \<Rightarrow> Throw base)"

fun UnmangleOneItem :: "Unmangler \<Rightarrow> nat \<Rightarrow> parser" where
  "UnmangleOneItem u 0 base topItem st = Unfinished"
| "UnmangleOneItem u (Suc n) base topItem st = one_item u (UnmangleOneItem u n) n base topItem st"

text \<open>The fuel is one more than the number of characters; an exception leaves the name empty.\<close>

definition Unmangle :: "bool \<Rightarrow> string \<Rightarrow> string outcome" where
  "Unmangle junk s =
     (if s = [] then Done []
      else
        let star = (s ! 0 = CHR ''*'');
            u = \<lparr>mangled = s, checkAnonymousNamespace = star, um_junk = junk\<rparr>;
            pC = (if star then 1 else 0) in
        case UnmangleOneItem u (length s + 1) pC new_item \<lparr>sValues = [], contexts = []\<rparr> of
          Done (remainder, topItem, st) \<Rightarrow> Done (if remainder = length s then unmangled topItem else [])
        | Throw remainder \<Rightarrow> Done []
        | Undefined \<Rightarrow> Undefined
        | Unfinished \<Rightarrow> Unfinished)"

text \<open>The constructor unmangles nothing if a character is not printable.\<close>

definition Unmangled :: "bool \<Rightarrow> string \<Rightarrow> string outcome" where
  "Unmangled junk s =
     (if \<exists>c\<in>set s. (of_char c :: nat) < 33 \<or> (126 :: nat) < of_char c then Done [] else Unmangle junk s)"

end
