(* ===== verification/Unmangler_Termination.thy ===== *)
theory Unmangler_Termination
  imports Name_Unmangler
begin

text \<open>
  The unmangler always ends: every call of \<open>UnmangleOneItem\<close> that returns has moved on in the string.  The
  same induction shows that no item that is stored or extended has members of a pack, and how an index is written.
\<close>

section \<open>Outcomes that are not unfinished\<close>

fun total :: "'a outcome \<Rightarrow> ('a \<Rightarrow> bool) \<Rightarrow> bool" where
  "total (Done x) Q \<longleftrightarrow> Q x"
| "total (Throw p) Q \<longleftrightarrow> True"
| "total Undefined Q \<longleftrightarrow> True"
| "total Unfinished Q \<longleftrightarrow> False"

lemma total_obind [simp]: "total (obind r f) Q \<longleftrightarrow> total r (\<lambda>x. total (f x) Q)"
  by (cases r) simp_all

lemma total_case_prod [simp]: "total (case_prod f x) Q \<longleftrightarrow> (case x of (a, b) \<Rightarrow> total (f a b) Q)"
  by (cases x) simp

lemma total_if: "(b \<Longrightarrow> total x Q) \<Longrightarrow> (\<not> b \<Longrightarrow> total y Q) \<Longrightarrow> total (if b then x else y) Q"
  by simp

lemma total_mono: "total r Q \<Longrightarrow> (\<And>x. Q x \<Longrightarrow> Q' x) \<Longrightarrow> total r Q'"
  by (cases r) simp_all

lemma total_finished: "total r Q \<Longrightarrow> r \<noteq> Unfinished"
  by (cases r) simp_all

lemma total_char_at: "total (char_at u p) Q \<longleftrightarrow>
    (p < length (mangled u) \<longrightarrow> Q (mangled u ! p)) \<and> (p = length (mangled u) \<longrightarrow> Q (CHR 0x00))"
  by (simp add: char_at_def)

section \<open>Indices\<close>

fun decimal :: "nat \<Rightarrow> string" where
  "decimal n = (if n < 10 then [char_of (48 + n)] else decimal (n div 10) @ [char_of (48 + n mod 10)])"

declare decimal.simps [simp del]

lemma num_chars_step:
  "k \<le> 18 \<Longrightarrow> num_chars index (10 ^ k) n = (if index > 10 ^ k then num_chars index (10 ^ Suc k) (n + 1) else Some (Some n))"
proof -
  assume "k \<le> 18"
  then have "(10 :: nat) ^ k * 10 \<le> 10 ^ 18 * 10" by (intro mult_le_mono1 power_increasing) simp_all
  then have "size_t (10 ^ k * 10) = 10 ^ Suc k" by simp
  then show ?thesis by (subst num_chars.simps) (simp add: Let_def)
qed

lemma num_chars_last: "num_chars index (10 ^ 19) n = (if index > 10 ^ 19 then Some None else Some (Some n))"
  by (subst num_chars.simps) (simp add: Let_def)

text \<open>The number of characters is the least exponent of ten that is not below the index.\<close>

lemma num_chars_outcome:
  assumes "1 \<le> k" "k \<le> 19" "k = 1 \<or> 10 ^ (k - 1) < index"
  shows "if index > 10 ^ 19 then num_chars index (10 ^ k) k = Some None
    else \<exists>m\<ge>1. num_chars index (10 ^ k) k = Some (Some m) \<and> index \<le> 10 ^ m \<and> (m = 1 \<or> 10 ^ (m - 1) < index)"
  using assms
proof (induction "19 - k" arbitrary: k)
  case 0
  then have "k = 19" by simp
  then show ?case using 0(4) num_chars_last [of index 19] by auto
next
  case (Suc d)
  then have k: "k \<le> 18" "d = 19 - Suc k" by simp_all
  show ?case
  proof (cases "index > 10 ^ k")
    case True
    then have "num_chars index (10 ^ k) k = num_chars index (10 ^ Suc k) (Suc k)"
      using num_chars_step [OF k(1), of index k] by simp
    then show ?thesis using Suc(1) [OF k(2)] k(1) True by (simp only: diff_Suc_1) simp
  next
    case False
    have "(10 :: nat) ^ k \<le> 10 ^ 19" by (rule power_increasing) (use k in simp_all)
    then show ?thesis using False num_chars_step [OF k(1), of index k] Suc.prems by auto
  qed
qed

lemma index_chars_decimal:
  "1 \<le> m \<Longrightarrow> index < 10 ^ m \<Longrightarrow> m = 1 \<or> 10 ^ (m - 1) \<le> index \<Longrightarrow> index_chars m index = decimal index"
proof (induction m arbitrary: index)
  case (Suc m)
  show ?case
  proof (cases "m = 0")
    case True
    then show ?thesis using Suc.prems by (simp add: index_chars.simps decimal.simps)
  next
    case False
    then have le: "10 ^ m \<le> index" using Suc.prems by simp
    moreover have "(10 :: nat) ^ 1 \<le> 10 ^ m" by (rule power_increasing) (use False in simp_all)
    ultimately have "10 \<le> index" by simp
    moreover have "m = 1 \<or> 10 ^ (m - 1) \<le> index div 10"
      using le False by (cases m) (simp_all add: less_eq_div_iff_mult_less_eq mult.commute)
    moreover have "index div 10 < 10 ^ m" using Suc.prems(2) by (simp add: div_less_iff_less_mult mult.commute)
    ultimately show ?thesis using False Suc.IH [of "index div 10"]
      by (subst index_chars.simps, subst decimal.simps) simp
  qed
qed simp

lemma zero_char: "char_of (48 :: nat) = CHR ''0''" "char_of (58 :: nat) = CHR '':''"
  by code_simp+

lemma index_chars_power: "index_chars (Suc m) (10 ^ Suc m) = CHR '':'' # replicate m (CHR ''0'')"
proof (induction m)
  case (Suc m)
  have "(10 :: nat) ^ Suc (Suc m) div 10 = 10 ^ Suc m" "(10 :: nat) ^ Suc (Suc m) mod 10 = 0" by simp_all
  then show ?case
    by (subst index_chars.simps) (simp del: power_Suc add: Suc replicate_append_same [symmetric] zero_char)
qed (simp add: index_chars.simps zero_char)

lemma length_decimal_power: "length (decimal (10 ^ m)) = Suc m"
proof (induction m)
  case (Suc m)
  then show ?case by (subst decimal.simps) simp
qed (simp add: decimal.simps)

lemma AppendIndex_added: "AppendIndex index item = Done None \<or> (\<exists>s. AppendIndex index item = Done (Some (add_text s item)))"
  using num_chars_outcome [of 1 index] by (cases "index > 10 ^ 19") (auto simp: AppendIndex_def)

text \<open>
  \<open>AppendIndex\<close> returns for every index and fails only above \<open>10^19\<close>.  It appends the decimal digits of the
  index, except for a power of ten above 1, for which it appends a colon in the place of the first two digits.
\<close>
theorem AppendIndex_correct:
  "AppendIndex index item = Done
     (if index > 10 ^ 19 then None
      else Some (add_text
        (if 10 \<le> index \<and> index = 10 ^ (length (decimal index) - 1)
         then CHR '':'' # replicate (length (decimal index) - 2) (CHR ''0'') else decimal index) item))"
proof (cases "index > 10 ^ 19")
  case True
  then show ?thesis using num_chars_outcome [of 1 index] by (simp add: AppendIndex_def)
next
  case False
  then obtain m where m: "1 \<le> m" "num_chars index 10 1 = Some (Some m)" "index \<le> 10 ^ m" "m = 1 \<or> 10 ^ (m - 1) < index"
    using num_chars_outcome [of 1 index] by auto
  obtain k where k: "m = Suc k" using m(1) by (cases m) auto
  have chars: "index_chars m index =
      (if 10 \<le> index \<and> index = 10 ^ (length (decimal index) - 1)
       then CHR '':'' # replicate (length (decimal index) - 2) (CHR ''0'') else decimal index)"
  proof (cases "index = 10 ^ m")
    case True
    have "(10 :: nat) ^ 1 \<le> 10 ^ m" by (rule power_increasing) (use m(1) in simp_all)
    then show ?thesis unfolding True length_decimal_power using index_chars_power [of k] k by simp
  next
    case False
    then have less: "index < 10 ^ m" using m(3) by simp
    have "index \<noteq> 10 ^ j" if "10 \<le> index" for j
    proof
      assume j: "index = 10 ^ j"
      have "m \<noteq> 1" using that less by auto
      then have "(10 :: nat) ^ k < 10 ^ j" "(10 :: nat) ^ j < 10 ^ Suc k" using m(4) less j k by auto
      then have "k < j" "j < Suc k" by (simp_all only: power_strict_increasing_iff)
      then show False by simp
    qed
    moreover have "index_chars m index = decimal index" using index_chars_decimal [OF m(1) less] m(4) by auto
    ultimately show ?thesis by auto
  qed
  show ?thesis using False m(2) by (simp add: AppendIndex_def chars)
qed

section \<open>Items and states that the parser builds\<close>

definition item_ok :: "UnmangledItem \<Rightarrow> bool" where
  "item_ok item \<longleftrightarrow> packMembers item = [] \<and>
     (\<forall>x. parenthesizedExtensionPoint item = Some x \<longrightarrow> x < length (unmangled item))"

definition state_ok :: "UnmanglerState \<Rightarrow> bool" where
  "state_ok st \<longleftrightarrow> (\<forall>item\<in>set (sValues st). item_ok item) \<and>
     (\<forall>tc\<in>set (contexts st). \<forall>item\<in>set (tc_templateArguments tc). item_ok item)"

text \<open>An item without a text that could be extended, as the callers of \<open>UnmangleOneItem\<close> give it.\<close>

definition blank :: "UnmangledItem \<Rightarrow> bool" where
  "blank item \<longleftrightarrow> packMembers item = [] \<and> parenthesizedExtensionPoint item = None"

lemma blank_ok: "blank item \<Longrightarrow> item_ok item" by (simp add: blank_def item_ok_def)

lemma new_item_blank [simp]: "blank new_item" by (simp add: blank_def new_item_def)

lemma text_simps [simp]:
  "unmangled (set_text s item) = s" "unmangled (add_text s item) = unmangled item @ s"
  "packMembers (set_text s item) = packMembers item" "packMembers (add_text s item) = packMembers item"
  "parenthesizedExtensionPoint (set_text s item) = parenthesizedExtensionPoint item"
  "parenthesizedExtensionPoint (add_text s item) = parenthesizedExtensionPoint item"
  by (cases item; simp add: add_text_def)+

lemma copy_item_simps [simp]:
  "unmangled (copy_item item) = unmangled item" "packMembers (copy_item item) = []"
  "parenthesizedExtensionPoint (copy_item item) = parenthesizedExtensionPoint item"
  by (cases item; simp)+

lemma item_ok_simps [simp]:
  "item_ok item \<Longrightarrow> item_ok (add_text s item)" "item_ok item \<Longrightarrow> item_ok (copy_item item)"
  "blank item \<Longrightarrow> blank (set_text s item)" "blank item \<Longrightarrow> blank (add_text s item)"
  "blank item \<Longrightarrow> item_ok (set_text s item)"
  by (auto simp: item_ok_def blank_def)

text \<open>A copy is good if the extension point of the item is, even that of a pack.\<close>

lemma copy_blank [simp]: "blank (UnmangledItem t None ps k v r ov) \<longleftrightarrow> ps = []"
  "parenthesizedExtensionPoint item = None \<Longrightarrow> item_ok (copy_item item)"
  by (auto simp: item_ok_def blank_def)

lemma Extend_ok: "item_ok item \<Longrightarrow> item_ok (Extend s b item)"
  by (cases item) (auto simp: item_ok_def insert_text_def split: option.splits)

lemma state_ok_simps [simp]:
  "state_ok st \<Longrightarrow> item_ok item \<Longrightarrow> state_ok (push_value item st)"
  "state_ok st \<Longrightarrow> state_ok (push_context u l st)" "state_ok st \<Longrightarrow> state_ok (pop_context st)"
  "state_ok st \<Longrightarrow> state_ok (Resolve st)" "state_ok st \<Longrightarrow> state_ok (ClearTemplateArguments st)"
  "state_ok st \<Longrightarrow> state_ok (SetInDp b st)" "state_ok st \<Longrightarrow> item_ok (copy_item item) \<Longrightarrow> state_ok (AddItem item st)"
  by (cases "contexts st"; auto simp: state_ok_def push_value_def push_context_def pop_context_def Resolve_def
      ClearTemplateArguments_def SetInDp_def AddItem_def on_top_def)+

lemma state_ok_values:
  "state_ok st \<Longrightarrow> i < length (sValues st) \<Longrightarrow> item_ok (sValues st ! i)"
  "state_ok st \<Longrightarrow> item_ok item \<Longrightarrow> state_ok (st\<lparr>sValues := butlast (sValues st) @ [item]\<rparr>)"
  "state_ok st \<Longrightarrow> state_ok (st\<lparr>sValues := butlast (sValues st)\<rparr>)"
  by (auto simp: state_ok_def dest: in_set_butlastD)

definition depth :: "UnmanglerState \<Rightarrow> nat" where
  "depth st = length (contexts st)"

lemma depth_simps [simp]:
  "depth (push_value item st) = depth st" "depth (push_context u l st) = Suc (depth st)" "depth (pop_context st) = depth st - 1"
  "depth (Resolve st) = depth st" "depth (ClearTemplateArguments st) = depth st" "depth (SetInDp b st) = depth st"
  "depth (AddItem item st) = depth st" "depth (st\<lparr>sValues := vs\<rparr>) = depth st"
  by (auto simp: depth_def push_value_def push_context_def pop_context_def Resolve_def ClearTemplateArguments_def
      SetInDp_def AddItem_def on_top_def split: list.splits)

section \<open>Progress\<close>

text \<open>What a call of the parser ends with, if it began at \<open>base\<close> in the state \<open>st\<close>.\<close>

fun moved :: "Unmangler \<Rightarrow> nat \<Rightarrow> UnmanglerState \<Rightarrow> nat \<times> UnmangledItem \<times> UnmanglerState \<Rightarrow> bool" where
  "moved u base st (p, item, st') \<longleftrightarrow>
     base < p \<and> base < length (mangled u) \<and> item_ok item \<and> state_ok st' \<and> depth st' = depth st"

text \<open>The same for template arguments that may be absent, for a pack and for a list of arguments.\<close>

fun stayed :: "nat \<Rightarrow> UnmanglerState \<Rightarrow> nat \<times> UnmangledItem \<times> UnmanglerState \<Rightarrow> bool" where
  "stayed base st (p, item, st') \<longleftrightarrow> base \<le> p \<and> item_ok item \<and> state_ok st' \<and> depth st' = depth st"

fun packed :: "nat \<Rightarrow> UnmanglerState \<Rightarrow> nat \<times> UnmangledItem \<times> UnmanglerState \<Rightarrow> bool" where
  "packed base st (p, item, st') \<longleftrightarrow>
     base < p \<and> parenthesizedExtensionPoint item = None \<and> state_ok st' \<and> depth st' = depth st"

fun listed :: "nat \<Rightarrow> UnmanglerState \<Rightarrow> nat \<times> UnmangledItem list \<times> UnmanglerState \<Rightarrow> bool" where
  "listed base st (p, items, st') \<longleftrightarrow> base < p \<and> state_ok st' \<and> depth st' = depth st"

text \<open>A parser that ends in this way, with enough fuel for what is left of the string.\<close>

definition ends :: "Unmangler \<Rightarrow> nat \<Rightarrow> parser \<Rightarrow> bool" where
  "ends u n one \<longleftrightarrow> (\<forall>base st. length (mangled u) - base < n \<longrightarrow> state_ok st \<longrightarrow>
     total (one base new_item st) (moved u base st))"

lemma endsD:
  assumes "ends u n one" "length (mangled u) - base < n" "state_ok st"
    and "\<And>p item st'. base < p \<Longrightarrow> base < length (mangled u) \<Longrightarrow> item_ok item \<Longrightarrow> state_ok st' \<Longrightarrow> depth st' = depth st \<Longrightarrow> Q (p, item, st')"
  shows "total (one base new_item st) Q"
  by (rule total_mono [of _ "moved u base st"]) (use assms in \<open>auto simp: ends_def\<close>)

lemma read_index_total:
  "length (mangled u) - pC < n \<Longrightarrow> total (read_index u thrown n pC i) (\<lambda>(p, j). pC \<le> p)"
proof (induction n arbitrary: pC i)
  case (Suc n)
  have "total (read_index u thrown n (pC + 1) j) (\<lambda>(p, j). pC \<le> p)" if "pC < length (mangled u)" for j
    using total_mono [OF Suc.IH [of "pC + 1" j]] Suc.prems that by force
  then show ?case by (auto simp: total_char_at is_digit_def)
qed simp

lemma read_length_total:
  "length (mangled u) - pC < n \<Longrightarrow> total (read_length u n pC l) (\<lambda>(p, j). pC \<le> p)"
proof (induction n arbitrary: pC l)
  case (Suc n)
  have "total (read_length u n (pC + 1) j) (\<lambda>(p, j). pC \<le> p)" if "pC < length (mangled u)" for j
    using total_mono [OF Suc.IH [of "pC + 1" j]] Suc.prems that by force
  then show ?case by (auto simp: total_char_at is_digit_def)
qed simp

lemma read_seq_id_total:
  "length (mangled u) - pC < n \<Longrightarrow> total (read_seq_id u thrown n pC i) (\<lambda>(p, j). pC < p)"
proof (induction n arbitrary: pC i)
  case (Suc n)
  have "total (read_seq_id u thrown n (pC + 1) j) (\<lambda>(p, j). pC < p)" if "pC < length (mangled u)" for j
    using total_mono [OF Suc.IH [of "pC + 1" j]] Suc.prems that by force
  then show ?case by (auto simp: total_char_at is_digit_def)
qed simp

lemma literal_end_total:
  "length (mangled u) - pC < n \<Longrightarrow> total (literal_end u thrown n pC) (\<lambda>p. pC \<le> p)"
proof (induction n arbitrary: pC)
  case (Suc n)
  have "total (literal_end u thrown n (pC + 1)) (\<lambda>p. pC \<le> p)" if "pC < length (mangled u)"
    using total_mono [OF Suc.IH [of "pC + 1"]] Suc.prems that by force
  then show ?case by (auto simp: total_char_at)
qed simp

lemma GetItem_total:
  "\<forall>tc\<in>set tcs. \<forall>item\<in>set (tc_templateArguments tc). item_ok item \<Longrightarrow> item_ok item \<Longrightarrow>
    total (GetItem tcs index item) (\<lambda>found. \<forall>item'. found = Some item' \<longrightarrow> item_ok item')"
proof (induction tcs)
  case (Cons tc tcs)
  then show ?case using AppendIndex_added [of "size_t (index + 1)" "add_text ''auto:'' item"]
    by (auto simp: Let_def)
qed simp

lemma name_total:
  assumes "length (mangled u) - base \<le> n" "item_ok item"
    and "\<And>p item'. base < p \<Longrightarrow> base < length (mangled u) \<Longrightarrow> item_ok item' \<Longrightarrow> Q (p, item')"
  shows "total (UnmangleNameWithLength u n base item) Q"
proof -
  have "total (read_length u n (base + 1) l) (\<lambda>(pC, len).
      total (if len > 1000 \<or> pC + len > length (mangled u) then Throw base
         else
           let name = take len (drop pC (mangled u)) in
           Done (pC + len,
             if checkAnonymousNamespace u \<and> name = ''_GLOBAL__N_1'' then add_text ''(anonymous)'' item
             else add_text name item)) Q)"
    if "base < length (mangled u)" for l
    by (rule total_mono [OF read_length_total]) (use that assms in \<open>auto simp: Let_def\<close>)
  then show ?thesis by (auto simp: UnmangleNameWithLength_def total_char_at is_digit_def case_prod_beta')
qed

text \<open>A loop that the parser runs over a pack.\<close>

lemma pack_loop_total:
  assumes one: "ends u N one"
  shows "length (mangled u) - pC < n \<Longrightarrow> length (mangled u) - pC < N \<Longrightarrow> parenthesizedExtensionPoint item = None \<Longrightarrow> state_ok st \<Longrightarrow>
    total (pack_loop u one n pC needComma item st) (packed pC st)"
proof (induction n arbitrary: pC needComma item st)
  case (Suc n)
  have again: "total (pack_loop u one n pC' True
        (case add_text (unmangled member) item' of UnmangledItem t e ps k v r ov \<Rightarrow> UnmangledItem t e (ps @ [copy_item member]) k v r ov) st')
      (packed pC st)"
    if "pC < length (mangled u)" "pC < pC'" "state_ok st'" "depth st' = depth st" "parenthesizedExtensionPoint item' = None" for pC' member st' item'
  proof (rule total_mono [OF Suc.IH])
    show "parenthesizedExtensionPoint (case add_text (unmangled member) item' of
        UnmangledItem t e ps k v r ov \<Rightarrow> UnmangledItem t e (ps @ [copy_item member]) k v r ov) = None"
      using that(5) by (cases item') (simp add: add_text_def)
  qed (use that Suc.prems in auto)
  have pack: "total (pack_loop u one n (Suc pC) False new_item st) (packed (Suc pC) st)" if "pC < length (mangled u)"
    by (rule Suc.IH) (use that Suc.prems in \<open>auto simp: new_item_def\<close>)
  show ?case
    using Suc.prems
    by (auto simp: total_char_at Let_def intro!: endsD [OF one] again total_mono [OF pack])
qed simp

lemma template_loop_total:
  assumes one: "ends u N one"
  shows "length (mangled u) - pC < n \<Longrightarrow> length (mangled u) - pC < N \<Longrightarrow> item_ok item \<Longrightarrow> state_ok st \<Longrightarrow>
    total (template_loop u one save n pC needComma item st) (stayed (Suc pC) st)"
proof (induction n arbitrary: save pC needComma item st)
  case (Suc n)
  have again: "total (template_loop u one save' n pC' True (add_text s item') st') (stayed (Suc pC) st)"
    if "pC < length (mangled u)" "pC < pC'" "state_ok st'" "depth st' = depth st" "item_ok item'" for pC' s st' item' save'
    by (rule total_mono [OF Suc.IH]) (use that Suc.prems in auto)
  have pack: "total (UnmangleParameterPack u one n pC new_item st') (packed pC st')" if "pC < length (mangled u)" "state_ok st'" for st'
    unfolding UnmangleParameterPack_def
    by (rule total_mono [OF pack_loop_total [OF one]]) (use that Suc.prems in \<open>auto simp: new_item_def\<close>)
  show ?case
    using Suc.prems
    by (auto simp: total_char_at Let_def intro!: endsD [OF one] again total_mono [OF pack])
qed simp

lemma optional_total:
  assumes "ends u N one" "length (mangled u) - pC \<le> n" "length (mangled u) - pC \<le> N" "item_ok item" "state_ok st"
  shows "total (optional_arguments u one n pC item st) (stayed pC st)"
  using assms
  by (auto simp: optional_arguments_def AppendTemplateArguments_def total_char_at intro!: total_mono [OF template_loop_total [OF assms(1)]])

lemma append_total:
  assumes "ends u N one" "length (mangled u) - pC \<le> n" "length (mangled u) - pC \<le> N" "item_ok item" "state_ok st"
  shows "total (AppendTemplateArguments u one n pC item st) (moved u pC st)"
  using assms
  by (auto simp: AppendTemplateArguments_def total_char_at intro!: total_mono [OF template_loop_total [OF assms(1)]])

lemma single_name_total:
  assumes "ends u N one" "length (mangled u) - base \<le> n" "length (mangled u) - base \<le> N" "item_ok item" "state_ok st"
  shows "total (UnmangleSingleNameWithOptionalTemplateArguments u one n base item st) (moved u base st)"
  unfolding UnmangleSingleNameWithOptionalTemplateArguments_def
  using assms by (auto intro!: name_total total_mono [OF optional_total [OF assms(1)]])

lemma arguments_loop_total:
  assumes one: "ends u N one"
  shows "length (mangled u) - pC < n \<Longrightarrow> length (mangled u) - pC < N \<Longrightarrow> state_ok st \<Longrightarrow>
    total (arguments_loop u one n pC items st) (listed pC st)"
proof (induction n arbitrary: pC items st)
  case (Suc n)
  have again: "total (arguments_loop u one n pC' items' st') (listed pC st)"
    if "pC < length (mangled u)" "pC < pC'" "state_ok st'" "depth st' = depth st" for pC' st' items'
    by (rule total_mono [OF Suc.IH]) (use that Suc.prems in auto)
  show ?case
    using Suc.prems by (auto simp: total_char_at intro!: endsD [OF one] again)
qed simp

lemma function_arguments_total:
  assumes "ends u N one" "length (mangled u) - pC < n" "length (mangled u) - pC < N" "state_ok st"
  shows "total (UnmangleFunctionArguments u one n pC st) (listed pC st)"
  using assms by (auto simp: UnmangleFunctionArguments_def total_char_at intro!: arguments_loop_total)

text \<open>The items; the parser reads a character at \<open>base\<close> first, so \<open>base\<close> is inside the string.\<close>

lemma simple_items_total:
  assumes "ends u N one" "base < length (mangled u)" "length (mangled u) - base \<le> N" "blank item" "state_ok st"
  shows "total (UnmangleBItem u one base item st) (moved u base st)"
    "total (UnmangleKItem u one base item st) (moved u base st)"
    "total (UnmangleDoItem u one base item st) (moved u base st)"
    "total (UnmangleRItem u one base item st) (moved u base st)"
    "total (UnmangleOItem u one base item st) (moved u base st)"
    "total (UnmanglePItem u one base item st) (moved u base st)"
  using assms
  by (auto simp: UnmangleBItem_def UnmangleKItem_def UnmangleDoItem_def UnmangleRItem_def UnmangleOItem_def UnmanglePItem_def
      qualified_item_def pointed_def Let_def Extend_ok state_ok_values blank_ok intro!: endsD [OF assms(1)])

lemma Dp_total:
  assumes "ends u N one" "base < length (mangled u)" "length (mangled u) - base \<le> N" "state_ok st"
  shows "total (UnmangleDpItem u one base new_item st) (moved u base st)"
  using assms by (auto simp: UnmangleDpItem_def intro!: endsD [OF assms(1)])

lemma F_total:
  assumes "ends u N one" "base < length (mangled u)" "length (mangled u) - base \<le> N" "length (mangled u) - base \<le> n"
    "blank item" "state_ok st"
  shows "total (UnmangleFItem u one n base item st) (moved u base st)"
  unfolding UnmangleFItem_def
  using assms
  by (cases item) (auto simp: Let_def item_ok_def blank_def intro!: endsD [OF assms(1)] total_mono [OF function_arguments_total [OF assms(1)]])

lemma T_total:
  assumes "ends u N one" "base < length (mangled u)" "length (mangled u) - base \<le> N" "length (mangled u) - base \<le> n"
    "item_ok item" "state_ok st"
  shows "total (UnmangleTItem u one n base item st) (moved u base st)"
proof -
  have "\<forall>tc\<in>set (contexts st). \<forall>item\<in>set (tc_templateArguments tc). item_ok item" using assms(6) by (simp add: state_ok_def)
  note get = GetItem_total [OF this assms(5)]
  have "length (mangled u) - Suc base < n" using assms(2,4) by simp
  note read = read_index_total [OF this]
  show ?thesis
    unfolding UnmangleTItem_def GetTIndex_def
    using assms
    by (auto intro!: total_mono [OF read] total_mono [OF get] total_mono [OF optional_total [OF assms(1)]] split: option.split)
qed

lemma AppendIndex_total:
  assumes "\<And>s. Q (Some (add_text s item))" "Q None"
  shows "total (AppendIndex index item) Q"
  using AppendIndex_added [of index item] assms by auto

lemma U_total:
  assumes "ends u N one" "length (mangled u) - base \<le> N" "length (mangled u) - base \<le> n" "blank item" "state_ok st"
  shows "total (UnmangleUItem u one n base item st) (moved u base st)"
proof -
  have read: "total (read_index u thrown n pC 0) Q"
    if "base < pC" "base < length (mangled u)" "\<And>p j. pC \<le> p \<Longrightarrow> Q (p, j)" for pC thrown Q
    by (rule total_mono [OF read_index_total]) (use that assms in auto)
  show ?thesis
    unfolding UnmangleUItem_def
    using assms
    by (auto simp: total_char_at Let_def is_digit_def
        intro!: total_mono [OF function_arguments_total [OF assms(1)]] AppendIndex_total read split: option.split)
qed

lemma M_total:
  assumes "ends u N one" "base < length (mangled u)" "length (mangled u) - base \<le> N" "length (mangled u) - base \<le> n"
    "blank item" "state_ok st"
  shows "total (UnmangleMItem u one n base item st) (moved u base st)"
  unfolding UnmangleMItem_def
  using assms
  by (auto simp: total_char_at Let_def Extend_ok intro!: endsD [OF assms(1)] total_mono [OF U_total [OF assms(1)]])

lemma z_loop_total:
  assumes one: "ends u N one"
  shows "length (mangled u) - pC < n \<Longrightarrow> length (mangled u) - pC < N \<Longrightarrow> item_ok item \<Longrightarrow> state_ok st \<Longrightarrow>
    total (z_loop u one n pC item st) (moved u pC st)"
proof (induction n arbitrary: pC item st)
  case (Suc n)
  have again: "total (z_loop u one n pC' (add_text s item) st') (moved u pC st)"
    if "pC < length (mangled u)" "pC < pC'" "state_ok st'" "depth st' = depth st" for pC' s st'
    by (rule total_mono [OF Suc.IH]) (use that Suc.prems in auto)
  show ?case using Suc.prems by (auto simp: total_char_at Let_def intro!: endsD [OF one] again)
qed simp

lemma underscore_Z_total:
  assumes "ends u N one" "base < length (mangled u)" "length (mangled u) - base \<le> N" "length (mangled u) - base \<le> n" "state_ok st"
  shows "total (Unmangle_ZItem u one n base new_item st) (moved u base st)"
  unfolding Unmangle_ZItem_def
  using assms by (auto simp: total_char_at intro!: endsD [OF assms(1)] total_mono [OF z_loop_total [OF assms(1)]])

lemma Z_total:
  assumes "ends u N one" "base < length (mangled u)" "length (mangled u) - base \<le> N" "length (mangled u) - base \<le> n" "state_ok st"
  shows "total (UnmangleZItem u one n base new_item st) (moved u base st)"
proof -
  let ?st0 = "push_context u False st"
  have name: "total (UnmangleSingleNameWithOptionalTemplateArguments u one n (Suc (Suc base)) new_item ?st0) (moved u base ?st0)"
    using assms by (auto simp: blank_ok intro!: total_mono [OF single_name_total [OF assms(1)]])

  show ?thesis
    unfolding UnmangleZItem_def Let_def
    using assms
    by (auto simp: total_char_at state_ok_values
        intro!: total_mono [OF name] total_mono [OF function_arguments_total [OF assms(1)]] endsD [OF assms(1)])
qed

lemma X_total:
  assumes "ends u N one" "base < length (mangled u)" "length (mangled u) - base \<le> N" "state_ok st"
  shows "total (UnmangleXItem u one base new_item st) (moved u base st)"
  unfolding UnmangleXItem_def UnmangleExpression_def
  using assms by (auto simp: total_char_at blank_ok intro!: endsD [OF assms(1)])

lemma S_total:
  assumes "ends u N one" "base < length (mangled u)" "length (mangled u) - base \<le> N" "length (mangled u) - base \<le> n"
    "blank item" "state_ok st"
  shows "total (UnmangleSItem u one n base item st) (moved u base st)"
proof -
  have fuel: "length (mangled u) - Suc base < n" using assms(2,4) by simp
  have value_ok: "item_ok (sValues st ! i)" if "i < length (sValues st)" for i using state_ok_values(1) [OF assms(6) that] .
  have rest: "total (optional_arguments u one n pC item' st) (moved u base st)" if "base < pC" "item_ok item'" for pC item'
    by (rule total_mono [OF optional_total [OF assms(1)]]) (use assms that in auto)
  have name: "total (UnmangleSingleNameWithOptionalTemplateArguments u one n (base + 2) item' st) (moved u base st)"
    if "item_ok item'" for item'
    by (rule total_mono [OF single_name_total [OF assms(1)]]) (use assms that in auto)
  have number: "total (obind (read_seq_id u base n (base + 1) 0) (\<lambda>(pC, index).
      let index' = size_t (index + 1) in
      if index' \<ge> length (sValues st) then Throw pC else optional_arguments u one n (pC + 1) (sValues st ! index') st))
      (moved u base st)"
    unfolding total_obind
    by (rule total_mono [OF read_seq_id_total]) (use fuel in \<open>auto simp: Let_def linorder_not_le intro!: rest value_ok\<close>)
  define c where "c = (if base + 1 < length (mangled u) then mangled u ! (base + 1) else CHR 0x00)"
  have c: "char_at u (base + 1) = Done c" using assms(2) by (auto simp: char_at_def c_def)
  show ?thesis
    unfolding UnmangleSItem_def c obind.simps
    using assms rest name number value_ok [of 0]
    by (cases "std_name c") (simp_all add: blank_ok)
qed

lemma nested_loop_total:
  assumes one: "ends u N one"
  shows "length (mangled u) - pC < n \<Longrightarrow> length (mangled u) - pC < N \<Longrightarrow> item_ok item \<Longrightarrow> state_ok st \<Longrightarrow>
    total (nested_loop u one save base n pC lastName item st) (moved u pC st)"
proof (induction n arbitrary: save pC lastName item st)
  case (Suc n)
  have again: "total (nested_loop u one save' base n pC' lastName' item' st') (moved u pC st)"
    if "pC < length (mangled u)" "pC < pC'" "state_ok st'" "depth st' = depth st" "item_ok item'" for pC' lastName' item' st' save'
    by (rule total_mono [OF Suc.IH]) (use that Suc.prems in auto)
  have cleared: "state_ok (if save then ClearTemplateArguments st' else st')"
    "depth (if save then ClearTemplateArguments st' else st') = depth st'" if "state_ok st'" for st'
    using that by simp_all
  define scoped where "scoped = (if unmangled item \<noteq> [] then add_text ''::'' item else item)"
  have scoped: "item_ok scoped" using Suc.prems by (simp add: scoped_def)
  show ?case
  proof (cases "pC < length (mangled u)")
    case False
    then show ?thesis by (auto simp: total_char_at is_digit_def)
  next
    case True
    have fuel: "length (mangled u) - pC \<le> n" "length (mangled u) - pC \<le> N" using Suc.prems by simp_all
    define c where "c = mangled u ! pC"
    have c: "char_at u pC = Done c" using True by (simp add: char_at_def c_def)
    have B: "total (UnmangleBItem u one pC new_item st) (moved u pC st)"
      using simple_items_total(1) [OF one True fuel(2)] Suc.prems by simp
    have I: "total (AppendTemplateArguments u one n pC item st') (moved u pC st')" if "state_ok st'" for st'
      by (rule append_total [OF one fuel]) (use that Suc.prems in simp_all)
    have M: "total (UnmangleMItem u one n pC new_item st) (moved u pC st)"
      by (rule M_total [OF one True fuel(2,1)]) (use Suc.prems in simp_all)
    have U: "total (UnmangleUItem u one n pC new_item st) (moved u pC st)"
      by (rule U_total [OF one fuel(2,1)]) (use Suc.prems in simp_all)
    note calls = total_mono [OF B] total_mono [OF I] total_mono [OF M] total_mono [OF U]
    show ?thesis
      unfolding nested_loop.simps c obind.simps Let_def scoped_def [symmetric]
      using Suc.prems True scoped fuel
    proof (intro total_if, goal_cases)
      case 1
      then show ?case by simp
    next
      case 2
      then show ?case by (auto intro!: again total_mono [OF B])
    next
      case 3
      then show ?case by simp
    next
      case 4
      then show ?case by (auto simp del: if_split intro!: again)
    next
      case 5
      then show ?case by simp
    next
      case 6
      then show ?case using Suc.prems(4) by (auto intro!: again total_mono [OF I])
    next
      case 7
      then show ?case by (auto intro!: again)
    next
      case 8
      then show ?case by (auto intro!: again total_mono [OF M])
    next
      case 9
      then show ?case by (auto intro!: again total_mono [OF U])
    next
      case 10
      then show ?case by (auto simp: total_char_at cleared simp del: if_split intro!: again split: option.split)
    next
      case 11
      then show ?case by (auto simp: cleared blank_ok simp del: if_split intro!: again name_total)
    next
      case 12
      then show ?case by simp
    qed
  qed
qed simp

text \<open>The qualifiers at the start of a nested name.\<close>

lemma qualifier_at_total:
  "q \<noteq> CHR 0x00 \<Longrightarrow> pC \<le> length (mangled u) \<Longrightarrow> (\<And>p b. pC \<le> p \<Longrightarrow> p \<le> length (mangled u) \<Longrightarrow> Q (p, b)) \<Longrightarrow> total (qualifier_at u q pC) Q"
  by (auto simp: qualifier_at_def total_char_at)

lemma N_total:
  assumes "ends u N one" "base < length (mangled u)" "length (mangled u) - base \<le> N" "length (mangled u) - base \<le> n" "state_ok st"
  shows "total (UnmangleNItem u one n base new_item st) (moved u base st)"
proof -
  have S: "total (if b then UnmangleSItem u one n pC item st else Done (pC, item, st)) (stayed pC st)"
    if "base < pC" "b \<longrightarrow> pC < length (mangled u)" "blank item" for pC item b
    using assms that by (auto simp: blank_ok intro!: total_mono [OF S_total [OF assms(1)]])
  have T: "total (if b then UnmangleTItem u one n pC item st' else Done (pC, item, st')) (stayed pC st')"
    if "base < pC" "b \<longrightarrow> pC < length (mangled u)" "item_ok item" "state_ok st'" for pC item st' b
    using assms that by (auto intro!: total_mono [OF T_total [OF assms(1)]])
  have loop: "total (nested_loop u one save base n pC [] item st') (moved u base st)"
    if "base < pC" "item_ok item" "state_ok st'" "depth st' = depth st" for pC item st' save
    by (rule total_mono [OF nested_loop_total [OF assms(1)]]) (use assms that in auto)
  have blank: "blank (case new_item of UnmangledItem t e ps k v r ov \<Rightarrow> UnmangledItem t e ps (k \<or> k') (v \<or> v') (r \<or> r') (ov \<or> ov'))"
    for k' v' r' ov' by (simp add: new_item_def)
  define rest where "rest pC item = obind (char_at u pC) (\<lambda>c.
     obind (if c = CHR ''S'' then UnmangleSItem u one n pC item st else Done (pC, item, st)) (\<lambda>(pC5, item5, st5).
     obind (char_at u pC5) (\<lambda>c5.
     obind (if c5 = CHR ''T'' then UnmangleTItem u one n pC5 item5 st5 else Done (pC5, item5, st5)) (\<lambda>(pC6, item6, st6).
       nested_loop u one (saves st) base n pC6 [] item6 st6))))" for pC item
  have rest: "total (rest pC item) (moved u base st)" if "base < pC" "blank item" for pC item
    unfolding rest_def using that blank_ok [OF that(2)] assms
    by (auto simp: total_char_at intro!: total_mono [OF S [where b = True, simplified]] total_mono [OF T [where b = True, simplified]] loop)
  show ?thesis
    unfolding UnmangleNItem_def Let_def rest_def [symmetric] total_obind total_case_prod
    using assms(2) by (auto intro!: qualifier_at_total rest blank)
qed

lemma L_total:
  assumes "ends u N one" "base < length (mangled u)" "length (mangled u) - base \<le> N" "length (mangled u) - base \<le> n"
    "blank item" "state_ok st"
  shows "total (UnmangleLItem u one n base item st) (moved u base st)"
proof -
  have digits: "total (literal_end u base n pC) Q" if "base < pC" "\<And>p. base < p \<Longrightarrow> Q p" for pC Q
    by (rule total_mono [OF literal_end_total]) (use assms that in auto)
  show ?thesis
    unfolding UnmangleLItem_def Let_def
    using assms
    by (auto simp: total_char_at blank_ok intro!: endsD [OF assms(1)] digits split: option.split)
qed

lemma one_item_total:
  assumes one: "ends u n one" and fuel: "length (mangled u) - base \<le> n" and st: "state_ok st"
  shows "total (one_item u one n base new_item st) (moved u base st)"
proof (cases "base < length (mangled u)")
  case False
  then show ?thesis by (auto simp: one_item_def total_char_at is_digit_def builtin_type_def)
next
  case True
  have single: "total (UnmangleSingleNameWithOptionalTemplateArguments u one n base new_item st) (moved u base st)"
    by (rule single_name_total [OF one fuel fuel]) (use st in \<open>simp_all add: blank_ok\<close>)
  have U: "total (UnmangleUItem u one n base new_item st) (moved u base st)"
    by (rule U_total [OF one fuel fuel]) (use st in simp_all)
  have D: "total (case D_type c1 of Some name \<Rightarrow> Done (base + 2, set_text name new_item, st)
      | None \<Rightarrow> if c1 = CHR ''o'' then UnmangleDoItem u one base new_item st
         else if c1 = CHR ''p'' then UnmangleDpItem u one base new_item st else Throw base) (moved u base st)" for c1
    using simple_items_total(3) [OF one True fuel new_item_blank st] Dp_total [OF one True fuel st] True st by (auto split: option.split)
  have c: "char_at u base = Done (mangled u ! base)" using True by (simp add: char_at_def)
  show ?thesis
    unfolding one_item_def c obind.simps
    by (intro total_if)
      (use True st fuel single U D simple_items_total [OF one True fuel new_item_blank st] F_total [OF one True fuel fuel new_item_blank st]
         L_total [OF one True fuel fuel new_item_blank st] M_total [OF one True fuel fuel new_item_blank st]
         N_total [OF one True fuel fuel st] S_total [OF one True fuel fuel new_item_blank st]
         T_total [OF one True fuel fuel blank_ok [OF new_item_blank] st] X_total [OF one True fuel st]
         Z_total [OF one True fuel fuel st] underscore_Z_total [OF one True fuel fuel st]
       in \<open>auto simp: total_char_at split: option.split\<close>)
qed

lemma UnmangleOneItem_ends: "ends u n (UnmangleOneItem u n)"
proof (induction n)
  case (Suc n)
  show ?case unfolding ends_def using one_item_total [OF Suc] by (auto intro: one_item_total [OF Suc])
qed (simp add: ends_def)

text \<open>
  C30: With more fuel than there are characters left, \<open>UnmangleOneItem\<close> ends, for every string: with an exception, with
  an undefined operation, or with an item.  An item takes up at least one character; neither it nor any of the values and
  template arguments that are kept has members of a pack, so that \<open>Extend\<close> never extends the members of a pack
  one by one, and every extension point is a place in its text.
\<close>
theorem UnmangleOneItem_terminates:
  assumes "length (mangled u) - base < n" "state_ok st"
  shows "case UnmangleOneItem u n base new_item st of
      Done (p, item, st') \<Rightarrow> base < p \<and> packMembers item = [] \<and> item_ok item \<and> state_ok st' \<and>
        length (contexts st') = length (contexts st)
    | Unfinished \<Rightarrow> False | _ \<Rightarrow> True"
proof -
  have "total (UnmangleOneItem u n base new_item st) (moved u base st)"
    using UnmangleOneItem_ends assms by (simp add: ends_def)
  then show ?thesis
    by (cases "UnmangleOneItem u n base new_item st") (auto simp: item_ok_def depth_def)
qed

theorem UnmangleOneItem_terminates_witness:
  "\<exists>item st'. UnmangleOneItem \<lparr>mangled = ''PFvicE'', checkAnonymousNamespace = False, um_junk = False\<rparr> 7 0 new_item
      \<lparr>sValues = [], contexts = []\<rparr> = Done (6, item, st') \<and> unmangled item = ''void(*)(int,char)'' \<and> packMembers item = []"
proof -
  let ?u = "\<lparr>mangled = ''PFvicE'', checkAnonymousNamespace = False, um_junk = False\<rparr>"
    and ?st = "\<lparr>sValues = [], contexts = []\<rparr> :: UnmanglerState"
  have "map_option (\<lambda>(p, item, st). (p, unmangled item))
      (case UnmangleOneItem ?u 7 0 new_item ?st of Done r \<Rightarrow> Some r | _ \<Rightarrow> None) = Some (6, ''void(*)(int,char)'')"
    by code_simp
  then obtain item st' where r: "UnmangleOneItem ?u 7 0 new_item ?st = Done (6, item, st')" "unmangled item = ''void(*)(int,char)''"
    by (auto split: outcome.splits)
  have "packMembers item = []"
    using UnmangleOneItem_terminates [of ?u 0 7 ?st] r(1) by (simp add: state_ok_def)
  then show ?thesis using r by blast
qed

text \<open>The whole of a name; the fuel that \<open>Unmangle\<close> starts with is enough.\<close>

lemma Unmangled_terminates: "Unmangled junk s \<noteq> Unfinished"
proof -
  have "total (UnmangleOneItem u n base new_item \<lparr>sValues = [], contexts = []\<rparr>) (moved u base \<lparr>sValues = [], contexts = []\<rparr>)"
    if "length (mangled u) - base < n" for u n base
    using UnmangleOneItem_ends that by (simp add: ends_def state_ok_def)
  note ends = total_finished [OF this]
  have "UnmangleOneItem u (length s + 1) pC new_item \<lparr>sValues = [], contexts = []\<rparr> \<noteq> Unfinished" if "mangled u = s" for u pC
    by (rule ends) (use that in simp)
  then have "Unmangle junk s \<noteq> Unfinished"
    by (auto simp: Unmangle_def Let_def simp del: UnmangleOneItem.simps split: outcome.split)
  then show ?thesis by (simp add: Unmangled_def)
qed

text \<open>
  Names that make the parser pop from an empty vector or read past the end, and names that are not written as they should
  be: a pack whose members are not extended, and an argument list that ends with another opening bracket.
\<close>

lemma Unmangled_undefined:
  "Unmangled junk ''Zi'' = Undefined" "Unmangled junk ''N1AC'' = Undefined" "Unmangled junk ''Lb'' = Undefined"
  by code_simp+

lemma Unmangled_flaws:
  "Unmangled False ''Z1fIJicEEvDpRT_E1x'' = Done ''f<int,char>(int,char&)::x''"
  "Unmangled False ''_Z1fi'' = Done ''f(int(''"
  by code_simp+

end
