(* ===== verification/Unmangler_Roundtrip.thy ===== *)
theory Unmangler_Roundtrip
  imports Unmangler_Termination
begin

text \<open>
  What the unmangler makes of the mangled names of C++ types: for types none of whose components occurs twice, so
  that their names have no substitutions, it gives the type back, written as a declarator.  The types are built from builtin types, names, nested names and class templates by
  pointers, references, \<open>const\<close> and function types.
\<close>

section \<open>Types, their mangled names and how they are written\<close>

text \<open>The builtin types, with their codes in mangled names and their names in C++.\<close>

datatype basic =
  T_void | T_bool | T_char | T_signed_char | T_unsigned_char | T_wchar_t | T_short | T_unsigned_short | T_int | T_unsigned_int |
  T_long | T_unsigned_long | T_long_long | T_unsigned_long_long | T_int128 | T_unsigned_int128 |
  T_float | T_double | T_long_double | T_float128

fun basic_code :: "basic \<Rightarrow> char" where
  "basic_code T_void = CHR ''v''" | "basic_code T_bool = CHR ''b''" | "basic_code T_char = CHR ''c''"
| "basic_code T_signed_char = CHR ''a''" | "basic_code T_unsigned_char = CHR ''h''" | "basic_code T_wchar_t = CHR ''w''"
| "basic_code T_short = CHR ''s''" | "basic_code T_unsigned_short = CHR ''t''"
| "basic_code T_int = CHR ''i''" | "basic_code T_unsigned_int = CHR ''j''"
| "basic_code T_long = CHR ''l''" | "basic_code T_unsigned_long = CHR ''m''"
| "basic_code T_long_long = CHR ''x''" | "basic_code T_unsigned_long_long = CHR ''y''"
| "basic_code T_int128 = CHR ''n''" | "basic_code T_unsigned_int128 = CHR ''o''"
| "basic_code T_float = CHR ''f''" | "basic_code T_double = CHR ''d''"
| "basic_code T_long_double = CHR ''e''" | "basic_code T_float128 = CHR ''g''"

fun basic_name :: "basic \<Rightarrow> string" where
  "basic_name T_void = ''void''" | "basic_name T_bool = ''bool''" | "basic_name T_char = ''char''"
| "basic_name T_signed_char = ''signed char''" | "basic_name T_unsigned_char = ''unsigned char''" | "basic_name T_wchar_t = ''wchar_t''"
| "basic_name T_short = ''short''" | "basic_name T_unsigned_short = ''unsigned short''"
| "basic_name T_int = ''int''" | "basic_name T_unsigned_int = ''unsigned int''"
| "basic_name T_long = ''long''" | "basic_name T_unsigned_long = ''unsigned long''"
| "basic_name T_long_long = ''long long''" | "basic_name T_unsigned_long_long = ''unsigned long long''"
| "basic_name T_int128 = ''__int128''" | "basic_name T_unsigned_int128 = ''unsigned __int128''"
| "basic_name T_float = ''float''" | "basic_name T_double = ''double''"
| "basic_name T_long_double = ''long double''" | "basic_name T_float128 = ''__float128''"

text \<open>Unmangled names have an underscore for every blank.\<close>

definition no_blanks :: "string \<Rightarrow> string" where
  "no_blanks s = map (\<lambda>c. if c = CHR '' '' then CHR ''_'' else c) s"

lemma builtin_type_basic: "builtin_type (basic_code b) = Some (no_blanks (basic_name b))"
  by (cases b) (simp_all add: builtin_type_def no_blanks_def)

lemma basic_name_shape: "no_blanks (basic_name b) \<noteq> [] \<and> last (no_blanks (basic_name b)) \<noteq> CHR ''.''"
  by (cases b) (simp_all add: no_blanks_def)

datatype ctype =
  Basic basic | Named string | Nested "string list" | Template string "ctype list" |
  Pointer ctype | LReference ctype | RReference ctype | Const ctype | Function ctype "ctype list"

definition source_name :: "string \<Rightarrow> string" where
  "source_name s = decimal (length s) @ s"

fun mangle :: "ctype \<Rightarrow> string" where
  "mangle (Basic b) = [basic_code b]"
| "mangle (Named s) = source_name s"
| "mangle (Nested ss) = ''N'' @ concat (map source_name ss) @ ''E''"
| "mangle (Template s ts) = source_name s @ ''I'' @ concat (map mangle ts) @ ''E''"
| "mangle (Pointer t) = ''P'' @ mangle t"
| "mangle (LReference t) = ''R'' @ mangle t"
| "mangle (RReference t) = ''O'' @ mangle t"
| "mangle (Const t) = ''K'' @ mangle t"
| "mangle (Function t ts) = ''F'' @ mangle t @ (if ts = [] then ''v'' else concat (map mangle ts)) @ ''E''"

text \<open>
  The parts of a declarator: what comes first, what is in the parentheses of a function type, if the type is or points to
  one, and what comes last.
\<close>

type_synonym declarator = "string \<times> string option \<times> string"

fun declared :: "declarator \<Rightarrow> string" where
  "declared (before, None, after) = before @ after"
| "declared (before, Some inner, after) = before @ (if inner = [] then [] else ''('' @ inner @ '')'') @ after"

fun point :: "string \<Rightarrow> declarator \<Rightarrow> declarator" where
  "point s (before, None, after) = (before @ s, None, after)"
| "point s (before, Some inner, after) = (before, Some (inner @ s), after)"

fun qualify :: "string \<Rightarrow> declarator \<Rightarrow> declarator" where
  "qualify s (before, None, after) = (before @ s, None, after)"
| "qualify s (before, Some inner, after) = (if inner = [] then (before, Some inner, after @ s) else (before, Some (inner @ s), after))"

fun scoped :: "string list \<Rightarrow> string" where
  "scoped [] = []"
| "scoped [s] = s"
| "scoped (s # ss) = s @ ''::'' @ scoped ss"

fun declarator :: "ctype \<Rightarrow> declarator" where
  "declarator (Basic b) = (no_blanks (basic_name b), None, [])"
| "declarator (Named s) = (s, None, [])"
| "declarator (Nested ss) = (scoped ss, None, [])"
| "declarator (Template s ts) = (s @ ''<'' @ joined (map (\<lambda>t. declared (declarator t)) ts) @ ''>'', None, [])"
| "declarator (Pointer t) = point ''*'' (declarator t)"
| "declarator (LReference t) = point ''&'' (declarator t)"
| "declarator (RReference t) = point ''&&'' (declarator t)"
| "declarator (Const t) = qualify (no_blanks '' const'') (declarator t)"
| "declarator (Function t ts) =
     (declared (declarator t), Some [], ''('' @ joined (map (\<lambda>t. declared (declarator t)) ts) @ '')'')"

definition show_type :: "ctype \<Rightarrow> string" where
  "show_type t = declared (declarator t)"

text \<open>Names are not empty, do not start with a digit and have no dots; \<open>void\<close> is no argument.\<close>

definition name_ok :: "string \<Rightarrow> bool" where
  "name_ok s \<longleftrightarrow> s \<noteq> [] \<and> length s \<le> 1000 \<and> \<not> is_digit (hd s) \<and>
     (\<forall>c\<in>set s. 33 \<le> (of_char c :: nat) \<and> of_char c \<le> (126 :: nat) \<and> c \<noteq> CHR ''.'')"

fun type_ok :: "ctype \<Rightarrow> bool" where
  "type_ok (Basic b) \<longleftrightarrow> True"
| "type_ok (Named s) \<longleftrightarrow> name_ok s"
| "type_ok (Nested ss) \<longleftrightarrow> ss \<noteq> [] \<and> (\<forall>s\<in>set ss. name_ok s)"
| "type_ok (Template s ts) \<longleftrightarrow> name_ok s \<and> (\<forall>t\<in>set ts. type_ok t)"
| "type_ok (Pointer t) \<longleftrightarrow> type_ok t"
| "type_ok (LReference t) \<longleftrightarrow> type_ok t"
| "type_ok (RReference t) \<longleftrightarrow> type_ok t"
| "type_ok (Const t) \<longleftrightarrow> type_ok t"
| "type_ok (Function t ts) \<longleftrightarrow> type_ok t \<and> (\<forall>t\<in>set ts. type_ok t \<and> t \<noteq> Basic T_void)"

section \<open>What is left of the string\<close>

definition rest_at :: "Unmangler \<Rightarrow> nat \<Rightarrow> string \<Rightarrow> bool" where
  "rest_at u p s \<longleftrightarrow> (\<exists>before. mangled u = before @ s \<and> length before = p)"

lemma rest_at_append:
  assumes "rest_at u p (s @ s')"
  shows "rest_at u (p + length s) s'" "take (length s) (drop p (mangled u)) = s" "p + length s + length s' = length (mangled u)"
proof -
  obtain before where b: "mangled u = before @ s @ s'" "length before = p" using assms by (auto simp: rest_at_def)
  then show "rest_at u (p + length s) s'" "take (length s) (drop p (mangled u)) = s" "p + length s + length s' = length (mangled u)"
    by (auto simp: rest_at_def intro: exI [of _ "before @ s"])
qed

lemma rest_at_Cons: "rest_at u p (c # s) \<Longrightarrow> char_at u p = Done c \<and> rest_at u (Suc p) s \<and> p < length (mangled u)"
  using rest_at_append [of u p "[c]" s] by (auto simp: rest_at_def char_at_def nth_append)

lemma rest_at_char: "rest_at u p s \<Longrightarrow> char_at u p = Done (if s = [] then CHR 0x00 else hd s)"
  by (cases s) (auto simp: rest_at_Cons rest_at_def char_at_def)

lemma rest_at_length: "rest_at u p s \<Longrightarrow> length (mangled u) = p + length s"
  by (auto simp: rest_at_def)

section \<open>Names\<close>

abbreviation digits_value :: "nat \<Rightarrow> string \<Rightarrow> nat" where
  "digits_value \<equiv> foldl (\<lambda>l c. l * 10 + digit_value c)"

lemma decimal_digits: "list_all is_digit (decimal n)" "digits_value 0 (decimal n) = n" "decimal n \<noteq> []"
proof (induction n rule: decimal.induct)
  case (1 n)
  have digit: "is_digit (char_of (48 + m))" "digit_value (char_of (48 + m)) = m" if "m < 10" for m :: nat
    using that by (simp_all add: is_digit_def digit_value_def of_char_of)
  {
    case 1
    then show ?case using "1.IH"(1) digit by (simp add: decimal.simps [of n])
  next
    case 2
    then show ?case using "1.IH"(2) digit by (simp add: decimal.simps [of n])
  next
    case 3
    then show ?case by (simp add: decimal.simps [of n])
  }
qed

lemma digits_value_mono: "l \<le> digits_value l ds"
proof (induction ds arbitrary: l)
  case (Cons d ds)
  have "l \<le> l * 10 + digit_value d" by simp
  also have "\<dots> \<le> digits_value (l * 10 + digit_value d) ds" by (rule Cons)
  finally show ?case by simp
qed simp

lemma read_length_digits:
  assumes "list_all is_digit ds" "rest_at u p (ds @ s)" "s \<noteq> [] \<longrightarrow> \<not> is_digit (hd s)" "length ds < n" "digits_value l ds < 2 ^ 31"
  shows "read_length u n p l = Done (p + length ds, digits_value l ds)"
  using assms
proof (induction ds arbitrary: p n l)
  case Nil
  then obtain m where "n = Suc m" by (cases n) auto
  then show ?case using Nil rest_at_char [of u p s] by (auto simp: is_digit_def)
next
  case (Cons d ds)
  then obtain m where n: "n = Suc m" by (cases n) auto
  have "l * 10 + digit_value d < 2 ^ 31"
    using digits_value_mono [of "l * 10 + digit_value d" ds] Cons.prems(5) by simp
  then show ?case using Cons n rest_at_Cons [of u p d "ds @ s"] by (simp add: linorder_not_le)
qed

lemma name_read:
  assumes "rest_at u p (source_name s @ rest)" "name_ok s" "length (mangled u) - p \<le> n" "\<not> checkAnonymousNamespace u"
  shows "UnmangleNameWithLength u n p item = Done (p + length (source_name s), add_text s item)"
proof -
  obtain d ds where d: "decimal (length s) = d # ds" using decimal_digits(3) by (cases "decimal (length s)") auto
  have s: "list_all is_digit ds" "is_digit d" "digits_value (digit_value d) ds = length s"
    using decimal_digits(1,2) [of "length s"] d by simp_all
  have here: "rest_at u p (d # ds @ s @ rest)" using assms(1) d by (simp add: source_name_def)
  note c = rest_at_Cons [OF here]
  have "length (mangled u) - p \<ge> Suc (length ds)" using rest_at_length [OF here] by simp
  then have "read_length u n (Suc p) (digit_value d) = Done (Suc p + length ds, length s)"
    using read_length_digits [of ds u "Suc p" "s @ rest" n "digit_value d"] s c assms(2,3) by (simp add: name_ok_def)
  moreover have at: "rest_at u (Suc p + length ds) (s @ rest)" using rest_at_append [of u "Suc p" ds "s @ rest"] c by simp
  moreover have "take (length s) (drop (Suc p + length ds) (mangled u)) = s" using rest_at_append [OF at] by simp
  moreover have "Suc p + length ds + length s \<le> length (mangled u)" using rest_at_append(3) [OF at] by simp
  ultimately show ?thesis
    using c s assms(2,4) d by (simp add: UnmangleNameWithLength_def name_ok_def Let_def source_name_def)
qed

section \<open>Items that stand for a declarator\<close>

text \<open>The text of a declarator that is not one of a function must not look like a pack.\<close>

fun stands_for :: "declarator \<Rightarrow> UnmangledItem \<Rightarrow> bool" where
  "stands_for (before, None, after) item \<longleftrightarrow>
     unmangled item = before \<and> after = [] \<and> before \<noteq> [] \<and> last before \<noteq> CHR ''.'' \<and> parenthesizedExtensionPoint item = None \<and> packMembers item = []"
| "stands_for (before, Some inner, after) item \<longleftrightarrow>
     unmangled item = declared (before, Some inner, after) \<and> packMembers item = [] \<and> after \<noteq> [] \<and> hd after = CHR ''('' \<and>
     parenthesizedExtensionPoint item = Some (length before + (if inner = [] then 0 else 1 + length inner))"

definition is_function :: "declarator \<Rightarrow> bool" where
  "is_function d \<longleftrightarrow> fst (snd d) = Some []"

lemma stands_for_text: "stands_for d item \<Longrightarrow> unmangled item = declared d"
  by (cases d rule: declared.cases) auto

lemma stands_for_unused: "stands_for d item \<Longrightarrow> HasUnusedParenthesizedExtensionPoint item \<longleftrightarrow> is_function d"
  by (cases d rule: declared.cases) (auto simp: HasUnusedParenthesizedExtensionPoint_def is_function_def text_at_def nth_append hd_conv_nth)

lemma stands_for_copy: "stands_for d item \<Longrightarrow> stands_for d (copy_item item)"
  by (cases d rule: declared.cases; cases item) auto

lemma text_at_last: "t \<noteq> [] \<Longrightarrow> text_at t (length t - Suc 0) = last t"
  by (simp add: text_at_def last_conv_nth)

lemma Extend_point:
  assumes "stands_for d item" "s \<noteq> []" "last s \<noteq> CHR ''.''"
  shows "stands_for (point s d) (Extend s True item)"
proof (cases d rule: declared.cases)
  case (1 before after)
  then show ?thesis using assms
    by (cases item) (auto simp: text_at_last)
next
  case (2 before inner after)
  then show ?thesis using assms
    by (cases item) (auto simp: text_at_def nth_append hd_conv_nth insert_text_def)
qed

lemma Extend_qualify:
  assumes "stands_for d item" "s \<noteq> []" "last s \<noteq> CHR ''.''"
  shows "stands_for (qualify s d) (Extend s False item)"
proof (cases d rule: declared.cases)
  case (1 before after)
  then show ?thesis using assms
    by (cases item) (auto simp: text_at_last)
next
  case (2 before inner after)
  then show ?thesis using assms
    by (cases item) (auto simp: text_at_def nth_append hd_conv_nth insert_text_def)
qed

section \<open>The parser on a mangled type\<close>

text \<open>
  A parser that makes the declarator of a type of its mangled name, whatever follows but template arguments.
\<close>

definition parses :: "Unmangler \<Rightarrow> ctype \<Rightarrow> bool" where
  "parses u t \<longleftrightarrow> (\<forall>n base st rest. rest_at u base (mangle t @ rest) \<longrightarrow> (rest = [] \<or> hd rest \<noteq> CHR ''I'') \<longrightarrow>
     length (mangled u) - base < n \<longrightarrow>
     (\<exists>item st'. UnmangleOneItem u n base new_item st = Done (base + length (mangle t), item, st') \<and>
        stands_for (declarator t) item \<and> (is_function (declarator t) \<longrightarrow> sValues st' \<noteq> [])))"

lemma parsesD:
  assumes "parses u t" "rest_at u base (mangle t @ rest)" "rest = [] \<or> hd rest \<noteq> CHR ''I''" "length (mangled u) - base < n"
  obtains item st' where "UnmangleOneItem u n base new_item st = Done (base + length (mangle t), item, st')"
    "stands_for (declarator t) item" "is_function (declarator t) \<Longrightarrow> sValues st' \<noteq> []"
  using assms unfolding parses_def by blast

text \<open>The first character of a mangled type.\<close>

lemma mangle_hd:
  "type_ok t \<Longrightarrow> mangle t \<noteq> [] \<and> hd (mangle t) \<notin> {CHR ''E'', CHR ''I'', CHR ''J'', CHR ''*''} \<and>
     (hd (mangle t) = CHR ''v'' \<longrightarrow> t = Basic T_void)"
proof (induction t)
  case (Basic b)
  then show ?case by (cases b) simp_all
next
  case (Named s)
  have "is_digit (hd (decimal (length s)))" "decimal (length s) \<noteq> []"
    using decimal_digits(1,3) [of "length s"] by (cases "decimal (length s)"; simp)+
  then show ?case by (auto simp: source_name_def is_digit_def)
next
  case (Template s ts)
  have "is_digit (hd (decimal (length s)))" "decimal (length s) \<noteq> []"
    using decimal_digits(1,3) [of "length s"] by (cases "decimal (length s)"; simp)+
  then show ?case by (auto simp: source_name_def is_digit_def)
qed simp_all

fun commas :: "bool \<Rightarrow> string list \<Rightarrow> string" where
  "commas needComma [] = []"
| "commas needComma (s # ss) = (if needComma then '','' else []) @ s @ commas True ss"

lemma joined_commas: "joined ss = commas False ss"
proof -
  have step: "joined (s # ss) = s @ (if ss = [] then [] else '','' @ joined ss)" for s ss by (cases ss) simp_all
  have "commas True ss = (if ss = [] then [] else '','' @ joined ss)" for ss
    by (induction ss) (simp_all add: step)
  then show ?thesis by (cases ss) (simp_all add: step)
qed

lemma template_loop_types:
  assumes "\<forall>t\<in>set ts. parses u t \<and> type_ok t" "length (mangled u) - pC < n" "length (mangled u) - pC < N"
    "rest_at u pC (concat (map mangle ts) @ CHR ''E'' # rest)"
  shows "\<exists>item' st'. template_loop u (UnmangleOneItem u N) save n pC needComma item st =
      Done (pC + length (concat (map mangle ts)) + 1, item', st') \<and>
    item' = add_text (commas needComma (map show_type ts) @ ''>'') item"
  using assms
proof (induction ts arbitrary: pC n needComma item st)
  case Nil
  then obtain m where "n = Suc m" by (cases n) auto
  then show ?case using rest_at_Cons [of u pC] Nil by simp
next
  case (Cons t ts)
  then obtain m where n: "n = Suc m" by (cases n) auto
  have t: "parses u t" "type_ok t" using Cons.prems(1) by simp_all
  let ?rest = "concat (map mangle ts) @ CHR ''E'' # rest"
  have here: "rest_at u pC (mangle t @ ?rest)" using Cons.prems(4) by simp
  have "hd ?rest \<noteq> CHR ''I''"
  proof (cases ts)
    case (Cons t' ts')
    then show ?thesis using mangle_hd [of t'] Cons.prems(1) by (auto simp: hd_append)
  qed simp
  then obtain member st1 where one: "UnmangleOneItem u N pC new_item (push_context u False st) = Done (pC + length (mangle t), member, st1)"
    "stands_for (declarator t) member"
    using parsesD [OF t(1) here _ Cons.prems(3)] by metis
  have c: "char_at u pC = Done (hd (mangle t))" using rest_at_char [OF here] mangle_hd [OF t(2)] by (auto simp: hd_append)
  have len: "length (mangled u) = pC + length (mangle t) + length ?rest" using rest_at_length [OF here] by simp
  have "mangle t \<noteq> []" using mangle_hd [OF t(2)] by simp
  then have "length (mangled u) - (pC + length (mangle t)) < m" "length (mangled u) - (pC + length (mangle t)) < N"
    using Cons.prems(2,3) n len by (cases "mangle t"; simp)+
  note again = Cons.IH [OF _ this rest_at_append(1) [OF here]]
  let ?item = "add_text (unmangled member) (if needComma then add_text '','' item else item)"
  let ?st = "let st1' = pop_context st1 in if save then AddItem member st1' else st1'"
  obtain item' st' where r: "template_loop u (UnmangleOneItem u N) save m (pC + length (mangle t)) True ?item ?st =
      Done (pC + length (mangle t) + length (concat (map mangle ts)) + 1, item', st')"
    "item' = add_text (commas True (map show_type ts) @ ''>'') ?item"
    using again [of True ?item ?st] Cons.prems(1) by auto
  have "item' = add_text (commas needComma (map show_type (t # ts)) @ ''>'') item"
    using stands_for_text [OF one(2)] by (cases item) (simp add: r(2) add_text_def show_type_def)
  moreover have "template_loop u (UnmangleOneItem u N) save n pC needComma item st =
      Done (pC + length (concat (map mangle (t # ts))) + 1, item', st')"
    unfolding n using c one(1) mangle_hd [OF t(2)] r(1) by (simp add: Let_def add.assoc)
  ultimately show ?case by blast
qed

lemma arguments_loop_types:
  assumes "\<forall>t\<in>set ts. parses u t \<and> type_ok t" "length (mangled u) - pC < n" "length (mangled u) - pC < N"
    "rest_at u pC (concat (map mangle ts) @ CHR ''E'' # rest)"
  shows "\<exists>items' st'. arguments_loop u (UnmangleOneItem u N) n pC items st =
      Done (pC + length (concat (map mangle ts)) + 1, items @ items', st') \<and> map unmangled items' = map show_type ts"
  using assms
proof (induction ts arbitrary: pC n items st)
  case Nil
  then obtain m where "n = Suc m" by (cases n) auto
  then show ?case using rest_at_Cons [of u pC] Nil by simp
next
  case (Cons t ts)
  then obtain m where n: "n = Suc m" by (cases n) auto
  have t: "parses u t" "type_ok t" using Cons.prems(1) by simp_all
  let ?rest = "concat (map mangle ts) @ CHR ''E'' # rest"
  have here: "rest_at u pC (mangle t @ ?rest)" using Cons.prems(4) by simp
  have "hd ?rest \<noteq> CHR ''I''"
  proof (cases ts)
    case (Cons t' ts')
    then show ?thesis using mangle_hd [of t'] Cons.prems(1) by (auto simp: hd_append)
  qed simp
  then obtain member st1 where one: "UnmangleOneItem u N pC new_item st = Done (pC + length (mangle t), member, st1)"
    "stands_for (declarator t) member"
    using parsesD [OF t(1) here _ Cons.prems(3)] by metis
  have c: "char_at u pC = Done (hd (mangle t))" using rest_at_char [OF here] mangle_hd [OF t(2)] by (auto simp: hd_append)
  have len: "length (mangled u) = pC + length (mangle t) + length ?rest" using rest_at_length [OF here] by simp
  have "mangle t \<noteq> []" using mangle_hd [OF t(2)] by simp
  then have "length (mangled u) - (pC + length (mangle t)) < m" "length (mangled u) - (pC + length (mangle t)) < N"
    using Cons.prems(2,3) n len by (cases "mangle t"; simp)+
  note again = Cons.IH [OF _ this rest_at_append(1) [OF here]]
  obtain items' st' where r: "arguments_loop u (UnmangleOneItem u N) m (pC + length (mangle t)) (items @ [copy_item member]) st1 =
      Done (pC + length (mangle t) + length (concat (map mangle ts)) + 1, (items @ [copy_item member]) @ items', st')"
    "map unmangled items' = map show_type ts"
    using again [of "items @ [copy_item member]" st1] Cons.prems(1) by auto
  have "map unmangled (copy_item member # items') = map show_type (t # ts)"
    using stands_for_text [OF one(2)] r(2) by (simp add: show_type_def)
  moreover have "arguments_loop u (UnmangleOneItem u N) n pC items st =
      Done (pC + length (concat (map mangle (t # ts))) + 1, items @ (copy_item member # items'), st')"
    unfolding n using c one(1) mangle_hd [OF t(2)] r(1) by (simp add: add.assoc)
  ultimately show ?case by blast
qed

lemma function_arguments_types:
  assumes "\<forall>t\<in>set ts. parses u t \<and> type_ok t \<and> t \<noteq> Basic T_void" "length (mangled u) - pC < n" "length (mangled u) - pC < N"
    "rest_at u pC ((if ts = [] then ''v'' else concat (map mangle ts)) @ CHR ''E'' # rest)"
  shows "\<exists>items st'. UnmangleFunctionArguments u (UnmangleOneItem u N) n pC st =
      Done (pC + length (if ts = [] then ''v'' else concat (map mangle ts)) + 1, items, st') \<and> map unmangled items = map show_type ts"
proof (cases ts)
  case Nil
  then have "char_at u pC = Done (CHR ''v'')" "char_at u (pC + 1) = Done (CHR ''E'')"
    using assms(4) rest_at_Cons [of u pC "CHR ''v''" "CHR ''E'' # rest"] rest_at_Cons [of u "Suc pC" "CHR ''E''" rest] by simp_all
  then show ?thesis using Nil by (simp add: UnmangleFunctionArguments_def)
next
  case (Cons t ts')
  have "hd (mangle t) \<noteq> CHR ''v''" "mangle t \<noteq> []" using mangle_hd [of t] assms(1) Cons by auto
  then have "char_at u pC = Done (hd (mangle t))" using rest_at_char [OF assms(4)] Cons by (simp add: hd_append)
  then show ?thesis
    using arguments_loop_types [of ts u pC n N rest "[]" st] assms Cons \<open>hd (mangle t) \<noteq> CHR ''v''\<close>
    by (auto simp: UnmangleFunctionArguments_def)
qed

text \<open>Nested names.\<close>

fun colons :: "bool \<Rightarrow> string list \<Rightarrow> string" where
  "colons b [] = []"
| "colons b (s # ss) = (if b then ''::'' else []) @ s @ colons True ss"

lemma scoped_colons: "scoped ss = colons False ss"
proof -
  have step: "scoped (s # ss) = s @ (if ss = [] then [] else ''::'' @ scoped ss)" for s ss by (cases ss) simp_all
  have "colons True ss = (if ss = [] then [] else ''::'' @ scoped ss)" for ss
    by (induction ss) (simp_all add: step)
  then show ?thesis by (cases ss) (simp_all add: step)
qed

lemma digit_not_letter:
  "is_digit d \<Longrightarrow> d \<noteq> CHR ''B'' \<and> d \<noteq> CHR ''C'' \<and> d \<noteq> CHR ''D'' \<and> d \<noteq> CHR ''E'' \<and> d \<noteq> CHR ''I'' \<and> d \<noteq> CHR ''L'' \<and>
     d \<noteq> CHR ''M'' \<and> d \<noteq> CHR ''U'' \<and> d \<noteq> CHR ''c''"
  by (auto simp: is_digit_def)

lemma nested_loop_digit:
  assumes "char_at u pC = Done d" "is_digit d"
  shows "nested_loop u one save base (Suc m) pC lastName item st =
    obind (UnmangleNameWithLength u m pC new_item) (\<lambda>(pC', nameItem).
      let item' = add_text (unmangled nameItem) (if unmangled item \<noteq> [] then add_text ''::'' item else item) in
      nested_loop u one save base m pC' (unmangled nameItem) item'
        (if save then ClearTemplateArguments (push_value item' st) else push_value item' st))"
  unfolding nested_loop.simps assms(1) obind.simps Let_def using digit_not_letter [OF assms(2)] assms(2) by (simp only: if_True if_False simp_thms)

lemma nested_loop_names:
  assumes "\<forall>s\<in>set ss. name_ok s" "length (mangled u) - pC < n" "\<not> checkAnonymousNamespace u"
    "rest_at u pC (concat (map source_name ss) @ CHR ''E'' # rest)"
  shows "\<exists>item' st'. nested_loop u one save base n pC lastName item st =
      Done (pC + length (concat (map source_name ss)) + 1, item', st') \<and>
    item' = add_text (colons (unmangled item \<noteq> []) ss) item"
  using assms
proof (induction ss arbitrary: pC n lastName item st)
  case Nil
  then obtain m where "n = Suc m" by (cases n) auto
  moreover have "add_text [] item = item" by (cases item) (simp add: add_text_def)
  ultimately show ?case using rest_at_Cons [of u pC] Nil by (simp add: Let_def)
next
  case (Cons s ss)
  then obtain m where n: "n = Suc m" by (cases n) auto
  let ?rest = "concat (map source_name ss) @ CHR ''E'' # rest"
  have here: "rest_at u pC (source_name s @ ?rest)" using Cons.prems(4) by simp
  have s: "name_ok s" "s \<noteq> []" using Cons.prems(1) by (simp_all add: name_ok_def)
  obtain d ds where d: "decimal (length s) = d # ds" "is_digit d"
    using decimal_digits(1,3) [of "length s"] by (cases "decimal (length s)") auto
  then have c: "char_at u pC = Done d" using rest_at_char [OF here] by (simp add: source_name_def)
  have len: "length (mangled u) = pC + length (source_name s) + length ?rest" using rest_at_length [OF here] by simp
  have fuel: "length (mangled u) - pC \<le> m" "length (mangled u) - (pC + length (source_name s)) < m"
    using Cons.prems(2) n len d(1) by (simp_all add: source_name_def)
  let ?item = "add_text s (if unmangled item \<noteq> [] then add_text ''::'' item else item)"
  let ?st = "if save then ClearTemplateArguments (push_value ?item st) else push_value ?item st"
  obtain item' st' where r: "nested_loop u one save base m (pC + length (source_name s)) s ?item ?st =
      Done (pC + length (source_name s) + length (concat (map source_name ss)) + 1, item', st')"
    "item' = add_text (colons (unmangled ?item \<noteq> []) ss) ?item"
    using Cons.IH [OF _ fuel(2) Cons.prems(3) rest_at_append(1) [OF here], of s ?item ?st] Cons.prems(1) by auto
  have "item' = add_text (colons (unmangled item \<noteq> []) (s # ss)) item"
    using s(2) by (cases item) (simp add: r(2) add_text_def)
  moreover have "unmangled (add_text s new_item) = s" by (simp add: new_item_def)
  then have "nested_loop u one save base n pC lastName item st = nested_loop u one save base m (pC + length (source_name s)) s ?item ?st"
    unfolding n nested_loop_digit [OF c d(2)] name_read [OF here s(1) fuel(1) Cons.prems(3)] obind.simps prod.case Let_def
    by (simp only:)
  then have "nested_loop u one save base n pC lastName item st =
      Done (pC + length (concat (map source_name (s # ss))) + 1, item', st')"
    unfolding r(1) by (simp add: add.assoc)
  ultimately show ?case by blast
qed

text \<open>What the first character leads to.\<close>

lemma one_item_char:
  "char_at u base = Done (CHR ''F'') \<Longrightarrow> one_item u one n base item st = UnmangleFItem u one n base item st"
  "char_at u base = Done (CHR ''K'') \<Longrightarrow> one_item u one n base item st = UnmangleKItem u one base item st"
  "char_at u base = Done (CHR ''N'') \<Longrightarrow> one_item u one n base item st = UnmangleNItem u one n base item st"
  "char_at u base = Done (CHR ''O'') \<Longrightarrow> one_item u one n base item st = UnmangleOItem u one base item st"
  "char_at u base = Done (CHR ''P'') \<Longrightarrow> one_item u one n base item st = UnmanglePItem u one base item st"
  "char_at u base = Done (CHR ''R'') \<Longrightarrow> one_item u one n base item st = UnmangleRItem u one base item st"
  by (simp_all add: one_item_def)

lemma other_letters:
  assumes "(of_char c :: nat) < 58 \<or> 96 < (of_char c :: nat)"
  shows "(c = CHR ''B'') = False" "(c = CHR ''D'') = False" "(c = CHR ''F'') = False" "(c = CHR ''K'') = False" "(c = CHR ''L'') = False"
    "(c = CHR ''M'') = False" "(c = CHR ''N'') = False" "(c = CHR ''O'') = False" "(c = CHR ''P'') = False" "(c = CHR ''R'') = False"
    "(c = CHR ''S'') = False" "(c = CHR ''T'') = False" "(c = CHR ''U'') = False" "(c = CHR ''X'') = False" "(c = CHR ''Z'') = False"
    "(c = CHR ''_'') = False"
  using assms by auto

lemma one_item_digit:
  "char_at u base = Done c \<Longrightarrow> is_digit c \<Longrightarrow>
    one_item u one n base item st = UnmangleSingleNameWithOptionalTemplateArguments u one n base item st" (is "_ \<Longrightarrow> _ \<Longrightarrow> ?thesis")
proof -
  assume c: "char_at u base = Done c" and d: "is_digit c"
  have "(of_char c :: nat) < 58 \<or> 96 < (of_char c :: nat)" using d by (simp add: is_digit_def)
  from other_letters [OF this] show ?thesis unfolding one_item_def c obind.simps by (simp only: if_False if_True d)
qed

lemma one_item_builtin:
  "char_at u base = Done c \<Longrightarrow> builtin_type c = Some name \<Longrightarrow> one_item u one n base item st = Done (base + 1, set_text name item, st)"
proof -
  assume c: "char_at u base = Done c" and name: "builtin_type c = Some name"
  have "97 \<le> (of_char c :: nat)" using map_of_SomeD [OF name [unfolded builtin_type_def]] by auto
  then have "(of_char c :: nat) < 58 \<or> 96 < (of_char c :: nat)" "is_digit c = False" by (simp_all add: is_digit_def)
  then show "one_item u one n base item st = Done (base + 1, set_text name item, st)"
    using other_letters [of c] unfolding one_item_def c obind.simps by (simp only: if_False option.case name)
qed

lemma single_name_types:
  assumes "\<forall>t\<in>set ts. parses u t \<and> type_ok t" "name_ok s" "length (mangled u) - base \<le> n" "\<not> checkAnonymousNamespace u"
    and "rest_at u base (mangle t @ rest)" "rest = [] \<or> hd rest \<noteq> CHR ''I''"
    and "t = Named s \<and> ts = [] \<or> t = Template s ts"
  shows "\<exists>item st'. UnmangleSingleNameWithOptionalTemplateArguments u (UnmangleOneItem u n) n base new_item st =
      Done (base + length (mangle t), item, st') \<and> stands_for (declarator t) item"
proof -
  let ?rest = "(if t = Named s then [] else ''I'' @ concat (map mangle ts) @ ''E'') @ rest"
  have t: "mangle t = source_name s @ (if t = Named s then [] else ''I'' @ concat (map mangle ts) @ ''E'')" using assms(7) by auto
  have here: "rest_at u base (source_name s @ ?rest)" using assms(5) unfolding t by simp
  note name = name_read [OF here assms(2,3,4)]
  let ?p = "base + length (source_name s)" and ?item = "add_text s new_item" and ?st = "push_value (add_text s new_item) st"
  have at: "rest_at u ?p ?rest" by (rule rest_at_append [OF here])
  have s: "s \<noteq> []" "last s \<noteq> CHR ''.''" using assms(2) last_in_set [of s] by (auto simp: name_ok_def)
  show ?thesis
  proof (cases "t = Named s")
    case True
    then have "char_at u ?p = Done (if rest = [] then CHR 0x00 else hd rest)" using rest_at_char [OF at] by simp
    then have "optional_arguments u (UnmangleOneItem u n) n ?p ?item ?st = Done (?p, ?item, ?st)"
      using assms(6) by (auto simp: optional_arguments_def)
    moreover have "stands_for (declarator t) ?item" using True s by (simp add: new_item_def)
    ultimately show ?thesis
      using True by (auto simp: UnmangleSingleNameWithOptionalTemplateArguments_def name)
  next
    case False
    then have tt: "t = Template s ts" using assms(7) by blast
    have c: "char_at u ?p = Done (CHR ''I'')" and at': "rest_at u (?p + 1) (concat (map mangle ts) @ CHR ''E'' # rest)"
      and "?p < length (mangled u)"
      using rest_at_Cons [of u ?p "CHR ''I''" "concat (map mangle ts) @ CHR ''E'' # rest"] at False by simp_all
    then have fuel: "length (mangled u) - (?p + 1) < n" using assms(3) by simp
    obtain item' st' where r: "template_loop u (UnmangleOneItem u n) (saves ?st) n (?p + 1) False (add_text ''<'' ?item) ?st =
        Done (?p + 1 + length (concat (map mangle ts)) + 1, item', st')"
      "item' = add_text (commas False (map show_type ts) @ ''>'') (add_text ''<'' ?item)"
      using template_loop_types [OF assms(1) fuel fuel at', of "saves ?st" False "add_text ''<'' ?item" ?st] by blast
    have "UnmangleSingleNameWithOptionalTemplateArguments u (UnmangleOneItem u n) n base new_item st =
        Done (base + length (mangle t), item', push_value item' st')"
      using r(1) c tt
      by (simp add: UnmangleSingleNameWithOptionalTemplateArguments_def name optional_arguments_def AppendTemplateArguments_def add.assoc)
    moreover have "stands_for (declarator t) item'"
      using tt by (simp add: r(2) new_item_def joined_commas show_type_def [abs_def])
    ultimately show ?thesis by blast
  qed
qed

lemma prefixed_types:
  assumes "parses u t" "rest_at u (base + 1) (mangle t @ rest)" "rest = [] \<or> hd rest \<noteq> CHR ''I''" "length (mangled u) - (base + 1) < n"
    "s \<noteq> []" "last s \<noteq> CHR ''.''"
  shows "\<exists>item st'. pointed s (UnmangleOneItem u n) (base + 1) st = Done (base + 1 + length (mangle t), item, st') \<and>
      stands_for (point s (declarator t)) item"
    and "\<exists>item st'. qualified_item s (UnmangleOneItem u n) (base + 1) st = Done (base + 1 + length (mangle t), item, st') \<and>
      stands_for (qualify s (declarator t)) item \<and> sValues st' \<noteq> []"
proof -
  obtain item st' where r: "UnmangleOneItem u n (base + 1) new_item st = Done (base + 1 + length (mangle t), item, st')"
    "stands_for (declarator t) item" "is_function (declarator t) \<Longrightarrow> sValues st' \<noteq> []"
    using parsesD [OF assms(1-4)] by metis
  show "\<exists>item st'. pointed s (UnmangleOneItem u n) (base + 1) st = Done (base + 1 + length (mangle t), item, st') \<and>
      stands_for (point s (declarator t)) item"
    using r(1) Extend_point [OF r(2) assms(5,6)] by (simp add: pointed_def Let_def)
  show "\<exists>item st'. qualified_item s (UnmangleOneItem u n) (base + 1) st = Done (base + 1 + length (mangle t), item, st') \<and>
      stands_for (qualify s (declarator t)) item \<and> sValues st' \<noteq> []"
    using r(1,3) Extend_qualify [OF r(2) assms(5,6)] stands_for_unused [OF r(2)]
    by (simp add: qualified_item_def Let_def push_value_def)
qed

lemma point_is_function: "s \<noteq> [] \<Longrightarrow> \<not> is_function (point s d)"
  by (cases d rule: declared.cases) (auto simp: is_function_def)

lemma pointed_parses:
  assumes "mangle t' = c # mangle t" "declarator t' = point s (declarator t)" "s \<noteq> []" "last s \<noteq> CHR ''.''" "parses u t"
    and "\<And>base one n st. char_at u base = Done c \<Longrightarrow> one_item u one n base new_item st = pointed s one (base + 1) st"
  shows "parses u t'"
proof -
  have "\<exists>item st'. UnmangleOneItem u n base new_item st = Done (base + length (mangle t'), item, st') \<and> stands_for (declarator t') item"
    if "rest_at u base (mangle t' @ rest)" "rest = [] \<or> hd rest \<noteq> CHR ''I''" "length (mangled u) - base < n" for n base st rest
  proof -
    have "n = Suc (n - 1)" using that(3) by simp
    then obtain m where n: "n = Suc m" by blast
    have c: "char_at u base = Done c" and "rest_at u (base + 1) (mangle t @ rest)" "length (mangled u) - (base + 1) < m"
      using rest_at_Cons [of u base c "mangle t @ rest"] assms(1) that n by auto
    note pointed = prefixed_types(1) [OF assms(5) this(2) that(2) this(3) assms(3,4)]
    have "UnmangleOneItem u n base new_item st = pointed s (UnmangleOneItem u m) (base + 1) st"
      unfolding n UnmangleOneItem.simps by (rule assms(6) [OF c])
    moreover have "base + length (mangle t') = base + 1 + length (mangle t)" by (simp add: assms(1))
    ultimately show ?thesis unfolding assms(2) using pointed [of st] by simp
  qed
  moreover have "\<not> is_function (declarator t')" unfolding assms(2) by (rule point_is_function [OF assms(3)])
  ultimately show ?thesis unfolding parses_def by blast
qed

lemma nested_types:
  assumes "rest_at u base (mangle (Nested ss) @ rest)" "type_ok (Nested ss)" "length (mangled u) - base \<le> n" "\<not> checkAnonymousNamespace u"
  shows "\<exists>item st'. UnmangleNItem u (UnmangleOneItem u n) n base new_item st = Done (base + length (mangle (Nested ss)), item, st') \<and>
    stands_for (declarator (Nested ss)) item"
proof -
  let ?rest = "concat (map source_name ss) @ CHR ''E'' # rest"
  have at: "rest_at u (base + 1) ?rest" and "base < length (mangled u)"
    using rest_at_Cons [of u base "CHR ''N''" ?rest] assms(1) by simp_all
  then have fuel: "length (mangled u) - (base + 1) < n" using assms(3) by simp
  obtain s ss' where ss: "ss = s # ss'" using assms(2) by (cases ss) auto
  obtain d ds where d: "decimal (length s) = d # ds" "is_digit d"
    using decimal_digits(1,3) [of "length s"] by (cases "decimal (length s)") auto
  have c: "char_at u (base + 1) = Done d" using rest_at_char [OF at] ss d(1) by (simp add: source_name_def)
  have no: "d \<noteq> CHR ''V''" "d \<noteq> CHR ''K''" "d \<noteq> CHR ''R''" "d \<noteq> CHR ''O''" "d \<noteq> CHR ''S''" "d \<noteq> CHR ''T''"
    using d(2) by (auto simp: is_digit_def)
  obtain item st' where r: "nested_loop u (UnmangleOneItem u n) (saves st) base n (base + 1) [] new_item st =
      Done (base + 1 + length (concat (map source_name ss)) + 1, item, st')"
    "item = add_text (colons (unmangled new_item \<noteq> []) ss) new_item"
    using nested_loop_names [OF _ fuel assms(4) at] assms(2) by (metis type_ok.simps(3))
  have "UnmangleNItem u (UnmangleOneItem u n) n base new_item st =
      nested_loop u (UnmangleOneItem u n) (saves st) base n (base + 1) [] new_item st"
    using c no by (simp add: UnmangleNItem_def qualifier_at_def new_item_def)
  moreover have "stands_for (declarator (Nested ss)) item"
  proof -
    have names: "\<forall>s\<in>set ss. s \<noteq> [] \<and> CHR ''.'' \<notin> set s" using assms(2) by (auto simp: name_ok_def)
    then have "CHR ''.'' \<notin> set (colons b ss)" for b
    proof (induction ss arbitrary: b)
      case (Cons s ss)
      then show ?case by auto
    qed simp
    then have dot: "CHR ''.'' \<notin> set (scoped ss)" by (simp add: scoped_colons)
    have "scoped ss \<noteq> []" using names ss by (simp add: scoped_colons)
    moreover have "last (scoped ss) \<noteq> CHR ''.''" using dot last_in_set [OF \<open>scoped ss \<noteq> []\<close>] by metis
    ultimately show ?thesis by (simp add: r(2) new_item_def scoped_colons [symmetric])
  qed
  ultimately show ?thesis using r(1) by simp
qed

lemma function_types:
  assumes "parses u t" "\<forall>t\<in>set ts. parses u t \<and> type_ok t \<and> t \<noteq> Basic T_void"
    "rest_at u base (mangle (Function t ts) @ rest)" "length (mangled u) - base \<le> n" "type_ok t"
  shows "\<exists>item st'. UnmangleFItem u (UnmangleOneItem u n) n base new_item st = Done (base + length (mangle (Function t ts)), item, st') \<and>
    stands_for (declarator (Function t ts)) item \<and> sValues st' \<noteq> []"
proof -
  let ?args = "if ts = [] then ''v'' else concat (map mangle ts)"
  have at: "rest_at u (base + 1) (mangle t @ ?args @ CHR ''E'' # rest)" and "base < length (mangled u)"
    using rest_at_Cons [of u base "CHR ''F''" "mangle t @ ?args @ CHR ''E'' # rest"] assms(3) by simp_all
  then have fuel: "length (mangled u) - (base + 1) < n" using assms(4) by simp
  have "hd (?args @ CHR ''E'' # rest) \<noteq> CHR ''I''"
  proof (cases ts)
    case (Cons t' ts')
    then show ?thesis using mangle_hd [of t'] assms(2) by (auto simp: hd_append)
  qed simp
  then obtain item1 st1 where one: "UnmangleOneItem u n (base + 1) new_item (push_context u False st) = Done (base + 1 + length (mangle t), item1, st1)"
    "stands_for (declarator t) item1"
    using parsesD [OF assms(1) at _ fuel] by metis
  have fuel': "length (mangled u) - (base + 1 + length (mangle t)) < n" using fuel by simp
  obtain items st2 where args: "UnmangleFunctionArguments u (UnmangleOneItem u n) n (base + 1 + length (mangle t)) st1 =
      Done (base + 1 + length (mangle t) + length ?args + 1, items, st2)" "map unmangled items = map show_type ts"
    using function_arguments_types [OF assms(2) fuel' fuel' rest_at_append(1) [OF at]] by blast
  show ?thesis
    using one(1) args stands_for_text [OF one(2)]
    by (simp add: UnmangleFItem_def new_item_def Let_def argument_texts_def push_value_def pop_context_def show_type_def [abs_def] add.assoc)
qed

lemma types_parse:
  assumes "\<not> checkAnonymousNamespace u"
  shows "type_ok t \<Longrightarrow> parses u t"
proof (induction t)
  case (Basic b)
  have "UnmangleOneItem u n base new_item st = Done (base + 1, set_text (no_blanks (basic_name b)) new_item, st)"
    if "rest_at u base (basic_code b # rest)" "length (mangled u) - base < n" for n base st rest
    using one_item_builtin [OF _ builtin_type_basic, of u base b] rest_at_Cons [OF that(1)] that(2) by (cases n) simp_all
  then show ?case
    using basic_name_shape [of b] unfolding parses_def by (auto simp: new_item_def is_function_def)
next
  case (Named s)
  have here: "\<exists>item st'. UnmangleOneItem u n base new_item st = Done (base + length (mangle (Named s)), item, st') \<and>
      stands_for (declarator (Named s)) item"
    if "rest_at u base (mangle (Named s) @ rest)" "rest = [] \<or> hd rest \<noteq> CHR ''I''" "length (mangled u) - base < n" for n base st rest
  proof -
    have "n = Suc (n - 1)" using that(3) by simp
    then obtain m where n: "n = Suc m" by blast
    have "\<exists>c. char_at u base = Done c \<and> is_digit c"
      using rest_at_char [OF that(1)] decimal_digits(1,3) [of "length s"] by (cases "decimal (length s)") (auto simp: source_name_def)
    then show ?thesis
      using single_name_types [of "[]" u s base m "Named s" rest st] one_item_digit [of u base] Named assms that n by auto
  qed
  show ?case unfolding parses_def using here by (force simp: is_function_def)
next
  case (Template s ts)
  have here: "\<exists>item st'. UnmangleOneItem u n base new_item st = Done (base + length (mangle (Template s ts)), item, st') \<and>
      stands_for (declarator (Template s ts)) item"
    if "rest_at u base (mangle (Template s ts) @ rest)" "rest = [] \<or> hd rest \<noteq> CHR ''I''" "length (mangled u) - base < n" for n base st rest
  proof -
    have "n = Suc (n - 1)" using that(3) by simp
    then obtain m where n: "n = Suc m" by blast
    have "\<exists>c. char_at u base = Done c \<and> is_digit c"
      using rest_at_char [OF that(1)] decimal_digits(1,3) [of "length s"] by (cases "decimal (length s)") (auto simp: source_name_def)
    then show ?thesis
      using single_name_types [of ts u s base m "Template s ts" rest st] one_item_digit [of u base] Template assms that n by auto
  qed
  show ?case unfolding parses_def using here by (force simp: is_function_def)
next
  case (Nested ss)
  have here: "\<exists>item st'. UnmangleOneItem u n base new_item st = Done (base + length (mangle (Nested ss)), item, st') \<and>
      stands_for (declarator (Nested ss)) item"
    if "rest_at u base (mangle (Nested ss) @ rest)" "length (mangled u) - base < n" for n base st rest
  proof -
    have "n = Suc (n - 1)" using that(2) by simp
    then obtain m where n: "n = Suc m" by blast
    have "char_at u base = Done (CHR ''N'')" using rest_at_char [OF that(1)] by simp
    then show ?thesis using nested_types [OF that(1) Nested _ assms, of m st] that(2) n by (simp add: one_item_char)
  qed
  show ?case unfolding parses_def using here by (force simp: is_function_def)
next
  case (Function t ts)
  have "\<exists>item st'. UnmangleOneItem u n base new_item st = Done (base + length (mangle (Function t ts)), item, st') \<and>
      stands_for (declarator (Function t ts)) item \<and> sValues st' \<noteq> []"
    if "rest_at u base (mangle (Function t ts) @ rest)" "length (mangled u) - base < n" for n base st rest
  proof -
    have "n = Suc (n - 1)" using that(2) by simp
    then obtain m where n: "n = Suc m" by blast
    have "char_at u base = Done (CHR ''F'')" using rest_at_char [OF that(1)] by simp
    then show ?thesis using function_types [OF _ _ that(1), of m st] Function that(2) n by (simp add: one_item_char)
  qed
  then show ?case unfolding parses_def by blast
next
  case (Pointer t)
  show ?case
    by (rule pointed_parses [where t = t and s = "''*''" and c = "CHR ''P''"]) (use Pointer in \<open>simp_all add: one_item_char UnmanglePItem_def\<close>)
next
  case (LReference t)
  show ?case
    by (rule pointed_parses [where t = t and s = "''&''" and c = "CHR ''R''"]) (use LReference in \<open>simp_all add: one_item_char UnmangleRItem_def\<close>)
next
  case (RReference t)
  show ?case
    by (rule pointed_parses [where t = t and s = "''&&''" and c = "CHR ''O''"]) (use RReference in \<open>simp_all add: one_item_char UnmangleOItem_def\<close>)
next
  case (Const t)
  have "\<exists>item st'. UnmangleOneItem u n base new_item st = Done (base + length (mangle (Const t)), item, st') \<and>
      stands_for (declarator (Const t)) item \<and> sValues st' \<noteq> []"
    if "rest_at u base (mangle (Const t) @ rest)" "rest = [] \<or> hd rest \<noteq> CHR ''I''" "length (mangled u) - base < n" for n base st rest
  proof -
    have "n = Suc (n - 1)" using that(3) by simp
    then obtain m where n: "n = Suc m" by blast
    have "char_at u base = Done (CHR ''K'')" "rest_at u (base + 1) (mangle t @ rest)" "length (mangled u) - (base + 1) < m"
      using rest_at_Cons [of u base "CHR ''K''" "mangle t @ rest"] that n by auto
    then show ?thesis using prefixed_types(2) [of u t base rest m "''_const''" st] Const that n by (simp add: one_item_char UnmangleKItem_def no_blanks_def)
  qed
  then show ?case unfolding parses_def by blast
qed

section \<open>Round trip\<close>

definition printable :: "char \<Rightarrow> bool" where
  "printable c \<longleftrightarrow> 33 \<le> (of_char c :: nat) \<and> of_char c \<le> (126 :: nat)"

lemma source_name_printable:
  assumes "name_ok s"
  shows "\<forall>c\<in>set (source_name s). printable c"
proof -
  have "is_digit c \<Longrightarrow> printable c" for c by (simp add: is_digit_def printable_def)
  then have "\<forall>c\<in>set (decimal (length s)). printable c" using decimal_digits(1) [of "length s"] by (simp add: list_all_iff)
  moreover have "\<forall>c\<in>set s. printable c" using assms by (simp add: name_ok_def printable_def)
  ultimately show ?thesis unfolding source_name_def by auto
qed

lemma printable_letters:
  "printable (CHR ''E'')" "printable (CHR ''F'')" "printable (CHR ''I'')" "printable (CHR ''K'')" "printable (CHR ''N'')"
  "printable (CHR ''O'')" "printable (CHR ''P'')" "printable (CHR ''R'')" "printable (CHR ''v'')"
  by (simp_all add: printable_def)

lemma mangle_printable: "type_ok t \<Longrightarrow> \<forall>c\<in>set (mangle t). printable c"
proof (induction t)
  case (Basic b)
  then show ?case by (cases b) (simp_all add: printable_def)
qed (auto simp: source_name_printable printable_letters)

lemma Unmangled_mangle:
  assumes "type_ok t"
  shows "Unmangled junk (mangle t) = Done (show_type t)"
proof -
  define s where "s = mangle t"
  define u where "u = \<lparr>mangled = s, checkAnonymousNamespace = False, um_junk = junk\<rparr>"
  have s: "s \<noteq> []" "s ! 0 \<noteq> CHR ''*''" using mangle_hd [OF assms] unfolding s_def by (auto simp: hd_conv_nth)
  have anonymous: "\<not> checkAnonymousNamespace u" and u_simps: "mangled u = s" by (simp_all add: u_def)
  have "rest_at u 0 (s @ [])" by (simp add: rest_at_def u_def)
  then obtain item st' where r: "UnmangleOneItem u (length s + 1) 0 new_item \<lparr>sValues = [], contexts = []\<rparr> = Done (length s, item, st')"
    "stands_for (declarator t) item"
    using parsesD [OF types_parse [OF anonymous assms], of 0 "[]" "length s + 1" "\<lparr>sValues = [], contexts = []\<rparr>"]
    unfolding s_def [symmetric] u_simps by (metis add_0 diff_zero less_add_one)
  have "Unmangle junk s = Done (show_type t)"
    using s r(1) stands_for_text [OF r(2)]
    by (simp add: Unmangle_def Let_def u_def show_type_def del: UnmangleOneItem.simps)
  moreover have "\<not> (\<exists>c\<in>set s. (of_char c :: nat) < 33 \<or> (126 :: nat) < of_char c)"
    using mangle_printable [OF assms] by (auto simp: s_def printable_def linorder_not_less)
  ultimately show ?thesis by (simp add: Unmangled_def s_def)
qed

text \<open>
  What \<open>mangle\<close> writes is the mangled name that the C++ ABI defines, under two conditions.  The type is one of C++: there
  are no pointers and references to references, no references to \<open>void\<close>, \<open>const\<close> is not repeated and not applied to
  references and function types, arguments are neither functions nor \<open>const\<close> themselves, a template has arguments,
  and a nested name has at least two parts, the first of which is not the namespace \<open>std\<close>, which is abbreviated.  And
  no component of the type that could be substituted, which is each but the builtin types, occurs a second time.
\<close>

fun is_reference :: "ctype \<Rightarrow> bool" where
  "is_reference (LReference t) = True" | "is_reference (RReference t) = True" | "is_reference t = False"

fun is_const :: "ctype \<Rightarrow> bool" where
  "is_const (Const t) = True" | "is_const t = False"

fun is_function_type :: "ctype \<Rightarrow> bool" where
  "is_function_type (Function t ts) = True" | "is_function_type t = False"

fun cpp_type :: "ctype \<Rightarrow> bool" where
  "cpp_type (Basic b) \<longleftrightarrow> True"
| "cpp_type (Named s) \<longleftrightarrow> True"
| "cpp_type (Nested ss) \<longleftrightarrow> 2 \<le> length ss \<and> hd ss \<noteq> ''std''"
| "cpp_type (Template s ts) \<longleftrightarrow> ts \<noteq> [] \<and> (\<forall>t\<in>set ts. cpp_type t)"
| "cpp_type (Pointer t) \<longleftrightarrow> cpp_type t \<and> \<not> is_reference t"
| "cpp_type (LReference t) \<longleftrightarrow> cpp_type t \<and> \<not> is_reference t \<and> t \<noteq> Basic T_void \<and> t \<noteq> Const (Basic T_void)"
| "cpp_type (RReference t) \<longleftrightarrow> cpp_type t \<and> \<not> is_reference t \<and> t \<noteq> Basic T_void \<and> t \<noteq> Const (Basic T_void)"
| "cpp_type (Const t) \<longleftrightarrow> cpp_type t \<and> \<not> is_reference t \<and> \<not> is_const t \<and> \<not> is_function_type t"
| "cpp_type (Function t ts) \<longleftrightarrow> cpp_type t \<and> \<not> is_function_type t \<and>
     (\<forall>t\<in>set ts. cpp_type t \<and> \<not> is_const t \<and> \<not> is_function_type t)"

fun scope :: "string list \<Rightarrow> ctype" where
  "scope [s] = Named s"
| "scope ss = Nested ss"

fun components :: "ctype \<Rightarrow> ctype list" where
  "components (Basic b) = []"
| "components (Named s) = [Named s]"
| "components (Nested ss) = map (\<lambda>k. scope (take k ss)) [1..<length ss + 1]"
| "components (Template s ts) = Named s # concat (map components ts) @ [Template s ts]"
| "components (Pointer t) = components t @ [Pointer t]"
| "components (LReference t) = components t @ [LReference t]"
| "components (RReference t) = components t @ [RReference t]"
| "components (Const t) = components t @ [Const t]"
| "components (Function t ts) = components t @ concat (map components ts) @ [Function t ts]"

definition mangled_without_substitutions :: "ctype \<Rightarrow> bool" where
  "mangled_without_substitutions t \<longleftrightarrow> cpp_type t \<and> distinct (components t)"

text \<open>
  C29: For every type that is built from builtin types, names, nested names outside of \<open>std\<close> and class templates by
  pointers, references, \<open>const\<close> and function types and in which no component occurs twice, so that its mangled name
  has no substitutions, the unmangler applied to the mangled name gives the type, with the pointers to a function
  type in parentheses before its arguments and underscores for blanks.
\<close>
theorem Unmangled_roundtrip:
  assumes "type_ok t" "mangled_without_substitutions t"
  shows "Unmangled junk (mangle t) = Done (show_type t)"
  by (rule Unmangled_mangle [OF assms(1)])

text \<open>A pointer to a function that takes a pointer to constant characters and a vector of nested names.\<close>

theorem Unmangled_roundtrip_witness:
  "Unmangled True ''PFvPKc6vectorIN1a1bEEE'' = Done ''void(*)(char_const*,vector<a::b>)''"
proof -
  let ?t = "Pointer (Function (Basic T_void) [Pointer (Const (Basic T_char)), Template ''vector'' [Nested [''a'', ''b'']]])"
  have "type_ok ?t" by (simp add: name_ok_def is_digit_def)
  moreover have "mangled_without_substitutions ?t" by (simp add: mangled_without_substitutions_def upt_rec)
  moreover have "mangle ?t = ''PFvPKc6vectorIN1a1bEEE''" by code_simp
  moreover have "show_type ?t = ''void(*)(char_const*,vector<a::b>)''" by code_simp
  ultimately show ?thesis using Unmangled_roundtrip [of ?t True] by metis
qed

end
