(* ===== verification/Hex_Numbers.thy ===== *)
theory Hex_Numbers
  imports Chap_Prelude
begin

text \<open>
  Numbers as the commands read and write them: \<open>is >> std::hex >> v\<close> on an \<open>istringstream\<close> with the test
  \<open>!is.fail() && is.eof()\<close> that always follows it, and \<open>os << std::hex << v\<close>.  The first is the library's
  \<open>num_get\<close> for unsigned integers: white space is skipped, a sign and then the prefix 0x are taken, and a
  number that does not fit fails.
\<close>

section \<open>Reading\<close>

definition is_space :: "char \<Rightarrow> bool" where
  "is_space c \<longleftrightarrow> (let n = of_char c :: nat in n = 32 \<or> 9 \<le> n \<and> n \<le> 13)"

definition hex_digit :: "char \<Rightarrow> nat option" where
  "hex_digit c =
     (let n = of_char c :: nat in
      if 48 \<le> n \<and> n \<le> 57 then Some (n - 48)
      else if 97 \<le> n \<and> n \<le> 102 then Some (n - 87)
      else if 65 \<le> n \<and> n \<le> 70 then Some (n - 55)
      else None)"

definition is_xdigit :: "char \<Rightarrow> bool" where
  "is_xdigit c \<longleftrightarrow> hex_digit c \<noteq> None"

definition hex_value :: "string \<Rightarrow> nat" where
  "hex_value s = foldl (\<lambda>v c. 16 * v + the (hex_digit c)) 0 s"

text \<open>The sign and the prefix.\<close>

fun take_sign :: "string \<Rightarrow> bool \<times> string" where
  "take_sign (c # s) = (if c = CHR ''-'' then (True, s) else if c = CHR ''+'' then (False, s) else (False, c # s))"
| "take_sign [] = (False, [])"

fun take_prefix :: "string \<Rightarrow> string" where
  "take_prefix (z # x # s) = (if z = CHR ''0'' \<and> (x = CHR ''x'' \<or> x = CHR ''X'') then s else z # x # s)"
| "take_prefix s = s"

definition read_hex_below :: "nat \<Rightarrow> string \<Rightarrow> (bool \<times> nat) option" where
  "read_hex_below bound s =
     (case take_sign (dropWhile is_space s) of (negative, s1) \<Rightarrow>
        let s2 = take_prefix s1 in
        if s2 = [] \<or> \<not> list_all is_xdigit s2 then None
        else if bound \<le> hex_value s2 then None
        else Some (negative, hex_value s2))"

definition read_hex :: "string \<Rightarrow> addr option" where
  "read_hex s = map_option (\<lambda>(negative, v). if negative then - of_nat v else of_nat v) (read_hex_below (2 ^ 64) s)"

definition read_hex_u32 :: "string \<Rightarrow> 32 word option" where
  "read_hex_u32 s = map_option (\<lambda>(negative, v). if negative then - of_nat v else of_nat v) (read_hex_below (2 ^ 32) s)"

section \<open>Writing\<close>

definition hex_char :: "nat \<Rightarrow> char" where
  "hex_char d = char_of (if d < 10 then 48 + d else 87 + d)"

fun hex_text :: "nat \<Rightarrow> string" where
  "hex_text n = (if n < 16 then [hex_char n] else hex_text (n div 16) @ [hex_char (n mod 16)])"

declare hex_text.simps [simp del]

definition show_hex :: "addr \<Rightarrow> string" where
  "show_hex a = hex_text (unat a)"

section \<open>What is written is read\<close>

lemma hex_char_digit: "d < 16 \<Longrightarrow> hex_digit (hex_char d) = Some d"
  by (simp add: hex_digit_def hex_char_def Let_def)

lemma hex_value_snoc: "hex_value (s @ [c]) = 16 * hex_value s + the (hex_digit c)"
  by (simp add: hex_value_def)

lemma hex_value_text: "hex_value (hex_text n) = n"
proof (induction n rule: hex_text.induct)
  case (1 n)
  show ?case
  proof (cases "n < 16")
    case True
    then show ?thesis by (simp add: hex_text.simps [of n] hex_value_def hex_char_digit)
  next
    case False
    then show ?thesis using 1 by (simp add: hex_text.simps [of n] hex_value_snoc hex_char_digit)
  qed
qed

lemma hex_text_digits: "list_all is_xdigit (hex_text n)" "hex_text n \<noteq> []"
proof -
  show "hex_text n \<noteq> []" by (simp add: hex_text.simps [of n])
  show "list_all is_xdigit (hex_text n)"
  proof (induction n rule: hex_text.induct)
    case (1 n)
    show ?case by (cases "n < 16") (use 1 in \<open>simp_all add: hex_text.simps [of n] is_xdigit_def hex_char_digit\<close>)
  qed
qed

lemma xdigit_plain: "is_xdigit c \<Longrightarrow> \<not> is_space c \<and> c \<noteq> CHR ''-'' \<and> c \<noteq> CHR ''+'' \<and> c \<noteq> CHR ''x'' \<and> c \<noteq> CHR ''X''"
  by (auto simp: is_xdigit_def hex_digit_def is_space_def Let_def split: if_splits)

text \<open>A string of digits is read as its value, if that fits.\<close>

lemma read_hex_below_digits:
  assumes "list_all is_xdigit s" "s \<noteq> []"
  shows "read_hex_below bound s = (if bound \<le> hex_value s then None else Some (False, hex_value s))"
proof -
  obtain c cs where s: "s = c # cs" using assms(2) by (cases s) auto
  note p = xdigit_plain [of c]
  have "take_prefix s = s" using assms(1) xdigit_plain by (cases s rule: take_prefix.cases) auto
  moreover have "take_sign (dropWhile is_space s) = (False, s)" using assms(1) p by (simp add: s)
  ultimately show ?thesis using assms by (simp add: read_hex_below_def)
qed

lemma read_hex_digits:
  assumes "list_all is_xdigit s" "s \<noteq> []"
  shows "read_hex s = (if 2 ^ 64 \<le> hex_value s then None else Some (of_nat (hex_value s)))"
  by (simp add: read_hex_def read_hex_below_digits [OF assms])

lemma read_hex_show: "read_hex (show_hex a) = Some a"
proof -
  have "unat a < 2 ^ 64" using unsigned_less [of a, where 'a = nat] by simp
  then show ?thesis
    by (simp add: show_hex_def read_hex_digits [OF hex_text_digits] hex_value_text)
qed

end
