(* ===== verification/Signature_Checker.thy ===== *)
theory Signature_Checker
  imports Hex_Numbers Name_Directories Alloc_Iterators Example_Process
begin

text \<open>
  The classes \<open>SignatureChecker\<close> and \<open>ReferenceConstraint\<close> of Allocations/, by which a command narrows a set of
  allocations: by the type of an allocation, given as a signature, the name of one or the name of a pattern, and
  by the number of references from or to allocations of a type.  Of the directory of the types known by their
  typeinfo objects the names and the signatures in use are modelled, as the checker asks for them.
\<close>

section \<open>Names of types\<close>

text \<open>
  Per name the typeinfo objects that have it, and per typeinfo object \<open>details._usedSignatures\<close>, which is a null
  pointer (here \<open>None\<close>) where no signature of the type or a derived one is in use.
\<close>

record TypeInfoDirectory =
  typeNameToTypeInfos :: "string \<rightharpoonup> addr list"
  usedSignatures :: "addr \<rightharpoonup> addr set option"

definition ContainsName :: "TypeInfoDirectory \<Rightarrow> string \<Rightarrow> bool" where
  "ContainsName t name \<longleftrightarrow> typeNameToTypeInfos t name \<noteq> None"

fun add_used :: "TypeInfoDirectory \<Rightarrow> addr list \<Rightarrow> addr set \<Rightarrow> addr set option" where
  "add_used t [] signatures = Some signatures"
| "add_used t (typeInfo # typeInfos) signatures =
     (case usedSignatures t typeInfo of
        None \<Rightarrow> None
      | Some None \<Rightarrow> Some signatures
      | Some (Some used) \<Rightarrow> add_used t typeInfos (signatures \<union> used))"

definition AddSignatures :: "TypeInfoDirectory \<Rightarrow> string \<Rightarrow> addr set \<Rightarrow> addr set option" where
  "AddSignatures t name signatures =
     (case typeNameToTypeInfos t name of None \<Rightarrow> Some signatures | Some typeInfos \<Rightarrow> add_used t typeInfos signatures)"

section \<open>Patterns\<close>

text \<open>\<open>PatternDescriberRegistry::GetTagIndices\<close>; its \<open>GetTagIndex\<close> is that of the tag holder.\<close>

definition pdr_GetTagIndices :: "TagHolder \<Rightarrow> string \<Rightarrow> nat set option" where
  "pdr_GetTagIndices th tagName = (if tagName \<noteq> [] \<and> tagName ! 0 = CHR ''%'' then GetTagIndices th tagName else None)"

section \<open>Construction\<close>

datatype CheckType =
    NO_CHECK_NEEDED
  | UNRECOGNIZED_SIGNATURE
  | UNRECOGNIZED_PATTERN
  | UNSIGNED_ONLY
  | SIGNATURE_CHECK
  | PATTERN_CHECK
  | TYPE_NAME_NO_INSTANCES
  | UNRECOGNIZED_ONLY

record SignatureChecker =
  sc_checkType :: CheckType
  GetSignature :: string
  GetPatternName :: string
  sc_signatures :: "addr set"
  sc_tagIndices :: "nat set option"

text \<open>
  The parts of a process image that the commands refer to: the process, the tags with the two sets of edges, and
  what is known of types.  The constructor of a process image ends with making the graph and the tags.
\<close>

record ProcessImage =
  pi_process :: Process
  pi_tagging :: Tagging
  pi_signatures :: SignatureDirectory
  pi_typeInfos :: TypeInfoDirectory

definition starts_with :: "char \<Rightarrow> string \<Rightarrow> bool" where
  "starts_with c s \<longleftrightarrow> s \<noteq> [] \<and> s ! 0 = c"

definition SignatureChecker_new :: "ProcessImage \<Rightarrow> string \<Rightarrow> SignatureChecker option" where
  "SignatureChecker_new img signature =
     (let sc = \<lparr>sc_checkType = NO_CHECK_NEEDED,
                GetSignature = (if \<not> starts_with (CHR ''%'') signature then signature else []),
                GetPatternName = (if starts_with (CHR ''%'') signature then drop 1 signature else []),
                sc_signatures = {}, sc_tagIndices = None\<rparr> in
      if signature = [] then Some sc
      else if signature = ''-'' then Some (sc\<lparr>sc_checkType := UNSIGNED_ONLY\<rparr>)
      else if signature = ''?'' then Some (sc\<lparr>sc_checkType := UNRECOGNIZED_ONLY\<rparr>)
      else if starts_with (CHR ''%'') signature then
        let tagIndices = pdr_GetTagIndices (tg_holder (pi_tagging img)) signature in
        Some (sc\<lparr>sc_tagIndices := tagIndices,
                 sc_checkType := (if tagIndices = None then UNRECOGNIZED_PATTERN else PATTERN_CHECK)\<rparr>)
      else
        let signatures = Signatures (pi_signatures img) signature in
        if signatures = {} then
          case read_hex signature of
            Some numericSignature \<Rightarrow> Some (sc\<lparr>sc_signatures := {numericSignature}, sc_checkType := SIGNATURE_CHECK\<rparr>)
          | None \<Rightarrow>
              if \<not> ContainsName (pi_typeInfos img) signature then Some (sc\<lparr>sc_checkType := UNRECOGNIZED_SIGNATURE\<rparr>)
              else
                (case AddSignatures (pi_typeInfos img) signature signatures of
                   None \<Rightarrow> None
                 | Some signatures' \<Rightarrow>
                     Some (sc\<lparr>sc_signatures := signatures',
                              sc_checkType := (if signatures' = {} then TYPE_NAME_NO_INSTANCES else SIGNATURE_CHECK)\<rparr>))
        else
          (case AddSignatures (pi_typeInfos img) signature signatures of
             None \<Rightarrow> None
           | Some signatures' \<Rightarrow> Some (sc\<lparr>sc_signatures := signatures', sc_checkType := SIGNATURE_CHECK\<rparr>)))"

definition UnrecognizedSignature :: "SignatureChecker \<Rightarrow> bool" where
  "UnrecognizedSignature sc \<longleftrightarrow> sc_checkType sc = UNRECOGNIZED_SIGNATURE"

definition UnrecognizedPattern :: "SignatureChecker \<Rightarrow> bool" where
  "UnrecognizedPattern sc \<longleftrightarrow> sc_checkType sc = UNRECOGNIZED_PATTERN"

section \<open>The check\<close>

text \<open>
  The first word of an allocation, if it has one; the outer option is the access through the pointer into the
  image, which is made only if a word is there.
\<close>

definition image_signature :: "VirtualAddressMap \<Rightarrow> Allocation \<Rightarrow> addr option option" where
  "image_signature m allocation =
     (case FindMappedMemoryImage m (al_Address allocation) of (numBytesFound, pImage) \<Rightarrow>
        let sz = (if numBytesFound < al_Size allocation then numBytesFound else al_Size allocation) in
        if sz < sizeof_Offset then Some None
        else (case pImage of
                None \<Rightarrow> None
              | Some off \<Rightarrow>
                  (case file_bytes (fileImage m) off 8 of
                     Value bs \<Rightarrow> Some (Some (of_nat (le_value bs)))
                   | _ \<Rightarrow> None)))"

definition Check :: "ProcessImage \<Rightarrow> SignatureChecker \<Rightarrow> nat \<Rightarrow> Allocation \<Rightarrow> bool option" where
  "Check img sc index allocation =
     (case sc_checkType sc of
        NO_CHECK_NEEDED \<Rightarrow> Some True
      | UNRECOGNIZED_SIGNATURE \<Rightarrow> Some False
      | TYPE_NAME_NO_INSTANCES \<Rightarrow> Some False
      | UNRECOGNIZED_PATTERN \<Rightarrow> Some False
      | PATTERN_CHECK \<Rightarrow>
          (case sc_tagIndices sc of
             None \<Rightarrow> None
           | Some tagIndices \<Rightarrow> map_option (\<lambda>t. t \<in> tagIndices) (GetTagIndex (tg_holder (pi_tagging img)) index))
      | UNSIGNED_ONLY \<Rightarrow>
          map_option (\<lambda>w. case w of None \<Rightarrow> True | Some s \<Rightarrow> \<not> IsMapped (pi_signatures img) s) (image_signature (p_map (pi_process img)) allocation)
      | UNRECOGNIZED_ONLY \<Rightarrow>
          (case image_signature (p_map (pi_process img)) allocation of
             None \<Rightarrow> None
           | Some w \<Rightarrow>
               if (case w of None \<Rightarrow> True | Some s \<Rightarrow> \<not> IsMapped (pi_signatures img) s)
               then map_option (\<lambda>t. t = 0) (GetTagIndex (tg_holder (pi_tagging img)) index)
               else Some False)
      | SIGNATURE_CHECK \<Rightarrow>
          map_option (\<lambda>w. case w of None \<Rightarrow> False | Some s \<Rightarrow> s \<in> sc_signatures sc) (image_signature (p_map (pi_process img)) allocation))"

section \<open>Constraints on references\<close>

datatype BoundaryType = MINIMUM | MAXIMUM
datatype ReferenceType = INCOMING | OUTGOING

record ReferenceConstraint =
  rc_signatureChecker :: SignatureChecker
  rc_count :: nat
  wantUsed :: bool
  boundaryType :: BoundaryType
  referenceType :: ReferenceType
  rc_skipTaintedReferences :: bool
  rc_skipUnfavoredReferences :: bool

text \<open>An end of an edge that is not skipped is counted if its allocation is used as wanted and of the type.\<close>

definition end_matches :: "ProcessImage \<Rightarrow> ReferenceConstraint \<Rightarrow> nat \<Rightarrow> bool option" where
  "end_matches img rc otherIndex =
     (case AllocationAt (p_directory (pi_process img)) otherIndex of
        None \<Rightarrow> None
      | Some allocation \<Rightarrow>
          if al_IsUsed allocation = wantUsed rc then Check img (rc_signatureChecker rc) otherIndex allocation
          else Some False)"

definition incoming_matches :: "ProcessImage \<Rightarrow> ReferenceConstraint \<Rightarrow> bool \<Rightarrow> nat \<Rightarrow> bool option" where
  "incoming_matches img rc skipUnfavoredReferences nextIncoming =
     (if rc_skipTaintedReferences rc \<and> ForIncoming (tg_tainted (pi_tagging img)) nextIncoming then Some False
      else if skipUnfavoredReferences \<and> \<not> ForIncoming (tg_favored (pi_tagging img)) nextIncoming then Some False
      else end_matches img rc (GetSourceForIncoming (p_graph (pi_process img)) nextIncoming))"

definition outgoing_matches :: "ProcessImage \<Rightarrow> ReferenceConstraint \<Rightarrow> nat \<Rightarrow> bool option" where
  "outgoing_matches img rc nextOutgoing =
     (if rc_skipTaintedReferences rc \<and> ForOutgoing (tg_tainted (pi_tagging img)) nextOutgoing then Some False
      else
        let targetIndex = GetTargetForOutgoing (p_graph (pi_process img)) nextOutgoing in
        if rc_skipUnfavoredReferences rc \<and> SupportsFavoredReferences (tg_holder (pi_tagging img)) targetIndex \<and>
           \<not> ForOutgoing (tg_favored (pi_tagging img)) nextOutgoing
        then Some False
        else end_matches img rc targetIndex)"

fun count_matches :: "(nat \<Rightarrow> bool option) \<Rightarrow> nat list \<Rightarrow> nat \<Rightarrow> nat option" where
  "count_matches matches [] numMatchingEdges = Some numMatchingEdges"
| "count_matches matches (k # ks) numMatchingEdges =
     (case matches k of
        None \<Rightarrow> None
      | Some b \<Rightarrow> count_matches matches ks (if b then numMatchingEdges + 1 else numMatchingEdges))"

definition Constraint_Check :: "ProcessImage \<Rightarrow> ReferenceConstraint \<Rightarrow> nat \<Rightarrow> bool option" where
  "Constraint_Check img rc index =
     (let g = p_graph (pi_process img);
          numMatchingEdges =
            (if referenceType rc = INCOMING then
               (case GetIncoming g index of
                  (firstIn, pastIn) \<Rightarrow>
                    let skipUnfavored = rc_skipUnfavoredReferences rc;
                        skipUnfavoredReferences =
                          (if \<not> SupportsFavoredReferences (tg_holder (pi_tagging img)) index then False else skipUnfavored) in
                    count_matches (incoming_matches img rc skipUnfavoredReferences) [firstIn..<pastIn] 0)
             else
               (case GetOutgoing g index of
                  (firstOut, pastOut) \<Rightarrow>
                    count_matches (outgoing_matches img rc) [firstOut..<pastOut] 0)) in
      map_option (\<lambda>n. if boundaryType rc = MINIMUM then rc_count rc \<le> n else n \<le> rc_count rc) numMatchingEdges)"

section \<open>What a signature stands for\<close>

text \<open>Every typeinfo object of a name has details.\<close>

definition ti_ok :: "TypeInfoDirectory \<Rightarrow> bool" where
  "ti_ok t \<longleftrightarrow> (\<forall>name typeInfos. typeNameToTypeInfos t name = Some typeInfos \<longrightarrow> (\<forall>a\<in>set typeInfos. usedSignatures t a \<noteq> None))"

text \<open>The levels of wrappers in a directory hold indices of allocations.\<close>

definition levels_ok :: "Directory \<Rightarrow> bool" where
  "levels_ok d \<longleftrightarrow> (\<forall>level\<in>set (wrappers d). \<forall>k\<in>set level. k < NumAllocations d)"

definition pi_ok :: "ProcessImage \<Rightarrow> bool" where
  "pi_ok img \<longleftrightarrow> process_ok (pi_process img) \<and> tagging_ok (pi_process img) (pi_tagging img) \<and> sd_ok (pi_signatures img) \<and>
     ti_ok (pi_typeInfos img) \<and> levels_ok (p_directory (pi_process img))"

abbreviation pi_size :: "ProcessImage \<Rightarrow> nat" where
  "pi_size img \<equiv> NumAllocations (p_directory (pi_process img))"

abbreviation pi_allocation :: "ProcessImage \<Rightarrow> nat \<Rightarrow> Allocation" where
  "pi_allocation img i \<equiv> allocations (p_directory (pi_process img)) ! i"

abbreviation pi_map :: "ProcessImage \<Rightarrow> VirtualAddressMap" where
  "pi_map img \<equiv> p_map (pi_process img)"

text \<open>
  The signatures that the code finds for a type name: those of its typeinfo objects up to the first one without any,
  and what it takes a text for, a number before the name of a type that only the typeinfo objects have.
\<close>

definition used_by_name :: "TypeInfoDirectory \<Rightarrow> string \<Rightarrow> addr set" where
  "used_by_name t name =
     (case typeNameToTypeInfos t name of
        None \<Rightarrow> {}
      | Some typeInfos \<Rightarrow> \<Union> {s. \<exists>a\<in>set (takeWhile (\<lambda>a. usedSignatures t a \<noteq> Some None) typeInfos). usedSignatures t a = Some (Some s)})"

definition denoted :: "ProcessImage \<Rightarrow> string \<Rightarrow> addr set" where
  "denoted img name =
     (if Signatures (pi_signatures img) name = {} \<and> read_hex name \<noteq> None then {the (read_hex name)}
      else Signatures (pi_signatures img) name \<union> used_by_name (pi_typeInfos img) name)"

text \<open>The first word of an allocation that has one in the image.\<close>

definition first_word :: "ProcessImage \<Rightarrow> Allocation \<Rightarrow> addr option" where
  "first_word img a = (if al_Size a < 8 then None else word_at (pi_map img) (al_Address a))"

definition unsigned_allocation :: "ProcessImage \<Rightarrow> Allocation \<Rightarrow> bool" where
  "unsigned_allocation img a \<longleftrightarrow> (\<forall>w. first_word img a = Some w \<longrightarrow> \<not> IsMapped (pi_signatures img) w)"

definition tag_of :: "ProcessImage \<Rightarrow> nat \<Rightarrow> nat" where
  "tag_of img i = tags (tg_holder (pi_tagging img)) ! i"

definition tag_name :: "ProcessImage \<Rightarrow> nat \<Rightarrow> string" where
  "tag_name img i = indexToName (tg_holder (pi_tagging img)) ! tag_of img i"

definition accepts :: "ProcessImage \<Rightarrow> string \<Rightarrow> nat \<Rightarrow> bool" where
  "accepts img signature i =
     (if signature = [] then True
      else if signature = ''-'' then unsigned_allocation img (pi_allocation img i)
      else if signature = ''?'' then unsigned_allocation img (pi_allocation img i) \<and> tag_of img i = 0
      else if starts_with (CHR ''%'') signature then 0 < tag_of img i \<and> tag_name img i = signature
      else (\<exists>w\<in>denoted img signature. first_word img (pi_allocation img i) = Some w))"

lemma image_signature_first_word:
  assumes "vam_ok (pi_map img)"
  shows "image_signature (pi_map img) a = Some (first_word img a)"
proof -
  obtain n image where f: "FindMappedMemoryImage (pi_map img) (al_Address a) = (n, image)" by fastforce
  show ?thesis
    using image_word_at [OF assms, of "al_Address a"]
    by (cases "al_Size a < 8"; cases "n < al_Size a"; cases "n < 8")
      (auto simp: image_signature_def image_word_def first_word_def f Let_def)
qed

lemma add_used_outcome:
  "\<forall>a\<in>set typeInfos. usedSignatures t a \<noteq> None \<Longrightarrow>
   add_used t typeInfos S = Some (S \<union> \<Union> {s. \<exists>a\<in>set (takeWhile (\<lambda>a. usedSignatures t a \<noteq> Some None) typeInfos). usedSignatures t a = Some (Some s)})"
proof (induction typeInfos arbitrary: S)
  case (Cons a as)
  obtain u where u: "usedSignatures t a = Some u" using Cons.prems by auto
  then show ?case using Cons by (cases u) auto
qed simp

lemma AddSignatures_outcome: "ti_ok t \<Longrightarrow> AddSignatures t name S = Some (S \<union> used_by_name t name)"
  by (auto simp: AddSignatures_def used_by_name_def ti_ok_def add_used_outcome split: option.split)

lemma used_by_unknown: "\<not> ContainsName t name \<Longrightarrow> used_by_name t name = {}"
  by (simp add: ContainsName_def used_by_name_def)

text \<open>The three kinds of error in a signature.\<close>

definition unrecognized :: "ProcessImage \<Rightarrow> string \<Rightarrow> bool" where
  "unrecognized img s \<longleftrightarrow> s \<noteq> [] \<and> s \<noteq> ''-'' \<and> s \<noteq> ''?'' \<and> \<not> starts_with (CHR ''%'') s \<and>
     Signatures (pi_signatures img) s = {} \<and> read_hex s = None \<and> \<not> ContainsName (pi_typeInfos img) s"

definition unknown_pattern :: "ProcessImage \<Rightarrow> string \<Rightarrow> bool" where
  "unknown_pattern img s \<longleftrightarrow> starts_with (CHR ''%'') s \<and> GetTagIndices (tg_holder (pi_tagging img)) s = None"

lemma tag_indices:
  assumes "pi_ok img" "i < pi_size img"
  shows "GetTagIndex (tg_holder (pi_tagging img)) i = Some (tag_of img i)"
    "GetTagIndices (tg_holder (pi_tagging img)) s = Some is \<Longrightarrow> tag_of img i \<in> is \<longleftrightarrow> 0 < tag_of img i \<and> tag_name img i = s"
    "GetTagIndices (tg_holder (pi_tagging img)) s = None \<Longrightarrow> \<not> (0 < tag_of img i \<and> tag_name img i = s)"
proof -
  let ?th = "tg_holder (pi_tagging img)"
  have th: "th_ok ?th" "i < th_numAllocations ?th" using assms by (simp_all add: pi_ok_def tagging_ok_def)
  then have t: "tag_of img i < length (indexToName ?th)"
    unfolding th_ok_def tag_of_def by (metis nth_mem)
  have n: "nameToTagIndices ?th s = (if tags_named (indexToName ?th) s = {} then None else Some (tags_named (indexToName ?th) s))"
    using th(1) by (simp add: th_ok_def)
  have m: "tag_of img i \<in> tags_named (indexToName ?th) s \<longleftrightarrow> 0 < tag_of img i \<and> tag_name img i = s"
    using t by (auto simp: tags_named_def tag_name_def)
  show "GetTagIndex ?th i = Some (tag_of img i)" using th(2) by (simp add: GetTagIndex_def tag_of_def)
  show "GetTagIndices ?th s = Some is \<Longrightarrow> tag_of img i \<in> is \<longleftrightarrow> 0 < tag_of img i \<and> tag_name img i = s"
    using n m by (auto simp: GetTagIndices_def split: if_splits)
  show "GetTagIndices ?th s = None \<Longrightarrow> \<not> (0 < tag_of img i \<and> tag_name img i = s)"
    using n m by (auto simp: GetTagIndices_def split: if_splits)
qed

lemma Check_accepts:
  assumes "pi_ok img"
  obtains sc where "SignatureChecker_new img s = Some sc" "UnrecognizedSignature sc \<longleftrightarrow> unrecognized img s"
    "UnrecognizedPattern sc \<longleftrightarrow> unknown_pattern img s"
    "\<And>i. i < pi_size img \<Longrightarrow> Check img sc i (pi_allocation img i) = Some (accepts img s i)"
proof -
  have ti: "ti_ok (pi_typeInfos img)" and m: "vam_ok (pi_map img)"
    using assms by (simp_all add: pi_ok_def process_ok_def)
  note w = image_signature_first_word [OF m] and T = tag_indices [OF assms]
  note defs = SignatureChecker_new_def Let_def UnrecognizedSignature_def UnrecognizedPattern_def unrecognized_def unknown_pattern_def
  consider "s = []" | "s = ''-''" | "s = ''?''" | "starts_with (CHR ''%'') s"
    | "s \<noteq> []" "s \<noteq> ''-''" "s \<noteq> ''?''" "\<not> starts_with (CHR ''%'') s" by blast
  then show ?thesis
  proof cases
    case 1
    show ?thesis by (rule that) (auto simp: 1 defs Check_def accepts_def starts_with_def)
  next
    case 2
    show ?thesis
      by (rule that) (auto simp: 2 defs Check_def accepts_def starts_with_def w unsigned_allocation_def split: option.split)
  next
    case 3
    show ?thesis
      by (rule that) (auto simp: 3 defs Check_def accepts_def starts_with_def w T unsigned_allocation_def split: option.split)
  next
    case 4
    then have ne: "s \<noteq> []" "s \<noteq> ''-''" "s \<noteq> ''?''" "s \<noteq> [] \<and> s ! 0 = CHR ''%''" by (auto simp: starts_with_def)
    then have g: "pdr_GetTagIndices (tg_holder (pi_tagging img)) s = GetTagIndices (tg_holder (pi_tagging img)) s"
      by (simp add: pdr_GetTagIndices_def)
    show ?thesis
    proof (cases "GetTagIndices (tg_holder (pi_tagging img)) s")
      case None
      show ?thesis by (rule that) (use 4 ne g None T(3) [OF _ None] in \<open>auto simp: defs Check_def accepts_def\<close>)
    next
      case (Some "is")
      show ?thesis by (rule that) (use 4 ne g Some T(1) T(2) [OF _ Some] in \<open>auto simp: defs Check_def accepts_def\<close>)
    qed
  next
    case 5
    note U = AddSignatures_outcome [OF ti] used_by_unknown
    obtain sc where sc: "SignatureChecker_new img s = Some sc"
      using 5 by (cases "SignatureChecker_new img s") (auto simp: defs U split: option.splits if_splits)
    show ?thesis
      by (rule that [OF sc])
        (use 5 sc in \<open>auto simp: defs Check_def accepts_def w U denoted_def split: option.splits if_splits\<close>)
  qed
qed

section \<open>Edges of an allocation\<close>

lemma edge_ends:
  assumes "edges_ok g" "i < g_numAllocations g"
  shows "distinct (map (GetSourceForIncoming g) [fst (GetIncoming g i)..<snd (GetIncoming g i)])"
    "set (map (GetSourceForIncoming g) [fst (GetIncoming g i)..<snd (GetIncoming g i)]) = {s. is_edge g s i}"
    "distinct (map (GetTargetForOutgoing g) [fst (GetOutgoing g i)..<snd (GetOutgoing g i)])"
    "set (map (GetTargetForOutgoing g) [fst (GetOutgoing g i)..<snd (GetOutgoing g i)]) = {t. is_edge g i t}"
proof -
  have r: "GetIncoming g i = (firstIncoming g ! i, firstIncoming g ! (i + 1))"
    "GetOutgoing g i = (firstOutgoing g ! i, firstOutgoing g ! (i + 1))"
    using assms(2) by (simp_all add: GetIncoming_def GetOutgoing_def edge_range_def)
  note p = position_edge [OF assms(1)] and e = edge_positions [OF assms(1)]
  have len: "length (outgoing g) = totalEdges g" "length (incoming g) = totalEdges g"
    using assms(1) by (simp_all add: edges_ok_def)
  show "distinct (map (GetSourceForIncoming g) [fst (GetIncoming g i)..<snd (GetIncoming g i)])"
    using p(2) [OF assms(2)] by (auto simp: r distinct_map intro!: inj_onI) metis
  show "distinct (map (GetTargetForOutgoing g) [fst (GetOutgoing g i)..<snd (GetOutgoing g i)])"
    using p(1) [OF assms(2)] by (auto simp: r distinct_map intro!: inj_onI) metis
  have "s \<in> GetSourceForIncoming g ` {firstIncoming g ! i..<firstIncoming g ! (i + 1)}" if "is_edge g s i" for s
    using e(3,4,6,8) [OF that] by (intro image_eqI [of _ _ "GetIncomingEdgeIndex g s i"]) (simp_all add: GetSourceForIncoming_def)
  then show "set (map (GetSourceForIncoming g) [fst (GetIncoming g i)..<snd (GetIncoming g i)]) = {s. is_edge g s i}"
    using p(2) [OF assms(2)] by (auto simp: r)
  have "t \<in> GetTargetForOutgoing g ` {firstOutgoing g ! i..<firstOutgoing g ! (i + 1)}" if "is_edge g i t" for t
    using e(1,2,5,7) [OF that] by (intro image_eqI [of _ _ "GetOutgoingEdgeIndex g i t"]) (simp_all add: GetTargetForOutgoing_def)
  then show "set (map (GetTargetForOutgoing g) [fst (GetOutgoing g i)..<snd (GetOutgoing g i)]) = {t. is_edge g i t}"
    using p(1) [OF assms(2)] by (auto simp: r)
qed

text \<open>An edge that the two switches do not leave out.\<close>

definition edge_counts :: "ProcessImage \<Rightarrow> bool \<Rightarrow> bool \<Rightarrow> nat \<Rightarrow> nat \<Rightarrow> bool" where
  "edge_counts img skipTainted skipUnfavored s t \<longleftrightarrow>
     (skipTainted \<longrightarrow> (s, t) \<notin> true_edges (p_graph (pi_process img)) (tg_tainted (pi_tagging img))) \<and>
     (skipUnfavored \<and> SupportsFavoredReferences (tg_holder (pi_tagging img)) t \<longrightarrow>
        (s, t) \<in> true_edges (p_graph (pi_process img)) (tg_favored (pi_tagging img)))"

text \<open>The allocations at the other ends of the references of an allocation that a constraint counts.\<close>

definition counted_ends :: "ProcessImage \<Rightarrow> string \<Rightarrow> ReferenceConstraint \<Rightarrow> nat \<Rightarrow> nat set" where
  "counted_ends img signature rc i =
     {j. (if referenceType rc = INCOMING
          then is_edge (p_graph (pi_process img)) j i \<and>
            edge_counts img (rc_skipTaintedReferences rc) (rc_skipUnfavoredReferences rc) j i
          else is_edge (p_graph (pi_process img)) i j \<and>
            edge_counts img (rc_skipTaintedReferences rc) (rc_skipUnfavoredReferences rc) i j) \<and>
         al_IsUsed (pi_allocation img j) = wantUsed rc \<and> accepts img signature j}"

lemma count_matches_ends:
  assumes "\<And>k. k \<in> set ks \<Longrightarrow> matches k = Some (P (f k))" "distinct (map f ks)"
  shows "count_matches matches ks n = Some (n + card {x \<in> set (map f ks). P x})"
proof -
  have "count_matches matches ks n = Some (n + length (filter P (map f ks)))"
    using assms(1) by (induction ks arbitrary: n) auto
  then show ?thesis using distinct_length_filter [OF assms(2), of P] by (simp add: Int_def conj_commute)
qed

lemma Constraint_Check_counted:
  assumes img: "pi_ok img" and i: "i < pi_size img" and sc: "SignatureChecker_new img s = Some (rc_signatureChecker rc)"
  shows "Constraint_Check img rc i =
    Some (case boundaryType rc of MINIMUM \<Rightarrow> rc_count rc \<le> card (counted_ends img s rc i)
          | MAXIMUM \<Rightarrow> card (counted_ends img s rc i) \<le> rc_count rc)"
proof -
  let ?g = "p_graph (pi_process img)" and ?tg = "pi_tagging img"

  have g: "edges_ok ?g" "g_numAllocations ?g = pi_size img" "ep_ok ?g (tg_favored ?tg)" "ep_ok ?g (tg_tainted ?tg)"
    using img by (simp_all add: pi_ok_def process_ok_def tagging_ok_def)
  have ig: "i < g_numAllocations ?g" using i g(2) by simp
  have r: "GetIncoming ?g i = (firstIncoming ?g ! i, firstIncoming ?g ! (i + 1))"
    "GetOutgoing ?g i = (firstOutgoing ?g ! i, firstOutgoing ?g ! (i + 1))"
    using ig by (simp_all add: GetIncoming_def GetOutgoing_def edge_range_def)
  have other: "end_matches img rc j = Some (al_IsUsed (pi_allocation img j) = wantUsed rc \<and> accepts img s j)"
    if "j < pi_size img" for j
    using Check_accepts [OF img, of s] sc that by (fastforce simp: end_matches_def AllocationAt_used)
  note ends = edge_ends [OF g(1) ig]
  show ?thesis
  proof (cases "referenceType rc")
    case INCOMING
    let ?f = "GetSourceForIncoming ?g" and ?ks = "[fst (GetIncoming ?g i)..<snd (GetIncoming ?g i)]"
    let ?Q = "\<lambda>j. edge_counts img (rc_skipTaintedReferences rc) (rc_skipUnfavoredReferences rc) j i \<and>
       al_IsUsed (pi_allocation img j) = wantUsed rc \<and> accepts img s j"
    have "incoming_matches img rc
        (if \<not> SupportsFavoredReferences (tg_holder ?tg) i then False else rc_skipUnfavoredReferences rc) k = Some (?Q (?f k))"
      if "k \<in> set ?ks" for k
    proof -
      have k: "firstIncoming ?g ! i \<le> k" "k < firstIncoming ?g ! (i + 1)" using that by (simp_all add: r)
      then have "?f k < pi_size img" using end_bounds(1) [OF g(1,2), of k i] by (simp add: r)
      then show ?thesis
        using ForIncoming_outcome [OF g(1,3) ig k] ForIncoming_outcome [OF g(1,4) ig k]
        by (auto simp: incoming_matches_def edge_counts_def other)
    qed
    note c = count_matches_ends [where f = ?f and P = ?Q, OF this ends(1)]
    have "{x \<in> set (map ?f ?ks). ?Q x} = counted_ends img s rc i"
      unfolding ends(2) by (auto simp: counted_ends_def INCOMING)
    then show ?thesis
      using c by (cases "boundaryType rc") (simp_all add: Constraint_Check_def INCOMING case_prod_beta Let_def cong: if_cong)
  next
    case OUTGOING
    let ?f = "GetTargetForOutgoing ?g" and ?ks = "[fst (GetOutgoing ?g i)..<snd (GetOutgoing ?g i)]"
    let ?Q = "\<lambda>j. edge_counts img (rc_skipTaintedReferences rc) (rc_skipUnfavoredReferences rc) i j \<and>
       al_IsUsed (pi_allocation img j) = wantUsed rc \<and> accepts img s j"
    have "outgoing_matches img rc k = Some (?Q (?f k))" if "k \<in> set ?ks" for k
    proof -
      have k: "firstOutgoing ?g ! i \<le> k" "k < firstOutgoing ?g ! (i + 1)" using that by (simp_all add: r)
      then have "?f k < pi_size img" using end_bounds(2) [OF g(1,2), of k i] by (simp add: r)
      then show ?thesis
        using ForOutgoing_outcome [OF g(1,3) ig k] ForOutgoing_outcome [OF g(1,4) ig k]
        by (auto simp: outgoing_matches_def edge_counts_def other Let_def)
    qed
    note c = count_matches_ends [where f = ?f and P = ?Q, OF this ends(3)]
    have "{x \<in> set (map ?f ?ks). ?Q x} = counted_ends img s rc i"
      unfolding ends(4) by (auto simp: counted_ends_def OUTGOING)
    then show ?thesis
      using c by (cases "boundaryType rc") (simp_all add: Constraint_Check_def OUTGOING case_prod_beta Let_def)
  qed
qed

section \<open>Properties\<close>

text \<open>
  What a text is meant to describe: a name of a type, be it known by its signatures or by its typeinfo objects, stands
  for all signatures of the type and of the types derived from it that are in use, and only a text that names no type
  may be a number.
\<close>

definition names_type :: "ProcessImage \<Rightarrow> string \<Rightarrow> bool" where
  "names_type img name \<longleftrightarrow> (\<exists>a status. sm_find (signatureToName (pi_signatures img)) a = Some (name, status)) \<or>
     typeNameToTypeInfos (pi_typeInfos img) name \<noteq> None"

definition meant :: "ProcessImage \<Rightarrow> string \<Rightarrow> addr set" where
  "meant img name =
     (if names_type img name then
        {a. \<exists>status. sm_find (signatureToName (pi_signatures img)) a = Some (name, status)} \<union>
        {a. \<exists>typeInfos t used. typeNameToTypeInfos (pi_typeInfos img) name = Some typeInfos \<and> t \<in> set typeInfos \<and>
              usedSignatures (pi_typeInfos img) t = Some (Some used) \<and> a \<in> used}
      else (case read_hex name of None \<Rightarrow> {} | Some n \<Rightarrow> {n}))"

definition described :: "ProcessImage \<Rightarrow> string \<Rightarrow> nat \<Rightarrow> bool" where
  "described img signature i =
     (if signature = [] then True
      else if signature = ''-'' then unsigned_allocation img (pi_allocation img i)
      else if signature = ''?'' then unsigned_allocation img (pi_allocation img i) \<and> tag_of img i = 0
      else if starts_with (CHR ''%'') signature then 0 < tag_of img i \<and> tag_name img i = signature
      else (\<exists>w\<in>meant img signature. first_word img (pi_allocation img i) = Some w))"

definition describes_nothing :: "ProcessImage \<Rightarrow> string \<Rightarrow> bool" where
  "describes_nothing img s \<longleftrightarrow> s \<noteq> [] \<and> s \<noteq> ''-'' \<and> s \<noteq> ''?'' \<and> \<not> starts_with (CHR ''%'') s \<and>
     \<not> names_type img s \<and> read_hex s = None"

text \<open>
  The code does something else in two cases: for a name that only typeinfo objects have and that can be read as a
  number, and for a name with a typeinfo object without signatures in use before one that has some.
\<close>

definition number_or_type :: "ProcessImage \<Rightarrow> string \<Rightarrow> bool" where
  "number_or_type img s \<longleftrightarrow>
     Signatures (pi_signatures img) s = {} \<and> ContainsName (pi_typeInfos img) s \<and> read_hex s \<noteq> None"

definition unused_before_used :: "ProcessImage \<Rightarrow> string \<Rightarrow> bool" where
  "unused_before_used img s \<longleftrightarrow>
     (\<exists>xs t ys u used. typeNameToTypeInfos (pi_typeInfos img) s = Some (xs @ t # ys) \<and>
        usedSignatures (pi_typeInfos img) t = Some None \<and> u \<in> set ys \<and> usedSignatures (pi_typeInfos img) u = Some (Some used))"

lemma used_not_cut_off:
  assumes "\<not> unused_before_used img s" "typeNameToTypeInfos (pi_typeInfos img) s = Some typeInfos" "t \<in> set typeInfos"
    "usedSignatures (pi_typeInfos img) t = Some (Some used)"
  shows "t \<in> set (takeWhile (\<lambda>a. usedSignatures (pi_typeInfos img) a \<noteq> Some None) typeInfos)"
proof -
  obtain xs ys where split: "typeInfos = xs @ t # ys" using assms(3) by (meson split_list)
  have "usedSignatures (pi_typeInfos img) a \<noteq> Some None" if a: "a \<in> set xs" for a
  proof
    assume "usedSignatures (pi_typeInfos img) a = Some None"
    moreover obtain ws zs where "xs = ws @ a # zs" using a by (meson split_list)
    ultimately show False using assms(1,2,4) split unfolding unused_before_used_def by auto
  qed
  then have "takeWhile (\<lambda>a. usedSignatures (pi_typeInfos img) a \<noteq> Some None) typeInfos =
      xs @ takeWhile (\<lambda>a. usedSignatures (pi_typeInfos img) a \<noteq> Some None) (t # ys)"
    unfolding split by (intro takeWhile_append2) auto
  then show ?thesis using assms(4) by simp
qed

lemma denoted_meant:
  assumes "pi_ok img" "\<not> number_or_type img s" "\<not> unused_before_used img s" "s \<noteq> []"
  shows "denoted img s = meant img s" "unrecognized img s \<longleftrightarrow> describes_nothing img s"
proof -
  have sd: "sd_ok (pi_signatures img)" using assms(1) by (simp add: pi_ok_def)
  have S: "Signatures (pi_signatures img) s = {a. \<exists>status. sm_find (signatureToName (pi_signatures img)) a = Some (s, status)}"
    using signatures.holders_iff [OF sd, of _ s] assms(4) by (auto simp: set_eq_iff)
  have U: "used_by_name (pi_typeInfos img) s =
      {a. \<exists>typeInfos t used. typeNameToTypeInfos (pi_typeInfos img) s = Some typeInfos \<and> t \<in> set typeInfos \<and>
            usedSignatures (pi_typeInfos img) t = Some (Some used) \<and> a \<in> used}"
    using used_not_cut_off [OF assms(3)] by (auto simp: used_by_name_def split: option.split dest!: set_takeWhileD) blast
  have N: "names_type img s \<longleftrightarrow> Signatures (pi_signatures img) s \<noteq> {} \<or> ContainsName (pi_typeInfos img) s"
    unfolding S by (auto simp: names_type_def ContainsName_def)
  show "denoted img s = meant img s"
    unfolding denoted_def meant_def N S [symmetric] U [symmetric]
    using assms(2) used_by_unknown [of "pi_typeInfos img" s] by (auto simp: number_or_type_def split: option.split)
  show "unrecognized img s \<longleftrightarrow> describes_nothing img s"
    by (auto simp: unrecognized_def describes_nothing_def N)
qed

text \<open>What the code does in these cases.\<close>

lemma number_wins_over_typeinfos:
  assumes "pi_ok img" "number_or_type img s" "read_hex s = Some n" "s \<noteq> []" "s \<noteq> ''-''" "s \<noteq> ''?''" "\<not> starts_with (CHR ''%'') s"
  shows "\<exists>sc. SignatureChecker_new img s = Some sc \<and>
    (\<forall>i<pi_size img. Check img sc i (pi_allocation img i) = Some (first_word img (pi_allocation img i) = Some n))"
proof -
  have a: "accepts img s i \<longleftrightarrow> first_word img (pi_allocation img i) = Some n" for i
    using assms(2-7) by (simp add: accepts_def denoted_def number_or_type_def)
  obtain sc where "SignatureChecker_new img s = Some sc"
    "\<And>i. i < pi_size img \<Longrightarrow> Check img sc i (pi_allocation img i) = Some (accepts img s i)"
    by (rule Check_accepts [OF assms(1), of s]) blast
  then show ?thesis unfolding a by (intro exI [of _ sc]) simp
qed

lemma unused_ends_AddSignatures:
  "typeNameToTypeInfos t name = Some (typeInfo # typeInfos) \<Longrightarrow> usedSignatures t typeInfo = Some None \<Longrightarrow>
   AddSignatures t name signatures = Some signatures"
  by (simp add: AddSignatures_def)

text \<open>
  C34: A checker accepts exactly the allocations its text describes: all of them, those without a known signature
  (-), those that also match no pattern (?), those tagged with the pattern of the given name, and else those whose
  first word is a signature of the type of the given name, or of one derived from it, or, where no type has that name,
  the hexadecimal number.  It says that a text is not recognised exactly if it is none of these, and no check leaves
  the image.  This is for a sound process image and for texts other than the two kinds for which the code deviates from
  its comments: a name that only typeinfo objects have and that is also a number, which it takes for the number
  (\<open>number_wins_over_typeinfos\<close>), and a name with a typeinfo object that has no signatures in use before one that has
  some, which it drops (\<open>unused_ends_AddSignatures\<close>).
\<close>

theorem SignatureChecker_correct:
  assumes "pi_ok img" "\<not> number_or_type img s" "\<not> unused_before_used img s"
  shows "\<exists>sc. SignatureChecker_new img s = Some sc \<and>
    (UnrecognizedSignature sc \<longleftrightarrow> describes_nothing img s) \<and> (UnrecognizedPattern sc \<longleftrightarrow> unknown_pattern img s) \<and>
    (\<forall>i<pi_size img. Check img sc i (pi_allocation img i) = Some (described img s i))"
proof -
  have "accepts img s i \<longleftrightarrow> described img s i" for i
    using denoted_meant(1) [OF assms] by (auto simp: accepts_def described_def)
  moreover have "unrecognized img s \<longleftrightarrow> describes_nothing img s"
    using denoted_meant(2) [OF assms] by (cases "s = []") (simp_all add: unrecognized_def describes_nothing_def)
  moreover obtain sc where "SignatureChecker_new img s = Some sc" "UnrecognizedSignature sc \<longleftrightarrow> unrecognized img s"
    "UnrecognizedPattern sc \<longleftrightarrow> unknown_pattern img s"
    "\<And>i. i < pi_size img \<Longrightarrow> Check img sc i (pi_allocation img i) = Some (accepts img s i)"
    by (rule Check_accepts [OF assms(1), of s]) blast
  ultimately show ?thesis by (intro exI [of _ sc]) simp
qed

text \<open>A list of three nodes that closes to a ring, the last one of a derived type, and a block of zeros.\<close>

definition ring_process :: Process where
  "ring_process = example_process [0x5000, 0x1010, 0x5000, 0x1020, 0x6000, 0x1000, 0, 0]
     [(0x1000, 16), (0x1010, 16), (0x1020, 16), (0x1030, 16)] [[1], [2], [0], []]"

definition ring_image :: ProcessImage where
  "ring_image = \<lparr>pi_process = ring_process, pi_tagging = one_tag ring_process ''%Ring'',
     pi_signatures = told [(0x5000, ''Node'', VTABLE_WITH_NAME_FROM_SYMDEFS)],
     pi_typeInfos = \<lparr>typeNameToTypeInfos = [''Base'' \<mapsto> [0x7000]], usedSignatures = [0x7000 \<mapsto> Some {0x5000, 0x6000}]\<rparr>\<rparr>"

lemma ring_image_simps [simp]:
  "pi_process ring_image = ring_process" "NumAllocations (p_directory ring_process) = 4"
  "p_map ring_process = words_map [0x5000, 0x1010, 0x5000, 0x1020, 0x6000, 0x1000, 0, 0]"
  by (simp_all add: ring_image_def ring_process_def)

lemma ring_process_ok: "process_ok ring_process"
  by (simp add: ring_process_def example_process_ok good_rows_def)

lemma ring_image_ok: "pi_ok ring_image"
  using one_tag_ok(1) [OF ring_process_ok, of "''%Ring''"] ring_process_ok told_outcome
  by (auto simp: pi_ok_def ring_image_def ti_ok_def levels_ok_def ring_process_def used_directory_def Directory_new_def)

lemma ring_allocation:
  assumes "i < 4"
  shows "pi_allocation ring_image i = Allocation_new (0x1000 + 16 * of_nat i) 16 True 0 False"
proof -
  have "i = 0 \<or> i = 1 \<or> i = 2 \<or> i = 3" using assms by linarith
  then show ?thesis by (auto simp: ring_process_def)
qed

lemma ring_allocation_fields [simp]:
  assumes "i < 4"
  shows "al_Size (allocations (p_directory ring_process) ! i) = 16" "al_IsUsed (allocations (p_directory ring_process) ! i)"
    "al_Address (allocations (p_directory ring_process) ! i) = 0x1000 + 16 * of_nat i"
  using ring_allocation [OF assms] by simp_all

lemma ring_words:
  assumes "i < 4"
  shows "first_word ring_image (pi_allocation ring_image i) = Some ([0x5000, 0x5000, 0x6000, 0] ! i)"
proof -
  have "word_at (pi_map ring_image) (0x1000 + 8 * of_nat (2 * i)) = Some ([0x5000, 0x1010, 0x5000, 0x1020, 0x6000, 0x1000, 0, 0] ! (2 * i))"
    unfolding ring_image_simps by (rule word_at_words_map) (use assms in simp_all)
  moreover have "i = 0 \<or> i = 1 \<or> i = 2 \<or> i = 3" using assms by linarith
  ultimately show ?thesis by (auto simp: first_word_def)
qed

lemma ring_types:
  "Signatures (pi_signatures ring_image) name = (if name = ''Node'' then {0x5000} else {})"
  "used_by_name (pi_typeInfos ring_image) name = (if name = ''Base'' then {0x5000, 0x6000} else {})"
  "IsMapped (pi_signatures ring_image) s \<longleftrightarrow> s = 0x5000"
proof -
  have m: "signatureToName (pi_signatures ring_image) = [(0x5000, ''Node'', VTABLE_WITH_NAME_FROM_SYMDEFS)]"
    by (simp add: ring_image_def told_def MapSignatureNameAndStatus_def SignatureDirectory_new_def erase_blanks_filter Let_def sm_find_def)
  have ok: "sd_ok (pi_signatures ring_image)" using told_outcome by (simp add: ring_image_def)
  show "Signatures (pi_signatures ring_image) name = (if name = ''Node'' then {0x5000} else {})"
    using signatures.holders_iff [OF ok, of _ name] by (auto simp: m sm_find_def split: if_splits)
  show "used_by_name (pi_typeInfos ring_image) name = (if name = ''Base'' then {0x5000, 0x6000} else {})"
    by (auto simp: used_by_name_def ring_image_def)
  show "IsMapped (pi_signatures ring_image) s \<longleftrightarrow> s = 0x5000" by (simp add: IsMapped_def m sm_find_def)
qed

theorem SignatureChecker_correct_witness:
  "\<exists>sc. SignatureChecker_new ring_image ''Base'' = Some sc \<and> \<not> UnrecognizedSignature sc \<and>
     Check ring_image sc 2 (pi_allocation ring_image 2) = Some True \<and>
     Check ring_image sc 3 (pi_allocation ring_image 3) = Some False"
proof -
  have "read_hex ''Base'' = None"
    by (simp add: read_hex_def read_hex_below_def is_space_def is_xdigit_def hex_digit_def Let_def)
  note hex = this
  have plain: "\<not> number_or_type ring_image ''Base''" "\<not> unused_before_used ring_image ''Base''"
    by (auto simp: number_or_type_def unused_before_used_def hex) (auto simp: ring_image_def Cons_eq_append_conv split: if_splits)
  have "''Base'' \<noteq> []" by simp
  note same = denoted_meant [OF ring_image_ok plain this]
  have a: "described ring_image ''Base'' i \<longleftrightarrow> i < 3" if "i < 4" for i
  proof -
    have "i = 0 \<or> i = 1 \<or> i = 2 \<or> i = 3" using that by linarith
    then show ?thesis
      using ring_words [of i] hex by (auto simp: described_def starts_with_def same(1) [symmetric] denoted_def ring_types)
  qed
  have "ContainsName (pi_typeInfos ring_image) ''Base''" by (simp add: ContainsName_def ring_image_def)
  then have known: "\<not> describes_nothing ring_image ''Base''" unfolding same(2) [symmetric] by (simp add: unrecognized_def)
  obtain sc where "SignatureChecker_new ring_image ''Base'' = Some sc" "UnrecognizedSignature sc \<longleftrightarrow> describes_nothing ring_image ''Base''"
    "\<forall>i<pi_size ring_image. Check ring_image sc i (pi_allocation ring_image i) = Some (described ring_image ''Base'' i)"
    using SignatureChecker_correct [OF ring_image_ok plain] by blast
  then show ?thesis using a [of 2] a [of 3] known by simp
qed

text \<open>
  C35: A constraint counts the allocations at the other ends of the references of the requested direction that are
  used or free as requested and of the requested type, each once, without those whose reference is tainted or,
  where the target supports favored references, not favored, if the switches leave these out.  The check holds
  exactly if there are at least, or at most, the given number of them, and never leaves the tables of the graph.
\<close>

theorem ReferenceConstraint_correct:
  assumes "pi_ok img" "i < pi_size img" "SignatureChecker_new img s = Some (rc_signatureChecker rc)"
  shows "Constraint_Check img rc i =
    Some (case boundaryType rc of MINIMUM \<Rightarrow> rc_count rc \<le> card (counted_ends img s rc i)
          | MAXIMUM \<Rightarrow> card (counted_ends img s rc i) \<le> rc_count rc)"
  using assms by (rule Constraint_Check_counted)

lemma ring_edges: "is_edge (p_graph ring_process) s t \<longleftrightarrow> (s, t) \<in> {(0, 1), (1, 2), (2, 0)}"
proof -
  have "all_edges (p_graph ring_process) = {(0, 1), (1, 2), (2, 0)}"
    unfolding ring_process_def
    by (subst example_process_simps, subst rows_graph_edges) (auto simp: good_rows_def numeral_eq_Suc upt_rec)
  then show ?thesis by (auto simp: all_edges_def set_eq_iff)
qed

theorem ReferenceConstraint_correct_witness:
  "\<exists>sc rc. SignatureChecker_new ring_image ''Node'' = Some sc \<and>
     rc = \<lparr>rc_signatureChecker = sc, rc_count = 1, wantUsed = True, boundaryType = MINIMUM, referenceType = INCOMING,
           rc_skipTaintedReferences = False, rc_skipUnfavoredReferences = False\<rparr> \<and>
     Constraint_Check ring_image rc 1 = Some True \<and> Constraint_Check ring_image rc 0 = Some False"
proof -
  obtain sc where sc: "SignatureChecker_new ring_image ''Node'' = Some sc"
    by (rule Check_accepts [OF ring_image_ok])
  define rc where "rc = \<lparr>rc_signatureChecker = sc, rc_count = 1, wantUsed = True, boundaryType = MINIMUM, referenceType = INCOMING,
           rc_skipTaintedReferences = False, rc_skipUnfavoredReferences = False\<rparr>"
  have a: "accepts ring_image ''Node'' i \<longleftrightarrow> i < 2" if "i < 4" for i
  proof -
    have "i = 0 \<or> i = 1 \<or> i = 2 \<or> i = 3" using that by linarith
    then show ?thesis using ring_words [of i] by (auto simp: accepts_def starts_with_def denoted_def ring_types)
  qed
  have "counted_ends ring_image ''Node'' rc 1 = {0}" "counted_ends ring_image ''Node'' rc 0 = {}"
    using a [of 0] a [of 2] by (auto simp: counted_ends_def rc_def ring_edges edge_counts_def)
  then show ?thesis
    using ReferenceConstraint_correct [OF ring_image_ok, of 1 "''Node''" rc]
      ReferenceConstraint_correct [OF ring_image_ok, of 0 "''Node''" rc] sc
    by (auto simp: rc_def)
qed

end
