(* ===== verification/Extended_Visit.thy ===== *)
theory Extended_Visit
  imports Signature_Checker Index_Set
begin

text \<open>
  The walk of Allocations/ExtendedVisitor.h that starts at a member of a set and follows extension rules: from an
  allocation in a state, every rule of the state gives the allocations to which it extends the set and the state
  in which these are extended in turn.  The rules stand in one array, those of a state next to each other
  (\<open>_stateToBase\<close>), and the walk is a loop with a stack of its own.  A fault (an abort, an access outside an
  array or the image) is \<open>None\<close>.
\<close>

section \<open>Rules and visitor\<close>

record Rule =
  offsetInMember :: addr
  offsetInExtension :: addr
  useOffsetInMember :: bool
  useOffsetInExtension :: bool
  referenceIsOutgoing :: bool
  extensionMustBeLeaked :: bool
  memberSignatureChecker :: SignatureChecker
  extensionSignatureChecker :: SignatureChecker
  baseState :: nat
  newState :: nat

record ExtendedVisitor =
  isEnabled :: bool
  hasErrors :: bool
  hasAnnotations :: bool
  allowMissingSignatures :: bool
  ev_rules :: "Rule list"
  stateToBase :: "nat list"
  commentExtensions :: bool
  ev_skipTaintedReferences :: bool
  ev_skipUnfavoredReferences :: bool
  stateLabels :: "string list"
  labelToStateNumber :: "(string, nat) std_map"

text \<open>
  What the walk does that can be seen: the calls of the visitor and of \<open>Annotate\<close>, with the state, and the
  comments it writes.
\<close>

datatype event = Visits nat | Annotates nat nat | Says string

abbreviation newline :: string where "newline \<equiv> [CHR 0x0A]"

section \<open>Where the rules lead\<close>

text \<open>A look at the words of an allocation that are contiguous in the file.\<close>

definition AllocationHasAlignedPointer :: "VirtualAddressMap \<Rightarrow> Allocation \<Rightarrow> addr \<Rightarrow> bool option" where
  "AllocationHasAlignedPointer m allocation address =
     (case FindMappedMemoryImage m (al_Address allocation) of (numBytesFound, pImage) \<Rightarrow>
        let sz = al_Size allocation;
            bytesToCheck = (if numBytesFound < sz then numBytesFound else sz);
            n = unat (bytesToCheck AND NOT (sizeof_Offset - 1)) in
        if n = 0 then Some False
        else (case pImage of
                None \<Rightarrow> None
              | Some off \<Rightarrow>
                  (case file_bytes (fileImage m) off n of Value bs \<Rightarrow> Some (address \<in> set (le_words bs)) | _ \<Rightarrow> None)))"

text \<open>Whether a rule applies to a member at all.\<close>

definition rule_applies :: "ProcessImage \<Rightarrow> Rule \<Rightarrow> nat \<Rightarrow> Allocation \<Rightarrow> bool option" where
  "rule_applies img rule memberIndex member =
     (case Check img (memberSignatureChecker rule) memberIndex member of
        None \<Rightarrow> None
      | Some ok \<Rightarrow>
          Some (\<not> (\<not> ok \<or> useOffsetInMember rule \<and>
            al_Size member < offsetInMember rule + (if referenceIsOutgoing rule then sizeof_Offset else 1))))"

text \<open>The one candidate of a rule for outgoing references that gives the offset in the member.\<close>

definition exact_candidate :: "ProcessImage \<Rightarrow> Rule \<Rightarrow> Allocation \<Rightarrow> nat option option" where
  "exact_candidate img rule member =
     (let d = p_directory (pi_process img) in
      case image_word (pi_map img) (al_Address member + offsetInMember rule) of
        None \<Rightarrow> None
      | Some None \<Rightarrow> Some None
      | Some (Some target) \<Rightarrow>
          let candidateIndex = AllocationIndexOf d target in
          if candidateIndex = NumAllocations d then Some None
          else
            (case AllocationAt d candidateIndex of
               None \<Rightarrow> None
             | Some candidate \<Rightarrow>
                 if useOffsetInExtension rule \<and> target \<noteq> al_Address candidate + offsetInExtension rule then Some None
                 else Some (Some candidateIndex)))"

text \<open>The tests of a candidate that has been found, in the order of the code.\<close>

definition offsets_match :: "ProcessImage \<Rightarrow> Rule \<Rightarrow> Allocation \<Rightarrow> Allocation \<Rightarrow> bool option" where
  "offsets_match img rule member candidate =
     (let m = pi_map img in
      if useOffsetInExtension rule then
        if al_Size candidate < offsetInExtension rule + sizeof_Offset then Some False
        else if referenceIsOutgoing rule then
          if \<not> useOffsetInMember rule then
            AllocationHasAlignedPointer m member (al_Address candidate + offsetInExtension rule)
          else Some True
        else
          (case image_word m (al_Address candidate + offsetInExtension rule) of
             None \<Rightarrow> None
           | Some None \<Rightarrow> Some False
           | Some (Some pointerInCandidate) \<Rightarrow>
               let memberAddress = al_Address member in
               if useOffsetInMember rule then Some (pointerInCandidate = memberAddress + offsetInMember rule)
               else Some (\<not> (pointerInCandidate < memberAddress \<or> memberAddress + al_Size member \<le> pointerInCandidate)))
      else if useOffsetInMember rule \<and> \<not> referenceIsOutgoing rule then
        AllocationHasAlignedPointer m candidate (al_Address member + offsetInMember rule)
      else Some True)"

definition reference_allowed :: "ExtendedVisitor \<Rightarrow> ProcessImage \<Rightarrow> Rule \<Rightarrow> nat \<Rightarrow> nat \<Rightarrow> bool" where
  "reference_allowed ev img rule memberIndex candidateIndex =
     (let g = p_graph (pi_process img); tg = pi_tagging img in
      if ev_skipTaintedReferences ev \<and>
         (if referenceIsOutgoing rule then ep_For g (tg_tainted tg) memberIndex candidateIndex
          else ep_For g (tg_tainted tg) candidateIndex memberIndex) then False
      else if ev_skipUnfavoredReferences ev \<and>
         (if referenceIsOutgoing rule
          then SupportsFavoredReferences (tg_holder tg) candidateIndex \<and> \<not> ep_For g (tg_favored tg) memberIndex candidateIndex
          else SupportsFavoredReferences (tg_holder tg) memberIndex \<and> \<not> ep_For g (tg_favored tg) candidateIndex memberIndex)
      then False
      else True)"

definition candidate_allowed ::
  "ExtendedVisitor \<Rightarrow> ProcessImage \<Rightarrow> Rule \<Rightarrow> nat \<Rightarrow> Allocation \<Rightarrow> nat \<Rightarrow> Allocation \<Rightarrow> bool option" where
  "candidate_allowed ev img rule memberIndex member candidateIndex candidate =
     (if extensionMustBeLeaked rule \<and> \<not> IsLeaked (p_graph (pi_process img)) candidateIndex then Some False
      else if \<not> al_IsUsed candidate then Some False
      else
        (case Check img (extensionSignatureChecker rule) candidateIndex candidate of
           None \<Rightarrow> None
         | Some False \<Rightarrow> Some False
         | Some True \<Rightarrow>
             (case offsets_match img rule member candidate of
                None \<Rightarrow> None
              | Some False \<Rightarrow> Some False
              | Some True \<Rightarrow> Some (reference_allowed ev img rule memberIndex candidateIndex))))"

section \<open>The walk\<close>

datatype RuleCheckProgress = NEW_RULE | NO_EDGES_CHECKED | IN_PROGRESS | RULE_DONE

text \<open>A pointer into the array of the targets of the outgoing edges, or of the sources of the incoming ones.\<close>

datatype edge_pointer = Outgoing_at nat | Incoming_at nat

fun edge_at :: "Graph \<Rightarrow> edge_pointer \<Rightarrow> nat option" where
  "edge_at g (Outgoing_at k) = (if k < length (outgoing g) then Some (outgoing g ! k) else None)"
| "edge_at g (Incoming_at k) = (if k < length (incoming g) then Some (incoming g ! k) else None)"

fun next_edge :: "edge_pointer \<Rightarrow> edge_pointer" where
  "next_edge (Outgoing_at k) = Outgoing_at (k + 1)"
| "next_edge (Incoming_at k) = Incoming_at (k + 1)"

record ExtensionContext =
  ec_memberIndex :: nat
  ec_ruleIndex :: nat
  ec_numCandidatesLeft :: nat
  ec_ruleCheckProgress :: RuleCheckProgress
  ec_pNextCandidate :: edge_pointer

text \<open>The local variables of the loop, with the set of visited allocations and the output.\<close>

record Walk =
  wk_context :: ExtensionContext
  wk_ruleIndexLimit :: nat
  wk_stack :: "ExtensionContext list"
  wk_visited :: AllocSet
  wk_output :: "event list"

datatype walk_step = Goes Walk | Returns Walk

definition say :: "string \<Rightarrow> Walk \<Rightarrow> Walk" where
  "say text w = w\<lparr>wk_output := wk_output w @ [Says text]\<rparr>"

definition set_context :: "ExtensionContext \<Rightarrow> Walk \<Rightarrow> Walk" where
  "set_context c w = w\<lparr>wk_context := c\<rparr>"

text \<open>The next one of the edges of a rule is the candidate; the last one ends the rule.\<close>

definition take_edge :: "Graph \<Rightarrow> ExtensionContext \<Rightarrow> (ExtensionContext \<times> nat option) option" where
  "take_edge g c =
     (let left = ec_numCandidatesLeft c - 1 in
      case edge_at g (ec_pNextCandidate c) of
        None \<Rightarrow> None
      | Some candidateIndex \<Rightarrow>
          Some (c\<lparr>ec_numCandidatesLeft := left, ec_pNextCandidate := next_edge (ec_pNextCandidate c),
                  ec_ruleCheckProgress := (if left = 0 then RULE_DONE else IN_PROGRESS)\<rparr>, Some candidateIndex))"

definition start_edges :: "Graph \<Rightarrow> Rule \<Rightarrow> ExtensionContext \<Rightarrow> (ExtensionContext \<times> nat option) option" where
  "start_edges g rule c =
     (let (first, past) = (if referenceIsOutgoing rule then GetOutgoing g (ec_memberIndex c) else GetIncoming g (ec_memberIndex c));
          c1 = c\<lparr>ec_pNextCandidate := (if referenceIsOutgoing rule then Outgoing_at first else Incoming_at first),
                 ec_numCandidatesLeft := past - first\<rparr> in
      if past - first = 0 then Some (c1\<lparr>ec_ruleCheckProgress := RULE_DONE\<rparr>, None)
      else take_edge g c1)"

text \<open>
  The part of the loop body that finds a candidate, or leaves it by a \<open>continue\<close> (the inner \<open>None\<close>).  The state
  \<open>NO_EDGES_CHECKED\<close> does not outlive an iteration.
\<close>

definition find_candidate ::
  "ProcessImage \<Rightarrow> Rule \<Rightarrow> Allocation \<Rightarrow> ExtensionContext \<Rightarrow> (ExtensionContext \<times> nat option) option" where
  "find_candidate img rule member c =
     (case ec_ruleCheckProgress c of
        NEW_RULE \<Rightarrow>
          (case rule_applies img rule (ec_memberIndex c) member of
             None \<Rightarrow> None
           | Some False \<Rightarrow> Some (c\<lparr>ec_ruleCheckProgress := RULE_DONE\<rparr>, None)
           | Some True \<Rightarrow>
               if referenceIsOutgoing rule \<and> useOffsetInMember rule then
                 map_option (Pair (c\<lparr>ec_ruleCheckProgress := RULE_DONE\<rparr>)) (exact_candidate img rule member)
               else start_edges (p_graph (pi_process img)) rule c)
      | IN_PROGRESS \<Rightarrow> take_edge (p_graph (pi_process img)) c
      | _ \<Rightarrow> None)"

text \<open>The comments.\<close>

definition reference_text :: "Rule \<Rightarrow> Allocation \<Rightarrow> Allocation \<Rightarrow> string" where
  "reference_text rule member candidate =
     ''# Allocation at 0x'' @ show_hex (al_Address member) @
     (if referenceIsOutgoing rule then '' references allocation at 0x'' else '' is referenced by allocation at 0x'') @
     show_hex (al_Address candidate) @ ''.'' @ newline"

definition visited_text :: "string list \<Rightarrow> Rule \<Rightarrow> Allocation \<Rightarrow> string" where
  "visited_text labels rule candidate =
     ''# Allocation at 0x'' @ show_hex (al_Address candidate) @ '' was already visited.'' @ newline @
     (if newState rule \<noteq> 0
      then ''# Allocation at 0x'' @ show_hex (al_Address candidate) @ '' would have been extended in state '' @
        labels ! newState rule @ ''.'' @ newline
      else []) @
     newline"

definition extended_text :: "string list \<Rightarrow> Rule \<Rightarrow> Allocation \<Rightarrow> string" where
  "extended_text labels rule candidate =
     ''# Allocation at 0x'' @ show_hex (al_Address candidate) @ '' will be extended in state '' @
     labels ! newState rule @ ''.'' @ newline"

text \<open>
  The set is extended: what is left to do for the member is kept on the stack, unless nothing is, and the
  candidate is visited and becomes the member.  An index is a \<open>size_t\<close>.
\<close>

definition index_before :: "nat \<Rightarrow> nat" where
  "index_before i = (if i = 0 then 2 ^ 64 - 1 else i - 1)"

definition index_after :: "nat \<Rightarrow> nat" where
  "index_after i = (if i = 2 ^ 64 - 1 then 0 else i + 1)"

definition visit_member :: "ExtendedVisitor \<Rightarrow> nat \<Rightarrow> nat \<Rightarrow> event list" where
  "visit_member ev i state = Visits i # (if hasAnnotations ev then [Annotates i state] else [])"

definition extend_to :: "ExtendedVisitor \<Rightarrow> Rule \<Rightarrow> nat \<Rightarrow> ExtensionContext \<Rightarrow> Walk \<Rightarrow> Walk option" where
  "extend_to ev rule candidateIndex c w =
     (let stack =
            (if ec_ruleCheckProgress c \<noteq> RULE_DONE \<or> index_after (ec_ruleIndex c) \<noteq> wk_ruleIndexLimit w
             then c # wk_stack w else wk_stack w);
          state = newState rule in
      case Set_Add (wk_visited w) candidateIndex of
        None \<Rightarrow> None
      | Some vs \<Rightarrow>
          if state + 1 < length (stateToBase ev) then
            let ruleIndex = stateToBase ev ! state;
                limit = stateToBase ev ! (state + 1);
                none = ruleIndex = limit in
            Some (w\<lparr>wk_context := c\<lparr>ec_memberIndex := candidateIndex,
                                    ec_ruleIndex := (if none then index_before ruleIndex else ruleIndex),
                                    ec_ruleCheckProgress := (if none then RULE_DONE else NEW_RULE)\<rparr>,
                    wk_ruleIndexLimit := limit, wk_stack := stack, wk_visited := vs,
                    wk_output := wk_output w @ visit_member ev candidateIndex state\<rparr>)
          else None)"

text \<open>The part of the body from the point where there is a candidate.\<close>

definition consider_candidate ::
  "ExtendedVisitor \<Rightarrow> ProcessImage \<Rightarrow> Rule \<Rightarrow> Allocation \<Rightarrow> nat \<Rightarrow> ExtensionContext \<Rightarrow> Walk \<Rightarrow> Walk option" where
  "consider_candidate ev img rule member candidateIndex c w =
     (case Set_Has (wk_visited w) candidateIndex of
        None \<Rightarrow> None
      | Some alreadyVisited \<Rightarrow>
          if \<not> commentExtensions ev \<and> alreadyVisited then Some (set_context c w)
          else
            (case AllocationAt (p_directory (pi_process img)) candidateIndex of
               None \<Rightarrow> None
             | Some candidate \<Rightarrow>
                 (case candidate_allowed ev img rule (ec_memberIndex c) member candidateIndex candidate of
                    None \<Rightarrow> None
                  | Some False \<Rightarrow> Some (set_context c w)
                  | Some True \<Rightarrow>
                      if commentExtensions ev \<and> newState rule \<noteq> 0 \<and> length (stateLabels ev) \<le> newState rule then None
                      else
                        let w1 = (if commentExtensions ev then say (reference_text rule member candidate) w else w) in
                        if commentExtensions ev \<and> alreadyVisited
                        then Some (set_context c (say (visited_text (stateLabels ev) rule candidate) w1))
                        else
                          extend_to ev rule candidateIndex c
                            (if commentExtensions ev \<and> newState rule \<noteq> 0
                             then say (extended_text (stateLabels ev) rule candidate) w1 else w1))))"

text \<open>One iteration of the loop.\<close>

definition pop_context :: "ExtendedVisitor \<Rightarrow> Walk \<Rightarrow> walk_step option" where
  "pop_context ev w =
     (case wk_stack w of
        [] \<Rightarrow> Some (Returns w)
      | c # cs \<Rightarrow>
          if ec_ruleIndex c < length (ev_rules ev) then
            let state = baseState (ev_rules ev ! ec_ruleIndex c) in
            if state + 1 < length (stateToBase ev) then
              Some (Goes (w\<lparr>wk_context := c, wk_stack := cs, wk_ruleIndexLimit := stateToBase ev ! (state + 1)\<rparr>))
            else None
          else None)"

definition check_rule :: "ExtendedVisitor \<Rightarrow> ProcessImage \<Rightarrow> ExtensionContext \<Rightarrow> Walk \<Rightarrow> walk_step option" where
  "check_rule ev img c w =
     (if ec_ruleIndex c < length (ev_rules ev) then
        let rule = ev_rules ev ! ec_ruleIndex c in
        case AllocationAt (p_directory (pi_process img)) (ec_memberIndex c) of
          None \<Rightarrow> None
        | Some member \<Rightarrow>
            (case find_candidate img rule member c of
               None \<Rightarrow> None
             | Some (c', None) \<Rightarrow> Some (Goes (set_context c' w))
             | Some (c', Some candidateIndex) \<Rightarrow>
                 map_option Goes (consider_candidate ev img rule member candidateIndex c' w))
      else None)"

definition Visit_step :: "ExtendedVisitor \<Rightarrow> ProcessImage \<Rightarrow> Walk \<Rightarrow> walk_step option" where
  "Visit_step ev img w =
     (let c = wk_context w in
      if ec_ruleCheckProgress c = RULE_DONE then
        if index_after (ec_ruleIndex c) = wk_ruleIndexLimit w then pop_context ev w
        else check_rule ev img (c\<lparr>ec_ruleIndex := index_after (ec_ruleIndex c), ec_ruleCheckProgress := NEW_RULE\<rparr>) w
      else check_rule ev img c w)"

partial_function (option) Visit_loop :: "ExtendedVisitor \<Rightarrow> ProcessImage \<Rightarrow> Walk \<Rightarrow> Walk option" where
  "Visit_loop ev img w =
     (case Visit_step ev img w of
        None \<Rightarrow> None
      | Some (Returns w') \<Rightarrow> Some w'
      | Some (Goes w') \<Rightarrow> Visit_loop ev img w')"

section \<open>Visiting a member of the set\<close>

definition Visit ::
  "ExtendedVisitor \<Rightarrow> ProcessImage \<Rightarrow> nat \<Rightarrow> Allocation \<Rightarrow> AllocSet \<times> event list \<Rightarrow> (AllocSet \<times> event list) option" where
  "Visit ev img memberIndex allocation = (\<lambda>(vs, out).
     if \<not> isEnabled ev then map_option (\<lambda>v. (v, out @ [Visits memberIndex])) (Set_Add vs memberIndex)
     else
       (case Set_Has vs memberIndex of
          None \<Rightarrow> None
        | Some True \<Rightarrow>
            Some (vs, out @
              (if commentExtensions ev
               then [Says (''# Base set member at 0x'' @ show_hex (al_Address allocation) @
                       '' was already visited via an extension rule.'' @ newline @ newline)]
               else []))
        | Some False \<Rightarrow>
            (case Set_Add vs memberIndex of
               None \<Rightarrow> None
             | Some v \<Rightarrow>
                 let out' = out @ visit_member ev memberIndex 0 in
                 if ev_rules ev = [] then Some (v, out')
                 else if 1 < length (stateToBase ev) then
                   map_option (\<lambda>w. (wk_visited w, wk_output w))
                     (Visit_loop ev img
                        \<lparr>wk_context = \<lparr>ec_memberIndex = memberIndex, ec_ruleIndex = stateToBase ev ! 0, ec_numCandidatesLeft = 0,
                                       ec_ruleCheckProgress = NEW_RULE, ec_pNextCandidate = Outgoing_at 0\<rparr>,
                         wk_ruleIndexLimit = stateToBase ev ! 1, wk_stack = [], wk_visited = v, wk_output = out'\<rparr>)
                 else None)))"

end
