(* ===== verification/Extension_Search.thy ===== *)
theory Extension_Search
  imports Extended_Visit
begin

text \<open>
  What the walk of the extended visitor is to do, as a search without a stack of its own: a list of references
  to follow, each with the rule that found it; following one to an allocation that has not been visited puts the
  references from there in front of the list.  The walk is shown to be this search.
\<close>

section \<open>References and when they are followed\<close>

type_synonym reference = "nat \<times> Rule \<times> nat"

definition accepted :: "ProcessImage \<Rightarrow> SignatureChecker \<Rightarrow> nat \<Rightarrow> bool" where
  "accepted img sc i \<longleftrightarrow> Check img sc i (pi_allocation img i) = Some True"

definition contiguous_size :: "ProcessImage \<Rightarrow> nat \<Rightarrow> nat" where
  "contiguous_size img i =
     min (unat (fst (FindMappedMemoryImage (pi_map img) (al_Address (pi_allocation img i)))))
       (unat (al_Size (pi_allocation img i)))"

text \<open>An allocation holds a pointer, as far as its words are contiguous in the file.\<close>

definition holds_pointer :: "ProcessImage \<Rightarrow> nat \<Rightarrow> addr \<Rightarrow> bool" where
  "holds_pointer img i a \<longleftrightarrow>
     (\<exists>k. 8 * k + 8 \<le> contiguous_size img i \<and> word_at (pi_map img) (al_Address (pi_allocation img i) + of_nat (8 * k)) = Some a)"

definition applies_to :: "ProcessImage \<Rightarrow> Rule \<Rightarrow> nat \<Rightarrow> bool" where
  "applies_to img rule i \<longleftrightarrow>
     accepted img (memberSignatureChecker rule) i \<and>
     (useOffsetInMember rule \<longrightarrow>
        offsetInMember rule + (if referenceIsOutgoing rule then 8 else 1) \<le> al_Size (pi_allocation img i))"

definition rule_candidates :: "ProcessImage \<Rightarrow> Rule \<Rightarrow> nat \<Rightarrow> nat list" where
  "rule_candidates img rule i =
     (let d = p_directory (pi_process img); g = p_graph (pi_process img) in
      if \<not> applies_to img rule i then []
      else if referenceIsOutgoing rule then
        if useOffsetInMember rule then
          (case word_at (pi_map img) (al_Address (pi_allocation img i) + offsetInMember rule) of
             None \<Rightarrow> []
           | Some target \<Rightarrow>
               let j = AllocationIndexOf d target in
               if j = pi_size img \<or> useOffsetInExtension rule \<and> target \<noteq> al_Address (pi_allocation img j) + offsetInExtension rule
               then [] else [j])
        else edges_in (outgoing g) (GetOutgoing g i)
      else edges_in (incoming g) (GetIncoming g i))"

definition offsets_agree :: "ProcessImage \<Rightarrow> Rule \<Rightarrow> nat \<Rightarrow> nat \<Rightarrow> bool" where
  "offsets_agree img rule i j \<longleftrightarrow>
     (let member = pi_allocation img i; candidate = pi_allocation img j;
          inExtension = al_Address candidate + offsetInExtension rule; inMember = al_Address member + offsetInMember rule in
      if useOffsetInExtension rule then
        offsetInExtension rule + 8 \<le> al_Size candidate \<and>
        (if referenceIsOutgoing rule then useOffsetInMember rule \<or> holds_pointer img i inExtension
         else
           (case word_at (pi_map img) inExtension of
              None \<Rightarrow> False
            | Some pointer \<Rightarrow>
                if useOffsetInMember rule then pointer = inMember
                else al_Address member \<le> pointer \<and> pointer < al_Address member + al_Size member))
      else useOffsetInMember rule \<and> \<not> referenceIsOutgoing rule \<longrightarrow> holds_pointer img j inMember)"

definition may_follow :: "ExtendedVisitor \<Rightarrow> ProcessImage \<Rightarrow> reference \<Rightarrow> bool" where
  "may_follow ev img = (\<lambda>(i, rule, j).
     (extensionMustBeLeaked rule \<longrightarrow> IsLeaked (p_graph (pi_process img)) j) \<and> al_IsUsed (pi_allocation img j) \<and>
     accepted img (extensionSignatureChecker rule) j \<and> offsets_agree img rule i j \<and>
     (if referenceIsOutgoing rule
      then edge_counts img (ev_skipTaintedReferences ev) (ev_skipUnfavoredReferences ev) i j
      else edge_counts img (ev_skipTaintedReferences ev) (ev_skipUnfavoredReferences ev) j i))"

section \<open>The search\<close>

definition rule_references :: "ProcessImage \<Rightarrow> nat \<Rightarrow> Rule \<Rightarrow> reference list" where
  "rule_references img i rule = map (\<lambda>j. (i, rule, j)) (rule_candidates img rule i)"

definition state_rules :: "ExtendedVisitor \<Rightarrow> nat \<Rightarrow> Rule list" where
  "state_rules ev s = map ((!) (ev_rules ev)) [stateToBase ev ! s..<stateToBase ev ! (s + 1)]"

definition state_references :: "ExtendedVisitor \<Rightarrow> ProcessImage \<Rightarrow> nat \<Rightarrow> nat \<Rightarrow> reference list" where
  "state_references ev img i s = concat (map (rule_references img i) (state_rules ev s))"

lemma card_less_insert: "j \<notin> V \<Longrightarrow> j < n \<Longrightarrow> card ({..<n} - insert j V) < card ({..<n} - V)" for n j :: nat
proof -
  assume "j \<notin> V" "j < n"
  moreover have "{..<n} - insert j V = {..<n} - V - {j}" by blast
  ultimately show ?thesis using card_Diff1_less [of "{..<n} - V" j] by simp
qed

text \<open>The references that may be followed, in the order of the search, with whether their end was visited before.\<close>

function search :: "ExtendedVisitor \<Rightarrow> ProcessImage \<Rightarrow> nat set \<Rightarrow> reference list \<Rightarrow> (reference \<times> bool) list" where
  "search ev img V [] = []"
| "search ev img V ((i, rule, j) # rs) =
     (if pi_size img \<le> j \<or> \<not> may_follow ev img (i, rule, j) then search ev img V rs
      else if j \<in> V then ((i, rule, j), True) # search ev img V rs
      else ((i, rule, j), False) # search ev img (insert j V) (state_references ev img j (newState rule) @ rs))"
  by pat_completeness auto
termination
proof (relation "measures [\<lambda>(ev, img, V, rs). card ({..<pi_size img} - V), \<lambda>(ev, img, V, rs). length rs]", goal_cases)
  case 1
  show ?case by simp
next
  case 2
  show ?case by simp
next
  case 3
  show ?case by simp
next
  case (4 ev img V i rule j rs)
  then have "card ({..<pi_size img} - insert j V) < card ({..<pi_size img} - V)" by (intro card_less_insert) simp_all
  then show ?case by simp
qed

text \<open>The allocations that are reached, with their states.\<close>

definition reached :: "(reference \<times> bool) list \<Rightarrow> (nat \<times> nat) list" where
  "reached tr = map (\<lambda>((i, rule, j), b). (j, newState rule)) (filter (\<lambda>(r, b). \<not> b) tr)"

definition reference_events :: "ExtendedVisitor \<Rightarrow> ProcessImage \<Rightarrow> reference \<times> bool \<Rightarrow> event list" where
  "reference_events ev img = (\<lambda>((i, rule, j), already).
     (if commentExtensions ev then
        [Says (reference_text rule (pi_allocation img i) (pi_allocation img j))] @
        (if already then [Says (visited_text (stateLabels ev) rule (pi_allocation img j))]
         else if newState rule \<noteq> 0 then [Says (extended_text (stateLabels ev) rule (pi_allocation img j))] else [])
      else []) @
     (if already then [] else visit_member ev j (newState rule)))"

lemma reached_simps [simp]:
  "reached [] = []" "reached ((r, True) # tr) = reached tr"
  "reached (((i, rule, j), False) # tr) = (j, newState rule) # reached tr"
  by (simp_all add: reached_def)

section \<open>What the search reaches\<close>

text \<open>Allocations that had not been visited, each once.\<close>

lemma search_fresh:
  "distinct (map fst (reached (search ev img V rs))) \<and> fst ` set (reached (search ev img V rs)) \<inter> V = {} \<and>
   fst ` set (reached (search ev img V rs)) \<subseteq> {..<pi_size img}"
  by (induction ev img V rs rule: search.induct) auto

text \<open>Nothing but what the references lead to.\<close>

lemma search_sound:
  "((i, rule, j), b) \<in> set (search ev img V rs) \<Longrightarrow>
   may_follow ev img (i, rule, j) \<and> j < pi_size img \<and>
   ((i, rule, j) \<in> set rs \<or> (\<exists>(i', s)\<in>set (reached (search ev img V rs)). (i, rule, j) \<in> set (state_references ev img i' s)))"
proof (induction ev img V rs rule: search.induct)
  case (2 ev img V i' rule' j' rs)
  show ?case
  proof (cases "pi_size img \<le> j' \<or> \<not> may_follow ev img (i', rule', j')")
    case True
    then show ?thesis using 2 by auto
  next
    case False
    then show ?thesis using 2 by (cases "j' \<in> V") auto
  qed
qed simp

text \<open>All that they lead to.\<close>

lemma search_complete:
  "(i, rule, j) \<in> set rs \<or> (\<exists>(i', s)\<in>set (reached (search ev img V rs)). (i, rule, j) \<in> set (state_references ev img i' s)) \<Longrightarrow>
   j < pi_size img \<Longrightarrow> may_follow ev img (i, rule, j) \<Longrightarrow> j \<in> V \<union> fst ` set (reached (search ev img V rs))"
proof (induction ev img V rs rule: search.induct)
  case (2 ev img V i' rule' j' rs)
  show ?case
  proof (cases "pi_size img \<le> j' \<or> \<not> may_follow ev img (i', rule', j')")
    case True
    then have "(i, rule, j) \<noteq> (i', rule', j')" using 2(5,6) by auto
    then show ?thesis using 2(1) [OF True _ 2(5,6)] 2(4) True by auto
  next
    case ok: False
    show ?thesis
    proof (cases "j' \<in> V")
      case True
      then have "j \<in> V" if "(i, rule, j) = (i', rule', j')" using that by simp
      then show ?thesis using 2(2) [OF ok True _ 2(5,6)] 2(4) ok True by auto
    next
      case False
      let ?rs = "state_references ev img j' (newState rule') @ rs"
      have e: "search ev img V ((i', rule', j') # rs) = ((i', rule', j'), False) # search ev img (insert j' V) ?rs"
        using ok False by simp
      have "(i, rule, j) = (i', rule', j') \<or> (i, rule, j) \<in> set ?rs \<or>
          (\<exists>(i', s)\<in>set (reached (search ev img (insert j' V) ?rs)). (i, rule, j) \<in> set (state_references ev img i' s))"
        using 2(4) unfolding e by auto
      then show ?thesis
      proof
        assume "(i, rule, j) = (i', rule', j')"
        then show ?thesis unfolding e by simp
      next
        assume "(i, rule, j) \<in> set ?rs \<or>
          (\<exists>(i', s)\<in>set (reached (search ev img (insert j' V) ?rs)). (i, rule, j) \<in> set (state_references ev img i' s))"
        from 2(3) [OF ok False this 2(5,6)] show ?thesis unfolding e by auto
      qed
    qed
  qed
qed simp

end
