(* ===== verification/Extended_Refines.thy ===== *)
theory Extended_Refines
  imports Extension_Search
begin

text \<open>
  The walk of the extended visitor is the search of \<open>Extension_Search\<close>: it ends, leaves no array, and visits the
  same allocations, in the same states and order and with the same comments.
\<close>

section \<open>Reads of the walk\<close>

lemma image_window:
  assumes "vam_ok m" "FindMappedMemoryImage m a = (n, Some off)" "k \<le> unat n"
  shows "file_bytes (fileImage m) off k = Value (take k (drop (unat off) (fileImage m)))"
    "j + 8 \<le> k \<Longrightarrow> word_at m (a + of_nat j) = Some (of_nat (le_value (take 8 (drop (unat off + j) (fileImage m)))))"
proof -
  have "0 < n" "unat off + unat n \<le> length (fileImage m)" using FindMappedMemoryImage_spec [OF assms(1,2)] by simp_all
  then show "file_bytes (fileImage m) off k = Value (take k (drop (unat off) (fileImage m)))"
    using assms(3) by (simp add: file_bytes_def)
  obtain L S V where it: "vam_find m a = Some (L, S, V)"
    using assms(2) by (cases "vam_find m a") (auto simp: FindMappedMemoryImage_def)
  have img: "has_image V" and n: "n = L - a" and off: "off = a + adjustToFileOffset V"
    using assms(2) it by (auto simp: FindMappedMemoryImage_def GetImage_eq Let_def split: if_splits)
  note D = rm_find_SomeD [OF vam_okD(1) [OF assms(1)] it [unfolded vam_find_def]]
  have un: "unat n = unat L - unat a" using D(3) n by (simp add: unat_sub_le less_imp_le)
  assume j: "j + 8 \<le> k"
  have L64: "unat L < 2 ^ 64" using unsigned_less [of L, where 'a = nat] by simp
  have j': "unat a + (j + 8) \<le> unat L" using j assms(3) un by linarith
  have ua: "unat (a + of_nat j) = unat a + j" "unat (a + of_nat j + 8) = unat a + j + 8"
    using j' L64 unat_add_of_nat [of a j] unat_add_of_nat [of "a + of_nat j" 8] by simp_all
  have x: "L - S \<le> a + of_nat j" "a + of_nat j < L" "\<not> a + of_nat j + 8 < a + of_nat j" "a + of_nat j + 8 \<le> L"
  proof -
    have "unat (L - S) \<le> unat a" using D(2) by (simp add: word_le_nat_alt)
    then show "L - S \<le> a + of_nat j" "a + of_nat j < L" "\<not> a + of_nat j + 8 < a + of_nat j" "a + of_nat j + 8 \<le> L"
      using ua j' by (simp_all add: word_le_nat_alt word_less_nat_alt)
  qed
  have f: "vam_find m (a + of_nat j) = Some (L, S, V)"
    unfolding vam_find_def by (rule rm_find_entry [OF vam_okD(1) [OF assms(1)] D(1) x(1,2)])
  have "unat (a + of_nat j + adjustToFileOffset V) = unat off + j"
  proof -
    have "unat (a - (L - S)) + j = unat (a + of_nat j - (L - S))"
      using ua(1) D(2) x(1) by (simp add: unat_sub_le word_le_nat_alt)
    then show ?thesis
      using entry_in_file(2) [OF assms(1) D(1) img D(2,3)] entry_in_file(2) [OF assms(1) D(1) img x(1,2)] by (simp add: off)
  qed
  then show "word_at m (a + of_nat j) = Some (of_nat (le_value (take 8 (drop (unat off + j) (fileImage m)))))"
    using f img x by (simp add: word_at_def read_spec_def)
qed

lemma set_le_words: "set (le_words bs) = {of_nat (le_value (take 8 (drop (8 * k) bs))) |k. 8 * k + 8 \<le> length bs}"
proof (induction bs rule: le_words.induct)
  case (1 bs)
  show ?case
  proof (cases "length bs < 8")
    case True
    then show ?thesis by (simp add: le_words.simps [of bs])
  next
    case False
    let ?w = "\<lambda>bs k. of_nat (le_value (take 8 (drop (8 * k) bs))) :: addr"
    have s: "{?w (drop 8 bs) k |k. 8 * k + 8 \<le> length (drop 8 bs)} = {?w bs (Suc k) |k. 8 * Suc k + 8 \<le> length bs}"
      using False by (auto simp: algebra_simps)
    have "{?w bs k |k. 8 * k + 8 \<le> length bs} = insert (?w bs 0) {?w bs (Suc k) |k. 8 * Suc k + 8 \<le> length bs}"
    proof (intro equalityI subsetI)
      fix x
      assume "x \<in> {?w bs k |k. 8 * k + 8 \<le> length bs}"
      then obtain k where k: "x = ?w bs k" "8 * k + 8 \<le> length bs" by blast
      then show "x \<in> insert (?w bs 0) {?w bs (Suc k) |k. 8 * Suc k + 8 \<le> length bs}" by (cases k) auto
    next
      fix x
      assume "x \<in> insert (?w bs 0) {?w bs (Suc k) |k. 8 * Suc k + 8 \<le> length bs}"
      then consider "x = ?w bs 0" | k where "x = ?w bs (Suc k)" "8 * Suc k + 8 \<le> length bs" by blast
      then show "x \<in> {?w bs k |k. 8 * k + 8 \<le> length bs}"
      proof cases
        case 1
        then show ?thesis using False by (intro CollectI exI [of _ 0]) simp
      qed blast
    qed
    then show ?thesis using 1 [OF False] s by (simp add: le_words.simps [of bs] False)
  qed
qed

lemma whole_words: "8 * k + 8 \<le> n - n mod 8 \<longleftrightarrow> 8 * k + 8 \<le> n" for k n :: nat
proof -
  obtain q r where n: "n = 8 * q + r" "r < 8" using mult_div_mod_eq [of 8 n] mod_less_divisor [of 8 n] by (metis zero_less_numeral)
  then have "n mod 8 = r" by simp
  moreover have "8 * k + 8 \<le> 8 * q + r \<longleftrightarrow> 8 * k + 8 \<le> 8 * q" using n(2) by presburger
  ultimately show ?thesis using n(1) by simp
qed

lemma AllocationHasAlignedPointer_outcome:
  assumes "vam_ok (pi_map img)"
  shows "AllocationHasAlignedPointer (pi_map img) (pi_allocation img i) a = Some (holds_pointer img i a)"
proof -
  let ?m = "pi_map img" and ?a = "pi_allocation img i"
  obtain n pImage where f: "FindMappedMemoryImage ?m (al_Address ?a) = (n, pImage)" by fastforce
  define b where "b = (if n < al_Size ?a then n else al_Size ?a)"
  have ub: "unat b = contiguous_size img i"
    by (auto simp: b_def contiguous_size_def f word_less_nat_alt min_def)
  have "(8 - 1 :: addr) = mask 3" by (simp add: mask_eq_exp_minus_1)
  then have N: "unat (b AND NOT (8 - 1)) = unat b - unat b mod 8"
    using unat_AND_NOT_mask [of 3 b] by simp
  show ?thesis
  proof (cases "unat b - unat b mod 8 = 0")
    case True
    then have "\<not> 8 * k + 8 \<le> contiguous_size img i" for k using whole_words [of k "unat b"] by (simp add: ub)
    then show ?thesis using True N by (simp add: AllocationHasAlignedPointer_def f b_def [symmetric] holds_pointer_def)
  next
    case False
    then have "0 < unat n" using ub by (auto simp: contiguous_size_def f intro: gr0I)
    then obtain off where off: "pImage = Some off" using FindMappedMemoryImage_spec [OF assms f] by (cases pImage) auto
    let ?N = "unat b - unat b mod 8" and ?f = "fileImage ?m"
    have le: "?N \<le> unat n" using ub by (simp add: contiguous_size_def f)
    note w = image_window [OF assms f [unfolded off] le]
    have len: "length (take ?N (drop (unat off) ?f)) = ?N"
    proof -
      have "unat off + unat n \<le> length ?f" using FindMappedMemoryImage_spec [OF assms f] by (simp add: off)
      then have "unat off + ?N \<le> length ?f" using le by linarith
      then show ?thesis by simp
    qed
    have e: "8 * k + 8 \<le> ?N \<longleftrightarrow> 8 * k + 8 \<le> contiguous_size img i" for k
      unfolding ub [symmetric] by (rule whole_words)
    let ?bs = "take ?N (drop (unat off) ?f)"
    have eq: "word_at ?m (al_Address ?a + of_nat (8 * k)) = Some (of_nat (le_value (take 8 (drop (8 * k) ?bs))))"
      if "8 * k + 8 \<le> contiguous_size img i" for k
    proof -
      have k: "8 * k + 8 \<le> ?N" using that e by simp
      have "take 8 (drop (8 * k) ?bs) = take 8 (drop (unat off + 8 * k) ?f)"
        unfolding drop_take take_take drop_drop using k by (simp add: min_absorb1 add.commute)
      then show ?thesis using w(2) [OF k] by simp
    qed
    have "a \<in> set (le_words ?bs) \<longleftrightarrow> holds_pointer img i a"
    proof
      assume "a \<in> set (le_words ?bs)"
      then obtain k where k: "8 * k + 8 \<le> contiguous_size img i" "a = of_nat (le_value (take 8 (drop (8 * k) ?bs)))"
        unfolding set_le_words len e by blast
      then show "holds_pointer img i a" using eq unfolding holds_pointer_def by blast
    next
      assume "holds_pointer img i a"
      then obtain k where k: "8 * k + 8 \<le> contiguous_size img i" "word_at ?m (al_Address ?a + of_nat (8 * k)) = Some a"
        unfolding holds_pointer_def by blast
      then show "a \<in> set (le_words ?bs)" unfolding set_le_words len e using eq [OF k(1)] by auto
    qed
    then show ?thesis using False N w(1) by (simp add: AllocationHasAlignedPointer_def f b_def [symmetric] off)
  qed
qed

section \<open>Tests of the walk\<close>

definition checker_made :: "ProcessImage \<Rightarrow> SignatureChecker \<Rightarrow> bool" where
  "checker_made img sc \<longleftrightarrow> (\<exists>s. SignatureChecker_new img s = Some sc)"

definition rule_made :: "ProcessImage \<Rightarrow> Rule \<Rightarrow> bool" where
  "rule_made img rule \<longleftrightarrow> checker_made img (memberSignatureChecker rule) \<and> checker_made img (extensionSignatureChecker rule)"

lemma Check_outcome:
  assumes "pi_ok img" "checker_made img sc" "i < pi_size img"
  shows "Check img sc i (pi_allocation img i) = Some (accepted img sc i)"
proof -
  obtain s where "SignatureChecker_new img s = Some sc" using assms(2) by (auto simp: checker_made_def)
  then show ?thesis using Check_accepts [OF assms(1), of s] assms(3) by (fastforce simp: accepted_def)
qed

lemma pi_okD:
  assumes "pi_ok img"
  shows "vam_ok (pi_map img)" "edges_ok (p_graph (pi_process img))" "g_numAllocations (p_graph (pi_process img)) = pi_size img"
    "ep_ok (p_graph (pi_process img)) (tg_tainted (pi_tagging img))" "ep_ok (p_graph (pi_process img)) (tg_favored (pi_tagging img))"
  using assms by (simp_all add: pi_ok_def process_ok_def tagging_ok_def)

lemma rule_applies_outcome:
  assumes "pi_ok img" "rule_made img rule" "i < pi_size img"
  shows "rule_applies img rule i (pi_allocation img i) = Some (applies_to img rule i)"
  using Check_outcome [OF assms(1) _ assms(3)] assms(2)
  by (auto simp: rule_applies_def applies_to_def rule_made_def linorder_not_less)

lemma search_levels_bound:
  "\<forall>level\<in>set levels. \<forall>k\<in>set level. k < n \<Longrightarrow> search_levels as a levels = Some k \<Longrightarrow> k < n"
  by (induction levels) (auto split: option.splits dest!: index_search_Some(2))

lemma index_of_bound: "pi_ok img \<Longrightarrow> AllocationIndexOf (p_directory (pi_process img)) a \<le> pi_size img"
  using search_levels_bound [of "wrappers (p_directory (pi_process img))" "pi_size img"]
  by (auto simp: AllocationIndexOf_def NumAllocations_def pi_ok_def levels_ok_def less_imp_le
      split: option.split dest!: index_search_Some(2))

lemma exact_candidate_outcome:
  assumes "pi_ok img" "applies_to img rule i" "referenceIsOutgoing rule" "useOffsetInMember rule"
  shows "\<exists>r. exact_candidate img rule (pi_allocation img i) = Some r \<and>
    rule_candidates img rule i = (case r of None \<Rightarrow> [] | Some j \<Rightarrow> [j]) \<and> (\<forall>j. r = Some j \<longrightarrow> j < pi_size img)"
  using index_of_bound [OF assms(1)] assms
  by (auto simp: exact_candidate_def rule_candidates_def image_word_at [OF pi_okD(1) [OF assms(1)]] Let_def
      AllocationAt_used less_le split: option.splits)

lemma offsets_match_outcome:
  assumes "pi_ok img"
  shows "offsets_match img rule (pi_allocation img i) (pi_allocation img j) = Some (offsets_agree img rule i j)"
  using image_word_at [OF pi_okD(1) [OF assms]] AllocationHasAlignedPointer_outcome [OF pi_okD(1) [OF assms]]
  by (auto simp: offsets_match_def offsets_agree_def Let_def linorder_not_less split: option.splits)

lemma reference_allowed_outcome:
  assumes "pi_ok img"
  shows "reference_allowed ev img rule i j \<longleftrightarrow>
    (if referenceIsOutgoing rule
     then edge_counts img (ev_skipTaintedReferences ev) (ev_skipUnfavoredReferences ev) i j
     else edge_counts img (ev_skipTaintedReferences ev) (ev_skipUnfavoredReferences ev) j i)"
  using ep_For_outcome [OF pi_okD(2) [OF assms] pi_okD(4) [OF assms]] ep_For_outcome [OF pi_okD(2) [OF assms] pi_okD(5) [OF assms]]
  by (auto simp: reference_allowed_def edge_counts_def Let_def)

lemma candidate_allowed_outcome:
  assumes "pi_ok img" "rule_made img rule" "j < pi_size img"
  shows "candidate_allowed ev img rule i (pi_allocation img i) j (pi_allocation img j) = Some (may_follow ev img (i, rule, j))"
  using Check_outcome [OF assms(1) _ assms(3)] assms(2) offsets_match_outcome [OF assms(1)]
    reference_allowed_outcome [OF assms(1)]
  by (auto simp: candidate_allowed_def may_follow_def rule_made_def split: bool.split)

section \<open>Candidates of the walk\<close>

fun edges_from :: "Graph \<Rightarrow> edge_pointer \<Rightarrow> nat \<Rightarrow> nat list" where
  "edges_from g (Outgoing_at k) n = map ((!) (outgoing g)) [k..<k + n]"
| "edges_from g (Incoming_at k) n = map ((!) (incoming g)) [k..<k + n]"

fun pointer_ok :: "Graph \<Rightarrow> edge_pointer \<Rightarrow> nat \<Rightarrow> bool" where
  "pointer_ok g (Outgoing_at k) n \<longleftrightarrow> k + n \<le> length (outgoing g)"
| "pointer_ok g (Incoming_at k) n \<longleftrightarrow> k + n \<le> length (incoming g)"

text \<open>What is left of the rule at the index of a context.\<close>

definition left_candidates :: "ExtendedVisitor \<Rightarrow> ProcessImage \<Rightarrow> ExtensionContext \<Rightarrow> nat list" where
  "left_candidates ev img c =
     (case ec_ruleCheckProgress c of
        NEW_RULE \<Rightarrow> rule_candidates img (ev_rules ev ! ec_ruleIndex c) (ec_memberIndex c)
      | IN_PROGRESS \<Rightarrow> edges_from (p_graph (pi_process img)) (ec_pNextCandidate c) (ec_numCandidatesLeft c)
      | _ \<Rightarrow> [])"

text \<open>A context that stands at a rule, and between rules.\<close>

definition at_rule :: "ExtendedVisitor \<Rightarrow> ProcessImage \<Rightarrow> ExtensionContext \<Rightarrow> bool" where
  "at_rule ev img c \<longleftrightarrow> ec_memberIndex c < pi_size img \<and> ec_ruleIndex c < length (ev_rules ev) \<and>
     ec_ruleCheckProgress c \<noteq> NO_EDGES_CHECKED \<and>
     (ec_ruleCheckProgress c = IN_PROGRESS \<longrightarrow>
        0 < ec_numCandidatesLeft c \<and> pointer_ok (p_graph (pi_process img)) (ec_pNextCandidate c) (ec_numCandidatesLeft c))"

lemma take_edge_outcome:
  assumes "0 < ec_numCandidatesLeft c" "pointer_ok g (ec_pNextCandidate c) (ec_numCandidatesLeft c)"
  obtains c' j where "take_edge g c = Some (c', Some j)"
    "edges_from g (ec_pNextCandidate c) (ec_numCandidatesLeft c) =
       j # (if ec_ruleCheckProgress c' = IN_PROGRESS then edges_from g (ec_pNextCandidate c') (ec_numCandidatesLeft c') else [])"
    "ec_memberIndex c' = ec_memberIndex c" "ec_ruleIndex c' = ec_ruleIndex c"
    "ec_ruleCheckProgress c' = RULE_DONE \<or> ec_ruleCheckProgress c' = IN_PROGRESS \<and>
       0 < ec_numCandidatesLeft c' \<and> pointer_ok g (ec_pNextCandidate c') (ec_numCandidatesLeft c')"
  using assms that
  by (cases "ec_pNextCandidate c"; cases "ec_numCandidatesLeft c = 1") (auto simp: take_edge_def upt_conv_Cons Let_def)

lemma edge_rows:
  assumes "pi_ok img" "i < pi_size img"
  shows "GetOutgoing (p_graph (pi_process img)) i = (f, l) \<Longrightarrow> f \<le> l \<and> l \<le> length (outgoing (p_graph (pi_process img)))"
    "GetIncoming (p_graph (pi_process img)) i = (f, l) \<Longrightarrow> f \<le> l \<and> l \<le> length (incoming (p_graph (pi_process img)))"
proof -
  let ?g = "p_graph (pi_process img)"
  have i: "i < g_numAllocations ?g" using assms pi_okD(3) by simp
  have len: "length (outgoing ?g) = totalEdges ?g" "length (incoming ?g) = totalEdges ?g"
    using pi_okD(2) [OF assms(1)] by (simp_all add: edges_ok_def)
  show "f \<le> l \<and> l \<le> length (outgoing ?g)" if "GetOutgoing ?g i = (f, l)"
    using that i out.first_le [OF pi_okD(2) [OF assms(1)], of i "i + 1"] out.first_bound [OF pi_okD(2) [OF assms(1)], of i] len
    by (auto simp: GetOutgoing_def edge_range_def)
  show "f \<le> l \<and> l \<le> length (incoming ?g)" if "GetIncoming ?g i = (f, l)"
    using that i inn.first_le [OF pi_okD(2) [OF assms(1)], of i "i + 1"] inn.first_bound [OF pi_okD(2) [OF assms(1)], of i] len
    by (auto simp: GetIncoming_def edge_range_def)
qed

text \<open>The candidates are allocations.\<close>

lemma edges_bound:
  assumes "pi_ok img"
  shows "k < length (outgoing (p_graph (pi_process img))) \<Longrightarrow> outgoing (p_graph (pi_process img)) ! k < pi_size img"
    "k < length (incoming (p_graph (pi_process img))) \<Longrightarrow> incoming (p_graph (pi_process img)) ! k < pi_size img"
  using out.entry_bound [OF pi_okD(2) [OF assms], of k] inn.entry_bound [OF pi_okD(2) [OF assms], of k] pi_okD(3) [OF assms]
  by simp_all

lemma rule_candidates_bound:
  assumes "pi_ok img" "i < pi_size img" "j \<in> set (rule_candidates img rule i)"
  shows "j < pi_size img"
proof (cases "referenceIsOutgoing rule \<and> useOffsetInMember rule")
  case True
  then have "applies_to img rule i" using assms(3) by (auto simp: rule_candidates_def Let_def split: if_splits)
  then show ?thesis using exact_candidate_outcome [OF assms(1), of rule i] True assms(3) by (auto split: option.splits)
next
  case False
  obtain fo lo fi li where e: "GetOutgoing (p_graph (pi_process img)) i = (fo, lo)" "GetIncoming (p_graph (pi_process img)) i = (fi, li)"
    by fastforce
  note r = edge_rows [OF assms(1,2)] and b = edges_bound [OF assms(1)]
  show ?thesis
    using False assms(3) e r(1) [OF e(1)] r(2) [OF e(2)]
    by (auto simp: rule_candidates_def edges_in_def Let_def split: if_splits intro!: b)
qed

lemma left_candidates_bound:
  assumes "pi_ok img" "at_rule ev img c" "j \<in> set (left_candidates ev img c)"
  shows "j < pi_size img"
proof (cases "ec_ruleCheckProgress c")
  case NEW_RULE
  then show ?thesis using assms rule_candidates_bound [OF assms(1)] by (auto simp: left_candidates_def at_rule_def)
next
  case IN_PROGRESS
  then show ?thesis
    using assms(2,3) edges_bound [OF assms(1)]
    by (cases "ec_pNextCandidate c") (auto simp: left_candidates_def at_rule_def)
qed (use assms in \<open>auto simp: left_candidates_def\<close>)

lemma start_edges_outcome:
  assumes "pi_ok img" "ec_memberIndex c < pi_size img" "es = (if referenceIsOutgoing rule
      then edges_in (outgoing (p_graph (pi_process img))) (GetOutgoing (p_graph (pi_process img)) (ec_memberIndex c))
      else edges_in (incoming (p_graph (pi_process img))) (GetIncoming (p_graph (pi_process img)) (ec_memberIndex c)))"
  obtains (none) c' where "start_edges (p_graph (pi_process img)) rule c = Some (c', None)" "es = []"
      "ec_ruleCheckProgress c' = RULE_DONE" "ec_memberIndex c' = ec_memberIndex c" "ec_ruleIndex c' = ec_ruleIndex c"
  | (some) c1 where "start_edges (p_graph (pi_process img)) rule c = take_edge (p_graph (pi_process img)) c1"
      "0 < ec_numCandidatesLeft c1" "pointer_ok (p_graph (pi_process img)) (ec_pNextCandidate c1) (ec_numCandidatesLeft c1)"
      "edges_from (p_graph (pi_process img)) (ec_pNextCandidate c1) (ec_numCandidatesLeft c1) = es"
      "ec_memberIndex c1 = ec_memberIndex c" "ec_ruleIndex c1 = ec_ruleIndex c"
proof -
  let ?g = "p_graph (pi_process img)"
  obtain f l where fl: "(if referenceIsOutgoing rule then GetOutgoing ?g (ec_memberIndex c) else GetIncoming ?g (ec_memberIndex c)) = (f, l)"
    by fastforce
  let ?p = "if referenceIsOutgoing rule then Outgoing_at f else Incoming_at f"
  have b: "f \<le> l" "pointer_ok ?g ?p (l - f)"
    using fl edge_rows [OF assms(1,2)] by (auto split: if_splits)
  have es: "es = edges_from ?g ?p (l - f)"
    using fl b(1) assms(3) by (auto simp: edges_in_def split: if_splits)
  let ?c = "c\<lparr>ec_pNextCandidate := ?p, ec_numCandidatesLeft := l - f\<rparr>"
  have s: "start_edges ?g rule c = (if l - f = 0 then Some (?c\<lparr>ec_ruleCheckProgress := RULE_DONE\<rparr>, None) else take_edge ?g ?c)"
    by (simp add: start_edges_def fl del: if_split_asm cong: if_cong)
  show ?thesis
  proof (cases "l - f = 0")
    case True
    show ?thesis by (rule none [of "?c\<lparr>ec_ruleCheckProgress := RULE_DONE\<rparr>"]) (use True s es in auto)
  next
    case False
    show ?thesis by (rule some [of ?c]) (use False s es b in auto)
  qed
qed

lemma find_candidate_outcome:
  assumes "pi_ok img" "rule_made img (ev_rules ev ! ec_ruleIndex c)" "at_rule ev img c" "ec_ruleCheckProgress c \<noteq> RULE_DONE"
  obtains (none) c' where
      "find_candidate img (ev_rules ev ! ec_ruleIndex c) (pi_allocation img (ec_memberIndex c)) c = Some (c', None)"
      "left_candidates ev img c = []" "ec_ruleCheckProgress c' = RULE_DONE"
      "ec_memberIndex c' = ec_memberIndex c" "ec_ruleIndex c' = ec_ruleIndex c"
  | (candidate) c' j where
      "find_candidate img (ev_rules ev ! ec_ruleIndex c) (pi_allocation img (ec_memberIndex c)) c = Some (c', Some j)"
      "left_candidates ev img c = j # left_candidates ev img c'" "at_rule ev img c'"
      "ec_memberIndex c' = ec_memberIndex c" "ec_ruleIndex c' = ec_ruleIndex c" "ec_ruleCheckProgress c' \<noteq> NEW_RULE"
proof -
  let ?g = "p_graph (pi_process img)" and ?rule = "ev_rules ev ! ec_ruleIndex c" and ?i = "ec_memberIndex c"
  have i: "?i < pi_size img" "ec_ruleIndex c < length (ev_rules ev)" using assms(3) by (simp_all add: at_rule_def)
  have take: thesis
    if c1: "find_candidate img ?rule (pi_allocation img ?i) c = take_edge ?g c1" "0 < ec_numCandidatesLeft c1"
      "pointer_ok ?g (ec_pNextCandidate c1) (ec_numCandidatesLeft c1)"
      "edges_from ?g (ec_pNextCandidate c1) (ec_numCandidatesLeft c1) = left_candidates ev img c"
      "ec_memberIndex c1 = ?i" "ec_ruleIndex c1 = ec_ruleIndex c" for c1
  proof (rule take_edge_outcome [OF c1(2,3)])
    fix c' j
    assume t: "take_edge ?g c1 = Some (c', Some j)"
      "edges_from ?g (ec_pNextCandidate c1) (ec_numCandidatesLeft c1) =
        j # (if ec_ruleCheckProgress c' = IN_PROGRESS then edges_from ?g (ec_pNextCandidate c') (ec_numCandidatesLeft c') else [])"
      "ec_memberIndex c' = ec_memberIndex c1" "ec_ruleIndex c' = ec_ruleIndex c1"
      "ec_ruleCheckProgress c' = RULE_DONE \<or> ec_ruleCheckProgress c' = IN_PROGRESS \<and>
       0 < ec_numCandidatesLeft c' \<and> pointer_ok ?g (ec_pNextCandidate c') (ec_numCandidatesLeft c')"
    show thesis
      by (rule candidate [of c' j]) (use t c1 i in \<open>auto simp: left_candidates_def at_rule_def\<close>)
  qed
  show thesis
  proof (cases "ec_ruleCheckProgress c")
    case NEW_RULE
    note r = rule_applies_outcome [OF assms(1,2) i(1)]
    have l: "left_candidates ev img c = rule_candidates img ?rule ?i" by (simp add: left_candidates_def NEW_RULE)
    show ?thesis
    proof (cases "applies_to img ?rule ?i")
      case False
      show ?thesis
        by (rule none [of "c\<lparr>ec_ruleCheckProgress := RULE_DONE\<rparr>"])
          (use False in \<open>simp_all add: find_candidate_def NEW_RULE r l rule_candidates_def Let_def\<close>)
    next
      case applies: True
      show ?thesis
      proof (cases "referenceIsOutgoing ?rule \<and> useOffsetInMember ?rule")
        case True
        obtain x where x: "exact_candidate img ?rule (pi_allocation img ?i) = Some x"
          "rule_candidates img ?rule ?i = (case x of None \<Rightarrow> [] | Some j \<Rightarrow> [j])"
          using exact_candidate_outcome [OF assms(1) applies] True by blast
        show ?thesis
        proof (cases x)
          case None
          show ?thesis
            by (rule none [of "c\<lparr>ec_ruleCheckProgress := RULE_DONE\<rparr>"])
              (use True applies x None in \<open>simp_all add: find_candidate_def NEW_RULE r l\<close>)
        next
          case (Some j)
          show ?thesis
            by (rule candidate [of "c\<lparr>ec_ruleCheckProgress := RULE_DONE\<rparr>" j])
              (use True applies x Some i in \<open>simp_all add: find_candidate_def NEW_RULE r l left_candidates_def at_rule_def\<close>)
        qed
      next
        case False
        then have f: "find_candidate img ?rule (pi_allocation img ?i) c = start_edges ?g ?rule c"
          using applies r by (auto simp: find_candidate_def NEW_RULE)
        have es: "left_candidates ev img c = (if referenceIsOutgoing ?rule then edges_in (outgoing ?g) (GetOutgoing ?g ?i)
            else edges_in (incoming ?g) (GetIncoming ?g ?i))"
          using False applies by (auto simp: l rule_candidates_def Let_def)
        show ?thesis
        proof (rule start_edges_outcome [OF assms(1) i(1) es], goal_cases)
          case (1 c')
          show ?case by (rule none [of c']) (use 1 f in simp_all)
        next
          case (2 c1)
          show ?case by (rule take [of c1]) (use 2 f in simp_all)
        qed
      qed
    qed
  next
    case IN_PROGRESS
    show ?thesis
      by (rule take [of c]) (use IN_PROGRESS assms(3) in \<open>simp_all add: find_candidate_def left_candidates_def at_rule_def\<close>)
  qed (use assms(3,4) in \<open>simp_all add: at_rule_def\<close>)
qed

section \<open>The table of rules\<close>

text \<open>
  The rules of a state stand next to each other, between the bases of the state and the next one; the first state
  has some, and every state that a rule leads to is in the table.
\<close>

definition table_ok :: "ExtendedVisitor \<Rightarrow> ProcessImage \<Rightarrow> bool" where
  "table_ok ev img \<longleftrightarrow>
     length (ev_rules ev) < 2 ^ 64 - 1 \<and> 1 < length (stateToBase ev) \<and> stateToBase ev ! 0 = 0 \<and> 0 < stateToBase ev ! 1 \<and>
     (\<forall>s. s + 1 < length (stateToBase ev) \<longrightarrow>
        stateToBase ev ! s \<le> stateToBase ev ! (s + 1) \<and> stateToBase ev ! (s + 1) \<le> length (ev_rules ev) \<and>
        (\<forall>i. stateToBase ev ! s \<le> i \<longrightarrow> i < stateToBase ev ! (s + 1) \<longrightarrow> baseState (ev_rules ev ! i) = s)) \<and>
     (\<forall>rule\<in>set (ev_rules ev). rule_made img rule \<and> newState rule + 1 < length (stateToBase ev) \<and>
        newState rule < length (stateLabels ev))"

definition references_from :: "ExtendedVisitor \<Rightarrow> ProcessImage \<Rightarrow> nat \<Rightarrow> nat \<Rightarrow> nat \<Rightarrow> reference list" where
  "references_from ev img i a b = concat (map (\<lambda>k. rule_references img i (ev_rules ev ! k)) [a..<b])"

lemma state_references_from:
  "state_references ev img i s = references_from ev img i (stateToBase ev ! s) (stateToBase ev ! (s + 1))"
  by (simp add: state_references_def references_from_def state_rules_def comp_def)

lemma references_from_step:
  "a < b \<Longrightarrow> references_from ev img i a b = rule_references img i (ev_rules ev ! a) @ references_from ev img i (a + 1) b"
  by (simp add: references_from_def upt_conv_Cons)

text \<open>The first rule that a context has yet to begin, and the references it has yet to look at.\<close>

definition first_index :: "ExtensionContext \<Rightarrow> nat" where
  "first_index c = (if ec_ruleCheckProgress c = RULE_DONE then index_after (ec_ruleIndex c) else ec_ruleIndex c)"

definition context_references :: "ExtendedVisitor \<Rightarrow> ProcessImage \<Rightarrow> nat \<Rightarrow> ExtensionContext \<Rightarrow> reference list" where
  "context_references ev img limit c =
     map (\<lambda>j. (ec_memberIndex c, ev_rules ev ! ec_ruleIndex c, j)) (left_candidates ev img c) @
     references_from ev img (ec_memberIndex c)
       (if ec_ruleCheckProgress c = RULE_DONE then index_after (ec_ruleIndex c) else ec_ruleIndex c + 1) limit"

definition limit_of :: "ExtendedVisitor \<Rightarrow> ExtensionContext \<Rightarrow> nat" where
  "limit_of ev c = stateToBase ev ! (baseState (ev_rules ev ! ec_ruleIndex c) + 1)"

definition pending_references :: "ExtendedVisitor \<Rightarrow> ProcessImage \<Rightarrow> Walk \<Rightarrow> reference list" where
  "pending_references ev img w =
     context_references ev img (wk_ruleIndexLimit w) (wk_context w) @
     concat (map (\<lambda>c. context_references ev img (limit_of ev c) c) (wk_stack w))"

section \<open>The invariant of the walk\<close>

definition context_ok :: "ExtendedVisitor \<Rightarrow> ProcessImage \<Rightarrow> nat \<Rightarrow> ExtensionContext \<Rightarrow> bool" where
  "context_ok ev img limit c \<longleftrightarrow>
     ec_memberIndex c < pi_size img \<and> (ec_ruleCheckProgress c \<noteq> RULE_DONE \<longrightarrow> at_rule ev img c \<and> ec_ruleIndex c < limit) \<and>
     (\<exists>s. s + 1 < length (stateToBase ev) \<and> limit = stateToBase ev ! (s + 1) \<and>
        stateToBase ev ! s \<le> first_index c \<and> first_index c \<le> limit)"

definition stacked_ok :: "ExtendedVisitor \<Rightarrow> ProcessImage \<Rightarrow> ExtensionContext \<Rightarrow> bool" where
  "stacked_ok ev img c \<longleftrightarrow> at_rule ev img c \<and> baseState (ev_rules ev ! ec_ruleIndex c) + 1 < length (stateToBase ev) \<and>
     context_ok ev img (limit_of ev c) c"

definition walk_ok :: "ExtendedVisitor \<Rightarrow> ProcessImage \<Rightarrow> Walk \<Rightarrow> bool" where
  "walk_ok ev img w \<longleftrightarrow> set_ok (wk_visited w) \<and> set_numAllocations (wk_visited w) = pi_size img \<and>
     context_ok ev img (wk_ruleIndexLimit w) (wk_context w) \<and> (\<forall>c\<in>set (wk_stack w). stacked_ok ev img c)"

text \<open>Rules that are left, for the steps that look at no reference.\<close>

definition walk_work :: "ExtendedVisitor \<Rightarrow> Walk \<Rightarrow> nat" where
  "walk_work ev w = wk_ruleIndexLimit w - first_index (wk_context w) +
     (\<Sum>c\<leftarrow>wk_stack w. limit_of ev c - first_index c + 1)"

lemma index_simps:
  "i < 2 ^ 64 - 1 \<Longrightarrow> index_after i = i + 1" "i < 2 ^ 64 \<Longrightarrow> index_after (index_before i) = i"
  by (auto simp: index_after_def index_before_def)

lemma at_rule_in_state:
  assumes "table_ok ev img" "ec_ruleIndex c < limit" "limit = stateToBase ev ! (s + 1)" "s + 1 < length (stateToBase ev)"
    "stateToBase ev ! s \<le> ec_ruleIndex c"
  shows "limit_of ev c = limit" "ec_ruleIndex c < length (ev_rules ev)" "baseState (ev_rules ev ! ec_ruleIndex c) = s"
    "index_after (ec_ruleIndex c) = ec_ruleIndex c + 1" "rule_made img (ev_rules ev ! ec_ruleIndex c)"
    "newState (ev_rules ev ! ec_ruleIndex c) + 1 < length (stateToBase ev)"
    "newState (ev_rules ev ! ec_ruleIndex c) < length (stateLabels ev)"
proof -
  show r: "ec_ruleIndex c < length (ev_rules ev)" and b: "baseState (ev_rules ev ! ec_ruleIndex c) = s"
    using assms unfolding table_ok_def by (metis order.strict_trans2, metis)
  show "limit_of ev c = limit" using b assms(3) by (simp add: limit_of_def)
  show "index_after (ec_ruleIndex c) = ec_ruleIndex c + 1"
    using r assms(1) by (intro index_simps) (simp add: table_ok_def)
  show "rule_made img (ev_rules ev ! ec_ruleIndex c)" "newState (ev_rules ev ! ec_ruleIndex c) + 1 < length (stateToBase ev)"
    "newState (ev_rules ev ! ec_ruleIndex c) < length (stateLabels ev)"
    using r assms(1) by (simp_all add: table_ok_def)
qed

section \<open>One step of the walk\<close>

text \<open>What an iteration does to the references that are pending.\<close>

definition looks_at :: "ExtendedVisitor \<Rightarrow> ProcessImage \<Rightarrow> Walk \<Rightarrow> Walk \<Rightarrow> bool" where
  "looks_at ev img w w' \<longleftrightarrow>
     (\<exists>i rule j rs. pending_references ev img w = (i, rule, j) # rs \<and> j < pi_size img \<and>
       (if \<not> may_follow ev img (i, rule, j)
        then pending_references ev img w' = rs \<and> wk_visited w' = wk_visited w \<and> wk_output w' = wk_output w
        else if j \<in> members (wk_visited w)
        then pending_references ev img w' = rs \<and> wk_visited w' = wk_visited w \<and>
          wk_output w' = wk_output w @ reference_events ev img ((i, rule, j), True)
        else pending_references ev img w' = state_references ev img j (newState rule) @ rs \<and>
          members (wk_visited w') = insert j (members (wk_visited w)) \<and>
          wk_output w' = wk_output w @ reference_events ev img ((i, rule, j), False)))"

definition idles :: "ExtendedVisitor \<Rightarrow> ProcessImage \<Rightarrow> Walk \<Rightarrow> Walk \<Rightarrow> bool" where
  "idles ev img w w' \<longleftrightarrow> pending_references ev img w' = pending_references ev img w \<and> wk_visited w' = wk_visited w \<and>
     wk_output w' = wk_output w \<and> walk_work ev w' < walk_work ev w"

lemma pending_set_context:
  "pending_references ev img (set_context c w) =
     context_references ev img (wk_ruleIndexLimit w) c @ concat (map (\<lambda>c. context_references ev img (limit_of ev c) c) (wk_stack w))"
  by (simp add: pending_references_def set_context_def)

lemma set_context_simps [simp]:
  "wk_context (set_context c w) = c" "wk_stack (set_context c w) = wk_stack w" "wk_visited (set_context c w) = wk_visited w"
  "wk_output (set_context c w) = wk_output w" "wk_ruleIndexLimit (set_context c w) = wk_ruleIndexLimit w"
  "set_context c (set_context c' w) = set_context c w"
  by (simp_all add: set_context_def)

lemma say_simps [simp]:
  "wk_context (say t w) = wk_context w" "wk_stack (say t w) = wk_stack w" "wk_visited (say t w) = wk_visited w"
  "wk_output (say t w) = wk_output w @ [Says t]" "wk_ruleIndexLimit (say t w) = wk_ruleIndexLimit w"
  "pending_references ev img (say t w) = pending_references ev img w"
  by (simp_all add: say_def pending_references_def)

text \<open>After a candidate is taken, its rule goes on or is done.\<close>

lemma context_references_taken:
  assumes "left_candidates ev img c = j # left_candidates ev img c'" "ec_memberIndex c' = ec_memberIndex c"
    "ec_ruleIndex c' = ec_ruleIndex c" "ec_ruleCheckProgress c \<noteq> RULE_DONE" "index_after (ec_ruleIndex c) = ec_ruleIndex c + 1"
  shows "context_references ev img limit c =
    (ec_memberIndex c, ev_rules ev ! ec_ruleIndex c, j) # context_references ev img limit c'"
  using assms by (simp add: context_references_def)

lemma context_references_done:
  "ec_ruleCheckProgress c = RULE_DONE \<Longrightarrow> index_after (ec_ruleIndex c) = limit \<Longrightarrow> context_references ev img limit c = []"
  by (simp add: context_references_def left_candidates_def references_from_def)

lemma context_references_new:
  assumes "ec_ruleCheckProgress c = NEW_RULE" "ec_ruleIndex c < limit"
  shows "context_references ev img limit c = references_from ev img (ec_memberIndex c) (ec_ruleIndex c) limit"
  using assms by (simp add: context_references_def left_candidates_def references_from_step rule_references_def)

text \<open>A context in the middle of a state.\<close>

definition in_state :: "ExtendedVisitor \<Rightarrow> nat \<Rightarrow> nat \<Rightarrow> nat \<Rightarrow> bool" where
  "in_state ev s limit i \<longleftrightarrow> s + 1 < length (stateToBase ev) \<and> limit = stateToBase ev ! (s + 1) \<and> stateToBase ev ! s \<le> i \<and> i < limit"

lemma in_stateD:
  assumes "table_ok ev img" "in_state ev s limit (ec_ruleIndex c)"
  shows "limit_of ev c = limit" "ec_ruleIndex c < length (ev_rules ev)" "baseState (ev_rules ev ! ec_ruleIndex c) = s"
    "index_after (ec_ruleIndex c) = ec_ruleIndex c + 1" "rule_made img (ev_rules ev ! ec_ruleIndex c)"
    "newState (ev_rules ev ! ec_ruleIndex c) + 1 < length (stateToBase ev)"
    "newState (ev_rules ev ! ec_ruleIndex c) < length (stateLabels ev)" "s + 1 < length (stateToBase ev)"
  using at_rule_in_state [OF assms(1), of c limit s] assms(2) by (simp_all add: in_state_def)

lemma context_in_state:
  assumes "table_ok ev img" "in_state ev s limit (ec_ruleIndex c)" "at_rule ev img c"
  shows "context_ok ev img limit c"
  using in_stateD [OF assms(1,2)] assms(2,3) unfolding context_ok_def in_state_def first_index_def
  by (auto simp: at_rule_def)

text \<open>The next member.\<close>

lemma extended_context:
  assumes "table_ok ev img" "s + 1 < length (stateToBase ev)" "j < pi_size img"
    "none \<longleftrightarrow> stateToBase ev ! s = stateToBase ev ! (s + 1)"
    "c = c0\<lparr>ec_memberIndex := j, ec_ruleIndex := (if none then index_before (stateToBase ev ! s) else stateToBase ev ! s),
            ec_ruleCheckProgress := (if none then RULE_DONE else NEW_RULE)\<rparr>"
  shows "context_ok ev img (stateToBase ev ! (s + 1)) c"
    "context_references ev img (stateToBase ev ! (s + 1)) c = state_references ev img j s"
proof -
  let ?b = "stateToBase ev ! s" and ?l = "stateToBase ev ! (s + 1)"
  have t: "?b \<le> ?l" "?l \<le> length (ev_rules ev)" "length (ev_rules ev) < 2 ^ 64" using assms(1,2) by (auto simp: table_ok_def)
  have "?b < 2 ^ 64" using t by linarith
  then have ib: "index_after (index_before ?b) = ?b" by (rule index_simps)
  show "context_references ev img ?l c = state_references ev img j s"
  proof (cases none)
    case True
    then have "index_after (ec_ruleIndex c) = ?l" using assms(4,5) ib by simp
    moreover have "ec_ruleCheckProgress c = RULE_DONE" using True assms(5) by simp
    ultimately show ?thesis
      using True assms(4) by (simp add: context_references_done state_references_from references_from_def)
  next
    case False
    then have "?b < ?l" using assms(4) t(1) by simp
    then show ?thesis using False by (simp add: context_references_new assms(5) state_references_from)
  qed
  show "context_ok ev img ?l c"
    unfolding context_ok_def first_index_def at_rule_def
    using t ib assms(2-5) by (cases none) (auto intro!: exI [of _ s])
qed

lemma extend_to_outcome:
  assumes img: "pi_ok img" and table: "table_ok ev img" and w: "set_ok (wk_visited w)" "set_numAllocations (wk_visited w) = pi_size img"
    "\<forall>c\<in>set (wk_stack w). stacked_ok ev img c"
    and s: "in_state ev s (wk_ruleIndexLimit w) (ec_ruleIndex c)" and c: "at_rule ev img c" and j: "j < pi_size img"
  shows "\<exists>w'. extend_to ev (ev_rules ev ! ec_ruleIndex c) j c w = Some w' \<and> walk_ok ev img w' \<and>
    members (wk_visited w') = insert j (members (wk_visited w)) \<and>
    wk_output w' = wk_output w @ visit_member ev j (newState (ev_rules ev ! ec_ruleIndex c)) \<and>
    pending_references ev img w' =
      state_references ev img j (newState (ev_rules ev ! ec_ruleIndex c)) @ pending_references ev img (set_context c w)"
proof -
  let ?rule = "ev_rules ev ! ec_ruleIndex c" and ?limit = "wk_ruleIndexLimit w"
  note S = in_stateD [OF table s]
  define ns where "ns = newState ?rule"
  define none where "none \<longleftrightarrow> stateToBase ev ! ns = stateToBase ev ! (ns + 1)"
  define stack where "stack = (if ec_ruleCheckProgress c \<noteq> RULE_DONE \<or> index_after (ec_ruleIndex c) \<noteq> ?limit then c # wk_stack w else wk_stack w)"
  define c1 where "c1 = c\<lparr>ec_memberIndex := j, ec_ruleIndex := (if none then index_before (stateToBase ev ! ns) else stateToBase ev ! ns),
            ec_ruleCheckProgress := (if none then RULE_DONE else NEW_RULE)\<rparr>"
  obtain vs where vs: "Set_Add (wk_visited w) j = Some vs" "set_ok vs" "members vs = insert j (members (wk_visited w))"
    "set_numAllocations vs = pi_size img"
    using Set_Add_members [OF w(1) set_ok_bound [OF w(1)], of j] j w(2) by (metis (full_types))
  let ?w = "w\<lparr>wk_context := c1, wk_ruleIndexLimit := stateToBase ev ! (ns + 1), wk_stack := stack, wk_visited := vs,
              wk_output := wk_output w @ visit_member ev j ns\<rparr>"
  note C = extended_context [OF table S(6) [folded ns_def] j none_def c1_def]
  have e: "extend_to ev ?rule j c w = Some ?w"
    using vs(1) S(6) by (simp add: extend_to_def Let_def ns_def [symmetric] none_def stack_def c1_def)
  have st: "stacked_ok ev img c"
    using context_in_state [OF table s c] c S by (simp add: stacked_ok_def)
  have "concat (map (\<lambda>c. context_references ev img (limit_of ev c) c) stack) = pending_references ev img (set_context c w)"
    using S(1) context_references_done [of c ?limit ev img] by (auto simp: stack_def pending_set_context)
  then have "pending_references ev img ?w = state_references ev img j ns @ pending_references ev img (set_context c w)"
    using C(2) by (simp add: pending_references_def)
  moreover have "walk_ok ev img ?w" using vs C(1) st w(3) by (auto simp: walk_ok_def stack_def)
  ultimately show ?thesis using e vs(3) unfolding ns_def by auto
qed

lemma consider_candidate_outcome:
  assumes img: "pi_ok img" and table: "table_ok ev img" and w: "set_ok (wk_visited w)" "set_numAllocations (wk_visited w) = pi_size img"
    "\<forall>c\<in>set (wk_stack w). stacked_ok ev img c"
    and s: "in_state ev s (wk_ruleIndexLimit w) (ec_ruleIndex c)" and c: "at_rule ev img c" and j: "j < pi_size img"
    and pending: "pending_references ev img w0 =
      (ec_memberIndex c, ev_rules ev ! ec_ruleIndex c, j) # pending_references ev img (set_context c w)"
    "wk_visited w0 = wk_visited w" "wk_output w0 = wk_output w"
  shows "\<exists>w'. consider_candidate ev img (ev_rules ev ! ec_ruleIndex c) (pi_allocation img (ec_memberIndex c)) j c w = Some w' \<and>
    walk_ok ev img w' \<and> looks_at ev img w0 w'"
proof -
  let ?i = "ec_memberIndex c" and ?rule = "ev_rules ev ! ec_ruleIndex c"
  note S = in_stateD [OF table s]
  have i: "?i < pi_size img" using c by (simp add: at_rule_def)
  have h: "Set_Has (wk_visited w) j = Some (j \<in> members (wk_visited w))"
    using Set_Has_members set_ok_bound [OF w(1), of j] j w(2) by simp
  note a = candidate_allowed_outcome [OF img S(5) j, of ev ?i]
  have go: "walk_ok ev img (set_context c w1)" if "wk_visited w1 = wk_visited w" "wk_stack w1 = wk_stack w"
    "wk_ruleIndexLimit w1 = wk_ruleIndexLimit w" for w1
    using that w context_in_state [OF table s c] by (simp add: walk_ok_def)
  let ?m = "pi_allocation img ?i" and ?c = "pi_allocation img j"
  note C = AllocationAt_used [OF j] h a
  show ?thesis
  proof (cases "j \<in> members (wk_visited w)")
    case visited: True
    show ?thesis
    proof (cases "may_follow ev img (?i, ?rule, j)")
      case True
      let ?w = "if commentExtensions ev then say (visited_text (stateLabels ev) ?rule ?c) (say (reference_text ?rule ?m ?c) w) else w"
      have "consider_candidate ev img ?rule ?m j c w = Some (set_context c ?w)"
        using C visited True S(7) by (simp add: consider_candidate_def Let_def)
      moreover have "looks_at ev img w0 (set_context c ?w)"
        unfolding looks_at_def pending using True visited j by (auto simp: pending_set_context reference_events_def)
      ultimately show ?thesis using go [of ?w] by auto
    next
      case False
      have "consider_candidate ev img ?rule ?m j c w = Some (set_context c w)"
        using C visited False S(7) by (simp add: consider_candidate_def)
      moreover have "looks_at ev img w0 (set_context c w)"
        unfolding looks_at_def pending using False j by auto
      ultimately show ?thesis using go [of w] by auto
    qed
  next
    case new: False
    show ?thesis
    proof (cases "may_follow ev img (?i, ?rule, j)")
      case True
      define w1 where "w1 = (if commentExtensions ev then say (reference_text ?rule ?m ?c) w else w)"
      define w2 where "w2 = (if commentExtensions ev \<and> newState ?rule \<noteq> 0 then say (extended_text (stateLabels ev) ?rule ?c) w1 else w1)"
      have e: "consider_candidate ev img ?rule ?m j c w = extend_to ev ?rule j c w2"
        using C new True S(7) by (simp add: consider_candidate_def Let_def w1_def w2_def)
      have f: "wk_visited w2 = wk_visited w" "wk_stack w2 = wk_stack w" "wk_ruleIndexLimit w2 = wk_ruleIndexLimit w"
        "pending_references ev img (set_context c w2) = pending_references ev img (set_context c w)"
        by (simp_all add: w1_def w2_def pending_set_context)
      obtain w' where w': "extend_to ev ?rule j c w2 = Some w'" "walk_ok ev img w'"
        "members (wk_visited w') = insert j (members (wk_visited w))"
        "wk_output w' = wk_output w2 @ visit_member ev j (newState ?rule)"
        "pending_references ev img w' =
           state_references ev img j (newState ?rule) @ pending_references ev img (set_context c w)"
        using extend_to_outcome [OF img table, of w2 s c j] w s c j unfolding f by blast
      have "wk_output w' = wk_output w @ reference_events ev img ((?i, ?rule, j), False)"
        using w'(4) by (simp add: w1_def w2_def reference_events_def)
      then have "looks_at ev img w0 w'" unfolding looks_at_def pending using True new j w'(3,5) by auto
      then show ?thesis using e w'(1,2) by auto
    next
      case False
      have "consider_candidate ev img ?rule ?m j c w = Some (set_context c w)"
        using C new False S(7) by (simp add: consider_candidate_def)
      moreover have "looks_at ev img w0 (set_context c w)"
        unfolding looks_at_def pending using False j by auto
      ultimately show ?thesis using go [of w] by auto
    qed
  qed
qed

lemma check_rule_outcome:
  assumes img: "pi_ok img" and table: "table_ok ev img" and w: "set_ok (wk_visited w)" "set_numAllocations (wk_visited w) = pi_size img"
    "\<forall>c\<in>set (wk_stack w). stacked_ok ev img c"
    and s: "in_state ev s (wk_ruleIndexLimit w) (ec_ruleIndex c)" and c: "at_rule ev img c" "ec_ruleCheckProgress c \<noteq> RULE_DONE"
  shows "\<exists>w'. check_rule ev img c w = Some (Goes w') \<and> walk_ok ev img w' \<and>
    (idles ev img (set_context c w) w' \<or> looks_at ev img (set_context c w) w')"
proof -
  let ?i = "ec_memberIndex c" and ?rule = "ev_rules ev ! ec_ruleIndex c"
  note S = in_stateD [OF table s]
  have i: "?i < pi_size img" using c by (simp add: at_rule_def)
  show ?thesis
  proof (rule find_candidate_outcome [OF img S(5) c], goal_cases)
    case (1 c')
    have e: "check_rule ev img c w = Some (Goes (set_context c' w))"
      using 1(1) S(2) by (simp add: check_rule_def AllocationAt_used [OF i])
    have "context_references ev img (wk_ruleIndexLimit w) c' = context_references ev img (wk_ruleIndexLimit w) c"
      using 1 c(2) S(4) by (simp add: context_references_def left_candidates_def)
    moreover have "first_index c' = first_index c + 1" "first_index c < wk_ruleIndexLimit w"
      using 1(3-5) c(2) s S(4) by (simp_all add: first_index_def in_state_def)
    ultimately have "idles ev img (set_context c w) (set_context c' w)"
      by (simp add: idles_def pending_set_context walk_work_def)
    moreover have "at_rule ev img c'" using 1(3-5) c(1) by (simp add: at_rule_def)
    then have "context_ok ev img (wk_ruleIndexLimit w) c'"
      using context_in_state [OF table, of s _ c'] s 1(5) by simp
    then have "walk_ok ev img (set_context c' w)" using w by (simp add: walk_ok_def)
    ultimately show ?case using e by blast
  next
    case (2 c' j)
    have j: "j < pi_size img" by (rule left_candidates_bound [OF img c(1)]) (simp add: 2(2))
    have p: "pending_references ev img (set_context c w) =
        (ec_memberIndex c', ev_rules ev ! ec_ruleIndex c', j) # pending_references ev img (set_context c' w)"
      using context_references_taken [OF 2(2,4,5) c(2) S(4)] 2(4,5) by (simp add: pending_set_context)
    obtain w' where w': "consider_candidate ev img (ev_rules ev ! ec_ruleIndex c') (pi_allocation img (ec_memberIndex c')) j c' w = Some w'"
      "walk_ok ev img w'" "looks_at ev img (set_context c w) w'"
      using consider_candidate_outcome [OF img table w _ 2(3) j p] s 2(5) by fastforce
    have "check_rule ev img c w = Some (Goes w')"
      using 2(1,4,5) S(2) w'(1) by (simp add: check_rule_def AllocationAt_used [OF i])
    then show ?case using w'(2,3) by blast
  qed
qed

lemma Visit_step_outcome:
  assumes img: "pi_ok img" and table: "table_ok ev img" and w: "walk_ok ev img w"
  shows "(Visit_step ev img w = Some (Returns w) \<and> pending_references ev img w = []) \<or>
    (\<exists>w'. Visit_step ev img w = Some (Goes w') \<and> walk_ok ev img w' \<and> (idles ev img w w' \<or> looks_at ev img w w'))"
proof -
  let ?c = "wk_context w" and ?limit = "wk_ruleIndexLimit w"
  have W: "set_ok (wk_visited w)" "set_numAllocations (wk_visited w) = pi_size img"
    "\<forall>c\<in>set (wk_stack w). stacked_ok ev img c" and c: "context_ok ev img ?limit ?c"
    using w by (simp_all add: walk_ok_def)
  have self: "set_context ?c w = w" by (simp add: set_context_def)
  obtain s where s: "s + 1 < length (stateToBase ev)" "?limit = stateToBase ev ! (s + 1)" "stateToBase ev ! s \<le> first_index ?c"
    "first_index ?c \<le> ?limit"
    using c unfolding context_ok_def by blast
  have m: "ec_memberIndex ?c < pi_size img" using c by (simp add: context_ok_def)
  show ?thesis
  proof (cases "ec_ruleCheckProgress ?c = RULE_DONE")
    case False
    then have "at_rule ev img ?c" "in_state ev s ?limit (ec_ruleIndex ?c)"
      using c s by (simp_all add: context_ok_def in_state_def first_index_def)
    then show ?thesis
      using check_rule_outcome [OF img table W, of s ?c] False by (simp add: Visit_step_def Let_def self)
  next
    case fin: True
    show ?thesis
    proof (cases "index_after (ec_ruleIndex ?c) = ?limit")
      case True
      note none = context_references_done [OF fin True]
      show ?thesis
      proof (cases "wk_stack w")
        case Nil
        then show ?thesis
          using none fin True by (simp add: Visit_step_def Let_def pop_context_def pending_references_def)
      next
        case (Cons d ds)
        have d: "stacked_ok ev img d" using W(3) Cons by simp
        let ?w = "w\<lparr>wk_context := d, wk_stack := ds, wk_ruleIndexLimit := limit_of ev d\<rparr>"
        have "Visit_step ev img w = Some (Goes ?w)"
          using d fin True Cons by (simp add: Visit_step_def Let_def pop_context_def stacked_ok_def at_rule_def limit_of_def)
        moreover have "walk_ok ev img ?w" using d W Cons by (simp add: walk_ok_def stacked_ok_def)
        moreover have "idles ev img w ?w"
          using none Cons True fin by (simp add: idles_def pending_references_def walk_work_def first_index_def)
        ultimately show ?thesis by blast
      qed
    next
      case False
      let ?c' = "?c\<lparr>ec_ruleIndex := index_after (ec_ruleIndex ?c), ec_ruleCheckProgress := NEW_RULE\<rparr>"
      have lt: "index_after (ec_ruleIndex ?c) < ?limit" using False s(4) fin by (simp add: first_index_def)
      then have "in_state ev s ?limit (ec_ruleIndex ?c')" using s fin by (simp add: in_state_def first_index_def)
      moreover from in_stateD(2) [OF table this] have "at_rule ev img ?c'" using m by (simp add: at_rule_def)
      ultimately obtain w' where w': "check_rule ev img ?c' w = Some (Goes w')" "walk_ok ev img w'"
        "idles ev img (set_context ?c' w) w' \<or> looks_at ev img (set_context ?c' w) w'"
        using check_rule_outcome [OF img table W, of s ?c'] by auto
      have "context_references ev img ?limit ?c' = context_references ev img ?limit ?c"
        using lt fin by (simp add: context_references_new) (simp add: context_references_def left_candidates_def)
      then have p: "pending_references ev img (set_context ?c' w) = pending_references ev img w"
        by (simp add: pending_set_context) (simp add: pending_references_def)
      have "walk_work ev (set_context ?c' w) = walk_work ev w" using fin by (simp add: walk_work_def first_index_def)
      then have "idles ev img w w' \<or> looks_at ev img w w'"
        using w'(3) unfolding idles_def looks_at_def p set_context_simps by (simp only:)
      then show ?thesis using w'(1,2) fin False by (simp add: Visit_step_def Let_def)
    qed
  qed
qed

section \<open>The whole walk\<close>

definition walk_done :: "ExtendedVisitor \<Rightarrow> ProcessImage \<Rightarrow> Walk \<Rightarrow> (reference \<times> bool) list \<Rightarrow> Walk \<Rightarrow> bool" where
  "walk_done ev img w tr w' \<longleftrightarrow> set_ok (wk_visited w') \<and> set_numAllocations (wk_visited w') = pi_size img \<and>
     members (wk_visited w') = members (wk_visited w) \<union> fst ` set (reached tr) \<and>
     wk_output w' = wk_output w @ concat (map (reference_events ev img) tr)"

lemma Visit_loop_outcome:
  assumes img: "pi_ok img" and table: "table_ok ev img"
  shows "walk_ok ev img w \<Longrightarrow>
    \<exists>w'. Visit_loop ev img w = Some w' \<and>
      walk_done ev img w (search ev img (members (wk_visited w)) (pending_references ev img w)) w'"
proof (induction w rule: wf_induct_rule [OF wf_measures [of "[\<lambda>w. card ({..<pi_size img} - members (wk_visited w)),
    \<lambda>w. length (pending_references ev img w), walk_work ev]"]])
  case (1 w)
  consider (fin) "Visit_step ev img w = Some (Returns w)" "pending_references ev img w = []"
    | (idle) w' where "Visit_step ev img w = Some (Goes w')" "walk_ok ev img w'" "idles ev img w w'"
    | (look) w' where "Visit_step ev img w = Some (Goes w')" "walk_ok ev img w'" "looks_at ev img w w'"
    using Visit_step_outcome [OF img table 1(2)] by blast
  then show ?case
  proof cases
    case fin
    then show ?thesis using 1(2) by (subst Visit_loop.simps) (simp add: walk_done_def walk_ok_def)
  next
    case idle
    then have "(w', w) \<in> measures [\<lambda>w. card ({..<pi_size img} - members (wk_visited w)),
        \<lambda>w. length (pending_references ev img w), walk_work ev]" by (simp add: idles_def)
    from 1(1) [OF this idle(2)] show ?thesis
      using idle(1,3) by (subst Visit_loop.simps) (simp add: walk_done_def idles_def)
  next
    case look
    then obtain i rule j rs where l: "pending_references ev img w = (i, rule, j) # rs" "j < pi_size img"
      "if \<not> may_follow ev img (i, rule, j)
        then pending_references ev img w' = rs \<and> wk_visited w' = wk_visited w \<and> wk_output w' = wk_output w
        else if j \<in> members (wk_visited w)
        then pending_references ev img w' = rs \<and> wk_visited w' = wk_visited w \<and>
          wk_output w' = wk_output w @ reference_events ev img ((i, rule, j), True)
        else pending_references ev img w' = state_references ev img j (newState rule) @ rs \<and>
          members (wk_visited w') = insert j (members (wk_visited w)) \<and>
          wk_output w' = wk_output w @ reference_events ev img ((i, rule, j), False)"
      unfolding looks_at_def by blast
    have "(w', w) \<in> measures [\<lambda>w. card ({..<pi_size img} - members (wk_visited w)),
        \<lambda>w. length (pending_references ev img w), walk_work ev]"
      using l card_less_insert [of j "members (wk_visited w)" "pi_size img"] by (auto split: if_splits)
    from 1(1) [OF this look(2)] obtain w'' where w'': "Visit_loop ev img w' = Some w''"
      "walk_done ev img w' (search ev img (members (wk_visited w')) (pending_references ev img w')) w''" by blast
    have "Visit_loop ev img w = Some w''" using look(1) w''(1) by (subst Visit_loop.simps) simp
    moreover have "walk_done ev img w (search ev img (members (wk_visited w)) (pending_references ev img w)) w''"
      using w''(2) l by (auto simp: walk_done_def split: if_splits)
    ultimately show ?thesis by blast
  qed
qed

end
