(* ===== verification/Extended_Members.thy ===== *)
theory Extended_Members
  imports Extended_Refines
begin

text \<open>
  What visiting the members of a set by the extended visitor amounts to: one member after the other, each with
  what the extension rules lead to from there, every allocation once; with rules of the first state only, the
  closure of the set under the rules, in whatever order its members come.
\<close>

section \<open>One member\<close>

definition member_trace :: "ExtendedVisitor \<Rightarrow> ProcessImage \<Rightarrow> nat set \<Rightarrow> nat \<Rightarrow> (reference \<times> bool) list" where
  "member_trace ev img V i = (if ev_rules ev = [] then [] else search ev img (insert i V) (state_references ev img i 0))"

text \<open>The allocations that become visited with a member, and what is seen of it.\<close>

definition member_visits :: "ExtendedVisitor \<Rightarrow> ProcessImage \<Rightarrow> nat set \<Rightarrow> nat \<Rightarrow> (nat \<times> nat) list" where
  "member_visits ev img V i =
     (if \<not> isEnabled ev then [(i, 0)] else if i \<in> V then [] else (i, 0) # reached (member_trace ev img V i))"

definition member_events :: "ExtendedVisitor \<Rightarrow> ProcessImage \<Rightarrow> nat set \<Rightarrow> nat \<Rightarrow> event list" where
  "member_events ev img V i =
     (if \<not> isEnabled ev then [Visits i]
      else if i \<in> V then
        (if commentExtensions ev
         then [Says (''# Base set member at 0x'' @ show_hex (al_Address (pi_allocation img i)) @
                 '' was already visited via an extension rule.'' @ newline @ newline)]
         else [])
      else visit_member ev i 0 @ concat (map (reference_events ev img) (member_trace ev img V i)))"

definition visitor_ok :: "ExtendedVisitor \<Rightarrow> ProcessImage \<Rightarrow> bool" where
  "visitor_ok ev img \<longleftrightarrow> (isEnabled ev \<and> ev_rules ev \<noteq> [] \<longrightarrow> table_ok ev img)"

lemma Visit_outcome:
  assumes img: "pi_ok img" and ev: "visitor_ok ev img" and vs: "set_ok vs" "set_numAllocations vs = pi_size img"
    and i: "i < pi_size img"
  shows "\<exists>vs'. Visit ev img i (pi_allocation img i) (vs, out) = Some (vs', out @ member_events ev img (members vs) i) \<and>
    set_ok vs' \<and> set_numAllocations vs' = pi_size img \<and>
    members vs' = members vs \<union> fst ` set (member_visits ev img (members vs) i)"
proof -
  have b: "i < 64 * length (asU64 vs)" using set_ok_bound [OF vs(1), of i] vs(2) i by simp
  obtain v where v: "Set_Add vs i = Some v" "set_ok v" "members v = insert i (members vs)" "set_numAllocations v = pi_size img"
    using Set_Add_members [OF vs(1) b] vs(2) by metis
  note h = Set_Has_members [OF b]
  show ?thesis
  proof (cases "isEnabled ev \<and> i \<notin> members vs \<and> ev_rules ev \<noteq> []")
    case False
    then show ?thesis
      using v h vs by (auto simp: Visit_def member_events_def member_visits_def member_trace_def)
  next
    case True
    then have table: "table_ok ev img" using ev by (simp add: visitor_ok_def)
    let ?c = "\<lparr>ec_memberIndex = i, ec_ruleIndex = stateToBase ev ! 0, ec_numCandidatesLeft = 0,
               ec_ruleCheckProgress = NEW_RULE, ec_pNextCandidate = Outgoing_at 0\<rparr>"
    let ?w = "\<lparr>wk_context = ?c, wk_ruleIndexLimit = stateToBase ev ! 1, wk_stack = [], wk_visited = v,
               wk_output = out @ visit_member ev i 0\<rparr>"
    have t: "1 < length (stateToBase ev)" "stateToBase ev ! 0 < stateToBase ev ! 1" using table by (simp_all add: table_ok_def)
    then have s: "in_state ev 0 (stateToBase ev ! 1) (ec_ruleIndex ?c)" by (simp add: in_state_def)
    have "at_rule ev img ?c" using in_stateD(2) [OF table s] i by (simp add: at_rule_def)
    then have ok: "walk_ok ev img ?w" using v(2,4) context_in_state [OF table s] by (simp add: walk_ok_def)
    have "pending_references ev img ?w = state_references ev img i 0"
      using t by (simp add: pending_references_def context_references_new state_references_from)
    then obtain w' where w': "Visit_loop ev img ?w = Some w'"
      "walk_done ev img ?w (search ev img (insert i (members vs)) (state_references ev img i 0)) w'"
      using Visit_loop_outcome [OF img table ok] v(3) by auto
    then have "Visit ev img i (pi_allocation img i) (vs, out) = Some (wk_visited w', wk_output w')"
      using True v(1) h t(1) by (simp add: Visit_def)
    then show ?thesis
      using w'(2) True v(3) by (auto simp: walk_done_def member_events_def member_visits_def member_trace_def)
  qed
qed

section \<open>Where the rules lead\<close>

text \<open>The allocations, with states, that the rules lead to from a member, by way of any allocations.\<close>

inductive extension :: "ExtendedVisitor \<Rightarrow> ProcessImage \<Rightarrow> nat \<Rightarrow> nat \<Rightarrow> nat \<Rightarrow> bool" for ev img i where
  member: "extension ev img i i 0"
| reference: "extension ev img i j s \<Longrightarrow> (j, rule, k) \<in> set (state_references ev img j s) \<Longrightarrow>
    may_follow ev img (j, rule, k) \<Longrightarrow> k < pi_size img \<Longrightarrow> extension ev img i k (newState rule)"

lemma state_references_source: "(j, rule, k) \<in> set (state_references ev img i s) \<Longrightarrow> j = i"
  by (auto simp: state_references_def rule_references_def)

lemma search_extension:
  "(\<forall>(j, rule, k)\<in>set rs. \<exists>s. extension ev img i j s \<and> (j, rule, k) \<in> set (state_references ev img j s)) \<Longrightarrow>
   (k, s) \<in> set (reached (search ev img V rs)) \<Longrightarrow> extension ev img i k s"
proof (induction ev img V rs rule: search.induct)
  case (2 ev img V j rule k' rs)
  show ?case
  proof (cases "pi_size img \<le> k' \<or> \<not> may_follow ev img (j, rule, k')")
    case True
    then show ?thesis using 2 by auto
  next
    case ok: False
    show ?thesis
    proof (cases "k' \<in> V")
      case True
      then show ?thesis using 2 ok by auto
    next
      case False
      obtain s' where s': "extension ev img i j s'" "(j, rule, k') \<in> set (state_references ev img j s')" using 2(4) by auto
      have f: "may_follow ev img (j, rule, k')" "k' < pi_size img" using ok by auto
      have e: "extension ev img i k' (newState rule)" by (rule extension.reference [OF s' f])
      have "\<forall>(j, rule, k)\<in>set (state_references ev img k' (newState rule) @ rs).
          \<exists>s. extension ev img i j s \<and> (j, rule, k) \<in> set (state_references ev img j s)"
      proof (intro ballI, clarify)
        fix j1 rule1 k1
        assume "(j1, rule1, k1) \<in> set (state_references ev img k' (newState rule) @ rs)"
        then consider "(j1, rule1, k1) \<in> set (state_references ev img k' (newState rule))" | "(j1, rule1, k1) \<in> set rs" by auto
        then show "\<exists>s. extension ev img i j1 s \<and> (j1, rule1, k1) \<in> set (state_references ev img j1 s)"
        proof cases
          case 1
          then show ?thesis using e state_references_source [OF 1] by auto
        next
          case 2
          then show ?thesis using "2.prems"(1) by auto
        qed
      qed
      from "2.IH"(3) [OF ok False this] show ?thesis using "2.prems"(2) ok False e by auto
    qed
  qed
qed simp

text \<open>What becomes visited with a member that has not been visited.\<close>

lemma member_visits_outcome:
  assumes "isEnabled ev" "i \<notin> V" "i < pi_size img" "visitor_ok ev img"
  shows "distinct (map fst (member_visits ev img V i))" "fst ` set (member_visits ev img V i) \<inter> V = {}"
    "fst ` set (member_visits ev img V i) \<subseteq> {..<pi_size img}"
    "(j, s) \<in> set (member_visits ev img V i) \<Longrightarrow> extension ev img i j s"
    "(j, s) \<in> set (member_visits ev img V i) \<Longrightarrow> (j, rule, k) \<in> set (state_references ev img j s) \<Longrightarrow> ev_rules ev \<noteq> [] \<Longrightarrow>
       may_follow ev img (j, rule, k) \<Longrightarrow> k < pi_size img \<Longrightarrow> k \<in> V \<union> fst ` set (member_visits ev img V i)"
proof -
  note d = assms(1,2)
  have fresh: "distinct (map fst (reached (member_trace ev img V i)))" "fst ` set (reached (member_trace ev img V i)) \<inter> insert i V = {}"
    "fst ` set (reached (member_trace ev img V i)) \<subseteq> {..<pi_size img}"
    using search_fresh [of ev img "insert i V" "state_references ev img i 0"] by (auto simp: member_trace_def)
  show "distinct (map fst (member_visits ev img V i))" "fst ` set (member_visits ev img V i) \<inter> V = {}"
    "fst ` set (member_visits ev img V i) \<subseteq> {..<pi_size img}"
    using fresh assms(2,3) d by (auto simp: member_visits_def)
  show "extension ev img i j s" if "(j, s) \<in> set (member_visits ev img V i)"
  proof -
    have "(j, s) = (i, 0) \<or> (j, s) \<in> set (reached (member_trace ev img V i))"
      using that d by (simp add: member_visits_def)
    then show ?thesis
    proof
      assume m: "(j, s) \<in> set (reached (member_trace ev img V i))"
      have "\<forall>(j, rule, k)\<in>set (state_references ev img i 0).
          \<exists>s. extension ev img i j s \<and> (j, rule, k) \<in> set (state_references ev img j s)"
        using state_references_source extension.member by blast
      then show ?thesis using m search_extension by (fastforce simp: member_trace_def split: if_splits)
    qed (simp add: extension.member)
  qed
  show "k \<in> V \<union> fst ` set (member_visits ev img V i)"
    if "(j, s) \<in> set (member_visits ev img V i)" "(j, rule, k) \<in> set (state_references ev img j s)" "ev_rules ev \<noteq> []"
      "may_follow ev img (j, rule, k)" "k < pi_size img"
  proof -
    let ?tr = "search ev img (insert i V) (state_references ev img i 0)"
    have "(j, rule, k) \<in> set (state_references ev img i 0) \<or>
        (\<exists>(i', s)\<in>set (reached ?tr). (j, rule, k) \<in> set (state_references ev img i' s))"
      using that(1-3) d by (auto simp: member_visits_def member_trace_def)
    from search_complete [OF this that(5,4)] show ?thesis using d that(3) by (auto simp: member_visits_def member_trace_def)
  qed
qed

section \<open>All members\<close>

text \<open>The members of a set are visited one after the other.\<close>

fun visit_all :: "ExtendedVisitor \<Rightarrow> ProcessImage \<Rightarrow> nat list \<Rightarrow> AllocSet \<times> event list \<Rightarrow> (AllocSet \<times> event list) option" where
  "visit_all ev img [] r = Some r"
| "visit_all ev img (i # is) r =
     (case AllocationAt (p_directory (pi_process img)) i of
        None \<Rightarrow> None
      | Some allocation \<Rightarrow> Option.bind (Visit ev img i allocation r) (visit_all ev img is))"

fun all_visits :: "ExtendedVisitor \<Rightarrow> ProcessImage \<Rightarrow> nat set \<Rightarrow> nat list \<Rightarrow> (nat \<times> nat) list" where
  "all_visits ev img V [] = []"
| "all_visits ev img V (i # is) =
     member_visits ev img V i @ all_visits ev img (V \<union> fst ` set (member_visits ev img V i)) is"

fun all_events :: "ExtendedVisitor \<Rightarrow> ProcessImage \<Rightarrow> nat set \<Rightarrow> nat list \<Rightarrow> event list" where
  "all_events ev img V [] = []"
| "all_events ev img V (i # is) =
     member_events ev img V i @ all_events ev img (V \<union> fst ` set (member_visits ev img V i)) is"

lemma visit_all_outcome:
  assumes "pi_ok img" "visitor_ok ev img"
  shows "set_ok vs \<Longrightarrow> set_numAllocations vs = pi_size img \<Longrightarrow> \<forall>i\<in>set is. i < pi_size img \<Longrightarrow>
    \<exists>vs'. visit_all ev img is (vs, out) = Some (vs', out @ all_events ev img (members vs) is) \<and>
      set_ok vs' \<and> set_numAllocations vs' = pi_size img \<and>
      members vs' = members vs \<union> fst ` set (all_visits ev img (members vs) is)"
proof (induction "is" arbitrary: vs out)
  case (Cons i "is")
  obtain vs1 where vs1: "Visit ev img i (pi_allocation img i) (vs, out) = Some (vs1, out @ member_events ev img (members vs) i)"
    "set_ok vs1" "set_numAllocations vs1 = pi_size img"
    "members vs1 = members vs \<union> fst ` set (member_visits ev img (members vs) i)"
    using Visit_outcome [OF assms Cons.prems(1,2), of i out] Cons.prems(3) by auto
  have "\<forall>i\<in>set is. i < pi_size img" using Cons.prems(3) by simp
  from Cons.IH [OF vs1(2,3) this, of "out @ member_events ev img (members vs) i"] show ?case
    using vs1 Cons.prems(3) by (auto simp: AllocationAt_used)
qed simp

section \<open>What the visitor sees\<close>

definition visits_of :: "event list \<Rightarrow> nat list" where
  "visits_of es = List.map_filter (\<lambda>e. case e of Visits i \<Rightarrow> Some i | _ \<Rightarrow> None) es"

lemma visits_of_simps [simp]:
  "visits_of [] = []" "visits_of (Visits i # es) = i # visits_of es" "visits_of (Annotates i s # es) = visits_of es"
  "visits_of (Says t # es) = visits_of es" "visits_of (es @ es') = visits_of es @ visits_of es'"
  by (simp_all add: visits_of_def List.map_filter_simps List.map_filter_def)

lemma visits_of_trace: "visits_of (concat (map (reference_events ev img) tr)) = map fst (reached tr)"
proof (induction tr)
  case (Cons r tr)
  then show ?case
    by (cases r; cases "snd r") (auto simp: reference_events_def visit_member_def)
qed simp

lemma visits_of_member: "visits_of (member_events ev img V i) = map fst (member_visits ev img V i)"
  by (auto simp: member_events_def member_visits_def visit_member_def visits_of_trace)

lemma visits_of_all: "visits_of (all_events ev img V is) = map fst (all_visits ev img V is)"
  by (induction "is" arbitrary: V) (simp_all add: visits_of_member)

lemma all_visits_fresh:
  assumes "isEnabled ev" "visitor_ok ev img"
  shows "\<forall>i\<in>set is. i < pi_size img \<Longrightarrow>
    distinct (map fst (all_visits ev img V is)) \<and> fst ` set (all_visits ev img V is) \<inter> V = {}"
proof (induction "is" arbitrary: V)
  case (Cons i "is")
  let ?V = "V \<union> fst ` set (member_visits ev img V i)"
  have r: "distinct (map fst (all_visits ev img ?V is))" "fst ` set (all_visits ev img ?V is) \<inter> ?V = {}"
    using Cons by auto
  show ?case
  proof (cases "i \<in> V")
    case True
    then show ?thesis using r assms(1) by (simp add: member_visits_def)
  next
    case False
    then show ?thesis
      using r member_visits_outcome(1,2) [OF assms(1) False _ assms(2)] Cons.prems by auto
  qed
qed simp

section \<open>Rules of the first state\<close>

definition one_state :: "ExtendedVisitor \<Rightarrow> bool" where
  "one_state ev \<longleftrightarrow> (\<forall>rule\<in>set (ev_rules ev). newState rule = 0)"

lemma reference_rule:
  assumes "table_ok ev img" "(j, rule, k) \<in> set (state_references ev img i s)" "s + 1 < length (stateToBase ev)"
  shows "rule \<in> set (ev_rules ev)"
proof -
  have "stateToBase ev ! (s + 1) \<le> length (ev_rules ev)" using assms(1,3) by (simp add: table_ok_def)
  then show ?thesis using assms(2) by (auto simp: state_references_def rule_references_def state_rules_def)
qed

lemma extension_state:
  assumes "table_ok ev img" "one_state ev"
  shows "extension ev img i j s \<Longrightarrow> s = 0"
proof (induction rule: extension.induct)
  case (reference j s rule k)
  then have "rule \<in> set (ev_rules ev)" using reference_rule [OF assms(1), of j rule k j 0] assms(1) by (simp add: table_ok_def)
  then show ?case using assms(2) by (simp add: one_state_def)
qed simp

definition closed_under_rules :: "ExtendedVisitor \<Rightarrow> ProcessImage \<Rightarrow> nat set \<Rightarrow> bool" where
  "closed_under_rules ev img V \<longleftrightarrow>
     (\<forall>j\<in>V. \<forall>rule k. (j, rule, k) \<in> set (state_references ev img j 0) \<longrightarrow> may_follow ev img (j, rule, k) \<longrightarrow>
        k < pi_size img \<longrightarrow> k \<in> V)"

lemma closed_extension:
  assumes "table_ok ev img" "one_state ev" "closed_under_rules ev img V" "i \<in> V"
  shows "extension ev img i j s \<Longrightarrow> j \<in> V"
proof (induction rule: extension.induct)
  case (reference j s rule k)
  have "s = 0" using extension_state [OF assms(1,2)] reference.hyps(1) .
  then show ?case using reference assms(3) unfolding closed_under_rules_def by blast
qed (rule assms(4))

lemma member_visits_closed:
  assumes ev: "isEnabled ev" "visitor_ok ev img" "ev_rules ev \<noteq> []" "one_state ev"
    and V: "closed_under_rules ev img V" and i: "i < pi_size img"
  shows "closed_under_rules ev img (V \<union> fst ` set (member_visits ev img V i))"
    "V \<union> fst ` set (member_visits ev img V i) = V \<union> {j. \<exists>s. extension ev img i j s}"
proof -
  have table: "table_ok ev img" using ev by (simp add: visitor_ok_def)
  let ?V = "V \<union> fst ` set (member_visits ev img V i)"
  have "closed_under_rules ev img ?V \<and> i \<in> ?V \<and> fst ` set (member_visits ev img V i) \<subseteq> {j. \<exists>s. extension ev img i j s}"
  proof (cases "i \<in> V")
    case True
    then show ?thesis using V ev(1) by (simp add: member_visits_def)
  next
    case False
    note o = member_visits_outcome [OF ev(1) False i ev(2)]
    have "k \<in> ?V" if h: "j \<in> ?V" "(j, rule, k) \<in> set (state_references ev img j 0)" "may_follow ev img (j, rule, k)" "k < pi_size img"
      for j rule k
    proof (cases "j \<in> V")
      case True
      then show ?thesis using V h unfolding closed_under_rules_def by blast
    next
      case False
      then obtain s where s: "(j, s) \<in> set (member_visits ev img V i)" using h(1) by auto
      have "s = 0" using extension_state [OF table ev(4)] o(4) [OF s] .
      then show ?thesis using o(5) [OF s] h ev(3) by auto
    qed
    moreover have "(i, 0) \<in> set (member_visits ev img V i)" using False ev(1) by (simp add: member_visits_def)
    then have "i \<in> fst ` set (member_visits ev img V i)" by force
    moreover have "fst ` set (member_visits ev img V i) \<subseteq> {j. \<exists>s. extension ev img i j s}" using o(4) by fastforce
    ultimately show ?thesis unfolding closed_under_rules_def by blast
  qed
  then show "closed_under_rules ev img ?V" "?V = V \<union> {j. \<exists>s. extension ev img i j s}"
    using closed_extension [OF table ev(4)] by blast+
qed

lemma all_visits_closed:
  assumes ev: "isEnabled ev" "visitor_ok ev img" "ev_rules ev \<noteq> []" "one_state ev"
  shows "closed_under_rules ev img V \<Longrightarrow> \<forall>i\<in>set is. i < pi_size img \<Longrightarrow>
    V \<union> fst ` set (all_visits ev img V is) = V \<union> {j. \<exists>i\<in>set is. \<exists>s. extension ev img i j s}"
proof (induction "is" arbitrary: V)
  case (Cons i "is")
  let ?V = "V \<union> fst ` set (member_visits ev img V i)"
  have i: "i < pi_size img" using Cons.prems(2) by simp
  note c = member_visits_closed [OF ev Cons.prems(1) i]
  have "V \<union> fst ` set (all_visits ev img V (i # is)) = ?V \<union> fst ` set (all_visits ev img ?V is)" by auto
  also have "\<dots> = ?V \<union> {j. \<exists>i\<in>set is. \<exists>s. extension ev img i j s}"
    using Cons.IH [OF c(1)] Cons.prems(2) by simp
  also have "\<dots> = V \<union> {j. \<exists>i\<in>set (i # is). \<exists>s. extension ev img i j s}" unfolding c(2) by auto
  finally show ?case .
qed simp

section \<open>Properties\<close>

text \<open>
  C31: \<open>Visit\<close> ends, leaves no array and does what the search does that has no stack of its own: the calls of the
  visitor and of \<open>Annotate\<close> and the comments are those of the search, in its order, and the set of visited
  allocations grows by what the search reaches.  A member that was visited already is passed over; without rules,
  or with the extension disabled, only the member is visited.
\<close>

theorem Visit_refines:
  assumes "pi_ok img" "visitor_ok ev img" "set_ok vs" "set_numAllocations vs = pi_size img" "i < pi_size img"
  shows "\<exists>vs'. Visit ev img i (pi_allocation img i) (vs, out) = Some (vs', out @ member_events ev img (members vs) i) \<and>
    set_ok vs' \<and> set_numAllocations vs' = pi_size img \<and>
    members vs' = members vs \<union> fst ` set (member_visits ev img (members vs) i)"
  using assms by (rule Visit_outcome)

text \<open>
  C32: From a member that has not been visited, the walk visits allocations that had not been visited, the member
  included, each exactly once; each of them can be reached by following references that the rules allow, in the
  state in which it is extended; and no allowed reference from one of them, by a rule of the state it was reached
  in, leads to an allocation that is then still not visited.
\<close>

theorem Visit_reaches:
  assumes "pi_ok img" "visitor_ok ev img" "set_ok vs" "set_numAllocations vs = pi_size img" "i < pi_size img"
    "isEnabled ev" "ev_rules ev \<noteq> []" "i \<notin> members vs"
  shows "\<exists>vs' events visits. Visit ev img i (pi_allocation img i) (vs, out) = Some (vs', out @ events) \<and>
    visits_of events = map fst visits \<and> distinct (map fst visits) \<and> (i, 0) \<in> set visits \<and>
    fst ` set visits = members vs' - members vs \<and> members vs \<subseteq> members vs' \<and> (\<forall>(j, s)\<in>set visits. extension ev img i j s) \<and>
    (\<forall>(j, s)\<in>set visits. \<forall>rule k. (j, rule, k) \<in> set (state_references ev img j s) \<longrightarrow> may_follow ev img (j, rule, k) \<longrightarrow>
       k < pi_size img \<longrightarrow> k \<in> members vs')"
proof -
  obtain vs' where vs': "Visit ev img i (pi_allocation img i) (vs, out) = Some (vs', out @ member_events ev img (members vs) i)"
    "members vs' = members vs \<union> fst ` set (member_visits ev img (members vs) i)"
    using Visit_outcome [OF assms(1-5), of out] by blast
  note o = member_visits_outcome [OF assms(6,8,5,2)]
  have "(i, 0) \<in> set (member_visits ev img (members vs) i)" using assms(6,8) by (simp add: member_visits_def)
  moreover have "fst ` set (member_visits ev img (members vs) i) = members vs' - members vs"
    using vs'(2) o(2) by blast
  moreover have "\<forall>(j, s)\<in>set (member_visits ev img (members vs) i). \<forall>rule k. (j, rule, k) \<in> set (state_references ev img j s) \<longrightarrow>
      may_follow ev img (j, rule, k) \<longrightarrow> k < pi_size img \<longrightarrow> k \<in> members vs'"
    using o(5) [OF _ _ assms(7)] vs'(2) by blast
  ultimately show ?thesis using vs' visits_of_member o(1,4) by blast
qed

text \<open>
  C33: With rules of the first state only, visiting the members of a set one after the other, in any order and with
  repetitions, visits exactly the allocations that can be reached from a member by references the rules allow,
  each exactly once.
\<close>

theorem visit_all_closure:
  assumes "pi_ok img" "visitor_ok ev img" "isEnabled ev" "ev_rules ev \<noteq> []" "one_state ev"
    "set_ok vs" "set_numAllocations vs = pi_size img" "members vs = {}" "\<forall>i\<in>set is. i < pi_size img"
  shows "\<exists>vs' events. visit_all ev img is (vs, []) = Some (vs', events) \<and> distinct (visits_of events) \<and>
    set (visits_of events) = members vs' \<and> members vs' = {j. \<exists>i\<in>set is. \<exists>s. extension ev img i j s}"
proof -
  obtain vs' where vs': "visit_all ev img is (vs, []) = Some (vs', all_events ev img {} is)"
    "members vs' = fst ` set (all_visits ev img {} is)"
    using visit_all_outcome [OF assms(1,2,6,7,9), of "[]"] assms(8) by auto
  have "closed_under_rules ev img {}" by (simp add: closed_under_rules_def)
  from all_visits_closed [OF assms(3,2,4,5) this assms(9)]
  have "members vs' = {j. \<exists>i\<in>set is. \<exists>s. extension ev img i j s}" using vs'(2) by simp
  moreover have "distinct (visits_of (all_events ev img {} is))" "set (visits_of (all_events ev img {} is)) = members vs'"
    using all_visits_fresh [OF assms(3,2,9), of "{}"] vs'(2) by (simp_all add: visits_of_all)
  ultimately show ?thesis using vs'(1) by blast
qed

section \<open>An example\<close>

text \<open>The rule that follows all references, on the ring of \<open>Signature_Checker\<close>.\<close>

definition ring_rule :: Rule where
  "ring_rule = \<lparr>offsetInMember = 0, offsetInExtension = 0, useOffsetInMember = False, useOffsetInExtension = False,
     referenceIsOutgoing = True, extensionMustBeLeaked = False,
     memberSignatureChecker = the (SignatureChecker_new ring_image []),
     extensionSignatureChecker = the (SignatureChecker_new ring_image []), baseState = 0, newState = 0\<rparr>"

definition ring_visitor :: ExtendedVisitor where
  "ring_visitor = \<lparr>isEnabled = True, hasErrors = False, hasAnnotations = False, allowMissingSignatures = False,
     ev_rules = [ring_rule], stateToBase = [0, 1], commentExtensions = False, ev_skipTaintedReferences = False,
     ev_skipUnfavoredReferences = False, stateLabels = [''''], labelToStateNumber = [('''', 0)]\<rparr>"

lemma ring_visitor_ok:
  "table_ok ring_visitor ring_image" "visitor_ok ring_visitor ring_image" "isEnabled ring_visitor" "ev_rules ring_visitor \<noteq> []"
  "one_state ring_visitor"
proof -
  have "checker_made ring_image (the (SignatureChecker_new ring_image []))"
    unfolding checker_made_def by (rule exI [of _ "[]"]) (simp add: SignatureChecker_new_def Let_def)
  then show "table_ok ring_visitor ring_image"
    by (simp add: ring_visitor_def table_ok_def rule_made_def ring_rule_def less_Suc_eq)
  then show "visitor_ok ring_visitor ring_image" by (simp add: visitor_ok_def)
qed (simp_all add: ring_visitor_def one_state_def ring_rule_def)

lemma ring_accepted: "accepted ring_image (the (SignatureChecker_new ring_image [])) i"
  by (simp add: accepted_def SignatureChecker_new_def Check_def Let_def)

lemma ring_references:
  assumes "i < 4"
  shows "state_references ring_visitor ring_image i 0 = map (\<lambda>j. (i, ring_rule, j)) ([[1], [2], [0], []] ! i)"
proof -
  have i: "i = 0 \<or> i = 1 \<or> i = 2 \<or> i = 3" using assms by linarith
  have "applies_to ring_image ring_rule i" by (simp add: applies_to_def ring_rule_def ring_accepted)
  moreover have "edges_in (outgoing (p_graph ring_process)) (GetOutgoing (p_graph ring_process) i) = [[1], [2], [0], []] ! i"
    using i by (auto simp: edges_in_def GetOutgoing_def edge_range_def ring_process_def starts_def)
  ultimately have "rule_candidates ring_image ring_rule i = [[1], [2], [0], []] ! i"
    by (simp add: rule_candidates_def) (simp add: ring_rule_def)
  then show ?thesis by (simp add: state_references_def state_rules_def ring_visitor_def rule_references_def)
qed

lemma ring_follow: "j < 4 \<Longrightarrow> may_follow ring_visitor ring_image (i, ring_rule, j)"
  by (simp add: may_follow_def offsets_agree_def edge_counts_def ring_visitor_def ring_accepted)
    (simp add: ring_rule_def ring_accepted)

lemma ring_state: "newState ring_rule = 0"
  by (simp add: ring_rule_def)

lemma ring_trace: "map fst (member_visits ring_visitor ring_image {} 0) = [0, 1, 2]"
proof -
  have "search ring_visitor ring_image {0} (state_references ring_visitor ring_image 0 0) =
      [((0, ring_rule, 1), False), ((1, ring_rule, 2), False), ((2, ring_rule, 0), True)]"
    using ring_references [of 0] ring_references [of 1] ring_references [of 2]
    by (simp add: ring_follow ring_state)
  then show ?thesis using ring_visitor_ok(3,4) by (simp add: member_visits_def member_trace_def)
qed

lemma Set_new_4: "set_ok (Set_new 4)" "set_numAllocations (Set_new 4) = pi_size ring_image" "members (Set_new 4) = {}"
  by (simp_all add: set_ok_new members_new) (simp add: Set_new_def Let_def)

theorem Visit_refines_witness:
  "\<exists>vs' events. Visit ring_visitor ring_image 0 (pi_allocation ring_image 0) (Set_new 4, []) = Some (vs', events) \<and>
     visits_of events = [0, 1, 2] \<and> members vs' = {0, 1, 2}"
proof -
  have "fst ` set (member_visits ring_visitor ring_image {} 0) = {0, 1, 2}"
    using ring_trace by (metis list.set(1,2) list.set_map)
  then show ?thesis
    using Visit_refines [OF ring_image_ok ring_visitor_ok(2) Set_new_4(1,2), of 0 "[]"] ring_trace
    by (auto simp: Set_new_4(3) visits_of_member)
qed

theorem Visit_reaches_witness:
  "\<exists>vs' events. Visit ring_visitor ring_image 2 (pi_allocation ring_image 2) (Set_new 4, []) = Some (vs', events) \<and>
     2 \<in> members vs' \<and> 0 \<in> members vs' \<and> distinct (visits_of events)"
proof -
  obtain vs' events visits where v: "Visit ring_visitor ring_image 2 (pi_allocation ring_image 2) (Set_new 4, []) = Some (vs', [] @ events)"
    "visits_of events = map fst visits" "distinct (map fst visits)" "(2, 0) \<in> set visits"
    "fst ` set visits = members vs' - members (Set_new 4)"
    "\<forall>(j, s)\<in>set visits. \<forall>rule k. (j, rule, k) \<in> set (state_references ring_visitor ring_image j s) \<longrightarrow>
       may_follow ring_visitor ring_image (j, rule, k) \<longrightarrow> k < pi_size ring_image \<longrightarrow> k \<in> members vs'"
    using Visit_reaches [OF ring_image_ok ring_visitor_ok(2) Set_new_4(1,2), of 2 "[]"] ring_visitor_ok(3,4) Set_new_4(3)
    by auto
  have "(2, ring_rule, 0) \<in> set (state_references ring_visitor ring_image 2 0)" by (simp add: ring_references)
  then have "0 \<in> members vs'" using v(4,6) ring_follow [of 0 2] by fastforce
  moreover have "2 \<in> members vs'" using v(4,5) by force
  ultimately show ?thesis using v(1-3) by auto
qed

lemma extension_bound: "extension ev img i j s \<Longrightarrow> i < pi_size img \<Longrightarrow> j < pi_size img"
  by (induction rule: extension.induct) auto

lemma ring_extension:
  assumes "extension ring_visitor ring_image i j 0" "j < 4" "k \<in> set ([[1], [2], [0], []] ! j)"
  shows "extension ring_visitor ring_image i k 0"
proof -
  have "j = 0 \<or> j = 1 \<or> j = 2 \<or> j = 3" using assms(2) by linarith
  then have "k < 4" using assms(3) by auto
  moreover have "(j, ring_rule, k) \<in> set (state_references ring_visitor ring_image j 0)"
    using assms(2,3) by (auto simp: ring_references)
  ultimately show ?thesis
    using extension.reference [OF assms(1), of ring_rule k] ring_follow [of k j] by (simp add: ring_state)
qed

theorem visit_all_closure_witness:
  "\<exists>vs' events. visit_all ring_visitor ring_image [1, 3, 2] (Set_new 4, []) = Some (vs', events) \<and> members vs' = {0, 1, 2, 3}"
proof -
  obtain vs' events where v: "visit_all ring_visitor ring_image [1, 3, 2] (Set_new 4, []) = Some (vs', events)"
    "members vs' = {j. \<exists>i\<in>set [1, 3, 2]. \<exists>s. extension ring_visitor ring_image i j s}"
    using visit_all_closure [OF ring_image_ok ring_visitor_ok(2-5) Set_new_4, of "[1, 3, 2]"] by auto
  note m = extension.member [of ring_visitor ring_image]
  have "extension ring_visitor ring_image 2 0 0" using ring_extension [OF m, of 2 0] by simp
  then have "{0, 1, 2, 3} \<subseteq> members vs'" using m [of 1] m [of 2] m [of 3] v(2) by auto
  moreover have "j < 4" if "j \<in> members vs'" for j
  proof -
    obtain i s where "i \<in> set [1, 3, 2]" "extension ring_visitor ring_image i j s" using \<open>j \<in> members vs'\<close> v(2) by blast
    then show ?thesis using extension_bound [of ring_visitor ring_image i j s] by auto
  qed
  then have "members vs' \<subseteq> {0, 1, 2, 3}" by fastforce
  ultimately show ?thesis using v(1) by blast
qed

end
