(* ===== verification/Command_Line.thy ===== *)
theory Command_Line
  imports Hex_Numbers Std_Map "HOL-Library.Char_ord" "HOL-Library.List_Lexorder"
begin

text \<open>
  The input side of Commands/Runner.h: how \<open>Input::GetTokens\<close> reads the tokens of a command, over several lines
  where a line ends with a backslash, how a \<open>Context\<close> sorts them into positional arguments and switches, and how
  commands ask it for the values of switches.  A position in a line is the rest of the line from there, and
  \<open>npos\<close> is the empty rest.  An access outside a string and a loop that does not end are \<open>None\<close>.
\<close>

section \<open>Tokens of a line\<close>

definition is_blank :: "char \<Rightarrow> bool" where
  "is_blank c \<longleftrightarrow> c = CHR '' '' \<or> c = CHR 0x09"

text \<open>The two bytes of a non-breaking blank.\<close>

abbreviation byte_C2 :: char where "byte_C2 \<equiv> CHR 0xC2"
abbreviation byte_A0 :: char where "byte_A0 \<equiv> CHR 0xA0"

text \<open>\<open>find_first_not_of(" \t", pos)\<close> with the loop after it.\<close>

function skip_blanks :: "string \<Rightarrow> string" where
  "skip_blanks s =
     (let t = dropWhile is_blank s in
      if 1 < length t \<and> t ! 0 = byte_C2 \<and> t ! 1 = byte_A0 then skip_blanks (drop 2 t) else t)"
  by auto
termination
proof (relation "measure length", goal_cases)
  case (2 s t)
  have "length t \<le> length s" unfolding 2(1) by (rule length_dropWhile_le)
  moreover have "1 < length t" using 2(2) by (rule conjunct1)
  ultimately show ?case by simp
qed simp

text \<open>\<open>find_first_of(" \t\xc2", pos)\<close> with the loop after it.\<close>

function token_end :: "string \<Rightarrow> string" where
  "token_end s =
     (let t = dropWhile (\<lambda>c. \<not> is_blank c \<and> c \<noteq> byte_C2) s in
      if 1 < length t \<and> t ! 0 = byte_C2 \<and> t ! 1 \<noteq> byte_A0 then token_end (drop 2 t) else t)"
  by auto
termination
proof (relation "measure length", goal_cases)
  case (2 s t)
  have "length t \<le> length s" unfolding 2(1) by (rule length_dropWhile_le)
  moreover have "1 < length t" using 2(2) by (rule conjunct1)
  ultimately show ?case by simp
qed simp

declare skip_blanks.simps [simp del] token_end.simps [simp del]

text \<open>The loop over the tokens, from the start of one.\<close>

partial_function (option) line_tokens :: "string \<Rightarrow> string list option" where
  "line_tokens s =
     (let r = token_end s; token = take (length s - length r) s; s' = skip_blanks r in
      if s' = [] then Some [token] else Option.bind (line_tokens s') (\<lambda>tokens. Some (token # tokens)))"

section \<open>Tokens of a command\<close>

text \<open>
  The input stack: the lines that are left of every script, the innermost first, above the entry of the
  terminal, whose lines are read from elsewhere; and for the scripts their path and line.
\<close>

record Input =
  inputStack :: "string list list"
  terminal :: "string list"
  scriptContext :: "(string \<times> nat) list"

definition IsInScript :: "Input \<Rightarrow> bool" where
  "IsInScript i \<longleftrightarrow> 1 < length (inputStack i)"

definition IsDone :: "Input \<Rightarrow> bool" where
  "IsDone i \<longleftrightarrow> inputStack i = []"

text \<open>The lines that \<open>ReadLine\<close> reads from.\<close>

definition input_lines :: "Input \<Rightarrow> string list" where
  "input_lines i = (if IsInScript i then hd (inputStack i) else terminal i)"

definition set_input_lines :: "string list \<Rightarrow> Input \<Rightarrow> Input" where
  "set_input_lines lines i =
     (if IsInScript i then i\<lparr>inputStack := lines # drop 1 (inputStack i)\<rparr> else i\<lparr>terminal := lines\<rparr>)"

definition next_line :: "(string \<times> nat) list \<Rightarrow> (string \<times> nat) list" where
  "next_line sc = (case sc of [] \<Rightarrow> [] | (path, line) # rest \<Rightarrow> (path, line + 1) # rest)"

text \<open>The loop over the lines of the innermost input; the last component says whether the input has ended.\<close>

fun read_lines ::
  "string list \<Rightarrow> (string \<times> nat) list \<Rightarrow> string list \<Rightarrow> (string list \<times> string list \<times> (string \<times> nat) list \<times> bool) option" where
  "read_lines [] sc tokens = Some (tokens, [], sc, True)"
| "read_lines (line # lines) sc tokens =
     (if line = [] then None
      else
        let checkNextLine = last line = CHR 0x5C;
            line1 = (if checkNextLine then butlast line else line);
            sc' = next_line sc;
            line2 = takeWhile (\<lambda>c. c \<noteq> CHR ''#'') line1;
            start = skip_blanks line2 in
        if start = [] then
          if tokens = [] \<or> checkNextLine then read_lines lines sc' tokens
          else Some (tokens, lines, sc', False)
        else
          (case line_tokens start of
             None \<Rightarrow> None
           | Some ts \<Rightarrow>
               if checkNextLine then read_lines lines sc' (tokens @ ts)
               else Some (tokens @ ts, lines, sc', False)))"

definition GetTokens :: "Input \<Rightarrow> (Input \<times> string list) option" where
  "GetTokens i =
     (if IsDone i then Some (i, [])
      else
        map_option (\<lambda>(tokens, lines, sc, ended).
          let i' = set_input_lines lines i in
          (if ended then i'\<lparr>inputStack := drop 1 (inputStack i'), scriptContext := drop 1 sc\<rparr>
           else i'\<lparr>scriptContext := sc\<rparr>, tokens))
          (read_lines (input_lines i) (scriptContext i) []))"

text \<open>\<open>StartScript\<close> on a file that can be opened, and the end of all scripts.\<close>

definition StartScript :: "string \<Rightarrow> string list \<Rightarrow> Input \<Rightarrow> Input" where
  "StartScript inputPath lines i =
     i\<lparr>inputStack := lines # inputStack i, scriptContext := (inputPath, 0) # scriptContext i\<rparr>"

definition TerminateAllScripts :: "Input \<Rightarrow> Input" where
  "TerminateAllScripts i =
     i\<lparr>inputStack := drop (length (inputStack i) - 1) (inputStack i), scriptContext := []\<rparr>"

section \<open>Context of a command\<close>

record Context =
  cx_tokens :: "string list"
  positionalArguments :: "string list"
  switchedArguments :: "(string, string list) std_map"
  hasIllFormedSwitch :: bool

text \<open>\<open>_switchedArguments[switchName].push_back(token)\<close>\<close>

definition add_switched :: "string \<Rightarrow> string \<Rightarrow> (string, string list) std_map \<Rightarrow> (string, string list) std_map" where
  "add_switched name token m =
     sm_assign name ((case sm_find m name of None \<Rightarrow> [] | Some ts \<Rightarrow> ts) @ [token]) m"

fun sort_tokens :: "string list \<Rightarrow> string \<Rightarrow> nat \<Rightarrow> Context \<Rightarrow> Context" where
  "sort_tokens [] switchName argNum c =
     (if switchName \<noteq> [] then c\<lparr>hasIllFormedSwitch := True\<rparr> else c)"
| "sort_tokens (token # tokens) switchName argNum c =
     (if token \<noteq> [] \<and> token ! 0 = CHR ''/'' then
        let ill1 = (switchName \<noteq> [] \<or> argNum = 0);
            switchName' = drop 1 token;
            ill2 = (switchName' = []) in
        sort_tokens tokens switchName' (argNum + 1) (c\<lparr>hasIllFormedSwitch := hasIllFormedSwitch c \<or> ill1 \<or> ill2\<rparr>)
      else if switchName = [] then
        sort_tokens tokens [] (argNum + 1) (c\<lparr>positionalArguments := positionalArguments c @ [token]\<rparr>)
      else
        sort_tokens tokens [] (argNum + 1) (c\<lparr>switchedArguments := add_switched switchName token (switchedArguments c)\<rparr>))"

definition Context_new :: "string list \<Rightarrow> Context" where
  "Context_new tokens =
     sort_tokens tokens [] 0
       \<lparr>cx_tokens = tokens, positionalArguments = [], switchedArguments = [], hasIllFormedSwitch = False\<rparr>"

definition TokenAt :: "Context \<Rightarrow> nat \<Rightarrow> string" where
  "TokenAt c i = (if i < length (cx_tokens c) then cx_tokens c ! i else [])"

definition ParseTokenAt :: "Context \<Rightarrow> nat \<Rightarrow> addr option" where
  "ParseTokenAt c i = (if i < length (cx_tokens c) then read_hex (cx_tokens c ! i) else None)"

definition GetNumPositionals :: "Context \<Rightarrow> nat" where
  "GetNumPositionals c = length (positionalArguments c)"

definition Positional :: "Context \<Rightarrow> nat \<Rightarrow> string" where
  "Positional c i = (if i < length (positionalArguments c) then positionalArguments c ! i else [])"

definition ParsePositional :: "Context \<Rightarrow> nat \<Rightarrow> addr option" where
  "ParsePositional c i = (if i < length (positionalArguments c) then read_hex (positionalArguments c ! i) else None)"

definition GetNumArguments :: "Context \<Rightarrow> string \<Rightarrow> nat" where
  "GetNumArguments c switchName = (case sm_find (switchedArguments c) switchName of None \<Rightarrow> 0 | Some ts \<Rightarrow> length ts)"

definition Argument :: "Context \<Rightarrow> string \<Rightarrow> nat \<Rightarrow> string" where
  "Argument c switchName i =
     (case sm_find (switchedArguments c) switchName of None \<Rightarrow> [] | Some ts \<Rightarrow> if i < length ts then ts ! i else [])"

definition ParseArgument :: "Context \<Rightarrow> string \<Rightarrow> nat \<Rightarrow> addr option" where
  "ParseArgument c switchName i =
     (case sm_find (switchedArguments c) switchName of
        None \<Rightarrow> None
      | Some ts \<Rightarrow> if i < length ts then read_hex (ts ! i) else None)"

text \<open>The loop of \<open>ParseBooleanSwitch\<close>; \<open>None\<close> is the result false, where the value is left as it is.\<close>

fun boolean_arguments :: "string list \<Rightarrow> bool option \<Rightarrow> bool option option" where
  "boolean_arguments [] value = Some value"
| "boolean_arguments (argument # arguments) value =
     (if argument = ''true'' then
        if value = Some False then None else boolean_arguments arguments (Some True)
      else if argument = ''false'' then
        if value = Some True then None else boolean_arguments arguments (Some False)
      else None)"

definition ParseBooleanSwitch :: "Context \<Rightarrow> string \<Rightarrow> bool \<Rightarrow> bool option" where
  "ParseBooleanSwitch c switchName value =
     (case sm_find (switchedArguments c) switchName of
        None \<Rightarrow> Some value
      | Some arguments \<Rightarrow>
          map_option (\<lambda>v. case v of None \<Rightarrow> value | Some b \<Rightarrow> b) (boolean_arguments arguments None))"

section \<open>Where the output is redirected to\<close>

definition SetRedirectPathByArguments :: "Context \<Rightarrow> string \<Rightarrow> string" where
  "SetRedirectPathByArguments c path =
     path @
     concat (map (\<lambda>i. (if i = 0 then ''.'' else ''_'') @ positionalArguments c ! i) [0..<length (positionalArguments c)]) @
     concat (map (\<lambda>(name, ts). ''::'' @ name @ concat (map ((@) '':'') ts)) (switchedArguments c))"

definition redirect_path :: "Context \<Rightarrow> string \<Rightarrow> string" where
  "redirect_path c redirectPrefix =
     (let suffix = Argument c ''redirectSuffix'' 0;
          path = (if suffix \<noteq> [] then redirectPrefix @ ''.'' @ suffix else SetRedirectPathByArguments c redirectPrefix) in
      take 255 path)"


section \<open>Lines that are read back\<close>

text \<open>
  A line of a command is a list of gaps and tokens, a last gap and a comment; a gap is made of
  blanks, tabs and the two bytes of non-breaking blanks.
\<close>

type_synonym source_line = "(string \<times> string) list \<times> string \<times> string"

definition body_text :: "(string \<times> string) list \<Rightarrow> string" where
  "body_text items = concat (map (\<lambda>(g, t). g @ t) items)"

definition line_text :: "source_line \<Rightarrow> string" where
  "line_text l = (case l of (items, gap, comment) \<Rightarrow> body_text items @ gap @ comment)"

fun is_gap :: "string \<Rightarrow> bool" where
  "is_gap [] \<longleftrightarrow> True"
| "is_gap [c] \<longleftrightarrow> c = CHR '' '' \<or> c = CHR 0x09"
| "is_gap (c # d # s) \<longleftrightarrow> (c = CHR '' '' \<or> c = CHR 0x09) \<and> is_gap (d # s) \<or> c = byte_C2 \<and> d = byte_A0 \<and> is_gap s"

definition is_token :: "string \<Rightarrow> bool" where
  "is_token t \<longleftrightarrow> t \<noteq> [] \<and> list_all (\<lambda>c. \<not> is_blank c \<and> c \<noteq> byte_C2 \<and> c \<noteq> CHR ''#'') t"

definition line_ok :: "source_line \<Rightarrow> bool" where
  "line_ok l =
     (case l of (items, gap, comment) \<Rightarrow>
        list_all (\<lambda>(g, t). is_gap g \<and> is_token t) items \<and> list_all (\<lambda>(g, t). g \<noteq> []) (drop 1 items) \<and>
        is_gap gap \<and> (comment = [] \<or> comment ! 0 = CHR ''#''))"

definition line_items :: "source_line \<Rightarrow> string list" where
  "line_items l = (case l of (items, gap, comment) \<Rightarrow> map snd items)"

lemma skip_blanks_Nil [simp]: "skip_blanks [] = []"
  by (simp add: skip_blanks.simps)

lemma skip_stop:
  assumes "dropWhile is_blank s = t" "\<not> (1 < length t \<and> t ! 0 = byte_C2 \<and> t ! 1 = byte_A0)"
  shows "skip_blanks s = t"
  unfolding skip_blanks.simps [of s] using assms by (auto simp: Let_def)

lemma skip_step: "dropWhile is_blank s = byte_C2 # byte_A0 # t \<Longrightarrow> skip_blanks s = skip_blanks t"
  by (simp add: skip_blanks.simps [of s])

lemma end_stop:
  assumes "dropWhile (\<lambda>c. \<not> is_blank c \<and> c \<noteq> byte_C2) s = t" "\<not> (1 < length t \<and> t ! 0 = byte_C2 \<and> t ! 1 \<noteq> byte_A0)"
  shows "token_end s = t"
  unfolding token_end.simps [of s] using assms by (auto simp: Let_def)

lemma body_text_Nil [simp]: "body_text [] = []"
  by (simp add: body_text_def)

lemma body_text_Cons [simp]: "body_text ((g, t) # items) = g @ t @ body_text items"
  by (simp add: body_text_def)

lemma dropWhile_gap:
  assumes "is_gap g"
  shows "dropWhile is_blank g = [] \<or> (\<exists>g'. dropWhile is_blank g = byte_C2 # byte_A0 # g' \<and> is_gap g' \<and> length g' < length g)"
  using assms
proof (induction g rule: is_gap.induct)
  case (3 c d s)
  show ?case
  proof (cases "is_blank c")
    case True
    then have "is_gap (d # s)" using "3.prems" by (auto simp: is_blank_def)
    then show ?thesis using "3.IH"(1) True by (auto simp: is_blank_def less_Suc_eq)
  next
    case False
    then show ?thesis using "3.prems" by (auto simp: is_blank_def)
  qed
qed (auto simp: is_blank_def)

lemma skip_gap:
  assumes "is_gap g" "s = [] \<or> \<not> is_blank (hd s) \<and> hd s \<noteq> byte_C2"
  shows "skip_blanks (g @ s) = s"
  using assms(1)
proof (induction "length g" arbitrary: g rule: less_induct)
  case less
  show ?case
  proof (cases "dropWhile is_blank g = []")
    case True
    then have "dropWhile is_blank (g @ s) = s" using assms(2) by (cases s) (simp_all add: dropWhile_eq_Nil_conv)
    then show ?thesis by (rule skip_stop) (use assms(2) in \<open>cases s; auto\<close>)
  next
    case False
    then obtain g' where g': "dropWhile is_blank g = byte_C2 # byte_A0 # g'" "is_gap g'" "length g' < length g"
      using dropWhile_gap [OF less.prems] by blast
    have "dropWhile is_blank (g @ s) = byte_C2 # byte_A0 # g' @ s"
      using g'(1) by (metis append_Cons dropWhile_append1 dropWhile_eq_Nil_conv list.discI)
    then show ?thesis using less.hyps [OF g'(3,2)] skip_step by metis
  qed
qed

lemma skip_gap_Nil: "is_gap g \<Longrightarrow> skip_blanks g = []"
  using skip_gap [of g "[]"] by simp

lemma gap_no_hash: "is_gap g \<Longrightarrow> CHR ''#'' \<notin> set g"
proof (induction "length g" arbitrary: g rule: less_induct)
  case less
  have split: "set g \<subseteq> {c. is_blank c} \<union> set (dropWhile is_blank g)"
    by (metis UnI1 UnI2 mem_Collect_eq set_append set_takeWhileD subsetI takeWhile_dropWhile_id Un_iff)
  show ?case
  proof (cases "dropWhile is_blank g = []")
    case True
    then show ?thesis using split by (auto simp: is_blank_def)
  next
    case False
    then obtain g' where g': "dropWhile is_blank g = byte_C2 # byte_A0 # g'" "is_gap g'" "length g' < length g"
      using dropWhile_gap [OF less.prems] by blast
    then show ?thesis using split less.hyps [OF g'(3,2)] by (auto simp: is_blank_def)
  qed
qed

text \<open>A token ends at a gap and at the end of the line.\<close>

lemma token_end_gap:
  assumes "is_token t" "g = [] \<Longrightarrow> s = []" "is_gap g"
  shows "token_end (t @ g @ s) = g @ s"
proof -
  have t: "dropWhile (\<lambda>c. \<not> is_blank c \<and> c \<noteq> byte_C2) (t @ u) = dropWhile (\<lambda>c. \<not> is_blank c \<and> c \<noteq> byte_C2) u" for u
    using assms(1) by (simp add: is_token_def list_all_iff dropWhile_append)
  show ?thesis
  proof (cases g)
    case Nil
    have "dropWhile (\<lambda>c. \<not> is_blank c \<and> c \<noteq> byte_C2) (t @ g @ s) = []"
      unfolding t using Nil assms(2) by simp
    then have "token_end (t @ g @ s) = []" by (rule end_stop) simp
    then show ?thesis using Nil assms(2) by simp
  next
    case (Cons c g')
    show ?thesis
    proof (cases "is_blank c")
      case True
      then have "c \<noteq> byte_C2" by (auto simp: is_blank_def)
      then show ?thesis using t [of "g @ s"] True by (intro end_stop) (simp_all add: Cons)
    next
      case False
      then obtain g2 where "g = byte_C2 # byte_A0 # g2" using dropWhile_gap [OF assms(3)] Cons by auto
      then show ?thesis using t [of "g @ s"] by (intro end_stop) (simp_all add: is_blank_def)
    qed
  qed
qed


lemma gap_head: "is_gap g \<Longrightarrow> g \<noteq> [] \<Longrightarrow> is_blank (hd g) \<or> hd g = byte_C2"
  using dropWhile_gap [of g] by (cases g) (auto split: if_splits)

lemma token_head: "is_token t \<Longrightarrow> \<not> is_blank (hd t) \<and> hd t \<noteq> byte_C2"
  by (cases t) (auto simp: is_token_def)

text \<open>What follows a token in a line that is all right is split as its tokens.\<close>

lemma line_tokens_items:
  assumes "is_token t" "list_all (\<lambda>(g, t). g \<noteq> [] \<and> is_gap g \<and> is_token t) items" "is_gap gap"
  shows "line_tokens (t @ body_text items @ gap) = Some (t # map snd items)"
  using assms(1,2)
proof (induction items arbitrary: t)
  case Nil
  have "token_end (t @ gap) = gap" using token_end_gap [OF Nil(1) _ assms(3), of "[]"] by simp
  moreover have "skip_blanks gap = []" by (rule skip_gap_Nil [OF assms(3)])
  ultimately show ?case by (simp add: line_tokens.simps [of "t @ gap"])
next
  case (Cons i items)
  obtain g u where i: "i = (g, u)" by (cases i)
  have gu: "g \<noteq> []" "is_gap g" "is_token u" using Cons.prems(2) by (auto simp: i)
  let ?s = "u @ body_text items @ gap"
  have u: "u \<noteq> []" using gu(3) by (simp add: is_token_def)
  have e: "token_end (t @ g @ ?s) = g @ ?s" by (rule token_end_gap [OF Cons.prems(1) _ gu(2)]) (simp add: gu(1))
  have k: "skip_blanks (g @ ?s) = ?s" by (rule skip_gap [OF gu(2)]) (use token_head [OF gu(3)] u in simp)
  have r: "line_tokens ?s = Some (u # map snd items)" using Cons gu by auto
  show ?case using e k r u by (simp add: line_tokens.simps [of "t @ g @ ?s"] i)
qed

lemma takeWhile_line:
  assumes "line_ok (items, gap, comment)"
  shows "takeWhile (\<lambda>c. c \<noteq> CHR ''#'') (line_text (items, gap, comment)) = body_text items @ gap"
proof -
  have i: "list_all (\<lambda>(g, t). is_gap g \<and> is_token t) items" "is_gap gap" using assms by (simp_all add: line_ok_def)
  have "CHR ''#'' \<notin> set (body_text items @ gap)"
    using i gap_no_hash by (fastforce simp: body_text_def list_all_iff is_token_def)
  then have "takeWhile (\<lambda>c. c \<noteq> CHR ''#'') ((body_text items @ gap) @ comment) =
               (body_text items @ gap) @ takeWhile (\<lambda>c. c \<noteq> CHR ''#'') comment"
    by (intro takeWhile_append2) auto
  moreover have "takeWhile (\<lambda>c. c \<noteq> CHR ''#'') comment = []" using assms by (cases comment) (auto simp: line_ok_def)
  ultimately show ?thesis by (simp add: line_text_def)
qed

lemma skip_line:
  assumes "line_ok (items, gap, comment)"
  shows "skip_blanks (body_text items @ gap) =
           (case items of [] \<Rightarrow> [] | (g, t) # items' \<Rightarrow> t @ body_text items' @ gap)"
proof (cases items)
  case Nil
  then show ?thesis using assms by (simp add: line_ok_def skip_gap_Nil)
next
  case (Cons i items')
  obtain g t where i: "i = (g, t)" by (cases i)
  have gt: "is_gap g" "is_token t" using assms by (simp_all add: line_ok_def Cons i)
  then have "t \<noteq> []" by (simp add: is_token_def)
  then have "skip_blanks (g @ t @ body_text items' @ gap) = t @ body_text items' @ gap"
    by (intro skip_gap [OF gt(1)]) (use token_head [OF gt(2)] in simp)
  then show ?thesis by (simp add: Cons i)
qed

lemma line_all_tokens:
  assumes "line_ok (items, gap, comment)" "items \<noteq> []"
  shows "line_tokens (skip_blanks (body_text items @ gap)) = Some (map snd items)"
proof -
  obtain g t items' where i: "items = (g, t) # items'" using assms(2) by (cases items) auto
  have "list_all (\<lambda>(g, t). g \<noteq> [] \<and> is_gap g \<and> is_token t) items'" "is_token t" "is_gap gap"
    using assms(1) by (auto simp: line_ok_def i list_all_iff)
  then show ?thesis using line_tokens_items skip_line [OF assms(1)] by (simp add: i)
qed


lemma line_items_eq [simp]: "line_items (items, gap, comment) = map snd items"
  by (simp add: line_items_def)

lemma skip_line_token:
  assumes "line_ok (items, gap, comment)" "items \<noteq> []"
  shows "skip_blanks (body_text items @ gap) \<noteq> []"
proof -
  obtain g t items' where i: "items = (g, t) # items'" using assms(2) by (cases items) auto
  then have "t \<noteq> []" using assms(1) by (auto simp: line_ok_def is_token_def)
  then show ?thesis using skip_line [OF assms(1)] by (simp add: i)
qed

section \<open>What is read\<close>

lemma last_append_slash: "last (s @ [CHR 0x5C]) = CHR 0x5C" "butlast (s @ [CHR 0x5C]) = s"
  by simp_all

text \<open>Lines before the last one of a command, which end with a backslash; lines without tokens do not count.\<close>

lemma read_lines_continued:
  assumes "list_all line_ok ls"
  shows "read_lines (map (\<lambda>l. line_text l @ [CHR 0x5C]) ls @ lines) sc tokens =
           read_lines lines ((next_line ^^ length ls) sc) (tokens @ concat (map line_items ls))"
  using assms
proof (induction ls arbitrary: sc tokens)
  case (Cons l ls)
  obtain items gap comment where l: "l = (items, gap, comment)" by (cases l)
  have ok: "line_ok (items, gap, comment)" using Cons.prems l by simp
  have IH: "read_lines (map (\<lambda>l. line_text l @ [CHR 0x5C]) ls @ lines) sc' tokens' =
      read_lines lines ((next_line ^^ length ls) sc') (tokens' @ concat (map line_items ls))" for sc' tokens'
    using Cons by simp
  have n: "(next_line ^^ length ls) (next_line sc) = (next_line ^^ length (l # ls)) sc"
    by (simp add: funpow_swap1)
  show ?case
  proof (cases "items = []")
    case True
    then show ?thesis using takeWhile_line [OF ok] skip_line [OF ok] n by (simp add: l IH)
  next
    case False
    then show ?thesis using takeWhile_line [OF ok] line_all_tokens [OF ok False] skip_line_token [OF ok False] n
      by (simp add: l IH)
  qed
qed simp

text \<open>Lines without tokens before a command.\<close>

definition plain_end :: "source_line \<Rightarrow> bool" where
  "plain_end l \<longleftrightarrow> line_text l \<noteq> [] \<and> last (line_text l) \<noteq> CHR 0x5C"

lemma read_lines_empty:
  assumes "list_all (\<lambda>l. line_ok l \<and> plain_end l \<and> line_items l = []) ls"
  shows "read_lines (map line_text ls @ lines) sc [] = read_lines lines ((next_line ^^ length ls) sc) []"
  using assms
proof (induction ls arbitrary: sc)
  case (Cons l ls)
  obtain items gap comment where l: "l = (items, gap, comment)" by (cases l)
  have ok: "line_ok (items, gap, comment)" "items = []" using Cons.prems by (auto simp: l)
  have "line_text l \<noteq> []" "last (line_text l) \<noteq> CHR 0x5C" using Cons.prems by (simp_all add: plain_end_def)
  moreover have "read_lines (map line_text ls @ lines) (next_line sc) [] =
      read_lines lines ((next_line ^^ length ls) (next_line sc)) []" using Cons by simp
  ultimately show ?case using takeWhile_line [OF ok(1)] skip_line [OF ok(1)] by (simp add: l ok(2) funpow_swap1)
qed simp

lemma read_lines_last:
  assumes "line_ok l" "plain_end l" "tokens @ line_items l \<noteq> []"
  shows "read_lines (line_text l # lines) sc tokens = Some (tokens @ line_items l, lines, next_line sc, False)"
proof -
  obtain items gap comment where l: "l = (items, gap, comment)" by (cases l)
  have ok: "line_ok (items, gap, comment)" using assms(1) by (simp add: l)
  note pe = assms(2) [unfolded plain_end_def]
  show ?thesis
  proof (cases "items = []")
    case True
    then show ?thesis using takeWhile_line [OF ok] skip_line [OF ok] pe assms(3) by (simp add: l)
  next
    case False
    then show ?thesis using takeWhile_line [OF ok] line_all_tokens [OF ok False] skip_line_token [OF ok False] pe
      by (simp add: l Let_def)
  qed
qed

text \<open>An empty line is read outside of its string.\<close>

lemma read_lines_empty_line: "read_lines ([] # lines) sc tokens = None"
  by simp

text \<open>A line that ends with the byte C2 is not read: an empty token is added for ever.\<close>

lemma line_tokens_lone: "line_tokens [byte_C2] = None"
proof -
  have e: "token_end [byte_C2] = [byte_C2]" by (rule end_stop) simp_all
  have k: "skip_blanks [byte_C2] = [byte_C2]" by (rule skip_stop) (simp_all add: is_blank_def)
  have "line_tokens [byte_C2] \<noteq> Some ts" for ts
  proof (induction "length ts" arbitrary: ts rule: less_induct)
    case less
    show ?case
    proof
      assume "line_tokens [byte_C2] = Some ts"
      then have "Option.bind (line_tokens [byte_C2]) (\<lambda>tokens. Some ([] # tokens)) = Some ts"
        by (subst (asm) line_tokens.simps) (simp add: e k)
      then obtain ts' where "line_tokens [byte_C2] = Some ts'" "ts = [] # ts'" by (auto simp: bind_eq_Some_conv)
      then show False using less by auto
    qed
  qed
  then show ?thesis by (cases "line_tokens [byte_C2]") auto
qed


section \<open>Arguments that are sorted back\<close>

datatype argument = Positional_argument string | Switch_argument string string

definition argument_ok :: "argument \<Rightarrow> bool" where
  "argument_ok a =
     (case a of
        Positional_argument t \<Rightarrow> t = [] \<or> hd t \<noteq> CHR ''/''
      | Switch_argument name t \<Rightarrow> name \<noteq> [] \<and> (t = [] \<or> hd t \<noteq> CHR ''/''))"

definition argument_tokens :: "argument \<Rightarrow> string list" where
  "argument_tokens a = (case a of Positional_argument t \<Rightarrow> [t] | Switch_argument name t \<Rightarrow> [CHR ''/'' # name, t])"

definition positionals :: "argument list \<Rightarrow> string list" where
  "positionals as = concat (map (\<lambda>a. case a of Positional_argument t \<Rightarrow> [t] | _ \<Rightarrow> []) as)"

definition switch_values :: "string \<Rightarrow> argument list \<Rightarrow> string list" where
  "switch_values name as = concat (map (\<lambda>a. case a of Switch_argument n t \<Rightarrow> if n = name then [t] else [] | _ \<Rightarrow> []) as)"

text \<open>The values of a switch, none where the switch does not occur.\<close>

definition switch_entry :: "(string, string list) std_map \<Rightarrow> string \<Rightarrow> string list" where
  "switch_entry m name = (case sm_find m name of None \<Rightarrow> [] | Some ts \<Rightarrow> ts)"

lemma add_switched_sorted: "sm_sorted m \<Longrightarrow> sm_sorted (add_switched name t m)"
  by (simp add: add_switched_def)

lemma switch_entry_add:
  "sm_sorted m \<Longrightarrow> switch_entry (add_switched name t m) n = switch_entry m n @ (if n = name then [t] else [])"
  by (auto simp: switch_entry_def add_switched_def sm_find_assign split: option.splits)

lemma add_switched_nonempty:
  "sm_sorted m \<Longrightarrow> sm_find m n \<noteq> Some [] \<Longrightarrow> sm_find (add_switched name t m) n \<noteq> Some []"
  by (auto simp: add_switched_def sm_find_assign split: option.splits)

text \<open>What the sorting does with arguments, after the first token of the command.\<close>

lemma sort_arguments:
  assumes "list_all argument_ok as" "sm_sorted (switchedArguments c)" "\<forall>n. sm_find (switchedArguments c) n \<noteq> Some []" "0 < k"
  defines "c' \<equiv> sort_tokens (concat (map argument_tokens as)) [] k c"
  shows "positionalArguments c' = positionalArguments c @ positionals as \<and> hasIllFormedSwitch c' = hasIllFormedSwitch c \<and>
         cx_tokens c' = cx_tokens c \<and> sm_sorted (switchedArguments c') \<and> (\<forall>n. sm_find (switchedArguments c') n \<noteq> Some []) \<and>
         (\<forall>n. switch_entry (switchedArguments c') n = switch_entry (switchedArguments c) n @ switch_values n as)"
  unfolding c'_def
  using assms(1-4)
proof (induction as arbitrary: c k)
  case Nil
  then show ?case by (simp add: positionals_def switch_values_def)
next
  case (Cons a as)
  show ?case
  proof (cases a)
    case (Positional_argument t)
    have "\<not> (t \<noteq> [] \<and> t ! 0 = CHR ''/'')" using Cons.prems(1) Positional_argument by (cases t) (auto simp: argument_ok_def)
    then have s: "sort_tokens (concat (map argument_tokens (a # as))) [] k c =
        sort_tokens (concat (map argument_tokens as)) [] (k + 1) (c\<lparr>positionalArguments := positionalArguments c @ [t]\<rparr>)"
      by (auto simp: Positional_argument argument_tokens_def)
    have p: "positionals (a # as) = t # positionals as" "switch_values n (a # as) = switch_values n as" for n
      by (simp_all add: Positional_argument positionals_def switch_values_def)
    show ?thesis unfolding s p using Cons.IH [of "c\<lparr>positionalArguments := positionalArguments c @ [t]\<rparr>" "k + 1"] Cons.prems
      by simp
  next
    case (Switch_argument name t)
    have ok: "\<not> (t \<noteq> [] \<and> t ! 0 = CHR ''/'')" "name \<noteq> []"
      using Cons.prems(1) Switch_argument by (cases t; auto simp: argument_ok_def)+
    let ?c = "c\<lparr>switchedArguments := add_switched name t (switchedArguments c)\<rparr>"
    have s: "sort_tokens (concat (map argument_tokens (a # as))) [] k c =
        sort_tokens (concat (map argument_tokens as)) [] (k + 2) ?c"
      using ok Cons.prems(4) by (auto simp: Switch_argument argument_tokens_def)
    have p: "positionals (a # as) = positionals as"
        "switch_values n (a # as) = (if n = name then [t] else []) @ switch_values n as" for n
      by (simp_all add: Switch_argument positionals_def switch_values_def)
    show ?thesis unfolding s p using Cons.IH [of ?c "k + 2"] Cons.prems
      by (simp add: add_switched_sorted switch_entry_add add_switched_nonempty)
  qed
qed

section \<open>Boolean switches\<close>

lemma boolean_arguments_result:
  "boolean_arguments as v =
     (if as = [] then Some v
      else if set as = {''true''} \<and> v \<noteq> Some False then Some (Some True)
      else if set as = {''false''} \<and> v \<noteq> Some True then Some (Some False)
      else None)"
proof (induction as v rule: boolean_arguments.induct)
  case (2 a as v)
  have tf: "''true'' \<noteq> ''false''" by simp
  have set: "set (a # as) = {x} \<longleftrightarrow> a = x \<and> (as = [] \<or> set as = {x})" for x by (cases as) auto
  show ?case unfolding set using 2 tf by (cases "a = ''true''"; cases "a = ''false''"; cases v; cases "v = Some True") auto
qed simp

end
