(* ===== verification/Command_Runner.thy ===== *)
theory Command_Runner
  imports Command_Line
begin

text \<open>
  The loop of Commands/Runner.h that runs commands: \<open>Runner::RunCommands\<close> with the built-in commands help, redirect
  and source, the choice of a command callback or a command, and the redirection of the output.  A command and a
  callback are known by their name and by the number of tokens a callback accepts; that they are run, and what is
  written instead, are events.
\<close>

section \<open>State and events\<close>

record Runner =
  rn_redirect :: bool
  rn_input :: Input

text \<open>The files that can be read, with their lines, the paths that can be written, and what was added.\<close>

record Environment =
  readable :: "string \<Rightarrow> string list option"
  writable :: "string \<Rightarrow> bool"
  redirectPrefix :: string
  commandCallbacks :: "(string, (Context \<Rightarrow> nat) list) std_map"
  commandNames :: "string list"

datatype runner_event =
    Help_shown "string option"
  | Redirect_usage
  | Source_usage
  | Script_not_opened string
  | Unknown_command string
  | Not_recognized string
  | Redirect_started string
  | Redirect_failed string
  | Callback_run string nat "string list"
  | Command_run string Context
  | Redirect_ended string

text \<open>What a command does to the input.\<close>

datatype input_action = Keep_input | Start_script string "string list" | Stop_scripts

section \<open>One command\<close>

text \<open>The callback that accepts the most tokens, the first one of these.\<close>

definition best_callback :: "(Context \<Rightarrow> nat) list \<Rightarrow> Context \<Rightarrow> nat \<times> nat" where
  "best_callback callbacks c =
     foldl (\<lambda>(most, best) i. if most < (callbacks ! i) c then ((callbacks ! i) c, i) else (most, best))
       (0, length callbacks) [0..<length callbacks]"

text \<open>\<open>StartRedirect\<close>: the path of a redirected context is not empty.\<close>

definition StartRedirect :: "Environment \<Rightarrow> Context \<Rightarrow> string \<times> runner_event list" where
  "StartRedirect env c =
     (let path = redirect_path c (redirectPrefix env) in
      if writable env path then (path, [Redirect_started path]) else ([], [Redirect_failed path]))"

definition HandleHelpCommand :: "Context \<Rightarrow> runner_event list" where
  "HandleHelpCommand c = [Help_shown (if length (cx_tokens c) = 1 then None else Some (TokenAt c 1))]"

definition HandleRedirectCommand :: "Context \<Rightarrow> bool \<Rightarrow> bool \<times> runner_event list" where
  "HandleRedirectCommand c redirect =
     (let argument = TokenAt c 1 in
      if length (cx_tokens c) \<noteq> 2 \<or> \<not> (argument = ''on'' \<or> argument = ''off'') then (redirect, [Redirect_usage])
      else (argument = ''on'', []))"

definition HandleSourceCommand :: "Environment \<Rightarrow> Context \<Rightarrow> runner_event list \<times> input_action" where
  "HandleSourceCommand env c =
     (if length (cx_tokens c) \<noteq> 2 then ([Source_usage], Keep_input)
      else (case readable env (TokenAt c 1) of
              None \<Rightarrow> ([Script_not_opened (TokenAt c 1)], Keep_input)
            | Some lines \<Rightarrow> ([], Start_script (TokenAt c 1) lines)))"

text \<open>The part of the loop after the callbacks; the path is the one of a redirection that has been started.\<close>

definition run_found_command ::
  "Environment \<Rightarrow> bool \<Rightarrow> Context \<Rightarrow> bool \<Rightarrow> string \<Rightarrow> string \<times> runner_event list" where
  "run_found_command env redirect c redirectStarted path =
     (let command = TokenAt c 0 in
      if command \<notin> set (commandNames env) then (path, [Not_recognized command])
      else
        let (path', evs) =
              (if (redirect \<or> Argument c ''redirectSuffix'' 0 \<noteq> []) \<and> \<not> redirectStarted then StartRedirect env c
               else (path, [])) in
        (path', evs @ (if hasIllFormedSwitch c then [] else [Command_run command c])))"

definition run_other_command :: "Environment \<Rightarrow> bool \<Rightarrow> Context \<Rightarrow> (string \<times> runner_event list) \<times> input_action" where
  "run_other_command env redirect c =
     (let command = TokenAt c 0 in
      case sm_find (commandCallbacks env) command of
        None \<Rightarrow> (run_found_command env redirect c False [], Keep_input)
      | Some callbacks \<Rightarrow>
          (case best_callback callbacks c of (most, best) \<Rightarrow>
             if most = 0 then
               (case run_found_command env redirect c False [] of (path, evs) \<Rightarrow>
                  ((path, Unknown_command command # evs), Stop_scripts))
             else
               let (path, evs) = (if redirect then StartRedirect env c else ([], [])) in
               if most = length (cx_tokens c) \<or> 2 \<le> most then
                 ((path, evs @ [Callback_run command best (cx_tokens c)]), Keep_input)
               else
                 (case run_found_command env redirect c redirect path of (path', evs') \<Rightarrow> ((path', evs @ evs'), Keep_input))))"

text \<open>One round of the loop after the tokens have been read, with the end of the context.\<close>

definition run_command :: "Environment \<Rightarrow> bool \<Rightarrow> string list \<Rightarrow> bool \<times> runner_event list \<times> input_action" where
  "run_command env redirect tokens =
     (let c = Context_new tokens; command = TokenAt c 0 in
      if hasIllFormedSwitch c \<and> command \<noteq> [] \<and> command ! 0 = CHR ''/'' then (redirect, [], Keep_input)
      else if command = ''help'' then (redirect, HandleHelpCommand c, Keep_input)
      else if command = ''redirect'' then
        (case HandleRedirectCommand c redirect of (redirect', evs) \<Rightarrow> (redirect', evs, Keep_input))
      else if command = ''source'' then
        (case HandleSourceCommand env c of (evs, action) \<Rightarrow> (redirect, evs, action))
      else
        (case run_other_command env redirect c of ((path, evs), action) \<Rightarrow>
           (redirect, evs @ (if path \<noteq> [] then [Redirect_ended path] else []), action)))"

section \<open>The loop\<close>

definition apply_action :: "input_action \<Rightarrow> Input \<Rightarrow> Input" where
  "apply_action action i =
     (case action of
        Keep_input \<Rightarrow> i
      | Start_script path lines \<Rightarrow> StartScript path lines i
      | Stop_scripts \<Rightarrow> TerminateAllScripts i)"

text \<open>One round; the last component says that there is no more input.\<close>

definition Runner_step :: "Environment \<Rightarrow> Runner \<Rightarrow> (Runner \<times> runner_event list \<times> bool) option" where
  "Runner_step env r =
     (case GetTokens (rn_input r) of
        None \<Rightarrow> None
      | Some (i, tokens) \<Rightarrow>
          if TokenAt (Context_new tokens) 0 = [] then Some (r\<lparr>rn_input := i\<rparr>, [], IsDone i)
          else
            (case run_command env (rn_redirect r) tokens of (redirect, evs, action) \<Rightarrow>
               Some (\<lparr>rn_redirect = redirect, rn_input = apply_action action i\<rparr>, evs, False)))"

partial_function (option) RunCommands :: "Environment \<Rightarrow> Runner \<Rightarrow> (Runner \<times> runner_event list) option" where
  "RunCommands env r =
     Option.bind (Runner_step env r) (\<lambda>(r', evs, finished).
       if finished then Some (r', evs)
       else Option.bind (RunCommands env r') (\<lambda>(r'', evs'). Some (r'', evs @ evs')))"

definition Runner_new :: "string list \<Rightarrow> Runner" where
  "Runner_new lines = \<lparr>rn_redirect = False, rn_input = \<lparr>inputStack = [[]], terminal = lines, scriptContext = []\<rparr>\<rparr>"


section \<open>What a command is for\<close>

text \<open>
  The effect of one command, by its tokens: what it switches, what it writes and runs, and what it does to the
  input.  What is run with the output redirected stands between the start and the end of the redirection, or
  behind the message that the path cannot be written.  The path has the suffix that is asked for or else the arguments of
  the command, the positional ones with underscores between them, and at most 255 characters.
\<close>

fun with_underscores :: "string list \<Rightarrow> string" where
  "with_underscores [] = []"
| "with_underscores [s] = s"
| "with_underscores (s # ss) = s @ ''_'' @ with_underscores ss"

definition output_path :: "Environment \<Rightarrow> Context \<Rightarrow> string" where
  "output_path env c =
     take 255 (redirectPrefix env @ ''.'' @
       (if Argument c ''redirectSuffix'' 0 \<noteq> [] then Argument c ''redirectSuffix'' 0
        else with_underscores (positionalArguments c) @
             concat (map (\<lambda>(name, values). ''::'' @ name @ concat (map (\<lambda>v. '':'' @ v) values)) (switchedArguments c))))"

definition redirected :: "Environment \<Rightarrow> Context \<Rightarrow> bool \<Rightarrow> runner_event list \<Rightarrow> runner_event list" where
  "redirected env c wanted evs =
     (let path = output_path env c in
      if \<not> wanted then evs
      else if writable env path then Redirect_started path # evs @ [Redirect_ended path]
      else Redirect_failed path # evs)"

text \<open>
  A command of the new style is looked for by its name and run unless a switch is ill formed, with its output
  redirected if that is on or asked for.  The flag says that callbacks have started the redirection before.
\<close>

definition new_style :: "Environment \<Rightarrow> bool \<Rightarrow> bool \<Rightarrow> string list \<Rightarrow> runner_event list" where
  "new_style env redirect early tokens =
     (let c = Context_new tokens in
      if hd tokens \<in> set (commandNames env)
      then redirected env c (redirect \<or> Argument c ''redirectSuffix'' 0 \<noteq> [])
             (if hasIllFormedSwitch c then [] else [Command_run (hd tokens) c])
      else redirected env c (redirect \<and> early) [Not_recognized (hd tokens)])"

text \<open>
  A command with callbacks goes to the first one of those that accept the most tokens, if these are all of them
  or at least two.  If all of them refuse it, all scripts are ended and the command is still looked for.
\<close>

definition perform :: "Environment \<Rightarrow> bool \<Rightarrow> string list \<Rightarrow> bool \<times> runner_event list \<times> input_action" where
  "perform env redirect tokens =
     (if hd (hd tokens) = CHR ''/'' then (redirect, [], Keep_input)
      else if hd tokens = ''help''
      then (redirect, [Help_shown (case tl tokens of [] \<Rightarrow> None | topic # _ \<Rightarrow> Some topic)], Keep_input)
      else if hd tokens = ''redirect'' then
        (if tl tokens = [''on''] then (True, [], Keep_input)
         else if tl tokens = [''off''] then (False, [], Keep_input)
         else (redirect, [Redirect_usage], Keep_input))
      else if hd tokens = ''source'' then
        (case tl tokens of
           [path] \<Rightarrow> (case readable env path of
                        None \<Rightarrow> (redirect, [Script_not_opened path], Keep_input)
                      | Some lines \<Rightarrow> (redirect, [], Start_script path lines))
         | _ \<Rightarrow> (redirect, [Source_usage], Keep_input))
      else
        (case map_of (commandCallbacks env) (hd tokens) of
           None \<Rightarrow> (redirect, new_style env redirect False tokens, Keep_input)
         | Some callbacks \<Rightarrow>
             (let accepted = map (\<lambda>f. f (Context_new tokens)) callbacks; most = Max (set (0 # accepted)) in
              if most = 0 then (redirect, Unknown_command (hd tokens) # new_style env redirect False tokens, Stop_scripts)
              else if most = length tokens \<or> 2 \<le> most then
                (redirect,
                 redirected env (Context_new tokens) redirect
                   [Callback_run (hd tokens) (length (takeWhile (\<lambda>n. n \<noteq> most) accepted)) tokens],
                 Keep_input)
              else (redirect, new_style env redirect True tokens, Keep_input))))"

lemma cx_tokens_Context_new [simp]: "cx_tokens (Context_new tokens) = tokens"
proof -
  have "cx_tokens (sort_tokens ts name k c) = cx_tokens c" for ts name k c
    by (induction ts name k c rule: sort_tokens.induct) (auto simp: Let_def)
  then show ?thesis by (simp add: Context_new_def)
qed

lemma best_callback_first:
  "best_callback callbacks c =
     (let accepted = map (\<lambda>f. f c) callbacks; most = Max (set (0 # accepted)) in
      (most, if most = 0 then length callbacks else length (takeWhile (\<lambda>n. n \<noteq> most) accepted)))"
proof -
  define step where "step = (\<lambda>(most, best) i. if most < (callbacks ! i) c then ((callbacks ! i) c, i) else (most, best))"
  define acc where "acc k = map (\<lambda>f. f c) (take k callbacks)" for k
  define mx where "mx k = Max (set (0 # acc k))" for k
  have "foldl step (0, length callbacks) [0..<k] =
      (mx k, if mx k = 0 then length callbacks else length (takeWhile (\<lambda>n. n \<noteq> mx k) (acc k)))"
    if "k \<le> length callbacks" for k
    using that
  proof (induction k)
    case 0
    then show ?case by (simp add: mx_def acc_def)
  next
    case (Suc k)
    let ?x = "(callbacks ! k) c"
    have acc: "acc (Suc k) = acc k @ [?x]" using Suc.prems by (simp add: acc_def take_Suc_conv_app_nth)
    have fin: "finite (set (0 # acc k))" by simp
    have mx: "mx (Suc k) = max ?x (mx k)"
      unfolding mx_def acc by (simp add: insert_commute max.left_commute) (cases "acc k = []"; simp add: max.left_commute)
    have le: "n \<le> mx k" if "n \<in> set (acc k)" for n using that by (simp add: mx_def)
    have "mx k \<in> set (0 # acc k)" unfolding mx_def by (rule Max_in) simp_all
    then have attained: "mx k \<noteq> 0 \<Longrightarrow> mx k \<in> set (acc k)" by auto
    have len: "length (acc k) = k" using Suc.prems by (simp add: acc_def)
    show ?case
    proof (cases "mx k < ?x")
      case True
      then have "takeWhile (\<lambda>n. n \<noteq> ?x) (acc (Suc k)) = acc k"
        using le unfolding acc by (subst takeWhile_append2) fastforce+
      then show ?thesis using Suc True len by (simp add: step_def mx)
    next
      case False
      then have "takeWhile (\<lambda>n. n \<noteq> mx k) (acc (Suc k)) = takeWhile (\<lambda>n. n \<noteq> mx k) (acc k)" if "mx k \<noteq> 0"
        unfolding acc using attained [OF that] by (intro takeWhile_append1) auto
      then show ?thesis using Suc False by (auto simp: step_def mx max_def)
    qed
  qed
  from this [of "length callbacks"] show ?thesis by (simp add: best_callback_def step_def mx_def acc_def Let_def)
qed

lemma sort_tokens_positionals: "\<exists>more. positionalArguments (sort_tokens ts name k c) = positionalArguments c @ more"
  by (induction ts name k c rule: sort_tokens.induct) (auto simp: Let_def)

lemma sort_tokens_ill_formed: "hasIllFormedSwitch c \<Longrightarrow> hasIllFormedSwitch (sort_tokens ts name k c)"
  by (induction ts name k c rule: sort_tokens.induct) (auto simp: Let_def)

lemma with_underscores_snoc: "ss \<noteq> [] \<Longrightarrow> with_underscores (ss @ [s]) = with_underscores ss @ ''_'' @ s"
  by (induction ss rule: with_underscores.induct) simp_all

lemma positional_path:
  "ss \<noteq> [] \<Longrightarrow> concat (map (\<lambda>i. (if i = 0 then ''.'' else ''_'') @ ss ! i) [0..<length ss]) = ''.'' @ with_underscores ss"
proof (induction ss rule: rev_induct)
  case (snoc s ss)
  let ?part = "\<lambda>ss i. (if i = 0 then ''.'' else ''_'') @ ss ! i"
  have m: "map (?part (ss @ [s])) [0..<length ss] = map (?part ss) [0..<length ss]"
    by (intro map_cong) (auto simp: nth_append)
  have l: "map (?part (ss @ [s])) [0..<length (ss @ [s])] = map (?part ss) [0..<length ss] @ [?part (ss @ [s]) (length ss)]"
    unfolding m [symmetric] by simp
  show ?case
  proof (cases "ss = []")
    case False
    then show ?thesis unfolding l concat_append snoc.IH [OF False] with_underscores_snoc [OF False] by simp
  qed simp
qed simp

lemma output_path_eq: "positionalArguments c \<noteq> [] \<Longrightarrow> output_path env c = redirect_path c (redirectPrefix env)"
  by (simp add: output_path_def redirect_path_def SetRedirectPathByArguments_def positional_path Let_def)

lemma redirect_path_nonempty:
  assumes "t \<noteq> []" "hd t \<noteq> CHR ''/''"
  shows "redirect_path (Context_new (t # ts)) prefix \<noteq> []" "positionalArguments (Context_new (t # ts)) \<noteq> []"
proof -
  have "t ! 0 \<noteq> CHR ''/''" using assms by (simp add: hd_conv_nth)
  then have "Context_new (t # ts) =
      sort_tokens ts [] 1 \<lparr>cx_tokens = t # ts, positionalArguments = [t], switchedArguments = [], hasIllFormedSwitch = False\<rparr>"
    by (simp add: Context_new_def)
  then obtain more where "positionalArguments (Context_new (t # ts)) = t # more"
    using sort_tokens_positionals [of ts "[]" 1 "\<lparr>cx_tokens = t # ts, positionalArguments = [t], switchedArguments = [], hasIllFormedSwitch = False\<rparr>"]
    by auto
  note more = this
  show "positionalArguments (Context_new (t # ts)) \<noteq> []" by (simp add: more)
  then have "SetRedirectPathByArguments (Context_new (t # ts)) prefix \<noteq> []"
    by (simp add: SetRedirectPathByArguments_def positional_path)
  then show "redirect_path (Context_new (t # ts)) prefix \<noteq> []" by (simp add: redirect_path_def Let_def)
qed

lemma run_command_perform:
  assumes "tokens \<noteq> []" "hd tokens \<noteq> []"
  shows "run_command env redirect tokens = perform env redirect tokens"
proof -
  obtain t ts where t: "tokens = t # ts" "t \<noteq> []" using assms by (cases tokens) auto
  let ?c = "Context_new tokens"
  have zero: "TokenAt ?c 0 = t" by (simp add: TokenAt_def t)
  have hd: "hd tokens = t" "tl tokens = ts" by (simp_all add: t(1))
  have slash: "t ! 0 = hd t" using t(2) by (simp add: hd_conv_nth)
  show ?thesis
  proof (cases "hd t = CHR ''/''")
    case True
    have "hasIllFormedSwitch ?c"
      using True t slash by (simp add: Context_new_def sort_tokens_ill_formed)
    then show ?thesis using True t(2) slash by (simp add: run_command_def perform_def zero Let_def hd)
  next
    case False
    note ne = redirect_path_nonempty(1) [OF t(2) False, of ts "redirectPrefix env", folded t(1)]
    note path = output_path_eq [OF redirect_path_nonempty(2) [OF t(2) False, of ts, folded t(1)], of env]
    have found: "run_found_command env redirect ?c False [] = (p, evs) \<Longrightarrow>
        evs @ (if p \<noteq> [] then [Redirect_ended p] else []) = new_style env redirect False tokens" for p evs
      using ne by (auto simp: run_found_command_def new_style_def redirected_def path StartRedirect_def zero hd Let_def split: if_splits)
    have early: "redirected env ?c redirect evs =
        (case (if redirect then StartRedirect env ?c else ([], [])) of (p, evs0) \<Rightarrow> evs0 @ evs @ (if p \<noteq> [] then [Redirect_ended p] else []))" for evs
      using ne by (auto simp: redirected_def path StartRedirect_def Let_def)
    have late: "(if redirect then StartRedirect env ?c else ([], [])) = (p0, evs0) \<Longrightarrow>
        run_found_command env redirect ?c redirect p0 = (p, evs) \<Longrightarrow>
        evs0 @ evs @ (if p \<noteq> [] then [Redirect_ended p] else []) = new_style env redirect True tokens" for p0 evs0 p evs
      using ne by (auto simp: run_found_command_def new_style_def redirected_def path StartRedirect_def zero hd Let_def split: if_splits)
    consider (h) "t = ''help''" | (r) "t = ''redirect''" | (s) "t = ''source''"
      | (other) "t \<noteq> ''help''" "t \<noteq> ''redirect''" "t \<noteq> ''source''" by blast
    then show ?thesis
    proof cases
      case h
      then show ?thesis using zero slash False
        by (cases ts) (simp_all add: run_command_def perform_def t HandleHelpCommand_def TokenAt_def)
    next
      case r
      then show ?thesis using zero slash False
        by (cases ts rule: remdups_adj.cases) (auto simp: run_command_def perform_def t HandleRedirectCommand_def TokenAt_def Let_def)
    next
      case s
      then show ?thesis using zero slash False
        by (cases ts rule: remdups_adj.cases)
          (auto simp: run_command_def perform_def t HandleSourceCommand_def TokenAt_def Let_def split: option.splits)
    next
      case other
      have r: "run_command env redirect tokens =
          (case run_other_command env redirect ?c of ((path, evs), action) \<Rightarrow>
             (redirect, evs @ (if path \<noteq> [] then [Redirect_ended path] else []), action))"
        using other False slash by (simp add: run_command_def zero Let_def)
      show ?thesis
      proof (cases "map_of (commandCallbacks env) t")
        case None
        then show ?thesis using other False found
          by (simp add: r run_other_command_def zero sm_find_def perform_def hd split: prod.split)
      next
        case (Some callbacks)
        define accepted where "accepted = map (\<lambda>f. f ?c) callbacks"
        define most where "most = Max (set (0 # accepted))"
        have best: "best_callback callbacks ?c =
            (most, if most = 0 then length callbacks else length (takeWhile (\<lambda>n. n \<noteq> most) accepted))"
          by (simp only: best_callback_first Let_def accepted_def most_def)
        have p: "perform env redirect tokens =
            (if most = 0 then (redirect, Unknown_command t # new_style env redirect False tokens, Stop_scripts)
              else if most = length tokens \<or> 2 \<le> most then
                (redirect, redirected env ?c redirect [Callback_run t (length (takeWhile (\<lambda>n. n \<noteq> most) accepted)) tokens], Keep_input)
              else (redirect, new_style env redirect True tokens, Keep_input))"
          using other False Some unfolding perform_def hd option.case Let_def accepted_def most_def by simp
        obtain p0 evs0 where start: "(if redirect then StartRedirect env ?c else ([], [])) = (p0, evs0)" by fastforce
        obtain p1 evs1 where f1: "run_found_command env redirect ?c False [] = (p1, evs1)" by fastforce
        obtain p2 evs2 where f2: "run_found_command env redirect ?c redirect p0 = (p2, evs2)" by fastforce
        note other_eq = run_other_command_def zero sm_find_def Some best option.case prod.case Let_def start f1 f2
        consider (refused) "most = 0" | (all) "most \<noteq> 0" "most = length tokens \<or> 2 \<le> most"
          | (one) "most \<noteq> 0" "\<not> (most = length tokens \<or> 2 \<le> most)" by blast
        then show ?thesis
        proof cases
          case refused
          then show ?thesis using found [OF f1] unfolding r p other_eq by simp
        next
          case all
          then show ?thesis using early [of "[Callback_run t (length (takeWhile (\<lambda>n. n \<noteq> most) accepted)) tokens]"]
            unfolding r p other_eq if_not_P [OF all(1)] if_P [OF all(2)] by (simp add: start)
        next
          case one
          then show ?thesis using late [OF start f2]
            unfolding r p other_eq if_not_P [OF one(1)] if_not_P [OF one(2)] by simp
        qed
      qed
    qed
  qed
qed

section \<open>Lines as commands\<close>

text \<open>Reading the lines does not depend on the scripts, and uses at least one line until the input ends.\<close>

lemma next_line_Nil [simp]: "next_line [] = []"
  by (simp add: next_line_def)

lemma next_line_Cons: "\<exists>s'. next_line (s # sc) = s' # sc"
  by (cases s) (simp add: next_line_def)

definition same_reading ::
  "('a \<times> 'b \<times> 'c list \<times> bool) option \<Rightarrow> ('a \<times> 'b \<times> 'c list \<times> bool) option \<Rightarrow> 'c list \<Rightarrow> bool" where
  "same_reading p q sc \<longleftrightarrow>
     (case p of
        None \<Rightarrow> q = None
      | Some (ts, lines, x, ended) \<Rightarrow> x = [] \<and> (\<exists>s. q = Some (ts, lines, s # sc, ended)))"

lemma same_reading_simps [simp]:
  "same_reading None None sc" "same_reading (Some (ts, lines, [], ended)) (Some (ts, lines, s # sc, ended)) sc"
  by (simp_all add: same_reading_def)

lemma read_lines_context: "same_reading (read_lines lines [] tokens) (read_lines lines (s # sc) tokens) sc"
proof (induction lines arbitrary: s tokens)
  case (Cons line lines)
  obtain s' where s': "next_line (s # sc) = s' # sc" using next_line_Cons by blast
  let ?more = "last line = CHR 0x5C"
  define start where "start = skip_blanks (takeWhile (\<lambda>c. c \<noteq> CHR ''#'') (if ?more then butlast line else line))"
  have r: "read_lines (line # lines) sc tokens =
      (if line = [] then None
       else if start = [] then
         if tokens = [] \<or> ?more then read_lines lines (next_line sc) tokens else Some (tokens, lines, next_line sc, False)
       else case line_tokens start of
              None \<Rightarrow> None
            | Some ts \<Rightarrow> if ?more then read_lines lines (next_line sc) (tokens @ ts)
                          else Some (tokens @ ts, lines, next_line sc, False))" for sc
    by (simp add: start_def Let_def)
  show ?case unfolding r s'
    using Cons [of tokens s'] Cons [of "tokens @ ts" s' for ts]
    by (cases "line_tokens start"; cases "start = []"; cases ?more; cases "tokens = []"; cases "line = []") auto
qed simp

lemma read_lines_ended: "read_lines lines sc tokens = Some (ts, lines', sc', True) \<Longrightarrow> lines' = []"
  by (induction lines sc tokens rule: read_lines.induct) (auto simp: Let_def split: option.splits if_splits)

lemma read_lines_shorter: "read_lines lines sc tokens = Some (ts, lines', sc', False) \<Longrightarrow> length lines' < length lines"
  by (induction lines sc tokens rule: read_lines.induct)
    (auto simp: Let_def less_SucI split: option.splits if_splits)

text \<open>The commands of a script, one after the other.\<close>

function commands_of :: "string list \<Rightarrow> string list list option" where
  "commands_of lines =
     (case read_lines lines [] [] of
        None \<Rightarrow> None
      | Some (tokens, lines', sc, ended) \<Rightarrow>
          if ended then Some (if tokens = [] then [] else [tokens])
          else map_option ((#) tokens) (commands_of lines'))"
  by auto
termination by (relation "measure length") (auto dest: read_lines_shorter)

declare commands_of.simps [simp del]

section \<open>What a script does\<close>

text \<open>
  The events of a list of commands, where a script that is sourced is run in place; scripts are nested at most
  to the given depth.  The last component says that all scripts were stopped.
\<close>

fun exec :: "nat \<Rightarrow> Environment \<Rightarrow> bool \<Rightarrow> string list list \<Rightarrow> (runner_event list \<times> bool \<times> bool) option" where
  "exec n env redirect [] = Some ([], redirect, False)"
| "exec n env redirect (tokens # commands) =
     (if tokens = [] \<or> hd tokens = [] then exec n env redirect commands
      else
        case perform env redirect tokens of (redirect1, evs, action) \<Rightarrow>
          (case action of
             Stop_scripts \<Rightarrow> Some (evs, redirect1, True)
           | Keep_input \<Rightarrow>
               map_option (\<lambda>(evs', result). (evs @ evs', result)) (exec n env redirect1 commands)
           | Start_script path lines \<Rightarrow>
               (case n of
                  0 \<Rightarrow> None
                | Suc m \<Rightarrow>
                    Option.bind (commands_of lines) (\<lambda>script.
                    Option.bind (exec m env redirect1 script) (\<lambda>(evs1, redirect2, stopped).
                      if stopped then Some (evs @ evs1, redirect2, True)
                      else map_option (\<lambda>(evs', result). (evs @ evs1 @ evs', result)) (exec n env redirect2 commands))))))"

lemma exec_Cons:
  "exec n env redirect (tokens # commands) =
     (if tokens = [] \<or> hd tokens = [] then exec n env redirect commands
      else
        case run_command env redirect tokens of (redirect1, evs, action) \<Rightarrow>
          (case action of
             Stop_scripts \<Rightarrow> Some (evs, redirect1, True)
           | Keep_input \<Rightarrow>
               map_option (\<lambda>(evs', result). (evs @ evs', result)) (exec n env redirect1 commands)
           | Start_script path lines \<Rightarrow>
               (case n of
                  0 \<Rightarrow> None
                | Suc m \<Rightarrow>
                    Option.bind (commands_of lines) (\<lambda>script.
                    Option.bind (exec m env redirect1 script) (\<lambda>(evs1, redirect2, stopped).
                      if stopped then Some (evs @ evs1, redirect2, True)
                      else map_option (\<lambda>(evs', result). (evs @ evs1 @ evs', result)) (exec n env redirect2 commands))))))"
proof (cases "tokens = [] \<or> hd tokens = []")
  case False
  then have "run_command env redirect tokens = perform env redirect tokens" by (intro run_command_perform) auto
  then show ?thesis by (simp only: exec.simps)
qed (simp only: exec.simps simp_thms if_True)

declare exec.simps(2) [simp del] exec_Cons [simp]

lemmas exec_simps = exec.simps(1) exec_Cons

text \<open>The commands of the terminal go on where scripts are stopped.\<close>

fun session :: "nat \<Rightarrow> Environment \<Rightarrow> bool \<Rightarrow> string list list \<Rightarrow> (runner_event list \<times> bool) option" where
  "session n env redirect [] = Some ([], redirect)"
| "session n env redirect (tokens # commands) =
     Option.bind (exec n env redirect [tokens]) (\<lambda>(evs, redirect', stopped).
       map_option (\<lambda>(evs', redirect''). (evs @ evs', redirect'')) (session n env redirect' commands))"

lemma TokenAt_Context_new: "TokenAt (Context_new tokens) 0 = (case tokens of [] \<Rightarrow> [] | t # ts \<Rightarrow> t)"
proof -
  have "cx_tokens (sort_tokens ts name k c) = cx_tokens c" for ts name k c
    by (induction ts name k c rule: sort_tokens.induct) (auto simp: Let_def)
  then show ?thesis by (simp add: TokenAt_def Context_new_def split: list.splits)
qed

lemma command_empty: "TokenAt (Context_new tokens) 0 = [] \<longleftrightarrow> tokens = [] \<or> hd tokens = []"
  by (simp add: TokenAt_Context_new split: list.splits)

section \<open>The stack of scripts runs them in place\<close>

abbreviation in_script :: "bool \<Rightarrow> string list \<Rightarrow> string list list \<Rightarrow> string list \<Rightarrow> (string \<times> nat) list \<Rightarrow> Runner" where
  "in_script redirect lines stk term sc \<equiv>
     \<lparr>rn_redirect = redirect, rn_input = \<lparr>inputStack = lines # stk, terminal = term, scriptContext = sc\<rparr>\<rparr>"

lemma GetTokens_script:
  assumes "read_lines lines [] [] = Some (tokens, lines', x, ended)" "stk \<noteq> []"
  shows "\<exists>s'. GetTokens \<lparr>inputStack = lines # stk, terminal = term, scriptContext = s # sc\<rparr> =
           Some (if ended then \<lparr>inputStack = stk, terminal = term, scriptContext = sc\<rparr>
                 else \<lparr>inputStack = lines' # stk, terminal = term, scriptContext = s' # sc\<rparr>, tokens)"
proof -
  obtain s' where "read_lines lines (s # sc) [] = Some (tokens, lines', s' # sc, ended)"
    using read_lines_context [of lines "[]" s sc] assms(1) by (auto simp: same_reading_def)
  then show ?thesis using assms(2)
    by (auto simp: GetTokens_def IsDone_def IsInScript_def input_lines_def set_input_lines_def)
qed


text \<open>One round in a script.\<close>

lemma step_script:
  assumes "read_lines lines [] [] = Some (tokens, lines', x, ended)" "stk \<noteq> []"
  obtains s' where
    "Runner_step env (in_script redirect lines stk term (s # sc)) =
       (let i = (if ended then \<lparr>inputStack = stk, terminal = term, scriptContext = sc\<rparr>
                 else \<lparr>inputStack = lines' # stk, terminal = term, scriptContext = s' # sc\<rparr>) in
        if tokens = [] \<or> hd tokens = [] then Some (\<lparr>rn_redirect = redirect, rn_input = i\<rparr>, [], False)
        else (case run_command env redirect tokens of (redirect', evs, action) \<Rightarrow>
                Some (\<lparr>rn_redirect = redirect', rn_input = apply_action action i\<rparr>, evs, False)))"
proof -
  obtain s' where "GetTokens \<lparr>inputStack = lines # stk, terminal = term, scriptContext = s # sc\<rparr> =
           Some (if ended then \<lparr>inputStack = stk, terminal = term, scriptContext = sc\<rparr>
                 else \<lparr>inputStack = lines' # stk, terminal = term, scriptContext = s' # sc\<rparr>, tokens)"
    using GetTokens_script [OF assms, of "term" s sc] by blast
  then show thesis using assms(2)
    by (intro that [of s']) (simp add: Runner_step_def command_empty IsDone_def Let_def)
qed

definition after_events :: "runner_event list \<Rightarrow> (Runner \<times> runner_event list) option \<Rightarrow> (Runner \<times> runner_event list) option" where
  "after_events evs result = map_option (\<lambda>(r, evs'). (r, evs @ evs')) result"

lemma after_events_Nil [simp]: "after_events [] result = result"
  by (cases result) (simp_all add: after_events_def split_def)

lemma after_events_append [simp]: "after_events evs (after_events evs' result) = after_events (evs @ evs') result"
  by (cases result) (simp_all add: after_events_def split_def)

lemma RunCommands_step:
  "Runner_step env r = Some (r', evs, finished) \<Longrightarrow>
     RunCommands env r = (if finished then Some (r', evs) else after_events evs (RunCommands env r'))"
  by (subst RunCommands.simps) (cases "RunCommands env r'"; simp add: after_events_def split_def)

lemmas RunCommands_round = RunCommands_step [where finished = False, simplified]

text \<open>The state after a script: below it on the stack, or at the terminal where the scripts were stopped.\<close>

definition after_script :: "bool \<Rightarrow> bool \<Rightarrow> string list list \<Rightarrow> string list \<Rightarrow> (string \<times> nat) list \<Rightarrow> Runner" where
  "after_script stopped redirect stk term sc =
     \<lparr>rn_redirect = redirect,
      rn_input = (if stopped then \<lparr>inputStack = [last stk], terminal = term, scriptContext = []\<rparr>
                  else \<lparr>inputStack = stk, terminal = term, scriptContext = sc\<rparr>)\<rparr>"

lemma drop_last: "stk \<noteq> [] \<Longrightarrow> drop (length stk - Suc 0) stk = [last stk]"
  by (induction stk rule: rev_induct) simp_all

lemma TerminateAllScripts_stack:
  "stk \<noteq> [] \<Longrightarrow> TerminateAllScripts \<lparr>inputStack = xs @ stk, terminal = term, scriptContext = sc\<rparr> =
     \<lparr>inputStack = [last stk], terminal = term, scriptContext = []\<rparr>"
  using drop_last [of "xs @ stk"] by (simp add: TerminateAllScripts_def)


lemma commands_of_Nil:
  assumes "commands_of lines = Some []"
  obtains lines' x where "read_lines lines [] [] = Some ([], lines', x, True)"
  using assms by (subst (asm) commands_of.simps) (auto split: option.splits if_splits)

lemma commands_of_Cons:
  assumes "commands_of lines = Some (tokens # commands)"
  obtains lines' x ended where "read_lines lines [] [] = Some (tokens, lines', x, ended)"
    "if ended then commands = [] else commands_of lines' = Some commands"
  using assms by (subst (asm) commands_of.simps) (auto split: option.splits if_splits)

text \<open>One round in a script: what is left of the script, if anything, is on the stack.\<close>

lemma round_script:
  assumes "commands_of lines = Some (tokens # commands)" "stk \<noteq> []"
  obtains xs sc1 where
    "xs = [] \<and> sc1 = sc \<and> commands = [] \<or>
     (\<exists>lines' s'. xs = [lines'] \<and> sc1 = s' # sc \<and> commands_of lines' = Some commands)"
    "RunCommands env (in_script redirect lines stk term (s # sc)) =
       (let i = \<lparr>inputStack = xs @ stk, terminal = term, scriptContext = sc1\<rparr> in
        if tokens = [] \<or> hd tokens = [] then RunCommands env \<lparr>rn_redirect = redirect, rn_input = i\<rparr>
        else (case run_command env redirect tokens of (rd, evs, action) \<Rightarrow>
                after_events evs (RunCommands env \<lparr>rn_redirect = rd, rn_input = apply_action action i\<rparr>)))"
proof -
  obtain lines' x ended where r: "read_lines lines [] [] = Some (tokens, lines', x, ended)"
      and e: "if ended then commands = [] else commands_of lines' = Some commands"
    using commands_of_Cons [OF assms(1)] .
  obtain s' where st: "Runner_step env (in_script redirect lines stk term (s # sc)) =
       (let i = (if ended then \<lparr>inputStack = stk, terminal = term, scriptContext = sc\<rparr>
                 else \<lparr>inputStack = lines' # stk, terminal = term, scriptContext = s' # sc\<rparr>) in
        if tokens = [] \<or> hd tokens = [] then Some (\<lparr>rn_redirect = redirect, rn_input = i\<rparr>, [], False)
        else (case run_command env redirect tokens of (redirect', evs, action) \<Rightarrow>
                Some (\<lparr>rn_redirect = redirect', rn_input = apply_action action i\<rparr>, evs, False)))"
    using step_script [OF r assms(2)] .
  define xs where "xs = (if ended then [] else [lines'])"
  define sc1 where "sc1 = (if ended then sc else s' # sc)"
  define i where "i = \<lparr>inputStack = xs @ stk, terminal = term, scriptContext = sc1\<rparr>"
  have i: "i = (if ended then \<lparr>inputStack = stk, terminal = term, scriptContext = sc\<rparr>
               else \<lparr>inputStack = lines' # stk, terminal = term, scriptContext = s' # sc\<rparr>)"
    by (simp add: i_def xs_def sc1_def)
  have "RunCommands env (in_script redirect lines stk term (s # sc)) =
       (if tokens = [] \<or> hd tokens = [] then RunCommands env \<lparr>rn_redirect = redirect, rn_input = i\<rparr>
        else (case run_command env redirect tokens of (rd, evs, action) \<Rightarrow>
                after_events evs (RunCommands env \<lparr>rn_redirect = rd, rn_input = apply_action action i\<rparr>)))"
    using st [folded i, unfolded Let_def] by (cases "run_command env redirect tokens") (auto simp: RunCommands_round)
  moreover have "xs = [] \<and> sc1 = sc \<and> commands = [] \<or>
     (\<exists>lines' s'. xs = [lines'] \<and> sc1 = s' # sc \<and> commands_of lines' = Some commands)"
    using e by (simp add: xs_def sc1_def)
  ultimately show thesis by (intro that [of xs sc1]) (simp_all add: i_def)
qed

text \<open>What a stopped script leaves does not depend on what is above the last input.\<close>

lemma after_script_append [simp]:
  "stk \<noteq> [] \<Longrightarrow> after_script True redirect (xs @ stk) term sc1 = after_script True redirect stk term sc"
  by (simp add: after_script_def)

lemma after_script_go_on:
  "after_script False redirect stk term sc =
     \<lparr>rn_redirect = redirect, rn_input = \<lparr>inputStack = stk, terminal = term, scriptContext = sc\<rparr>\<rparr>"
  by (simp add: after_script_def)

lemma exec_refines:
  "exec n env redirect commands = Some (evs, redirect', stopped) \<Longrightarrow> commands_of lines = Some commands \<Longrightarrow> stk \<noteq> [] \<Longrightarrow>
     RunCommands env (in_script redirect lines stk term (s # sc)) =
       after_events evs (RunCommands env (after_script stopped redirect' stk term sc))"
proof (induction n arbitrary: redirect commands evs redirect' stopped lines stk s sc rule: less_induct)
  case (less n)
  show ?case using less.prems
  proof (induction commands arbitrary: redirect evs lines s)
    case Nil
    obtain lines' x where r: "read_lines lines [] [] = Some ([], lines', x, True)" using commands_of_Nil [OF Nil(2)] .
    obtain s' where "Runner_step env (in_script redirect lines stk term (s # sc)) =
       Some (after_script False redirect stk term sc, [], False)"
      using step_script [OF r Nil(3), of env redirect "term" s sc] by (auto simp: after_script_def Let_def)
    then show ?case using Nil(1) by (auto simp: RunCommands_step)
  next
    case (Cons tokens commands)
    obtain xs sc1 where x: "xs = [] \<and> sc1 = sc \<and> commands = [] \<or>
          (\<exists>lines' s'. xs = [lines'] \<and> sc1 = s' # sc \<and> commands_of lines' = Some commands)"
      and go: "RunCommands env (in_script redirect lines stk term (s # sc)) =
       (let i = \<lparr>inputStack = xs @ stk, terminal = term, scriptContext = sc1\<rparr> in
        if tokens = [] \<or> hd tokens = [] then RunCommands env \<lparr>rn_redirect = redirect, rn_input = i\<rparr>
        else (case run_command env redirect tokens of (rd, evs, action) \<Rightarrow>
                after_events evs (RunCommands env \<lparr>rn_redirect = rd, rn_input = apply_action action i\<rparr>)))"
      using round_script [OF Cons.prems(2,3), of sc env redirect "term" s] by blast
    have rest: "RunCommands env (after_script False rd (xs @ stk) term sc1) =
        after_events evs' (RunCommands env (after_script stopped redirect' stk term sc))"
      if "exec n env rd commands = Some (evs', redirect', stopped)" for rd evs'
      using x
    proof
      assume "xs = [] \<and> sc1 = sc \<and> commands = []"
      then show ?thesis using that by auto
    next
      assume "\<exists>lines' s'. xs = [lines'] \<and> sc1 = s' # sc \<and> commands_of lines' = Some commands"
      then obtain lines' s' where "xs = [lines']" "sc1 = s' # sc" "commands_of lines' = Some commands" by blast
      then show ?thesis using Cons.IH [OF that _ Cons.prems(3), of lines' s'] by (simp add: after_script_go_on)
    qed
    show ?case
    proof (cases "tokens = [] \<or> hd tokens = []")
      case True
      then show ?thesis using go rest Cons.prems(1) by (auto simp: after_script_go_on)
    next
      case False
      obtain rd1 evs1 action where c: "run_command env redirect tokens = (rd1, evs1, action)" by (cases "run_command env redirect tokens")
      note ex = Cons.prems(1) [simplified exec_simps if_not_P [OF False] c prod.case]
      note go = go [simplified Let_def if_not_P [OF False] c prod.case]
      show ?thesis
      proof (cases action)
        case Keep_input
        then obtain evs' where "exec n env rd1 commands = Some (evs', redirect', stopped)" "evs = evs1 @ evs'" using ex by auto
        then show ?thesis using go rest by (simp add: Keep_input apply_action_def after_script_go_on)
      next
        case Stop_scripts
        then have "evs = evs1" "redirect' = rd1" stopped using ex by auto
        then show ?thesis using go Cons.prems(3)
          by (simp add: Stop_scripts apply_action_def TerminateAllScripts_stack after_script_def)
      next
        case (Start_script path ls)
        obtain m where m: "n = Suc m" using ex Start_script by (cases n) auto
        obtain script evs2 rd2 stopped2 where y: "commands_of ls = Some script" "exec m env rd1 script = Some (evs2, rd2, stopped2)"
            "if stopped2 then evs = evs1 @ evs2 \<and> redirect' = rd2 \<and> stopped
             else \<exists>evs3. exec n env rd2 commands = Some (evs3, redirect', stopped) \<and> evs = evs1 @ evs2 @ evs3"
          using ex by (auto simp: Start_script m bind_eq_Some_conv split: if_splits)
        have "RunCommands env (in_script rd1 ls (xs @ stk) term ((path, 0) # sc1)) =
            after_events evs2 (RunCommands env (after_script stopped2 rd2 (xs @ stk) term sc1))"
          using less.IH [of m, OF _ y(2,1), of "xs @ stk"] Cons.prems(3) by (simp add: m)
        then show ?thesis using go y(3) rest Cons.prems(3)
          by (cases stopped2) (auto simp: Start_script apply_action_def StartScript_def after_script_append [of stk rd2 xs "term" sc1 sc])
      qed
    qed
  qed
qed


section \<open>The terminal\<close>

abbreviation at_terminal :: "bool \<Rightarrow> string list \<Rightarrow> Runner" where
  "at_terminal redirect lines \<equiv>
     \<lparr>rn_redirect = redirect, rn_input = \<lparr>inputStack = [[]], terminal = lines, scriptContext = []\<rparr>\<rparr>"

definition no_open_line :: "string list \<Rightarrow> bool" where
  "no_open_line lines \<longleftrightarrow> lines = [] \<or> last lines = [] \<or> last (last lines) \<noteq> CHR 0x5C"

lemma no_open_line_Cons: "no_open_line (line # lines) \<Longrightarrow> lines \<noteq> [] \<Longrightarrow> no_open_line lines"
  by (simp add: no_open_line_def)

text \<open>The tokens of an input that ends after a complete line are none.\<close>

lemma read_lines_complete:
  "read_lines lines sc tokens = Some (ts, lines', sc', True) \<Longrightarrow> no_open_line lines \<Longrightarrow> lines = [] \<longrightarrow> tokens = [] \<Longrightarrow> ts = []"
proof (induction lines sc tokens rule: read_lines.induct)
  case (2 line lines sc tokens)
  have l: "last line = CHR 0x5C \<Longrightarrow> line \<noteq> [] \<Longrightarrow> lines \<noteq> []" using "2.prems"(2) by (auto simp: no_open_line_def)
  have n: "no_open_line lines" using "2.prems"(2) no_open_line_Cons by (cases lines) (auto simp: no_open_line_def)
  show ?case using 2 l n by (auto simp: Let_def split: if_splits option.splits)
qed auto

lemma read_lines_suffix: "read_lines lines sc tokens = Some (ts, lines', sc', ended) \<Longrightarrow> \<exists>pre. lines = pre @ lines'"
proof (induction lines sc tokens rule: read_lines.induct)
  case (2 line lines sc tokens)
  have "(\<exists>pre. lines = pre @ lines') \<Longrightarrow> \<exists>pre. line # lines = pre @ lines'" by (metis append_Cons)
  then show ?case using 2 by (auto simp: Let_def split: if_splits option.splits)
qed auto

lemma no_open_line_suffix: "no_open_line (pre @ lines) \<Longrightarrow> no_open_line lines"
  by (cases "lines = []") (auto simp: no_open_line_def)

lemma step_terminal:
  assumes "read_lines lines [] [] = Some (tokens, lines', x, ended)" "no_open_line lines"
  shows "Runner_step env (at_terminal redirect lines) =
     (if ended then Some (\<lparr>rn_redirect = redirect, rn_input = \<lparr>inputStack = [], terminal = [], scriptContext = []\<rparr>\<rparr>, [], True)
      else if tokens = [] \<or> hd tokens = [] then Some (at_terminal redirect lines', [], False)
      else (case run_command env redirect tokens of (redirect', evs, action) \<Rightarrow>
              Some (\<lparr>rn_redirect = redirect', rn_input = apply_action action (rn_input (at_terminal redirect lines'))\<rparr>, evs, False)))"
proof -
  have x: "x = []" using read_lines_context [of lines "[]"] assms(1) by (auto simp: same_reading_def)
  have e: "tokens = [] \<and> lines' = []" if ended
    using read_lines_complete [OF _ assms(2)] read_lines_ended assms(1) that by fastforce
  show ?thesis
    using assms(1) e x
    by (cases ended) (simp_all add: Runner_step_def GetTokens_def IsDone_def IsInScript_def input_lines_def set_input_lines_def
        command_empty)
qed

lemma exec_single:
  "exec n env redirect [tokens] =
     (if tokens = [] \<or> hd tokens = [] then Some ([], redirect, False)
      else
        case run_command env redirect tokens of (redirect1, evs, action) \<Rightarrow>
          (case action of
             Stop_scripts \<Rightarrow> Some (evs, redirect1, True)
           | Keep_input \<Rightarrow> Some (evs, redirect1, False)
           | Start_script path lines \<Rightarrow>
               (case n of
                  0 \<Rightarrow> None
                | Suc m \<Rightarrow>
                    Option.bind (commands_of lines) (\<lambda>script.
                    map_option (\<lambda>(evs1, result). (evs @ evs1, result)) (exec m env redirect1 script)))))"
  by (auto split: prod.splits input_action.splits nat.splits option.splits bind_splits)

lemma session_refines:
  "session n env redirect commands = Some (evs, redirect') \<Longrightarrow> commands_of lines = Some commands \<Longrightarrow> no_open_line lines \<Longrightarrow>
     RunCommands env (at_terminal redirect lines) =
       Some (\<lparr>rn_redirect = redirect', rn_input = \<lparr>inputStack = [], terminal = [], scriptContext = []\<rparr>\<rparr>, evs)"
proof (induction commands arbitrary: redirect evs lines)
  case Nil
  obtain lines' x where r: "read_lines lines [] [] = Some ([], lines', x, True)" using commands_of_Nil [OF Nil(2)] .
  show ?case using step_terminal [OF r Nil(3), of env redirect] Nil(1) by (simp add: RunCommands_step)
next
  case (Cons tokens commands)
  obtain lines' x ended where r: "read_lines lines [] [] = Some (tokens, lines', x, ended)"
      and e: "if ended then commands = [] else commands_of lines' = Some commands"
    using commands_of_Cons [OF Cons.prems(2)] .
  have ne: "\<not> ended" if "tokens \<noteq> []" using that read_lines_complete r Cons.prems(3) by metis
  have n': "no_open_line lines'" using read_lines_suffix [OF r] Cons.prems(3) no_open_line_suffix by blast
  obtain evs1 rd1 stopped evs2 where ex: "exec n env redirect [tokens] = Some (evs1, rd1, stopped)"
      "session n env rd1 commands = Some (evs2, redirect')" "evs = evs1 @ evs2"
    using Cons.prems(1) by (auto simp: bind_eq_Some_conv simp del: exec_simps)
  note step = step_terminal [OF r Cons.prems(3), of env redirect]
  have go: "RunCommands env (at_terminal rd1 lines') = Some
     (\<lparr>rn_redirect = redirect', rn_input = \<lparr>inputStack = [], terminal = [], scriptContext = []\<rparr>\<rparr>, evs2)" if "\<not> ended"
    using Cons.IH [OF ex(2) _ n'] e that by simp
  show ?case
  proof (cases "tokens = [] \<or> hd tokens = []")
    case True
    then show ?thesis using ex step go e by (cases ended) (auto simp: RunCommands_step exec_single simp del: exec_simps)
  next
    case False
    obtain rd0 evs0 action where c: "run_command env redirect tokens = (rd0, evs0, action)" by (cases "run_command env redirect tokens")
    have s: "RunCommands env (at_terminal redirect lines) =
        after_events evs0 (RunCommands env \<lparr>rn_redirect = rd0, rn_input = apply_action action (rn_input (at_terminal redirect lines'))\<rparr>)"
      by (rule RunCommands_round) (use step ne False c in simp)
    show ?thesis
    proof (cases action)
      case (Start_script path ls)
      obtain m script evs3 where y: "n = Suc m" "commands_of ls = Some script" "exec m env rd0 script = Some (evs3, rd1, stopped)"
          "evs1 = evs0 @ evs3"
        using ex(1) False c Start_script by (cases n) (auto simp: exec_single bind_eq_Some_conv simp del: exec_simps)
      show ?thesis using s exec_refines [OF y(3,2), of "[[]]" "lines'" "(path, 0)" "[]"] go ne False y(4) ex(3)
        by (cases stopped) (simp_all add: Start_script apply_action_def StartScript_def after_script_def after_events_def)
    qed (use s ex False c go ne in \<open>auto simp: exec_single apply_action_def TerminateAllScripts_def after_events_def simp del: exec_simps\<close>)
  qed
qed


section \<open>Scripts that do not source each other in a circle\<close>

lemma run_command_source:
  assumes "run_command env redirect tokens = (redirect', evs, Start_script path lines)"
  shows "tokens = [''source'', path]" "readable env path = Some lines"
proof -
  have "length tokens = 2 \<and> TokenAt (Context_new tokens) 0 = ''source'' \<and> TokenAt (Context_new tokens) 1 = path \<and>
      readable env path = Some lines"
    using assms
    by (auto simp: run_command_def HandleSourceCommand_def HandleHelpCommand_def run_other_command_def Let_def
        split: if_splits option.splits prod.splits)
  then show "tokens = [''source'', path]" "readable env path = Some lines"
    by (auto simp: TokenAt_def length_Suc_conv numeral_2_eq_2)
qed

text \<open>Every script can be read, and sources only scripts of a smaller rank.\<close>

definition scripts_ranked :: "Environment \<Rightarrow> (string \<Rightarrow> nat) \<Rightarrow> bool" where
  "scripts_ranked env rank \<longleftrightarrow>
     (\<forall>path lines. readable env path = Some lines \<longrightarrow>
        (\<exists>commands. commands_of lines = Some commands \<and>
           (\<forall>p. [''source'', p] \<in> set commands \<longrightarrow> rank p < rank path)))"

lemma exec_ends:
  "scripts_ranked env rank \<Longrightarrow> \<forall>p. [''source'', p] \<in> set commands \<longrightarrow> rank p < n \<Longrightarrow>
     \<exists>result. exec n env redirect commands = Some result"
proof (induction n arbitrary: commands redirect rule: less_induct)
  case (less n)
  show ?case using less.prems(2)
  proof (induction commands arbitrary: redirect)
    case (Cons tokens commands)
    have rest: "\<exists>evs rd stopped. exec n env redirect commands = Some (evs, rd, stopped)" for redirect
      using Cons by (metis list.set_intros(2) prod_cases3)
    obtain rd1 evs action where c: "run_command env redirect tokens = (rd1, evs, action)" by (cases "run_command env redirect tokens")
    show ?case
    proof (cases action)
      case (Start_script path lines)
      note s = run_command_source [OF c [unfolded Start_script]]
      have r: "rank path < n" using Cons.prems by (simp add: s(1))
      obtain m where m: "n = Suc m" using r by (cases n) auto
      obtain script where y: "commands_of lines = Some script" "\<forall>p. [''source'', p] \<in> set script \<longrightarrow> rank p < rank path"
        using less.prems(1) s(2) unfolding scripts_ranked_def by blast
      have "\<exists>result. exec m env rd1 script = Some result"
        by (rule less.IH [OF _ less.prems(1)]) (use m r y(2) less_trans_Suc in fastforce)+
      then obtain evs1 rd2 stopped where "exec m env rd1 script = Some (evs1, rd2, stopped)" by auto
      then show ?thesis using rest [of redirect] rest [of rd2] c y(1) by (auto simp: Start_script m)
    qed (use rest [of redirect] rest [of rd1] c in auto)
  qed auto
qed

lemma session_ends:
  assumes "scripts_ranked env rank" "\<forall>p. [''source'', p] \<in> set commands \<longrightarrow> rank p < n"
  shows "\<exists>evs redirect'. session n env redirect commands = Some (evs, redirect')"
  using assms(2)
proof (induction commands arbitrary: redirect)
  case (Cons tokens commands)
  obtain evs rd stopped where "exec n env redirect [tokens] = Some (evs, rd, stopped)"
    using exec_ends [OF assms(1), of "[tokens]" n redirect] Cons.prems by (metis list.set_intros(1) prod_cases3 set_ConsD list.distinct(1) list.set(1) empty_iff)
  moreover obtain evs' rd' where "session n env rd commands = Some (evs', rd')" using Cons.IH [of rd] Cons.prems by auto
  ultimately show ?case by (simp del: exec_simps)
qed simp

section \<open>A program that is read back\<close>

text \<open>A command in the source: lines without tokens, lines that are continued, and the last line.\<close>

type_synonym source_command = "source_line list \<times> source_line list \<times> source_line"

definition command_tokens :: "source_command \<Rightarrow> string list" where
  "command_tokens c = (case c of (empties, continued, l) \<Rightarrow> concat (map line_items continued) @ line_items l)"

definition command_lines :: "source_command \<Rightarrow> string list" where
  "command_lines c =
     (case c of (empties, continued, l) \<Rightarrow>
        map line_text empties @ map (\<lambda>l. line_text l @ [CHR 0x5C]) continued @ [line_text l])"

definition command_ok :: "source_command \<Rightarrow> bool" where
  "command_ok c =
     (case c of (empties, continued, l) \<Rightarrow>
        list_all (\<lambda>l. line_ok l \<and> plain_end l \<and> line_items l = []) empties \<and> list_all line_ok continued \<and>
        line_ok l \<and> plain_end l \<and> command_tokens c \<noteq> [])"

lemma read_command:
  assumes "command_ok c"
  shows "\<exists>sc'. read_lines (command_lines c @ lines) sc [] = Some (command_tokens c, lines, sc', False)"
proof -
  obtain empties continued l where c: "c = (empties, continued, l)" by (cases c)
  have ok: "list_all (\<lambda>l. line_ok l \<and> plain_end l \<and> line_items l = []) empties" "list_all line_ok continued"
    "line_ok l" "plain_end l" "concat (map line_items continued) @ line_items l \<noteq> []"
    using assms by (simp_all add: command_ok_def command_tokens_def c)
  show ?thesis using read_lines_last [OF ok(3-5)]
    by (simp add: c command_lines_def command_tokens_def read_lines_empty [OF ok(1)] read_lines_continued [OF ok(2)])
qed


section \<open>Properties\<close>

text \<open>
  C36: The commands of a script are read back as they are written.  Blanks, tabs and non-breaking blanks before, between
  and behind the tokens, comments, lines of nothing but these before a command, and the division of a command into
  lines that are continued with a backslash do not change the tokens of the commands, their order, or where one
  command ends and the next begins.  Tokens hold no blanks, no # and no byte C2, and no line is empty: lines without
  tokens hold a blank or a comment, since an empty line is read outside of its string, as
  \<open>read_lines_empty_line\<close> shows.
\<close>

theorem commands_read_back:
  assumes "list_all command_ok cs"
  shows "commands_of (concat (map command_lines cs)) = Some (map command_tokens cs)"
  using assms
proof (induction cs)
  case Nil
  then show ?case by (simp add: commands_of.simps)
next
  case (Cons c cs)
  obtain sc' where "read_lines (command_lines c @ concat (map command_lines cs)) [] [] =
      Some (command_tokens c, concat (map command_lines cs), sc', False)"
    using read_command [of c] Cons.prems by force
  then show ?case using Cons by (subst commands_of.simps) simp
qed

text \<open>A comment and a line of two blanks, \<open>source a\<close> with a non-breaking blank, and a command of two lines.\<close>

definition two_commands :: "source_command list" where
  "two_commands =
     [([([], '' '', ''# c''), ([], ''  '', [])], [], ([([], ''source''), ([byte_C2, byte_A0], ''a'')], [], [])),
      ([], [([('' '', ''list'')], '' '', ''#x'')], ([([], ''used'')], '' '', []))]"

theorem commands_read_back_witness:
  "commands_of ['' # c'', ''  '', ''source'' @ [byte_C2, byte_A0] @ ''a'', '' list #x'' @ [CHR 0x5C], ''used ''] =
     Some [[''source'', ''a''], [''list'', ''used'']]"
proof -
  have "list_all command_ok two_commands"
    by (simp add: two_commands_def command_ok_def command_tokens_def line_ok_def line_text_def plain_end_def is_token_def
        is_blank_def skip_blanks.simps)
  from commands_read_back [OF this] show ?thesis
    by (simp add: two_commands_def command_lines_def command_tokens_def line_text_def)
qed

text \<open>
  C37: A context sorts the tokens of a command back into its arguments: the positional arguments are kept in order, each
  switch has its values in order, there are no others, no switch is ill formed, and a Boolean switch is true or
  false if all of its values say so, unchanged if it does not occur, and refused otherwise.
\<close>

theorem Context_sorts:
  assumes "argument_ok (Positional_argument command)" "list_all argument_ok as"
  defines "c \<equiv> Context_new (command # concat (map argument_tokens as))"
  shows "positionalArguments c = command # positionals as \<and> \<not> hasIllFormedSwitch c \<and>
         (\<forall>name. GetNumArguments c name = length (switch_values name as) \<and>
           (\<forall>k < length (switch_values name as). Argument c name k = switch_values name as ! k) \<and>
           (\<forall>value. ParseBooleanSwitch c name value =
             (case switch_values name as of
                [] \<Rightarrow> Some value
              | vs \<Rightarrow> if set vs = {''true''} then Some True else if set vs = {''false''} then Some False else None)))"
proof -
  let ?c0 = "\<lparr>cx_tokens = command # concat (map argument_tokens as), positionalArguments = [command],
              switchedArguments = [], hasIllFormedSwitch = False\<rparr>"
  have "\<not> (command \<noteq> [] \<and> command ! 0 = CHR ''/'')" using assms(1) by (cases command) (auto simp: argument_ok_def)
  then have c: "c = sort_tokens (concat (map argument_tokens as)) [] 1 ?c0"
    by (auto simp: c_def Context_new_def)
  have s: "positionalArguments c = command # positionals as" "\<not> hasIllFormedSwitch c"
    "\<And>n. switch_entry (switchedArguments c) n = switch_values n as" "\<And>n. sm_find (switchedArguments c) n \<noteq> Some []"
    using sort_arguments [OF assms(2), of ?c0 1] by (simp_all add: c switch_entry_def)
  have f: "sm_find (switchedArguments c) n = (if switch_values n as = [] then None else Some (switch_values n as))" for n
    using s(3,4) [of n] by (auto simp: switch_entry_def split: option.splits)
  have "ParseBooleanSwitch c name value =
      (case switch_values name as of
         [] \<Rightarrow> Some value
       | vs \<Rightarrow> if set vs = {''true''} then Some True else if set vs = {''false''} then Some False else None)" for name "value"
    by (cases "switch_values name as") (simp_all add: ParseBooleanSwitch_def f boolean_arguments_result)
  then show ?thesis
    by (simp add: s(1,2) GetNumArguments_def Argument_def f)
qed

theorem Context_sorts_witness:
  "positionalArguments (Context_new [''list'', ''/extend'', ''a->b'', ''used'', ''/x'', ''true'']) = [''list'', ''used''] \<and>
   ParseBooleanSwitch (Context_new [''list'', ''/extend'', ''a->b'', ''used'', ''/x'', ''true'']) ''x'' False = Some True"
  using Context_sorts [of "''list''" "[Switch_argument ''extend'' ''a->b'', Positional_argument ''used'', Switch_argument ''x'' ''true'']"]
  by (simp add: argument_ok_def argument_tokens_def positionals_def switch_values_def)

text \<open>
  C38: The loop over the commands ends and does what the commands are for, one after the other, where its stack of
  inputs runs each script in place of the command that sources it.  Redirection that a script turns on stays on, and
  a command whose callbacks all refuse it ends all scripts but not the commands of the terminal, as \<open>perform\<close> and
  \<open>session\<close> say.  This holds under four conditions: the scripts that can be read do not source each other in a
  circle; each of them, and the input of the terminal, can be split into commands, so that it has no empty line and no
  line whose tokens the loop does not leave, as it does not leave a last token that ends with a lone byte C2
  (\<open>line_tokens_lone\<close>); the input of the terminal does not end with a line that is to be continued; and the bound on
  the depth of the scripts is above the ranks of those that the terminal sources.
\<close>

theorem RunCommands_scripts:
  assumes "scripts_ranked env rank" "commands_of lines = Some commands" "no_open_line lines"
    "\<forall>p. [''source'', p] \<in> set commands \<longrightarrow> rank p < n"
  shows "\<exists>evs redirect. session n env False commands = Some (evs, redirect) \<and>
           RunCommands env (Runner_new lines) =
             Some (\<lparr>rn_redirect = redirect, rn_input = \<lparr>inputStack = [], terminal = [], scriptContext = []\<rparr>\<rparr>, evs)"
proof -
  obtain evs redirect where s: "session n env False commands = Some (evs, redirect)"
    using session_ends [OF assms(1,4)] by blast
  then show ?thesis using session_refines [OF s assms(2,3)] by (auto simp: Runner_new_def)
qed

text \<open>A script that turns the redirection on and sources another one, which has an unknown old-style command.\<close>

definition two_scripts :: Environment where
  "two_scripts =
     \<lparr>readable = (\<lambda>path. if path = ''a'' then Some [''redirect on'', ''source b'', ''list x'']
                  else if path = ''b'' then Some [''list y'', ''string''] else None),
      writable = (\<lambda>path. True), redirectPrefix = ''p'', commandCallbacks = [(''string'', [\<lambda>c. 0])], commandNames = [''list'']\<rparr>"


theorem RunCommands_scripts_witness:
  "map_option (\<lambda>(r, evs). (rn_redirect r, evs)) (RunCommands two_scripts (Runner_new [''source a'', ''count z''])) =
     Some (True,
       [Redirect_started ''p.list_y'', Command_run ''list'' (Context_new [''list'', ''y'']), Redirect_ended ''p.list_y'',
        Unknown_command ''string'', Not_recognized ''string'', Not_recognized ''count''])"
proof -
  let ?rank = "\<lambda>p :: string. if p = ''a'' then 1 else 0 :: nat"

  have c: "commands_of [''redirect on'', ''source b'', ''list x''] = Some [[''redirect'', ''on''], [''source'', ''b''], [''list'', ''x'']]"
    "commands_of [''list y'', ''string''] = Some [[''list'', ''y''], [''string'']]"
    "commands_of [''source a'', ''count z''] = Some [[''source'', ''a''], [''count'', ''z'']]"
    by (simp_all add: commands_of.simps line_tokens.simps token_end.simps skip_blanks.simps is_blank_def)
  have r: "scripts_ranked two_scripts ?rank"
    by (auto simp: scripts_ranked_def two_scripts_def c)
  have "session 2 two_scripts False [[''source'', ''a''], [''count'', ''z'']] =
     Some ([Redirect_started ''p.list_y'', Command_run ''list'' (Context_new [''list'', ''y'']), Redirect_ended ''p.list_y'',
        Unknown_command ''string'', Not_recognized ''string'', Not_recognized ''count''], True)"
    by (simp add: eval_nat_numeral exec.simps(2) perform_def Let_def new_style_def redirected_def output_path_def
        two_scripts_def Context_new_def Argument_def sm_find_def c del: exec_Cons)
  then show ?thesis
    using RunCommands_scripts [OF r c(3), of 2] by (auto simp: no_open_line_def)
qed

end
