(* ===== verification/Text_Patterns.thy ===== *)
theory Text_Patterns
  imports Chap_Prelude
begin

text \<open>
  Regular expressions of ECMAScript, as \<open>std::regex_match\<close> uses them: a matcher gives all ways to match a beginning of
  a string, with what it captures and what is left, in the order in which they are tried; the first one that
  leaves nothing is the match.  This is the language's own library, so nothing here maps to a line of chap.
\<close>

section \<open>Matchers\<close>

type_synonym 'a matcher = "string \<Rightarrow> ('a \<times> string) list"

text \<open>Characters of a class, any number or at least one, the most first.\<close>

definition m_star :: "(char \<Rightarrow> bool) \<Rightarrow> string matcher" where
  "m_star p s = map (\<lambda>n. (take n s, drop n s)) (rev [0..<Suc (length (takeWhile p s))])"

definition m_plus :: "(char \<Rightarrow> bool) \<Rightarrow> string matcher" where
  "m_plus p s = map (\<lambda>n. (take n s, drop n s)) (rev [1..<Suc (length (takeWhile p s))])"

definition m_text :: "string \<Rightarrow> 'a \<Rightarrow> 'a matcher" where
  "m_text t a s = (if take (length t) s = t then [(a, drop (length t) s)] else [])"

definition m_opt :: "'a matcher \<Rightarrow> 'a option matcher" where
  "m_opt m s = map (\<lambda>(a, r). (Some a, r)) (m s) @ [(None, s)]"

definition m_seq :: "'a matcher \<Rightarrow> ('a \<Rightarrow> 'b matcher) \<Rightarrow> 'b matcher" where
  "m_seq m f s = concat (map (\<lambda>(a, r). f a r) (m s))"

definition m_alt :: "'a matcher list \<Rightarrow> 'a matcher" where
  "m_alt ms s = concat (map (\<lambda>m. m s) ms)"

definition m_done :: "'a \<Rightarrow> 'a matcher" where
  "m_done a s = [(a, s)]"

fun first_some :: "'a option list \<Rightarrow> 'a option" where
  "first_some [] = None"
| "first_some (None # xs) = first_some xs"
| "first_some (Some x # xs) = Some x"

definition regex_match :: "'a matcher \<Rightarrow> string \<Rightarrow> 'a option" where
  "regex_match m s = first_some (map (\<lambda>(a, r). if r = [] then Some a else None) (m s))"

text \<open>The class \<open>\w\<close>.\<close>

definition is_word :: "char \<Rightarrow> bool" where
  "is_word c \<longleftrightarrow>
     (let n = of_char c :: nat in 48 \<le> n \<and> n \<le> 57 \<or> 65 \<le> n \<and> n \<le> 90 \<or> 97 \<le> n \<and> n \<le> 122 \<or> n = 95)"

section \<open>The first match\<close>

lemma first_some_append: "first_some (xs @ ys) = (case first_some xs of None \<Rightarrow> first_some ys | Some x \<Rightarrow> Some x)"
  by (induction xs rule: first_some.induct) auto

lemma first_some_concat: "first_some (concat xss) = first_some (map first_some xss)"
  by (induction xss) (auto simp: first_some_append split: option.splits)

lemma first_some_None: "first_some xs = None \<longleftrightarrow> (\<forall>x\<in>set xs. x = None)"
  by (induction xs rule: first_some.induct) auto

lemma first_some_upt:
  assumes "lo \<le> k" "k < hi" "g k = Some x" "\<And>n. k < n \<Longrightarrow> n < hi \<Longrightarrow> g n = None"
  shows "first_some (map g (rev [lo..<hi])) = Some x"
proof -
  have "[lo..<hi] = [lo..<k] @ k # [Suc k..<hi]"
    using upt_add_eq_append [OF assms(1), of "hi - k"] assms(2) by (simp add: upt_conv_Cons)
  moreover have "first_some (map g (rev [Suc k..<hi])) = None" using assms(4) by (auto simp: first_some_None)
  ultimately show ?thesis using assms(3) by (simp add: first_some_append)
qed

lemma match_seq: "regex_match (m_seq m f) s = first_some (map (\<lambda>(a, r). regex_match (f a) r) (m s))"
  by (simp add: regex_match_def m_seq_def map_concat first_some_concat comp_def split_def)

lemma match_done [simp]: "regex_match (m_done a) s = (if s = [] then Some a else None)"
  by (simp add: regex_match_def m_done_def)

lemma length_takeWhile_stop:
  "list_all p t \<Longrightarrow> r = [] \<or> \<not> p (hd r) \<Longrightarrow> length (takeWhile p (t @ r)) = length t"
  by (induction t) (cases r; auto)+

text \<open>The characters of a class before a text that is matched by the rest, if no longer choice is.\<close>

lemma match_star:
  assumes "list_all p t" "regex_match (f t) r = Some x"
    and "\<And>n. 0 < n \<Longrightarrow> n \<le> length (takeWhile p r) \<Longrightarrow> regex_match (f (t @ take n r)) (drop n r) = None"
  shows "regex_match (m_seq (m_star p) f) (t @ r) = Some x"
proof -
  have l: "length (takeWhile p (t @ r)) = length t + length (takeWhile p r)"
    using assms(1) by (simp add: list_all_iff takeWhile_append)
  have "first_some (map (\<lambda>n. regex_match (f (take n (t @ r))) (drop n (t @ r))) (rev [0..<Suc (length t + length (takeWhile p r))])) = Some x"
  proof (rule first_some_upt [where k = "length t"])
    fix n assume n: "length t < n" "n < Suc (length t + length (takeWhile p r))"
    show "regex_match (f (take n (t @ r))) (drop n (t @ r)) = None" using assms(3) [of "n - length t"] n by simp
  qed (use assms(2) in simp_all)
  then show ?thesis by (simp add: match_seq m_star_def l comp_def)
qed

lemma match_star_stop:
  assumes "list_all p t" "r = [] \<or> \<not> p (hd r)" "regex_match (f t) r = Some x"
  shows "regex_match (m_seq (m_star p) f) (t @ r) = Some x"
  by (rule match_star [where f = f, OF assms(1,3)]) (use assms(2) in \<open>cases r; auto\<close>)

lemma match_plus_stop:
  assumes "list_all p t" "t \<noteq> []" "r = [] \<or> \<not> p (hd r)" "regex_match (f t) r = Some x"
  shows "regex_match (m_seq (m_plus p) f) (t @ r) = Some x"
proof -
  have l: "length (takeWhile p (t @ r)) = length t" using length_takeWhile_stop [OF assms(1,3)] .
  have "first_some (map (\<lambda>n. regex_match (f (take n (t @ r))) (drop n (t @ r))) (rev [1..<Suc (length t)])) = Some x"
    by (rule first_some_upt [where k = "length t"]) (use assms in \<open>auto simp: Suc_le_eq\<close>)
  then show ?thesis unfolding match_seq m_plus_def l by (simp add: comp_def)
qed

lemma match_text: "regex_match (m_seq (m_text t a) f) (t @ r) = regex_match (f a) r"
  by (simp add: match_seq m_text_def split: option.splits) (cases "regex_match (f a) r"; simp)

lemma match_opt:
  "regex_match (m_seq (m_opt m) f) s =
     (case regex_match (m_seq m (\<lambda>a. f (Some a))) s of None \<Rightarrow> regex_match (f None) s | Some x \<Rightarrow> Some x)"
  by (simp add: match_seq m_opt_def first_some_append comp_def split_def split: option.splits)
    (cases "regex_match (f None) s"; simp)

lemma m_seq_assoc: "m_seq (m_seq m f) g = m_seq m (\<lambda>a. m_seq (f a) g)"
proof
  fix s
  have "concat (map (\<lambda>(a, r). g a r) (concat (map (\<lambda>(a, r). f a r) xs))) =
      concat (map (\<lambda>(a, r). concat (map (\<lambda>(a, r). g a r) (f a r))) xs)" for xs
    by (induction xs) auto
  then show "m_seq (m_seq m f) g s = m_seq m (\<lambda>a. m_seq (f a) g) s" by (simp add: m_seq_def)
qed

end
