(* ===== verification/Extended_Rules.thy ===== *)
theory Extended_Rules
  imports Extended_Members Command_Runner Text_Patterns
begin

text \<open>
  How ExtendedVisitor.h makes its rules from the arguments of the switch \<open>/extend\<close>: the regular expression of an
  argument, the numbers of the states, and the counting sort that puts the rules of a state next to each other.
  The two sets of edges of the image exist.
\<close>

section \<open>The text of a rule\<close>

datatype direction = Outgoing_direction | Leaked_direction | Incoming_direction

record Extension_match =
  em_member :: string
  em_memberOffset :: "string option"
  em_direction :: direction
  em_extension :: string
  em_extensionOffset :: "string option"
  em_label :: "string option"

definition m_offset :: "string option matcher" where
  "m_offset = m_opt (m_seq (m_text ''@'' ()) (\<lambda>_. m_plus is_xdigit))"

definition m_direction :: "direction matcher" where
  "m_direction = m_alt [m_text ''->'' Outgoing_direction, m_text ''~>'' Leaked_direction, m_text ''<-'' Incoming_direction]"

definition m_label :: "string option matcher" where
  "m_label = m_opt (m_seq (m_text ''=>'' ()) (\<lambda>_. m_plus is_word))"

definition extensionRegex :: "Extension_match matcher" where
  "extensionRegex =
     m_seq (m_star (\<lambda>c. c \<noteq> CHR ''@'')) (\<lambda>member.
     m_seq m_offset (\<lambda>memberOffset.
     m_seq m_direction (\<lambda>direction.
     m_seq (m_star (\<lambda>c. c \<noteq> CHR ''@'' \<and> c \<noteq> CHR ''='')) (\<lambda>ext.
     m_seq m_offset (\<lambda>extensionOffset.
     m_seq m_label (\<lambda>label.
     m_done \<lparr>em_member = member, em_memberOffset = memberOffset, em_direction = direction, em_extension = ext,
             em_extensionOffset = extensionOffset, em_label = label\<rparr>))))))"

section \<open>The arguments\<close>

record Specification =
  sp_offsetInMember :: addr
  sp_offsetInExtension :: addr
  sp_useOffsetInMember :: bool
  sp_useOffsetInExtension :: bool
  sp_referenceIsOutgoing :: bool
  sp_extensionMustBeLeaked :: bool
  sp_memberSignature :: string
  sp_extensionSignature :: string
  sp_baseState :: nat
  sp_newState :: nat

text \<open>An offset that is given, and whether it is in error.\<close>

definition read_offset :: "string option \<Rightarrow> bool \<times> addr \<times> bool" where
  "read_offset t =
     (case t of
        None \<Rightarrow> (False, 0, False)
      | Some digits \<Rightarrow> (case read_hex digits of Some offset \<Rightarrow> (True, offset, False) | None \<Rightarrow> (True, 0, True)))"

definition Specification_new :: "Extension_match \<Rightarrow> nat \<Rightarrow> Specification \<times> bool" where
  "Specification_new m stateIndex =
     (case read_offset (em_memberOffset m) of (useMember, member, error1) \<Rightarrow>
        case read_offset (em_extensionOffset m) of (useExtension, inExtension, error2) \<Rightarrow>
          (\<lparr>sp_offsetInMember = member, sp_offsetInExtension = inExtension, sp_useOffsetInMember = useMember,
            sp_useOffsetInExtension = useExtension, sp_referenceIsOutgoing = em_direction m \<noteq> Incoming_direction,
            sp_extensionMustBeLeaked = (em_direction m = Leaked_direction), sp_memberSignature = em_member m,
            sp_extensionSignature = em_extension m, sp_baseState = 0, sp_newState = stateIndex\<rparr>,
           error1 \<or> error2))"

type_synonym label_map = "(string, nat) std_map"

text \<open>The state of a label, which is new if the label is.\<close>

definition state_of_label :: "string \<Rightarrow> string list \<times> label_map \<Rightarrow> nat \<times> string list \<times> label_map" where
  "state_of_label label = (\<lambda>(labels, states).
     (case sm_find states label of
        Some stateIndex \<Rightarrow> (stateIndex, labels, states)
      | None \<Rightarrow> (length states, labels @ [label], sm_assign label (length states) states)))"

fun read_specifications ::
  "string list \<Rightarrow> string list \<times> label_map \<Rightarrow> (string list \<times> label_map) \<times> Specification list \<times> bool" where
  "read_specifications [] known = (known, [], False)"
| "read_specifications (extensionRule # extensionRules) known =
     (case regex_match extensionRegex extensionRule of
        None \<Rightarrow>
          (case read_specifications extensionRules known of (known', specs, errors) \<Rightarrow> (known', specs, True))
      | Some m \<Rightarrow>
          (case state_of_label (case em_label m of None \<Rightarrow> [] | Some l \<Rightarrow> l) known of (stateIndex, known1) \<Rightarrow>
             case Specification_new m stateIndex of (spec, error) \<Rightarrow>
               case read_specifications extensionRules known1 of (known', specs, errors) \<Rightarrow>
                 (known', spec # specs, error \<or> errors)))"

section \<open>The order of the rules\<close>

text \<open>A label in the place of a signature is the state in which the rule applies.\<close>

definition with_base :: "label_map \<Rightarrow> Specification \<Rightarrow> Specification" where
  "with_base states spec =
     (if sp_memberSignature spec \<noteq> [] then
        (case sm_find states (sp_memberSignature spec) of
           Some s \<Rightarrow> spec\<lparr>sp_baseState := s, sp_memberSignature := []\<rparr>
         | None \<Rightarrow> spec)
      else spec)"

definition state_counts :: "nat \<Rightarrow> nat list \<Rightarrow> nat list" where
  "state_counts numStates bases = foldl (\<lambda>cs s. cs[s := cs ! s + 1]) (replicate (numStates + 1) 0) bases"

definition state_limits :: "nat \<Rightarrow> nat list \<Rightarrow> nat list" where
  "state_limits numStates cs = foldl (\<lambda>c i. c[i := c ! i + c ! (i - 1)]) cs [1..<numStates + 1]"

definition place_rules :: "nat list \<Rightarrow> nat list \<Rightarrow> nat list \<times> nat list" where
  "place_rules bases stateLimits =
     foldl (\<lambda>(c, order) i. let k = c ! (bases ! i) - 1 in (c[bases ! i := k], order[k := i]))
       (stateLimits, replicate (length bases) 0) (rev [0..<length bases])"

section \<open>The rules\<close>

definition Rule_new :: "ProcessImage \<Rightarrow> Specification \<Rightarrow> Rule option" where
  "Rule_new img spec =
     Option.bind (SignatureChecker_new img (sp_memberSignature spec)) (\<lambda>memberChecker.
     Option.bind (SignatureChecker_new img (sp_extensionSignature spec)) (\<lambda>extensionChecker.
       Some \<lparr>offsetInMember = sp_offsetInMember spec, offsetInExtension = sp_offsetInExtension spec,
             useOffsetInMember = sp_useOffsetInMember spec, useOffsetInExtension = sp_useOffsetInExtension spec,
             referenceIsOutgoing = sp_referenceIsOutgoing spec, extensionMustBeLeaked = sp_extensionMustBeLeaked spec,
             memberSignatureChecker = memberChecker, extensionSignatureChecker = extensionChecker,
             baseState = sp_baseState spec, newState = sp_newState spec\<rparr>))"

definition rule_unknown :: "bool \<Rightarrow> Rule \<Rightarrow> bool" where
  "rule_unknown allowMissing rule \<longleftrightarrow>
     UnrecognizedSignature (memberSignatureChecker rule) \<and> \<not> allowMissing \<or>
     UnrecognizedPattern (memberSignatureChecker rule) \<or>
     UnrecognizedSignature (extensionSignatureChecker rule) \<and> \<not> allowMissing \<or>
     UnrecognizedPattern (extensionSignatureChecker rule)"

fun Rules_new :: "ProcessImage \<Rightarrow> Specification list \<Rightarrow> Rule list option" where
  "Rules_new img [] = Some []"
| "Rules_new img (spec # specs) =
     Option.bind (Rule_new img spec) (\<lambda>rule. map_option ((#) rule) (Rules_new img specs))"

text \<open>A Boolean switch with its default false, and whether it is in error.\<close>

definition boolean_switch :: "Context \<Rightarrow> string \<Rightarrow> bool \<times> bool" where
  "boolean_switch c name =
     (case ParseBooleanSwitch c name False of None \<Rightarrow> (False, True) | Some b \<Rightarrow> (b, False))"

definition switch_arguments :: "Context \<Rightarrow> string \<Rightarrow> string list" where
  "switch_arguments c name = map (Argument c name) [0..<GetNumArguments c name]"

definition ProcessExtendArguments :: "ProcessImage \<Rightarrow> Context \<Rightarrow> ExtendedVisitor \<Rightarrow> ExtendedVisitor option" where
  "ProcessExtendArguments img c ev =
     (case boolean_switch c ''commentExtensions'' of (comment, error1) \<Rightarrow>
      case boolean_switch c ''skipTaintedReferences'' of (skipTainted, error2) \<Rightarrow>
      case boolean_switch c ''skipUnfavoredReferences'' of (skipUnfavored, error3) \<Rightarrow>
      case read_specifications (switch_arguments c ''extend'') ([[]], [([], 0)]) of
        ((labels, states), specifications, error4) \<Rightarrow>
          let specs = map (with_base states) specifications;
              numStates = length states;
              bases = map sp_baseState specs in
          case place_rules bases (state_limits numStates (state_counts numStates bases)) of
            (toBase, ruleIndexToArgumentIndex) \<Rightarrow>
              (case Rules_new img (map ((!) specs) ruleIndexToArgumentIndex) of
                 None \<Rightarrow> None
               | Some rules \<Rightarrow>
                   let errors = (error1 \<or> error2 \<or> error3 \<or> error4 \<or> list_ex (rule_unknown (allowMissingSignatures ev)) rules) in
                   if \<not> errors \<and> rules = [] then None
                   else
                     Some (ev\<lparr>commentExtensions := comment, ev_skipTaintedReferences := skipTainted,
                              ev_skipUnfavoredReferences := skipUnfavored, stateLabels := labels,
                              labelToStateNumber := states, stateToBase := toBase, ev_rules := rules,
                              hasErrors := (hasErrors ev \<or> errors \<or> rules \<noteq> [] \<and> \<not> errors \<and> baseState (rules ! 0) \<noteq> 0)\<rparr>)))"

section \<open>The text of a rule is read back\<close>

definition direction_text :: "direction \<Rightarrow> string" where
  "direction_text d =
     (case d of Outgoing_direction \<Rightarrow> ''->'' | Leaked_direction \<Rightarrow> ''~>'' | Incoming_direction \<Rightarrow> ''<-'')"

definition offset_text :: "string option \<Rightarrow> string" where
  "offset_text t = (case t of None \<Rightarrow> [] | Some digits \<Rightarrow> ''@'' @ digits)"

definition label_text :: "string option \<Rightarrow> string" where
  "label_text t = (case t of None \<Rightarrow> [] | Some label \<Rightarrow> ''=>'' @ label)"

definition extension_text :: "Extension_match \<Rightarrow> string" where
  "extension_text m =
     em_member m @ offset_text (em_memberOffset m) @ direction_text (em_direction m) @ em_extension m @
     offset_text (em_extensionOffset m) @ label_text (em_label m)"

definition offset_digits :: "string option \<Rightarrow> bool" where
  "offset_digits t = (case t of None \<Rightarrow> True | Some digits \<Rightarrow> digits \<noteq> [] \<and> list_all is_xdigit digits)"

text \<open>
  The parts of a rule: the two names have none of the characters that end them, and the last direction in the
  text is the one that is meant.
\<close>

definition extension_ok :: "Extension_match \<Rightarrow> bool" where
  "extension_ok m \<longleftrightarrow>
     list_all (\<lambda>c. c \<noteq> CHR ''@'') (em_member m) \<and> offset_digits (em_memberOffset m) \<and>
     list_all (\<lambda>c. c \<noteq> CHR ''@'' \<and> c \<noteq> CHR ''='') (em_extension m) \<and> offset_digits (em_extensionOffset m) \<and>
     (case em_label m of None \<Rightarrow> True | Some label \<Rightarrow> label \<noteq> [] \<and> list_all is_word label) \<and>
     list_all (\<lambda>k. m_direction (drop k (direction_text (em_direction m) @ em_extension m)) = [])
       [1..<length (direction_text (em_direction m) @ em_extension m)]"

lemma match_offset:
  assumes "offset_digits t" "r = [] \<or> \<not> is_xdigit (hd r) \<and> hd r \<noteq> CHR ''@''" "regex_match (f t) r = Some x"
  shows "regex_match (m_seq m_offset f) (offset_text t @ r) = Some x"
proof (cases t)
  case None
  have "m_text ''@'' () r = []" using assms(2) by (cases r) (auto simp: m_text_def)
  then show ?thesis using assms(3)
    by (simp add: m_offset_def match_opt m_seq_assoc offset_text_def None) (simp add: match_seq)
next
  case (Some digits)
  have d: "list_all is_xdigit digits" "digits \<noteq> []" "r = [] \<or> \<not> is_xdigit (hd r)" using assms(1,2) by (auto simp: offset_digits_def Some)
  have "regex_match (m_seq (m_plus is_xdigit) (\<lambda>a. f (Some a))) (digits @ r) = Some x"
    by (rule match_plus_stop [where f = "\<lambda>a. f (Some a)", OF d]) (use assms(3) in \<open>simp add: Some\<close>)
  then show ?thesis
    using match_text [of "''@''" "()" "\<lambda>_. m_seq (m_plus is_xdigit) (\<lambda>a. f (Some a))" "digits @ r"]
    by (simp add: m_offset_def match_opt m_seq_assoc offset_text_def Some)
qed

lemma match_direction: "regex_match (m_seq m_direction f) (direction_text d @ r) = regex_match (f d) r"
proof -
  have "m_direction (direction_text d @ r) = [(d, r)]" by (cases d) (simp_all add: m_direction_def m_alt_def m_text_def direction_text_def)
  then show ?thesis by (cases "regex_match (f d) r") (simp_all add: match_seq)
qed

lemma match_label:
  assumes "case t of None \<Rightarrow> True | Some label \<Rightarrow> label \<noteq> [] \<and> list_all is_word label" "regex_match (f t) [] = Some x"
  shows "regex_match (m_seq m_label f) (label_text t) = Some x"
proof (cases t)
  case None
  then show ?thesis using assms(2)
    by (simp add: m_label_def match_opt m_seq_assoc label_text_def) (simp add: match_seq m_text_def)
next
  case (Some label)
  have "regex_match (m_seq (m_plus is_word) (\<lambda>a. f (Some a))) (label @ []) = Some x"
    by (rule match_plus_stop [where f = "\<lambda>a. f (Some a)"]) (use assms Some in simp_all)
  then show ?thesis
    using match_text [of "''=>''" "()" "\<lambda>_. m_seq (m_plus is_word) (\<lambda>a. f (Some a))" label]
    by (simp add: m_label_def match_opt m_seq_assoc label_text_def Some)
qed

text \<open>No direction begins where the first character is none of its characters, with an offset before it or not.\<close>

definition direction_start :: "char \<Rightarrow> bool" where
  "direction_start c \<longleftrightarrow> c = CHR ''-'' \<or> c = CHR ''~'' \<or> c = CHR ''<''"

lemma no_direction: "s = [] \<or> \<not> direction_start (hd s) \<Longrightarrow> m_direction s = []"
  by (cases s) (auto simp: m_direction_def m_alt_def m_text_def direction_start_def)

lemma xdigit_no_start: "is_xdigit c \<Longrightarrow> \<not> direction_start c"
  by (auto simp: direction_start_def is_xdigit_def hex_digit_def Let_def)

lemma word_no_start: "is_word c \<Longrightarrow> \<not> direction_start c"
  by (auto simp: direction_start_def is_word_def Let_def)

lemma m_offset_none: "s = [] \<or> hd s \<noteq> CHR ''@'' \<Longrightarrow> m_offset s = [(None, s)]"
  by (cases s) (auto simp: m_offset_def m_opt_def m_seq_def m_text_def)

lemma m_offset_digits:
  assumes "list_all is_xdigit digits" "l = [] \<or> \<not> is_xdigit (hd l)" "(a, r) \<in> set (m_offset (CHR ''@'' # digits @ l))"
  shows "r = CHR ''@'' # digits @ l \<or> (\<exists>n. r = drop n digits @ l)"
proof -
  have "length (takeWhile is_xdigit (digits @ l)) = length digits" by (rule length_takeWhile_stop [OF assms(1,2)])
  then have "\<exists>n. r = drop n digits @ l" if "(a, r) \<in> set (m_plus is_xdigit (digits @ l))" for a r
    using that by (force simp: m_plus_def)
  then show ?thesis using assms(3) by (auto simp: m_offset_def m_opt_def m_seq_def m_text_def)
qed

lemma match_no_direction:
  assumes "\<And>a r. (a, r) \<in> set (m_offset s) \<Longrightarrow> m_direction r = []"
  shows "regex_match (m_seq m_offset (\<lambda>a. m_seq m_direction (f a))) s = None"
  using assms by (auto simp: match_seq first_some_None)

text \<open>After a direction there is no other one.\<close>

lemma tail_no_direction:
  assumes "offset_digits t" "case l of None \<Rightarrow> True | Some label \<Rightarrow> label \<noteq> [] \<and> list_all is_word label"
    "(a, r) \<in> set (m_offset (offset_text t @ label_text l))"
  shows "m_direction r = []"
proof -
  have l: "label_text l = [] \<or> \<not> is_xdigit (hd (label_text l))" "label_text l = [] \<or> \<not> direction_start (hd (label_text l))"
      "label_text l = [] \<or> hd (label_text l) \<noteq> CHR ''@''"
    by (auto simp: label_text_def is_xdigit_def hex_digit_def direction_start_def Let_def split: option.split)
  show ?thesis
  proof (cases t)
    case None
    then show ?thesis using assms(3) l m_offset_none [OF l(3)] no_direction [OF l(2)] by (simp add: offset_text_def)
  next
    case (Some digits)
    have d: "list_all is_xdigit digits" using assms(1) by (simp add: offset_digits_def Some)
    have "r = CHR ''@'' # digits @ label_text l \<or> (\<exists>n. r = drop n digits @ label_text l)"
      by (rule m_offset_digits [OF d l(1)]) (use assms(3) in \<open>simp add: offset_text_def Some\<close>)
    moreover have "m_direction (CHR ''@'' # digits @ label_text l) = []" by (rule no_direction) (simp add: direction_start_def)
    moreover have "m_direction (drop n digits @ label_text l) = []" for n
    proof (rule no_direction)
      show "drop n digits @ label_text l = [] \<or> \<not> direction_start (hd (drop n digits @ label_text l))"
      proof (cases "drop n digits")
        case (Cons c cs)
        then have "c \<in> set digits" by (metis in_set_dropD list.set_intros(1))
        then show ?thesis using d xdigit_no_start Cons by (simp add: list_all_iff)
      qed (use l(2) in simp)
    qed
    ultimately show ?thesis by auto
  qed
qed

lemma direction_append:
  assumes "m_direction s = []" "s \<noteq> []" "r = [] \<or> hd r \<noteq> CHR ''>'' \<and> hd r \<noteq> CHR ''-''"
  shows "m_direction (s @ r) = []"
proof -
  obtain c s' where s: "s = c # s'" using assms(2) by (cases s) auto
  show ?thesis using assms(1,3)
    by (cases s'; cases r) (auto simp: s m_direction_def m_alt_def m_text_def split: if_splits)
qed

lemma label_chars: "case l of None \<Rightarrow> True | Some label \<Rightarrow> label \<noteq> [] \<and> list_all is_word label \<Longrightarrow>
    c \<in> set (drop k (label_text l)) \<Longrightarrow> \<not> direction_start c \<and> c \<noteq> CHR ''@''"
proof -
  assume l: "case l of None \<Rightarrow> True | Some label \<Rightarrow> label \<noteq> [] \<and> list_all is_word label" "c \<in> set (drop k (label_text l))"
  have "\<not> is_word (CHR ''@'')" by (simp add: is_word_def)
  then show ?thesis using l in_set_dropD [OF l(2)] word_no_start
    by (auto simp: label_text_def list_all_iff direction_start_def split: option.splits)
qed

text \<open>So a longer name of the member is not followed by a direction.\<close>

lemma longer_member:
  assumes ok: "extension_ok m" and o: "em_memberOffset m = None" and n: "0 < n"
    and D: "D = direction_text (em_direction m) @ em_extension m"
    and T: "T = offset_text (em_extensionOffset m) @ label_text (em_label m)"
    and le: "n \<le> length (takeWhile (\<lambda>c. c \<noteq> CHR ''@'') (D @ T))" and a: "(a, r) \<in> set (m_offset (drop n (D @ T)))"
  shows "m_direction r = []"
proof -
  have x: "list_all (\<lambda>c. c \<noteq> CHR ''@'') D" "\<And>k. 0 < k \<Longrightarrow> k < length D \<Longrightarrow> m_direction (drop k D) = []"
    "offset_digits (em_extensionOffset m)" "case em_label m of None \<Rightarrow> True | Some label \<Rightarrow> label \<noteq> [] \<and> list_all is_word label"
    using ok by (auto simp: extension_ok_def D list_all_iff direction_text_def split: direction.split)
  have hdT: "T = [] \<or> hd T \<noteq> CHR ''>'' \<and> hd T \<noteq> CHR ''-''"
    by (auto simp: T offset_text_def label_text_def split: option.split)
  consider "n < length D" | "n = length D" | "length D < n" by linarith
  then show ?thesis
  proof cases
    case 1
    then have ne: "drop n D \<noteq> []" by simp
    then have "hd (drop n D) \<in> set D" using in_set_dropD hd_in_set by metis
    then have "hd (drop n (D @ T)) \<noteq> CHR ''@''" using x(1) ne 1 by (simp add: list_all_iff)
    then have "r = drop n D @ T" using a m_offset_none [of "drop n (D @ T)"] 1 by simp
    then show ?thesis using direction_append [OF x(2) [OF n 1] ne hdT] by simp
  next
    case 2
    then show ?thesis using tail_no_direction [OF x(3,4)] a T by simp
  next
    case 3
    have "length (takeWhile (\<lambda>c. c \<noteq> CHR ''@'') (D @ T)) = length D + length (takeWhile (\<lambda>c. c \<noteq> CHR ''@'') T)"
      using x(1) by (simp add: list_all_iff takeWhile_append)
    then have "em_extensionOffset m = None" using le 3 by (auto simp: T offset_text_def split: option.splits)
    then have d: "drop n (D @ T) = drop (n - length D) (label_text (em_label m))" using 3 by (simp add: T offset_text_def)
    let ?s = "drop (n - length D) (label_text (em_label m))"
    have "?s = [] \<or> \<not> direction_start (hd ?s) \<and> hd ?s \<noteq> CHR ''@''" using label_chars [OF x(4)] hd_in_set by blast
    then show ?thesis using a m_offset_none [of ?s] no_direction [of ?s] unfolding d by auto
  qed
qed

lemma extension_read_back:
  assumes ok: "extension_ok m"
  shows "regex_match extensionRegex (extension_text m) = Some m"
proof -
  define D where "D = direction_text (em_direction m) @ em_extension m"
  define T where "T = offset_text (em_extensionOffset m) @ label_text (em_label m)"
  have x: "list_all (\<lambda>c. c \<noteq> CHR ''@'') (em_member m)" "offset_digits (em_memberOffset m)"
    "list_all (\<lambda>c. c \<noteq> CHR ''@'' \<and> c \<noteq> CHR ''='') (em_extension m)" "offset_digits (em_extensionOffset m)"
    "case em_label m of None \<Rightarrow> True | Some label \<Rightarrow> label \<noteq> [] \<and> list_all is_word label"
    using ok by (simp_all add: extension_ok_def)
  define f where "f = (\<lambda>member memberOffset.
     m_seq m_direction (\<lambda>direction.
     m_seq (m_star (\<lambda>c. c \<noteq> CHR ''@'' \<and> c \<noteq> CHR ''='')) (\<lambda>ext.
     m_seq m_offset (\<lambda>extensionOffset.
     m_seq m_label (\<lambda>label.
     m_done \<lparr>em_member = member, em_memberOffset = memberOffset, em_direction = direction, em_extension = ext,
             em_extensionOffset = extensionOffset, em_label = label\<rparr>)))))"
  have "regex_match (m_seq m_label (\<lambda>label. m_done (m\<lparr>em_label := label\<rparr>))) (label_text (em_label m)) = Some m"
    by (rule match_label [OF x(5)]) simp
  then have "regex_match (m_seq m_offset (\<lambda>o2. m_seq m_label (\<lambda>label. m_done (m\<lparr>em_extensionOffset := o2, em_label := label\<rparr>)))) T = Some m"
    unfolding T_def by (intro match_offset [OF x(4)])
      (auto simp: label_text_def is_xdigit_def hex_digit_def split: option.split)
  then have "regex_match (m_seq (m_star (\<lambda>c. c \<noteq> CHR ''@'' \<and> c \<noteq> CHR ''='')) (\<lambda>ext. m_seq m_offset (\<lambda>o2. m_seq m_label (\<lambda>label.
      m_done (m\<lparr>em_extension := ext, em_extensionOffset := o2, em_label := label\<rparr>))))) (em_extension m @ T) = Some m"
    by (intro match_star_stop [OF x(3)]) (auto simp: T_def offset_text_def label_text_def split: option.split)
  then have f: "regex_match (f (em_member m) (em_memberOffset m)) (D @ T) = Some m"
    by (cases m) (simp add: f_def D_def match_direction)
  have "regex_match (m_seq m_offset (f (em_member m))) (offset_text (em_memberOffset m) @ D @ T) = Some m"
    by (rule match_offset [where f = "f (em_member m)", OF x(2) _ f])
      (auto simp: D_def direction_text_def is_xdigit_def hex_digit_def split: direction.split)
  moreover have "regex_match (m_seq m_offset (f (em_member m @ take n (offset_text (em_memberOffset m) @ D @ T))))
        (drop n (offset_text (em_memberOffset m) @ D @ T)) = None"
    if n: "0 < n" "n \<le> length (takeWhile (\<lambda>c. c \<noteq> CHR ''@'') (offset_text (em_memberOffset m) @ D @ T))" for n
  proof (cases "em_memberOffset m")
    case None
    show ?thesis unfolding f_def
      by (rule match_no_direction) (use longer_member [OF ok None n(1) D_def T_def] n(2) None in \<open>simp add: offset_text_def\<close>)
  qed (use n in \<open>simp add: offset_text_def\<close>)
  ultimately have "regex_match (m_seq (m_star (\<lambda>c. c \<noteq> CHR ''@'')) (\<lambda>member. m_seq m_offset (f member)))
      (em_member m @ offset_text (em_memberOffset m) @ D @ T) = Some m"
    by (intro match_star [where f = "\<lambda>member. m_seq m_offset (f member)", OF x(1)])
  then show ?thesis by (simp add: extensionRegex_def extension_text_def f_def D_def T_def)
qed

end
