(* ===== verification/Extended_Rule_Table.thy ===== *)
theory Extended_Rule_Table
  imports Extended_Rules
begin

text \<open>
  The table of rules that ExtendedVisitor.h makes from the arguments of the switch \<open>/extend\<close>: the counting sort, the
  numbers of the labels, and that the table is what the walk of \<open>Extended_Visit\<close> needs.
\<close>

section \<open>The counting sort\<close>

text \<open>Where the indices of a state end in the order of the states.\<close>

definition state_end :: "nat list \<Rightarrow> nat \<Rightarrow> nat" where
  "state_end bases s = (sum (count_list bases) {..s})"

definition of_state :: "nat list \<Rightarrow> nat \<Rightarrow> nat \<Rightarrow> nat list" where
  "of_state bases s i = filter (\<lambda>j. bases ! j = s) [i..<length bases]"

lemma state_counts_nth:
  assumes "\<forall>b\<in>set bases. b \<le> n" "s \<le> n"
  shows "length (state_counts n bases) = n + 1 \<and> state_counts n bases ! s = count_list bases s"
proof -
  have "length (foldl (\<lambda>cs s. cs[s := cs ! s + 1]) cs bases) = length cs \<and>
      foldl (\<lambda>cs s. cs[s := cs ! s + 1]) cs bases ! s = cs ! s + count_list bases s" if "length cs = n + 1" for cs
    using assms(1) that
  proof (induction bases arbitrary: cs)
    case (Cons b bases)
    then show ?case using assms(2) by (auto simp: nth_list_update)
  qed simp
  from this [of "replicate (n + 1) 0"] show ?thesis
    using assms(2) nth_replicate [of s "n + 1" "0 :: nat"] by (simp add: state_counts_def del: replicate.simps)
qed

lemma state_limits_nth:
  assumes "length cs = n + 1" "s \<le> n"
  shows "length (state_limits n cs) = n + 1 \<and> state_limits n cs ! s = sum ((!) cs) {..s}"
proof -
  let ?f = "\<lambda>c i. c[i := c ! i + c ! (i - 1)]"
  have "k \<le> n \<Longrightarrow> length (foldl ?f cs [1..<k + 1]) = n + 1 \<and>
      (\<forall>s\<le>n. foldl ?f cs [1..<k + 1] ! s = (if s \<le> k then sum ((!) cs) {..s} else cs ! s))" for k
  proof (induction k)
    case 0
    then show ?case using assms(1) by simp
  next
    case (Suc k)
    then have IH: "length (foldl ?f cs [1..<k + 1]) = n + 1"
      "\<And>s. s \<le> n \<Longrightarrow> foldl ?f cs [1..<k + 1] ! s = (if s \<le> k then sum ((!) cs) {..s} else cs ! s)" by auto
    have u: "[1..<Suc k + 1] = [1..<k + 1] @ [k + 1]" by simp
    define c where "c = foldl ?f cs [1..<k + 1]"
    note IH = IH [folded c_def]
    have f: "foldl ?f cs [1..<Suc k + 1] = c[k + 1 := c ! (k + 1) + c ! k]" unfolding u by (simp add: c_def)
    show ?case unfolding f using IH Suc.prems by (auto simp: nth_list_update not_less_eq_eq)
  qed
  then show ?thesis using assms(2) by (simp add: state_limits_def)
qed

lemma state_end_gap:
  assumes "s < b"
  shows "state_end bases s + count_list bases b \<le> state_end bases b"
proof -
  have "sum (count_list bases) (insert b {..s}) \<le> state_end bases b"
    unfolding state_end_def by (rule sum_mono2) (use assms in auto)
  then show ?thesis using assms by (simp add: state_end_def)
qed

lemma count_le_end: "count_list bases s \<le> state_end bases s"
  unfolding state_end_def by (rule member_le_sum) auto

lemma state_end_Suc: "state_end bases (Suc s) = state_end bases s + count_list bases (Suc s)"
  by (simp add: state_end_def)

lemma state_end_le: "state_end bases s \<le> length bases"
proof -
  have "sum (count_list bases) {..s} \<le> sum (count_list bases) ({..s} \<union> set bases)" by (rule sum_mono2) auto
  also have "\<dots> = length bases" by (rule sum_count_set) auto
  finally show ?thesis by (simp add: state_end_def)
qed

lemma of_state_all: "length (of_state bases s 0) = count_list bases s"
proof -
  have "filter (\<lambda>b. b = s) (map ((!) bases) [0..<length bases]) = map ((!) bases) (of_state bases s 0)"
    by (simp add: of_state_def filter_map comp_def)
  then have "length (of_state bases s 0) = length (filter (\<lambda>b. b = s) bases)" by (metis length_map map_nth)
  also have "\<dots> = count_list bases s" by (induction bases) auto
  finally show ?thesis .
qed

lemma of_state_step:
  assumes "i < length bases"
  shows "of_state bases s i = (if bases ! i = s then i # of_state bases s (Suc i) else of_state bases s (Suc i))"
  using assms by (simp add: of_state_def upt_conv_Cons)

lemma of_state_le: "i \<le> length bases \<Longrightarrow> length (of_state bases s i) \<le> count_list bases s"
proof -
  assume "i \<le> length bases"
  then have "[0..<length bases] = [0..<i] @ [i..<length bases]" using upt_add_eq_append [of 0 i "length bases - i"] by simp
  then have "length (of_state bases s i) \<le> length (of_state bases s 0)" by (simp add: of_state_def)
  then show ?thesis by (simp add: of_state_all)
qed

text \<open>After the indices from one on have been placed, they are, state by state, at the end of the part of their state.\<close>

definition placed :: "nat list \<Rightarrow> nat \<Rightarrow> nat \<Rightarrow> nat list \<times> nat list \<Rightarrow> bool" where
  "placed bases n i = (\<lambda>(c, order).
     length c = n + 1 \<and> length order = length bases \<and>
     (\<forall>s\<le>n. c ! s + length (of_state bases s i) = state_end bases s \<and>
        map ((!) order) [c ! s..<state_end bases s] = of_state bases s i))"

lemma placed_step:
  assumes "placed bases n (Suc i) (c, order)" "i < length bases" "bases ! i \<le> n"
  shows "placed bases n i (c[bases ! i := c ! (bases ! i) - 1], order[c ! (bases ! i) - 1 := i])"
proof -
  let ?b = "bases ! i"
  let ?k = "c ! ?b - 1"
  note p = assms(1) [unfolded placed_def prod.case]
  have o: "of_state bases ?b i = i # of_state bases ?b (Suc i)" by (simp add: of_state_step [OF assms(2)])
  have cb: "c ! ?b + length (of_state bases ?b (Suc i)) = state_end bases ?b"
      "map ((!) order) [c ! ?b..<state_end bases ?b] = of_state bases ?b (Suc i)" using p assms(3) by auto
  have "Suc (length (of_state bases ?b (Suc i))) \<le> count_list bases ?b" using of_state_le [of i bases ?b] assms(2) o by simp
  then have k: "0 < c ! ?b" "state_end bases ?b \<le> ?k + count_list bases ?b" using cb(1) count_le_end [of bases ?b] by linarith+
  have kn: "?k < length order" using state_end_le [of bases ?b] cb(1) k(1) p by linarith
  have other: "map ((!) (order[?k := i])) [c ! s..<state_end bases s] = map ((!) order) [c ! s..<state_end bases s]"
    if s: "s \<le> n" "s \<noteq> ?b" for s
  proof -
    have "c ! s + length (of_state bases s (Suc i)) = state_end bases s" using p s(1) by blast
    then have c: "state_end bases s \<le> c ! s + count_list bases s" using of_state_le [of "Suc i" bases s] assms(2) by linarith
    have "?k \<notin> {c ! s..<state_end bases s}"
    proof (cases "s < ?b")
      case True
      then show ?thesis using state_end_gap [OF True, of bases] k(2) by auto
    next
      case False
      then have "state_end bases ?b + count_list bases s \<le> state_end bases s" using state_end_gap [of ?b s bases] s(2) by simp
      then show ?thesis using c cb(1) k(1) by auto
    qed
    then show ?thesis by (auto simp: nth_list_update)
  qed
  have own: "map ((!) (order[?k := i])) [?k..<state_end bases ?b] = of_state bases ?b i"
  proof -
    have "[?k..<state_end bases ?b] = ?k # [c ! ?b..<state_end bases ?b]"
      using k(1) cb(1) by (simp add: upt_conv_Cons)
    moreover have "map ((!) (order[?k := i])) [c ! ?b..<state_end bases ?b] = map ((!) order) [c ! ?b..<state_end bases ?b]"
      using k(1) by (auto simp: nth_list_update)
    ultimately show ?thesis using cb(2) o kn by simp
  qed
  show ?thesis unfolding placed_def prod.case
  proof (intro conjI allI impI)
    fix s assume s: "s \<le> n"
    have "c ! ?b = Suc ?k" using k(1) by simp
    then have "?k + length (of_state bases ?b i) = state_end bases ?b" using cb(1) o by simp
    then show "c[?b := ?k] ! s + length (of_state bases s i) = state_end bases s"
      using p s by (cases "s = ?b") (simp_all add: of_state_step [OF assms(2)])
    show "map ((!) (order[?k := i])) [c[?b := ?k] ! s..<state_end bases s] = of_state bases s i"
      using p s own other by (cases "s = ?b") (simp_all add: of_state_step [OF assms(2)])
  qed (use p in simp_all)
qed

text \<open>So the indices of a state stand in their order between the base of the state and that of the next one.\<close>

lemma place_rules_sorts:
  assumes "\<forall>b\<in>set bases. b < n"
  defines "result \<equiv> place_rules bases (state_limits n (state_counts n bases))"
  shows "length (fst result) = n + 1" "length (snd result) = length bases" "fst result ! 0 = 0"
    "s < n \<Longrightarrow> fst result ! s \<le> fst result ! (s + 1) \<and> fst result ! (s + 1) \<le> length bases"
    "s < n \<Longrightarrow> map ((!) (snd result)) [fst result ! s..<fst result ! (s + 1)] = of_state bases s 0"
proof -
  let ?step = "\<lambda>(c, order) i. let k = c ! (bases ! i) - 1 in (c[bases ! i := k], order[k := i])"
  let ?init = "(state_limits n (state_counts n bases), replicate (length bases) 0)"
  have le: "\<forall>b\<in>set bases. b \<le> n" using assms(1) less_imp_le by blast
  have cs: "length (state_counts n bases) = n + 1" using state_counts_nth [OF le] by blast
  have lim: "state_limits n (state_counts n bases) ! s = state_end bases s" if "s \<le> n" for s
    using state_limits_nth [OF cs that] state_counts_nth [OF le] that by (simp add: state_end_def)
  have "placed bases n i (foldl ?step ?init (rev [i..<length bases]))" if "i \<le> length bases" for i
    using that
  proof (induction rule: inc_induct)
    case base
    show ?case using state_limits_nth [OF cs] lim by (auto simp: placed_def of_state_def)
  next
    case (step i)
    obtain c order where f: "foldl ?step ?init (rev [Suc i..<length bases]) = (c, order)" by (cases "foldl ?step ?init (rev [Suc i..<length bases])")
    have u: "rev [i..<length bases] = rev [Suc i..<length bases] @ [i]" using step by (simp add: upt_conv_Cons)
    show ?case unfolding u foldl_append f
      using placed_step [of bases n i c order] step le f by (simp add: Let_def)
  qed
  then have p: "placed bases n 0 result" by (simp add: result_def place_rules_def)
  obtain c order where r: "result = (c, order)" by (cases result)
  note p = p [unfolded r placed_def prod.case]
  have e: "c ! s + count_list bases s = state_end bases s" if "s \<le> n" for s using p that by (simp add: of_state_all)
  have next_base: "c ! (s + 1) = state_end bases s" if "s < n" for s
    using e [of "s + 1"] that by (simp add: state_end_Suc)
  show "length (fst result) = n + 1" "length (snd result) = length bases" using p by (simp_all add: r)
  show "fst result ! 0 = 0" using e [of 0] by (simp add: r state_end_def)
  show "s < n \<Longrightarrow> fst result ! s \<le> fst result ! (s + 1) \<and> fst result ! (s + 1) \<le> length bases"
    using e [of s] next_base [of s] state_end_le [of bases s] by (simp add: r)
  show "s < n \<Longrightarrow> map ((!) (snd result)) [fst result ! s..<fst result ! (s + 1)] = of_state bases s 0"
    using p next_base [of s] by (simp add: r)
qed

lemma place_rules_bound:
  assumes "k < length bases"
  shows "snd (place_rules bases c) ! k < length bases"
proof -
  let ?step = "\<lambda>(c, order) i. let k = c ! (bases ! i) - 1 in (c[bases ! i := k], order[k := i])"
  have "set (snd (foldl ?step (c, order) xs)) \<subseteq> {..<length bases} \<and> length (snd (foldl ?step (c, order) xs)) = length order"
    if "set order \<subseteq> {..<length bases}" "set xs \<subseteq> {..<length bases}" for c order xs
    using that
  proof (induction xs arbitrary: c order)
    case (Cons i xs)
    have "set (order[c ! (bases ! i) - 1 := i]) \<subseteq> {..<length bases}"
      using Cons.prems set_update_subset_insert [of order "c ! (bases ! i) - 1" i] by auto
    then show ?case using Cons.IH [of "order[c ! (bases ! i) - 1 := i]" "c[bases ! i := c ! (bases ! i) - 1]"] Cons.prems(2)
      by (simp add: Let_def)
  qed simp
  from this [of "replicate (length bases) 0" "rev [0..<length bases]" c]
  have "set (snd (place_rules bases c)) \<subseteq> {..<length bases} \<and> length (snd (place_rules bases c)) = length bases"
    using assms by (simp add: place_rules_def set_replicate_conv_if atLeast0LessThan)
  then show ?thesis using assms by (metis lessThan_iff nth_mem subsetD)
qed

section \<open>The numbers of the states\<close>

text \<open>The number of a label is its place in the list of labels.\<close>

definition labels_ok :: "string list \<times> label_map \<Rightarrow> bool" where
  "labels_ok = (\<lambda>(labels, states).
     sm_sorted states \<and> length states = length labels \<and> distinct labels \<and>
     (\<forall>l k. sm_find states l = Some k \<longleftrightarrow> k < length labels \<and> labels ! k = l))"

lemma length_sm_assign: "sm_find m k = None \<Longrightarrow> length (sm_assign k v m) = Suc (length m)"
  by (induction k v m rule: sm_assign.induct) (auto simp: sm_find_def split: if_splits)

lemma state_of_label_ok:
  assumes "labels_ok (labels, states)" "state_of_label l (labels, states) = (s, labels', states')"
  shows "labels_ok (labels', states')" "sm_find states' l = Some s" "set labels' = insert l (set labels)"
    "sm_find states l' = Some s' \<Longrightarrow> sm_find states' l' = Some s'"
proof -
  have "labels_ok (labels', states') \<and> sm_find states' l = Some s \<and> set labels' = insert l (set labels) \<and>
      (sm_find states l' = Some s' \<longrightarrow> sm_find states' l' = Some s')"
  proof (cases "sm_find states l")
    case None
    then have "l \<notin> set labels" using assms(1) unfolding labels_ok_def in_set_conv_nth prod.case by (metis option.distinct(1))
    then show ?thesis using assms None
      by (auto simp: state_of_label_def labels_ok_def length_sm_assign sm_find_assign nth_append less_Suc_eq split: if_splits)
  next
    case (Some k)
    then have "l \<in> set labels" using assms(1) by (auto simp: labels_ok_def)
    then show ?thesis using assms Some by (auto simp: state_of_label_def)
  qed
  then show "labels_ok (labels', states')" "sm_find states' l = Some s" "set labels' = insert l (set labels)"
    "sm_find states l' = Some s' \<Longrightarrow> sm_find states' l' = Some s'" by auto
qed

definition label_of :: "Extension_match \<Rightarrow> string" where
  "label_of m = (case em_label m of None \<Rightarrow> [] | Some l \<Rightarrow> l)"

text \<open>The specifications of rules that are well formed.\<close>

lemma read_specifications_texts:
  assumes "list_all extension_ok ms" "labels_ok known"
  shows "\<exists>labels states. read_specifications (map extension_text ms) known =
      ((labels, states), map (\<lambda>m. fst (Specification_new m (the (sm_find states (label_of m))))) ms,
       list_ex (\<lambda>m. snd (Specification_new m 0)) ms) \<and>
     labels_ok (labels, states) \<and> set labels = set (fst known) \<union> label_of ` set ms \<and>
     (\<forall>l k. sm_find (snd known) l = Some k \<longrightarrow> sm_find states l = Some k)"
  using assms
proof (induction ms arbitrary: known)
  case Nil
  then show ?case by (cases known) auto
next
  case (Cons m ms)
  obtain labels0 states0 where k: "known = (labels0, states0)" by (cases known)
  obtain s labels1 states1 where l: "state_of_label (label_of m) (labels0, states0) = (s, labels1, states1)"
    by (cases "state_of_label (label_of m) (labels0, states0)") auto
  note st = state_of_label_ok [OF Cons.prems(2) [unfolded k] l]
  have mm: "regex_match extensionRegex (extension_text m) = Some m" using Cons.prems(1) by (intro extension_read_back) simp
  have sn: "snd (Specification_new m s) = snd (Specification_new m 0)"
    by (simp add: Specification_new_def split: prod.split)
  obtain labels states where IH: "read_specifications (map extension_text ms) (labels1, states1) =
      ((labels, states), map (\<lambda>m. fst (Specification_new m (the (sm_find states (label_of m))))) ms,
       list_ex (\<lambda>m. snd (Specification_new m 0)) ms)" "labels_ok (labels, states)"
      "set labels = set labels1 \<union> label_of ` set ms" "\<forall>l k. sm_find states1 l = Some k \<longrightarrow> sm_find states l = Some k"
    using Cons.IH [OF _ st(1)] Cons.prems(1) by auto
  have "sm_find states (label_of m) = Some s" using IH(4) st(2) by blast
  moreover have "(case em_label m of None \<Rightarrow> [] | Some l \<Rightarrow> l) = label_of m" by (simp add: label_of_def)
  ultimately show ?case using IH st(3,4) l mm sn
    by (intro exI [of _ labels] exI [of _ states]) (auto simp: k split: prod.split)
qed

section \<open>The rules that are made\<close>

lemma Rules_new_nth:
  "Rules_new img specs = Some rules \<Longrightarrow>
     length rules = length specs \<and> (\<forall>k<length specs. Rule_new img (specs ! k) = Some (rules ! k))"
proof (induction specs arbitrary: rules)
  case (Cons spec specs)
  then obtain rule rules' where r: "Rule_new img spec = Some rule" "Rules_new img specs = Some rules'" "rules = rule # rules'"
    by (auto simp: bind_eq_Some_conv)
  then show ?case using Cons.IH [OF r(2)] by (auto simp: nth_Cons split: nat.split)
qed simp

lemma Rule_new_exists: "pi_ok img \<Longrightarrow> \<exists>rule. Rule_new img spec = Some rule"
proof -
  assume "pi_ok img"
  then have "\<exists>sc. SignatureChecker_new img t = Some sc" for t using Check_accepts by metis
  then obtain a b where "SignatureChecker_new img (sp_memberSignature spec) = Some a"
    "SignatureChecker_new img (sp_extensionSignature spec) = Some b" by blast
  then show ?thesis by (simp add: Rule_new_def)
qed

lemma Rules_new_exists: "pi_ok img \<Longrightarrow> \<exists>rules. Rules_new img specs = Some rules"
proof (induction specs)
  case (Cons spec specs)
  then show ?case using Rule_new_exists [of img spec] by auto
qed simp

section \<open>The rules of the texts\<close>

definition base_of :: "label_map \<Rightarrow> Extension_match \<Rightarrow> nat" where
  "base_of states m = (if em_member m = [] then 0 else case sm_find states (em_member m) of None \<Rightarrow> 0 | Some s \<Rightarrow> s)"

definition offset_value :: "string option \<Rightarrow> addr" where
  "offset_value t = (case t of None \<Rightarrow> 0 | Some digits \<Rightarrow> of_nat (hex_value digits))"

definition rule_of_text :: "ProcessImage \<Rightarrow> label_map \<Rightarrow> Extension_match \<Rightarrow> Rule" where
  "rule_of_text img states m =
     \<lparr>offsetInMember = offset_value (em_memberOffset m), offsetInExtension = offset_value (em_extensionOffset m),
      useOffsetInMember = (em_memberOffset m \<noteq> None), useOffsetInExtension = (em_extensionOffset m \<noteq> None),
      referenceIsOutgoing = (em_direction m \<noteq> Incoming_direction), extensionMustBeLeaked = (em_direction m = Leaked_direction),
      memberSignatureChecker =
        the (SignatureChecker_new img (if sm_find states (em_member m) = None then em_member m else [])),
      extensionSignatureChecker = the (SignatureChecker_new img (em_extension m)),
      baseState = base_of states m, newState = the (sm_find states (label_of m))\<rparr>"

lemma read_offset_value:
  assumes "offset_digits t"
  shows "fst (read_offset t) = (t \<noteq> None)" "\<not> snd (snd (read_offset t)) \<Longrightarrow> fst (snd (read_offset t)) = offset_value t"
  using assms by (auto simp: read_offset_def offset_digits_def offset_value_def read_hex_digits split: option.splits if_splits)

lemma Rule_new_text:
  assumes "extension_ok m" "\<not> snd (Specification_new m s)" "Rule_new img (with_base states (fst (Specification_new m s))) = Some rule"
    "s = the (sm_find states (label_of m))" "sm_find states [] \<noteq> None"
  shows "rule = rule_of_text img states m"
proof -
  have d: "offset_digits (em_memberOffset m)" "offset_digits (em_extensionOffset m)" using assms(1) by (simp_all add: extension_ok_def)
  show ?thesis using assms(2-5) read_offset_value [OF d(1)] read_offset_value [OF d(2)]
    by (cases "read_offset (em_memberOffset m)"; cases "read_offset (em_extensionOffset m)"; cases "em_member m = []")
      (auto simp: Specification_new_def with_base_def Rule_new_def rule_of_text_def base_of_def bind_eq_Some_conv split: option.splits)
qed

lemma with_base_of:
  "sp_baseState (with_base states (fst (Specification_new m s))) = base_of states m"
  "sp_newState (with_base states (fst (Specification_new m s))) = s"
  by (auto simp: with_base_def base_of_def Specification_new_def split: option.splits prod.splits)

lemma Rule_new_states: "Rule_new img spec = Some rule \<Longrightarrow> baseState rule = sp_baseState spec \<and> newState rule = sp_newState spec \<and> rule_made img rule"
  by (auto simp: Rule_new_def rule_made_def checker_made_def bind_eq_Some_conv)

text \<open>The table of the rules, from the specifications with their states.\<close>

lemma rules_table:
  fixes specs :: "Specification list" and n :: nat
  defines "bases \<equiv> map sp_baseState specs"
  defines "placed_rules \<equiv> place_rules bases (state_limits n (state_counts n bases))"
  assumes rules: "Rules_new img (map ((!) specs) (snd placed_rules)) = Some rules"
    and states: "\<forall>spec\<in>set specs. sp_baseState spec < n \<and> sp_newState spec < n" "length labels = n" "0 < n"
    and first: "specs \<noteq> []" "baseState (rules ! 0) = 0" "length specs < 2 ^ 64 - 1"
    and ev: "ev_rules ev = rules" "stateToBase ev = fst placed_rules" "stateLabels ev = labels"
  shows "table_ok ev img \<and> (\<forall>s<n. map Some (state_rules ev s) = map (Rule_new img) (filter (\<lambda>spec. sp_baseState spec = s) specs))"
proof -
  define b where "b = fst placed_rules"
  define order where "order = snd placed_rules"
  have bn: "\<forall>b\<in>set bases. b < n" using states(1) by (auto simp: bases_def)
  note ps = place_rules_sorts [OF bn, folded placed_rules_def b_def order_def]
  have lb: "length bases = length specs" by (simp add: bases_def)
  note rn = Rules_new_nth [OF rules [folded order_def]]
  have lr: "length rules = length specs" using rn ps(2) lb by simp
  have order_lt: "order ! k < length specs" if "k < length specs" for k
    using place_rules_bound [of k bases] that lb by (simp add: order_def placed_rules_def)
  have rule: "Rule_new img (specs ! (order ! k)) = Some (rules ! k)" if "k < length specs" for k
    using rn that ps(2) lb by simp
  have seg: "map ((!) order) [b ! s..<b ! (s + 1)] = of_state bases s 0" if "s < n" for s using ps(5) [OF that] .
  have le: "b ! (s + 1) \<le> length specs" "b ! s \<le> b ! (s + 1)" if "s < n" for s using ps(4) [OF that] lb by auto
  have of_s: "map ((!) specs) (of_state bases s 0) = filter (\<lambda>spec. sp_baseState spec = s) specs" for s
  proof -
    have "of_state bases s 0 = filter (\<lambda>j. sp_baseState (specs ! j) = s) [0..<length specs]"
      by (auto simp: of_state_def bases_def intro: filter_cong)
    then have "map ((!) specs) (of_state bases s 0) = filter (\<lambda>spec. sp_baseState spec = s) (map ((!) specs) [0..<length specs])"
      by (simp add: filter_map comp_def)
    then show ?thesis by (simp add: map_nth)
  qed
  have state: "map Some (state_rules ev s) = map (Rule_new img) (filter (\<lambda>spec. sp_baseState spec = s) specs)" if "s < n" for s
  proof -
    have "map Some (state_rules ev s) = map (\<lambda>k. Rule_new img (specs ! (order ! k))) [b ! s..<b ! (s + 1)]"
      using rule le [OF that] by (simp add: state_rules_def ev b_def)
    also have "\<dots> = map (Rule_new img) (map ((!) specs) (map ((!) order) [b ! s..<b ! (s + 1)]))" by simp
    finally show ?thesis by (simp only: seg [OF that] of_s)
  qed
  have at: "baseState (rules ! k) = s" if "s < n" "b ! s \<le> k" "k < b ! (s + 1)" for s k
  proof -
    have "k < length specs" using that le [OF that(1)] by simp
    moreover have "order ! k \<in> set (of_state bases s 0)" using that seg [OF that(1)] by (force simp flip: seg [OF that(1)])
    ultimately show ?thesis using Rule_new_states [OF rule] order_lt lb by (auto simp: of_state_def bases_def)
  qed
  have "0 < length specs" using first(1) by simp
  then have "order ! 0 \<in> set (of_state bases 0 0)"
    using Rule_new_states [OF rule] first(2) order_lt [of 0] lb by (auto simp: of_state_def bases_def)
  then have "b ! 0 < b ! 1" using seg [OF states(3)] by (auto simp flip: seg [OF states(3)])
  moreover have "rule_made img r \<and> newState r < n" if "r \<in> set rules" for r
  proof -
    have "sp_newState (specs ! (order ! k)) < n" if "k < length specs" for k using states(1) nth_mem [OF order_lt [OF that]] by blast
    then show ?thesis using that Rule_new_states [OF rule] lr by (auto simp: in_set_conv_nth)
  qed
  ultimately have "table_ok ev img"
    using ps(1,3) le at first(3) lr states(2,3) by (simp add: table_ok_def ev b_def)
  then show ?thesis using state by blast
qed

text \<open>What the arguments are made into, where they are well formed.\<close>

abbreviation specification_of :: "label_map \<Rightarrow> Extension_match \<Rightarrow> Specification" where
  "specification_of states m \<equiv> fst (Specification_new m (the (sm_find states (label_of m))))"

lemma specification_error: "snd (Specification_new m s) = snd (Specification_new m 0)"
  by (simp add: Specification_new_def split: prod.split)

lemma ProcessExtendArguments_outcome:
  assumes img: "pi_ok img" and ms: "list_all extension_ok ms" "ms \<noteq> []"
    and args: "switch_arguments c ''extend'' = map extension_text ms"
  obtains ev' states rules where "ProcessExtendArguments img c ev = Some ev'"
    "labels_ok (stateLabels ev', states)" "set (stateLabels ev') = insert [] (label_of ` set ms)" "sm_find states [] = Some 0"
    "labelToStateNumber ev' = states" "ev_rules ev' = rules"
    "stateToBase ev' = fst (place_rules (map (base_of states) ms)
       (state_limits (length states) (state_counts (length states) (map (base_of states) ms))))"
    "Rules_new img (map ((!) (map (\<lambda>m. with_base states (specification_of states m)) ms)) (snd (place_rules (map (base_of states) ms)
       (state_limits (length states) (state_counts (length states) (map (base_of states) ms)))))) = Some rules"
    "hasErrors ev' \<or> baseState (rules ! 0) = 0 \<and> (\<forall>m\<in>set ms. \<not> snd (Specification_new m 0))"
proof -
  obtain comment e1 where b1: "boolean_switch c ''commentExtensions'' = (comment, e1)" by (cases "boolean_switch c ''commentExtensions''")
  obtain tainted e2 where b2: "boolean_switch c ''skipTaintedReferences'' = (tainted, e2)" by (cases "boolean_switch c ''skipTaintedReferences''")
  obtain unfavored e3 where b3: "boolean_switch c ''skipUnfavoredReferences'' = (unfavored, e3)" by (cases "boolean_switch c ''skipUnfavoredReferences''")
  have init: "labels_ok ([[]], [([], 0)])" by (auto simp: labels_ok_def sm_find_def)
  define e4 where "e4 \<longleftrightarrow> list_ex (\<lambda>m. snd (Specification_new m 0)) ms"
  obtain labels states where r: "read_specifications (switch_arguments c ''extend'') ([[]], [([], 0)]) =
      ((labels, states), map (specification_of states) ms, e4)"
      "labels_ok (labels, states)" "set labels = insert [] (label_of ` set ms)" "sm_find states [] = Some 0"
    using read_specifications_texts [OF ms(1) init] by (auto simp: args sm_find_def e4_def)
  define n where "n = length states"
  define specs where "specs = map (\<lambda>m. with_base states (specification_of states m)) ms"
  have specs: "map (with_base states) (map (specification_of states) ms) = specs" "map sp_baseState specs = map (base_of states) ms"
    by (simp_all add: specs_def with_base_of comp_def)
  obtain toBase order where p: "place_rules (map (base_of states) ms) (state_limits n (state_counts n (map (base_of states) ms))) = (toBase, order)"
    by (cases "place_rules (map (base_of states) ms) (state_limits n (state_counts n (map (base_of states) ms)))")
  obtain rules where rules: "Rules_new img (map ((!) specs) order) = Some rules" using Rules_new_exists [OF img] by blast
  have bound: "\<forall>b\<in>set (map (base_of states) ms). b < n"
    using r(2,4) by (auto simp: base_of_def labels_ok_def n_def split: option.split)
  have "length order = length ms" using place_rules_sorts(2) [OF bound] p by simp
  then have ne: "rules \<noteq> []" using Rules_new_nth [OF rules] ms(2) by auto
  define errors where "errors \<longleftrightarrow> e1 \<or> e2 \<or> e3 \<or> e4 \<or> list_ex (rule_unknown (allowMissingSignatures ev)) rules"
  define ev' where "ev' = ev\<lparr>commentExtensions := comment, ev_skipTaintedReferences := tainted,
      ev_skipUnfavoredReferences := unfavored, stateLabels := labels, labelToStateNumber := states, stateToBase := toBase,
      ev_rules := rules, hasErrors := (hasErrors ev \<or> errors \<or> rules \<noteq> [] \<and> \<not> errors \<and> baseState (rules ! 0) \<noteq> 0)\<rparr>"
  have res: "ProcessExtendArguments img c ev = Some ev'"
    unfolding ProcessExtendArguments_def b1 b2 b3 r(1) prod.case Let_def specs n_def [symmetric] p rules option.case errors_def [symmetric]
    using ne by (simp add: ev'_def)
  show thesis
    by (rule that [of ev' states rules, OF res]) (use r p rules ne in \<open>auto simp: ev'_def specs_def n_def errors_def e4_def list_ex_iff\<close>)
qed

section \<open>Properties\<close>


text \<open>Two rules: from the members to a state a by any reference, and from that state on.\<close>

definition two_rules :: "Extension_match list" where
  "two_rules =
     [\<lparr>em_member = [], em_memberOffset = None, em_direction = Outgoing_direction, em_extension = [],
       em_extensionOffset = None, em_label = Some ''a''\<rparr>,
      \<lparr>em_member = ''a'', em_memberOffset = None, em_direction = Outgoing_direction, em_extension = [],
       em_extensionOffset = None, em_label = None\<rparr>]"


end
