(* ===== verification/Module_Directory.thy ===== *)
theory Module_Directory
  imports Memory_Partition Std_Map "HOL-Library.Char_ord" "HOL-Library.List_Lexorder"
begin

text \<open>
  ModuleDirectory.h: the modules of a process by path, with the ranges of addresses that each of them uses, and
  which module an address is in.  A pointer to the information of a module is its path.  The images of modules
  are made by a factory, the first argument of \<open>AddModule\<close>; \<open>abort()\<close> is \<open>None\<close>.
\<close>

section \<open>State\<close>

record RangeInfo =
  ri_moduleInfo :: string
  adjustToModuleVirtualAddress :: addr
  ri_flags :: "32 word"

record 'm ModuleInfo =
  runtimePath :: string
  mi_ranges :: "(64, RangeInfo) range_mapper"
  moduleImage :: "'m option"
  incompatiblePaths :: "string list"

record ('m, 'l) ModuleDirectory =
  USED_BY_MODULE :: 'l
  isResolved :: bool
  nameToModuleInfo :: "(string, 'm ModuleInfo) std_map"
  rangeToModuleInfoPointer :: "(64, string) range_mapper"
  md_partition :: "'l VirtualMemoryPartition"
  chapModuleRoots :: "string list"

section \<open>The roots\<close>

text \<open>\<open>roots.find(c, start)\<close>\<close>

definition string_find :: "string \<Rightarrow> char \<Rightarrow> nat \<Rightarrow> nat option" where
  "string_find s c start = find (\<lambda>i. s ! i = c) [start..<length s]"

text \<open>
  The loop over the roots, from a position.  The call is \<open>roots.find(pos, ':')\<close>, whose first argument is the
  character that is looked for and whose second one the place to start from.
\<close>

partial_function (option) split_roots :: "string \<Rightarrow> nat \<Rightarrow> string list option" where
  "split_roots roots pos =
     (case string_find roots (char_of pos) (of_char CHR '':'') of
        None \<Rightarrow> Some [drop pos roots]
      | Some colonPos \<Rightarrow>
          let n = (if pos \<le> colonPos then colonPos - pos else length roots) in
          Option.bind (split_roots roots (colonPos + 1)) (\<lambda>rest. Some (take n (drop pos roots) # rest)))"

definition ModuleDirectory_new :: "'l \<Rightarrow> 'l VirtualMemoryPartition \<Rightarrow> string option \<Rightarrow> ('m, 'l) ModuleDirectory option" where
  "ModuleDirectory_new usedByModule p chap_module_roots =
     map_option (\<lambda>roots.
       \<lparr>USED_BY_MODULE = usedByModule, isResolved = False, nameToModuleInfo = [],
        rangeToModuleInfoPointer = RangeMapper_new True, md_partition = p, chapModuleRoots = roots\<rparr>)
       (case chap_module_roots of None \<Rightarrow> Some [[]] | Some roots \<Rightarrow> split_roots roots 0)"

section \<open>Operations\<close>

text \<open>The first compatible moduleImg, and the paths of the images that are not.\<close>

fun find_image :: "(string \<Rightarrow> 'm option) \<Rightarrow> ('m \<Rightarrow> bool) \<Rightarrow> string \<Rightarrow> string list \<Rightarrow> 'm option \<times> string list" where
  "find_image factory check path [] = (None, [])"
| "find_image factory check path (root # roots) =
     (case factory (root @ path) of
        None \<Rightarrow> find_image factory check path roots
      | Some moduleImg \<Rightarrow>
          if check moduleImg then (Some moduleImg, [])
          else (case find_image factory check path roots of (result, paths) \<Rightarrow> (result, (root @ path) # paths)))"

definition AddModule ::
  "(string \<Rightarrow> 'm option) \<Rightarrow> string \<Rightarrow> ('m \<Rightarrow> bool) \<Rightarrow> ('m, 'l) ModuleDirectory \<Rightarrow> ('m, 'l) ModuleDirectory option" where
  "AddModule factory path check md =
     (if isResolved md then None
      else
        case sm_emplace path \<lparr>runtimePath = path, mi_ranges = RangeMapper_new True, moduleImage = None, incompatiblePaths = []\<rparr>
               (nameToModuleInfo md) of
          (names, inserted) \<Rightarrow>
            if path = [] \<or> path ! 0 \<noteq> CHR ''/'' then Some (md\<lparr>nameToModuleInfo := names\<rparr>)
            else if inserted then
              (case find_image factory check path (chapModuleRoots md) of (moduleImg, paths) \<Rightarrow>
                 Some (md\<lparr>nameToModuleInfo :=
                   sm_assign path \<lparr>runtimePath = path, mi_ranges = RangeMapper_new True, moduleImage = moduleImg, incompatiblePaths = paths\<rparr>
                     names\<rparr>))
            else Some (md\<lparr>nameToModuleInfo := names\<rparr>))"

definition md_AddRange ::
  "addr \<Rightarrow> addr \<Rightarrow> addr \<Rightarrow> string \<Rightarrow> addr \<Rightarrow> ('m, 'l) ModuleDirectory \<Rightarrow> ('m, 'l) ModuleDirectory option" where
  "md_AddRange base sz adjust name fl md =
     (if isResolved md then None
      else
        (case sm_find (nameToModuleInfo md) name of
           None \<Rightarrow> None
         | Some info \<Rightarrow>
             (case MapRange (rangeToModuleInfoPointer md) base sz name of
                (pointers, it, mapped) \<Rightarrow>
                  if \<not> mapped then Some md
                  else
                    (case MapRange (mi_ranges info) base sz
                            \<lparr>ri_moduleInfo = name, adjustToModuleVirtualAddress = adjust, ri_flags = ucast fl\<rparr> of
                       (rgs, it', mapped') \<Rightarrow>
                         if \<not> mapped' then None
                         else
                           Some (md\<lparr>rangeToModuleInfoPointer := pointers,
                                    nameToModuleInfo := sm_assign name (info\<lparr>mi_ranges := rgs\<rparr>) (nameToModuleInfo md),
                                    md_partition := ClaimRange_flags (md_partition md) base sz (USED_BY_MODULE md) (ucast fl) True\<rparr>)))))"

definition Find_module :: "('m, 'l) ModuleDirectory \<Rightarrow> string \<Rightarrow> 'm ModuleInfo option" where
  "Find_module md name = sm_find (nameToModuleInfo md) name"

text \<open>Name, base, size and relative address; the outer option is the access through the pointer.\<close>

definition Find_address :: "('m, 'l) ModuleDirectory \<Rightarrow> addr \<Rightarrow> (string \<times> addr \<times> addr \<times> addr) option option" where
  "Find_address md a =
     (case FindRange (rangeToModuleInfoPointer md) a of
        None \<Rightarrow> Some None
      | Some (coallescedBase, coallescedSize, name) \<Rightarrow>
          (case sm_find (nameToModuleInfo md) name of
             None \<Rightarrow> None
           | Some info \<Rightarrow>
               (case FindRange (mi_ranges info) a of
                  None \<Rightarrow> Some None
                | Some (base, sz, rangeInfo) \<Rightarrow>
                    Some (Some (runtimePath info, base, sz, a - adjustToModuleVirtualAddress rangeInfo)))))"

definition md_Resolve :: "('m, 'l) ModuleDirectory \<Rightarrow> ('m, 'l) ModuleDirectory" where
  "md_Resolve md = md\<lparr>isResolved := True\<rparr>"

definition NumModules :: "('m, 'l) ModuleDirectory \<Rightarrow> nat" where
  "NumModules md = length (nameToModuleInfo md)"

definition GetModuleImage :: "('m, 'l) ModuleDirectory \<Rightarrow> string \<Rightarrow> 'm option" where
  "GetModuleImage md modulePath =
     (case sm_find (nameToModuleInfo md) modulePath of None \<Rightarrow> None | Some info \<Rightarrow> moduleImage info)"

section \<open>Invariant and abstraction\<close>

text \<open>The module at an address, with what is to be subtracted there.\<close>

definition module_at :: "('m, 'l) ModuleDirectory \<Rightarrow> addr \<Rightarrow> RangeInfo option" where
  "module_at md a =
     (case rm_lookup (rangeToModuleInfoPointer md) a of
        None \<Rightarrow> None
      | Some name \<Rightarrow> (case sm_find (nameToModuleInfo md) name of None \<Rightarrow> None | Some info \<Rightarrow> rm_lookup (mi_ranges info) a))"

text \<open>The ranges of a module are the ones that point to it.\<close>

definition info_ok :: "('m, 'l) ModuleDirectory \<Rightarrow> string \<Rightarrow> 'm ModuleInfo \<Rightarrow> bool" where
  "info_ok md name info \<longleftrightarrow>
     runtimePath info = name \<and> rm_inv (mi_ranges info) \<and>
     (\<forall>a. (rm_lookup (mi_ranges info) a \<noteq> None) = (rm_lookup (rangeToModuleInfoPointer md) a = Some name)) \<and>
     (\<forall>a ri. rm_lookup (mi_ranges info) a = Some ri \<longrightarrow> ri_moduleInfo ri = name)"

definition md_ok :: "('m, 'l) ModuleDirectory \<Rightarrow> bool" where
  "md_ok md \<longleftrightarrow>
     sm_sorted (nameToModuleInfo md) \<and> rm_inv (rangeToModuleInfoPointer md) \<and>
     (\<forall>a name. rm_lookup (rangeToModuleInfoPointer md) a = Some name \<longrightarrow> sm_find (nameToModuleInfo md) name \<noteq> None) \<and>
     (\<forall>name info. sm_find (nameToModuleInfo md) name = Some info \<longrightarrow> info_ok md name info)"

lemma split_roots_all:
  assumes "CHR 0x00 \<notin> set roots"
  shows "split_roots roots 0 = Some [roots]"
proof -
  have "find (\<lambda>i. roots ! i = CHR 0x00) [n..<length roots] = None" for n
    using assms nth_mem by (fastforce simp: find_None_iff)
  moreover have "(char_of (0 :: nat) :: char) = CHR 0x00" by (simp add: char_of_def)
  ultimately show ?thesis by (subst split_roots.simps) (simp only: string_find_def option.case drop_0)
qed

lemma ModuleDirectory_new_ok:
  "ModuleDirectory_new u p r = Some md \<Longrightarrow> md_ok md \<and> module_at md = (\<lambda>a. None) \<and> \<not> isResolved md \<and> md_partition md = p"
  by (auto simp: ModuleDirectory_new_def md_ok_def module_at_def rs.inv_new rs.lookup_new)

lemma AddModule_outcome:
  assumes "md_ok md" "\<not> isResolved md"
  shows "\<exists>md'. AddModule factory path check md = Some md' \<and> md_ok md' \<and> module_at md' = module_at md \<and>
    sm_find (nameToModuleInfo md') path \<noteq> None \<and> md_partition md' = md_partition md \<and> \<not> isResolved md' \<and>
    (\<forall>name. name \<noteq> path \<longrightarrow> sm_find (nameToModuleInfo md') name = sm_find (nameToModuleInfo md) name) \<and>
    (sm_find (nameToModuleInfo md) path \<noteq> None \<longrightarrow> md' = md)"
proof (cases "sm_find (nameToModuleInfo md) path")
  case (Some info)
  then show ?thesis using assms by (simp add: AddModule_def sm_emplace_def)
next
  case None
  have sorted: "sm_sorted (nameToModuleInfo md)" using assms(1) by (simp add: md_ok_def)
  have ptr: "rm_lookup (rangeToModuleInfoPointer md) a \<noteq> Some path" for a
    using assms(1) None unfolding md_ok_def by metis
  let ?info = "\<lambda>moduleImg paths. \<lparr>runtimePath = path, mi_ranges = RangeMapper_new True, moduleImage = moduleImg, incompatiblePaths = paths\<rparr>"
  have "\<exists>moduleImg paths. AddModule factory path check md = Some (md\<lparr>nameToModuleInfo := sm_assign path (?info moduleImg paths) (nameToModuleInfo md)\<rparr>)"
  proof (cases "path = [] \<or> path ! 0 \<noteq> CHR ''/''")
    case True
    then show ?thesis using None assms(2)
      by (intro exI [of _ None] exI [of _ "[]"]) (auto simp: AddModule_def sm_emplace_def)
  next
    case False
    obtain moduleImg paths where f: "find_image factory check path (chapModuleRoots md) = (moduleImg, paths)" by fastforce
    have twice: "sm_assign k v (sm_assign k w m) = sm_assign k v m" for k :: string and v w :: "'a ModuleInfo" and m
      by (induction k w m rule: sm_assign.induct) auto
    show ?thesis using None assms(2) False f
      by (intro exI [of _ moduleImg] exI [of _ paths]) (auto simp: AddModule_def sm_emplace_def twice)
  qed
  then obtain moduleImg paths where
    r: "AddModule factory path check md = Some (md\<lparr>nameToModuleInfo := sm_assign path (?info moduleImg paths) (nameToModuleInfo md)\<rparr>)"
    by blast
  let ?md = "md\<lparr>nameToModuleInfo := sm_assign path (?info moduleImg paths) (nameToModuleInfo md)\<rparr>"
  have "md_ok ?md"
    using assms(1) sorted ptr unfolding md_ok_def info_ok_def
    by (auto simp: sm_find_assign rs.inv_new rs.lookup_new split: if_splits)
  moreover have "module_at ?md = module_at md"
    using ptr by (auto simp: module_at_def fun_eq_iff sm_find_assign sorted split: option.split)
  ultimately show ?thesis using r assms(2) None by (simp add: sm_find_assign sorted)
qed

text \<open>A range that is free for the pointers is free for the module, so the second insertion does not fail.\<close>

lemma md_AddRange_outcome:
  fixes md :: "('m, 'l) ModuleDirectory"
  assumes md: "md_ok md" "\<not> isResolved md" and nowrap: "base \<le> base + sz"
    and info: "sm_find (nameToModuleInfo md) name = Some info"
  defines "free \<equiv> \<forall>a\<in>wrange base sz. module_at md a = None"
  shows "\<exists>md'. md_AddRange base sz adjust name fl md = Some md' \<and> md_ok md' \<and> \<not> isResolved md' \<and>
    module_at md' = (\<lambda>a. if free \<and> a \<in> wrange base sz then Some \<lparr>ri_moduleInfo = name, adjustToModuleVirtualAddress = adjust, ri_flags = ucast fl\<rparr>
                         else module_at md a) \<and>
    claimedRanges (md_partition md') = claimedRanges (md_partition md)"
proof -
  let ?ptr = "rangeToModuleInfoPointer md"
  let ?ri = "\<lparr>ri_moduleInfo = name, adjustToModuleVirtualAddress = adjust, ri_flags = ucast fl\<rparr>"
  note ok = md(1) [unfolded md_ok_def]
  have inv: "rm_inv ?ptr" "sm_sorted (nameToModuleInfo md)" using ok by auto
  have i: "info_ok md n i" if "sm_find (nameToModuleInfo md) n = Some i" for n i using ok that by blast
  have iinfo: "rm_inv (mi_ranges info)" using i [OF info] by (simp add: info_ok_def)
  have at: "(module_at md a = None) = (rm_lookup ?ptr a = None)" for a
  proof (cases "rm_lookup ?ptr a")
    case (Some n)
    then obtain j where j: "sm_find (nameToModuleInfo md) n = Some j" using ok by blast
    then have "info_ok md n j" by (rule i)
    then have "rm_lookup (mi_ranges j) a \<noteq> None" using Some by (simp add: info_ok_def)
    then show ?thesis using Some j by (simp add: module_at_def)
  qed (simp add: module_at_def)
  have acc: "rm_accepts ?ptr base sz name = free" using rs.accepts_iff [OF inv(1) nowrap] by (simp add: free_def at)
  obtain it where m: "MapRange ?ptr base sz name = (rm_insert ?ptr base sz name, it, free)"
    using MapRange_unfold [of ?ptr base sz name] acc by auto
  show ?thesis
  proof (cases free)
    case False
    then show ?thesis using md info m by (intro exI [of _ md]) (simp add: md_AddRange_def)
  next
    case True
    have "rm_lookup (mi_ranges info) a = None" if "a \<in> wrange base sz" for a
    proof -
      have "rm_lookup ?ptr a = None" using True that by (simp add: free_def at)
      then show ?thesis using i [OF info] unfolding info_ok_def by (metis option.distinct(1))
    qed
    then have acc': "rm_accepts (mi_ranges info) base sz ?ri" using rs.accepts_iff [OF iinfo nowrap] by blast
    obtain it' where m': "MapRange (mi_ranges info) base sz ?ri = (rm_insert (mi_ranges info) base sz ?ri, it', True)"
      using MapRange_unfold [of "mi_ranges info" base sz ?ri] acc' by auto
    let ?info = "info\<lparr>mi_ranges := rm_insert (mi_ranges info) base sz ?ri\<rparr>"
    define md' where "md' = md\<lparr>rangeToModuleInfoPointer := rm_insert ?ptr base sz name,
        nameToModuleInfo := sm_assign name ?info (nameToModuleInfo md),
        md_partition := ClaimRange_flags (md_partition md) base sz (USED_BY_MODULE md) (ucast fl) True\<rparr>"
    have lp: "rm_lookup (rangeToModuleInfoPointer md') a = (if a \<in> wrange base sz then Some name else rm_lookup ?ptr a)" for a
      using rs.lookup_insert [OF inv(1) nowrap, of name a] acc True by (simp add: md'_def)
    have lr: "rm_lookup (mi_ranges ?info) a = (if a \<in> wrange base sz then Some ?ri else rm_lookup (mi_ranges info) a)" for a
      using rs.lookup_insert [OF iinfo nowrap, of ?ri a] acc' by simp
    have fn: "sm_find (nameToModuleInfo md') n = (if n = name then Some ?info else sm_find (nameToModuleInfo md) n)" for n
      using inv(2) by (simp add: md'_def sm_find_assign)
    have free_ptr: "rm_lookup ?ptr a = None" if "a \<in> wrange base sz" for a using True that by (auto simp: free_def at)
    have "info_ok md' name ?info"
      using i [OF info] lp lr rs.inv_insert [OF iinfo nowrap] by (auto simp: info_ok_def split: if_splits)
    moreover have "info_ok md' n j" if "n \<noteq> name" "sm_find (nameToModuleInfo md) n = Some j" for n j
      using i [OF that(2)] lp free_ptr that(1) by (auto simp: info_ok_def)
    ultimately have "md_ok md'"
      using ok lp fn rs.inv_insert [OF inv(1) nowrap] unfolding md_ok_def by (auto simp: md'_def split: if_splits)
    moreover have "module_at md' a = (if free \<and> a \<in> wrange base sz then Some ?ri else module_at md a)" for a
      using True info lp lr fn by (auto simp: module_at_def split: option.split)
    moreover have "md_AddRange base sz adjust name fl md = Some md'" using md info m m' True by (simp add: md_AddRange_def md'_def)
    moreover have "claimedRanges (md_partition md') = claimedRanges (md_partition md)" by (simp add: md'_def ClaimRange_flags_fields)
    ultimately show ?thesis using md(2) by (intro exI [of _ md']) (auto simp: md'_def)
  qed
qed

lemma Find_address_outcome:
  assumes "md_ok md"
  shows "case module_at md a of
      None \<Rightarrow> Find_address md a = Some None
    | Some ri \<Rightarrow> \<exists>base sz. Find_address md a = Some (Some (ri_moduleInfo ri, base, sz, a - adjustToModuleVirtualAddress ri)) \<and>
        base \<le> base + sz \<and> a \<in> wrange base sz \<and> (\<forall>a'\<in>wrange base sz. module_at md a' = Some ri)"
proof -
  let ?ptr = "rangeToModuleInfoPointer md"
  note ok = assms [unfolded md_ok_def]
  show ?thesis
  proof (cases "FindRange ?ptr a")
    case None
    then have "rm_lookup ?ptr a = None" using rs.find_None ok by blast
    then show ?thesis using None by (simp add: module_at_def Find_address_def)
  next
    case (Some r)
    obtain b s name where r: "r = (b, s, name)" by (cases r)
    have l: "rm_lookup ?ptr a = Some name" using rs.find_Some [of ?ptr a b s name] ok Some r by blast
    then obtain info where info: "sm_find (nameToModuleInfo md) name = Some info" using ok by blast
    then have i: "info_ok md name info" using ok by blast
    then obtain ri where ri: "rm_lookup (mi_ranges info) a = Some ri" using l by (fastforce simp: info_ok_def)
    then obtain base sz v where f: "FindRange (mi_ranges info) a = Some (base, sz, v)"
      using rs.find_None [of "mi_ranges info" a] i by (cases "FindRange (mi_ranges info) a") (auto simp: info_ok_def)
    have v: "base \<le> base + sz" "a \<in> wrange base sz" "\<forall>a'\<in>wrange base sz. rm_lookup (mi_ranges info) a' = Some v"
      using rs.find_Some [OF _ f] i by (simp_all add: info_ok_def)
    then have "v = ri" using ri by auto
    have "module_at md a' = Some ri" if "a' \<in> wrange base sz" for a'
    proof -
      have x: "rm_lookup (mi_ranges info) a' = Some ri" using v(3) that \<open>v = ri\<close> by blast
      then have "rm_lookup ?ptr a' = Some name" using i by (auto simp: info_ok_def)
      then show ?thesis using x info by (simp add: module_at_def)
    qed
    moreover have "ri_moduleInfo ri = name" "runtimePath info = name" using i ri by (auto simp: info_ok_def)
    ultimately show ?thesis using v(1,2) Some r info f \<open>v = ri\<close> by (auto simp: Find_address_def)
  qed
qed

text \<open>
  The environment variable with the roots is not split: from the start, the character that is looked for is the
  one with number 0, which a string of the environment does not have.
\<close>

lemma one_root:
  "CHR 0x00 \<notin> set roots \<Longrightarrow> \<exists>md. ModuleDirectory_new u p (Some roots) = Some md \<and> chapModuleRoots md = [roots]"
  by (simp add: ModuleDirectory_new_def split_roots_all)

section \<open>Properties\<close>

text \<open>
  C40: Adding a range to a module that has been added sets the module of the addresses of the range, if none of them is
  in a module, and no other; the second insertion never fails.  An address is found exactly if it is in a module,
  with the path, a range around it that is all of this module, and the address relative to the module.  The ranges
  of modules do not become claimed ranges of the partition.
\<close>

theorem ModuleDirectory_refines:
  fixes md :: "('m, 'l) ModuleDirectory"
  assumes "md_ok md" "\<not> isResolved md" "base \<le> base + sz" "Find_module md name \<noteq> None"
  shows "\<exists>md'. md_AddRange base sz adjust name fl md = Some md' \<and> md_ok md' \<and>
    claimedRanges (md_partition md') = claimedRanges (md_partition md) \<and>
    (\<forall>a. module_at md' a =
       (if a \<in> wrange base sz \<and> (\<forall>b\<in>wrange base sz. module_at md b = None)
        then Some \<lparr>ri_moduleInfo = name, adjustToModuleVirtualAddress = adjust, ri_flags = ucast fl\<rparr> else module_at md a)) \<and>
    (\<forall>a. case module_at md' a of
       None \<Rightarrow> Find_address md' a = Some None
     | Some ri \<Rightarrow> \<exists>b s. Find_address md' a = Some (Some (ri_moduleInfo ri, b, s, a - adjustToModuleVirtualAddress ri)) \<and>
         a \<in> wrange b s \<and> (\<forall>a'\<in>wrange b s. module_at md' a' = Some ri))"
proof -
  obtain info where info: "sm_find (nameToModuleInfo md) name = Some info" using assms(4) by (auto simp: Find_module_def)
  obtain md' where md': "md_AddRange base sz adjust name fl md = Some md'" "md_ok md'"
    "module_at md' = (\<lambda>a. if (\<forall>a\<in>wrange base sz. module_at md a = None) \<and> a \<in> wrange base sz
       then Some \<lparr>ri_moduleInfo = name, adjustToModuleVirtualAddress = adjust, ri_flags = ucast fl\<rparr> else module_at md a)"
    "claimedRanges (md_partition md') = claimedRanges (md_partition md)"
    using md_AddRange_outcome [OF assms(1,2,3) info, of adjust fl] by blast
  have "case module_at md' a of
       None \<Rightarrow> Find_address md' a = Some None
     | Some ri \<Rightarrow> \<exists>b s. Find_address md' a = Some (Some (ri_moduleInfo ri, b, s, a - adjustToModuleVirtualAddress ri)) \<and>
         a \<in> wrange b s \<and> (\<forall>a'\<in>wrange b s. module_at md' a' = Some ri)" for a
    using Find_address_outcome [OF md'(2), of a] by (cases "module_at md' a") auto
  then show ?thesis using md' by (intro exI [of _ md']) (auto simp: conj_commute)
qed

text \<open>A directory with one module, which has two ranges.\<close>

definition module_a :: "(nat, nat) ModuleDirectory" where
  "module_a = the (Option.bind (ModuleDirectory_new 9 (VirtualMemoryPartition_new 0 (VirtualAddressMap_new [])) None)
     (\<lambda>md. AddModule (\<lambda>path. if path = ''/a'' then Some 7 else None) ''/a'' (\<lambda>m. m = 7) md))"

lemma module_a_ok: "md_ok module_a" "\<not> isResolved module_a" "Find_module module_a ''/a'' \<noteq> None" "module_at module_a a = None"
proof -
  obtain md where md: "ModuleDirectory_new 9 (VirtualMemoryPartition_new 0 (VirtualAddressMap_new [])) None = Some (md :: (nat, nat) ModuleDirectory)"
    by (simp add: ModuleDirectory_new_def)
  note n = ModuleDirectory_new_ok [OF md]
  show "md_ok module_a" "\<not> isResolved module_a" "Find_module module_a ''/a'' \<noteq> None" "module_at module_a a = None"
    using AddModule_outcome [of md "\<lambda>path. if path = ''/a'' then Some 7 else None" "''/a''" "\<lambda>m. m = 7"] n
    by (auto simp: module_a_def md Find_module_def)
qed

theorem ModuleDirectory_refines_witness:
  "\<exists>md'. md_AddRange 0x1000 0x2000 0x800 ''/a'' 5 module_a = Some md' \<and>
     (\<exists>b s. Find_address md' 0x1810 = Some (Some (''/a'', b, s, 0x1010))) \<and> Find_address md' 0x3000 = Some None"
proof -
  obtain md' where md': "md_AddRange 0x1000 0x2000 0x800 ''/a'' 5 module_a = Some md'"
    "\<forall>a. module_at md' a = (if a \<in> wrange 0x1000 0x2000 \<and> (\<forall>b\<in>wrange 0x1000 0x2000. module_at module_a b = None)
        then Some \<lparr>ri_moduleInfo = ''/a'', adjustToModuleVirtualAddress = 0x800, ri_flags = ucast (5 :: addr)\<rparr> else module_at module_a a)"
    "\<forall>a. case module_at md' a of
       None \<Rightarrow> Find_address md' a = Some None
     | Some ri \<Rightarrow> \<exists>b s. Find_address md' a = Some (Some (ri_moduleInfo ri, b, s, a - adjustToModuleVirtualAddress ri)) \<and>
         a \<in> wrange b s \<and> (\<forall>a'\<in>wrange b s. module_at md' a' = Some ri)"
    using ModuleDirectory_refines [OF module_a_ok(1,2) _ module_a_ok(3), where base = "0x1000" and sz = "0x2000" and adjust = "0x800" and fl = "5"] by auto
  have "module_at md' 0x1810 = Some \<lparr>ri_moduleInfo = ''/a'', adjustToModuleVirtualAddress = 0x800, ri_flags = ucast (5 :: addr)\<rparr>"
    "module_at md' 0x3000 = None"
    using md'(2) module_a_ok(4) by simp_all
  then show ?thesis using md'(1) md'(3) [rule_format, of "0x1810"] md'(3) [rule_format, of "0x3000"] by auto
qed

end
