(* ===== verification/Spec2Isabelle.thy ===== *)
theory Spec2Isabelle
  imports Memory_Partition Index_Set Anchor_Chains Chunk_Walks Free_Lists Alloc_Iterators
    Mmapped_Finder Tc_Finder Go_Finder Python_Finder
    Name_Directories Map_Or_Set_Tagger Vector_Tagger Unordered_Tagger Unmangler_Roundtrip
    Extended_Rule_Table Module_Directory
begin

text \<open>
  A verification development for chap (src/), which reads the memory of a process from a core file and says
  of every allocation whether it is used, free or leaked, and what refers to it.

  \<^bold>\<open>The program.\<close>  The core file gives a \<open>VirtualAddressMap\<close> (VirtualAddressMap.h), a \<open>RangeMapper\<close>
  (RangeMapper.h) from ranges of addresses to places in the file, read through a caching \<open>Reader\<close>.  A
  \<open>VirtualMemoryPartition\<close> says which part of the process claims which range.  The allocators are
  recognised: for libc malloc the arenas and heaps (LibcMalloc/InfrastructureFinder.h), whose chunks the
  finders \<open>MainArenaAllocationFinder\<close> and \<open>HeapAllocationFinder\<close> walk.  The \<open>Directory\<close> (Allocations/Directory.h)
  merges the allocations of all finders in order of address and keeps the nesting of allocations.  The
  \<open>Graph\<close> (Allocations/Graph.h) finds the references between allocations, and from static memory, stacks
  (\<open>StackRegistry\<close>), registers (\<open>ThreadMap\<close>) and external sources, the anchors, which make the difference
  between used and leaked.  The iterators, tags and visitors behind the commands are queries of it.

  \<^bold>\<open>Theories.\<close>  Each holds one component; where the proofs are long they have a theory of their own.
  \<^item> Chap\_Prelude: machine types, collections of facts, words and lists.  Std\_Map: \<open>std::map\<close> as an association
    list in order of key.  Range\_Store: the locale of a store of disjoint ranges.
  \<^item> Range\_Mapper: RangeMapper.h, a refinement of that locale.  Virtual\_Address\_Map: VirtualAddressMap.h, the
    map, its iterator and the Reader with every typed read.  Memory\_Reads: reads without the cache.
  \<^item> Memory\_Partition: VirtualMemoryPartition.h.  Stack\_Registry: StackRegistry.h and ThreadMap.h.
  \<^item> Module\_Directory: ModuleDirectory.h, the modules and the ranges they use.
  \<^item> Index\_Set: Allocations/Set.h and Iterators/Derived.h.  Indexed\_Distances: IndexedDistances.h, an array
    that grows its elements from 8 to 64 bits.
  \<^item> Alloc\_Packing: the packed class \<open>Directory::Allocation\<close>.  Alloc\_Directory: state, queries and the consumption
    of one allocation.  Nested\_Ranges: laminar families of ranges.  Alloc\_Resolve: the heap of finders and
    \<open>ResolveAllocationBoundaries\<close>.
  \<^item> Contiguous\_Image: ContiguousImage.h.  Alloc\_Graph and Graph\_Edges: the edges of Graph.h.  Graph\_Anchors,
    Anchor\_Distances and Anchor\_Points: the constructor, the anchor points and the marking.  Graph\_Queries and
    Anchor\_Chains: the queries and the search for chains.
  \<^item> Libc\_Arenas: what InfrastructureFinder.h has found.  Corruption\_Skipper and Corruption\_Chains:
    CorruptionSkipper.h.  Free\_Status and Free\_Lists: FastBinFreeStatusFixer.h and
    DoublyLinkedListCorruptionChecker.h.  Arena\_Finders and Chunk\_Walks: the two finders of libc malloc.
  \<^item> Finder\_Contract: what the directory expects of a finder, and the finders that report group by group.
    Mmapped\_Finder: LibcMalloc/MmappedAllocationFinder.h.  Page\_Maps: the iterators over page maps of TCMalloc and
    GoLang.  Tc\_Finder, Go\_Finder, Python\_Finder: the allocation finders of these three.
  \<^item> Edge\_Predicates: EdgePredicate.h.  Tag\_Holder: TagHolder.h.  Alloc\_Iterators: the iterators of
    Allocations/Iterators/ and the contract they share.
  \<^item> Name\_Directories: SignatureDirectory.h and AnchorDirectory.h.  Tagger\_Runner: Tagger.h and TaggerRunner.h.
    Tagging: the process and the tags that the taggers of containers share.  Map\_Or\_Set\_Tagger,
    Vector\_Tagger, Unordered\_Tagger: three taggers of CPlusPlus/.  Example\_Process: processes built from lists of
    words, allocations and references, for concrete cases.
  \<^item> Name\_Unmangler: CPlusPlus/Unmangler.h, the parser of mangled names.  Unmangler\_Termination and
    Unmangler\_Roundtrip: that it ends, and what it makes of the mangled names of types.
  \<^item> Hex\_Numbers: numbers in commands.  Command\_Line: the input and the context of a command, from
    Commands/Runner.h.  Command\_Runner: its loop over the commands, with scripts and redirection.
  \<^item> Signature\_Checker: SignatureChecker.h and ReferenceConstraint.h.
  \<^item> Extended\_Visit: the walk of ExtendedVisitor.h.  Extension\_Search, Extended\_Refines and Extended\_Members: the
    search it implements, the simulation, and what is visited.  Text\_Patterns: regular expressions.
    Extended\_Rules and Extended\_Rule\_Table: the arguments of the visitor and the table of its rules.

  \<^bold>\<open>How code becomes definitions.\<close>  The templates are taken at \<open>Offset = uint64_t\<close>: an offset is a 64 word whose
  arithmetic wraps around.  A class is a record, a method a function on it that returns the new record.
  Indices into vectors are natural numbers.  \<open>abort()\<close>, an uncaught exception, an access out of the range of a
  vector and a loop that does not end are the value \<open>None\<close>; a caught \<open>NotMapped\<close> is a branch.  Loops that end by
  their own measure are functions with a termination proof.  Loops that may not end are
  \<open>partial_function (option)\<close>, so that a theorem that one returns some value says that it ends.
  Messages to the error stream are left out, or kept as a list of reports where they are the result.

  \<^bold>\<open>What the theorems show.\<close>  A store of ranges is a partial function from addresses, and each operation has its
  effect on it and no other (Range\_Mapper, Stack\_Registry, Memory\_Partition, Module\_Directory).  Reads return what the map says,
  whatever the cache holds.  The directory holds the nested allocations that the finders report and
  finds the innermost one at an address (Alloc\_Directory, Alloc\_Resolve).  The edges of the graph are the
  references in memory, and leaked and anchored mean what reachability says (Graph\_Edges, Anchor\_Chains).  The
  walk over libc chunks reports every chunk of sound runs and ends on corrupt ones (Chunk\_Walks,
  Corruption\_Chains, Free\_Lists).  Every other finder reports exactly the allocations that the structures of its
  allocator list, in the order that the merge needs (Mmapped\_Finder, Tc\_Finder, Go\_Finder, Python\_Finder).  The runner offers every
  allocation to every tagger until the tagger is finished with it, and the taggers tag exactly the nodes and
  bodies of the containers that are in memory (Tagger\_Runner, Map\_Or\_Set\_Tagger, Vector\_Tagger,
  Unordered\_Tagger).  The unmangler ends on every string and gives back every type of a large class whose
  name has no substitutions (Unmangler\_Termination, Unmangler\_Roundtrip).  Commands are read as they are written, each has the effect that is
  specified for it, and scripts run in place of the commands that source them (Command\_Runner).  Texts of signatures and constraints accept what they describe
  (Signature\_Checker), and the extended visitor visits the closure of its members under its rules
  (Extended\_Refines, Extended\_Members), which are the rules of its arguments (Extended\_Rule\_Table).  Some theorems are about flaws: a merge of five finders that does not return,
  searches that miss their target, a walk that does not end on a cycle.
  Where the code does not do what its comments or its purpose say on some inputs, the theorem leaves these out by a
  hypothesis with a name of its own, and a lemma beside it shows what the code does: \<open>lists_within\<close> and
  \<open>mark_manual_past_the_end\<close> (Go\_Finder), \<open>large_load_factor\<close> (Unordered\_Tagger), \<open>number_or_type\<close> and
  \<open>unused_before_used\<close> (Signature\_Checker), empty lines and lone bytes C2 (Command\_Line).

  \<^bold>\<open>Bounds.\<close>  Theorems that need it assume that ranges stay below the end of the address space, as a loop over
  words wraps around there otherwise.  Fuel is used where the code counts: the loop guard of 10000000 in
  \<open>SkipArenaCorruption\<close> and the number of allocations in \<open>MarkFastBinItemsAsFree\<close>.  The unmangler has one more unit of
  fuel than there are characters, which Unmangler\_Termination shows to be enough.

  \<^bold>\<open>Not modelled.\<close>  How the classes \<open>InfrastructureFinder\<close> of LibcMalloc, TCMalloc, GoLang and Python guess the layout
  of their allocator, which the models take as a record of what they found; the taggers of other containers; the ELF
  reader and the Linux process image (Linux/); help texts, completion and the printing of results (Commands/,
  Visitors/, the describers).
\<close>

end
